(* ===== verification/Gcl_Prelude.thy ===== *)
theory Gcl_Prelude
  imports Main "HOL-Library.Word"
begin

text \<open>
  Shared vocabulary of the development.

  \<^item> the outcomes of an operation of the library: a value, a C++ exception, a thread that goes to
    sleep on a condition variable, or undefined behaviour (a null or dangling pointer);
  \<^item> \<open>size_t\<close> as a 64 bit word;
  \<^item> the arithmetic of a ring buffer of \<open>n\<close> slots with a read index \<open>lo\<close> and a write index \<open>hi\<close>,
    used by \<open>include/buffer_queue.h\<close> and by \<open>samples/dedup/queue.h\<close>;
  \<^item> the collections \<open>outcome_simps\<close> and \<open>ring_simps\<close>.
\<close>

named_theorems outcome_simps \<open>equations that unfold the outcome combinators\<close>
named_theorems ring_simps \<open>facts about the indices and contents of a ring buffer\<close>

type_synonym size_t = "64 word"

subsection \<open>Outcomes\<close>

datatype queue_op_status = Success | Empty | Full | Closed | Busy

datatype cpp_exn =
    Invalid_argument string
  | Logic_error string
  | Runtime_error string
  | Out_of_range string
  | Bad_array_length
  | System_error
  | Closed_error string
  | Thrown_status queue_op_status
  | User_exn

datatype 'r outcome = Returns 'r | Throws cpp_exn | Sleeps | Undefined

text \<open>Sequencing of two state transformers: an operation that does not return ends the sequence.\<close>

definition bind_op ::
  "('s \<Rightarrow> 'r outcome \<times> 's) \<Rightarrow> ('r \<Rightarrow> 's \<Rightarrow> 'u outcome \<times> 's) \<Rightarrow> 's \<Rightarrow> 'u outcome \<times> 's" where
  "bind_op m k s =
     (case m s of
        (Returns r, s') \<Rightarrow> k r s'
      | (Throws e, s') \<Rightarrow> (Throws e, s')
      | (Sleeps, s') \<Rightarrow> (Sleeps, s')
      | (Undefined, s') \<Rightarrow> (Undefined, s'))"

text \<open>\<open>try { m } catch (...) { h; throw; }\<close>: the handler runs and the exception is thrown again.\<close>

definition catch_rethrow ::
  "('s \<Rightarrow> 's) \<Rightarrow> ('s \<Rightarrow> 'r outcome \<times> 's) \<Rightarrow> 's \<Rightarrow> 'r outcome \<times> 's" where
  "catch_rethrow h m s =
     (case m s of
        (Throws e, s') \<Rightarrow> (Throws e, h s')
      | (r, s') \<Rightarrow> (r, s'))"

lemma bind_op_simps [outcome_simps]:
  "m s = (Returns r, s') \<Longrightarrow> bind_op m k s = k r s'"
  "m s = (Throws e, s') \<Longrightarrow> bind_op m k s = (Throws e, s')"
  "m s = (Sleeps, s') \<Longrightarrow> bind_op m k s = (Sleeps, s')"
  "m s = (Undefined, s') \<Longrightarrow> bind_op m k s = (Undefined, s')"
  by (simp_all add: bind_op_def)

lemma catch_rethrow_simps [outcome_simps]:
  "m s = (Returns r, s') \<Longrightarrow> catch_rethrow h m s = (Returns r, s')"
  "m s = (Throws e, s') \<Longrightarrow> catch_rethrow h m s = (Throws e, h s')"
  "m s = (Sleeps, s') \<Longrightarrow> catch_rethrow h m s = (Sleeps, s')"
  "m s = (Undefined, s') \<Longrightarrow> catch_rethrow h m s = (Undefined, s')"
  by (simp_all add: catch_rethrow_def)

subsection \<open>Ring buffers\<close>

definition ring_next :: "nat \<Rightarrow> nat \<Rightarrow> nat" where
  "ring_next n i = (i + 1) mod n"

definition ring_len :: "nat \<Rightarrow> nat \<Rightarrow> nat \<Rightarrow> nat" where
  "ring_len n lo hi = (hi + n - lo) mod n"

definition ring_list :: "'a list \<Rightarrow> nat \<Rightarrow> nat \<Rightarrow> 'a list" where
  "ring_list buf lo hi =
     map (\<lambda>k. buf ! ((lo + k) mod length buf)) [0 ..< ring_len (length buf) lo hi]"

lemma ring_next_eq: "i < n \<Longrightarrow> ring_next n i = (if i + 1 = n then 0 else i + 1)"
  by (auto simp: ring_next_def)

lemma ring_next_less [ring_simps, intro]: "0 < n \<Longrightarrow> ring_next n i < n"
  by (simp add: ring_next_def)

lemma mod_below_twice: "(m::nat) < 2 * n \<Longrightarrow> m mod n = (if m < n then m else m - n)"
  by (simp add: mod_if)

lemma ring_len_eq:
  "lo < n \<Longrightarrow> hi < n \<Longrightarrow> ring_len n lo hi = (if lo \<le> hi then hi - lo else hi + n - lo)"
  by (simp add: ring_len_def mod_below_twice)

lemma ring_len_less [ring_simps]: "lo < n \<Longrightarrow> hi < n \<Longrightarrow> ring_len n lo hi < n"
  by (auto simp: ring_len_eq)

lemma ring_len_0_iff [ring_simps]:
  "lo < n \<Longrightarrow> hi < n \<Longrightarrow> ring_len n lo hi = 0 \<longleftrightarrow> lo = hi"
  by (auto simp: ring_len_eq)

lemma ring_full_iff [ring_simps]:
  "lo < n \<Longrightarrow> hi < n \<Longrightarrow> ring_next n hi = lo \<longleftrightarrow> ring_len n lo hi = n - 1"
  by (auto simp: ring_len_eq ring_next_eq)

lemma ring_len_push [ring_simps]:
  "lo < n \<Longrightarrow> hi < n \<Longrightarrow> ring_next n hi \<noteq> lo \<Longrightarrow>
   ring_len n lo (ring_next n hi) = Suc (ring_len n lo hi)"
  by (auto simp: ring_len_eq ring_next_eq)

lemma ring_len_pop [ring_simps]:
  "lo < n \<Longrightarrow> hi < n \<Longrightarrow> lo \<noteq> hi \<Longrightarrow>
   ring_len n lo hi = Suc (ring_len n (ring_next n lo) hi)"
  by (auto simp: ring_len_eq ring_next_eq)

lemma ring_slot_eq:
  "lo < (n::nat) \<Longrightarrow> k < n \<Longrightarrow> (lo + k) mod n = (if lo + k < n then lo + k else lo + k - n)"
  using mod_below_twice [of "lo + k" n] by simp

lemma length_ring_list [ring_simps]:
  "length (ring_list buf lo hi) = ring_len (length buf) lo hi"
  by (simp add: ring_list_def)

lemma ring_list_Nil_iff [ring_simps]:
  "lo < length buf \<Longrightarrow> hi < length buf \<Longrightarrow> ring_list buf lo hi = [] \<longleftrightarrow> lo = hi"
  by (metis length_0_conv length_ring_list ring_len_0_iff)

lemma ring_list_push [ring_simps]:
  assumes "lo < length buf" and "hi < length buf" and "ring_next (length buf) hi \<noteq> lo"
  shows "ring_list (buf[hi := x]) lo (ring_next (length buf) hi) = ring_list buf lo hi @ [x]"
proof -
  let ?n = "length buf" and ?l = "ring_len (length buf) lo hi"
  have len: "ring_len ?n lo (ring_next ?n hi) = Suc ?l"
    using assms by (simp add: ring_len_push)
  have last: "(lo + ?l) mod ?n = hi"
    using assms by (auto simp: ring_len_eq ring_slot_eq)
  have "(lo + k) mod ?n \<noteq> hi" if "k < ?l" for k
    using that assms by (auto simp: ring_len_eq ring_next_eq ring_slot_eq split: if_splits)
  then have "buf[hi := x] ! ((lo + k) mod ?n) = buf ! ((lo + k) mod ?n)" if "k < ?l" for k
    using that by (metis nth_list_update_neq)
  then show ?thesis
    using assms by (simp add: ring_list_def len last)
qed

lemma ring_list_pop [ring_simps]:
  assumes "lo < length buf" and "hi < length buf" and "lo \<noteq> hi"
  shows "ring_list buf lo hi = buf ! lo # ring_list buf (ring_next (length buf) lo) hi"
proof -
  let ?n = "length buf" and ?l = "ring_len (length buf) (ring_next (length buf) lo) hi"
  have len: "ring_len ?n lo hi = Suc ?l"
    using assms by (simp add: ring_len_pop)
  have slot: "Suc (lo + k) mod ?n = (ring_next ?n lo + k) mod ?n" for k
    by (simp add: ring_next_def mod_simps)
  show ?thesis
    using assms(1) unfolding ring_list_def len
    by (simp add: upt_conv_Cons map_Suc_upt [symmetric] comp_def slot del: upt_Suc)
qed

text \<open>Within a window of \<open>c\<close> consecutive numbers, the slot \<open>mod c\<close> determines the number.\<close>

lemma mod_window:
  fixes a x y c :: nat
  assumes "x mod c = y mod c" and "a \<le> x" "x < a + c" and "a \<le> y" "y < a + c"
  shows "x = y"
proof -
  have *: "u = v" if "u mod c = v mod c" "u \<le> v" "v < u + c" for u v
  proof -
    from that have "c dvd v - u" by (metis mod_eq_dvd_iff_nat)
    with that show ?thesis using dvd_imp_le [of c "v - u"] by (cases "v - u = 0") auto
  qed
  show ?thesis
  proof (cases "x \<le> y")
    case True
    then show ?thesis using * [of x y] assms by simp
  next
    case False
    then show ?thesis using * [of y x] assms by simp
  qed
qed

end
