(* ===== verification/Queue_Base.thy ===== *)
theory Queue_Base
  imports Gcl_Prelude
begin

text \<open>
  \<open>include/queue_base.h\<close>: the virtual interface of a queue, the ends, wrappers and owners that
  forward to it through a pointer, and the iterators over an end.

  A queue is a dispatcher \<open>'a queue_call \<Rightarrow> 'q \<Rightarrow> 'a reply outcome \<times> 'q\<close>: one constructor of
  \<open>queue_call\<close> per virtual function of \<open>queue_base\<close>. Objects reached through pointers live in a
  memory \<open>nat \<rightharpoonup> 'q\<close>; using a null or dangling pointer is \<open>Undefined\<close>.

  The locale \<open>bounded_queue\<close> is the contract that every bounded FIFO queue of the repository
  provides; its lemmas say what any run of pushes and pops delivers.
\<close>

subsection \<open>The queue interface\<close>

datatype 'a queue_call =
    Q_close | Q_is_closed | Q_is_empty
  | Q_push 'a | Q_wait_push 'a | Q_try_push 'a | Q_nonblocking_push 'a
  | Q_push_move 'a | Q_wait_push_move 'a | Q_try_push_move 'a | Q_nonblocking_push_move 'a
  | Q_value_pop | Q_wait_pop | Q_try_pop | Q_nonblocking_pop

datatype 'a reply =
    Unit_reply
  | Bool_reply bool
  | Status_reply queue_op_status
  | Pop_reply queue_op_status "'a option"
  | Value_reply 'a

type_synonym ('q, 'a) dispatcher = "'a queue_call \<Rightarrow> 'q \<Rightarrow> 'a reply outcome \<times> 'q"
type_synonym 'q memory = "nat \<rightharpoonup> 'q"

definition via :: "nat option \<Rightarrow> ('q \<Rightarrow> 'r outcome \<times> 'q) \<Rightarrow> 'q memory \<Rightarrow> 'r outcome \<times> 'q memory" where
  "via p f h =
     (case p of
        None \<Rightarrow> (Undefined, h)
      | Some a \<Rightarrow>
          (case h a of
             None \<Rightarrow> (Undefined, h)
           | Some q \<Rightarrow> (fst (f q), h(a \<mapsto> snd (f q)))))"

lemma via_simps [outcome_simps]:
  "via None f h = (Undefined, h)"
  "h a = None \<Longrightarrow> via (Some a) f h = (Undefined, h)"
  "h a = Some q \<Longrightarrow> via (Some a) f h = (fst (f q), h(a \<mapsto> snd (f q)))"
  by (simp_all add: via_def)

subsection \<open>Ends\<close>

datatype 'a back_call =
    B_close | B_is_closed | B_is_empty
  | B_push 'a | B_wait_push 'a | B_try_push 'a | B_nonblocking_push 'a
  | B_push_move 'a | B_wait_push_move 'a | B_try_push_move 'a | B_nonblocking_push_move 'a
  | B_has_queue

datatype front_call =
    F_close | F_is_closed | F_is_empty
  | F_value_pop | F_wait_pop | F_try_pop | F_nonblocking_pop
  | F_has_queue

fun generic_queue_back ::
  "('q, 'a) dispatcher \<Rightarrow> nat option \<Rightarrow> 'a back_call \<Rightarrow> 'q memory \<Rightarrow> 'a reply outcome \<times> 'q memory" where
  "generic_queue_back d p B_close = via p (d Q_close)"
| "generic_queue_back d p B_is_closed = via p (d Q_is_closed)"
| "generic_queue_back d p B_is_empty = via p (d Q_is_empty)"
| "generic_queue_back d p (B_push x) = via p (d (Q_push x))"
| "generic_queue_back d p (B_wait_push x) = via p (d (Q_wait_push x))"
| "generic_queue_back d p (B_try_push x) = via p (d (Q_try_push x))"
| "generic_queue_back d p (B_nonblocking_push x) = via p (d (Q_nonblocking_push x))"
| "generic_queue_back d p (B_push_move x) = via p (d (Q_push_move x))"
| "generic_queue_back d p (B_wait_push_move x) = via p (d (Q_wait_push_move x))"
| "generic_queue_back d p (B_try_push_move x) = via p (d (Q_try_push_move x))"
| "generic_queue_back d p (B_nonblocking_push_move x) = via p (d (Q_nonblocking_push_move x))"
| "generic_queue_back d p B_has_queue = Pair (Returns (Bool_reply (p \<noteq> None)))"

fun generic_queue_front ::
  "('q, 'a) dispatcher \<Rightarrow> nat option \<Rightarrow> front_call \<Rightarrow> 'q memory \<Rightarrow> 'a reply outcome \<times> 'q memory" where
  "generic_queue_front d p F_close = via p (d Q_close)"
| "generic_queue_front d p F_is_closed = via p (d Q_is_closed)"
| "generic_queue_front d p F_is_empty = via p (d Q_is_empty)"
| "generic_queue_front d p F_value_pop = via p (d Q_value_pop)"
| "generic_queue_front d p F_wait_pop = via p (d Q_wait_pop)"
| "generic_queue_front d p F_try_pop = via p (d Q_try_pop)"
| "generic_queue_front d p F_nonblocking_pop = via p (d Q_nonblocking_pop)"
| "generic_queue_front d p F_has_queue = Pair (Returns (Bool_reply (p \<noteq> None)))"

subsection \<open>Wrapper, owner and object\<close>

text \<open>
  \<open>queue_wrapper\<close> and \<open>queue_owner\<close> hold a pointer to the queue, \<open>queue_object\<close> holds the queue
  itself. Each overrides every virtual function with the same function of the queue it holds.
\<close>

fun queue_wrapper :: "('q, 'a) dispatcher \<Rightarrow> nat option \<Rightarrow> ('q memory, 'a) dispatcher" where
  "queue_wrapper d ptr Q_close = via ptr (d Q_close)"
| "queue_wrapper d ptr Q_is_closed = via ptr (d Q_is_closed)"
| "queue_wrapper d ptr Q_is_empty = via ptr (d Q_is_empty)"
| "queue_wrapper d ptr (Q_push x) = via ptr (d (Q_push x))"
| "queue_wrapper d ptr (Q_wait_push x) = via ptr (d (Q_wait_push x))"
| "queue_wrapper d ptr (Q_try_push x) = via ptr (d (Q_try_push x))"
| "queue_wrapper d ptr (Q_nonblocking_push x) = via ptr (d (Q_nonblocking_push x))"
| "queue_wrapper d ptr (Q_push_move x) = via ptr (d (Q_push_move x))"
| "queue_wrapper d ptr (Q_wait_push_move x) = via ptr (d (Q_wait_push_move x))"
| "queue_wrapper d ptr (Q_try_push_move x) = via ptr (d (Q_try_push_move x))"
| "queue_wrapper d ptr (Q_nonblocking_push_move x) = via ptr (d (Q_nonblocking_push_move x))"
| "queue_wrapper d ptr Q_value_pop = via ptr (d Q_value_pop)"
| "queue_wrapper d ptr Q_wait_pop = via ptr (d Q_wait_pop)"
| "queue_wrapper d ptr Q_try_pop = via ptr (d Q_try_pop)"
| "queue_wrapper d ptr Q_nonblocking_pop = via ptr (d Q_nonblocking_pop)"

record 'q queue_counted =
  bk :: int
  ft :: int
  held :: 'q

definition on_held :: "('q \<Rightarrow> 'r \<times> 'q) \<Rightarrow> 'q queue_counted \<Rightarrow> 'r \<times> 'q queue_counted" where
  "on_held f c = (fst (f (held c)), c\<lparr>held := snd (f (held c))\<rparr>)"

fun queue_object :: "('q, 'a) dispatcher \<Rightarrow> ('q queue_counted, 'a) dispatcher" where
  "queue_object d Q_close = on_held (d Q_close)"
| "queue_object d Q_is_closed = on_held (d Q_is_closed)"
| "queue_object d Q_is_empty = on_held (d Q_is_empty)"
| "queue_object d (Q_push x) = on_held (d (Q_push x))"
| "queue_object d (Q_wait_push x) = on_held (d (Q_wait_push x))"
| "queue_object d (Q_try_push x) = on_held (d (Q_try_push x))"
| "queue_object d (Q_nonblocking_push x) = on_held (d (Q_nonblocking_push x))"
| "queue_object d (Q_push_move x) = on_held (d (Q_push_move x))"
| "queue_object d (Q_wait_push_move x) = on_held (d (Q_wait_push_move x))"
| "queue_object d (Q_try_push_move x) = on_held (d (Q_try_push_move x))"
| "queue_object d (Q_nonblocking_push_move x) = on_held (d (Q_nonblocking_push_move x))"
| "queue_object d Q_value_pop = on_held (d Q_value_pop)"
| "queue_object d Q_wait_pop = on_held (d Q_wait_pop)"
| "queue_object d Q_try_pop = on_held (d Q_try_pop)"
| "queue_object d Q_nonblocking_pop = on_held (d Q_nonblocking_pop)"

lemma queue_wrapper_via: "queue_wrapper d ptr c = via ptr (d c)"
  by (cases c) simp_all

lemma queue_object_on_held: "queue_object d c = on_held (d c)"
  by (cases c) simp_all

subsection \<open>Iterators\<close>

text \<open>
  A \<open>queue_back_iter\<close> is the pointer \<open>q_\<close>; assigning to it pushes, and any status but success
  nulls the pointer and is thrown. A \<open>queue_front_iter\<close> adds the last value popped.
\<close>

definition back_iter_assign ::
  "('a \<Rightarrow> 'q \<Rightarrow> queue_op_status outcome \<times> 'q) \<Rightarrow> 'a \<Rightarrow> nat option \<times> 'q memory
   \<Rightarrow> unit outcome \<times> nat option \<times> 'q memory" where
  "back_iter_assign wait_push v st =
     (case via (fst st) (wait_push v) (snd st) of
        (Returns s, h) \<Rightarrow>
          if s \<noteq> Success then (Throws (Thrown_status s), None, h) else (Returns (), fst st, h)
      | (Throws e, h) \<Rightarrow> (Throws e, fst st, h)
      | (Sleeps, h) \<Rightarrow> (Sleeps, fst st, h)
      | (Undefined, h) \<Rightarrow> (Undefined, fst st, h))"

record 'a front_iter =
  fi_queue :: "nat option"
  fi_value :: "'a option"

definition front_iter_next ::
  "('q \<Rightarrow> (queue_op_status \<times> 'a option) outcome \<times> 'q) \<Rightarrow> 'a front_iter \<times> 'q memory
   \<Rightarrow> unit outcome \<times> 'a front_iter \<times> 'q memory" where
  "front_iter_next wait_pop st =
     (let it = fst st in
      case via (fi_queue it) wait_pop (snd st) of
        (Returns (s, v), h) \<Rightarrow>
          (let it1 = (case v of None \<Rightarrow> it | Some x \<Rightarrow> it\<lparr>fi_value := Some x\<rparr>)
           in (Returns (), if s = Closed then it1\<lparr>fi_queue := None\<rparr> else it1, h))
      | (Throws e, h) \<Rightarrow> (Throws e, it, h)
      | (Sleeps, h) \<Rightarrow> (Sleeps, it, h)
      | (Undefined, h) \<Rightarrow> (Undefined, it, h))"

text \<open>The constructors and comparisons: \<open>begin()\<close> pops the first value, \<open>end()\<close> is the null iterator.\<close>

definition front_iter_begin ::
  "('q \<Rightarrow> (queue_op_status \<times> 'a option) outcome \<times> 'q) \<Rightarrow> nat option \<Rightarrow> 'q memory
   \<Rightarrow> unit outcome \<times> 'a front_iter \<times> 'q memory" where
  "front_iter_begin wait_pop p h =
     (let it = \<lparr>fi_queue = p, fi_value = None\<rparr>
      in if p \<noteq> None then front_iter_next wait_pop (it, h) else (Returns (), it, h))"

definition front_iter_eq :: "'a front_iter \<Rightarrow> 'a front_iter \<Rightarrow> bool" where
  "front_iter_eq a b \<longleftrightarrow> fi_queue a = fi_queue b"

definition front_iter_end :: "'a front_iter" where
  "front_iter_end = \<lparr>fi_queue = None, fi_value = None\<rparr>"

subsection \<open>The contract of a bounded FIFO queue\<close>

definition spec_offer :: "nat \<Rightarrow> bool \<Rightarrow> 'a list \<Rightarrow> 'a \<Rightarrow> queue_op_status \<times> 'a list" where
  "spec_offer c shut xs x =
     (if shut then (Closed, xs)
      else if length xs < c then (Success, xs @ [x])
      else (Full, xs))"

definition spec_take :: "bool \<Rightarrow> 'a list \<Rightarrow> (queue_op_status \<times> 'a option) \<times> 'a list" where
  "spec_take shut xs =
     (case xs of
        [] \<Rightarrow> ((if shut then Closed else Empty, None), [])
      | x # ys \<Rightarrow> ((Success, Some x), ys))"

datatype 'a queue_op = Offer 'a | Take

text \<open>A run of operations: the values accepted, the values delivered, and the queue after it.\<close>

fun run_ops ::
  "('a \<Rightarrow> 'q \<Rightarrow> queue_op_status \<times> 'q) \<Rightarrow> ('q \<Rightarrow> (queue_op_status \<times> 'a option) \<times> 'q)
   \<Rightarrow> 'a queue_op list \<Rightarrow> 'q \<Rightarrow> 'a list \<times> 'a list \<times> 'q" where
  "run_ops offer fetch [] q = ([], [], q)"
| "run_ops offer fetch (Offer x # ops) q =
     (case offer x q of
        (s, q1) \<Rightarrow>
          (case run_ops offer fetch ops q1 of
             (ins, outs, q2) \<Rightarrow> (if s = Success then x # ins else ins, outs, q2)))"
| "run_ops offer fetch (Take # ops) q =
     (case fetch q of
        ((s, v), q1) \<Rightarrow>
          (case run_ops offer fetch ops q1 of
             (ins, outs, q2) \<Rightarrow> (ins, (case v of None \<Rightarrow> outs | Some x \<Rightarrow> x # outs), q2)))"

locale bounded_queue =
  fixes invar :: "'q \<Rightarrow> bool"
    and contents :: "'q \<Rightarrow> 'a list"
    and cap :: "'q \<Rightarrow> nat"
    and shut :: "'q \<Rightarrow> bool"
    and offer :: "'a \<Rightarrow> 'q \<Rightarrow> queue_op_status \<times> 'q"
    and fetch :: "'q \<Rightarrow> (queue_op_status \<times> 'a option) \<times> 'q"
  assumes bound: "invar q \<Longrightarrow> length (contents q) \<le> cap q"
    and offer_spec: "invar q \<Longrightarrow>
      (fst (offer x q), contents (snd (offer x q))) = spec_offer (cap q) (shut q) (contents q) x"
    and offer_keeps: "invar q \<Longrightarrow>
      invar (snd (offer x q)) \<and> cap (snd (offer x q)) = cap q \<and> shut (snd (offer x q)) = shut q"
    and fetch_spec: "invar q \<Longrightarrow>
      (fst (fetch q), contents (snd (fetch q))) = spec_take (shut q) (contents q)"
    and fetch_keeps: "invar q \<Longrightarrow>
      invar (snd (fetch q)) \<and> cap (snd (fetch q)) = cap q \<and> shut (snd (fetch q)) = shut q"
begin

lemma offer_cases:
  assumes "invar q" and "offer x q = (s, q')"
  shows "invar q' \<and> cap q' = cap q \<and> shut q' = shut q \<and>
         contents q' = (if s = Success then contents q @ [x] else contents q)"
  using offer_spec [OF assms(1), of x] offer_keeps [OF assms(1), of x] assms(2)
  by (auto simp: spec_offer_def split: if_splits)

lemma fetch_cases:
  assumes "invar q" and "fetch q = ((s, v), q')"
  shows "invar q' \<and> cap q' = cap q \<and> shut q' = shut q \<and>
         contents q = (case v of None \<Rightarrow> [] | Some x \<Rightarrow> [x]) @ contents q'"
  using fetch_spec [OF assms(1)] fetch_keeps [OF assms(1)] assms(2)
  by (auto simp: spec_take_def split: list.splits)

lemma run_fifo:
  assumes "invar q" and "run_ops offer fetch ops q = (ins, outs, q')"
  shows "invar q' \<and> cap q' = cap q \<and> contents q @ ins = outs @ contents q'"
  using assms
proof (induction ops arbitrary: q ins outs q')
  case Nil
  then show ?case by simp
next
  case (Cons op ops)
  show ?case
  proof (cases op)
    case (Offer x)
    obtain s q1 where o: "offer x q = (s, q1)" by fastforce
    obtain ins1 outs1 q2 where r: "run_ops offer fetch ops q1 = (ins1, outs1, q2)"
      by (metis prod_cases3)
    from offer_cases [OF Cons.prems(1) o] Cons.IH [OF _ r] Cons.prems(2) show ?thesis
      by (auto simp: Offer o r split: if_splits)
  next
    case Take
    obtain s v q1 where t: "fetch q = ((s, v), q1)" by (metis prod.exhaust)
    obtain ins1 outs1 q2 where r: "run_ops offer fetch ops q1 = (ins1, outs1, q2)"
      by (metis prod_cases3)
    from fetch_cases [OF Cons.prems(1) t] Cons.IH [OF _ r] Cons.prems(2) show ?thesis
      by (auto simp: Take t r split: option.splits)
  qed
qed

lemma run_bounded:
  assumes "invar q" and "run_ops offer fetch ops q = (ins, outs, q')"
  shows "length outs \<le> length (contents q) + length ins \<and>
         length (contents q) + length ins \<le> length outs + cap q"
proof -
  from run_fifo [OF assms] have "invar q'" and "cap q' = cap q"
    and eq: "contents q @ ins = outs @ contents q'" by auto
  with bound [of q'] have "length (contents q') \<le> cap q" by simp
  moreover from eq have "length (contents q) + length ins = length outs + length (contents q')"
    by (metis length_append)
  ultimately show ?thesis by simp
qed

end

end
