(* ===== verification/Buffer_Queue.thy ===== *)
theory Buffer_Queue
  imports Queue_Base
begin

text \<open>
  \<open>include/buffer_queue.h\<close>: the blocking bounded queue, a ring of \<open>max_elems + 1\<close> slots under one
  mutex with two condition variables. This theory models every operation as the state change it
  makes while it holds the mutex; \<open>Buffer_Queue_Threads\<close> interleaves them.

  \<^item> The notifications an operation issues are appended to the field \<open>signals\<close>, in order.
  \<^item> The argument \<open>ok\<close> says whether the user-defined assignment of the element returns (true) or
    throws; \<open>owns\<close> says whether \<open>try_to_lock\<close> got the mutex. The mutex itself does not throw.
  \<^item> Every public operation is a try block (\<open>wait_pop_body\<close>, \<open>try_pop_common\<close>, ...) under the mutex and a
    \<open>catch (...)\<close> handler that runs \<open>close\<close> once the block has released it: \<open>catch_rethrow bq_close body\<close>
    is the operation run with nobody in between, and \<open>Buffer_Queue_Threads\<close> makes the two separate steps.
  \<^item> A blocking operation that has to wait is \<open>Sleeps\<close>: it has counted itself in \<open>waiting_full\<close>
    or \<open>waiting_empty\<close> and runs its loop again from the start when it wakes.
  \<^item> The rvalue overloads also return what is left of the caller's object: \<open>None\<close> once its value
    was moved from.
\<close>

subsection \<open>State\<close>

datatype cv_signal =
    Notify_one_not_empty | Notify_all_not_empty | Notify_one_not_full | Notify_all_not_full

record 'a buffer_queue =
  waiting_full :: nat
  waiting_empty :: nat
  buffer :: "'a list"
  push_index :: nat
  pop_index :: nat
  num_slots :: nat
  closed :: bool
  signals :: "cv_signal list"

definition bq_next :: "'a buffer_queue \<Rightarrow> nat \<Rightarrow> nat" where
  "bq_next q idx = (idx + 1) mod num_slots q"

text \<open>The member initialisers: \<open>d\<close> is the value of a default-constructed element.\<close>

definition bq_alloc :: "'a \<Rightarrow> size_t \<Rightarrow> 'a buffer_queue" where
  "bq_alloc d max_elems =
     \<lparr>waiting_full = 0, waiting_empty = 0,
      buffer = replicate (unat (max_elems + 1)) d,
      push_index = 0, pop_index = 0, num_slots = unat (max_elems + 1),
      closed = False, signals = []\<rparr>"

definition bq_new :: "'a \<Rightarrow> size_t \<Rightarrow> 'a buffer_queue outcome" where
  "bq_new d max_elems =
     (if max_elems < 1
      then Throws (Invalid_argument ''number of elements must be at least one'')
      else Returns (bq_alloc d max_elems))"

definition push_reindex :: "nat \<Rightarrow> 'a buffer_queue \<Rightarrow> 'a buffer_queue" where
  "push_reindex nxt q =
     (let q1 = q\<lparr>push_index := nxt\<rparr>
      in if waiting_empty q1 > 0
         then q1\<lparr>waiting_empty := waiting_empty q1 - 1,
                 signals := signals q1 @ [Notify_one_not_empty]\<rparr>
         else q1)"

fun iter_fill :: "nat \<Rightarrow> nat \<Rightarrow> 'a list \<Rightarrow> 'a list \<Rightarrow> cpp_exn + (nat \<times> 'a list)" where
  "iter_fill max_elems hdx [] buf = Inr (hdx, buf)"
| "iter_fill max_elems hdx (x # xs) buf =
     (if hdx \<ge> max_elems then Inl (Invalid_argument ''too few slots for iterator'')
      else iter_fill max_elems (hdx + 1) xs (buf[hdx := x]))"

definition bq_from_iter :: "'a \<Rightarrow> size_t \<Rightarrow> 'a list \<Rightarrow> 'a buffer_queue outcome" where
  "bq_from_iter d max_elems xs =
     (let q = bq_alloc d max_elems
      in case iter_fill (unat max_elems) 0 xs (buffer q) of
           Inl e \<Rightarrow> Throws e
         | Inr (hdx, buf) \<Rightarrow> Returns (push_reindex hdx (q\<lparr>buffer := buf\<rparr>)))"

subsection \<open>Closing and observing\<close>

definition bq_close :: "'a buffer_queue \<Rightarrow> 'a buffer_queue" where
  "bq_close q =
     q\<lparr>closed := True, signals := signals q @ [Notify_all_not_empty, Notify_all_not_full]\<rparr>"

definition bq_is_closed :: "'a buffer_queue \<Rightarrow> bool" where
  "bq_is_closed q = closed q"

definition bq_is_empty :: "'a buffer_queue \<Rightarrow> bool" where
  "bq_is_empty q \<longleftrightarrow> push_index q = pop_index q"

subsection \<open>Popping\<close>

definition pop_from ::
  "bool \<Rightarrow> nat \<Rightarrow> 'a buffer_queue \<Rightarrow> (queue_op_status \<times> 'a option) outcome \<times> 'a buffer_queue" where
  "pop_from ok pdx q =
     (let q1 = q\<lparr>pop_index := bq_next q pdx\<rparr>;
          q2 = (if waiting_full q1 > 0
                then q1\<lparr>waiting_full := waiting_full q1 - 1,
                        signals := signals q1 @ [Notify_one_not_full]\<rparr>
                else q1)
      in (if ok then Returns (Success, Some (buffer q ! pdx)) else Throws User_exn, q2))"

definition try_pop_common ::
  "bool \<Rightarrow> 'a buffer_queue \<Rightarrow> (queue_op_status \<times> 'a option) outcome \<times> 'a buffer_queue" where
  "try_pop_common ok q =
     (let pdx = pop_index q
      in if pdx = push_index q
         then (if closed q then (Returns (Closed, None), q) else (Returns (Empty, None), q))
         else pop_from ok pdx q)"

definition bq_try_pop ::
  "bool \<Rightarrow> 'a buffer_queue \<Rightarrow> (queue_op_status \<times> 'a option) outcome \<times> 'a buffer_queue" where
  "bq_try_pop ok = catch_rethrow bq_close (try_pop_common ok)"

definition nonblocking_pop_body ::
  "bool \<Rightarrow> bool \<Rightarrow> 'a buffer_queue \<Rightarrow> (queue_op_status \<times> 'a option) outcome \<times> 'a buffer_queue" where
  "nonblocking_pop_body owns ok q =
     (if \<not> owns then (Returns (Busy, None), q) else try_pop_common ok q)"

definition bq_nonblocking_pop ::
  "bool \<Rightarrow> bool \<Rightarrow> 'a buffer_queue \<Rightarrow> (queue_op_status \<times> 'a option) outcome \<times> 'a buffer_queue" where
  "bq_nonblocking_pop owns ok = catch_rethrow bq_close (nonblocking_pop_body owns ok)"

definition wait_pop_body ::
  "bool \<Rightarrow> 'a buffer_queue \<Rightarrow> (queue_op_status \<times> 'a option) outcome \<times> 'a buffer_queue" where
  "wait_pop_body ok q =
     (let pdx = pop_index q
      in if pdx \<noteq> push_index q then pop_from ok pdx q
         else if closed q then (Returns (Closed, None), q)
         else (Sleeps, q\<lparr>waiting_empty := waiting_empty q + 1\<rparr>))"

definition bq_wait_pop ::
  "bool \<Rightarrow> 'a buffer_queue \<Rightarrow> (queue_op_status \<times> 'a option) outcome \<times> 'a buffer_queue" where
  "bq_wait_pop ok = catch_rethrow bq_close (wait_pop_body ok)"

definition bq_value_pop :: "bool \<Rightarrow> 'a buffer_queue \<Rightarrow> 'a outcome \<times> 'a buffer_queue" where
  "bq_value_pop ok =
     catch_rethrow bq_close
       (bind_op (bq_wait_pop ok)
          (\<lambda>(s, v) q.
             if s = Closed then (Throws (Thrown_status Closed), q)
             else (case v of Some elem \<Rightarrow> (Returns elem, q) | None \<Rightarrow> (Undefined, q))))"

subsection \<open>Pushing\<close>

definition push_at ::
  "bool \<Rightarrow> 'a \<Rightarrow> nat \<Rightarrow> nat \<Rightarrow> 'a buffer_queue \<Rightarrow> queue_op_status outcome \<times> 'a buffer_queue" where
  "push_at ok elem hdx nxt q =
     (if ok then (Returns Success, push_reindex nxt (q\<lparr>buffer := (buffer q)[hdx := elem]\<rparr>))
      else (Throws User_exn, q))"

definition try_push_common ::
  "bool \<Rightarrow> 'a \<Rightarrow> 'a buffer_queue \<Rightarrow> queue_op_status outcome \<times> 'a buffer_queue" where
  "try_push_common ok elem q =
     (if closed q then (Returns Closed, q)
      else let hdx = push_index q; nxt = bq_next q hdx
           in if nxt = pop_index q then (Returns Full, q) else push_at ok elem hdx nxt q)"

definition bq_try_push ::
  "bool \<Rightarrow> 'a \<Rightarrow> 'a buffer_queue \<Rightarrow> queue_op_status outcome \<times> 'a buffer_queue" where
  "bq_try_push ok elem = catch_rethrow bq_close (try_push_common ok elem)"

definition nonblocking_push_body ::
  "bool \<Rightarrow> bool \<Rightarrow> 'a \<Rightarrow> 'a buffer_queue \<Rightarrow> queue_op_status outcome \<times> 'a buffer_queue" where
  "nonblocking_push_body owns ok elem q =
     (if \<not> owns then (Returns Busy, q) else try_push_common ok elem q)"

definition bq_nonblocking_push ::
  "bool \<Rightarrow> bool \<Rightarrow> 'a \<Rightarrow> 'a buffer_queue \<Rightarrow> queue_op_status outcome \<times> 'a buffer_queue" where
  "bq_nonblocking_push owns ok elem = catch_rethrow bq_close (nonblocking_push_body owns ok elem)"

definition wait_push_body ::
  "bool \<Rightarrow> 'a \<Rightarrow> 'a buffer_queue \<Rightarrow> queue_op_status outcome \<times> 'a buffer_queue" where
  "wait_push_body ok elem q =
     (if closed q then (Returns Closed, q)
      else let hdx = push_index q; nxt = bq_next q hdx
           in if nxt \<noteq> pop_index q then push_at ok elem hdx nxt q
              else (Sleeps, q\<lparr>waiting_full := waiting_full q + 1\<rparr>))"

definition bq_wait_push ::
  "bool \<Rightarrow> 'a \<Rightarrow> 'a buffer_queue \<Rightarrow> queue_op_status outcome \<times> 'a buffer_queue" where
  "bq_wait_push ok elem = catch_rethrow bq_close (wait_push_body ok elem)"

definition bq_push :: "bool \<Rightarrow> 'a \<Rightarrow> 'a buffer_queue \<Rightarrow> unit outcome \<times> 'a buffer_queue" where
  "bq_push ok elem =
     bind_op (bq_wait_push ok elem)
       (\<lambda>s q. if s = Closed then (Throws (Thrown_status Closed), q) else (Returns (), q))"

subsection \<open>Pushing an rvalue\<close>

definition close_on_throw ::
  "('r outcome \<times> 'a option \<times> 'a buffer_queue) \<Rightarrow> 'r outcome \<times> 'a option \<times> 'a buffer_queue" where
  "close_on_throw res =
     (case res of (Throws e, src, q) \<Rightarrow> (Throws e, src, bq_close q) | _ \<Rightarrow> res)"

definition push_at_move ::
  "bool \<Rightarrow> 'a \<Rightarrow> nat \<Rightarrow> nat \<Rightarrow> 'a buffer_queue
   \<Rightarrow> queue_op_status outcome \<times> 'a option \<times> 'a buffer_queue" where
  "push_at_move ok elem hdx nxt q =
     (if ok then (Returns Success, None, push_reindex nxt (q\<lparr>buffer := (buffer q)[hdx := elem]\<rparr>))
      else (Throws User_exn, None, q))"

definition try_push_common_move ::
  "bool \<Rightarrow> 'a \<Rightarrow> 'a buffer_queue \<Rightarrow> queue_op_status outcome \<times> 'a option \<times> 'a buffer_queue" where
  "try_push_common_move ok elem q =
     (if closed q then (Returns Closed, Some elem, q)
      else let hdx = push_index q; nxt = bq_next q hdx
           in if nxt = pop_index q then (Returns Full, Some elem, q)
              else push_at_move ok elem hdx nxt q)"

definition bq_try_push_move ::
  "bool \<Rightarrow> 'a \<Rightarrow> 'a buffer_queue \<Rightarrow> queue_op_status outcome \<times> 'a option \<times> 'a buffer_queue" where
  "bq_try_push_move ok elem q = close_on_throw (try_push_common_move ok elem q)"

definition bq_nonblocking_push_move ::
  "bool \<Rightarrow> bool \<Rightarrow> 'a \<Rightarrow> 'a buffer_queue
   \<Rightarrow> queue_op_status outcome \<times> 'a option \<times> 'a buffer_queue" where
  "bq_nonblocking_push_move owns ok elem q =
     close_on_throw
       (if \<not> owns then (Returns Busy, Some elem, q) else try_push_common_move ok elem q)"

definition bq_wait_push_move ::
  "bool \<Rightarrow> 'a \<Rightarrow> 'a buffer_queue \<Rightarrow> queue_op_status outcome \<times> 'a option \<times> 'a buffer_queue" where
  "bq_wait_push_move ok elem q =
     close_on_throw
       (if closed q then (Returns Closed, Some elem, q)
        else let hdx = push_index q; nxt = bq_next q hdx
             in if nxt \<noteq> pop_index q then push_at_move ok elem hdx nxt q
                else (Sleeps, Some elem, q\<lparr>waiting_full := waiting_full q + 1\<rparr>))"

definition bq_push_move ::
  "bool \<Rightarrow> 'a \<Rightarrow> 'a buffer_queue \<Rightarrow> unit outcome \<times> 'a option \<times> 'a buffer_queue" where
  "bq_push_move ok elem q =
     (case bq_wait_push_move ok elem q of
        (Returns s, src, q1) \<Rightarrow>
          (if s = Closed then (Throws (Thrown_status Closed), src, q1) else (Returns (), src, q1))
      | (Throws e, src, q1) \<Rightarrow> (Throws e, src, q1)
      | (Sleeps, src, q1) \<Rightarrow> (Sleeps, src, q1)
      | (Undefined, src, q1) \<Rightarrow> (Undefined, src, q1))"

subsection \<open>Well-formedness and contents\<close>

definition bq_wf :: "'a buffer_queue \<Rightarrow> bool" where
  "bq_wf q \<longleftrightarrow> 0 < num_slots q \<and> length (buffer q) = num_slots q \<and>
               push_index q < num_slots q \<and> pop_index q < num_slots q"

definition bq_contents :: "'a buffer_queue \<Rightarrow> 'a list" where
  "bq_contents q = ring_list (buffer q) (pop_index q) (push_index q)"

definition bq_capacity :: "'a buffer_queue \<Rightarrow> nat" where
  "bq_capacity q = num_slots q - 1"

definition pushed :: "'a \<Rightarrow> 'a buffer_queue \<Rightarrow> 'a buffer_queue" where
  "pushed elem q =
     push_reindex (bq_next q (push_index q)) (q\<lparr>buffer := (buffer q)[push_index q := elem]\<rparr>)"

definition popped :: "'a buffer_queue \<Rightarrow> 'a buffer_queue" where
  "popped q = snd (pop_from True (pop_index q) q)"

lemma bq_next_ring: "bq_next q i = ring_next (num_slots q) i"
  by (simp add: bq_next_def ring_next_def)

lemma bq_is_empty_iff: "bq_wf q \<Longrightarrow> bq_is_empty q \<longleftrightarrow> bq_contents q = []"
  by (auto simp: bq_wf_def bq_contents_def bq_is_empty_def ring_list_Nil_iff)

lemma bq_empty_index: "bq_wf q \<Longrightarrow> pop_index q = push_index q \<longleftrightarrow> bq_contents q = []"
  by (auto simp: bq_wf_def bq_contents_def ring_list_Nil_iff)

lemma bq_full_index:
  "bq_wf q \<Longrightarrow> bq_next q (push_index q) = pop_index q \<longleftrightarrow> length (bq_contents q) = bq_capacity q"
  by (simp add: bq_wf_def bq_contents_def bq_capacity_def bq_next_ring ring_full_iff
      length_ring_list)

lemma bq_bound: "bq_wf q \<Longrightarrow> length (bq_contents q) \<le> bq_capacity q"
  using ring_len_less [of "pop_index q" "num_slots q" "push_index q"]
  by (auto simp: bq_wf_def bq_contents_def bq_capacity_def length_ring_list)

lemma bq_close_fields [simp]:
  "bq_wf (bq_close q) \<longleftrightarrow> bq_wf q" "bq_contents (bq_close q) = bq_contents q"
  "closed (bq_close q)" "bq_capacity (bq_close q) = bq_capacity q"
  "waiting_full (bq_close q) = waiting_full q" "waiting_empty (bq_close q) = waiting_empty q"
  by (simp_all add: bq_close_def bq_wf_def bq_contents_def bq_capacity_def)

lemma bq_sleep_fields [simp]:
  "bq_wf (q\<lparr>waiting_full := m\<rparr>) \<longleftrightarrow> bq_wf q" "bq_wf (q\<lparr>waiting_empty := m\<rparr>) \<longleftrightarrow> bq_wf q"
  "bq_wf (q\<lparr>signals := sg\<rparr>) \<longleftrightarrow> bq_wf q"
  "bq_contents (q\<lparr>waiting_full := m\<rparr>) = bq_contents q"
  "bq_contents (q\<lparr>waiting_empty := m\<rparr>) = bq_contents q"
  "bq_contents (q\<lparr>signals := sg\<rparr>) = bq_contents q"
  "bq_capacity (q\<lparr>waiting_full := m\<rparr>) = bq_capacity q"
  "bq_capacity (q\<lparr>waiting_empty := m\<rparr>) = bq_capacity q"
  "bq_capacity (q\<lparr>signals := sg\<rparr>) = bq_capacity q"
  by (simp_all add: bq_wf_def bq_contents_def bq_capacity_def)

lemma pushed_props:
  assumes "bq_wf q" and "length (bq_contents q) \<noteq> bq_capacity q"
  shows "bq_wf (pushed x q)" and "bq_contents (pushed x q) = bq_contents q @ [x]"
  using assms bq_full_index [OF assms(1)]
    ring_list_push [of "pop_index q" "buffer q" "push_index q" x]
  by (auto simp: pushed_def push_reindex_def bq_wf_def bq_contents_def Let_def bq_next_ring
      ring_next_less)

lemma pushed_fields [simp]:
  "closed (pushed x q) = closed q" "bq_capacity (pushed x q) = bq_capacity q"
  "waiting_full (pushed x q) = waiting_full q"
  "waiting_empty (pushed x q) = waiting_empty q - 1"
  "signals (pushed x q) =
     signals q @ (if waiting_empty q > 0 then [Notify_one_not_empty] else [])"
  by (simp_all add: pushed_def push_reindex_def Let_def bq_capacity_def)

lemma popped_props:
  assumes "bq_wf q" and "bq_contents q \<noteq> []"
  shows "bq_wf (popped q)" and "bq_contents (popped q) = tl (bq_contents q)"
    and "buffer q ! pop_index q = hd (bq_contents q)"
  using assms bq_empty_index [OF assms(1)]
  by (auto simp: popped_def pop_from_def bq_wf_def bq_contents_def Let_def bq_next_ring
      ring_next_less ring_list_pop [of "pop_index q"])

lemma popped_fields [simp]:
  "closed (popped q) = closed q" "bq_capacity (popped q) = bq_capacity q"
  "waiting_empty (popped q) = waiting_empty q"
  "waiting_full (popped q) = waiting_full q - 1"
  "signals (popped q) =
     signals q @ (if waiting_full q > 0 then [Notify_one_not_full] else [])"
  by (simp_all add: popped_def pop_from_def Let_def bq_capacity_def)

subsection \<open>What each operation does, branch by branch\<close>

lemma pop_from_eq:
  "bq_wf q \<Longrightarrow> bq_contents q \<noteq> [] \<Longrightarrow>
   pop_from ok (pop_index q) q =
     (if ok then Returns (Success, Some (hd (bq_contents q))) else Throws User_exn, popped q)"
  using popped_props(3) [of q] by (simp add: popped_def pop_from_def Let_def)

lemma try_pop_common_eq:
  "bq_wf q \<Longrightarrow> try_pop_common ok q =
     (if bq_contents q = [] then (Returns (if closed q then Closed else Empty, None), q)
      else (if ok then Returns (Success, Some (hd (bq_contents q))) else Throws User_exn, popped q))"
  by (simp add: try_pop_common_def bq_empty_index pop_from_eq)

lemma push_at_eq:
  "push_at ok x (push_index q) (bq_next q (push_index q)) q =
     (if ok then (Returns Success, pushed x q) else (Throws User_exn, q))"
  by (simp add: push_at_def pushed_def)

lemma try_push_common_eq:
  "bq_wf q \<Longrightarrow> try_push_common ok x q =
     (if closed q then (Returns Closed, q)
      else if length (bq_contents q) = bq_capacity q then (Returns Full, q)
      else if ok then (Returns Success, pushed x q) else (Throws User_exn, q))"
  by (simp add: try_push_common_def bq_full_index push_at_eq Let_def)

lemma bq_try_pop_eq:
  "bq_wf q \<Longrightarrow> bq_try_pop ok q =
     (if bq_contents q = [] then (Returns (if closed q then Closed else Empty, None), q)
      else if ok then (Returns (Success, Some (hd (bq_contents q))), popped q)
      else (Throws User_exn, bq_close (popped q)))"
  by (simp add: bq_try_pop_def catch_rethrow_def try_pop_common_eq)

lemma wait_pop_body_eq:
  "bq_wf q \<Longrightarrow> wait_pop_body ok q =
     (if bq_contents q = []
      then (if closed q then (Returns (Closed, None), q)
            else (Sleeps, q\<lparr>waiting_empty := waiting_empty q + 1\<rparr>))
      else (if ok then Returns (Success, Some (hd (bq_contents q))) else Throws User_exn, popped q))"
  by (simp add: wait_pop_body_def pop_from_eq bq_empty_index Let_def)

lemma bq_wait_pop_eq:
  "bq_wf q \<Longrightarrow> bq_wait_pop ok q =
     (if bq_contents q = []
      then (if closed q then (Returns (Closed, None), q)
            else (Sleeps, q\<lparr>waiting_empty := waiting_empty q + 1\<rparr>))
      else if ok then (Returns (Success, Some (hd (bq_contents q))), popped q)
      else (Throws User_exn, bq_close (popped q)))"
  by (simp add: bq_wait_pop_def catch_rethrow_def wait_pop_body_eq)

lemma bq_try_push_eq:
  "bq_wf q \<Longrightarrow> bq_try_push ok x q =
     (if closed q then (Returns Closed, q)
      else if length (bq_contents q) = bq_capacity q then (Returns Full, q)
      else if ok then (Returns Success, pushed x q) else (Throws User_exn, bq_close q))"
  by (simp add: bq_try_push_def catch_rethrow_def try_push_common_eq)

lemma wait_push_body_eq:
  "bq_wf q \<Longrightarrow> wait_push_body ok x q =
     (if closed q then (Returns Closed, q)
      else if length (bq_contents q) = bq_capacity q
      then (Sleeps, q\<lparr>waiting_full := waiting_full q + 1\<rparr>)
      else if ok then (Returns Success, pushed x q) else (Throws User_exn, q))"
  by (simp add: wait_push_body_def push_at_eq bq_full_index Let_def)

lemma bq_wait_push_eq:
  "bq_wf q \<Longrightarrow> bq_wait_push ok x q =
     (if closed q then (Returns Closed, q)
      else if length (bq_contents q) = bq_capacity q
      then (Sleeps, q\<lparr>waiting_full := waiting_full q + 1\<rparr>)
      else if ok then (Returns Success, pushed x q) else (Throws User_exn, bq_close q))"
  by (simp add: bq_wait_push_def catch_rethrow_def wait_push_body_eq)

lemma bq_wait_push_move_eq:
  "bq_wait_push_move ok x q =
     (fst (bq_wait_push ok x q),
      (case fst (bq_wait_push ok x q) of
         Returns s \<Rightarrow> if s = Success then None else Some x
       | Throws _ \<Rightarrow> None
       | Sleeps \<Rightarrow> Some x
       | Undefined \<Rightarrow> Some x),
      snd (bq_wait_push ok x q))"
  by (simp add: bq_wait_push_move_def bq_wait_push_def wait_push_body_def close_on_throw_def catch_rethrow_def
      push_at_def push_at_move_def Let_def)

lemmas bq_op_eqs =
  bq_try_pop_eq bq_wait_pop_eq bq_try_push_eq bq_wait_push_eq try_pop_common_eq try_push_common_eq

subsection \<open>Constructors\<close>

lemma bq_alloc_props:
  "m \<noteq> - 1 \<Longrightarrow> bq_wf (bq_alloc d m) \<and> bq_contents (bq_alloc d m) = [] \<and>
    bq_capacity (bq_alloc d m) = unat m \<and> signals (bq_alloc d m) = [] \<and> \<not> closed (bq_alloc d m)"
proof -
  assume "m \<noteq> - 1"
  then have "1 + m \<noteq> 0" by (metis add_eq_0_iff)
  then have "unat (m + 1) = unat m + 1" by (simp add: unatSuc add.commute)
  then show ?thesis
    by (simp add: bq_alloc_def bq_wf_def bq_contents_def bq_capacity_def ring_list_def ring_len_def)
qed

lemma iter_fill_Inr:
  "hdx + length xs \<le> m \<Longrightarrow> iter_fill m hdx xs buf =
     Inr (hdx + length xs, fold (\<lambda>(i, x) b. b[i := x]) (zip [hdx ..< hdx + length xs] xs) buf)"
proof (induction m hdx xs buf rule: iter_fill.induct)
  case (2 m hdx x xs buf)
  then have "[hdx ..< hdx + length (x # xs)] = hdx # [hdx + 1 ..< hdx + 1 + length xs]"
    by (simp add: upt_conv_Cons del: upt_Suc)
  with 2 show ?case by simp
qed simp

lemma iter_fill_Inl:
  "hdx \<le> m \<Longrightarrow> m < hdx + length xs \<Longrightarrow>
   iter_fill m hdx xs buf = Inl (Invalid_argument ''too few slots for iterator'')"
  by (induction m hdx xs buf rule: iter_fill.induct) auto

lemma iter_fill_buf:
  "iter_fill m hdx xs buf = Inr (h, b) \<Longrightarrow> m < length buf \<Longrightarrow>
   h = hdx + length xs \<and> length b = length buf \<and> take h b = take hdx buf @ xs \<and> h \<le> max hdx m"
proof (induction m hdx xs buf rule: iter_fill.induct)
  case (2 m hdx x xs buf)
  then have "hdx < length buf" by (auto split: if_splits)
  with 2 show ?case by (auto simp: take_Suc_conv_app_nth split: if_splits)
qed simp

lemma ring_list_prefix: "n < length buf \<Longrightarrow> ring_list buf 0 n = take n buf"
  by (rule nth_equalityI) (auto simp: ring_list_def ring_len_def)

lemma bq_from_iter_fits:
  assumes "m \<noteq> - 1" and "length xs \<le> unat m"
  shows "\<exists>q. bq_from_iter d m xs = Returns q \<and> bq_wf q \<and> bq_contents q = xs \<and>
             bq_capacity q = unat m \<and> \<not> closed q \<and> signals q = []"
proof -
  let ?q = "bq_alloc d m"
  from bq_alloc_props [OF assms(1), of d] have slots: "num_slots ?q = length (buffer ?q)"
    and cap: "length (buffer ?q) = unat m + 1"
    by (auto simp: bq_wf_def bq_capacity_def)
  from iter_fill_Inr [of 0 xs "unat m" "buffer ?q"] assms(2) obtain b
    where fill: "iter_fill (unat m) 0 xs (buffer ?q) = Inr (length xs, b)" by auto
  from iter_fill_buf [OF this] cap have b: "length b = unat m + 1" "take (length xs) b = xs"
    by auto
  have "ring_list b 0 (length xs) = xs"
    using b assms(2) ring_list_prefix [of "length xs" b] by simp
  with fill b assms(2) slots cap show ?thesis
    by (auto simp: bq_from_iter_def push_reindex_def bq_wf_def bq_contents_def bq_capacity_def
        bq_alloc_def)
qed

subsection \<open>The queue provides the bounded FIFO contract\<close>

definition bq_offer :: "'a \<Rightarrow> 'a buffer_queue \<Rightarrow> queue_op_status \<times> 'a buffer_queue" where
  "bq_offer x q = (case bq_try_push True x q of (Returns s, q') \<Rightarrow> (s, q') | (_, q') \<Rightarrow> (Busy, q'))"

definition bq_fetch :: "'a buffer_queue \<Rightarrow> (queue_op_status \<times> 'a option) \<times> 'a buffer_queue" where
  "bq_fetch q =
     (case bq_try_pop True q of (Returns r, q') \<Rightarrow> (r, q') | (_, q') \<Rightarrow> ((Busy, None), q'))"

lemma bq_offer_eq:
  "bq_wf q \<Longrightarrow> bq_offer x q =
     (if closed q then (Closed, q)
      else if length (bq_contents q) = bq_capacity q then (Full, q) else (Success, pushed x q))"
  by (simp add: bq_offer_def bq_op_eqs)

lemma bq_fetch_eq:
  "bq_wf q \<Longrightarrow> bq_fetch q =
     (if bq_contents q = [] then ((if closed q then Closed else Empty, None), q)
      else ((Success, Some (hd (bq_contents q))), popped q))"
  by (simp add: bq_fetch_def bq_op_eqs)

interpretation bqueue: bounded_queue bq_wf bq_contents bq_capacity closed bq_offer bq_fetch
proof unfold_locales
  fix q :: "'a buffer_queue" and x :: 'a
  assume wf: "bq_wf q"
  show "length (bq_contents q) \<le> bq_capacity q" using wf by (rule bq_bound)
  then show "(fst (bq_offer x q), bq_contents (snd (bq_offer x q))) =
      spec_offer (bq_capacity q) (closed q) (bq_contents q) x"
    using wf pushed_props [OF wf, of x] by (auto simp: bq_offer_eq spec_offer_def)
  show "bq_wf (snd (bq_offer x q)) \<and> bq_capacity (snd (bq_offer x q)) = bq_capacity q \<and>
      closed (snd (bq_offer x q)) = closed q"
    using wf pushed_props [OF wf, of x] by (simp add: bq_offer_eq)
  show "(fst (bq_fetch q), bq_contents (snd (bq_fetch q))) = spec_take (closed q) (bq_contents q)"
    using wf popped_props [OF wf] by (auto simp: bq_fetch_eq spec_take_def split: list.splits)
  show "bq_wf (snd (bq_fetch q)) \<and> bq_capacity (snd (bq_fetch q)) = bq_capacity q \<and>
      closed (snd (bq_fetch q)) = closed q"
    using wf popped_props [OF wf] by (simp add: bq_fetch_eq)
qed

subsection \<open>The virtual interface\<close>

text \<open>\<open>buffer_queue\<close> behind the interface of \<open>queue_base\<close>; what an rvalue push leaves is dropped.\<close>

definition reply_of :: "('r \<Rightarrow> 'a reply) \<Rightarrow> 'r outcome \<times> 's \<Rightarrow> 'a reply outcome \<times> 's" where
  "reply_of f res =
     ((case fst res of Returns r \<Rightarrow> Returns (f r) | Throws e \<Rightarrow> Throws e | Sleeps \<Rightarrow> Sleeps
       | Undefined \<Rightarrow> Undefined), snd res)"

fun bq_call :: "bool \<Rightarrow> bool \<Rightarrow> ('a buffer_queue, 'a) dispatcher" where
  "bq_call owns ok Q_close q = (Returns Unit_reply, bq_close q)"
| "bq_call owns ok Q_is_closed q = (Returns (Bool_reply (bq_is_closed q)), q)"
| "bq_call owns ok Q_is_empty q = (Returns (Bool_reply (bq_is_empty q)), q)"
| "bq_call owns ok (Q_push x) q = reply_of (\<lambda>_. Unit_reply) (bq_push ok x q)"
| "bq_call owns ok (Q_wait_push x) q = reply_of Status_reply (bq_wait_push ok x q)"
| "bq_call owns ok (Q_try_push x) q = reply_of Status_reply (bq_try_push ok x q)"
| "bq_call owns ok (Q_nonblocking_push x) q = reply_of Status_reply (bq_nonblocking_push owns ok x q)"
| "bq_call owns ok (Q_push_move x) q =
     (case bq_push_move ok x q of (r, _, q') \<Rightarrow> reply_of (\<lambda>_. Unit_reply) (r, q'))"
| "bq_call owns ok (Q_wait_push_move x) q =
     (case bq_wait_push_move ok x q of (r, _, q') \<Rightarrow> reply_of Status_reply (r, q'))"
| "bq_call owns ok (Q_try_push_move x) q =
     (case bq_try_push_move ok x q of (r, _, q') \<Rightarrow> reply_of Status_reply (r, q'))"
| "bq_call owns ok (Q_nonblocking_push_move x) q =
     (case bq_nonblocking_push_move owns ok x q of (r, _, q') \<Rightarrow> reply_of Status_reply (r, q'))"
| "bq_call owns ok Q_value_pop q = reply_of Value_reply (bq_value_pop ok q)"
| "bq_call owns ok Q_wait_pop q = reply_of (\<lambda>(s, v). Pop_reply s v) (bq_wait_pop ok q)"
| "bq_call owns ok Q_try_pop q = reply_of (\<lambda>(s, v). Pop_reply s v) (bq_try_pop ok q)"
| "bq_call owns ok Q_nonblocking_pop q =
     reply_of (\<lambda>(s, v). Pop_reply s v) (bq_nonblocking_pop owns ok q)"

subsection \<open>Properties\<close>

text \<open>C21. FIFO and bounded: whatever sequence of \<open>try_push\<close> and \<open>try_pop\<close> calls runs on a well-formed
  buffer queue, the elements it held followed by those accepted are the elements delivered followed
  by those it holds afterwards, in order; and it never holds more than \<open>max_elems\<close> elements.\<close>

theorem buffer_queue_fifo:
  assumes "bq_wf q" and "run_ops bq_offer bq_fetch ops q = (ins, outs, q')"
  shows "bq_contents q @ ins = outs @ bq_contents q' \<and> length (bq_contents q') \<le> bq_capacity q \<and>
         bq_wf q'"
  using bqueue.run_fifo [OF assms] bq_bound [of q'] by auto

theorem buffer_queue_fifo_witness:
  "\<exists>q'. run_ops bq_offer bq_fetch [Offer 5, Offer 6, Take, Offer 7, Offer (8::nat), Take]
          (bq_alloc 0 2) = ([5, 6, 7], [5, 6], q') \<and>
        bq_contents (bq_alloc 0 2) @ [5, 6, 7] = [5, 6] @ bq_contents q'"
proof -
  let ?ops = "[Offer 5, Offer 6, Take, Offer 7, Offer (8::nat), Take]"
  have wf: "bq_wf (bq_alloc (0::nat) 2)" using bq_alloc_props [of 2 "0::nat"] by simp
  have run: "run_ops bq_offer bq_fetch ?ops (bq_alloc 0 2) =
      ([5, 6, 7], [5, 6], snd (snd (run_ops bq_offer bq_fetch ?ops (bq_alloc 0 2))))"
    by code_simp
  from buffer_queue_fifo [OF wf run] run show ?thesis by blast
qed

text \<open>Exception safety: when the assignment of the element throws, a push leaves the contents as
  they were and a pop has removed exactly the first element (the change to the queue happens before
  the copy can fail); either way the exception reaches the caller and the queue is closed, and both
  condition variables are notified.\<close>

theorem buffer_queue_copy_failure:
  assumes "bq_wf q"
  shows "(\<not> closed q \<and> length (bq_contents q) < bq_capacity q \<longrightarrow>
            bq_try_push False x q = (Throws User_exn, bq_close q) \<and>
            bq_wait_push False x q = (Throws User_exn, bq_close q) \<and>
            bq_contents (bq_close q) = bq_contents q) \<and>
         (bq_contents q \<noteq> [] \<longrightarrow>
            (\<exists>q'. bq_try_pop False q = (Throws User_exn, q') \<and>
                 bq_wait_pop False q = (Throws User_exn, q') \<and>
                 bq_contents q' = tl (bq_contents q) \<and> closed q' \<and>
                 {Notify_all_not_empty, Notify_all_not_full} \<subseteq> set (signals q')))"
  using assms popped_props [OF assms] by (auto simp: bq_op_eqs) (simp_all add: bq_close_def)

theorem buffer_queue_copy_failure_witness:
  "bq_try_push False 3 (bq_alloc (0::nat) 2) = (Throws User_exn, bq_close (bq_alloc 0 2)) \<and>
   (\<exists>q'. bq_try_pop False (pushed 3 (bq_alloc (0::nat) 2)) = (Throws User_exn, q') \<and>
         bq_contents q' = [] \<and> closed q')"
proof -
  have wf: "bq_wf (bq_alloc (0::nat) 2)" and c: "bq_contents (bq_alloc (0::nat) 2) = []"
    and cap: "bq_capacity (bq_alloc (0::nat) 2) = 2" and cl: "\<not> closed (bq_alloc (0::nat) 2)"
    using bq_alloc_props [of 2 "0::nat"] by simp_all
  from pushed_props [OF wf, of 3] c cap have p: "bq_wf (pushed 3 (bq_alloc (0::nat) 2))"
    "bq_contents (pushed 3 (bq_alloc (0::nat) 2)) = [3]" by simp_all
  show ?thesis
    using buffer_queue_copy_failure [OF wf, of 3] c cap cl
      buffer_queue_copy_failure [OF p(1), of 3] p(2) by auto
qed

text \<open>An rvalue is consumed only when its assignment was started: the move overloads of
  \<open>wait_push\<close>, \<open>try_push\<close> and \<open>nonblocking_push\<close> leave the caller's object untouched exactly when
  they report closed, full or busy (or go to sleep), and change the queue as the copying overloads do.\<close>

theorem buffer_queue_move_only_on_success:
  "bq_try_push_move ok x q =
     (fst (bq_try_push ok x q),
      (if fst (bq_try_push ok x q) \<in> {Returns Closed, Returns Full} then Some x else None),
      snd (bq_try_push ok x q)) \<and>
   bq_nonblocking_push_move owns ok x q =
     (fst (bq_nonblocking_push owns ok x q),
      (if fst (bq_nonblocking_push owns ok x q) \<in> {Returns Closed, Returns Full, Returns Busy}
       then Some x else None),
      snd (bq_nonblocking_push owns ok x q)) \<and>
   bq_wait_push_move ok x q =
     (fst (bq_wait_push ok x q),
      (if fst (bq_wait_push ok x q) \<in> {Returns Closed, Sleeps} then Some x else None),
      snd (bq_wait_push ok x q))"
  by (simp_all add: bq_try_push_move_def bq_try_push_def bq_nonblocking_push_move_def
      bq_nonblocking_push_def nonblocking_push_body_def bq_wait_push_move_def bq_wait_push_def
      wait_push_body_def close_on_throw_def
      catch_rethrow_def try_push_common_move_def try_push_common_def push_at_def push_at_move_def
      Let_def)

text \<open>The iterator constructor: from a range of at most \<open>max_elems\<close> elements it builds an open
  queue that holds exactly the range, in order, with room for \<open>max_elems\<close>; a longer range throws
  \<open>invalid_argument\<close>.\<close>

theorem buffer_queue_from_iterator:
  assumes "max_elems \<noteq> - 1"
  shows "if length xs \<le> unat max_elems
         then \<exists>q. bq_from_iter d max_elems xs = Returns q \<and> bq_wf q \<and> bq_contents q = xs \<and>
                  bq_capacity q = unat max_elems \<and> \<not> closed q
         else bq_from_iter d max_elems xs =
                Throws (Invalid_argument ''too few slots for iterator'')"
  using bq_from_iter_fits [OF assms, of xs d] iter_fill_Inl [of 0 "unat max_elems" xs]
  by (auto simp: bq_from_iter_def)

theorem buffer_queue_from_iterator_witness:
  "\<exists>q. bq_from_iter 0 3 [7, 8::nat] = Returns q \<and> bq_contents q = [7, 8] \<and> bq_capacity q = 3"
  using buffer_queue_from_iterator [of 3 "[7, 8::nat]" 0] by auto

text \<open>Boundary of the constructor: \<open>max_elems\<close> = 0 is rejected, every other value below the largest
  \<open>size_t\<close> gives an empty open queue of that capacity; but for the largest \<open>size_t\<close> the slot count
  \<open>max_elems + 1\<close> wraps to 0, and the queue is built with no slot at all and no exception.\<close>

theorem buffer_queue_constructor_boundary:
  "bq_new d 0 = Throws (Invalid_argument ''number of elements must be at least one'') \<and>
   (0 < m \<and> m \<noteq> - 1 \<longrightarrow>
     (\<exists>q. bq_new d m = Returns q \<and> bq_wf q \<and> bq_contents q = [] \<and> bq_capacity q = unat m \<and>
          \<not> closed q)) \<and>
   (\<exists>q. bq_new d (- 1) = Returns q \<and> num_slots q = 0 \<and> buffer q = [] \<and> \<not> bq_wf q)"
  using bq_alloc_props [of m d]
  by (auto simp: bq_new_def bq_alloc_def bq_wf_def word_less_1)

theorem buffer_queue_constructor_boundary_witness:
  "\<exists>q. bq_new CHR ''x'' 10 = Returns q \<and> bq_wf q \<and> bq_capacity q = 10"
  using buffer_queue_constructor_boundary [of "CHR ''x''" 10] by auto

text \<open>The blocking operations sleep exactly when there is nothing else to do: \<open>wait_pop\<close> when the
  queue is open and empty, \<open>wait_push\<close> when it is open and full; on a closed queue \<open>wait_pop\<close> still
  drains what is left and only then reports closed, \<open>value_pop\<close> and \<open>push\<close> throw the status closed.\<close>

theorem buffer_queue_blocking:
  assumes "bq_wf q"
  shows "(fst (bq_wait_pop ok q) = Sleeps \<longleftrightarrow> \<not> closed q \<and> bq_contents q = []) \<and>
         (fst (bq_wait_push ok x q) = Sleeps \<longleftrightarrow>
            \<not> closed q \<and> length (bq_contents q) = bq_capacity q) \<and>
         (bq_contents q \<noteq> [] \<longrightarrow>
            fst (bq_wait_pop True q) = Returns (Success, Some (hd (bq_contents q))) \<and>
            fst (bq_value_pop True q) = Returns (hd (bq_contents q))) \<and>
         (closed q \<and> bq_contents q = [] \<longrightarrow>
            bq_wait_pop ok q = (Returns (Closed, None), q) \<and>
            bq_value_pop ok q = (Throws (Thrown_status Closed), bq_close q)) \<and>
         (closed q \<longrightarrow> bq_push ok x q = (Throws (Thrown_status Closed), q))"
  using assms
  by (auto simp: bq_op_eqs bq_value_pop_def bq_push_def catch_rethrow_def bind_op_def)

theorem buffer_queue_blocking_witness:
  "fst (bq_wait_pop True (bq_alloc (0::nat) 2)) = Sleeps \<and>
   bq_push True 4 (bq_close (bq_alloc (0::nat) 2)) =
     (Throws (Thrown_status Closed), bq_close (bq_alloc 0 2))"
  using buffer_queue_blocking [of "bq_alloc (0::nat) 2" True 4]
    buffer_queue_blocking [of "bq_close (bq_alloc (0::nat) 2)" True 4]
    bq_alloc_props [of 2 "0::nat"] by simp

end
