(* ===== verification/Buffer_Queue_Threads.thy ===== *)
theory Buffer_Queue_Threads
  imports Buffer_Queue
begin

text \<open>
  Any number of threads on one \<open>buffer_queue\<close>. A step is one critical section: a thread takes the
  mutex, runs the try block of an operation of \<open>Buffer_Queue\<close> and releases the mutex, or goes to sleep
  on one of the two condition variables, which releases it too. When the block throws, the destructor
  of the lock releases the mutex and the thread is in the handler: it is a member of \<open>closing\<close> until a
  later step of its own takes the mutex again and runs \<open>close\<close>. The notifications of the critical section are
  delivered to the sleepers as the standard says: \<open>notify_one\<close> wakes any one of them if there is one,
  \<open>notify_all\<close> wakes all; besides, a sleeper may wake at any time for no reason.

  \<open>value_pop\<close> and \<open>push\<close> are \<open>wait_pop\<close> and \<open>wait_push\<close> followed by code that holds no lock, and
  \<open>value_pop\<close> may call \<open>close\<close> afterwards: they are two steps of the same thread.
\<close>

record 'a bq_sys =
  queue :: "'a buffer_queue"
  asleep_pop :: "nat set"   \<comment> \<open>threads blocked in \<open>not_empty_.wait\<close>\<close>
  awake_pop :: "nat set"    \<comment> \<open>woken there, the loop of \<open>wait_pop\<close> not yet run again\<close>
  asleep_push :: "nat set"  \<comment> \<open>threads blocked in \<open>not_full_.wait\<close>\<close>
  awake_push :: "nat set"
  closing :: "nat set"      \<comment> \<open>threads in a \<open>catch (...)\<close> handler, before its \<open>close\<close>\<close>
  elem_of :: "nat \<Rightarrow> 'a"    \<comment> \<open>the argument of the pending \<open>wait_push\<close> of a thread\<close>
  accepted :: "'a list"     \<comment> \<open>history: the elements pushed, in order\<close>
  removed :: "'a list"      \<comment> \<open>history: the elements taken off the queue, in order\<close>

definition busy :: "'a bq_sys \<Rightarrow> nat set" where
  "busy s = asleep_pop s \<union> awake_pop s \<union> asleep_push s \<union> awake_push s \<union> closing s"

definition bq_start :: "'a buffer_queue \<Rightarrow> 'a bq_sys" where
  "bq_start q =
     \<lparr>queue = q, asleep_pop = {}, awake_pop = {}, asleep_push = {}, awake_push = {},
      closing = {}, elem_of = (\<lambda>_. undefined), accepted = bq_contents q, removed = []\<rparr>"

inductive notify :: "cv_signal \<Rightarrow> 'a bq_sys \<Rightarrow> 'a bq_sys \<Rightarrow> bool" where
  one_not_empty: "t \<in> asleep_pop s \<Longrightarrow>
     notify Notify_one_not_empty s
       (s\<lparr>asleep_pop := asleep_pop s - {t}, awake_pop := insert t (awake_pop s)\<rparr>)"
| none_not_empty: "asleep_pop s = {} \<Longrightarrow> notify Notify_one_not_empty s s"
| all_not_empty: "notify Notify_all_not_empty s
     (s\<lparr>asleep_pop := {}, awake_pop := awake_pop s \<union> asleep_pop s\<rparr>)"
| one_not_full: "t \<in> asleep_push s \<Longrightarrow>
     notify Notify_one_not_full s
       (s\<lparr>asleep_push := asleep_push s - {t}, awake_push := insert t (awake_push s)\<rparr>)"
| none_not_full: "asleep_push s = {} \<Longrightarrow> notify Notify_one_not_full s s"
| all_not_full: "notify Notify_all_not_full s
     (s\<lparr>asleep_push := {}, awake_push := awake_push s \<union> asleep_push s\<rparr>)"

inductive notify_seq :: "cv_signal list \<Rightarrow> 'a bq_sys \<Rightarrow> 'a bq_sys \<Rightarrow> bool" where
  notify_none: "notify_seq [] s s"
| notify_more: "notify sg s u \<Longrightarrow> notify_seq sgs u s' \<Longrightarrow> notify_seq (sg # sgs) s s'"

inductive_simps notify_simps [simp]:
  "notify Notify_one_not_empty s s'" "notify Notify_all_not_empty s s'"
  "notify Notify_one_not_full s s'" "notify Notify_all_not_full s s'"

inductive_simps notify_seq_simps [simp]:
  "notify_seq [] s s'" "notify_seq (sg # sgs) s s'"

lemma notify_seq_append:
  "notify_seq (as @ bs) s s' \<longleftrightarrow> (\<exists>u. notify_seq as s u \<and> notify_seq bs u s')"
  by (induction as arbitrary: s) auto

text \<open>What an outcome does to the bookkeeping of the thread \<open>t\<close> that ran the operation.\<close>

definition settle_pop ::
  "nat \<Rightarrow> (queue_op_status \<times> 'a option) outcome \<Rightarrow> 'a bq_sys \<Rightarrow> 'a buffer_queue \<Rightarrow> 'a bq_sys" where
  "settle_pop t r s q' =
     (let s1 = s\<lparr>queue := q'\<lparr>signals := []\<rparr>\<rparr>
      in case r of
           Sleeps \<Rightarrow> s1\<lparr>asleep_pop := insert t (asleep_pop s)\<rparr>
         | Returns (_, Some v) \<Rightarrow> s1\<lparr>removed := removed s @ [v]\<rparr>
         | Returns (_, None) \<Rightarrow> s1
         | Throws _ \<Rightarrow> s1\<lparr>removed := removed s @ [hd (bq_contents (queue s))],
                          closing := insert t (closing s)\<rparr>
         | Undefined \<Rightarrow> s1)"

definition settle_push ::
  "nat \<Rightarrow> 'a \<Rightarrow> queue_op_status outcome \<Rightarrow> 'a bq_sys \<Rightarrow> 'a buffer_queue \<Rightarrow> 'a bq_sys" where
  "settle_push t x r s q' =
     (let s1 = s\<lparr>queue := q'\<lparr>signals := []\<rparr>\<rparr>
      in case r of
           Sleeps \<Rightarrow> s1\<lparr>asleep_push := insert t (asleep_push s), elem_of := (elem_of s)(t := x)\<rparr>
         | Returns st \<Rightarrow> if st = Success then s1\<lparr>accepted := accepted s @ [x]\<rparr> else s1
         | Throws _ \<Rightarrow> s1\<lparr>closing := insert t (closing s)\<rparr>
         | Undefined \<Rightarrow> s1)"

inductive bq_step :: "'a bq_sys \<Rightarrow> 'a bq_sys \<Rightarrow> bool" where
  pop: "t \<notin> busy s \<Longrightarrow>
     f \<in> {wait_pop_body ok, try_pop_common ok, nonblocking_pop_body owns ok} \<Longrightarrow>
     f (queue s) = (r, q') \<Longrightarrow>
     notify_seq (signals q') (settle_pop t r s q') s' \<Longrightarrow> bq_step s s'"
| pop_again: "t \<in> awake_pop s \<Longrightarrow>
     wait_pop_body ok (queue s) = (r, q') \<Longrightarrow>
     notify_seq (signals q') (settle_pop t r (s\<lparr>awake_pop := awake_pop s - {t}\<rparr>) q') s' \<Longrightarrow>
     bq_step s s'"
| push: "t \<notin> busy s \<Longrightarrow>
     f \<in> {wait_push_body ok x, try_push_common ok x, nonblocking_push_body owns ok x} \<Longrightarrow>
     f (queue s) = (r, q') \<Longrightarrow>
     notify_seq (signals q') (settle_push t x r s q') s' \<Longrightarrow> bq_step s s'"
| push_again: "t \<in> awake_push s \<Longrightarrow>
     wait_push_body ok (elem_of s t) (queue s) = (r, q') \<Longrightarrow>
     notify_seq (signals q')
       (settle_push t (elem_of s t) r (s\<lparr>awake_push := awake_push s - {t}\<rparr>) q') s' \<Longrightarrow>
     bq_step s s'"
| close: "t \<notin> busy s \<Longrightarrow>
     notify_seq (signals (bq_close (queue s)))
       (s\<lparr>queue := (bq_close (queue s))\<lparr>signals := []\<rparr>\<rparr>) s' \<Longrightarrow> bq_step s s'"
| handler: "t \<in> closing s \<Longrightarrow>
     notify_seq (signals (bq_close (queue s)))
       (s\<lparr>queue := (bq_close (queue s))\<lparr>signals := []\<rparr>, closing := closing s - {t}\<rparr>) s' \<Longrightarrow>
     bq_step s s'"
| spurious_pop: "t \<in> asleep_pop s \<Longrightarrow>
     bq_step s (s\<lparr>asleep_pop := asleep_pop s - {t}, awake_pop := insert t (awake_pop s)\<rparr>)"
| spurious_push: "t \<in> asleep_push s \<Longrightarrow>
     bq_step s (s\<lparr>asleep_push := asleep_push s - {t}, awake_push := insert t (awake_push s)\<rparr>)"

inductive bq_reachable :: "'a buffer_queue \<Rightarrow> 'a bq_sys \<Rightarrow> bool" for q where
  start: "bq_reachable q (bq_start q)"
| step: "bq_reachable q s \<Longrightarrow> bq_step s s' \<Longrightarrow> bq_reachable q s'"

subsection \<open>The invariant\<close>

text \<open>
  \<open>kp\<close> and \<open>kf\<close> allow for a woken thread that has left its set and is about to run its loop.
\<close>

definition bq_inv :: "nat \<Rightarrow> nat \<Rightarrow> 'a bq_sys \<Rightarrow> bool" where
  "bq_inv kp kf s \<longleftrightarrow>
     bq_wf (queue s) \<and> signals (queue s) = [] \<and>
     finite (asleep_pop s) \<and> finite (awake_pop s) \<and> asleep_pop s \<inter> awake_pop s = {} \<and>
     finite (asleep_push s) \<and> finite (awake_push s) \<and> asleep_push s \<inter> awake_push s = {} \<and>
     card (asleep_pop s) \<le> waiting_empty (queue s) \<and>
     card (asleep_push s) \<le> waiting_full (queue s) \<and>
     (asleep_pop s \<noteq> {} \<longrightarrow>
        \<not> closed (queue s) \<and> length (bq_contents (queue s)) \<le> card (awake_pop s) + kp) \<and>
     (asleep_push s \<noteq> {} \<longrightarrow>
        \<not> closed (queue s) \<and>
        bq_capacity (queue s)
          \<le> length (bq_contents (queue s)) + card (awake_push s) + card (closing s) + kf) \<and>
     (asleep_pop s \<union> awake_pop s) \<inter> (asleep_push s \<union> awake_push s) = {} \<and>
     finite (closing s) \<and> closing s \<inter> (asleep_pop s \<union> awake_pop s \<union> asleep_push s \<union> awake_push s) = {} \<and>
     accepted s = removed s @ bq_contents (queue s)"

lemma bq_inv_start: "bq_wf q \<Longrightarrow> signals q = [] \<Longrightarrow> bq_inv 0 0 (bq_start q)"
  by (simp add: bq_inv_def bq_start_def)

lemma bq_inv_mono: "bq_inv 0 0 s \<Longrightarrow> bq_inv kp kf s"
  by (auto simp: bq_inv_def)

lemma bq_inv_leave_pop:
  assumes "bq_inv 0 0 s" and "t \<in> awake_pop s"
  shows "bq_inv 1 0 (s\<lparr>awake_pop := awake_pop s - {t}\<rparr>)"
    and "t \<notin> busy (s\<lparr>awake_pop := awake_pop s - {t}\<rparr>)"
  using assms card_Suc_Diff1 [of "awake_pop s" t] by (auto simp: bq_inv_def busy_def)

lemma bq_inv_leave_push:
  assumes "bq_inv 0 0 s" and "t \<in> awake_push s"
  shows "bq_inv 0 1 (s\<lparr>awake_push := awake_push s - {t}\<rparr>)"
    and "t \<notin> busy (s\<lparr>awake_push := awake_push s - {t}\<rparr>)"
  using assms card_Suc_Diff1 [of "awake_push s" t] by (auto simp: bq_inv_def busy_def)

lemma bq_inv_closing:
  assumes "bq_inv 0 0 s" and "C \<subseteq> closing s"
    and "notify_seq (signals (bq_close (queue s)))
           (s\<lparr>queue := (bq_close (queue s))\<lparr>signals := []\<rparr>, closing := C\<rparr>) s'"
  shows "bq_inv 0 0 s'"
proof -
  from assms have "s' = s\<lparr>queue := (bq_close (queue s))\<lparr>signals := []\<rparr>, closing := C,
      asleep_pop := {}, awake_pop := awake_pop s \<union> asleep_pop s,
      asleep_push := {}, awake_push := awake_push s \<union> asleep_push s\<rparr>"
    by (simp add: bq_inv_def bq_close_def)
  with assms(1,2) show ?thesis by (auto simp: bq_inv_def intro: finite_subset)
qed

lemma bq_inv_popped:
  assumes inv: "bq_inv kp 0 s" and "kp \<le> 1" and ne: "bq_contents (queue s) \<noteq> []"
    and C: "C = closing s \<or> C = insert t (closing s) \<and> t \<notin> busy s"
    and s': "notify_seq (signals (popped (queue s)))
               (s\<lparr>queue := (popped (queue s))\<lparr>signals := []\<rparr>,
                  removed := removed s @ [hd (bq_contents (queue s))], closing := C\<rparr>) s'"
  shows "bq_inv 0 0 s'"
proof -
  have C': "finite C" "card (closing s) \<le> card C"
    "C \<inter> (asleep_pop s \<union> awake_pop s \<union> asleep_push s \<union> awake_push s) = {}"
    using inv C by (auto simp: bq_inv_def busy_def card_insert_if)
  show ?thesis
proof (cases "waiting_full (queue s) > 0 \<and> asleep_push s \<noteq> {}")
  case True
  then obtain t where "t \<in> asleep_push s"
    and "s' = s\<lparr>queue := (popped (queue s))\<lparr>signals := []\<rparr>,
                removed := removed s @ [hd (bq_contents (queue s))], closing := C,
                asleep_push := asleep_push s - {t}, awake_push := insert t (awake_push s)\<rparr>"
    using s' inv by (auto simp: bq_inv_def)
  with inv ne C' \<open>kp \<le> 1\<close> show ?thesis
    using popped_props [of "queue s"] card_Suc_Diff1 [of "asleep_push s" t]
    by (auto simp: bq_inv_def card_insert_if)
next
  case False
  with s' inv have "s' = s\<lparr>queue := (popped (queue s))\<lparr>signals := []\<rparr>,
                       removed := removed s @ [hd (bq_contents (queue s))], closing := C\<rparr>"
    and "asleep_push s = {}"
    by (auto simp: bq_inv_def split: if_splits)
  with inv ne C' \<open>kp \<le> 1\<close> show ?thesis
    using popped_props [of "queue s"] by (auto simp: bq_inv_def)
qed
qed

lemma bq_inv_pushed:
  assumes inv: "bq_inv 0 kf s" and "kf \<le> 1"
    and room: "length (bq_contents (queue s)) \<noteq> bq_capacity (queue s)"
    and s': "notify_seq (signals (pushed x (queue s)))
               (s\<lparr>queue := (pushed x (queue s))\<lparr>signals := []\<rparr>,
                  accepted := accepted s @ [x]\<rparr>) s'"
  shows "bq_inv 0 0 s'"
proof (cases "waiting_empty (queue s) > 0 \<and> asleep_pop s \<noteq> {}")
  case True
  then obtain t where "t \<in> asleep_pop s"
    and "s' = s\<lparr>queue := (pushed x (queue s))\<lparr>signals := []\<rparr>, accepted := accepted s @ [x],
                asleep_pop := asleep_pop s - {t}, awake_pop := insert t (awake_pop s)\<rparr>"
    using s' inv by (auto simp: bq_inv_def)
  with inv room \<open>kf \<le> 1\<close> show ?thesis
    using pushed_props [of "queue s" x] card_Suc_Diff1 [of "asleep_pop s" t]
    by (auto simp: bq_inv_def card_insert_if)
next
  case False
  with s' inv have "s' = s\<lparr>queue := (pushed x (queue s))\<lparr>signals := []\<rparr>,
                       accepted := accepted s @ [x]\<rparr>"
    and "asleep_pop s = {}"
    by (auto simp: bq_inv_def split: if_splits)
  with inv room \<open>kf \<le> 1\<close> show ?thesis
    using pushed_props [of "queue s" x] by (auto simp: bq_inv_def)
qed

lemma wait_pop_inv:
  assumes inv: "bq_inv k 0 s" and "k \<le> 1" and t: "t \<notin> busy s"
    and r: "wait_pop_body ok (queue s) = (r, q')"
    and s': "notify_seq (signals q') (settle_pop t r s q') s'"
  shows "bq_inv 0 0 s'"
proof -
  from inv have wf: "bq_wf (queue s)" and sig: "signals (queue s) = []"
    and acc: "accepted s = removed s @ bq_contents (queue s)" by (auto simp: bq_inv_def)
  note r = r [unfolded wait_pop_body_eq [OF wf]]
  consider (closed) "bq_contents (queue s) = []" "closed (queue s)"
    | (sleep) "bq_contents (queue s) = []" "\<not> closed (queue s)"
    | (good) "bq_contents (queue s) \<noteq> []" ok
    | (bad) "bq_contents (queue s) \<noteq> []" "\<not> ok" by blast
  then show ?thesis
  proof cases
    case closed
    with r s' inv show ?thesis by (auto simp: settle_pop_def bq_inv_def)
  next
    case sleep
    with r s' inv t show ?thesis by (auto simp: settle_pop_def bq_inv_def busy_def)
  next
    case good
    with r s' have "notify_seq (signals (popped (queue s)))
        (s\<lparr>queue := (popped (queue s))\<lparr>signals := []\<rparr>,
           removed := removed s @ [hd (bq_contents (queue s))], closing := closing s\<rparr>) s'"
      by (auto simp: settle_pop_def)
    from bq_inv_popped [OF inv \<open>k \<le> 1\<close> good(1) disjI1 [OF refl] this] show ?thesis .
  next
    case bad
    from bad r s' have "notify_seq (signals (popped (queue s)))
        (s\<lparr>queue := (popped (queue s))\<lparr>signals := []\<rparr>,
           removed := removed s @ [hd (bq_contents (queue s))], closing := insert t (closing s)\<rparr>) s'"
      by (auto simp: settle_pop_def)
    from bq_inv_popped [OF inv \<open>k \<le> 1\<close> bad(1) _ this, of t] t show ?thesis by simp
  qed
qed

lemma wait_push_inv:
  assumes inv: "bq_inv 0 k s" and "k \<le> 1" and t: "t \<notin> busy s"
    and r: "wait_push_body ok x (queue s) = (r, q')"
    and s': "notify_seq (signals q') (settle_push t x r s q') s'"
  shows "bq_inv 0 0 s'"
proof -
  from inv have wf: "bq_wf (queue s)" and sig: "signals (queue s) = []"
    and acc: "accepted s = removed s @ bq_contents (queue s)" by (auto simp: bq_inv_def)
  note r = r [unfolded wait_push_body_eq [OF wf]]
  consider (closed) "closed (queue s)"
    | (sleep) "length (bq_contents (queue s)) = bq_capacity (queue s)" "\<not> closed (queue s)"
    | (good) "length (bq_contents (queue s)) \<noteq> bq_capacity (queue s)" "\<not> closed (queue s)" ok
    | (bad) "\<not> ok" "\<not> closed (queue s)" "length (bq_contents (queue s)) \<noteq> bq_capacity (queue s)"
    by blast
  then show ?thesis
  proof cases
    case closed
    with r s' inv show ?thesis by (auto simp: settle_push_def bq_inv_def)
  next
    case sleep
    with r s' inv t show ?thesis by (auto simp: settle_push_def bq_inv_def busy_def)
  next
    case good
    with r s' have "notify_seq (signals (pushed x (queue s)))
        (s\<lparr>queue := (pushed x (queue s))\<lparr>signals := []\<rparr>, accepted := accepted s @ [x]\<rparr>) s'"
      by (auto simp: settle_push_def)
    from bq_inv_pushed [OF inv \<open>k \<le> 1\<close> good(1) this] show ?thesis .
  next
    case bad
    with r s' sig have "s' = s\<lparr>queue := (queue s)\<lparr>signals := []\<rparr>, closing := insert t (closing s)\<rparr>"
      by (auto simp: settle_push_def)
    with inv t \<open>k \<le> 1\<close> show ?thesis by (auto simp: bq_inv_def busy_def)
  qed
qed

lemma try_pop_as_wait:
  "bq_wf q \<Longrightarrow> bq_contents q \<noteq> [] \<or> closed q \<Longrightarrow>
   try_pop_common ok q = wait_pop_body ok q \<and> nonblocking_pop_body True ok q = wait_pop_body ok q"
  by (auto simp: nonblocking_pop_body_def try_pop_common_eq wait_pop_body_eq)

lemma try_push_as_wait:
  "bq_wf q \<Longrightarrow> length (bq_contents q) \<noteq> bq_capacity q \<or> closed q \<Longrightarrow>
   try_push_common ok x q = wait_push_body ok x q \<and>
   nonblocking_push_body True ok x q = wait_push_body ok x q"
  by (auto simp: nonblocking_push_body_def try_push_common_eq wait_push_body_eq)

lemma pop_inv:
  assumes inv: "bq_inv 0 0 s" and t: "t \<notin> busy s"
    and f: "f \<in> {wait_pop_body ok, try_pop_common ok, nonblocking_pop_body owns ok}"
    and r: "f (queue s) = (r, q')"
    and s': "notify_seq (signals q') (settle_pop t r s q') s'"
  shows "bq_inv 0 0 s'"
proof -
  from inv have wf: "bq_wf (queue s)" and sig: "signals (queue s) = []" by (auto simp: bq_inv_def)
  consider "wait_pop_body ok (queue s) = (r, q')" | "\<exists>st. (r, q') = (Returns (st, None), queue s)"
    using f r try_pop_as_wait [OF wf, of ok] wf
    by (cases owns; cases "bq_contents (queue s) \<noteq> [] \<or> closed (queue s)")
       (auto simp: nonblocking_pop_body_def try_pop_common_eq)
  then show ?thesis
  proof cases
    case 1
    from wait_pop_inv [OF inv _ t 1 s'] show ?thesis by simp
  next
    case 2
    with inv s' sig show ?thesis by (auto simp: settle_pop_def bq_inv_def)
  qed
qed

lemma push_inv:
  assumes inv: "bq_inv 0 0 s" and t: "t \<notin> busy s"
    and f: "f \<in> {wait_push_body ok x, try_push_common ok x, nonblocking_push_body owns ok x}"
    and r: "f (queue s) = (r, q')"
    and s': "notify_seq (signals q') (settle_push t x r s q') s'"
  shows "bq_inv 0 0 s'"
proof -
  from inv have wf: "bq_wf (queue s)" and sig: "signals (queue s) = []" by (auto simp: bq_inv_def)
  consider "wait_push_body ok x (queue s) = (r, q')"
    | "\<exists>st. st \<noteq> Success \<and> (r, q') = (Returns st, queue s)"
    using f r try_push_as_wait [OF wf, of ok x] wf
    by (cases owns; cases "length (bq_contents (queue s)) \<noteq> bq_capacity (queue s) \<or> closed (queue s)")
       (auto simp: nonblocking_push_body_def try_push_common_eq)
  then show ?thesis
  proof cases
    case 1
    from wait_push_inv [OF inv _ t 1 s'] show ?thesis by simp
  next
    case 2
    with inv s' sig show ?thesis by (auto simp: settle_push_def bq_inv_def)
  qed
qed

lemma bq_step_inv: "bq_step s s' \<Longrightarrow> bq_inv 0 0 s \<Longrightarrow> bq_inv 0 0 s'"
proof (induction rule: bq_step.induct)
  case (pop t s f ok owns r q' s')
  show ?case by (rule pop_inv [OF pop(5,1,2,3,4)])
next
  case (pop_again t s ok r q' s')
  from bq_inv_leave_pop [OF pop_again(4,1)] show ?case
    using wait_pop_inv [OF _ _ _ _ pop_again(3), of 1 ok] pop_again(2) by simp
next
  case (push t s f ok x owns r q' s')
  show ?case by (rule push_inv [OF push(5,1,2,3,4)])
next
  case (push_again t s ok r q' s')
  from bq_inv_leave_push [OF push_again(4,1)] show ?case
    using wait_push_inv [OF _ _ _ _ push_again(3), of 1 ok] push_again(2) by simp
next
  case (close t s s')
  then show ?case by (intro bq_inv_closing [OF close(3), of "closing s"]) simp_all
next
  case (handler t s s')
  then show ?case by (intro bq_inv_closing [OF handler(3), of "closing s - {t}"]) auto
next
  case (spurious_pop t s)
  then show ?case
    using card_Suc_Diff1 [of "asleep_pop s" t] by (auto simp: bq_inv_def card_insert_if)
next
  case (spurious_push t s)
  then show ?case
    using card_Suc_Diff1 [of "asleep_push s" t] by (auto simp: bq_inv_def card_insert_if)
qed

lemma bq_reachable_inv:
  "bq_reachable q s \<Longrightarrow> bq_wf q \<Longrightarrow> signals q = [] \<Longrightarrow> bq_inv 0 0 s"
  by (induction rule: bq_reachable.induct) (auto intro: bq_inv_start bq_step_inv)

subsection \<open>Properties\<close>

lemma bq_pop_makes_progress:
  assumes inv: "bq_inv 0 0 s" and t: "t \<in> awake_pop s" and ne: "bq_contents (queue s) \<noteq> []"
  shows "\<exists>s'. bq_step s s' \<and> removed s' = removed s @ [hd (bq_contents (queue s))]"
proof -
  let ?q = "queue s" and ?s = "s\<lparr>awake_pop := awake_pop s - {t}\<rparr>"
  let ?u = "settle_pop t (Returns (Success, Some (hd (bq_contents ?q)))) ?s (popped ?q)"
  from inv have wf: "bq_wf ?q" and sig: "signals ?q = []" by (auto simp: bq_inv_def)
  have w: "wait_pop_body True ?q = (Returns (Success, Some (hd (bq_contents ?q))), popped ?q)"
    using ne by (simp add: wait_pop_body_eq [OF wf])
  have "\<exists>s'. notify_seq (signals (popped ?q)) ?u s' \<and>
             removed s' = removed s @ [hd (bq_contents ?q)]"
  proof (cases "waiting_full ?q > 0 \<and> asleep_push s \<noteq> {}")
    case True
    then obtain p where "p \<in> asleep_push s" by blast
    with True sig show ?thesis by (auto simp: settle_pop_def)
  next
    case False
    with sig show ?thesis by (auto simp: settle_pop_def)
  qed
  with bq_step.pop_again [OF t w] show ?thesis by blast
qed

text \<open>A run for the witnesses: the consumers 7 and 8 go to sleep, the producer 1 pushes, 7 is woken.\<close>

lemma step_sleep:
  assumes "t \<notin> busy s" and "bq_wf (queue s)" and "bq_contents (queue s) = []"
    and "\<not> closed (queue s)" and "signals (queue s) = []"
  shows "bq_step s (s\<lparr>queue := (queue s)\<lparr>waiting_empty := Suc (waiting_empty (queue s)), signals := []\<rparr>,
                     asleep_pop := insert t (asleep_pop s)\<rparr>)"
  using assms
  by (intro bq_step.pop [where t = t and f = "wait_pop_body True" and ok = True and r = Sleeps and
          q' = "(queue s)\<lparr>waiting_empty := Suc (waiting_empty (queue s))\<rparr>"])
     (simp_all add: wait_pop_body_eq settle_pop_def)

lemma step_push_wakes:
  assumes "t \<notin> busy s" and "bq_wf (queue s)" and "length (bq_contents (queue s)) < bq_capacity (queue s)"
    and "\<not> closed (queue s)" and "signals (queue s) = []" and "0 < waiting_empty (queue s)"
    and "u \<in> asleep_pop s"
  shows "bq_step s (s\<lparr>queue := (pushed x (queue s))\<lparr>signals := []\<rparr>, accepted := accepted s @ [x],
                     asleep_pop := asleep_pop s - {u}, awake_pop := insert u (awake_pop s)\<rparr>)"
  using assms
  by (intro bq_step.push [where t = t and f = "wait_push_body True x" and ok = True and x = x and
          r = "Returns Success" and q' = "pushed x (queue s)"])
     (auto simp: wait_push_body_eq settle_push_def)

lemma sleeper_example:
  "\<exists>s. bq_reachable (bq_alloc (0::nat) 2) s \<and> asleep_pop s = {8} \<and> awake_pop s = {7} \<and>
       bq_contents (queue s) = [5]"
proof -
  let ?q = "bq_alloc (0::nat) 2"
  let ?s0 = "bq_start ?q"
  let ?s1 = "?s0\<lparr>queue := ?q\<lparr>waiting_empty := 1, signals := []\<rparr>, asleep_pop := {7}\<rparr>"
  let ?s2 = "?s0\<lparr>queue := ?q\<lparr>waiting_empty := Suc (Suc 0), signals := []\<rparr>, asleep_pop := {8, 7}\<rparr>"
  let ?s3 = "?s2\<lparr>queue := (pushed 5 (queue ?s2))\<lparr>signals := []\<rparr>, accepted := accepted ?s2 @ [5],
              asleep_pop := {8, 7} - {7}, awake_pop := insert 7 {}\<rparr>"
  have q: "bq_wf ?q" "bq_contents ?q = []" "bq_capacity ?q = 2" "signals ?q = []" "\<not> closed ?q"
    using bq_alloc_props [of 2 "0::nat"] by simp_all
  have w0: "waiting_empty ?q = 0" by (simp add: bq_alloc_def)
  have s1: "bq_step ?s0 ?s1"
    using step_sleep [of 7 ?s0] q w0 by (simp add: bq_start_def busy_def)
  have s2: "bq_step ?s1 ?s2"
    using step_sleep [of 8 ?s1] q w0 by (simp add: bq_start_def busy_def)
  have s3: "bq_step ?s2 ?s3"
    using step_push_wakes [of 1 ?s2 7 5] q by (simp add: bq_start_def busy_def)
  have "bq_reachable ?q ?s3"
    by (rule bq_reachable.step [OF bq_reachable.step [OF bq_reachable.step [OF bq_reachable.start s1] s2] s3])
  moreover have "bq_contents (queue ?s3) = [5]"
    using pushed_props(2) [of "queue ?s2" 5] q by simp
  moreover have "asleep_pop ?s3 = {8}" and "awake_pop ?s3 = {7}" by (auto simp: bq_start_def)
  ultimately show ?thesis by blast
qed

text \<open>C5. No wake-up is lost. In every reachable state of any number of threads on a buffer queue: a
  thread asleep in \<open>wait_pop\<close> means that the queue is open and that at least as many woken consumers
  are about to run as the queue holds elements; a thread asleep in \<open>wait_push\<close> means that it is open
  and that the free slots are no more than the woken producers about to run together with the threads
  in a \<open>catch (...)\<close> handler, which are about to close the queue and so to wake everybody. Elements may
  fail to copy, threads may wake for no reason and anybody may close the queue at any time; the mutex
  and the condition variables themselves do not throw.\<close>

theorem buffer_queue_no_lost_wakeup:
  assumes "bq_reachable q s" and "bq_wf q" and "signals q = []"
  shows "(t \<in> asleep_pop s \<longrightarrow>
            \<not> closed (queue s) \<and> length (bq_contents (queue s)) \<le> card (awake_pop s)) \<and>
         (t \<in> asleep_push s \<longrightarrow>
            \<not> closed (queue s) \<and>
            bq_capacity (queue s)
              \<le> length (bq_contents (queue s)) + card (awake_push s) + card (closing s))"
  using bq_reachable_inv [OF assms] by (auto simp: bq_inv_def)

theorem buffer_queue_no_lost_wakeup_witness:
  "\<exists>s. bq_reachable (bq_alloc (0::nat) 2) s \<and> 8 \<in> asleep_pop s \<and> \<not> closed (queue s) \<and>
       bq_contents (queue s) = [5] \<and> 1 \<le> card (awake_pop s)"
proof -
  obtain s where s: "bq_reachable (bq_alloc (0::nat) 2) s" "asleep_pop s = {8}" "bq_contents (queue s) = [5]"
    using sleeper_example by blast
  with buffer_queue_no_lost_wakeup [OF s(1), of 8] bq_alloc_props [of 2 "0::nat"] show ?thesis by auto
qed

text \<open>No deadlock of consumers: whenever some thread sleeps in \<open>wait_pop\<close> although the queue holds
  an element, another thread has been woken whose next step takes the first element.\<close>

theorem buffer_queue_consumer_progress:
  assumes "bq_reachable q s" and "bq_wf q" and "signals q = []"
    and "t \<in> asleep_pop s" and "bq_contents (queue s) \<noteq> []"
  shows "\<exists>u s'. u \<in> awake_pop s \<and> bq_step s s' \<and>
                removed s' = removed s @ [hd (bq_contents (queue s))]"
proof -
  from bq_reachable_inv [OF assms(1-3)] have inv: "bq_inv 0 0 s" .
  with assms(4,5) have "card (awake_pop s) \<noteq> 0" by (auto simp: bq_inv_def)
  then obtain u where "u \<in> awake_pop s" by fastforce
  with bq_pop_makes_progress [OF inv this assms(5)] show ?thesis by blast
qed

theorem buffer_queue_consumer_progress_witness:
  "\<exists>s s'. bq_reachable (bq_alloc (0::nat) 2) s \<and> 8 \<in> asleep_pop s \<and> bq_step s s' \<and>
          removed s' = removed s @ [5]"
proof -
  obtain s where s: "bq_reachable (bq_alloc (0::nat) 2) s" "asleep_pop s = {8}" "bq_contents (queue s) = [5]"
    using sleeper_example by blast
  with buffer_queue_consumer_progress [OF s(1), of 8] bq_alloc_props [of 2 "0::nat"] show ?thesis
    by auto
qed

text \<open>C11. Concurrent FIFO: in every reachable state, the elements accepted so far are, in order, those
  taken off so far followed by those in the queue, and the queue never holds more than its
  capacity - however the threads interleave, sleep, wake for no reason, close the queue or fail to
  copy an element.\<close>

theorem buffer_queue_concurrent_fifo:
  assumes "bq_reachable q s" and "bq_wf q" and "signals q = []"
  shows "accepted s = removed s @ bq_contents (queue s) \<and>
         length (bq_contents (queue s)) \<le> bq_capacity (queue s)"
  using bq_reachable_inv [OF assms] bq_bound by (auto simp: bq_inv_def)

theorem buffer_queue_concurrent_fifo_witness:
  "\<exists>s. bq_reachable (bq_alloc (0::nat) 2) s \<and> accepted s = removed s @ [5]"
proof -
  obtain s where s: "bq_reachable (bq_alloc (0::nat) 2) s" "bq_contents (queue s) = [5]"
    using sleeper_example by blast
  with buffer_queue_concurrent_fifo [OF s(1)] bq_alloc_props [of 2 "0::nat"] show ?thesis by auto
qed

end
