(* ===== verification/Lock_Free_Queue.thy ===== *)
theory Lock_Free_Queue
  imports Queue_Base
begin

text \<open>
  \<open>include/lock_free_buffer_queue.h\<close>: a bounded queue whose producers and consumers reserve a
  position by compare-and-swap on \<open>tail_\<close> and \<open>head_\<close>, two 64 bit counters that only grow, and
  hand the slot over through one atomic state per slot.

  This theory models the operations as one thread runs them alone. \<open>Lock_Free_Queue_Threads\<close> takes
  them apart into their atomic accesses. \<open>ok\<close> says whether the assignment of the element returns,
  \<open>fails\<close> whether the single \<open>compare_exchange_weak\<close> of \<open>clear_value\<close> or \<open>set_state\<close> fails
  spuriously, as the standard allows it to.
\<close>

subsection \<open>State\<close>

datatype value_state = Valid | Waiting | Invalid

record 'a lfq =
  cardinality :: size_t
  head :: "64 word"
  tail :: "64 word"
  states :: "value_state list"
  vals :: "'a list"

definition slot :: "'a lfq \<Rightarrow> 64 word \<Rightarrow> nat" where
  "slot q k = unat k mod unat (cardinality q)"

definition lfq_init :: "'a \<Rightarrow> size_t \<Rightarrow> 'a lfq outcome" where
  "lfq_init d max_elems =
     (if max_elems < 1
      then Throws (Invalid_argument ''number of elements must be at least one'')
      else Returns
        \<lparr>cardinality = max_elems, head = 0, tail = 0,
         states = replicate (unat max_elems) Waiting,
         vals = replicate (unat max_elems) d\<rparr>)"

definition lfq_is_empty :: "'a lfq \<Rightarrow> bool" where
  "lfq_is_empty q \<longleftrightarrow> head q = tail q"

definition lfq_is_full :: "'a lfq \<Rightarrow> bool" where
  "lfq_is_full q \<longleftrightarrow> tail q = head q + cardinality q"

definition clear_value :: "bool \<Rightarrow> value_state \<Rightarrow> nat \<Rightarrow> 'a lfq \<Rightarrow> 'a lfq" where
  "clear_value fails old_value pos q =
     (if \<not> fails \<and> states q ! pos = old_value then q\<lparr>states := (states q)[pos := Waiting]\<rparr> else q)"

definition set_state :: "bool \<Rightarrow> value_state \<Rightarrow> nat \<Rightarrow> 'a lfq \<Rightarrow> 'a lfq" where
  "set_state fails new_value pos q =
     (if \<not> fails \<and> states q ! pos = Waiting then q\<lparr>states := (states q)[pos := new_value]\<rparr> else q)"

definition lfq_nonblocking_pop ::
  "bool \<Rightarrow> bool \<Rightarrow> 'a lfq \<Rightarrow> (queue_op_status \<times> 'a option) outcome \<times> 'a lfq" where
  "lfq_nonblocking_pop ok fails q =
     (if head q = tail q then (Returns (Empty, None), q)
      else let hd0 = head q; pos = slot q hd0; old_state = states q ! pos
           in if old_state = Valid
              then (let q1 = q\<lparr>head := hd0 + 1\<rparr>; elem = vals q1 ! pos;
                        q2 = clear_value fails Valid pos q1
                    in if ok then (Returns (Success, Some elem), q2) else (Throws User_exn, q2))
              else if old_state = Invalid
              then (Returns (Busy, None), clear_value fails Invalid pos (q\<lparr>head := hd0 + 1\<rparr>))
              else (Returns (Busy, None), q))"

definition lfq_nonblocking_push ::
  "bool \<Rightarrow> bool \<Rightarrow> 'a \<Rightarrow> 'a lfq \<Rightarrow> queue_op_status outcome \<times> 'a lfq" where
  "lfq_nonblocking_push ok fails elem q =
     (if tail q = head q + cardinality q then (Returns Full, q)
      else let tl0 = tail q; pos = slot q tl0; old_state = states q ! pos
           in if old_state = Valid then (Returns Busy, q)
              else if old_state = Invalid then (Returns Busy, q)
              else let q1 = q\<lparr>tail := tl0 + 1\<rparr>
                   in if ok
                      then (Returns Success,
                            set_state fails Valid pos (q1\<lparr>vals := (vals q1)[pos := elem]\<rparr>))
                      else (Throws User_exn, set_state fails Invalid pos q1))"

text \<open>The rvalue overload also returns what is left of the caller's object.\<close>

definition lfq_nonblocking_push_move ::
  "bool \<Rightarrow> bool \<Rightarrow> 'a \<Rightarrow> 'a lfq \<Rightarrow> queue_op_status outcome \<times> 'a option \<times> 'a lfq" where
  "lfq_nonblocking_push_move ok fails elem q =
     (if tail q = head q + cardinality q then (Returns Full, Some elem, q)
      else let tl0 = tail q; pos = slot q tl0; old_state = states q ! pos
           in if old_state = Valid then (Returns Busy, Some elem, q)
              else if old_state = Invalid then (Returns Busy, Some elem, q)
              else let q1 = q\<lparr>tail := tl0 + 1\<rparr>
                   in if ok
                      then (Returns Success, None,
                            set_state fails Valid pos (q1\<lparr>vals := (vals q1)[pos := elem]\<rparr>))
                      else (Throws User_exn, None, set_state fails Invalid pos q1))"

text \<open>
  \<open>try_pop\<close> and \<open>try_push\<close> repeat the nonblocking operation while it is busy: alone, with the same
  behaviour of the assignments each time, they may never return, which is \<open>None\<close>.
\<close>

partial_function (option) lfq_try_pop ::
  "bool \<Rightarrow> bool \<Rightarrow> 'a lfq \<Rightarrow> ((queue_op_status \<times> 'a option) outcome \<times> 'a lfq) option" where
  "lfq_try_pop ok fails q =
     (let res = lfq_nonblocking_pop ok fails q
      in if fst res = Returns (Busy, None) then lfq_try_pop ok fails (snd res) else Some res)"

partial_function (option) lfq_try_push ::
  "bool \<Rightarrow> bool \<Rightarrow> 'a \<Rightarrow> 'a lfq \<Rightarrow> (queue_op_status outcome \<times> 'a lfq) option" where
  "lfq_try_push ok fails elem q =
     (let res = lfq_nonblocking_push ok fails elem q
      in if fst res = Returns Busy then lfq_try_push ok fails elem (snd res) else Some res)"

text \<open>The iterator constructor: \<open>None\<close> when it does not return.\<close>

fun lfq_iter_fill :: "bool \<Rightarrow> 'a lfq \<Rightarrow> 'a list \<Rightarrow> 'a lfq outcome option" where
  "lfq_iter_fill fails q [] = Some (Returns q)"
| "lfq_iter_fill fails q (x # xs) =
     (if lfq_is_full q then Some (Throws (Invalid_argument ''too few slots for iterator''))
      else case lfq_try_push True fails x q of
             Some (_, q') \<Rightarrow> lfq_iter_fill fails q' xs
           | None \<Rightarrow> None)"

definition lfq_from_iter :: "bool \<Rightarrow> 'a \<Rightarrow> size_t \<Rightarrow> 'a list \<Rightarrow> 'a lfq outcome option" where
  "lfq_from_iter fails d max_elems xs =
     (case lfq_init d max_elems of Returns q \<Rightarrow> lfq_iter_fill fails q xs | r \<Rightarrow> Some r)"

subsection \<open>The queue one thread sees\<close>

text \<open>
  The capacity divides \<open>2 ^ 64\<close>: then the slot of a counter survives its wrap-around, and no bound
  on the number of operations is needed.
\<close>

definition lfq_len :: "'a lfq \<Rightarrow> nat" where
  "lfq_len q = unat (tail q - head q)"

definition lfq_contents :: "'a lfq \<Rightarrow> 'a list" where
  "lfq_contents q =
     map (\<lambda>i. vals q ! ((unat (head q) + i) mod unat (cardinality q))) [0 ..< lfq_len q]"

definition lfq_wf :: "'a lfq \<Rightarrow> bool" where
  "lfq_wf q \<longleftrightarrow>
     (let c = unat (cardinality q) in
      0 < c \<and> c dvd 2 ^ 64 \<and> length (states q) = c \<and> length (vals q) = c \<and> lfq_len q \<le> c \<and>
      (\<forall>i < c. states q ! ((unat (head q) + i) mod c) = (if i < lfq_len q then Valid else Waiting)))"

lemma unat_mod_wrap:
  fixes a b :: "64 word"
  assumes "c dvd 2 ^ 64"
  shows "unat (a + b) mod c = (unat a + unat b) mod c"
  using assms by (simp add: unat_word_ariths mod_mod_cancel)

lemma unat_succ_diff:
  fixes t h :: "64 word"
  shows "unat (t - h) < 2 ^ 64 - 1 \<Longrightarrow> unat (t + 1 - h) = unat (t - h) + 1"
proof -
  assume "unat (t - h) < 2 ^ 64 - 1"
  moreover have "unat (- 1 :: 64 word) = 2 ^ 64 - 1"
    by (simp add: unsigned_minus_1_eq_mask mask_eq_exp_minus_1)
  ultimately have "1 + (t - h) \<noteq> 0" by (metis add_eq_0_iff less_irrefl)
  moreover have eq: "t + 1 - h = 1 + (t - h)" by simp
  ultimately show ?thesis unfolding eq using unatSuc [of "t - h"] by simp
qed

lemma unat_diff_succ:
  fixes t h :: "64 word"
  assumes "t \<noteq> h"
  shows "unat (t - (h + 1)) = unat (t - h) - 1"
proof -
  have "1 + (t - (h + 1)) = t - h" by simp
  with assms have "1 + (t - (h + 1)) \<noteq> 0" by simp
  from unatSuc [OF this] show ?thesis using \<open>1 + (t - (h + 1)) = t - h\<close> by simp
qed

lemma lfq_len_0_iff: "lfq_len q = 0 \<longleftrightarrow> head q = tail q"
  by (auto simp: lfq_len_def unat_eq_0)

lemma lfq_full_iff: "tail q = head q + cardinality q \<longleftrightarrow> lfq_len q = unat (cardinality q)"
proof -
  have "lfq_len q = unat (cardinality q) \<longleftrightarrow> tail q - head q = cardinality q"
    by (simp add: lfq_len_def word_eq_iff_unsigned [where ?'a = nat])
  then show ?thesis by (auto simp: algebra_simps)
qed

lemma lfq_wfD:
  assumes "lfq_wf q"
  shows "0 < unat (cardinality q)" and "unat (cardinality q) dvd 2 ^ 64"
    and "length (states q) = unat (cardinality q)" and "length (vals q) = unat (cardinality q)"
    and "lfq_len q \<le> unat (cardinality q)" and "unat (cardinality q) < 2 ^ 64 - 1"
    and "i < unat (cardinality q) \<Longrightarrow> states q ! ((unat (head q) + i) mod unat (cardinality q)) =
           (if i < lfq_len q then Valid else Waiting)"
proof -
  have "unat (cardinality q) < 2 ^ 64" using unsigned_less [of "cardinality q"] by simp
  moreover have "unat (cardinality q) \<noteq> 2 ^ 64 - 1"
  proof
    assume c: "unat (cardinality q) = 2 ^ 64 - 1"
    have "\<not> (2 ^ 64 - 1 :: nat) dvd 2 ^ 64" by (simp add: dvd_eq_mod_eq_0)
    with assms show False unfolding c [symmetric] by (simp add: lfq_wf_def Let_def)
  qed
  ultimately show "unat (cardinality q) < 2 ^ 64 - 1" by simp
qed (use assms in \<open>simp_all add: lfq_wf_def Let_def\<close>)

lemma slot_tail: "lfq_wf q \<Longrightarrow> slot q (tail q) = (unat (head q) + lfq_len q) mod unat (cardinality q)"
  using unat_mod_wrap [OF lfq_wfD(2), of q "head q" "tail q - head q"]
  by (simp add: slot_def lfq_len_def)

lemma slot_less: "lfq_wf q \<Longrightarrow> slot q k < unat (cardinality q)"
  by (simp add: slot_def lfq_wfD(1))

lemma window_neq:
  "i < c \<Longrightarrow> j < c \<Longrightarrow> i \<noteq> j \<Longrightarrow> (a + i) mod c \<noteq> (a + j) mod (c::nat)"
  using mod_window [of "a + i" c "a + j" a] by auto

definition lfq_pushed :: "'a \<Rightarrow> 'a lfq \<Rightarrow> 'a lfq" where
  "lfq_pushed x q =
     q\<lparr>tail := tail q + 1, vals := (vals q)[slot q (tail q) := x],
       states := (states q)[slot q (tail q) := Valid]\<rparr>"

definition lfq_popped :: "'a lfq \<Rightarrow> 'a lfq" where
  "lfq_popped q =
     q\<lparr>head := head q + 1, states := (states q)[slot q (head q) := Waiting]\<rparr>"

lemma lfq_push_eq:
  assumes wf: "lfq_wf q"
  shows "lfq_nonblocking_push True False x q =
     (if lfq_len q = unat (cardinality q) then (Returns Full, q) else (Returns Success, lfq_pushed x q))"
proof (cases "lfq_len q = unat (cardinality q)")
  case True
  then show ?thesis using lfq_full_iff [of q] by (simp add: lfq_nonblocking_push_def)
next
  case False
  then have less: "lfq_len q < unat (cardinality q)" using lfq_wfD(5) [OF wf] by simp
  then have st: "states q ! slot q (tail q) = Waiting"
    using lfq_wfD(7) [OF wf less] slot_tail [OF wf] by simp
  with False show ?thesis
    using lfq_full_iff [of q]
    by (simp add: lfq_nonblocking_push_def lfq_pushed_def set_state_def slot_def Let_def)
qed

lemma lfq_pop_eq:
  assumes wf: "lfq_wf q"
  shows "lfq_nonblocking_pop True False q =
     (if lfq_len q = 0 then (Returns (Empty, None), q)
      else (Returns (Success, Some (vals q ! slot q (head q))), lfq_popped q))"
proof (cases "lfq_len q = 0")
  case True
  then show ?thesis by (simp add: lfq_nonblocking_pop_def lfq_len_0_iff)
next
  case False
  then have "states q ! slot q (head q) = Valid"
    using lfq_wfD(7) [OF wf, of 0] lfq_wfD(1) [OF wf] by (simp add: slot_def)
  with False show ?thesis
    by (simp add: lfq_nonblocking_pop_def lfq_popped_def clear_value_def slot_def lfq_len_0_iff Let_def)
qed

lemma lfq_pushed_props:
  assumes wf: "lfq_wf q" and room: "lfq_len q < unat (cardinality q)"
  shows "lfq_wf (lfq_pushed x q)" and "lfq_contents (lfq_pushed x q) = lfq_contents q @ [x]"
    and "lfq_len (lfq_pushed x q) = lfq_len q + 1"
proof -
  let ?c = "unat (cardinality q)" and ?l = "lfq_len q" and ?h = "unat (head q)"
  have s: "slot q (tail q) = (?h + ?l) mod ?c" by (rule slot_tail [OF wf])
  have sl: "(?h + ?l) mod ?c < ?c" using lfq_wfD(1) [OF wf] by simp
  show len: "lfq_len (lfq_pushed x q) = ?l + 1"
    using unat_succ_diff [of "tail q" "head q"] room lfq_wfD(6) [OF wf]
    by (simp add: lfq_len_def lfq_pushed_def)
  have other: "(?h + ?l) mod ?c \<noteq> (?h + i) mod ?c" if "i < ?c" "i \<noteq> ?l" for i
    using window_neq [of "?l" ?c i ?h] that room by auto
  have "states (lfq_pushed x q) ! ((?h + i) mod ?c) = (if i < ?l + 1 then Valid else Waiting)"
    if i: "i < ?c" for i
  proof (cases "i = ?l")
    case True
    with sl lfq_wfD(3) [OF wf] show ?thesis by (simp add: lfq_pushed_def s)
  next
    case False
    with lfq_wfD(7) [OF wf i] other [OF i] show ?thesis by (simp add: lfq_pushed_def s)
  qed
  then show "lfq_wf (lfq_pushed x q)"
    unfolding lfq_wf_def Let_def len
    using lfq_wfD(1-6) [OF wf] room by (simp add: lfq_pushed_def)
  show "lfq_contents (lfq_pushed x q) = lfq_contents q @ [x]"
    unfolding lfq_contents_def len
    using lfq_wfD(4) [OF wf] room other sl by (simp add: lfq_pushed_def s)
qed

lemma lfq_popped_props:
  assumes wf: "lfq_wf q" and ne: "lfq_len q \<noteq> 0"
  shows "lfq_wf (lfq_popped q)"
    and "lfq_contents q = vals q ! slot q (head q) # lfq_contents (lfq_popped q)"
    and "lfq_len q = Suc (lfq_len (lfq_popped q))"
proof -
  let ?c = "unat (cardinality q)" and ?l = "lfq_len q" and ?h = "unat (head q)"
  have len: "lfq_len (lfq_popped q) = ?l - 1"
    using unat_diff_succ [of "tail q" "head q"] ne lfq_len_0_iff [of q]
    by (auto simp: lfq_len_def lfq_popped_def)
  with ne show "lfq_len q = Suc (lfq_len (lfq_popped q))" by simp
  have "(unat (head q + 1) + i) mod ?c = (unat (head q + 1) mod ?c + i) mod ?c" for i
    by (simp add: mod_simps)
  then have h1: "(unat (head q + 1) + i) mod ?c = (?h + Suc i) mod ?c" for i
    using unat_mod_wrap [OF lfq_wfD(2) [OF wf], of "head q" 1] by (simp add: mod_simps)
  have other: "?h mod ?c \<noteq> (?h + i) mod ?c" if "i < ?c" "i \<noteq> 0" for i
    using window_neq [of 0 ?c i ?h] that lfq_wfD(1) [OF wf] by auto
  have "states (lfq_popped q) ! ((?h + Suc i) mod ?c) = (if i < ?l - 1 then Valid else Waiting)"
    if i: "i < ?c" for i
  proof (cases "Suc i < ?c")
    case True
    with lfq_wfD(7) [OF wf, of "Suc i"] other [of "Suc i"] show ?thesis
      by (auto simp: lfq_popped_def slot_def)
  next
    case False
    with i have "Suc i = ?c" by simp
    then have "(?h + Suc i) mod ?c = ?h mod ?c" by simp
    moreover have "\<not> i < ?l - 1" using lfq_wfD(5) [OF wf] \<open>Suc i = ?c\<close> by simp
    moreover have "?h mod ?c < length (states q)" using lfq_wfD(1,3) [OF wf] by simp
    ultimately show ?thesis by (simp add: lfq_popped_def slot_def)
  qed
  then show "lfq_wf (lfq_popped q)"
    unfolding lfq_wf_def Let_def len
    using lfq_wfD [OF wf] h1 by (auto simp: lfq_popped_def)
  have "[0 ..< ?l] = 0 # map Suc [0 ..< ?l - 1]"
    using ne by (cases ?l) (simp_all add: upt_conv_Cons map_Suc_upt del: upt_Suc)
  then show "lfq_contents q = vals q ! slot q (head q) # lfq_contents (lfq_popped q)"
    unfolding lfq_contents_def len by (simp add: lfq_popped_def slot_def h1)
qed

lemma lfq_init_props:
  assumes "lfq_init d c = Returns q" and "unat c dvd 2 ^ 64"
  shows "lfq_wf q" and "lfq_contents q = []" and "cardinality q = c"
proof -
  from assms(1) have q: "q = \<lparr>cardinality = c, head = 0, tail = 0, states = replicate (unat c) Waiting,
      vals = replicate (unat c) d\<rparr>" and "\<not> c < 1"
    by (auto simp: lfq_init_def split: if_splits)
  then have "0 < unat c" by (simp add: word_less_nat_alt)
  with q assms(2) show "lfq_wf q" and "lfq_contents q = []" and "cardinality q = c"
    by (simp_all add: lfq_wf_def lfq_len_def lfq_contents_def)
qed

subsection \<open>Alone, the queue provides the bounded FIFO contract\<close>

definition lfq_offer :: "'a \<Rightarrow> 'a lfq \<Rightarrow> queue_op_status \<times> 'a lfq" where
  "lfq_offer x q =
     (case lfq_nonblocking_push True False x q of (Returns s, q') \<Rightarrow> (s, q') | (_, q') \<Rightarrow> (Busy, q'))"

definition lfq_fetch :: "'a lfq \<Rightarrow> (queue_op_status \<times> 'a option) \<times> 'a lfq" where
  "lfq_fetch q =
     (case lfq_nonblocking_pop True False q of (Returns r, q') \<Rightarrow> (r, q') | (_, q') \<Rightarrow> ((Busy, None), q'))"

definition lfq_capacity :: "'a lfq \<Rightarrow> nat" where
  "lfq_capacity q = unat (cardinality q)"

lemma length_lfq_contents: "length (lfq_contents q) = lfq_len q"
  by (simp add: lfq_contents_def)

interpretation lfqueue: bounded_queue lfq_wf lfq_contents lfq_capacity "\<lambda>_. False" lfq_offer lfq_fetch
proof unfold_locales
  fix q :: "'a lfq" and x :: 'a
  assume wf: "lfq_wf q"
  show "length (lfq_contents q) \<le> lfq_capacity q"
    using lfq_wfD(5) [OF wf] by (simp add: length_lfq_contents lfq_capacity_def)
  then show "(fst (lfq_offer x q), lfq_contents (snd (lfq_offer x q))) =
      spec_offer (lfq_capacity q) False (lfq_contents q) x"
    using lfq_pushed_props [OF wf, of x]
    by (auto simp: lfq_offer_def lfq_push_eq [OF wf] spec_offer_def length_lfq_contents lfq_capacity_def)
  have "cardinality (lfq_pushed x q) = cardinality q" by (simp add: lfq_pushed_def)
  with lfq_pushed_props [OF wf, of x] lfq_wfD(5) [OF wf] wf
  show "lfq_wf (snd (lfq_offer x q)) \<and> lfq_capacity (snd (lfq_offer x q)) = lfq_capacity q \<and>
      False = False"
    by (auto simp: lfq_offer_def lfq_push_eq [OF wf] lfq_capacity_def)
  show "(fst (lfq_fetch q), lfq_contents (snd (lfq_fetch q))) = spec_take False (lfq_contents q)"
    using lfq_popped_props [OF wf] length_lfq_contents [of q]
    by (auto simp: lfq_fetch_def lfq_pop_eq [OF wf] spec_take_def split: list.splits)
  have "cardinality (lfq_popped q) = cardinality q" by (simp add: lfq_popped_def)
  with lfq_popped_props [OF wf] wf
  show "lfq_wf (snd (lfq_fetch q)) \<and> lfq_capacity (snd (lfq_fetch q)) = lfq_capacity q \<and>
      False = False"
    by (auto simp: lfq_fetch_def lfq_pop_eq [OF wf] lfq_capacity_def)
qed

subsection \<open>Properties\<close>



lemma lfq_try_push_eq:
  assumes "lfq_wf q"
  shows "lfq_try_push True False x q =
    Some (if lfq_len q = unat (cardinality q) then (Returns Full, q) else (Returns Success, lfq_pushed x q))"
  using lfq_push_eq [OF assms, of x] by (subst lfq_try_push.simps) (simp add: Let_def)

lemma lfq_try_pop_eq:
  assumes "lfq_wf q"
  shows "lfq_try_pop True False q =
    Some (if lfq_len q = 0 then (Returns (Empty, None), q)
          else (Returns (Success, Some (vals q ! slot q (head q))), lfq_popped q))"
  using lfq_pop_eq [OF assms] by (subst lfq_try_pop.simps) (simp add: Let_def)

text \<open>Alone, \<open>try_push\<close> and \<open>try_pop\<close> return: on a well-formed queue the busy loop is left at once,
  \<open>try_push\<close> reports full exactly when the queue holds \<open>max_elems\<close> elements and appends otherwise,
  \<open>try_pop\<close> reports empty exactly when it holds none and takes the first element otherwise.\<close>

theorem lock_free_queue_try_returns:
  assumes "lfq_wf q"
  shows "(\<exists>s q'. lfq_try_push True False x q = Some (Returns s, q') \<and> lfq_wf q' \<and>
            (s, lfq_contents q') = spec_offer (lfq_capacity q) False (lfq_contents q) x) \<and>
         (\<exists>r q'. lfq_try_pop True False q = Some (Returns r, q') \<and> lfq_wf q' \<and>
            (r, lfq_contents q') = spec_take False (lfq_contents q))"
  using lfq_push_eq [OF assms, of x] lfqueue.offer_spec [OF assms, of x]
    lfqueue.offer_keeps [OF assms, of x] lfq_pop_eq [OF assms] lfqueue.fetch_spec [OF assms]
    lfqueue.fetch_keeps [OF assms]
  by (simp add: lfq_try_push_eq [OF assms] lfq_try_pop_eq [OF assms] lfq_offer_def lfq_fetch_def
      split: if_splits)

theorem lock_free_queue_try_returns_witness:
  "\<exists>q. lfq_init 0 4 = Returns q \<and>
       (\<exists>s q'. lfq_try_push True False (3::nat) q = Some (Returns s, q') \<and>
               (s, lfq_contents q') = spec_offer 4 False [] 3)"
proof -
  obtain q where q: "lfq_init (0::nat) 4 = Returns q" by (simp add: lfq_init_def)
  have "unat (4 :: size_t) dvd 2 ^ 64" by (simp add: dvd_def)
  from lfq_init_props [OF q this] have "lfq_wf q" "lfq_contents q = []" "lfq_capacity q = 4"
    by (simp_all add: lfq_capacity_def)
  with lock_free_queue_try_returns [of q 3] q show ?thesis by auto
qed

lemma lfq_iter_fill_eq:
  "lfq_wf q \<Longrightarrow>
   (length xs \<le> unat (cardinality q) - lfq_len q \<longrightarrow>
      (\<exists>q'. lfq_iter_fill False q xs = Some (Returns q') \<and> lfq_wf q' \<and>
            lfq_contents q' = lfq_contents q @ xs)) \<and>
   (unat (cardinality q) - lfq_len q < length xs \<longrightarrow>
      lfq_iter_fill False q xs = Some (Throws (Invalid_argument ''too few slots for iterator'')))"
proof (induction xs arbitrary: q)
  case (Cons x xs)
  show ?case
  proof (cases "lfq_len q = unat (cardinality q)")
    case True
    then show ?thesis by (auto simp: lfq_is_full_def lfq_full_iff)
  next
    case False
    with lfq_wfD(5) [OF Cons.prems] have less: "lfq_len q < unat (cardinality q)" by simp
    have "cardinality (lfq_pushed x q) = cardinality q" by (simp add: lfq_pushed_def)
    with Cons.IH [of "lfq_pushed x q"] lfq_pushed_props [OF Cons.prems less, of x] False less
    show ?thesis by (auto simp: lfq_is_full_def lfq_full_iff lfq_try_push_eq [OF Cons.prems])
  qed
qed simp

text \<open>The iterator constructor returns, for a capacity that divides 2^64: the queue it builds from
  a range of at most \<open>max_elems\<close> elements holds exactly the range, in order; a longer range throws
  \<open>invalid_argument\<close>, and so does \<open>max_elems\<close> = 0.\<close>

theorem lock_free_queue_from_iterator:
  assumes "unat c dvd 2 ^ 64" and "0 < c"
  shows "if length xs \<le> unat c
         then \<exists>q. lfq_from_iter False d c xs = Some (Returns q) \<and> lfq_wf q \<and> lfq_contents q = xs
         else lfq_from_iter False d c xs = Some (Throws (Invalid_argument ''too few slots for iterator''))"
proof -
  have "\<not> c < 1" using assms(2) by (simp add: word_less_nat_alt word_le_nat_alt)
  then obtain q where q: "lfq_init d c = Returns q" by (simp add: lfq_init_def)
  from lfq_init_props [OF q assms(1)] have wf: "lfq_wf q" and c: "lfq_contents q = []" "cardinality q = c"
    by simp_all
  have "lfq_len q = 0" using c(1) length_lfq_contents [of q] by simp
  with lfq_iter_fill_eq [OF wf, of xs] c show ?thesis by (auto simp: lfq_from_iter_def q)
qed

theorem lock_free_queue_from_iterator_witness:
  "\<exists>q. lfq_from_iter False 0 4 [1, 2, 3 :: nat] = Some (Returns q) \<and> lfq_contents q = [1, 2, 3]"
proof -
  have "unat (4 :: size_t) dvd 2 ^ 64" by (simp add: dvd_def)
  from lock_free_queue_from_iterator [OF this, of "[1, 2, 3 :: nat]" 0] show ?thesis by auto
qed

end
