(* ===== verification/Lock_Free_Queue_Threads.thy ===== *)
theory Lock_Free_Queue_Threads
  imports Lock_Free_Queue
begin

text \<open>
  Any number of threads on one \<open>lock_free_buffer_queue\<close>, interleaved at every access to a shared
  location: one rule per load, compare-and-swap, element copy and state change of
  \<open>nonblocking_push\<close> and \<open>nonblocking_pop\<close>. Memory is sequentially consistent; the relaxed, acquire
  and release orders of the source are not modelled. \<open>try_push\<close> and \<open>try_pop\<close> are repeated calls.

  The step relation has two switches: \<open>weak\<close> allows the \<open>compare_exchange_weak\<close> of \<open>clear_value\<close> and
  \<open>set_state\<close> to fail spuriously, \<open>exn\<close> allows the copy of an element to throw. With both off the
  queue is exact (\<open>lf_inv\<close>); the last section shows what goes wrong with either on.
\<close>

datatype 'a pc =
    Idle
  | Push_tail 'a
  | Push_check 'a "64 word"
  | Push_state 'a "64 word"
  | Push_cas 'a "64 word"
  | Push_write 'a "64 word"
  | Push_publish value_state "64 word"
  | Push_ret "queue_op_status outcome"
  | Pop_head
  | Pop_check "64 word"
  | Pop_state "64 word"
  | Pop_cas "64 word"
  | Pop_read "64 word"
  | Pop_clear "64 word" "(queue_op_status \<times> 'a option) outcome"
  | Pop_skip "64 word"
  | Pop_unjam "64 word"
  | Pop_ret "(queue_op_status \<times> 'a option) outcome"

fun outside :: "'a pc \<Rightarrow> bool" where
  "outside Idle = True"
| "outside (Push_ret _) = True"
| "outside (Pop_ret _) = True"
| "outside _ = False"

text \<open>
  \<open>pushes\<close> is the history of the elements whose position was reserved, in order: position \<open>k\<close> is its
  \<open>k\<close>th element. \<open>got\<close> lists the positions whose value a consumer copied out, each with that value.
\<close>

record 'a lf_sys =
  shared :: "'a lfq"
  pc :: "nat \<Rightarrow> 'a pc"
  pushes :: "'a list"
  got :: "(nat \<times> 'a) list"

definition lf_start :: "'a lfq \<Rightarrow> 'a lf_sys" where
  "lf_start q = \<lparr>shared = q, pc = (\<lambda>_. Idle), pushes = [], got = []\<rparr>"

definition goto :: "nat \<Rightarrow> 'a pc \<Rightarrow> 'a lf_sys \<Rightarrow> 'a lf_sys" where
  "goto t p s = s\<lparr>pc := (pc s)(t := p)\<rparr>"

inductive lf_step :: "bool \<Rightarrow> bool \<Rightarrow> 'a lf_sys \<Rightarrow> 'a lf_sys \<Rightarrow> bool" for weak exn where
  call_push: "outside (pc s t) \<Longrightarrow> lf_step weak exn s (goto t (Push_tail x) s)"
| load_tail: "pc s t = Push_tail x \<Longrightarrow>
     lf_step weak exn s (goto t (Push_check x (tail (shared s))) s)"
| push_full: "pc s t = Push_check x k \<Longrightarrow> k = head (shared s) + cardinality (shared s) \<Longrightarrow>
     lf_step weak exn s (goto t (Push_ret (Returns Full)) s)"
| push_room: "pc s t = Push_check x k \<Longrightarrow> k \<noteq> head (shared s) + cardinality (shared s) \<Longrightarrow>
     lf_step weak exn s (goto t (Push_state x k) s)"
| push_busy: "pc s t = Push_state x k \<Longrightarrow> states (shared s) ! slot (shared s) k \<noteq> Waiting \<Longrightarrow>
     lf_step weak exn s (goto t (Push_ret (Returns Busy)) s)"
| push_free: "pc s t = Push_state x k \<Longrightarrow> states (shared s) ! slot (shared s) k = Waiting \<Longrightarrow>
     lf_step weak exn s (goto t (Push_cas x k) s)"
| push_lose: "pc s t = Push_cas x k \<Longrightarrow> tail (shared s) \<noteq> k \<Longrightarrow>
     lf_step weak exn s (goto t (Push_ret (Returns Busy)) s)"
| push_win: "pc s t = Push_cas x k \<Longrightarrow> tail (shared s) = k \<Longrightarrow>
     lf_step weak exn s
       (goto t (Push_write x k) (s\<lparr>shared := (shared s)\<lparr>tail := k + 1\<rparr>, pushes := pushes s @ [x]\<rparr>))"
| push_write: "pc s t = Push_write x k \<Longrightarrow>
     lf_step weak exn s
       (goto t (Push_publish Valid k)
         (s\<lparr>shared := (shared s)\<lparr>vals := (vals (shared s))[slot (shared s) k := x]\<rparr>\<rparr>))"
| push_write_throws: "exn \<Longrightarrow> pc s t = Push_write x k \<Longrightarrow>
     lf_step weak exn s (goto t (Push_publish Invalid k) s)"
| push_publish: "pc s t = Push_publish v k \<Longrightarrow> fails \<longrightarrow> weak \<Longrightarrow>
     lf_step weak exn s
       (goto t (Push_ret (if v = Valid then Returns Success else Throws User_exn))
         (s\<lparr>shared := set_state fails v (slot (shared s) k) (shared s)\<rparr>))"
| call_pop: "outside (pc s t) \<Longrightarrow> lf_step weak exn s (goto t Pop_head s)"
| load_head: "pc s t = Pop_head \<Longrightarrow> lf_step weak exn s (goto t (Pop_check (head (shared s))) s)"
| pop_empty: "pc s t = Pop_check k \<Longrightarrow> k = tail (shared s) \<Longrightarrow>
     lf_step weak exn s (goto t (Pop_ret (Returns (Empty, None))) s)"
| pop_some: "pc s t = Pop_check k \<Longrightarrow> k \<noteq> tail (shared s) \<Longrightarrow>
     lf_step weak exn s (goto t (Pop_state k) s)"
| pop_valid: "pc s t = Pop_state k \<Longrightarrow> states (shared s) ! slot (shared s) k = Valid \<Longrightarrow>
     lf_step weak exn s (goto t (Pop_cas k) s)"
| pop_invalid: "pc s t = Pop_state k \<Longrightarrow> states (shared s) ! slot (shared s) k = Invalid \<Longrightarrow>
     lf_step weak exn s (goto t (Pop_skip k) s)"
| pop_waiting: "pc s t = Pop_state k \<Longrightarrow> states (shared s) ! slot (shared s) k = Waiting \<Longrightarrow>
     lf_step weak exn s (goto t (Pop_ret (Returns (Busy, None))) s)"
| pop_lose: "pc s t = Pop_cas k \<Longrightarrow> head (shared s) \<noteq> k \<Longrightarrow>
     lf_step weak exn s (goto t (Pop_ret (Returns (Busy, None))) s)"
| pop_win: "pc s t = Pop_cas k \<Longrightarrow> head (shared s) = k \<Longrightarrow>
     lf_step weak exn s (goto t (Pop_read k) (s\<lparr>shared := (shared s)\<lparr>head := k + 1\<rparr>\<rparr>))"
| pop_read: "pc s t = Pop_read k \<Longrightarrow> v = vals (shared s) ! slot (shared s) k \<Longrightarrow>
     lf_step weak exn s
       (goto t (Pop_clear k (Returns (Success, Some v))) (s\<lparr>got := got s @ [(unat k, v)]\<rparr>))"
| pop_read_throws: "exn \<Longrightarrow> pc s t = Pop_read k \<Longrightarrow>
     lf_step weak exn s (goto t (Pop_clear k (Throws User_exn)) s)"
| pop_clear: "pc s t = Pop_clear k r \<Longrightarrow> fails \<longrightarrow> weak \<Longrightarrow>
     lf_step weak exn s
       (goto t (Pop_ret r) (s\<lparr>shared := clear_value fails Valid (slot (shared s) k) (shared s)\<rparr>))"
| pop_skip: "pc s t = Pop_skip k \<Longrightarrow>
     lf_step weak exn s
       (goto t (Pop_unjam k)
         (s\<lparr>shared := (shared s)\<lparr>head := if head (shared s) = k then k + 1 else head (shared s)\<rparr>\<rparr>))"
| pop_unjam: "pc s t = Pop_unjam k \<Longrightarrow> fails \<longrightarrow> weak \<Longrightarrow>
     lf_step weak exn s
       (goto t (Pop_ret (Returns (Busy, None)))
         (s\<lparr>shared := clear_value fails Invalid (slot (shared s) k) (shared s)\<rparr>))"

inductive lf_reachable :: "bool \<Rightarrow> bool \<Rightarrow> 'a lfq \<Rightarrow> 'a lf_sys \<Rightarrow> bool" for weak exn q where
  lf_start: "lf_reachable weak exn q (lf_start q)"
| lf_more: "lf_reachable weak exn q s \<Longrightarrow> lf_step weak exn s s' \<Longrightarrow> lf_reachable weak exn q s'"

lemma goto_simps [simp]:
  "shared (goto t p s) = shared s" "pushes (goto t p s) = pushes s" "got (goto t p s) = got s"
  "pc (goto t p s) = (pc s)(t := p)"
  by (simp_all add: goto_def)

subsection \<open>The invariant\<close>

text \<open>A producer that holds position \<open>k\<close>, and a consumer that took position \<open>k\<close> and still uses the slot.\<close>

fun writes :: "'a pc \<Rightarrow> 64 word option" where
  "writes (Push_write x k) = Some k"
| "writes (Push_publish v k) = Some k"
| "writes _ = None"

fun reads :: "'a pc \<Rightarrow> 64 word option" where
  "reads (Pop_read k) = Some k"
| "reads (Pop_clear k r) = Some k"
| "reads _ = None"

definition shared_inv :: "'a lfq \<Rightarrow> 'a list \<Rightarrow> bool" where
  "shared_inv q xs \<longleftrightarrow>
     0 < unat (cardinality q) \<and> length (states q) = unat (cardinality q) \<and>
     length (vals q) = unat (cardinality q) \<and> (\<forall>i < unat (cardinality q). states q ! i \<noteq> Invalid) \<and>
     unat (head q) \<le> unat (tail q) \<and> unat (tail q) \<le> unat (head q) + unat (cardinality q) \<and>
     unat (tail q) = length xs"

text \<open>What each program point knows.\<close>

fun pc_inv :: "'a lfq \<Rightarrow> 'a list \<Rightarrow> 'a pc \<Rightarrow> bool" where
  "pc_inv q xs (Push_check x k) \<longleftrightarrow> unat k \<le> unat (tail q)"
| "pc_inv q xs (Push_state x k) \<longleftrightarrow> unat k \<le> unat (tail q) \<and>
     (k = tail q \<longrightarrow> unat (tail q) < unat (head q) + unat (cardinality q))"
| "pc_inv q xs (Push_cas x k) \<longleftrightarrow> unat k \<le> unat (tail q) \<and>
     (k = tail q \<longrightarrow> unat (tail q) < unat (head q) + unat (cardinality q) \<and>
                    states q ! slot q k = Waiting)"
| "pc_inv q xs (Push_write x k) \<longleftrightarrow>
     unat (head q) \<le> unat k \<and> unat k < unat (tail q) \<and> states q ! slot q k = Waiting \<and>
     x = xs ! unat k"
| "pc_inv q xs (Push_publish v k) \<longleftrightarrow>
     unat (head q) \<le> unat k \<and> unat k < unat (tail q) \<and> states q ! slot q k = Waiting \<and>
     v = Valid \<and> vals q ! slot q k = xs ! unat k"
| "pc_inv q xs (Pop_check k) \<longleftrightarrow> unat k \<le> unat (head q)"
| "pc_inv q xs (Pop_state k) \<longleftrightarrow> unat k \<le> unat (head q) \<and>
     (k = head q \<longrightarrow> unat (head q) < unat (tail q))"
| "pc_inv q xs (Pop_cas k) \<longleftrightarrow> unat k \<le> unat (head q) \<and>
     (k = head q \<longrightarrow> unat (head q) < unat (tail q) \<and> states q ! slot q k = Valid)"
| "pc_inv q xs (Pop_read k) \<longleftrightarrow>
     unat k < unat (head q) \<and> unat (tail q) \<le> unat k + unat (cardinality q) \<and>
     states q ! slot q k = Valid \<and> vals q ! slot q k = xs ! unat k"
| "pc_inv q xs (Pop_clear k r) \<longleftrightarrow>
     unat k < unat (head q) \<and> unat (tail q) \<le> unat k + unat (cardinality q) \<and>
     states q ! slot q k = Valid \<and> r = Returns (Success, Some (xs ! unat k))"
| "pc_inv q xs (Pop_skip k) \<longleftrightarrow> False"
| "pc_inv q xs (Pop_unjam k) \<longleftrightarrow> False"
| "pc_inv q xs _ \<longleftrightarrow> True"

definition writer_at :: "'a lf_sys \<Rightarrow> nat \<Rightarrow> bool" where
  "writer_at s j \<longleftrightarrow> (\<exists>t k. writes (pc s t) = Some k \<and> unat k = j)"

definition reader_at :: "'a lf_sys \<Rightarrow> nat \<Rightarrow> bool" where
  "reader_at s j \<longleftrightarrow> (\<exists>t k. reads (pc s t) = Some k \<and> unat k = j)"

definition copier_at :: "'a lf_sys \<Rightarrow> nat \<Rightarrow> bool" where
  "copier_at s j \<longleftrightarrow> (\<exists>t k. pc s t = Pop_read k \<and> unat k = j)"

definition lf_inv :: "'a lf_sys \<Rightarrow> bool" where
  "lf_inv s \<longleftrightarrow>
     (let q = shared s; xs = pushes s; c = unat (cardinality q) in
      shared_inv q xs \<and> (\<forall>t. pc_inv q xs (pc s t)) \<and>
      (\<forall>t u k. writes (pc s t) = Some k \<and> writes (pc s u) = Some k \<longrightarrow> t = u) \<and>
      (\<forall>t u k. reads (pc s t) = Some k \<and> reads (pc s u) = Some k \<longrightarrow> t = u) \<and>
      (\<forall>j. unat (head q) \<le> j \<and> j < unat (tail q) \<longrightarrow>
         writer_at s j \<or>
         (states q ! (j mod c) = Valid \<and> vals q ! (j mod c) = xs ! j)) \<and>
      (\<forall>j. unat (tail q) \<le> j \<and> j < unat (head q) + c \<longrightarrow>
         states q ! (j mod c) = Waiting \<or> (\<exists>i. reader_at s i \<and> i + c = j)) \<and>
      (\<forall>j v. (j, v) \<in> set (got s) \<longrightarrow> j < unat (head q) \<and> v = xs ! j) \<and>
      distinct (map fst (got s)) \<and>
      (\<forall>t k. pc s t = Pop_read k \<longrightarrow> unat k \<notin> fst ` set (got s)) \<and>
      (\<forall>j < unat (head q). j \<in> fst ` set (got s) \<or> copier_at s j))"

lemma lf_invD:
  assumes "lf_inv s"
  shows "shared_inv (shared s) (pushes s)"
    and "\<And>t. pc_inv (shared s) (pushes s) (pc s t)"
    and "\<And>t u k. writes (pc s t) = Some k \<Longrightarrow> writes (pc s u) = Some k \<Longrightarrow> t = u"
    and "\<And>t u k. reads (pc s t) = Some k \<Longrightarrow> reads (pc s u) = Some k \<Longrightarrow> t = u"
    and "\<And>j. unat (head (shared s)) \<le> j \<Longrightarrow> j < unat (tail (shared s)) \<Longrightarrow>
         writer_at s j \<or>
         (states (shared s) ! (j mod unat (cardinality (shared s))) = Valid \<and>
          vals (shared s) ! (j mod unat (cardinality (shared s))) = pushes s ! j)"
    and "\<And>j. unat (tail (shared s)) \<le> j \<Longrightarrow>
         j < unat (head (shared s)) + unat (cardinality (shared s)) \<Longrightarrow>
         states (shared s) ! (j mod unat (cardinality (shared s))) = Waiting \<or>
         (\<exists>i. reader_at s i \<and> i + unat (cardinality (shared s)) = j)"
    and "\<And>j v. (j, v) \<in> set (got s) \<Longrightarrow> j < unat (head (shared s)) \<and> v = pushes s ! j"
    and "distinct (map fst (got s))"
    and "\<And>t k. pc s t = Pop_read k \<Longrightarrow> unat k \<notin> fst ` set (got s)"
    and "\<And>j. j < unat (head (shared s)) \<Longrightarrow>
         j \<in> fst ` set (got s) \<or> copier_at s j"
  using assms unfolding lf_inv_def Let_def by blast+

lemma lf_invI:
  assumes "shared_inv (shared s) (pushes s)"
    and "\<And>t. pc_inv (shared s) (pushes s) (pc s t)"
    and "\<And>t u k. writes (pc s t) = Some k \<Longrightarrow> writes (pc s u) = Some k \<Longrightarrow> t = u"
    and "\<And>t u k. reads (pc s t) = Some k \<Longrightarrow> reads (pc s u) = Some k \<Longrightarrow> t = u"
    and "\<And>j. unat (head (shared s)) \<le> j \<Longrightarrow> j < unat (tail (shared s)) \<Longrightarrow>
         writer_at s j \<or>
         (states (shared s) ! (j mod unat (cardinality (shared s))) = Valid \<and>
          vals (shared s) ! (j mod unat (cardinality (shared s))) = pushes s ! j)"
    and "\<And>j. unat (tail (shared s)) \<le> j \<Longrightarrow>
         j < unat (head (shared s)) + unat (cardinality (shared s)) \<Longrightarrow>
         states (shared s) ! (j mod unat (cardinality (shared s))) = Waiting \<or>
         (\<exists>i. reader_at s i \<and> i + unat (cardinality (shared s)) = j)"
    and "\<And>j v. (j, v) \<in> set (got s) \<Longrightarrow> j < unat (head (shared s)) \<and> v = pushes s ! j"
    and "distinct (map fst (got s))"
    and "\<And>t k. pc s t = Pop_read k \<Longrightarrow> unat k \<notin> fst ` set (got s)"
    and "\<And>j. j < unat (head (shared s)) \<Longrightarrow>
         j \<in> fst ` set (got s) \<or> copier_at s j"
  shows "lf_inv s"
  unfolding lf_inv_def Let_def using assms by blast

text \<open>The hold of the other threads on their positions survives a step of thread \<open>t\<close>.\<close>

lemma writer_atI: "writes (pc s t) = Some k \<Longrightarrow> writer_at s (unat k)"
  by (auto simp: writer_at_def)

lemma reader_atI: "reads (pc s t) = Some k \<Longrightarrow> reader_at s (unat k)"
  by (auto simp: reader_at_def)

lemma copier_atI: "pc s t = Pop_read k \<Longrightarrow> copier_at s (unat k)"
  by (auto simp: copier_at_def)

lemma writer_at_step:
  assumes "writer_at s j" and "pc s' = (pc s)(t := p)"
    and "\<And>k. writes (pc s t) = Some k \<Longrightarrow> unat k = j \<Longrightarrow> writes p = Some k"
  shows "writer_at s' j"
  using assms unfolding writer_at_def by (metis fun_upd_other fun_upd_same)

lemma reader_at_step:
  assumes "reader_at s j" and "pc s' = (pc s)(t := p)"
    and "\<And>k. reads (pc s t) = Some k \<Longrightarrow> unat k = j \<Longrightarrow> reads p = Some k"
  shows "reader_at s' j"
  using assms unfolding reader_at_def by (metis fun_upd_other fun_upd_same)

lemma copier_at_step:
  assumes "copier_at s j" and "pc s' = (pc s)(t := p)"
    and "\<And>k. pc s t = Pop_read k \<Longrightarrow> unat k = j \<Longrightarrow> p = Pop_read k"
  shows "copier_at s' j"
  using assms unfolding copier_at_def by (metis fun_upd_other fun_upd_same)

text \<open>A step that changes only the program counter of a thread, and not what it holds.\<close>

lemma lf_inv_local:
  assumes inv: "lf_inv s"
    and pc: "pc_inv (shared s) (pushes s) p"
    and keeps: "writes p = None" "reads p = None" "writes (pc s t) = None" "reads (pc s t) = None"
  shows "lf_inv (goto t p s)"
proof (rule lf_invI, goal_cases)
  case (5 j)
  with lf_invD(5) [OF inv, of j] keeps show ?case
    by (auto intro: writer_at_step [where s = s and t = t])
next
  case (6 j)
  with lf_invD(6) [OF inv, of j] keeps show ?case
    by (auto dest: reader_at_step [where s = s and t = t and s' = "goto t p s" and p = p])
next
  case (10 j)
  with lf_invD(10) [OF inv, of j] keeps show ?case
    by (auto intro: copier_at_step [where s = s and t = t])
qed (use lf_invD(1-4, 7-9) [OF inv] pc keeps in \<open>auto split: if_splits\<close>)

text \<open>Two positions of one window of \<open>cardinality\<close> positions use different slots.\<close>

lemma slot_neq:
  assumes "unat a \<noteq> unat b" and "lo \<le> unat a" "unat a < lo + unat (cardinality q)"
    and "lo \<le> unat b" "unat b < lo + unat (cardinality q)"
  shows "slot q a \<noteq> slot q b"
  using mod_window [of "unat a" "unat (cardinality q)" "unat b" lo] assms by (auto simp: slot_def)

lemma slot_pos_neq:
  assumes "unat a \<noteq> j" and "lo \<le> unat a" "unat a < lo + unat (cardinality q)"
    and "lo \<le> j" "j < lo + unat (cardinality q)"
  shows "j mod unat (cardinality q) \<noteq> slot q a"
  using mod_window [of "unat a" "unat (cardinality q)" j lo] assms by (auto simp: slot_def)

lemma slot_in: "shared_inv q xs \<Longrightarrow> slot q k < unat (cardinality q)"
  by (simp add: shared_inv_def slot_def)

lemma unat_succ_bounded:
  "unat (w :: 64 word) + 1 < 2 ^ 64 \<Longrightarrow> unat (w + 1) = unat w + 1"
  by (simp add: unat_word_ariths)

lemma unat_add_bounded:
  "unat (a :: 64 word) + unat b < 2 ^ 64 \<Longrightarrow> unat (a + b) = unat a + unat b"
  by (simp add: unat_word_ariths)

lemma slot_upd [simp]:
  "slot (q\<lparr>states := ss\<rparr>) k = slot q k" "slot (q\<lparr>vals := vs\<rparr>) k = slot q k"
  "slot (q\<lparr>head := h\<rparr>) k = slot q k" "slot (q\<lparr>tail := h\<rparr>) k = slot q k"
  by (simp_all add: slot_def)

lemma lf_inv_push_win:
  assumes inv: "lf_inv s" and pc: "pc s t = Push_cas x (tail (shared s))"
    and room: "length (pushes s) + 1 < 2 ^ 64"
  shows "lf_inv (goto t (Push_write x (tail (shared s)))
           (s\<lparr>shared := (shared s)\<lparr>tail := tail (shared s) + 1\<rparr>, pushes := pushes s @ [x]\<rparr>))"
    (is "lf_inv ?s'")
proof -
  let ?q = "shared s" and ?c = "unat (cardinality (shared s))"
  note I = lf_invD [OF inv]
  from I(1) have q: "0 < ?c" "unat (head ?q) \<le> unat (tail ?q)"
    "unat (tail ?q) \<le> unat (head ?q) + ?c" "unat (tail ?q) = length (pushes s)"
    by (auto simp: shared_inv_def)
  from I(2) [of t] pc have free: "unat (tail ?q) < unat (head ?q) + ?c"
    "states ?q ! slot ?q (tail ?q) = Waiting" by auto
  have tl: "unat (tail ?q + 1) = unat (tail ?q) + 1"
    using unat_succ_bounded room q by simp
  have no_reader: "unat (tail ?q) < unat k + ?c" if "reads (pc s u) = Some k" for u k
  proof -
    from that I(2) [of u] have "unat (tail ?q) \<le> unat k + ?c" "states ?q ! slot ?q k = Valid"
      by (cases "pc s u"; auto)+
    moreover have "unat (tail ?q) \<noteq> unat k + ?c"
      using free(2) calculation(2) by (auto simp: slot_def)
    ultimately show ?thesis by simp
  qed
  have others: "pc_inv (?q\<lparr>tail := tail ?q + 1\<rparr>) (pushes s @ [x]) (pc s u)" for u
  proof -
    have ne: "k \<noteq> tail ?q + 1" if "unat k \<le> unat (tail ?q)" for k
      using that tl by auto
    show ?thesis
      using I(2) [of u] no_reader [of u] q tl ne
      by (cases "pc s u") (auto simp: slot_def nth_append)
  qed
  show ?thesis
  proof (rule lf_invI, goal_cases)
    case 1
    show ?case using I(1) q free tl by (auto simp: shared_inv_def)
  next
    case (2 u)
    show ?case using others [of u] free q tl by (auto simp: slot_def nth_append)
  next
    case (3 u v k)
    have "writes (pc s w) \<noteq> Some (tail ?q)" for w
      using I(2) [of w] by (cases "pc s w") auto
    with 3 I(3) show ?case by (auto split: if_splits)
  next
    case (4 u v k)
    with I(4) show ?case by (auto split: if_splits)
  next
    case (5 j)
    show ?case
    proof (cases "j = unat (tail ?q)")
      case True
      then show ?thesis using writer_atI [of ?s' t "tail ?q"] by simp
    next
      case False
      with 5 tl have "unat (head ?q) \<le> j" "j < unat (tail ?q)" by auto
      with I(5) [of j] pc q show ?thesis
        by (auto simp: nth_append intro: writer_at_step [where s = s and t = t])
    qed
  next
    case (6 j)
    with I(6) [of j] pc tl show ?case
      by (auto dest: reader_at_step [where s = s and t = t and s' = ?s'])
  next
    case (7 j v)
    with I(7) [of j v] q show ?case by (auto simp: nth_append)
  next
    case 8
    show ?case using I(8) by simp
  next
    case (9 u k)
    with I(9) show ?case by (auto split: if_splits)
  next
    case (10 j)
    with I(10) [of j] pc show ?case by (auto intro: copier_at_step [where s = s and t = t])
  qed
qed

lemma writesD:
  "pc_inv q xs p \<Longrightarrow> writes p = Some k \<Longrightarrow>
   unat (head q) \<le> unat k \<and> unat k < unat (tail q) \<and> states q ! slot q k = Waiting"
  by (cases p) auto

lemma readsD:
  "pc_inv q xs p \<Longrightarrow> reads p = Some k \<Longrightarrow>
   unat k < unat (head q) \<and> unat (tail q) \<le> unat k + unat (cardinality q) \<and>
   states q ! slot q k = Valid"
  by (cases p) auto

lemma unat_eq_64: "unat (a :: 64 word) = unat b \<longleftrightarrow> a = b"
  by (simp add: word_eq_iff_unsigned [where ?'a = nat])

lemma lf_inv_push_write:
  assumes inv: "lf_inv s" and pc: "pc s t = Push_write x k"
  shows "lf_inv (goto t (Push_publish Valid k)
           (s\<lparr>shared := (shared s)\<lparr>vals := (vals (shared s))[slot (shared s) k := x]\<rparr>\<rparr>))"
    (is "lf_inv ?s'")
proof -
  let ?q = "shared s" and ?c = "unat (cardinality (shared s))"
  note I = lf_invD [OF inv]
  from I(1) have q: "unat (tail ?q) \<le> unat (head ?q) + ?c" "length (vals ?q) = ?c"
    and "slot ?q k < ?c" by (auto simp: shared_inv_def slot_in [OF I(1)])
  from I(2) [of t] pc have k: "unat (head ?q) \<le> unat k" "unat k < unat (tail ?q)"
    "states ?q ! slot ?q k = Waiting" "x = pushes s ! unat k" by auto
  have keep: "(vals ?q)[slot ?q k := x] ! (j mod ?c) = vals ?q ! (j mod ?c)"
    if "states ?q ! (j mod ?c) = Valid" for j
    using that k(3) by (metis nth_list_update_neq value_state.distinct(1))
  have others: "pc_inv (?q\<lparr>vals := (vals ?q)[slot ?q k := x]\<rparr>) (pushes s) (pc s u)" if "u \<noteq> t" for u
  proof (cases "pc s u")
    case (Push_publish v k')
    with I(3) [of u k' t] that pc have "unat k' \<noteq> unat k" by (auto simp: unat_eq_64)
    with I(2) [of u] k q Push_publish have "slot ?q k' \<noteq> slot ?q k"
      by (intro slot_neq [where lo = "unat (head ?q)"]) auto
    with I(2) [of u] Push_publish show ?thesis by (simp add: slot_def)
  qed (use I(2) [of u] keep in \<open>auto simp: slot_def\<close>)
  show ?thesis
  proof (rule lf_invI, goal_cases)
    case 1
    show ?case using I(1) by (simp add: shared_inv_def)
  next
    case (2 u)
    show ?case using others [of u] k q \<open>slot ?q k < ?c\<close> by (auto simp: slot_def)
  next
    case (3 u v k')
    with I(3) pc show ?case by (auto split: if_splits)
  next
    case (4 u v k')
    with I(4) show ?case by (auto split: if_splits)
  next
    case (5 j)
    with I(5) [of j] pc keep [of j] show ?case
      by (auto intro: writer_at_step [where s = s and t = t])
  next
    case (6 j)
    with I(6) [of j] pc show ?case
      by (auto dest: reader_at_step [where s = s and t = t and s' = ?s'])
  next
    case (10 j)
    with I(10) [of j] pc show ?case by (auto intro: copier_at_step [where s = s and t = t])
  qed (use I(7-9) in \<open>auto split: if_splits\<close>)
qed

lemma lf_inv_push_publish:
  assumes inv: "lf_inv s" and pc: "pc s t = Push_publish v k"
  shows "lf_inv (goto t (Push_ret r)
           (s\<lparr>shared := set_state False v (slot (shared s) k) (shared s)\<rparr>))"
    (is "lf_inv ?s'")
proof -
  let ?q = "shared s" and ?c = "unat (cardinality (shared s))"
  note I = lf_invD [OF inv]
  from I(1) have q: "0 < ?c" "unat (tail ?q) \<le> unat (head ?q) + ?c" "length (states ?q) = ?c"
    and i: "slot ?q k < ?c" by (auto simp: shared_inv_def slot_in [OF I(1)])
  from I(2) [of t] pc have k: "unat (head ?q) \<le> unat k" "unat k < unat (tail ?q)"
    "states ?q ! slot ?q k = Waiting" "v = Valid" "vals ?q ! slot ?q k = pushes s ! unat k" by auto
  have eq: "set_state False v (slot ?q k) ?q = ?q\<lparr>states := (states ?q)[slot ?q k := Valid]\<rparr>"
    using k by (simp add: set_state_def)
  have apart: "j mod ?c \<noteq> slot ?q k"
    if "j \<noteq> unat k" "unat (head ?q) \<le> j" "j < unat (head ?q) + ?c" for j
    using that k q by (intro slot_pos_neq [where lo = "unat (head ?q)"]) auto
  have others: "pc_inv (?q\<lparr>states := (states ?q)[slot ?q k := Valid]\<rparr>) (pushes s) (pc s u)"
    if "u \<noteq> t" for u
  proof -
    have "slot ?q k' \<noteq> slot ?q k" if "writes (pc s u) = Some k'" for k'
    proof -
      have "unat k' \<noteq> unat k"
        using I(3) [of u k' t] that pc \<open>u \<noteq> t\<close> by (auto simp: unat_eq_64)
      with writesD [OF I(2) that] k q show ?thesis
        by (intro slot_neq [where lo = "unat (head ?q)"]) auto
    qed
    moreover have "slot ?q (tail ?q) \<noteq> slot ?q k"
      if "unat (tail ?q) < unat (head ?q) + ?c"
      using that k by (intro slot_neq [where lo = "unat (head ?q)"]) auto
    ultimately show ?thesis
      using I(2) [of u] i q by (cases "pc s u") (auto simp: nth_list_update)
  qed
  show ?thesis
    unfolding eq
  proof (rule lf_invI, goal_cases)
    case 1
    show ?case using I(1) i by (auto simp: shared_inv_def nth_list_update)
  next
    case (2 u)
    show ?case using others [of u] by auto
  next
    case (3 u v k')
    with I(3) pc show ?case by (auto split: if_splits)
  next
    case (4 u v k')
    with I(4) show ?case by (auto split: if_splits)
  next
    case (5 j)
    show ?case
    proof (cases "j = unat k")
      case True
      with k i q show ?thesis by (auto simp: slot_def)
    next
      case False
      with 5 k q have "j mod ?c \<noteq> slot ?q k" by (intro apart) auto
      with 5 I(5) [of j] pc False show ?thesis
        by (auto intro: writer_at_step [where s = s and t = t])
    qed
  next
    case (6 j)
    with k apart [of j] have "j mod ?c \<noteq> slot ?q k" by auto
    with 6 I(6) [of j] pc show ?case
      by (auto dest: reader_at_step [where s = s and t = t and s' =
            "goto t (Push_ret r) (s\<lparr>shared := ?q\<lparr>states := (states ?q)[slot ?q k := Valid]\<rparr>\<rparr>)"])
  next
    case (10 j)
    with I(10) [of j] pc show ?case by (auto intro: copier_at_step [where s = s and t = t])
  qed (use I(7-9) in \<open>auto split: if_splits\<close>)
qed

lemma lf_inv_pop_win:
  assumes inv: "lf_inv s" and pc: "pc s t = Pop_cas (head (shared s))"
    and room: "length (pushes s) < 2 ^ 64"
  shows "lf_inv (goto t (Pop_read (head (shared s)))
           (s\<lparr>shared := (shared s)\<lparr>head := head (shared s) + 1\<rparr>\<rparr>))"
    (is "lf_inv ?s'")
proof -
  let ?q = "shared s" and ?c = "unat (cardinality (shared s))" and ?h = "head (shared s)"
  note I = lf_invD [OF inv]
  from I(1) have q: "0 < ?c" "unat (tail ?q) \<le> unat ?h + ?c" "unat (tail ?q) = length (pushes s)"
    by (auto simp: shared_inv_def)
  from I(2) [of t] pc have some: "unat ?h < unat (tail ?q)" "states ?q ! slot ?q ?h = Valid" by auto
  have hd: "unat (?h + 1) = unat ?h + 1"
    using unat_succ_bounded room q some by simp
  have no_writer: "unat ?h < unat k" if "writes (pc s u) = Some k" for u k
  proof -
    from writesD [OF I(2) that] have "unat ?h \<le> unat k" "states ?q ! slot ?q k = Waiting" by auto
    moreover have "k \<noteq> ?h" using some(2) calculation(2) by auto
    ultimately show ?thesis by (metis le_neq_implies_less unat_eq_64)
  qed
  have vals: "vals ?q ! slot ?q ?h = pushes s ! unat ?h"
  proof -
    have "\<not> writer_at s (unat ?h)" by (auto simp: writer_at_def dest: no_writer)
    with I(5) [of "unat ?h"] some show ?thesis by (auto simp: slot_def)
  qed
  have others: "pc_inv (?q\<lparr>head := ?h + 1\<rparr>) (pushes s) (pc s u)" for u
  proof -
    have "k \<noteq> ?h + 1" if "unat k \<le> unat ?h" for k
      using that hd by auto
    then show ?thesis
      using I(2) [of u] no_writer [of u] q hd by (cases "pc s u") (fastforce simp: slot_def)+
  qed
  show ?thesis
  proof (rule lf_invI, goal_cases)
    case 1
    show ?case using I(1) q some hd by (auto simp: shared_inv_def)
  next
    case (2 u)
    show ?case using others [of u] some q hd vals by auto
  next
    case (3 u v k)
    with I(3) show ?case by (auto split: if_splits)
  next
    case (4 u v k)
    have "reads (pc s w) \<noteq> Some ?h" for w
      using readsD [OF I(2) [of w], of ?h] by auto
    with 4 I(4) show ?case by (auto split: if_splits)
  next
    case (5 j)
    with I(5) [of j] pc hd show ?case
      by (auto intro: writer_at_step [where s = s and t = t])
  next
    case (6 j)
    show ?case
    proof (cases "j = unat ?h + ?c")
      case True
      then show ?thesis using reader_atI [of ?s' t ?h] by auto
    next
      case False
      with 6 hd I(6) [of j] pc show ?thesis
        by (auto dest: reader_at_step [where s = s and t = t and s' = ?s'])
    qed
  next
    case (7 j v)
    with I(7) [of j v] hd show ?case by auto
  next
    case 8
    show ?case using I(8) by simp
  next
    case (9 u k)
    show ?case
    proof (cases "u = t")
      case True
      with 9 have "k = ?h" by simp
      with I(7) show ?thesis by fastforce
    next
      case False
      with 9 I(9) [of u k] show ?thesis by simp
    qed
  next
    case (10 j)
    show ?case
    proof (cases "j = unat ?h")
      case True
      then show ?thesis using copier_atI [of ?s' t ?h] by simp
    next
      case False
      with 10 hd I(10) [of j] pc show ?thesis
        by (auto intro: copier_at_step [where s = s and t = t])
    qed
  qed
qed

lemma lf_inv_pop_read:
  assumes inv: "lf_inv s" and pc: "pc s t = Pop_read k"
    and v: "v = vals (shared s) ! slot (shared s) k"
  shows "lf_inv (goto t (Pop_clear k (Returns (Success, Some v))) (s\<lparr>got := got s @ [(unat k, v)]\<rparr>))"
    (is "lf_inv ?s'")
proof -
  note I = lf_invD [OF inv]
  from I(2) [of t] pc have k: "unat k < unat (head (shared s))" "v = pushes s ! unat k"
    by (auto simp: v)
  from I(9) [OF pc] have new: "unat k \<notin> fst ` set (got s)" .
  show ?thesis
  proof (rule lf_invI, goal_cases)
    case (2 u)
    show ?case using I(2) [of u] I(2) [of t] pc v by auto
  next
    case (3 u v k')
    with I(3) show ?case by (auto split: if_splits)
  next
    case (4 u v k')
    with I(4) pc show ?case by (auto split: if_splits)
  next
    case (5 j)
    with I(5) [of j] pc show ?case by (auto intro: writer_at_step [where s = s and t = t])
  next
    case (6 j)
    with I(6) [of j] pc show ?case
      by (auto dest: reader_at_step [where s = s and t = t and s' = ?s'])
  next
    case (7 j w)
    with I(7) [of j w] k show ?case by auto
  next
    case 8
    with I(8) new show ?case by simp
  next
    case (9 u k')
    have "unat k' \<noteq> unat k" if "u \<noteq> t"
      using that 9 I(4) [of u k' t] pc by (auto simp: unat_eq_64)
    with 9 I(9) [of u k'] show ?case by (auto split: if_splits)
  next
    case (10 j)
    with I(10) [of j] pc show ?case by (auto intro: copier_at_step [where s = s and t = t])
  qed (use I(1) in simp)
qed

lemma lf_inv_pop_clear:
  assumes inv: "lf_inv s" and pc: "pc s t = Pop_clear k r"
  shows "lf_inv (goto t (Pop_ret r)
           (s\<lparr>shared := clear_value False Valid (slot (shared s) k) (shared s)\<rparr>))"
    (is "lf_inv ?s'")
proof -
  let ?q = "shared s" and ?c = "unat (cardinality (shared s))"
  let ?s2 = "goto t (Pop_ret r) (s\<lparr>shared := ?q\<lparr>states := (states ?q)[slot ?q k := Waiting]\<rparr>\<rparr>)"
  note I = lf_invD [OF inv]
  from I(1) have q: "0 < ?c" "unat (tail ?q) \<le> unat (head ?q) + ?c" "length (states ?q) = ?c"
    "unat (head ?q) \<le> unat (tail ?q)"
    and i: "slot ?q k < ?c" by (auto simp: shared_inv_def slot_in [OF I(1)])
  from I(2) [of t] pc have k: "unat k < unat (head ?q)" "unat (tail ?q) \<le> unat k + ?c"
    "states ?q ! slot ?q k = Valid" by auto
  have eq: "?s' = ?s2"
    using k by (simp add: clear_value_def)
  have others: "pc_inv (?q\<lparr>states := (states ?q)[slot ?q k := Waiting]\<rparr>) (pushes s) (pc s u)"
    if "u \<noteq> t" for u
  proof -
    have "slot ?q k' \<noteq> slot ?q k" if "reads (pc s u) = Some k'" for k'
    proof -
      have "unat k' \<noteq> unat k"
        using I(4) [of u k' t] that pc \<open>u \<noteq> t\<close> by (auto simp: unat_eq_64)
      with readsD [OF I(2) that] k q show ?thesis
        by (intro slot_neq [where lo = "min (unat k) (unat k')"]) auto
    qed
    moreover have "slot ?q (head ?q) \<noteq> slot ?q k" if "unat (head ?q) < unat (tail ?q)"
      using that k by (intro slot_neq [where lo = "unat k"]) auto
    ultimately show ?thesis
      using I(2) [of u] i q by (cases "pc s u") (auto simp: nth_list_update)
  qed
  show ?thesis
    unfolding eq
  proof (rule lf_invI, goal_cases)
    case 1
    show ?case using I(1) i by (auto simp: shared_inv_def nth_list_update)
  next
    case (2 u)
    show ?case using others [of u] by auto
  next
    case (3 u v k')
    with I(3) pc show ?case by (auto split: if_splits)
  next
    case (4 u v k')
    with I(4) show ?case by (auto split: if_splits)
  next
    case (5 j)
    with k have "j mod ?c \<noteq> slot ?q k"
      by (intro slot_pos_neq [where lo = "unat k"]) auto
    with 5 I(5) [of j] pc show ?case
      by (auto intro: writer_at_step [where s = s and t = t])
  next
    case (6 j)
    show ?case
    proof (cases "j mod ?c = slot ?q k")
      case True
      with i q show ?thesis by simp
    next
      case False
      then have "j \<noteq> unat k + ?c" by (auto simp: slot_def)
      with 6 I(6) [of j] pc False show ?thesis
        by (auto dest: reader_at_step [where s = s and t = t and s' = ?s2])
    qed
  next
    case (10 j)
    with I(10) [of j] pc show ?case by (auto intro: copier_at_step [where s = s and t = t])
  qed (use I(7-9) in \<open>auto split: if_splits\<close>)
qed

lemma lf_step_mono:
  "lf_step weak exn s s' \<Longrightarrow>
   length (pushes s) \<le> length (pushes s') \<and> cardinality (shared s') = cardinality (shared s)"
  by (induction rule: lf_step.induct) (auto simp: set_state_def clear_value_def)

lemma lf_step_inv:
  assumes step: "lf_step False False s s'" and inv: "lf_inv s"
    and room: "length (pushes s') + unat (cardinality (shared s')) < 2 ^ 64"
  shows "lf_inv s'"
  using step
proof (cases rule: lf_step.cases)
  case (push_win t x k)
  then show ?thesis using lf_inv_push_win [OF inv, of t x] room by simp
next
  case (push_write t x k)
  then show ?thesis using lf_inv_push_write [OF inv] by simp
next
  case (push_publish t v k fails)
  then show ?thesis using lf_inv_push_publish [OF inv] by simp
next
  case (pop_win t k)
  then show ?thesis using lf_inv_pop_win [OF inv, of t] room by simp
next
  case (pop_read t k v)
  then show ?thesis using lf_inv_pop_read [OF inv] by simp
next
  case (pop_clear t k r fails)
  then show ?thesis using lf_inv_pop_clear [OF inv] by simp
next
  case (pop_skip t k)
  then show ?thesis using lf_invD(2) [OF inv, of t] by simp
next
  case (pop_unjam t k fails)
  then show ?thesis using lf_invD(2) [OF inv, of t] by simp
next
  case (call_push t x)
  then show ?thesis using lf_inv_local [OF inv, of "Push_tail x" t] by (cases "pc s t") auto
next
  case (call_pop t)
  then show ?thesis using lf_inv_local [OF inv, of "Pop_head" t] by (cases "pc s t") auto
next
  case (push_room t x k)
  have "unat (head (shared s) + cardinality (shared s)) =
        unat (head (shared s)) + unat (cardinality (shared s))"
    using lf_invD(1) [OF inv] room push_room(1)
    by (intro unat_add_bounded) (auto simp: shared_inv_def)
  with push_room lf_invD(1) [OF inv] lf_invD(2) [OF inv, of t] lf_inv_local [OF inv, of "Push_state x k" t]
  show ?thesis by (auto simp: shared_inv_def unat_eq_64 [symmetric])
next
  case (pop_some t k)
  with lf_invD(1) [OF inv] lf_invD(2) [OF inv, of t] lf_inv_local [OF inv, of "Pop_state k" t]
  show ?thesis by (auto simp: shared_inv_def unat_eq_64 [symmetric])
next
  case (pop_invalid t k)
  with lf_invD(1) [OF inv] slot_in [OF lf_invD(1) [OF inv]] show ?thesis
    by (auto simp: shared_inv_def)
next
  case (load_tail t x)
  then show ?thesis using lf_inv_local [OF inv, of "Push_check x (tail (shared s))" t] by auto
next
  case (push_full t x k)
  then show ?thesis using lf_inv_local [OF inv, of "Push_ret (Returns Full)" t] by auto
next
  case (push_busy t x k)
  then show ?thesis using lf_inv_local [OF inv, of "Push_ret (Returns Busy)" t] by auto
next
  case (push_free t x k)
  then show ?thesis
    using lf_inv_local [OF inv, of "Push_cas x k" t] lf_invD(2) [OF inv, of t] by auto
next
  case (push_lose t x k)
  then show ?thesis using lf_inv_local [OF inv, of "Push_ret (Returns Busy)" t] by auto
next
  case (load_head t)
  then show ?thesis using lf_inv_local [OF inv, of "Pop_check (head (shared s))" t] by auto
next
  case (pop_empty t k)
  then show ?thesis using lf_inv_local [OF inv, of "Pop_ret (Returns (Empty, None))" t] by auto
next
  case (pop_valid t k)
  then show ?thesis
    using lf_inv_local [OF inv, of "Pop_cas k" t] lf_invD(2) [OF inv, of t] by auto
next
  case (pop_waiting t k)
  then show ?thesis using lf_inv_local [OF inv, of "Pop_ret (Returns (Busy, None))" t] by auto
next
  case (pop_lose t k)
  then show ?thesis using lf_inv_local [OF inv, of "Pop_ret (Returns (Busy, None))" t] by auto
qed auto

text \<open>A freshly constructed queue, and every state reached from it.\<close>

lemma lf_inv_start:
  assumes "lfq_init d m = Returns q"
  shows "lf_inv (lf_start q)"
proof -
  from assms have q: "q = \<lparr>cardinality = m, head = 0, tail = 0,
      states = replicate (unat m) Waiting, vals = replicate (unat m) d\<rparr>" and "m \<noteq> 0"
    by (auto simp: lfq_init_def split: if_splits)
  then have "0 < unat m" by (simp add: unat_gt_0)
  with q show ?thesis
    by (intro lf_invI) (auto simp: lf_start_def shared_inv_def)
qed

lemma lf_reachable_inv:
  assumes "lf_reachable False False q s" and "lfq_init d m = Returns q"
  shows "length (pushes s) + unat m < 2 ^ 64 \<longrightarrow> lf_inv s \<and> cardinality (shared s) = m"
  using assms(1)
proof (induction rule: lf_reachable.induct)
  case lf_start
  have "cardinality q = m" using assms(2) by (auto simp: lfq_init_def split: if_splits)
  then show ?case using lf_inv_start [OF assms(2)] by (simp add: lf_start_def)
next
  case (lf_more s s')
  then show ?case using lf_step_mono [of False False s s'] lf_step_inv [of s s'] by auto
qed

subsection \<open>A thread that runs alone\<close>

lemma goto_goto [simp]: "goto t p (goto t p' s) = goto t p s"
  by (simp add: goto_def)

lemma goto_shared [simp]:
  "(goto t p s)\<lparr>shared := q\<rparr> = goto t p (s\<lparr>shared := q\<rparr>)"
  "(goto t p s)\<lparr>pushes := xs\<rparr> = goto t p (s\<lparr>pushes := xs\<rparr>)"
  "s\<lparr>got := g, shared := q\<rparr> = s\<lparr>shared := q, got := g\<rparr>"
  "s\<lparr>pushes := xs, shared := q\<rparr> = s\<lparr>shared := q, pushes := xs\<rparr>"
  "(goto t p s)\<lparr>got := g\<rparr> = goto t p (s\<lparr>got := g\<rparr>)"
  by (simp_all add: goto_def)

lemma shared_id [simp]: "shared s = q' \<Longrightarrow> s\<lparr>shared := q'\<rparr> = s"
  by auto

text \<open>
  The atomic steps of one undisturbed call compute the operation of \<open>Lock_Free_Queue\<close>: the step
  relation and the sequential definitions are the same code.
\<close>

lemma solo_push:
  assumes s: "lf_reachable weak exn q s" "outside (pc s t)"
    and sw: "\<not> ok \<Longrightarrow> exn" "fails \<Longrightarrow> weak"
    and r: "lfq_nonblocking_push ok fails x (shared s) = (r, q')"
  shows "lf_reachable weak exn q (goto t (Push_ret r)
           (s\<lparr>shared := q', pushes := pushes s @ (if tail q' = tail (shared s) then [] else [x])\<rparr>))"
proof -
  let ?q = "shared s" and ?k = "tail (shared s)"
  have 1: "lf_reachable weak exn q (goto t (Push_check x ?k) s)"
    using lf_more [OF lf_more [OF s(1) call_push [of s t weak exn x]] load_tail [of _ t x]] s(2) by simp
  show ?thesis
  proof (cases "?k = head ?q + cardinality ?q")
    case True
    then show ?thesis
      using lf_more [OF 1 push_full [of _ t x ?k]] r by (simp add: lfq_nonblocking_push_def)
  next
    case False
    then have 2: "lf_reachable weak exn q (goto t (Push_state x ?k) s)"
      using lf_more [OF 1 push_room [of _ t x ?k]] by simp
    show ?thesis
    proof (cases "states ?q ! slot ?q ?k = Waiting")
      case busy: False
      then have "states ?q ! slot ?q ?k = Valid \<or> states ?q ! slot ?q ?k = Invalid"
        by (metis value_state.exhaust)
      then show ?thesis
        using r lf_more [OF 2 push_busy [of _ t x ?k]] \<open>?k \<noteq> head ?q + cardinality ?q\<close>
        by (elim disjE; simp add: lfq_nonblocking_push_def; elim conjE; hypsubst?; simp)
    next
      case True
      have "lf_reachable weak exn q (goto t (Push_cas x ?k) s)"
        using lf_more [OF 2 push_free [of _ t x ?k]] True by simp
      from lf_more [OF this push_win [of _ t x ?k]]
      have 3: "lf_reachable weak exn q
          (goto t (Push_write x ?k) (s\<lparr>shared := ?q\<lparr>tail := ?k + 1\<rparr>, pushes := pushes s @ [x]\<rparr>))"
        by simp
      show ?thesis
      proof (cases ok)
        case True
        have "lf_reachable weak exn q (goto t (Push_publish Valid ?k)
            (s\<lparr>shared := ?q\<lparr>tail := ?k + 1, vals := (vals ?q)[slot ?q ?k := x]\<rparr>,
               pushes := pushes s @ [x]\<rparr>))"
          using lf_more [OF 3 push_write [of _ t x ?k]] by simp
        from lf_more [OF this push_publish [of _ t Valid ?k fails]] sw(2) r False True
          \<open>states ?q ! slot ?q ?k = Waiting\<close>
        show ?thesis by (auto simp: lfq_nonblocking_push_def Let_def set_state_def)
      next
        case False
        have "lf_reachable weak exn q (goto t (Push_publish Invalid ?k)
            (s\<lparr>shared := ?q\<lparr>tail := ?k + 1\<rparr>, pushes := pushes s @ [x]\<rparr>))"
          using lf_more [OF 3 push_write_throws [of _ _ t x ?k]] sw(1) False by simp
        from lf_more [OF this push_publish [of _ t Invalid ?k fails]] sw(2) r False
          \<open>?k \<noteq> head ?q + cardinality ?q\<close> \<open>states ?q ! slot ?q ?k = Waiting\<close>
        show ?thesis by (auto simp: lfq_nonblocking_push_def Let_def set_state_def)
      qed
    qed
  qed
qed

lemma solo_pop:
  assumes s: "lf_reachable weak exn q s" "outside (pc s t)"
    and sw: "\<not> ok \<Longrightarrow> exn" "fails \<Longrightarrow> weak"
    and r: "lfq_nonblocking_pop ok fails (shared s) = (r, q')"
  shows "lf_reachable weak exn q (goto t (Pop_ret r)
           (s\<lparr>shared := q', got := got s @ (case r of
                 Returns (st, Some v) \<Rightarrow> [(unat (head (shared s)), v)] | _ \<Rightarrow> [])\<rparr>))"
proof -
  let ?q = "shared s" and ?k = "head (shared s)"
  have 1: "lf_reachable weak exn q (goto t (Pop_check ?k) s)"
    using lf_more [OF lf_more [OF s(1) call_pop [of s t weak exn]] load_head [of _ t]] s(2) by simp
  show ?thesis
  proof (cases "?k = tail ?q")
    case True
    then show ?thesis
      using lf_more [OF 1 pop_empty [of _ t ?k]] r by (auto simp: lfq_nonblocking_pop_def)
  next
    case ne: False
    then have 2: "lf_reachable weak exn q (goto t (Pop_state ?k) s)"
      using lf_more [OF 1 pop_some [of _ t ?k]] by simp
    show ?thesis
    proof (cases "states ?q ! slot ?q ?k")
      case Waiting
      then show ?thesis
        using ne r lf_more [OF 2 pop_waiting [of _ t ?k]]
        by (auto simp: lfq_nonblocking_pop_def)
    next
      case Invalid
      have "lf_reachable weak exn q (goto t (Pop_skip ?k) s)"
        using lf_more [OF 2 pop_invalid [of _ t ?k]] Invalid by simp
      from lf_more [OF this pop_skip [of _ t ?k]]
      have "lf_reachable weak exn q (goto t (Pop_unjam ?k) (s\<lparr>shared := ?q\<lparr>head := ?k + 1\<rparr>\<rparr>))"
        by simp
      from lf_more [OF this pop_unjam [of _ t ?k fails]] show ?thesis
        using r ne Invalid sw(2) by (auto simp: lfq_nonblocking_pop_def Let_def)
    next
      case Valid
      have "lf_reachable weak exn q (goto t (Pop_cas ?k) s)"
        using lf_more [OF 2 pop_valid [of _ t ?k]] Valid by simp
      from lf_more [OF this pop_win [of _ t ?k]]
      have 3: "lf_reachable weak exn q (goto t (Pop_read ?k) (s\<lparr>shared := ?q\<lparr>head := ?k + 1\<rparr>\<rparr>))"
        by simp
      show ?thesis
      proof (cases ok)
        case True
        let ?v = "vals ?q ! slot ?q ?k"
        have "lf_reachable weak exn q (goto t (Pop_clear ?k (Returns (Success, Some ?v)))
            (s\<lparr>shared := ?q\<lparr>head := ?k + 1\<rparr>, got := got s @ [(unat ?k, ?v)]\<rparr>))"
          using lf_more [OF 3 pop_read [of _ t ?k]] by simp
        from lf_more [OF this pop_clear [of _ t ?k _ fails]] sw(2) r ne Valid True
        show ?thesis by (auto simp: lfq_nonblocking_pop_def Let_def)
      next
        case False
        have "lf_reachable weak exn q (goto t (Pop_clear ?k (Throws User_exn))
            (s\<lparr>shared := ?q\<lparr>head := ?k + 1\<rparr>\<rparr>))"
          using lf_more [OF 3 pop_read_throws [of _ _ t ?k]] sw(1) False by simp
        from lf_more [OF this pop_clear [of _ t ?k _ fails]] sw(2) r ne Valid False
        show ?thesis by (auto simp: lfq_nonblocking_pop_def Let_def)
      qed
    qed
  qed
qed

text \<open>With every thread between two calls, the queue is what the sequential operations expect.\<close>

lemma quiescent_queue:
  assumes "lf_inv s" and "\<And>t. outside (pc s t)"
  shows "\<And>j. unat (head (shared s)) \<le> j \<Longrightarrow> j < unat (tail (shared s)) \<Longrightarrow>
           states (shared s) ! (j mod unat (cardinality (shared s))) = Valid \<and>
           vals (shared s) ! (j mod unat (cardinality (shared s))) = pushes s ! j"
    and "\<And>j. unat (tail (shared s)) \<le> j \<Longrightarrow>
           j < unat (head (shared s)) + unat (cardinality (shared s)) \<Longrightarrow>
           states (shared s) ! (j mod unat (cardinality (shared s))) = Waiting"
    and "fst ` set (got s) = {..< unat (head (shared s))}"
proof -
  have w: "writes (pc s t) = None" and r: "reads (pc s t) = None" for t
    using assms(2) [of t] by (cases "pc s t"; simp)+
  have none: "\<not> writer_at s j" "\<not> reader_at s j" "\<not> copier_at s j" for j
    using w r by (auto simp: writer_at_def reader_at_def copier_at_def) (metis option.distinct(1) reads.simps(1))
  show "\<And>j. unat (head (shared s)) \<le> j \<Longrightarrow> j < unat (tail (shared s)) \<Longrightarrow>
           states (shared s) ! (j mod unat (cardinality (shared s))) = Valid \<and>
           vals (shared s) ! (j mod unat (cardinality (shared s))) = pushes s ! j"
    using lf_invD(5) [OF assms(1)] none by blast
  show "\<And>j. unat (tail (shared s)) \<le> j \<Longrightarrow>
           j < unat (head (shared s)) + unat (cardinality (shared s)) \<Longrightarrow>
           states (shared s) ! (j mod unat (cardinality (shared s))) = Waiting"
    using lf_invD(6) [OF assms(1)] none by blast
  show "fst ` set (got s) = {..< unat (head (shared s))}"
    using lf_invD(7,10) [OF assms(1)] none by fastforce
qed

lemma quiescent_pop:
  assumes "lf_inv s" and "\<And>t. outside (pc s t)"
  shows "fst (lfq_nonblocking_pop True False (shared s)) =
           (if unat (head (shared s)) < length (pushes s)
            then Returns (Success, Some (pushes s ! unat (head (shared s))))
            else Returns (Empty, None))"
  using lf_invD(1) [OF assms(1)] quiescent_queue(1) [OF assms, of "unat (head (shared s))"]
  by (auto simp: lfq_nonblocking_pop_def Let_def shared_inv_def slot_def unat_eq_64 [symmetric]
                 clear_value_def)

lemma quiescent_push:
  assumes "lf_inv s" and "\<And>t. outside (pc s t)"
    and "length (pushes s) + unat (cardinality (shared s)) < 2 ^ 64"
  shows "fst (lfq_nonblocking_push True False x (shared s)) =
           (if length (pushes s) < unat (head (shared s)) + unat (cardinality (shared s))
            then Returns Success else Returns Full)"
proof -
  have "unat (head (shared s) + cardinality (shared s)) =
        unat (head (shared s)) + unat (cardinality (shared s))"
    using lf_invD(1) [OF assms(1)] assms(3) by (intro unat_add_bounded) (auto simp: shared_inv_def)
  then show ?thesis
    using lf_invD(1) [OF assms(1)] quiescent_queue(2) [OF assms(1,2), of "unat (tail (shared s))"]
    by (auto simp: lfq_nonblocking_push_def Let_def shared_inv_def slot_def unat_eq_64 [symmetric])
qed

subsection \<open>Properties\<close>


text \<open>One thread pushes 7 through a queue with one slot, then another pops it.\<close>

definition lf_one :: "nat lfq" where
  "lf_one = \<lparr>cardinality = 1, head = 0, tail = 0, states = [Waiting], vals = [0]\<rparr>"

definition lf_passed :: "nat lf_sys" where
  "lf_passed = goto 1 (Pop_ret (Returns (Success, Some 7))) (goto 0 (Push_ret (Returns Success))
     \<lparr>shared = \<lparr>cardinality = 1, head = 1, tail = 1, states = [Waiting], vals = [7]\<rparr>,
      pc = (\<lambda>_. Idle), pushes = [7], got = [(0, 7)]\<rparr>)"

lemma lf_passed_reachable: "lf_reachable False False lf_one lf_passed"
proof -
  let ?q1 = "\<lparr>cardinality = 1, head = 0, tail = 1, states = [Valid], vals = [7 :: nat]\<rparr>"
  let ?q2 = "\<lparr>cardinality = 1, head = 1, tail = 1, states = [Waiting], vals = [7 :: nat]\<rparr>"
  let ?s1 = "goto 0 (Push_ret (Returns Success))
     \<lparr>shared = ?q1, pc = (\<lambda>_. Idle), pushes = [7], got = []\<rparr>"
  have "lfq_nonblocking_push True False 7 lf_one = (Returns Success, ?q1)"
    by (simp add: lf_one_def lfq_nonblocking_push_def slot_def set_state_def)
  then have s1: "lf_reachable False False lf_one ?s1"
    using solo_push [OF lf_start, where t = 0 and q = lf_one and ok = True and fails = False
      and weak = False and exn = False and x = 7 and r = "Returns Success" and q' = ?q1]
    by (simp add: lf_start_def lf_one_def)
  have "lfq_nonblocking_pop True False ?q1 = (Returns (Success, Some 7), ?q2)"
    by (simp add: lfq_nonblocking_pop_def slot_def clear_value_def)
  then show ?thesis
    using solo_pop [OF s1, where t = 1 and ok = True and fails = False
      and r = "Returns (Success, Some 7)" and q' = ?q2]
    by (simp add: lf_passed_def)
qed

lemma lf_one_init: "lfq_init 0 1 = Returns lf_one"
  by (simp add: lfq_init_def lf_one_def)


text \<open>Between calls the concurrent queue behaves as the sequential specification. When every thread
  is outside its call, the values delivered are exactly those of the positions below \<open>head\<close>, the next
  \<open>nonblocking_pop\<close> that runs alone returns the oldest undelivered element or says \<open>empty\<close>, and the
  next \<open>nonblocking_push\<close> succeeds or says \<open>full\<close>: no slot is ever left jammed, \<open>busy\<close> is not
  returned.\<close>

theorem lock_free_queue_quiescent:
  assumes "lfq_init d m = Returns q" and "lf_reachable False False q s"
    and "length (pushes s) + unat m < 2 ^ 64" and "\<And>t. outside (pc s t)"
  shows "fst ` set (got s) = {..< unat (head (shared s))} \<and>
         fst (lfq_nonblocking_pop True False (shared s)) =
           (if unat (head (shared s)) < length (pushes s)
            then Returns (Success, Some (pushes s ! unat (head (shared s))))
            else Returns (Empty, None)) \<and>
         fst (lfq_nonblocking_push True False x (shared s)) =
           (if length (pushes s) < unat (head (shared s)) + unat m
            then Returns Success else Returns Full)"
proof -
  from lf_reachable_inv [OF assms(2,1)] assms(3)
  have "lf_inv s" and "cardinality (shared s) = m" by auto
  with quiescent_queue(3) quiescent_pop quiescent_push assms(3,4) show ?thesis by metis
qed

theorem lock_free_queue_quiescent_witness:
  "fst (lfq_nonblocking_push True False 9 (shared lf_passed)) = Returns Success \<and>
   fst ` set (got lf_passed) = {0}"
proof -
  have "outside (pc lf_passed t)" for t by (simp add: lf_passed_def)
  from lock_free_queue_quiescent [OF lf_one_init lf_passed_reachable _ this, of 9]
  show ?thesis by (simp add: lf_passed_def lessThan_Suc)
qed

subsection \<open>Failures of the single weak compare-and-swap, and of a slot invalidated twice\<close>

lemma lfq_try_pop_stuck:
  assumes "lfq_try_pop ok fails q = Some z"
  shows "lfq_nonblocking_pop ok fails q \<noteq> (Returns (Busy, None), q)"
proof (rule lfq_try_pop.raw_induct [OF _ assms])
  fix f and ok fails :: bool and q :: "'a lfq" and y
  assume IH: "\<And>ok fails q y. f ok fails q = Some y \<Longrightarrow>
      lfq_nonblocking_pop ok fails q \<noteq> (Returns (Busy, None), q)"
    and run: "(let res = lfq_nonblocking_pop ok fails q
      in if fst res = Returns (Busy, None) then f ok fails (snd res) else Some res) = Some y"
  show "lfq_nonblocking_pop ok fails q \<noteq> (Returns (Busy, None), q)"
  proof
    assume stuck: "lfq_nonblocking_pop ok fails q = (Returns (Busy, None), q)"
    with run have "f ok fails q = Some y" by simp
    from IH [OF this] stuck show False by simp
  qed
qed

text \<open>A spurious failure of the one \<open>compare_exchange_weak\<close> in \<open>set_state\<close> loses an element: on an
  empty queue whose slots are all waiting, \<open>nonblocking_push\<close> still returns success, but from then on
  \<open>nonblocking_pop\<close> is busy and changes nothing, so \<open>try_pop\<close> never returns, although the queue
  reports that it is not empty.\<close>

theorem lock_free_queue_spurious_failure:
  assumes "lfq_init d m = Returns q"
  shows "\<exists>q'. lfq_nonblocking_push True True x q = (Returns Success, q') \<and>
           \<not> lfq_is_empty q' \<and>
           lfq_nonblocking_pop True False q' = (Returns (Busy, None), q') \<and>
           lfq_try_pop True False q' = None"
proof -
  from assms have q: "q = \<lparr>cardinality = m, head = 0, tail = 0,
      states = replicate (unat m) Waiting, vals = replicate (unat m) d\<rparr>" and "m \<noteq> 0"
    by (auto simp: lfq_init_def split: if_splits)
  then have m: "0 < unat m" by (simp add: unat_gt_0)
  let ?q' = "q\<lparr>tail := 1, vals := (vals q)[0 := x]\<rparr>"
  from q \<open>m \<noteq> 0\<close> m have push: "lfq_nonblocking_push True True x q = (Returns Success, ?q')"
    by (simp add: lfq_nonblocking_push_def slot_def set_state_def)
  from q m have pop: "lfq_nonblocking_pop True False ?q' = (Returns (Busy, None), ?q')"
    by (simp add: lfq_nonblocking_pop_def slot_def)
  from lfq_try_pop_stuck [of True False ?q'] pop
  have "lfq_try_pop True False ?q' = None" by (cases "lfq_try_pop True False ?q'") auto
  with push pop q show ?thesis by (auto simp: lfq_is_empty_def)
qed

theorem lock_free_queue_spurious_failure_witness:
  "\<exists>q'. lfq_nonblocking_push True True 5 lf_one = (Returns Success, q') \<and>
        lfq_try_pop True False q' = None"
  using lock_free_queue_spurious_failure [OF lf_one_init, of 5] by auto

text \<open>Two consumers that both see the same invalid slot can jam the queue for good: the second one
  clears the slot although its compare-and-swap of \<open>head\<close> failed, and so wipes out the mark of a
  later push that failed too. From a new queue with one slot, with no spurious failure, a state is
  reached in which no thread is in a call, the queue is not empty, and every push says \<open>full\<close> and
  every pop \<open>busy\<close>.\<close>

theorem lock_free_queue_invalid_jam:
  "\<exists>s. lf_reachable False True lf_one s \<and> (\<forall>t. outside (pc s t)) \<and> \<not> lfq_is_empty (shared s) \<and>
       (\<forall>ok x. lfq_nonblocking_push ok False x (shared s) = (Returns Full, shared s)) \<and>
       (\<forall>ok. lfq_nonblocking_pop ok False (shared s) = (Returns (Busy, None), shared s))"
proof -
  let ?q = "\<lambda>h t st. \<lparr>cardinality = 1, head = h, tail = t, states = [st], vals = [0 :: nat]\<rparr>"
  let ?s = "\<lambda>h t st g xs. \<lparr>shared = ?q h t st, pc = g, pushes = xs, got = []\<rparr>"
  have push: "lfq_nonblocking_push False False 7 (?q 0 0 Waiting) = (Throws User_exn, ?q 0 1 Invalid)"
    "lfq_nonblocking_push False False 7 (?q 1 1 Waiting) = (Throws User_exn, ?q 1 2 Invalid)"
    by (simp_all add: lfq_nonblocking_push_def slot_def set_state_def)
  define g where "g = (\<lambda>_ :: nat. Idle :: nat pc)(0 := Push_ret (Throws User_exn))"
  have 1: "lf_reachable False True lf_one (?s 0 1 Invalid g [7])"
    using solo_push [OF lf_start, where t = 0 and q = lf_one and ok = False and fails = False
        and weak = False and exn = True and x = 7 and r = "Throws User_exn" and q' = "?q 0 1 Invalid"]
      push(1) by (simp add: lf_start_def lf_one_def goto_def g_def)
  have look: "lf_reachable False True lf_one (?s 0 1 Invalid (f(t := Pop_skip 0)) [7])"
    if r: "lf_reachable False True lf_one (?s 0 1 Invalid f [7])" and o: "outside (f t)" for f t
  proof -
    from lf_more [OF lf_more [OF r call_pop [of _ t]] load_head [of _ t]] o
    have "lf_reachable False True lf_one (?s 0 1 Invalid (f(t := Pop_check 0)) [7])"
      by (simp add: goto_def)
    from lf_more [OF this pop_some [of _ t 0]]
    have "lf_reachable False True lf_one (?s 0 1 Invalid (f(t := Pop_state 0)) [7])"
      by (simp add: goto_def)
    from lf_more [OF this pop_invalid [of _ t 0]] show ?thesis by (simp add: goto_def slot_def)
  qed
  have 2: "lf_reachable False True lf_one (?s 0 1 Invalid (g(1 := Pop_skip 0, 2 := Pop_skip 0)) [7])"
    using look [OF look [OF 1, of 1], of 2] by (simp add: g_def)
  from lf_more [OF lf_more [OF 2 pop_skip [of _ 1 0]] pop_unjam [of _ 1 0 False]]
  have 3: "lf_reachable False True lf_one
      (?s 1 1 Waiting (g(1 := Pop_ret (Returns (Busy, None)), 2 := Pop_skip 0)) [7])"
    by (simp add: goto_def slot_def clear_value_def fun_upd_twist)
  have 4: "lf_reachable False True lf_one
      (?s 1 2 Invalid (g(1 := Pop_ret (Returns (Busy, None)), 2 := Pop_skip 0)) [7, 7])"
    using solo_push [OF 3, where t = 0 and ok = False and fails = False
        and x = 7 and r = "Throws User_exn" and q' = "?q 1 2 Invalid"] push(2)
    by (simp add: goto_def g_def fun_upd_twist)
  from lf_more [OF lf_more [OF 4 pop_skip [of _ 2 0]] pop_unjam [of _ 2 0 False]]
  have 5: "lf_reachable False True lf_one (?s 1 2 Waiting
      (g(1 := Pop_ret (Returns (Busy, None)), 2 := Pop_ret (Returns (Busy, None)))) [7, 7])"
    by (simp add: goto_def slot_def clear_value_def)
  show ?thesis
    by (intro exI conjI, rule 5)
      (auto simp: g_def lfq_is_empty_def lfq_nonblocking_push_def lfq_nonblocking_pop_def slot_def)
qed

end
