(* ===== verification/Shared_Ends.thy ===== *)
theory Shared_Ends
  imports Buffer_Queue
begin

text \<open>
  The reference-counted ends of \<open>include/queue_base.h\<close>: \<open>queue_counted\<close>, \<open>queue_owner\<close>,
  \<open>shared_queue_back\<close>, \<open>shared_queue_front\<close> and \<open>share_queue_ends\<close>. The queue is closed when the last
  end of one side is gone and deleted when no end is left.
\<close>

section \<open>Counts of ends\<close>

definition inc_back :: "'q queue_counted \<Rightarrow> unit outcome \<times> 'q queue_counted" where
  "inc_back c = (Returns (), c\<lparr>bk := bk c + 1\<rparr>)"

definition inc_front :: "'q queue_counted \<Rightarrow> unit outcome \<times> 'q queue_counted" where
  "inc_front c = (Returns (), c\<lparr>ft := ft c + 1\<rparr>)"

definition dec_back :: "'q queue_counted \<Rightarrow> bool outcome \<times> 'q queue_counted" where
  "dec_back c = (Returns (bk c - 1 = 0), c\<lparr>bk := bk c - 1\<rparr>)"

definition dec_front :: "'q queue_counted \<Rightarrow> bool outcome \<times> 'q queue_counted" where
  "dec_front c = (Returns (ft c - 1 = 0), c\<lparr>ft := ft c - 1\<rparr>)"

definition no_back :: "'q queue_counted \<Rightarrow> bool outcome \<times> 'q queue_counted" where
  "no_back c = (Returns (bk c = 0), c)"

definition no_front :: "'q queue_counted \<Rightarrow> bool outcome \<times> 'q queue_counted" where
  "no_front c = (Returns (ft c = 0), c)"

section \<open>The owner of a queue\<close>

text \<open>\<open>queue_owner\<close> holds a pointer, through which every virtual function goes; it deletes the queue.\<close>

definition through :: "('q \<Rightarrow> 'r outcome \<times> 'q) \<Rightarrow> (nat option) queue_counted \<times> 'q memory
    \<Rightarrow> 'r outcome \<times> (nat option) queue_counted \<times> 'q memory" where
  "through f ch = (let (r, h) = via (held (fst ch)) f (snd ch) in (r, fst ch, h))"

definition queue_owner_new :: "nat option \<Rightarrow> (nat option) queue_counted" where
  "queue_owner_new arg = \<lparr>bk = 0, ft = 0, held = arg\<rparr>"

definition queue_owner_delete :: "(nat option) queue_counted \<times> 'q memory \<Rightarrow> unit outcome \<times> 'q memory" where
  "queue_owner_delete ch = (case held (fst ch) of
      None \<Rightarrow> (Returns (), snd ch)
    | Some a \<Rightarrow> if snd ch a = None then (Undefined, snd ch) else (Returns (), (snd ch)(a := None)))"

fun queue_owner :: "('q, 'a) dispatcher \<Rightarrow> ((nat option) queue_counted \<times> 'q memory, 'a) dispatcher" where
  "queue_owner d Q_close = through (d Q_close)"
| "queue_owner d Q_is_closed = through (d Q_is_closed)"
| "queue_owner d Q_is_empty = through (d Q_is_empty)"
| "queue_owner d (Q_push x) = through (d (Q_push x))"
| "queue_owner d (Q_wait_push x) = through (d (Q_wait_push x))"
| "queue_owner d (Q_try_push x) = through (d (Q_try_push x))"
| "queue_owner d (Q_nonblocking_push x) = through (d (Q_nonblocking_push x))"
| "queue_owner d (Q_push_move x) = through (d (Q_push_move x))"
| "queue_owner d (Q_wait_push_move x) = through (d (Q_wait_push_move x))"
| "queue_owner d (Q_try_push_move x) = through (d (Q_try_push_move x))"
| "queue_owner d (Q_nonblocking_push_move x) = through (d (Q_nonblocking_push_move x))"
| "queue_owner d Q_value_pop = through (d Q_value_pop)"
| "queue_owner d Q_wait_pop = through (d Q_wait_pop)"
| "queue_owner d Q_try_pop = through (d Q_try_pop)"
| "queue_owner d Q_nonblocking_pop = through (d Q_nonblocking_pop)"

section \<open>Shared ends\<close>

text \<open>An end is its pointer \<open>queue_\<close>. The copy constructors use the pointer of the other end without a
  test, the move constructors null it.\<close>

type_synonym 'q shared_memory = "'q queue_counted memory"

definition shared_back_new :: "nat \<Rightarrow> 'q shared_memory \<Rightarrow> unit outcome \<times> 'q shared_memory" where
  "shared_back_new queue = via (Some queue) inc_back"

definition shared_back_copy :: "nat option \<Rightarrow> 'q shared_memory \<Rightarrow> nat option outcome \<times> 'q shared_memory" where
  "shared_back_copy other h = (case via other inc_back h of
      (Returns _, h') \<Rightarrow> (Returns other, h') | (_, h') \<Rightarrow> (Undefined, h'))"

definition shared_back_move :: "nat option \<Rightarrow> nat option \<times> nat option" where
  "shared_back_move other = (other, None)"

definition shared_front_new :: "nat \<Rightarrow> 'q shared_memory \<Rightarrow> unit outcome \<times> 'q shared_memory" where
  "shared_front_new queue = via (Some queue) inc_front"

definition shared_front_copy :: "nat option \<Rightarrow> 'q shared_memory \<Rightarrow> nat option outcome \<times> 'q shared_memory" where
  "shared_front_copy other h = (case via other inc_front h of
      (Returns _, h') \<Rightarrow> (Returns other, h') | (_, h') \<Rightarrow> (Undefined, h'))"

definition shared_front_move :: "nat option \<Rightarrow> nat option \<times> nat option" where
  "shared_front_move other = (other, None)"

definition delete_queue :: "nat option \<Rightarrow> 'q shared_memory \<Rightarrow> unit outcome \<times> 'q shared_memory" where
  "delete_queue p h = (case p of None \<Rightarrow> (Returns (), h)
    | Some a \<Rightarrow> if h a = None then (Undefined, h) else (Returns (), h(a := None)))"

text \<open>\<open>release\<close>, the destructor: the last end of its side closes the queue, and deletes it when the other
  side has no ends either.\<close>

definition back_release :: "('q, 'a) dispatcher \<Rightarrow> nat option \<Rightarrow> 'q shared_memory \<Rightarrow> unit outcome \<times> 'q shared_memory" where
  "back_release d queue =
     (if queue = None then Pair (Returns ())
      else bind_op (via queue dec_back) (\<lambda>last.
        if \<not> last then Pair (Returns ())
        else bind_op (via queue (queue_object d Q_close)) (\<lambda>_.
          bind_op (via queue no_front) (\<lambda>none.
            if none then delete_queue queue else Pair (Returns ())))))"

definition front_release :: "('q, 'a) dispatcher \<Rightarrow> nat option \<Rightarrow> 'q shared_memory \<Rightarrow> unit outcome \<times> 'q shared_memory" where
  "front_release d queue =
     (if queue = None then Pair (Returns ())
      else bind_op (via queue dec_front) (\<lambda>last.
        if \<not> last then Pair (Returns ())
        else bind_op (via queue (queue_object d Q_close)) (\<lambda>_.
          bind_op (via queue no_back) (\<lambda>none.
            if none then delete_queue queue else Pair (Returns ())))))"

text \<open>The calls of the ends go through the pointer to the counted queue.\<close>

fun shared_queue_back :: "('q, 'a) dispatcher \<Rightarrow> nat option \<Rightarrow> 'a back_call \<Rightarrow> 'q shared_memory
    \<Rightarrow> 'a reply outcome \<times> 'q shared_memory" where
  "shared_queue_back d p B_close = via p (queue_object d Q_close)"
| "shared_queue_back d p B_is_closed = via p (queue_object d Q_is_closed)"
| "shared_queue_back d p B_is_empty = via p (queue_object d Q_is_empty)"
| "shared_queue_back d p (B_push x) = via p (queue_object d (Q_push x))"
| "shared_queue_back d p (B_wait_push x) = via p (queue_object d (Q_wait_push x))"
| "shared_queue_back d p (B_try_push x) = via p (queue_object d (Q_try_push x))"
| "shared_queue_back d p (B_nonblocking_push x) = via p (queue_object d (Q_nonblocking_push x))"
| "shared_queue_back d p (B_push_move x) = via p (queue_object d (Q_push_move x))"
| "shared_queue_back d p (B_wait_push_move x) = via p (queue_object d (Q_wait_push_move x))"
| "shared_queue_back d p (B_try_push_move x) = via p (queue_object d (Q_try_push_move x))"
| "shared_queue_back d p (B_nonblocking_push_move x) = via p (queue_object d (Q_nonblocking_push_move x))"
| "shared_queue_back d p B_has_queue = Pair Undefined"

fun shared_queue_front :: "('q, 'a) dispatcher \<Rightarrow> nat option \<Rightarrow> front_call \<Rightarrow> 'q shared_memory
    \<Rightarrow> 'a reply outcome \<times> 'q shared_memory" where
  "shared_queue_front d p F_close = via p (queue_object d Q_close)"
| "shared_queue_front d p F_is_closed = via p (queue_object d Q_is_closed)"
| "shared_queue_front d p F_is_empty = via p (queue_object d Q_is_empty)"
| "shared_queue_front d p F_value_pop = via p (queue_object d Q_value_pop)"
| "shared_queue_front d p F_wait_pop = via p (queue_object d Q_wait_pop)"
| "shared_queue_front d p F_try_pop = via p (queue_object d Q_try_pop)"
| "shared_queue_front d p F_nonblocking_pop = via p (queue_object d Q_nonblocking_pop)"
| "shared_queue_front d p F_has_queue = Pair Undefined"

text \<open>\<open>share_queue_ends\<close>: a new object at a free address \<open>a\<close> and one end of each kind.\<close>

definition share_queue_ends :: "'q \<Rightarrow> nat \<Rightarrow> 'q shared_memory \<Rightarrow> (nat option \<times> nat option) outcome \<times> 'q shared_memory" where
  "share_queue_ends q a h = bind_op (shared_back_new a)
     (\<lambda>_. bind_op (shared_front_new a) (\<lambda>_. Pair (Returns (Some a, Some a))))
     (h(a \<mapsto> \<lparr>bk = 0, ft = 0, held = q\<rparr>))"

section \<open>Lifetime\<close>

text \<open>A program with \<open>nb\<close> back ends and \<open>nf\<close> front ends of one queue copies them, drops them and calls
  through them; \<open>ends_left\<close> says which ends it has afterwards, if it only uses ends it has.\<close>

datatype 'a end_op =
    Copy_back | Copy_front | Drop_back | Drop_front
  | Use_back "'a back_call" | Use_front front_call

fun ends_left :: "'a end_op list \<Rightarrow> nat \<Rightarrow> nat \<Rightarrow> (nat \<times> nat) option" where
  "ends_left [] nb nf = Some (nb, nf)"
| "ends_left (Copy_back # ops) nb nf = (if nb = 0 then None else ends_left ops (nb + 1) nf)"
| "ends_left (Copy_front # ops) nb nf = (if nf = 0 then None else ends_left ops nb (nf + 1))"
| "ends_left (Drop_back # ops) nb nf = (if nb = 0 then None else ends_left ops (nb - 1) nf)"
| "ends_left (Drop_front # ops) nb nf = (if nf = 0 then None else ends_left ops nb (nf - 1))"
| "ends_left (Use_back c # ops) nb nf = (if nb = 0 then None else ends_left ops nb nf)"
| "ends_left (Use_front c # ops) nb nf = (if nf = 0 then None else ends_left ops nb nf)"

definition defined_then :: "('r outcome \<times> 's) \<Rightarrow> ('s \<Rightarrow> 't option) \<Rightarrow> 't option" where
  "defined_then rs f = (case fst rs of Returns _ \<Rightarrow> f (snd rs) | _ \<Rightarrow> None)"

text \<open>The run itself; \<open>None\<close> when an end operation does not return. What a call through an end returns
  is not looked at, but it must find the queue.\<close>

fun run_ends :: "('q, 'a) dispatcher \<Rightarrow> nat \<Rightarrow> 'a end_op list \<Rightarrow> 'q shared_memory \<Rightarrow> 'q shared_memory option" where
  "run_ends d a [] h = Some h"
| "run_ends d a (Copy_back # ops) h = defined_then (shared_back_copy (Some a) h) (run_ends d a ops)"
| "run_ends d a (Copy_front # ops) h = defined_then (shared_front_copy (Some a) h) (run_ends d a ops)"
| "run_ends d a (Drop_back # ops) h = defined_then (back_release d (Some a) h) (run_ends d a ops)"
| "run_ends d a (Drop_front # ops) h = defined_then (front_release d (Some a) h) (run_ends d a ops)"
| "run_ends d a (Use_back c # ops) h =
     (if h a = None then None else run_ends d a ops (snd (shared_queue_back d (Some a) c h)))"
| "run_ends d a (Use_front c # ops) h =
     (if h a = None then None else run_ends d a ops (snd (shared_queue_front d (Some a) c h)))"

text \<open>What \<open>release\<close> relies on: \<open>close\<close> returns and leaves the queue closed, and a closed queue stays
  closed.\<close>

definition alive_as :: "('q \<Rightarrow> bool) \<Rightarrow> nat \<Rightarrow> nat \<Rightarrow> 'q queue_counted option \<Rightarrow> bool" where
  "alive_as shut nb nf oc \<longleftrightarrow> (case oc of None \<Rightarrow> nb = 0 \<and> nf = 0
     | Some c \<Rightarrow> bk c = int nb \<and> ft c = int nf \<and> 0 < nb + nf \<and> (nb = 0 \<or> nf = 0 \<longrightarrow> shut (held c)))"

locale closable =
  fixes d :: "('q, 'a) dispatcher" and shut :: "'q \<Rightarrow> bool"
  assumes close_law: "fst (d Q_close q) = Returns Unit_reply \<and> shut (snd (d Q_close q))"
    and stays_shut: "shut q \<Longrightarrow> shut (snd (d c q))"
begin

lemma back_release_alive:
  assumes "h a = Some c"
  shows "back_release d (Some a) h = (Returns (),
     if bk c \<noteq> 1 then h(a \<mapsto> c\<lparr>bk := bk c - 1\<rparr>)
     else if ft c = 0 then h(a := None)
     else h(a \<mapsto> c\<lparr>bk := 0, held := snd (d Q_close (held c))\<rparr>))"
  using assms close_law [of "held c"]
  by (auto simp: back_release_def bind_op_def via_def dec_back_def no_front_def on_held_def delete_queue_def)

lemma front_release_alive:
  assumes "h a = Some c"
  shows "front_release d (Some a) h = (Returns (),
     if ft c \<noteq> 1 then h(a \<mapsto> c\<lparr>ft := ft c - 1\<rparr>)
     else if bk c = 0 then h(a := None)
     else h(a \<mapsto> c\<lparr>ft := 0, held := snd (d Q_close (held c))\<rparr>))"
  using assms close_law [of "held c"]
  by (auto simp: front_release_def bind_op_def via_def dec_front_def no_back_def on_held_def delete_queue_def)

lemma use_alive:
  assumes "alive_as shut nb nf (h a)" and "h a \<noteq> None"
  shows "alive_as shut nb nf (snd (shared_queue_back d (Some a) bc h) a)"
    and "alive_as shut nb nf (snd (shared_queue_front d (Some a) fc h) a)"
proof -
  obtain c where c: "h a = Some c" using assms(2) by blast
  have v: "alive_as shut nb nf (snd (via (Some a) (on_held (d x)) h) a)" for x
    using assms(1) c stays_shut by (auto simp: alive_as_def via_def on_held_def)
  show "alive_as shut nb nf (snd (shared_queue_back d (Some a) bc h) a)"
    using v assms(1) by (cases bc) simp_all
  show "alive_as shut nb nf (snd (shared_queue_front d (Some a) fc h) a)"
    using v assms(1) by (cases fc) simp_all
qed

lemma run_ends_alive:
  "ends_left ops nb nf = Some (nb', nf') \<Longrightarrow> alive_as shut nb nf (h a) \<Longrightarrow>
     \<exists>h'. run_ends d a ops h = Some h' \<and> alive_as shut nb' nf' (h' a)"
proof (induction ops arbitrary: nb nf h)
  case (Cons op ops)
  obtain c where c: "h a = Some c" using Cons.prems
    by (cases op) (auto simp: alive_as_def split: if_splits option.splits)
  have a: "alive_as shut nb nf (Some c)" using Cons.prems(2) c by simp
  show ?case
  proof (cases op)
    case Copy_back
    then show ?thesis using Cons.prems(1) Cons.IH c a
      by (auto simp: defined_then_def shared_back_copy_def via_def inc_back_def alive_as_def split: if_splits)
  next
    case Copy_front
    then show ?thesis using Cons.prems(1) Cons.IH c a
      by (auto simp: defined_then_def shared_front_copy_def via_def inc_front_def alive_as_def split: if_splits)
  next
    case Drop_back
    have "alive_as shut (nb - 1) nf (snd (back_release d (Some a) h) a)" if "nb \<noteq> 0"
      using a that close_law by (auto simp: back_release_alive [of h a c, OF c] alive_as_def)
    with Drop_back Cons.prems(1) show ?thesis using Cons.IH
      by (auto simp: defined_then_def back_release_alive [of h a c, OF c] split: if_splits)
  next
    case Drop_front
    have "alive_as shut nb (nf - 1) (snd (front_release d (Some a) h) a)" if "nf \<noteq> 0"
      using a that close_law by (auto simp: front_release_alive [of h a c, OF c] alive_as_def)
    with Drop_front Cons.prems(1) show ?thesis using Cons.IH
      by (auto simp: defined_then_def front_release_alive [of h a c, OF c] split: if_splits)
  next
    case (Use_back bc)
    then show ?thesis using Cons use_alive(1) [where h = h and a = a, OF Cons.prems(2)] c by (auto split: if_splits)
  next
    case (Use_front fc)
    then show ?thesis using Cons use_alive(2) [where h = h and a = a, OF Cons.prems(2)] c by (auto split: if_splits)
  qed
qed simp

end

lemma share_queue_ends_alive:
  "share_queue_ends q a h = (Returns (Some a, Some a), h(a \<mapsto> \<lparr>bk = 1, ft = 1, held = q\<rparr>))"
  by (simp add: share_queue_ends_def bind_op_def shared_back_new_def shared_front_new_def via_def
      inc_back_def inc_front_def)

section \<open>Two ends released at the same time\<close>

text \<open>\<open>release\<close> of one back end and one front end, access by access.\<close>

datatype release_pc = R_dec | R_close | R_check | R_delete | R_end | R_wild

definition pc_after :: "('r \<Rightarrow> release_pc) \<Rightarrow> 'r outcome \<times> 'q shared_memory \<Rightarrow> release_pc \<times> 'q shared_memory" where
  "pc_after f rh = (case fst rh of Returns r \<Rightarrow> (f r, snd rh) | _ \<Rightarrow> (R_wild, snd rh))"

fun back_release_step :: "('q, 'a) dispatcher \<Rightarrow> nat \<Rightarrow> release_pc \<Rightarrow> 'q shared_memory \<Rightarrow> release_pc \<times> 'q shared_memory" where
  "back_release_step d a R_dec h = pc_after (\<lambda>last. if last then R_close else R_end) (via (Some a) dec_back h)"
| "back_release_step d a R_close h = pc_after (\<lambda>_. R_check) (via (Some a) (queue_object d Q_close) h)"
| "back_release_step d a R_check h = pc_after (\<lambda>none. if none then R_delete else R_end) (via (Some a) no_front h)"
| "back_release_step d a R_delete h = pc_after (\<lambda>_. R_end) (delete_queue (Some a) h)"
| "back_release_step d a R_end h = (R_end, h)"
| "back_release_step d a R_wild h = (R_wild, h)"

fun front_release_step :: "('q, 'a) dispatcher \<Rightarrow> nat \<Rightarrow> release_pc \<Rightarrow> 'q shared_memory \<Rightarrow> release_pc \<times> 'q shared_memory" where
  "front_release_step d a R_dec h = pc_after (\<lambda>last. if last then R_close else R_end) (via (Some a) dec_front h)"
| "front_release_step d a R_close h = pc_after (\<lambda>_. R_check) (via (Some a) (queue_object d Q_close) h)"
| "front_release_step d a R_check h = pc_after (\<lambda>none. if none then R_delete else R_end) (via (Some a) no_back h)"
| "front_release_step d a R_delete h = pc_after (\<lambda>_. R_end) (delete_queue (Some a) h)"
| "front_release_step d a R_end h = (R_end, h)"
| "front_release_step d a R_wild h = (R_wild, h)"

text \<open>\<open>True\<close> schedules the back end, \<open>False\<close> the front end.\<close>

fun run_releases :: "('q, 'a) dispatcher \<Rightarrow> nat \<Rightarrow> bool list \<Rightarrow> release_pc \<times> release_pc \<times> 'q shared_memory
    \<Rightarrow> release_pc \<times> release_pc \<times> 'q shared_memory" where
  "run_releases d a [] st = st"
| "run_releases d a (True # bs) (b, f, h) =
     (let (b', h') = back_release_step d a b h in run_releases d a bs (b', f, h'))"
| "run_releases d a (False # bs) (b, f, h) =
     (let (f', h') = front_release_step d a f h in run_releases d a bs (b, f', h'))"

text \<open>One after the other is what \<open>back_release\<close> and \<open>front_release\<close> do.\<close>

lemma back_release_steps:
  "run_releases d a [True, True, True, True] (R_dec, f, h) =
     (case back_release d (Some a) h of (Returns _, h') \<Rightarrow> (R_end, f, h') | (_, h') \<Rightarrow> (R_wild, f, h'))"
  by (auto simp: back_release_def bind_op_def pc_after_def Let_def split: outcome.split prod.split)

section \<open>On the buffer queue\<close>

lemma closed_pop_from [simp]: "closed (snd (pop_from ok i q)) = closed q"
  by (simp add: pop_from_def Let_def)

lemma closed_try_pop_common [simp]: "closed (snd (try_pop_common ok q)) = closed q"
  by (simp add: try_pop_common_def Let_def)

lemma closed_catch:
  "closed (snd (m q)) \<Longrightarrow> closed (snd (catch_rethrow bq_close m q))"
  by (auto simp: catch_rethrow_def split: outcome.splits prod.splits)

lemma closed_wait_pop [simp]: "closed q \<Longrightarrow> closed (snd (bq_wait_pop ok q))"
  unfolding bq_wait_pop_def by (rule closed_catch) (simp add: wait_pop_body_def Let_def)

lemma closed_bind:
  assumes "closed (snd (m q))" and "\<And>r q'. closed q' \<Longrightarrow> closed (snd (k r q'))"
  shows "closed (snd (bind_op m k q))"
  using assms by (cases "m q"; cases "fst (m q)") (auto simp: bind_op_def)

lemma closed_value_pop: "closed q \<Longrightarrow> closed (snd (bq_value_pop ok q))"
  unfolding bq_value_pop_def
  by (rule closed_catch, rule closed_bind) (auto split: option.splits)

lemma closed_tries [simp]:
  "closed q \<Longrightarrow> closed (snd (bq_try_pop ok q))" "closed q \<Longrightarrow> closed (snd (bq_nonblocking_pop owns ok q))"
  by (simp_all add: bq_try_pop_def bq_nonblocking_pop_def nonblocking_pop_body_def closed_catch)

lemmas closed_pushes = bq_push_def bq_wait_push_def bq_try_push_def bq_nonblocking_push_def
  wait_push_body_def nonblocking_push_body_def try_push_common_def bind_op_def catch_rethrow_def

lemmas closed_moves = bq_push_move_def bq_wait_push_move_def bq_try_push_move_def
  bq_nonblocking_push_move_def try_push_common_move_def close_on_throw_def

lemma bq_call_stays_closed: "closed q \<Longrightarrow> closed (snd (bq_call owns ok c q))"
  by (cases c) (simp_all add: reply_of_def closed_value_pop closed_pushes closed_moves)

interpretation bq_ends: closable "bq_call owns ok" closed
  by unfold_locales (simp_all add: bq_call_stays_closed bq_close_def)



text \<open>Releasing the last back end and the last front end from two threads can delete the queue twice:
  both count down, both close it, and both then see that the other side has no ends.\<close>

theorem shared_ends_double_delete:
  "\<exists>bs. run_releases (bq_call owns ok) a bs (R_dec, R_dec, snd (share_queue_ends q a h)) =
     (R_end, R_wild, h(a := None))"
proof
  show "run_releases (bq_call owns ok) a [True, False, True, True, False, False, True, False]
      (R_dec, R_dec, snd (share_queue_ends q a h)) = (R_end, R_wild, h(a := None))"
    using bq_ends.close_law [of owns ok]
    by (simp add: share_queue_ends_alive pc_after_def via_def dec_back_def dec_front_def on_held_def
        no_back_def no_front_def delete_queue_def)
qed

end
