(* ===== verification/Priority_Spec.thy ===== *)
theory Priority_Spec
  imports Main "HOL-Library.Multiset"
begin

text \<open>
  The contract of a priority queue over a total preorder \<open>le\<close>: \<open>del\<close> removes a least element. The
  binary heap of \<open>samples/dedup/binheap.c\<close> and \<open>include/concurrent_priority_queue.h\<close> provide it.
\<close>

text \<open>Taking \<open>n\<close> elements out, one after the other.\<close>

primrec drain :: "('q \<Rightarrow> 'a \<times> 'q) \<Rightarrow> nat \<Rightarrow> 'q \<Rightarrow> 'a list" where
  "drain del 0 q = []"
| "drain del (Suc n) q = fst (del q) # drain del n (snd (del q))"

locale priority_queue =
  fixes invar :: "'q \<Rightarrow> bool"
    and bag :: "'q \<Rightarrow> 'a multiset"
    and le :: "'a \<Rightarrow> 'a \<Rightarrow> bool"
    and ins :: "'a \<Rightarrow> 'q \<Rightarrow> 'q"
    and del :: "'q \<Rightarrow> 'a \<times> 'q"
  assumes le_trans: "le x y \<Longrightarrow> le y z \<Longrightarrow> le x z"
    and ins_spec: "invar q \<Longrightarrow> invar (ins x q) \<and> bag (ins x q) = add_mset x (bag q)"
    and del_spec: "invar q \<Longrightarrow> bag q \<noteq> {#} \<Longrightarrow>
      invar (snd (del q)) \<and> bag q = add_mset (fst (del q)) (bag (snd (del q))) \<and>
      (\<forall>y \<in># bag q. le (fst (del q)) y)"
begin

lemma drain_sorted:
  assumes "invar q" and "size (bag q) = n"
  shows "mset (drain del n q) = bag q \<and> sorted_wrt le (drain del n q)"
  using assms
proof (induction n arbitrary: q)
  case 0
  then show ?case by simp
next
  case (Suc n)
  then have ne: "bag q \<noteq> {#}" by auto
  from del_spec [OF Suc.prems(1) ne]
  have d: "invar (snd (del q))" "bag q = add_mset (fst (del q)) (bag (snd (del q)))"
    "\<forall>y \<in># bag q. le (fst (del q)) y" by auto
  with Suc.prems(2) have "size (bag (snd (del q))) = n" by simp
  from Suc.IH [OF d(1) this] d(2,3) show ?case
    by (metis drain.simps(2) mset.simps(2) set_mset_mset sorted_wrt.simps(2) union_single_eq_member insert_iff set_mset_add_mset_insert)
qed

lemma ins_all:
  assumes "invar q"
  shows "invar (fold ins xs q) \<and> bag (fold ins xs q) = bag q + mset xs"
  using assms
proof (induction xs arbitrary: q)
  case Nil
  then show ?case by simp
next
  case (Cons x xs)
  from ins_spec [OF Cons.prems, of x] Cons.IH [of "ins x q"] show ?case by simp
qed

text \<open>Inserting everything and taking it out again sorts.\<close>

lemma insert_drain:
  assumes "invar q" and "bag q = {#}"
  shows "mset (drain del (length xs) (fold ins xs q)) = mset xs \<and>
         sorted_wrt le (drain del (length xs) (fold ins xs q))"
  using drain_sorted [of "fold ins xs q" "length xs"] ins_all [OF assms(1), of xs] assms(2) by simp

end

end
