(* ===== verification/Concurrent_Priority_Queue.thy ===== *)
theory Concurrent_Priority_Queue
  imports Gcl_Prelude Priority_Spec
begin

text \<open>
  \<open>include/concurrent_priority_queue.h\<close>: a vector kept as a heap with \<open>std::make_heap\<close>, \<open>push_heap\<close> and
  \<open>pop_heap\<close>. These are modelled as the usual binary heap on the positions of the vector, element \<open>i\<close> above
  elements \<open>2i + 1\<close> and \<open>2i + 2\<close>. \<open>push\<close>, \<open>try_pop\<close> and \<open>pop\<close> are critical sections; the other members do not lock.
  The class provides the contract \<open>priority_queue\<close>.
\<close>

section \<open>The heap algorithms\<close>

definition swap_at :: "nat \<Rightarrow> nat \<Rightarrow> 'a list \<Rightarrow> 'a list" where
  "swap_at i j xs = xs[i := xs ! j, j := xs ! i]"

function (sequential) sift_up :: "('a \<Rightarrow> 'a \<Rightarrow> bool) \<Rightarrow> nat \<Rightarrow> 'a list \<Rightarrow> 'a list" where
  "sift_up lt 0 xs = xs"
| "sift_up lt (Suc i) xs =
     (if lt (xs ! (i div 2)) (xs ! Suc i) then sift_up lt (i div 2) (swap_at (i div 2) (Suc i) xs) else xs)"
  by pat_completeness auto

termination
  by (relation "measure (\<lambda>(lt, i, xs). i)") auto

definition larger_child :: "('a \<Rightarrow> 'a \<Rightarrow> bool) \<Rightarrow> nat \<Rightarrow> nat \<Rightarrow> 'a list \<Rightarrow> nat" where
  "larger_child lt n i xs =
     (if 2 * i + 2 < n \<and> lt (xs ! (2 * i + 1)) (xs ! (2 * i + 2)) then 2 * i + 2 else 2 * i + 1)"

function sift_down :: "('a \<Rightarrow> 'a \<Rightarrow> bool) \<Rightarrow> nat \<Rightarrow> nat \<Rightarrow> 'a list \<Rightarrow> 'a list" where
  "sift_down lt n i xs =
     (if 2 * i + 1 < n
      then let c = larger_child lt n i xs in if lt (xs ! i) (xs ! c) then sift_down lt n c (swap_at i c xs) else xs
      else xs)"
  by pat_completeness auto

termination
  by (relation "measure (\<lambda>(lt, n, i, xs). n - i)") (auto simp: larger_child_def split: if_splits)

declare sift_down.simps [simp del]

definition push_heap :: "('a \<Rightarrow> 'a \<Rightarrow> bool) \<Rightarrow> 'a list \<Rightarrow> 'a list" where
  "push_heap lt xs = sift_up lt (length xs - 1) xs"

definition pop_heap :: "('a \<Rightarrow> 'a \<Rightarrow> bool) \<Rightarrow> 'a list \<Rightarrow> 'a list" where
  "pop_heap lt xs = sift_down lt (length xs - 1) 0 (swap_at 0 (length xs - 1) xs)"

fun heapify :: "('a \<Rightarrow> 'a \<Rightarrow> bool) \<Rightarrow> nat \<Rightarrow> 'a list \<Rightarrow> 'a list" where
  "heapify lt 0 xs = xs"
| "heapify lt (Suc i) xs = heapify lt i (sift_down lt (length xs) i xs)"

section \<open>The class\<close>

record 'a cpq =
  less_fn :: "'a \<Rightarrow> 'a \<Rightarrow> bool"
  cont :: "'a list"

definition make_heap :: "'a cpq \<Rightarrow> 'a cpq" where
  "make_heap q = q\<lparr>cont := heapify (less_fn q) (length (cont q) div 2) (cont q)\<rparr>"

definition cpq_default :: "('a \<Rightarrow> 'a \<Rightarrow> bool) \<Rightarrow> 'a cpq" where
  "cpq_default lt = \<lparr>less_fn = lt, cont = []\<rparr>"

definition cpq_from :: "('a \<Rightarrow> 'a \<Rightarrow> bool) \<Rightarrow> 'a list \<Rightarrow> 'a cpq" where
  "cpq_from lt xs = make_heap \<lparr>less_fn = lt, cont = xs\<rparr>"

definition cpq_from_range :: "'a list \<Rightarrow> ('a \<Rightarrow> 'a \<Rightarrow> bool) \<Rightarrow> 'a list \<Rightarrow> 'a cpq" where
  "cpq_from_range added lt xs = make_heap \<lparr>less_fn = lt, cont = xs @ added\<rparr>"

definition cpq_assign :: "'a cpq \<Rightarrow> 'a cpq \<Rightarrow> 'a cpq" where
  "cpq_assign q other = q\<lparr>cont := cont other, less_fn := less_fn other\<rparr>"

definition cpq_swap :: "'a cpq \<Rightarrow> 'a cpq \<Rightarrow> 'a cpq \<times> 'a cpq" where
  "cpq_swap q other =
     (q\<lparr>cont := cont other, less_fn := less_fn other\<rparr>, other\<lparr>cont := cont q, less_fn := less_fn q\<rparr>)"

definition cpq_update :: "('a \<Rightarrow> 'a \<Rightarrow> bool) \<Rightarrow> 'a cpq \<Rightarrow> 'a cpq" where
  "cpq_update lt q = make_heap (q\<lparr>less_fn := lt\<rparr>)"

definition cpq_empty :: "'a cpq \<Rightarrow> bool" where
  "cpq_empty q \<longleftrightarrow> cont q = []"

definition cpq_size :: "'a cpq \<Rightarrow> nat" where
  "cpq_size q = length (cont q)"

text \<open>The boolean is \<open>pop_var_.notify_all()\<close>.\<close>

definition cpq_push :: "'a \<Rightarrow> 'a cpq \<Rightarrow> bool \<times> 'a cpq" where
  "cpq_push x q = (True, q\<lparr>cont := push_heap (less_fn q) (cont q @ [x])\<rparr>)"

definition do_pop :: "'a cpq \<Rightarrow> 'a option \<times> 'a cpq" where
  "do_pop q =
     (if cont q = [] then (None, q)
      else let xs = pop_heap (less_fn q) (cont q) in (Some (last xs), q\<lparr>cont := butlast xs\<rparr>))"

definition cpq_try_pop :: "'a cpq \<Rightarrow> 'a option \<times> 'a cpq" where
  "cpq_try_pop q = do_pop q"

text \<open>One round of the loop of \<open>pop\<close>, from the first test or from a wake-up.\<close>

definition cpq_pop :: "'a cpq \<Rightarrow> 'a outcome \<times> 'a cpq" where
  "cpq_pop q = (case do_pop q of (None, q') \<Rightarrow> (Sleeps, q') | (Some x, q') \<Rightarrow> (Returns x, q'))"

section \<open>Heaps\<close>

definition par :: "nat \<Rightarrow> nat" where
  "par j = (j - 1) div 2"

lemma par_less [simp]: "0 < j \<Longrightarrow> par j < j"
  by (simp add: par_def)

lemma par_children: "0 < j \<Longrightarrow> par j = i \<longleftrightarrow> j = 2 * i + 1 \<or> j = 2 * i + 2"
  by (auto simp: par_def)

text \<open>The keys of the vector as a function \<open>a\<close> of the position. In \<open>up_to\<close> the element at \<open>i\<close> may be too large, in
  \<open>down_from\<close> too small; \<open>lo\<close> is the first position that is the root of a heap already.\<close>

definition heap_from :: "nat \<Rightarrow> (nat \<Rightarrow> 'b::linorder) \<Rightarrow> nat \<Rightarrow> bool" where
  "heap_from lo a n \<longleftrightarrow> (\<forall>j. 0 < j \<and> j < n \<and> lo \<le> par j \<longrightarrow> a j \<le> a (par j))"

definition up_to :: "(nat \<Rightarrow> 'b::linorder) \<Rightarrow> nat \<Rightarrow> nat \<Rightarrow> bool" where
  "up_to a n i \<longleftrightarrow> (\<forall>j. 0 < j \<and> j < n \<and> j \<noteq> i \<longrightarrow> a j \<le> a (par j)) \<and>
     (\<forall>j. 0 < i \<and> 0 < j \<and> j < n \<and> par j = i \<longrightarrow> a j \<le> a (par i))"

definition down_from :: "nat \<Rightarrow> (nat \<Rightarrow> 'b::linorder) \<Rightarrow> nat \<Rightarrow> nat \<Rightarrow> bool" where
  "down_from lo a n i \<longleftrightarrow> (\<forall>j. 0 < j \<and> j < n \<and> lo \<le> par j \<and> par j \<noteq> i \<longrightarrow> a j \<le> a (par j)) \<and>
     (\<forall>j. 0 < i \<and> lo \<le> par i \<and> 0 < j \<and> j < n \<and> par j = i \<longrightarrow> a j \<le> a (par i))"

lemma up_to_swap:
  assumes "up_to a n i" and "0 < i" and "a (par i) < a i"
  shows "up_to (a(par i := a i, i := a (par i))) n (par i)"
proof -
  let ?p = "par i" and ?b = "a(par i := a i, i := a (par i))"
  have u: "\<And>j. 0 < j \<Longrightarrow> j < n \<Longrightarrow> j \<noteq> i \<Longrightarrow> a j \<le> a (par j)" "\<And>j. 0 < j \<Longrightarrow> j < n \<Longrightarrow> par j = i \<Longrightarrow> a j \<le> a ?p"
    using assms(1,2) by (simp_all add: up_to_def)
  have pi: "?p < i" using assms(2) by simp
  have "?b j \<le> ?b (par j)" if j: "0 < j" "j < n" "j \<noteq> ?p" for j
  proof -
    consider "j = i" | "j \<noteq> i" "par j = i" | "j \<noteq> i" "par j = ?p" | "j \<noteq> i" "par j \<noteq> i" "par j \<noteq> ?p" by blast
    then show ?thesis
    proof cases
      case 3
      with u(1) [of j] j assms(3) pi show ?thesis by (simp add: le_less_trans less_imp_le)
    qed (use u [of j] j pi assms(3) in auto)
  qed
  moreover have "?b j \<le> ?b (par ?p)" if j: "0 < ?p" "0 < j" "j < n" "par j = ?p" for j
  proof -
    have pp: "par ?p < ?p" "j \<noteq> ?p" using j(1,2,4) par_less [of j] by auto
    have ap: "a ?p \<le> a (par ?p)" if "?p < n" using u(1) [of ?p] j(1) that pi by simp
    have "?p < n" using par_less [of j] j by simp
    moreover have "par ?p \<noteq> ?p" by (rule less_imp_neq [OF pp(1)])
    ultimately show ?thesis using ap u(1) [of j] pp(2) pi j by (cases "j = i") (auto intro: order_trans)
  qed
  ultimately show ?thesis by (simp add: up_to_def)
qed

lemma down_from_swap:
  assumes "down_from lo a n i" and "0 < c" and "c < n" and "par c = i" and "a i < a c"
    and "\<And>j. 0 < j \<Longrightarrow> j < n \<Longrightarrow> par j = i \<Longrightarrow> a j \<le> a c"
  shows "down_from lo (a(i := a c, c := a i)) n c"
proof -
  let ?b = "a(i := a c, c := a i)"
  have d: "\<And>j. 0 < j \<Longrightarrow> j < n \<Longrightarrow> lo \<le> par j \<Longrightarrow> par j \<noteq> i \<Longrightarrow> a j \<le> a (par j)"
    "\<And>j. 0 < i \<Longrightarrow> lo \<le> par i \<Longrightarrow> 0 < j \<Longrightarrow> j < n \<Longrightarrow> par j = i \<Longrightarrow> a j \<le> a (par i)"
    using assms(1) by (simp_all add: down_from_def)
  have ic: "i < c" using assms(2,4) par_less [of c] by simp
  have "?b j \<le> ?b (par j)" if j: "0 < j" "j < n" "lo \<le> par j" "par j \<noteq> c" for j
  proof -
    consider "j = c" | "j \<noteq> c" "par j = i" | "j = i" | "j \<noteq> c" "j \<noteq> i" "par j \<noteq> i" by blast
    then show ?thesis
    proof cases
      case 2
      then have "j \<noteq> i" using par_less [OF j(1)] by simp
      with 2 assms(6) [of j] j show ?thesis by simp
    next
      case 3
      then have "par i < i" "par i \<noteq> c" using par_less [OF j(1)] j(4) by simp_all
      with 3 d(2) [of c] assms(2-4) j ic show ?thesis by simp
    qed (use d(1) [of j] j ic assms(4,5) in auto)
  qed
  moreover have "?b j \<le> ?b (par c)" if j: "lo \<le> par c" "0 < j" "j < n" "par j = c" for j
  proof -
    have "j \<noteq> c" "j \<noteq> i" "lo \<le> c" using par_less [OF j(2)] j(1,4) ic assms(4) by auto
    with d(1) [of j] j ic assms(4) show ?thesis by simp
  qed
  ultimately show ?thesis by (simp add: down_from_def)
qed

lemma swap_at_props:
  assumes "i < length xs" and "j < length xs"
  shows "length (swap_at i j xs) = length xs" and "mset (swap_at i j xs) = mset xs"
    and "k < length xs \<Longrightarrow> key (swap_at i j xs ! k) = ((\<lambda>k. key (xs ! k))(i := key (xs ! j), j := key (xs ! i))) k"
    and "k < length xs \<Longrightarrow> k \<noteq> i \<Longrightarrow> k \<noteq> j \<Longrightarrow> swap_at i j xs ! k = xs ! k"
  using assms by (auto simp: swap_at_def mset_swap)

lemma predicates_cong:
  assumes "\<And>k. k < n \<Longrightarrow> a k = b k"
  shows "up_to a n i \<Longrightarrow> up_to b n i" and "down_from lo a n i \<Longrightarrow> down_from lo b n i" and "heap_from lo a n \<Longrightarrow> heap_from lo b n"
proof -
  have p: "par j < n" if "0 < j" "j < n" for j using par_less [OF that(1)] that(2) by simp
  have i: "par i < n" if "0 < i" "0 < j" "j < n" "par j = i" for i j
    using p [OF that(2,3)] par_less [OF that(1)] that(4) by simp
  show "up_to a n i \<Longrightarrow> up_to b n i" unfolding up_to_def using assms p i by metis
  show "down_from lo a n i \<Longrightarrow> down_from lo b n i" unfolding down_from_def using assms p i by metis
  show "heap_from lo a n \<Longrightarrow> heap_from lo b n" unfolding heap_from_def using assms p by metis
qed

abbreviation by_key :: "('a \<Rightarrow> 'b::linorder) \<Rightarrow> 'a \<Rightarrow> 'a \<Rightarrow> bool" where
  "by_key key \<equiv> (\<lambda>x y. key x < key y)"

abbreviation keys :: "('a \<Rightarrow> 'b) \<Rightarrow> 'a list \<Rightarrow> nat \<Rightarrow> 'b" where
  "keys key xs \<equiv> (\<lambda>k. key (xs ! k))"

lemma sift_up_heap:
  "i < length xs \<Longrightarrow> up_to (keys key xs) (length xs) i \<Longrightarrow>
     heap_from 0 (keys key (sift_up (by_key key) i xs)) (length xs) \<and> mset (sift_up (by_key key) i xs) = mset xs"
proof (induction i arbitrary: xs rule: less_induct)
  case (less i)
  show ?case
  proof (cases i)
    case 0
    with less.prems show ?thesis by (auto simp: up_to_def heap_from_def)
  next
    case (Suc k)
    then have p: "par i = k div 2" "0 < i" "par i < i" "par i < length xs" using less.prems(1) by (auto simp: par_def)
    let ?ys = "swap_at (par i) i xs"
    note sw = swap_at_props [OF p(4) less.prems(1)]
    show ?thesis
    proof (cases "key (xs ! par i) < key (xs ! i)")
      case True
      have "up_to ((keys key xs)(par i := key (xs ! i), i := key (xs ! par i))) (length xs) (par i)"
        using up_to_swap [OF less.prems(2) p(2)] True by simp
      then have "up_to (keys key ?ys) (length xs) (par i)" by (rule predicates_cong(1) [rotated]) (simp add: sw(3))
      with less.IH [OF p(3), of ?ys] p(4) sw(1,2) True Suc p(1) show ?thesis by simp
    next
      case False
      have "key (xs ! j) \<le> key (xs ! par j)" if "0 < j" "j < length xs" for j
        using less.prems(2) False that by (cases "j = i") (auto simp: up_to_def)
      with False Suc p(1) show ?thesis by (simp add: heap_from_def)
    qed
  qed
qed

lemma sift_down_heap:
  "n \<le> length xs \<Longrightarrow> i < length xs \<Longrightarrow> down_from lo (keys key xs) n i \<Longrightarrow>
     heap_from lo (keys key (sift_down (by_key key) n i xs)) n \<and> mset (sift_down (by_key key) n i xs) = mset xs \<and>
     (\<forall>k. n \<le> k \<and> k < length xs \<and> i < n \<longrightarrow> sift_down (by_key key) n i xs ! k = xs ! k)"
proof (induction "n - i" arbitrary: i xs rule: less_induct)
  case less
  note sd = sift_down.simps [of "by_key key" n i xs]
  show ?case
  proof (cases "2 * i + 1 < n")
    case False
    then have "par j \<noteq> i" if "0 < j" "j < n" for j using that par_children [of j i] by auto
    then have "heap_from lo (keys key xs) n" using less.prems(3) by (simp add: heap_from_def down_from_def)
    with False show ?thesis by (simp add: sd)
  next
    case True
    define c where "c = larger_child (by_key key) n i xs"
    have c: "0 < c" "c < n" "par c = i" "i < c" using True by (auto simp: c_def larger_child_def par_def)
    have big: "key (xs ! j) \<le> key (xs ! c)" if "0 < j" "j < n" "par j = i" for j
      using that par_children [of j i] by (auto simp: c_def larger_child_def)
    show ?thesis
    proof (cases "key (xs ! i) < key (xs ! c)")
      case False
      have "key (xs ! j) \<le> key (xs ! par j)" if "0 < j" "j < n" "lo \<le> par j" for j
        using less.prems(3) False big [of j] that by (cases "par j = i") (auto simp: down_from_def)
      then have "heap_from lo (keys key xs) n" by (simp add: heap_from_def)
      then show ?thesis using True False by (simp add: sd c_def)
    next
      case lt: True
      let ?ys = "swap_at i c xs"
      have ci: "c < length xs" using c(2) less.prems(1) by simp
      note sw = swap_at_props [OF less.prems(2) ci]
      have "down_from lo ((keys key xs)(i := key (xs ! c), c := key (xs ! i))) n c"
        using down_from_swap [OF less.prems(3) c(1-3)] lt big by simp
      then have "down_from lo (keys key ?ys) n c" by (rule predicates_cong(2) [rotated]) (use less.prems(1) in \<open>simp add: sw(3)\<close>)
      with less.hyps [of c ?ys] c ci sw(1,2,4) less.prems(1)
      have "heap_from lo (keys key (sift_down (by_key key) n c ?ys)) n \<and> mset (sift_down (by_key key) n c ?ys) = mset xs \<and>
        (\<forall>k. n \<le> k \<and> k < length xs \<longrightarrow> sift_down (by_key key) n c ?ys ! k = xs ! k)" by fastforce
      moreover have "sift_down (by_key key) n i xs = sift_down (by_key key) n c ?ys" using True lt by (simp add: sd c_def Let_def)
      ultimately show ?thesis by simp
    qed
  qed
qed

section \<open>The heap algorithms keep the heap\<close>

lemma heap_top: "heap_from 0 a n \<Longrightarrow> j < n \<Longrightarrow> a j \<le> a 0"
proof (induction j rule: less_induct)
  case (less j)
  show ?case
  proof (cases "j = 0")
    case False
    then have "par j < j" by simp
    with less.IH [of "par j"] less.prems have "a (par j) \<le> a 0" by simp
    moreover have "a j \<le> a (par j)" using less.prems False by (simp add: heap_from_def)
    ultimately show ?thesis by (rule order_trans [rotated])
  qed simp
qed

lemma push_heap_heap:
  assumes "heap_from 0 (keys key xs) (length xs)"
  shows "heap_from 0 (keys key (push_heap (by_key key) (xs @ [x]))) (length (push_heap (by_key key) (xs @ [x]))) \<and>
     mset (push_heap (by_key key) (xs @ [x])) = add_mset x (mset xs)"
proof -
  have "key ((xs @ [x]) ! j) \<le> key ((xs @ [x]) ! par j)" if "0 < j" "j < length xs" for j
  proof -
    have "par j < length xs" using par_less [OF that(1)] that(2) by (rule less_trans)
    then show ?thesis using assms that by (simp add: heap_from_def nth_append)
  qed
  moreover have "par j \<noteq> length xs" if "0 < j" "j < length (xs @ [x])" for j using par_less [OF that(1)] that(2) by simp
  ultimately have "up_to (keys key (xs @ [x])) (length (xs @ [x])) (length xs)" by (auto simp: up_to_def less_Suc_eq)
  moreover have "length xs < length (xs @ [x])" by simp
  ultimately have s: "heap_from 0 (keys key (push_heap (by_key key) (xs @ [x]))) (length (xs @ [x]))"
    "mset (push_heap (by_key key) (xs @ [x])) = mset (xs @ [x])"
    using sift_up_heap [of "length xs" "xs @ [x]" key] by (auto simp: push_heap_def)
  moreover have "length (push_heap (by_key key) (xs @ [x])) = length (xs @ [x])" using s(2) by (rule mset_eq_length)
  ultimately show ?thesis by simp
qed

lemma pop_heap_heap:
  assumes "heap_from 0 (keys key xs) (length xs)" and "xs \<noteq> []"
  shows "last (pop_heap (by_key key) xs) = xs ! 0" and "mset (pop_heap (by_key key) xs) = mset xs"
    and "heap_from 0 (keys key (butlast (pop_heap (by_key key) xs))) (length (butlast (pop_heap (by_key key) xs)))"
proof -
  let ?n = "length xs - 1" and ?ys = "swap_at 0 (length xs - 1) xs"
  let ?zs = "sift_down (by_key key) ?n 0 ?ys"
  have l: "0 < length xs" "?n < length xs" using assms(2) by simp_all
  note sw = swap_at_props [OF l]
  have "key (?ys ! j) \<le> key (?ys ! par j)" if j: "0 < j" "j < ?n" "par j \<noteq> 0" for j
  proof -
    have pj: "par j < ?n" using par_less [OF j(1)] j(2) by (rule less_trans)
    have "?ys ! j = xs ! j" "?ys ! par j = xs ! par j" using sw(4) [of j] sw(4) [of "par j"] j pj by auto
    then show ?thesis using assms(1) j by (simp add: heap_from_def)
  qed
  then have "down_from 0 (keys key ?ys) ?n 0" by (simp add: down_from_def)
  then have sd: "heap_from 0 (keys key ?zs) ?n" "mset ?zs = mset ?ys" "\<And>k. ?n \<le> k \<Longrightarrow> k < length xs \<Longrightarrow> 0 < ?n \<Longrightarrow> ?zs ! k = ?ys ! k"
    using sift_down_heap [of ?n ?ys 0 0 key] sw(1) l by (simp_all flip: length_greater_0_conv)
  have len: "length ?zs = length xs" using sd(2) sw(1) mset_eq_length by metis
  show m: "mset (pop_heap (by_key key) xs) = mset xs" using sd(2) sw(2) by (simp add: pop_heap_def)
  have ne: "?zs \<noteq> []" using len assms(2) by auto
  have "?ys ! ?n = xs ! 0" using l by (simp add: swap_at_def nth_list_update)
  moreover have "?zs ! ?n = ?ys ! ?n" using sd(3) [of ?n] l(2) by (cases "0 < ?n") (auto simp: sift_down.simps)
  ultimately show "last (pop_heap (by_key key) xs) = xs ! 0" using ne len by (simp add: pop_heap_def last_conv_nth)
  have "heap_from 0 (keys key (butlast ?zs)) ?n" by (rule predicates_cong(3) [OF _ sd(1)]) (subst nth_butlast, simp_all add: len [unfolded One_nat_def])
  then show "heap_from 0 (keys key (butlast (pop_heap (by_key key) xs))) (length (butlast (pop_heap (by_key key) xs)))"
    by (simp add: pop_heap_def len [unfolded One_nat_def])
qed

lemma heapify_heap:
  "i \<le> length xs \<Longrightarrow> heap_from i (keys key xs) (length xs) \<Longrightarrow>
     heap_from 0 (keys key (heapify (by_key key) i xs)) (length xs) \<and> mset (heapify (by_key key) i xs) = mset xs"
proof (induction i arbitrary: xs)
  case (Suc i)
  have "down_from i (keys key xs) (length xs) i"
    unfolding down_from_def
  proof (intro conjI allI impI)
    fix j assume "0 < j \<and> j < length xs \<and> i \<le> par j \<and> par j \<noteq> i"
    then show "key (xs ! j) \<le> key (xs ! par j)" using Suc.prems(2) by (simp add: heap_from_def)
  next
    fix j assume "0 < i \<and> i \<le> par i \<and> 0 < j \<and> j < length xs \<and> par j = i"
    then show "key (xs ! j) \<le> key (xs ! par i)" using par_less [of i] by linarith
  qed
  with sift_down_heap [of "length xs" xs i i key] Suc.prems(1)
  have sd: "heap_from i (keys key (sift_down (by_key key) (length xs) i xs)) (length xs)"
    "mset (sift_down (by_key key) (length xs) i xs) = mset xs" by simp_all
  then have "length (sift_down (by_key key) (length xs) i xs) = length xs" using mset_eq_length by metis
  with Suc.IH [of "sift_down (by_key key) (length xs) i xs"] sd Suc.prems(1) show ?case by simp
qed simp

lemma make_heap_heap:
  "heap_from 0 (keys key (heapify (by_key key) (length xs div 2) xs)) (length xs) \<and>
   mset (heapify (by_key key) (length xs div 2) xs) = mset xs"
proof (rule heapify_heap)
  show "heap_from (length xs div 2) (keys key xs) (length xs)"
    by (auto simp: heap_from_def par_def)
qed simp

section \<open>The contract\<close>

definition cpq_ok :: "('a \<Rightarrow> 'b::linorder) \<Rightarrow> 'a cpq \<Rightarrow> bool" where
  "cpq_ok key q \<longleftrightarrow> less_fn q = by_key key \<and> heap_from 0 (keys key (cont q)) (length (cont q))"

definition cpq_del :: "'a cpq \<Rightarrow> 'a \<times> 'a cpq" where
  "cpq_del q = (the (fst (cpq_try_pop q)), snd (cpq_try_pop q))"

lemma push_ok: "cpq_ok key q \<Longrightarrow> cpq_ok key (snd (cpq_push x q)) \<and> mset (cont (snd (cpq_push x q))) = add_mset x (mset (cont q))"
  using push_heap_heap [of key "cont q" x] by (simp add: cpq_ok_def cpq_push_def)

lemma pop_ok:
  assumes "cpq_ok key q" and "cont q \<noteq> []"
  shows "\<exists>x. fst (do_pop q) = Some x \<and> cpq_ok key (snd (do_pop q)) \<and> mset (cont q) = add_mset x (mset (cont (snd (do_pop q)))) \<and>
     (\<forall>y \<in> set (cont q). key y \<le> key x)"
proof -
  let ?zs = "pop_heap (by_key key) (cont q)"
  have h: "heap_from 0 (keys key (cont q)) (length (cont q))" "less_fn q = by_key key" using assms(1) by (simp_all add: cpq_ok_def)
  note p = pop_heap_heap [OF h(1) assms(2)]
  have "?zs \<noteq> []" using p(2) assms(2) by (metis mset_zero_iff)
  then have "mset ?zs = add_mset (last ?zs) (mset (butlast ?zs))" using mset_append [of "butlast ?zs" "[last ?zs]"] by simp
  moreover have "key y \<le> key (last ?zs)" if y: "y \<in> set (cont q)" for y
  proof -
    obtain j where "j < length (cont q)" "cont q ! j = y" using y by (auto simp: in_set_conv_nth)
    with heap_top [OF h(1)] p(1) show ?thesis by metis
  qed
  ultimately show ?thesis using assms(2) h(2) p by (simp add: do_pop_def cpq_ok_def Let_def)
qed

interpretation cpq: priority_queue "cpq_ok key" "\<lambda>q. mset (cont q)" "\<lambda>x y. key y \<le> key x" "\<lambda>x q. snd (cpq_push x q)" cpq_del
  for key :: "'a \<Rightarrow> 'b::linorder"
proof unfold_locales
  fix q :: "'a cpq"
  assume "cpq_ok key q" "mset (cont q) \<noteq> {#}"
  with pop_ok [of key q] show "cpq_ok key (snd (cpq_del q)) \<and> mset (cont q) = add_mset (fst (cpq_del q)) (mset (cont (snd (cpq_del q)))) \<and>
      (\<forall>y \<in># mset (cont q). key y \<le> key (fst (cpq_del q)))"
    by (auto simp: cpq_del_def cpq_try_pop_def)
qed (auto dest: push_ok)

lemma make_heap_ok:
  "less_fn q = by_key key \<Longrightarrow> cpq_ok key (make_heap q) \<and> mset (cont (make_heap q)) = mset (cont q)"
  using make_heap_heap [of key "cont q"] mset_eq_length [of "heapify (by_key key) (length (cont q) div 2) (cont q)" "cont q"]
  by (simp add: make_heap_def cpq_ok_def)

text \<open>A queue made of the container \<open>xs\<close> and the range \<open>xs'\<close>, with \<open>ys\<close> pushed, updated, and \<open>zs\<close> pushed.\<close>

definition push_each :: "'a list \<Rightarrow> 'a cpq \<Rightarrow> 'a cpq" where
  "push_each xs q = fold (\<lambda>x q. snd (cpq_push x q)) xs q"

definition cpq_history :: "('a \<Rightarrow> 'a \<Rightarrow> bool) \<Rightarrow> ('a \<Rightarrow> 'a \<Rightarrow> bool) \<Rightarrow> 'a list \<Rightarrow> 'a list \<Rightarrow> 'a list \<Rightarrow> 'a list \<Rightarrow> 'a cpq" where
  "cpq_history lt lt' xs xs' ys zs = push_each zs (cpq_update lt' (push_each ys (cpq_from_range xs' lt xs)))"

text \<open>C17. The queue gives its elements back in the order of their priorities: whatever container and range it is made of,
  whatever is pushed, and after \<open>update\<close> has changed the comparison, popping everything delivers every element once,
  from the highest priority to the lowest under the comparison now in force.\<close>

theorem priority_queue_sorts:
  fixes key :: "'a \<Rightarrow> 'b::linorder" and key' :: "'a \<Rightarrow> 'c::linorder" and xs xs' ys zs :: "'a list"
  shows "let q = cpq_history (by_key key) (by_key key') xs xs' ys zs in
     mset (drain cpq_del (cpq_size q) q) = mset (xs @ xs' @ ys @ zs) \<and> sorted_wrt (\<lambda>x y. key' y \<le> key' x) (drain cpq_del (cpq_size q) q)"
proof -
  have 1: "cpq_ok key (cpq_from_range xs' (by_key key) xs)" "mset (cont (cpq_from_range xs' (by_key key) xs)) = mset (xs @ xs')"
    using make_heap_ok [of "\<lparr>less_fn = by_key key, cont = xs @ xs'\<rparr>" key] by (simp_all add: cpq_from_range_def)
  let ?q1 = "push_each ys (cpq_from_range xs' (by_key key) xs)"
  have 2: "mset (cont ?q1) = mset (xs @ xs' @ ys)" using cpq.ins_all [OF 1(1), of ys] 1(2) by (simp add: push_each_def)
  have 3: "cpq_ok key' (cpq_update (by_key key') ?q1)" "mset (cont (cpq_update (by_key key') ?q1)) = mset (xs @ xs' @ ys)"
    using make_heap_ok [of "?q1\<lparr>less_fn := by_key key'\<rparr>" key'] 2 by (simp_all add: cpq_update_def)
  let ?q = "cpq_history (by_key key) (by_key key') xs xs' ys zs"
  have 4: "cpq_ok key' ?q" "mset (cont ?q) = mset (xs @ xs' @ ys @ zs)"
    using cpq.ins_all [OF 3(1), of zs] 3(2) by (simp_all add: cpq_history_def push_each_def)
  have "size (mset (cont ?q)) = cpq_size ?q" by (simp add: cpq_size_def)
  from cpq.drain_sorted [OF 4(1) this] 4(2) show ?thesis by (simp add: Let_def)
qed

section \<open>Threads\<close>

text \<open>Any number of threads: a thread in \<open>pop\<close> that finds the queue empty sleeps on \<open>pop_var_\<close>, also again after a
  wake-up for nothing. \<open>pushed_in\<close> and \<open>popped_out\<close> are the elements in the order of the critical sections.\<close>

datatype popper = Away | Pop_called | Pop_asleep

record 'a cpq_sys =
  cpq_obj :: "'a cpq"
  popper :: "nat \<Rightarrow> popper"
  pushed_in :: "'a list"
  popped_out :: "'a list"

inductive cpq_step :: "'a cpq_sys \<Rightarrow> 'a cpq_sys \<Rightarrow> bool" where
  push: "cpq_push x (cpq_obj s) = (notify, q) \<Longrightarrow>
     cpq_step s (s\<lparr>cpq_obj := q, pushed_in := pushed_in s @ [x],
       popper := (\<lambda>t. if notify \<and> popper s t = Pop_asleep then Pop_called else popper s t)\<rparr>)"
| try_pop: "cpq_try_pop (cpq_obj s) = (r, q) \<Longrightarrow>
     cpq_step s (s\<lparr>cpq_obj := q, popped_out := popped_out s @ (case r of None \<Rightarrow> [] | Some x \<Rightarrow> [x])\<rparr>)"
| call: "popper s t = Away \<Longrightarrow> cpq_step s (s\<lparr>popper := (popper s)(t := Pop_called)\<rparr>)"
| pop: "popper s t = Pop_called \<Longrightarrow> cpq_pop (cpq_obj s) = (Returns x, q) \<Longrightarrow>
     cpq_step s (s\<lparr>cpq_obj := q, popped_out := popped_out s @ [x], popper := (popper s)(t := Away)\<rparr>)"
| sleep: "popper s t = Pop_called \<Longrightarrow> cpq_pop (cpq_obj s) = (Sleeps, q) \<Longrightarrow>
     cpq_step s (s\<lparr>cpq_obj := q, popper := (popper s)(t := Pop_asleep)\<rparr>)"
| wake: "popper s t = Pop_asleep \<Longrightarrow> cpq_step s (s\<lparr>popper := (popper s)(t := Pop_called)\<rparr>)"

definition cpq_sys_start :: "'a cpq \<Rightarrow> 'a cpq_sys" where
  "cpq_sys_start q = \<lparr>cpq_obj = q, popper = (\<lambda>_. Away), pushed_in = [], popped_out = []\<rparr>"

definition cpq_sys_ok :: "('a \<Rightarrow> 'b::linorder) \<Rightarrow> 'a multiset \<Rightarrow> 'a cpq_sys \<Rightarrow> bool" where
  "cpq_sys_ok key M s \<longleftrightarrow> cpq_ok key (cpq_obj s) \<and>
     M + mset (pushed_in s) = mset (popped_out s) + mset (cont (cpq_obj s)) \<and>
     ((\<exists>t. popper s t = Pop_asleep) \<longrightarrow> cont (cpq_obj s) = [])"

lemma do_pop_none: "fst (do_pop q) = None \<longleftrightarrow> cont q = []" "cont q = [] \<Longrightarrow> snd (do_pop q) = q"
  by (simp_all add: do_pop_def Let_def)

lemma do_pop_some:
  assumes "cpq_ok key q" and "do_pop q = (Some x, q')"
  shows "cpq_ok key q' \<and> cont q \<noteq> [] \<and> mset (cont q) = add_mset x (mset (cont q')) \<and> (\<forall>y \<in> set (cont q). key y \<le> key x)"
proof -
  have "cont q \<noteq> []" using assms(2) do_pop_none(1) [of q] by auto
  with pop_ok [OF assms(1) this] assms(2) show ?thesis by auto
qed

lemma cpq_step_ok:
  assumes "cpq_step s s'" and "cpq_sys_ok key M s"
  shows "cpq_sys_ok key M s'"
  using assms(1)
proof cases
  case (push x notify q)
  with assms(2) push_ok [of key "cpq_obj s" x] show ?thesis
    by (auto simp: cpq_sys_ok_def cpq_push_def split: if_splits)
next
  case (try_pop r q)
  then show ?thesis
    using assms(2) do_pop_none [of "cpq_obj s"] do_pop_some [of key "cpq_obj s"]
    by (cases r) (auto simp: cpq_sys_ok_def cpq_try_pop_def)
next
  case (pop t x q)
  then have "do_pop (cpq_obj s) = (Some x, q)" by (auto simp: cpq_pop_def split: prod.splits option.splits)
  with do_pop_some [of key "cpq_obj s"] pop(1) assms(2) show ?thesis by (auto simp: cpq_sys_ok_def)
next
  case (sleep t q)
  then have "fst (do_pop (cpq_obj s)) = None" "q = snd (do_pop (cpq_obj s))" by (auto simp: cpq_pop_def split: prod.splits option.splits)
  with do_pop_none [of "cpq_obj s"] sleep(1) assms(2) show ?thesis by (auto simp: cpq_sys_ok_def)
qed (use assms(2) in \<open>auto simp: cpq_sys_ok_def split: if_splits\<close>)

text \<open>C39. In every interleaving no element is lost or delivered twice, every pop delivers an element of the highest priority
  in the queue at that moment, and no thread sleeps in \<open>pop\<close> while the queue holds an element.\<close>

theorem priority_queue_threads:
  assumes "cpq_step\<^sup>*\<^sup>* (cpq_sys_start (cpq_from (by_key key) xs)) s"
  shows "mset xs + mset (pushed_in s) = mset (popped_out s) + mset (cont (cpq_obj s)) \<and>
     (cont (cpq_obj s) \<noteq> [] \<longrightarrow> (\<forall>t. popper s t \<noteq> Pop_asleep)) \<and>
     (\<forall>x q. do_pop (cpq_obj s) = (Some x, q) \<longrightarrow> (\<forall>y \<in> set (cont (cpq_obj s)). key y \<le> key x))"
proof -
  have "cpq_sys_ok key (mset xs) (cpq_sys_start (cpq_from (by_key key) xs))"
    using make_heap_ok [of "\<lparr>less_fn = by_key key, cont = xs\<rparr>" key] by (simp add: cpq_sys_ok_def cpq_sys_start_def cpq_from_def)
  with assms have "cpq_sys_ok key (mset xs) s" by (induction rule: rtranclp_induct) (auto intro: cpq_step_ok)
  then show ?thesis using do_pop_some [of key "cpq_obj s"] by (auto simp: cpq_sys_ok_def)
qed

text \<open>A thread waits in an empty queue, another pushes 3 and 8, the first pops.\<close>

theorem priority_queue_threads_witness:
  "\<exists>s. cpq_step\<^sup>*\<^sup>* (cpq_sys_start (cpq_from (by_key (\<lambda>n. n)) [])) s \<and> popped_out s = [8 :: nat] \<and> pushed_in s = [3, 8] \<and>
     mset (cont (cpq_obj s)) = {#3#}"
proof -
  let ?s0 = "cpq_sys_start (cpq_from (by_key (\<lambda>n. n)) [])" and ?q = "\<lambda>xs. \<lparr>less_fn = by_key (\<lambda>n :: nat. n), cont = xs\<rparr>"
  let ?st = "\<lambda>xs f ps os. \<lparr>cpq_obj = ?q xs, popper = f, pushed_in = ps, popped_out = os\<rparr>"
  let ?a = "(\<lambda>_. Away) :: nat \<Rightarrow> popper"
  have "?s0 = ?st [] ?a [] []" by (simp add: cpq_sys_start_def cpq_from_def make_heap_def)
  moreover have "cpq_step (?st [] ?a [] []) (?st [] (?a(0 := Pop_called)) [] [])"
    using cpq_step.call [of "?st [] ?a [] []" 0] by simp
  moreover have "cpq_step (?st [] (?a(0 := Pop_called)) [] []) (?st [] (?a(0 := Pop_asleep)) [] [])"
    using cpq_step.sleep [of "?st [] (?a(0 := Pop_called)) [] []" 0 "?q []"] by (simp add: cpq_pop_def do_pop_def)
  moreover have "cpq_step (?st [] (?a(0 := Pop_asleep)) [] []) (?st [3] (?a(0 := Pop_called)) [3] [])"
    using cpq_step.push [of 3 "?st [] (?a(0 := Pop_asleep)) [] []" True "?q [3]"]
    by (simp add: cpq_push_def push_heap_def fun_upd_def if_distrib cong: if_cong)
  moreover have "cpq_step (?st [3] (?a(0 := Pop_called)) [3] []) (?st [8, 3] (?a(0 := Pop_called)) [3, 8] [])"
    using cpq_step.push [of 8 "?st [3] (?a(0 := Pop_called)) [3] []" True "?q [8, 3]"]
    by (simp add: cpq_push_def push_heap_def swap_at_def fun_upd_def if_distrib cong: if_cong)
  moreover have "cpq_step (?st [8, 3] (?a(0 := Pop_called)) [3, 8] []) (?st [3] (?a(0 := Away)) [3, 8] [8])"
    using cpq_step.pop [of "?st [8, 3] (?a(0 := Pop_called)) [3, 8] []" 0 8 "?q [3]"]
    by (simp add: cpq_pop_def do_pop_def pop_heap_def swap_at_def sift_down.simps)
  ultimately have r: "cpq_step\<^sup>*\<^sup>* ?s0 (?st [3] (?a(0 := Away)) [3, 8] [8])" by (metis (no_types) converse_rtranclp_into_rtranclp rtranclp.rtrancl_refl)
  from priority_queue_threads [OF this] have "mset (cont (?q [3 :: nat])) = {#3#}" by simp
  with r show ?thesis by auto
qed

end
