(* ===== verification/Latch.thy ===== *)
theory Latch
  imports Gcl_Prelude
begin

text \<open>
  \<open>include/latch.h\<close>, \<open>src/latch.cc\<close>, \<open>include/countdown_latch.h\<close> and \<open>src/countdown_latch.cc\<close>.

  The operations are the state changes of their critical sections; the second component of a result
  says whether \<open>condition_.notify_all\<close> was called. The step relation interleaves any number of threads
  on one \<open>latch\<close>; the accesses to the atomic \<open>waiting_\<close> outside the mutex are steps of their own.
\<close>

subsection \<open>The operations\<close>

record latch =
  count :: int
  waiting :: int

definition latch_new :: "int \<Rightarrow> latch" where
  "latch_new n = \<lparr>count = n, waiting = 0\<rparr>"

text \<open>The destructor spins while this is false.\<close>

definition latch_destructible :: "latch \<Rightarrow> bool" where
  "latch_destructible l \<longleftrightarrow> \<not> waiting l > 0"

definition latch_is_ready :: "latch \<Rightarrow> bool" where
  "latch_is_ready l \<longleftrightarrow> count l = 0"

text \<open>The body of \<open>wait\<close> under the mutex; a woken thread runs it again.\<close>

definition latch_wait_body :: "latch \<Rightarrow> unit outcome" where
  "latch_wait_body l = (if count l > 0 then Sleeps else Returns ())"

definition latch_count_down :: "int \<Rightarrow> latch \<Rightarrow> unit outcome \<times> bool \<times> latch" where
  "latch_count_down n l =
     (if count l - n < 0 then (Throws (Logic_error ''internal count == 0''), False, l)
      else let l1 = l\<lparr>count := count l - n\<rparr> in (Returns (), count l1 = 0, l1))"

definition latch_down_and_wait_body :: "latch \<Rightarrow> unit outcome \<times> bool \<times> latch" where
  "latch_down_and_wait_body l =
     (if count l = 0 then (Throws (Logic_error ''internal count == 0''), False, l)
      else let l1 = l\<lparr>count := count l - 1\<rparr>
           in if count l1 = 0 then (Returns (), True, l1) else (latch_wait_body l1, False, l1))"

definition latch_enter :: "latch \<Rightarrow> latch" where
  "latch_enter l = l\<lparr>waiting := waiting l + 1\<rparr>"

definition latch_leave :: "latch \<Rightarrow> latch" where
  "latch_leave l = l\<lparr>waiting := waiting l - 1\<rparr>"

text \<open>\<open>countdown_latch\<close> keeps an unsigned count.\<close>

definition cdl_new :: "32 word \<Rightarrow> 32 word" where
  "cdl_new n = n"

definition cdl_wait_body :: "32 word \<Rightarrow> unit outcome" where
  "cdl_wait_body c = (if c > 0 then Sleeps else Returns ())"

definition cdl_count_down :: "32 word \<Rightarrow> unit outcome \<times> bool \<times> 32 word" where
  "cdl_count_down c =
     (if c \<le> 0 then (Throws System_error, False, c) else (Returns (), c - 1 = 0, c - 1))"

subsection \<open>The contract of a latch\<close>

locale one_shot_latch =
  fixes remaining :: "'l \<Rightarrow> nat"
    and waits :: "'l \<Rightarrow> unit outcome"
    and down :: "'l \<Rightarrow> unit outcome \<times> bool \<times> 'l"
    and invar :: "'l \<Rightarrow> bool"
  assumes waits_spec: "invar l \<Longrightarrow> waits l = (if remaining l = 0 then Returns () else Sleeps)"
    and down_zero: "invar l \<Longrightarrow> remaining l = 0 \<Longrightarrow>
      (\<exists>e. fst (down l) = Throws e) \<and> \<not> fst (snd (down l)) \<and> snd (snd (down l)) = l"
    and down_Suc: "invar l \<Longrightarrow> remaining l = Suc n \<Longrightarrow>
      fst (down l) = Returns () \<and> invar (snd (snd (down l))) \<and>
      remaining (snd (snd (down l))) = n \<and> (fst (snd (down l)) \<longleftrightarrow> n = 0)"
begin

text \<open>After \<open>k\<close> calls of \<open>count_down\<close>.\<close>

lemma down_times:
  "invar l \<Longrightarrow> invar (((\<lambda>l. snd (snd (down l))) ^^ k) l) \<and>
   remaining (((\<lambda>l. snd (snd (down l))) ^^ k) l) = remaining l - k"
proof (induction k)
  case (Suc k)
  then show ?case
    using down_zero [of "((\<lambda>l. snd (snd (down l))) ^^ k) l"]
      down_Suc [of "((\<lambda>l. snd (snd (down l))) ^^ k) l"]
    by (cases "remaining l - k") auto
qed simp

text \<open>The notification is issued by exactly one call: the one that lets the waiters go.\<close>

lemma notify_once:
  assumes "invar l"
  shows "fst (snd (down (((\<lambda>l. snd (snd (down l))) ^^ k) l))) \<longleftrightarrow> Suc k = remaining l"
  using down_times [OF assms, of k] down_zero [of "((\<lambda>l. snd (snd (down l))) ^^ k) l"]
    down_Suc [of "((\<lambda>l. snd (snd (down l))) ^^ k) l"]
  by (cases "remaining l - k") auto

lemma waits_after:
  assumes "invar l"
  shows "waits (((\<lambda>l. snd (snd (down l))) ^^ k) l) = (if remaining l \<le> k then Returns () else Sleeps)"
  using down_times [OF assms, of k] waits_spec [of "((\<lambda>l. snd (snd (down l))) ^^ k) l"] by simp

end

interpretation latch: one_shot_latch "\<lambda>l. nat (count l)" latch_wait_body "latch_count_down 1" "\<lambda>l. 0 \<le> count l"
  by unfold_locales (auto simp: latch_wait_body_def latch_count_down_def Let_def)

lemma cdl_minus_one: "(c :: 32 word) \<noteq> 0 \<Longrightarrow> unat c = Suc n \<Longrightarrow> unat (c - 1) = n"
  by (simp add: unat_minus_one)

interpretation countdown: one_shot_latch unat cdl_wait_body cdl_count_down "\<lambda>_. True"
  by unfold_locales
    (auto simp: cdl_wait_body_def cdl_count_down_def word_gt_0 unat_eq_0 cdl_minus_one
       simp flip: unat_eq_0)

subsection \<open>Threads on a latch\<close>

datatype latch_at = Out | In_wait | In_down_and_wait | Asleep | Awake | Leaving

record latch_sys =
  lat :: latch
  at :: "nat \<Rightarrow> latch_at"
  leaked :: nat

definition wake_all :: "(nat \<Rightarrow> latch_at) \<Rightarrow> nat \<Rightarrow> latch_at" where
  "wake_all f t = (if f t = Asleep then Awake else f t)"

definition wakes :: "bool \<Rightarrow> (nat \<Rightarrow> latch_at) \<Rightarrow> nat \<Rightarrow> latch_at" where
  "wakes b f = (if b then wake_all f else f)"

definition where_to :: "unit outcome \<Rightarrow> latch_at" where
  "where_to r = (case r of Sleeps \<Rightarrow> Asleep | Returns _ \<Rightarrow> Leaving | _ \<Rightarrow> Out)"

text \<open>
  \<open>leaked\<close> counts the calls of \<open>count_down_and_wait\<close> that threw. A negative argument of \<open>count_down\<close>,
  which would raise the count again, is excluded.
\<close>

inductive latch_step :: "latch_sys \<Rightarrow> latch_sys \<Rightarrow> bool" where
  enter_wait: "at s t = Out \<Longrightarrow>
     latch_step s (s\<lparr>lat := latch_enter (lat s), at := (at s)(t := In_wait)\<rparr>)"
| enter_down: "at s t = Out \<Longrightarrow>
     latch_step s (s\<lparr>lat := latch_enter (lat s), at := (at s)(t := In_down_and_wait)\<rparr>)"
| wait_body: "at s t \<in> {In_wait, Awake} \<Longrightarrow>
     latch_step s (s\<lparr>at := (at s)(t := where_to (latch_wait_body (lat s)))\<rparr>)"
| down_body: "at s t = In_down_and_wait \<Longrightarrow> latch_down_and_wait_body (lat s) = (r, b, l) \<Longrightarrow>
     latch_step s (s\<lparr>lat := l, at := (wakes b (at s))(t := where_to r),
                     leaked := leaked s + (if where_to r = Out then 1 else 0)\<rparr>)"
| leave: "at s t = Leaving \<Longrightarrow>
     latch_step s (s\<lparr>lat := latch_leave (lat s), at := (at s)(t := Out)\<rparr>)"
| count_down: "at s t = Out \<Longrightarrow> 0 \<le> n \<Longrightarrow> latch_count_down n (lat s) = (r, b, l) \<Longrightarrow>
     latch_step s (s\<lparr>lat := l, at := wakes b (at s)\<rparr>)"
| spurious: "at s t = Asleep \<Longrightarrow> latch_step s (s\<lparr>at := (at s)(t := Awake)\<rparr>)"

inductive latch_reachable :: "int \<Rightarrow> latch_sys \<Rightarrow> bool" for n where
  latch_start: "latch_reachable n \<lparr>lat = latch_new n, at = (\<lambda>_. Out), leaked = 0\<rparr>"
| latch_more: "latch_reachable n s \<Longrightarrow> latch_step s s' \<Longrightarrow> latch_reachable n s'"

definition inside :: "latch_sys \<Rightarrow> nat set" where
  "inside s = {t. at s t \<noteq> Out}"

definition latch_inv :: "latch_sys \<Rightarrow> bool" where
  "latch_inv s \<longleftrightarrow>
     finite (inside s) \<and> waiting (lat s) = int (card (inside s)) + int (leaked s) \<and>
     (\<forall>t. at s t = Asleep \<longrightarrow> count (lat s) > 0) \<and> (\<forall>t. at s t = Leaving \<longrightarrow> count (lat s) \<le> 0)"

lemma latch_fields [simp]:
  "count (latch_enter l) = count l" "waiting (latch_enter l) = waiting l + 1"
  "count (latch_leave l) = count l" "waiting (latch_leave l) = waiting l - 1"
  by (simp_all add: latch_enter_def latch_leave_def)

lemma inside_upd:
  "inside (s\<lparr>lat := l, at := (at s)(t := a)\<rparr>) = (if a = Out then inside s - {t} else insert t (inside s))"
  "inside (s\<lparr>at := (at s)(t := a)\<rparr>) = (if a = Out then inside s - {t} else insert t (inside s))"
  by (auto simp: inside_def)

lemma wakes_simps [simp]:
  "wakes b f t = Out \<longleftrightarrow> f t = Out" "wakes b f t = Leaving \<longleftrightarrow> f t = Leaving"
  "wakes b f t = Asleep \<longleftrightarrow> \<not> b \<and> f t = Asleep"
  by (auto simp: wakes_def wake_all_def)

lemma down_body_cases:
  assumes "latch_down_and_wait_body l = (r, b, l')"
  shows "waiting l' = waiting l \<and> count l' \<le> count l \<and>
         (where_to r = Asleep \<longrightarrow> count l' > 0) \<and> (where_to r = Leaving \<longrightarrow> count l' \<le> 0) \<and>
         where_to r \<in> {Out, Asleep, Leaving} \<and> (count l > 0 \<longrightarrow> b \<longleftrightarrow> count l' = 0) \<and>
         (count l' = 0 \<and> count l \<noteq> 0 \<longrightarrow> b) \<and> (count l > 0 \<longrightarrow> count l' \<ge> 0)"
  using assms
  by (auto simp: latch_down_and_wait_body_def latch_wait_body_def where_to_def Let_def split: if_splits)

lemma card_remove_int: "finite A \<Longrightarrow> t \<in> A \<Longrightarrow> int (card (A - {t})) = int (card A) - 1"
  using card_Suc_Diff1 [of A t] by linarith

lemma latch_step_inv:
  assumes "latch_step s s'" and "latch_inv s"
  shows "latch_inv s'"
  using assms
proof (induction rule: latch_step.induct)
  case (down_body s t r b l)
  note cs = down_body_cases [OF down_body(2)]
  have t: "t \<in> inside s" using down_body(1) by (simp add: inside_def)
  have fin: "finite (inside s)" using down_body(3) by (simp add: latch_inv_def)
  have ins: "inside (s\<lparr>lat := l, at := (wakes b (at s))(t := where_to r),
      leaked := leaked s + (if where_to r = Out then 1 else 0)\<rparr>) =
      (if where_to r = Out then inside s - {t} else inside s)"
    using t by (auto simp: inside_def)
  have "int (card (inside s - {t})) = int (card (inside s)) - 1"
    using card_remove_int [OF fin t] .
  then show ?case
    unfolding latch_inv_def ins using cs down_body(3) fin
    by (auto simp: latch_inv_def split: if_splits)
next
  case (leave s t)
  have t: "t \<in> inside s" using leave(1) by (simp add: inside_def)
  have fin: "finite (inside s)" using leave(2) by (simp add: latch_inv_def)
  have "int (card (inside s - {t})) = int (card (inside s)) - 1"
    using card_remove_int [OF fin t] .
  then show ?case using leave by (auto simp: latch_inv_def inside_upd)
next
  case (count_down s t n r b l)
  have "inside (s\<lparr>lat := l, at := wakes b (at s)\<rparr>) = inside s" by (auto simp: inside_def)
  with count_down show ?case
    by (auto simp: latch_inv_def latch_count_down_def Let_def split: if_splits)
next
  case (wait_body s t)
  have "t \<in> inside s" using wait_body(1) by (auto simp: inside_def)
  then show ?case
    using wait_body by (auto simp: latch_inv_def inside_upd latch_wait_body_def where_to_def insert_absorb)
next
  case (spurious s t)
  have "t \<in> inside s" using spurious(1) by (auto simp: inside_def)
  then show ?case using spurious by (auto simp: latch_inv_def inside_upd insert_absorb)
next
  case (enter_wait s t)
  have "t \<notin> inside s" using enter_wait(1) by (simp add: inside_def)
  then show ?case using enter_wait by (auto simp: latch_inv_def inside_upd)
next
  case (enter_down s t)
  have "t \<notin> inside s" using enter_down(1) by (simp add: inside_def)
  then show ?case using enter_down by (auto simp: latch_inv_def inside_upd)
qed

lemma latch_reachable_inv: "latch_reachable n s \<Longrightarrow> latch_inv s"
proof (induction rule: latch_reachable.induct)
  case latch_start
  then show ?case by (simp add: latch_inv_def latch_new_def inside_def)
next
  case (latch_more s s')
  then show ?case by (blast intro: latch_step_inv)
qed

subsection \<open>Properties\<close>

text \<open>C18. A latch lets everybody go, and nobody too early. In every state any number of threads reach:
  once the count is zero no thread is asleep, so every waiter runs and its test succeeds; a thread
  that is past its wait saw the count at zero, and it still is; and \<open>waiting_\<close> counts exactly the
  threads inside, plus the calls of \<open>count_down_and_wait\<close> that threw.\<close>

theorem latch_releases_waiters:
  assumes "latch_reachable n s"
  shows "(count (lat s) \<le> 0 \<longrightarrow> (\<forall>t. at s t \<noteq> Asleep) \<and> latch_wait_body (lat s) = Returns ()) \<and>
         (\<forall>t. at s t = Leaving \<longrightarrow> count (lat s) \<le> 0) \<and>
         waiting (lat s) = int (card (inside s)) + int (leaked s)"
  using latch_reachable_inv [OF assms] by (auto simp: latch_inv_def latch_wait_body_def)

text \<open>A waiter sleeps on a latch of one, another thread counts down.\<close>

definition latch_opened :: latch_sys where
  "latch_opened = \<lparr>lat = \<lparr>count = 0, waiting = 1\<rparr>, at = (\<lambda>_. Out)(1 := Awake), leaked = 0\<rparr>"

lemma latch_opened_reachable: "latch_reachable 1 latch_opened"
proof -
  let ?s = "\<lambda>c a. \<lparr>lat = \<lparr>count = c, waiting = 1\<rparr>, at = (\<lambda>_. Out)(1 := a), leaked = 0\<rparr>"
  have 1: "latch_reachable 1 (?s 1 In_wait)"
    using latch_more [OF latch_start enter_wait [of _ 1]] by (simp add: latch_new_def latch_enter_def)
  have 2: "latch_reachable 1 (?s 1 Asleep)"
    using latch_more [OF 1 wait_body [of _ 1]] by (simp add: latch_wait_body_def where_to_def)
  have "wakes True ((\<lambda>_. Out)(1 := Asleep)) = (\<lambda>_. Out)(1 := Awake)"
    by (auto simp: wakes_def wake_all_def fun_eq_iff)
  then show ?thesis
    using latch_more [OF 2 count_down [of _ 0 1]]
    by (simp add: latch_count_down_def latch_opened_def Let_def)
qed

theorem latch_releases_waiters_witness:
  "at latch_opened 1 = Awake \<and> latch_wait_body (lat latch_opened) = Returns () \<and>
   waiting (lat latch_opened) = int (card (inside latch_opened))"
  using latch_releases_waiters [OF latch_opened_reachable] by (simp add: latch_opened_def)

text \<open>\<open>count_down_and_wait\<close> on an open latch throws without undoing its increment of \<open>waiting_\<close>: a
  state is reached in which no thread is inside and yet the destructor spins, and it does so in every
  state reached after such an exception.\<close>

theorem latch_exception_blocks_destructor:
  "(\<exists>s. latch_reachable 0 s \<and> inside s = {} \<and> \<not> latch_destructible (lat s)) \<and>
   (latch_reachable n s \<and> leaked s > 0 \<longrightarrow> \<not> latch_destructible (lat s))"
proof
  let ?s1 = "\<lparr>lat = \<lparr>count = 0, waiting = 1\<rparr>, at = (\<lambda>_. Out)(1 := In_down_and_wait), leaked = 0\<rparr>"
  let ?s2 = "\<lparr>lat = \<lparr>count = 0, waiting = 1\<rparr>, at = (\<lambda>_. Out), leaked = 1\<rparr>"
  have 1: "latch_reachable 0 ?s1"
    using latch_more [OF latch_start enter_down [of _ 1]] by (simp add: latch_new_def latch_enter_def)
  have "(wakes False ((\<lambda>_. Out)(1 := In_down_and_wait)))(1 := Out) = (\<lambda>_. Out)"
    by (auto simp: wakes_def fun_eq_iff)
  then have "latch_reachable 0 ?s2"
    using latch_more [OF 1 down_body [where t = 1 and b = False]] by (simp add: latch_down_and_wait_body_def where_to_def)
  then show "\<exists>s. latch_reachable 0 s \<and> inside s = {} \<and> \<not> latch_destructible (lat s)"
    by (intro exI [of _ ?s2]) (simp add: inside_def latch_destructible_def)
  show "latch_reachable n s \<and> leaked s > 0 \<longrightarrow> \<not> latch_destructible (lat s)"
    using latch_reachable_inv [of n s] by (auto simp: latch_inv_def latch_destructible_def)
qed

theorem latch_exception_blocks_destructor_witness:
  "latch_reachable 1 latch_opened \<and> (\<exists>s. latch_reachable 0 s \<and> \<not> latch_destructible (lat s))"
  using latch_opened_reachable latch_exception_blocks_destructor [of 1 latch_opened] by auto

text \<open>\<open>countdown_latch\<close>: with a count of n, the first n calls of \<open>count_down\<close> return and the n-th is
  the only one that notifies; \<open>wait\<close> sleeps before it and returns after it, and later calls throw and
  change nothing.\<close>

theorem countdown_latch_counts:
  "cdl_wait_body (((\<lambda>l. snd (snd (cdl_count_down l))) ^^ k) (cdl_new n)) =
     (if unat n \<le> k then Returns () else Sleeps) \<and>
   (fst (snd (cdl_count_down (((\<lambda>l. snd (snd (cdl_count_down l))) ^^ k) (cdl_new n)))) \<longleftrightarrow> Suc k = unat n) \<and>
   (fst (cdl_count_down (((\<lambda>l. snd (snd (cdl_count_down l))) ^^ k) (cdl_new n))) =
      (if unat n \<le> k then Throws System_error else Returns ()))"
proof -
  let ?l = "((\<lambda>l. snd (snd (cdl_count_down l))) ^^ k) (cdl_new n)"
  have "unat ?l = unat n - k" using countdown.down_times [where l = "cdl_new n" and k = k] by (simp add: cdl_new_def)
  then have "?l = 0 \<longleftrightarrow> unat n \<le> k" by (simp add: unat_eq_0 [symmetric])
  then show ?thesis
    using countdown.waits_after [where l = "cdl_new n" and k = k] countdown.notify_once [where l = "cdl_new n" and k = k]
    by (simp add: cdl_new_def) (simp add: cdl_count_down_def)
qed

end
