(* ===== verification/Barrier.thy ===== *)
theory Barrier
  imports Gcl_Prelude
begin

text \<open>
  \<open>src/flex_barrier.cc\<close> and \<open>src/barrier.cc\<close>.

  Each critical section is a function on the members of the barrier; the step relations interleave any
  number of threads. \<open>wait(lock, pred)\<close> is a loop: a thread whose predicate is false goes to sleep on
  the condition variable, and a notified (or spuriously woken) thread tests the predicate again.
  \<open>completion_fn_\<close> is the user's function; \<open>r\<close> is the number it returns.
\<close>

datatype arrival = Arrive | Drop

datatype place = Outside | Idle_sleep arrival | Idle_awake arrival | Ready_sleep | Ready_awake | Decrement

definition wake_ready :: "bool \<Rightarrow> (nat \<Rightarrow> place) \<Rightarrow> nat \<Rightarrow> place" where
  "wake_ready b f t = (if b \<and> f t = Ready_sleep then Ready_awake else f t)"

definition wake_idle :: "bool \<Rightarrow> (nat \<Rightarrow> place) \<Rightarrow> nat \<Rightarrow> place" where
  "wake_idle b f t = (case f t of Idle_sleep k \<Rightarrow> if b then Idle_awake k else f t | _ \<Rightarrow> f t)"

lemma wake_simps [simp]:
  "wake_ready b f t = Outside \<longleftrightarrow> f t = Outside" "wake_ready b f t = Idle_sleep k \<longleftrightarrow> f t = Idle_sleep k"
  "wake_ready b f t = Ready_sleep \<longleftrightarrow> \<not> b \<and> f t = Ready_sleep"
  "wake_ready b f t = Ready_awake \<longleftrightarrow> f t = Ready_awake \<or> b \<and> f t = Ready_sleep"
  "wake_idle b f t = Outside \<longleftrightarrow> f t = Outside"
  "wake_idle b f t = Ready_sleep \<longleftrightarrow> f t = Ready_sleep" "wake_idle b f t = Ready_awake \<longleftrightarrow> f t = Ready_awake"
  "wake_idle b f t = Idle_sleep k \<longleftrightarrow> \<not> b \<and> f t = Idle_sleep k"
  by (auto simp: wake_ready_def wake_idle_def split: place.splits)

subsection \<open>The flexible barrier\<close>

record fbar =
  thread_count :: int
  new_thread_count :: int
  num_waiting :: int
  num_to_leave :: int

text \<open>\<open>new_thread_count_\<close> is not initialised by the constructor: \<open>junk\<close>.\<close>

definition flex_new :: "int \<Rightarrow> int \<Rightarrow> fbar outcome" where
  "flex_new junk num_threads =
     (if num_threads = 0 then Throws (Invalid_argument ''num_threads is 0'')
      else Returns \<lparr>thread_count = num_threads, new_thread_count = junk, num_waiting = 0, num_to_leave = 0\<rparr>)"

definition all_threads_exited :: "fbar \<Rightarrow> bool" where
  "all_threads_exited f \<longleftrightarrow> num_to_leave f = 0"

definition all_threads_waiting :: "fbar \<Rightarrow> bool" where
  "all_threads_waiting f \<longleftrightarrow> num_waiting f = thread_count f"

definition flex_reset :: "int \<Rightarrow> fbar \<Rightarrow> unit outcome \<times> fbar" where
  "flex_reset num_threads f =
     (if num_threads = 0 then (Throws (Invalid_argument ''num_threads is 0''), f)
      else if num_threads > 0 then (Returns (), f\<lparr>new_thread_count := num_threads\<rparr>)
      else (Returns (), f\<lparr>new_thread_count := thread_count f\<rparr>))"

text \<open>\<open>r\<close> is what the completion function of the user does: it throws an exception or returns a number.\<close>

definition flex_on_countdown :: "cpp_exn + int \<Rightarrow> fbar \<Rightarrow> unit outcome \<times> fbar" where
  "flex_on_countdown r f = (case r of Inl e \<Rightarrow> (Throws e, f) | Inr num_threads \<Rightarrow> flex_reset num_threads f)"

definition completes :: "cpp_exn + int \<Rightarrow> bool" where
  "completes r \<longleftrightarrow> (\<exists>num_threads. r = Inr num_threads \<and> num_threads \<noteq> 0)"

text \<open>From the first test of the predicate of \<open>idle_\<close> on: the boolean is \<open>ready_.notify_all\<close>.\<close>

definition flex_arrive :: "cpp_exn + int \<Rightarrow> fbar \<Rightarrow> unit outcome \<times> bool \<times> fbar" where
  "flex_arrive r f =
     (let f1 = f\<lparr>num_waiting := num_waiting f + 1\<rparr>
      in if num_waiting f1 = thread_count f1
         then (case flex_on_countdown r (f1\<lparr>num_to_leave := thread_count f1\<rparr>) of
                 (Returns _, f2) \<Rightarrow> (Returns (), True, f2)
               | (e, f2) \<Rightarrow> (e, False, f2))
         else if all_threads_waiting f1 then (Returns (), False, f1) else (Sleeps, False, f1))"

text \<open>The rest of \<open>arrive_and_wait\<close>: the boolean is \<open>idle_.notify_all\<close>.\<close>

definition flex_leave :: "fbar \<Rightarrow> bool \<times> fbar" where
  "flex_leave f =
     (let f1 = (if num_to_leave f = 1 then f\<lparr>thread_count := new_thread_count f, num_waiting := 0\<rparr> else f)
      in (num_to_leave f = 1, f1\<lparr>num_to_leave := num_to_leave f1 - 1\<rparr>))"

definition flex_drop :: "cpp_exn + int \<Rightarrow> fbar \<Rightarrow> unit outcome \<times> bool \<times> fbar" where
  "flex_drop r f =
     (if thread_count f = 0 then (Throws (Invalid_argument ''All threads have left''), False, f)
      else let f1 = f\<lparr>thread_count := thread_count f - 1\<rparr>
           in if num_waiting f1 = thread_count f1
              then (case flex_on_countdown r (f1\<lparr>num_to_leave := thread_count f1\<rparr>) of
                      (Returns _, f2) \<Rightarrow> (Returns (), True, f2)
                    | (e, f2) \<Rightarrow> (e, False, f2))
              else (Returns (), False, f1))"

text \<open>
  \<open>completed\<close> counts the phases whose count was reached; \<open>joined\<close> is its value when a thread arrived.
\<close>

record flex_sys =
  bar :: fbar
  place_of :: "nat \<Rightarrow> place"
  completed :: nat
  joined :: "nat \<Rightarrow> nat"

definition may_enter :: "flex_sys \<Rightarrow> nat \<Rightarrow> arrival \<Rightarrow> bool" where
  "may_enter s t k \<longleftrightarrow> place_of s t = Outside \<or> place_of s t = Idle_awake k"

definition leave_from :: "nat \<Rightarrow> bool \<Rightarrow> fbar \<Rightarrow> flex_sys \<Rightarrow> flex_sys" where
  "leave_from t ready f s =
     s\<lparr>bar := snd (flex_leave f),
       place_of := (wake_idle (fst (flex_leave f)) (wake_ready ready (place_of s)))(t := Outside)\<rparr>"

inductive flex_step :: "bool \<Rightarrow> flex_sys \<Rightarrow> flex_sys \<Rightarrow> bool" for exn where
  not_idle: "may_enter s t k \<Longrightarrow> \<not> all_threads_exited (bar s) \<Longrightarrow>
     flex_step exn s (s\<lparr>place_of := (place_of s)(t := Idle_sleep k)\<rparr>)"
| arrive_sleeps: "may_enter s t Arrive \<Longrightarrow> all_threads_exited (bar s) \<Longrightarrow>
     flex_arrive r (bar s) = (Sleeps, ready, f) \<Longrightarrow>
     flex_step exn s (s\<lparr>bar := f, place_of := (place_of s)(t := Ready_sleep),
                        joined := (joined s)(t := completed s)\<rparr>)"
| arrive_last: "may_enter s t Arrive \<Longrightarrow> all_threads_exited (bar s) \<Longrightarrow>
     flex_arrive r (bar s) = (Returns (), ready, f) \<Longrightarrow>
     flex_step exn s (leave_from t ready f (s\<lparr>completed := completed s + 1\<rparr>))"
| arrive_throws: "exn \<Longrightarrow> may_enter s t Arrive \<Longrightarrow> all_threads_exited (bar s) \<Longrightarrow>
     flex_arrive r (bar s) = (Throws e, ready, f) \<Longrightarrow>
     flex_step exn s (s\<lparr>bar := f, place_of := (place_of s)(t := Outside)\<rparr>)"
| ready_again: "place_of s t = Ready_awake \<Longrightarrow> \<not> all_threads_waiting (bar s) \<Longrightarrow>
     flex_step exn s (s\<lparr>place_of := (place_of s)(t := Ready_sleep)\<rparr>)"
| ready_leave: "place_of s t = Ready_awake \<Longrightarrow> all_threads_waiting (bar s) \<Longrightarrow>
     flex_step exn s (leave_from t False (bar s) s)"
| drop: "may_enter s t Drop \<Longrightarrow> all_threads_exited (bar s) \<Longrightarrow>
     flex_drop r (bar s) = (out, ready, f) \<Longrightarrow> completes r \<or> exn \<Longrightarrow>
     flex_step exn s (s\<lparr>bar := f, place_of := (wake_ready ready (place_of s))(t := Outside),
                        completed := completed s + (if ready then 1 else 0)\<rparr>)"
| wake_from_idle: "place_of s t = Idle_sleep k \<Longrightarrow>
     flex_step exn s (s\<lparr>place_of := (place_of s)(t := Idle_awake k)\<rparr>)"
| wake_from_ready: "place_of s t = Ready_sleep \<Longrightarrow>
     flex_step exn s (s\<lparr>place_of := (place_of s)(t := Ready_awake)\<rparr>)"

inductive flex_reachable :: "bool \<Rightarrow> fbar \<Rightarrow> flex_sys \<Rightarrow> bool" for exn f where
  flex_start: "flex_reachable exn f \<lparr>bar = f, place_of = (\<lambda>_. Outside), completed = 0, joined = (\<lambda>_. 0)\<rparr>"
| flex_more: "flex_reachable exn f s \<Longrightarrow> flex_step exn s s' \<Longrightarrow> flex_reachable exn f s'"

definition at_ready :: "flex_sys \<Rightarrow> nat set" where
  "at_ready s = {t. place_of s t = Ready_sleep \<or> place_of s t = Ready_awake}"

definition flex_inv :: "flex_sys \<Rightarrow> bool" where
  "flex_inv s \<longleftrightarrow>
     finite (at_ready s) \<and> 0 \<le> num_to_leave (bar s) \<and> 0 \<le> num_waiting (bar s) \<and>
     (num_to_leave (bar s) = 0 \<longrightarrow>
        int (card (at_ready s)) = num_waiting (bar s) \<and>
        (num_waiting (bar s) < thread_count (bar s) \<or> thread_count (bar s) = 0) \<and>
        (\<forall>t k. place_of s t \<noteq> Idle_sleep k) \<and> (\<forall>t \<in> at_ready s. joined s t = completed s)) \<and>
     (0 < num_to_leave (bar s) \<longrightarrow>
        num_waiting (bar s) = thread_count (bar s) \<and> int (card (at_ready s)) = num_to_leave (bar s) \<and>
        0 < new_thread_count (bar s) \<and>
        (\<forall>t. place_of s t \<noteq> Ready_sleep) \<and> (\<forall>t \<in> at_ready s. Suc (joined s t) = completed s))"

lemma card_remove_int': "finite A \<Longrightarrow> t \<in> A \<Longrightarrow> int (card (A - {t})) = int (card A) - 1"
  using card_Suc_Diff1 [of A t] by linarith

lemma at_ready_leave [simp]: "at_ready (leave_from t b f s) = at_ready s - {t}"
  by (auto simp: at_ready_def leave_from_def)

lemma leave_from_fields [simp]:
  "bar (leave_from t b f s) = snd (flex_leave f)" "completed (leave_from t b f s) = completed s"
  "joined (leave_from t b f s) = joined s"
  "place_of (leave_from t b f s) u = Ready_sleep \<longleftrightarrow> u \<noteq> t \<and> \<not> b \<and> place_of s u = Ready_sleep"
  "place_of (leave_from t b f s) u = Idle_sleep k \<longleftrightarrow>
     u \<noteq> t \<and> \<not> fst (flex_leave f) \<and> place_of s u = Idle_sleep k"
  by (auto simp: leave_from_def)

lemma may_enter_not_ready: "may_enter s t k \<Longrightarrow> t \<notin> at_ready s"
  by (auto simp: may_enter_def at_ready_def)

lemma flex_arrive_last:
  assumes "flex_arrive r f = (Returns (), ready, f')"
  shows "num_waiting f + 1 = thread_count f \<and> ready \<and> num_waiting f' = thread_count f \<and>
         thread_count f' = thread_count f \<and> num_to_leave f' = thread_count f \<and>
         (0 < thread_count f \<longrightarrow> 0 < new_thread_count f')"
  using assms
  by (auto simp: flex_arrive_def flex_on_countdown_def flex_reset_def all_threads_waiting_def Let_def
      split: if_splits prod.splits outcome.splits sum.splits)

lemma flex_arrive_sleeps:
  assumes "flex_arrive r f = (Sleeps, ready, f')"
  shows "num_waiting f + 1 \<noteq> thread_count f \<and> f' = f\<lparr>num_waiting := num_waiting f + 1\<rparr>"
  using assms
  by (auto simp: flex_arrive_def flex_on_countdown_def flex_reset_def all_threads_waiting_def Let_def
      split: if_splits prod.splits outcome.splits sum.splits)

lemma flex_drop_cases:
  assumes "flex_drop r f = (out, ready, f')" and "completes r"
  shows "(thread_count f = 0 \<and> f' = f \<and> \<not> ready) \<or>
         (thread_count f \<noteq> 0 \<and> num_waiting f' = num_waiting f \<and> thread_count f' = thread_count f - 1 \<and>
          (ready \<longleftrightarrow> num_waiting f = thread_count f - 1) \<and>
          num_to_leave f' = (if ready then thread_count f - 1 else num_to_leave f) \<and>
          (ready \<and> 1 < thread_count f \<longrightarrow> 0 < new_thread_count f'))"
  using assms
  by (auto simp: flex_drop_def flex_on_countdown_def flex_reset_def completes_def Let_def split: if_splits)

lemma flex_leave_eq:
  "num_to_leave f = 1 \<Longrightarrow>
     fst (flex_leave f) \<and> thread_count (snd (flex_leave f)) = new_thread_count f \<and>
     num_waiting (snd (flex_leave f)) = 0 \<and> num_to_leave (snd (flex_leave f)) = 0"
  "num_to_leave f \<noteq> 1 \<Longrightarrow>
     \<not> fst (flex_leave f) \<and> snd (flex_leave f) = f\<lparr>num_to_leave := num_to_leave f - 1\<rparr>"
  by (auto simp: flex_leave_def)

lemma flex_inv_leave:
  assumes "finite R" "R = at_ready s - {t}" "int (card R) = num_to_leave f - 1" "0 < num_to_leave f"
    and "num_waiting f = thread_count f" "0 < new_thread_count f" "0 \<le> num_waiting f"
    and "\<And>u. u \<noteq> t \<Longrightarrow> place_of s u = Ready_sleep \<Longrightarrow> ready"
    and "\<And>u. u \<in> R \<Longrightarrow> Suc (joined s u) = completed s"
  shows "flex_inv (leave_from t ready f s)"
proof (cases "num_to_leave f = 1")
  case True
  then have R: "R = {}" using assms(1,3) by simp
  have e: "at_ready (leave_from t ready f s) = {}" using R assms(2) by (simp del: Diff_eq_empty_iff)
  show ?thesis
    unfolding flex_inv_def e using flex_leave_eq(1) [OF True] assms(6) by auto
next
  case False
  then show ?thesis
    using flex_leave_eq(2) [OF False] assms by (auto simp: flex_inv_def)
qed

lemma flex_step_inv:
  assumes "flex_step False s s'" and "flex_inv s"
  shows "flex_inv s'"
  using assms
proof (induction rule: flex_step.induct)
  case (not_idle s t k)
  have "at_ready (s\<lparr>place_of := (place_of s)(t := Idle_sleep k)\<rparr>) = at_ready s"
    using may_enter_not_ready [OF not_idle(1)] by (auto simp: at_ready_def)
  with not_idle show ?case by (auto simp: flex_inv_def all_threads_exited_def)
next
  case (arrive_sleeps s t r ready f)
  note f = flex_arrive_sleeps [OF arrive_sleeps(3)]
  have r: "at_ready (s\<lparr>bar := f, place_of := (place_of s)(t := Ready_sleep),
      joined := (joined s)(t := completed s)\<rparr>) = insert t (at_ready s)"
    by (auto simp: at_ready_def)
  have "num_to_leave (bar s) = 0" using arrive_sleeps(2) by (simp add: all_threads_exited_def)
  then show ?case
    using arrive_sleeps(4) f may_enter_not_ready [OF arrive_sleeps(1)] unfolding flex_inv_def r
    by auto
next
  case (arrive_last s t r ready f)
  have z: "num_to_leave (bar s) = 0" using arrive_last(2) by (simp add: all_threads_exited_def)
  note f = flex_arrive_last [OF arrive_last(3)]
  show ?case
    by (rule flex_inv_leave [where R = "at_ready s"])
      (use arrive_last(4) f z may_enter_not_ready [OF arrive_last(1)] in
        \<open>auto simp: flex_inv_def at_ready_def\<close>)
next
  case (ready_leave s t)
  have t: "t \<in> at_ready s" using ready_leave(1) by (simp add: at_ready_def)
  have inv: "flex_inv s" by (rule ready_leave(3))
  have fin: "finite (at_ready s)" using inv by (simp add: flex_inv_def)
  then have c: "int (card (at_ready s - {t})) = int (card (at_ready s)) - 1" "0 < card (at_ready s)"
    using t card_remove_int' [OF fin t] card_gt_0_iff by auto
  have pos: "0 < num_to_leave (bar s)"
  proof (rule ccontr)
    assume "\<not> 0 < num_to_leave (bar s)"
    then have "num_to_leave (bar s) = 0" using inv by (simp add: flex_inv_def)
    then show False using inv ready_leave(2) c by (auto simp: flex_inv_def all_threads_waiting_def)
  qed
  show ?case
    by (rule flex_inv_leave [where R = "at_ready s - {t}"])
      (use inv pos c fin in \<open>auto simp: flex_inv_def\<close>)
next
  case (drop s t r out ready f)
  have z: "num_to_leave (bar s) = 0" using drop(2) by (simp add: all_threads_exited_def)
  have t: "t \<notin> at_ready s" by (rule may_enter_not_ready [OF drop(1)])
  have r: "at_ready (s\<lparr>bar := f, place_of := (wake_ready ready (place_of s))(t := Outside),
      completed := completed s + (if ready then 1 else 0)\<rparr>) = at_ready s"
    using t by (auto simp: at_ready_def)
  have "completes r" using drop(4) by simp
  with flex_drop_cases [OF drop(3)] drop(5) z show ?case
    unfolding flex_inv_def r by (auto split: if_splits)
next
  case (ready_again s t)
  have "at_ready (s\<lparr>place_of := (place_of s)(t := Ready_sleep)\<rparr>) = at_ready s"
    using ready_again(1) by (auto simp: at_ready_def)
  with ready_again show ?case by (auto simp: flex_inv_def all_threads_waiting_def)
next
  case (wake_from_idle s t k)
  have "at_ready (s\<lparr>place_of := (place_of s)(t := Idle_awake k)\<rparr>) = at_ready s"
    using wake_from_idle(1) by (auto simp: at_ready_def)
  with wake_from_idle show ?case by (auto simp: flex_inv_def)
next
  case (wake_from_ready s t)
  have "at_ready (s\<lparr>place_of := (place_of s)(t := Ready_awake)\<rparr>) = at_ready s"
    using wake_from_ready(1) by (auto simp: at_ready_def)
  with wake_from_ready show ?case by (auto simp: flex_inv_def)
qed auto

lemma flex_reachable_inv:
  assumes "flex_reachable False f s" and "flex_new junk n = Returns f" and "0 < n"
  shows "flex_inv s"
  using assms(1)
proof (induction rule: flex_reachable.induct)
  case flex_start
  then show ?case
    using assms(2,3) by (auto simp: flex_inv_def at_ready_def flex_new_def split: if_splits)
next
  case (flex_more s s')
  then show ?case by (blast intro: flex_step_inv)
qed

subsection \<open>The plain barrier\<close>

text \<open>
  \<open>barrier\<close> tests \<open>num_to_leave_\<close> under the mutex but decrements it after releasing the mutex: a thread
  in between is at \<open>Decrement\<close>.
\<close>

record pbar =
  pb_thread_count :: int
  pb_num_waiting :: int
  pb_num_to_leave :: int

definition barrier_new :: "int \<Rightarrow> pbar outcome" where
  "barrier_new num_threads =
     (if num_threads < 0 then Throws (Invalid_argument ''num_threads is negative'')
      else Returns \<lparr>pb_thread_count = num_threads, pb_num_waiting = 0, pb_num_to_leave = 0\<rparr>)"

text \<open>The destructor spins while this is false.\<close>

definition barrier_exited :: "pbar \<Rightarrow> bool" where
  "barrier_exited b \<longleftrightarrow> pb_num_to_leave b = 0"

definition barrier_waiting :: "pbar \<Rightarrow> bool" where
  "barrier_waiting b \<longleftrightarrow> pb_num_waiting b = pb_thread_count b"

definition barrier_arrive :: "pbar \<Rightarrow> unit outcome \<times> bool \<times> pbar" where
  "barrier_arrive b =
     (let b1 = b\<lparr>pb_num_waiting := pb_num_waiting b + 1\<rparr>
      in if pb_num_waiting b1 = pb_thread_count b1
         then (Returns (), True, b1\<lparr>pb_num_to_leave := pb_thread_count b1\<rparr>)
         else if barrier_waiting b1 then (Returns (), False, b1) else (Sleeps, False, b1))"

text \<open>The test after the rendezvous, still under the mutex, and the decrement after it.\<close>

definition barrier_last_out :: "pbar \<Rightarrow> bool \<times> pbar" where
  "barrier_last_out b =
     (if pb_num_to_leave b = 1 then (True, b\<lparr>pb_num_waiting := 0\<rparr>) else (False, b))"

definition barrier_decrement :: "pbar \<Rightarrow> pbar" where
  "barrier_decrement b = b\<lparr>pb_num_to_leave := pb_num_to_leave b - 1\<rparr>"

definition barrier_drop :: "pbar \<Rightarrow> unit outcome \<times> bool \<times> pbar" where
  "barrier_drop b =
     (let b1 = b\<lparr>pb_thread_count := pb_thread_count b - 1\<rparr>
      in if pb_thread_count b1 = 0 then (Throws (Invalid_argument ''All threads have left''), False, b1)
         else if pb_num_waiting b1 = pb_thread_count b1
         then (Returns (), True, b1\<lparr>pb_num_to_leave := pb_thread_count b1\<rparr>)
         else (Returns (), False, b1))"

record pbar_sys =
  pbar_of :: pbar
  pplace :: "nat \<Rightarrow> place"

definition pb_may_enter :: "pbar_sys \<Rightarrow> nat \<Rightarrow> arrival \<Rightarrow> bool" where
  "pb_may_enter s t k \<longleftrightarrow> pplace s t = Outside \<or> pplace s t = Idle_awake k"

definition pb_pass :: "nat \<Rightarrow> bool \<Rightarrow> pbar \<Rightarrow> pbar_sys \<Rightarrow> pbar_sys" where
  "pb_pass t ready b s =
     s\<lparr>pbar_of := snd (barrier_last_out b),
       pplace := (wake_idle (fst (barrier_last_out b)) (wake_ready ready (pplace s)))(t := Decrement)\<rparr>"

inductive barrier_step :: "pbar_sys \<Rightarrow> pbar_sys \<Rightarrow> bool" where
  pb_not_idle: "pb_may_enter s t k \<Longrightarrow> \<not> barrier_exited (pbar_of s) \<Longrightarrow>
     barrier_step s (s\<lparr>pplace := (pplace s)(t := Idle_sleep k)\<rparr>)"
| pb_arrive_sleeps: "pb_may_enter s t Arrive \<Longrightarrow> barrier_exited (pbar_of s) \<Longrightarrow>
     barrier_arrive (pbar_of s) = (Sleeps, ready, b) \<Longrightarrow>
     barrier_step s (s\<lparr>pbar_of := b, pplace := (pplace s)(t := Ready_sleep)\<rparr>)"
| pb_arrive_last: "pb_may_enter s t Arrive \<Longrightarrow> barrier_exited (pbar_of s) \<Longrightarrow>
     barrier_arrive (pbar_of s) = (Returns (), ready, b) \<Longrightarrow> barrier_step s (pb_pass t ready b s)"
| pb_ready_again: "pplace s t = Ready_awake \<Longrightarrow> \<not> barrier_waiting (pbar_of s) \<Longrightarrow>
     barrier_step s (s\<lparr>pplace := (pplace s)(t := Ready_sleep)\<rparr>)"
| pb_ready_pass: "pplace s t = Ready_awake \<Longrightarrow> barrier_waiting (pbar_of s) \<Longrightarrow>
     barrier_step s (pb_pass t False (pbar_of s) s)"
| pb_decrement: "pplace s t = Decrement \<Longrightarrow>
     barrier_step s (s\<lparr>pbar_of := barrier_decrement (pbar_of s), pplace := (pplace s)(t := Outside)\<rparr>)"
| pb_drop: "pb_may_enter s t Drop \<Longrightarrow> barrier_exited (pbar_of s) \<Longrightarrow>
     barrier_drop (pbar_of s) = (out, ready, b) \<Longrightarrow>
     barrier_step s (s\<lparr>pbar_of := b, pplace := (wake_ready ready (pplace s))(t := Outside)\<rparr>)"
| pb_wake_idle: "pplace s t = Idle_sleep k \<Longrightarrow>
     barrier_step s (s\<lparr>pplace := (pplace s)(t := Idle_awake k)\<rparr>)"
| pb_wake_ready: "pplace s t = Ready_sleep \<Longrightarrow>
     barrier_step s (s\<lparr>pplace := (pplace s)(t := Ready_awake)\<rparr>)"

inductive barrier_reachable :: "pbar \<Rightarrow> pbar_sys \<Rightarrow> bool" for b where
  pb_start: "barrier_reachable b \<lparr>pbar_of = b, pplace = (\<lambda>_. Outside)\<rparr>"
| pb_more: "barrier_reachable b s \<Longrightarrow> barrier_step s s' \<Longrightarrow> barrier_reachable b s'"

subsection \<open>Properties\<close>

text \<open>C19. Rendezvous and no deadlock of the flexible barrier. For a barrier built for n > 0 threads
  whose completion function neither throws nor returns 0 (\<open>flex_barrier_throw_blocks\<close> shows what happens
  when it does), in every state any number of threads reach: a thread
  can pass only after the phase it joined is complete; while threads are leaving, exactly
  \<open>num_to_leave_\<close> threads are at the rendezvous and none of them sleeps; otherwise none sleeps at the
  entrance, and threads at the rendezvous wait only because fewer than \<open>thread_count_\<close> have arrived,
  or because everybody has dropped out.\<close>

theorem flex_barrier_rendezvous:
  assumes "flex_new junk n = Returns f" and "0 < n" and "flex_reachable False f s"
  shows "(\<forall>t. t \<in> at_ready s \<and> all_threads_waiting (bar s) \<longrightarrow> joined s t < completed s) \<and>
         (if num_to_leave (bar s) > 0
          then int (card (at_ready s)) = num_to_leave (bar s) \<and> (\<forall>t. place_of s t \<noteq> Ready_sleep)
          else (\<forall>t k. place_of s t \<noteq> Idle_sleep k) \<and>
               int (card (at_ready s)) = num_waiting (bar s) \<and>
               (num_waiting (bar s) < thread_count (bar s) \<or> thread_count (bar s) = 0))"
proof -
  have inv: "flex_inv s" by (rule flex_reachable_inv [OF assms(3,1,2)])
  have "joined s t < completed s" if t: "t \<in> at_ready s" and w: "all_threads_waiting (bar s)" for t
  proof -
    have "0 < card (at_ready s)" using inv t by (auto simp: flex_inv_def card_gt_0_iff)
    with inv w have "num_to_leave (bar s) \<noteq> 0" by (auto simp: flex_inv_def all_threads_waiting_def)
    with inv t have "Suc (joined s t) = completed s" by (auto simp: flex_inv_def)
    then show ?thesis by simp
  qed
  with inv show ?thesis by (auto simp: flex_inv_def)
qed

text \<open>What a throwing completion function leaves behind.\<close>

lemma flex_arrive_throws:
  assumes "flex_arrive r f = (Throws e, ready, f')"
  shows "\<not> ready \<and> num_to_leave f' = thread_count f \<and> num_waiting f + 1 = thread_count f"
  using assms
  by (auto simp: flex_arrive_def flex_on_countdown_def flex_reset_def Let_def
      split: if_splits prod.splits outcome.splits sum.splits)

definition short_of_leavers :: "flex_sys \<Rightarrow> bool" where
  "short_of_leavers s \<longleftrightarrow> finite (at_ready s) \<and> int (card (at_ready s)) < num_to_leave (bar s)"

lemma at_ready_moves:
  "t \<notin> at_ready s \<Longrightarrow> at_ready (s\<lparr>bar := f, place_of := (place_of s)(t := Outside)\<rparr>) = at_ready s"
  by (auto simp: at_ready_def)

lemma short_of_leavers_step:
  assumes "flex_step exn s s'" and "short_of_leavers s"
  shows "short_of_leavers s'"
  using assms
proof (induction rule: flex_step.induct)
  case (not_idle s t k)
  have "at_ready (s\<lparr>place_of := (place_of s)(t := Idle_sleep k)\<rparr>) = at_ready s"
    using may_enter_not_ready [OF not_idle(1)] by (auto simp: at_ready_def)
  with not_idle show ?case by (simp add: short_of_leavers_def)
next
  case (ready_again s t)
  have "at_ready (s\<lparr>place_of := (place_of s)(t := Ready_sleep)\<rparr>) = at_ready s"
    using ready_again(1) by (auto simp: at_ready_def)
  with ready_again show ?case by (simp add: short_of_leavers_def)
next
  case (ready_leave s t)
  have t: "t \<in> at_ready s" using ready_leave(1) by (simp add: at_ready_def)
  have fin: "finite (at_ready s)" using ready_leave(3) by (simp add: short_of_leavers_def)
  have c: "int (card (at_ready s - {t})) = int (card (at_ready s)) - 1" "0 < card (at_ready s)"
    using t fin card_remove_int' [OF fin t] card_gt_0_iff by auto
  then have "num_to_leave (bar s) \<noteq> 1" using ready_leave(3) by (auto simp: short_of_leavers_def)
  from flex_leave_eq(2) [OF this]
  have "num_to_leave (bar (leave_from t False (bar s) s)) = num_to_leave (bar s) - 1" by simp
  with ready_leave(3) c fin show ?case by (simp add: short_of_leavers_def)
next
  case (wake_from_idle s t k)
  have "at_ready (s\<lparr>place_of := (place_of s)(t := Idle_awake k)\<rparr>) = at_ready s"
    using wake_from_idle(1) by (auto simp: at_ready_def)
  with wake_from_idle show ?case by (simp add: short_of_leavers_def)
next
  case (wake_from_ready s t)
  have "at_ready (s\<lparr>place_of := (place_of s)(t := Ready_awake)\<rparr>) = at_ready s"
    using wake_from_ready(1) by (auto simp: at_ready_def)
  with wake_from_ready show ?case by (simp add: short_of_leavers_def)
qed (simp_all add: short_of_leavers_def all_threads_exited_def)

text \<open>When the completion function of a flexible barrier throws or returns 0 as the last thread
  arrives, the barrier never opens again: \<open>num_to_leave_\<close> has been set, one thread too few is there to leave,
  and in every later state whoever arrives goes to sleep at the entrance, whatever the threads do.\<close>

theorem flex_barrier_throw_blocks:
  assumes "flex_new junk n = Returns f" and "0 < n" and "flex_reachable False f s"
    and "may_enter s t Arrive" and "all_threads_exited (bar s)" and "flex_arrive r (bar s) = (Throws e, ready, g)"
    and "(flex_step True)\<^sup>*\<^sup>* (s\<lparr>bar := g, place_of := (place_of s)(t := Outside)\<rparr>) s'"
  shows "num_to_leave (bar s') > 0 \<and> \<not> all_threads_exited (bar s')"
proof -
  have inv: "flex_inv s" by (rule flex_reachable_inv [OF assms(3,1,2)])
  note th = flex_arrive_throws [OF assms(6)]
  have "num_to_leave (bar s) = 0" using assms(5) by (simp add: all_threads_exited_def)
  then have "finite (at_ready s)" "int (card (at_ready s)) = num_waiting (bar s)" using inv by (simp_all add: flex_inv_def)
  then have "short_of_leavers (s\<lparr>bar := g, place_of := (place_of s)(t := Outside)\<rparr>)"
    using th at_ready_moves [OF may_enter_not_ready [OF assms(4)]] by (simp add: short_of_leavers_def)
  with assms(7) have "short_of_leavers s'"
    by (induction rule: rtranclp_induct) (auto intro: short_of_leavers_step)
  then show ?thesis by (auto simp: short_of_leavers_def all_threads_exited_def)
qed

text \<open>Two threads, one of them already waiting.\<close>

definition flex_two :: fbar where
  "flex_two = \<lparr>thread_count = 2, new_thread_count = 0, num_waiting = 0, num_to_leave = 0\<rparr>"

definition flex_half :: flex_sys where
  "flex_half = \<lparr>bar = flex_two\<lparr>num_waiting := 1\<rparr>, place_of = (\<lambda>_. Outside)(1 := Ready_sleep),
     completed = 0, joined = (\<lambda>_. 0)\<rparr>"

lemma flex_half_reachable: "flex_reachable False flex_two flex_half"
  using flex_more [OF flex_start arrive_sleeps [of _ 1 "Inr 5" False]]
  by (simp add: flex_half_def flex_two_def may_enter_def all_threads_exited_def flex_arrive_def
      all_threads_waiting_def Let_def fun_upd_idem)

theorem flex_barrier_rendezvous_witness:
  "int (card (at_ready flex_half)) = 1 \<and> num_waiting (bar flex_half) < thread_count (bar flex_half)"
  using flex_barrier_rendezvous [OF _ _ flex_half_reachable, of 0 2]
  by (auto simp: flex_new_def flex_two_def flex_half_def)

theorem flex_barrier_throw_blocks_witness:
  "\<exists>g. flex_arrive (Inl User_exn) (bar flex_half) = (Throws User_exn, False, g) \<and>
     \<not> all_threads_exited (bar (flex_half\<lparr>bar := g, place_of := (place_of flex_half)(2 := Outside)\<rparr>))"
proof -
  have f: "flex_new 0 2 = Returns flex_two" by (simp add: flex_new_def flex_two_def)
  have e: "may_enter flex_half 2 Arrive" "all_threads_exited (bar flex_half)"
    by (simp_all add: may_enter_def flex_half_def flex_two_def all_threads_exited_def)
  have a: "flex_arrive (Inl User_exn) (bar flex_half) = (Throws User_exn, False, flex_two\<lparr>num_waiting := 2, num_to_leave := 2\<rparr>)"
    by (simp add: flex_arrive_def flex_half_def flex_two_def flex_on_countdown_def)
  from flex_barrier_throw_blocks [OF f _ flex_half_reachable e a rtranclp.rtrancl_refl] a show ?thesis by simp
qed

text \<open>A completed phase drains: while threads are still to leave, one of them is awake and its next
  step lets it out and decreases \<open>num_to_leave_\<close>; the last one opens the entrance for the next phase
  with the thread count the completion function chose.\<close>

theorem flex_barrier_drains:
  assumes "flex_new junk n = Returns f" and "0 < n" and "flex_reachable False f s"
    and "num_to_leave (bar s) > 0"
  shows "\<exists>t s'. place_of s t = Ready_awake \<and> flex_step False s s' \<and> place_of s' t = Outside \<and>
           num_to_leave (bar s') = num_to_leave (bar s) - 1 \<and>
           (num_to_leave (bar s) = 1 \<longrightarrow>
              num_waiting (bar s') = 0 \<and> thread_count (bar s') = new_thread_count (bar s))"
proof -
  have inv: "flex_inv s" by (rule flex_reachable_inv [OF assms(3,1,2)])
  with assms(4) have "at_ready s \<noteq> {}" by (auto simp: flex_inv_def)
  then obtain t where t: "place_of s t = Ready_awake"
    using inv assms(4) by (auto simp: flex_inv_def at_ready_def)
  have "all_threads_waiting (bar s)"
    using inv assms(4) by (simp add: flex_inv_def all_threads_waiting_def)
  with t have "flex_step False s (leave_from t False (bar s) s)" by (rule ready_leave)
  then show ?thesis
    using t flex_leave_eq [of "bar s"]
    by (intro exI [of _ t] exI [of _ "leave_from t False (bar s) s"])
      (auto simp: leave_from_def flex_leave_def Let_def)
qed

text \<open>The second thread has arrived and left.\<close>

definition flex_leaving :: flex_sys where
  "flex_leaving = \<lparr>bar = \<lparr>thread_count = 2, new_thread_count = 5, num_waiting = 2, num_to_leave = 1\<rparr>,
     place_of = (\<lambda>_. Outside)(1 := Ready_awake), completed = 1, joined = (\<lambda>_. 0)\<rparr>"

lemma flex_leaving_reachable: "flex_reachable False flex_two flex_leaving"
proof -
  have "flex_arrive (Inr 5) (bar flex_half) = (Returns (), True,
      \<lparr>thread_count = 2, new_thread_count = 5, num_waiting = 2, num_to_leave = 2\<rparr>)"
    by (simp add: flex_arrive_def flex_half_def flex_two_def flex_on_countdown_def flex_reset_def)
  moreover have "(wake_idle False (wake_ready True ((\<lambda>_. Outside)(1 := Ready_sleep))))(2 := Outside) =
      (\<lambda>_. Outside)(1 := Ready_awake)"
    by (auto simp: wake_idle_def wake_ready_def fun_eq_iff)
  ultimately show ?thesis
    using flex_more [OF flex_half_reachable arrive_last [of flex_half 2 "Inr 5" True]]
    by (simp add: flex_leaving_def flex_half_def flex_two_def may_enter_def all_threads_exited_def
        leave_from_def flex_leave_def)
qed

theorem flex_barrier_drains_witness:
  "\<exists>s'. flex_step False flex_leaving s' \<and> num_to_leave (bar s') = 0 \<and> thread_count (bar s') = 5"
  using flex_barrier_drains [OF _ _ flex_leaving_reachable, of 0 2]
  by (auto simp: flex_new_def flex_two_def flex_leaving_def)

text \<open>The plain barrier can deadlock: with two threads, both may test \<open>num_to_leave_\<close> while it is 2,
  nobody resets \<open>num_waiting_\<close>, and after the next round of arrivals both threads sleep at the
  rendezvous with \<open>num_waiting_\<close> at 4, a value it never leaves again for 2.\<close>

theorem barrier_deadlock:
  assumes "barrier_new 2 = Returns b"
  shows "\<exists>s. barrier_reachable b s \<and> pplace s 0 = Ready_sleep \<and> pplace s 1 = Ready_sleep \<and>
           barrier_exited (pbar_of s) \<and> pb_num_waiting (pbar_of s) = 4 \<and> pb_thread_count (pbar_of s) = 2"
proof -
  have b: "b = \<lparr>pb_thread_count = 2, pb_num_waiting = 0, pb_num_to_leave = 0\<rparr>"
    using assms by (simp add: barrier_new_def)
  let ?s = "\<lambda>w l p0 p1. \<lparr>pbar_of = \<lparr>pb_thread_count = 2, pb_num_waiting = w, pb_num_to_leave = l\<rparr>,
    pplace = (\<lambda>_. Outside)(0 := p0, 1 := p1)\<rparr>"
  note defs = pb_may_enter_def barrier_exited_def barrier_arrive_def barrier_waiting_def Let_def
    pb_pass_def barrier_last_out_def barrier_decrement_def fun_upd_twist [of "0::nat" "Suc 0"]
  have out: "(\<lambda>_. Outside)(0 := Outside, 1 := Outside) = (\<lambda>_::nat. Outside)"
    by (auto simp: fun_eq_iff)
  have 0: "barrier_reachable b (?s 0 0 Outside Outside)"
    using pb_start [of b] by (simp only: b out)
  have 1: "barrier_reachable b (?s 1 0 Ready_sleep Outside)"
    using pb_more [OF 0 pb_arrive_sleeps [of _ 0 False]] by (simp add: defs)
  have w: "(wake_idle False (wake_ready True ((\<lambda>_. Outside)(0 := Ready_sleep, 1 := Outside))))(1 := Decrement) =
      (\<lambda>_. Outside)(0 := Ready_awake, 1 := Decrement)"
    by (auto simp: wake_idle_def wake_ready_def fun_eq_iff)
  have 2: "barrier_reachable b (?s 2 2 Ready_awake Decrement)"
    using pb_more [OF 1 pb_arrive_last [of _ 1 True]] w by (simp add: defs)
  have w': "(wake_idle False (wake_ready False ((\<lambda>_. Outside)(0 := Ready_awake, 1 := Decrement))))(0 := Decrement) =
      (\<lambda>_. Outside)(0 := Decrement, 1 := Decrement)"
    by (auto simp: wake_idle_def wake_ready_def fun_eq_iff)
  have 3: "barrier_reachable b (?s 2 2 Decrement Decrement)"
    using pb_more [OF 2 pb_ready_pass [of _ 0]] w' by (simp add: defs)
  have 4: "barrier_reachable b (?s 2 1 Outside Decrement)"
    using pb_more [OF 3 pb_decrement [of _ 0]] by (simp add: defs)
  have 5: "barrier_reachable b (?s 2 0 Outside Outside)"
    using pb_more [OF 4 pb_decrement [of _ 1]] by (simp add: defs)
  have 6: "barrier_reachable b (?s 3 0 Ready_sleep Outside)"
    using pb_more [OF 5 pb_arrive_sleeps [of _ 0 False]] by (simp add: defs)
  have 7: "barrier_reachable b (?s 4 0 Ready_sleep Ready_sleep)"
    using pb_more [OF 6 pb_arrive_sleeps [of _ 1 False]] by (simp add: defs)
  show ?thesis by (rule exI, intro conjI, rule 7) (simp_all add: barrier_exited_def)
qed

theorem barrier_deadlock_witness:
  "\<exists>s b. barrier_reachable b s \<and> pplace s 0 = Ready_sleep \<and> pplace s 1 = Ready_sleep"
  using barrier_deadlock [of "\<lparr>pb_thread_count = 2, pb_num_waiting = 0, pb_num_to_leave = 0\<rparr>"]
  by (auto simp: barrier_new_def)

end
