(* ===== verification/Counter_Code.thy ===== *)
theory Counter_Code
  imports Gcl_Prelude
begin

text \<open>
  The shared memory the distributed counters of \<open>include/counter.h\<close> run on. A method is a tree of
  shared accesses (\<open>code\<close>): one node per atomic access to a count, per lock or unlock of a serializer,
  per operation on a set of children, per construction or destruction of a counter. A schedule picks
  the thread that does its next access. Counts are in an arbitrary commutative ring: \<open>int\<close> for a count
  that never overflows, \<open>'w word\<close> for an unsigned one, which wraps around.
\<close>

type_synonym thread = nat
type_synonym obj = nat

datatype 'i code =
    Finish 'i
  | Crash
  | Load_at obj nat "'i \<Rightarrow> 'i code"
  | Store_at obj nat 'i "'i code"
  | Fetch_add obj nat 'i "'i code"
  | Swap_at obj nat 'i "'i \<Rightarrow> 'i code"
  | Create obj nat "'i code"
  | Destroy obj "'i code"
  | Lock obj "'i code"
  | Unlock obj "'i code"
  | Enrol obj obj "bool \<Rightarrow> 'i code"
  | Strike obj obj "bool \<Rightarrow> 'i code"
  | Roll_call obj "obj list \<Rightarrow> 'i code"

text \<open>Sequencing: the value the first code finishes with goes to the second.\<close>

primrec and_then :: "'i code \<Rightarrow> ('i \<Rightarrow> 'i code) \<Rightarrow> 'i code" where
  "and_then (Finish r) f = f r"
| "and_then Crash f = Crash"
| "and_then (Load_at a i k) f = Load_at a i (\<lambda>v. and_then (k v) f)"
| "and_then (Store_at a i v c) f = Store_at a i v (and_then c f)"
| "and_then (Fetch_add a i v c) f = Fetch_add a i v (and_then c f)"
| "and_then (Swap_at a i v k) f = Swap_at a i v (\<lambda>v. and_then (k v) f)"
| "and_then (Create a n c) f = Create a n (and_then c f)"
| "and_then (Destroy a c) f = Destroy a (and_then c f)"
| "and_then (Lock m c) f = Lock m (and_then c f)"
| "and_then (Unlock m c) f = Unlock m (and_then c f)"
| "and_then (Enrol m b k) f = Enrol m b (\<lambda>v. and_then (k v) f)"
| "and_then (Strike m b k) f = Strike m b (\<lambda>v. and_then (k v) f)"
| "and_then (Roll_call m k) f = Roll_call m (\<lambda>v. and_then (k v) f)"

text \<open>An object is a list of counts: one for a counter, a buffer or a broker, as many as its size for an
  array. \<open>None\<close> is an object that is not alive; an access to it, or past its end, is undefined behaviour
  and crashes, as a failing assertion does.\<close>

record 'i csys =
  mem :: "obj \<Rightarrow> 'i list option"
  kids :: "obj \<Rightarrow> obj list"
  holder :: "obj \<Rightarrow> thread option"
  code_of :: "thread \<Rightarrow> 'i code"

definition count_at :: "'i csys \<Rightarrow> obj \<Rightarrow> nat \<Rightarrow> 'i option" where
  "count_at s a i = (case mem s a of None \<Rightarrow> None | Some vs \<Rightarrow> if i < length vs then Some (vs ! i) else None)"

definition put_at :: "obj \<Rightarrow> nat \<Rightarrow> 'i \<Rightarrow> 'i csys \<Rightarrow> 'i csys" where
  "put_at a i v s = s\<lparr>mem := (mem s)(a := map_option (\<lambda>vs. vs[i := v]) (mem s a))\<rparr>"

definition goes_on :: "thread \<Rightarrow> 'i code \<Rightarrow> 'i csys \<Rightarrow> 'i csys option" where
  "goes_on t c s = Some (s\<lparr>code_of := (code_of s)(t := c)\<rparr>)"

text \<open>The next access of thread \<open>t\<close>; \<open>None\<close> when it has finished, has crashed, or waits for a lock.\<close>

definition next_access :: "thread \<Rightarrow> ('i::comm_ring_1) csys \<Rightarrow> 'i csys option" where
  "next_access t s = (case code_of s t of
      Finish r \<Rightarrow> None
    | Crash \<Rightarrow> None
    | Load_at a i k \<Rightarrow>
        (case count_at s a i of None \<Rightarrow> goes_on t Crash s | Some v \<Rightarrow> goes_on t (k v) s)
    | Store_at a i v c \<Rightarrow>
        (case count_at s a i of None \<Rightarrow> goes_on t Crash s | Some _ \<Rightarrow> goes_on t c (put_at a i v s))
    | Fetch_add a i v c \<Rightarrow>
        (case count_at s a i of None \<Rightarrow> goes_on t Crash s | Some w \<Rightarrow> goes_on t c (put_at a i (w + v) s))
    | Swap_at a i v k \<Rightarrow>
        (case count_at s a i of None \<Rightarrow> goes_on t Crash s | Some w \<Rightarrow> goes_on t (k w) (put_at a i v s))
    | Create a n c \<Rightarrow>
        (if mem s a = None then goes_on t c (s\<lparr>mem := (mem s)(a \<mapsto> replicate n 0)\<rparr>)
         else goes_on t Crash s)
    | Destroy a c \<Rightarrow>
        (if mem s a = None then goes_on t Crash s else goes_on t c (s\<lparr>mem := (mem s)(a := None)\<rparr>))
    | Lock m c \<Rightarrow>
        (if holder s m = None then goes_on t c (s\<lparr>holder := (holder s)(m \<mapsto> t)\<rparr>) else None)
    | Unlock m c \<Rightarrow> goes_on t c (s\<lparr>holder := (holder s)(m := None)\<rparr>)
    | Enrol m b k \<Rightarrow>
        (if b \<in> set (kids s m) then goes_on t (k False) s
         else goes_on t (k True) (s\<lparr>kids := (kids s)(m := b # kids s m)\<rparr>))
    | Strike m b k \<Rightarrow>
        (if b \<in> set (kids s m)
         then goes_on t (k True) (s\<lparr>kids := (kids s)(m := removeAll b (kids s m))\<rparr>)
         else goes_on t (k False) s)
    | Roll_call m k \<Rightarrow> goes_on t (k (kids s m)) s)"

text \<open>A schedule that picks a thread which cannot go on does nothing for it.\<close>

fun run_schedule :: "thread list \<Rightarrow> ('i::comm_ring_1) csys \<Rightarrow> 'i csys" where
  "run_schedule [] s = s"
| "run_schedule (t # ts) s = run_schedule ts (case next_access t s of None \<Rightarrow> s | Some s' \<Rightarrow> s')"

definition finished :: "'i csys \<Rightarrow> bool" where
  "finished s \<longleftrightarrow> (\<forall>t. \<exists>r. code_of s t = Finish r)"

lemma run_schedule_append: "run_schedule (ts @ us) s = run_schedule us (run_schedule ts s)"
  by (induction ts arbitrary: s) auto

lemma and_then_assoc: "and_then (and_then c f) g = and_then c (\<lambda>r. and_then (f r) g)"
  by (induction c) auto

lemma goes_on_simps [simp]:
  "goes_on t c s = Some s' \<longleftrightarrow> s' = s\<lparr>code_of := (code_of s)(t := c)\<rparr>"
  by (auto simp: goes_on_def)

lemma put_at_simps [simp]:
  "kids (put_at a i v s) = kids s" "holder (put_at a i v s) = holder s"
  "code_of (put_at a i v s) = code_of s"
  "mem (put_at a i v s) = (mem s)(a := map_option (\<lambda>vs. vs[i := v]) (mem s a))"
  by (simp_all add: put_at_def)

lemma count_at_Some:
  "count_at s a i = Some v \<longleftrightarrow> (\<exists>vs. mem s a = Some vs \<and> i < length vs \<and> v = vs ! i)"
  by (auto simp: count_at_def split: option.splits if_splits)

end
