(* ===== verification/Counters.thy ===== *)
theory Counters
  imports Counter_Code
begin

text \<open>
  The counters of \<open>include/counter.h\<close>: bumpers at their three levels of atomicity, simplex counters,
  buffers, arrays of both, the strong and the weak duplex counters and their brokers. Every method is
  the code of its accesses to shared memory; \<open>void\<close> methods finish with 0.
\<close>

datatype atomicity = At_none | At_semi | At_full

section \<open>Bumpers and simplex counters\<close>

text \<open>At the levels none and semi an update is a load and a store; at the level full it is one atomic
  read-modify-write.\<close>

fun bumper_add :: "atomicity \<Rightarrow> obj \<Rightarrow> nat \<Rightarrow> 'i::comm_ring_1 \<Rightarrow> 'i code" where
  "bumper_add At_none a i by = Load_at a i (\<lambda>v. Store_at a i (v + by) (Finish 0))"
| "bumper_add At_semi a i by = Load_at a i (\<lambda>v. Store_at a i (v + by) (Finish 0))"
| "bumper_add At_full a i by = Fetch_add a i by (Finish 0)"

fun bumper_sub :: "atomicity \<Rightarrow> obj \<Rightarrow> nat \<Rightarrow> 'i::comm_ring_1 \<Rightarrow> 'i code" where
  "bumper_sub At_none a i by = Load_at a i (\<lambda>v. Store_at a i (v - by) (Finish 0))"
| "bumper_sub At_semi a i by = Load_at a i (\<lambda>v. Store_at a i (v - by) (Finish 0))"
| "bumper_sub At_full a i by = Fetch_add a i (- by) (Finish 0)"

definition bumper_incr :: "atomicity \<Rightarrow> obj \<Rightarrow> nat \<Rightarrow> ('i::comm_ring_1) code" where
  "bumper_incr l a i = bumper_add l a i 1"

definition bumper_decr :: "atomicity \<Rightarrow> obj \<Rightarrow> nat \<Rightarrow> ('i::comm_ring_1) code" where
  "bumper_decr l a i = bumper_sub l a i 1"

definition bumper_load :: "obj \<Rightarrow> nat \<Rightarrow> 'i code" where
  "bumper_load a i = Load_at a i Finish"

fun bumper_exchange :: "atomicity \<Rightarrow> obj \<Rightarrow> nat \<Rightarrow> 'i \<Rightarrow> 'i code" where
  "bumper_exchange At_none a i new = Load_at a i (\<lambda>tmp. Store_at a i new (Finish tmp))"
| "bumper_exchange At_semi a i new = Load_at a i (\<lambda>tmp. Store_at a i new (Finish tmp))"
| "bumper_exchange At_full a i new = Swap_at a i new Finish"

definition simplex_load :: "obj \<Rightarrow> 'i code" where
  "simplex_load a = bumper_load a 0"

definition simplex_exchange :: "atomicity \<Rightarrow> obj \<Rightarrow> 'i \<Rightarrow> 'i code" where
  "simplex_exchange l a new = bumper_exchange l a 0 new"

definition simplex_array_load :: "obj \<Rightarrow> nat \<Rightarrow> 'i code" where
  "simplex_array_load a idx = bumper_load a idx"

definition simplex_array_exchange :: "atomicity \<Rightarrow> obj \<Rightarrow> nat \<Rightarrow> 'i \<Rightarrow> 'i code" where
  "simplex_array_exchange l a idx v = bumper_exchange l a idx v"

section \<open>Buffers\<close>

text \<open>A buffer \<open>b\<close> at level \<open>bl\<close> proxies the prime \<open>p\<close>, a bumper at level \<open>pl\<close>.\<close>

definition buffer_new :: "obj \<Rightarrow> ('i::comm_ring_1) code" where
  "buffer_new b = Create b 1 (Finish 0)"

definition counter_push :: "atomicity \<Rightarrow> atomicity \<Rightarrow> obj \<Rightarrow> obj \<Rightarrow> ('i::comm_ring_1) code" where
  "counter_push pl bl p b = and_then (bumper_exchange bl b 0 0)
     (\<lambda>value. if value \<noteq> 0 then bumper_add pl p 0 value else Finish 0)"

definition buffer_delete :: "atomicity \<Rightarrow> atomicity \<Rightarrow> obj \<Rightarrow> obj \<Rightarrow> ('i::comm_ring_1) code" where
  "buffer_delete pl bl p b = and_then (counter_push pl bl p b) (\<lambda>_. Destroy b (Finish 0))"

text \<open>\<open>bumper_array(size)\<close> and the buffer array, which has the size of its prime.\<close>

definition bumper_array_new :: "obj \<Rightarrow> nat \<Rightarrow> ('i::comm_ring_1) code" where
  "bumper_array_new a n = Create a n (Finish 0)"

definition buffer_array_push_at ::
    "atomicity \<Rightarrow> atomicity \<Rightarrow> obj \<Rightarrow> obj \<Rightarrow> nat \<Rightarrow> ('i::comm_ring_1) code" where
  "buffer_array_push_at pl bl p b idx = and_then (bumper_exchange bl b idx 0)
     (\<lambda>value. if value \<noteq> 0 then bumper_add pl p idx value else Finish 0)"

text \<open>\<open>push()\<close> goes through the indices from \<open>i\<close> on; \<open>left\<close> of them are left.\<close>

fun push_from :: "atomicity \<Rightarrow> atomicity \<Rightarrow> obj \<Rightarrow> obj \<Rightarrow> nat \<Rightarrow> nat \<Rightarrow> ('i::comm_ring_1) code" where
  "push_from pl bl p b i 0 = Finish 0"
| "push_from pl bl p b i (Suc left) =
     and_then (buffer_array_push_at pl bl p b i) (\<lambda>_. push_from pl bl p b (i + 1) left)"

definition buffer_array_push :: "atomicity \<Rightarrow> atomicity \<Rightarrow> obj \<Rightarrow> obj \<Rightarrow> nat \<Rightarrow> ('i::comm_ring_1) code" where
  "buffer_array_push pl bl p b n = push_from pl bl p b 0 n"

definition buffer_array_delete :: "atomicity \<Rightarrow> atomicity \<Rightarrow> obj \<Rightarrow> obj \<Rightarrow> nat \<Rightarrow> ('i::comm_ring_1) code" where
  "buffer_array_delete pl bl p b n = and_then (buffer_array_push pl bl p b n) (\<lambda>_. Destroy b (Finish 0))"

section \<open>Duplex counters and brokers\<close>

definition assert_then :: "'i code \<Rightarrow> bool \<Rightarrow> 'i code" where
  "assert_then c ok = (if ok then c else Crash)"

definition strong_insert :: "obj \<Rightarrow> obj \<Rightarrow> ('i::comm_ring_1) code" where
  "strong_insert p child = Lock p (Enrol p child (assert_then (Unlock p (Finish 0))))"

definition strong_erase :: "obj \<Rightarrow> obj \<Rightarrow> 'i::comm_ring_1 \<Rightarrow> 'i code" where
  "strong_erase p child by = and_then (bumper_add At_full p 0 by)
     (\<lambda>_. Lock p (Strike p child (assert_then (Unlock p (Finish 0)))))"

text \<open>The loops over \<open>children_\<close>: poll or drain every child and add up.\<close>

fun poll_all :: "obj list \<Rightarrow> 'i::comm_ring_1 \<Rightarrow> 'i code" where
  "poll_all [] tmp = Finish tmp"
| "poll_all (c # cs) tmp = and_then (bumper_load c 0) (\<lambda>v. poll_all cs (tmp + v))"

fun drain_all :: "obj list \<Rightarrow> 'i::comm_ring_1 \<Rightarrow> 'i code" where
  "drain_all [] tmp = Finish tmp"
| "drain_all (c # cs) tmp = and_then (bumper_exchange At_full c 0 0) (\<lambda>v. drain_all cs (tmp + v))"

definition strong_load :: "obj \<Rightarrow> ('i::comm_ring_1) code" where
  "strong_load p = Lock p (Roll_call p (\<lambda>cs. and_then (poll_all cs 0)
     (\<lambda>tmp. Unlock p (and_then (bumper_load p 0) (\<lambda>v. Finish (tmp + v))))))"

definition strong_exchange :: "obj \<Rightarrow> 'i::comm_ring_1 \<Rightarrow> 'i code" where
  "strong_exchange p new = Lock p (Roll_call p (\<lambda>cs. and_then (drain_all cs 0)
     (\<lambda>tmp. Unlock p (and_then (bumper_exchange At_full p 0 new) (\<lambda>v. Finish (tmp + v))))))"

definition strong_delete :: "obj \<Rightarrow> ('i::comm_ring_1) code" where
  "strong_delete p = Lock p (Roll_call p (\<lambda>cs. assert_then (Unlock p (Destroy p (Finish 0))) (cs = [])))"

definition strong_broker_new :: "obj \<Rightarrow> obj \<Rightarrow> ('i::comm_ring_1) code" where
  "strong_broker_new p b = Create b 1 (strong_insert p b)"

definition strong_broker_delete :: "obj \<Rightarrow> obj \<Rightarrow> ('i::comm_ring_1) code" where
  "strong_broker_delete p b = and_then (bumper_load b 0)
     (\<lambda>by. and_then (strong_erase p b by) (\<lambda>_. Destroy b (Finish 0)))"

definition weak_insert :: "obj \<Rightarrow> obj \<Rightarrow> ('i::comm_ring_1) code" where
  "weak_insert p child = Lock p (Enrol p child (assert_then (Unlock p (Finish 0))))"

definition weak_erase :: "obj \<Rightarrow> obj \<Rightarrow> 'i::comm_ring_1 \<Rightarrow> 'i code" where
  "weak_erase p child by = Lock p (and_then (bumper_add At_full p 0 by)
     (\<lambda>_. Strike p child (assert_then (Unlock p (Finish 0)))))"

definition weak_load :: "obj \<Rightarrow> ('i::comm_ring_1) code" where
  "weak_load p = Lock p (Roll_call p (\<lambda>cs. and_then (poll_all cs 0)
     (\<lambda>tmp. and_then (bumper_load p 0) (\<lambda>v. Unlock p (Finish (tmp + v))))))"

definition weak_delete :: "obj \<Rightarrow> ('i::comm_ring_1) code" where
  "weak_delete p = Lock p (Roll_call p (\<lambda>cs. assert_then (Unlock p (Destroy p (Finish 0))) (cs = [])))"

definition weak_broker_new :: "obj \<Rightarrow> obj \<Rightarrow> ('i::comm_ring_1) code" where
  "weak_broker_new p b = Create b 1 (weak_insert p b)"

definition weak_broker_delete :: "obj \<Rightarrow> obj \<Rightarrow> ('i::comm_ring_1) code" where
  "weak_broker_delete p b = and_then (bumper_load b 0)
     (\<lambda>by. and_then (weak_erase p b by) (\<lambda>_. Destroy b (Finish 0)))"

section \<open>Programs of calls\<close>

datatype 'i call =
    Add atomicity obj nat 'i
  | Sub atomicity obj nat 'i
  | Incr atomicity obj nat
  | Decr atomicity obj nat
  | Load_count obj nat
  | Exchange atomicity obj nat 'i
  | New_buffer obj
  | Push atomicity atomicity obj obj
  | Delete_buffer atomicity atomicity obj obj
  | New_array obj nat
  | Push_array_at atomicity atomicity obj obj nat
  | Push_array atomicity atomicity obj obj nat
  | Delete_array atomicity atomicity obj obj nat
  | New_strong_broker obj obj
  | Load_strong obj
  | Exchange_strong obj 'i
  | New_weak_broker obj obj
  | Load_weak obj
  | Delete_weak_broker obj obj

fun method_of :: "('i::comm_ring_1) call \<Rightarrow> 'i code" where
  "method_of (Add l a i v) = bumper_add l a i v"
| "method_of (Sub l a i v) = bumper_sub l a i v"
| "method_of (Incr l a i) = bumper_incr l a i"
| "method_of (Decr l a i) = bumper_decr l a i"
| "method_of (Load_count a i) = bumper_load a i"
| "method_of (Exchange l a i v) = bumper_exchange l a i v"
| "method_of (New_buffer b) = buffer_new b"
| "method_of (Push pl bl p b) = counter_push pl bl p b"
| "method_of (Delete_buffer pl bl p b) = buffer_delete pl bl p b"
| "method_of (New_array b n) = bumper_array_new b n"
| "method_of (Push_array_at pl bl p b i) = buffer_array_push_at pl bl p b i"
| "method_of (Push_array pl bl p b n) = buffer_array_push pl bl p b n"
| "method_of (Delete_array pl bl p b n) = buffer_array_delete pl bl p b n"
| "method_of (New_strong_broker p b) = strong_broker_new p b"
| "method_of (Load_strong p) = strong_load p"
| "method_of (Exchange_strong p v) = strong_exchange p v"
| "method_of (New_weak_broker p b) = weak_broker_new p b"
| "method_of (Load_weak p) = weak_load p"
| "method_of (Delete_weak_broker p b) = weak_broker_delete p b"

text \<open>What a call adds to the counters by its arguments, and what its result takes out of them.\<close>

fun credit :: "('i::comm_ring_1) call \<Rightarrow> 'i" where
  "credit (Add l a i v) = v"
| "credit (Sub l a i v) = - v"
| "credit (Incr l a i) = 1"
| "credit (Decr l a i) = - 1"
| "credit (Exchange l a i v) = v"
| "credit (Exchange_strong p v) = v"
| "credit _ = 0"

fun extracted :: "('i::comm_ring_1) call \<Rightarrow> 'i \<Rightarrow> 'i" where
  "extracted (Exchange l a i v) r = r"
| "extracted (Exchange_strong p v) r = r"
| "extracted _ r = 0"

text \<open>A thread makes its calls in order and finishes with the sum of what it extracted.\<close>

fun program :: "('i::comm_ring_1) call list \<Rightarrow> 'i code" where
  "program [] = Finish 0"
| "program (c # cs) =
     and_then (method_of c) (\<lambda>r. and_then (program cs) (\<lambda>x. Finish (extracted c r + x)))"

end
