(* ===== verification/Counter_Logic.thy ===== *)
theory Counter_Logic
  imports Counters "HOL-Library.Multiset"
begin

text \<open>
  A program logic for the accesses of \<open>Counter_Code\<close>. \<open>settles\<close> is a weakest precondition for one thread
  among any others: the thread knows the exact counts of the objects it keeps (unless another thread
  may drain them), whether each is enrolled with a duplex counter, and, while it holds a serializer,
  the set of children behind it; and it carries the amount it still owes to the total of all counts.
  \<open>sys_inv\<close> says that every thread settles its debt and that what the threads know is true; every
  access preserves it.
\<close>

datatype keeper = Nobody | Everybody | Only thread

text \<open>Who keeps an object, whether others may drain it, how many counts it has, and which duplex
  counters are strong.\<close>

record layout =
  keeper :: "obj \<Rightarrow> keeper"
  drained :: "obj \<Rightarrow> bool"
  width :: "obj \<Rightarrow> nat"
  strong :: "obj \<Rightarrow> bool"

type_synonym 'i know = "obj \<Rightarrow> ('i list option \<times> obj option) option"
type_synonym held = "(obj \<times> obj list) option"

definition reaches :: "layout \<Rightarrow> thread \<Rightarrow> 'i know \<Rightarrow> held \<Rightarrow> obj \<Rightarrow> bool" where
  "reaches lay t E L a \<longleftrightarrow> keeper lay a = Everybody \<or> (keeper lay a = Only t \<and> E a \<noteq> None) \<or>
     (\<exists>m ks. L = Some (m, ks) \<and> a \<in> set ks)"

definition knows :: "layout \<Rightarrow> thread \<Rightarrow> 'i know \<Rightarrow> obj \<Rightarrow> 'i list option" where
  "knows lay t E a = (if keeper lay a = Only t then (case E a of Some (vo, e) \<Rightarrow> vo | None \<Rightarrow> None) else None)"

text \<open>A write leaves the knowledge of other threads true: everybody's object, one that is drained anyway,
  or one whose counts the thread knows.\<close>

definition writes :: "layout \<Rightarrow> thread \<Rightarrow> 'i know \<Rightarrow> held \<Rightarrow> obj \<Rightarrow> bool" where
  "writes lay t E L a \<longleftrightarrow> reaches lay t E L a \<and>
     (keeper lay a = Everybody \<or> drained lay a \<or> knows lay t E a \<noteq> None)"

definition learn :: "layout \<Rightarrow> thread \<Rightarrow> obj \<Rightarrow> nat \<Rightarrow> 'i \<Rightarrow> 'i know \<Rightarrow> 'i know" where
  "learn lay t a i v E = (case knows lay t E a of None \<Rightarrow> E
     | Some vs \<Rightarrow> E(a := map_option (\<lambda>(vo, e). (Some (vs[i := v]), e)) (E a)))"

primrec settles :: "layout \<Rightarrow> thread \<Rightarrow> ('i::comm_ring_1) code \<Rightarrow> 'i know \<Rightarrow> held \<Rightarrow> 'i \<Rightarrow>
    ('i \<Rightarrow> 'i \<Rightarrow> 'i know \<Rightarrow> held \<Rightarrow> bool) \<Rightarrow> bool" where
  "settles lay t (Finish r) E L d Q = Q r d E L"
| "settles lay t Crash E L d Q = False"
| "settles lay t (Load_at a i k) E L d Q = (i < width lay a \<and> reaches lay t E L a \<and>
     (\<forall>v. (\<forall>vs. knows lay t E a = Some vs \<longrightarrow> v = vs ! i) \<longrightarrow> settles lay t (k v) E L d Q))"
| "settles lay t (Store_at a i v c) E L d Q = (i < width lay a \<and> reaches lay t E L a \<and>
     (\<exists>vs. knows lay t E a = Some vs \<and> settles lay t c (learn lay t a i v E) L (d - (v - vs ! i)) Q))"
| "settles lay t (Fetch_add a i v c) E L d Q = (i < width lay a \<and> writes lay t E L a \<and>
     (\<forall>w. (\<forall>vs. knows lay t E a = Some vs \<longrightarrow> w = vs ! i) \<longrightarrow>
       settles lay t c (learn lay t a i (w + v) E) L (d - v) Q))"
| "settles lay t (Swap_at a i v k) E L d Q = (i < width lay a \<and> writes lay t E L a \<and>
     (\<forall>w. (\<forall>vs. knows lay t E a = Some vs \<longrightarrow> w = vs ! i) \<longrightarrow>
       settles lay t (k w) (learn lay t a i v E) L (d - (v - w)) Q))"
| "settles lay t (Create a n c) E L d Q = (keeper lay a = Only t \<and> E a = None \<and> n = width lay a \<and>
     settles lay t c (E(a \<mapsto> (if drained lay a then None else Some (replicate n 0), None))) L d Q)"
| "settles lay t (Destroy a c) E L d Q = (keeper lay a = Only t \<and>
     (\<exists>vs. E a = Some (Some vs, None) \<and> settles lay t c (E(a := None)) L (d + sum_list vs) Q))"
| "settles lay t (Lock m c) E L d Q = (L = None \<and> keeper lay m = Everybody \<and>
     (\<forall>ks. (\<forall>k\<in>set ks. 0 < width lay k \<and> (drained lay k \<longleftrightarrow> strong lay m)) \<longrightarrow>
        settles lay t c E (Some (m, ks)) d Q))"
| "settles lay t (Unlock m c) E L d Q = (\<exists>ks. L = Some (m, ks) \<and> settles lay t c E None d Q)"
| "settles lay t (Enrol m b k) E L d Q = (\<exists>ks vo. L = Some (m, ks) \<and> keeper lay b = Only t \<and>
     0 < width lay b \<and> (drained lay b \<longleftrightarrow> strong lay m) \<and>
     E b = Some (vo, None) \<and> settles lay t (k True) (E(b \<mapsto> (vo, Some m))) (Some (m, b # ks)) d Q)"
| "settles lay t (Strike m b k) E L d Q = (\<exists>ks vo. L = Some (m, ks) \<and> keeper lay b = Only t \<and>
     E b = Some (vo, Some m) \<and>
     settles lay t (k True) (E(b \<mapsto> (vo, None))) (Some (m, removeAll b ks)) d Q)"
| "settles lay t (Roll_call m k) E L d Q = (\<exists>ks. L = Some (m, ks) \<and> settles lay t (k ks) E L d Q)"

lemma settles_and_then:
  "settles lay t (and_then c f) E L d Q \<longleftrightarrow>
     settles lay t c E L d (\<lambda>r d E L. settles lay t (f r) E L d Q)"
  by (induction c arbitrary: E L d) auto

lemma settles_mono:
  assumes "settles lay t c E L d Q" and "\<And>r d E L. Q r d E L \<Longrightarrow> Q' r d E L"
  shows "settles lay t c E L d Q'"
  using assms(1) by (induction c arbitrary: E L d) (auto intro: assms(2))

section \<open>The invariant\<close>

definition total :: "('i::comm_ring_1) csys \<Rightarrow> 'i" where
  "total s = (\<Sum>a\<in>dom (mem s). sum_list (the (mem s a)))"

definition mem_true :: "layout \<Rightarrow> (thread \<Rightarrow> 'i know) \<Rightarrow> (obj \<Rightarrow> 'i list option) \<Rightarrow> obj \<Rightarrow> bool" where
  "mem_true lay E me a = (case keeper lay a of
      Nobody \<Rightarrow> me a = None
    | Everybody \<Rightarrow> (\<exists>vs. me a = Some vs \<and> length vs = width lay a)
    | Only u \<Rightarrow> (case E u a of
        None \<Rightarrow> me a = None
      | Some (vo, e) \<Rightarrow> (\<exists>vs. me a = Some vs \<and> length vs = width lay a \<and> (vo = None \<or> vo = Some vs) \<and>
          (drained lay a \<longleftrightarrow> vo = None))))"

definition enrolled :: "layout \<Rightarrow> (thread \<Rightarrow> 'i know) \<Rightarrow> obj \<Rightarrow> obj \<Rightarrow> bool" where
  "enrolled lay E m b \<longleftrightarrow> (\<exists>u vo. keeper lay b = Only u \<and> E u b = Some (vo, Some m))"

definition kids_true :: "layout \<Rightarrow> (thread \<Rightarrow> 'i know) \<Rightarrow> (obj \<Rightarrow> obj list) \<Rightarrow> bool" where
  "kids_true lay E ch \<longleftrightarrow> (\<forall>m b. b \<in> set (ch m) \<longleftrightarrow> enrolled lay E m b) \<and>
     (\<forall>m. \<forall>b\<in>set (ch m). 0 < width lay b \<and> (drained lay b \<longleftrightarrow> strong lay m))"

definition locks_true :: "(thread \<Rightarrow> held) \<Rightarrow> (obj \<Rightarrow> obj list) \<Rightarrow> (obj \<Rightarrow> thread option) \<Rightarrow> bool" where
  "locks_true L ch ho \<longleftrightarrow> (\<forall>m t. ho m = Some t \<longleftrightarrow> (\<exists>ks. L t = Some (m, ks))) \<and>
     (\<forall>t m ks. L t = Some (m, ks) \<longrightarrow> ks = ch m)"

definition codes_settle :: "layout \<Rightarrow> (thread \<Rightarrow> ('i::comm_ring_1) know) \<Rightarrow> (thread \<Rightarrow> held) \<Rightarrow>
    (thread \<Rightarrow> 'i) \<Rightarrow> (thread \<Rightarrow> 'i code) \<Rightarrow> bool" where
  "codes_settle lay E L D co \<longleftrightarrow>
     (\<forall>t. settles lay t (co t) (E t) (L t) (D t) (\<lambda>r d E L. L = None \<and> d = r))"

definition sys_inv :: "layout \<Rightarrow> thread set \<Rightarrow> ('i::comm_ring_1) \<Rightarrow> (thread \<Rightarrow> 'i know) \<Rightarrow>
    (thread \<Rightarrow> held) \<Rightarrow> (thread \<Rightarrow> 'i) \<Rightarrow> 'i csys \<Rightarrow> bool" where
  "sys_inv lay T tot E L D s \<longleftrightarrow>
     codes_settle lay E L D (code_of s) \<and> (\<forall>a. mem_true lay E (mem s) a) \<and>
     kids_true lay E (kids s) \<and> locks_true L (kids s) (holder s) \<and>
     finite (dom (mem s)) \<and> finite T \<and> (\<forall>t. t \<notin> T \<longrightarrow> (\<exists>r. code_of s t = Finish r)) \<and>
     total s + (\<Sum>t\<in>T. D t) = tot"

lemma sum_list_upd: "i < length vs \<Longrightarrow> sum_list (vs[i := v]) = sum_list vs + (v - vs ! i)"
  for vs :: "'i::comm_ring_1 list"
proof (induction vs arbitrary: i)
  case (Cons x vs)
  then show ?case by (cases i) (auto simp: algebra_simps)
qed simp

lemma total_upd:
  fixes s :: "('i::comm_ring_1) csys"
  assumes "finite (dom (mem s))" and "mem s a = Some vs"
  shows "(\<Sum>x\<in>dom ((mem s)(a \<mapsto> ws)). sum_list (the (((mem s)(a \<mapsto> ws)) x))) = total s + (sum_list ws - sum_list vs)"
proof -
  have "dom ((mem s)(a \<mapsto> ws)) = insert a (dom (mem s) - {a})" using assms(2) by auto
  then have "(\<Sum>x\<in>dom ((mem s)(a \<mapsto> ws)). sum_list (the (((mem s)(a \<mapsto> ws)) x))) =
      sum_list ws + (\<Sum>x\<in>dom (mem s) - {a}. sum_list (the (mem s x)))"
    using assms(1) by (auto simp: sum.insert_remove intro!: sum.cong)
  moreover have "total s = sum_list vs + (\<Sum>x\<in>dom (mem s) - {a}. sum_list (the (mem s x)))"
    using assms sum.remove [of "dom (mem s)" a "\<lambda>x. sum_list (the (mem s x))"] by (auto simp: total_def)
  ultimately show ?thesis by simp
qed

lemma total_new:
  assumes "finite (dom (mem s))" and "mem s a = None"
  shows "(\<Sum>x\<in>dom ((mem s)(a \<mapsto> ws)). sum_list (the (((mem s)(a \<mapsto> ws)) x))) = total s + sum_list ws"
proof -
  have "a \<notin> dom (mem s)" using assms(2) by auto
  then have "(\<Sum>x\<in>dom (mem s). sum_list (the (((mem s)(a \<mapsto> ws)) x))) = total s"
    unfolding total_def by (intro sum.cong) auto
  with assms \<open>a \<notin> dom (mem s)\<close> show ?thesis by (simp add: add.commute)
qed

lemma total_gone:
  fixes s :: "('i::comm_ring_1) csys"
  assumes "finite (dom (mem s))" and "mem s a = Some vs"
  shows "(\<Sum>x\<in>dom ((mem s)(a := None)). sum_list (the (((mem s)(a := None)) x))) = total s - sum_list vs"
proof -
  have "dom ((mem s)(a := None)) = dom (mem s) - {a}" by auto
  moreover have "total s = sum_list vs + (\<Sum>x\<in>dom (mem s) - {a}. sum_list (the (mem s x)))"
    using assms sum.remove [of "dom (mem s)" a "\<lambda>x. sum_list (the (mem s x))"] by (auto simp: total_def)
  moreover have "(\<Sum>x\<in>dom (mem s) - {a}. sum_list (the (((mem s)(a := None)) x))) =
      (\<Sum>x\<in>dom (mem s) - {a}. sum_list (the (mem s x)))"
    by (intro sum.cong) auto
  ultimately show ?thesis by simp
qed

section \<open>Every access preserves it\<close>

lemma reaches_alive:
  assumes "\<forall>a. mem_true lay E me a" and "kids_true lay E ch" and "locks_true L ch ho"
    and "reaches lay t (E t) (L t) a"
  shows "\<exists>vs. me a = Some vs \<and> length vs = width lay a"
proof -
  have "keeper lay a = Everybody \<or> (\<exists>u. keeper lay a = Only u \<and> E u a \<noteq> None)"
    using assms(4) unfolding reaches_def
  proof (elim disjE exE conjE)
    fix m ks
    assume "L t = Some (m, ks)" and "a \<in> set ks"
    then have "a \<in> set (ch m)" using assms(3) by (auto simp: locks_true_def)
    then have "enrolled lay E m a" using assms(2) by (auto simp: kids_true_def)
    then show ?thesis by (auto simp: enrolled_def)
  qed auto
  with assms(1) [THEN spec, of a] show ?thesis
    by (auto simp: mem_true_def split: option.splits)
qed

lemma knows_true:
  assumes "\<forall>a. mem_true lay E me a" and "knows lay t (E t) a = Some vs"
  shows "me a = Some vs \<and> length vs = width lay a \<and> \<not> drained lay a"
  using assms(1) [THEN spec, of a] assms(2)
  by (auto simp: knows_def mem_true_def split: if_splits option.splits)

lemma enrolled_learn [simp]:
  "enrolled lay (E(t := learn lay t a i v (E t))) m b \<longleftrightarrow> enrolled lay E m b"
  by (auto simp: enrolled_def learn_def split: option.splits)

lemma kids_true_learn [simp]:
  "kids_true lay (E(t := learn lay t a i v (E t))) ch \<longleftrightarrow> kids_true lay E ch"
  by (simp add: kids_true_def)

lemma mem_true_write:
  assumes me: "\<forall>a. mem_true lay E me a" and "me a = Some vs" and "i < length vs"
    and w: "keeper lay a = Everybody \<or> drained lay a \<or> knows lay t (E t) a \<noteq> None"
  shows "\<forall>x. mem_true lay (E(t := learn lay t a i v (E t))) (me(a \<mapsto> vs[i := v])) x"
proof
  fix x
  show "mem_true lay (E(t := learn lay t a i v (E t))) (me(a \<mapsto> vs[i := v])) x"
    using assms(2,3) w me [THEN spec, of x] me [THEN spec, of a]
    by (cases "x = a")
      (auto simp: mem_true_def learn_def knows_def split: keeper.splits option.splits if_splits)
qed

lemma step_inv:
  assumes inv: "sys_inv lay T tot E L D s" and t: "\<not> (\<exists>r. code_of s t = Finish r)"
    and co: "code_of s' = (code_of s)(t := c)"
    and c: "settles lay t c e l d (\<lambda>r d E L. L = None \<and> d = r)"
    and me: "\<forall>a. mem_true lay (E(t := e)) (mem s') a" and k: "kids_true lay (E(t := e)) (kids s')"
    and h: "locks_true (L(t := l)) (kids s') (holder s')" and f: "finite (dom (mem s'))"
    and tot: "total s' = total s + (D t - d)"
  shows "\<exists>E L D. sys_inv lay T tot E L D s'"
proof -
  have "t \<in> T" and fin: "finite T" using inv t by (auto simp: sys_inv_def)
  then have sums: "(\<Sum>u\<in>T. (D(t := d)) u) = (\<Sum>u\<in>T. D u) + (d - D t)"
    by (simp add: sum.remove)
  have "total s' + (\<Sum>u\<in>T. (D(t := d)) u) = tot"
  proof -
    have "total s + (\<Sum>u\<in>T. D u) = tot" using inv by (simp add: sys_inv_def)
    then show ?thesis by (subst tot, subst sums) (simp add: algebra_simps)
  qed
  moreover have "codes_settle lay (E(t := e)) (L(t := l)) (D(t := d)) (code_of s')"
    using inv c co by (simp add: sys_inv_def codes_settle_def)
  moreover have "\<forall>u. u \<notin> T \<longrightarrow> (\<exists>r. code_of s' u = Finish r)"
    using inv \<open>t \<in> T\<close> co by (auto simp: sys_inv_def)
  ultimately have "sys_inv lay T tot (E(t := e)) (L(t := l)) (D(t := d)) s'"
    using me k h f fin by (simp add: sys_inv_def)
  then show ?thesis by blast
qed

text \<open>An access that only writes a count, or only reads one.\<close>

lemma write_inv:
  assumes inv: "sys_inv lay T tot E L D s" and t: "\<not> (\<exists>r. code_of s t = Finish r)"
    and vs: "mem s a = Some vs" and i: "i < length vs"
    and w: "keeper lay a = Everybody \<or> drained lay a \<or> knows lay t (E t) a \<noteq> None"
    and c: "settles lay t c (learn lay t a i v (E t)) (L t) (D t - (v - vs ! i)) (\<lambda>r d E L. L = None \<and> d = r)"
    and s': "goes_on t c (put_at a i v s) = Some s'"
  shows "\<exists>E L D. sys_inv lay T tot E L D s'"
proof (rule step_inv [OF inv t _ c])
  have fin: "finite (dom (mem s))" using inv by (simp add: sys_inv_def)
  show "code_of s' = (code_of s)(t := c)" using s' by simp
  show "\<forall>x. mem_true lay (E(t := learn lay t a i v (E t))) (mem s') x"
    using mem_true_write [where E = E and t = t and v = v and me = "mem s", OF _ vs i w] inv s' vs
    by (simp add: sys_inv_def)
  show "kids_true lay (E(t := learn lay t a i v (E t))) (kids s')"
    "locks_true (L(t := L t)) (kids s') (holder s')"
    using inv s' by (simp_all add: sys_inv_def)
  show "finite (dom (mem s'))" using s' vs fin by simp
  show "total s' = total s + (D t - (D t - (v - vs ! i)))"
    using total_upd [OF fin vs, of "vs[i := v]"] s' vs i by (simp add: total_def sum_list_upd)
qed

lemma read_inv:
  assumes inv: "sys_inv lay T tot E L D s" and t: "\<not> (\<exists>r. code_of s t = Finish r)"
    and c: "settles lay t c (E t) (L t) (D t) (\<lambda>r d E L. L = None \<and> d = r)"
    and s': "goes_on t c s = Some s'"
  shows "\<exists>E L D. sys_inv lay T tot E L D s'"
  by (rule step_inv [OF inv t _ c]) (use inv s' in \<open>simp_all add: sys_inv_def total_def\<close>)

lemma sys_inv_settles:
  "sys_inv lay T tot E L D s \<Longrightarrow>
     settles lay t (code_of s t) (E t) (L t) (D t) (\<lambda>r d E L. L = None \<and> d = r)"
  by (simp add: sys_inv_def codes_settle_def)

lemma reached_count:
  assumes inv: "sys_inv lay T tot E L D s" and "reaches lay t (E t) (L t) a" and "i < width lay a"
  obtains vs where "mem s a = Some vs" and "i < length vs" and "count_at s a i = Some (vs ! i)"
    and "\<forall>ws. knows lay t (E t) a = Some ws \<longrightarrow> vs ! i = ws ! i"
proof -
  have me: "\<forall>a. mem_true lay E (mem s) a" using inv by (simp add: sys_inv_def)
  obtain vs where vs: "mem s a = Some vs" "length vs = width lay a"
    using reaches_alive [where E = E and L = L and t = t and ch = "kids s" and ho = "holder s",
        OF me _ _ assms(2)] inv that
    by (auto simp: sys_inv_def)
  moreover have "\<forall>ws. knows lay t (E t) a = Some ws \<longrightarrow> vs ! i = ws ! i"
    using knows_true [OF me, of t a] vs by auto
  ultimately show ?thesis using that [of vs] assms(3) by (auto simp: count_at_Some)
qed

lemma access_inv_counts:
  assumes inv: "sys_inv lay T tot E L D s" and s': "next_access t s = Some s'"
    and c: "(\<exists>a i k. code_of s t = Load_at a i k) \<or> (\<exists>a i v c. code_of s t = Store_at a i v c) \<or>
      (\<exists>a i v c. code_of s t = Fetch_add a i v c) \<or> (\<exists>a i v k. code_of s t = Swap_at a i v k)"
  shows "\<exists>E L D. sys_inv lay T tot E L D s'"
  using c
proof (elim disjE exE)
  note st = sys_inv_settles [OF inv, of t]
  fix a i k
  assume c: "code_of s t = Load_at a i k"
  with st have "reaches lay t (E t) (L t) a" "i < width lay a" by simp_all
  then obtain vs where "count_at s a i = Some (vs ! i)"
    "\<forall>ws. knows lay t (E t) a = Some ws \<longrightarrow> vs ! i = ws ! i"
    by (rule reached_count [OF inv])
  then show ?thesis
    using s' c st by (intro read_inv [OF inv, where t = t and c = "k (vs ! i)"])
      (auto simp: next_access_def)
next
  note st = sys_inv_settles [OF inv, of t]
  fix a i v c
  assume c: "code_of s t = Store_at a i v c"
  with st have "reaches lay t (E t) (L t) a" "i < width lay a" by simp_all
  then obtain vs where vs: "mem s a = Some vs" "i < length vs" "count_at s a i = Some (vs ! i)"
    "\<forall>ws. knows lay t (E t) a = Some ws \<longrightarrow> vs ! i = ws ! i"
    by (rule reached_count [OF inv])
  from st c obtain ws where "knows lay t (E t) a = Some ws"
    "settles lay t c (learn lay t a i v (E t)) (L t) (D t - (v - ws ! i)) (\<lambda>r d E L. L = None \<and> d = r)"
    by auto
  with vs c s' show ?thesis
    by (intro write_inv [OF inv _ vs(1,2), where t = t and c = c and v = v]) (auto simp: next_access_def)
next
  note st = sys_inv_settles [OF inv, of t]
  fix a i v c
  assume c: "code_of s t = Fetch_add a i v c"
  with st have w: "writes lay t (E t) (L t) a" "i < width lay a" by simp_all
  then have "reaches lay t (E t) (L t) a" by (simp add: writes_def)
  then obtain vs where vs: "mem s a = Some vs" "i < length vs" "count_at s a i = Some (vs ! i)"
    "\<forall>ws. knows lay t (E t) a = Some ws \<longrightarrow> vs ! i = ws ! i"
    using w(2) by (rule reached_count [OF inv])
  with st c have "settles lay t c (learn lay t a i (vs ! i + v) (E t)) (L t) (D t - v)
      (\<lambda>r d E L. L = None \<and> d = r)"
    by auto
  with vs c s' w show ?thesis
    by (intro write_inv [OF inv _ vs(1,2), where t = t and c = c and v = "vs ! i + v"])
      (auto simp: next_access_def writes_def)
next
  note st = sys_inv_settles [OF inv, of t]
  fix a i v k
  assume c: "code_of s t = Swap_at a i v k"
  with st have w: "writes lay t (E t) (L t) a" "i < width lay a" by simp_all
  then have "reaches lay t (E t) (L t) a" by (simp add: writes_def)
  then obtain vs where vs: "mem s a = Some vs" "i < length vs" "count_at s a i = Some (vs ! i)"
    "\<forall>ws. knows lay t (E t) a = Some ws \<longrightarrow> vs ! i = ws ! i"
    using w(2) by (rule reached_count [OF inv])
  with st c have "settles lay t (k (vs ! i)) (learn lay t a i v (E t)) (L t) (D t - (v - vs ! i))
      (\<lambda>r d E L. L = None \<and> d = r)"
    by auto
  with vs c s' w show ?thesis
    by (intro write_inv [OF inv _ vs(1,2), where t = t and c = "k (vs ! i)" and v = v])
      (auto simp: next_access_def writes_def)
qed

lemma access_inv_objects:
  assumes inv: "sys_inv lay T tot E L D s" and s': "next_access t s = Some s'"
    and c: "(\<exists>a n c. code_of s t = Create a n c) \<or> (\<exists>a c. code_of s t = Destroy a c)"
  shows "\<exists>E L D. sys_inv lay T tot E L D s'"
  using c
proof (elim disjE exE)
  note st = sys_inv_settles [OF inv, of t]
  have me: "\<forall>a. mem_true lay E (mem s) a" and fin: "finite (dom (mem s))"
    using inv by (auto simp: sys_inv_def)
  fix a n c
  assume c: "code_of s t = Create a n c"
  let ?e = "(E t)(a \<mapsto> (if drained lay a then None else Some (replicate n 0), None))"
  have a: "keeper lay a = Only t" "E t a = None" "n = width lay a"
    and c': "settles lay t c ?e (L t) (D t) (\<lambda>r d E L. L = None \<and> d = r)"
    using st c by simp_all
  then have dead: "mem s a = None" using me [THEN spec, of a] by (simp add: mem_true_def)
  then have s'': "s' = s\<lparr>mem := (mem s)(a \<mapsto> replicate n 0), code_of := (code_of s)(t := c)\<rparr>"
    using s' c by (simp add: next_access_def)
  show ?thesis
  proof (rule step_inv [OF inv _ _ c'])
    show "\<forall>x. mem_true lay (E(t := ?e)) (mem s') x"
    proof
      fix x show "mem_true lay (E(t := ?e)) (mem s') x"
        using me [THEN spec, of x] a s'' by (auto simp: mem_true_def split: keeper.splits option.splits)
    qed
    have "enrolled lay (E(t := ?e)) = enrolled lay E"
      using a by (fastforce simp: enrolled_def fun_eq_iff)
    then show "kids_true lay (E(t := ?e)) (kids s')" using inv s'' by (simp add: sys_inv_def kids_true_def)
    show "total s' = total s + (D t - D t)"
      using total_new [OF fin dead, of "replicate n 0"] s'' by (simp add: total_def sum_list_replicate)
  qed (use inv s'' c fin in \<open>simp_all add: sys_inv_def\<close>)
next
  note st = sys_inv_settles [OF inv, of t]
  have me: "\<forall>a. mem_true lay E (mem s) a" and fin: "finite (dom (mem s))"
    using inv by (auto simp: sys_inv_def)
  fix a c
  assume c: "code_of s t = Destroy a c"
  then obtain vs where a: "keeper lay a = Only t" "E t a = Some (Some vs, None)"
    and c': "settles lay t c ((E t)(a := None)) (L t) (D t + sum_list vs) (\<lambda>r d E L. L = None \<and> d = r)"
    using st by auto
  then have alive: "mem s a = Some vs" using me [THEN spec, of a] by (simp add: mem_true_def)
  then have s'': "s' = s\<lparr>mem := (mem s)(a := None), code_of := (code_of s)(t := c)\<rparr>"
    using s' c by (simp add: next_access_def)
  show ?thesis
  proof (rule step_inv [OF inv _ _ c'])
    show "\<forall>x. mem_true lay (E(t := (E t)(a := None))) (mem s') x"
    proof
      fix x show "mem_true lay (E(t := (E t)(a := None))) (mem s') x"
        using me [THEN spec, of x] a s'' by (auto simp: mem_true_def split: keeper.splits option.splits)
    qed
    have "enrolled lay (E(t := (E t)(a := None))) = enrolled lay E"
      using a by (fastforce simp: enrolled_def fun_eq_iff)
    then show "kids_true lay (E(t := (E t)(a := None))) (kids s')"
      using inv s'' by (simp add: sys_inv_def kids_true_def)
    show "total s' = total s + (D t - (D t + sum_list vs))"
      using total_gone [OF fin alive] s'' by (simp add: total_def)
  qed (use inv s'' c fin in \<open>simp_all add: sys_inv_def\<close>)
qed

lemma access_inv_locks:
  assumes inv: "sys_inv lay T tot E L D s" and s': "next_access t s = Some s'"
    and c: "(\<exists>m c. code_of s t = Lock m c) \<or> (\<exists>m c. code_of s t = Unlock m c) \<or>
      (\<exists>m k. code_of s t = Roll_call m k)"
  shows "\<exists>E L D. sys_inv lay T tot E L D s'"
  using c
proof (elim disjE exE)
  note st = sys_inv_settles [OF inv, of t]
  fix m c
  assume c: "code_of s t = Lock m c"
  then have "L t = None" using st by simp
  have free: "holder s m = None" and s'': "s' = s\<lparr>holder := (holder s)(m \<mapsto> t), code_of := (code_of s)(t := c)\<rparr>"
    using s' c by (auto simp: next_access_def split: if_splits)
  have "\<forall>k\<in>set (kids s m). 0 < width lay k \<and> (drained lay k \<longleftrightarrow> strong lay m)"
    using inv by (simp add: sys_inv_def kids_true_def)
  then have c': "settles lay t c (E t) (Some (m, kids s m)) (D t) (\<lambda>r d E L. L = None \<and> d = r)"
    using st c by simp
  have lt: "locks_true L (kids s) (holder s)" using inv by (simp add: sys_inv_def)
  then have none: "L u \<noteq> Some (m, ks)" for u ks
    using free unfolding locks_true_def by (metis option.distinct(1))
  have "locks_true (L(t := Some (m, kids s m))) (kids s) ((holder s)(m \<mapsto> t))"
    using lt \<open>L t = None\<close> none by (auto simp: locks_true_def)
  then show ?thesis
    by (intro step_inv [OF inv _ _ c']) (use inv s'' c in \<open>simp_all add: sys_inv_def total_def\<close>)
next
  note st = sys_inv_settles [OF inv, of t]
  fix m c
  assume c: "code_of s t = Unlock m c"
  then obtain ks where L: "L t = Some (m, ks)"
    and c': "settles lay t c (E t) None (D t) (\<lambda>r d E L. L = None \<and> d = r)"
    using st by auto
  have s'': "s' = s\<lparr>holder := (holder s)(m := None), code_of := (code_of s)(t := c)\<rparr>"
    using s' c by (simp add: next_access_def)
  have lt: "locks_true L (kids s) (holder s)" using inv by (simp add: sys_inv_def)
  have uniq: "u = t" if "L u = Some (m, k)" for u k
  proof -
    have "holder s m = Some u" "holder s m = Some t" using lt L that by (auto simp: locks_true_def)
    then show ?thesis by simp
  qed
  have "locks_true (L(t := None)) (kids s) ((holder s)(m := None))"
    using lt L uniq by (fastforce simp: locks_true_def)
  then show ?thesis
    by (intro step_inv [OF inv _ _ c']) (use inv s'' c in \<open>simp_all add: sys_inv_def total_def\<close>)
next
  note st = sys_inv_settles [OF inv, of t]
  fix m k
  assume c: "code_of s t = Roll_call m k"
  then obtain ks where L: "L t = Some (m, ks)"
    and c': "settles lay t (k ks) (E t) (L t) (D t) (\<lambda>r d E L. L = None \<and> d = r)"
    using st by auto
  have "ks = kids s m" using inv L by (auto simp: sys_inv_def locks_true_def)
  with c' show ?thesis
    by (intro read_inv [OF inv _ c']) (use c s' in \<open>auto simp: next_access_def\<close>)
qed

lemma enrolled_upd:
  assumes "keeper lay b = Only t"
  shows "enrolled lay (E(t := (E t)(b \<mapsto> (vo, e)))) m' b' \<longleftrightarrow>
      (if b' = b then e = Some m' else enrolled lay E m' b')"
proof (cases "b' = b")
  case True
  with assms show ?thesis by (auto simp: enrolled_def)
next
  case False
  then have "(E(t := (E t)(b \<mapsto> (vo, e)))) u b' = E u b'" for u by simp
  with False show ?thesis by (simp add: enrolled_def)
qed

lemma kids_true_iff:
  "kids_true lay E ch \<longleftrightarrow> (\<forall>m b. b \<in> set (ch m) \<longleftrightarrow> enrolled lay E m b) \<and>
     (\<forall>m b. enrolled lay E m b \<longrightarrow> 0 < width lay b \<and> (drained lay b \<longleftrightarrow> strong lay m))"
  by (auto simp: kids_true_def)

lemma mem_true_enrol:
  assumes "\<forall>a. mem_true lay E me a" and "E t b = Some (vo, e)"
  shows "\<forall>a. mem_true lay (E(t := (E t)(b \<mapsto> (vo, e')))) me a"
proof
  fix a show "mem_true lay (E(t := (E t)(b \<mapsto> (vo, e')))) me a"
    using assms(1) [THEN spec, of a] assms(2)
    by (cases "a = b") (auto simp: mem_true_def split: keeper.splits option.splits)
qed

text \<open>Only the thread that holds the serializer changes the set of children behind it.\<close>

lemma locks_true_kids:
  assumes lt: "locks_true L ch ho" and L: "L t = Some (m, ks)"
  shows "locks_true (L(t := Some (m, ks'))) (ch(m := ks')) ho"
proof -
  have uniq: "u = t" if "L u = Some (m, k)" for u k
  proof -
    have "ho m = Some u" "ho m = Some t" using lt L that by (auto simp: locks_true_def)
    then show ?thesis by simp
  qed
  have "ho m = Some t" using lt L by (auto simp: locks_true_def)
  with lt L show ?thesis by (auto simp: locks_true_def dest: uniq)
qed

lemma access_inv_kids:
  assumes inv: "sys_inv lay T tot E L D s" and s': "next_access t s = Some s'"
    and c: "(\<exists>m b k. code_of s t = Enrol m b k) \<or> (\<exists>m b k. code_of s t = Strike m b k)"
  shows "\<exists>E L D. sys_inv lay T tot E L D s'"
  using c
proof (elim disjE exE)
  note st = sys_inv_settles [OF inv, of t]
  have me: "\<forall>a. mem_true lay E (mem s) a" and kt: "kids_true lay E (kids s)"
    and lt: "locks_true L (kids s) (holder s)" using inv by (auto simp: sys_inv_def)
  fix m b k
  assume c: "code_of s t = Enrol m b k"
  then obtain ks vo where L: "L t = Some (m, ks)" and b: "keeper lay b = Only t" "E t b = Some (vo, None)"
      "0 < width lay b" "drained lay b \<longleftrightarrow> strong lay m"
    and c': "settles lay t (k True) ((E t)(b \<mapsto> (vo, Some m))) (Some (m, b # ks)) (D t)
      (\<lambda>r d E L. L = None \<and> d = r)"
    using st by auto
  have ks: "ks = kids s m" using lt L by (auto simp: locks_true_def)
  have "\<not> enrolled lay E m b" using b by (auto simp: enrolled_def)
  then have "b \<notin> set (kids s m)" using kt by (simp add: kids_true_def)
  then have s'': "s' = s\<lparr>kids := (kids s)(m := b # ks), code_of := (code_of s)(t := k True)\<rparr>"
    using s' c ks by (simp add: next_access_def)
  have "\<not> enrolled lay E m' b" for m' using b by (auto simp: enrolled_def)
  then have "kids_true lay (E(t := (E t)(b \<mapsto> (vo, Some m)))) (kids s')"
    using kt b ks s'' by (auto simp: kids_true_iff enrolled_upd split: if_splits)
  then show ?thesis
    by (intro step_inv [OF inv _ _ c'])
      (use inv s'' c mem_true_enrol [OF me b(2)] locks_true_kids [OF lt L] in \<open>simp_all add: sys_inv_def total_def\<close>)
next
  note st = sys_inv_settles [OF inv, of t]
  have me: "\<forall>a. mem_true lay E (mem s) a" and kt: "kids_true lay E (kids s)"
    and lt: "locks_true L (kids s) (holder s)" using inv by (auto simp: sys_inv_def)
  fix m b k
  assume c: "code_of s t = Strike m b k"
  then obtain ks vo where L: "L t = Some (m, ks)" and b: "keeper lay b = Only t" "E t b = Some (vo, Some m)"
    and c': "settles lay t (k True) ((E t)(b \<mapsto> (vo, None))) (Some (m, removeAll b ks)) (D t)
      (\<lambda>r d E L. L = None \<and> d = r)"
    using st by auto
  have ks: "ks = kids s m" using lt L by (auto simp: locks_true_def)
  have "enrolled lay E m b" using b by (auto simp: enrolled_def)
  then have "b \<in> set (kids s m)" using kt by (simp add: kids_true_def)
  then have s'': "s' = s\<lparr>kids := (kids s)(m := removeAll b ks), code_of := (code_of s)(t := k True)\<rparr>"
    using s' c ks by (simp add: next_access_def)
  have "enrolled lay E m' b \<Longrightarrow> m' = m" for m' using b by (auto simp: enrolled_def)
  then have "kids_true lay (E(t := (E t)(b \<mapsto> (vo, None)))) (kids s')"
    using kt b ks s'' by (auto simp: kids_true_iff enrolled_upd split: if_splits)
  then show ?thesis
    by (intro step_inv [OF inv _ _ c'])
      (use inv s'' c mem_true_enrol [OF me b(2)] locks_true_kids [OF lt L] in \<open>simp_all add: sys_inv_def total_def\<close>)
qed

theorem access_inv:
  assumes "sys_inv lay T tot E L D s" and "next_access t s = Some s'"
  shows "\<exists>E L D. sys_inv lay T tot E L D s'"
  using assms access_inv_counts [OF assms] access_inv_objects [OF assms] access_inv_locks [OF assms]
    access_inv_kids [OF assms]
  by (cases "code_of s t") (auto simp: next_access_def)

corollary schedule_inv:
  "\<exists>E L D. sys_inv lay T tot E L D s \<Longrightarrow> \<exists>E L D. sys_inv lay T tot E L D (run_schedule ts s)"
proof (induction ts arbitrary: s)
  case (Cons t ts)
  then have "\<exists>E L D. sys_inv lay T tot E L D (case next_access t s of None \<Rightarrow> s | Some s' \<Rightarrow> s')"
    using access_inv by (fastforce split: option.split)
  then show ?case using Cons.IH by simp
qed simp

end
