(* ===== verification/Counter_Programs.thy ===== *)
theory Counter_Programs
  imports Counter_Logic
begin

text \<open>
  What the counters promise to any number of threads that call them: no count is lost or made up, and
  every program comes to its end. The calls a thread may make are those the comments in
  \<open>include/counter.h\<close> allow: objects with less than full atomicity are used by the thread that keeps
  them, and primes outlive their buffers and brokers.
\<close>

section \<open>Progress and termination\<close>

primrec subs :: "'i code \<Rightarrow> 'i code set" where
  "subs (Finish r) = {}"
| "subs Crash = {}"
| "subs (Load_at a i k) = insert Crash (range k)"
| "subs (Store_at a i v c) = {Crash, c}"
| "subs (Fetch_add a i v c) = {Crash, c}"
| "subs (Swap_at a i v k) = insert Crash (range k)"
| "subs (Create a n c) = {Crash, c}"
| "subs (Destroy a c) = {Crash, c}"
| "subs (Lock m c) = {Crash, c}"
| "subs (Unlock m c) = {Crash, c}"
| "subs (Enrol m b k) = insert Crash (range k)"
| "subs (Strike m b k) = insert Crash (range k)"
| "subs (Roll_call m k) = insert Crash (range k)"

lemma wf_subs: "wf {(c', c). c' \<in> subs c}"
proof (rule wfUNIVI)
  fix P :: "'i code \<Rightarrow> bool" and c
  assume "\<forall>c. (\<forall>c'. (c', c) \<in> {(c', c). c' \<in> subs c} \<longrightarrow> P c') \<longrightarrow> P c"
  then have step: "(\<And>c'. c' \<in> subs c \<Longrightarrow> P c') \<Longrightarrow> P c" for c by blast
  have "P Crash" by (rule step) simp
  then show "P c" by (induction c) (rule step; auto)+
qed

lemma access_to_subs:
  "next_access t s = Some s' \<Longrightarrow>
     (\<exists>c \<in> subs (code_of s t). code_of s' = (code_of s)(t := c))"
  by (cases "code_of s t")
    (fastforce simp: next_access_def split: option.splits if_splits)+

definition access :: "thread set \<Rightarrow> (('i::comm_ring_1) csys \<times> 'i csys) set" where
  "access T = {(s', s). \<exists>t\<in>T. next_access t s = Some s'}"

lemma wf_access:
  fixes T :: "thread set"
  assumes "finite T"
  shows "wf (access T :: (('i::comm_ring_1) csys \<times> 'i csys) set)"
proof -
  let ?r = "{(c', c :: 'i code). c' \<in> subs c}"
  let ?m = "\<lambda>s :: 'i csys. image_mset (code_of s) (mset_set T)"
  have "(?m s', ?m s) \<in> mult ?r" if "(s', s) \<in> access T" for s' s
  proof -
    from that obtain t where t: "t \<in> T" and st: "next_access t s = Some s'" by (auto simp: access_def)
    obtain c where c: "c \<in> subs (code_of s t)" "code_of s' = (code_of s)(t := c)"
      using access_to_subs [OF st] by blast
    let ?M = "image_mset (code_of s) (mset_set (T - {t}))"
    have "mset_set T = add_mset t (mset_set (T - {t}))"
      using assms t by (simp add: mset_set.remove)
    moreover have "image_mset (code_of s') (mset_set (T - {t})) = ?M"
      using c(2) assms by (intro image_mset_cong) auto
    ultimately have "?m s = ?M + {#code_of s t#}" "?m s' = ?M + {#c#}" using c(2) by auto
    moreover have "(?M + {#c#}, ?M + {#code_of s t#}) \<in> mult ?r"
      using c(1) by (intro one_step_implies_mult) auto
    ultimately show ?thesis by simp
  qed
  then have "access T \<subseteq> inv_image (mult ?r) ?m" by auto
  then show ?thesis by (rule wf_subset [rotated]) (intro wf_inv_image wf_mult wf_subs)
qed

lemma unfinished_enabled:
  assumes inv: "sys_inv lay T tot E L D s" and "\<not> finished s"
  shows "\<exists>t\<in>T. next_access t s \<noteq> None"
proof -
  have en: "\<exists>t\<in>T. next_access t s \<noteq> None" if "next_access t s \<noteq> None" for t
    using that inv by (cases "t \<in> T") (auto simp: sys_inv_def next_access_def)
  obtain t where t: "\<not> (\<exists>r. code_of s t = Finish r)" using assms(2) by (auto simp: finished_def)
  note st = sys_inv_settles [OF inv]
  show ?thesis
  proof (cases "next_access t s")
    case None
    with t st [of t] obtain m c u where "code_of s t = Lock m c" and "holder s m = Some u"
      by (cases "code_of s t") (auto simp: next_access_def goes_on_def split: option.splits if_splits)
    then obtain ks where "L u = Some (m, ks)"
      using inv by (auto simp: sys_inv_def locks_true_def)
    then have "next_access u s \<noteq> None"
      using st [of u] by (cases "code_of s u")
        (auto simp: next_access_def goes_on_def split: option.splits if_splits)
    then show ?thesis by (rule en)
  qed (use en [of t] in simp)
qed

lemma can_finish:
  assumes "\<exists>E L D. sys_inv lay T tot E L D s" and "finite T"
  shows "\<exists>us. finished (run_schedule us s)"
  using wf_access [OF assms(2)] assms(1)
proof (induction s rule: wf_induct_rule)
  case (less s)
  show ?case
  proof (cases "finished s")
    case False
    then obtain t where t: "t \<in> T" "next_access t s \<noteq> None"
      using unfinished_enabled less.prems by blast
    then obtain s' where s': "next_access t s = Some s'" by blast
    with t have "(s', s) \<in> access T" by (auto simp: access_def)
    moreover have "\<exists>E L D. sys_inv lay T tot E L D s'"
      using less.prems access_inv [OF _ s'] by blast
    ultimately obtain us where "finished (run_schedule us s')" using less.IH by blast
    then have "finished (run_schedule (t # us) s)" using s' by simp
    then show ?thesis by blast
  qed (auto intro: exI [of _ "[]"])
qed

section \<open>The calls a thread may make\<close>

text \<open>A roster lists the objects a thread keeps and the duplex counter each is enrolled with.\<close>

type_synonym roster = "obj \<Rightarrow> obj option option"

definition may_update :: "layout \<Rightarrow> thread \<Rightarrow> roster \<Rightarrow> atomicity \<Rightarrow> obj \<Rightarrow> bool" where
  "may_update lay t A l a \<longleftrightarrow> (keeper lay a = Everybody \<and> l = At_full) \<or>
     (keeper lay a = Only t \<and> A a \<noteq> None \<and> (drained lay a \<longrightarrow> l = At_full))"

definition may_read :: "layout \<Rightarrow> thread \<Rightarrow> roster \<Rightarrow> obj \<Rightarrow> bool" where
  "may_read lay t A a \<longleftrightarrow> keeper lay a = Everybody \<or> (keeper lay a = Only t \<and> A a \<noteq> None)"

definition may_build :: "layout \<Rightarrow> thread \<Rightarrow> roster \<Rightarrow> obj \<Rightarrow> nat \<Rightarrow> bool \<Rightarrow> bool" where
  "may_build lay t A b n dr \<longleftrightarrow> keeper lay b = Only t \<and> A b = None \<and> width lay b = n \<and>
     0 < n \<and> drained lay b = dr"

definition may_drop :: "layout \<Rightarrow> thread \<Rightarrow> roster \<Rightarrow> obj \<Rightarrow> obj option \<Rightarrow> bool" where
  "may_drop lay t A b e \<longleftrightarrow> keeper lay b = Only t \<and> A b = Some e \<and> \<not> drained lay b"

definition is_duplex :: "layout \<Rightarrow> obj \<Rightarrow> bool \<Rightarrow> bool" where
  "is_duplex lay p st \<longleftrightarrow> keeper lay p = Everybody \<and> 0 < width lay p \<and> strong lay p = st"

fun allowed :: "layout \<Rightarrow> thread \<Rightarrow> roster \<Rightarrow> 'i call \<Rightarrow> bool" where
  "allowed lay t A (Add l a i v) = (may_update lay t A l a \<and> i < width lay a)"
| "allowed lay t A (Sub l a i v) = (may_update lay t A l a \<and> i < width lay a)"
| "allowed lay t A (Incr l a i) = (may_update lay t A l a \<and> i < width lay a)"
| "allowed lay t A (Decr l a i) = (may_update lay t A l a \<and> i < width lay a)"
| "allowed lay t A (Load_count a i) = (may_read lay t A a \<and> i < width lay a)"
| "allowed lay t A (Exchange l a i v) = (may_update lay t A l a \<and> i < width lay a)"
| "allowed lay t A (New_buffer b) = may_build lay t A b 1 False"
| "allowed lay t A (Push pl bl p b) = (may_update lay t A pl p \<and> 0 < width lay p \<and>
     may_update lay t A bl b \<and> 0 < width lay b)"
| "allowed lay t A (Delete_buffer pl bl p b) = (may_update lay t A pl p \<and> 0 < width lay p \<and>
     may_drop lay t A b None \<and> width lay b = 1 \<and> p \<noteq> b)"
| "allowed lay t A (New_array b n) = may_build lay t A b n False"
| "allowed lay t A (Push_array_at pl bl p b i) = (may_update lay t A pl p \<and> i < width lay p \<and>
     may_update lay t A bl b \<and> i < width lay b)"
| "allowed lay t A (Push_array pl bl p b n) = (may_update lay t A pl p \<and> n \<le> width lay p \<and>
     may_update lay t A bl b \<and> n \<le> width lay b)"
| "allowed lay t A (Delete_array pl bl p b n) = (may_update lay t A pl p \<and> n \<le> width lay p \<and>
     may_drop lay t A b None \<and> width lay b = n \<and> p \<noteq> b)"
| "allowed lay t A (New_strong_broker p b) = (is_duplex lay p True \<and> may_build lay t A b 1 True)"
| "allowed lay t A (Load_strong p) = is_duplex lay p True"
| "allowed lay t A (Exchange_strong p v) = is_duplex lay p True"
| "allowed lay t A (New_weak_broker p b) = (is_duplex lay p False \<and> may_build lay t A b 1 False)"
| "allowed lay t A (Load_weak p) = is_duplex lay p False"
| "allowed lay t A (Delete_weak_broker p b) = (is_duplex lay p False \<and> may_drop lay t A b (Some p) \<and>
     width lay b = 1)"

fun roster_after :: "roster \<Rightarrow> 'i call \<Rightarrow> roster" where
  "roster_after A (New_buffer b) = A(b \<mapsto> None)"
| "roster_after A (Delete_buffer pl bl p b) = A(b := None)"
| "roster_after A (New_array b n) = A(b \<mapsto> None)"
| "roster_after A (Delete_array pl bl p b n) = A(b := None)"
| "roster_after A (New_strong_broker p b) = A(b \<mapsto> Some p)"
| "roster_after A (New_weak_broker p b) = A(b \<mapsto> Some p)"
| "roster_after A (Delete_weak_broker p b) = A(b := None)"
| "roster_after A _ = A"

fun all_allowed :: "layout \<Rightarrow> thread \<Rightarrow> roster \<Rightarrow> 'i call list \<Rightarrow> bool" where
  "all_allowed lay t A [] = True"
| "all_allowed lay t A (c # cs) = (allowed lay t A c \<and> all_allowed lay t (roster_after A c) cs)"

section \<open>Every method settles\<close>

definition fits_at :: "layout \<Rightarrow> thread \<Rightarrow> obj option option \<Rightarrow> ('i list option \<times> obj option) option \<Rightarrow> obj \<Rightarrow> bool" where
  "fits_at lay t r k a \<longleftrightarrow> (case k of None \<Rightarrow> r = None
     | Some (vo, e) \<Rightarrow> keeper lay a = Only t \<and> r = Some e \<and> (drained lay a \<longleftrightarrow> vo = None) \<and>
         (\<forall>vs. vo = Some vs \<longrightarrow> length vs = width lay a))"

definition fits :: "layout \<Rightarrow> thread \<Rightarrow> roster \<Rightarrow> 'i know \<Rightarrow> bool" where
  "fits lay t A E \<longleftrightarrow> (\<forall>a. fits_at lay t (A a) (E a) a)"

lemma fits_learn [intro]: "fits lay t A E \<Longrightarrow> fits lay t A (learn lay t a i v E)"
  by (fastforce simp: fits_def fits_at_def learn_def knows_def split: option.splits if_splits)

lemma learn_other [simp]: "x \<noteq> a \<Longrightarrow> learn lay t a i v E x = E x"
  by (auto simp: learn_def split: option.splits)

lemma fits_None: "fits lay t A E \<Longrightarrow> A a = None \<Longrightarrow> E a = None"
  by (cases "E a") (auto simp: fits_def fits_at_def dest!: spec [of _ a])

lemma fits_Some: "fits lay t A E \<Longrightarrow> A a = Some e \<Longrightarrow>
    \<exists>vo. E a = Some (vo, e) \<and> keeper lay a = Only t \<and> (drained lay a \<longleftrightarrow> vo = None) \<and>
      (\<forall>vs. vo = Some vs \<longrightarrow> length vs = width lay a)"
  by (auto simp: fits_def fits_at_def split: option.splits dest!: spec [of _ a])

lemma fits_knows:
  assumes "fits lay t A E" and "keeper lay a = Only t" and "A a = Some e" and "\<not> drained lay a"
  obtains vs where "E a = Some (Some vs, e)" and "length vs = width lay a" and "knows lay t E a = Some vs"
  using fits_Some [OF assms(1,3)] assms(2,4) by (auto simp: knows_def)

lemma may_update_writes:
  "fits lay t A E \<Longrightarrow> may_update lay t A l a \<Longrightarrow> writes lay t E L a"
  by (auto simp: may_update_def writes_def reaches_def knows_def dest: fits_Some)

lemma may_update_knows:
  assumes "fits lay t A E" and "may_update lay t A l a" and "l \<noteq> At_full"
  obtains vs where "knows lay t E a = Some vs" and "reaches lay t E L a"
  using assms by (auto simp: may_update_def reaches_def knows_def dest!: fits_Some)

lemma settles_add:
  assumes "fits lay t A E" and "may_update lay t A l a" and "i < width lay a"
    and "\<And>w. Q 0 (d - by) (learn lay t a i w E) L"
  shows "settles lay t (bumper_add l a i by) E L d Q"
proof (cases "l = At_full")
  case True
  with assms may_update_writes show ?thesis by auto
next
  case False
  then obtain vs where "knows lay t E a = Some vs" and "reaches lay t E L a"
    using may_update_knows assms by blast
  with False assms show ?thesis by (cases l) auto
qed

lemma settles_sub:
  assumes "fits lay t A E" and "may_update lay t A l a" and "i < width lay a"
    and "\<And>w. Q 0 (d + by) (learn lay t a i w E) L"
  shows "settles lay t (bumper_sub l a i by) E L d Q"
proof (cases "l = At_full")
  case True
  with assms may_update_writes show ?thesis by auto
next
  case False
  then obtain vs where "knows lay t E a = Some vs" and "reaches lay t E L a"
    using may_update_knows assms by blast
  with False assms show ?thesis by (cases l) auto
qed

lemma settles_exchange:
  assumes "fits lay t A E" and "may_update lay t A l a" and "i < width lay a"
    and "\<And>w. Q w (d - (v - w)) (learn lay t a i v E) L"
  shows "settles lay t (bumper_exchange l a i v) E L d Q"
proof (cases "l = At_full")
  case True
  with assms may_update_writes show ?thesis by auto
next
  case False
  then obtain vs where "knows lay t E a = Some vs" and "reaches lay t E L a"
    using may_update_knows assms by blast
  with False assms show ?thesis by (cases l) auto
qed

lemma settles_load:
  assumes "may_read lay t A a" and "fits lay t A E" and "i < width lay a" and "\<And>v. Q v d E L"
  shows "settles lay t (bumper_load a i) E L d Q"
  using assms by (auto simp: bumper_load_def may_read_def reaches_def dest: fits_Some)

lemma learn_self:
  assumes "fits lay t A E" and "keeper lay b = Only t" and "E b = Some (Some vs, e)"
  shows "learn lay t b i v E b = Some (Some (vs[i := v]), e)"
  using assms by (simp add: learn_def knows_def)

text \<open>A push moves the count at one index from the buffer to its prime.\<close>

lemma settles_push_at:
  assumes f: "fits lay t A E" and p: "may_update lay t A pl p" "i < width lay p"
    and b: "may_update lay t A bl b" "i < width lay b"
    and Q: "\<And>E'. fits lay t A E' \<Longrightarrow> (p \<noteq> b \<Longrightarrow> E' b = learn lay t b i 0 E b) \<Longrightarrow> Q 0 d E' L"
  shows "settles lay t (buffer_array_push_at pl bl p b i) E L d Q"
  unfolding buffer_array_push_at_def settles_and_then
proof (rule settles_exchange [OF f b])
  fix w
  have f': "fits lay t A (learn lay t b i 0 E)" using f by blast
  show "settles lay t (if w \<noteq> 0 then bumper_add pl p i w else Finish 0)
      (learn lay t b i 0 E) L (d - (0 - w)) Q"
  proof (cases "w = 0")
    case True
    then show ?thesis using Q [OF f'] by simp
  next
    case False
    have "settles lay t (bumper_add pl p i w) (learn lay t b i 0 E) L (d - (0 - w)) Q"
      by (rule settles_add [OF f' p]) (use f' in \<open>auto intro!: Q\<close>)
    with False show ?thesis by simp
  qed
qed

definition cleared :: "obj \<Rightarrow> nat \<Rightarrow> ('i::comm_ring_1) know \<Rightarrow> bool" where
  "cleared b n E \<longleftrightarrow> (\<forall>vs e. E b = Some (Some vs, e) \<longrightarrow> (\<forall>j<n. vs ! j = 0))"

lemma cleared_0 [simp]: "cleared b 0 E"
  by (simp add: cleared_def)

lemma cleared_learn:
  assumes f: "fits lay t A E" and b: "may_update lay t A bl b" "i < width lay b" and "cleared b i E"
    and E': "E' b = learn lay t b i 0 E b"
  shows "cleared b (Suc i) E'"
  unfolding cleared_def
proof (intro allI impI)
  fix vs e j
  assume vs: "E' b = Some (Some vs, e)" and j: "j < Suc i"
  show "vs ! j = 0"
  proof (cases "E b")
    case None
    then show ?thesis using vs E' by (auto simp: learn_def knows_def split: if_splits)
  next
    case (Some ve)
    then obtain vo e' where ve: "E b = Some (vo, e')" by (cases ve) auto
    then have k: "keeper lay b = Only t" and len: "\<And>ws. vo = Some ws \<Longrightarrow> length ws = width lay b"
      using f by (auto simp: fits_def fits_at_def dest!: spec [of _ b])
    show ?thesis
    proof (cases vo)
      case None
      then show ?thesis using ve vs E' by (auto simp: learn_def knows_def split: if_splits)
    next
      case (Some ws)
      then have "vs = ws[i := 0]" using learn_self [OF f k] ve vs E' by simp
      then show ?thesis using assms(4) ve Some len b j by (auto simp: cleared_def less_Suc_eq)
    qed
  qed
qed

lemma settles_push_from:
  assumes "fits lay t A E" and "may_update lay t A pl p" "i + n \<le> width lay p"
    and "may_update lay t A bl b" "i + n \<le> width lay b"
    and "p \<noteq> b \<Longrightarrow> cleared b i E"
    and "\<And>E'. fits lay t A E' \<Longrightarrow> (p \<noteq> b \<Longrightarrow> cleared b (i + n) E') \<Longrightarrow> Q 0 d E' L"
  shows "settles lay t (push_from pl bl p b i n) E L d Q"
  using assms
proof (induction n arbitrary: i E)
  case (Suc n)
  have "settles lay t (buffer_array_push_at pl bl p b i) E L d
      (\<lambda>r d E L. settles lay t (push_from pl bl p b (i + 1) n) E L d Q)"
  proof (rule settles_push_at [OF Suc.prems(1,2) _ Suc.prems(4)])
    fix E' assume E': "fits lay t A E'" "p \<noteq> b \<Longrightarrow> E' b = learn lay t b i 0 E b"
    show "settles lay t (push_from pl bl p b (i + 1) n) E' L d Q"
    proof (rule Suc.IH [OF E'(1) Suc.prems(2) _ Suc.prems(4)])
      show "cleared b (i + 1) E'" if "p \<noteq> b"
        using cleared_learn [where E' = E', OF Suc.prems(1,4)] E'(2) Suc.prems(5,6) that by simp
    qed (use Suc.prems in auto)
  qed (use Suc.prems in auto)
  then show ?case by (simp add: settles_and_then)
qed simp

lemma counter_push_array: "counter_push pl bl p b = buffer_array_push_at pl bl p b 0"
  by (simp add: counter_push_def buffer_array_push_at_def)

lemma push_from_1: "settles lay t (push_from pl bl p b 0 1) E L d Q \<longleftrightarrow>
    settles lay t (counter_push pl bl p b) E L d (\<lambda>r d E L. Q 0 d E L)"
  by (simp add: settles_and_then counter_push_array)

lemma fits_drop: "fits lay t A E \<Longrightarrow> fits lay t (A(b := None)) (E(b := None))"
  by (auto simp: fits_def) (simp add: fits_at_def)

lemma settles_destroy:
  assumes f: "fits lay t A E" and b: "may_drop lay t A b None" and c: "cleared b (width lay b) E"
    and Q: "\<And>E'. fits lay t (A(b := None)) E' \<Longrightarrow> Q 0 d E' L"
  shows "settles lay t (Destroy b (Finish 0)) E L d Q"
proof -
  have b': "keeper lay b = Only t" "A b = Some None" "\<not> drained lay b"
    using b by (auto simp: may_drop_def)
  obtain vs where vs: "E b = Some (Some vs, None)" "length vs = width lay b"
    using fits_knows [OF f b'] by blast
  then have "vs = replicate (width lay b) 0" using c by (auto simp: cleared_def intro: nth_equalityI)
  then have "sum_list vs = 0" by (simp add: sum_list_replicate)
  then show ?thesis using vs b' Q [OF fits_drop [OF f]] by simp
qed

lemma fits_build:
  "fits lay t A E \<Longrightarrow> may_build lay t A b n dr \<Longrightarrow>
     fits lay t (A(b \<mapsto> e)) (E(b \<mapsto> (if dr then None else Some (replicate n 0), e)))"
  by (auto simp: fits_def may_build_def) (auto simp: fits_at_def)

lemma settles_build:
  assumes f: "fits lay t A E" and b: "may_build lay t A b n dr"
    and c: "settles lay t c (E(b \<mapsto> (if dr then None else Some (replicate n 0), None))) L d Q"
  shows "settles lay t (Create b n c) E L d Q"
  using assms fits_None [OF f, of b] by (auto simp: may_build_def)

text \<open>The two \<open>insert\<close> methods are the same code; so are the loops of the two \<open>load\<close> methods.\<close>

lemma settles_insert:
  assumes f: "fits lay t A E" and p: "is_duplex lay p dr" and b: "may_build lay t A b n dr"
    and Q: "\<And>E'. fits lay t (A(b \<mapsto> Some p)) E' \<Longrightarrow> Q 0 d E' None"
  shows "settles lay t (Create b n (strong_insert p b)) E None d Q"
proof (rule settles_build [OF f b])
  show "settles lay t (strong_insert p b) (E(b \<mapsto> (if dr then None else Some (replicate n 0), None))) None d Q"
    using p b Q [OF fits_build [OF f b, of "Some p"]]
    by (auto simp: strong_insert_def assert_then_def is_duplex_def may_build_def)
qed

lemma settles_poll_all:
  assumes "set cs \<subseteq> set ks" and "\<forall>k\<in>set ks. 0 < width lay k" and "\<And>v. Q v d E (Some (m, ks))"
  shows "settles lay t (poll_all cs tmp) E (Some (m, ks)) d Q"
  using assms(1)
proof (induction cs arbitrary: tmp)
  case (Cons c cs)
  then show ?case using assms(2)
    by (auto simp: settles_and_then bumper_load_def reaches_def)
qed (simp add: assms(3))

lemma settles_drain_all:
  assumes "set cs \<subseteq> set ks" and "\<forall>k\<in>set ks. 0 < width lay k \<and> drained lay k" and "fits lay t A E"
    and "\<And>v E'. fits lay t A E' \<Longrightarrow> Q (tmp + v) (d + v) E' (Some (m, ks))"
  shows "settles lay t (drain_all cs tmp) E (Some (m, ks)) d Q"
  using assms(1,3,4)
proof (induction cs arbitrary: tmp d E)
  case Nil
  then show ?case using Nil(3) [OF Nil(2), of 0] by simp
next
  case (Cons c cs)
  have "settles lay t (drain_all cs (tmp + v)) (learn lay t c 0 0 E) (Some (m, ks)) (d - (0 - v)) Q" for v
  proof (rule Cons.IH)
    fix w and E' :: "'a know" assume "fits lay t A E'"
    then show "Q (tmp + v + w) (d - (0 - v) + w) E' (Some (m, ks))"
      using Cons.prems(3) [of E' "v + w"] by (simp add: algebra_simps)
  qed (use Cons.prems in auto)
  moreover have "c \<in> set ks" using Cons.prems by simp
  ultimately show ?case using assms(2)
    by (simp add: settles_and_then writes_def reaches_def)
qed

lemma settles_strong_load:
  assumes "is_duplex lay p st" and "\<And>v. Q v d E None"
  shows "settles lay t (strong_load p) E None d Q"
  unfolding strong_load_def settles.simps settles_and_then
  using assms
  by (auto simp: is_duplex_def bumper_load_def reaches_def intro!: settles_poll_all)

lemma settles_weak_load:
  assumes "is_duplex lay p st" and "\<And>v. Q v d E None"
  shows "settles lay t (weak_load p) E None d Q"
  unfolding weak_load_def settles.simps settles_and_then
  using assms
  by (auto simp: is_duplex_def bumper_load_def reaches_def intro!: settles_poll_all)

lemma settles_strong_exchange:
  assumes f: "fits lay t A E" and p: "is_duplex lay p True"
    and Q: "\<And>v E'. fits lay t A E' \<Longrightarrow> Q v (d + v - new) E' None"
  shows "settles lay t (strong_exchange p new) E None d Q"
proof -
  have "settles lay t (Roll_call p (\<lambda>cs. and_then (drain_all cs 0)
     (\<lambda>tmp. Unlock p (and_then (bumper_exchange At_full p 0 new) (\<lambda>v. Finish (tmp + v))))))
     E (Some (p, ks)) d Q" if ks: "\<forall>k\<in>set ks. 0 < width lay k \<and> drained lay k" for ks
    unfolding settles.simps settles_and_then
  proof (intro exI conjI, rule refl, rule settles_drain_all [OF subset_refl ks f])
    fix v and E' :: "'a know" assume f': "fits lay t A E'"
    have "settles lay t (bumper_exchange At_full p 0 new) E' None (d + v)
        (\<lambda>r d E L. settles lay t (Finish (0 + v + r)) E L d Q)"
    proof (rule settles_exchange [OF f'])
      fix w
      show "settles lay t (Finish (0 + v + w)) (learn lay t p 0 new E') None (d + v - (new - w)) Q"
        using Q [OF fits_learn [OF f'], of "v + w"] by (simp add: algebra_simps)
    qed (use p in \<open>auto simp: is_duplex_def may_update_def\<close>)
    then show "\<exists>ks'. Some (p, ks) = Some (p, ks') \<and>
        settles lay t (bumper_exchange At_full p 0 new) E' None (d + v) (\<lambda>r. Q (0 + v + r))" by simp
  qed
  then show ?thesis using p by (auto simp: strong_exchange_def is_duplex_def)
qed

lemma settles_weak_broker_delete:
  assumes f: "fits lay t A E" and p: "is_duplex lay p False"
    and b: "may_drop lay t A b (Some p)" "width lay b = 1"
    and Q: "\<And>E'. fits lay t (A(b := None)) E' \<Longrightarrow> Q 0 d E' None"
  shows "settles lay t (weak_broker_delete p b) E None d Q"
proof -
  have b': "keeper lay b = Only t" "A b = Some (Some p)" "\<not> drained lay b"
    using b by (auto simp: may_drop_def)
  obtain vs where vs: "E b = Some (Some vs, Some p)" "length vs = width lay b" "knows lay t E b = Some vs"
    using fits_knows [OF f b'] by blast
  then obtain v where v: "vs = [v]" using b(2) by (cases vs) auto
  have l: "learn lay t p 0 w E = E" for w
    using p by (simp add: learn_def knows_def is_duplex_def)
  have "settles lay t (weak_erase p b v) E None d (\<lambda>r d E L. settles lay t (Destroy b (Finish 0)) E L d Q)"
    using vs v b b' p l Q [OF fits_drop [OF f]]
    by (auto simp: weak_erase_def is_duplex_def writes_def reaches_def assert_then_def)
  then show ?thesis
    using vs v b b' by (simp add: weak_broker_delete_def settles_and_then bumper_load_def reaches_def)
qed

lemma may_drop_update: "may_drop lay t A b e \<Longrightarrow> may_update lay t A l b"
  by (auto simp: may_drop_def may_update_def)

lemma settles_delete_array:
  assumes f: "fits lay t A E" and p: "may_update lay t A pl p" "width lay b \<le> width lay p" "p \<noteq> b"
    and b: "may_drop lay t A b None"
    and Q: "\<And>E'. fits lay t (A(b := None)) E' \<Longrightarrow> Q 0 d E' L"
  shows "settles lay t (push_from pl bl p b 0 (width lay b)) E L d
     (\<lambda>r d E L. settles lay t (Destroy b (Finish 0)) E L d Q)"
proof (rule settles_push_from [OF f p(1)])
  fix E' :: "'a know" assume "fits lay t A E'" and "p \<noteq> b \<Longrightarrow> cleared b (0 + width lay b) E'"
  then show "settles lay t (Destroy b (Finish 0)) E' L d Q"
    using p(3) by (intro settles_destroy [OF _ b] Q) simp_all
qed (use may_drop_update [OF b] p in \<open>auto simp: cleared_def\<close>)

abbreviation accounts :: "layout \<Rightarrow> thread \<Rightarrow> roster \<Rightarrow> ('i::comm_ring_1) call \<Rightarrow> 'i know \<Rightarrow> 'i \<Rightarrow> bool" where
  "accounts lay t A c E d \<equiv> settles lay t (method_of c) E None d
     (\<lambda>r d' E' L'. L' = None \<and> fits lay t (roster_after A c) E' \<and> d' + credit c = d + extracted c r)"

lemma settles_method:
  fixes c :: "('i::comm_ring_1) call"
  assumes a: "allowed lay t A c" and f: "fits lay t A E"
  shows "accounts lay t A c E d"
proof (cases c)
  case (New_buffer b)
  then have b: "may_build lay t A b 1 False" using a by simp
  have "settles lay t (Create b 1 (Finish 0)) E None d
      (\<lambda>r d' E' L'. L' = None \<and> fits lay t (A(b \<mapsto> None)) E' \<and> d' = d)"
    by (rule settles_build [OF f b]) (use fits_build [OF f b] in simp)
  with New_buffer show ?thesis by (simp add: buffer_new_def del: settles.simps)
next
  case (New_array b n)
  then have b: "may_build lay t A b n False" using a by simp
  have "settles lay t (Create b n (Finish 0)) E None d
      (\<lambda>r d' E' L'. L' = None \<and> fits lay t (A(b \<mapsto> None)) E' \<and> d' = d)"
    by (rule settles_build [OF f b]) (use fits_build [OF f b] in simp)
  with New_array show ?thesis by (simp add: bumper_array_new_def del: settles.simps)
next
  case (Delete_buffer pl bl p b)
  then have b: "width lay b = 1" "may_drop lay t A b None" using a by auto
  have "settles lay t (push_from pl bl p b 0 (width lay b)) E None d
     (\<lambda>r e E L. settles lay t (Destroy b (Finish 0)) E L e
      (\<lambda>r d' E' L'. L' = None \<and> fits lay t (A(b := None)) E' \<and> d' = d))"
    by (rule settles_delete_array [OF f _ _ _ b(2)]) (use a Delete_buffer in auto)
  with Delete_buffer show ?thesis
    by (simp add: buffer_delete_def settles_and_then b(1) push_from_1 [unfolded One_nat_def]
        del: settles.simps push_from.simps)
next
  case (Delete_array pl bl p b n)
  then have b: "width lay b = n" "may_drop lay t A b None" using a by auto
  have "settles lay t (push_from pl bl p b 0 n) E None d (\<lambda>r e E L. settles lay t (Destroy b (Finish 0)) E L e
      (\<lambda>r d' E' L'. L' = None \<and> fits lay t (A(b := None)) E' \<and> d' = d))"
    by (rule settles_delete_array [OF f _ _ _ b(2), unfolded b(1)]) (use a Delete_array in auto)
  with Delete_array show ?thesis
    by (simp add: buffer_array_delete_def buffer_array_push_def settles_and_then del: settles.simps)
qed (use a f in \<open>auto simp: bumper_incr_def bumper_decr_def counter_push_array buffer_array_push_def
      strong_broker_new_def weak_broker_new_def weak_insert_def [folded strong_insert_def]
      simp del: settles.simps
      intro!: settles_add settles_sub settles_exchange settles_load settles_push_at settles_push_from
        settles_insert settles_strong_load settles_weak_load settles_strong_exchange
        settles_weak_broker_delete\<close>)

lemma settles_program:
  "all_allowed lay t A cs \<Longrightarrow> fits lay t A E \<Longrightarrow>
     settles lay t (program cs) E None d (\<lambda>r d' E' L'. L' = None \<and> d' + sum_list (map credit cs) = d + r)"
proof (induction cs arbitrary: A E d)
  case (Cons c cs)
  have "accounts lay t A c E d" using Cons.prems by (intro settles_method) simp_all
  then have "settles lay t (method_of c) E None d (\<lambda>r d E L. settles lay t
      (and_then (program cs) (\<lambda>x. Finish (extracted c r + x))) E L d
      (\<lambda>r d' E' L'. L' = None \<and> d' + sum_list (map credit (c # cs)) = e + r))" if "e = d" for e
  proof (rule settles_mono)
    fix r d' and L' :: held and E' :: "'a know"
    assume *: "L' = None \<and> fits lay t (roster_after A c) E' \<and> d' + credit c = d + extracted c r"
    have "settles lay t (program cs) E' L' d' (\<lambda>x d'' E'' L''. L'' = None \<and> d'' + sum_list (map credit cs) = d' + x)"
      using Cons.IH [of "roster_after A c" E' d'] Cons.prems * by simp
    then show "settles lay t (and_then (program cs) (\<lambda>x. Finish (extracted c r + x))) E' L' d'
      (\<lambda>r d' E' L'. L' = None \<and> d' + sum_list (map credit (c # cs)) = e + r)"
      unfolding settles_and_then
    proof (rule settles_mono)
      fix x d'' and L'' :: held and E'' :: "'a know"
      assume "L'' = None \<and> d'' + sum_list (map credit cs) = d' + x"
      moreover from this have "d'' + (credit c + sum_list (map credit cs)) = (d' + credit c) + x"
        by (metis add.assoc add.commute)
      ultimately show "settles lay t (Finish (extracted c r + x)) E'' L'' d''
          (\<lambda>r d' E' L'. L' = None \<and> d' + sum_list (map credit (c # cs)) = e + r)"
        using * that by (simp add: add.assoc)
    qed
  qed
  then show ?case by (simp only: program.simps settles_and_then)
qed simp

section \<open>Systems of threads\<close>

text \<open>Threads \<open>T\<close>, each about to make its calls; everybody's objects exist, the others are still to be
  built.\<close>

definition counters_start :: "layout \<Rightarrow> thread set \<Rightarrow> (thread \<Rightarrow> ('i::comm_ring_1) call list) \<Rightarrow> 'i csys \<Rightarrow> bool" where
  "counters_start lay T calls s \<longleftrightarrow> finite T \<and> finite (dom (mem s)) \<and>
     (\<forall>t. code_of s t = (if t \<in> T then program (calls t) else Finish 0)) \<and>
     (\<forall>a. if keeper lay a = Everybody then (\<exists>vs. mem s a = Some vs \<and> length vs = width lay a)
        else mem s a = None) \<and>
     (\<forall>m. kids s m = [] \<and> holder s m = None)"

fun result_of :: "('i::comm_ring_1) code \<Rightarrow> 'i" where
  "result_of (Finish r) = r"
| "result_of _ = 0"

lemma start_inv:
  assumes "counters_start lay T calls s" and "\<And>t. t \<in> T \<Longrightarrow> all_allowed lay t (\<lambda>_. None) (calls t)"
  shows "sys_inv lay T (total s + (\<Sum>t\<in>T. sum_list (map credit (calls t)))) (\<lambda>_ _. None) (\<lambda>_. None)
    (\<lambda>t. if t \<in> T then sum_list (map credit (calls t)) else 0) s"
proof -
  have "settles lay t (code_of s t) (\<lambda>_. None) None
      (if t \<in> T then sum_list (map credit (calls t)) else 0) (\<lambda>r d E L. L = None \<and> d = r)" for t
  proof (cases "t \<in> T")
    case True
    have "fits lay t (\<lambda>_. None) (\<lambda>_. None)" by (simp add: fits_def fits_at_def)
    note p = settles_program [OF assms(2) [OF True] this, of "sum_list (map credit (calls t))"]
    have "code_of s t = program (calls t)" using assms(1) True by (auto simp: counters_start_def)
    then show ?thesis using True settles_mono [OF p] by (simp add: add.commute)
  qed (use assms(1) in \<open>simp add: counters_start_def\<close>)
  moreover have "mem_true lay (\<lambda>_ _. None) (mem s) a" for a
    using assms(1) by (auto simp: counters_start_def mem_true_def split: keeper.split if_splits dest: spec [of _ a])
  ultimately show ?thesis using assms(1)
    by (auto simp: sys_inv_def codes_settle_def counters_start_def kids_true_def enrolled_def locks_true_def)
qed

lemma start_schedule_inv:
  assumes "counters_start lay T calls s" and "\<And>t. t \<in> T \<Longrightarrow> all_allowed lay t (\<lambda>_. None) (calls t)"
  shows "\<exists>E L D. sys_inv lay T (total s + (\<Sum>t\<in>T. sum_list (map credit (calls t)))) E L D (run_schedule ts s)"
  by (rule schedule_inv, intro exI, rule start_inv [OF assms])

text \<open>C13. No count is lost and none is counted twice: when all threads have come to the end of their calls,
  whatever the order of their accesses, the counts that are left plus the counts the exchanges returned
  are the counts at the start plus what the increments and exchanges put in. The calls are increments, loads and exchanges of
  counters, buffers and brokers, pushes, the making and destruction of buffers and of weak brokers, and the making of strong
  brokers, each allowed by the comments of counter.h: indices are in range, an object with less than full atomicity is
  used by the thread that keeps it, a strong broker is counted with full atomicity, duplexes and primes are alive from the
  start to the end. Not among the calls are the destruction of a strong broker, where the count is not conserved
  (\<open>strong_duplex_counts_twice\<close>), and the destruction of a duplex.\<close>

theorem counters_conserve:
  assumes "counters_start lay T calls s" and "\<And>t. t \<in> T \<Longrightarrow> all_allowed lay t (\<lambda>_. None) (calls t)"
    and "finished (run_schedule ts s)"
  shows "total (run_schedule ts s) + (\<Sum>t\<in>T. result_of (code_of (run_schedule ts s) t)) =
    total s + (\<Sum>t\<in>T. sum_list (map credit (calls t)))"
proof -
  let ?s = "run_schedule ts s"
  obtain E L D where inv: "sys_inv lay T (total s + (\<Sum>t\<in>T. sum_list (map credit (calls t)))) E L D ?s"
    using start_schedule_inv [OF assms(1,2)] by blast
  have "D t = result_of (code_of ?s t)" for t
  proof -
    obtain r where "code_of ?s t = Finish r" using assms(3) by (auto simp: finished_def)
    then show ?thesis using sys_inv_settles [OF inv, of t] by simp
  qed
  then show ?thesis using inv by (simp add: sys_inv_def)
qed

text \<open>C27. The counters never block for good: after any accesses of any threads, all programs can be run to
  their end, without an access to an object that is not alive and without a failing assertion.\<close>

theorem counters_finish:
  assumes "counters_start lay T calls s" and "\<And>t. t \<in> T \<Longrightarrow> all_allowed lay t (\<lambda>_. None) (calls t)"
  shows "\<exists>us. finished (run_schedule (ts @ us) s)"
proof -
  have "\<exists>E L D. sys_inv lay T (total s + (\<Sum>t\<in>T. sum_list (map credit (calls t)))) E L D (run_schedule ts s)"
    using start_schedule_inv [OF assms] .
  then have "\<exists>us. finished (run_schedule us (run_schedule ts s))"
    by (rule can_finish) (use assms(1) in \<open>simp add: counters_start_def\<close>)
  then show ?thesis by (simp add: run_schedule_append)
qed

section \<open>A system at work\<close>

text \<open>A weak duplex counter 0 and a strong one 3. Thread 0 counts through brokers, thread 1 through a
  buffer, and then takes the count out of the strong counter.\<close>

definition demo_layout :: layout where
  "demo_layout = \<lparr>keeper = (\<lambda>a. if a = 0 \<or> a = 3 then Everybody else if a = 1 \<or> a = 4 then Only 0
       else if a = 2 then Only 1 else Nobody),
     drained = (\<lambda>a. a = 4), width = (\<lambda>_. 1), strong = (\<lambda>a. a = 3)\<rparr>"

definition demo_calls :: "thread \<Rightarrow> int call list" where
  "demo_calls t = (if t = 0
     then [New_weak_broker 0 1, Add At_semi 1 0 5, Delete_weak_broker 0 1, New_strong_broker 3 4, Incr At_full 4 0]
     else [New_buffer 2, Add At_none 2 0 7, Delete_buffer At_full At_none 0 2, Load_weak 0, Exchange_strong 3 0])"

definition demo_start :: "int csys" where
  "demo_start = \<lparr>mem = [0 \<mapsto> [100], 3 \<mapsto> [0]], kids = (\<lambda>_. []), holder = (\<lambda>_. None),
     code_of = (\<lambda>t. if t \<in> {0, 1} then program (demo_calls t) else Finish 0)\<rparr>"

definition demo_schedule :: "thread list" where
  "demo_schedule = replicate 9 0 @ replicate 6 1 @ replicate 40 0 @ replicate 40 1"

lemma next_access_other: "next_access t s = Some s' \<Longrightarrow> u \<noteq> t \<Longrightarrow> code_of s' u = code_of s u"
  by (drule access_to_subs) auto

lemma run_schedule_other: "u \<notin> set ts \<Longrightarrow> code_of (run_schedule ts s) u = code_of s u"
proof (induction ts arbitrary: s)
  case (Cons t ts)
  then show ?case by (auto simp: next_access_other split: option.split)
qed simp

lemma demo_starts: "counters_start demo_layout {0, 1} demo_calls demo_start"
  by (auto simp: counters_start_def demo_layout_def demo_start_def)

lemma demo_allowed: "t \<in> {0, 1} \<Longrightarrow> all_allowed demo_layout t (\<lambda>_. None) (demo_calls t)"
  by (auto simp: demo_calls_def demo_layout_def may_build_def may_update_def may_drop_def is_duplex_def)

fun ends_with :: "'i code \<Rightarrow> 'i \<Rightarrow> bool" where
  "ends_with (Finish r) x = (r = x)"
| "ends_with _ x = False"

lemma ends_with_iff: "ends_with c x \<longleftrightarrow> c = Finish x"
  by (cases c) auto

lemma demo_ends:
  "ends_with (code_of (run_schedule demo_schedule demo_start) 0) 0"
  "ends_with (code_of (run_schedule demo_schedule demo_start) 1) 1"
  by code_simp+

lemma demo_finished: "finished (run_schedule demo_schedule demo_start)"
  unfolding finished_def
proof
  fix t
  show "\<exists>r. code_of (run_schedule demo_schedule demo_start) t = Finish r"
  proof (cases "t \<in> {0, 1}")
    case False
    then have "t \<notin> set demo_schedule" by (auto simp: demo_schedule_def)
    with False show ?thesis by (simp add: run_schedule_other demo_start_def)
  qed (use demo_ends in \<open>auto simp: ends_with_iff\<close>)
qed

lemma demo_total: "total demo_start = 100"
proof -
  have "dom (mem demo_start) = {0, 3}" by (auto simp: demo_start_def)
  then show ?thesis by (simp add: total_def) (simp add: demo_start_def)
qed

lemma demo_credit: "(\<Sum>t\<in>{0, 1}. sum_list (map credit (demo_calls t))) = 13"
  by (simp add: demo_calls_def)

theorem counters_conserve_witness:
  "total (run_schedule demo_schedule demo_start) + 1 = 113"
proof -
  have "(\<Sum>t\<in>{0, 1}. result_of (code_of (run_schedule demo_schedule demo_start) t)) = 1"
    using demo_ends by (simp add: ends_with_iff)
  then show ?thesis
    using counters_conserve [OF demo_starts demo_allowed demo_finished] demo_total demo_credit by presburger
qed

theorem counters_finish_witness:
  "\<exists>us. finished (run_schedule ([0, 1, 0, 1, 0, 0, 0, 1, 1] @ us) demo_start)"
  by (rule counters_finish [OF demo_starts demo_allowed])

text \<open>A broker 4 with the count \<open>v\<close> goes out of scope in thread 0 while thread 1 exchanges.\<close>

definition strong_race :: "'i::comm_ring_1 \<Rightarrow> 'i csys" where
  "strong_race v = \<lparr>mem = [3 \<mapsto> [0], 4 \<mapsto> [v]], kids = (\<lambda>_. [])(3 := [4]), holder = (\<lambda>_. None),
     code_of = (\<lambda>t. if t = 0 then strong_broker_delete 3 4 else if t = 1 then strong_exchange 3 0 else Finish 0)\<rparr>"

text \<open>A strong broker that goes out of scope while the counter is exchanged counts twice: it adds its
  count to the prime before it takes the lock, an exchange in between drains the broker again and hands
  out both, whatever the count is.\<close>

theorem strong_duplex_counts_twice:
  "\<exists>ts. finished (run_schedule ts (strong_race v)) \<and>
     code_of (run_schedule ts (strong_race v)) 1 = Finish (v + v) \<and>
     total (strong_race v) = v \<and> total (run_schedule ts (strong_race v)) = 0"
proof (intro exI conjI)
  let ?ts = "[0, 0] @ replicate 5 1 @ replicate 4 0 :: thread list"
  have run: "run_schedule ?ts (strong_race v) = \<lparr>mem = [3 \<mapsto> [0]], kids = (\<lambda>_. []), holder = (\<lambda>_. None),
     code_of = (\<lambda>t. if t = 1 then Finish (v + v) else Finish 0)\<rparr>"
    by (auto simp: strong_race_def strong_broker_delete_def strong_erase_def strong_exchange_def bumper_load_def
        next_access_def count_at_def goes_on_def put_at_def assert_then_def eval_nat_numeral fun_eq_iff)
  show "finished (run_schedule ?ts (strong_race v))" by (simp only: run) (simp add: finished_def)
  show "code_of (run_schedule ?ts (strong_race v)) 1 = Finish (v + v)" by (simp only: run) simp
  show "total (strong_race v) = v" by (simp add: total_def strong_race_def)
  show "total (run_schedule ?ts (strong_race v)) = 0" by (simp only: run) (simp add: total_def)
qed

end
