(* ===== verification/Counter_Load.thy ===== *)
theory Counter_Load
  imports Counter_Programs
begin

text \<open>
  What \<open>weak_duplex::load\<close> (\<open>include/counter.h\<close>) returns while other threads go on counting: it sums
  the brokers one after the other, so its result is no count the system ever had, but it lies between
  the count when it took the lock and the count when it gives it up.
\<close>

definition value_of :: "('i::comm_ring_1) csys \<Rightarrow> obj \<Rightarrow> 'i" where
  "value_of s a = (case count_at s a 0 of Some v \<Rightarrow> v | None \<Rightarrow> 0)"

definition duplex_count :: "('i::comm_ring_1) csys \<Rightarrow> obj \<Rightarrow> 'i" where
  "duplex_count s p = sum_list (map (value_of s) (kids s p)) + value_of s p"

text \<open>While thread \<open>t\<close> holds the serializer of \<open>p\<close>, the others leave the set of children alone and only
  count up.\<close>

definition counts_up :: "obj \<Rightarrow> ('i::linordered_idom) csys \<Rightarrow> 'i csys \<Rightarrow> bool" where
  "counts_up p s s' \<longleftrightarrow> kids s' p = kids s p \<and> (\<forall>a\<in>insert p (set (kids s p)). value_of s a \<le> value_of s' a)"

fun others_count_up :: "thread \<Rightarrow> obj \<Rightarrow> thread list \<Rightarrow> ('i::linordered_idom) csys \<Rightarrow> bool" where
  "others_count_up t p [] s = True"
| "others_count_up t p (u # ts) s = (case next_access u s of
      None \<Rightarrow> others_count_up t p ts s
    | Some s' \<Rightarrow> (u = t \<or> counts_up p s s') \<and> others_count_up t p ts s')"

text \<open>The part of the second condition that the lock guarantees.\<close>

lemma kids_locked:
  assumes inv: "sys_inv lay T tot E L D s" and "holder s p = Some t" and "u \<noteq> t"
    and "next_access u s = Some s'"
  shows "kids s' p = kids s p" and "holder s' p = Some t"
proof -
  have other: "L u \<noteq> Some (p, ks)" for ks
    using inv assms(2,3) unfolding sys_inv_def locks_true_def by (metis option.inject)
  note st = sys_inv_settles [OF inv, of u]
  show "kids s' p = kids s p"
    using assms(4) st other by (cases "code_of s u")
      (auto simp: next_access_def split: option.splits if_splits)
  show "holder s' p = Some t"
    using assms(2,4) st other by (cases "code_of s u")
      (auto simp: next_access_def split: option.splits if_splits)
qed

text \<open>The code of \<open>weak_load\<close> with the children \<open>cs\<close> still to poll.\<close>

definition polling :: "obj \<Rightarrow> obj list \<Rightarrow> 'i::comm_ring_1 \<Rightarrow> 'i code" where
  "polling p cs tmp = and_then (poll_all cs tmp) (\<lambda>tmp. and_then (bumper_load p 0) (\<lambda>v. Unlock p (Finish (tmp + v))))"

lemma polling_simps [simp]:
  "polling p [] tmp = Load_at p 0 (\<lambda>v. Unlock p (Finish (tmp + v)))"
  "polling p (c # cs) tmp = Load_at c 0 (\<lambda>v. polling p cs (tmp + v))"
  by (simp_all add: polling_def bumper_load_def)

lemma polling_not_Unlock [simp]: "polling p cs tmp \<noteq> Unlock m c" "Unlock m c \<noteq> polling p cs tmp"
  by (cases cs; simp)+

lemma weak_load_polling: "weak_load p = Lock p (Roll_call p (\<lambda>cs. polling p cs 0))"
  by (simp add: weak_load_def polling_def)

text \<open>The children polled so far are \<open>ds\<close>; \<open>low\<close> are the counts at the start.\<close>

definition between :: "obj \<Rightarrow> obj list \<Rightarrow> (obj \<Rightarrow> 'i) \<Rightarrow> thread \<Rightarrow> ('i::linordered_idom) csys \<Rightarrow> bool" where
  "between p ks low t s \<longleftrightarrow> kids s p = ks \<and> (\<forall>a\<in>insert p (set (kids s p)). low a \<le> value_of s a) \<and>
     (code_of s t = Roll_call p (\<lambda>cs. polling p cs 0) \<or>
      (\<exists>ds cs tmp. kids s p = ds @ cs \<and> code_of s t = polling p cs tmp \<and>
         sum_list (map low ds) \<le> tmp \<and> tmp \<le> sum_list (map (value_of s) ds)) \<or>
      (\<exists>r. code_of s t = Unlock p (Finish r) \<and>
         sum_list (map low (kids s p)) + low p \<le> r \<and> r \<le> duplex_count s p))"

definition over :: "thread \<Rightarrow> 'i csys \<Rightarrow> bool" where
  "over t s \<longleftrightarrow> code_of s t = Crash \<or> (\<exists>r. code_of s t = Finish r)"

lemma between_other:
  assumes "between p ks low t s" and "counts_up p s s'" and "code_of s' t = code_of s t"
  shows "between p ks low t s'"
proof -
  have v: "value_of s a \<le> value_of s' a" if "a \<in> insert p (set (kids s p))" for a
    using assms(2) that by (auto simp: counts_up_def)
  have k: "kids s' p = kids s p" using assms(2) by (simp add: counts_up_def)
  have sums: "sum_list (map (value_of s) ds) \<le> sum_list (map (value_of s') ds)"
    if "set ds \<subseteq> set (kids s p)" for ds
    using that v by (intro sum_list_mono) auto
  have "duplex_count s p \<le> duplex_count s' p"
    using sums [of "kids s p"] v [of p] k by (simp add: duplex_count_def add_mono)
  moreover have "low a \<le> value_of s' a" if "a \<in> insert p (set (kids s p))" for a
    using assms(1) v [OF that] that by (force simp: between_def)
  ultimately show ?thesis
    using assms(1,3) k sums unfolding between_def by (fastforce intro: order_trans)
qed

lemma between_own:
  assumes b: "between p ks low t s" and s': "next_access t s = Some s'"
  shows "between p ks low t s' \<or> over t s'"
proof -
  have low: "low a \<le> value_of s a" if "a \<in> insert p (set (kids s p))" for a
    using b that by (auto simp: between_def)
  have ks: "kids s p = ks" using b by (simp add: between_def)
  from b consider (roll) "code_of s t = Roll_call p (\<lambda>cs. polling p cs 0)"
    | (poll) ds cs tmp where "kids s p = ds @ cs" "code_of s t = polling p cs tmp"
        "sum_list (map low ds) \<le> tmp" "tmp \<le> sum_list (map (value_of s) ds)"
    | (unlock) r where "code_of s t = Unlock p (Finish r)"
    by (auto simp: between_def)
  then show ?thesis
  proof cases
    case roll
    then have s'': "s' = s\<lparr>code_of := (code_of s)(t := polling p (kids s p) 0)\<rparr>"
      using s' by (simp add: next_access_def)
    then have "value_of s' = value_of s" by (simp add: value_of_def count_at_def fun_eq_iff)
    moreover have "kids s p = ks" using b by (simp add: between_def)
    ultimately have "between p ks low t s'" using low s'' unfolding between_def
      by (intro conjI disjI2 disjI1 exI [of _ "[]"] exI [of _ ks] exI [of _ 0]) auto
    then show ?thesis ..
  next
    case poll
    show ?thesis
    proof (cases cs)
      case Nil
      show ?thesis
      proof (cases "count_at s p 0")
        case None
        then show ?thesis using s' poll Nil by (auto simp: next_access_def over_def)
      next
        case (Some v)
        then have s'': "s' = s\<lparr>code_of := (code_of s)(t := Unlock p (Finish (tmp + v)))\<rparr>"
          using s' poll Nil by (simp add: next_access_def)
        then have same: "value_of s' = value_of s" by (simp add: value_of_def count_at_def fun_eq_iff)
        have "value_of s p = v" using Some by (simp add: value_of_def)
        with poll Nil same s'' low ks have "between p ks low t s'"
          unfolding between_def duplex_count_def by (auto intro!: add_mono)
        then show ?thesis ..
      qed
    next
      case (Cons c cs')
      show ?thesis
      proof (cases "count_at s c 0")
        case None
        then show ?thesis using s' poll Cons by (auto simp: next_access_def over_def)
      next
        case (Some v)
        then have s'': "s' = s\<lparr>code_of := (code_of s)(t := polling p cs' (tmp + v))\<rparr>"
          using s' poll Cons by (simp add: next_access_def)
        then have same: "value_of s' = value_of s" by (simp add: value_of_def count_at_def fun_eq_iff)
        have v: "value_of s c = v" using Some by (simp add: value_of_def)
        have "low c \<le> v" using low [of c] v poll Cons by simp
        then have "sum_list (map low (ds @ [c])) \<le> tmp + v"
            "tmp + v \<le> sum_list (map (value_of s) (ds @ [c]))"
          using poll(3,4) v by (auto intro!: add_mono)
        then have "between p ks low t s'"
          using poll Cons same s'' low ks unfolding between_def
          by (intro conjI disjI2 disjI1 exI [of _ "ds @ [c]"] exI [of _ cs'] exI [of _ "tmp + v"]) auto
        then show ?thesis ..
      qed
    qed
  next
    case unlock
    then show ?thesis using s' by (auto simp: next_access_def over_def)
  qed
qed

lemma over_stuck: "over t s \<Longrightarrow> next_access t s = None"
  by (auto simp: over_def next_access_def)

lemma between_run:
  "between p ks low t s \<or> over t s \<Longrightarrow> others_count_up t p ts s \<Longrightarrow>
     between p ks low t (run_schedule ts s) \<or> over t (run_schedule ts s)"
proof (induction ts arbitrary: s)
  case (Cons u ts)
  show ?case
  proof (cases "next_access u s")
    case (Some s')
    have "between p ks low t s' \<or> over t s'"
    proof (cases "u = t")
      case True
      then show ?thesis using Cons.prems(1) Some between_own over_stuck by fastforce
    next
      case False
      then have same: "code_of s' t = code_of s t" using next_access_other [OF Some] by simp
      have "counts_up p s s'" using Cons.prems(2) Some False by simp
      then show ?thesis using Cons.prems(1) between_other [OF _ _ same] same by (auto simp: over_def)
    qed
    then show ?thesis using Cons Some by simp
  qed (use Cons in simp)
qed simp

text \<open>C28. A load of a weak duplex counter that other threads increment meanwhile returns a value between
  the count when it took the lock and the count when it gives the lock back.\<close>

theorem weak_load_between:
  fixes s :: "('i::linordered_idom) csys"
  assumes "code_of s0 t = weak_load p" and "next_access t s0 = Some s" and "others_count_up t p ts s"
    and "code_of (run_schedule ts s) t = Unlock p (Finish r)"
  shows "r \<in> {duplex_count s p .. duplex_count (run_schedule ts s) p}"
proof -
  have "code_of s t = Roll_call p (\<lambda>cs. polling p cs 0)"
    using assms(1,2) by (auto simp: weak_load_polling next_access_def split: if_splits)
  then have "between p (kids s p) (value_of s) t s" by (simp add: between_def)
  then have end_: "between p (kids s p) (value_of s) t (run_schedule ts s)"
    using between_run [OF disjI1 assms(3)] assms(4) by (force simp: over_def)
  with assms(4) show ?thesis by (auto simp: between_def duplex_count_def)
qed

definition load_demo :: "int csys" where
  "load_demo = \<lparr>mem = [0 \<mapsto> [10], 1 \<mapsto> [5]], kids = (\<lambda>_. [])(0 := [1]), holder = (\<lambda>_. None),
     code_of = (\<lambda>t. if t = 0 then weak_load 0 else if t = 1 then bumper_add At_semi 1 0 7 else Finish 0)\<rparr>"

definition load_demo_locked :: "int csys" where
  "load_demo_locked = load_demo\<lparr>holder := (\<lambda>_. None)(0 \<mapsto> 0),
     code_of := (code_of load_demo)(0 := Roll_call 0 (\<lambda>cs. polling 0 cs 0))\<rparr>"

text \<open>The broker is polled at 5 and raised to 12 before the load ends: it returns 15, between 15 and 22.\<close>

theorem weak_load_between_witness:
  "(15::int) \<in> {duplex_count load_demo_locked 0 .. duplex_count (run_schedule [0, 1, 0, 1, 0] load_demo_locked) 0}"
proof -
  note defs = load_demo_def load_demo_locked_def next_access_def count_at_def goes_on_def put_at_def
    counts_up_def value_of_def
  have "next_access 0 load_demo = Some load_demo_locked"
    by (simp add: weak_load_polling defs)
  moreover have "others_count_up 0 0 [0, 1, 0, 1, 0] load_demo_locked" by (simp add: defs)
  moreover have "code_of (run_schedule [0, 1, 0, 1, 0] load_demo_locked) 0 = Unlock 0 (Finish 15)"
    by (simp add: defs)
  moreover have "code_of load_demo 0 = weak_load 0" by (simp add: load_demo_def)
  ultimately show ?thesis by (intro weak_load_between) auto
qed

end
