(* ===== verification/Stream_Mutex.thy ===== *)
theory Stream_Mutex
  imports Gcl_Prelude
begin

text \<open>
  \<open>include/stream_mutex.h\<close>, \<open>src/stream_mutex.cc\<close>: one recursive mutex per stream, found by the address of
  the stream, and the operators that hold it for a whole expression. The guards that the expressions make are
  written out as the lock and unlock calls of their constructors and destructors.
\<close>

section \<open>Mutexes and streams\<close>

text \<open>\<open>std::recursive_mutex\<close>; threads are numbers.\<close>

record rec_mutex =
  owner :: "nat option"
  depth :: nat

text \<open>The map from streams to mutexes, the mutexes at their addresses, and for each stream the operations done
  on it, with the thread that did them.\<close>

record 'a streams =
  stream_map :: "nat \<Rightarrow> nat option"
  mutexes :: "rec_mutex list"
  done_ops :: "nat \<Rightarrow> (nat \<times> 'a) list"

record stream_mutex =
  stm :: nat
  mtx :: nat

definition get_stream_mutex_map :: "nat \<Rightarrow> 'a streams \<Rightarrow> nat \<times> 'a streams" where
  "get_stream_mutex_map p s =
     (case stream_map s p of
        Some a \<Rightarrow> (a, s)
      | None \<Rightarrow> (length (mutexes s),
          s\<lparr>stream_map := (stream_map s)(p \<mapsto> length (mutexes s)), mutexes := mutexes s @ [\<lparr>owner = None, depth = 0\<rparr>]\<rparr>))"

definition new_stream_mutex :: "nat \<Rightarrow> 'a streams \<Rightarrow> stream_mutex \<times> 'a streams" where
  "new_stream_mutex p s = (case get_stream_mutex_map p s of (a, s') \<Rightarrow> (\<lparr>stm = p, mtx = a\<rparr>, s'))"

fun new_stream_mutexes :: "nat list \<Rightarrow> 'a streams \<Rightarrow> stream_mutex list \<times> 'a streams" where
  "new_stream_mutexes [] s = ([], s)"
| "new_stream_mutexes (p # ps) s =
     (case new_stream_mutex p s of (m, s1) \<Rightarrow> case new_stream_mutexes ps s1 of (ms, s2) \<Rightarrow> (m # ms, s2))"

definition mutex_at :: "stream_mutex \<Rightarrow> rec_mutex \<Rightarrow> 'a streams \<Rightarrow> 'a streams" where
  "mutex_at m x s = s\<lparr>mutexes := (mutexes s)[mtx m := x]\<rparr>"

definition sm_lock :: "nat \<Rightarrow> stream_mutex \<Rightarrow> 'a streams \<Rightarrow> unit outcome \<times> 'a streams" where
  "sm_lock t m s =
     (let x = mutexes s ! mtx m
      in if owner x = None then (Returns (), mutex_at m \<lparr>owner = Some t, depth = 1\<rparr> s)
         else if owner x = Some t then (Returns (), mutex_at m (x\<lparr>depth := depth x + 1\<rparr>) s)
         else (Sleeps, s))"

text \<open>Unlocking a mutex that the thread does not own has no defined behaviour.\<close>

definition sm_unlock :: "nat \<Rightarrow> stream_mutex \<Rightarrow> 'a streams \<Rightarrow> unit outcome \<times> 'a streams" where
  "sm_unlock t m s =
     (let x = mutexes s ! mtx m
      in if owner x \<noteq> Some t then (Undefined, s)
         else if depth x = 1 then (Returns (), mutex_at m \<lparr>owner = None, depth = 0\<rparr> s)
         else (Returns (), mutex_at m (x\<lparr>depth := depth x - 1\<rparr>) s))"

definition sm_try_lock :: "nat \<Rightarrow> stream_mutex \<Rightarrow> 'a streams \<Rightarrow> bool \<times> 'a streams" where
  "sm_try_lock t m s =
     (let x = mutexes s ! mtx m
      in if owner x = None \<or> owner x = Some t then (True, snd (sm_lock t m s)) else (False, s))"

text \<open>\<open>bypass() << arg\<close> and \<open>bypass() >> arg\<close>.\<close>

definition bypass_op :: "nat \<Rightarrow> stream_mutex \<Rightarrow> 'a \<Rightarrow> 'a streams \<Rightarrow> 'a streams" where
  "bypass_op t m x s = s\<lparr>done_ops := (done_ops s)(stm m := done_ops s (stm m) @ [(t, x)])\<rparr>"

section \<open>Expressions and threads\<close>

datatype 'a sm_command = Lock stream_mutex | Unlock stream_mutex | Use stream_mutex 'a
  | If_try_lock stream_mutex "'a sm_command list"

text \<open>\<open>mtx << x << y << \<dots>\<close>: the first operator locks and uses the stream and only then makes the guard, which
  unlocks at the end of the expression. \<open>Some k\<close>: operation \<open>k\<close> throws; then the later ones are not done, and the
  guard unlocks if it has been made.\<close>

fun chain :: "stream_mutex \<Rightarrow> 'a list \<Rightarrow> nat option \<Rightarrow> 'a sm_command list" where
  "chain m xs None = Lock m # map (Use m) xs @ [Unlock m]"
| "chain m xs (Some k) = Lock m # map (Use m) (take k xs) @ (if k = 0 then [] else [Unlock m])"

text \<open>\<open>mtx.hold() << x << y << \<dots>\<close>: the guard is there before the first operation.\<close>

fun hold_chain :: "stream_mutex \<Rightarrow> 'a list \<Rightarrow> nat option \<Rightarrow> 'a sm_command list" where
  "hold_chain m xs None = Lock m # map (Use m) xs @ [Unlock m]"
| "hold_chain m xs (Some k) = Lock m # map (Use m) (take k xs) @ [Unlock m]"

text \<open>\<open>{ stream_guard g(mtx); body }\<close>\<close>

definition guarded_block :: "stream_mutex \<Rightarrow> 'a sm_command list \<Rightarrow> 'a sm_command list" where
  "guarded_block m body = Lock m # body @ [Unlock m]"

text \<open>\<open>{ unique_lock l(mtx, defer_lock); if (l.try_lock()) { body } }\<close>\<close>

definition try_block :: "stream_mutex \<Rightarrow> 'a sm_command list \<Rightarrow> 'a sm_command" where
  "try_block m body = If_try_lock m (body @ [Unlock m])"

fun sm_exec :: "nat \<Rightarrow> 'a sm_command \<Rightarrow> 'a streams \<Rightarrow> ('a sm_command list) outcome \<times> 'a streams" where
  "sm_exec t (Lock m) s = bind_op (sm_lock t m) (\<lambda>_ s. (Returns [], s)) s"
| "sm_exec t (Unlock m) s = bind_op (sm_unlock t m) (\<lambda>_ s. (Returns [], s)) s"
| "sm_exec t (Use m x) s = (Returns [], bypass_op t m x s)"
| "sm_exec t (If_try_lock m body) s =
     (case sm_try_lock t m s of (b, s') \<Rightarrow> (Returns (if b then body else []), s'))"

record 'a sm_sys =
  io :: "'a streams"
  programs :: "nat \<Rightarrow> 'a sm_command list"

inductive sm_step :: "'a sm_sys \<Rightarrow> 'a sm_sys \<Rightarrow> bool" where
  "programs s t = c # cs \<Longrightarrow> sm_exec t c (io s) = (Returns body, io') \<Longrightarrow>
     sm_step s (s\<lparr>io := io', programs := (programs s)(t := body @ cs)\<rparr>)"

section \<open>Programs that use a stream only under its mutex\<close>

text \<open>\<open>M\<close> maps the streams to their mutexes, \<open>d\<close> says how often the thread holds each mutex.\<close>

definition made :: "(nat \<Rightarrow> nat option) \<Rightarrow> stream_mutex \<Rightarrow> bool" where
  "made M m \<longleftrightarrow> M (stm m) = Some (mtx m)"

function well_locked :: "(nat \<Rightarrow> nat option) \<Rightarrow> (nat \<Rightarrow> nat) \<Rightarrow> 'a sm_command list \<Rightarrow> bool" where
  "well_locked M d [] = (\<forall>a. d a = 0)"
| "well_locked M d (Lock m # cs) = (made M m \<and> well_locked M (d(mtx m := d (mtx m) + 1)) cs)"
| "well_locked M d (Unlock m # cs) = (made M m \<and> 0 < d (mtx m) \<and> well_locked M (d(mtx m := d (mtx m) - 1)) cs)"
| "well_locked M d (Use m x # cs) = (made M m \<and> 0 < d (mtx m) \<and> well_locked M d cs)"
| "well_locked M d (If_try_lock m body # cs) =
     (made M m \<and> well_locked M (d(mtx m := d (mtx m) + 1)) (body @ cs) \<and> well_locked M d cs)"
  by pat_completeness auto
termination
  by (relation "measure (\<lambda>(M, d, cs). size_list size cs)") (simp_all add: size_list_append)

lemma well_locked_use:
  "made M m \<Longrightarrow> 0 < d (mtx m) \<Longrightarrow> well_locked M d (map (Use m) xs @ cs) \<longleftrightarrow> well_locked M d cs"
  by (induction xs) simp_all


lemma well_locked_hold: "made M m \<Longrightarrow> well_locked M d (hold_chain m xs k @ cs) \<longleftrightarrow> well_locked M d cs"
  by (cases k) (simp_all add: well_locked_use)

text \<open>An operation that throws before the guard is made leaves the mutex locked.\<close>

lemma well_locked_end: "well_locked M d [] \<Longrightarrow> d a = 0"
  by simp

lemma chain_keeps_lock: "\<not> well_locked M (\<lambda>_. 0) (chain m (xs :: 'a list) (Some 0))"
proof
  assume "well_locked M (\<lambda>_. 0) (chain m xs (Some 0))"
  then have "well_locked M ((\<lambda>_. 0)(mtx m := Suc 0)) ([] :: 'a sm_command list)" by (simp del: well_locked.simps(1))
  from well_locked_end [OF this, of "mtx m"] show False by simp
qed

section \<open>The invariant\<close>

definition held :: "'a streams \<Rightarrow> nat \<Rightarrow> nat \<Rightarrow> nat" where
  "held s t a = (if a < length (mutexes s) \<and> owner (mutexes s ! a) = Some t then depth (mutexes s ! a) else 0)"

definition streams_ok :: "'a streams \<Rightarrow> bool" where
  "streams_ok s \<longleftrightarrow> (\<forall>p a. stream_map s p = Some a \<longrightarrow> a < length (mutexes s)) \<and> inj_on (stream_map s) (dom (stream_map s)) \<and>
     (\<forall>x \<in> set (mutexes s). owner x = None \<longleftrightarrow> depth x = 0)"

definition sm_inv :: "'a sm_sys \<Rightarrow> bool" where
  "sm_inv s \<longleftrightarrow> streams_ok (io s) \<and> (\<forall>t. well_locked (stream_map (io s)) (held (io s) t) (programs s t))"

lemma made_less: "streams_ok s \<Longrightarrow> made (stream_map s) m \<Longrightarrow> mtx m < length (mutexes s)"
  by (auto simp: streams_ok_def made_def)

lemma mutex_at_ok: "streams_ok s \<Longrightarrow> (owner x = None \<longleftrightarrow> depth x = 0) \<Longrightarrow> streams_ok (mutex_at m x s)"
  using set_update_subset_insert [of "mutexes s" "mtx m" x] by (auto simp: streams_ok_def mutex_at_def)

lemma held_mutex_at:
  "mtx m < length (mutexes s) \<Longrightarrow>
     held (mutex_at m x s) t = (held s t)(mtx m := if owner x = Some t then depth x else 0)"
  by (auto simp: held_def mutex_at_def nth_list_update fun_eq_iff)

lemma stream_map_at [simp]:
  "stream_map (mutex_at m x s) = stream_map s" "done_ops (mutex_at m x s) = done_ops s"
  by (simp_all add: mutex_at_def)

text \<open>What a step does to the mutexes.\<close>

lemma sm_exec_ok:
  assumes ok: "streams_ok s" and wl: "well_locked (stream_map s) (held s t) (c # cs)"
    and e: "sm_exec t c s = (Returns body, s')"
  shows "streams_ok s'" "stream_map s' = stream_map s" "well_locked (stream_map s') (held s' t) (body @ cs)"
    "u \<noteq> t \<Longrightarrow> held s' u = held s u"
    "done_ops s' p = done_ops s p @ (case c of Use m x \<Rightarrow> if stm m = p then [(t, x)] else [] | _ \<Rightarrow> [])"
proof -
  have lock: "streams_ok s1 \<and> stream_map s1 = stream_map s \<and> done_ops s1 = done_ops s \<and>
      held s1 t = (held s t)(mtx m := held s t (mtx m) + 1) \<and> (\<forall>u. u \<noteq> t \<longrightarrow> held s1 u = held s u)"
    if m: "made (stream_map s) m" and l: "sm_lock t m s = (Returns (), s1)" for m s1
  proof -
    have len: "mtx m < length (mutexes s)" by (rule made_less [OF ok m])
    let ?x = "mutexes s ! mtx m"
    have h: "held s u (mtx m) = (if owner ?x = Some u then depth ?x else 0)" for u using len by (simp add: held_def)
    have s1: "s1 = mutex_at m \<lparr>owner = Some t, depth = held s t (mtx m) + 1\<rparr> s" "owner ?x = None \<or> owner ?x = Some t"
      using l h by (cases ?x; auto simp: sm_lock_def Let_def split: if_splits)+
    then have "held s u = (held s u)(mtx m := 0)" if "u \<noteq> t" for u using h [of u] that by (auto simp: fun_eq_iff)
    moreover have "streams_ok s1" unfolding s1(1) by (intro mutex_at_ok [OF ok]) simp
    ultimately show ?thesis using len by (simp add: s1(1) held_mutex_at)
  qed
  have "streams_ok s' \<and> stream_map s' = stream_map s \<and> well_locked (stream_map s') (held s' t) (body @ cs) \<and>
      (\<forall>u. u \<noteq> t \<longrightarrow> held s' u = held s u) \<and>
      done_ops s' p = done_ops s p @ (case c of Use m x \<Rightarrow> if stm m = p then [(t, x)] else [] | _ \<Rightarrow> [])"
  proof (cases c)
    case (Lock m)
    with e have "sm_lock t m s = (Returns (), s')" "body = []"
      by (auto simp: bind_op_def split: prod.splits outcome.splits)
    with lock [of m s'] wl Lock show ?thesis by simp
  next
    case (Unlock m)
    with e have u: "sm_unlock t m s = (Returns (), s')" "body = []"
      by (auto simp: bind_op_def split: prod.splits outcome.splits)
    have len: "mtx m < length (mutexes s)" using made_less [OF ok] wl Unlock by simp
    let ?x = "mutexes s ! mtx m"
    have own: "owner ?x = Some t" "depth ?x \<noteq> 0" using wl Unlock by (auto simp: held_def split: if_splits)
    have s': "s' = mutex_at m (if depth ?x = 1 then \<lparr>owner = None, depth = 0\<rparr> else ?x\<lparr>depth := depth ?x - 1\<rparr>) s"
      using u(1) own by (auto simp: sm_unlock_def Let_def split: if_splits)
    have h: "held s v (mtx m) = (if v = t then depth ?x else 0)" for v using len own by (auto simp: held_def)
    have s'': "s' = mutex_at m \<lparr>owner = (if depth ?x = 1 then None else Some t), depth = depth ?x - 1\<rparr> s"
      using s' own by (cases ?x) (auto simp: mutex_at_def)
    have "held s v = (held s v)(mtx m := 0)" if "v \<noteq> t" for v using h [of v] that by (auto simp: fun_eq_iff)
    then have "held s' v = held s v" if "v \<noteq> t" for v using len that by (simp add: s'' held_mutex_at)
    moreover have "streams_ok s'" unfolding s'' using own by (intro mutex_at_ok [OF ok]) auto
    moreover have "held s' t = (held s t)(mtx m := held s t (mtx m) - 1)"
      using len own h [of t] by (simp add: s'' held_mutex_at)
    ultimately show ?thesis using wl Unlock u(2) by (auto simp: s')
  next
    case (Use m x)
    with e have "body = []" "s' = bypass_op t m x s" by auto
    moreover have "held (bypass_op t m x s) = held s" by (simp add: bypass_op_def held_def fun_eq_iff)
    ultimately show ?thesis using wl ok Use by (auto simp: bypass_op_def streams_ok_def)
  next
    case (If_try_lock m body')
    have m: "made (stream_map s) m" using wl If_try_lock by simp
    consider (got) "sm_lock t m s = (Returns (), s')" "body = body'" | (busy) "s' = s" "body = []"
      using e If_try_lock by (auto simp: sm_try_lock_def sm_lock_def Let_def split: if_splits)
    then show ?thesis
    proof cases
      case got
      with lock [OF m got(1)] wl If_try_lock show ?thesis by simp
    qed (use wl ok If_try_lock in simp_all)
  qed
  then show "streams_ok s'" "stream_map s' = stream_map s" "well_locked (stream_map s') (held s' t) (body @ cs)"
    "u \<noteq> t \<Longrightarrow> held s' u = held s u"
    "done_ops s' p = done_ops s p @ (case c of Use m x \<Rightarrow> if stm m = p then [(t, x)] else [] | _ \<Rightarrow> [])" by blast+
qed

lemma sm_step_inv:
  assumes "sm_step s s'" and "sm_inv s"
  shows "sm_inv s'"
  using assms(1)
proof (cases rule: sm_step.cases)
  case (1 t c cs body io')
  have ok: "streams_ok (io s)" "well_locked (stream_map (io s)) (held (io s) t) (c # cs)"
    using assms(2) 1(2) by (metis sm_inv_def)+
  note E = sm_exec_ok [OF ok 1(3)]
  show ?thesis unfolding 1(1) sm_inv_def
    using E(1-3) E(4) assms(2) by (auto simp: sm_inv_def)
qed

section \<open>The start\<close>

text \<open>The mutex objects \<open>ms\<close> are made for the streams \<open>ps\<close>, in which a stream may occur more than once; then the
  threads start.\<close>

definition no_streams :: "'a streams" where
  "no_streams = \<lparr>stream_map = (\<lambda>_. None), mutexes = [], done_ops = (\<lambda>_. [])\<rparr>"

definition sm_start :: "nat list \<Rightarrow> (stream_mutex list \<Rightarrow> nat \<Rightarrow> 'a sm_command list) \<Rightarrow> 'a sm_sys" where
  "sm_start ps prog = (case new_stream_mutexes ps no_streams of (ms, s) \<Rightarrow> \<lparr>io = s, programs = prog ms\<rparr>)"

lemma get_mutex_ok:
  assumes "get_stream_mutex_map p s = (a, s')" and "streams_ok s" and "\<forall>x \<in> set (mutexes s). owner x = None"
  shows "streams_ok s'" "\<forall>x \<in> set (mutexes s'). owner x = None" "stream_map s' p = Some a"
    "stream_map s \<subseteq>\<^sub>m stream_map s'"
proof -
  have "streams_ok s' \<and> (\<forall>x \<in> set (mutexes s'). owner x = None) \<and> stream_map s' p = Some a \<and> stream_map s \<subseteq>\<^sub>m stream_map s'"
  proof (cases "stream_map s p")
    case None
    have "stream_map s y \<noteq> Some (length (mutexes s))" for y using assms(2) by (auto simp: streams_ok_def)
    then have inj: "inj_on ((stream_map s)(p \<mapsto> length (mutexes s))) (insert p (dom (stream_map s)))"
      using assms(2) None by (auto simp: streams_ok_def inj_on_def dom_def)
    have s': "a = length (mutexes s)" "s' = s\<lparr>stream_map := (stream_map s)(p \<mapsto> length (mutexes s)),
        mutexes := mutexes s @ [\<lparr>owner = None, depth = 0\<rparr>]\<rparr>"
      using assms(1) None by (auto simp: get_stream_mutex_map_def)
    have "q < Suc (length (mutexes s))" if "stream_map s r = Some q" for r q
      using assms(2) that by (auto simp: streams_ok_def less_SucI)
    with s' inj assms(2,3) None show ?thesis by (auto simp: streams_ok_def map_le_def)
  qed (use assms in \<open>simp add: get_stream_mutex_map_def\<close>)
  then show "streams_ok s'" "\<forall>x \<in> set (mutexes s'). owner x = None" "stream_map s' p = Some a"
    "stream_map s \<subseteq>\<^sub>m stream_map s'" by blast+
qed

lemma new_ok:
  assumes "new_stream_mutexes ps s = (ms, s')" and "streams_ok s" and "\<forall>x \<in> set (mutexes s). owner x = None"
  shows "streams_ok s' \<and> (\<forall>x \<in> set (mutexes s'). owner x = None) \<and> map stm ms = ps \<and>
    (\<forall>m \<in> set ms. made (stream_map s') m) \<and> stream_map s \<subseteq>\<^sub>m stream_map s'"
  using assms
proof (induction ps arbitrary: s ms)
  case (Cons p ps)
  obtain a s1 where g: "get_stream_mutex_map p s = (a, s1)" by fastforce
  obtain ms' where n: "new_stream_mutexes ps s1 = (ms', s')" "ms = \<lparr>stm = p, mtx = a\<rparr> # ms'"
    using Cons.prems(1) g by (auto simp: new_stream_mutex_def split: prod.splits)
  note G = get_mutex_ok [OF g Cons.prems(2,3)]
  from Cons.IH [OF n(1) G(1,2)] have I: "streams_ok s'" "\<forall>x \<in> set (mutexes s'). owner x = None" "map stm ms' = ps"
    "\<forall>m \<in> set ms'. made (stream_map s') m" "stream_map s1 \<subseteq>\<^sub>m stream_map s'" by simp_all
  have "stream_map s' p = Some a" using G(3) I(5) by (metis domI map_le_def)
  moreover have "stream_map s \<subseteq>\<^sub>m stream_map s'" using G(4) I(5) by (rule map_le_trans)
  ultimately show ?case using I n(2) by (simp add: made_def)
qed (auto simp: made_def)

lemma start_ok:
  fixes prog :: "stream_mutex list \<Rightarrow> nat \<Rightarrow> 'a sm_command list"
  assumes "new_stream_mutexes ps (no_streams :: 'a streams) = (ms, s0)"
    and "\<And>t M. (\<And>m. m \<in> set ms \<Longrightarrow> made M m) \<Longrightarrow> well_locked M (\<lambda>_. 0) (prog ms t)"
  shows "sm_inv (sm_start ps prog)"
proof -
  have "streams_ok no_streams" "\<forall>x \<in> set (mutexes no_streams). owner x = None"
    by (simp_all add: no_streams_def streams_ok_def)
  from new_ok [OF assms(1) this] have N: "streams_ok s0" "\<forall>x \<in> set (mutexes s0). owner x = None"
    "\<forall>m \<in> set ms. made (stream_map s0) m" by simp_all
  have "held s0 t = (\<lambda>_. 0)" for t using N(2) by (auto simp: held_def fun_eq_iff)
  moreover have "sm_start ps prog = \<lparr>io = s0, programs = prog ms\<rparr>" by (simp add: sm_start_def assms(1))
  ultimately show ?thesis using N assms(2) by (simp add: sm_inv_def)
qed

section \<open>Properties\<close>

definition owner_of :: "nat \<Rightarrow> 'a sm_sys \<Rightarrow> nat option" where
  "owner_of p s = (case stream_map (io s) p of None \<Rightarrow> None | Some a \<Rightarrow> owner (mutexes (io s) ! a))"

text \<open>Programs, given the mutex objects, that use the streams only through the interface.\<close>

definition sm_programs :: "nat list \<Rightarrow> (stream_mutex list \<Rightarrow> nat \<Rightarrow> 'a sm_command list) \<Rightarrow> bool" where
  "sm_programs ps prog \<longleftrightarrow>
     (\<forall>ms M t. map stm ms = ps \<longrightarrow> (\<forall>m \<in> set ms. made M m) \<longrightarrow> well_locked M (\<lambda>_. 0) (prog ms t))"

lemma sm_reachable_inv:
  assumes "sm_programs ps prog" and "sm_step\<^sup>*\<^sup>* (sm_start ps prog) s"
  shows "sm_inv s"
  using assms(2)
proof (induction rule: rtranclp_induct)
  case base
  obtain ms s0 where n: "new_stream_mutexes ps (no_streams :: 'a streams) = (ms, s0)" by fastforce
  have "streams_ok (no_streams :: 'a streams)" "\<forall>x \<in> set (mutexes (no_streams :: 'a streams)). owner x = None"
    by (simp_all add: no_streams_def streams_ok_def)
  from new_ok [OF n this] have "map stm ms = ps" by simp
  with assms(1) show ?case by (intro start_ok [OF n]) (simp add: sm_programs_def)
qed (rule sm_step_inv)



text \<open>A thread that has ended holds no mutex.\<close>

lemma ended_holds_nothing:
  assumes "sm_programs ps prog" and "sm_step\<^sup>*\<^sup>* (sm_start ps prog) s" and "programs s t = []"
  shows "owner_of p s \<noteq> Some t"
proof
  assume "owner_of p s = Some t"
  then obtain a where a: "stream_map (io s) p = Some a" "owner (mutexes (io s) ! a) = Some t"
    by (auto simp: owner_of_def split: option.splits)
  have inv: "streams_ok (io s)" "well_locked (stream_map (io s)) (held (io s) t) (programs s t)"
    using sm_reachable_inv [OF assms(1,2)] by (simp_all add: sm_inv_def)
  have "a < length (mutexes (io s))" using a(1) inv(1) by (simp add: streams_ok_def)
  moreover from this have "depth (mutexes (io s) ! a) \<noteq> 0" using a(2) inv(1) by (metis nth_mem option.distinct(1) streams_ok_def)
  moreover have "held (io s) t a = 0" using inv(2) assms(3) by simp
  ultimately show False using a(2) by (simp add: held_def)
qed




end
