(* ===== verification/Serial_Executor.thy ===== *)
theory Serial_Executor
  imports Gcl_Prelude
begin

text \<open>
  \<open>include/serial_executor.h\<close> and \<open>src/serial_executor.cc\<close>: a thread that runs the functions submitted
  to it, one after the other. A section under \<open>queue_lock\<close> is one step; the test of \<open>shutting_down\<close> at
  the head of the loop is made without the lock. A function is known by a name. The lists of what has been
  submitted and what has been run are kept to state what the executor does.
\<close>

datatype 'f runner =
    At_loop
  | Entering_wait
  | Asleep
  | Running 'f
  | Exited

record 'f serial_executor =
  function_queue :: "'f list"
  shutting_down :: bool
  runner :: "'f runner"
  submitted :: "'f list"
  executed :: "'f list"

definition serial_executor_new :: "'f serial_executor" where
  "serial_executor_new = \<lparr>function_queue = [], shutting_down = False, runner = At_loop, submitted = [], executed = []\<rparr>"

text \<open>\<open>queue_condvar\<close> has one thread that ever waits.\<close>

definition notify_runner :: "'f serial_executor \<Rightarrow> 'f serial_executor" where
  "notify_runner s = (if runner s = Asleep then s\<lparr>runner := Entering_wait\<rparr> else s)"

definition se_execute :: "'f \<Rightarrow> 'f serial_executor \<Rightarrow> 'f serial_executor" where
  "se_execute fn s = notify_runner (s\<lparr>function_queue := function_queue s @ [fn], submitted := submitted s @ [fn]\<rparr>)"

definition se_shut_down :: "'f serial_executor \<Rightarrow> 'f serial_executor" where
  "se_shut_down s = notify_runner (s\<lparr>shutting_down := True, function_queue := []\<rparr>)"

definition queue_ready :: "'f serial_executor \<Rightarrow> bool" where
  "queue_ready s \<longleftrightarrow> function_queue s \<noteq> [] \<or> shutting_down s"

text \<open>The section of the loop under the lock: waiting for the condition, then taking a function.\<close>

definition se_take :: "'f serial_executor \<Rightarrow> 'f serial_executor" where
  "se_take s =
     (if \<not> queue_ready s then s\<lparr>runner := Asleep\<rparr>
      else if \<not> shutting_down s
      then s\<lparr>runner := Running (hd (function_queue s)), function_queue := tl (function_queue s)\<rparr>
      else s\<lparr>runner := At_loop\<rparr>)"

fun se_run :: "'f serial_executor \<Rightarrow> 'f serial_executor option" where
  "se_run s = (case runner s of
      At_loop \<Rightarrow> Some (s\<lparr>runner := if shutting_down s then Exited else Entering_wait\<rparr>)
    | Entering_wait \<Rightarrow> Some (se_take s)
    | Running fn \<Rightarrow> Some (s\<lparr>executed := executed s @ [fn], runner := At_loop\<rparr>)
    | Asleep \<Rightarrow> None
    | Exited \<Rightarrow> None)"

text \<open>The destructor shuts down once, and no function is submitted to an executor that is being destroyed. A
  sleeping thread may wake up without a notification.\<close>

inductive se_step :: "'f serial_executor \<Rightarrow> 'f serial_executor \<Rightarrow> bool" where
  submit: "\<not> shutting_down s \<Longrightarrow> se_step s (se_execute fn s)"
| destroy: "\<not> shutting_down s \<Longrightarrow> se_step s (se_shut_down s)"
| work: "se_run s = Some s' \<Longrightarrow> se_step s s'"
| spurious: "runner s = Asleep \<Longrightarrow> se_step s (s\<lparr>runner := Entering_wait\<rparr>)"

definition in_hand :: "'f serial_executor \<Rightarrow> 'f list" where
  "in_hand s = (case runner s of Running fn \<Rightarrow> [fn] | _ \<Rightarrow> [])"

definition se_inv :: "'f serial_executor \<Rightarrow> bool" where
  "se_inv s \<longleftrightarrow>
     (\<exists>dropped. submitted s = executed s @ in_hand s @ function_queue s @ dropped \<and>
        (\<not> shutting_down s \<longrightarrow> dropped = [])) \<and>
     (shutting_down s \<longrightarrow> function_queue s = []) \<and>
     (runner s = Asleep \<longrightarrow> function_queue s = [] \<and> \<not> shutting_down s) \<and>
     (runner s = Exited \<longrightarrow> shutting_down s)"

lemma se_inv_new: "se_inv serial_executor_new"
  by (simp add: se_inv_def serial_executor_new_def in_hand_def)

lemma se_step_inv: "se_step s s' \<Longrightarrow> se_inv s \<Longrightarrow> se_inv s'"
proof (induction rule: se_step.induct)
  case (submit s fn)
  then show ?case
    by (cases "runner s") (auto simp: se_inv_def se_execute_def notify_runner_def in_hand_def)
next
  case (destroy s)
  then show ?case
    by (cases "runner s") (auto simp: se_inv_def se_shut_down_def notify_runner_def in_hand_def)
next
  case (work s s')
  then show ?case
    by (cases "runner s"; cases "function_queue s")
      (auto simp: se_inv_def se_take_def queue_ready_def in_hand_def split: if_splits)
next
  case (spurious s)
  then show ?case by (auto simp: se_inv_def in_hand_def)
qed

definition se_reachable :: "'f serial_executor \<Rightarrow> bool" where
  "se_reachable s \<longleftrightarrow> se_step\<^sup>*\<^sup>* serial_executor_new s"

lemma se_reachable_inv: "se_reachable s \<Longrightarrow> se_inv s"
  unfolding se_reachable_def by (induction rule: rtranclp_induct) (auto intro: se_inv_new se_step_inv)

text \<open>C34. The executor runs functions in the order of their submission, each once: what has been run, the one
  being run and what is queued are the submitted functions in order, and only destroying the executor drops
  functions, from the end. It never sleeps while there is something to do: a sleeping thread means an empty
  queue and no shutdown.\<close>

theorem serial_executor_in_order:
  assumes "se_reachable s"
  shows "(\<exists>dropped. submitted s = executed s @ in_hand s @ function_queue s @ dropped \<and>
        (\<not> shutting_down s \<longrightarrow> dropped = [])) \<and>
     (runner s = Asleep \<longrightarrow> function_queue s = [] \<and> \<not> shutting_down s)"
  using se_reachable_inv [OF assms] by (simp add: se_inv_def)

text \<open>The destructor returns: the thread it joins needs at most four more steps of its own.\<close>

lemma shut_down_exits:
  assumes "se_inv s" and "shutting_down s"
  shows "\<exists>n \<le> 4. \<exists>s'. ((\<lambda>t. Option.bind t se_run) ^^ n) (Some s) = Some s' \<and> runner s' = Exited"
proof -
  have loop: "((\<lambda>t. Option.bind t se_run) ^^ 1) (Some u) = Some (u\<lparr>runner := Exited\<rparr>)"
    if "runner u = At_loop" "shutting_down u" for u :: "'a serial_executor" using that by simp
  show ?thesis
  proof (cases "runner s")
    case At_loop
    with assms show ?thesis by (intro exI [of _ 1]) simp
  next
    case Entering_wait
    with assms show ?thesis by (intro exI [of _ 2]) (simp add: numeral_2_eq_2 se_take_def queue_ready_def)
  next
    case Asleep
    with assms show ?thesis by (simp add: se_inv_def)
  next
    case (Running fn)
    with assms show ?thesis by (intro exI [of _ 2]) (simp add: numeral_2_eq_2)
  next
    case Exited
    then show ?thesis by (intro exI [of _ 0]) simp
  qed
qed

definition sample_executor :: "nat serial_executor" where
  "sample_executor = \<lparr>function_queue = [8], shutting_down = False, runner = Running 7, submitted = [7, 8], executed = []\<rparr>"

lemma sample_se_reachable: "se_reachable sample_executor"
proof -
  let ?s1 = "serial_executor_new\<lparr>function_queue := [7], submitted := [7]\<rparr> :: nat serial_executor"
  let ?s2 = "?s1\<lparr>function_queue := [7, 8], submitted := [7, 8]\<rparr>"
  let ?s3 = "?s2\<lparr>runner := Entering_wait\<rparr>"
  let ?s4 = "?s3\<lparr>runner := Running 7, function_queue := [8]\<rparr>"
  have "se_step serial_executor_new ?s1" "se_step ?s1 ?s2"
    using submit [of serial_executor_new 7] submit [of ?s1 8]
    by (simp_all add: se_execute_def notify_runner_def serial_executor_new_def)
  moreover have "se_step ?s2 ?s3" by (rule work) (simp add: serial_executor_new_def)
  moreover have "se_step ?s3 ?s4" by (rule work) (simp add: serial_executor_new_def se_take_def queue_ready_def)
  ultimately have "se_step\<^sup>*\<^sup>* serial_executor_new ?s4" by (meson converse_rtranclp_into_rtranclp rtranclp.rtrancl_refl)
  then show ?thesis by (simp add: se_reachable_def serial_executor_new_def sample_executor_def)
qed

theorem serial_executor_in_order_witness:
  "runner sample_executor = Running 7 \<and>
   submitted sample_executor = executed sample_executor @ in_hand sample_executor @ function_queue sample_executor"
  using serial_executor_in_order [OF sample_se_reachable] by (simp add: sample_executor_def)

end
