(* ===== verification/Mutable_Thread.thy ===== *)
theory Mutable_Thread
  imports Gcl_Prelude "HOL-Library.Multiset"
begin

text \<open>
  \<open>include/mutable_thread.h\<close> and \<open>src/mutable_thread.cc\<close>: a thread that sleeps until it is given a
  function, with room for one more. The functions \<open>run_fn_\<close> and \<open>queued_fn_\<close> are read outside the lock
  by \<open>try_execute\<close>, \<open>execute\<close> and \<open>finish_run\<close>; here every read, swap and store is a step of its own (in
  C++ these unlocked accesses are data races), and a section under \<open>thread_state_mu_\<close> excludes the other
  sections but not the unlocked accesses. A function is known by a name.
\<close>

datatype thread_state = IDLE | RUNNING | JOINING | DONE | JOINED

text \<open>The thread: before and inside \<open>thread_wait\<close>, before the call of \<open>run_fn_\<close>, inside \<open>finish_run\<close>
  (the test of \<open>queued_fn_\<close>, the swaps, the exchange of the state), before the store of \<open>DONE\<close>, ended.\<close>

datatype worker =
    W_wait | W_asleep | W_call | W_test | W_swap | W_clear_queued | W_clear_run | W_cas | W_done | W_end

text \<open>A caller: in \<open>try_execute\<close> and \<open>execute\<close> the unlocked tests, the tests of the state, the locked test
  of \<open>run_fn_\<close> and the locked swap; in \<open>join\<close> the test of the state, the store, the wait for the thread.\<close>

datatype 'f caller =
    C_out
  | T_run 'f | T_queued 'f | T_lock 'f
  | E_run 'f | E_queued 'f | E_state 'f | E_lock 'f
  | Swap_run 'f | Swap_queued 'f
  | J_test | J_lock | J_wait

record 'f mthread =
  thread_state :: thread_state
  run_fn :: "'f option"
  queued_fn :: "'f option"
  locked :: bool
  worker :: worker
  callers :: "nat \<Rightarrow> 'f caller"
  offered :: "'f multiset"
  accepted :: "'f multiset"
  ran :: "'f multiset"

definition mutable_thread_new :: "'f mthread" where
  "mutable_thread_new = \<lparr>thread_state = IDLE, run_fn = None, queued_fn = None, locked = False, worker = W_wait,
     callers = \<lambda>_. C_out, offered = {#}, accepted = {#}, ran = {#}\<rparr>"

definition is_joining :: "'f mthread \<Rightarrow> bool" where
  "is_joining s \<longleftrightarrow> thread_state s = JOINING"

definition is_done :: "'f mthread \<Rightarrow> bool" where
  "is_done s \<longleftrightarrow> thread_state s = DONE \<or> thread_state s = JOINED"

definition ready_to_continue :: "'f mthread \<Rightarrow> bool" where
  "ready_to_continue s \<longleftrightarrow> is_joining s \<or> is_done s \<or> run_fn s \<noteq> None"

definition notify_worker :: "'f mthread \<Rightarrow> 'f mthread" where
  "notify_worker s = (if worker s = W_asleep then s\<lparr>worker := W_wait\<rparr> else s)"

text \<open>One step of the thread, \<open>None\<close> when it cannot move.\<close>

definition worker_step :: "'f mthread \<Rightarrow> 'f mthread option" where
  "worker_step s = (case worker s of
      W_wait \<Rightarrow>
        if locked s then None
        else if \<not> ready_to_continue s then Some (s\<lparr>worker := W_asleep\<rparr>)
        else if is_joining s \<or> is_done s then Some (s\<lparr>worker := W_done\<rparr>)
        else Some (s\<lparr>worker := W_call\<rparr>)
    | W_asleep \<Rightarrow> None
    | W_call \<Rightarrow> (case run_fn s of
          None \<Rightarrow> None
        | Some f \<Rightarrow> Some (s\<lparr>ran := add_mset f (ran s), worker := W_test\<rparr>))
    | W_test \<Rightarrow> Some (s\<lparr>worker := if queued_fn s \<noteq> None then W_swap else W_clear_run\<rparr>)
    | W_swap \<Rightarrow> Some (s\<lparr>run_fn := queued_fn s, queued_fn := run_fn s, worker := W_clear_queued\<rparr>)
    | W_clear_queued \<Rightarrow> Some (s\<lparr>queued_fn := None, worker := W_cas\<rparr>)
    | W_clear_run \<Rightarrow> Some (s\<lparr>run_fn := None, worker := W_cas\<rparr>)
    | W_cas \<Rightarrow> Some (s\<lparr>thread_state := if thread_state s = RUNNING then IDLE else thread_state s, worker := W_wait\<rparr>)
    | W_done \<Rightarrow> Some (s\<lparr>thread_state := DONE, worker := W_end\<rparr>)
    | W_end \<Rightarrow> None)"

definition moves :: "nat \<Rightarrow> 'f caller \<Rightarrow> 'f mthread \<Rightarrow> 'f mthread" where
  "moves c p s = s\<lparr>callers := (callers s)(c := p)\<rparr>"

text \<open>Accepting \<open>fn\<close>: the swap, the notification, the end of the section.\<close>

definition accept :: "nat \<Rightarrow> 'f \<Rightarrow> 'f mthread \<Rightarrow> 'f mthread" where
  "accept c fn s = moves c C_out (notify_worker (s\<lparr>locked := False, accepted := add_mset fn (accepted s)\<rparr>))"

definition caller_step :: "nat \<Rightarrow> 'f mthread \<Rightarrow> 'f mthread option" where
  "caller_step c s = (case callers s c of
      C_out \<Rightarrow> None
    | T_run fn \<Rightarrow> Some (moves c (if run_fn s = None then T_lock fn else T_queued fn) s)
    | T_queued fn \<Rightarrow> Some (moves c (if queued_fn s = None then T_lock fn else C_out) s)
    | T_lock fn \<Rightarrow>
        if locked s then None
        else if is_done s \<or> is_joining s then Some (moves c C_out s)
        else Some (moves c (if run_fn s \<noteq> None then Swap_queued fn else Swap_run fn) (s\<lparr>locked := True\<rparr>))
    | E_run fn \<Rightarrow> Some (moves c (if run_fn s = None then E_state fn else E_queued fn) s)
    | E_queued fn \<Rightarrow> Some (moves c (if queued_fn s = None \<or> is_done s \<or> is_joining s then E_state fn else E_run fn) s)
    | E_state fn \<Rightarrow> Some (moves c (if is_done s \<or> is_joining s then C_out else E_lock fn) s)
    | E_lock fn \<Rightarrow>
        if locked s then None
        else Some (moves c (if run_fn s = None then Swap_run fn else Swap_queued fn) (s\<lparr>locked := True\<rparr>))
    | Swap_run fn \<Rightarrow> Some (accept c fn (s\<lparr>run_fn := Some fn\<rparr>))
    | Swap_queued fn \<Rightarrow> Some (accept c fn (s\<lparr>queued_fn := Some fn\<rparr>))
    | J_test \<Rightarrow> Some (moves c (if thread_state s = DONE then J_wait else J_lock) s)
    | J_lock \<Rightarrow> if locked s then None else Some (moves c J_wait (notify_worker (s\<lparr>thread_state := JOINING\<rparr>)))
    | J_wait \<Rightarrow> if worker s = W_end then Some (moves c C_out (s\<lparr>thread_state := JOINED\<rparr>)) else None)"

text \<open>Callers begin calls at any time; every function is offered under a name of its own.\<close>

inductive mt_step :: "'f mthread \<Rightarrow> 'f mthread \<Rightarrow> bool" where
  try_execute: "callers s c = C_out \<Longrightarrow> fn \<notin># offered s \<Longrightarrow>
     mt_step s (moves c (T_run fn) (s\<lparr>offered := add_mset fn (offered s)\<rparr>))"
| execute: "callers s c = C_out \<Longrightarrow> fn \<notin># offered s \<Longrightarrow>
     mt_step s (moves c (E_run fn) (s\<lparr>offered := add_mset fn (offered s)\<rparr>))"
| join: "callers s c = C_out \<Longrightarrow> mt_step s (moves c J_test s)"
| worker: "worker_step s = Some s' \<Longrightarrow> mt_step s s'"
| caller: "caller_step c s = Some s' \<Longrightarrow> mt_step s s'"

definition mt_reachable :: "'f mthread \<Rightarrow> bool" where
  "mt_reachable s \<longleftrightarrow> mt_step\<^sup>*\<^sup>* mutable_thread_new s"

section \<open>Every function runs at most once\<close>

fun fn_in_hand :: "'f caller \<Rightarrow> 'f option" where
  "fn_in_hand (T_run fn) = Some fn"
| "fn_in_hand (T_queued fn) = Some fn"
| "fn_in_hand (T_lock fn) = Some fn"
| "fn_in_hand (E_run fn) = Some fn"
| "fn_in_hand (E_queued fn) = Some fn"
| "fn_in_hand (E_state fn) = Some fn"
| "fn_in_hand (E_lock fn) = Some fn"
| "fn_in_hand (Swap_run fn) = Some fn"
| "fn_in_hand (Swap_queued fn) = Some fn"
| "fn_in_hand C_out = None"
| "fn_in_hand J_test = None"
| "fn_in_hand J_lock = None"
| "fn_in_hand J_wait = None"

text \<open>What is still to be run of the two functions: inside \<open>finish_run\<close> one of them has been run.\<close>

definition still_run :: "'f mthread \<Rightarrow> 'f option" where
  "still_run s = (if worker s = W_test \<or> worker s = W_swap \<or> worker s = W_clear_run then None else run_fn s)"

definition still_queued :: "'f mthread \<Rightarrow> 'f option" where
  "still_queued s = (if worker s = W_clear_queued then None else queued_fn s)"

text \<open>The places a function can be in, apart: run (once), to be run, queued, in the hands of one caller.\<close>

definition places_apart ::
    "'f multiset \<Rightarrow> 'f multiset \<Rightarrow> 'f multiset \<Rightarrow> 'f option \<Rightarrow> 'f option \<Rightarrow> (nat \<Rightarrow> 'f option) \<Rightarrow> bool" where
  "places_apart R A Off r q hands \<longleftrightarrow>
     (\<forall>fn. count R fn \<le> 1) \<and> (\<forall>fn. fn \<in># R \<longrightarrow> fn \<in># A) \<and> (\<forall>fn. fn \<in># A \<longrightarrow> fn \<in># Off) \<and>
     (\<forall>fn. r = Some fn \<longrightarrow> fn \<in># A \<and> fn \<notin># R \<and> q \<noteq> Some fn) \<and>
     (\<forall>fn. q = Some fn \<longrightarrow> fn \<in># A \<and> fn \<notin># R) \<and>
     (\<forall>c fn. hands c = Some fn \<longrightarrow> fn \<in># Off \<and> fn \<notin># R \<and> r \<noteq> Some fn \<and> q \<noteq> Some fn) \<and>
     (\<forall>c c' fn. hands c = Some fn \<longrightarrow> hands c' = Some fn \<longrightarrow> c = c')"

definition mt_inv :: "'f mthread \<Rightarrow> bool" where
  "mt_inv s \<longleftrightarrow> places_apart (ran s) (accepted s) (offered s) (still_run s) (still_queued s)
     (\<lambda>c. fn_in_hand (callers s c))"

lemma places_fewer:
  assumes "places_apart R A Off r q hands" and "r' = r \<or> r' = None" and "q' = q \<or> q' = None"
    and "\<And>c. hands' c = hands c \<or> hands' c = None"
  shows "places_apart R A Off r' q' hands'"
proof -
  have h: "hands' c = Some fn \<Longrightarrow> hands c = Some fn" for c fn using assms(4) [of c] by auto
  show ?thesis
    using assms(1-3) h unfolding places_apart_def by (elim disjE) (simp; blast)+
qed

lemma places_offer:
  assumes "places_apart R A Off r q hands" and "fn \<notin># Off"
  shows "places_apart R A (add_mset fn Off) r q (hands(c := Some fn))"
proof -
  have n: "hands c' \<noteq> Some fn" "r \<noteq> Some fn" "q \<noteq> Some fn" "fn \<notin># R" for c'
    using assms unfolding places_apart_def by blast+
  then show ?thesis using assms(1) unfolding places_apart_def by simp blast
qed

lemma places_accept:
  assumes "places_apart R A Off r q hands" and "hands c = Some fn"
    and "r' = r \<and> q' = q \<or> r' = Some fn \<and> q' = q \<or> r' = r \<and> q' = Some fn"
  shows "places_apart R (add_mset fn A) Off r' q' (hands(c := None))"
proof -
  have n: "fn \<in># Off" "fn \<notin># R" "r \<noteq> Some fn" "q \<noteq> Some fn" "\<And>c'. c' \<noteq> c \<Longrightarrow> hands c' \<noteq> Some fn"
    using assms(1,2) unfolding places_apart_def by blast+
  from assms(3) show ?thesis
    using assms(1) n unfolding places_apart_def by (elim disjE conjE) (simp; blast)+
qed

lemma places_run:
  assumes "places_apart R A Off (Some fn) q hands"
  shows "places_apart (add_mset fn R) A Off None q hands"
proof -
  have "fn \<notin># R" using assms unfolding places_apart_def by blast
  then have "count (add_mset fn R) x \<le> 1" for x
    using assms unfolding places_apart_def by (auto simp: not_in_iff)
  then show ?thesis using assms unfolding places_apart_def by simp blast
qed

lemma places_swap: "places_apart R A Off None (Some fn) hands \<Longrightarrow> places_apart R A Off (Some fn) None hands"
  unfolding places_apart_def by simp

lemma mt_inv_new: "mt_inv mutable_thread_new"
  by (simp add: mt_inv_def places_apart_def mutable_thread_new_def still_run_def still_queued_def)

lemma notify_worker_same [simp]:
  "still_run (notify_worker s) = still_run s" "still_queued (notify_worker s) = still_queued s"
  "offered (notify_worker s) = offered s" "accepted (notify_worker s) = accepted s" "ran (notify_worker s) = ran s"
  "callers (notify_worker s) = callers s"
  by (auto simp: notify_worker_def still_run_def still_queued_def)

lemma hands_upd: "(\<lambda>d. fn_in_hand ((f(c := p)) d)) = (\<lambda>d. fn_in_hand (f d))(c := fn_in_hand p)"
  by auto

lemma moves_same [simp]:
  "still_run (moves c p s) = still_run s" "still_queued (moves c p s) = still_queued s"
  "offered (moves c p s) = offered s" "accepted (moves c p s) = accepted s" "ran (moves c p s) = ran s"
  "callers (moves c p s) = (callers s)(c := p)"
  by (auto simp: moves_def still_run_def still_queued_def)

lemma state_same [simp]:
  "still_run (s\<lparr>locked := l\<rparr>) = still_run s" "still_queued (s\<lparr>locked := l\<rparr>) = still_queued s"
  "still_run (s\<lparr>thread_state := ts\<rparr>) = still_run s" "still_queued (s\<lparr>thread_state := ts\<rparr>) = still_queued s"
  "still_run (s\<lparr>offered := off\<rparr>) = still_run s" "still_queued (s\<lparr>offered := off\<rparr>) = still_queued s"
  "still_run (s\<lparr>accepted := ac\<rparr>) = still_run s" "still_queued (s\<lparr>accepted := ac\<rparr>) = still_queued s"
  by (simp_all add: still_run_def still_queued_def)

lemma mt_inv_moves:
  assumes "mt_inv s" and "fn_in_hand p = fn_in_hand (callers s c) \<or> fn_in_hand p = None"
  shows "mt_inv (moves c p s)"
  unfolding mt_inv_def moves_same hands_upd
  by (rule places_fewer [OF assms(1) [unfolded mt_inv_def]]) (use assms(2) in auto)

lemma mt_inv_flags [simp]:
  "mt_inv (notify_worker s) = mt_inv s" "mt_inv (s\<lparr>locked := l\<rparr>) = mt_inv s" "mt_inv (s\<lparr>thread_state := ts\<rparr>) = mt_inv s"
  by (simp_all add: mt_inv_def)

lemma mt_inv_offer:
  assumes "mt_inv s" and "fn \<notin># offered s" and "fn_in_hand p = Some fn"
  shows "mt_inv (moves c p (s\<lparr>offered := add_mset fn (offered s)\<rparr>))"
  using places_offer [OF assms(1) [unfolded mt_inv_def] assms(2), of c] assms(3)
  unfolding mt_inv_def moves_same mthread.simps hands_upd by simp

lemma mt_inv_accept:
  assumes "mt_inv s" and "fn_in_hand (callers s c) = Some fn"
    and "s1 = s\<lparr>run_fn := Some fn\<rparr> \<or> s1 = s\<lparr>queued_fn := Some fn\<rparr>"
  shows "mt_inv (accept c fn s1)"
proof -
  have "still_run s1 = still_run s \<and> still_queued s1 = still_queued s \<or>
     still_run s1 = Some fn \<and> still_queued s1 = still_queued s \<or>
     still_run s1 = still_run s \<and> still_queued s1 = Some fn"
    using assms(3) by (auto simp: still_run_def still_queued_def)
  from places_accept [OF assms(1) [unfolded mt_inv_def] assms(2) this]
  have "places_apart (ran s) (add_mset fn (accepted s)) (offered s) (still_run s1) (still_queued s1)
     ((\<lambda>d. fn_in_hand (callers s d))(c := None))" by blast
  moreover have "ran s1 = ran s" "accepted s1 = accepted s" "offered s1 = offered s" "callers s1 = callers s"
    using assms(3) by auto
  ultimately show ?thesis
    unfolding accept_def mt_inv_def moves_same notify_worker_same state_same mthread.simps hands_upd by simp
qed

lemma caller_step_inv:
  assumes "mt_inv s" and "caller_step c s = Some s'"
  shows "mt_inv s'"
  using assms
  by (cases "callers s c") (auto simp: caller_step_def split: if_splits intro!: mt_inv_moves mt_inv_accept)

lemma worker_step_inv:
  assumes inv: "mt_inv s" and step: "worker_step s = Some s'"
  shows "mt_inv s'"
proof (cases "worker s = W_call")
  case True
  then obtain fn where fn: "run_fn s = Some fn" "s' = s\<lparr>ran := add_mset fn (ran s), worker := W_test\<rparr>"
    using step by (auto simp: worker_step_def split: option.splits)
  have "still_run s = Some fn" "still_queued s = queued_fn s" using True fn by (simp_all add: still_run_def still_queued_def)
  moreover have "still_run s' = None" "still_queued s' = queued_fn s" using fn by (simp_all add: still_run_def still_queued_def)
  ultimately show ?thesis
    using places_run [of "ran s" "accepted s" "offered s" fn "queued_fn s" "\<lambda>c. fn_in_hand (callers s c)"] inv fn
    by (simp add: mt_inv_def)
next
  case call: False
  have same: "ran s' = ran s" "accepted s' = accepted s" "offered s' = offered s" "callers s' = callers s"
    using step call by (cases "worker s"; auto simp: worker_step_def split: if_splits)+
  show ?thesis
  proof (cases "worker s = W_swap \<and> queued_fn s \<noteq> None")
    case True
    then obtain fn where fn: "queued_fn s = Some fn" by auto
    have "still_run s = None" "still_queued s = Some fn" "still_run s' = Some fn" "still_queued s' = None"
      using True fn step by (auto simp: worker_step_def still_run_def still_queued_def)
    with inv places_swap same show ?thesis by (simp add: mt_inv_def)
  next
    case False
    have "(still_run s' = still_run s \<or> still_run s' = None) \<and>
          (still_queued s' = still_queued s \<or> still_queued s' = None)"
      using step call False
      by (cases "worker s") (auto simp: worker_step_def still_run_def still_queued_def split: if_splits)
    then show ?thesis
      unfolding mt_inv_def same by (intro places_fewer [OF inv [unfolded mt_inv_def]]) auto
  qed
qed

lemma mt_step_inv: "mt_step s s' \<Longrightarrow> mt_inv s \<Longrightarrow> mt_inv s'"
  by (induction rule: mt_step.induct) (auto intro: mt_inv_offer mt_inv_moves worker_step_inv caller_step_inv)

lemma mt_reachable_inv: "mt_reachable s \<Longrightarrow> mt_inv s"
  unfolding mt_reachable_def by (induction rule: rtranclp_induct) (auto intro: mt_inv_new mt_step_inv)

section \<open>Schedules\<close>

datatype 'f event = Calls_try nat 'f | Calls_execute nat 'f | Calls_join nat | Thread | Caller nat

fun mt_event :: "'f event \<Rightarrow> 'f mthread \<Rightarrow> 'f mthread option" where
  "mt_event (Calls_try c fn) s =
     (case callers s c of
        C_out \<Rightarrow> if fn \<in># offered s then None else Some (moves c (T_run fn) (s\<lparr>offered := add_mset fn (offered s)\<rparr>))
      | _ \<Rightarrow> None)"
| "mt_event (Calls_execute c fn) s =
     (case callers s c of
        C_out \<Rightarrow> if fn \<in># offered s then None else Some (moves c (E_run fn) (s\<lparr>offered := add_mset fn (offered s)\<rparr>))
      | _ \<Rightarrow> None)"
| "mt_event (Calls_join c) s = (case callers s c of C_out \<Rightarrow> Some (moves c J_test s) | _ \<Rightarrow> None)"
| "mt_event Thread s = worker_step s"
| "mt_event (Caller c) s = caller_step c s"

fun mt_schedule :: "'f event list \<Rightarrow> 'f mthread \<Rightarrow> 'f mthread option" where
  "mt_schedule [] s = Some s"
| "mt_schedule (e # es) s = Option.bind (mt_event e s) (mt_schedule es)"

lemma mt_event_step: "mt_event e s = Some s' \<Longrightarrow> mt_step s s'"
  by (cases e) (auto intro: mt_step.intros split: caller.splits if_splits)

lemma mt_schedule_steps: "mt_schedule es s = Some s' \<Longrightarrow> mt_step\<^sup>*\<^sup>* s s'"
proof (induction es arbitrary: s)
  case (Cons e es)
  then obtain t where "mt_event e s = Some t" "mt_schedule es t = Some s'" by (auto simp: bind_eq_Some_conv)
  with Cons.IH mt_event_step show ?case by (meson converse_rtranclp_into_rtranclp)
qed simp

lemma mt_schedule_reachable: "mt_schedule es mutable_thread_new = Some s \<Longrightarrow> mt_reachable s"
  by (simp add: mt_reachable_def mt_schedule_steps)

lemmas mt_simps = mutable_thread_new_def worker_step_def caller_step_def moves_def accept_def notify_worker_def
  ready_to_continue_def is_joining_def is_done_def

text \<open>A function is offered and accepted, and the thread runs it.\<close>

definition served_schedule :: "nat event list" where
  "served_schedule = [Thread, Calls_try 0 7, Caller 0, Caller 0, Caller 0, Thread, Thread]"

text \<open>The thread has just been told of a function when it is joined.\<close>

definition join_schedule :: "nat event list" where
  "join_schedule = [Calls_try 0 7, Caller 0, Caller 0, Caller 0, Calls_join 0, Caller 0, Caller 0,
     Thread, Thread, Caller 0]"

text \<open>The second function is queued after the thread has found nothing queued and before it drops the first.\<close>

definition stranded_schedule :: "nat event list" where
  "stranded_schedule = [Calls_try 0 7, Caller 0, Caller 0, Caller 0, Thread, Thread, Thread,
     Calls_try 0 8, Caller 0, Caller 0, Caller 0, Caller 0, Thread, Thread, Thread]"

text \<open>Two callers of \<open>execute\<close> see the same free place.\<close>

definition overwritten_schedule :: "nat event list" where
  "overwritten_schedule = [Calls_try 0 7, Caller 0, Caller 0, Caller 0, Thread,
     Calls_execute 0 8, Calls_execute 1 9, Caller 0, Caller 0, Caller 0, Caller 1, Caller 1, Caller 1,
     Caller 0, Caller 0, Caller 1, Caller 1]"

section \<open>What is promised and what is not\<close>

text \<open>C35. A function is run at most once, and only if \<open>try_execute\<close> or \<open>execute\<close> has accepted it, whatever the
  interleaving of the callers, the thread and the unlocked reads and swaps.\<close>

theorem mutable_thread_at_most_once:
  assumes "mt_reachable s"
  shows "count (ran s) fn \<le> 1 \<and> (fn \<in># ran s \<longrightarrow> fn \<in># accepted s)"
  using mt_reachable_inv [OF assms] by (simp add: mt_inv_def places_apart_def)

lemma served: "\<exists>s. mt_schedule served_schedule mutable_thread_new = Some s \<and> ran s = {#7#}"
  by (simp add: served_schedule_def mt_simps)

theorem mutable_thread_at_most_once_witness:
  "count (ran (the (mt_schedule served_schedule mutable_thread_new))) 7 \<le> 1"
proof -
  obtain s where s: "mt_schedule served_schedule mutable_thread_new = Some s" using served by blast
  show ?thesis unfolding s option.sel
    by (rule mutable_thread_at_most_once [OF mt_schedule_reachable [OF s], THEN conjunct1])
qed

text \<open>\<open>join\<close> does not wait for accepted work: a function accepted before \<open>join\<close> is called is dropped when
  the thread has not begun it, although \<open>join\<close> is documented to complete only when all queued work is done.\<close>

theorem mutable_thread_join_drops_work:
  "\<exists>s. mt_schedule join_schedule mutable_thread_new = Some s \<and> mt_reachable s \<and>
     thread_state s = JOINED \<and> accepted s = {#7#} \<and> ran s = {#}"
proof -
  have "\<exists>s. mt_schedule join_schedule mutable_thread_new = Some s \<and>
     thread_state s = JOINED \<and> accepted s = {#7#} \<and> ran s = {#}"
    by (simp add: join_schedule_def mt_simps)
  with mt_schedule_reachable show ?thesis by blast
qed

text \<open>One caller is enough to strand a function: it is accepted into \<open>queued_fn\<close> between the test and the
  reset in \<open>finish_run\<close>, and the thread sleeps with the function queued.\<close>

theorem mutable_thread_stranded:
  "\<exists>s. mt_schedule stranded_schedule mutable_thread_new = Some s \<and> mt_reachable s \<and>
     worker s = W_asleep \<and> run_fn s = None \<and> queued_fn s = Some 8 \<and> accepted s = {#7, 8#} \<and> ran s = {#7#}"
proof -
  have "\<exists>s. mt_schedule stranded_schedule mutable_thread_new = Some s \<and>
     worker s = W_asleep \<and> run_fn s = None \<and> queued_fn s = Some 8 \<and> accepted s = {#7, 8#} \<and> ran s = {#7#}"
    by (simp add: stranded_schedule_def mt_simps add_mset_commute)
  with mt_schedule_reachable show ?thesis by blast
qed

text \<open>Two callers of \<open>execute\<close> that see the same free place are both told that their function is accepted,
  and one of the functions is overwritten in \<open>queued_fn\<close>.\<close>

theorem mutable_thread_overwrites:
  "\<exists>s. mt_schedule overwritten_schedule mutable_thread_new = Some s \<and> mt_reachable s \<and>
     accepted s = {#7, 8, 9#} \<and> run_fn s = Some 7 \<and> queued_fn s = Some 9 \<and> 8 \<notin># ran s \<and>
     (\<forall>c. callers s c = C_out)"
proof -
  have "\<exists>s. mt_schedule overwritten_schedule mutable_thread_new = Some s \<and>
     accepted s = {#7, 8, 9#} \<and> run_fn s = Some 7 \<and> queued_fn s = Some 9 \<and> 8 \<notin># ran s \<and>
     (\<forall>c. callers s c = C_out)"
    by (simp add: overwritten_schedule_def mt_simps add_mset_commute)
  with mt_schedule_reachable show ?thesis by blast
qed

end
