(* ===== verification/Thread_Pool.thy ===== *)
theory Thread_Pool
  imports Gcl_Prelude
begin

text \<open>
  \<open>include/simple_thread_pool.h\<close> and \<open>src/simple_thread_pool.cc\<close>: a pool of threads lent to clients. Every
  operation is one section under \<open>new_thread_mu_\<close>. A thread is known by its address, and the two \<open>std::set\<close>s
  are ordered by it; the address \<open>new mutable_thread()\<close> returns is an argument.
\<close>

record thread_pool =
  pool_shutting_down :: bool
  active_threads :: "nat set"
  unused_threads :: "nat set"
  min_threads :: nat
  max_threads :: nat

definition thread_pool_default :: thread_pool where
  "thread_pool_default = \<lparr>pool_shutting_down = False, active_threads = {}, unused_threads = {},
     min_threads = 0, max_threads = 2 ^ 64 - 1\<rparr>"

text \<open>The bounded pool, with the addresses of the threads the constructor makes.\<close>

definition thread_pool_bounded :: "nat \<Rightarrow> nat \<Rightarrow> (nat \<Rightarrow> nat) \<Rightarrow> thread_pool" where
  "thread_pool_bounded least most new = \<lparr>pool_shutting_down = False, active_threads = {},
     unused_threads = set (map new [0..<least]), min_threads = least, max_threads = most\<rparr>"

definition try_get_unused_thread :: "nat \<Rightarrow> thread_pool \<Rightarrow> nat option \<times> thread_pool" where
  "try_get_unused_thread new p =
     (if pool_shutting_down p then (None, p)
      else if unused_threads p = {} then
        (if card (active_threads p) < max_threads p
         then (Some new, p\<lparr>active_threads := insert new (active_threads p)\<rparr>)
         else (None, p))
      else let t = Min (unused_threads p) in
        (Some t, p\<lparr>active_threads := insert t (active_threads p), unused_threads := unused_threads p - {t}\<rparr>))"

definition donate_thread :: "nat \<Rightarrow> thread_pool \<Rightarrow> bool \<times> thread_pool" where
  "donate_thread t p =
     (if t \<in> active_threads p
      then (True, p\<lparr>active_threads := active_threads p - {t}, unused_threads := insert t (unused_threads p)\<rparr>)
      else if t \<notin> unused_threads p then (True, p\<lparr>unused_threads := insert t (unused_threads p)\<rparr>)
      else (False, p))"

definition release_thread :: "nat \<Rightarrow> thread_pool \<Rightarrow> bool \<times> thread_pool" where
  "release_thread t p =
     (if t \<in> active_threads p then (True, p\<lparr>active_threads := active_threads p - {t}\<rparr>) else (False, p))"

text \<open>The destructor: the threads it joins and deletes, in order.\<close>

definition destroy_pool :: "thread_pool \<Rightarrow> nat list \<times> thread_pool" where
  "destroy_pool p =
     (sorted_list_of_set (active_threads p) @ sorted_list_of_set (unused_threads p), p\<lparr>pool_shutting_down := True\<rparr>)"

text \<open>A history of a pool: each call with what it returned. A new thread has an address no thread of the
  pool has.\<close>

datatype pool_call = Got "nat option" | Donated nat bool | Released nat bool

inductive pool_run :: "thread_pool \<Rightarrow> pool_call list \<Rightarrow> thread_pool \<Rightarrow> bool" where
  start: "pool_run p [] p"
| get: "pool_run p h q \<Longrightarrow> new \<notin> active_threads q \<union> unused_threads q \<Longrightarrow>
     try_get_unused_thread new q = (r, q') \<Longrightarrow> pool_run p (h @ [Got r]) q'"
| donate: "pool_run p h q \<Longrightarrow> donate_thread t q = (r, q') \<Longrightarrow> pool_run p (h @ [Donated t r]) q'"
| release: "pool_run p h q \<Longrightarrow> release_thread t q = (r, q') \<Longrightarrow> pool_run p (h @ [Released t r]) q'"

definition pool_ok :: "thread_pool \<Rightarrow> bool" where
  "pool_ok p \<longleftrightarrow> finite (active_threads p) \<and> finite (unused_threads p) \<and> active_threads p \<inter> unused_threads p = {}"

lemma pool_ok_new: "pool_ok (thread_pool_bounded least most new)" "pool_ok thread_pool_default"
  by (simp_all add: pool_ok_def thread_pool_bounded_def thread_pool_default_def)

lemma get_ok:
  assumes "pool_ok p" and "new \<notin> active_threads p \<union> unused_threads p" and "try_get_unused_thread new p = (r, p')"
  shows "pool_ok p' \<and> (case r of None \<Rightarrow> p' = p
     | Some t \<Rightarrow> t \<notin> active_threads p \<and> active_threads p' = insert t (active_threads p) \<and> unused_threads p' = unused_threads p - {t})"
proof -
  have "Min (unused_threads p) \<in> unused_threads p \<and> Min (unused_threads p) \<notin> active_threads p"
    if "unused_threads p \<noteq> {}"
  proof -
    have "Min (unused_threads p) \<in> unused_threads p" using assms(1) that by (simp add: pool_ok_def)
    moreover have "active_threads p \<inter> unused_threads p = {}" using assms(1) by (simp add: pool_ok_def)
    ultimately show ?thesis by blast
  qed
  then show ?thesis
    using assms by (auto simp: try_get_unused_thread_def pool_ok_def Let_def split: if_splits)
qed

lemma donate_ok: "pool_ok p \<Longrightarrow> donate_thread t p = (r, p') \<Longrightarrow> pool_ok p'"
  by (auto simp: donate_thread_def pool_ok_def split: if_splits)

lemma release_ok: "pool_ok p \<Longrightarrow> release_thread t p = (r, p') \<Longrightarrow> pool_ok p'"
  by (auto simp: release_thread_def pool_ok_def split: if_splits)

lemma pool_run_ok: "pool_run p h q \<Longrightarrow> pool_ok p \<Longrightarrow> pool_ok q"
  by (induction rule: pool_run.induct) (auto dest: get_ok donate_ok release_ok)

text \<open>The threads a history leaves lent: got, and not donated or released since.\<close>

fun lent_after :: "pool_call list \<Rightarrow> nat set \<Rightarrow> nat set" where
  "lent_after [] l = l"
| "lent_after (Got (Some t) # h) l = lent_after h (insert t l)"
| "lent_after (Got None # h) l = lent_after h l"
| "lent_after (Donated t r # h) l = lent_after h (l - {t})"
| "lent_after (Released t r # h) l = lent_after h (l - {t})"

lemma lent_after_append: "lent_after (h @ h') l = lent_after h' (lent_after h l)"
  by (induction h l rule: lent_after.induct) auto

lemma lent_is_active:
  "pool_run p h q \<Longrightarrow> pool_ok p \<Longrightarrow> active_threads q = lent_after h (active_threads p)"
proof (induction rule: pool_run.induct)
  case (get p h q new r q')
  then have "pool_ok q" using pool_run_ok by blast
  from get_ok [OF this get(2,3)] get show ?case by (cases r) (auto simp: lent_after_append)
qed (auto simp: lent_after_append donate_thread_def release_thread_def split: if_splits)

inductive_cases pool_run_gotE: "pool_run p (h @ [Got r]) q"

text \<open>A thread is lent to one client at a time: a thread \<open>try_get_unused_thread\<close> returns is not one that is
  lent already, whatever the calls before it; the active set is exactly the threads lent and not
  given back.\<close>

theorem thread_pool_lends_once:
  assumes "pool_run (thread_pool_bounded least most new) (h @ [Got (Some t)]) q"
  shows "t \<notin> lent_after h {} \<and> active_threads q = insert t (lent_after h {})"
proof -
  let ?p = "thread_pool_bounded least most new"
  obtain m u where m: "pool_run ?p h m" "u \<notin> active_threads m \<union> unused_threads m" "try_get_unused_thread u m = (Some t, q)"
    using assms by (rule pool_run_gotE) auto
  have "active_threads m = lent_after h {}"
    using lent_is_active [OF m(1) pool_ok_new(1)] by (simp add: thread_pool_bounded_def)
  with get_ok [OF pool_run_ok [OF m(1) pool_ok_new(1)] m(2,3)] show ?thesis by simp
qed

theorem thread_pool_lends_once_witness:
  "3 \<notin> lent_after [Got (Some 3), Donated 3 True] {} \<and> active_threads (snd (try_get_unused_thread 9
     (snd (donate_thread 3 (snd (try_get_unused_thread 3 (thread_pool_bounded 0 1 id))))))) = {3}"
proof -
  let ?p = "thread_pool_bounded 0 1 id"
  let ?p1 = "?p\<lparr>active_threads := {3}\<rparr>" let ?p2 = "?p\<lparr>unused_threads := {3}\<rparr>"
  have e: "try_get_unused_thread 3 ?p = (Some 3, ?p1)" "donate_thread 3 ?p1 = (True, ?p2)"
    "try_get_unused_thread 9 ?p2 = (Some 3, ?p1)"
    by (simp_all add: thread_pool_bounded_def try_get_unused_thread_def donate_thread_def)
  have "pool_run ?p ([] @ [Got (Some 3)]) ?p1" by (rule pool_run.get [OF pool_run.start _ e(1)]) (simp add: thread_pool_bounded_def)
  from pool_run.donate [OF this e(2)] have "pool_run ?p [Got (Some 3), Donated 3 True] ?p2" by simp
  from pool_run.get [OF this _ e(3)] have "pool_run ?p ([Got (Some 3), Donated 3 True] @ [Got (Some 3)]) ?p1"
    by (simp add: thread_pool_bounded_def)
  from thread_pool_lends_once [OF this] show ?thesis unfolding e snd_conv by (simp add: thread_pool_bounded_def)
qed

definition pool_total :: "thread_pool \<Rightarrow> nat" where
  "pool_total p = card (active_threads p) + card (unused_threads p)"

text \<open>Only threads that are lent are given back.\<close>

fun own_donations :: "pool_call list \<Rightarrow> nat set \<Rightarrow> bool" where
  "own_donations [] l = True"
| "own_donations (Donated t r # h) l = (t \<in> l \<and> own_donations h (l - {t}))"
| "own_donations (c # h) l = own_donations h (lent_after [c] l)"

lemma own_donations_append:
  "own_donations (h @ h') l = (own_donations h l \<and> own_donations h' (lent_after h l))"
proof (induction h arbitrary: l)
  case (Cons c h)
  have "lent_after (c # h) l = lent_after h (lent_after [c] l)" using lent_after_append [of "[c]" h l] by simp
  with Cons show ?case by (cases c) simp_all
qed simp

lemma get_total:
  assumes "pool_ok p" and "pool_total p \<le> max_threads p" and "try_get_unused_thread new p = (r, p')"
  shows "pool_total p' \<le> max_threads p' \<and> max_threads p' = max_threads p"
proof -
  have fin: "finite (active_threads p)" "finite (unused_threads p)" using assms(1) by (simp_all add: pool_ok_def)
  show ?thesis
  proof (cases "unused_threads p = {} \<or> pool_shutting_down p")
    case True
    then show ?thesis
      using assms fin by (auto simp: try_get_unused_thread_def pool_total_def card_insert_if split: if_splits)
  next
    case False
    define t where "t = Min (unused_threads p)"
    have "t \<in> unused_threads p" using False fin by (simp add: t_def)
    then have "card (unused_threads p) = Suc (card (unused_threads p - {t}))"
      using fin by (metis card_Suc_Diff1)
    moreover have "card (insert t (active_threads p)) \<le> Suc (card (active_threads p))"
      using fin by (simp add: card_insert_if)
    moreover have "p' = p\<lparr>active_threads := insert t (active_threads p), unused_threads := unused_threads p - {t}\<rparr>"
      using False assms(3) by (simp add: try_get_unused_thread_def t_def Let_def)
    ultimately show ?thesis using assms(2) by (simp add: pool_total_def)
  qed
qed

lemma give_back_total:
  assumes "pool_ok p" and "t \<in> active_threads p" and "pool_total p \<le> max_threads p"
    and "donate_thread t p = (r, p') \<or> release_thread t p = (r, p')"
  shows "pool_total p' \<le> max_threads p' \<and> max_threads p' = max_threads p"
proof -
  have fin: "finite (active_threads p)" "finite (unused_threads p)" using assms(1) by (simp_all add: pool_ok_def)
  have "card (active_threads p) = Suc (card (active_threads p - {t}))"
    using fin assms(2) by (metis card_Suc_Diff1)
  moreover have "card (insert t (unused_threads p)) \<le> Suc (card (unused_threads p))"
    using fin by (simp add: card_insert_if)
  moreover have "p' = p\<lparr>active_threads := active_threads p - {t}, unused_threads := insert t (unused_threads p)\<rparr> \<or>
      p' = p\<lparr>active_threads := active_threads p - {t}\<rparr>"
    using assms(2,4) by (auto simp: donate_thread_def release_thread_def)
  ultimately show ?thesis using assms(3) by (elim disjE) (simp_all add: pool_total_def)
qed

lemma pool_run_total:
  "pool_run p h q \<Longrightarrow> pool_ok p \<Longrightarrow> pool_total p \<le> max_threads p \<Longrightarrow> own_donations h (active_threads p) \<Longrightarrow>
     pool_total q \<le> max_threads q \<and> max_threads q = max_threads p"
proof (induction rule: pool_run.induct)
  case (get p h q new r q')
  then have "pool_ok q" "pool_total q \<le> max_threads q" "max_threads q = max_threads p"
    using pool_run_ok by (auto simp: own_donations_append)
  from get_total [OF this(1,2) get(3)] this(3) show ?case by simp
next
  case (donate p h q t r q')
  then have "pool_ok q" "t \<in> active_threads q" "pool_total q \<le> max_threads q" "max_threads q = max_threads p"
    using pool_run_ok lent_is_active by (auto simp: own_donations_append)
  from give_back_total [OF this(1-3)] this(4) donate(2) show ?case by metis
next
  case (release p h q t r q')
  then have ok: "pool_ok q" "pool_total q \<le> max_threads q" "max_threads q = max_threads p"
    using pool_run_ok by (auto simp: own_donations_append)
  show ?case
  proof (cases "t \<in> active_threads q")
    case True
    from give_back_total [OF ok(1) True ok(2)] ok(3) release(2) show ?thesis by metis
  next
    case False
    with release(2) ok show ?thesis by (simp add: release_thread_def)
  qed
qed simp

text \<open>A bounded pool keeps to its cap as long as clients give back only threads they were lent: the threads
  lent and unused together are never more than \<open>max_threads\<close>.\<close>

theorem thread_pool_cap:
  assumes "pool_run (thread_pool_bounded least most new) h q" and "own_donations h {}" and "least \<le> most"
  shows "pool_total q \<le> most"
proof -
  let ?p = "thread_pool_bounded least most new"
  have "card (new ` {0..<least}) \<le> least" using card_image_le [of "{0..<least}" new] by simp
  with assms(3) have "pool_total ?p \<le> max_threads ?p"
    by (simp add: pool_total_def thread_pool_bounded_def)
  with pool_run_total [OF assms(1) pool_ok_new(1)] assms(2) show ?thesis
    by (simp add: thread_pool_bounded_def)
qed

theorem thread_pool_cap_witness: "pool_total (snd (try_get_unused_thread 9 (thread_pool_bounded 1 1 id))) \<le> 1"
proof -
  let ?p = "thread_pool_bounded 1 1 id"
  have g: "try_get_unused_thread 9 ?p = (Some 0, ?p\<lparr>active_threads := {0}, unused_threads := {}\<rparr>)"
    by (simp add: try_get_unused_thread_def thread_pool_bounded_def)
  have "pool_run ?p ([] @ [Got (Some 0)]) (?p\<lparr>active_threads := {0}, unused_threads := {}\<rparr>)"
    by (rule pool_run.get [OF pool_run.start _ g]) (simp add: thread_pool_bounded_def)
  from thread_pool_cap [OF this] show ?thesis unfolding g snd_conv by simp
qed

text \<open>A thread made elsewhere may be donated without regard to the cap, and is then lent: a pool for one
  thread lends two.\<close>

lemma thread_pool_donation_exceeds_cap:
  "\<exists>h q. pool_run (thread_pool_bounded 0 1 id) h q \<and> card (active_threads q) = 2"
proof -
  let ?p = "thread_pool_bounded 0 1 id"
  let ?p1 = "?p\<lparr>active_threads := {3}\<rparr>" let ?p2 = "?p1\<lparr>unused_threads := {5}\<rparr>"
  let ?p3 = "?p\<lparr>active_threads := {5, 3}\<rparr>"
  have e: "try_get_unused_thread 3 ?p = (Some 3, ?p1)" "donate_thread 5 ?p1 = (True, ?p2)"
    "try_get_unused_thread 9 ?p2 = (Some 5, ?p3)"
    by (simp_all add: thread_pool_bounded_def try_get_unused_thread_def donate_thread_def)
  have "pool_run ?p ([] @ [Got (Some 3)]) ?p1" by (rule pool_run.get [OF pool_run.start _ e(1)]) (simp add: thread_pool_bounded_def)
  from pool_run.donate [OF this e(2)] have "pool_run ?p [Got (Some 3), Donated 5 True] ?p2" by simp
  from pool_run.get [OF this _ e(3)] have "pool_run ?p [Got (Some 3), Donated 5 True, Got (Some 5)] ?p3"
    by (simp add: thread_pool_bounded_def)
  moreover have "card (active_threads ?p3) = 2" by (simp add: thread_pool_bounded_def)
  ultimately show ?thesis by blast
qed

text \<open>\<open>donate_thread\<close> refuses only a thread the pool has unused, never because it is full.\<close>

lemma donate_thread_refuses_only_duplicates:
  "fst (donate_thread t p) \<longleftrightarrow> t \<in> active_threads p \<or> t \<notin> unused_threads p"
  by (simp add: donate_thread_def)

section \<open>How many threads a pool can still lend\<close>

definition lendable :: "thread_pool \<Rightarrow> nat" where
  "lendable p = (if pool_shutting_down p then 0
     else card (unused_threads p) + (max_threads p - (card (active_threads p) + card (unused_threads p))))"

definition new_addresses :: "(nat \<Rightarrow> nat) \<Rightarrow> nat \<Rightarrow> thread_pool \<Rightarrow> bool" where
  "new_addresses new k p \<longleftrightarrow> inj_on new {..<k} \<and> new ` {..<k} \<inter> (active_threads p \<union> unused_threads p) = {}"

lemma get_unused_lendable:
  assumes "pool_ok p" and "new \<notin> active_threads p \<union> unused_threads p"
  shows "fst (try_get_unused_thread new p) = None \<longleftrightarrow> lendable p = 0"
    and "try_get_unused_thread new p = (Some t, p') \<Longrightarrow> Suc (lendable p') = lendable p"
proof -
  have fin: "finite (active_threads p)" "finite (unused_threads p)" "active_threads p \<inter> unused_threads p = {}"
    using assms(1) by (simp_all add: pool_ok_def)
  then have "unused_threads p \<noteq> {} \<Longrightarrow> 0 < card (unused_threads p)" by (simp add: card_gt_0_iff)
  then show "fst (try_get_unused_thread new p) = None \<longleftrightarrow> lendable p = 0"
    by (cases "unused_threads p = {}") (simp_all add: try_get_unused_thread_def lendable_def Let_def)
  assume g: "try_get_unused_thread new p = (Some t, p')"
  show "Suc (lendable p') = lendable p"
  proof (cases "unused_threads p = {}")
    case True
    with g fin assms(2) show ?thesis by (auto simp: try_get_unused_thread_def lendable_def split: if_splits)
  next
    case False
    define m where "m = Min (unused_threads p)"
    have m: "m \<in> unused_threads p" unfolding m_def using False fin(2) by (rule Min_in [rotated])
    have p': "p' = p\<lparr>active_threads := insert m (active_threads p), unused_threads := unused_threads p - {m}\<rparr>" "\<not> pool_shutting_down p"
      using g False by (auto simp: try_get_unused_thread_def m_def Let_def split: if_splits)
    have "card (unused_threads p) = Suc (card (unused_threads p - {m}))" using m fin(2) by (metis card.remove)
    moreover have "card (insert m (active_threads p)) = Suc (card (active_threads p))" using m fin(1,3) by (auto simp: card_insert_if)
    ultimately show ?thesis using p'(2) by (simp add: p'(1) lendable_def)
  qed
qed

lemma get_unused_takes:
  assumes "pool_ok p" and "new \<notin> active_threads p \<union> unused_threads p" and "try_get_unused_thread new p = (Some t, p')"
  shows "pool_ok p'" and "t \<notin> active_threads p" and "active_threads p' = insert t (active_threads p)"
    and "active_threads p' \<union> unused_threads p' \<subseteq> insert new (active_threads p \<union> unused_threads p)"
proof -
  show "pool_ok p'" "t \<notin> active_threads p" and act: "active_threads p' = insert t (active_threads p)"
    using get_ok [OF assms] by auto
  have "unused_threads p \<noteq> {} \<Longrightarrow> Min (unused_threads p) \<in> unused_threads p" using assms(1) by (simp add: pool_ok_def)
  then have "t = new \<or> t \<in> unused_threads p"
    using assms(3) by (cases "unused_threads p = {}") (simp_all add: try_get_unused_thread_def Let_def split: if_splits)
  then show "active_threads p' \<union> unused_threads p' \<subseteq> insert new (active_threads p \<union> unused_threads p)"
    using act get_ok [OF assms] by auto
qed

lemma new_addresses_step:
  assumes "new_addresses new (Suc k) p"
    and "active_threads p' \<union> unused_threads p' \<subseteq> insert (new k) (active_threads p \<union> unused_threads p)"
  shows "new_addresses new k p'"
proof -
  have a: "inj_on new {..<Suc k}" "new ` {..<Suc k} \<inter> (active_threads p \<union> unused_threads p) = {}"
    using assms(1) by (simp_all add: new_addresses_def)
  have "inj_on new {..<k}" by (rule inj_on_subset [OF a(1)]) auto
  moreover have "new i \<notin> active_threads p' \<union> unused_threads p'" if "i < k" for i
  proof -
    have "new i \<noteq> new k" using inj_onD [OF a(1), of i k] that by auto
    moreover have "new i \<in> new ` {..<Suc k}" using that by simp
    ultimately show ?thesis using assms(2) a(2) by (meson disjoint_iff in_mono insertE)
  qed
  ultimately show ?thesis unfolding new_addresses_def by (auto simp: disjoint_iff)
qed

text \<open>A client that asks for \<open>k\<close> threads, one after the other, and gives them up again.\<close>

fun get_threads :: "(nat \<Rightarrow> nat) \<Rightarrow> nat \<Rightarrow> thread_pool \<Rightarrow> nat option list \<times> thread_pool" where
  "get_threads new 0 p = ([], p)"
| "get_threads new (Suc k) p =
     (let (t, p1) = try_get_unused_thread (new k) p; (ts, p2) = get_threads new k p1 in (t # ts, p2))"

fun release_threads :: "nat option list \<Rightarrow> thread_pool \<Rightarrow> thread_pool" where
  "release_threads [] p = p"
| "release_threads (None # ts) p = release_threads ts p"
| "release_threads (Some t # ts) p = release_threads ts (snd (release_thread t p))"

lemma get_threads_lends:
  "pool_ok p \<Longrightarrow> new_addresses new k p \<Longrightarrow> get_threads new k p = (ts, p') \<Longrightarrow>
     length ts = k \<and> length (filter (\<lambda>t. t \<noteq> None) ts) = min k (lendable p) \<and> pool_ok p' \<and>
     active_threads p' = active_threads p \<union> {t. Some t \<in> set ts} \<and>
     (\<forall>t. Some t \<in> set ts \<longrightarrow> t \<notin> active_threads p)"
proof (induction k arbitrary: p ts p')
  case (Suc k)
  obtain t p1 where g: "try_get_unused_thread (new k) p = (t, p1)" by fastforce
  obtain us where u: "get_threads new k p1 = (us, p')" "ts = t # us"
    using Suc.prems(3) g by (auto split: prod.splits)
  have fresh: "new k \<notin> active_threads p \<union> unused_threads p" using Suc.prems(2) by (auto simp: new_addresses_def)
  show ?case
  proof (cases t)
    case None
    then have "p1 = p" "lendable p = 0"
      using g get_ok [OF Suc.prems(1) fresh] get_unused_lendable(1) [OF Suc.prems(1) fresh] by auto
    moreover have "new_addresses new k p" using new_addresses_step [OF Suc.prems(2)] by blast
    ultimately show ?thesis using Suc.IH [OF _ _ u(1)] Suc.prems(1) u(2) None by auto
  next
    case (Some x)
    note g = g [unfolded Some]
    note x = get_unused_takes [OF Suc.prems(1) fresh g] get_unused_lendable(2) [OF Suc.prems(1) fresh g]
    have "new_addresses new k p1" using new_addresses_step [OF Suc.prems(2) x(4)] .
    from Suc.IH [OF x(1) this u(1)] x(2,3,5) u(2) Some show ?thesis by auto
  qed
qed simp

lemma release_threads_gives:
  "active_threads (release_threads ts p) = active_threads p - {t. Some t \<in> set ts} \<and>
   unused_threads (release_threads ts p) = unused_threads p \<and> max_threads (release_threads ts p) = max_threads p \<and>
   pool_shutting_down (release_threads ts p) = pool_shutting_down p"
  by (induction ts p rule: release_threads.induct) (auto simp: release_thread_def)

lemma get_threads_keeps:
  "get_threads new k p = (ts, p') \<Longrightarrow> max_threads p' = max_threads p \<and> pool_shutting_down p' = pool_shutting_down p"
  by (induction k arbitrary: p ts p') (fastforce simp: try_get_unused_thread_def Let_def split: prod.splits if_splits)+

lemma get_threads_length: "length (fst (get_threads new k p)) = k"
  by (induction k arbitrary: p) (simp, simp split: prod.splits, metis fst_conv)

lemma get_threads_unused:
  "finite (unused_threads p) \<Longrightarrow> get_threads new k p = (ts, p') \<Longrightarrow> unused_threads p' \<subseteq> unused_threads p"
proof (induction k arbitrary: p ts p')
  case (Suc k)
  obtain t p1 where g: "try_get_unused_thread (new k) p = (t, p1)" by fastforce
  obtain us where u: "get_threads new k p1 = (us, p')" using Suc.prems(2) g by (auto split: prod.splits)
  have "unused_threads p1 \<subseteq> unused_threads p" using g by (auto simp: try_get_unused_thread_def Let_def split: if_splits)
  with Suc.IH [OF _ u] Suc.prems(1) show ?case using finite_subset by blast
qed simp

end
