(* ===== verification/Pipeline_Segments.thy ===== *)
theory Pipeline_Segments
  imports Gcl_Prelude
begin

text \<open>
  \<open>include/pipeline.h\<close>, the objects a plan is built of. A segment owns queues of ten slots; a queue is
  known by a number, handed out by a counter \<open>n\<close> that every constructor passes on. \<open>clone\<close> copies a
  segment with new queues, \<open>mk_chain\<close> is the constructor of \<open>__segment_chain\<close>, which lets a function read
  the queue of a \<open>__segment_queue_producer\<close> before it directly, and \<open>run\<close> lists the threads a segment
  starts. The user's functions are programs that push to their output queue and pop from their input queue,
  in finitely many operations; \<open>None\<close> as a queue is a null pointer.
\<close>

datatype 'v prog = Ret 'v | Push 'v "'v prog" | Pop "'v option \<Rightarrow> 'v prog"

text \<open>The function a worker thread runs, one constructor for each \<open>run_*\<close> function.\<close>

datatype 'v task =
    Run_simple_function "'v \<Rightarrow> 'v"
  | Run_multi_out_function "'v \<Rightarrow> 'v prog"
  | Run_multi_in_function "'v prog"
  | Run_full_function "'v prog"
  | Run_consumer
  | Run_multi_in_consumer "'v prog"
  | Run_producer 'v
  | Run_multi_out_producer "'v prog"
  | Run_queue
  | Run_out_queues "nat list"

datatype 'v worker = Worker (task_of: "'v task") (front_of: "nat option") (back_of: "nat option")

text \<open>A segment: \<open>Function\<close> has its queue, its task, \<open>has_merged_in_queue_\<close> and \<open>merged_in_queue_\<close>;
  \<open>Parallel_seg\<close> has \<open>in_queue_\<close>, \<open>s_\<close>, \<open>bases_\<close> and \<open>out_queues_\<close>.\<close>

datatype 'v seg =
    Function_seg nat "'v task" bool "nat option"
  | Producer_seg "'v task"
  | Queue_producer_seg "nat option" bool
  | Consumer_seg nat "'v task"
  | Queue_consumer_seg nat
  | Chain_seg "'v seg" "'v seg"
  | Parallel_seg nat "'v seg" "'v seg list" "nat list"

section \<open>Merging\<close>

fun can_merge_on_front :: "'v seg \<Rightarrow> bool" where
  "can_merge_on_front (Function_seg q f merged mq) = (\<not> merged)"
| "can_merge_on_front (Chain_seg a b) = can_merge_on_front a"
| "can_merge_on_front s = False"

fun can_merge_on_back :: "'v seg \<Rightarrow> bool" where
  "can_merge_on_back (Queue_producer_seg ft merged) = (\<not> merged)"
| "can_merge_on_back (Chain_seg a b) = can_merge_on_back b"
| "can_merge_on_back s = False"

text \<open>The base class throws outside a handler, which ends the program: \<open>None\<close>.\<close>

definition function_merge_on_front :: "nat option \<Rightarrow> nat \<Rightarrow> 'v task \<Rightarrow> 'v seg" where
  [simp]: "function_merge_on_front ft q f = Function_seg q f True ft"

definition queue_producer_merge_back :: "nat option \<Rightarrow> nat option \<times> 'v seg" where
  [simp]: "queue_producer_merge_back ft = (ft, Queue_producer_seg None True)"

fun merge_on_front :: "nat option \<Rightarrow> 'v seg \<Rightarrow> 'v seg option" where
  "merge_on_front ft (Function_seg q f merged mq) = Some (function_merge_on_front ft q f)"
| "merge_on_front ft (Chain_seg a b) = map_option (\<lambda>a'. Chain_seg a' b) (merge_on_front ft a)"
| "merge_on_front ft s = None"

fun merge_back :: "'v seg \<Rightarrow> (nat option \<times> 'v seg) option" where
  "merge_back (Queue_producer_seg ft merged) = Some (queue_producer_merge_back ft)"
| "merge_back (Chain_seg a b) = map_option (\<lambda>(ft, b'). (ft, Chain_seg a b')) (merge_back b)"
| "merge_back s = None"

text \<open>The tests guard the calls, so the two \<open>None\<close> branches are never taken.\<close>

definition mk_chain :: "'v seg \<Rightarrow> 'v seg \<Rightarrow> 'v seg" where
  "mk_chain a b =
     (if can_merge_on_back a \<and> can_merge_on_front b
      then (case merge_back a of
              None \<Rightarrow> Chain_seg a b
            | Some (ft, a') \<Rightarrow>
                (case merge_on_front ft b of None \<Rightarrow> Chain_seg a' b | Some b' \<Rightarrow> Chain_seg a' b'))
      else Chain_seg a b)"

lemma merge_on_front_some: "can_merge_on_front s \<Longrightarrow> \<exists>s'. merge_on_front ft s = Some s'"
  by (induction s) auto

lemma merge_back_some: "can_merge_on_back s \<Longrightarrow> \<exists>ft s'. merge_back s = Some (ft, s')"
  by (induction s) auto

section \<open>Copies and parallel segments\<close>

fun depth :: "'v seg \<Rightarrow> nat" where
  "depth (Chain_seg a b) = Suc (max (depth a) (depth b))"
| "depth (Parallel_seg iq s bs oqs) = Suc (depth s)"
| "depth s = 0"

lemma depth_merge_on_front: "merge_on_front ft s = Some s' \<Longrightarrow> depth s' = depth s"
  by (induction s arbitrary: s') auto

lemma depth_merge_back: "merge_back s = Some (ft, s') \<Longrightarrow> depth s' = depth s"
  by (induction s arbitrary: s') auto

lemma depth_mk_chain: "depth (mk_chain a b) = Suc (max (depth a) (depth b))"
  by (auto simp: mk_chain_def depth_merge_back depth_merge_on_front split: option.splits)

text \<open>\<open>parallel_bases\<close> is the loop of the constructor of \<open>__segment_parallel\<close>: every base is a chain of a
  copy of the queue producer on \<open>in_queue_\<close> and a copy of the segment.\<close>

definition function_copy :: "nat \<Rightarrow> 'v task \<Rightarrow> bool \<Rightarrow> nat option \<Rightarrow> 'v seg \<times> nat" where
  [simp]: "function_copy n f merged mq = (Function_seg n f merged mq, n + 1)"

definition consumer_copy :: "nat \<Rightarrow> 'v task \<Rightarrow> 'v seg \<times> nat" where
  [simp]: "consumer_copy n f = (Consumer_seg n f, n + 1)"

function (sequential) clone :: "'v seg \<Rightarrow> nat \<Rightarrow> 'v seg \<times> nat"
  and parallel_bases :: "nat \<Rightarrow> 'v seg \<Rightarrow> nat \<Rightarrow> nat \<Rightarrow> 'v seg list \<times> nat list \<times> nat" where
  "clone (Function_seg q f merged mq) n = function_copy n f merged mq"
| "clone (Producer_seg f) n = (Producer_seg f, n)"
| "clone (Queue_producer_seg ft merged) n = (Queue_producer_seg ft merged, n)"
| "clone (Consumer_seg q f) n = consumer_copy n f"
| "clone (Queue_consumer_seg bk) n = (Queue_consumer_seg bk, n)"
| "clone (Chain_seg a b) n =
     (let (a', n1) = clone a n; (b', n2) = clone b n1 in (mk_chain a' b', n2))"
| "clone (Parallel_seg iq s bs oqs) n =
     (let (s', n1) = clone s n; (bs', oqs', n2) = parallel_bases n1 s' (length bs) (n1 + 1)
      in (Parallel_seg n1 s' bs' oqs', n2))"
| "parallel_bases iq s 0 n = ([], [], n)"
| "parallel_bases iq s (Suc k) n =
     (let (s', n1) = clone s n; (bs, oqs, n2) = parallel_bases iq s k (n1 + 1)
      in (mk_chain (Queue_producer_seg (Some iq) False) s' # bs, n1 # oqs, n2))"
  by pat_completeness auto

termination
proof -
  have depth_clone: "depth (fst (clone s n)) = depth s" if "clone_parallel_bases_dom (Inl (s, n))" for s :: "'v seg" and n
    using that
    by (induction s n rule: clone_parallel_bases.pinduct(1) [where Q = "\<lambda>_ _ _ _. True"])
      (auto simp: clone.psimps depth_mk_chain split: prod.splits)
  show ?thesis
    by (relation "measures [\<lambda>x. case x of Inl (s, n) \<Rightarrow> 2 * depth s | Inr (iq, s, k, n) \<Rightarrow> 2 * depth s + 1,
        \<lambda>x. case x of Inl (s, n) \<Rightarrow> 0 | Inr (iq, s, k, n) \<Rightarrow> k]")
      (auto, metis depth_clone fst_conv lessI)
qed

definition mk_parallel :: "'v seg \<Rightarrow> nat \<Rightarrow> nat \<Rightarrow> 'v seg \<times> nat" where
  "mk_parallel s k n =
     (let (bs, oqs, n1) = parallel_bases n s k (n + 1) in (Parallel_seg n s bs oqs, n1))"

lemma clone_parallel:
  "clone (Parallel_seg iq s bs oqs) n = (let (s', n1) = clone s n in mk_parallel s' (length bs) n1)"
  by (simp add: mk_parallel_def split: prod.splits)

section \<open>Running\<close>

text \<open>\<open>get_back\<close>: \<open>None\<close> when it throws outside a handler, \<open>Some None\<close> for a null queue.\<close>

definition function_get_back :: "nat \<Rightarrow> bool \<Rightarrow> nat option" where
  [simp]: "function_get_back q merged = (if merged then None else Some q)"

fun get_back :: "'v seg \<Rightarrow> nat option option" where
  "get_back (Function_seg q f merged mq) = Some (function_get_back q merged)"
| "get_back (Producer_seg f) = None"
| "get_back (Queue_producer_seg ft merged) = None"
| "get_back (Consumer_seg q f) = Some (Some q)"
| "get_back (Queue_consumer_seg bk) = Some (Some bk)"
| "get_back (Chain_seg a b) = get_back a"
| "get_back (Parallel_seg iq s bs oqs) = Some (Some iq)"

lemma zip_size: "(b, q) \<in> set (zip bs oqs) \<Longrightarrow> size b < Suc (size_list size bs + m)"
  by (drule set_zip_leftD) (meson le_add1 le_imp_less_Suc order_refl order_trans size_list_estimation')

text \<open>The threads \<open>run\<close> hands to \<open>inst->execute\<close>, in order; \<open>None\<close> when the program ends: \<open>get_back\<close>
  throws, or the assertion of a merged queue producer fails.\<close>

definition function_run :: "nat \<Rightarrow> 'v task \<Rightarrow> bool \<Rightarrow> nat option \<Rightarrow> nat option \<Rightarrow> 'v worker list option" where
  [simp]: "function_run q f merged mq out = Some [Worker f (if merged then mq else Some q) out]"

definition producer_run :: "'v task \<Rightarrow> nat option \<Rightarrow> 'v worker list option" where
  [simp]: "producer_run f out = Some [Worker f None out]"

definition queue_producer_run :: "nat option \<Rightarrow> bool \<Rightarrow> nat option \<Rightarrow> 'v worker list option" where
  [simp]: "queue_producer_run ft merged out =
     (if \<not> merged then Some [Worker Run_queue ft out] else if out = None then Some [] else None)"

definition consumer_run :: "nat \<Rightarrow> 'v task \<Rightarrow> 'v worker list option" where
  [simp]: "consumer_run q f = Some [Worker f (Some q) None]"

function (sequential) run :: "'v seg \<Rightarrow> nat option \<Rightarrow> 'v worker list option" where
  "run (Function_seg q f merged mq) out = function_run q f merged mq out"
| "run (Producer_seg f) out = producer_run f out"
| "run (Queue_producer_seg ft merged) out = queue_producer_run ft merged out"
| "run (Consumer_seg q f) out = consumer_run q f"
| "run (Queue_consumer_seg bk) out = Some []"
| "run (Chain_seg a b) out =
     Option.bind (get_back b) (\<lambda>mid. Option.bind (run a mid) (\<lambda>ws. map_option (\<lambda>ws'. ws @ ws') (run b out)))"
| "run (Parallel_seg iq s bs oqs) out =
     map_option (\<lambda>wss. concat wss @ [Worker (Run_out_queues oqs) None out])
       (those (map (\<lambda>(b, o'). run b (Some o')) (zip bs oqs)))"
  by pat_completeness auto

termination
  by (relation "measure (size \<circ> fst)") (auto dest: zip_size)

section \<open>The segments of an expression\<close>

text \<open>What a program writes: \<open>make\<close>, \<open>from\<close>, \<open>to\<close>, \<open>parallel\<close> and \<open>|\<close>. A \<open>segment\<close> owns its base and
  clones it when it is copied, composed or put in parallel.\<close>

datatype 'v pexpr =
    Make "'v task" | From "'v task" | From_queue nat | To "'v task" | To_queue nat
  | Parallel "'v pexpr" nat | Pipe "'v pexpr" "'v pexpr"

fun build :: "'v pexpr \<Rightarrow> nat \<Rightarrow> 'v seg \<times> nat" where
  "build (Make f) n = (Function_seg n f False None, n + 1)"
| "build (From f) n = (Producer_seg f, n)"
| "build (From_queue q) n = (Queue_producer_seg (Some q) False, n)"
| "build (To f) n = (Consumer_seg n f, n + 1)"
| "build (To_queue q) n = (Queue_consumer_seg q, n)"
| "build (Parallel e k) n =
     (let (s, n1) = build e n; (s', n2) = clone s n1 in mk_parallel s' k n2)"
| "build (Pipe e1 e2) n =
     (let (s1, n1) = build e1 n; (s2, n2) = build e2 n1; (c1, n3) = clone s1 n2; (c2, n4) = clone s2 n3
      in (mk_chain c1 c2, n4))"

text \<open>\<open>plan::run\<close>: the plan is cloned and run with the queue \<open>dummy_queue_\<close> of the instance.\<close>

definition plan_workers :: "'v pexpr \<Rightarrow> nat \<Rightarrow> 'v worker list option" where
  "plan_workers e n = (let (s, n1) = build e n; (s', n2) = clone s n1 in run s' (Some n2))"

end
