(* ===== verification/Pipeline_Threads.thy ===== *)
theory Pipeline_Threads
  imports Pipeline_Segments Buffer_Queue
begin

text \<open>
  \<open>include/pipeline.h\<close>, the threads of a running plan: each \<open>run_*\<close> function as a machine whose steps are
  the operations on the queues (\<open>Buffer_Queue\<close>). A blocking operation that cannot be carried out yet is not a
  step; \<open>Buffer_Queue_Threads\<close> shows that the sleeping thread is woken. The elements can be copied without an
  exception. \<open>delivered\<close> lists the elements the consumers were called with.
\<close>

datatype 'v pc =
    Thread_start | Loop_head | Body "'v prog" | Result 'v
  | Drain "nat list" | Moving 'v "nat list" | Close_out | Done | Crashed

type_synonym 'v queues = "nat \<Rightarrow> 'v buffer_queue"

text \<open>An operation on a queue end: it blocks, ends the program (a null pointer, an exception that leaves the
  thread), or is performed.\<close>

datatype 'v io = Blocks | Fails | Performs "'v option" "'v queues"

definition read_from :: "nat option \<Rightarrow> 'v queues \<Rightarrow> 'v io" where
  "read_from f Q = (case f of
      None \<Rightarrow> Fails
    | Some q \<Rightarrow> (case bq_wait_pop True (Q q) of
          (Returns (Success, v), b) \<Rightarrow> Performs v (Q(q := b))
        | (Returns (st, v), b) \<Rightarrow> Performs None (Q(q := b))
        | (Sleeps, b) \<Rightarrow> Blocks
        | _ \<Rightarrow> Fails))"

definition write_to :: "nat option \<Rightarrow> 'v \<Rightarrow> 'v queues \<Rightarrow> 'v io" where
  "write_to f v Q = (case f of
      None \<Rightarrow> Fails
    | Some q \<Rightarrow> (case bq_push True v (Q q) of
          (Returns u, b) \<Rightarrow> Performs None (Q(q := b))
        | (Sleeps, b) \<Rightarrow> Blocks
        | _ \<Rightarrow> Fails))"

text \<open>What a thread does next: its new place, the queues, what it delivers.\<close>

type_synonym 'v move = "('v pc \<times> 'v queues \<times> 'v list) option"

fun after_io :: "'v io \<Rightarrow> 'v queues \<Rightarrow> ('v option \<Rightarrow> 'v pc \<times> 'v list) \<Rightarrow> 'v move" where
  "after_io Blocks Q k = None"
| "after_io Fails Q k = Some (Crashed, Q, [])"
| "after_io (Performs v Q') Q k = Some (fst (k v), Q', snd (k v))"

text \<open>After \<open>inst->thread_start()\<close>.\<close>

fun first_pc :: "'v task \<Rightarrow> 'v pc" where
  "first_pc (Run_producer v) = Result v"
| "first_pc (Run_multi_out_producer p) = Body p"
| "first_pc (Run_out_queues qs) = Drain qs"
| "first_pc t = Loop_head"

definition unless_closed :: "'v worker \<Rightarrow> 'v queues \<Rightarrow> 'v pc \<Rightarrow> 'v pc \<Rightarrow> 'v move" where
  "unless_closed w Q closed_pc open_pc = (case front_of w of
      None \<Rightarrow> Some (Crashed, Q, [])
    | Some q \<Rightarrow> Some (if bq_is_closed (Q q) then closed_pc else open_pc, Q, []))"

text \<open>The head of the \<open>while\<close> loop: with \<open>wait_pop\<close>, or with the test of \<open>is_closed\<close>.\<close>

fun loop_step :: "'v worker \<Rightarrow> 'v queues \<Rightarrow> 'v move" where
  "loop_step w Q = (case task_of w of
      Run_simple_function f \<Rightarrow> after_io (read_from (front_of w) Q) Q
        (\<lambda>r. case r of Some v \<Rightarrow> (Result (f v), []) | None \<Rightarrow> (Close_out, []))
    | Run_multi_out_function f \<Rightarrow> after_io (read_from (front_of w) Q) Q
        (\<lambda>r. case r of Some v \<Rightarrow> (Body (f v), []) | None \<Rightarrow> (Close_out, []))
    | Run_consumer \<Rightarrow> after_io (read_from (front_of w) Q) Q
        (\<lambda>r. case r of Some v \<Rightarrow> (Loop_head, [v]) | None \<Rightarrow> (Done, []))
    | Run_queue \<Rightarrow> after_io (read_from (front_of w) Q) Q
        (\<lambda>r. case r of Some v \<Rightarrow> (Result v, []) | None \<Rightarrow> (Close_out, []))
    | Run_multi_in_function p \<Rightarrow> unless_closed w Q Close_out (Body p)
    | Run_full_function p \<Rightarrow> unless_closed w Q Close_out (Body p)
    | Run_multi_in_consumer p \<Rightarrow> unless_closed w Q Done (Body p)
    | _ \<Rightarrow> None)"

text \<open>When the user's function returns \<open>v\<close>.\<close>

fun returned :: "'v task \<Rightarrow> 'v \<Rightarrow> 'v pc" where
  "returned (Run_multi_in_function p) v = Result v"
| "returned (Run_multi_out_producer p) v = Close_out"
| "returned t v = Loop_head"

fun pushed_result :: "'v task \<Rightarrow> 'v pc" where
  "pushed_result (Run_producer v) = Close_out"
| "pushed_result t = Loop_head"

text \<open>The body of \<open>run_out_queues\<close> and \<open>run_queue_internal\<close>: the queues of the copies one after another.\<close>

fun drain_step :: "'v worker \<Rightarrow> nat list \<Rightarrow> 'v queues \<Rightarrow> 'v move" where
  "drain_step w [] Q = Some (Close_out, Q, [])"
| "drain_step w (q # qs) Q = after_io (read_from (Some q) Q) Q
     (\<lambda>r. case r of Some v \<Rightarrow> (Moving v (q # qs), []) | None \<Rightarrow> (Drain qs, []))"

fun thread_step :: "bool \<Rightarrow> 'v worker \<Rightarrow> 'v pc \<Rightarrow> 'v queues \<Rightarrow> 'v move" where
  "thread_step started w Thread_start Q = (if started then Some (first_pc (task_of w), Q, []) else None)"
| "thread_step started w Loop_head Q = loop_step w Q"
| "thread_step started w (Body (Ret v)) Q = Some (returned (task_of w) v, Q, [])"
| "thread_step started w (Body (Push v k)) Q = after_io (write_to (back_of w) v Q) Q (\<lambda>_. (Body k, []))"
| "thread_step started w (Body (Pop k)) Q = after_io (read_from (front_of w) Q) Q (\<lambda>r. (Body (k r), []))"
| "thread_step started w (Result v) Q =
     after_io (write_to (back_of w) v Q) Q (\<lambda>_. (pushed_result (task_of w), []))"
| "thread_step started w (Drain qs) Q = drain_step w qs Q"
| "thread_step started w (Moving v qs) Q = after_io (write_to (back_of w) v Q) Q (\<lambda>_. (Drain qs, []))"
| "thread_step started w Close_out Q = (case back_of w of
      None \<Rightarrow> Some (Crashed, Q, [])
    | Some q \<Rightarrow> Some (Done, Q(q := bq_close (Q q)), []))"
| "thread_step started w Done Q = None"
| "thread_step started w Crashed Q = None"

record 'v pipe =
  started :: bool
  queues :: "'v queues"
  threads :: "('v worker \<times> 'v pc) list"
  delivered :: "'v list"

inductive pipe_step :: "'v pipe \<Rightarrow> 'v pipe \<Rightarrow> bool" where
  count_down: "\<not> started s \<Longrightarrow> pipe_step s (s\<lparr>started := True\<rparr>)"
| thread: "i < length (threads s) \<Longrightarrow> threads s ! i = (w, pc) \<Longrightarrow>
     thread_step (started s) w pc (queues s) = Some (pc', Q, vs) \<Longrightarrow>
     pipe_step s (s\<lparr>queues := Q, threads := (threads s)[i := (w, pc')], delivered := delivered s @ vs\<rparr>)"

definition all_done :: "'v pipe \<Rightarrow> bool" where
  "all_done s \<longleftrightarrow> (\<forall>t \<in> set (threads s). snd t = Done)"

section \<open>The operations on well-formed queues\<close>

lemma read_from_eq:
  assumes "bq_wf (Q q)"
  shows "read_from (Some q) Q =
     (if bq_contents (Q q) \<noteq> [] then Performs (Some (hd (bq_contents (Q q)))) (Q(q := popped (Q q)))
      else if closed (Q q) then Performs None (Q(q := Q q)) else Blocks)"
  using assms by (simp add: read_from_def bq_op_eqs)

lemma write_to_eq:
  assumes "bq_wf (Q q)"
  shows "write_to (Some q) v Q =
     (if closed (Q q) then Fails
      else if length (bq_contents (Q q)) = bq_capacity (Q q) then Blocks
      else Performs None (Q(q := pushed v (Q q))))"
  using assms by (simp add: write_to_def bq_push_def bind_op_def bq_op_eqs)

end
