(* ===== verification/Pipeline_Safety.thy ===== *)
theory Pipeline_Safety
  imports Pipeline_Threads
begin

text \<open>
  What the types of \<open>include/pipeline.h\<close> promise of a plan's threads, and that such threads never use a null
  queue, never push to a closed queue and close each queue once: the invariant \<open>pipe_inv\<close>.
\<close>

section \<open>Typed threads\<close>

text \<open>A function that is given only the front of a queue cannot push, one given only the back cannot pop.\<close>

primrec only_pushes :: "'v prog \<Rightarrow> bool" where
  "only_pushes (Ret v) = True"
| "only_pushes (Push v k) = only_pushes k"
| "only_pushes (Pop k) = False"

primrec only_pops :: "'v prog \<Rightarrow> bool" where
  "only_pops (Ret v) = True"
| "only_pops (Push v k) = False"
| "only_pops (Pop k) = (\<forall>r. only_pops (k r))"

fun is_function :: "'v task \<Rightarrow> bool" where
  "is_function (Run_simple_function f) = True"
| "is_function (Run_multi_out_function f) = (\<forall>v. only_pushes (f v))"
| "is_function (Run_multi_in_function p) = only_pops p"
| "is_function (Run_full_function p) = True"
| "is_function t = False"

fun is_consumer :: "'v task \<Rightarrow> bool" where
  "is_consumer Run_consumer = True"
| "is_consumer (Run_multi_in_consumer p) = only_pops p"
| "is_consumer t = False"

fun is_producer :: "'v task \<Rightarrow> bool" where
  "is_producer (Run_producer v) = True"
| "is_producer (Run_multi_out_producer p) = only_pushes p"
| "is_producer t = False"

fun worker_ok :: "'v worker \<Rightarrow> bool" where
  "worker_ok (Worker t f b) =
     (is_function t \<and> f \<noteq> None \<and> b \<noteq> None \<or> is_consumer t \<and> f \<noteq> None \<and> b = None \<or>
      is_producer t \<and> b \<noteq> None \<or> t = Run_queue \<and> f \<noteq> None \<and> b \<noteq> None \<or>
      (\<exists>qs. t = Run_out_queues qs) \<and> b \<noteq> None)"

text \<open>The places a thread can be in.\<close>

fun pc_ok :: "'v task \<Rightarrow> 'v pc \<Rightarrow> bool" where
  "pc_ok t Thread_start = True"
| "pc_ok t Done = True"
| "pc_ok t Crashed = False"
| "pc_ok t Loop_head = (is_function t \<or> is_consumer t \<or> t = Run_queue)"
| "pc_ok t (Body p) = (case t of
      Run_multi_out_function f \<Rightarrow> only_pushes p
    | Run_multi_out_producer p' \<Rightarrow> only_pushes p
    | Run_multi_in_function p' \<Rightarrow> only_pops p
    | Run_multi_in_consumer p' \<Rightarrow> only_pops p
    | Run_full_function p' \<Rightarrow> True
    | _ \<Rightarrow> False)"
| "pc_ok t (Result v) = (case t of
      Run_simple_function f \<Rightarrow> True | Run_multi_in_function p \<Rightarrow> True | Run_producer u \<Rightarrow> True
    | Run_queue \<Rightarrow> True | _ \<Rightarrow> False)"
| "pc_ok t (Drain qs) = (\<exists>pre. t = Run_out_queues (pre @ qs))"
| "pc_ok t (Moving v qs) = (\<exists>pre. t = Run_out_queues (pre @ qs))"
| "pc_ok t Close_out = (case t of Run_consumer \<Rightarrow> False | Run_multi_in_consumer p \<Rightarrow> False | _ \<Rightarrow> True)"

text \<open>The queues a thread has seen closed and empty. A loop that tests \<open>is_closed\<close> sees only that its queue
  is closed.\<close>

fun read_up :: "'v worker \<Rightarrow> 'v pc \<Rightarrow> nat set" where
  "read_up (Worker (Run_out_queues all) f b) pc = (case pc of
      Drain qs \<Rightarrow> set (take (length all - length qs) all)
    | Moving v qs \<Rightarrow> set (take (length all - length qs) all)
    | Close_out \<Rightarrow> set all
    | Done \<Rightarrow> set all
    | _ \<Rightarrow> {})"
| "read_up (Worker (Run_simple_function g) f b) pc = (if pc = Close_out \<or> pc = Done then set_option f else {})"
| "read_up (Worker (Run_multi_out_function g) f b) pc = (if pc = Close_out \<or> pc = Done then set_option f else {})"
| "read_up (Worker Run_consumer f b) pc = (if pc = Done then set_option f else {})"
| "read_up (Worker Run_queue f b) pc = (if pc = Close_out \<or> pc = Done then set_option f else {})"
| "read_up w pc = {}"

abbreviation is_up :: "'v queues \<Rightarrow> nat \<Rightarrow> bool" where
  "is_up Q q \<equiv> closed (Q q) \<and> bq_contents (Q q) = []"

definition queues_ok :: "'v queues \<Rightarrow> bool" where
  "queues_ok Q \<longleftrightarrow> (\<forall>q. bq_wf (Q q) \<and> 0 < bq_capacity (Q q))"

section \<open>One step\<close>

text \<open>A step does to the queues: nothing, a pop, a push to an open queue, or a close.\<close>

definition queue_change :: "'v queues \<Rightarrow> 'v queues \<Rightarrow> bool" where
  "queue_change Q Q' \<longleftrightarrow> Q' = Q \<or>
     (\<exists>q. bq_contents (Q q) \<noteq> [] \<and> Q' = Q(q := popped (Q q))) \<or>
     (\<exists>q v. \<not> closed (Q q) \<and> length (bq_contents (Q q)) \<noteq> bq_capacity (Q q) \<and> Q' = Q(q := pushed v (Q q)))"

lemma queue_change_ok: "queue_change Q Q' \<Longrightarrow> queues_ok Q \<Longrightarrow> queues_ok Q'"
  by (auto simp: queue_change_def queues_ok_def popped_props pushed_props)

lemma queue_change_closed: "queue_change Q Q' \<Longrightarrow> closed (Q' q) = closed (Q q)"
  by (auto simp: queue_change_def split: if_splits)

lemma queue_change_up: "queue_change Q Q' \<Longrightarrow> queues_ok Q \<Longrightarrow> is_up Q q \<Longrightarrow> is_up Q' q"
  by (auto simp: queue_change_def)

lemma read_from_cases:
  assumes "queues_ok Q" and "after_io (read_from (Some q) Q) Q k = Some (pc', Q', vs)"
  shows "(\<exists>v. bq_contents (Q q) \<noteq> [] \<and> v = hd (bq_contents (Q q)) \<and> Q' = Q(q := popped (Q q)) \<and> (pc', vs) = k (Some v)) \<or>
     (is_up Q q \<and> Q' = Q \<and> (pc', vs) = k None)"
proof -
  have "bq_wf (Q q)" using assms(1) by (simp add: queues_ok_def)
  then show ?thesis using assms(2) by (auto simp: read_from_eq split: if_splits)
qed

lemma write_to_cases:
  assumes "queues_ok Q" and "\<not> closed (Q q)" and "after_io (write_to (Some q) v Q) Q k = Some (pc', Q', vs)"
  shows "length (bq_contents (Q q)) \<noteq> bq_capacity (Q q) \<and> Q' = Q(q := pushed v (Q q)) \<and> (pc', vs) = k None"
proof -
  have "bq_wf (Q q)" using assms(1) by (simp add: queues_ok_def)
  then show ?thesis using assms(2,3) by (auto simp: write_to_eq split: if_splits)
qed

text \<open>What one step of a thread does: its new place is one of its places, a queue it gives up is closed and empty,
  and it closes its own queue exactly when it ends.\<close>

definition step_ok :: "'v worker \<Rightarrow> 'v queues \<Rightarrow> 'v pc \<Rightarrow> 'v queues \<Rightarrow> bool" where
  "step_ok w Q pc' Q' \<longleftrightarrow> pc_ok (task_of w) pc' \<and> (\<forall>q \<in> read_up w pc'. is_up Q' q) \<and>
     (if pc' = Done then (case back_of w of None \<Rightarrow> Q' = Q | Some q \<Rightarrow> Q' = Q(q := bq_close (Q q)))
      else queue_change Q Q')"

lemma popped_change: "bq_contents (Q q) \<noteq> [] \<Longrightarrow> queue_change Q (Q(q := popped (Q q)))"
  by (auto simp: queue_change_def)

lemma pushed_change:
  "\<not> closed (Q q) \<Longrightarrow> length (bq_contents (Q q)) \<noteq> bq_capacity (Q q) \<Longrightarrow> queue_change Q (Q(q := pushed v (Q q)))"
  by (auto simp: queue_change_def)

lemma no_change: "queue_change Q Q"
  by (simp add: queue_change_def)

lemma loop_step_ok:
  assumes ok: "worker_ok w" "pc_ok (task_of w) Loop_head" "queues_ok Q"
    and step: "loop_step w Q = Some (pc', Q', vs)"
  shows "step_ok w Q pc' Q'"
proof -
  obtain t f b where w: "w = Worker t f b" by (cases w)
  with ok obtain q where f: "f = Some q" by (cases t) auto
  show ?thesis
    using ok step unfolding w f
    by (cases t) (auto simp: step_ok_def unless_closed_def popped_change no_change split: if_splits
        dest!: read_from_cases [OF ok(3)])
qed

lemma body_step_ok:
  assumes ok: "worker_ok w" "pc_ok (task_of w) (Body p)" "queues_ok Q" "\<forall>q. back_of w = Some q \<longrightarrow> \<not> closed (Q q)"
    and step: "thread_step st w (Body p) Q = Some (pc', Q', vs)"
  shows "step_ok w Q pc' Q'"
proof -
  obtain t f b where w: "w = Worker t f b" by (cases w)
  show ?thesis
  proof (cases p)
    case (Ret v)
    then show ?thesis
      using ok step unfolding w by (cases t) (auto simp: step_ok_def no_change)
  next
    case (Push v k)
    with ok w obtain q where b: "b = Some q" by (cases t) auto
    with ok(4) w have "\<not> closed (Q q)" by simp
    with write_to_cases [OF ok(3) this, of v "\<lambda>_. (Body k, [])"] step w b Push
    have "queue_change Q Q'" "pc' = Body k" by (auto simp: pushed_change)
    with ok(2) w Push show ?thesis by (cases t) (auto simp: step_ok_def)
  next
    case (Pop k)
    with ok w obtain q where "f = Some q" by (cases t) auto
    with read_from_cases [OF ok(3), of q "\<lambda>r. (Body (k r), [])"] step w Pop
    have "queue_change Q Q'" "\<exists>r. pc' = Body (k r)" by (auto simp: popped_change no_change)
    with ok(2) w Pop show ?thesis by (cases t) (auto simp: step_ok_def)
  qed
qed

lemma result_step_ok:
  assumes ok: "worker_ok w" "pc_ok (task_of w) (Result v)" "queues_ok Q" "\<forall>q. back_of w = Some q \<longrightarrow> \<not> closed (Q q)"
    and step: "thread_step st w (Result v) Q = Some (pc', Q', vs)"
  shows "step_ok w Q pc' Q'"
proof -
  obtain t f b where w: "w = Worker t f b" by (cases w)
  with ok obtain q where b: "b = Some q" by (cases t) auto
  with ok(4) w have "\<not> closed (Q q)" by simp
  with write_to_cases [OF ok(3) this, of v "\<lambda>_. (pushed_result t, [])"] step w b
  have "queue_change Q Q'" "pc' = pushed_result t" by (auto simp: pushed_change)
  with ok w show ?thesis by (cases t) (auto simp: step_ok_def)
qed

lemma drain_step_ok:
  assumes ok: "worker_ok w" "pc_ok (task_of w) pc" "queues_ok Q" "\<forall>q. back_of w = Some q \<longrightarrow> \<not> closed (Q q)"
    and up: "\<forall>q \<in> read_up w pc. is_up Q q"
    and step: "thread_step st w pc Q = Some (pc', Q', vs)" and pc: "pc = Drain qs \<or> pc = Moving v qs"
  shows "step_ok w Q pc' Q'"
proof -
  obtain pre f b where w: "w = Worker (Run_out_queues (pre @ qs)) f b" using ok(2) pc by (cases w) auto
  from up pc w have pre: "\<forall>q \<in> set pre. is_up Q q" by auto
  show ?thesis
  proof (cases "pc = Drain qs")
    case True
    show ?thesis
    proof (cases qs)
      case Nil
      with step True w pre show ?thesis by (auto simp: step_ok_def no_change)
    next
      case (Cons q qs')
      from read_from_cases [OF ok(3), of q] step True Cons
      consider (got) u where "pc' = Moving u qs" "queue_change Q Q'" | (shut) "pc' = Drain qs'" "Q' = Q" "is_up Q q"
        by (fastforce simp: popped_change)
      then show ?thesis
      proof cases
        case got
        with w pre queue_change_up [OF _ ok(3)] show ?thesis by (auto simp: step_ok_def)
      next
        case shut
        with w pre Cons show ?thesis by (auto simp: step_ok_def no_change intro: exI [of _ "pre @ [q]"])
      qed
    qed
  next
    case False
    with pc have mv: "pc = Moving v qs" by simp
    from ok(1) w obtain q where b: "b = Some q" by auto
    with ok(4) w have "\<not> closed (Q q)" by simp
    with write_to_cases [OF ok(3) this, of v "\<lambda>_. (Drain qs, [])"] step mv w b
    have "queue_change Q Q'" "pc' = Drain qs" by (auto simp: pushed_change)
    with w pre queue_change_up [OF _ ok(3)] show ?thesis by (auto simp: step_ok_def)
  qed
qed

lemma thread_step_ok:
  assumes ok: "worker_ok w" "pc_ok (task_of w) pc" "queues_ok Q"
    and cl: "\<forall>q. back_of w = Some q \<longrightarrow> \<not> closed (Q q)"
    and up: "\<forall>q \<in> read_up w pc. is_up Q q"
    and step: "thread_step st w pc Q = Some (pc', Q', vs)"
  shows "step_ok w Q pc' Q'"
proof (cases pc)
  case Thread_start
  with step obtain t f b where "w = Worker t f b" "pc' = first_pc t" "Q' = Q" by (cases w) (auto split: if_splits)
  with ok show ?thesis by (cases t) (auto simp: step_ok_def no_change)
next
  case Close_out
  obtain t f b where w: "w = Worker t f b" by (cases w)
  with ok Close_out obtain q where "b = Some q" by (cases t) auto
  with ok step Close_out w up show ?thesis by (cases t) (auto simp: step_ok_def)
next
  case Loop_head
  with ok step show ?thesis by (simp add: loop_step_ok)
next
  case (Body p)
  show ?thesis by (rule body_step_ok [OF ok(1) ok(2) [unfolded Body] ok(3) cl step [unfolded Body]])
next
  case (Result v)
  show ?thesis by (rule result_step_ok [OF ok(1) ok(2) [unfolded Result] ok(3) cl step [unfolded Result]])
next
  case (Drain qs)
  with drain_step_ok [OF ok cl up step] show ?thesis by blast
next
  case (Moving v qs)
  with drain_step_ok [OF ok cl up step] show ?thesis by blast
next
  case Done
  with step show ?thesis by simp
next
  case Crashed
  with ok show ?thesis by simp
qed

section \<open>All threads\<close>

text \<open>No two threads write to the same queue, and a queue that a thread writes to is closed exactly when
  that thread is done.\<close>

definition thread_ok :: "'v queues \<Rightarrow> 'v worker \<Rightarrow> 'v pc \<Rightarrow> bool" where
  "thread_ok Q w pc \<longleftrightarrow> worker_ok w \<and> pc_ok (task_of w) pc \<and> (\<forall>q \<in> read_up w pc. is_up Q q) \<and>
     (\<forall>q. back_of w = Some q \<longrightarrow> (closed (Q q) \<longleftrightarrow> pc = Done))"

definition one_writer :: "'v worker list \<Rightarrow> bool" where
  "one_writer ws \<longleftrightarrow> (\<forall>i j q. i < length ws \<and> j < length ws \<and> back_of (ws ! i) = Some q \<and> back_of (ws ! j) = Some q \<longrightarrow> i = j)"

definition pipe_inv :: "'v pipe \<Rightarrow> bool" where
  "pipe_inv s \<longleftrightarrow> queues_ok (queues s) \<and> one_writer (map fst (threads s)) \<and>
     (\<forall>(w, pc) \<in> set (threads s). thread_ok (queues s) w pc)"

lemma thread_ok_other:
  assumes "thread_ok Q u pu" and "queues_ok Q" and "queue_change Q Q'"
  shows "thread_ok Q' u pu"
  using assms queue_change_up [OF assms(3,2)] by (auto simp: thread_ok_def queue_change_closed)

lemma thread_ok_other_close:
  assumes "thread_ok Q u pu" and "back_of u \<noteq> Some q"
  shows "thread_ok (Q(q := bq_close (Q q))) u pu"
  using assms by (auto simp: thread_ok_def)

lemma not_done_open: "thread_step st w pc Q \<noteq> None \<Longrightarrow> pc \<noteq> Done"
  by auto

lemma pipe_step_inv:
  assumes "pipe_step s s'" and "pipe_inv s"
  shows "pipe_inv s'"
  using assms
proof (cases rule: pipe_step.cases)
  case count_down
  with assms(2) show ?thesis by (simp add: pipe_inv_def)
next
  case (thread i w pc pc' Q vs)
  let ?Q = "queues s"
  from assms(2) have ok: "queues_ok ?Q" "one_writer (map fst (threads s))"
    and ts: "\<And>u pu. (u, pu) \<in> set (threads s) \<Longrightarrow> thread_ok ?Q u pu" by (auto simp: pipe_inv_def)
  have "(w, pc) \<in> set (threads s)" using thread(2,3) by (metis nth_mem)
  from ts [OF this] have w: "worker_ok w" "pc_ok (task_of w) pc" "\<forall>q \<in> read_up w pc. is_up ?Q q"
    "\<forall>q. back_of w = Some q \<longrightarrow> closed (?Q q) = (pc = Done)" by (auto simp: thread_ok_def)
  have "pc \<noteq> Done" using thread(4) by auto
  with w(4) have op: "\<forall>q. back_of w = Some q \<longrightarrow> \<not> closed (?Q q)" by simp
  note st = thread_step_ok [OF w(1,2) ok(1) op w(3) thread(4), unfolded step_ok_def]
  have other: "thread_ok Q u pu" if "j < length (threads s)" "j \<noteq> i" "threads s ! j = (u, pu)" for j u pu
  proof -
    have u: "thread_ok ?Q u pu" using ts that by (metis nth_mem)
    have apart: "back_of u \<noteq> Some q" if "back_of w = Some q" for q
    proof
      assume "back_of u = Some q"
      with ok(2) \<open>j < length (threads s)\<close> \<open>threads s ! j = (u, pu)\<close> thread(2,3) that have "i = j"
        unfolding one_writer_def by (metis fst_conv length_map nth_map)
      with \<open>j \<noteq> i\<close> show False by simp
    qed
    from st u apart show ?thesis
      by (auto split: if_splits option.splits intro: thread_ok_other [OF _ ok(1)] thread_ok_other_close)
  qed
  have mine: "thread_ok Q w pc'"
    using st w op by (auto simp: thread_ok_def queue_change_closed split: if_splits option.splits)
  have "queues_ok Q"
    using st ok(1) by (auto simp: queues_ok_def queue_change_ok [unfolded queues_ok_def] split: if_splits option.splits)
  moreover have "map fst ((threads s)[i := (w, pc')]) = map fst (threads s)"
    using thread(2,3) by (metis fst_conv list_update_id map_update)
  moreover have "thread_ok Q u pu" if "(u, pu) \<in> set ((threads s)[i := (w, pc')])" for u pu
  proof -
    from that obtain j where "j < length (threads s)" "(threads s)[i := (w, pc')] ! j = (u, pu)"
      by (auto simp: in_set_conv_nth)
    with mine other thread(2) show ?thesis by (cases "j = i") auto
  qed
  ultimately show ?thesis using thread(1) ok(2) by (auto simp: pipe_inv_def)
qed

lemma pipe_inv_no_crash: "pipe_inv s \<Longrightarrow> t \<in> set (threads s) \<Longrightarrow> snd t \<noteq> Crashed"
  by (cases t) (auto simp: pipe_inv_def thread_ok_def)

end
