(* ===== verification/Pipeline_Build.thy ===== *)
theory Pipeline_Build
  imports Pipeline_Safety
begin

text \<open>
  Which segments stand for an expression: \<open>impl\<close>. Building, cloning, chaining with or without merging and
  putting in parallel all keep it, the queues of a segment are new and distinct, and the threads a plan starts
  are typed and write to distinct queues.
\<close>

section \<open>Typed expressions\<close>

text \<open>\<open>takes\<close> and \<open>gives\<close>: the type \<open>IN\<close> and \<open>OUT\<close> of the segment is not \<open>terminated\<close>. C++ also accepts \<open>|\<close>
  between two ends of type \<open>terminated\<close> and \<open>parallel\<close> of a segment with such an end; those do not run.\<close>

fun takes :: "'v pexpr \<Rightarrow> bool" where
  "takes (Make f) = True"
| "takes (From f) = False"
| "takes (From_queue q) = False"
| "takes (To f) = True"
| "takes (To_queue q) = True"
| "takes (Parallel e k) = takes e"
| "takes (Pipe a b) = takes a"

fun gives :: "'v pexpr \<Rightarrow> bool" where
  "gives (Make f) = True"
| "gives (From f) = True"
| "gives (From_queue q) = True"
| "gives (To f) = False"
| "gives (To_queue q) = False"
| "gives (Parallel e k) = gives e"
| "gives (Pipe a b) = gives b"

fun typed :: "'v pexpr \<Rightarrow> bool" where
  "typed (Make f) = is_function f"
| "typed (From f) = is_producer f"
| "typed (From_queue q) = True"
| "typed (To f) = is_consumer f"
| "typed (To_queue q) = True"
| "typed (Parallel e k) = (typed e \<and> takes e \<and> gives e \<and> 0 < k)"
| "typed (Pipe a b) = (typed a \<and> typed b \<and> gives a \<and> takes b)"

definition is_plan :: "'v pexpr \<Rightarrow> bool" where
  "is_plan e \<longleftrightarrow> typed e \<and> \<not> takes e \<and> \<not> gives e"

section \<open>The segments of an expression\<close>

text \<open>\<open>ov\<close> is the queue that has been merged into the function at the front, if any.\<close>

inductive impl :: "nat option \<Rightarrow> 'v pexpr \<Rightarrow> 'v seg \<Rightarrow> bool" where
  make: "impl ov (Make f) (Function_seg q f (ov \<noteq> None) ov)"
| frm: "impl None (From f) (Producer_seg f)"
| from_queue: "impl None (From_queue q) (Queue_producer_seg (Some q) False)"
| to: "impl None (To f) (Consumer_seg q f)"
| to_queue: "impl None (To_queue q) (Queue_consumer_seg q)"
| piped: "impl ov a s1 \<Longrightarrow> impl None b s2 \<Longrightarrow> \<not> (can_merge_on_back s1 \<and> can_merge_on_front s2) \<Longrightarrow>
     impl ov (Pipe a b) (Chain_seg s1 s2)"
| merged: "impl (Some q) b s2 \<Longrightarrow> impl None (Pipe (From_queue q) b) (Chain_seg (Queue_producer_seg None True) s2)"
| parallel: "impl None e s \<Longrightarrow> length bs = k \<Longrightarrow> length oqs = k \<Longrightarrow>
     (\<And>b. b \<in> set bs \<Longrightarrow> impl None (Pipe (From_queue iq) e) b) \<Longrightarrow> impl None (Parallel e k) (Parallel_seg iq s bs oqs)"

inductive_cases impl_makeE: "impl ov (Make f) s"
inductive_cases impl_fromE: "impl ov (From f) s"
inductive_cases impl_from_queueE: "impl ov (From_queue q) s"
inductive_cases impl_toE: "impl ov (To f) s"
inductive_cases impl_to_queueE: "impl ov (To_queue q) s"
inductive_cases impl_pipeE: "impl ov (Pipe a b) s"
inductive_cases impl_parallelE: "impl ov (Parallel e k) s"

lemmas impl_elims = impl_makeE impl_fromE impl_from_queueE impl_toE impl_to_queueE

text \<open>Only a queue producer lets itself be merged, and only before its chain has been made.\<close>

lemma impl_merge_back:
  "impl ov e s \<Longrightarrow> typed e \<Longrightarrow> can_merge_on_back s \<Longrightarrow>
     \<exists>q. ov = None \<and> e = From_queue q \<and> s = Queue_producer_seg (Some q) False"
  by (induction rule: impl.induct) auto

lemma merge_on_front_back: "merge_on_front m s = Some s' \<Longrightarrow> can_merge_on_back s' = can_merge_on_back s"
  by (induction s arbitrary: s') auto

lemma impl_merge_front:
  "impl ov e s \<Longrightarrow> can_merge_on_front s \<Longrightarrow> \<exists>s'. merge_on_front (Some q) s = Some s' \<and> impl (Some q) e s'"
proof (induction rule: impl.induct)
  case (piped ov a s1 b s2)
  then obtain s1' where "merge_on_front (Some q) s1 = Some s1'" "impl (Some q) a s1'" by auto
  with piped merge_on_front_back show ?case by (auto intro!: impl.piped)
qed (auto intro: impl.make [of "Some q", simplified])

lemma impl_mk_chain:
  assumes "impl ov a s1" and "impl None b s2" and "typed (Pipe a b)"
  shows "impl ov (Pipe a b) (mk_chain s1 s2)"
proof (cases "can_merge_on_back s1 \<and> can_merge_on_front s2")
  case True
  with impl_merge_back [OF assms(1)] assms(3) obtain q
    where q: "ov = None" "a = From_queue q" "s1 = Queue_producer_seg (Some q) False" by auto
  from impl_merge_front [OF assms(2)] True obtain s2' where
    "merge_on_front (Some q) s2 = Some s2'" "impl (Some q) b s2'" by blast
  with q True show ?thesis by (auto simp: mk_chain_def intro: impl.merged)
next
  case False
  then show ?thesis using assms by (auto simp: mk_chain_def intro: impl.piped)
qed

lemma impl_bases:
  assumes "\<And>s n. impl None e s \<Longrightarrow> impl None e (fst (clone s n))" and "impl None e s"
    and "typed e" and "takes e" and "parallel_bases iq s k n = (bs, oqs, n')"
  shows "length bs = k \<and> length oqs = k \<and> (\<forall>b \<in> set bs. impl None (Pipe (From_queue iq) e) b)"
  using assms(5)
proof (induction k arbitrary: n bs oqs n')
  case (Suc k)
  obtain s' n1 where s': "clone s n = (s', n1)" by fastforce
  obtain bs0 oqs0 n2 where r: "parallel_bases iq s k (n1 + 1) = (bs0, oqs0, n2)" by (metis prod_cases3)
  have "impl None e s'" using assms(1,2) s' by (metis fst_conv)
  with assms(3,4) have "impl None (Pipe (From_queue iq) e) (mk_chain (Queue_producer_seg (Some iq) False) s')"
    by (intro impl_mk_chain impl.from_queue) auto
  with Suc.IH [OF r] Suc.prems s' r show ?case by auto
qed simp

lemma clone_impl: "impl ov e s \<Longrightarrow> typed e \<Longrightarrow> impl ov e (fst (clone s n))"
proof (induction e arbitrary: ov s n)
  case (Parallel e k)
  from Parallel.prems(1) obtain s0 bs oqs iq where
    p: "ov = None" "s = Parallel_seg iq s0 bs oqs" "impl None e s0" "length bs = k" by (rule impl_parallelE) auto
  obtain s' n1 where s': "clone s0 n = (s', n1)" by fastforce
  obtain bs' oqs' n2 where b: "parallel_bases n1 s' (length bs) (n1 + 1) = (bs', oqs', n2)" by (metis prod_cases3)
  have te: "typed e" "takes e" using Parallel.prems(2) by auto
  have "impl None e s'" using Parallel.IH [OF p(3) te(1), of n] s' by simp
  with impl_bases [OF Parallel.IH this te b] te(1) have "length bs' = k" "length oqs' = k"
    "\<forall>x \<in> set bs'. impl None (Pipe (From_queue n1) e) x" using p(4) by auto
  with \<open>impl None e s'\<close> show ?case using p s' b by (auto intro: impl.parallel)
next
  case (Pipe a b)
  from Pipe.prems(1) show ?case
  proof (rule impl_pipeE)
    fix s1 s2 assume s: "s = Chain_seg s1 s2" "impl ov a s1" "impl None b s2"
    obtain s1' n1 where c1: "clone s1 n = (s1', n1)" by fastforce
    obtain s2' n2 where c2: "clone s2 n1 = (s2', n2)" by fastforce
    have "impl ov a s1'" "impl None b s2'"
      using Pipe.IH(1) [OF s(2), of n] Pipe.IH(2) [OF s(3), of n1] Pipe.prems(2) c1 c2 by auto
    from impl_mk_chain [OF this Pipe.prems(2)] show ?thesis using s(1) c1 c2 by simp
  next
    fix q s2 assume s: "ov = None" "a = From_queue q" "s = Chain_seg (Queue_producer_seg None True) s2" "impl (Some q) b s2"
    have "impl (Some q) b (fst (clone s2 n))" using Pipe.IH(2) [OF s(4)] Pipe.prems(2) by auto
    with s show ?thesis by (auto simp: mk_chain_def intro: impl.merged split: prod.splits)
  qed
next
  case (Make f)
  then show ?case using impl.make [of ov f n] by (auto elim: impl_makeE)
qed (auto elim!: impl_elims intro: impl.intros)

lemma build_impl: "typed e \<Longrightarrow> impl None e (fst (build e n))"
proof (induction e arbitrary: n)
  case (Make f)
  then show ?case using impl.make [of None f n] by simp
next
  case (Parallel e k)
  obtain s n1 where s: "build e n = (s, n1)" by fastforce
  obtain s' n2 where c: "clone s n1 = (s', n2)" by fastforce
  obtain bs oqs n3 where b: "parallel_bases n2 s' k (n2 + 1) = (bs, oqs, n3)" by (metis prod_cases3)
  have te: "typed e" "takes e" using Parallel.prems by auto
  have i: "impl None e s'" using clone_impl [OF _ te(1), of None s n1] Parallel.IH [OF te(1), of n] s c by simp
  from impl_bases [OF clone_impl [OF _ te(1)] i te b] i show ?case
    using s c b by (auto simp: mk_parallel_def intro: impl.parallel)
next
  case (Pipe a b)
  obtain s1 n1 where 1: "build a n = (s1, n1)" by fastforce
  obtain s2 n2 where 2: "build b n1 = (s2, n2)" by fastforce
  obtain c1 n3 where 3: "clone s1 n2 = (c1, n3)" by fastforce
  obtain c2 n4 where 4: "clone s2 n3 = (c2, n4)" by fastforce
  have ty: "typed a" "typed b" using Pipe.prems by auto
  have "impl None a c1" "impl None b c2"
    using Pipe.IH(1) [OF ty(1), of n] Pipe.IH(2) [OF ty(2), of n1] clone_impl [OF _ ty(1), of None s1 n2]
      clone_impl [OF _ ty(2), of None s2 n3] 1 2 3 4 by auto
  from impl_mk_chain [OF this Pipe.prems] 1 2 3 4 show ?case by simp
qed (auto intro: impl.intros)

section \<open>The queues of a segment\<close>

text \<open>The queues the running parts of a segment own; \<open>s_\<close> of a parallel segment is only a model for clones.\<close>

function (sequential) qids :: "'v seg \<Rightarrow> nat list" where
  "qids (Function_seg q f merged mq) = [q]"
| "qids (Consumer_seg q f) = [q]"
| "qids (Chain_seg a b) = qids a @ qids b"
| "qids (Parallel_seg iq s bs oqs) = iq # concat (map (\<lambda>(b, o'). qids b @ [o']) (zip bs oqs))"
| "qids s = []"
  by pat_completeness auto

termination
  by (relation "measure size") (auto dest: zip_size)

lemma qids_merge_on_front: "merge_on_front m s = Some s' \<Longrightarrow> qids s' = qids s"
  by (induction s arbitrary: s') auto

lemma qids_merge_back: "merge_back s = Some (m, s') \<Longrightarrow> qids s' = qids s"
  by (induction s arbitrary: s') auto

lemma qids_mk_chain: "qids (mk_chain a b) = qids a @ qids b"
  by (auto simp: mk_chain_def qids_merge_back qids_merge_on_front split: option.splits)

definition fresh_ids :: "nat list \<Rightarrow> nat \<Rightarrow> nat \<Rightarrow> bool" where
  "fresh_ids qs n n' \<longleftrightarrow> n \<le> n' \<and> sorted_wrt (<) qs \<and> set qs \<subseteq> {n..<n'}"

lemma fresh_ids_append: "fresh_ids xs n m \<Longrightarrow> fresh_ids ys m n' \<Longrightarrow> fresh_ids (xs @ ys) n n'"
  by (fastforce simp: fresh_ids_def sorted_wrt_append)

lemma clone_ids: "clone s n = (s', n') \<Longrightarrow> fresh_ids (qids s') n n'"
  and bases_ids: "parallel_bases iq s k n = (bs, oqs, n') \<Longrightarrow>
    length bs = length oqs \<and> fresh_ids (concat (map (\<lambda>(b, o'). qids b @ [o']) (zip bs oqs))) n n'"
proof (induction s n and iq s k n arbitrary: s' n' and bs oqs n' rule: clone_parallel_bases.induct)
  case (6 a b n)
  obtain a' n1 where 1: "clone a n = (a', n1)" by fastforce
  obtain b' n2 where 2: "clone b n1 = (b', n2)" by fastforce
  have "s' = mk_chain a' b'" "n' = n2" using "6.prems" 1 2 by simp_all
  with fresh_ids_append [OF "6.IH"(1) [OF 1] "6.IH"(2) [OF 1 [symmetric] refl 2]] show ?case
    by (simp add: qids_mk_chain)
next
  case (7 iq s bs0 oqs0 n)
  obtain a n1 where 1: "clone s n = (a, n1)" by fastforce
  obtain bs oqs n2 where 2: "parallel_bases n1 a (length bs0) (n1 + 1) = (bs, oqs, n2)" by (metis prod_cases3)
  have "s' = Parallel_seg n1 a bs oqs" "n' = n2" using "7.prems" 1 2 by simp_all
  moreover have "fresh_ids [n1] n (n1 + 1)" using "7.IH"(1) [OF 1] by (simp add: fresh_ids_def)
  moreover from "7.IH"(2) [OF 1 [symmetric] refl 2]
  have "fresh_ids (concat (map (\<lambda>(b, o'). qids b @ [o']) (zip bs oqs))) (n1 + 1) n2" by simp
  ultimately show ?case using fresh_ids_append [of "[n1]" n "n1 + 1"] by simp
next
  case (9 iq s k n)
  obtain a n1 where 1: "clone s n = (a, n1)" by fastforce
  obtain bs1 oqs1 n2 where 2: "parallel_bases iq s k (n1 + 1) = (bs1, oqs1, n2)" by (metis prod_cases3)
  have eq: "bs = mk_chain (Queue_producer_seg (Some iq) False) a # bs1" "oqs = n1 # oqs1" "n' = n2"
    using "9.prems" 1 2 by simp_all
  have "fresh_ids (qids a @ [n1]) n (n1 + 1)"
    using "9.IH"(1) [OF 1] by (fastforce simp: fresh_ids_def sorted_wrt_append)
  moreover from "9.IH"(2) [OF 1 [symmetric] refl 2]
  have r: "length bs1 = length oqs1" "fresh_ids (concat (map (\<lambda>(b, o'). qids b @ [o']) (zip bs1 oqs1))) (n1 + 1) n2"
    by simp_all
  ultimately show ?case
    using fresh_ids_append [OF _ r(2), of "qids a @ [n1]" n] by (simp add: eq qids_mk_chain)
qed (simp_all add: fresh_ids_def)

section \<open>The threads of a segment\<close>

fun src :: "'v pexpr \<Rightarrow> nat option" where
  "src (From_queue q) = Some q"
| "src (Pipe a b) = src a"
| "src e = None"

fun dst :: "'v pexpr \<Rightarrow> nat option" where
  "dst (To_queue q) = Some q"
| "dst (Pipe a b) = dst b"
| "dst e = None"

text \<open>The queue a segment reads, and the queue it owns for that.\<close>

fun entry :: "'v seg \<Rightarrow> nat option" where
  "entry (Function_seg q f merged mq) = (if merged then mq else Some q)"
| "entry (Consumer_seg q f) = Some q"
| "entry (Queue_consumer_seg q) = Some q"
| "entry (Queue_producer_seg rq merged) = rq"
| "entry (Chain_seg (Queue_producer_seg rq merged) b) = (if merged then entry b else rq)"
| "entry (Chain_seg a b) = entry a"
| "entry (Parallel_seg iq s bs oqs) = Some iq"
| "entry (Producer_seg f) = None"

definition own :: "'v seg \<Rightarrow> nat set" where
  "own s = (case get_back s of Some (Some q) \<Rightarrow> {q} | _ \<Rightarrow> {})"

lemma impl_entry:
  "impl ov e s \<Longrightarrow> typed e \<Longrightarrow>
     (\<forall>q. ov = Some q \<longrightarrow> entry s = Some q \<and> takes e \<and> get_back s = Some None) \<and>
     (ov = None \<and> takes e \<longrightarrow> get_back s = Some (entry s) \<and> entry s \<noteq> None) \<and>
     (\<not> takes e \<longrightarrow> entry s = src e \<and> get_back s = None)"
proof (induction rule: impl.induct)
  case (piped ov a s1 b s2)
  show ?case
  proof (cases s1)
    case (Queue_producer_seg rq m)
    with piped(1) have "m = False \<and> ov = None \<and> a = From_queue (the rq) \<and> rq \<noteq> None"
      by (auto elim: impl.cases)
    with piped Queue_producer_seg show ?thesis by simp
  qed (use piped in auto)
qed auto

lemma impl_entry_own:
  assumes "impl None e s" and "typed e" and "takes e"
  shows "(\<exists>q. entry s = Some q \<and> own s = {q} \<and> q \<in> set (qids s)) \<or> (\<exists>q. e = To_queue q \<and> s = Queue_consumer_seg q)"
  using assms
proof (induction "None :: nat option" e s rule: impl.induct)
  case (piped a s1 b s2)
  then have "typed a" "takes a" "gives a" by auto
  with piped(2) have "\<exists>q. entry s1 = Some q \<and> own s1 = {q} \<and> q \<in> set (qids s1)" by auto
  moreover have "\<forall>rq m. s1 \<noteq> Queue_producer_seg rq m" using piped(1) \<open>takes a\<close> by (auto elim: impl.cases)
  then have "entry (Chain_seg s1 s2) = entry s1" by (cases s1) auto
  ultimately show ?case by (auto simp: own_def)
qed (auto simp: own_def)

definition written :: "'v worker list \<Rightarrow> nat list" where
  "written ws = List.map_filter back_of ws"

lemma written_append [simp]: "written (ws @ ws') = written ws @ written ws'"
  by (simp add: written_def List.map_filter_def)

lemma written_simps [simp]:
  "written [] = []" "written (Worker t f None # ws) = written ws" "written (Worker t f (Some q) # ws) = q # written ws"
  by (simp_all add: written_def List.map_filter_def)

lemma in_written: "q \<in> set (written ws) \<longleftrightarrow> (\<exists>w \<in> set ws. back_of w = Some q)"
  by (auto simp: written_def List.map_filter_def image_iff)

lemma written_apart:
  assumes "distinct (written ws)" and "i < j" and "j < length ws"
    and "back_of (ws ! i) = Some q" and "back_of (ws ! j) = Some q"
  shows False
proof -
  have "ws ! i \<in> set (take j ws)" using assms(2,3) by (auto simp: in_set_conv_nth)
  moreover have "ws ! j \<in> set (drop j ws)" using assms(3) by (metis Cons_nth_drop_Suc list.set_intros(1))
  ultimately have "q \<in> set (written (take j ws))" "q \<in> set (written (drop j ws))"
    using assms(4,5) by (auto simp: in_written)
  moreover have "distinct (written (take j ws) @ written (drop j ws))"
    using assms(1) by (metis append_take_drop_id written_append)
  ultimately show False by auto
qed

lemma one_writerI: "distinct (written ws) \<Longrightarrow> one_writer ws"
  unfolding one_writer_def by (metis written_apart nat_neq_iff)

text \<open>Distinct queues and queues of the user: what a segment needs to run with the output queue \<open>out\<close>.\<close>

definition room :: "'v pexpr \<Rightarrow> 'v seg \<Rightarrow> nat option \<Rightarrow> bool" where
  "room e s out \<longleftrightarrow> distinct (qids s) \<and> (gives e \<longrightarrow> out \<noteq> None \<and> set_option out \<inter> set (qids s) = {}) \<and>
     set_option (dst e) \<inter> set (qids s) = {}"

definition target :: "'v pexpr \<Rightarrow> nat option \<Rightarrow> nat set" where
  "target e out = (if gives e then set_option out else set_option (dst e))"

definition runs_ok :: "'v pexpr \<Rightarrow> 'v seg \<Rightarrow> nat option \<Rightarrow> bool" where
  "runs_ok e s out \<longleftrightarrow> (\<exists>ws. run s out = Some ws \<and> (\<forall>w \<in> set ws. worker_ok w) \<and> distinct (written ws) \<and>
     set (written ws) \<subseteq> (set (qids s) - own s) \<union> target e out)"

lemma bases_run_ok:
  assumes "\<And>b q. (b, q) \<in> set ps \<Longrightarrow> \<exists>ws. run b (Some q) = Some ws \<and> (\<forall>w \<in> set ws. worker_ok w) \<and>
      distinct (written ws) \<and> set (written ws) \<subseteq> set (qids b @ [q])"
    and "distinct (concat (map (\<lambda>(b, q). qids b @ [q]) ps))"
  shows "\<exists>wss. those (map (\<lambda>(b, q). run b (Some q)) ps) = Some wss \<and> (\<forall>w \<in> set (concat wss). worker_ok w) \<and>
      distinct (written (concat wss)) \<and> set (written (concat wss)) \<subseteq> set (concat (map (\<lambda>(b, q). qids b @ [q]) ps))"
  using assms
proof (induction ps)
  case (Cons p ps)
  obtain b q where p: "p = (b, q)" by (cases p)
  let ?ids = "concat (map (\<lambda>(b, q). qids b @ [q]) ps)"
  from Cons.prems(1) [of b q] p obtain ws where ws: "run b (Some q) = Some ws" "\<forall>w \<in> set ws. worker_ok w"
    "distinct (written ws)" "set (written ws) \<subseteq> set (qids b @ [q])" by auto
  from Cons.prems(2) p have d: "distinct ?ids" "set (qids b @ [q]) \<inter> set ?ids = {}" by auto
  have "\<exists>wss. those (map (\<lambda>(b, q). run b (Some q)) ps) = Some wss \<and> (\<forall>w \<in> set (concat wss). worker_ok w) \<and>
      distinct (written (concat wss)) \<and> set (written (concat wss)) \<subseteq> set ?ids"
    by (rule Cons.IH [OF Cons.prems(1) d(1)]) simp
  then obtain wss where wss: "those (map (\<lambda>(b, q). run b (Some q)) ps) = Some wss"
    "\<forall>w \<in> set (concat wss). worker_ok w" "distinct (written (concat wss))" "set (written (concat wss)) \<subseteq> set ?ids"
    by blast
  have "set (written ws) \<inter> set (written (concat wss)) = {}" using ws(4) wss(4) d(2) by blast
  with ws wss p have "those (map (\<lambda>(b, q). run b (Some q)) (p # ps)) = Some (ws # wss)"
    "\<forall>w \<in> set (concat (ws # wss)). worker_ok w" "distinct (written (concat (ws # wss)))"
    "set (written (concat (ws # wss))) \<subseteq> set (qids b @ [q]) \<union> set ?ids" by auto
  then show ?case unfolding p by fastforce
qed simp

lemma gives_dst: "typed e \<Longrightarrow> gives e \<Longrightarrow> dst e = None"
  by (induction e) auto

lemma run_piped:
  assumes "impl ov a s1" and "impl None b s2" and "typed (Pipe a b)" and "room (Pipe a b) (Chain_seg s1 s2) out"
    and 1: "\<And>out. room a s1 out \<Longrightarrow> runs_ok a s1 out" and 2: "\<And>out. room b s2 out \<Longrightarrow> runs_ok b s2 out"
  shows "runs_ok (Pipe a b) (Chain_seg s1 s2) out"
proof -
  have ty: "typed a" "typed b" "gives a" "takes b" using assms(3) by auto
  from assms(4) have d: "distinct (qids s1)" "distinct (qids s2)" "set (qids s1) \<inter> set (qids s2) = {}"
    "gives b \<Longrightarrow> out \<noteq> None \<and> set_option out \<inter> (set (qids s1) \<union> set (qids s2)) = {}"
    "set_option (dst b) \<inter> (set (qids s1) \<union> set (qids s2)) = {}"
    by (auto simp: room_def)
  from impl_entry [OF assms(2) ty(2)] ty(4) obtain m where m: "get_back s2 = Some (Some m)" "entry s2 = Some m" by auto
  then have own2: "own s2 = {m}" by (simp add: own_def)
  have own1: "own (Chain_seg s1 s2) = own s1" by (simp add: own_def)
  have mids: "m \<in> set (qids s2) \<or> b = To_queue m \<and> s2 = Queue_consumer_seg m"
    using impl_entry_own [OF assms(2) ty(2,4)] m by auto
  with d(3,5) have fresh: "m \<notin> set (qids s1)" by auto
  have "room a s1 (Some m)" using d(1) fresh gives_dst [OF ty(1,3)] by (simp add: room_def)
  from 1 [OF this] obtain ws1 where ws1: "run s1 (Some m) = Some ws1" "\<forall>w \<in> set ws1. worker_ok w"
    "distinct (written ws1)" "set (written ws1) \<subseteq> (set (qids s1) - own s1) \<union> {m}"
    using ty(3) by (auto simp: runs_ok_def target_def)
  have "room b s2 out" using d by (auto simp: room_def)
  from 2 [OF this] obtain ws2 where ws2: "run s2 out = Some ws2" "\<forall>w \<in> set ws2. worker_ok w"
    "distinct (written ws2)" "set (written ws2) \<subseteq> (set (qids s2) - {m}) \<union> target b out"
    using own2 by (auto simp: runs_ok_def)
  have t: "target b out \<inter> (set (qids s1) \<union> set (qids s2)) = {}" using d(4,5) by (auto simp: target_def)
  have "m \<notin> set (written ws2)"
    using mids
  proof
    assume "m \<in> set (qids s2)"
    with t ws2(4) show ?thesis by blast
  next
    assume "b = To_queue m \<and> s2 = Queue_consumer_seg m"
    with ws2(1) show ?thesis by auto
  qed
  with ws1(4) ws2(4) t d(3) have "set (written ws1) \<inter> set (written ws2) = {}" by blast
  moreover have "set (written ws1) \<union> set (written ws2) \<subseteq> (set (qids s1 @ qids s2) - own s1) \<union> target b out"
  proof -
    have o: "own s1 \<inter> set (qids s2) = {}"
      using impl_entry_own [of a s1] assms(1) ty(1,3) d(3) impl_entry [OF assms(1) ty(1)]
      by (cases ov; cases "takes a") (auto simp: own_def)
    have "m \<in> set (qids s2) \<or> m \<in> target b out" using mids by (auto simp: target_def)
    with o ws1(4) ws2(4) show ?thesis by auto
  qed
  ultimately show ?thesis
    using ws1 ws2 m own1 by (auto simp: runs_ok_def target_def)
qed

lemma run_parallel:
  assumes "typed (Parallel e k)" and "room (Parallel e k) (Parallel_seg iq s bs oqs) out"
    and len: "length bs = k" "length oqs = k"
    and base: "\<And>b out. b \<in> set bs \<Longrightarrow> room (Pipe (From_queue iq) e) b out \<Longrightarrow> runs_ok (Pipe (From_queue iq) e) b out"
  shows "runs_ok (Parallel e k) (Parallel_seg iq s bs oqs) out"
proof -
  have ty: "typed e" "gives e" using assms(1) by auto
  let ?ids = "concat (map (\<lambda>(b, q). qids b @ [q]) (zip bs oqs))"
  from assms(2) ty have rm: "out \<noteq> None" "set_option out \<inter> set (iq # ?ids) = {}" "distinct (iq # ?ids)"
    by (simp_all add: room_def)
  then obtain o' where o': "out = Some o'" "o' \<notin> set (iq # ?ids)" "distinct (iq # ?ids)" by (cases out) auto
  have each: "\<exists>ws. run b (Some q) = Some ws \<and> (\<forall>w \<in> set ws. worker_ok w) \<and> distinct (written ws) \<and>
      set (written ws) \<subseteq> set (qids b @ [q])" if bq: "(b, q) \<in> set (zip bs oqs)" for b q
  proof -
    from bq o'(3) have "distinct (qids b @ [q])" by (induction bs oqs rule: list_induct2') auto
    with gives_dst [OF ty] ty(2) have "room (Pipe (From_queue iq) e) b (Some q)" by (auto simp: room_def)
    from base [OF set_zip_leftD [OF bq] this] ty(2) show ?thesis by (auto simp: runs_ok_def target_def)
  qed
  have "distinct ?ids" using o'(3) by simp
  from bases_run_ok [OF each this] obtain wss where
    w: "those (map (\<lambda>(b, q). run b (Some q)) (zip bs oqs)) = Some wss" "\<forall>w \<in> set (concat wss). worker_ok w"
    "distinct (written (concat wss))" "set (written (concat wss)) \<subseteq> set ?ids" by blast
  let ?m = "[Worker (Run_out_queues oqs) None (Some o')]"
  have "iq \<notin> set ?ids" "o' \<notin> set ?ids" using o'(2,3) by simp_all
  with w(4) have "o' \<notin> set (written (concat wss))" "set (written (concat wss)) \<subseteq> set ?ids - {iq}" by blast+
  moreover have "set (qids (Parallel_seg iq s bs oqs)) = insert iq (set ?ids)" by simp
  ultimately have "distinct (written (concat wss @ ?m))"
    "set (written (concat wss @ ?m)) \<subseteq> (set (qids (Parallel_seg iq s bs oqs)) - {iq}) \<union> {o'}"
    using w(3) by (simp_all del: qids.simps) blast+
  moreover have "run (Parallel_seg iq s bs oqs) out = Some (concat wss @ ?m)" using w(1) o'(1) by simp
  moreover have "\<forall>w \<in> set (concat wss @ ?m). worker_ok w" using w(2) by auto
  moreover have "own (Parallel_seg iq s bs oqs) = {iq}" "target (Parallel e k) out = {o'}"
    using o'(1) ty(2) by (simp_all add: own_def target_def)
  ultimately show ?thesis unfolding runs_ok_def by metis
qed

lemma run_impl: "impl ov e s \<Longrightarrow> typed e \<Longrightarrow> room e s out \<Longrightarrow> runs_ok e s out"
proof (induction arbitrary: out rule: impl.induct)
  case (make ov f q)
  then show ?case by (auto simp: runs_ok_def room_def target_def own_def)
next
  case (frm f)
  then show ?case by (auto simp: runs_ok_def room_def target_def own_def)
next
  case (from_queue q)
  then show ?case by (auto simp: runs_ok_def room_def target_def own_def)
next
  case (to f q)
  then show ?case by (auto simp: runs_ok_def room_def target_def own_def)
next
  case (to_queue q)
  then show ?case by (auto simp: runs_ok_def)
next
  case (piped ov a s1 b s2)
  then show ?case by (intro run_piped) auto
next
  case (merged q b s2)
  have "typed b" "get_back s2 = Some None" using impl_entry [OF merged(1)] merged.prems(1) by auto
  moreover have "room b s2 out" using merged.prems(2) by (simp add: room_def)
  ultimately have "runs_ok b s2 out" using merged.IH by blast
  then show ?case using \<open>get_back s2 = Some None\<close> by (auto simp: runs_ok_def target_def own_def)
next
  case (parallel e s bs k oqs iq)
  have "typed (Pipe (From_queue iq) e)" using parallel.prems(1) by simp
  with parallel show ?case by (intro run_parallel) auto
qed

end
