(* ===== verification/Pipeline_Progress.thy ===== *)
theory Pipeline_Progress
  imports Pipeline_Build
begin

text \<open>
  A running plan whose functions work element by element cannot get stuck: if no thread can move then all are
  done, or the user's input queue is open and empty, or the user's output queue is open and full. The argument
  follows the structure of the expression (\<open>stuck_impl\<close>).
\<close>

section \<open>The start of a plan\<close>

text \<open>The instance: \<open>U\<close> are the user's queues, numbered below \<open>n\<close>; the queues of the plan have ten slots and
  elements \<open>d\<close> before they are used.\<close>

definition plan_init :: "'v pexpr \<Rightarrow> nat \<Rightarrow> 'v queues \<Rightarrow> 'v \<Rightarrow> 'v pipe option" where
  "plan_init e n U d = map_option (\<lambda>ws. \<lparr>started = False, queues = (\<lambda>q. if q < n then U q else bq_alloc d 10),
       threads = map (\<lambda>w. (w, Thread_start)) ws, delivered = []\<rparr>) (plan_workers e n)"

definition user_ok :: "'v pexpr \<Rightarrow> nat \<Rightarrow> 'v queues \<Rightarrow> bool" where
  "user_ok e n U \<longleftrightarrow> (\<forall>q < n. bq_wf (U q) \<and> 0 < bq_capacity (U q)) \<and>
     (\<forall>q. src e = Some q \<longrightarrow> q < n) \<and> (\<forall>q. dst e = Some q \<longrightarrow> q < n \<and> \<not> closed (U q)) \<and>
     (\<forall>q. src e = Some q \<longrightarrow> dst e \<noteq> Some q)"

lemma build_mono: "build e n = (s, n') \<Longrightarrow> n \<le> n'"
proof (induction e arbitrary: n s n')
  case (Parallel e k)
  obtain s1 n1 where 1: "build e n = (s1, n1)" by fastforce
  obtain s2 n2 where 2: "clone s1 n1 = (s2, n2)" by fastforce
  obtain bs oqs n3 where 3: "parallel_bases n2 s2 k (n2 + 1) = (bs, oqs, n3)" by (metis prod_cases3)
  from Parallel.IH [OF 1] clone_ids [OF 2] bases_ids [OF 3] Parallel.prems 1 2 3 show ?case
    by (simp add: mk_parallel_def fresh_ids_def)
next
  case (Pipe a b)
  obtain s1 n1 where 1: "build a n = (s1, n1)" by fastforce
  obtain s2 n2 where 2: "build b n1 = (s2, n2)" by fastforce
  obtain c1 n3 where 3: "clone s1 n2 = (c1, n3)" by fastforce
  obtain c2 n4 where 4: "clone s2 n3 = (c2, n4)" by fastforce
  from Pipe.IH(1) [OF 1] Pipe.IH(2) [OF 2] clone_ids [OF 3] clone_ids [OF 4] Pipe.prems 1 2 3 4 show ?case
    by (simp add: fresh_ids_def)
qed auto

text \<open>The segment a plan runs.\<close>

lemma plan_segment:
  assumes "is_plan e" and "user_ok e n U"
  obtains s ws out where "impl None e s" and "room e s (Some out)" and "run s (Some out) = Some ws"
    and "plan_workers e n = Some ws" and "\<forall>w \<in> set ws. worker_ok w" and "one_writer ws"
    and "\<forall>q \<in> set (written ws). n \<le> q \<or> dst e = Some q" and "\<forall>q \<in> set (qids s). n \<le> q"
proof -
  obtain s0 n1 where b: "build e n = (s0, n1)" by fastforce
  obtain s n2 where c: "clone s0 n1 = (s, n2)" by fastforce
  from assms(1) have ty: "typed e" "\<not> gives e" by (simp_all add: is_plan_def)
  have i: "impl None e s" using build_impl [OF ty(1), of n] clone_impl [OF _ ty(1), of None s0 n1] b c by simp
  have ids: "distinct (qids s)" "\<forall>q \<in> set (qids s). n \<le> q \<and> q < n2"
    using clone_ids [OF c] build_mono [OF b] by (auto simp: fresh_ids_def strict_sorted_iff)
  with assms(2) ty(2) have r: "room e s (Some n2)" by (fastforce simp: room_def user_ok_def)
  from run_impl [OF i ty(1) r] obtain ws where ws: "run s (Some n2) = Some ws" "\<forall>w \<in> set ws. worker_ok w"
    "distinct (written ws)" "set (written ws) \<subseteq> (set (qids s) - own s) \<union> set_option (dst e)"
    using ty(2) by (auto simp: runs_ok_def target_def)
  show thesis
  proof (rule that [OF i r ws(1)])
    show "plan_workers e n = Some ws" using b c ws(1) by (simp add: plan_workers_def)
    show "one_writer ws" by (rule one_writerI [OF ws(3)])
    show "\<forall>q \<in> set (written ws). n \<le> q \<or> dst e = Some q" using ws(4) ids(2) by auto
  qed (use ws ids in auto)
qed

lemma plan_init_inv:
  assumes "is_plan e" and "user_ok e n U" and "plan_init e n U d = Some s"
  shows "pipe_inv s"
proof -
  obtain ws where ws: "plan_workers e n = Some ws" "\<forall>w \<in> set ws. worker_ok w" "one_writer ws"
    "\<forall>q \<in> set (written ws). n \<le> q \<or> dst e = Some q"
    using plan_segment [OF assms(1,2)] by metis
  have op: "\<not> closed (queues s q)" if "w \<in> set ws" "back_of w = Some q" for w q
  proof -
    have "n \<le> q \<or> dst e = Some q" using ws(4) that in_written by blast
    then show ?thesis
      using assms(2,3) ws(1) bq_alloc_props [of 10 d] by (auto simp: plan_init_def user_ok_def)
  qed
  have "queues_ok (queues s)"
    using assms(2,3) ws(1) bq_alloc_props [of 10 d] by (auto simp: plan_init_def user_ok_def queues_ok_def)
  moreover have "thread_ok (queues s) w Thread_start" if "w \<in> set ws" for w
  proof -
    have "read_up w Thread_start = {}" by (cases w; cases "task_of w") auto
    with op that ws(2) show ?thesis by (auto simp: thread_ok_def)
  qed
  moreover have "threads s = map (\<lambda>w. (w, Thread_start)) ws" using assms(3) ws(1) by (auto simp: plan_init_def)
  ultimately show ?thesis using ws(3) by (auto simp: pipe_inv_def comp_def)
qed

text \<open>A step does not change which threads there are.\<close>

lemma pipe_step_threads: "pipe_step s s' \<Longrightarrow> map fst (threads s') = map fst (threads s)"
  by (erule pipe_step.cases) (simp, metis fst_conv list_update_id map_update select_convs(3) surjective update_convs(2,3,4))

lemma reachable_inv: "pipe_step\<^sup>*\<^sup>* s s' \<Longrightarrow> pipe_inv s \<Longrightarrow> pipe_inv s' \<and> map fst (threads s') = map fst (threads s)"
  by (induction rule: rtranclp_induct) (auto intro: pipe_step_inv simp: pipe_step_threads)

section \<open>Threads that cannot move\<close>

fun element_task :: "'v task \<Rightarrow> bool" where
  "element_task (Run_simple_function f) = True"
| "element_task (Run_multi_out_function f) = True"
| "element_task Run_consumer = True"
| "element_task (Run_producer v) = True"
| "element_task (Run_multi_out_producer p) = True"
| "element_task Run_queue = True"
| "element_task (Run_out_queues qs) = True"
| "element_task t = False"

fun per_element :: "'v pexpr \<Rightarrow> bool" where
  "per_element (Make f) = element_task f"
| "per_element (From f) = element_task f"
| "per_element (To f) = element_task f"
| "per_element (Parallel e k) = per_element e"
| "per_element (Pipe a b) = (per_element a \<and> per_element b)"
| "per_element e = True"

text \<open>The queues a thread reads.\<close>

fun reads :: "'v worker \<Rightarrow> nat set" where
  "reads (Worker (Run_out_queues qs) f b) = set qs"
| "reads (Worker (Run_producer v) f b) = {}"
| "reads (Worker (Run_multi_out_producer p) f b) = {}"
| "reads (Worker t f b) = set_option f"

abbreviation is_dry :: "'v queues \<Rightarrow> nat \<Rightarrow> bool" where
  "is_dry Q q \<equiv> bq_contents (Q q) = [] \<and> \<not> closed (Q q)"

abbreviation is_full :: "'v queues \<Rightarrow> nat \<Rightarrow> bool" where
  "is_full Q q \<equiv> length (bq_contents (Q q)) = bq_capacity (Q q) \<and> \<not> closed (Q q)"

lemma read_blocks:
  "queues_ok Q \<Longrightarrow> after_io (read_from (Some q) Q) Q k = None \<Longrightarrow> is_dry Q q"
  by (auto simp: read_from_eq queues_ok_def split: if_splits)

lemma write_blocks:
  "queues_ok Q \<Longrightarrow> after_io (write_to (Some q) v Q) Q k = None \<Longrightarrow> is_full Q q"
  by (auto simp: write_to_eq queues_ok_def split: if_splits)

lemma blocked_cases:
  assumes ok: "thread_ok Q w pc" "queues_ok Q" and el: "element_task (task_of w)"
    and none: "thread_step True w pc Q = None"
  shows "pc = Done \<or> (\<exists>q \<in> reads w. is_dry Q q) \<or> (\<exists>q. back_of w = Some q \<and> is_full Q q)"
proof -
  obtain t f b where w: "w = Worker t f b" by (cases w)
  have wk: "worker_ok w" "pc_ok t pc" using ok(1) w by (auto simp: thread_ok_def)
  show ?thesis
  proof (cases pc)
    case Loop_head
    with wk el w obtain q where "f = Some q" by (cases t) auto
    with Loop_head none w el wk show ?thesis by (cases t) (auto dest: read_blocks [OF ok(2)])
  next
    case (Body p)
    with none wk el w show ?thesis
      by (cases p; cases t) (auto dest: write_blocks [OF ok(2)])
  next
    case (Result v)
    with none wk el w show ?thesis by (cases t) (auto dest: write_blocks [OF ok(2)])
  next
    case (Drain qs)
    with none wk w show ?thesis by (cases qs) (auto dest: read_blocks [OF ok(2)])
  next
    case (Moving v qs)
    with none wk w show ?thesis by (auto dest: write_blocks [OF ok(2)])
  next
    case Close_out
    with none show ?thesis by (auto split: option.splits)
  qed (use none wk in auto)
qed

section \<open>Readers and writers of a segment\<close>

lemma those_Some: "those (map f xs) = Some ys \<longleftrightarrow> length ys = length xs \<and> (\<forall>i < length xs. f (xs ! i) = Some (ys ! i))"
proof (induction xs arbitrary: ys)
  case (Cons x xs)
  show ?case by (cases ys) (auto simp: Cons.IH nth_Cons' split: option.splits)
qed auto

lemma run_parallel_bases:
  assumes "run (Parallel_seg iq s bs oqs) out = Some ws" and "length bs = k" and "length oqs = k"
  obtains wss where "ws = concat wss @ [Worker (Run_out_queues oqs) None out]" and "length wss = k"
    and "\<And>i. i < k \<Longrightarrow> run (bs ! i) (Some (oqs ! i)) = Some (wss ! i)"
  using assms by (auto simp: those_Some)

lemma impl_element: "impl ov e s \<Longrightarrow> per_element e \<Longrightarrow> run s out = Some ws \<Longrightarrow> \<forall>w \<in> set ws. element_task (task_of w)"
proof (induction arbitrary: out ws rule: impl.induct)
  case (piped ov a s1 b s2)
  then show ?case by (auto simp: bind_eq_Some_conv)
next
  case (merged q b s2)
  then show ?case by (auto simp: bind_eq_Some_conv split: if_splits)
next
  case (parallel e s bs k oqs iq)
  from parallel.prems(2) parallel.hyps(2,3) obtain wss where
    w: "ws = concat wss @ [Worker (Run_out_queues oqs) None out]" "length wss = k"
    "\<And>i. i < k \<Longrightarrow> run (bs ! i) (Some (oqs ! i)) = Some (wss ! i)" by (rule run_parallel_bases) blast
  have "\<forall>w \<in> set (wss ! i). element_task (task_of w)" if "i < k" for i
    using parallel.IH(2) [OF _ _ w(3) [OF that]] parallel.hyps(2) parallel.prems(1) that by simp
  with w(1,2) show ?case by (auto simp: in_set_conv_nth [of _ wss])
qed auto

lemma run_writer: "impl ov e s \<Longrightarrow> typed e \<Longrightarrow> gives e \<Longrightarrow> run s out = Some ws \<Longrightarrow> \<exists>w \<in> set ws. back_of w = out"
proof (induction arbitrary: out ws rule: impl.induct)
  case (piped ov a s1 b s2)
  then obtain ws1 ws2 where "ws = ws1 @ ws2" "run s2 out = Some ws2" by (auto simp: bind_eq_Some_conv)
  with piped.IH(2) [of out ws2] piped.prems show ?case by auto
next
  case (merged q b s2)
  then show ?case by (auto simp: bind_eq_Some_conv split: if_splits)
next
  case (parallel e s bs k oqs iq)
  then show ?case by auto
qed auto

text \<open>The queue a segment reads is read by one of its threads, unless the segment is the user's queue.\<close>

lemma run_reader:
  "impl ov e s \<Longrightarrow> typed e \<Longrightarrow> run s out = Some ws \<Longrightarrow> entry s = Some q \<Longrightarrow> \<forall>u. e \<noteq> To_queue u \<Longrightarrow>
     \<exists>w \<in> set ws. q \<in> reads w"
proof (induction arbitrary: out ws q rule: impl.induct)
  case (make ov f r)
  then show ?case by (cases f) auto
next
  case (to f r)
  then show ?case by (cases f) auto
next
  case (piped ov a s1 b s2)
  have "entry s1 = Some q"
  proof (cases s1)
    case (Queue_producer_seg rq m)
    with piped(1) have "\<not> m" by (auto elim: impl.cases)
    with Queue_producer_seg piped.prems(3) show ?thesis by simp
  qed (use piped.prems(3) in auto)
  moreover have "\<forall>u. a \<noteq> To_queue u" using piped.prems(1) by auto
  ultimately show ?case using piped.IH(1) piped.prems by (fastforce simp: bind_eq_Some_conv)
next
  case (merged r b s2)
  have "\<forall>u. b \<noteq> To_queue u" using merged(1) by (auto elim: impl.cases)
  with merged show ?case by (fastforce simp: bind_eq_Some_conv split: if_splits)
next
  case (parallel e s bs k oqs iq)
  from parallel.prems(2) parallel.hyps(2,3) obtain wss where
    w: "ws = concat wss @ [Worker (Run_out_queues oqs) None out]" "length wss = k"
    "\<And>i. i < k \<Longrightarrow> run (bs ! i) (Some (oqs ! i)) = Some (wss ! i)" by (rule run_parallel_bases) blast
  have k: "0 < k" and ty: "typed (Pipe (From_queue iq) e)" using parallel.prems(1) by auto
  have b: "bs ! 0 \<in> set bs" using k parallel.hyps(2) by simp
  from impl_entry [OF parallel.hyps(4) [OF b] ty] have "entry (bs ! 0) = Some iq" by simp
  with parallel.IH(2) [OF b ty w(3) [OF k]] parallel.prems(3) obtain v where "v \<in> set (wss ! 0)" "q \<in> reads v" by auto
  moreover have "set (wss ! 0) \<subseteq> set ws" using w(1,2) k by (auto intro: nth_mem)
  ultimately show ?case by blast
qed auto

section \<open>No deadlock\<close>

lemma done_reads: "thread_ok Q w Done \<Longrightarrow> element_task (task_of w) \<Longrightarrow> q \<in> reads w \<Longrightarrow> is_up Q q"
  by (cases w; cases "task_of w") (auto simp: thread_ok_def)

definition covers :: "('v worker \<times> 'v pc) set \<Rightarrow> 'v worker list \<Rightarrow> bool" where
  "covers T ws \<longleftrightarrow> (\<forall>w \<in> set ws. \<exists>pc. (w, pc) \<in> T)"

definition done_in :: "('v worker \<times> 'v pc) set \<Rightarrow> 'v worker list \<Rightarrow> bool" where
  "done_in T ws \<longleftrightarrow> (\<forall>(w, pc) \<in> T. w \<in> set ws \<longrightarrow> pc = Done)"

lemma covers_append [simp]: "covers T (a @ b) \<longleftrightarrow> covers T a \<and> covers T b"
  by (auto simp: covers_def)

lemma done_in_append [simp]: "done_in T (a @ b) \<longleftrightarrow> done_in T a \<and> done_in T b"
  by (fastforce simp: done_in_def)

text \<open>What a segment whose threads cannot move waits for.\<close>

definition waits_for :: "'v queues \<Rightarrow> ('v worker \<times> 'v pc) set \<Rightarrow> 'v worker list \<Rightarrow> nat option \<Rightarrow> nat set \<Rightarrow> bool" where
  "waits_for Q T ws i os \<longleftrightarrow> done_in T ws \<or> (\<exists>q. i = Some q \<and> is_dry Q q) \<or> (\<exists>q \<in> os. is_full Q q)"

definition stuck :: "'v queues \<Rightarrow> ('v worker \<times> 'v pc) set \<Rightarrow> bool" where
  "stuck Q T \<longleftrightarrow> queues_ok Q \<and> (\<forall>(w, pc) \<in> T. thread_ok Q w pc \<and> thread_step True w pc Q = None)"

lemma single_waits:
  assumes "stuck Q T" and "element_task (task_of w)"
  shows "waits_for Q T [w] None {} \<or> (\<exists>q \<in> reads w. is_dry Q q) \<or> (\<exists>q. back_of w = Some q \<and> is_full Q q)"
proof (cases "done_in T [w]")
  case True
  then show ?thesis by (simp add: waits_for_def)
next
  case False
  then obtain pc where "(w, pc) \<in> T" "pc \<noteq> Done" by (auto simp: done_in_def)
  with assms blocked_cases [of Q w pc] show ?thesis by (auto simp: stuck_def)
qed

text \<open>A segment that is done has read its queue to the end and closed its output.\<close>

lemma done_up:
  assumes "stuck Q T" and "covers T ws" and "done_in T ws" and "impl ov e s" and "typed e" and "per_element e"
    and "run s out = Some ws" and "entry s = Some q" and "\<forall>u. e \<noteq> To_queue u"
  shows "is_up Q q"
proof -
  from run_reader [OF assms(4,5,7,8,9)] obtain w where w: "w \<in> set ws" "q \<in> reads w" by blast
  with assms(2,3) have "(w, Done) \<in> T" by (fastforce simp: covers_def done_in_def)
  with assms(1) w impl_element [OF assms(4,6,7)] done_reads [of Q w q] show ?thesis by (auto simp: stuck_def)
qed

lemma done_closed:
  assumes "stuck Q T" and "covers T ws" and "done_in T ws" and "impl ov e s" and "typed e" and "gives e"
    and "run s (Some q) = Some ws"
  shows "closed (Q q)"
proof -
  from run_writer [OF assms(4-7)] obtain w where w: "w \<in> set ws" "back_of w = Some q" by blast
  with assms(2,3) have "(w, Done) \<in> T" by (fastforce simp: covers_def done_in_def)
  with assms(1) w show ?thesis by (auto simp: stuck_def thread_ok_def)
qed

lemma dry_not_full: "stuck Q T \<Longrightarrow> bq_contents (Q q) = [] \<Longrightarrow> \<not> is_full Q q"
  by (auto simp: stuck_def queues_ok_def)

lemma waits_piped:
  assumes st: "stuck Q T" "covers T (ws1 @ ws2)" and i2: "impl None b s2" and ty: "typed b" "takes b" "per_element b"
    and r: "run s2 out = Some ws2" and m: "entry s2 = Some m"
    and i1: "impl ov a s1" "typed a" "gives a" "run s1 (Some m) = Some ws1"
    and 1: "waits_for Q T ws1 i {m}" and 2: "waits_for Q T ws2 (Some m) (target b out)"
  shows "waits_for Q T (ws1 @ ws2) i (target b out)"
proof -
  have c: "covers T ws1" "covers T ws2" using st(2) by simp_all
  consider "\<exists>q. i = Some q \<and> is_dry Q q" | "done_in T ws1" | "is_full Q m" using 1 by (auto simp: waits_for_def)
  then show ?thesis
  proof cases
    case 1
    then show ?thesis by (auto simp: waits_for_def)
  next
    case 2
    from done_closed [OF st(1) c(1) 2 i1(1-4)] \<open>waits_for Q T ws2 (Some m) (target b out)\<close> 2
    show ?thesis by (auto simp: waits_for_def)
  next
    case 3
    show ?thesis
    proof (cases "\<exists>u. b = To_queue u")
      case True
      with i2 m 3 show ?thesis by (auto simp: waits_for_def target_def elim: impl_to_queueE)
    next
      case False
      then have "done_in T ws2 \<Longrightarrow> is_up Q m" using done_up [OF st(1) c(2) _ i2 ty(1,3) r m] by blast
      with 3 dry_not_full [OF st(1), of m] \<open>waits_for Q T ws2 (Some m) (target b out)\<close>
      show ?thesis by (auto simp: waits_for_def)
    qed
  qed
qed

lemma waits_parallel:
  assumes st: "stuck Q T" "covers T (concat wss @ [w])" and w: "w = Worker (Run_out_queues oqs) None out"
    and len: "length wss = k" "length oqs = k" and out: "out = Some q"
    and base: "\<And>i. i < k \<Longrightarrow> waits_for Q T (wss ! i) (Some iq) {oqs ! i}"
    and shuts: "\<And>i. i < k \<Longrightarrow> done_in T (wss ! i) \<Longrightarrow> closed (Q (oqs ! i))"
  shows "waits_for Q T (concat wss @ [w]) (Some iq) {q}"
proof -
  have open_base: "is_dry Q iq" if "i < k" "\<not> is_full Q (oqs ! i)" "\<not> done_in T (wss ! i)" for i
    using base [OF that(1)] that(2,3) by (auto simp: waits_for_def)
  from single_waits [OF st(1), of w] w
  consider "done_in T [w]" | q' where "q' \<in> set oqs" "is_dry Q q'" | "is_full Q q"
    using out by (auto simp: waits_for_def)
  then show ?thesis
  proof cases
    case 1
    with st(2) have "(w, Done) \<in> T" by (fastforce simp: covers_def done_in_def)
    with st(1) have up: "\<forall>q' \<in> set oqs. is_up Q q'" using done_reads [of Q w] w by (fastforce simp: stuck_def)
    show ?thesis
    proof (cases "\<forall>i < k. done_in T (wss ! i)")
      case True
      then have "done_in T (concat wss)" using len by (fastforce simp: done_in_def in_set_conv_nth [of _ wss])
      with 1 show ?thesis by (simp add: waits_for_def)
    next
      case False
      then obtain i where "i < k" "\<not> done_in T (wss ! i)" by blast
      with open_base up len show ?thesis by (auto simp: waits_for_def)
    qed
  next
    case (2 q')
    then obtain i where i: "i < k" "oqs ! i = q'" using len by (auto simp: in_set_conv_nth)
    with shuts 2(2) have "\<not> done_in T (wss ! i)" by blast
    with open_base i dry_not_full [OF st(1), of q'] 2(2) show ?thesis by (auto simp: waits_for_def)
  next
    case 3
    then show ?thesis by (auto simp: waits_for_def)
  qed
qed

lemma stuck_impl:
  "impl ov e s \<Longrightarrow> stuck Q T \<Longrightarrow> typed e \<Longrightarrow> per_element e \<Longrightarrow> gives e \<longrightarrow> out \<noteq> None \<Longrightarrow>
     run s out = Some ws \<Longrightarrow> covers T ws \<Longrightarrow> waits_for Q T ws (entry s) (target e out)"
proof (induction arbitrary: out ws rule: impl.induct)
  case (make ov f q)
  then obtain w where "w = Worker f (entry (Function_seg q f (ov \<noteq> None) ov)) out" "ws = [w]" by simp
  with single_waits [OF make.prems(1), of w] make show ?case
    by (cases f) (auto simp: waits_for_def target_def)
next
  case (frm f)
  then obtain w where "w = Worker f None out" "ws = [w]" by simp
  with single_waits [OF frm.prems(1), of w] frm show ?case by (cases f) (auto simp: waits_for_def target_def)
next
  case (from_queue q)
  then obtain w where "w = Worker Run_queue (Some q) out" "ws = [w]" by simp
  with single_waits [OF from_queue.prems(1), of w] show ?case by (auto simp: waits_for_def target_def)
next
  case (to f q)
  then obtain w where "w = Worker f (Some q) None" "ws = [w]" by simp
  with single_waits [OF to.prems(1), of w] to show ?case by (cases f) (auto simp: waits_for_def target_def)
next
  case (to_queue q)
  then show ?case by (auto simp: waits_for_def done_in_def)
next
  case (piped ov a s1 b s2)
  have ty: "typed a" "typed b" "gives a" "takes b" "per_element a" "per_element b" using piped.prems by auto
  from impl_entry [OF piped.hyps(2) ty(2)] ty(4) obtain m where m: "get_back s2 = Some (Some m)" "entry s2 = Some m" by auto
  then obtain ws1 ws2 where ws: "ws = ws1 @ ws2" "run s1 (Some m) = Some ws1" "run s2 out = Some ws2"
    using piped.prems(5) by (auto simp: bind_eq_Some_conv)
  have e1: "entry (Chain_seg s1 s2) = entry s1"
  proof (cases s1)
    case (Queue_producer_seg rq x)
    with piped(1) have "\<not> x" by (auto elim: impl.cases)
    with Queue_producer_seg show ?thesis by simp
  qed auto
  have 1: "waits_for Q T ws1 (entry s1) {m}"
    using piped.IH(1) [OF piped.prems(1) ty(1,5) _ ws(2)] piped.prems(6) ws(1) ty(3) by (simp add: target_def)
  have 2: "waits_for Q T ws2 (Some m) (target b out)"
    using piped.IH(2) [OF piped.prems(1) ty(2,6) _ ws(3)] piped.prems(4,6) ws(1) m(2) by simp
  have "target (Pipe a b) out = target b out" by (simp add: target_def)
  with waits_piped [OF piped.prems(1) piped.prems(6) [unfolded ws(1)] piped.hyps(2) ty(2,4,6) ws(3) m(2) piped.hyps(1) ty(1,3) ws(2) 1 2]
  show ?case unfolding ws(1) e1 by simp
next
  case (merged q b s2)
  have g: "get_back s2 = Some None" "entry s2 = Some q" using impl_entry [OF merged.hyps(1)] merged.prems(2) by auto
  then have "run s2 out = Some ws" using merged.prems(5) by (auto simp: bind_eq_Some_conv)
  from merged.IH [OF merged.prems(1) _ _ _ this merged.prems(6)] merged.prems(2-4)
  have "waits_for Q T ws (entry s2) (target b out)" by simp
  moreover have "target (Pipe (From_queue q) b) out = target b out" by (simp add: target_def)
  ultimately show ?case using g(2) by simp
next
  case (parallel e s bs k oqs iq)
  from parallel.prems(5) parallel.hyps(2,3) obtain wss where
    w: "ws = concat wss @ [Worker (Run_out_queues oqs) None out]" "length wss = k"
    "\<And>i. i < k \<Longrightarrow> run (bs ! i) (Some (oqs ! i)) = Some (wss ! i)" by (rule run_parallel_bases) blast
  have ty: "typed (Pipe (From_queue iq) e)" "per_element (Pipe (From_queue iq) e)" "gives e"
    using parallel.prems(2,3) by auto
  from parallel.prems(4) ty(3) obtain o' where o': "out = Some o'" by auto
  have b: "bs ! i \<in> set bs" "covers T (wss ! i)" if "i < k" for i
    using that parallel.hyps(2) parallel.prems(6) w(1,2) by (auto simp: covers_def)
  have base: "waits_for Q T (wss ! i) (Some iq) {oqs ! i}" if "i < k" for i
    using parallel.IH(2) [OF b(1) [OF that] parallel.prems(1) ty(1,2) _ w(3) [OF that] b(2) [OF that]]
      impl_entry [OF parallel.hyps(4) [OF b(1) [OF that]] ty(1)] ty(3) by (simp add: target_def)
  have "closed (Q (oqs ! i))" if "i < k" "done_in T (wss ! i)" for i
    using done_closed [OF parallel.prems(1) b(2) [OF that(1)] that(2) parallel.hyps(4) [OF b(1) [OF that(1)]] ty(1) _ w(3) [OF that(1)]] ty(3)
    by simp
  from waits_parallel [OF parallel.prems(1) parallel.prems(6) [unfolded w(1)] refl w(2) parallel.hyps(3) o' base this]
  show ?case using o' ty(3) by (simp add: w(1) target_def)
qed

lemma pipe_progress:
  assumes "is_plan e" and "per_element e" and "user_ok e n U" and "plan_workers e n = Some (map fst (threads s))"
    and "pipe_inv s"
  shows "(\<exists>s'. pipe_step s s') \<or> all_done s \<or> (\<exists>q. src e = Some q \<and> is_dry (queues s) q) \<or>
     (\<exists>q. dst e = Some q \<and> is_full (queues s) q)"
proof (cases "\<exists>s'. pipe_step s s'")
  case no_step: False
  let ?Q = "queues s" and ?T = "set (threads s)"
  have "started s" using no_step pipe_step.count_down by blast
  have none: "thread_step True w pc ?Q = None" if "(w, pc) \<in> ?T" for w pc
  proof (rule ccontr)
    assume "thread_step True w pc ?Q \<noteq> None"
    then obtain pc' Q vs where "thread_step (started s) w pc ?Q = Some (pc', Q, vs)" using \<open>started s\<close> by auto
    moreover from that obtain i where "i < length (threads s)" "threads s ! i = (w, pc)" by (auto simp: in_set_conv_nth)
    ultimately show False using no_step pipe_step.thread by blast
  qed
  obtain g ws out where p: "impl None e g" "run g (Some out) = Some ws" "plan_workers e n = Some ws"
    using plan_segment [OF assms(1,3)] by metis
  then have ws: "ws = map fst (threads s)" using assms(4) by simp
  have "stuck ?Q ?T" using assms(5) none by (auto simp: stuck_def pipe_inv_def)
  moreover have "covers ?T ws" using ws by (auto simp: covers_def)
  ultimately have "waits_for ?Q ?T ws (entry g) (target e (Some out))"
    using stuck_impl [OF p(1) _ _ assms(2) _ p(2)] assms(1) by (auto simp: is_plan_def)
  moreover have "entry g = src e" "target e (Some out) = set_option (dst e)"
    using impl_entry [OF p(1)] assms(1) by (auto simp: is_plan_def target_def)
  moreover have "done_in ?T ws \<longleftrightarrow> all_done s" using ws by (fastforce simp: done_in_def all_done_def)
  ultimately show ?thesis by (auto simp: waits_for_def)
qed simp

end
