(* ===== verification/Pipeline_Results.thy ===== *)
theory Pipeline_Results
  imports Pipeline_Progress "HOL-Library.Multiset"
begin

text \<open>
  What a plan computes and that it ends. Every element in a queue has a weight \<open>\<Gamma> q v\<close> in a commutative
  monoid, chosen such that each step of a thread lowers the total weight by exactly \<open>\<kappa>\<close> (\<open>pipe_step_total\<close>). With
  \<open>\<kappa> = 0\<close> and the weights "what will be delivered of this element" the total is an invariant that says what the plan
  delivers; with \<open>\<kappa> = 1\<close> it bounds the number of steps.
\<close>

section \<open>Weights\<close>

primrec prog_weight :: "'m::comm_monoid_add \<Rightarrow> ('v \<Rightarrow> 'm) \<Rightarrow> 'v prog \<Rightarrow> 'm" where
  "prog_weight \<kappa> g (Ret v) = \<kappa>"
| "prog_weight \<kappa> g (Push v k) = \<kappa> + g v + prog_weight \<kappa> g k"
| "prog_weight \<kappa> g (Pop k) = 0"

definition back_weight :: "(nat \<Rightarrow> 'v \<Rightarrow> 'm::comm_monoid_add) \<Rightarrow> 'v worker \<Rightarrow> 'v \<Rightarrow> 'm" where
  "back_weight \<Gamma> w = (case back_of w of None \<Rightarrow> (\<lambda>_. 0) | Some q \<Rightarrow> \<Gamma> q)"

text \<open>The weight of an element read by a thread whose output has the weights \<open>g\<close>; \<open>\<delta>\<close> for what is delivered.\<close>

fun task_weight :: "'m::comm_monoid_add \<Rightarrow> ('v \<Rightarrow> 'm) \<Rightarrow> 'v task \<Rightarrow> ('v \<Rightarrow> 'm) \<Rightarrow> 'v \<Rightarrow> 'm" where
  "task_weight \<kappa> \<delta> (Run_simple_function f) g v = \<kappa> + \<kappa> + g (f v)"
| "task_weight \<kappa> \<delta> (Run_multi_out_function f) g v = \<kappa> + prog_weight \<kappa> g (f v)"
| "task_weight \<kappa> \<delta> Run_consumer g v = \<kappa> + \<delta> v"
| "task_weight \<kappa> \<delta> t g v = \<kappa> + \<kappa> + g v"

definition flows :: "'m::comm_monoid_add \<Rightarrow> ('v \<Rightarrow> 'm) \<Rightarrow> (nat \<Rightarrow> 'v \<Rightarrow> 'm) \<Rightarrow> 'v worker \<Rightarrow> bool" where
  "flows \<kappa> \<delta> \<Gamma> w \<longleftrightarrow> (\<forall>q \<in> reads w. \<Gamma> q = task_weight \<kappa> \<delta> (task_of w) (back_weight \<Gamma> w))"

text \<open>What a thread still has in its hands, and the steps to its end.\<close>

fun pending0 :: "'m::comm_monoid_add \<Rightarrow> ('v \<Rightarrow> 'm) \<Rightarrow> 'v task \<Rightarrow> 'v pc \<Rightarrow> 'm" where
  "pending0 \<kappa> g t Loop_head = (if t = Run_consumer then \<kappa> else \<kappa> + \<kappa>)"
| "pending0 \<kappa> g t (Body p) = prog_weight \<kappa> g p + (case t of Run_multi_out_producer p' \<Rightarrow> \<kappa> | _ \<Rightarrow> \<kappa> + \<kappa>)"
| "pending0 \<kappa> g t (Result v) = \<kappa> + g v + (case t of Run_producer u \<Rightarrow> \<kappa> | _ \<Rightarrow> \<kappa> + \<kappa>)"
| "pending0 \<kappa> g t (Drain qs) = (\<Sum>q\<leftarrow>qs. \<kappa>) + \<kappa> + \<kappa>"
| "pending0 \<kappa> g t (Moving v qs) = \<kappa> + g v + ((\<Sum>q\<leftarrow>qs. \<kappa>) + \<kappa> + \<kappa>)"
| "pending0 \<kappa> g t Close_out = \<kappa>"
| "pending0 \<kappa> g t pc = 0"

definition pending :: "'m::comm_monoid_add \<Rightarrow> (nat \<Rightarrow> 'v \<Rightarrow> 'm) \<Rightarrow> 'v worker \<Rightarrow> 'v pc \<Rightarrow> 'm" where
  "pending \<kappa> \<Gamma> w pc = (if pc = Thread_start then \<kappa> + pending0 \<kappa> (back_weight \<Gamma> w) (task_of w) (first_pc (task_of w))
     else pending0 \<kappa> (back_weight \<Gamma> w) (task_of w) pc)"

definition queue_weight :: "(nat \<Rightarrow> 'v \<Rightarrow> 'm::comm_monoid_add) \<Rightarrow> nat set \<Rightarrow> 'v queues \<Rightarrow> 'm" where
  "queue_weight \<Gamma> N Q = (\<Sum>q\<in>N. \<Sum>v\<leftarrow>bq_contents (Q q). \<Gamma> q v)"

definition total :: "'m::comm_monoid_add \<Rightarrow> ('v \<Rightarrow> 'm) \<Rightarrow> (nat \<Rightarrow> 'v \<Rightarrow> 'm) \<Rightarrow> nat set \<Rightarrow> 'v pipe \<Rightarrow> 'm" where
  "total \<kappa> \<delta> \<Gamma> N s = (if started s then 0 else \<kappa>) + queue_weight \<Gamma> N (queues s) +
     (\<Sum>(w, pc)\<leftarrow>threads s. pending \<kappa> \<Gamma> w pc) + (\<Sum>v\<leftarrow>delivered s. \<delta> v)"

lemma queue_weight_popped:
  assumes "finite N" and "q \<in> N" and "bq_wf (Q q)" and "bq_contents (Q q) \<noteq> []"
  shows "queue_weight \<Gamma> N Q = queue_weight \<Gamma> N (Q(q := popped (Q q))) + \<Gamma> q (hd (bq_contents (Q q)))"
proof -
  obtain x xs where x: "bq_contents (Q q) = x # xs" using assms(4) by (cases "bq_contents (Q q)") auto
  have "(\<Sum>r\<in>N - {q}. \<Sum>v\<leftarrow>bq_contents ((Q(q := popped (Q q))) r). \<Gamma> r v) = (\<Sum>r\<in>N - {q}. \<Sum>v\<leftarrow>bq_contents (Q r). \<Gamma> r v)"
    by (rule sum.cong) auto
  then show ?thesis
    using assms x popped_props(2) [OF assms(3,4)] by (simp add: queue_weight_def sum.remove [of N q] ac_simps)
qed

lemma queue_weight_pushed:
  assumes "finite N" and "q \<in> N" and "bq_wf (Q q)" and "length (bq_contents (Q q)) \<noteq> bq_capacity (Q q)"
  shows "queue_weight \<Gamma> N (Q(q := pushed v (Q q))) = queue_weight \<Gamma> N Q + \<Gamma> q v"
proof -
  have "(\<Sum>r\<in>N - {q}. \<Sum>u\<leftarrow>bq_contents ((Q(q := pushed v (Q q))) r). \<Gamma> r u) = (\<Sum>r\<in>N - {q}. \<Sum>u\<leftarrow>bq_contents (Q r). \<Gamma> r u)"
    by (rule sum.cong) auto
  then show ?thesis
    using assms pushed_props(2) [OF assms(3,4)] by (simp add: queue_weight_def sum.remove [of N q] ac_simps)
qed

lemma queue_weight_closed: "queue_weight \<Gamma> N (Q(q := bq_close (Q q))) = queue_weight \<Gamma> N Q"
  unfolding queue_weight_def by (rule sum.cong) auto

text \<open>Reading takes an element's weight out of the queues, writing puts it in.\<close>

lemma read_weight:
  assumes "queues_ok Q" and "finite N" and "q \<in> N" and "after_io (read_from (Some q) Q) Q k = Some (pc', Q', vs)"
  shows "(\<exists>v. queue_weight \<Gamma> N Q = queue_weight \<Gamma> N Q' + \<Gamma> q v \<and> (pc', vs) = k (Some v)) \<or>
     (Q' = Q \<and> (pc', vs) = k None)"
  using read_from_cases [OF assms(1,4)] queue_weight_popped [OF assms(2,3), of Q \<Gamma>] assms(1) by (auto simp: queues_ok_def)

lemma write_weight:
  assumes "queues_ok Q" and "finite N" and "q \<in> N" and "\<not> closed (Q q)"
    and "after_io (write_to (Some q) v Q) Q k = Some (pc', Q', vs)"
  shows "queue_weight \<Gamma> N Q' = queue_weight \<Gamma> N Q + \<Gamma> q v \<and> (pc', vs) = k None"
  using write_to_cases [OF assms(1,4,5)] queue_weight_pushed [OF assms(2,3), of Q \<Gamma> v] assms(1) by (auto simp: queues_ok_def)

definition balanced where
  "balanced \<kappa> \<delta> \<Gamma> N w pc Q pc' Q' vs \<longleftrightarrow>
     queue_weight \<Gamma> N Q + pending \<kappa> \<Gamma> w pc = \<kappa> + (queue_weight \<Gamma> N Q' + pending \<kappa> \<Gamma> w pc' + (\<Sum>v\<leftarrow>vs. \<delta> v))"

lemma loop_step_total:
  fixes \<kappa> :: "'m::comm_monoid_add"
  assumes ok: "worker_ok w" "pc_ok (task_of w) Loop_head" "queues_ok Q" and el: "element_task (task_of w)"
    and fl: "flows \<kappa> \<delta> \<Gamma> w" and N: "finite N" "reads w \<subseteq> N"
    and step: "loop_step w Q = Some (pc', Q', vs)"
  shows "balanced \<kappa> \<delta> \<Gamma> N w Loop_head Q pc' Q' vs"
proof -
  obtain t f b where w: "w = Worker t f b" by (cases w)
  with ok el obtain q where f: "f = Some q" by (cases t) auto
  have q: "q \<in> N" "\<And>v. \<Gamma> q v = task_weight \<kappa> \<delta> t (back_weight \<Gamma> w) v"
    using ok el w f N(2) fl by (cases t; auto simp: flows_def)+
  show ?thesis
    using ok el step q unfolding w f
    by (cases t) (auto simp: balanced_def pending_def ac_simps dest!: read_weight [OF ok(3) N(1) q(1), where \<Gamma> = \<Gamma>])
qed

lemma write_step_total:
  fixes \<kappa> :: "'m::comm_monoid_add"
  assumes Q: "queues_ok Q" and op: "\<forall>q. back_of w = Some q \<longrightarrow> \<not> closed (Q q)" and N: "finite N" "set_option (back_of w) \<subseteq> N"
    and b: "back_of w \<noteq> None" and step: "after_io (write_to (back_of w) v Q) Q (\<lambda>_. (pc', [])) = Some (pc1, Q', vs)"
    and p: "pending \<kappa> \<Gamma> w pc = \<kappa> + back_weight \<Gamma> w v + pending \<kappa> \<Gamma> w pc'"
  shows "balanced \<kappa> \<delta> \<Gamma> N w pc Q pc1 Q' vs"
proof -
  obtain q where q: "back_of w = Some q" using b by auto
  with op N have "\<not> closed (Q q)" "q \<in> N" by auto
  from write_weight [OF Q N(1) this(2,1) step [unfolded q], of \<Gamma>]
  show ?thesis using p q by (simp add: balanced_def back_weight_def ac_simps)
qed

lemma thread_step_total:
  fixes \<kappa> :: "'m::comm_monoid_add"
  assumes ok: "worker_ok w" "pc_ok (task_of w) pc" "queues_ok Q" and el: "element_task (task_of w)"
    and op: "\<forall>q. back_of w = Some q \<longrightarrow> \<not> closed (Q q)"
    and fl: "flows \<kappa> \<delta> \<Gamma> w" and N: "finite N" "reads w \<subseteq> N" "set_option (back_of w) \<subseteq> N"
    and step: "thread_step st w pc Q = Some (pc', Q', vs)"
  shows "balanced \<kappa> \<delta> \<Gamma> N w pc Q pc' Q' vs"
proof -
  obtain t f b where w: "w = Worker t f b" by (cases w)
  note wr = write_step_total [OF ok(3) op N(1,3)]
  show ?thesis
  proof (cases pc)
    case Thread_start
    with step w have "pc' = first_pc t" "Q' = Q" "vs = []" by (auto split: if_splits)
    moreover have "first_pc t \<noteq> Thread_start" by (cases t) auto
    ultimately show ?thesis using Thread_start w by (simp add: balanced_def pending_def ac_simps)
  next
    case Loop_head
    with loop_step_total [OF ok(1) _ ok(3) el fl N(1,2)] ok(2) step show ?thesis by simp
  next
    case (Body p)
    then show ?thesis
    proof (cases p)
      case (Ret v)
      with Body step ok el w show ?thesis by (cases t) (auto simp: balanced_def pending_def ac_simps)
    next
      case (Push v k)
      have b: "back_of w \<noteq> None" using ok el w Body Push by (cases t) auto
      show ?thesis
        unfolding Body Push by (rule wr [OF b step [unfolded Body Push thread_step.simps]]) (simp add: pending_def ac_simps)
    next
      case (Pop k)
      with Body ok el w show ?thesis by (cases t) auto
    qed
  next
    case (Result v)
    have b: "back_of w \<noteq> None" using ok el w Result by (cases t) auto
    show ?thesis
      unfolding Result by (rule wr [OF b step [unfolded Result thread_step.simps]])
        (use ok el w Result in \<open>cases t; auto simp: pending_def ac_simps\<close>)
  next
    case (Drain qs)
    with ok w obtain pre where t: "t = Run_out_queues (pre @ qs)" by auto
    show ?thesis
    proof (cases qs)
      case Nil
      with Drain step w t show ?thesis by (auto simp: balanced_def pending_def ac_simps)
    next
      case (Cons q qs')
      have q: "q \<in> N" "\<And>v. \<Gamma> q v = \<kappa> + \<kappa> + back_weight \<Gamma> w v" using N(2) fl w t Cons by (auto simp: flows_def)
      from read_weight [OF ok(3) N(1) q(1), where \<Gamma> = \<Gamma>] step Drain Cons
      show ?thesis by (fastforce simp: balanced_def pending_def q(2) ac_simps w t)
    qed
  next
    case (Moving v qs)
    have b: "back_of w \<noteq> None" using ok w Moving by auto
    show ?thesis
      unfolding Moving by (rule wr [OF b step [unfolded Moving thread_step.simps]]) (simp add: pending_def ac_simps)
  next
    case Close_out
    obtain q where "b = Some q" using ok el w Close_out by (cases t) auto
    with Close_out step w show ?thesis by (auto simp: balanced_def pending_def queue_weight_closed ac_simps)
  qed (use step ok in auto)
qed

definition net_ok :: "'m::comm_monoid_add \<Rightarrow> ('v \<Rightarrow> 'm) \<Rightarrow> (nat \<Rightarrow> 'v \<Rightarrow> 'm) \<Rightarrow> nat set \<Rightarrow> 'v worker list \<Rightarrow> bool" where
  "net_ok \<kappa> \<delta> \<Gamma> N ws \<longleftrightarrow> finite N \<and> (\<forall>w \<in> set ws. element_task (task_of w) \<and> flows \<kappa> \<delta> \<Gamma> w \<and>
     reads w \<subseteq> N \<and> set_option (back_of w) \<subseteq> N)"

text \<open>Every step lowers the total by \<open>\<kappa>\<close>.\<close>

lemma pipe_step_total:
  fixes \<kappa> :: "'m::comm_monoid_add"
  assumes "pipe_step s s'" and inv: "pipe_inv s" and net: "net_ok \<kappa> \<delta> \<Gamma> N (map fst (threads s))"
  shows "total \<kappa> \<delta> \<Gamma> N s = \<kappa> + total \<kappa> \<delta> \<Gamma> N s'"
  using assms(1)
proof (cases rule: pipe_step.cases)
  case count_down
  then show ?thesis by (simp add: total_def ac_simps)
next
  case (thread i w pc pc' Q vs)
  have mem: "(w, pc) \<in> set (threads s)" using thread(2,3) by (metis nth_mem)
  then have w: "w \<in> set (map fst (threads s))" by force
  have ok: "thread_ok (queues s) w pc" "queues_ok (queues s)" using inv mem by (auto simp: pipe_inv_def)
  have "pc \<noteq> Done" using thread(4) by auto
  then have op: "\<forall>q. back_of w = Some q \<longrightarrow> \<not> closed (queues s q)" using ok(1) by (simp add: thread_ok_def)
  have bal: "balanced \<kappa> \<delta> \<Gamma> N w pc (queues s) pc' Q vs"
  proof (rule thread_step_total [OF _ _ ok(2) _ op _ _ _ _ thread(4)])
    show "worker_ok w" "pc_ok (task_of w) pc" using ok(1) by (simp_all add: thread_ok_def)
    show "element_task (task_of w)" "flows \<kappa> \<delta> \<Gamma> w" "finite N" "reads w \<subseteq> N" "set_option (back_of w) \<subseteq> N"
      using net w unfolding net_ok_def by blast+
  qed
  define rest where "rest = (\<Sum>(w, pc)\<leftarrow>take i (threads s). pending \<kappa> \<Gamma> w pc) + (\<Sum>(w, pc)\<leftarrow>drop (Suc i) (threads s). pending \<kappa> \<Gamma> w pc)"
  have 1: "(\<Sum>(w, pc)\<leftarrow>threads s. pending \<kappa> \<Gamma> w pc) = pending \<kappa> \<Gamma> w pc + rest"
    using thread(3) by (subst id_take_nth_drop [OF thread(2)]) (simp add: rest_def ac_simps)
  have 2: "(\<Sum>(w, pc)\<leftarrow>(threads s)[i := (w, pc')]. pending \<kappa> \<Gamma> w pc) = pending \<kappa> \<Gamma> w pc' + rest"
    by (simp add: upd_conv_take_nth_drop [OF thread(2)] rest_def ac_simps)
  show ?thesis
    unfolding thread(1) using bal [unfolded balanced_def]
    by (simp add: total_def 1 2) (simp add: ac_simps)
qed

section \<open>The weights of an expression\<close>

fun leads :: "'v pexpr \<Rightarrow> bool" where
  "leads (Make f) = True"
| "leads (Pipe a b) = leads a"
| "leads e = False"

text \<open>A thread that only moves elements costs two steps per element; a merged queue costs none.\<close>

abbreviation hop :: "'m::comm_monoid_add \<Rightarrow> ('v \<Rightarrow> 'm) \<Rightarrow> 'v \<Rightarrow> 'm" where
  "hop \<kappa> g \<equiv> (\<lambda>v. \<kappa> + \<kappa> + g v)"

fun sem :: "'m::comm_monoid_add \<Rightarrow> ('v \<Rightarrow> 'm) \<Rightarrow> 'v pexpr \<Rightarrow> ('v \<Rightarrow> 'm) \<Rightarrow> 'v \<Rightarrow> 'm" where
  "sem \<kappa> \<delta> (Make f) g = task_weight \<kappa> \<delta> f g"
| "sem \<kappa> \<delta> (From f) g = (\<lambda>_. 0)"
| "sem \<kappa> \<delta> (From_queue q) g = hop \<kappa> g"
| "sem \<kappa> \<delta> (To f) g = task_weight \<kappa> \<delta> f (\<lambda>_. 0)"
| "sem \<kappa> \<delta> (To_queue q) g = \<delta>"
| "sem \<kappa> \<delta> (Parallel e k) g = (if leads e then sem \<kappa> \<delta> e (hop \<kappa> g) else hop \<kappa> (sem \<kappa> \<delta> e (hop \<kappa> g)))"
| "sem \<kappa> \<delta> (Pipe a b) g = (if (\<exists>q. a = From_queue q) \<and> leads b then sem \<kappa> \<delta> b g else sem \<kappa> \<delta> a (sem \<kappa> \<delta> b g))"

lemma impl_leads: "impl ov e s \<Longrightarrow> (ov \<noteq> None \<longrightarrow> leads e) \<and> (ov = None \<longrightarrow> can_merge_on_front s = leads e)"
  by (induction rule: impl.induct) auto

lemma flows_cong:
  assumes "flows \<kappa> \<delta> \<Gamma> w" and "\<And>q. q \<in> reads w \<union> set_option (back_of w) \<Longrightarrow> \<Gamma>' q = \<Gamma> q"
  shows "flows \<kappa> \<delta> \<Gamma>' w"
proof -
  have "back_weight \<Gamma>' w = back_weight \<Gamma> w" using assms(2) by (auto simp: back_weight_def split: option.splits)
  with assms show ?thesis by (simp add: flows_def)
qed

lemma run_reads:
  "impl ov e s \<Longrightarrow> typed e \<Longrightarrow> run s out = Some ws \<Longrightarrow> w \<in> set ws \<Longrightarrow> reads w \<subseteq> set (qids s) \<union> set_option (entry s)"
proof (induction arbitrary: out ws w rule: impl.induct)
  case (make ov f q)
  then show ?case by (cases f) auto
next
  case (frm f)
  then show ?case by (cases f) auto
next
  case (to f q)
  then show ?case by (cases f) auto
next
  case (piped ov a s1 b s2)
  have ty: "typed b" "takes b" "gives a" using piped.prems(1) by auto
  have e2: "set_option (entry s2) \<subseteq> set (qids s2) \<or> (\<exists>q. s2 = Queue_consumer_seg q)"
    using impl_entry_own [OF piped.hyps(2) ty(1,2)] by auto
  have e1: "entry (Chain_seg s1 s2) = entry s1"
  proof (cases s1)
    case (Queue_producer_seg rq x)
    with piped(1) have "\<not> x" by (auto elim: impl.cases)
    with Queue_producer_seg show ?thesis by simp
  qed auto
  obtain mid ws1 ws2 where r: "run s1 mid = Some ws1" "run s2 out = Some ws2" "ws = ws1 @ ws2"
    using piped.prems(2) by (auto simp: bind_eq_Some_conv)
  show ?case
  proof (cases "w \<in> set ws1")
    case True
    with piped.IH(1) [OF _ r(1)] piped.prems(1) e1 show ?thesis by auto
  next
    case False
    with r piped.prems(3) have "w \<in> set ws2" by simp
    with piped.IH(2) [OF ty(1) r(2)] e2 r(2) show ?thesis by auto
  qed
next
  case (merged q b s2)
  then show ?case by (fastforce simp: bind_eq_Some_conv split: if_splits)
next
  case (parallel e s bs k oqs iq)
  from parallel.prems(2) parallel.hyps(2,3) obtain wss where
    w: "ws = concat wss @ [Worker (Run_out_queues oqs) None out]" "length wss = k"
    "\<And>i. i < k \<Longrightarrow> run (bs ! i) (Some (oqs ! i)) = Some (wss ! i)" by (rule run_parallel_bases) blast
  have ty: "typed (Pipe (From_queue iq) e)" using parallel.prems(1) by auto
  let ?P = "Parallel_seg iq s bs oqs"
  have each: "set (qids (bs ! i)) \<subseteq> set (qids ?P)" "oqs ! i \<in> set (qids ?P)" if "i < k" for i
    using that parallel.hyps(2,3) by (auto simp: set_zip)
  from w(1) parallel.prems(3) consider "w = Worker (Run_out_queues oqs) None out" | i where "i < k" "w \<in> set (wss ! i)"
    using w(2) by (auto simp: in_set_conv_nth [of _ wss])
  then show ?case
  proof cases
    case 1
    have "set oqs \<subseteq> set (qids ?P)" using each(2) parallel.hyps(3) by (metis in_set_conv_nth subsetI)
    moreover have "reads w = set oqs" using 1 by simp
    ultimately show ?thesis by blast
  next
    case (2 i)
    then have b: "bs ! i \<in> set bs" using parallel.hyps(2) by simp
    have "reads w \<subseteq> set (qids (bs ! i)) \<union> set_option (entry (bs ! i))"
      by (rule parallel.IH(2) [OF b ty w(3) [OF 2(1)] 2(2)])
    moreover have "entry (bs ! i) = Some iq" using impl_entry [OF parallel.hyps(4) [OF b] ty] by simp
    ultimately show ?thesis using each(1) [OF 2(1)] by auto
  qed
qed auto

section \<open>Weights for every plan\<close>

text \<open>The queue a segment reads is not one it writes, and is its own or the user's.\<close>

definition clear :: "'v pexpr \<Rightarrow> 'v seg \<Rightarrow> nat option \<Rightarrow> bool" where
  "clear e s out \<longleftrightarrow> ((\<forall>u. e \<noteq> To_queue u) \<longrightarrow>
     (\<forall>q. entry s = Some q \<longrightarrow> q \<notin> target e out \<and> (q \<in> set (qids s) \<longrightarrow> q \<in> own s)))"

text \<open>Weights that fit the threads \<open>ws\<close> and agree with \<open>\<Gamma>0\<close> on all queues these do not read.\<close>

definition fits :: "'m::comm_monoid_add \<Rightarrow> ('v \<Rightarrow> 'm) \<Rightarrow> (nat \<Rightarrow> 'v \<Rightarrow> 'm) \<Rightarrow> 'v worker list \<Rightarrow> (nat \<Rightarrow> 'v \<Rightarrow> 'm) \<Rightarrow> bool" where
  "fits \<kappa> \<delta> \<Gamma>0 ws \<Gamma> \<longleftrightarrow> (\<forall>q. (\<forall>w \<in> set ws. q \<notin> reads w) \<longrightarrow> \<Gamma> q = \<Gamma>0 q) \<and> (\<forall>w \<in> set ws. flows \<kappa> \<delta> \<Gamma> w)"

definition start_ok :: "('v \<Rightarrow> 'm) \<Rightarrow> 'v pexpr \<Rightarrow> nat option \<Rightarrow> ('v \<Rightarrow> 'm) \<Rightarrow> (nat \<Rightarrow> 'v \<Rightarrow> 'm) \<Rightarrow> bool" where
  "start_ok \<delta> e out g \<Gamma>0 \<longleftrightarrow> (\<forall>q. gives e \<and> out = Some q \<longrightarrow> \<Gamma>0 q = g) \<and>
     (\<forall>q. \<not> gives e \<and> dst e = Some q \<longrightarrow> \<Gamma>0 q = \<delta>)"

lemma fits_single:
  assumes "reads w = {q}" and "back_of w \<noteq> Some q" and "G = task_weight \<kappa> \<delta> (task_of w) (back_weight \<Gamma>0 w)"
  shows "fits \<kappa> \<delta> \<Gamma>0 [w] (\<Gamma>0(q := G)) \<and> (\<Gamma>0(q := G)) q = G"
proof -
  have "back_weight (\<Gamma>0(q := G)) w = back_weight \<Gamma>0 w" using assms(2) by (auto simp: back_weight_def split: option.splits)
  with assms show ?thesis by (simp add: fits_def flows_def)
qed

lemma fits_none: "(\<And>w. w \<in> set ws \<Longrightarrow> reads w = {}) \<Longrightarrow> fits \<kappa> \<delta> \<Gamma>0 ws \<Gamma>0"
  by (simp add: fits_def flows_def)

lemma fits_append:
  assumes "fits \<kappa> \<delta> \<Gamma>0 ws2 \<Gamma>2" and "fits \<kappa> \<delta> \<Gamma>2 ws1 \<Gamma>1"
    and "\<And>w v q. w \<in> set ws2 \<Longrightarrow> v \<in> set ws1 \<Longrightarrow> q \<in> reads v \<Longrightarrow> q \<in> reads w \<union> set_option (back_of w) \<Longrightarrow> \<Gamma>1 q = \<Gamma>2 q"
  shows "fits \<kappa> \<delta> \<Gamma>0 (ws1 @ ws2) \<Gamma>1"
proof -
  have "flows \<kappa> \<delta> \<Gamma>1 w" if "w \<in> set ws2" for w
  proof (rule flows_cong)
    show "flows \<kappa> \<delta> \<Gamma>2 w" using assms(1) that by (simp add: fits_def)
    show "\<Gamma>1 q = \<Gamma>2 q" if "q \<in> reads w \<union> set_option (back_of w)" for q
      using assms(2,3) that \<open>w \<in> set ws2\<close> unfolding fits_def by blast
  qed
  then show ?thesis using assms(1,2) by (auto simp: fits_def)
qed

lemma room_piped:
  assumes "impl ov a s1" and "impl None b s2" and "typed (Pipe a b)" and "room (Pipe a b) (Chain_seg s1 s2) out"
    and m: "entry s2 = Some m"
  shows "room a s1 (Some m)" and "room b s2 out" and "m \<notin> set (qids s1)"
    and "set (qids s1) \<inter> (set (qids s2) \<union> target b out) = {}"
    and "m \<in> set (qids s2) \<and> own s2 = {m} \<and> m \<notin> target b out \<or> b = To_queue m"
proof -
  have ty: "typed a" "typed b" "gives a" "takes b" using assms(3) by auto
  have d: "distinct (qids s1)" "distinct (qids s2)" "set (qids s1) \<inter> set (qids s2) = {}"
    "gives b \<Longrightarrow> out \<noteq> None \<and> set_option out \<inter> (set (qids s1) \<union> set (qids s2)) = {}"
    "set_option (dst b) \<inter> (set (qids s1) \<union> set (qids s2)) = {}"
    using assms(4) by (auto simp: room_def)
  have t: "target b out \<inter> (set (qids s1) \<union> set (qids s2)) = {}" using d(4,5) by (auto simp: target_def)
  have o: "m \<in> set (qids s2) \<and> own s2 = {m} \<or> b = To_queue m"
    using impl_entry_own [OF assms(2) ty(2,4)] m by auto
  then show "m \<in> set (qids s2) \<and> own s2 = {m} \<and> m \<notin> target b out \<or> b = To_queue m" using t by blast
  show m1: "m \<notin> set (qids s1)" using o d(3) t by (auto simp: target_def)
  show "room a s1 (Some m)" using d(1) m1 gives_dst [OF ty(1,3)] by (simp add: room_def)
  show "room b s2 out" using d by (auto simp: room_def)
  show "set (qids s1) \<inter> (set (qids s2) \<union> target b out) = {}" using d(3) t by blast
qed

lemma run_backs:
  assumes "impl ov e s" and "typed e" and "room e s out" and "run s out = Some ws" and "w \<in> set ws"
  shows "set_option (back_of w) \<subseteq> (set (qids s) - own s) \<union> target e out"
proof -
  have "set (written ws) \<subseteq> (set (qids s) - own s) \<union> target e out"
    using run_impl [OF assms(1-3)] assms(4) by (auto simp: runs_ok_def)
  with assms(5) show ?thesis by (auto simp: subset_iff in_written)
qed

lemma entry_chain:
  assumes "impl ov a s1"
  shows "entry (Chain_seg s1 s2) = entry s1"
proof (cases s1)
  case (Queue_producer_seg rq x)
  with assms have "\<not> x" by (auto elim: impl.cases)
  with Queue_producer_seg show ?thesis by simp
qed auto

lemma flow_piped:
  fixes \<kappa> :: "'m::comm_monoid_add"
  assumes i1: "impl ov a s1" and i2: "impl None b s2" and ty: "typed (Pipe a b)"
    and rm: "room (Pipe a b) (Chain_seg s1 s2) out" and cl: "clear (Pipe a b) (Chain_seg s1 s2) out"
    and m: "entry s2 = Some m" and r1: "run s1 (Some m) = Some ws1" and r2: "run s2 out = Some ws2"
    and f2: "clear b s2 out \<Longrightarrow> \<exists>\<Gamma>. fits \<kappa> \<delta> \<Gamma>0 ws2 \<Gamma> \<and> (\<forall>q. entry s2 = Some q \<longrightarrow> \<Gamma> q = G)"
    and f1: "\<And>\<Gamma>2. \<Gamma>2 m = G \<Longrightarrow> clear a s1 (Some m) \<Longrightarrow>
      \<exists>\<Gamma>. fits \<kappa> \<delta> \<Gamma>2 ws1 \<Gamma> \<and> (\<forall>q. entry s1 = Some q \<longrightarrow> \<Gamma> q = H)"
  shows "\<exists>\<Gamma>. fits \<kappa> \<delta> \<Gamma>0 (ws1 @ ws2) \<Gamma> \<and> (\<forall>q. entry (Chain_seg s1 s2) = Some q \<longrightarrow> \<Gamma> q = H)"
proof -
  have tys: "typed a" "typed b" "gives a" "takes b" using ty by auto
  note rp = room_piped [OF i1 i2 ty rm m]
  have e1: "entry (Chain_seg s1 s2) = entry s1" by (rule entry_chain [OF i1])
  have own1: "own (Chain_seg s1 s2) = own s1" by (simp add: own_def)
  have o1: "own s1 \<subseteq> set (qids s1)"
  proof (cases "takes a \<and> ov = None")
    case True
    with impl_entry_own [of a s1] i1 tys show ?thesis by auto
  next
    case False
    with impl_entry [OF i1 tys(1)] show ?thesis by (cases ov) (auto simp: own_def)
  qed
  have q1: "q \<notin> target b out \<and> q \<notin> set (qids s2) \<and> q \<noteq> m \<and> (q \<in> set (qids s1) \<longrightarrow> q \<in> own s1)" if "entry s1 = Some q" for q
  proof -
    have "q \<notin> target b out" "q \<in> set (qids s1 @ qids s2) \<longrightarrow> q \<in> own s1"
      using cl that unfolding clear_def e1 own1 by (auto simp: target_def)
    moreover have "b = To_queue m \<Longrightarrow> target b out = {m}" by (auto simp: target_def)
    ultimately show ?thesis using o1 rp(4,5) by auto
  qed
  have "clear b s2 out" using rp(5) m by (auto simp: clear_def)
  from f2 [OF this] m obtain \<Gamma>2 where 2: "fits \<kappa> \<delta> \<Gamma>0 ws2 \<Gamma>2" "\<Gamma>2 m = G" by auto
  have "clear a s1 (Some m)" using q1 tys(3) by (auto simp: clear_def target_def)
  from f1 [of \<Gamma>2, OF 2(2) this] obtain \<Gamma>1 where 1: "fits \<kappa> \<delta> \<Gamma>2 ws1 \<Gamma>1" "\<forall>q. entry s1 = Some q \<longrightarrow> \<Gamma>1 q = H" by blast
  have "fits \<kappa> \<delta> \<Gamma>0 (ws1 @ ws2) \<Gamma>1"
  proof (rule fits_append [OF 2(1) 1(1)])
    fix w v q assume a: "w \<in> set ws2" "v \<in> set ws1" "q \<in> reads v" "q \<in> reads w \<union> set_option (back_of w)"
    from a(2,3) run_reads [OF i1 tys(1) r1] have "q \<in> set (qids s1) \<or> entry s1 = Some q" by auto
    moreover from a(1,4) run_reads [OF i2 tys(2) r2] run_backs [OF i2 tys(2) rp(2) r2] m
    have "q \<in> set (qids s2) \<union> target b out \<or> q = m" by auto
    ultimately have False using q1 rp(3,4) by blast
    then show "\<Gamma>1 q = \<Gamma>2 q" ..
  qed
  with 1(2) e1 show ?thesis by auto
qed

text \<open>The bases of a parallel segment, one after the other: they share the queue \<open>iq\<close> and give it the same weight.\<close>

lemma flow_bases:
  fixes \<kappa> :: "'m::comm_monoid_add"
  assumes len: "length wss = k"
    and f: "\<And>i \<Gamma>2. i < k \<Longrightarrow> \<Gamma>2 (oqs ! i) = h \<Longrightarrow> \<exists>\<Gamma>. fits \<kappa> \<delta> \<Gamma>2 (wss ! i) \<Gamma> \<and> \<Gamma> iq = G"
    and h: "\<And>i. i < k \<Longrightarrow> \<Gamma>0 (oqs ! i) = h"
    and sep: "\<And>i j w v q. i < k \<Longrightarrow> j < k \<Longrightarrow> i \<noteq> j \<Longrightarrow> w \<in> set (wss ! i) \<Longrightarrow> v \<in> set (wss ! j) \<Longrightarrow> q \<in> reads v \<Longrightarrow>
      q \<in> reads w \<union> set_option (back_of w) \<Longrightarrow> q = iq"
    and sep2: "\<And>i j v. i < k \<Longrightarrow> j < k \<Longrightarrow> v \<in> set (wss ! j) \<Longrightarrow> oqs ! i \<notin> reads v"
  shows "n \<le> k \<Longrightarrow> \<exists>\<Gamma>. fits \<kappa> \<delta> \<Gamma>0 (concat (take n wss)) \<Gamma> \<and> (0 < n \<longrightarrow> \<Gamma> iq = G)"
proof (induction n)
  case 0
  show ?case by (rule exI [of _ \<Gamma>0]) (simp add: fits_def)
next
  case (Suc n)
  then obtain \<Gamma>2 where 2: "fits \<kappa> \<delta> \<Gamma>0 (concat (take n wss)) \<Gamma>2" "0 < n \<longrightarrow> \<Gamma>2 iq = G" by auto
  have n: "n < k" using Suc.prems by simp
  have inn: "w \<in> set (concat (take n wss)) \<longleftrightarrow> (\<exists>i < n. w \<in> set (wss ! i))" for w
    using n len by (auto simp: nth_image [symmetric])
  have "\<Gamma>2 (oqs ! n) = \<Gamma>0 (oqs ! n)"
  proof -
    have "oqs ! n \<notin> reads v" if v: "v \<in> set (concat (take n wss))" for v
    proof
      assume "oqs ! n \<in> reads v"
      moreover obtain j where j: "j < n" "v \<in> set (wss ! j)" using v inn by blast
      ultimately show False using sep2 [of n j v] n by auto
    qed
    then show ?thesis using 2(1) unfolding fits_def by blast
  qed
  with h [OF n] f [OF n, of \<Gamma>2] obtain \<Gamma>1 where 1: "fits \<kappa> \<delta> \<Gamma>2 (wss ! n) \<Gamma>1" "\<Gamma>1 iq = G" by auto
  have "fits \<kappa> \<delta> \<Gamma>0 (wss ! n @ concat (take n wss)) \<Gamma>1"
  proof (rule fits_append [OF 2(1) 1(1)])
    fix w v q assume a: "w \<in> set (concat (take n wss))" "v \<in> set (wss ! n)" "q \<in> reads v" "q \<in> reads w \<union> set_option (back_of w)"
    from a(1) inn obtain i where i: "i < n" "w \<in> set (wss ! i)" by blast
    with sep [of i n w v q] a n have "q = iq" by auto
    with 1(2) 2(2) i(1) show "\<Gamma>1 q = \<Gamma>2 q" by simp
  qed
  moreover have "set (wss ! n @ concat (take n wss)) = set (concat (take (Suc n) wss))"
    using n len by (auto simp: take_Suc_conv_app_nth)
  ultimately have "fits \<kappa> \<delta> \<Gamma>0 (concat (take (Suc n) wss)) \<Gamma>1" unfolding fits_def by simp
  with 1(2) show ?case by blast
qed

lemma concat_apart:
  "distinct (concat xss) \<Longrightarrow> i < length xss \<Longrightarrow> j < length xss \<Longrightarrow> i \<noteq> j \<Longrightarrow> set (xss ! i) \<inter> set (xss ! j) = {}"
proof (induction xss arbitrary: i j)
  case (Cons xs xss)
  have sub: "set (xss ! m) \<subseteq> set (concat xss)" if "m < length xss" for m using nth_mem [OF that] by auto
  have d: "set xs \<inter> set (concat xss) = {}" "distinct (concat xss)" using Cons.prems(1) by simp_all
  show ?case
  proof (cases i)
    case 0
    then obtain j' where "j = Suc j'" "j' < length xss" using Cons.prems by (cases j) auto
    with 0 sub [of j'] d(1) show ?thesis by auto
  next
    case (Suc i')
    show ?thesis
    proof (cases j)
      case 0
      with Suc Cons.prems sub [of i'] d(1) show ?thesis by auto
    next
      case (Suc j')
      with \<open>i = Suc i'\<close> Cons.IH [OF d(2), of i' j'] Cons.prems show ?thesis by simp
    qed
  qed
qed simp

lemma flow_parallel:
  fixes \<kappa> :: "'m::comm_monoid_add"
  assumes len: "length bs = k" "length oqs = k"
    and i: "\<And>b. b \<in> set bs \<Longrightarrow> impl None (Pipe (From_queue iq) e) b"
    and ty: "typed (Parallel e k)" and rm: "room (Parallel e k) (Parallel_seg iq s bs oqs) out"
    and r: "run (Parallel_seg iq s bs oqs) out = Some ws" and st: "start_ok \<delta> (Parallel e k) out g \<Gamma>0"
    and f: "\<And>b q ws \<Gamma>2. b \<in> set bs \<Longrightarrow> room (Pipe (From_queue iq) e) b (Some q) \<Longrightarrow>
        clear (Pipe (From_queue iq) e) b (Some q) \<Longrightarrow> run b (Some q) = Some ws \<Longrightarrow> \<Gamma>2 q = hop \<kappa> g \<Longrightarrow>
        \<exists>\<Gamma>. fits \<kappa> \<delta> \<Gamma>2 ws \<Gamma> \<and> (\<forall>q. entry b = Some q \<longrightarrow> \<Gamma> q = G)"
  shows "\<exists>\<Gamma>. fits \<kappa> \<delta> \<Gamma>0 ws \<Gamma> \<and> \<Gamma> iq = G"
proof -
  let ?e = "Pipe (From_queue iq) e" and ?m = "Worker (Run_out_queues oqs) None out"
  have tye: "typed ?e" "gives e" "0 < k" using ty by auto
  obtain wss where w: "ws = concat wss @ [?m]" "length wss = k"
    "\<And>i. i < k \<Longrightarrow> run (bs ! i) (Some (oqs ! i)) = Some (wss ! i)" using run_parallel_bases [OF r len] by blast
  let ?ids = "concat (map (\<lambda>(b, q). qids b @ [q]) (zip bs oqs))"
  from rm tye have "out \<noteq> None" "set_option out \<inter> set (iq # ?ids) = {}" and dist: "distinct (iq # ?ids)"
    by (simp_all add: room_def)
  then obtain o' where o': "out = Some o'" "o' \<notin> set (iq # ?ids)" by (cases out) auto
  have mem: "bs ! i \<in> set bs" "(bs ! i, oqs ! i) \<in> set (zip bs oqs)" if "i < k" for i
    using that len by (auto simp: in_set_zip)
  have ids: "set (qids (bs ! i)) \<subseteq> set ?ids" "oqs ! i \<in> set ?ids" if "i < k" for i
    using mem(2) [OF that] by force+
  have d: "distinct (qids (bs ! i) @ [oqs ! i])" if "i < k" for i
    using dist mem(2) [OF that] by (auto simp: distinct_concat_iff)
  have apart: "(set (qids (bs ! i)) \<union> {oqs ! i}) \<inter> (set (qids (bs ! j)) \<union> {oqs ! j}) = {}" if "i < k" "j < k" "i \<noteq> j" for i j
  proof -
    let ?L = "map (\<lambda>(b, q). qids b @ [q]) (zip bs oqs)"
    have "distinct (concat ?L)" using dist by simp
    moreover have "?L ! i = qids (bs ! i) @ [oqs ! i]" "?L ! j = qids (bs ! j) @ [oqs ! j]" "i < length ?L" "j < length ?L"
      using that len by simp_all
    ultimately have "set (?L ! i) \<inter> set (?L ! j) = {}" using that(3)
      by (metis (no_types, lifting) concat_apart)
    with \<open>?L ! i = _\<close> \<open>?L ! j = _\<close> show ?thesis by auto
  qed
  have sub: "distinct (concat (map (\<lambda>(b, q). qids b @ [q]) (zip bs oqs)))" "iq \<notin> set ?ids" using dist by simp_all
  have base: "room ?e (bs ! i) (Some (oqs ! i))" "clear ?e (bs ! i) (Some (oqs ! i))" "entry (bs ! i) = Some iq" if "i < k" for i
  proof -
    have "dst e = None" using gives_dst [of e] ty by simp
    with d [OF that] tye show "room ?e (bs ! i) (Some (oqs ! i))" by (simp add: room_def)
    show en: "entry (bs ! i) = Some iq" using impl_entry [OF i [OF mem(1) [OF that]] tye(1)] by simp
    have "iq \<noteq> oqs ! i" "iq \<notin> set (qids (bs ! i))" using ids [OF that] sub(2) by blast+
    with en tye(2) show "clear ?e (bs ! i) (Some (oqs ! i))" by (simp add: clear_def target_def)
  qed
  have rd: "reads v \<subseteq> set (qids (bs ! i)) \<union> {iq}" if "i < k" "v \<in> set (wss ! i)" for i v
    using run_reads [OF i [OF mem(1) [OF that(1)]] tye(1) w(3) [OF that(1)] that(2)] base(3) [OF that(1)] by simp
  have bk: "set_option (back_of v) \<subseteq> set (qids (bs ! i)) \<union> {oqs ! i}" if "i < k" "v \<in> set (wss ! i)" for i v
    using run_backs [OF i [OF mem(1) [OF that(1)]] tye(1) base(1) [OF that(1)] w(3) [OF that(1)] that(2)] tye(2)
    by (auto simp: target_def)
  have away: "oqs ! i \<notin> reads v" if "i < k" "j < k" "v \<in> set (wss ! j)" for i j v
  proof -
    have "oqs ! i \<noteq> iq" using ids(2) [OF that(1)] sub(2) by blast
    moreover have "oqs ! i \<notin> set (qids (bs ! j))"
      using apart [OF that(1,2)] d [OF that(2)] by (cases "i = j") auto
    ultimately show ?thesis using rd [OF that(2,3)] by blast
  qed
  let ?\<Gamma> = "\<lambda>q. if q \<in> set oqs then hop \<kappa> g else \<Gamma>0 q"
  have "\<exists>\<Gamma>. fits \<kappa> \<delta> ?\<Gamma> (concat (take k wss)) \<Gamma> \<and> (0 < k \<longrightarrow> \<Gamma> iq = G)"
  proof (rule flow_bases [OF w(2)])
    show "\<exists>\<Gamma>. fits \<kappa> \<delta> \<Gamma>2 (wss ! i) \<Gamma> \<and> \<Gamma> iq = G" if "i < k" "\<Gamma>2 (oqs ! i) = hop \<kappa> g" for i \<Gamma>2
      using f [OF mem(1) [OF that(1)] base(1,2) [OF that(1)] w(3) [OF that(1)], of \<Gamma>2] base(3) [OF that(1)] that(2) by simp
    show "?\<Gamma> (oqs ! i) = hop \<kappa> g" if "i < k" for i using that len by simp
    show "q = iq" if "i < k" "j < k" "i \<noteq> j" "w \<in> set (wss ! i)" "v \<in> set (wss ! j)" "q \<in> reads v"
      "q \<in> reads w \<union> set_option (back_of w)" for i j w v q
      using rd [OF that(2,5)] rd [OF that(1,4)] bk [OF that(1,4)] apart [OF that(1-3)] that(6,7) by blast
    show "oqs ! i \<notin> reads v" if "i < k" "j < k" "v \<in> set (wss ! j)" for i j v using away that by blast
  qed simp
  then obtain \<Gamma> where \<Gamma>: "fits \<kappa> \<delta> ?\<Gamma> (concat wss) \<Gamma>" "\<Gamma> iq = G" using w(2) tye(3) by auto
  have away': "\<forall>v \<in> set (concat wss). q \<notin> reads v" if "q = o' \<or> q \<in> set oqs" for q
  proof
    fix v assume "v \<in> set (concat wss)"
    then obtain j where j: "j < k" "v \<in> set (wss ! j)" using w(2) by (auto simp: in_set_conv_nth [of _ wss])
    show "q \<notin> reads v"
    proof (cases "q \<in> set oqs")
      case True
      then obtain i where "i < k" "oqs ! i = q" using len by (auto simp: in_set_conv_nth)
      with away j show ?thesis by blast
    next
      case False
      with that have "q = o'" by simp
      with o'(2) have "q \<noteq> iq" "q \<notin> set ?ids" by simp_all
      with rd [OF j] ids(1) [OF j(1)] show ?thesis by blast
    qed
  qed
  have no: "o' \<notin> set oqs" using o'(2) ids(2) len by (fastforce simp: in_set_conv_nth)
  have "\<Gamma> o' = g" using \<Gamma>(1) away' [of o'] no st o'(1) tye(2) by (simp add: fits_def start_ok_def)
  moreover have "\<Gamma> q = hop \<kappa> g" if "q \<in> set oqs" for q
    using \<Gamma>(1) away' [of q] that unfolding fits_def by simp
  ultimately have "flows \<kappa> \<delta> \<Gamma> ?m" using o'(1) by (auto simp: flows_def back_weight_def fun_eq_iff)
  with \<Gamma>(1) have "fits \<kappa> \<delta> \<Gamma>0 ws \<Gamma>" unfolding w(1) fits_def by auto
  with \<Gamma>(2) show ?thesis by blast
qed

lemma flow_impl:
  fixes \<kappa> :: "'m::comm_monoid_add"
  shows "impl ov e s \<Longrightarrow> typed e \<Longrightarrow> per_element e \<Longrightarrow> room e s out \<Longrightarrow> clear e s out \<Longrightarrow> run s out = Some ws \<Longrightarrow>
     start_ok \<delta> e out g \<Gamma>0 \<Longrightarrow> \<exists>\<Gamma>. fits \<kappa> \<delta> \<Gamma>0 ws \<Gamma> \<and> (\<forall>q. entry s = Some q \<longrightarrow> \<Gamma> q = sem \<kappa> \<delta> e g)"
proof (induction arbitrary: out ws g \<Gamma>0 rule: impl.induct)
  case (make ov f q)
  let ?s = "Function_seg q f (ov \<noteq> None) ov" let ?w = "Worker f (entry ?s) out"
  have ws: "ws = [?w]" using make.prems(5) by simp
  obtain i where i: "entry ?s = Some i" by (cases ov) auto
  obtain o' where o': "out = Some o'" using make.prems(3) by (auto simp: room_def)
  have "o' \<noteq> i" using make.prems(4) i o' by (auto simp: clear_def target_def)
  moreover have "reads ?w = {i}" using make.prems(1,2) i by (cases f) auto
  ultimately have "fits \<kappa> \<delta> \<Gamma>0 [?w] (\<Gamma>0(i := task_weight \<kappa> \<delta> f g)) \<and> (\<Gamma>0(i := task_weight \<kappa> \<delta> f g)) i = task_weight \<kappa> \<delta> f g"
    using make.prems(6) o' by (intro fits_single) (auto simp: back_weight_def start_ok_def)
  then show ?case unfolding ws i by auto
next
  case (frm f)
  then have "fits \<kappa> \<delta> \<Gamma>0 ws \<Gamma>0" by (intro fits_none) (cases f; auto)
  then show ?case by auto
next
  case (from_queue q)
  let ?w = "Worker Run_queue (Some q) out"
  obtain o' where o': "out = Some o'" using from_queue.prems(3) by (auto simp: room_def)
  have "o' \<noteq> q" using from_queue.prems(4) o' by (auto simp: clear_def target_def)
  then have "fits \<kappa> \<delta> \<Gamma>0 [?w] (\<Gamma>0(q := hop \<kappa> g)) \<and> (\<Gamma>0(q := hop \<kappa> g)) q = hop \<kappa> g"
    using from_queue.prems(6) o' by (intro fits_single) (auto simp: back_weight_def start_ok_def)
  then show ?case using from_queue.prems(5) by auto
next
  case (to f q)
  let ?w = "Worker f (Some q) None" let ?G = "task_weight \<kappa> \<delta> f (\<lambda>_. 0)"
  have "reads ?w = {q}" using to.prems(1,2) by (cases f) auto
  then have "fits \<kappa> \<delta> \<Gamma>0 [?w] (\<Gamma>0(q := ?G)) \<and> (\<Gamma>0(q := ?G)) q = ?G"
    by (intro fits_single) (auto simp: back_weight_def)
  then show ?case using to.prems(5) by auto
next
  case (to_queue q)
  then show ?case by (intro exI [of _ \<Gamma>0]) (auto simp: fits_def start_ok_def)
next
  case (piped ov a s1 b s2)
  have ty: "typed a" "typed b" "gives a" "takes b" "per_element a" "per_element b" using piped.prems by auto
  from impl_entry [OF piped.hyps(2) ty(2)] ty(4) obtain m where m: "get_back s2 = Some (Some m)" "entry s2 = Some m" by auto
  then obtain ws1 ws2 where ws: "ws = ws1 @ ws2" "run s1 (Some m) = Some ws1" "run s2 out = Some ws2"
    using piped.prems(5) by (auto simp: bind_eq_Some_conv)
  note rp = room_piped [OF piped.hyps(1,2) piped.prems(1,3) m(2)]
  have "\<not> ((\<exists>q. a = From_queue q) \<and> leads b)"
  proof
    assume "(\<exists>q. a = From_queue q) \<and> leads b"
    then have "can_merge_on_back s1" "can_merge_on_front s2"
      using piped.hyps(1) impl_leads [OF piped.hyps(2)] by (auto elim: impl_from_queueE)
    with piped.hyps(3) show False by simp
  qed
  then have sem: "sem \<kappa> \<delta> (Pipe a b) g = sem \<kappa> \<delta> a (sem \<kappa> \<delta> b g)" by auto
  show ?case
    unfolding ws(1) sem
  proof (rule flow_piped [OF piped.hyps(1,2) piped.prems(1,3,4) m(2) ws(2,3)])
    show "\<exists>\<Gamma>. fits \<kappa> \<delta> \<Gamma>0 ws2 \<Gamma> \<and> (\<forall>q. entry s2 = Some q \<longrightarrow> \<Gamma> q = sem \<kappa> \<delta> b g)" if "clear b s2 out"
      using piped.IH(2) [OF ty(2,6) rp(2) that ws(3)] piped.prems(6) by (simp add: start_ok_def)
    show "\<exists>\<Gamma>. fits \<kappa> \<delta> \<Gamma>2 ws1 \<Gamma> \<and> (\<forall>q. entry s1 = Some q \<longrightarrow> \<Gamma> q = sem \<kappa> \<delta> a (sem \<kappa> \<delta> b g))"
      if "\<Gamma>2 m = sem \<kappa> \<delta> b g" "clear a s1 (Some m)" for \<Gamma>2
      using piped.IH(1) [OF ty(1,5) rp(1) that(2) ws(2), of "sem \<kappa> \<delta> b g" \<Gamma>2] that(1) ty(3) by (simp add: start_ok_def)
  qed
next
  case (merged q b s2)
  have g: "get_back s2 = Some None" "entry s2 = Some q" "takes b" using impl_entry [OF merged.hyps(1)] merged.prems(1) by auto
  then have r: "run s2 out = Some ws" using merged.prems(5) by (auto simp: bind_eq_Some_conv)
  have "leads b" using impl_leads [OF merged.hyps(1)] by simp
  have "room b s2 out" using merged.prems(3) by (simp add: room_def)
  moreover have "clear b s2 out" using merged.prems(4) g by (auto simp: clear_def target_def own_def)
  moreover have "start_ok \<delta> b out g \<Gamma>0" using merged.prems(6) by (simp add: start_ok_def)
  ultimately show ?case using merged.IH [OF _ _ _ _ r, of g \<Gamma>0] merged.prems(1,2) \<open>leads b\<close> g by auto
next
  case (parallel e s bs k oqs iq)
  let ?e = "Pipe (From_queue iq) e"
  have ty: "typed ?e" "per_element ?e" "gives e" using parallel.prems(1,2) by auto
  have "\<exists>\<Gamma>. fits \<kappa> \<delta> \<Gamma>0 ws \<Gamma> \<and> \<Gamma> iq = sem \<kappa> \<delta> ?e (hop \<kappa> g)"
  proof (rule flow_parallel [OF parallel.hyps(2,3,4) parallel.prems(1,3,5,6)])
    show "\<exists>\<Gamma>. fits \<kappa> \<delta> \<Gamma>2 ws' \<Gamma> \<and> (\<forall>q. entry b = Some q \<longrightarrow> \<Gamma> q = sem \<kappa> \<delta> ?e (hop \<kappa> g))"
      if "b \<in> set bs" "room ?e b (Some q)" "clear ?e b (Some q)" "run b (Some q) = Some ws'" "\<Gamma>2 q = hop \<kappa> g" for b q ws' \<Gamma>2
      using parallel.IH(2) [OF that(1) ty(1,2) that(2-4), of "hop \<kappa> g" \<Gamma>2] that(5) ty(3) by (simp add: start_ok_def)
  qed
  then show ?case by (cases "leads e") simp_all
qed

section \<open>What a plan delivers\<close>

primrec pushes :: "'v prog \<Rightarrow> 'v list" where
  "pushes (Ret v) = []"
| "pushes (Push v k) = v # pushes k"
| "pushes (Pop k) = []"

text \<open>What a segment makes of one element, and what a plan makes of its source: the meaning of an expression
  without threads and queues.\<close>

fun task_apply :: "'v task \<Rightarrow> 'v \<Rightarrow> 'v list" where
  "task_apply (Run_simple_function f) v = [f v]"
| "task_apply (Run_multi_out_function f) v = pushes (f v)"
| "task_apply t v = [v]"

fun apply_seg :: "'v pexpr \<Rightarrow> 'v \<Rightarrow> 'v list" where
  "apply_seg (Make f) v = task_apply f v"
| "apply_seg (Parallel e k) v = apply_seg e v"
| "apply_seg (Pipe a b) v = concat (map (apply_seg b) (apply_seg a v))"
| "apply_seg e v = [v]"

fun produced :: "'v task \<Rightarrow> 'v list" where
  "produced (Run_producer v) = [v]"
| "produced (Run_multi_out_producer p) = pushes p"
| "produced t = []"

fun source :: "(nat \<Rightarrow> 'v list) \<Rightarrow> 'v pexpr \<Rightarrow> 'v list" where
  "source U (From f) = produced f"
| "source U (From_queue q) = U q"
| "source U (Pipe a b) = concat (map (apply_seg b) (source U a))"
| "source U e = []"

lemma prog_weight_pushes:
  "only_pushes p \<Longrightarrow> prog_weight 0 g p = (\<Sum>v\<leftarrow>pushes p. g v)"
  by (induction p) auto

lemma sum_concat: "(\<Sum>v\<leftarrow>concat xss. g v) = (\<Sum>xs\<leftarrow>xss. \<Sum>v\<leftarrow>xs. g v)"
  by (induction xss) simp_all

lemma sem_apply:
  "typed e \<Longrightarrow> per_element e \<Longrightarrow> takes e \<Longrightarrow> sem 0 \<delta> e g v = (\<Sum>u\<leftarrow>apply_seg e v. (if gives e then g u else \<delta> u))"
proof (induction e arbitrary: g v)
  case (Make f)
  then show ?case by (cases f) (auto simp: prog_weight_pushes)
next
  case (To f)
  then show ?case by (cases f) auto
next
  case (Pipe a b)
  then have n: "\<not> (\<exists>q. a = From_queue q)" by auto
  have "sem 0 \<delta> b g = (\<lambda>x. \<Sum>u\<leftarrow>apply_seg b x. (if gives b then g u else \<delta> u))"
    using Pipe.IH(2) Pipe.prems by (intro ext) simp
  with n Pipe show ?case by (simp add: sum_concat comp_def)
qed auto

text \<open>The equations of the threads determine the weight of the queue a segment reads.\<close>

lemma sem_piped:
  assumes "impl ov a s1" and "impl None b s2" and "\<not> (can_merge_on_back s1 \<and> can_merge_on_front s2)"
  shows "sem \<kappa> \<delta> (Pipe a b) g = sem \<kappa> \<delta> a (sem \<kappa> \<delta> b g)"
proof -
  have "\<not> ((\<exists>q. a = From_queue q) \<and> leads b)"
  proof
    assume "(\<exists>q. a = From_queue q) \<and> leads b"
    then have "can_merge_on_back s1" "can_merge_on_front s2"
      using assms(1) impl_leads [OF assms(2)] by (auto elim: impl_from_queueE)
    with assms(3) show False by simp
  qed
  then show ?thesis by auto
qed

lemma flows_sem:
  "impl ov e s \<Longrightarrow> typed e \<Longrightarrow> per_element e \<Longrightarrow> run s out = Some ws \<Longrightarrow> \<forall>w \<in> set ws. flows \<kappa> \<delta> \<Gamma> w \<Longrightarrow>
     start_ok \<delta> e out g \<Gamma> \<Longrightarrow> gives e \<longrightarrow> out \<noteq> None \<Longrightarrow> entry s = Some q \<Longrightarrow> \<Gamma> q = sem \<kappa> \<delta> e g"
proof (induction arbitrary: out ws g q rule: impl.induct)
  case (make ov f r)
  then show ?case by (cases f) (auto simp: flows_def back_weight_def start_ok_def split: if_splits)
next
  case (from_queue r)
  then show ?case by (auto simp: flows_def back_weight_def start_ok_def fun_eq_iff)
next
  case (to f r)
  then show ?case by (cases f) (auto simp: flows_def back_weight_def)
next
  case (to_queue r)
  then show ?case by (simp add: start_ok_def)
next
  case (piped ov a s1 b s2)
  have ty: "typed a" "typed b" "gives a" "takes b" "per_element a" "per_element b" using piped.prems by auto
  from impl_entry [OF piped.hyps(2) ty(2)] ty(4) obtain m where m: "get_back s2 = Some (Some m)" "entry s2 = Some m" by auto
  then obtain ws1 ws2 where ws: "ws = ws1 @ ws2" "run s1 (Some m) = Some ws1" "run s2 out = Some ws2"
    using piped.prems(3) by (auto simp: bind_eq_Some_conv)
  have "\<Gamma> m = sem \<kappa> \<delta> b g"
    by (rule piped.IH(2) [OF ty(2,6) ws(3) _ _ _ m(2)]) (use piped.prems(4-6) ws(1) in \<open>auto simp: start_ok_def\<close>)
  moreover have "entry s1 = Some q" using piped.prems(7) entry_chain [OF piped.hyps(1)] by simp
  ultimately have "\<Gamma> q = sem \<kappa> \<delta> a (sem \<kappa> \<delta> b g)"
    using piped.IH(1) [OF ty(1,5) ws(2), of "sem \<kappa> \<delta> b g" q] piped.prems(4) ws(1) ty(3)
    by (simp add: start_ok_def)
  then show ?case by (simp only: sem_piped [OF piped.hyps])
next
  case (merged r b s2)
  have g: "get_back s2 = Some None" "entry s2 = Some r" using impl_entry [OF merged.hyps(1)] merged.prems(1) by auto
  then have r: "run s2 out = Some ws" using merged.prems(3) by (auto simp: bind_eq_Some_conv)
  have "leads b" using impl_leads [OF merged.hyps(1)] by simp
  then have "sem \<kappa> \<delta> (Pipe (From_queue r) b) g = sem \<kappa> \<delta> b g" by simp
  moreover have "\<Gamma> r = sem \<kappa> \<delta> b g"
    by (rule merged.IH [OF _ _ r merged.prems(4) _ _ g(2)]) (use merged.prems in \<open>auto simp: start_ok_def\<close>)
  moreover have "q = r" using merged.prems(7) g(2) by simp
  ultimately show ?case by simp
next
  case (parallel e s bs k oqs iq)
  from parallel.prems(3) parallel.hyps(2,3) obtain wss where
    w: "ws = concat wss @ [Worker (Run_out_queues oqs) None out]" "length wss = k"
    "\<And>i. i < k \<Longrightarrow> run (bs ! i) (Some (oqs ! i)) = Some (wss ! i)" by (rule run_parallel_bases) blast
  let ?e = "Pipe (From_queue iq) e"
  have ty: "typed ?e" "per_element ?e" "gives e" "0 < k" using parallel.prems by auto
  have b: "bs ! 0 \<in> set bs" using ty(4) parallel.hyps(2) by simp
  have fl: "\<forall>v \<in> set (wss ! 0). flows \<kappa> \<delta> \<Gamma> v" using parallel.prems(4) w(1,2) ty(4) by (auto simp: nth_mem)
  have h: "\<Gamma> (oqs ! 0) = hop \<kappa> g"
  proof -
    have "oqs ! 0 \<in> set oqs" using ty(4) parallel.hyps(3) by simp
    then show ?thesis
      using parallel.prems(4-6) w(1) ty(3) by (auto simp: flows_def back_weight_def start_ok_def fun_eq_iff)
  qed
  have "entry (bs ! 0) = Some iq" using impl_entry [OF parallel.hyps(4) [OF b] ty(1)] by simp
  with parallel.IH(2) [OF b ty(1,2) w(3) [OF ty(4)] fl, of "hop \<kappa> g" iq] h ty(3)
  have "\<Gamma> iq = sem \<kappa> \<delta> ?e (hop \<kappa> g)" by (simp add: start_ok_def)
  with parallel.prems(7) show ?case by (cases "leads e") simp_all
qed auto

lemma start_pending:
  assumes "worker_ok w" and "element_task (task_of w)"
  shows "pending 0 \<Gamma> w Thread_start = (\<Sum>v\<leftarrow>produced (task_of w). back_weight \<Gamma> w v)"
proof -
  obtain t f b where w: "w = Worker t f b" by (cases w)
  with assms w show ?thesis by (cases t) (auto simp: pending_def prog_weight_pushes)
qed

lemma no_producers:
  "impl ov e s \<Longrightarrow> typed e \<Longrightarrow> takes e \<or> src e \<noteq> None \<Longrightarrow> run s out = Some ws \<Longrightarrow> w \<in> set ws \<Longrightarrow> produced (task_of w) = []"
proof (induction arbitrary: out ws w rule: impl.induct)
  case (make ov f q)
  then show ?case by (cases f) auto
next
  case (to f q)
  then show ?case by (cases f) auto
next
  case (piped ov a s1 b s2)
  then obtain mid ws1 ws2 where "run s1 mid = Some ws1" "run s2 out = Some ws2" "w \<in> set ws1 \<or> w \<in> set ws2"
    by (auto simp: bind_eq_Some_conv)
  with piped show ?case by auto
next
  case (merged q b s2)
  then show ?case by (auto simp: bind_eq_Some_conv split: if_splits)
next
  case (parallel e s bs k oqs iq)
  from parallel.prems(3) parallel.hyps(2,3) obtain wss where
    w: "ws = concat wss @ [Worker (Run_out_queues oqs) None out]" "length wss = k"
    "\<And>i. i < k \<Longrightarrow> run (bs ! i) (Some (oqs ! i)) = Some (wss ! i)" by (rule run_parallel_bases) blast
  from w(1) parallel.prems(4) consider "w = Worker (Run_out_queues oqs) None out" | i where "i < k" "w \<in> set (wss ! i)"
    using w(2) by (auto simp: in_set_conv_nth [of _ wss])
  then show ?case
  proof cases
    case (2 i)
    then have "bs ! i \<in> set bs" using parallel.hyps(2) by simp
    from parallel.IH(2) [OF this _ _ w(3) [OF 2(1)] 2(2)] parallel.prems(1) show ?thesis by simp
  qed simp
qed auto

text \<open>What is in the plan at its start: the elements of its source, each with all that is made of it.\<close>

lemma start_sum:
  fixes \<Gamma> :: "nat \<Rightarrow> 'v \<Rightarrow> 'm::comm_monoid_add"
  shows "impl ov e s \<Longrightarrow> typed e \<Longrightarrow> per_element e \<Longrightarrow> run s out = Some ws \<Longrightarrow> \<forall>w \<in> set ws. flows 0 \<delta> \<Gamma> w \<Longrightarrow>
     start_ok \<delta> e out g \<Gamma> \<Longrightarrow> gives e \<longrightarrow> out \<noteq> None \<Longrightarrow> \<not> takes e \<Longrightarrow>
     (\<Sum>w\<leftarrow>ws. \<Sum>v\<leftarrow>produced (task_of w). back_weight \<Gamma> w v) +
     (case src e of None \<Rightarrow> 0 | Some q \<Rightarrow> \<Sum>v\<leftarrow>U q. \<Gamma> q v) =
     (\<Sum>u\<leftarrow>source U e. if gives e then g u else \<delta> u)"
proof (induction arbitrary: out ws g rule: impl.induct)
  case (frm f)
  then show ?case by (auto simp: back_weight_def start_ok_def)
next
  case (from_queue q)
  then have "\<Gamma> q = g" "ws = [Worker Run_queue (Some q) out]"
    by (auto simp: flows_def back_weight_def start_ok_def fun_eq_iff)
  then show ?case by simp
next
  case (piped ov a s1 b s2)
  have ty: "typed a" "typed b" "gives a" "takes b" "per_element a" "per_element b" "\<not> takes a" using piped.prems by auto
  from impl_entry [OF piped.hyps(2) ty(2)] ty(4) obtain m where m: "get_back s2 = Some (Some m)" "entry s2 = Some m" by auto
  then obtain ws1 ws2 where ws: "ws = ws1 @ ws2" "run s1 (Some m) = Some ws1" "run s2 out = Some ws2"
    using piped.prems(3) by (auto simp: bind_eq_Some_conv)
  have fl: "\<forall>w \<in> set ws1. flows 0 \<delta> \<Gamma> w" "\<forall>w \<in> set ws2. flows 0 \<delta> \<Gamma> w" using piped.prems(4) ws(1) by auto
  have sb: "start_ok \<delta> b out g \<Gamma>" using piped.prems(5) by (simp add: start_ok_def)
  have "\<Gamma> m = sem 0 \<delta> b g"
    using flows_sem [OF piped.hyps(2) ty(2,6) ws(3) fl(2) sb _ m(2)] piped.prems(6) by simp
  then have gm: "\<Gamma> m u = (\<Sum>v\<leftarrow>apply_seg b u. if gives b then g v else \<delta> v)" for u
    using sem_apply [OF ty(2,6,4)] by metis
  have 0: "(\<Sum>w\<leftarrow>ws2. \<Sum>v\<leftarrow>produced (task_of w). back_weight \<Gamma> w v) = 0"
  proof -
    have z: "map (\<lambda>w. \<Sum>v\<leftarrow>produced (task_of w). back_weight \<Gamma> w v) ws2 = map (\<lambda>w. 0) ws2"
      using no_producers [OF piped.hyps(2) ty(2) _ ws(3)] ty(4) by (intro map_cong) auto
    show ?thesis unfolding z by simp
  qed
  have "start_ok \<delta> a (Some m) (\<Gamma> m) \<Gamma>" using ty(3) by (simp add: start_ok_def)
  from piped.IH(1) [OF ty(1,5) ws(2) fl(1) this _ ty(7)] ty(3)
  have "(\<Sum>w\<leftarrow>ws1. \<Sum>v\<leftarrow>produced (task_of w). back_weight \<Gamma> w v) +
     (case src a of None \<Rightarrow> 0 | Some q \<Rightarrow> \<Sum>v\<leftarrow>U q. \<Gamma> q v) = (\<Sum>u\<leftarrow>source U a. \<Gamma> m u)" by simp
  then show ?case using 0 ws(1) by (simp add: gm sum_concat comp_def)
next
  case (merged q b s2)
  have g: "get_back s2 = Some None" "entry s2 = Some q" "takes b" using impl_entry [OF merged.hyps(1)] merged.prems(1) by auto
  then have r: "run s2 out = Some ws" using merged.prems(3) by (auto simp: bind_eq_Some_conv)
  have sb: "start_ok \<delta> b out g \<Gamma>" using merged.prems(5) by (simp add: start_ok_def)
  have ty: "typed b" "per_element b" using merged.prems(1,2) by auto
  have "\<Gamma> q = sem 0 \<delta> b g"
    using flows_sem [OF merged.hyps(1) ty r merged.prems(4) sb _ g(2)] merged.prems(6) by simp
  then have gm: "\<Gamma> q = (\<lambda>u. \<Sum>v\<leftarrow>apply_seg b u. if gives b then g v else \<delta> v)"
    using sem_apply [OF ty g(3), of \<delta> g] by (intro ext) simp
  have z: "map (\<lambda>w. \<Sum>v\<leftarrow>produced (task_of w). back_weight \<Gamma> w v) ws = map (\<lambda>w. 0) ws"
    using no_producers [OF merged.hyps(1) ty(1) _ r] g(3) by (intro map_cong) auto
  have "(\<Sum>w\<leftarrow>ws. \<Sum>v\<leftarrow>produced (task_of w). back_weight \<Gamma> w v) = 0" unfolding z by simp
  then show ?case by (simp add: gm sum_concat comp_def)
qed auto

section \<open>The plan\<close>

text \<open>Weights that fit a whole plan: what reaches the user's output queue counts as delivered.\<close>

definition user_weight :: "('v \<Rightarrow> 'm::comm_monoid_add) \<Rightarrow> 'v pexpr \<Rightarrow> nat \<Rightarrow> 'v \<Rightarrow> 'm" where
  "user_weight \<delta> e q = (if dst e = Some q then \<delta> else (\<lambda>_. 0))"

definition queues_of :: "'v pexpr \<Rightarrow> 'v worker list \<Rightarrow> nat set" where
  "queues_of e ws = (\<Union>w \<in> set ws. reads w \<union> set_option (back_of w)) \<union> set_option (src e) \<union> set_option (dst e)"

lemma finite_queues_of: "finite (queues_of e ws)"
proof -
  have "finite (reads w)" for w :: "'a worker" by (cases w; cases "task_of w") auto
  moreover have "finite (set_option (x :: nat option))" for x by (cases x) auto
  ultimately show ?thesis by (simp add: queues_of_def)
qed

lemma plan_weights:
  fixes \<kappa> :: "'m::comm_monoid_add"
  assumes "is_plan e" and "per_element e" and "user_ok e n U"
  obtains s ws out \<Gamma> where "impl None e s" and "run s (Some out) = Some ws" and "plan_workers e n = Some ws"
    and "\<forall>w \<in> set ws. worker_ok w \<and> element_task (task_of w)" and "fits \<kappa> \<delta> (user_weight \<delta> e) ws \<Gamma>"
    and "net_ok \<kappa> \<delta> \<Gamma> (queues_of e ws) ws" and "\<forall>q. dst e = Some q \<longrightarrow> (\<forall>w \<in> set ws. q \<notin> reads w)"
    and "\<forall>q \<in> queues_of e ws. n \<le> q \<or> src e = Some q \<or> dst e = Some q"
proof -
  have ty: "typed e" "\<not> takes e" "\<not> gives e" using assms(1) by (simp_all add: is_plan_def)
  from plan_segment [OF assms(1,3)] obtain s ws out where p: "impl None e s" "room e s (Some out)"
    "run s (Some out) = Some ws" "plan_workers e n = Some ws" "\<forall>w \<in> set ws. worker_ok w"
    "\<forall>q \<in> set (written ws). n \<le> q \<or> dst e = Some q" "\<forall>q \<in> set (qids s). n \<le> q" by metis
  have en: "entry s = src e" using impl_entry [OF p(1) ty(1)] ty(2) by simp
  have rd: "q \<in> set (qids s) \<or> src e = Some q" if "w \<in> set ws" "q \<in> reads w" for w q
    using run_reads [OF p(1) ty(1) p(3) that(1)] that(2) en by auto
  have cl: "clear e s (Some out)"
    using assms(3) p(7) ty(3) en by (fastforce simp: clear_def target_def user_ok_def)
  have "start_ok \<delta> e (Some out) (\<lambda>_. 0) (user_weight \<delta> e)" using ty(3) by (simp add: start_ok_def user_weight_def)
  from flow_impl [OF p(1) ty(1) assms(2) p(2) cl p(3) this, of \<kappa>] obtain \<Gamma>
    where \<Gamma>: "fits \<kappa> \<delta> (user_weight \<delta> e) ws \<Gamma>" by blast
  have el: "\<forall>w \<in> set ws. element_task (task_of w)" by (rule impl_element [OF p(1) assms(2) p(3)])
  show thesis
  proof (rule that [OF p(1,3,4) _ \<Gamma>])
    show "net_ok \<kappa> \<delta> \<Gamma> (queues_of e ws) ws"
      using \<Gamma> el finite_queues_of [of e ws] by (auto simp: net_ok_def fits_def queues_of_def)
    show "\<forall>q. dst e = Some q \<longrightarrow> (\<forall>w \<in> set ws. q \<notin> reads w)"
    proof (intro allI impI ballI notI)
      fix q w assume q: "dst e = Some q" "w \<in> set ws" "q \<in> reads w"
      have "q \<notin> set (qids s)" using p(2) q(1) by (auto simp: room_def)
      moreover have "src e \<noteq> Some q" using assms(3) q(1) by (auto simp: user_ok_def)
      ultimately show False using rd [OF q(2,3)] by simp
    qed
    show "\<forall>q \<in> queues_of e ws. n \<le> q \<or> src e = Some q \<or> dst e = Some q"
      using rd p(6,7) by (auto simp: queues_of_def in_written)
  qed (use p(5) el in simp)
qed

definition in_queue :: "nat option \<Rightarrow> 'v queues \<Rightarrow> 'v multiset" where
  "in_queue q Q = (case q of None \<Rightarrow> {#} | Some q \<Rightarrow> mset (bq_contents (Q q)))"

lemma sum_single: "(\<Sum>v\<leftarrow>vs. {#v#}) = mset vs"
  by (induction vs) simp_all

lemma queue_weight_dst:
  assumes "finite N" and "set_option (dst e) \<subseteq> N"
    and "\<And>q. q \<in> N \<Longrightarrow> dst e \<noteq> Some q \<Longrightarrow> (\<Sum>v\<leftarrow>bq_contents (Q q). \<Gamma> q v) = {#}"
    and "\<And>q. dst e = Some q \<Longrightarrow> \<Gamma> q = (\<lambda>v. {#v#})"
  shows "queue_weight \<Gamma> N Q = in_queue (dst e) Q"
proof (cases "dst e")
  case None
  with assms show ?thesis by (simp add: queue_weight_def in_queue_def)
next
  case (Some q)
  then have "queue_weight \<Gamma> N Q = (\<Sum>v\<leftarrow>bq_contents (Q q). \<Gamma> q v) + (\<Sum>r\<in>N - {q}. \<Sum>v\<leftarrow>bq_contents (Q r). \<Gamma> r v)"
    using assms(1,2) by (simp add: queue_weight_def sum.remove [of N q])
  moreover have "(\<Sum>r\<in>N - {q}. \<Sum>v\<leftarrow>bq_contents (Q r). \<Gamma> r v) = {#}" using assms(3) Some by (intro sum.neutral) auto
  ultimately show ?thesis using Some assms(4) by (simp add: in_queue_def sum_single)
qed

lemma queue_weight_split:
  assumes "finite N" and "q \<in> N"
  shows "queue_weight \<Gamma> N Q = (\<Sum>v\<leftarrow>bq_contents (Q q). \<Gamma> q v) + queue_weight (\<Gamma>(q := (\<lambda>_. 0))) N Q"
proof -
  have "(\<Sum>r\<in>N - {q}. \<Sum>v\<leftarrow>bq_contents (Q r). (\<Gamma>(q := (\<lambda>_. 0))) r v) = (\<Sum>r\<in>N - {q}. \<Sum>v\<leftarrow>bq_contents (Q r). \<Gamma> r v)"
    by (rule sum.cong) auto
  then show ?thesis using assms by (simp add: queue_weight_def sum.remove [of N q])
qed

lemma start_total:
  assumes e: "is_plan e" "per_element e" "user_ok e n U" "plan_init e n U d = Some s0"
    and p: "impl None e s" "run s (Some out) = Some ws" "plan_workers e n = Some ws"
    and wk: "\<forall>w \<in> set ws. worker_ok w \<and> element_task (task_of w)"
    and \<Gamma>: "fits 0 (\<lambda>v. {#v#}) (user_weight (\<lambda>v. {#v#}) e) ws \<Gamma>" "\<forall>q. dst e = Some q \<longrightarrow> (\<forall>w \<in> set ws. q \<notin> reads w)"
    and N: "\<forall>q \<in> queues_of e ws. n \<le> q \<or> src e = Some q \<or> dst e = Some q"
  shows "total 0 (\<lambda>v. {#v#}) \<Gamma> (queues_of e ws) s0 = mset (source (\<lambda>q. bq_contents (U q)) e) + in_queue (dst e) U"
proof -
  let ?N = "queues_of e ws" and ?Q = "queues s0"
  have ty: "typed e" "\<not> takes e" "\<not> gives e" using e(1) by (simp_all add: is_plan_def)
  have s0: "s0 = \<lparr>started = False, queues = (\<lambda>q. if q < n then U q else bq_alloc d 10),
      threads = map (\<lambda>w. (w, Thread_start)) ws, delivered = []\<rparr>" using e(4) p(3) by (simp add: plan_init_def)
  have gd: "\<Gamma> q = (\<lambda>v. {#v#})" if "dst e = Some q" for q
    using \<Gamma> that by (simp add: fits_def user_weight_def)
  have user: "?Q q = U q" if "src e = Some q \<or> dst e = Some q" for q using e(3) that by (auto simp: s0 user_ok_def)
  have own: "bq_contents (?Q q) = []" if "q \<in> ?N" "dst e \<noteq> Some q" "src e \<noteq> Some q" for q
    using N that bq_alloc_props [of 10 d] by (auto simp: s0)
  have fin: "finite ?N" "set_option (dst e) \<subseteq> ?N" "set_option (src e) \<subseteq> ?N"
    using finite_queues_of [of e ws] by (auto simp: queues_of_def)
  have iq: "in_queue (dst e) ?Q = in_queue (dst e) U" using user by (auto simp: in_queue_def split: option.splits)
  have qw: "queue_weight \<Gamma> ?N ?Q = (case src e of None \<Rightarrow> 0 | Some q \<Rightarrow> \<Sum>v\<leftarrow>bq_contents (U q). \<Gamma> q v) + in_queue (dst e) U"
  proof (cases "src e")
    case None
    then have "queue_weight \<Gamma> ?N ?Q = in_queue (dst e) ?Q"
      using own gd by (intro queue_weight_dst fin) auto
    with None iq show ?thesis by simp
  next
    case (Some q)
    then have q: "q \<in> ?N" "dst e \<noteq> Some q" using fin(3) e(3) by (auto simp: user_ok_def)
    have "queue_weight (\<Gamma>(q := (\<lambda>_. 0))) ?N ?Q = in_queue (dst e) ?Q"
      using own gd q(2) Some by (intro queue_weight_dst fin) auto
    with queue_weight_split [OF fin(1) q(1), of \<Gamma> ?Q] Some iq user show ?thesis by simp
  qed
  have "(\<Sum>(w, pc)\<leftarrow>threads s0. pending 0 \<Gamma> w pc) = (\<Sum>w\<leftarrow>ws. \<Sum>v\<leftarrow>produced (task_of w). back_weight \<Gamma> w v)"
    using wk start_pending by (auto simp: s0 comp_def intro!: arg_cong [of _ _ sum_list] map_cong)
  moreover have "(\<Sum>w\<leftarrow>ws. \<Sum>v\<leftarrow>produced (task_of w). back_weight \<Gamma> w v) +
      (case src e of None \<Rightarrow> 0 | Some q \<Rightarrow> \<Sum>v\<leftarrow>bq_contents (U q). \<Gamma> q v) = mset (source (\<lambda>q. bq_contents (U q)) e)"
    using start_sum [OF p(1) ty(1) e(2) p(2) _ _ _ ty(2), of "\<lambda>v. {#v#}" \<Gamma> "\<lambda>_. {#}" "\<lambda>q. bq_contents (U q)"] \<Gamma> gd ty(3)
    by (simp add: fits_def start_ok_def sum_single)
  moreover have "\<not> started s0" "delivered s0 = []" by (simp_all add: s0)
  ultimately show ?thesis by (simp add: total_def qw ac_simps)
qed

end
