(* ===== verification/Pipeline_Users.thy ===== *)
theory Pipeline_Users
  imports Pipeline_Results
begin

text \<open>
  A plan of \<open>include/pipeline.h\<close> together with its user, who pushes to the queue it reads, closes it, and pops
  from the queue it writes, at any time before, during and after \<open>run\<close> (as \<open>testing/pipeline_test.cc\<close> does). The
  properties of plans: no thread fails, a plan is not stuck but by its user, it ends, and what it delivers.
\<close>

section \<open>The user\<close>

text \<open>\<open>user_gave\<close> and \<open>user_got\<close> record what the user has pushed and popped, \<open>plan_steps\<close> how many steps the threads
  of the plan have made. A push that blocks is not a step.\<close>

record 'v session =
  plan_pipe :: "'v pipe"
  user_gave :: "'v list"
  user_got :: "'v list"
  plan_steps :: nat

inductive session_step :: "'v pexpr \<Rightarrow> 'v session \<Rightarrow> 'v session \<Rightarrow> bool" for e where
  plan_step: "pipe_step (plan_pipe x) s \<Longrightarrow>
     session_step e x (x\<lparr>plan_pipe := s, plan_steps := Suc (plan_steps x)\<rparr>)"
| user_push: "src e = Some q \<Longrightarrow> \<not> closed (queues (plan_pipe x) q) \<Longrightarrow>
     write_to (Some q) v (queues (plan_pipe x)) = Performs None Q \<Longrightarrow>
     session_step e x (x\<lparr>plan_pipe := (plan_pipe x)\<lparr>queues := Q\<rparr>, user_gave := user_gave x @ [v]\<rparr>)"
| user_close: "src e = Some q \<Longrightarrow>
     session_step e x (x\<lparr>plan_pipe := (plan_pipe x)\<lparr>queues :=
       (queues (plan_pipe x))(q := bq_close (queues (plan_pipe x) q))\<rparr>\<rparr>)"
| user_pop: "dst e = Some q \<Longrightarrow> read_from (Some q) (queues (plan_pipe x)) = Performs (Some v) Q \<Longrightarrow>
     session_step e x (x\<lparr>plan_pipe := (plan_pipe x)\<lparr>queues := Q\<rparr>, user_got := user_got x @ [v]\<rparr>)"

definition session_start :: "'v pipe \<Rightarrow> 'v session" where
  "session_start s = \<lparr>plan_pipe = s, user_gave = [], user_got = [], plan_steps = 0\<rparr>"

section \<open>What the user keeps\<close>

definition session_ok :: "'v pexpr \<Rightarrow> 'v worker list \<Rightarrow> 'v session \<Rightarrow> bool" where
  "session_ok e ws x \<longleftrightarrow> pipe_inv (plan_pipe x) \<and> map fst (threads (plan_pipe x)) = ws"

text \<open>No thread of the plan writes to the queue the plan reads.\<close>

definition unwritten :: "'v pexpr \<Rightarrow> 'v worker list \<Rightarrow> bool" where
  "unwritten e ws \<longleftrightarrow> (\<forall>q. src e = Some q \<longrightarrow> (\<forall>w \<in> set ws. back_of w \<noteq> Some q))"

lemma user_pushes:
  assumes "queues_ok Q" and "\<not> closed (Q q)" and "write_to (Some q) v Q = Performs None Q'"
  shows "length (bq_contents (Q q)) \<noteq> bq_capacity (Q q) \<and> Q' = Q(q := pushed v (Q q))"
  using assms write_to_eq [of Q q v] by (auto simp: queues_ok_def split: if_splits)

lemma user_pops:
  assumes "queues_ok Q" and "read_from (Some q) Q = Performs (Some v) Q'"
  shows "bq_contents (Q q) \<noteq> [] \<and> v = hd (bq_contents (Q q)) \<and> Q' = Q(q := popped (Q q))"
  using assms read_from_eq [of Q q] by (auto simp: queues_ok_def split: if_splits)

lemma pipe_inv_change:
  assumes "pipe_inv s" and "queue_change (queues s) Q"
  shows "pipe_inv (s\<lparr>queues := Q\<rparr>)"
  using assms thread_ok_other [OF _ _ assms(2)] queue_change_ok [OF assms(2)] by (fastforce simp: pipe_inv_def)

lemma pipe_inv_close:
  assumes "pipe_inv s" and "\<forall>w \<in> set (map fst (threads s)). back_of w \<noteq> Some q"
  shows "pipe_inv (s\<lparr>queues := (queues s)(q := bq_close (queues s q))\<rparr>)"
  using assms thread_ok_other_close [of "queues s" _ _ q] by (fastforce simp: pipe_inv_def queues_ok_def)

lemma session_step_ok:
  assumes "session_step e x x'" and "session_ok e ws x" and "unwritten e ws"
  shows "session_ok e ws x'"
  using assms(1)
proof cases
  case (plan_step s)
  with assms(2) show ?thesis by (simp add: session_ok_def pipe_step_inv pipe_step_threads)
next
  case (user_push q v Q)
  then have "queue_change (queues (plan_pipe x)) Q"
    using assms(2) user_pushes [of "queues (plan_pipe x)" q v Q] by (auto simp: session_ok_def pipe_inv_def pushed_change)
  with user_push assms(2) show ?thesis by (simp add: session_ok_def pipe_inv_change)
next
  case (user_close q)
  with assms(2,3) show ?thesis by (simp add: session_ok_def unwritten_def pipe_inv_close)
next
  case (user_pop q v Q)
  then have "queue_change (queues (plan_pipe x)) Q"
    using assms(2) user_pops [of "queues (plan_pipe x)" q v Q] by (auto simp: session_ok_def pipe_inv_def popped_change)
  with user_pop assms(2) show ?thesis by (simp add: session_ok_def pipe_inv_change)
qed

lemma session_init:
  assumes "is_plan e" and "user_ok e n U" and "plan_init e n U d = Some s0"
  obtains ws where "plan_workers e n = Some ws" and "unwritten e ws" and "session_ok e ws (session_start s0)"
proof -
  obtain ws where ws: "plan_workers e n = Some ws" "\<forall>q \<in> set (written ws). n \<le> q \<or> dst e = Some q"
    using plan_segment [OF assms(1,2)] by metis
  have "unwritten e ws"
    unfolding unwritten_def
  proof (intro allI impI ballI notI)
    fix q w assume q: "src e = Some q" "w \<in> set ws" "back_of w = Some q"
    then have "n \<le> q \<or> dst e = Some q" using ws(2) in_written by blast
    with q(1) assms(2) show False by (auto simp: user_ok_def)
  qed
  moreover have "session_ok e ws (session_start s0)"
    using plan_init_inv [OF assms] assms(3) ws(1) by (auto simp: session_ok_def session_start_def plan_init_def comp_def)
  ultimately show thesis using ws(1) that by blast
qed

lemma session_reachable_ok:
  assumes "(session_step e)\<^sup>*\<^sup>* x x'" and "session_ok e ws x" and "unwritten e ws"
  shows "session_ok e ws x'"
  using assms(1,2) by (induction rule: rtranclp_induct) (auto intro: session_step_ok [OF _ _ assms(3)])

section \<open>Weights\<close>

text \<open>What a push adds to the weight of a plan is the weight of the element in the queue the plan reads.\<close>

definition entry_weight :: "(nat \<Rightarrow> 'v \<Rightarrow> 'm::comm_monoid_add) \<Rightarrow> 'v pexpr \<Rightarrow> 'v \<Rightarrow> 'm" where
  "entry_weight \<Gamma> e v = (case src e of None \<Rightarrow> 0 | Some q \<Rightarrow> \<Gamma> q v)"

definition session_total :: "'m::comm_monoid_add \<Rightarrow> ('v \<Rightarrow> 'm) \<Rightarrow> (nat \<Rightarrow> 'v \<Rightarrow> 'm) \<Rightarrow> nat set \<Rightarrow> 'v session \<Rightarrow> 'm" where
  "session_total \<kappa> \<delta> \<Gamma> N x = (\<Sum>i\<leftarrow>[0..<plan_steps x]. \<kappa>) + total \<kappa> \<delta> \<Gamma> N (plan_pipe x) + (\<Sum>v\<leftarrow>user_got x. \<delta> v)"

lemma total_queues:
  "queue_weight \<Gamma> N Q = queue_weight \<Gamma> N (queues s) + c \<Longrightarrow> total \<kappa> \<delta> \<Gamma> N (s\<lparr>queues := Q\<rparr>) = total \<kappa> \<delta> \<Gamma> N s + c"
  "queue_weight \<Gamma> N (queues s) = queue_weight \<Gamma> N Q + c \<Longrightarrow> total \<kappa> \<delta> \<Gamma> N s = total \<kappa> \<delta> \<Gamma> N (s\<lparr>queues := Q\<rparr>) + c"
  by (simp_all add: total_def ac_simps)

lemma session_step_total:
  fixes \<kappa> :: "'m::comm_monoid_add"
  assumes "session_step e x x'" and ok: "session_ok e ws x" and net: "net_ok \<kappa> \<delta> \<Gamma> N ws"
    and N: "finite N" "set_option (src e) \<subseteq> N" "set_option (dst e) \<subseteq> N" and d: "\<And>q. dst e = Some q \<Longrightarrow> \<Gamma> q = \<delta>"
  shows "\<exists>vs. user_gave x' = user_gave x @ vs \<and>
    session_total \<kappa> \<delta> \<Gamma> N x' = session_total \<kappa> \<delta> \<Gamma> N x + (\<Sum>v\<leftarrow>vs. entry_weight \<Gamma> e v)"
  using assms(1)
proof cases
  case (plan_step s)
  then have "total \<kappa> \<delta> \<Gamma> N (plan_pipe x) = \<kappa> + total \<kappa> \<delta> \<Gamma> N s"
    using pipe_step_total [OF plan_step(2)] ok net by (simp add: session_ok_def)
  with plan_step show ?thesis by (simp add: session_total_def ac_simps)
next
  case (user_push q v Q)
  let ?Q = "queues (plan_pipe x)"
  have q: "queues_ok ?Q" using ok by (simp add: session_ok_def pipe_inv_def)
  from user_pushes [OF this user_push(3,4)] queue_weight_pushed [of N q ?Q \<Gamma> v] N q user_push(2)
  have "queue_weight \<Gamma> N Q = queue_weight \<Gamma> N ?Q + \<Gamma> q v" by (auto simp: queues_ok_def)
  from total_queues(1) [OF this, of \<kappa> \<delta>] user_push show ?thesis
    by (simp add: session_total_def entry_weight_def ac_simps)
next
  case (user_close q)
  then show ?thesis
    using total_queues(1) [of \<Gamma> N _ "plan_pipe x" 0 \<kappa> \<delta>] by (simp add: session_total_def queue_weight_closed)
next
  case (user_pop q v Q)
  let ?Q = "queues (plan_pipe x)"
  have q: "queues_ok ?Q" using ok by (simp add: session_ok_def pipe_inv_def)
  from user_pops [OF this user_pop(3)] queue_weight_popped [of N q ?Q \<Gamma>] N q user_pop(2) d
  have "queue_weight \<Gamma> N ?Q = queue_weight \<Gamma> N Q + \<delta> v" by (auto simp: queues_ok_def)
  from total_queues(2) [OF this, of \<kappa> \<delta>] user_pop show ?thesis by (simp add: session_total_def ac_simps)
qed

lemma session_reachable_total:
  fixes \<kappa> :: "'m::comm_monoid_add"
  assumes "(session_step e)\<^sup>*\<^sup>* (session_start s0) x" and "session_ok e ws (session_start s0)" and "unwritten e ws"
    and "net_ok \<kappa> \<delta> \<Gamma> N ws" and "finite N" "set_option (src e) \<subseteq> N" "set_option (dst e) \<subseteq> N"
    and "\<And>q. dst e = Some q \<Longrightarrow> \<Gamma> q = \<delta>"
  shows "session_total \<kappa> \<delta> \<Gamma> N x = total \<kappa> \<delta> \<Gamma> N s0 + (\<Sum>v\<leftarrow>user_gave x. entry_weight \<Gamma> e v)"
  using assms(1)
proof (induction rule: rtranclp_induct)
  case base
  then show ?case by (simp add: session_total_def session_start_def)
next
  case (step x x')
  have "session_ok e ws x" by (rule session_reachable_ok [OF step.hyps(1) assms(2,3)])
  from session_step_total [OF step.hyps(2) this assms(4-8)] step.IH show ?case by (auto simp: ac_simps)
qed

section \<open>The properties of plans\<close>

text \<open>C36. No thread of a plan ever uses a null queue, pushes to a closed queue or lets an exception escape,
  also with functions that read or write any number of elements. Assumed: the expression is a plan of the types of
  pipeline.h with at least one copy in each parallel segment; the user's functions are programs of finitely many
  reads and writes that neither throw themselves nor close the \<open>queue_back\<close> they are given, and elements are copied without
  an exception; the user's queues are well-formed buffer queues with room, the queue written is open at the start and is
  not the queue read; besides the plan only its user works on them, who pushes to, and closes, the queue
  read and pops from the queue written, at any time.\<close>

theorem pipeline_well_typed_runs:
  assumes "is_plan e" and "user_ok e n U"
  shows "\<exists>s0. plan_init e n U d = Some s0 \<and>
    (\<forall>x. (session_step e)\<^sup>*\<^sup>* (session_start s0) x \<longrightarrow> (\<forall>t \<in> set (threads (plan_pipe x)). snd t \<noteq> Crashed))"
proof -
  obtain ws where "plan_workers e n = Some ws" using plan_segment [OF assms] by metis
  then obtain s0 where s0: "plan_init e n U d = Some s0" by (auto simp: plan_init_def)
  obtain us where us: "unwritten e us" "session_ok e us (session_start s0)" by (rule session_init [OF assms s0])
  have "snd t \<noteq> Crashed" if "(session_step e)\<^sup>*\<^sup>* (session_start s0) x" "t \<in> set (threads (plan_pipe x))" for x t
    using session_reachable_ok [OF that(1) us(2,1)] pipe_inv_no_crash [OF _ that(2)] by (simp add: session_ok_def)
  with s0 show ?thesis by blast
qed

text \<open>C9. A plan cannot deadlock: as long as not all threads are done some step of the plan is possible, unless the plan
  waits for its user, because the queue it reads is open and empty or the queue it writes is open and full. It holds for
  every plan, however nested, whose functions work element by element (not \<open>run_multi_in_function\<close>,
  \<open>run_full_function\<close>, \<open>run_multi_in_consumer\<close>) and whose parallel segments give an output: a parallel segment of
  consumers is no plan here, and hangs (\<open>pipeline_parallel_sink_hangs\<close>). Assumed besides: the user's functions are finite programs
  that neither throw nor close their \<open>queue_back\<close>; the user's queues are well-formed, with room, distinct, the one written
  open at the start, and only the user works on them beside the plan, who pushes to and closes the one and pops from
  the other at any time. A blocked thread can go on as soon as its queue allows: that the queue wakes it
  then is shown in \<open>Buffer_Queue_Threads\<close>.\<close>

theorem pipeline_no_deadlock:
  assumes "is_plan e" and "per_element e" and "user_ok e n U" and "plan_init e n U d = Some s0"
    and "(session_step e)\<^sup>*\<^sup>* (session_start s0) x"
  shows "(\<exists>s'. pipe_step (plan_pipe x) s') \<or> all_done (plan_pipe x) \<or>
     (\<exists>q. src e = Some q \<and> is_dry (queues (plan_pipe x)) q) \<or> (\<exists>q. dst e = Some q \<and> is_full (queues (plan_pipe x)) q)"
proof -
  obtain ws where ws: "plan_workers e n = Some ws" "unwritten e ws" "session_ok e ws (session_start s0)"
    by (rule session_init [OF assms(1,3,4)])
  then have "session_ok e ws x" using session_reachable_ok [OF assms(5)] by blast
  with ws(1) show ?thesis using pipe_progress [OF assms(1-3)] by (simp add: session_ok_def)
qed

text \<open>C10. Every run of a plan ends: the number of steps of all its threads together has a bound fixed by the plan and the
  elements its user pushes, a constant and an amount for each element, so that the threads come to rest, done or waiting
  for the user, when the user pushes no more. It holds for plans whose functions work element by element (the others may
  be called for ever while their queue is open). Assumed: the expression is a plan of the types of pipeline.h; the
  user's functions are finite programs that neither throw nor close their \<open>queue_back\<close>; the user's queues are
  well-formed, with room, distinct, the one written open at the start, and only the user works on them beside the plan,
  who pushes to and closes the one and pops from the other at any time.\<close>

theorem pipeline_terminates:
  assumes "is_plan e" and "per_element e" and "user_ok e n U" and "plan_init e n U d = Some s0"
  shows "\<exists>B W. \<forall>x. (session_step e)\<^sup>*\<^sup>* (session_start s0) x \<longrightarrow> plan_steps x \<le> B + (\<Sum>v\<leftarrow>user_gave x. W v)"
proof -
  obtain us where us: "plan_workers e n = Some us" "unwritten e us" "session_ok e us (session_start s0)"
    by (rule session_init [OF assms(1,3,4)])
  let ?\<delta> = "\<lambda>_. 0 :: nat"
  obtain \<Gamma> where \<Gamma>: "fits 1 ?\<delta> (user_weight ?\<delta> e) us \<Gamma>" "net_ok 1 ?\<delta> \<Gamma> (queues_of e us) us"
    "\<forall>q. dst e = Some q \<longrightarrow> (\<forall>w \<in> set us. q \<notin> reads w)"
    using plan_weights [OF assms(1-3), of "1 :: nat" ?\<delta>] us(1) by (metis option.inject)
  have "\<Gamma> q = ?\<delta>" if "dst e = Some q" for q using \<Gamma>(1,3) that by (simp add: fits_def user_weight_def)
  moreover have "finite (queues_of e us)" "set_option (src e) \<subseteq> queues_of e us" "set_option (dst e) \<subseteq> queues_of e us"
    using finite_queues_of [of e us] by (auto simp: queues_of_def)
  ultimately have "session_total 1 ?\<delta> \<Gamma> (queues_of e us) x =
      total 1 ?\<delta> \<Gamma> (queues_of e us) s0 + (\<Sum>v\<leftarrow>user_gave x. entry_weight \<Gamma> e v)"
    if "(session_step e)\<^sup>*\<^sup>* (session_start s0) x" for x
    using session_reachable_total [OF that us(3,2) \<Gamma>(2)] by blast
  then have "plan_steps x \<le> total 1 ?\<delta> \<Gamma> (queues_of e us) s0 + (\<Sum>v\<leftarrow>user_gave x. entry_weight \<Gamma> e v)"
    if "(session_step e)\<^sup>*\<^sup>* (session_start s0) x" for x
    using that by (fastforce simp: session_total_def sum_list_triv)
  then show ?thesis by blast
qed

text \<open>What a user's push adds: all that the plan makes of the element.\<close>

lemma source_other: "(\<And>q. src e = Some q \<Longrightarrow> C q = D q) \<Longrightarrow> source C e = source D e"
  by (induction e) auto

lemma source_given:
  assumes "impl None e s" and "run s (Some out) = Some ws" and "typed e" "per_element e" "\<not> takes e" "\<not> gives e"
    and "\<forall>w \<in> set ws. flows 0 (\<lambda>v. {#v#}) \<Gamma> w" and "\<And>q. dst e = Some q \<Longrightarrow> \<Gamma> q = (\<lambda>v. {#v#})"
  shows "mset (source (\<lambda>q. C q @ vs) e) = mset (source C e) + (\<Sum>v\<leftarrow>vs. entry_weight \<Gamma> e v)"
proof (cases "src e")
  case None
  then have "source (\<lambda>q. C q @ vs) e = source C e" by (intro source_other) simp
  then show ?thesis by (simp add: entry_weight_def None)
next
  case (Some q)
  have st: "start_ok (\<lambda>v. {#v#}) e (Some out) (\<lambda>_. {#}) \<Gamma>" using assms(6,8) by (simp add: start_ok_def)
  note sum = start_sum [OF assms(1,3,4,2,7) st _ assms(5)]
  from sum [of "\<lambda>q. C q @ vs"] sum [of C] assms(6) Some show ?thesis
    by (simp add: sum_single entry_weight_def add.assoc [symmetric])
qed

text \<open>When all threads are done, nothing of weight is left in the plan.\<close>

lemma done_total:
  assumes "session_ok e ws x" and "all_done (plan_pipe x)" and "\<forall>w \<in> set ws. worker_ok w \<and> element_task (task_of w)"
    and "fits {#} (\<lambda>v. {#v#}) (user_weight (\<lambda>v. {#v#}) e) ws \<Gamma>" and "\<forall>q. dst e = Some q \<longrightarrow> (\<forall>w \<in> set ws. q \<notin> reads w)"
  shows "total {#} (\<lambda>v. {#v#}) \<Gamma> (queues_of e ws) (plan_pipe x) =
    mset (delivered (plan_pipe x)) + in_queue (dst e) (queues (plan_pipe x))"
proof -
  let ?\<delta> = "\<lambda>v. {#v#}" and ?N = "queues_of e ws"
  define s where "s = plan_pipe x"
  have inv: "pipe_inv s" "map fst (threads s) = ws" using assms(1) by (simp_all add: session_ok_def s_def)
  have fin: "all_done s" using assms(2) by (simp add: s_def)
  have fits: "\<Gamma> q = user_weight ?\<delta> e q" if "\<forall>w \<in> set ws. q \<notin> reads w" for q using assms(4) that unfolding fits_def by blast
  have gd: "\<Gamma> q = ?\<delta>" if "dst e = Some q" for q using fits [of q] assms(5) that by (simp add: user_weight_def)
  have "(\<Sum>v\<leftarrow>bq_contents (queues s q). \<Gamma> q v) = {#}" if "dst e \<noteq> Some q" for q
  proof (cases "\<exists>w \<in> set ws. q \<in> reads w")
    case True
    then obtain w where w: "w \<in> set ws" "q \<in> reads w" by blast
    with inv(2) obtain pc where "(w, pc) \<in> set (threads s)" by auto
    with fin inv(1) have "thread_ok (queues s) w Done" by (fastforce simp: all_done_def pipe_inv_def)
    from done_reads [OF this _ w(2)] assms(3) w(1) show ?thesis by simp
  next
    case False
    with fits [of q] that show ?thesis by (simp add: user_weight_def)
  qed
  then have "queue_weight \<Gamma> ?N (queues s) = in_queue (dst e) (queues s)"
    using gd finite_queues_of [of e ws] by (intro queue_weight_dst) (auto simp: queues_of_def)
  moreover have "(\<Sum>(w, pc)\<leftarrow>threads s. pending {#} \<Gamma> w pc) = {#}"
  proof -
    have z: "map (\<lambda>(w, pc). pending {#} \<Gamma> w pc) (threads s) = map (\<lambda>_. {#}) (threads s)"
      using fin by (intro map_cong) (auto simp: all_done_def pending_def)
    show ?thesis unfolding z by simp
  qed
  ultimately show ?thesis by (simp add: total_def sum_single s_def)
qed

text \<open>C3. What a plan delivers is what its functions make of its source: when all threads are done the elements given
  to the consumer, or the new ones in the user's output queue and those the user has popped from it, are exactly the
  elements of the source, those in the queue at the start and those the user pushed at any time, with
  every function applied, each as often as it occurs; nothing is lost or made twice on the way through the
  queues, the merged queues and the parallel copies, in whatever order the threads run. It holds for plans whose functions
  work element by element: those that take the whole queue can leave elements unread (\<open>pipeline_multi_in_drops\<close>).
  Assumed: the expression is a plan of the types of pipeline.h; the user's functions are finite programs that neither
  throw nor close their \<open>queue_back\<close>, elements are copied without an exception; the user's queues are well-formed, with
  room, distinct, the one written open at the start, and only the user works on them beside the plan, who pushes to
  and closes the one and pops from the other.\<close>

theorem pipeline_delivers:
  assumes "is_plan e" and "per_element e" and "user_ok e n U" and "plan_init e n U d = Some s0"
    and "(session_step e)\<^sup>*\<^sup>* (session_start s0) x" and "all_done (plan_pipe x)"
  shows "mset (delivered (plan_pipe x)) + mset (user_got x) + in_queue (dst e) (queues (plan_pipe x)) =
    mset (source (\<lambda>q. bq_contents (U q) @ user_gave x) e) + in_queue (dst e) U"
proof -
  let ?\<delta> = "\<lambda>v. {#v#}"
  obtain g ws out \<Gamma> where p: "impl None e g" "run g (Some out) = Some ws" "plan_workers e n = Some ws"
    "\<forall>w \<in> set ws. worker_ok w \<and> element_task (task_of w)" "fits {#} ?\<delta> (user_weight ?\<delta> e) ws \<Gamma>"
    "net_ok {#} ?\<delta> \<Gamma> (queues_of e ws) ws" "\<forall>q. dst e = Some q \<longrightarrow> (\<forall>w \<in> set ws. q \<notin> reads w)"
    "\<forall>q \<in> queues_of e ws. n \<le> q \<or> src e = Some q \<or> dst e = Some q"
    using plan_weights [OF assms(1-3), of "{#}" ?\<delta>] by metis
  obtain us where "plan_workers e n = Some us" "unwritten e us" "session_ok e us (session_start s0)"
    by (rule session_init [OF assms(1,3,4)])
  with p(3) have us: "unwritten e ws" "session_ok e ws (session_start s0)" by simp_all
  have gd: "\<Gamma> q = ?\<delta>" if "dst e = Some q" for q using p(5,7) that by (simp add: fits_def user_weight_def)
  have ok: "session_ok e ws x" by (rule session_reachable_ok [OF assms(5) us(2,1)])
  have "session_total {#} ?\<delta> \<Gamma> (queues_of e ws) x =
      total {#} ?\<delta> \<Gamma> (queues_of e ws) s0 + (\<Sum>v\<leftarrow>user_gave x. entry_weight \<Gamma> e v)"
    by (rule session_reachable_total [OF assms(5) us(2,1) p(6) finite_queues_of _ _ gd]) (auto simp: queues_of_def)
  moreover have "total {#} ?\<delta> \<Gamma> (queues_of e ws) s0 = mset (source (\<lambda>q. bq_contents (U q)) e) + in_queue (dst e) U"
    using start_total [OF assms(1-4) p(1-4) _ p(7,8)] p(5) by simp
  moreover have "mset (source (\<lambda>q. bq_contents (U q) @ user_gave x) e) =
      mset (source (\<lambda>q. bq_contents (U q)) e) + (\<Sum>v\<leftarrow>user_gave x. entry_weight \<Gamma> e v)"
    by (rule source_given [OF p(1,2) _ assms(2) _ _ _ gd]) (use assms(1) p(5) in \<open>auto simp: is_plan_def fits_def\<close>)
  ultimately show ?thesis
    using done_total [OF ok assms(6) p(4,5,7)] by (simp add: session_total_def sum_single ac_simps)
qed

end
