(* ===== verification/Pipeline_Examples.thy ===== *)
theory Pipeline_Examples
  imports Pipeline_Users
begin

text \<open>
  Concrete plans: instances of the theorems about plans, and three kinds of plan that C++ accepts and that do not
  work.
\<close>

section \<open>Schedules\<close>

definition thread_moves :: "nat \<Rightarrow> 'v pipe \<Rightarrow> 'v pipe option" where
  "thread_moves i s = (if i < length (threads s) then
     (case threads s ! i of (w, pc) \<Rightarrow>
       (case thread_step (started s) w pc (queues s) of None \<Rightarrow> None
        | Some (pc', Q, vs) \<Rightarrow> Some (s\<lparr>queues := Q, threads := (threads s)[i := (w, pc')], delivered := delivered s @ vs\<rparr>)))
     else None)"

fun schedule :: "nat list \<Rightarrow> 'v pipe \<Rightarrow> 'v pipe option" where
  "schedule [] s = Some s"
| "schedule (i # is) s = Option.bind (thread_moves i s) (schedule is)"

lemma thread_moves_step: "thread_moves i s = Some s' \<Longrightarrow> pipe_step s s'"
  by (auto simp: thread_moves_def split: if_splits prod.splits option.splits intro: pipe_step.thread)

lemma schedule_steps: "schedule is s = Some s' \<Longrightarrow> pipe_step\<^sup>*\<^sup>* s s'"
proof (induction "is" arbitrary: s)
  case (Cons i "is")
  then obtain t where "thread_moves i s = Some t" "schedule is t = Some s'" by (auto simp: bind_eq_Some_conv)
  with Cons.IH thread_moves_step show ?case by (meson converse_rtranclp_into_rtranclp)
qed simp

text \<open>A plan is run by counting \<open>start_\<close> down and then moving the threads in the given order.\<close>

definition plan_run :: "nat pexpr \<Rightarrow> nat \<Rightarrow> nat queues \<Rightarrow> nat list \<Rightarrow> nat pipe option" where
  "plan_run e n U is = Option.bind (plan_init e n U 0) (\<lambda>s. schedule is (s\<lparr>started := True\<rparr>))"

lemma plan_run_steps:
  assumes "plan_run e n U is = Some s"
  shows "\<exists>s0. plan_init e n U 0 = Some s0 \<and> pipe_step\<^sup>*\<^sup>* s0 s"
proof -
  obtain s0 where s0: "plan_init e n U 0 = Some s0" "schedule is (s0\<lparr>started := True\<rparr>) = Some s"
    using assms by (auto simp: plan_run_def bind_eq_Some_conv)
  have "\<not> started s0" using s0(1) by (auto simp: plan_init_def)
  then have "pipe_step s0 (s0\<lparr>started := True\<rparr>)" by (rule pipe_step.count_down)
  with s0 schedule_steps show ?thesis by (meson converse_rtranclp_into_rtranclp)
qed

section \<open>A producer, two parallel copies of a function, a consumer\<close>

definition sample_plan :: "nat pexpr" where
  "sample_plan = Pipe (Pipe (From (Run_multi_out_producer (Push 1 (Push 2 (Ret 0)))))
     (Parallel (Make (Run_simple_function Suc)) 2)) (To Run_consumer)"

definition sample_order :: "nat list" where
  "sample_order = [0, 0, 0, 0, 0, 2, 2, 1, 1, 2, 1, 3, 3, 3, 2, 2, 1, 1, 3, 3, 3, 3, 3, 3, 4, 4, 4, 4]"

definition pc_done :: "'v pc \<Rightarrow> bool" where
  "pc_done pc = (case pc of Done \<Rightarrow> True | _ \<Rightarrow> False)"

abbreviation no_queues :: "nat queues" where
  "no_queues \<equiv> (\<lambda>_. bq_alloc 0 10)"

lemma pc_done_iff: "pc_done pc \<longleftrightarrow> pc = Done"
  by (simp add: pc_done_def split: pc.splits)

lemma done_list: "list_all (\<lambda>t. pc_done (snd t)) (threads s) \<longleftrightarrow> all_done s"
  by (auto simp: all_done_def list_all_iff pc_done_iff)

lemma sample_runs:
  "case plan_run sample_plan 0 no_queues sample_order of None \<Rightarrow> False
   | Some s \<Rightarrow> list_all (\<lambda>t. pc_done (snd t)) (threads s) \<and> delivered s = [3, 2]"
  by code_simp

lemma sample_ok: "is_plan sample_plan" "per_element sample_plan" "user_ok sample_plan 0 U"
  by (simp_all add: is_plan_def sample_plan_def user_ok_def)

lemma sample_run:
  obtains s0 s where "plan_init sample_plan 0 no_queues 0 = Some s0" and "pipe_step\<^sup>*\<^sup>* s0 s"
    and "all_done s" and "delivered s = [3, 2]"
proof -
  from sample_runs obtain s where "plan_run sample_plan 0 no_queues sample_order = Some s" "all_done s" "delivered s = [3, 2]"
    by (auto simp: done_list split: option.splits)
  with plan_run_steps that show thesis by metis
qed

section \<open>A queue of the user, two parallel copies of a function, a queue of the user\<close>

text \<open>As in \<open>testing/pipeline_test.cc\<close>: the user pushes after \<open>run\<close>, closes the queue, and pops from the other one.\<close>

datatype session_move = Go_start | Go_thread nat | Go_give nat | Go_shut | Go_fetch

definition session_moves :: "nat pexpr \<Rightarrow> session_move \<Rightarrow> nat session \<Rightarrow> nat session option" where
  "session_moves e m x = (case m of
      Go_start \<Rightarrow> if started (plan_pipe x) then None
        else Some (x\<lparr>plan_pipe := (plan_pipe x)\<lparr>started := True\<rparr>, plan_steps := Suc (plan_steps x)\<rparr>)
    | Go_thread i \<Rightarrow> map_option (\<lambda>s. x\<lparr>plan_pipe := s, plan_steps := Suc (plan_steps x)\<rparr>) (thread_moves i (plan_pipe x))
    | Go_give v \<Rightarrow> (case src e of None \<Rightarrow> None
        | Some q \<Rightarrow> if closed (queues (plan_pipe x) q) then None
            else (case write_to (Some q) v (queues (plan_pipe x)) of
                Performs None Q \<Rightarrow> Some (x\<lparr>plan_pipe := (plan_pipe x)\<lparr>queues := Q\<rparr>, user_gave := user_gave x @ [v]\<rparr>)
              | _ \<Rightarrow> None))
    | Go_shut \<Rightarrow> (case src e of None \<Rightarrow> None
        | Some q \<Rightarrow> Some (x\<lparr>plan_pipe := (plan_pipe x)\<lparr>queues :=
            (queues (plan_pipe x))(q := bq_close (queues (plan_pipe x) q))\<rparr>\<rparr>))
    | Go_fetch \<Rightarrow> (case dst e of None \<Rightarrow> None
        | Some q \<Rightarrow> (case read_from (Some q) (queues (plan_pipe x)) of
                Performs (Some v) Q \<Rightarrow> Some (x\<lparr>plan_pipe := (plan_pipe x)\<lparr>queues := Q\<rparr>, user_got := user_got x @ [v]\<rparr>)
              | _ \<Rightarrow> None)))"

fun session_run :: "nat pexpr \<Rightarrow> session_move list \<Rightarrow> nat session \<Rightarrow> nat session option" where
  "session_run e [] x = Some x"
| "session_run e (m # ms) x = Option.bind (session_moves e m x) (session_run e ms)"

lemma session_moves_step: "session_moves e m x = Some x' \<Longrightarrow> session_step e x x'"
  by (cases m) (auto simp: session_moves_def split: if_splits option.splits io.splits
      intro: session_step.intros pipe_step.count_down thread_moves_step)

lemma session_run_steps: "session_run e ms x = Some x' \<Longrightarrow> (session_step e)\<^sup>*\<^sup>* x x'"
proof (induction ms arbitrary: x)
  case (Cons m ms)
  then obtain y where "session_moves e m x = Some y" "session_run e ms y = Some x'" by (auto simp: bind_eq_Some_conv)
  with Cons.IH session_moves_step show ?case by (meson converse_rtranclp_into_rtranclp)
qed simp

definition served_plan :: "nat pexpr" where
  "served_plan = Pipe (Pipe (From_queue 0) (Parallel (Make (Run_simple_function Suc)) 2)) (To_queue 1)"

definition served_order :: "session_move list" where
  "served_order = [Go_start, Go_give 4, Go_give 6] @ map Go_thread [0, 1, 2, 3, 0, 0, 1, 0, 1, 3, 0, 1, 3] @ [Go_fetch, Go_shut] @
     map Go_thread [0, 1, 3, 0, 1, 2, 3, 1, 2, 3, 3, 3, 3]"

lemma served_runs:
  "case plan_init served_plan 2 no_queues 0 of None \<Rightarrow> False
   | Some s0 \<Rightarrow> (case session_run served_plan served_order (session_start s0) of None \<Rightarrow> False
     | Some x \<Rightarrow> list_all (\<lambda>t. pc_done (snd t)) (threads (plan_pipe x)) \<and> user_gave x = [4, 6] \<and> user_got x = [5] \<and>
         delivered (plan_pipe x) = [] \<and> bq_contents (queues (plan_pipe x) 1) = [7])"
  by code_simp

lemma served_ok: "is_plan served_plan" "per_element served_plan" "user_ok served_plan 2 no_queues"
  using bq_alloc_props [of 10 "0 :: nat"] by (auto simp: is_plan_def served_plan_def user_ok_def)

lemma served_run:
  obtains s0 x where "plan_init served_plan 2 no_queues 0 = Some s0" and "(session_step served_plan)\<^sup>*\<^sup>* (session_start s0) x"
    and "all_done (plan_pipe x)" and "user_gave x = [4, 6]" and "user_got x = [5]" and "delivered (plan_pipe x) = []"
    and "bq_contents (queues (plan_pipe x) 1) = [7]"
  using served_runs session_run_steps by (fastforce simp: done_list split: option.splits)

theorem pipeline_delivers_witness:
  "\<exists>s0 x. plan_init served_plan 2 no_queues 0 = Some s0 \<and> (session_step served_plan)\<^sup>*\<^sup>* (session_start s0) x \<and>
     user_gave x = [4, 6] \<and> user_got x = [5] \<and> {#5#} + mset (bq_contents (queues (plan_pipe x) 1)) = {#5, 7#}"
proof -
  obtain s0 x where x: "plan_init served_plan 2 no_queues 0 = Some s0" "(session_step served_plan)\<^sup>*\<^sup>* (session_start s0) x"
    "all_done (plan_pipe x)" "user_gave x = [4, 6]" "user_got x = [5]" "delivered (plan_pipe x) = []"
    by (rule served_run)
  have "bq_contents (bq_alloc (0 :: nat) 10) = []" using bq_alloc_props [of 10 "0 :: nat"] by simp
  then have "{#5#} + mset (bq_contents (queues (plan_pipe x) 1)) = {#5, 7#}"
    using pipeline_delivers [OF served_ok x(1-3)] x(4-6) by (simp add: in_queue_def served_plan_def)
  with x show ?thesis by blast
qed

theorem pipeline_terminates_witness:
  "\<exists>s0 B W. plan_init served_plan 2 no_queues 0 = Some s0 \<and>
     (\<forall>x. (session_step served_plan)\<^sup>*\<^sup>* (session_start s0) x \<longrightarrow> plan_steps x \<le> B + (\<Sum>v\<leftarrow>user_gave x. W v))"
proof -
  obtain s0 where s0: "plan_init served_plan 2 no_queues 0 = Some s0" by (rule served_run)
  with pipeline_terminates [OF served_ok s0] show ?thesis by blast
qed

theorem pipeline_no_deadlock_witness:
  "\<exists>s0. plan_init sample_plan 0 no_queues 0 = Some s0 \<and> (\<forall>x. (session_step sample_plan)\<^sup>*\<^sup>* (session_start s0) x \<longrightarrow>
     (\<exists>s'. pipe_step (plan_pipe x) s') \<or> all_done (plan_pipe x))"
proof -
  obtain s0 where s0: "plan_init sample_plan 0 no_queues 0 = Some s0" by (rule sample_run)
  have "src sample_plan = None" "dst sample_plan = None" by (simp_all add: sample_plan_def)
  with pipeline_no_deadlock [OF sample_ok s0] have "(\<exists>s'. pipe_step (plan_pipe x) s') \<or> all_done (plan_pipe x)"
    if "(session_step sample_plan)\<^sup>*\<^sup>* (session_start s0) x" for x using that by auto
  with s0 show ?thesis by blast
qed

theorem pipeline_well_typed_runs_witness:
  "\<exists>s0 x. plan_init served_plan 2 no_queues 0 = Some s0 \<and> (session_step served_plan)\<^sup>*\<^sup>* (session_start s0) x \<and>
     user_got x = [5] \<and> (\<forall>t \<in> set (threads (plan_pipe x)). snd t \<noteq> Crashed)"
proof -
  obtain s0 x where x: "plan_init served_plan 2 no_queues 0 = Some s0" "(session_step served_plan)\<^sup>*\<^sup>* (session_start s0) x"
    "user_got x = [5]" by (rule served_run)
  with pipeline_well_typed_runs [OF served_ok(1,3), of 0] show ?thesis by fastforce
qed

section \<open>Plans that do not work\<close>

text \<open>A function that reads the queue itself is called only while the queue is not closed.\<close>

definition multi_in_plan :: "nat pexpr" where
  "multi_in_plan = Pipe (Pipe (From_queue 0)
     (Make (Run_multi_in_function (Pop (\<lambda>r. Ret (case r of None \<Rightarrow> 0 | Some v \<Rightarrow> v)))))) (To Run_consumer)"

definition closed_input :: "nat queues" where
  "closed_input = (\<lambda>_. bq_close (pushed 8 (pushed 7 (bq_alloc 0 10))))"

lemma multi_in_runs:
  "case plan_run multi_in_plan 1 closed_input [0, 0, 0, 1, 1] of None \<Rightarrow> False
   | Some s \<Rightarrow> list_all (\<lambda>t. pc_done (snd t)) (threads s) \<and> delivered s = [] \<and> bq_contents (queues s 0) = [7, 8]"
  by code_simp

text \<open>A function that takes the whole input queue (\<open>run_multi_in_function\<close>) drops what is left in a closed queue: here
  the user has pushed two elements and closed the queue, the plan ends normally, and neither element was read.\<close>

theorem pipeline_multi_in_drops:
  "\<exists>s0 s. plan_init multi_in_plan 1 closed_input 0 = Some s0 \<and> pipe_step\<^sup>*\<^sup>* s0 s \<and> all_done s \<and>
     bq_contents (closed_input 0) = [7, 8] \<and> delivered s = [] \<and> bq_contents (queues s 0) = [7, 8]"
proof -
  have "bq_contents (closed_input 0) = [7, 8]" by code_simp
  with multi_in_runs plan_run_steps show ?thesis by (fastforce simp: done_list split: option.splits)
qed

text \<open>A parallel segment of consumers: C++ accepts it, its output being of type \<open>terminated\<close>.\<close>

definition parallel_sink :: "nat pexpr" where
  "parallel_sink = Pipe (From (Run_producer 5)) (Parallel (To Run_consumer) 1)"

definition cannot_move :: "'v pipe \<Rightarrow> bool" where
  "cannot_move s \<longleftrightarrow> started s \<and> list_all (\<lambda>(w, pc). Option.is_none (thread_step True w pc (queues s))) (threads s)"

lemma cannot_move: "cannot_move s \<Longrightarrow> \<not> pipe_step s s'"
  by (auto simp: cannot_move_def list_all_iff elim!: pipe_step.cases) (metis Option.is_none_simps(2) case_prodD nth_mem)

lemma parallel_sink_runs:
  "case plan_run parallel_sink 0 no_queues [0, 0, 0, 1, 1, 1, 1, 1, 2, 2, 2, 3] of None \<Rightarrow> False
   | Some s \<Rightarrow> cannot_move s \<and> \<not> list_all (\<lambda>t. pc_done (snd t)) (threads s) \<and> delivered s = [5]"
  by code_simp

text \<open>A parallel segment of consumers never ends: no consumer closes the output queue the segment made for it, the
  thread that collects the outputs waits for the first of them for ever, and so does \<open>wait()\<close>, although
  everything has been consumed.\<close>

theorem pipeline_parallel_sink_hangs:
  "\<exists>s0 s. plan_init parallel_sink 0 no_queues 0 = Some s0 \<and> pipe_step\<^sup>*\<^sup>* s0 s \<and> delivered s = [5] \<and>
     \<not> all_done s \<and> (\<nexists>s'. pipe_step s s')"
  using parallel_sink_runs plan_run_steps cannot_move by (fastforce simp: done_list split: option.splits)

text \<open>Two plans chained, a consumer before a producer: \<open>get_back\<close> of the producer throws outside a handler.\<close>

lemma plan_of_plans_ends_program:
  "plan_workers (Pipe (Pipe (From f) (To g)) (Pipe (From f') (To g'))) n = None"
  by (simp add: plan_workers_def mk_chain_def)

end
