(* ===== verification/Pipeline_Instance.thy ===== *)
theory Pipeline_Instance
  imports Pipeline_Build Thread_Pool
begin

text \<open>
  \<open>include/pipeline.h\<close>, the start of a plan on a \<open>simple_thread_pool\<close>: the constructor of \<open>__instance\<close> hands every
  worker to a thread of the pool and counts it; \<open>execute\<close> uses the thread without a test for null. No part of
  \<open>pipeline.h\<close> gives a thread back to the pool.
\<close>

text \<open>\<open>execute\<close>: \<open>None\<close> when \<open>try_get_unused_thread\<close> returns null, which is then dereferenced; \<open>new\<close> is the
  address of a thread made now. The list holds the threads with the functions they run, \<open>num_threads_\<close> is its
  length.\<close>

type_synonym 'v launched = "thread_pool \<times> (nat \<times> 'v worker) list"

definition instance_execute :: "nat \<Rightarrow> 'v worker \<Rightarrow> 'v launched \<Rightarrow> 'v launched option" where
  "instance_execute new w l = (case try_get_unused_thread new (fst l) of
      (None, p) \<Rightarrow> None
    | (Some t, p) \<Rightarrow> Some (p, snd l @ [(t, w)]))"

fun launch :: "(nat \<Rightarrow> nat) \<Rightarrow> 'v worker list \<Rightarrow> 'v launched \<Rightarrow> 'v launched option" where
  "launch new [] l = Some l"
| "launch new (w # ws) l = Option.bind (instance_execute (new (length ws)) w l) (launch new ws)"

text \<open>\<open>plan::run\<close> on a pool; the barrier is made with \<open>num_threads_\<close>, which must not be 0.\<close>

definition plan_launch :: "'v pexpr \<Rightarrow> nat \<Rightarrow> (nat \<Rightarrow> nat) \<Rightarrow> thread_pool \<Rightarrow> 'v launched option" where
  "plan_launch e n new p = Option.bind (plan_workers e n) (\<lambda>ws. launch new ws (p, []))"

lemma launch_lends:
  "pool_ok p \<Longrightarrow> new_addresses new (length ws) p \<Longrightarrow>
     (if length ws \<le> lendable p
      then \<exists>p' ts. launch new ws (p, l) = Some (p', l @ zip ts ws) \<and> length ts = length ws \<and> distinct ts \<and>
        set ts \<inter> active_threads p = {} \<and> active_threads p' = active_threads p \<union> set ts \<and>
        lendable p' + length ws = lendable p \<and> pool_ok p'
      else launch new ws (p, l) = None)"
proof (induction ws arbitrary: p l)
  case (Cons w ws)
  let ?new = "new (length ws)"
  have fresh: "?new \<notin> active_threads p \<union> unused_threads p" using Cons.prems(2) by (auto simp: new_addresses_def)
  show ?case
  proof (cases "try_get_unused_thread ?new p")
    case (Pair r p')
    show ?thesis
    proof (cases r)
      case None
      with Pair get_unused_lendable(1) [OF Cons.prems(1) fresh] show ?thesis by (simp add: instance_execute_def)
    next
      case (Some t)
      note g = Pair [unfolded Some]
      note t = get_unused_takes [OF Cons.prems(1) fresh g] get_unused_lendable(2) [OF Cons.prems(1) fresh g]
      have "new_addresses new (length ws) p'"
        using new_addresses_step [of new "length ws" p p'] t(4) Cons.prems(2) by simp
      note ih = Cons.IH [OF t(1) this, of "l @ [(t, w)]"]
      show ?thesis
      proof (cases "length ws \<le> lendable p'")
        case True
        with ih obtain p'' ts where "launch new ws (p', l @ [(t, w)]) = Some (p'', (l @ [(t, w)]) @ zip ts ws)"
          "length ts = length ws" "distinct ts" "set ts \<inter> active_threads p' = {}"
          "active_threads p'' = active_threads p' \<union> set ts" "lendable p'' + length ws = lendable p'" "pool_ok p''"
          by auto
        moreover have le: "length (w # ws) \<le> lendable p" using True t(5) by simp
        ultimately have "launch new (w # ws) (p, l) = Some (p'', l @ zip (t # ts) (w # ws))"
          "length (t # ts) = length (w # ws)" "distinct (t # ts)" "set (t # ts) \<inter> active_threads p = {}"
          "active_threads p'' = active_threads p \<union> set (t # ts)" "lendable p'' + length (w # ws) = lendable p"
          using True g t(2,3,5) by (auto simp: instance_execute_def)
        with \<open>pool_ok p''\<close> show ?thesis unfolding if_P [OF le] by (intro exI conjI)
      next
        case False
        with ih g t(5) show ?thesis by (simp add: instance_execute_def)
      qed
    qed
  qed
qed simp

text \<open>A plan runs on a pool exactly when the pool can lend as many threads as the plan has workers: then every worker
  gets a thread of its own that nobody else has, and these threads are lent for ever, so that the pool can lend
  that many less to the next plan; otherwise a null pointer is used.\<close>

theorem pipeline_launch:
  assumes "plan_workers e n = Some ws" and "pool_ok p" and "new_addresses new (length ws) p"
  shows "if length ws \<le> lendable p
     then \<exists>p' ts. plan_launch e n new p = Some (p', zip ts ws) \<and> length ts = length ws \<and> distinct ts \<and>
       set ts \<inter> active_threads p = {} \<and> active_threads p' = active_threads p \<union> set ts \<and>
       lendable p' + length ws = lendable p
     else plan_launch e n new p = None"
  using launch_lends [OF assms(2,3), of "[]"] assms(1) by (auto simp: plan_launch_def split: if_splits)

text \<open>A plan with two threads on a pool that may have three: the first run works, the second uses a null pointer.\<close>

definition two_threads :: "nat pexpr" where
  "two_threads = Pipe (From (Run_producer 5)) (To Run_consumer)"

definition small_pool :: thread_pool where
  "small_pool = thread_pool_bounded 0 3 (\<lambda>_. 0)"

lemma two_threads_workers:
  "plan_workers two_threads 0 = Some [Worker (Run_producer 5) None (Some 2), Worker Run_consumer (Some 2) None]"
  by (simp add: plan_workers_def two_threads_def mk_chain_def)

theorem pipeline_launch_witness:
  "\<exists>p. plan_launch two_threads 0 Suc small_pool = Some (p, [(2, Worker (Run_producer 5) None (Some 2)), (1, Worker Run_consumer (Some 2) None)]) \<and>
     plan_launch two_threads 0 (\<lambda>i. i + 3) p = None"
proof -
  let ?ws = "[Worker (Run_producer 5) None (Some 2), Worker Run_consumer (Some 2) None]"
  obtain p where p: "plan_launch two_threads 0 Suc small_pool = Some (p, zip [2, 1] ?ws)"
    "p = \<lparr>pool_shutting_down = False, active_threads = {1, 2}, unused_threads = {}, min_threads = 0, max_threads = 3\<rparr>"
    by (simp add: plan_launch_def two_threads_workers instance_execute_def small_pool_def thread_pool_bounded_def
        try_get_unused_thread_def numeral_2_eq_2)
  have "pool_ok p" "new_addresses (\<lambda>i. i + 3) (length ?ws) p" "lendable p = 1"
    by (auto simp: p(2) pool_ok_def new_addresses_def lendable_def inj_on_def)
  with pipeline_launch [OF two_threads_workers, of p "\<lambda>i. i + 3"] have "plan_launch two_threads 0 (\<lambda>i. i + 3) p = None" by simp
  with p(1) show ?thesis by auto
qed

end
