(* ===== verification/Map_Reduce_Loops.thy ===== *)
theory Map_Reduce_Loops
  imports Buffer_Queue Latch "HOL-Library.Multiset"
begin

text \<open>
  \<open>include/map_reduce_impl.h\<close>: the loops of \<open>mapper_helper\<close> and \<open>reducer_helper\<close>. They differ in the exceptions
  they catch and in what they do with a value; both run over a \<open>queue_front_iter\<close>, which holds the value it
  has popped already. A step of a thread is one pop, the work on one value, or the count down of the latch;
  the queue is the one of \<open>Buffer_Queue\<close>, the iterator the one of \<open>Queue_Base\<close>, and the elements can be
  copied without an exception.
\<close>

datatype 'a spot = Loop_test | Working 'a | Breaking | Counted | Aborted

record ('a, 'b) helper =
  iter :: "'a front_iter"
  spot :: "'a spot"
  taken :: "'a list"
  emitted :: "'b list"

record ('a, 'b) stage =
  inputs :: "'a buffer_queue memory"
  helpers :: "('a, 'b) helper list"
  done_latch :: "32 word"

text \<open>\<open>catch (...)\<close> and \<open>catch (closed_error)\<close>; what is not caught ends the program.\<close>

definition mapper_catches :: "cpp_exn \<Rightarrow> bool" where
  "mapper_catches e = True"

definition reducer_catches :: "cpp_exn \<Rightarrow> bool" where
  "reducer_catches e = (case e of Closed_error s \<Rightarrow> True | _ \<Rightarrow> False)"

definition helper_new :: "'a front_iter \<Rightarrow> ('a, 'b) helper" where
  "helper_new it = \<lparr>iter = it, spot = Loop_test, taken = [], emitted = []\<rparr>"

text \<open>\<open>*(iter++)\<close> copies the value and then pops the next one. \<open>body\<close> is \<open>start\<close>, the splitter and \<open>flush\<close>: what
  it emits, and the exception that ends it. A value that was never assigned is \<open>d\<close>.\<close>

definition helper_step :: "(cpp_exn \<Rightarrow> bool) \<Rightarrow> ('a \<Rightarrow> 'b list \<times> cpp_exn option) \<Rightarrow> 'a
   \<Rightarrow> ('a, 'b) helper \<times> 'a buffer_queue memory \<times> 32 word \<Rightarrow> (('a, 'b) helper \<times> 'a buffer_queue memory \<times> 32 word) option" where
  "helper_step catches body d st = (case st of (hp, mem, l) \<Rightarrow> (case spot hp of
      Loop_test \<Rightarrow>
        if front_iter_eq (iter hp) front_iter_end then Some (hp\<lparr>spot := Breaking\<rparr>, mem, l)
        else (case front_iter_next (bq_wait_pop True) (iter hp, mem) of
            (Returns _, it, mem') \<Rightarrow>
              let v = (case fi_value (iter hp) of None \<Rightarrow> d | Some v \<Rightarrow> v)
              in Some (hp\<lparr>iter := it, spot := Working v, taken := taken hp @ [v]\<rparr>, mem', l)
          | (Throws e, it, mem') \<Rightarrow> Some (hp\<lparr>iter := it, spot := if catches e then Breaking else Aborted\<rparr>, mem', l)
          | (Sleeps, it, mem') \<Rightarrow> None
          | (Undefined, it, mem') \<Rightarrow> Some (hp\<lparr>spot := Aborted\<rparr>, mem', l))
    | Working v \<Rightarrow> (case body v of
          (out, None) \<Rightarrow> Some (hp\<lparr>spot := Loop_test, emitted := emitted hp @ out\<rparr>, mem, l)
        | (out, Some e) \<Rightarrow>
            Some (hp\<lparr>spot := if catches e then Breaking else Aborted, emitted := emitted hp @ out\<rparr>, mem, l))
    | Breaking \<Rightarrow> (case cdl_count_down l of
          (Returns _, notify, l') \<Rightarrow> Some (hp\<lparr>spot := Counted\<rparr>, mem, l')
        | (_, notify, l') \<Rightarrow> Some (hp\<lparr>spot := Aborted\<rparr>, mem, l'))
    | Counted \<Rightarrow> None
    | Aborted \<Rightarrow> None))"

text \<open>A \<open>mutable_thread\<close> may accept a function and never run it (\<open>mutable_thread_stranded\<close>): only the threads of
  \<open>runs\<close> make steps, the others stay where they were started.\<close>

inductive stage_step :: "(nat \<Rightarrow> bool) \<Rightarrow> (cpp_exn \<Rightarrow> bool) \<Rightarrow> ('a \<Rightarrow> 'b list \<times> cpp_exn option) \<Rightarrow> 'a
   \<Rightarrow> ('a, 'b) stage \<Rightarrow> ('a, 'b) stage \<Rightarrow> bool" for runs catches body d where
  stage_step: "i < length (helpers s) \<Longrightarrow>
     helper_step catches body d (helpers s ! i, inputs s, done_latch s) = Some (hp, mem, l) \<Longrightarrow> runs i \<Longrightarrow>
     stage_step runs catches body d s (s\<lparr>inputs := mem, helpers := (helpers s)[i := hp], done_latch := l\<rparr>)"

section \<open>The iterator on a closed queue\<close>

lemma front_iter_next_eq:
  assumes "fi_queue it = Some a" and "mem a = Some q" and "bq_wf q"
  shows "front_iter_next (bq_wait_pop True) (it, mem) =
     (if bq_contents q \<noteq> [] then (Returns (), it\<lparr>fi_value := Some (hd (bq_contents q))\<rparr>, mem(a \<mapsto> popped q))
      else if closed q then (Returns (), it\<lparr>fi_queue := None\<rparr>, mem(a \<mapsto> q))
      else (Sleeps, it, mem(a \<mapsto> q\<lparr>waiting_empty := waiting_empty q + 1\<rparr>)))"
  using assms by (simp add: front_iter_next_def via_simps bq_op_eqs)

section \<open>What a stage keeps\<close>

text \<open>All iterators run over the queue at \<open>a\<close>, and all values come from it.\<close>

definition queue_at :: "nat \<Rightarrow> ('a, 'b) stage \<Rightarrow> 'a buffer_queue" where
  "queue_at a s = the (inputs s a)"

definition live :: "('a, 'b) helper \<Rightarrow> bool" where
  "live hp \<longleftrightarrow> fi_queue (iter hp) \<noteq> None"

definition prefetched :: "('a, 'b) helper \<Rightarrow> 'a list" where
  "prefetched hp = (if live hp then [the (fi_value (iter hp))] else [])"

definition helper_ok :: "nat \<Rightarrow> (cpp_exn \<Rightarrow> bool) \<Rightarrow> ('a \<Rightarrow> 'b list \<times> cpp_exn option) \<Rightarrow> 'a buffer_queue \<Rightarrow> ('a, 'b) helper \<Rightarrow> bool" where
  "helper_ok a catches body q hp \<longleftrightarrow>
     (fi_queue (iter hp) = None \<or> fi_queue (iter hp) = Some a) \<and>
     (live hp \<longrightarrow> fi_value (iter hp) \<noteq> None) \<and> (\<not> live hp \<longrightarrow> bq_contents q = []) \<and>
     emitted hp = concat (map (fst \<circ> body) (case spot hp of Working v \<Rightarrow> butlast (taken hp) | _ \<Rightarrow> taken hp)) \<and>
     (case spot hp of
        Working v \<Rightarrow> taken hp \<noteq> [] \<and> last (taken hp) = v
      | Breaking \<Rightarrow> \<not> live hp \<or> (\<exists>v \<in> set (taken hp). snd (body v) \<noteq> None)
      | Counted \<Rightarrow> \<not> live hp \<or> (\<exists>v \<in> set (taken hp). snd (body v) \<noteq> None)
      | Aborted \<Rightarrow> (\<exists>v \<in> set (taken hp). \<exists>e. snd (body v) = Some e \<and> \<not> catches e)
      | _ \<Rightarrow> True)"

definition running :: "('a, 'b) helper \<Rightarrow> bool" where
  "running hp \<longleftrightarrow> (case spot hp of Counted \<Rightarrow> False | _ \<Rightarrow> True)"

text \<open>\<open>missing\<close> is the number of threads the latch waits for that were never started.\<close>

definition stage_ok :: "nat \<Rightarrow> nat \<Rightarrow> (cpp_exn \<Rightarrow> bool) \<Rightarrow> ('a \<Rightarrow> 'b list \<times> cpp_exn option) \<Rightarrow> ('a, 'b) stage \<Rightarrow> bool" where
  "stage_ok a missing catches body s \<longleftrightarrow>
     inputs s a = Some (queue_at a s) \<and> bq_wf (queue_at a s) \<and> closed (queue_at a s) \<and>
     (\<forall>hp \<in> set (helpers s). helper_ok a catches body (queue_at a s) hp) \<and>
     unat (done_latch s) = missing + length (filter running (helpers s))"

definition values_of :: "nat \<Rightarrow> ('a, 'b) stage \<Rightarrow> 'a multiset" where
  "values_of a s = mset (bq_contents (queue_at a s)) + mset (concat (map prefetched (helpers s))) +
     mset (concat (map taken (helpers s)))"

definition step_effect where
  "step_effect a catches body q hp l q' hp' l' \<longleftrightarrow>
     bq_wf q' \<and> closed q' \<and> helper_ok a catches body q' hp' \<and> (bq_contents q = [] \<longrightarrow> bq_contents q' = []) \<and>
     mset (bq_contents q') + mset (prefetched hp') + mset (taken hp') =
       mset (bq_contents q) + mset (prefetched hp) + mset (taken hp) \<and>
     running hp \<and> unat l' + (if running hp then 1 else 0) = unat l + (if running hp' then 1 else 0)"

lemmas helper_defs = helper_ok_def step_effect_def live_def prefetched_def running_def

lemma helper_step_ok:
  assumes "helper_step catches body d (hp, mem, l) = Some (hp', mem', l')"
    and "helper_ok a catches body q hp" and "mem a = Some q" and "bq_wf q" and "closed q" and "0 < unat l"
  shows "\<exists>q'. mem' a = Some q' \<and> step_effect a catches body q hp l q' hp' l'"
proof (cases "spot hp")
  case Loop_test
  show ?thesis
  proof (cases "live hp")
    case False
    with Loop_test assms show ?thesis
      by (auto simp: helper_step_def front_iter_eq_def front_iter_end_def helper_defs)
  next
    case True
    with assms(2) obtain v where v: "fi_queue (iter hp) = Some a" "fi_value (iter hp) = Some v" by (auto simp: helper_defs)
    note nxt = front_iter_next_eq [where it = "iter hp" and mem = mem and a = a and q = q, OF v(1) assms(3,4)]
    show ?thesis
    proof (cases "bq_contents q")
      case Nil
      with True Loop_test assms v nxt show ?thesis
        by (auto simp: helper_step_def front_iter_eq_def front_iter_end_def helper_defs Let_def)
    next
      case (Cons x xs)
      with True Loop_test assms v nxt popped_props [OF assms(4)] show ?thesis
        by (auto simp: helper_step_def front_iter_eq_def front_iter_end_def helper_defs Let_def)
    qed
  qed
next
  case (Working v)
  then obtain ts where "taken hp = ts @ [v]" using assms(2) by (cases "taken hp" rule: rev_cases) (auto simp: helper_ok_def)
  obtain out ex where "body v = (out, ex)" by fastforce
  note w = Working this \<open>taken hp = ts @ [v]\<close>
  have mem': "mem' = mem" "l' = l" using assms(1) w by (auto simp: helper_step_def split: option.splits)
  have "step_effect a catches body q hp l q hp' l"
  proof (cases ex)
    case None
    with assms w show ?thesis by (auto simp: helper_step_def helper_defs)
  next
    case (Some e)
    with assms w show ?thesis by (cases "catches e") (auto simp: helper_step_def helper_defs)
  qed
  with assms(3) mem' show ?thesis by auto
next
  case Breaking
  with assms(1,6) have st: "hp' = hp\<lparr>spot := Counted\<rparr>" "mem' = mem" "l' = l - 1" "l \<noteq> 0"
    by (auto simp: helper_step_def cdl_count_down_def split: if_splits)
  then have "unat l = Suc (unat l')" using assms(6) by (simp add: unat_minus_one)
  with assms(2-5) Breaking st show ?thesis by (auto simp: helper_defs)
qed (use assms in \<open>auto simp: helper_step_def\<close>)

lemma update_split:
  assumes "i < length xs"
  shows "xs = take i xs @ xs ! i # drop (Suc i) xs" and "xs[i := y] = take i xs @ y # drop (Suc i) xs"
  using assms by (simp_all add: id_take_nth_drop upd_conv_take_nth_drop)

lemma helper_ok_other:
  "helper_ok a catches body q hp \<Longrightarrow> (bq_contents q = [] \<Longrightarrow> bq_contents q' = []) \<Longrightarrow> helper_ok a catches body q' hp"
  by (auto simp: helper_ok_def)

lemma stage_step_ok:
  assumes "stage_step runs catches body d s s'" and "stage_ok a missing catches body s"
  shows "stage_ok a missing catches body s' \<and> values_of a s' = values_of a s \<and> length (helpers s') = length (helpers s)"
  using assms(1)
proof cases
  case (stage_step i hp' mem l)
  let ?hs = "helpers s" and ?q = "queue_at a s"
  let ?hp = "?hs ! i"
  define pre post where "pre = take i ?hs" and "post = drop (Suc i) ?hs"
  have hs: "?hs = pre @ ?hp # post" "?hs[i := hp'] = pre @ hp' # post"
    unfolding pre_def post_def by (fact update_split [OF stage_step(2)])+
  note ok = assms(2) [unfolded stage_ok_def]
  have hok: "helper_ok a catches body ?q ?hp" using ok stage_step(2) by simp
  have "running ?hp" using stage_step(3) by (auto simp: helper_step_def running_def split: spot.splits)
  then have "0 < unat (done_latch s)" using ok hs(1) by (metis (no_types, lifting) add_gr_0 filter.simps(2) filter_append length_append length_greater_0_conv list.distinct(1))
  from helper_step_ok [OF stage_step(3) hok _ _ _ this] ok obtain q'
    where q': "mem a = Some q'" "step_effect a catches body ?q ?hp (done_latch s) q' hp' l" by auto
  have at: "queue_at a s' = q'" "inputs s' a = Some q'" "helpers s' = pre @ hp' # post" "done_latch s' = l"
    using stage_step(1) q'(1) hs(2) by (simp_all add: queue_at_def)
  note e = q'(2) [unfolded step_effect_def]
  have others: "helper_ok a catches body q' h" if "h \<in> set pre \<union> set post" for h
    using helper_ok_other [of a catches body ?q h q'] ok hs(1) that e by (metis Un_iff in_set_conv_decomp list.set_intros(2) set_append)
  have cnt: "length (filter running ?hs) = length (filter running pre) + (if running ?hp then 1 else 0) + length (filter running post)"
    by (subst hs(1)) simp
  have parts: "concat (map g ?hs) = concat (map g pre) @ g ?hp @ concat (map g post)" for g :: "('a, 'b) helper \<Rightarrow> 'a list"
  proof -
    have "concat (map g (pre @ ?hp # post)) = concat (map g pre) @ g ?hp @ concat (map g post)" by simp
    with hs(1) show ?thesis by simp
  qed
  have "stage_ok a missing catches body s'"
    unfolding stage_ok_def at using e others ok cnt by (auto simp: at(1))
  moreover have "values_of a s = mset (bq_contents ?q) + (mset (prefetched ?hp) + mset (taken ?hp)) +
     (mset (concat (map prefetched pre)) + mset (concat (map prefetched post)) + mset (concat (map taken pre)) + mset (concat (map taken post)))"
    unfolding values_of_def parts by (simp add: ac_simps)
  moreover have "values_of a s' = mset (bq_contents q') + (mset (prefetched hp') + mset (taken hp')) +
     (mset (concat (map prefetched pre)) + mset (concat (map prefetched post)) + mset (concat (map taken pre)) + mset (concat (map taken post)))"
    unfolding values_of_def at by (simp add: ac_simps)
  moreover have "length (helpers s') = length ?hs" by (simp add: stage_step(1))
  ultimately show ?thesis using e by (simp add: add.assoc)
qed

text \<open>When the latch has been counted down, without an exception: every value was worked on.\<close>

lemma stage_done:
  assumes "stage_ok a 0 catches body s" and "done_latch s = 0" and "\<And>v. snd (body v) = None" and "helpers s \<noteq> []"
  shows "values_of a s = mset (concat (map taken (helpers s)))"
    and "hp \<in> set (helpers s) \<Longrightarrow> emitted hp = concat (map (fst \<circ> body) (taken hp))"
proof -
  note ok = assms(1) [unfolded stage_ok_def]
  have "filter running (helpers s) = []" using ok assms(2) by auto
  then have idle: "spot h = Counted" if "h \<in> set (helpers s)" for h
    using that by (cases "spot h") (force simp: filter_empty_conv running_def)+
  have dead: "\<not> live h" if "h \<in> set (helpers s)" for h
    using ok that idle [OF that] assms(3) by (auto simp: helper_ok_def)
  then have "concat (map prefetched (helpers s)) = []" by (auto simp: prefetched_def)
  moreover have "bq_contents (queue_at a s) = []"
    using ok dead assms(4) by (metis helper_ok_def list.set_sel(1))
  ultimately show "values_of a s = mset (concat (map taken (helpers s)))" by (simp add: values_of_def)
  show "emitted hp = concat (map (fst \<circ> body) (taken hp))" if "hp \<in> set (helpers s)"
    using ok that idle [OF that] by (auto simp: helper_ok_def)
qed

section \<open>A stage ends\<close>

definition helper_weight :: "('a, 'b) helper \<Rightarrow> nat" where
  "helper_weight hp = (case spot hp of
      Loop_test \<Rightarrow> if live hp then 4 else 2
    | Working v \<Rightarrow> if live hp then 5 else 3
    | Breaking \<Rightarrow> 1
    | Counted \<Rightarrow> 0
    | Aborted \<Rightarrow> 0)"

definition stage_weight :: "nat \<Rightarrow> ('a, 'b) stage \<Rightarrow> nat" where
  "stage_weight a s = 3 * length (bq_contents (queue_at a s)) + (\<Sum>hp\<leftarrow>helpers s. helper_weight hp)"

lemma helper_step_weight:
  assumes "helper_step catches body d (hp, mem, l) = Some (hp', mem', l')"
    and "helper_ok a catches body q hp" and "mem a = Some q" and "bq_wf q" and "closed q" and "mem' a = Some q'"
  shows "3 * length (bq_contents q') + helper_weight hp' < 3 * length (bq_contents q) + helper_weight hp"
proof (cases "spot hp")
  case Loop_test
  show ?thesis
  proof (cases "live hp")
    case False
    with Loop_test assms show ?thesis
      by (auto simp: helper_step_def front_iter_eq_def front_iter_end_def live_def helper_weight_def)
  next
    case True
    with assms(2) obtain v where v: "fi_queue (iter hp) = Some a" "fi_value (iter hp) = Some v" by (auto simp: helper_defs)
    note nxt = front_iter_next_eq [where it = "iter hp" and mem = mem and a = a and q = q, OF v(1) assms(3,4)]
    show ?thesis
    proof (cases "bq_contents q")
      case Nil
      with True Loop_test assms v nxt show ?thesis
        by (auto simp: helper_step_def front_iter_eq_def front_iter_end_def live_def helper_weight_def Let_def)
    next
      case (Cons x xs)
      with True Loop_test assms v nxt popped_props [OF assms(4)] show ?thesis
        by (auto simp: helper_step_def front_iter_eq_def front_iter_end_def live_def helper_weight_def Let_def)
    qed
  qed
next
  case (Working v)
  obtain out ex where "body v = (out, ex)" by fastforce
  with Working assms show ?thesis
    by (cases ex) (auto simp: helper_step_def live_def helper_weight_def)
next
  case Breaking
  with assms show ?thesis by (auto simp: helper_step_def helper_weight_def split: prod.splits outcome.splits)
qed (use assms in \<open>auto simp: helper_step_def\<close>)

lemma stage_step_weight:
  assumes "stage_step runs catches body d s s'" and "stage_ok a missing catches body s"
  shows "stage_weight a s' < stage_weight a s"
  using assms(1)
proof cases
  case (stage_step i hp' mem l)
  note ok = assms(2) [unfolded stage_ok_def]
  have ok': "inputs s' a = Some (queue_at a s')" using stage_step_ok [OF assms] by (simp add: stage_ok_def)
  then have "mem a = Some (queue_at a s')" using stage_step(1) by simp
  with helper_step_weight [OF stage_step(3), of a "queue_at a s" "queue_at a s'"] ok stage_step(2)
  have "3 * length (bq_contents (queue_at a s')) + helper_weight hp' <
    3 * length (bq_contents (queue_at a s)) + helper_weight (helpers s ! i)" by simp
  moreover have "(\<Sum>hp\<leftarrow>helpers s'. helper_weight hp) + helper_weight (helpers s ! i) = (\<Sum>hp\<leftarrow>helpers s. helper_weight hp) + helper_weight hp'"
    using stage_step(1,2) elem_le_sum_list [of i "map helper_weight (helpers s)"] by (simp add: map_update sum_list_update)
  ultimately show ?thesis by (simp add: stage_weight_def)
qed

text \<open>A thread that is run and has not counted down can move: the queue is closed, so a pop does not block.\<close>

lemma stage_progress:
  assumes "stage_ok a missing catches body s" and "\<And>v e. snd (body v) = Some e \<Longrightarrow> catches e"
    and "\<nexists>s'. stage_step runs catches body d s s'" and "\<And>i. runs i"
  shows "unat (done_latch s) = missing"
proof -
  note ok = assms(1) [unfolded stage_ok_def]
  have "\<not> running hp" if hp: "hp \<in> set (helpers s)" for hp
  proof
    assume run: "running hp"
    have "helper_step catches body d (hp, inputs s, done_latch s) \<noteq> None"
    proof (cases "spot hp")
      case Loop_test
      show ?thesis
      proof (cases "live hp")
        case False
        with Loop_test show ?thesis by (simp add: helper_step_def front_iter_eq_def front_iter_end_def live_def)
      next
        case True
        with ok hp have "fi_queue (iter hp) = Some a" by (auto simp: helper_defs)
        with front_iter_next_eq [of "iter hp" a "inputs s" "queue_at a s"] ok Loop_test show ?thesis
          by (simp add: helper_step_def front_iter_eq_def front_iter_end_def Let_def)
      qed
    next
      case (Working v)
      then show ?thesis by (simp add: helper_step_def split: prod.splits option.splits)
    next
      case Breaking
      then show ?thesis by (simp add: helper_step_def cdl_count_down_def)
    next
      case Counted
      with run show ?thesis by (simp add: running_def)
    next
      case Aborted
      with ok hp assms(2) show ?thesis by (fastforce simp: helper_ok_def)
    qed
    moreover obtain i where "i < length (helpers s)" "helpers s ! i = hp" using hp by (auto simp: in_set_conv_nth)
    ultimately show False using assms(3) stage_step.stage_step [of i s catches body d _ _ _ runs, OF _ _ assms(4)]
      by (auto simp: not_None_eq)
  qed
  with ok show ?thesis by (simp add: filter_empty_conv)
qed

end
