(* ===== verification/Map_Reduce.thy ===== *)
theory Map_Reduce
  imports Map_Reduce_Loops Thread_Pool
begin

text \<open>
  \<open>include/map_reduce.h\<close>: \<open>map_reduce::run\<close>. The mappers are threads of the pool that share the input queue, each
  with a copy of the iterator and a multimap of its own; when their latch is down the multimaps are merged, the
  keys are divided into shards, and the reducers take the shards from a queue. A multimap is the list of its
  pairs in order, a \<open>std::set\<close> of keys an ordered list without duplicates. The lines \<open>run\<close> prints are left out.
\<close>

section \<open>Multimaps and shards\<close>

fun multimap_insert :: "'k::linorder \<times> 'v \<Rightarrow> ('k \<times> 'v) list \<Rightarrow> ('k \<times> 'v) list" where
  "multimap_insert p [] = [p]"
| "multimap_insert p (q # qs) = (if fst p < fst q then p # q # qs else q # multimap_insert p qs)"

definition equal_range :: "'k \<Rightarrow> ('k \<times> 'v) list \<Rightarrow> 'v list" where
  "equal_range k m = map snd (filter (\<lambda>p. fst p = k) m)"

record ('k, 'v) map_key_task =
  work_key_set :: "'k list"
  data_map :: "('k \<times> 'v) list"
  shard_id :: nat

text \<open>\<open>default_shard\<close>: \<open>None\<close> for the division by zero.\<close>

definition default_shard :: "('k \<Rightarrow> nat) \<Rightarrow> 'k \<Rightarrow> nat \<Rightarrow> nat option" where
  "default_shard hash_fn val num_shards = (if num_shards = 0 then None else Some (hash_fn val mod num_shards))"

text \<open>\<open>work_shards\<close>, a map in the order of the shard numbers, with the sets of keys.\<close>

fun add_key :: "nat \<Rightarrow> 'k::linorder \<Rightarrow> (nat \<times> 'k list) list \<Rightarrow> (nat \<times> 'k list) list" where
  "add_key s k [] = [(s, [k])]"
| "add_key s k ((t, ks) # ws) =
     (if s = t then (t, insort_insert k ks) # ws
      else if s < t then (s, [k]) # (t, ks) # ws
      else (t, ks) # add_key s k ws)"

text \<open>The loop that skips equal keys. It compares with \<open>prev_iter->first\<close> also before \<open>prev_iter\<close> is set from
  \<open>end()\<close>: the first \<open>prev\<close> is whatever is there.\<close>

fun shard_loop :: "('k::linorder \<Rightarrow> nat option) \<Rightarrow> 'k \<Rightarrow> ('k \<times> 'v) list \<Rightarrow> (nat \<times> 'k list) list \<Rightarrow> (nat \<times> 'k list) list option" where
  "shard_loop sharder prev [] ws = Some ws"
| "shard_loop sharder prev ((k, v) # m) ws =
     (if k = prev then shard_loop sharder prev m ws
      else case sharder k of
          None \<Rightarrow> None
        | Some s \<Rightarrow> shard_loop sharder k m (add_key s k ws))"

section \<open>Running\<close>

text \<open>The last two fields are not options of the program but say, for every mapper and reducer, whether the thread of
  the pool that has accepted its function ever runs it: \<open>mutable_thread\<close> may strand a function
  (\<open>mutable_thread_stranded\<close>), and \<open>run\<close> gives the threads of the mappers to the reducers as soon as the latch is
  down, when they may still be finishing.\<close>

record ('i, 'k, 'v) mr_options =
  num_mappers :: nat
  num_reduce_shards :: nat
  num_reducers :: nat
  map_fn :: "'i \<Rightarrow> ('k \<times> 'v) list \<times> cpp_exn option"
  reduce_exn :: "'k \<Rightarrow> 'v list \<Rightarrow> cpp_exn option"
  hash_fn :: "'k \<Rightarrow> nat"
  key_at_end :: 'k
  no_input :: 'i
  mapper_address :: "nat \<Rightarrow> nat"
  reducer_address :: "nat \<Rightarrow> nat"
  mapper_runs :: "nat \<Rightarrow> bool"
  reducer_runs :: "nat \<Rightarrow> bool"

datatype mr_phase = Mapping | Reducing | Run_returned | Run_raised cpp_exn | Run_undefined

record ('i, 'k, 'v) map_reduce =
  mr_phase :: mr_phase
  mr_pool :: thread_pool
  mr_threads :: "nat option list"
  mapping :: "('i, 'k \<times> 'v) stage"
  reducer_input :: "('k \<times> 'v) list"
  reducing :: "(('k, 'v) map_key_task, 'k \<times> 'v list) stage"

definition no_task :: "('k, 'v) map_key_task" where
  "no_task = \<lparr>work_key_set = [], data_map = [], shard_id = 0\<rparr>"

text \<open>\<open>map_key_task_reducer_splitter\<close>: the reducer is called once for every key of the shard.\<close>

fun reduce_keys :: "('k \<Rightarrow> 'v list \<Rightarrow> cpp_exn option) \<Rightarrow> ('k \<times> 'v) list \<Rightarrow> 'k list \<Rightarrow> ('k \<times> 'v list) list \<times> cpp_exn option" where
  "reduce_keys exn m [] = ([], None)"
| "reduce_keys exn m (k # ks) = (case exn k (equal_range k m) of
      None \<Rightarrow> (let (calls, e) = reduce_keys exn m ks in ((k, equal_range k m) # calls, e))
    | Some e \<Rightarrow> ([(k, equal_range k m)], Some e))"

definition reduce_task :: "('i, 'k, 'v) mr_options \<Rightarrow> ('k, 'v) map_key_task \<Rightarrow> ('k \<times> 'v list) list \<times> cpp_exn option" where
  "reduce_task opts t = reduce_keys (reduce_exn opts) (data_map t) (work_key_set t)"

text \<open>The start of \<open>run\<close>: \<open>it\<close> is the iterator, whose value has been popped, and every thread gets a copy.\<close>

definition mr_start :: "('i, 'k, 'v) mr_options \<Rightarrow> ('k \<times> 'v) list \<Rightarrow> thread_pool \<Rightarrow> 'i front_iter \<Rightarrow> 'i buffer_queue memory
   \<Rightarrow> ('i, 'k, 'v) map_reduce" where
  "mr_start opts left pool it mem =
     (let (ts, p) = get_threads (mapper_address opts) (num_mappers opts) pool
      in \<lparr>mr_phase = Mapping, mr_pool = p, mr_threads = ts,
          mapping = \<lparr>inputs = mem, helpers = replicate (length (filter (\<lambda>t. t \<noteq> None) ts)) (helper_new it),
            done_latch = cdl_new (of_nat (num_mappers opts))\<rparr>,
          reducer_input = left,
          reducing = \<lparr>inputs = Map.empty, helpers = [], done_latch = 0\<rparr>\<rparr>)"

fun push_all :: "'a list \<Rightarrow> 'a buffer_queue \<Rightarrow> 'a buffer_queue option" where
  "push_all [] q = Some q"
| "push_all (t # ts) q = (case bq_push True t q of (Returns _, q') \<Rightarrow> push_all ts q' | _ \<Rightarrow> None)"

text \<open>The loop that starts the reducers: every thread gets an iterator of its own.\<close>

fun start_reducers :: "nat option list \<Rightarrow> 'a buffer_queue memory \<Rightarrow> (('a, 'b) helper list \<times> 'a buffer_queue memory) option" where
  "start_reducers [] mem = Some ([], mem)"
| "start_reducers (None # ts) mem = start_reducers ts mem"
| "start_reducers (Some t # ts) mem = (case front_iter_begin (bq_wait_pop True) (Some 0) mem of
      (Returns _, it, mem') \<Rightarrow> map_option (\<lambda>(hs, m). (helper_new it # hs, m)) (start_reducers ts mem')
    | _ \<Rightarrow> None)"

definition merge_outputs :: "('a, 'k::linorder \<times> 'v) helper list \<Rightarrow> ('k \<times> 'v) list \<Rightarrow> ('k \<times> 'v) list" where
  "merge_outputs hs m = fold (\<lambda>hp. fold multimap_insert (fold multimap_insert (emitted hp) [])) hs m"

definition shard_tasks :: "('i, 'k::linorder, 'v) mr_options \<Rightarrow> ('k \<times> 'v) list \<Rightarrow> ('k, 'v) map_key_task list option" where
  "shard_tasks opts m = map_option (map (\<lambda>(s, ks). \<lparr>work_key_set = ks, data_map = m, shard_id = s\<rparr>))
     (shard_loop (\<lambda>k. default_shard (hash_fn opts) k (num_reduce_shards opts)) (key_at_end opts) m [])"

text \<open>From the end of \<open>mapper_latch.wait()\<close> to \<open>reducer_latch.wait()\<close>.\<close>

definition mr_shuffle :: "('i, 'k::linorder, 'v) mr_options \<Rightarrow> ('i, 'k, 'v) map_reduce \<Rightarrow> ('i, 'k, 'v) map_reduce" where
  "mr_shuffle opts s =
     (let p = release_threads (mr_threads s) (mr_pool s);
          m = merge_outputs (helpers (mapping s)) (reducer_input s);
          s1 = s\<lparr>mr_pool := p, reducer_input := m\<rparr>
      in case shard_tasks opts m of
           None \<Rightarrow> s1\<lparr>mr_phase := Run_undefined\<rparr>
         | Some tasks \<Rightarrow> (case bq_new no_task (of_nat (length tasks)) of
               Throws e \<Rightarrow> s1\<lparr>mr_phase := Run_raised e\<rparr>
             | Returns q \<Rightarrow> (case push_all tasks q of
                   None \<Rightarrow> s1\<lparr>mr_phase := Run_undefined\<rparr>
                 | Some q' \<Rightarrow>
                     let (ts, p') = get_threads (reducer_address opts) (num_reducers opts) p
                     in case start_reducers ts [0 \<mapsto> bq_close q'] of
                          None \<Rightarrow> s1\<lparr>mr_phase := Run_undefined\<rparr>
                        | Some (hs, mem) \<Rightarrow> s1\<lparr>mr_phase := Reducing, mr_pool := p', mr_threads := ts,
                            reducing := \<lparr>inputs = mem, helpers = hs, done_latch = cdl_new (of_nat (num_reducers opts))\<rparr>\<rparr>)
             | _ \<Rightarrow> s1\<lparr>mr_phase := Run_undefined\<rparr>))"

inductive mr_step :: "('i, 'k::linorder, 'v) mr_options \<Rightarrow> ('i, 'k, 'v) map_reduce \<Rightarrow> ('i, 'k, 'v) map_reduce \<Rightarrow> bool" for opts where
  map_step: "mr_phase s = Mapping \<Longrightarrow> stage_step (mapper_runs opts) mapper_catches (map_fn opts) (no_input opts) (mapping s) g \<Longrightarrow>
     mr_step opts s (s\<lparr>mapping := g\<rparr>)"
| shuffle: "mr_phase s = Mapping \<Longrightarrow> cdl_wait_body (done_latch (mapping s)) = Returns () \<Longrightarrow>
     mr_step opts s (mr_shuffle opts s)"
| reduce_step: "mr_phase s = Reducing \<Longrightarrow> stage_step (reducer_runs opts) reducer_catches (reduce_task opts) no_task (reducing s) g \<Longrightarrow>
     mr_step opts s (s\<lparr>reducing := g\<rparr>)"
| finish: "mr_phase s = Reducing \<Longrightarrow> cdl_wait_body (done_latch (reducing s)) = Returns () \<Longrightarrow>
     mr_step opts s (s\<lparr>mr_phase := Run_returned, mr_pool := release_threads (mr_threads s) (mr_pool s)\<rparr>)"

section \<open>Merging and sharding\<close>

lemma multimap_insert_mset: "mset (multimap_insert p m) = add_mset p (mset m)"
  by (induction m) auto

lemma multimap_insert_sorted:
  "sorted (map fst m) \<Longrightarrow> sorted (map fst (multimap_insert p m))"
proof (induction m)
  case (Cons q m)
  have "set (multimap_insert p m) = insert p (set m)" by (metis multimap_insert_mset set_mset_add_mset_insert set_mset_mset)
  with Cons show ?case by auto
qed simp

lemma fold_insert:
  "mset (fold multimap_insert ps m) = mset m + mset ps \<and> (sorted (map fst m) \<longrightarrow> sorted (map fst (fold multimap_insert ps m)))"
  by (induction ps arbitrary: m) (auto simp: multimap_insert_mset multimap_insert_sorted)

lemma merge_outputs_props:
  "mset (merge_outputs hs m) = mset m + mset (concat (map emitted hs)) \<and> (sorted (map fst m) \<longrightarrow> sorted (map fst (merge_outputs hs m)))"
  unfolding merge_outputs_def
proof (induction hs arbitrary: m)
  case (Cons hp hs)
  let ?m = "fold multimap_insert (fold multimap_insert (emitted hp) []) m"
  have "mset ?m = mset m + mset (emitted hp)" by (simp add: fold_insert)
  moreover have "sorted (map fst m) \<Longrightarrow> sorted (map fst ?m)" using fold_insert by blast
  ultimately show ?case using Cons.IH [of ?m] by simp
qed simp

definition task_keys :: "(nat \<times> 'k list) list \<Rightarrow> 'k list" where
  "task_keys ws = concat (map snd ws)"

lemma insort_insert_new: "k \<notin> set ks \<Longrightarrow> mset (insort_insert k ks) = add_mset k (mset ks)"
  by (simp add: insort_insert_key_def)

lemma add_key_keys:
  "k \<notin> set (task_keys ws) \<Longrightarrow> mset (task_keys (add_key s k ws)) = add_mset k (mset (task_keys ws))"
  by (induction s k ws rule: add_key.induct) (auto simp: task_keys_def insort_insert_new)

lemma add_key_shards:
  "set (map fst (add_key s k ws)) = insert s (set (map fst ws)) \<and>
   (sorted_wrt (<) (map fst ws) \<longrightarrow> sorted_wrt (<) (map fst (add_key s k ws)))"
  by (induction s k ws rule: add_key.induct) auto

lemma shard_loop_keys:
  "shard_loop sh prev m ws = Some ws' \<Longrightarrow> sorted (map fst m) \<Longrightarrow> \<forall>k \<in> fst ` set m. prev \<le> k \<Longrightarrow>
     \<forall>k \<in> set (task_keys ws). k \<le> prev \<Longrightarrow>
     mset (task_keys ws') = mset (task_keys ws) + mset_set (fst ` set m - {prev})"
proof (induction sh prev m ws rule: shard_loop.induct)
  case (2 sh prev k v m ws)
  show ?case
  proof (cases "k = prev")
    case True
    with 2 show ?thesis by auto
  next
    case False
    with 2 obtain s where s: "sh k = Some s" "shard_loop sh k m (add_key s k ws) = Some ws'" by (auto split: option.splits)
    from 2 False have new: "k \<notin> set (task_keys ws)" by fastforce
    have keys: "mset (task_keys (add_key s k ws)) = add_mset k (mset (task_keys ws))" by (rule add_key_keys [OF new])
    then have "set (task_keys (add_key s k ws)) = insert k (set (task_keys ws))" by (metis set_mset_add_mset_insert set_mset_mset)
    with 2 False s have "mset (task_keys ws') = mset (task_keys (add_key s k ws)) + mset_set (fst ` set m - {k})"
      by fastforce
    moreover have "fst ` set ((k, v) # m) - {prev} = insert k (fst ` set m)" using 2 False by force
    moreover have "mset_set (insert k (fst ` set m)) = add_mset k (mset_set (fst ` set m - {k}))"
      by (simp add: mset_set.insert_remove)
    ultimately show ?thesis by (metis keys union_mset_add_mset_left union_mset_add_mset_right)
  qed
qed simp

lemma shard_loop_shards:
  "shard_loop sh prev m ws = Some ws' \<Longrightarrow> \<forall>k s. sh k = Some s \<longrightarrow> s < n \<Longrightarrow>
     set (map fst ws) \<subseteq> {..<n} \<Longrightarrow> sorted_wrt (<) (map fst ws) \<Longrightarrow>
     set (map fst ws') \<subseteq> {..<n} \<and> sorted_wrt (<) (map fst ws')"
proof (induction sh prev m ws rule: shard_loop.induct)
  case (2 sh prev k v m ws)
  then show ?case
  proof (cases "k = prev")
    case False
    with 2 obtain s where s: "sh k = Some s" "shard_loop sh k m (add_key s k ws) = Some ws'" by (auto split: option.splits)
    with 2 have "s < n" by blast
    with 2 have "set (map fst (add_key s k ws)) \<subseteq> {..<n}" "sorted_wrt (<) (map fst (add_key s k ws))"
      using add_key_shards [of s k ws] by auto
    with 2 False s show ?thesis by blast
  qed auto
qed simp

text \<open>The key that is lost: the least one, if it happens to be what \<open>end()->first\<close> reads.\<close>

definition lost_key :: "'k \<Rightarrow> ('k \<times> 'v) list \<Rightarrow> 'k set" where
  "lost_key junk m = (case m of [] \<Rightarrow> {} | (k, v) # m' \<Rightarrow> if k = junk then {k} else {})"

lemma shard_loop_first:
  assumes "shard_loop sh junk m [] = Some ws" and "sorted (map fst m)"
  shows "mset (task_keys ws) = mset_set (fst ` set m - lost_key junk m)"
proof (cases m)
  case Nil
  with assms show ?thesis by (simp add: task_keys_def)
next
  case (Cons p m')
  obtain k v where p: "p = (k, v)" by fastforce
  have le: "\<forall>x \<in> fst ` set m. k \<le> x" using assms(2) Cons p by auto
  show ?thesis
  proof (cases "k = junk")
    case True
    then show ?thesis using shard_loop_keys [OF assms] le Cons p by (simp add: lost_key_def task_keys_def)
  next
    case False
    with assms(1) Cons p obtain s where s: "shard_loop sh k m' [(s, [k])] = Some ws" by (auto split: option.splits)
    have "mset (task_keys ws) = mset (task_keys [(s, [k])]) + mset_set (fst ` set m' - {k})"
      by (rule shard_loop_keys [OF s]) (use assms(2) Cons p le in \<open>auto simp: task_keys_def\<close>)
    moreover have "fst ` set m - lost_key junk m = insert k (fst ` set m')" using False Cons p by (auto simp: lost_key_def)
    moreover have "mset_set (insert k (fst ` set m')) = add_mset k (mset_set (fst ` set m' - {k}))"
      by (simp add: mset_set.insert_remove)
    ultimately show ?thesis by (simp add: task_keys_def)
  qed
qed

section \<open>The reducers start\<close>

lemma push_all_some:
  "bq_wf q \<Longrightarrow> \<not> closed q \<Longrightarrow> length (bq_contents q) + length ts \<le> bq_capacity q \<Longrightarrow>
     \<exists>q'. push_all ts q = Some q' \<and> bq_wf q' \<and> bq_contents q' = bq_contents q @ ts"
proof (induction ts arbitrary: q)
  case (Cons t ts)
  then have "bq_push True t q = (Returns (), pushed t q)" by (simp add: bq_push_def bind_op_def bq_op_eqs)
  with Cons pushed_props [of q t] Cons.IH [of "pushed t q"] show ?case by auto
qed simp

text \<open>Every iterator takes its first task away from the queue.\<close>

lemma start_reducers_ok:
  fixes body :: "'a \<Rightarrow> 'b list \<times> cpp_exn option"
  assumes "mem 0 = Some q" and "bq_wf q" and "closed q"
  shows "\<exists>hs mem' q'. start_reducers ts mem = Some (hs, mem') \<and> mem' 0 = Some q' \<and> bq_wf q' \<and> closed q' \<and>
     length hs = length (filter (\<lambda>t. t \<noteq> None) ts) \<and> (bq_contents q = [] \<longrightarrow> bq_contents q' = []) \<and>
     (\<forall>hp \<in> set hs. helper_ok 0 catches body q' hp \<and> spot hp = Loop_test \<and> taken hp = []) \<and>
     mset (bq_contents q') + mset (concat (map prefetched hs)) = mset (bq_contents q)"
  using assms
proof (induction ts arbitrary: mem q)
  case (Cons t ts)
  show ?case
  proof (cases t)
    case None
    with Cons show ?thesis by auto
  next
    case (Some x)
    let ?it = "\<lparr>fi_queue = Some 0, fi_value = None\<rparr>"
    have nxt: "front_iter_begin (bq_wait_pop True) (Some 0) mem = front_iter_next (bq_wait_pop True) (?it, mem)"
      by (simp add: front_iter_begin_def)
    define q1 where "q1 = (if bq_contents q \<noteq> [] then popped q else q)"
    define it where "it = (if bq_contents q \<noteq> [] then ?it\<lparr>fi_value := Some (hd (bq_contents q))\<rparr> else ?it\<lparr>fi_queue := None\<rparr>)"
    have b: "front_iter_begin (bq_wait_pop True) (Some 0) mem = (Returns (), it, mem(0 \<mapsto> q1))"
      using front_iter_next_eq [of ?it 0 mem q] Cons.prems by (simp add: nxt it_def q1_def)
    have q1: "bq_wf q1" "closed q1" "mset (bq_contents q1) + mset (prefetched (helper_new it :: ('a, 'b) helper)) = mset (bq_contents q)"
      "bq_contents q = [] \<longrightarrow> bq_contents q1 = []"
      using Cons.prems popped_props [of q] by (auto simp: q1_def it_def prefetched_def live_def helper_new_def neq_Nil_conv)
    have m: "(mem(0 \<mapsto> q1)) 0 = Some q1" by simp
    from Cons.IH [where mem = "mem(0 \<mapsto> q1)" and q = q1, OF m q1(1,2)] obtain hs mem' q' where h: "start_reducers ts (mem(0 \<mapsto> q1)) = Some (hs, mem')"
      "mem' 0 = Some q'" "bq_wf q'" "closed q'" "length hs = length (filter (\<lambda>t. t \<noteq> None) ts)"
      "bq_contents q1 = [] \<longrightarrow> bq_contents q' = []"
      "\<forall>hp \<in> set hs. helper_ok 0 catches body q' hp \<and> spot hp = Loop_test \<and> taken hp = []"
      "mset (bq_contents q') + mset (concat (map prefetched hs)) = mset (bq_contents q1)" by blast
    have new: "helper_ok 0 catches body q' (helper_new it)"
      using h(6) q1(4) by (auto simp: helper_ok_def helper_new_def live_def it_def)
    have "start_reducers (t # ts) mem = Some (helper_new it # hs, mem')" using Some b h(1) by simp
    moreover have "mset (bq_contents q') + mset (concat (map prefetched (helper_new it # hs))) = mset (bq_contents q)"
    proof -
      have "mset (bq_contents q') + (mset (prefetched (helper_new it :: ('a, 'b) helper)) + mset (concat (map prefetched hs))) =
        mset (bq_contents q1) + mset (prefetched (helper_new it :: ('a, 'b) helper))" by (subst h(8) [symmetric]) (simp add: ac_simps)
      with q1(3) show ?thesis by simp
    qed
    moreover have "\<forall>hp \<in> set (helper_new it # hs). helper_ok 0 catches body q' hp \<and> spot hp = Loop_test \<and> taken hp = []"
      using new h(7) by (simp add: helper_new_def)
    ultimately show ?thesis using h(2-6) q1(4) Some
      by (intro exI [of _ "helper_new it # hs"] exI [of _ mem'] exI [of _ q'] conjI) (simp, simp, simp, simp, simp, blast, blast, blast)
  qed
qed simp

section \<open>What a run keeps\<close>

text \<open>The iterator handed to \<open>run\<close> holds the value \<open>x\<close>, the closed queue behind it holds \<open>rest\<close>.\<close>

definition input_ok :: "nat \<Rightarrow> 'i front_iter \<Rightarrow> 'i buffer_queue memory \<Rightarrow> 'i \<Rightarrow> 'i list \<Rightarrow> bool" where
  "input_ok a it mem x rest \<longleftrightarrow> it = \<lparr>fi_queue = Some a, fi_value = Some x\<rparr> \<and>
     (\<exists>q. mem a = Some q \<and> bq_wf q \<and> closed q \<and> bq_contents q = rest)"

definition sizes_ok :: "('i, 'k, 'v) mr_options \<Rightarrow> bool" where
  "sizes_ok opts \<longleftrightarrow> num_mappers opts < 2 ^ 32 \<and> num_reducers opts < 2 ^ 32 \<and> num_reduce_shards opts < 2 ^ 64 - 1"

definition mapped :: "('i, 'k, 'v) mr_options \<Rightarrow> 'i list \<Rightarrow> ('k \<times> 'v) multiset" where
  "mapped opts vs = mset (concat (map (fst \<circ> map_fn opts) vs))"

definition map_inv :: "('i, 'k, 'v) mr_options \<Rightarrow> nat \<Rightarrow> nat \<Rightarrow> 'i list \<Rightarrow> ('k \<times> 'v) list \<Rightarrow> ('i, 'k, 'v) map_reduce \<Rightarrow> bool" where
  "map_inv opts a k vs left s \<longleftrightarrow> k \<le> num_mappers opts \<and>
     stage_ok a (num_mappers opts - k) mapper_catches (map_fn opts) (mapping s) \<and> values_of a (mapping s) = mset vs \<and>
     length (helpers (mapping s)) = k \<and> reducer_input s = left"

definition reduce_inv :: "('i, 'k::linorder, 'v) mr_options \<Rightarrow> 'i list \<Rightarrow> ('k \<times> 'v) list \<Rightarrow> ('i, 'k, 'v) map_reduce \<Rightarrow> bool" where
  "reduce_inv opts vs left s \<longleftrightarrow> sorted (map fst (reducer_input s)) \<and>
     mset (reducer_input s) = mset left + mapped opts vs \<and>
     (\<exists>tasks missing. shard_tasks opts (reducer_input s) = Some tasks \<and>
        num_reducers opts = missing + length (helpers (reducing s)) \<and>
        stage_ok 0 missing reducer_catches (reduce_task opts) (reducing s) \<and> values_of 0 (reducing s) = mset tasks)"

definition mr_inv :: "('i, 'k::linorder, 'v) mr_options \<Rightarrow> nat \<Rightarrow> nat \<Rightarrow> 'i list \<Rightarrow> ('k \<times> 'v) list \<Rightarrow> ('i, 'k, 'v) map_reduce \<Rightarrow> bool" where
  "mr_inv opts a k vs left s \<longleftrightarrow> (case mr_phase s of
      Mapping \<Rightarrow> map_inv opts a k vs left s
    | Reducing \<Rightarrow> k = num_mappers opts \<and> reduce_inv opts vs left s
    | Run_returned \<Rightarrow> k = num_mappers opts \<and> reduce_inv opts vs left s \<and> done_latch (reducing s) = 0
    | _ \<Rightarrow> True)"

lemma latch_word: "n < 2 ^ 32 \<Longrightarrow> unat (cdl_new (of_nat n)) = n"
  by (simp add: cdl_new_def unsigned_of_nat take_bit_nat_eq_self)

lemma latch_open: "cdl_wait_body c = Returns () \<longleftrightarrow> c = 0"
  by (simp add: cdl_wait_body_def word_gt_0)

lemma mr_start_inv:
  assumes "input_ok a it mem x rest" and "sizes_ok opts" and "get_threads (mapper_address opts) (num_mappers opts) pool = (ts, p)"
    and "length ts = num_mappers opts" and "k = length (filter (\<lambda>t. t \<noteq> None) ts)"
  shows "mr_inv opts a k (replicate k x @ rest) left (mr_start opts left pool it mem)"
proof -
  have "k \<le> num_mappers opts" using assms(4,5) length_filter_le by metis
  then show ?thesis
    using assms by (auto simp: mr_start_def mr_inv_def map_inv_def stage_ok_def input_ok_def queue_at_def sizes_ok_def latch_word
        values_of_def helper_new_def helper_ok_def live_def prefetched_def running_def)
qed

lemma concat_mset:
  assumes "mset us = mset vs"
  shows "mset (concat (map f us)) = mset (concat (map f vs))"
proof -
  have "mset (concat (map f us)) = \<Sum>\<^sub># (image_mset (\<lambda>v. mset (f v)) (mset us))" for us
    by (induction us) simp_all
  with assms show ?thesis by simp
qed

lemma emitted_all:
  "(\<And>hp. hp \<in> set hs \<Longrightarrow> emitted hp = concat (map f (taken hp))) \<Longrightarrow>
     concat (map emitted hs) = concat (map f (concat (map taken hs)))"
  by (induction hs) simp_all

lemma shards_fit:
  assumes "sizes_ok opts" and "shard_tasks opts m = Some tasks"
  shows "length tasks < 2 ^ 64 - 1" and "num_reduce_shards opts = 0 \<Longrightarrow> tasks = []"
proof -
  obtain ws where ws: "shard_loop (\<lambda>k. default_shard (hash_fn opts) k (num_reduce_shards opts)) (key_at_end opts) m [] = Some ws"
    "length tasks = length ws" using assms(2) by (auto simp: shard_tasks_def)
  have "set (map fst ws) \<subseteq> {..<num_reduce_shards opts} \<and> sorted_wrt (<) (map fst ws)"
    by (rule shard_loop_shards [OF ws(1)]) (auto simp: default_shard_def split: if_splits)
  then have "card (set (map fst ws)) \<le> num_reduce_shards opts" "length ws = card (set (map fst ws))"
    using card_mono [of "{..<num_reduce_shards opts}" "set (map fst ws)"]
      distinct_card [of "map fst ws"] strict_sorted_iff [of "map fst ws"] by auto
  then show "length tasks < 2 ^ 64 - 1" "num_reduce_shards opts = 0 \<Longrightarrow> tasks = []"
    using assms(1) ws(2) by (auto simp: sizes_ok_def)
qed

text \<open>What the shuffle does with the merged pairs \<open>m\<close>.\<close>

lemma shuffle_cases:
  fixes opts :: "('i, 'k::linorder, 'v) mr_options"
  assumes "sizes_ok opts" and "m = merge_outputs (helpers (mapping s)) (reducer_input s)"
  shows "shard_tasks opts m = None \<Longrightarrow> mr_phase (mr_shuffle opts s) = Run_undefined"
    and "shard_tasks opts m = Some [] \<Longrightarrow> \<exists>e. mr_phase (mr_shuffle opts s) = Run_raised e"
    and "shard_tasks opts m = Some tasks \<Longrightarrow> tasks \<noteq> [] \<Longrightarrow>
      \<exists>ts p' hs mem q'. get_threads (reducer_address opts) (num_reducers opts) (release_threads (mr_threads s) (mr_pool s)) = (ts, p') \<and>
        mr_shuffle opts s = s\<lparr>mr_pool := p', reducer_input := m, mr_phase := Reducing, mr_threads := ts,
          reducing := \<lparr>inputs = mem, helpers = hs, done_latch = cdl_new (of_nat (num_reducers opts))\<rparr>\<rparr> \<and>
        mem 0 = Some q' \<and> bq_wf q' \<and> closed q' \<and> length hs = length (filter (\<lambda>t. t \<noteq> None) ts) \<and>
        (\<forall>hp \<in> set hs. helper_ok 0 reducer_catches (reduce_task opts) q' hp \<and> spot hp = Loop_test \<and> taken hp = []) \<and>
        mset (bq_contents q') + mset (concat (map prefetched hs)) = mset tasks"
proof -
  show "shard_tasks opts m = None \<Longrightarrow> mr_phase (mr_shuffle opts s) = Run_undefined"
    "shard_tasks opts m = Some [] \<Longrightarrow> \<exists>e. mr_phase (mr_shuffle opts s) = Run_raised e"
    using assms(2) by (simp_all add: mr_shuffle_def Let_def bq_new_def)
  assume t: "shard_tasks opts m = Some tasks" "tasks \<noteq> []"
  have len: "length tasks < 2 ^ 64 - 1" by (rule shards_fit [OF assms(1) t(1)])
  then have n: "unat (of_nat (length tasks) :: size_t) = length tasks" by (simp add: unsigned_of_nat take_bit_nat_eq_self)
  have "(of_nat (length tasks) :: size_t) \<noteq> - 1"
  proof
    assume "(of_nat (length tasks) :: size_t) = - 1"
    then have "length tasks = unat (- 1 :: size_t)" using n by simp
    with len show False by (simp add: unsigned_minus_1_eq_mask mask_eq_exp_minus_1)
  qed
  note al = bq_alloc_props [OF this, of "no_task :: ('k, 'v) map_key_task"]
  let ?q = "bq_alloc no_task (of_nat (length tasks)) :: ('k, 'v) map_key_task buffer_queue"
  have "\<not> (of_nat (length tasks) :: size_t) < 1" using t(2) n by (simp add: word_less_nat_alt)
  then have new: "bq_new no_task (of_nat (length tasks)) = Returns ?q" by (simp add: bq_new_def)
  obtain q1 where q1: "push_all tasks ?q = Some q1" "bq_wf q1" "bq_contents q1 = tasks"
    using push_all_some [of ?q tasks] al n by auto
  obtain ts p' where g: "get_threads (reducer_address opts) (num_reducers opts) (release_threads (mr_threads s) (mr_pool s)) = (ts, p')"
    by fastforce
  obtain hs mem q' where h: "start_reducers ts [0 \<mapsto> bq_close q1] = Some (hs, mem)" "mem 0 = Some q'" "bq_wf q'" "closed q'"
    "length hs = length (filter (\<lambda>t. t \<noteq> None) ts)"
    "\<forall>hp \<in> set hs. helper_ok 0 reducer_catches (reduce_task opts) q' hp \<and> spot hp = Loop_test \<and> taken hp = []"
    "mset (bq_contents q') + mset (concat (map prefetched hs)) = mset tasks"
    using start_reducers_ok [of "[0 \<mapsto> bq_close q1]" "bq_close q1" ts reducer_catches "reduce_task opts"] q1 by auto
  then show "\<exists>ts p' hs mem q'. get_threads (reducer_address opts) (num_reducers opts) (release_threads (mr_threads s) (mr_pool s)) = (ts, p') \<and>
        mr_shuffle opts s = s\<lparr>mr_pool := p', reducer_input := m, mr_phase := Reducing, mr_threads := ts,
          reducing := \<lparr>inputs = mem, helpers = hs, done_latch = cdl_new (of_nat (num_reducers opts))\<rparr>\<rparr> \<and>
        mem 0 = Some q' \<and> bq_wf q' \<and> closed q' \<and> length hs = length (filter (\<lambda>t. t \<noteq> None) ts) \<and>
        (\<forall>hp \<in> set hs. helper_ok 0 reducer_catches (reduce_task opts) q' hp \<and> spot hp = Loop_test \<and> taken hp = []) \<and>
        mset (bq_contents q') + mset (concat (map prefetched hs)) = mset tasks"
    using g q1(1) new t(1) assms(2)
    by (intro exI [of _ ts] exI [of _ p'] exI [of _ hs] exI [of _ mem] exI [of _ q']) (simp add: mr_shuffle_def Let_def)
qed

lemma merged_pairs:
  assumes "map_inv opts a k vs left s" and "done_latch (mapping s) = 0" and "0 < num_mappers opts"
    and "sorted (map fst left)" and "\<And>v. snd (map_fn opts v) = None"
  shows "k = num_mappers opts"
    and "mset (merge_outputs (helpers (mapping s)) (reducer_input s)) = mset left + mapped opts vs"
    and "sorted (map fst (merge_outputs (helpers (mapping s)) (reducer_input s)))"
proof -
  note inv = assms(1) [unfolded map_inv_def]
  show k: "k = num_mappers opts" using inv assms(2) by (simp add: stage_ok_def)
  have ne: "helpers (mapping s) \<noteq> []" using inv assms(3) k by auto
  have ok0: "stage_ok a 0 mapper_catches (map_fn opts) (mapping s)" using inv k by simp
  note d = stage_done [OF ok0 assms(2) assms(5) ne]
  have "mset (concat (map emitted (helpers (mapping s)))) = mapped opts (concat (map taken (helpers (mapping s))))"
    using emitted_all [of "helpers (mapping s)" "fst \<circ> map_fn opts"] d(2) by (simp add: mapped_def)
  also have "\<dots> = mapped opts vs" unfolding mapped_def by (rule concat_mset) (use inv d(1) in simp)
  finally show "mset (merge_outputs (helpers (mapping s)) (reducer_input s)) = mset left + mapped opts vs"
    "sorted (map fst (merge_outputs (helpers (mapping s)) (reducer_input s)))"
    using merge_outputs_props [of "helpers (mapping s)" left] assms(4) inv by auto
qed

lemma shuffle_inv:
  assumes "map_inv opts a k vs left s" and "done_latch (mapping s) = 0" and "sizes_ok opts" and "0 < num_mappers opts"
    and "sorted (map fst left)" and "\<And>v. snd (map_fn opts v) = None"
  shows "k = num_mappers opts" and "mr_inv opts a k vs left (mr_shuffle opts s)"
    and "mr_phase (mr_shuffle opts s) = Mapping \<Longrightarrow> False"
proof -
  define m where "m = merge_outputs (helpers (mapping s)) (reducer_input s)"
  note mp = merged_pairs [OF assms(1,2,4,5,6)]
  show k: "k = num_mappers opts" by (rule mp(1))
  have m: "mset m = mset left + mapped opts vs" "sorted (map fst m)" using mp(2,3) by (simp_all add: m_def)
  note c = shuffle_cases [OF assms(3) m_def]
  consider "shard_tasks opts m = None" | "shard_tasks opts m = Some []"
    | tasks where "shard_tasks opts m = Some tasks" "tasks \<noteq> []" by (cases "shard_tasks opts m") auto
  then have "mr_inv opts a k vs left (mr_shuffle opts s) \<and> mr_phase (mr_shuffle opts s) \<noteq> Mapping"
  proof cases
    case 3
    from c(3) [OF this] obtain ts p' hs mem q' where
      g: "get_threads (reducer_address opts) (num_reducers opts) (release_threads (mr_threads s) (mr_pool s)) = (ts, p')"
      and sh: "mr_shuffle opts s = s\<lparr>mr_pool := p', reducer_input := m, mr_phase := Reducing, mr_threads := ts,
          reducing := \<lparr>inputs = mem, helpers = hs, done_latch = cdl_new (of_nat (num_reducers opts))\<rparr>\<rparr>"
      and h: "mem 0 = Some q'" "bq_wf q'" "closed q'" "length hs = length (filter (\<lambda>t. t \<noteq> None) ts)"
        "\<forall>hp \<in> set hs. helper_ok 0 reducer_catches (reduce_task opts) q' hp \<and> spot hp = Loop_test \<and> taken hp = []"
        "mset (bq_contents q') + mset (concat (map prefetched hs)) = mset tasks" by blast
    have "length ts = num_reducers opts" using get_threads_length g by (metis fst_conv)
    then have "length hs \<le> num_reducers opts" using h(4) by (metis length_filter_le)
    then obtain missing where missing: "num_reducers opts = missing + length hs" using le_Suc_ex by (metis add.commute)
    let ?g = "\<lparr>inputs = mem, helpers = hs, done_latch = cdl_new (of_nat (num_reducers opts))\<rparr>"
    have "filter running hs = hs" using h(5) by (auto simp: filter_id_conv running_def)
    moreover have "unat (cdl_new (of_nat (num_reducers opts))) = missing + length hs"
      using assms(3) by (subst latch_word) (simp_all add: sizes_ok_def missing)
    ultimately have "stage_ok 0 missing reducer_catches (reduce_task opts) ?g"
      using h(1-3,5) by (simp add: stage_ok_def queue_at_def)
    moreover have "concat (map taken hs) = []" using h(5) by simp
    then have "values_of 0 ?g = mset tasks" using h(1,6) by (simp add: values_of_def queue_at_def)
    ultimately show ?thesis using 3 m missing k by (auto simp: sh mr_inv_def reduce_inv_def)
  qed (use c(1,2) in \<open>auto simp: mr_inv_def\<close>)
  then show "mr_inv opts a k vs left (mr_shuffle opts s)" "mr_phase (mr_shuffle opts s) = Mapping \<Longrightarrow> False" by auto
qed

lemma mr_step_inv:
  assumes "mr_step opts s s'" and "mr_inv opts a k vs left s" and "sizes_ok opts" and "0 < num_mappers opts"
    and "sorted (map fst left)" and "\<And>v. snd (map_fn opts v) = None"
  shows "mr_inv opts a k vs left s'"
  using assms(1)
proof cases
  case (map_step g)
  then have "map_inv opts a k vs left s" using assms(2) by (simp add: mr_inv_def)
  with stage_step_ok [OF map_step(3)] map_step(1,2) show ?thesis by (auto simp: mr_inv_def map_inv_def)
next
  case shuffle
  then have "map_inv opts a k vs left s" using assms(2) by (simp add: mr_inv_def)
  from shuffle_inv(2) [OF this _ assms(3-6)] shuffle show ?thesis by (simp add: latch_open)
next
  case (reduce_step g)
  then have i: "reduce_inv opts vs left s" "k = num_mappers opts" using assms(2) by (simp_all add: mr_inv_def)
  then have "reduce_inv opts vs left (s\<lparr>reducing := g\<rparr>)"
    using stage_step_ok [OF reduce_step(3)] unfolding reduce_inv_def by fastforce
  with i reduce_step(1,2) show ?thesis by (simp add: mr_inv_def)
next
  case finish
  with assms(2) show ?thesis by (auto simp: mr_inv_def reduce_inv_def latch_open)
qed

lemma mr_reachable_inv:
  assumes "(mr_step opts)\<^sup>*\<^sup>* s s'" and "mr_inv opts a k vs left s" and "sizes_ok opts" and "0 < num_mappers opts"
    and "sorted (map fst left)" and "\<And>v. snd (map_fn opts v) = None"
  shows "mr_inv opts a k vs left s'"
  using assms(1,2) by (induction rule: rtranclp_induct) (auto intro: mr_step_inv [OF _ _ assms(3-6)])

section \<open>The result\<close>

lemma reduce_keys_calls:
  "(\<And>k vs. exn k vs = None) \<Longrightarrow> reduce_keys exn m ks = (map (\<lambda>k. (k, equal_range k m)) ks, None)"
  by (induction ks) simp_all

lemma shard_tasks_calls:
  assumes "shard_tasks opts m = Some tasks" and "sorted (map fst m)" and "\<And>k vs. reduce_exn opts k vs = None"
  shows "mset (concat (map (fst \<circ> reduce_task opts) tasks)) =
     image_mset (\<lambda>k. (k, equal_range k m)) (mset_set (fst ` set m - lost_key (key_at_end opts) m))"
proof -
  obtain ws where ws: "shard_loop (\<lambda>k. default_shard (hash_fn opts) k (num_reduce_shards opts)) (key_at_end opts) m [] = Some ws"
    "tasks = map (\<lambda>(s, ks). \<lparr>work_key_set = ks, data_map = m, shard_id = s\<rparr>) ws" using assms(1) by (auto simp: shard_tasks_def)
  have "concat (map (fst \<circ> reduce_task opts) (map (\<lambda>(s, ks). \<lparr>work_key_set = ks, data_map = m, shard_id = s\<rparr>) ws)) =
      map (\<lambda>k. (k, equal_range k m)) (task_keys ws)"
    by (induction ws) (auto simp: task_keys_def reduce_task_def reduce_keys_calls assms(3))
  with shard_loop_first [OF ws(1) assms(2)] show ?thesis by (simp add: ws(2))
qed

lemma reduced_all:
  assumes "reduce_inv opts vs left s" and "done_latch (reducing s) = 0" and "0 < num_reducers opts"
    and "\<And>k vs. reduce_exn opts k vs = None"
  shows "mset (concat (map emitted (helpers (reducing s)))) =
     image_mset (\<lambda>k. (k, equal_range k (reducer_input s))) (mset_set (fst ` set (reducer_input s) - lost_key (key_at_end opts) (reducer_input s)))"
proof -
  from assms(1) obtain tasks missing where r: "sorted (map fst (reducer_input s))"
    "shard_tasks opts (reducer_input s) = Some tasks" "num_reducers opts = missing + length (helpers (reducing s))"
    "stage_ok 0 missing reducer_catches (reduce_task opts) (reducing s)" "values_of 0 (reducing s) = mset tasks"
    by (auto simp: reduce_inv_def)
  have "missing = 0" using r(4) assms(2) by (simp add: stage_ok_def)
  then have ok: "stage_ok 0 0 reducer_catches (reduce_task opts) (reducing s)" and ne: "helpers (reducing s) \<noteq> []"
    using r(3,4) assms(3) by auto
  have none: "snd (reduce_task opts t) = None" for t using assms(4) by (simp add: reduce_task_def reduce_keys_calls)
  note d = stage_done [OF ok assms(2) none ne]
  have "mset (concat (map emitted (helpers (reducing s)))) = mset (concat (map (fst \<circ> reduce_task opts) (concat (map taken (helpers (reducing s))))))"
    using emitted_all [of "helpers (reducing s)" "fst \<circ> reduce_task opts"] d(2) by simp
  also have "\<dots> = mset (concat (map (fst \<circ> reduce_task opts) tasks))" by (rule concat_mset) (use r(5) d(1) in simp)
  finally show ?thesis using shard_tasks_calls [OF r(2,1) assms(4)] by simp
qed

text \<open>C12. When \<open>run\<close> returns, the reducers have been called exactly once for every key that was mapped, with all the
  values mapped to it, in whatever order the threads ran, with two exceptions the code makes: every mapper
  starts with a copy of the iterator and so maps the first input value once more, and the least key is left
  out if it is what the dereferenced \<open>end()\<close> holds. \<open>left\<close> is what an earlier \<open>run\<close> of the same object left behind.\<close>

theorem map_reduce_result:
  assumes "input_ok a it mem x rest" and "sizes_ok opts" and "0 < num_mappers opts" and "0 < num_reducers opts"
    and "sorted (map fst left)" and "\<And>v. snd (map_fn opts v) = None" and "\<And>k vs. reduce_exn opts k vs = None"
    and "(mr_step opts)\<^sup>*\<^sup>* (mr_start opts left pool it mem) s" and "mr_phase s = Run_returned"
  shows "mset (reducer_input s) = mset left + mapped opts (replicate (num_mappers opts) x @ rest) \<and>
     mset (concat (map emitted (helpers (reducing s)))) =
       image_mset (\<lambda>k. (k, equal_range k (reducer_input s)))
         (mset_set (fst ` set (reducer_input s) - lost_key (key_at_end opts) (reducer_input s)))"
proof -
  obtain ts p where g: "get_threads (mapper_address opts) (num_mappers opts) pool = (ts, p)" by fastforce
  then have "length ts = num_mappers opts" using get_threads_length by (metis fst_conv)
  moreover obtain k where k: "k = length (filter (\<lambda>t. t \<noteq> None) ts)" by simp
  ultimately have start: "mr_inv opts a k (replicate k x @ rest) left (mr_start opts left pool it mem)"
    by (rule mr_start_inv [OF assms(1,2) g])
  have "mr_inv opts a k (replicate k x @ rest) left s" by (rule mr_reachable_inv [OF assms(8) start assms(2,3,5,6)])
  with assms(9) have r: "reduce_inv opts (replicate (num_mappers opts) x @ rest) left s" "done_latch (reducing s) = 0"
    by (auto simp: mr_inv_def)
  then show ?thesis using reduced_all [OF r assms(4,7)] by (simp add: reduce_inv_def)
qed

text \<open>C38. With fewer threads in the pool than mappers \<open>run\<close> never returns: the latch waits for the mappers that were not
  started, however long the others run.\<close>

theorem map_reduce_starves:
  assumes "input_ok a it mem x rest" and "sizes_ok opts" and "pool_ok pool"
    and "new_addresses (mapper_address opts) (num_mappers opts) pool" and "lendable pool < num_mappers opts"
    and "(mr_step opts)\<^sup>*\<^sup>* (mr_start opts left pool it mem) s"
  shows "mr_phase s = Mapping"
proof -
  obtain ts p where g: "get_threads (mapper_address opts) (num_mappers opts) pool = (ts, p)" by fastforce
  have k: "length ts = num_mappers opts" "length (filter (\<lambda>t. t \<noteq> None) ts) < num_mappers opts"
    using get_threads_lends [OF assms(3,4) g] assms(5) by auto
  let ?k = "length (filter (\<lambda>t. t \<noteq> None) ts)"
  have start: "map_inv opts a ?k (replicate ?k x @ rest) left (mr_start opts left pool it mem)" "mr_phase (mr_start opts left pool it mem) = Mapping"
    using mr_start_inv [OF assms(1,2) g k(1) refl, of left] by (simp_all add: mr_inv_def mr_start_def split: prod.splits)
  from assms(6) have "map_inv opts a ?k (replicate ?k x @ rest) left s \<and> mr_phase s = Mapping"
  proof (induction rule: rtranclp_induct)
    case (step s s')
    from step.hyps(2) show ?case
    proof cases
      case (map_step g)
      with step.IH stage_step_ok [OF map_step(3)] show ?thesis by (auto simp: map_inv_def)
    next
      case shuffle
      with step.IH k(2) show ?thesis by (auto simp: map_inv_def stage_ok_def latch_open)
    qed (use step.IH in simp_all)
  qed (use start in simp)
  then show ?thesis by simp
qed

text \<open>Nor does \<open>run\<close> return when one mapper was accepted by a thread that never runs it.\<close>

theorem map_reduce_stranded:
  assumes "input_ok a it mem x rest" and "sizes_ok opts" and "pool_ok pool"
    and "new_addresses (mapper_address opts) (num_mappers opts) pool" and "num_mappers opts \<le> lendable pool"
    and "i < num_mappers opts" and "\<not> mapper_runs opts i"
    and "(mr_step opts)\<^sup>*\<^sup>* (mr_start opts left pool it mem) s"
  shows "mr_phase s = Mapping"
proof -
  obtain ts p where g: "get_threads (mapper_address opts) (num_mappers opts) pool = (ts, p)" by fastforce
  have k: "length ts = num_mappers opts" "num_mappers opts = length (filter (\<lambda>t. t \<noteq> None) ts)"
    using get_threads_lends [OF assms(3,4) g] assms(5) by auto
  let ?n = "num_mappers opts"
  let ?waits = "\<lambda>g. i < length (helpers g) \<and> spot (helpers g ! i) = Loop_test"
  have start: "map_inv opts a ?n (replicate ?n x @ rest) left (mr_start opts left pool it mem)"
    "mr_phase (mr_start opts left pool it mem) = Mapping" "?waits (mapping (mr_start opts left pool it mem))"
    using mr_start_inv [OF assms(1,2) g k, of left] g k assms(6)
    by (simp_all add: mr_inv_def mr_start_def helper_new_def)
  from assms(8) have "map_inv opts a ?n (replicate ?n x @ rest) left s \<and> mr_phase s = Mapping \<and> ?waits (mapping s)"
  proof (induction rule: rtranclp_induct)
    case (step s s')
    from step.hyps(2) show ?case
    proof cases
      case (map_step g)
      then have "?waits g" using step.IH assms(7) by (auto elim!: stage_step.cases simp: nth_list_update)
      with map_step step.IH stage_step_ok [OF map_step(3)] show ?thesis by (auto simp: map_inv_def)
    next
      case shuffle
      have "running (helpers (mapping s) ! i)" using step.IH by (simp add: running_def)
      then have "filter running (helpers (mapping s)) \<noteq> []" using step.IH by (auto simp: filter_empty_conv)
      with shuffle step.IH show ?thesis by (auto simp: map_inv_def stage_ok_def latch_open)
    qed (use step.IH in simp_all)
  qed (use start in simp)
  then show ?thesis by simp
qed

section \<open>A run returns\<close>

text \<open>The pool has room for the mappers and, after they are released, for the reducers; some key is reduced.\<close>

definition room_ok :: "('i, 'k, 'v) mr_options \<Rightarrow> thread_pool \<Rightarrow> bool" where
  "room_ok opts pool \<longleftrightarrow> pool_ok pool \<and> \<not> pool_shutting_down pool \<and>
     card (active_threads pool) + num_mappers opts \<le> max_threads pool \<and>
     card (active_threads pool) + num_reducers opts \<le> max_threads pool \<and>
     new_addresses (mapper_address opts) (num_mappers opts) pool \<and> new_addresses (reducer_address opts) (num_reducers opts) pool"

definition some_key :: "('i, 'k, 'v) mr_options \<Rightarrow> ('k \<times> 'v) multiset \<Rightarrow> bool" where
  "some_key opts D \<longleftrightarrow> (\<exists>p \<in># D. fst p \<noteq> key_at_end opts) \<and> 0 < num_reduce_shards opts"

lemma room_lendable: "\<not> pool_shutting_down p \<Longrightarrow> card (active_threads p) + n \<le> max_threads p \<Longrightarrow> n \<le> lendable p"
  by (simp add: lendable_def)

lemma shard_loop_total:
  "(\<And>k. sh k \<noteq> None) \<Longrightarrow> shard_loop sh prev m ws \<noteq> None"
proof (induction sh prev m ws rule: shard_loop.induct)
  case (2 sharder prev k v m ws)
  obtain s where "sharder k = Some s" using 2(3) [of k] by blast
  with 2 show ?case by auto
qed simp

lemma some_tasks:
  assumes "some_key opts (mset m)" and "sorted (map fst m)"
  shows "\<exists>tasks. shard_tasks opts m = Some tasks \<and> tasks \<noteq> []"
proof -
  let ?sh = "\<lambda>k. default_shard (hash_fn opts) k (num_reduce_shards opts)"
  have "?sh k \<noteq> None" for k using assms(1) by (simp add: default_shard_def some_key_def)
  then obtain ws where ws: "shard_loop ?sh (key_at_end opts) m [] = Some ws" using shard_loop_total [of ?sh] by blast
  obtain p where "p \<in> set m" "fst p \<noteq> key_at_end opts" using assms(1) by (auto simp: some_key_def)
  then have "fst p \<in> fst ` set m - lost_key (key_at_end opts) m" by (auto simp: lost_key_def split: list.splits)
  then have "mset (task_keys ws) \<noteq> {#}" using shard_loop_first [OF ws assms(2)] by (auto simp: mset_set_empty_iff)
  then have "ws \<noteq> []" by (auto simp: task_keys_def)
  with ws show ?thesis by (auto simp: shard_tasks_def)
qed

definition live_inv :: "('i, 'k, 'v) mr_options \<Rightarrow> thread_pool \<Rightarrow> nat option list \<Rightarrow> ('i, 'k, 'v) map_reduce \<Rightarrow> bool" where
  "live_inv opts p ts s \<longleftrightarrow> (case mr_phase s of
      Mapping \<Rightarrow> mr_pool s = p \<and> mr_threads s = ts
    | Reducing \<Rightarrow> length (helpers (reducing s)) = num_reducers opts
    | Run_returned \<Rightarrow> True
    | _ \<Rightarrow> False)"

lemma released_room:
  assumes "room_ok opts pool" and "get_threads (mapper_address opts) (num_mappers opts) pool = (ts, p)"
    and "get_threads (reducer_address opts) (num_reducers opts) (release_threads ts p) = (us, p')"
  shows "length (filter (\<lambda>t. t \<noteq> None) us) = num_reducers opts"
proof -
  note room = assms(1) [unfolded room_ok_def]
  let ?r = "release_threads ts p"
  have l: "pool_ok p" "active_threads p = active_threads pool \<union> {t. Some t \<in> set ts}" "\<forall>t. Some t \<in> set ts \<longrightarrow> t \<notin> active_threads pool"
    using get_threads_lends [OF _ _ assms(2)] room by auto
  have u: "unused_threads p \<subseteq> unused_threads pool" by (rule get_threads_unused [OF _ assms(2)]) (use room in \<open>simp add: pool_ok_def\<close>)
  have r: "active_threads ?r = active_threads pool" "unused_threads ?r = unused_threads p" "max_threads ?r = max_threads pool"
    "\<not> pool_shutting_down ?r"
    using release_threads_gives [of ts p] get_threads_keeps [OF assms(2)] l room by auto
  have "pool_ok ?r" using l(1) room r u by (auto simp: pool_ok_def)
  moreover have "new_addresses (reducer_address opts) (num_reducers opts) ?r" using room r u by (auto simp: new_addresses_def)
  moreover have "num_reducers opts \<le> lendable ?r" by (rule room_lendable) (use r room in simp_all)
  ultimately show ?thesis using get_threads_lends [OF _ _ assms(3)] by simp
qed

lemma mr_step_live:
  assumes "mr_step opts s s'" and "mr_inv opts a k vs left s" and "live_inv opts p ts s"
    and "sizes_ok opts" and "0 < num_mappers opts" and "sorted (map fst left)" and "\<And>v. snd (map_fn opts v) = None"
    and "room_ok opts pool" and "get_threads (mapper_address opts) (num_mappers opts) pool = (ts, p)"
    and "some_key opts (mset left + mapped opts vs)"
  shows "live_inv opts p ts s'"
  using assms(1)
proof cases
  case (map_step g)
  with assms(3) show ?thesis by (simp add: live_inv_def)
next
  case shuffle
  then have mi: "map_inv opts a k vs left s" using assms(2) by (simp add: mr_inv_def)
  have "done_latch (mapping s) = 0" using shuffle(3) by (simp add: latch_open)
  define m where "m = merge_outputs (helpers (mapping s)) (reducer_input s)"
  have m: "mset m = mset left + mapped opts vs" "sorted (map fst m)"
    using merged_pairs [OF mi \<open>done_latch (mapping s) = 0\<close> assms(5-7)] by (simp_all add: m_def)
  with some_tasks [OF _ m(2)] assms(10) obtain tasks where "shard_tasks opts m = Some tasks" "tasks \<noteq> []" by auto
  from shuffle_cases(3) [OF assms(4) m_def this] obtain us p' hs mem where
    g: "get_threads (reducer_address opts) (num_reducers opts) (release_threads (mr_threads s) (mr_pool s)) = (us, p')"
    and sh: "mr_shuffle opts s = s\<lparr>mr_pool := p', reducer_input := m, mr_phase := Reducing, mr_threads := us,
          reducing := \<lparr>inputs = mem, helpers = hs, done_latch = cdl_new (of_nat (num_reducers opts))\<rparr>\<rparr>"
    and "length hs = length (filter (\<lambda>t. t \<noteq> None) us)" by blast
  moreover have "mr_pool s = p" "mr_threads s = ts" using assms(3) shuffle(2) by (simp_all add: live_inv_def)
  ultimately have "length hs = num_reducers opts" using released_room [OF assms(8,9)] by metis
  then show ?thesis by (simp add: shuffle(1) sh live_inv_def)
next
  case (reduce_step g)
  then obtain missing where "stage_ok 0 missing reducer_catches (reduce_task opts) (reducing s)"
    using assms(2) by (auto simp: mr_inv_def reduce_inv_def)
  from stage_step_ok [OF reduce_step(3) this] reduce_step assms(3) show ?thesis by (simp add: live_inv_def)
qed (simp add: live_inv_def)

text \<open>The weight of a state: the phases left, then the weight of the stage that runs.\<close>

definition mr_weight :: "nat \<Rightarrow> ('i, 'k, 'v) map_reduce \<Rightarrow> nat \<times> nat" where
  "mr_weight a s = (case mr_phase s of
      Mapping \<Rightarrow> (2, stage_weight a (mapping s))
    | Reducing \<Rightarrow> (1, stage_weight 0 (reducing s))
    | _ \<Rightarrow> (0, 0))"

lemma mr_step_weight:
  assumes "mr_step opts s s'" and "mr_inv opts a k vs left s" and "sizes_ok opts" and "0 < num_mappers opts"
    and "sorted (map fst left)" and "\<And>v. snd (map_fn opts v) = None"
  shows "(mr_weight a s', mr_weight a s) \<in> less_than <*lex*> less_than"
  using assms(1)
proof cases
  case (map_step g)
  then have "map_inv opts a k vs left s" using assms(2) by (simp add: mr_inv_def)
  then have "stage_weight a g < stage_weight a (mapping s)"
    using stage_step_weight [OF map_step(3)] by (auto simp: map_inv_def)
  with map_step show ?thesis by (simp add: mr_weight_def)
next
  case shuffle
  then have "map_inv opts a k vs left s" using assms(2) by (simp add: mr_inv_def)
  from shuffle_inv(3) [OF this _ assms(3-6)] shuffle have "mr_phase s' \<noteq> Mapping" by (auto simp: latch_open)
  then show ?thesis using shuffle(2) by (auto simp: mr_weight_def split: mr_phase.splits)
next
  case (reduce_step g)
  then obtain missing where "stage_ok 0 missing reducer_catches (reduce_task opts) (reducing s)"
    using assms(2) by (auto simp: mr_inv_def reduce_inv_def)
  from stage_step_weight [OF reduce_step(3) this] reduce_step show ?thesis by (simp add: mr_weight_def)
next
  case finish
  then show ?thesis by (simp add: mr_weight_def)
qed

text \<open>C37. \<open>run\<close> returns, provided that every function a thread of the pool accepts is run (\<open>mutable_thread\<close> may
  strand one, \<open>mutable_thread_stranded\<close>; then \<open>run\<close> waits for ever, \<open>map_reduce_stranded\<close>): with at least one mapper,
  numbers of mappers, reducers and shards that fit their types, room in the pool for the mappers and then for the
  reducers, a closed input that is not empty, a reducer input in order of its keys, functions that do not
  throw, copies that do not throw and a key to reduce, no state a run reaches is stuck before it has returned, no
  exception or undefined behaviour is met, and no run goes on for ever.\<close>

theorem map_reduce_returns:
  assumes "input_ok a it mem x rest" and "sizes_ok opts" and "0 < num_mappers opts" and "sorted (map fst left)"
    and "\<And>v. snd (map_fn opts v) = None" and "\<And>k vs. reduce_exn opts k vs = None" and "room_ok opts pool"
    and "some_key opts (mset left + mapped opts (replicate (num_mappers opts) x @ rest))"
    and "\<And>i. mapper_runs opts i" and "\<And>i. reducer_runs opts i"
  shows "(\<forall>s. (mr_step opts)\<^sup>*\<^sup>* (mr_start opts left pool it mem) s \<longrightarrow> (\<exists>s'. mr_step opts s s') \<or> mr_phase s = Run_returned) \<and>
    (\<nexists>f. f 0 = mr_start opts left pool it mem \<and> (\<forall>i. mr_step opts (f i) (f (Suc i))))"
proof -
  let ?s0 = "mr_start opts left pool it mem" and ?vs = "replicate (num_mappers opts) x @ rest"
  obtain ts p where g: "get_threads (mapper_address opts) (num_mappers opts) pool = (ts, p)" by fastforce
  note room = assms(7) [unfolded room_ok_def]
  have k: "length ts = num_mappers opts" "num_mappers opts = length (filter (\<lambda>t. t \<noteq> None) ts)"
    using get_threads_lends [OF _ _ g] room room_lendable [of pool "num_mappers opts"] by auto
  have start: "mr_inv opts a (num_mappers opts) ?vs left ?s0" by (rule mr_start_inv [OF assms(1,2) g k])
  have live0: "live_inv opts p ts ?s0" using g by (simp add: mr_start_def live_inv_def)
  have inv: "mr_inv opts a (num_mappers opts) ?vs left s \<and> live_inv opts p ts s" if "(mr_step opts)\<^sup>*\<^sup>* ?s0 s" for s
    using that
  proof (induction rule: rtranclp_induct)
    case (step s s')
    with mr_step_inv [OF step.hyps(2) _ assms(2-5)] mr_step_live [OF step.hyps(2) _ _ assms(2-5,7) g assms(8)] show ?case by blast
  qed (use start live0 in simp)
  have "(\<exists>s'. mr_step opts s s') \<or> mr_phase s = Run_returned" if "(mr_step opts)\<^sup>*\<^sup>* ?s0 s" for s
  proof (rule ccontr)
    assume stuck: "\<not> ((\<exists>s'. mr_step opts s s') \<or> mr_phase s = Run_returned)"
    note i = inv [OF that]
    consider "mr_phase s = Mapping" | "mr_phase s = Reducing" using i stuck by (cases "mr_phase s") (auto simp: live_inv_def)
    then show False
    proof cases
      case 1
      then have ok: "stage_ok a 0 mapper_catches (map_fn opts) (mapping s)" using i by (simp add: mr_inv_def map_inv_def)
      have "\<nexists>g. stage_step (mapper_runs opts) mapper_catches (map_fn opts) (no_input opts) (mapping s) g" using 1 stuck mr_step.map_step by blast
      from stage_progress [OF ok _ this assms(9)] have "done_latch (mapping s) = 0" by (simp add: mapper_catches_def unat_eq_0)
      then show False using 1 stuck mr_step.shuffle latch_open by blast
    next
      case 2
      then obtain missing where ok: "stage_ok 0 missing reducer_catches (reduce_task opts) (reducing s)"
        "num_reducers opts = missing + length (helpers (reducing s))" using i by (auto simp: mr_inv_def reduce_inv_def)
      have "missing = 0" using i 2 ok(2) by (simp add: live_inv_def)
      have "\<nexists>g. stage_step (reducer_runs opts) reducer_catches (reduce_task opts) no_task (reducing s) g" using 2 stuck mr_step.reduce_step by blast
      from stage_progress [OF ok(1) _ this assms(10)] have "done_latch (reducing s) = 0"
        using \<open>missing = 0\<close> assms(6) by (simp add: reduce_task_def reduce_keys_calls unat_eq_0)
      then show False using 2 stuck mr_step.finish latch_open by blast
    qed
  qed
  moreover have "\<nexists>f. f 0 = ?s0 \<and> (\<forall>i. mr_step opts (f i) (f (Suc i)))"
  proof
    assume "\<exists>f. f 0 = ?s0 \<and> (\<forall>i. mr_step opts (f i) (f (Suc i)))"
    then obtain f where f: "f 0 = ?s0" "\<And>i. mr_step opts (f i) (f (Suc i))" by blast
    have "(mr_step opts)\<^sup>*\<^sup>* ?s0 (f i)" for i by (induction i) (use f in \<open>auto intro: rtranclp.rtrancl_into_rtrancl\<close>)
    then have "(mr_weight a (f (Suc i)), mr_weight a (f i)) \<in> less_than <*lex*> less_than" for i
      using mr_step_weight [OF f(2) _ assms(2-5)] inv by blast
    then have "\<exists>g. \<forall>i. (g (Suc i), g i) \<in> less_than <*lex*> less_than" by (intro exI [of _ "\<lambda>i. mr_weight a (f i)"]) simp
    then have "\<not> wf (less_than <*lex*> less_than)" by (simp only: wf_iff_no_infinite_down_chain) simp
    then show False by (simp add: wf_lex_prod)
  qed
  ultimately show ?thesis by blast
qed

end
