(* ===== verification/Map_Reduce_Examples.thy ===== *)
theory Map_Reduce_Examples
  imports Map_Reduce
begin

text \<open>
  A run of \<open>map_reduce\<close> on the input of three numbers, as in \<open>testing/map_reduce_test.cc\<close>: the mapper takes the last
  digit as key. Instances of the theorems of \<open>Map_Reduce\<close>.
\<close>

section \<open>Schedules\<close>

definition stage_moves :: "(nat \<Rightarrow> bool) \<Rightarrow> (cpp_exn \<Rightarrow> bool) \<Rightarrow> ('a \<Rightarrow> 'b list \<times> cpp_exn option) \<Rightarrow> 'a \<Rightarrow> nat \<Rightarrow> ('a, 'b) stage \<Rightarrow> ('a, 'b) stage option" where
  "stage_moves runs catches body d i s = (if i < length (helpers s) \<and> runs i then
     (case helper_step catches body d (helpers s ! i, inputs s, done_latch s) of None \<Rightarrow> None
      | Some (hp, mem, l) \<Rightarrow> Some (s\<lparr>inputs := mem, helpers := (helpers s)[i := hp], done_latch := l\<rparr>)) else None)"

text \<open>\<open>Some i\<close> moves thread \<open>i\<close>, \<open>None\<close> the thread that waits for the latch.\<close>

definition mr_moves :: "('i, 'k::linorder, 'v) mr_options \<Rightarrow> nat option \<Rightarrow> ('i, 'k, 'v) map_reduce \<Rightarrow> ('i, 'k, 'v) map_reduce option" where
  "mr_moves opts c s = (case mr_phase s of
      Mapping \<Rightarrow> (case c of
          None \<Rightarrow> if done_latch (mapping s) = 0 then Some (mr_shuffle opts s) else None
        | Some i \<Rightarrow> map_option (\<lambda>g. s\<lparr>mapping := g\<rparr>) (stage_moves (mapper_runs opts) mapper_catches (map_fn opts) (no_input opts) i (mapping s)))
    | Reducing \<Rightarrow> (case c of
          None \<Rightarrow> if done_latch (reducing s) = 0
            then Some (s\<lparr>mr_phase := Run_returned, mr_pool := release_threads (mr_threads s) (mr_pool s)\<rparr>) else None
        | Some i \<Rightarrow> map_option (\<lambda>g. s\<lparr>reducing := g\<rparr>) (stage_moves (reducer_runs opts) reducer_catches (reduce_task opts) no_task i (reducing s)))
    | _ \<Rightarrow> None)"

fun mr_schedule :: "('i, 'k::linorder, 'v) mr_options \<Rightarrow> nat option list \<Rightarrow> ('i, 'k, 'v) map_reduce \<Rightarrow> ('i, 'k, 'v) map_reduce option" where
  "mr_schedule opts [] s = Some s"
| "mr_schedule opts (c # cs) s = Option.bind (mr_moves opts c s) (mr_schedule opts cs)"

lemma stage_moves_step: "stage_moves runs catches body d i s = Some s' \<Longrightarrow> stage_step runs catches body d s s'"
  by (auto simp: stage_moves_def split: if_splits option.splits intro: stage_step.stage_step)

lemma mr_moves_step: "mr_moves opts c s = Some s' \<Longrightarrow> mr_step opts s s'"
  by (auto simp: mr_moves_def latch_open split: mr_phase.splits option.splits if_splits
      intro: mr_step.intros stage_moves_step)

lemma mr_schedule_steps: "mr_schedule opts cs s = Some s' \<Longrightarrow> (mr_step opts)\<^sup>*\<^sup>* s s'"
proof (induction cs arbitrary: s)
  case (Cons c cs)
  then obtain t where "mr_moves opts c s = Some t" "mr_schedule opts cs t = Some s'" by (auto simp: bind_eq_Some_conv)
  with Cons.IH mr_moves_step show ?case by (meson converse_rtranclp_into_rtranclp)
qed simp

section \<open>Two mappers, two reducers\<close>

definition sample_options :: "nat \<Rightarrow> (nat, nat, nat) mr_options" where
  "sample_options junk = \<lparr>num_mappers = 2, num_reduce_shards = 19, num_reducers = 2, map_fn = (\<lambda>v. ([(v mod 10, v)], None)),
     reduce_exn = (\<lambda>k vs. None), hash_fn = (\<lambda>k. k), key_at_end = junk, no_input = 0,
     mapper_address = (\<lambda>i. i + 1), reducer_address = (\<lambda>i. i + 5),
     mapper_runs = (\<lambda>i. True), reducer_runs = (\<lambda>i. True)\<rparr>"

definition sample_queue :: "nat buffer_queue" where
  "sample_queue = bq_close (pushed 22 (pushed 12 (pushed 10 (bq_alloc 0 4))))"

definition sample_input :: "unit outcome \<times> nat front_iter \<times> nat buffer_queue memory" where
  "sample_input = front_iter_begin (bq_wait_pop True) (Some 0) [0 \<mapsto> sample_queue]"

definition sample_start :: "nat \<Rightarrow> nat \<Rightarrow> (nat, nat, nat) map_reduce" where
  "sample_start junk threads = mr_start (sample_options junk) [] (thread_pool_bounded 0 threads (\<lambda>_. 0))
     (fst (snd sample_input)) (snd (snd sample_input))"

definition mr_sample_order :: "nat option list" where
  "mr_sample_order = map Some [0, 1, 0, 1, 0, 1, 0, 1, 0, 1, 0, 1] @ [None] @ map Some [0, 1, 0, 1, 0, 1, 0, 1] @ [None]"

definition returned_with :: "('k \<times> 'v) list \<Rightarrow> ('k \<times> 'v list) list \<Rightarrow> (nat, 'k, 'v) map_reduce option \<Rightarrow> bool" where
  "returned_with pairs calls r = (case r of None \<Rightarrow> False
     | Some s \<Rightarrow> (case mr_phase s of Run_returned \<Rightarrow> True | _ \<Rightarrow> False) \<and> reducer_input s = pairs \<and>
         concat (map emitted (helpers (reducing s))) = calls)"

lemma mr_sample_runs:
  "returned_with [(0, 10), (0, 10), (2, 12), (2, 22)] [(0, [10, 10]), (2, [12, 22])]
     (mr_schedule (sample_options 7) mr_sample_order (sample_start 7 2))"
  by code_simp

lemma sample_input_ok: "input_ok 0 (fst (snd sample_input)) (snd (snd sample_input)) 10 [12, 22]"
proof -
  have "bq_wf sample_queue \<and> closed sample_queue \<and> bq_contents sample_queue = [10, 12, 22]"
  proof -
    let ?q = "bq_alloc 0 4 :: nat buffer_queue"
    have q: "bq_wf ?q" "bq_contents ?q = []" "bq_capacity ?q = 4" using bq_alloc_props [of 4 "0 :: nat"] by simp_all
    have q1: "bq_wf (pushed 10 ?q)" "bq_contents (pushed 10 ?q) = [10]" using pushed_props [of ?q 10] q by simp_all
    have q2: "bq_wf (pushed 12 (pushed 10 ?q))" "bq_contents (pushed 12 (pushed 10 ?q)) = [10, 12]"
      using pushed_props [of "pushed 10 ?q" 12] q1 q(3) by simp_all
    show ?thesis using pushed_props [of "pushed 12 (pushed 10 ?q)" 22] q2 q(3) by (simp add: sample_queue_def)
  qed
  then show ?thesis
    using front_iter_next_eq [of "\<lparr>fi_queue = Some 0, fi_value = None\<rparr>" 0 "[0 \<mapsto> sample_queue]" sample_queue] popped_props [of sample_queue]
    by (simp add: input_ok_def sample_input_def front_iter_begin_def)
qed

lemma sample_sizes: "sizes_ok (sample_options junk)" "num_mappers (sample_options junk) = 2" "num_reducers (sample_options junk) = 2"
  "snd (map_fn (sample_options junk) v) = None" "reduce_exn (sample_options junk) k vs = None"
  "mapper_runs (sample_options junk) i" "reducer_runs (sample_options junk) i"
  by (simp_all add: sizes_ok_def sample_options_def)

text \<open>The first number, 10, is mapped twice.\<close>

theorem map_reduce_result_witness:
  "\<exists>s. (mr_step (sample_options 7))\<^sup>*\<^sup>* (sample_start 7 2) s \<and> mr_phase s = Run_returned \<and>
     mset (reducer_input s) = {#(0, 10), (0, 10), (2, 12), (2, 22)#} \<and>
     mset (concat (map emitted (helpers (reducing s)))) = {#(0, [10, 10]), (2, [12, 22])#}"
proof -
  obtain s where s: "mr_schedule (sample_options 7) mr_sample_order (sample_start 7 2) = Some s" "mr_phase s = Run_returned"
    "reducer_input s = [(0, 10), (0, 10), (2, 12), (2, 22)]"
    using mr_sample_runs by (auto simp: returned_with_def split: option.splits mr_phase.splits)
  note run = mr_schedule_steps [OF s(1)]
  have "mset (concat (map emitted (helpers (reducing s)))) =
     image_mset (\<lambda>k. (k, equal_range k (reducer_input s)))
       (mset_set (fst ` set (reducer_input s) - lost_key (key_at_end (sample_options 7)) (reducer_input s)))"
    using map_reduce_result [OF sample_input_ok sample_sizes(1), of 7 "[]" "thread_pool_bounded 0 2 (\<lambda>_. 0)" s] sample_sizes s(2) run
    by (simp add: sample_start_def)
  then have "mset (concat (map emitted (helpers (reducing s)))) = {#(0, [10, 10]), (2, [12, 22])#}"
    by (simp add: s(3) lost_key_def sample_options_def equal_range_def)
  with s(2,3) run show ?thesis by auto
qed

lemma starved_runs:
  "case mr_schedule (sample_options 7) (map Some [0, 0, 0, 0, 0, 0, 0, 0]) (sample_start 7 1) of None \<Rightarrow> False
   | Some s \<Rightarrow> done_latch (mapping s) = 1 \<and> mr_moves (sample_options 7) (Some 0) s = None"
  by code_simp

text \<open>The only mapper there is has done everything and counted down once.\<close>

theorem map_reduce_starves_witness:
  "\<exists>s. (mr_step (sample_options 7))\<^sup>*\<^sup>* (sample_start 7 1) s \<and> done_latch (mapping s) = 1 \<and> mr_phase s = Mapping"
proof -
  obtain s where s: "mr_schedule (sample_options 7) (map Some [0, 0, 0, 0, 0, 0, 0, 0]) (sample_start 7 1) = Some s" "done_latch (mapping s) = 1"
    using starved_runs by (auto split: option.splits)
  let ?p = "thread_pool_bounded 0 1 (\<lambda>_. 0)"
  have "new_addresses (mapper_address (sample_options 7)) (num_mappers (sample_options 7)) ?p" "lendable ?p < num_mappers (sample_options 7)"
    by (auto simp: new_addresses_def sample_options_def thread_pool_bounded_def lendable_def)
  from map_reduce_starves [OF sample_input_ok sample_sizes(1) pool_ok_new(1) this, of "[]" s] mr_schedule_steps [OF s(1)]
  have "mr_phase s = Mapping" by (simp add: sample_start_def)
  with s(2) mr_schedule_steps [OF s(1)] show ?thesis by blast
qed

theorem map_reduce_returns_witness:
  "(\<exists>s. mr_step (sample_options 7) (sample_start 7 2) s) \<and>
     (\<nexists>f. f 0 = sample_start 7 2 \<and> (\<forall>i. mr_step (sample_options 7) (f i) (f (Suc i))))"
proof -
  let ?p = "thread_pool_bounded 0 2 (\<lambda>_. 0)" and ?o = "sample_options 7"
  have "room_ok ?o ?p" using pool_ok_new(1) [of 0 2 "\<lambda>_. 0"]
    by (auto simp: room_ok_def new_addresses_def sample_options_def thread_pool_bounded_def)
  moreover have "some_key ?o (mset [] + mapped ?o (replicate (num_mappers ?o) 10 @ [12, 22]))"
    by (auto simp: some_key_def mapped_def sample_options_def)
  moreover have "mr_phase (sample_start 7 2) = Mapping" by (simp add: sample_start_def mr_start_def split: prod.splits)
  ultimately show ?thesis
    using map_reduce_returns [OF sample_input_ok sample_sizes(1), of 7 "[]" ?p] sample_sizes by (auto simp: sample_start_def)
qed

section \<open>The least key lost\<close>

text \<open>The same run when \<open>end()->first\<close> reads 0: no reducer sees the values 10.\<close>

lemma sample_key_lost:
  "returned_with [(0, 10), (0, 10), (2, 12), (2, 22)] [(2, [12, 22])]
     (mr_schedule (sample_options 0) (map Some [0, 1, 0, 1, 0, 1, 0, 1, 0, 1, 0, 1] @ [None] @ map Some [0, 1, 0, 1, 0, 0] @ [None]) (sample_start 0 2))"
  by code_simp

end
