(* ===== verification/Dedup_Mbuffer.thy ===== *)
theory Dedup_Mbuffer
  imports Gcl_Prelude "HOL-Library.Multiset"
begin

text \<open>
  \<open>samples/dedup/mbuffer.c\<close>: buffers that share one allocated area behind a reference-counted control
  block. An area is a list of bytes at an address, a buffer a window of it; \<open>malloc\<close> and \<open>realloc\<close>
  answer with a fresh address or \<open>None\<close>. Failed assertions and accesses to freed memory are
  \<open>Undefined\<close>. The locks only make the updates of a control block atomic; every operation updates
  one control block once, so it is one step. \<open>structs\<close> are the \<open>mbuffer_t\<close> structures that \<open>mbuffer_clone\<close>
  and \<open>mbuffer_copy\<close> have allocated and nobody has freed; those of the other operations belong to the caller.
\<close>

record mcb_t =
  refs :: "32 word"
  mcb_ptr :: nat

record mbuffer_t =
  area :: nat
  offset :: nat
  extent :: nat
  mcb :: nat

record mb_memory =
  areas :: "nat \<rightharpoonup> 8 word list"
  mcbs :: "nat \<rightharpoonup> mcb_t"
  structs :: "nat set"

definition mbuffer_create :: "nat option \<Rightarrow> nat option \<Rightarrow> nat \<Rightarrow> mb_memory
    \<Rightarrow> (int \<times> mbuffer_t option) outcome \<times> mb_memory" where
  "mbuffer_create ptr cell sz h =
     (if sz = 0 then (Undefined, h)
      else case ptr of
          None \<Rightarrow> (Returns (-1, None), h)
        | Some p \<Rightarrow> (case cell of
            None \<Rightarrow> (Returns (-1, None), h)
          | Some c \<Rightarrow> (Returns (0, Some \<lparr>area = p, offset = 0, extent = sz, mcb = c\<rparr>),
              h\<lparr>areas := (areas h)(p \<mapsto> replicate sz 0),
                mcbs := (mcbs h)(c \<mapsto> \<lparr>refs = 1, mcb_ptr = p\<rparr>)\<rparr>)))"

definition mbuffer_clone :: "nat option \<Rightarrow> mbuffer_t \<Rightarrow> mb_memory \<Rightarrow> mbuffer_t option outcome \<times> mb_memory" where
  "mbuffer_clone cell m h =
     (case cell of
        None \<Rightarrow> (Returns None, h)
      | Some t \<Rightarrow> (case mcbs h (mcb m) of
          None \<Rightarrow> (Undefined, h)
        | Some c \<Rightarrow>
            if refs c < 1 then (Undefined, h)
            else (Returns (Some \<lparr>area = area m, offset = offset m, extent = extent m, mcb = mcb m\<rparr>),
                  h\<lparr>mcbs := (mcbs h)(mcb m \<mapsto> c\<lparr>refs := refs c + 1\<rparr>), structs := insert t (structs h)\<rparr>)))"

definition mbuffer_bytes :: "mb_memory \<Rightarrow> mbuffer_t \<Rightarrow> 8 word list option" where
  "mbuffer_bytes h m = (case areas h (area m) of
      None \<Rightarrow> None
    | Some xs \<Rightarrow> if offset m + extent m \<le> length xs then Some (take (extent m) (drop (offset m) xs)) else None)"

definition mbuffer_copy :: "nat option \<Rightarrow> nat option \<Rightarrow> nat option \<Rightarrow> mbuffer_t \<Rightarrow> mb_memory
    \<Rightarrow> mbuffer_t option outcome \<times> mb_memory" where
  "mbuffer_copy cell ptr mcell m h =
     (if extent m < 1 then (Undefined, h)
      else case cell of
        None \<Rightarrow> (Returns None, h)
      | Some t \<Rightarrow> (case mbuffer_create ptr mcell (extent m) (h\<lparr>structs := insert t (structs h)\<rparr>) of
          (Returns (r, Some temp), h1) \<Rightarrow> (case mbuffer_bytes h m of
              None \<Rightarrow> (Undefined, h1)
            | Some bs \<Rightarrow> (Returns (Some temp), h1\<lparr>areas := (areas h1)(area temp \<mapsto> bs)\<rparr>))
        | (Returns (r, None), h1) \<Rightarrow> (Returns None, h1\<lparr>structs := structs h1 - {t}\<rparr>)
        | (_, h1) \<Rightarrow> (Undefined, h1)))"

definition mbuffer_free :: "mbuffer_t \<Rightarrow> mb_memory \<Rightarrow> unit outcome \<times> mb_memory" where
  "mbuffer_free m h = (case mcbs h (mcb m) of
      None \<Rightarrow> (Undefined, h)
    | Some c \<Rightarrow>
        let ref = refs c - 1
        in if ref = 0
           then (if areas h (mcb_ptr c) = None then (Undefined, h)
                 else (Returns (), h\<lparr>areas := (areas h)(mcb_ptr c := None), mcbs := (mcbs h)(mcb m := None)\<rparr>))
           else (Returns (), h\<lparr>mcbs := (mcbs h)(mcb m \<mapsto> c\<lparr>refs := ref\<rparr>)\<rparr>))"

text \<open>\<open>realloc\<close> moves the area to \<open>r\<close>, which may be where it was, and cuts or extends it.\<close>

definition mbuffer_realloc :: "nat option \<Rightarrow> nat \<Rightarrow> mbuffer_t \<Rightarrow> mb_memory
    \<Rightarrow> (int \<times> mbuffer_t) outcome \<times> mb_memory" where
  "mbuffer_realloc r sz m h =
     (if sz = 0 then (Undefined, h)
      else case mcbs h (mcb m) of
          None \<Rightarrow> (Undefined, h)
        | Some c \<Rightarrow>
            if refs c > 1 then (Returns (-1, m), h)
            else if area m \<noteq> mcb_ptr c \<or> offset m \<noteq> 0 then (Returns (-1, m), h)
            else (case r of
                None \<Rightarrow> (Returns (-1, m), h)
              | Some p \<Rightarrow> (case areas h (area m) of
                  None \<Rightarrow> (Undefined, h)
                | Some xs \<Rightarrow> (Returns (0, m\<lparr>area := p, extent := sz\<rparr>),
                    h\<lparr>areas := (areas h)(area m := None, p \<mapsto> take sz xs @ replicate (sz - length xs) 0),
                      mcbs := (mcbs h)(mcb m \<mapsto> c\<lparr>mcb_ptr := p\<rparr>)\<rparr>))))"

definition mbuffer_split :: "nat \<Rightarrow> mbuffer_t \<Rightarrow> mb_memory \<Rightarrow> (mbuffer_t \<times> mbuffer_t) outcome \<times> mb_memory" where
  "mbuffer_split split m1 h =
     (if split = 0 \<or> split \<ge> extent m1 then (Undefined, h)
      else case mcbs h (mcb m1) of
          None \<Rightarrow> (Undefined, h)
        | Some c \<Rightarrow>
            if refs c < 1 then (Undefined, h)
            else (Returns (m1\<lparr>extent := split\<rparr>,
                           \<lparr>area = area m1, offset = offset m1 + split, extent = extent m1 - split, mcb = mcb m1\<rparr>),
                  h\<lparr>mcbs := (mcbs h)(mcb m1 \<mapsto> c\<lparr>refs := refs c + 1\<rparr>)\<rparr>))"

section \<open>The locks\<close>

text \<open>\<open>mbuffer_system_init\<close> initialises the locks in order; \<open>ok i\<close> says whether lock \<open>i\<close> can be. The
  cleanup after a failure at \<open>i\<close> runs \<open>j\<close> up to \<open>i\<close> but destroys \<open>locks[i]\<close> each time.\<close>

datatype lock_call = Lock_init nat | Lock_destroy nat

definition NUMBER_OF_LOCKS :: nat where
  "NUMBER_OF_LOCKS = 1021"

definition lock_hash :: "64 word \<Rightarrow> nat" where
  "lock_hash p = unat p mod NUMBER_OF_LOCKS"

fun init_from :: "(nat \<Rightarrow> bool) \<Rightarrow> nat \<Rightarrow> nat \<Rightarrow> lock_call list \<Rightarrow> int \<times> lock_call list" where
  "init_from ok i 0 calls = (0, calls)"
| "init_from ok i (Suc left) calls =
     (if ok i then init_from ok (i + 1) left (calls @ [Lock_init i])
      else (-1, calls @ [Lock_init i] @ map (\<lambda>_. Lock_destroy i) [0 ..< i]))"

definition mbuffer_system_init :: "bool \<Rightarrow> (nat \<Rightarrow> bool) \<Rightarrow> int \<times> lock_call list" where
  "mbuffer_system_init mem ok = (if \<not> mem then (-1, []) else init_from ok 0 NUMBER_OF_LOCKS [])"

definition mbuffer_system_destroy :: "(nat \<Rightarrow> int) \<Rightarrow> int \<times> lock_call list" where
  "mbuffer_system_destroy rv = ((if (\<Sum>i < NUMBER_OF_LOCKS. rv i) \<noteq> 0 then -1 else 0),
     map Lock_destroy [0 ..< NUMBER_OF_LOCKS])"

lemma init_from_failure:
  assumes "\<forall>j < k. ok (i + j)" and "\<not> ok (i + k)" and "k < n"
  shows "init_from ok i n calls =
    (-1, calls @ map Lock_init [i ..< i + k + 1] @ replicate (i + k) (Lock_destroy (i + k)))"
  using assms
proof (induction k arbitrary: i n calls)
  case 0
  then show ?case by (cases n) (simp_all add: map_replicate_const)
next
  case (Suc k)
  then obtain m where m: "n = Suc m" by (cases n) auto
  have "ok i" using Suc.prems(1) by force
  moreover have "init_from ok (i + 1) m (calls @ [Lock_init i]) =
      (-1, (calls @ [Lock_init i]) @ map Lock_init [i + 1 ..< i + 1 + k + 1] @
           replicate (i + 1 + k) (Lock_destroy (i + 1 + k)))"
    using Suc.prems m by (intro Suc.IH) auto
  moreover have "[i ..< i + Suc k + 1] = i # [i + 1 ..< i + 1 + k + 1]" by (simp add: upt_rec)
  ultimately show ?case by (simp add: m del: upt_Suc)
qed

text \<open>When the lock \<open>k\<close> cannot be initialised, the locks before it are leaked.\<close>

theorem dedup_locks_leak:
  assumes "k < NUMBER_OF_LOCKS" and "\<not> ok k" and "\<forall>j < k. ok j"
  shows "mbuffer_system_init True ok =
    (-1, map Lock_init [0 ..< k + 1] @ replicate k (Lock_destroy k))"
  using init_from_failure [of k ok 0 NUMBER_OF_LOCKS "[]"] assms
  by (simp add: mbuffer_system_init_def)

section \<open>Reference counts and windows\<close>

text \<open>What holds of the memory while the buffers \<open>bs\<close> are in circulation.\<close>

definition window_ok :: "mb_memory \<Rightarrow> mbuffer_t \<Rightarrow> bool" where
  "window_ok h m \<longleftrightarrow> 0 < extent m \<and> (\<exists>c xs. mcbs h (mcb m) = Some c \<and> area m = mcb_ptr c \<and>
     areas h (area m) = Some xs \<and> offset m + extent m \<le> length xs)"

definition users :: "mbuffer_t list \<Rightarrow> nat \<Rightarrow> nat" where
  "users bs c = length (filter (\<lambda>m. mcb m = c) bs)"

definition count_ok :: "mb_memory \<Rightarrow> nat \<Rightarrow> nat \<Rightarrow> bool" where
  "count_ok h n c \<longleftrightarrow> (case mcbs h c of
      None \<Rightarrow> n = 0
    | Some mc \<Rightarrow> 0 < n \<and> unat (refs mc) = n \<and> areas h (mcb_ptr mc) \<noteq> None)"

definition counts_ok :: "mb_memory \<Rightarrow> mbuffer_t list \<Rightarrow> bool" where
  "counts_ok h bs \<longleftrightarrow> (\<forall>c. count_ok h (users bs c) c)"

definition owned_ok :: "mb_memory \<Rightarrow> bool" where
  "owned_ok h \<longleftrightarrow> (\<forall>c d mc md. mcbs h c = Some mc \<longrightarrow> mcbs h d = Some md \<longrightarrow> mcb_ptr mc = mcb_ptr md \<longrightarrow> c = d) \<and>
     (\<forall>a. areas h a \<noteq> None \<longrightarrow> (\<exists>c mc. mcbs h c = Some mc \<and> mcb_ptr mc = a))"

definition mb_inv :: "mb_memory \<Rightarrow> mbuffer_t list \<Rightarrow> bool" where
  "mb_inv h bs \<longleftrightarrow> (\<forall>m\<in>set bs. window_ok h m) \<and> counts_ok h bs \<and> owned_ok h"

text \<open>Programs over the list of buffers in circulation.\<close>

datatype mb_op =
    Mb_create nat nat nat | Mb_clone nat nat | Mb_copy nat nat nat nat | Mb_free nat
  | Mb_realloc nat nat nat | Mb_split nat nat

definition fresh_cell :: "mb_memory \<Rightarrow> nat \<Rightarrow> nat \<Rightarrow> bool" where
  "fresh_cell h p c \<longleftrightarrow> areas h p = None \<and> mcbs h c = None"

text \<open>An operation on the \<open>i\<close>-th buffer; \<open>None\<close> when it is not defined. The other arguments are the answers of
  \<open>malloc\<close> and \<open>realloc\<close>: \<open>t\<close> for the structure, \<open>p\<close> for the area, \<open>c\<close> for the control block.\<close>

fun mb_step :: "mb_op \<Rightarrow> mb_memory \<times> mbuffer_t list \<Rightarrow> (mb_memory \<times> mbuffer_t list) option" where
  "mb_step (Mb_create p c n) (h, bs) = (case mbuffer_create (Some p) (Some c) n h of
      (Returns (r, Some m), h') \<Rightarrow> Some (h', m # bs) | _ \<Rightarrow> None)"
| "mb_step (Mb_clone i t) (h, bs) = (case mbuffer_clone (Some t) (bs ! i) h of
      (Returns (Some m), h') \<Rightarrow> Some (h', m # bs) | _ \<Rightarrow> None)"
| "mb_step (Mb_copy i t p c) (h, bs) = (case mbuffer_copy (Some t) (Some p) (Some c) (bs ! i) h of
      (Returns (Some m), h') \<Rightarrow> Some (h', m # bs) | _ \<Rightarrow> None)"
| "mb_step (Mb_free i) (h, bs) = (case mbuffer_free (bs ! i) h of
      (Returns _, h') \<Rightarrow> Some (h', take i bs @ drop (i + 1) bs) | _ \<Rightarrow> None)"
| "mb_step (Mb_realloc i p n) (h, bs) = (case mbuffer_realloc (Some p) n (bs ! i) h of
      (Returns (r, m), h') \<Rightarrow> Some (h', bs[i := m]) | _ \<Rightarrow> None)"
| "mb_step (Mb_split i k) (h, bs) = (case mbuffer_split k (bs ! i) h of
      (Returns (m1, m2), h') \<Rightarrow> Some (h', m2 # bs[i := m1]) | _ \<Rightarrow> None)"

text \<open>What the comments ask of the caller, and what \<open>malloc\<close> and \<open>realloc\<close> promise.\<close>

fun mb_legal :: "mb_op \<Rightarrow> mb_memory \<times> mbuffer_t list \<Rightarrow> bool" where
  "mb_legal (Mb_create p c n) (h, bs) = (0 < n \<and> fresh_cell h p c)"
| "mb_legal (Mb_clone i t) (h, bs) = (i < length bs \<and> length bs + 1 < 2 ^ 32 \<and> t \<notin> structs h)"
| "mb_legal (Mb_copy i t p c) (h, bs) = (i < length bs \<and> fresh_cell h p c \<and> t \<notin> structs h)"
| "mb_legal (Mb_free i) (h, bs) = (i < length bs)"
| "mb_legal (Mb_realloc i p n) (h, bs) = (i < length bs \<and> 0 < n \<and> (areas h p = None \<or> p = area (bs ! i)))"
| "mb_legal (Mb_split i k) (h, bs) = (i < length bs \<and> 0 < k \<and> k < extent (bs ! i) \<and> length bs + 1 < 2 ^ 32)"

lemma mb_inv_structs [simp]: "mb_inv (h\<lparr>structs := T\<rparr>) bs \<longleftrightarrow> mb_inv h bs"
  by (auto simp: mb_inv_def window_ok_def counts_ok_def count_ok_def owned_ok_def split: option.splits)

lemma users_Cons [simp]: "users (m # bs) c = (if mcb m = c then 1 else 0) + users bs c"
  by (simp add: users_def)

lemma users_update [simp]:
  "i < length bs \<Longrightarrow> mcb m = mcb (bs ! i) \<Longrightarrow> users (bs[i := m]) c = users bs c"
proof (induction bs arbitrary: i)
  case (Cons b bs)
  then show ?case by (cases i) auto
qed simp

lemma users_remove:
  "i < length bs \<Longrightarrow> users bs c = (if mcb (bs ! i) = c then 1 else 0) + users (take i bs @ drop (i + 1) bs) c"
proof (induction bs arbitrary: i)
  case (Cons b bs)
  then show ?case by (cases i) auto
qed simp

lemma users_le: "users bs c \<le> length bs"
  by (simp add: users_def)

lemma users_pos: "m \<in> set bs \<Longrightarrow> 0 < users bs (mcb m)"
  by (auto simp: users_def filter_empty_conv)

lemma mb_inv_member:
  assumes "mb_inv h bs" and "i < length bs"
  obtains c xs where "mcbs h (mcb (bs ! i)) = Some c" and "area (bs ! i) = mcb_ptr c"
    and "areas h (mcb_ptr c) = Some xs" and "offset (bs ! i) + extent (bs ! i) \<le> length xs"
    and "0 < extent (bs ! i)" and "unat (refs c) = users bs (mcb (bs ! i))" and "0 < users bs (mcb (bs ! i))"
proof -
  have w: "window_ok h (bs ! i)" using assms by (simp add: mb_inv_def)
  then obtain c xs where c: "mcbs h (mcb (bs ! i)) = Some c" "area (bs ! i) = mcb_ptr c"
    "areas h (mcb_ptr c) = Some xs" "offset (bs ! i) + extent (bs ! i) \<le> length xs" "0 < extent (bs ! i)"
    by (auto simp: window_ok_def)
  moreover have "unat (refs c) = users bs (mcb (bs ! i))" "0 < users bs (mcb (bs ! i))"
    using assms(1) c(1) by (auto simp: mb_inv_def counts_ok_def count_ok_def dest: spec [of _ "mcb (bs ! i)"])
  ultimately show ?thesis using that by blast
qed

text \<open>Adding a buffer behind an existing control block.\<close>

lemma mb_inv_share:
  assumes inv: "mb_inv h bs" and c: "mcbs h k = Some c" and "length bs + 1 < 2 ^ 32"
    and bs': "\<And>x. users bs' x = (if x = k then 1 else 0) + users bs x"
    and w: "\<And>m. m \<in> set bs' \<Longrightarrow> window_ok h m"
  shows "mb_inv (h\<lparr>mcbs := (mcbs h)(k \<mapsto> c\<lparr>refs := refs c + 1\<rparr>)\<rparr>) bs'"
proof -
  have u: "unat (refs c) = users bs k" "areas h (mcb_ptr c) \<noteq> None"
    using inv c by (auto simp: mb_inv_def counts_ok_def count_ok_def dest: spec [of _ k])
  then have r: "unat (refs c + 1) = users bs k + 1"
    using users_le [of bs k] assms(3) by (simp add: unat_word_ariths)
  have "counts_ok (h\<lparr>mcbs := (mcbs h)(k \<mapsto> c\<lparr>refs := refs c + 1\<rparr>)\<rparr>) bs'"
    unfolding counts_ok_def
  proof
    fix x
    have "count_ok h (users bs x) x" using inv by (simp add: mb_inv_def counts_ok_def)
    then show "count_ok (h\<lparr>mcbs := (mcbs h)(k \<mapsto> c\<lparr>refs := refs c + 1\<rparr>)\<rparr>) (users bs' x) x"
      using u r by (simp add: count_ok_def bs' split: option.splits)
  qed
  moreover have "owned_ok (h\<lparr>mcbs := (mcbs h)(k \<mapsto> c\<lparr>refs := refs c + 1\<rparr>)\<rparr>)"
  proof -
    have same: "map_option mcb_ptr (((mcbs h)(k \<mapsto> c\<lparr>refs := refs c + 1\<rparr>)) x) = map_option mcb_ptr (mcbs h x)" for x
      using c by simp
    show ?thesis using inv c unfolding mb_inv_def owned_ok_def
      by (auto split: if_splits) (metis option.inject mcb_t.select_convs(2))+
  qed
  moreover have "window_ok (h\<lparr>mcbs := (mcbs h)(k \<mapsto> c\<lparr>refs := refs c + 1\<rparr>)\<rparr>) m" if "m \<in> set bs'" for m
    using w [OF that] c by (auto simp: window_ok_def)
  ultimately show ?thesis by (simp add: mb_inv_def)
qed

text \<open>A new area with its control block.\<close>

lemma mb_inv_new:
  assumes inv: "mb_inv h bs" and f: "fresh_cell h p c" and n: "0 < length xs"
  shows "mb_inv (h\<lparr>areas := (areas h)(p \<mapsto> xs), mcbs := (mcbs h)(c \<mapsto> \<lparr>refs = 1, mcb_ptr = p\<rparr>)\<rparr>)
    (\<lparr>area = p, offset = 0, extent = length xs, mcb = c\<rparr> # bs)" (is "mb_inv ?h (?m # bs)")
proof -
  have fr: "areas h p = None" "mcbs h c = None" using f by (auto simp: fresh_cell_def)
  have un: "users bs c = 0"
    using inv fr by (auto simp: mb_inv_def counts_ok_def count_ok_def dest: spec [of _ c])
  have "window_ok ?h m" if "m \<in> set bs" for m
  proof -
    have "window_ok h m" using inv that by (simp add: mb_inv_def)
    moreover have "mcb m \<noteq> c" using users_pos [OF that] un by auto
    ultimately show ?thesis using fr by (auto simp: window_ok_def)
  qed
  moreover have "window_ok ?h ?m" using n by (simp add: window_ok_def)
  moreover have "counts_ok ?h (?m # bs)"
    unfolding counts_ok_def
  proof
    fix x
    have "count_ok h (users bs x) x" using inv by (simp add: mb_inv_def counts_ok_def)
    then show "count_ok ?h (users (?m # bs) x) x"
      using un fr by (auto simp: count_ok_def split: option.splits)
  qed
  moreover have "owned_ok ?h"
  proof -
    have old: "mcb_ptr md \<noteq> p" if "mcbs h d = Some md" for d md
    proof -
      have "count_ok h (users bs d) d" using inv by (simp add: mb_inv_def counts_ok_def)
      then show ?thesis using that fr by (auto simp: count_ok_def)
    qed
    have ow: "owned_ok h" using inv by (simp add: mb_inv_def)
    show ?thesis unfolding owned_ok_def
    proof (intro conjI allI impI)
      fix x y mx my
      assume "mcbs ?h x = Some mx" "mcbs ?h y = Some my" "mcb_ptr mx = mcb_ptr my"
      then show "x = y" using old ow unfolding owned_ok_def
        by (cases "x = c"; cases "y = c") (auto, metis)
    next
      fix a assume a: "areas ?h a \<noteq> None"
      show "\<exists>x mx. mcbs ?h x = Some mx \<and> mcb_ptr mx = a"
      proof (cases "a = p")
        case False
        then obtain x mx where x: "mcbs h x = Some mx" "mcb_ptr mx = a"
          using a ow unfolding owned_ok_def by auto
        then have "x \<noteq> c" using fr by auto
        with x show ?thesis by (intro exI [of _ x] exI [of _ mx]) simp
      qed (auto intro: exI [of _ c])
    qed
  qed
  ultimately show ?thesis by (simp add: mb_inv_def)
qed

lemma refs_one: "unat (r :: 32 word) = n \<Longrightarrow> 0 < n \<Longrightarrow> unat (r - 1) = n - 1"
  by (subst unat_minus_one) auto

lemma mb_inv_drop:
  assumes inv: "mb_inv h bs" and i: "i < length bs"
  shows "\<exists>h'. mbuffer_free (bs ! i) h = (Returns (), h') \<and> mb_inv h' (take i bs @ drop (i + 1) bs)"
proof -
  obtain c xs where c: "mcbs h (mcb (bs ! i)) = Some c" "areas h (mcb_ptr c) = Some xs"
    and u: "unat (refs c) = users bs (mcb (bs ! i))" "0 < users bs (mcb (bs ! i))"
    using mb_inv_member [OF inv i] by metis
  let ?k = "mcb (bs ! i)" and ?bs = "take i bs @ drop (i + 1) bs"
  have r: "unat (refs c - 1) = users ?bs ?k"
    using refs_one [OF u(1)] u(2) users_remove [OF i, of ?k] by simp
  have sub: "set ?bs \<subseteq> set bs" by (auto dest: in_set_takeD in_set_dropD)
  have other: "users ?bs x = users bs x" if "x \<noteq> ?k" for x using users_remove [OF i, of x] that by auto
  have ow: "owned_ok h" and cnt: "\<And>x. count_ok h (users bs x) x"
    using inv by (auto simp: mb_inv_def counts_ok_def)
  have win: "window_ok h m" if "m \<in> set ?bs" for m using inv sub that by (auto simp: mb_inv_def)
  show ?thesis
  proof (cases "refs c - 1 = 0")
    case True
    then have zero: "users ?bs ?k = 0" using r by simp
    let ?h = "h\<lparr>areas := (areas h)(mcb_ptr c := None), mcbs := (mcbs h)(?k := None)\<rparr>"
    have inj: "x = ?k" if "mcbs h x = Some mx" "mcb_ptr mx = mcb_ptr c" for x mx
      using ow c(1) that unfolding owned_ok_def by blast
    have "window_ok ?h m" if m: "m \<in> set ?bs" for m
    proof -
      have "mcb m \<noteq> ?k" using users_pos [OF m] zero by auto
      then show ?thesis using win [OF m] inj by (auto simp: window_ok_def)
    qed
    moreover have "count_ok ?h (users ?bs x) x" for x
      using cnt [of x] zero other [of x] inj by (cases "x = ?k") (auto simp: count_ok_def split: option.splits)
    moreover have "owned_ok ?h"
      unfolding owned_ok_def
    proof (intro conjI allI impI)
      fix x y mx my
      assume "mcbs ?h x = Some mx" "mcbs ?h y = Some my" "mcb_ptr mx = mcb_ptr my"
      then show "x = y" using ow unfolding owned_ok_def by (auto split: if_splits)
    next
      fix a assume "areas ?h a \<noteq> None"
      then have a: "a \<noteq> mcb_ptr c" "areas h a \<noteq> None" by (auto split: if_splits)
      then obtain x mx where x: "mcbs h x = Some mx" "mcb_ptr mx = a"
        using ow unfolding owned_ok_def by blast
      then have "x \<noteq> ?k" using c(1) a(1) by auto
      with x show "\<exists>x mx. mcbs ?h x = Some mx \<and> mcb_ptr mx = a" by (intro exI [of _ x] exI [of _ mx]) simp
    qed
    ultimately have "mb_inv ?h ?bs" by (auto simp: mb_inv_def counts_ok_def)
    then show ?thesis using c True by (simp add: mbuffer_free_def)
  next
    case False
    let ?h = "h\<lparr>mcbs := (mcbs h)(?k \<mapsto> c\<lparr>refs := refs c - 1\<rparr>)\<rparr>"
    have "unat (refs c - 1) \<noteq> 0" using False by (simp add: unat_eq_zero)
    then have "0 < users ?bs ?k" using r by simp
    then have "count_ok ?h (users ?bs x) x" for x
      using cnt [of x] other [of x] r c by (cases "x = ?k") (auto simp: count_ok_def split: option.splits)
    moreover have "window_ok ?h m" if "m \<in> set ?bs" for m
      using win [OF that] c by (auto simp: window_ok_def)
    moreover have "owned_ok ?h"
      unfolding owned_ok_def
    proof (intro conjI allI impI)
      fix x y mx my
      assume a: "mcbs ?h x = Some mx" "mcbs ?h y = Some my" "mcb_ptr mx = mcb_ptr my"
      have p: "\<exists>mz. mcbs h z = Some mz \<and> mcb_ptr mz = mcb_ptr mw" if "mcbs ?h z = Some mw" for z mw
        using that c(1) by (auto split: if_splits)
      show "x = y" using p [OF a(1)] p [OF a(2)] a(3) ow unfolding owned_ok_def by metis
    next
      fix a assume "areas ?h a \<noteq> None"
      then obtain x mx where x: "mcbs h x = Some mx" "mcb_ptr mx = a"
        using ow unfolding owned_ok_def by auto
      then show "\<exists>x mx. mcbs ?h x = Some mx \<and> mcb_ptr mx = a" using c(1)
        by (intro exI [of _ x]) auto
    qed
    ultimately have "mb_inv ?h ?bs" by (auto simp: mb_inv_def counts_ok_def)
    then show ?thesis using c False by (simp add: mbuffer_free_def)
  qed
qed

lemma users_one:
  assumes "users bs k = 1" and "i < length bs" and "mcb (bs ! i) = k" and "m \<in> set (bs[i := m'])" and "mcb m = k" and "m \<noteq> m'"
  shows False
proof -
  obtain j where j: "j < length bs" "bs[i := m'] ! j = m"
    using assms(4) by (auto simp: in_set_conv_nth)
  then have "j \<noteq> i" using assms(2,6) by auto
  then have m: "bs ! j = m" using j by simp
  have "users (take i bs @ drop (i + 1) bs) k = 0"
    using users_remove [OF assms(2), of k] assms(1,3) by simp
  moreover have "m \<in> set (take i bs @ drop (i + 1) bs)"
  proof (cases "j < i")
    case True
    then show ?thesis using m j(1) assms(2) by (force simp: in_set_conv_nth)
  next
    case False
    then have "drop (i + 1) bs ! (j - (i + 1)) = m" "j - (i + 1) < length (drop (i + 1) bs)"
      using m j(1) \<open>j \<noteq> i\<close> by auto
    then show ?thesis by (metis Un_iff nth_mem set_append)
  qed
  ultimately show False using users_pos [of m "take i bs @ drop (i + 1) bs"] assms(5) by simp
qed

lemma mb_inv_realloc:
  assumes inv: "mb_inv h bs" and i: "i < length bs" and n: "0 < n"
    and p: "areas h p = None \<or> p = area (bs ! i)"
  shows "\<exists>r m h'. mbuffer_realloc (Some p) n (bs ! i) h = (Returns (r, m), h') \<and> mb_inv h' (bs[i := m])"
proof -
  obtain c xs where c: "mcbs h (mcb (bs ! i)) = Some c" "area (bs ! i) = mcb_ptr c" "areas h (mcb_ptr c) = Some xs"
    and u: "unat (refs c) = users bs (mcb (bs ! i))" "0 < users bs (mcb (bs ! i))"
    using mb_inv_member [OF inv i] by metis
  let ?k = "mcb (bs ! i)"
  show ?thesis
  proof (cases "refs c > 1 \<or> offset (bs ! i) \<noteq> 0")
    case True
    then show ?thesis using c n inv i by (auto simp: mbuffer_realloc_def)
  next
    case False
    then have one: "users bs ?k = 1" using u by (simp add: word_less_nat_alt not_less)
    let ?m = "(bs ! i)\<lparr>area := p, extent := n\<rparr>" and ?ys = "take n xs @ replicate (n - length xs) 0"
    let ?h = "h\<lparr>areas := (areas h)(mcb_ptr c := None, p \<mapsto> ?ys), mcbs := (mcbs h)(?k \<mapsto> c\<lparr>mcb_ptr := p\<rparr>)\<rparr>"
    have run: "mbuffer_realloc (Some p) n (bs ! i) h = (Returns (0, ?m), ?h)"
      using c n False by (simp add: mbuffer_realloc_def)
    have ow: "owned_ok h" and cnt: "\<And>x. count_ok h (users bs x) x"
      using inv by (auto simp: mb_inv_def counts_ok_def)
    have inj: "x = ?k" if "mcbs h x = Some mx" "mcb_ptr mx = mcb_ptr c \<or> mcb_ptr mx = p" for x mx
    proof -
      have "areas h (mcb_ptr mx) \<noteq> None" using cnt [of x] that(1) by (auto simp: count_ok_def)
      then have "mcb_ptr mx = mcb_ptr c" using that(2) p c(2) by auto
      then show ?thesis using ow c(1) that(1) unfolding owned_ok_def by blast
    qed
    have us: "users (bs[i := ?m]) x = users bs x" for x using i by simp
    have "window_ok ?h m" if m: "m \<in> set (bs[i := ?m])" for m
    proof (cases "m = ?m")
      case True
      then show ?thesis using n False by (simp add: window_ok_def)
    next
      case False
      then have "mcb m \<noteq> ?k" using users_one [OF one i refl m] by blast
      moreover have "m \<in> set bs" using m False by (metis insertE set_update_subset_insert subsetD)
      then have "window_ok h m" using inv by (simp add: mb_inv_def)
      ultimately show ?thesis using inj by (auto simp: window_ok_def)
    qed
    moreover have "count_ok ?h (users (bs[i := ?m]) x) x" for x
    proof (cases "x = ?k")
      case True
      then show ?thesis using u one i by (simp add: count_ok_def)
    next
      case False
      then have "mcb_ptr mx \<noteq> mcb_ptr c \<and> mcb_ptr mx \<noteq> p" if "mcbs h x = Some mx" for mx
        using inj [OF that] by blast
      then show ?thesis unfolding us using cnt [of x] False by (auto simp: count_ok_def split: option.splits)
    qed
    moreover have "owned_ok ?h"
      unfolding owned_ok_def
    proof (intro conjI allI impI)
      fix x y mx my
      assume "mcbs ?h x = Some mx" "mcbs ?h y = Some my" "mcb_ptr mx = mcb_ptr my"
      moreover have "mcb_ptr mz \<noteq> p" if "mcbs h z = Some mz" "z \<noteq> ?k" for z mz
        using inj [OF that(1)] that(2) by blast
      moreover have "u = v" if "mcbs h u = Some mu" "mcbs h v = Some mv" "mcb_ptr mu = mcb_ptr mv" for u v mu mv
        using ow that unfolding owned_ok_def by blast
      ultimately show "x = y" by (cases "x = ?k"; cases "y = ?k") (auto, blast+)
    next
      fix a assume a: "areas ?h a \<noteq> None"
      show "\<exists>x mx. mcbs ?h x = Some mx \<and> mcb_ptr mx = a"
      proof (cases "a = p")
        case False
        then have "areas h a \<noteq> None" "a \<noteq> mcb_ptr c" using a by (auto split: if_splits)
        then obtain x mx where x: "mcbs h x = Some mx" "mcb_ptr mx = a"
          using ow unfolding owned_ok_def by blast
        then have "x \<noteq> ?k" using c(1) \<open>a \<noteq> mcb_ptr c\<close> by auto
        with x show ?thesis by (intro exI [of _ x] exI [of _ mx]) simp
      qed (auto intro: exI [of _ ?k])
    qed
    ultimately have "mb_inv ?h (bs[i := ?m])" by (auto simp: mb_inv_def counts_ok_def)
    then show ?thesis using run by blast
  qed
qed

lemma mb_step_inv:
  assumes inv: "mb_inv h bs" and l: "mb_legal op (h, bs)"
  shows "case mb_step op (h, bs) of None \<Rightarrow> False | Some (h', bs') \<Rightarrow> mb_inv h' bs'"
proof (cases op)
  case (Mb_create p c n)
  then show ?thesis using l mb_inv_new [OF inv, of p c "replicate n 0"]
    by (simp add: mbuffer_create_def)
next
  case (Mb_clone i t)
  then have i: "i < length bs" "length bs + 1 < 2 ^ 32" using l by auto
  obtain c xs where c: "mcbs h (mcb (bs ! i)) = Some c"
    and u: "unat (refs c) = users bs (mcb (bs ! i))" "0 < users bs (mcb (bs ! i))"
    using mb_inv_member [OF inv i(1)] by metis
  then have r: "\<not> refs c < 1" by (simp add: word_less_nat_alt)
  have m: "window_ok h m" if "m \<in> set ((bs ! i) # bs)" for m
    using inv i(1) that by (auto simp: mb_inv_def)
  let ?m = "\<lparr>area = area (bs ! i), offset = offset (bs ! i), extent = extent (bs ! i), mcb = mcb (bs ! i)\<rparr>"
  have "?m = bs ! i" by simp
  then have "mb_inv (h\<lparr>mcbs := (mcbs h)(mcb (bs ! i) \<mapsto> c\<lparr>refs := refs c + 1\<rparr>)\<rparr>) (?m # bs)"
    by (intro mb_inv_share [OF inv c i(2) _ m]) auto
  then have "mb_inv (h\<lparr>mcbs := (mcbs h)(mcb (bs ! i) \<mapsto> c\<lparr>refs := refs c + 1\<rparr>)\<rparr>\<lparr>structs := insert t (structs h)\<rparr>) (?m # bs)"
    by (simp only: mb_inv_structs)
  then show ?thesis using Mb_clone c r by (simp add: mbuffer_clone_def)
next
  case (Mb_copy i t p c)
  then have i: "i < length bs" "fresh_cell h p c" using l by auto
  obtain cb xs where cb: "mcbs h (mcb (bs ! i)) = Some cb" "area (bs ! i) = mcb_ptr cb" "areas h (mcb_ptr cb) = Some xs"
    "offset (bs ! i) + extent (bs ! i) \<le> length xs" "0 < extent (bs ! i)"
    using mb_inv_member [OF inv i(1)] by metis
  let ?ys = "take (extent (bs ! i)) (drop (offset (bs ! i)) xs)"
  have len: "length ?ys = extent (bs ! i)" using cb(4) by simp
  have "mcb_ptr cb \<noteq> p" using cb(3) i(2) by (auto simp: fresh_cell_def)
  then have "mb_step op (h, bs) =
      Some (h\<lparr>areas := (areas h)(p \<mapsto> ?ys), mcbs := (mcbs h)(c \<mapsto> \<lparr>refs = 1, mcb_ptr = p\<rparr>)\<rparr>\<lparr>structs := insert t (structs h)\<rparr>,
            \<lparr>area = p, offset = 0, extent = length ?ys, mcb = c\<rparr> # bs)"
    using Mb_copy cb len by (simp add: mbuffer_copy_def mbuffer_create_def mbuffer_bytes_def)
  moreover have "0 < length ?ys" unfolding len by (rule cb(5))
  ultimately show ?thesis using mb_inv_new [OF inv i(2), of ?ys] by (simp only: mb_inv_structs option.case prod.case)
next
  case (Mb_free i)
  then show ?thesis using l mb_inv_drop [OF inv, of i] by auto
next
  case (Mb_realloc i p n)
  then obtain r m h' where "mbuffer_realloc (Some p) n (bs ! i) h = (Returns (r, m), h')" "mb_inv h' (bs[i := m])"
    using l mb_inv_realloc [OF inv, of i n p] by auto
  then show ?thesis using Mb_realloc by simp
next
  case (Mb_split i k)
  then have i: "i < length bs" "length bs + 1 < 2 ^ 32" "0 < k" "k < extent (bs ! i)" using l by auto
  obtain c xs where c: "mcbs h (mcb (bs ! i)) = Some c" "area (bs ! i) = mcb_ptr c" "areas h (mcb_ptr c) = Some xs"
    "offset (bs ! i) + extent (bs ! i) \<le> length xs"
    and u: "unat (refs c) = users bs (mcb (bs ! i))" "0 < users bs (mcb (bs ! i))"
    using mb_inv_member [OF inv i(1)] by metis
  then have r: "\<not> refs c < 1" by (simp add: word_less_nat_alt)
  let ?m1 = "(bs ! i)\<lparr>extent := k\<rparr>"
  let ?m2 = "\<lparr>area = area (bs ! i), offset = offset (bs ! i) + k, extent = extent (bs ! i) - k, mcb = mcb (bs ! i)\<rparr>"
  have m: "window_ok h m" if "m \<in> set (?m2 # bs[i := ?m1])" for m
  proof (cases "m \<in> set bs")
    case False
    then have "m = ?m1 \<or> m = ?m2" using that by (metis insertE list.simps(15) set_update_subset_insert subsetD)
    then show ?thesis using c i by (auto simp: window_ok_def)
  qed (use inv in \<open>simp add: mb_inv_def\<close>)
  have "mb_inv (h\<lparr>mcbs := (mcbs h)(mcb (bs ! i) \<mapsto> c\<lparr>refs := refs c + 1\<rparr>)\<rparr>) (?m2 # bs[i := ?m1])"
    by (rule mb_inv_share [OF inv c(1) i(2) _ m]) (use i(1) in auto)
  then show ?thesis using Mb_split c(1) r i by (simp add: mbuffer_split_def)
qed

text \<open>A run of operations, each legal when it is made.\<close>

fun mb_run :: "mb_op list \<Rightarrow> mb_memory \<times> mbuffer_t list \<Rightarrow> (mb_memory \<times> mbuffer_t list) option" where
  "mb_run [] st = Some st"
| "mb_run (op # ops) st = (case mb_step op st of None \<Rightarrow> None | Some st' \<Rightarrow> mb_run ops st')"

fun mb_all_legal :: "mb_op list \<Rightarrow> mb_memory \<times> mbuffer_t list \<Rightarrow> bool" where
  "mb_all_legal [] st = True"
| "mb_all_legal (op # ops) st = (mb_legal op st \<and> (case mb_step op st of None \<Rightarrow> True | Some st' \<Rightarrow> mb_all_legal ops st'))"

lemma mb_run_inv:
  "mb_inv h bs \<Longrightarrow> mb_all_legal ops (h, bs) \<Longrightarrow>
     \<exists>h' bs'. mb_run ops (h, bs) = Some (h', bs') \<and> mb_inv h' bs'"
proof (induction ops arbitrary: h bs)
  case (Cons op ops)
  then show ?case using mb_step_inv [of h bs op] by (auto split: option.splits)
qed simp

text \<open>The structures that the clones and copies of a run allocate.\<close>

fun made_structs :: "mb_op list \<Rightarrow> nat list" where
  "made_structs [] = []"
| "made_structs (Mb_clone i t # ops) = t # made_structs ops"
| "made_structs (Mb_copy i t p c # ops) = t # made_structs ops"
| "made_structs (op # ops) = made_structs ops"

lemma create_structs: "mbuffer_create p c n h = (r, h') \<Longrightarrow> structs h' = structs h"
  by (auto simp: mbuffer_create_def split: if_splits option.splits)

lemma free_structs: "mbuffer_free m h = (r, h') \<Longrightarrow> structs h' = structs h"
  by (auto simp: mbuffer_free_def Let_def split: if_splits option.splits)

lemma realloc_structs: "mbuffer_realloc p n m h = (r, h') \<Longrightarrow> structs h' = structs h"
  by (auto simp: mbuffer_realloc_def split: if_splits option.splits)

lemma split_structs: "mbuffer_split k m h = (r, h') \<Longrightarrow> structs h' = structs h"
  by (auto simp: mbuffer_split_def split: if_splits option.splits)

lemma clone_structs: "mbuffer_clone (Some t) m h = (Returns (Some m'), h') \<Longrightarrow> structs h' = insert t (structs h)"
  by (auto simp: mbuffer_clone_def split: if_splits option.splits)

lemma copy_structs: "mbuffer_copy (Some t) p c m h = (Returns (Some m'), h') \<Longrightarrow> structs h' = insert t (structs h)"
  by (auto simp: mbuffer_copy_def dest: create_structs split: if_splits option.splits prod.splits outcome.splits)

lemma mb_step_structs:
  assumes "mb_step op (h, bs) = Some (h', bs')" and "mb_legal op (h, bs)"
  shows "structs h' = structs h \<union> set (made_structs [op]) \<and> structs h \<inter> set (made_structs [op]) = {} \<and>
    distinct (made_structs [op])"
proof (cases op)
  case (Mb_clone i t)
  with assms show ?thesis by (auto dest: clone_structs split: prod.splits outcome.splits option.splits)
next
  case (Mb_copy i t p c)
  with assms show ?thesis by (auto dest: copy_structs split: prod.splits outcome.splits option.splits)
qed (use assms in \<open>auto dest: create_structs free_structs realloc_structs split_structs split: prod.splits outcome.splits option.splits\<close>)

lemma made_structs_Cons: "made_structs (op # ops) = made_structs [op] @ made_structs ops"
  by (cases op) simp_all

lemma mb_run_structs:
  "mb_run ops (h, bs) = Some (h', bs') \<Longrightarrow> mb_all_legal ops (h, bs) \<Longrightarrow>
     structs h' = structs h \<union> set (made_structs ops) \<and> structs h \<inter> set (made_structs ops) = {} \<and>
     distinct (made_structs ops)"
proof (induction ops arbitrary: h bs)
  case (Cons op ops)
  then obtain h1 bs1 where s: "mb_step op (h, bs) = Some (h1, bs1)" "mb_run ops (h1, bs1) = Some (h', bs')"
    by (auto split: option.splits)
  have l: "mb_legal op (h, bs)" "mb_all_legal ops (h1, bs1)" using Cons.prems(2) s(1) by auto
  from mb_step_structs [OF s(1) l(1)] Cons.IH [OF s(2) l(2)] show ?case
    unfolding made_structs_Cons [of op ops] by auto
qed simp

definition mb_empty :: mb_memory where
  "mb_empty = \<lparr>areas = Map.empty, mcbs = Map.empty, structs = {}\<rparr>"

lemma mb_inv_empty: "mb_inv mb_empty []"
  by (simp add: mb_inv_def mb_empty_def counts_ok_def count_ok_def owned_ok_def users_def)

text \<open>C20. The areas of memory buffers neither dangle nor leak: in any run of creating, cloning, copying,
  splitting, resizing and freeing buffers, no operation touches freed memory, every buffer in circulation has
  its bytes, and once no buffer is left no area and no control block is allocated. But the \<open>mbuffer_t\<close>
  structures that \<open>mbuffer_clone\<close> and \<open>mbuffer_copy\<close> allocate are never freed, although mbuffer.h promises it:
  after any run there are as many of them as clones and copies were made. Assumed: the allocations succeed with
  fresh addresses, sizes and split points are in range, a buffer is used until it is freed and not after, fewer
  than 2^32 buffers share an area.\<close>

theorem dedup_mbuffer_lifetime:
  assumes "mb_all_legal ops (mb_empty, [])"
  shows "case mb_run ops (mb_empty, []) of
      None \<Rightarrow> False
    | Some (h, bs) \<Rightarrow> list_all (\<lambda>m. mbuffer_bytes h m \<noteq> None) bs \<and>
        (bs \<noteq> [] \<or> areas h = Map.empty \<and> mcbs h = Map.empty) \<and> card (structs h) = length (made_structs ops)"
proof -
  obtain h bs where r: "mb_run ops (mb_empty, []) = Some (h, bs)" and inv: "mb_inv h bs"
    using mb_run_inv [OF mb_inv_empty assms] by blast
  have "mbuffer_bytes h m \<noteq> None" if "m \<in> set bs" for m
  proof -
    have "window_ok h m" using inv that by (simp add: mb_inv_def)
    then show ?thesis by (auto simp: window_ok_def mbuffer_bytes_def)
  qed
  moreover have "areas h = Map.empty \<and> mcbs h = Map.empty" if "bs = []"
  proof -
    have "mcbs h c = None" for c
      using inv that by (auto simp: mb_inv_def counts_ok_def count_ok_def users_def split: option.splits dest: spec [of _ c])
    moreover from this have "areas h a = None" for a
      using inv by (auto simp: mb_inv_def owned_ok_def)
    ultimately show ?thesis by (simp add: fun_eq_iff)
  qed
  moreover have "card (structs h) = length (made_structs ops)"
    using mb_run_structs [OF r assms] by (simp add: mb_empty_def distinct_card)
  ultimately show ?thesis using r by (auto simp: list_all_iff)
qed

theorem dedup_mbuffer_lifetime_witness:
  "case mb_run [Mb_create 100 1 5, Mb_split 0 2, Mb_clone 1 70, Mb_free 2, Mb_copy 0 71 200 2, Mb_free 1, Mb_free 0, Mb_free 0]
      (mb_empty, []) of
      None \<Rightarrow> False
    | Some (h, bs) \<Rightarrow> list_all (\<lambda>m. mbuffer_bytes h m \<noteq> None) bs \<and>
        (bs \<noteq> [] \<or> areas h = Map.empty \<and> mcbs h = Map.empty) \<and> card (structs h) = 2"
  using dedup_mbuffer_lifetime [of "[Mb_create 100 1 5, Mb_split 0 2, Mb_clone 1 70, Mb_free 2, Mb_copy 0 71 200 2,
      Mb_free 1, Mb_free 0, Mb_free 0]"]
  by (simp add: mb_empty_def mbuffer_create_def mbuffer_split_def mbuffer_clone_def mbuffer_free_def
      mbuffer_copy_def mbuffer_bytes_def fresh_cell_def)

text \<open>Splitting a buffer partitions its bytes: the two parts read, one after the other, as the whole
  did, and every other buffer reads as before.\<close>

theorem dedup_mbuffer_split:
  assumes "mbuffer_bytes h m = Some bs" and "mbuffer_split k m h = (Returns (m1, m2), h')"
  shows "mbuffer_bytes h' m1 = Some (take k bs) \<and> mbuffer_bytes h' m2 = Some (drop k bs) \<and>
    mbuffer_bytes h' = mbuffer_bytes h"
  using assms by (auto simp: mbuffer_split_def mbuffer_bytes_def fun_eq_iff min_def add.commute drop_take
      split: if_splits option.splits)

theorem dedup_mbuffer_split_witness:
  "mbuffer_bytes \<lparr>areas = [9 \<mapsto> [1, 2, 3]], mcbs = [5 \<mapsto> \<lparr>refs = 2, mcb_ptr = 9\<rparr>], structs = {}\<rparr>
     \<lparr>area = 9, offset = 1, extent = 2, mcb = 5\<rparr> = Some [2, 3]"
  using dedup_mbuffer_split [of "\<lparr>areas = [9 \<mapsto> [1, 2, 3]], mcbs = [5 \<mapsto> \<lparr>refs = 1, mcb_ptr = 9\<rparr>], structs = {}\<rparr>"
    "\<lparr>area = 9, offset = 0, extent = 3, mcb = 5\<rparr>" "[1, 2, 3]" 1]
  by (simp add: mbuffer_split_def mbuffer_bytes_def)

end
