(* ===== verification/Dedup_Hashtable.thy ===== *)
theory Dedup_Hashtable
  imports Gcl_Prelude "HOL-Library.Multiset"
begin

text \<open>
  \<open>samples/dedup/hashtable.c\<close>: the chained hash table that finds duplicate chunks.

  A chain is the list of its entries from the head on. \<open>dynamic\<close> is the compile-time switch
  \<open>ENABLE_DYNAMIC_EXPANSION\<close>; without it the entry count and the load limit do not exist and the table
  keeps its length. The hash and the equality function the client passes are the arguments \<open>hashfn\<close>
  and \<open>eqfn\<close>; their contract is the locale \<open>hash_client\<close>, which the functions of
  \<open>samples/dedup/encoder.c\<close> on SHA-1 sums meet. \<open>loadlimit_of\<close> stands for the floating point
  computation \<open>ceil(size * max_load_factor)\<close>; no result depends on its value.
\<close>

unbundle bit_operations_syntax

record ('k, 'v) hash_entry =
  ekey :: 'k
  evalue :: 'v
  ehash :: "32 word"

record ('k, 'v) hashtable =
  tablelength :: "32 word"
  table :: "('k, 'v) hash_entry list list"
  entrycount :: "32 word"
  loadlimit :: "32 word"
  primeindex :: nat
  dynamic :: bool

definition primes :: "32 word list" where
  "primes =
     [53, 97, 193, 389, 769, 1543, 3079, 6151, 12289, 24593, 49157, 98317, 196613, 393241, 786433,
      1572869, 3145739, 6291469, 12582917, 25165843, 50331653, 100663319, 201326611, 402653189,
      805306457, 1610612741]"

definition indexFor :: "32 word \<Rightarrow> 32 word \<Rightarrow> nat" where
  "indexFor len hashvalue = unat (hashvalue mod len)"

text \<open>\<open>pindex\<close> runs over the table of primes; when none is large enough the first one stays.\<close>

fun pick_prime :: "32 word list \<Rightarrow> nat \<Rightarrow> 32 word \<Rightarrow> nat \<times> 32 word" where
  "pick_prime [] pindex minsize = (pindex, primes ! 0)"
| "pick_prime (p # ps) pindex minsize =
     (if p > minsize then (pindex, p) else pick_prime ps (pindex + 1) minsize)"

definition hashtable_create ::
  "bool \<Rightarrow> (32 word \<Rightarrow> 32 word) \<Rightarrow> bool \<Rightarrow> 32 word \<Rightarrow> ('k, 'v) hashtable option" where
  "hashtable_create dyn loadlimit_of mem minsize =
     (if minsize > push_bit 30 1 then None
      else case pick_prime primes 0 minsize of
             (pindex, sz) \<Rightarrow>
               if \<not> mem then None
               else Some \<lparr>tablelength = sz, table = replicate (unat sz) [], entrycount = 0,
                          loadlimit = loadlimit_of sz, primeindex = pindex, dynamic = dyn\<rparr>)"

text \<open>\<open>hash\<close> spreads the bits of the client's hash value.\<close>

definition hash :: "('k \<Rightarrow> 32 word) \<Rightarrow> 'k \<Rightarrow> 32 word" where
  "hash hashfn k =
     (let i0 = hashfn k;
          i1 = i0 + NOT (push_bit 9 i0);
          i2 = i1 XOR (drop_bit 14 i1 OR push_bit 18 i1);
          i3 = i2 + push_bit 4 i2
      in i3 XOR (drop_bit 10 i3 OR push_bit 22 i3))"

definition hashtable_getlock :: "('k \<Rightarrow> 32 word) \<Rightarrow> ('k, 'v) hashtable \<Rightarrow> 'k \<Rightarrow> nat" where
  "hashtable_getlock hashfn h k = indexFor (tablelength h) (hash hashfn k)"

text \<open>Growing the table: the entries of each chain are moved, from its head, to the new chains.\<close>

fun move_chain ::
  "32 word \<Rightarrow> ('k, 'v) hash_entry list \<Rightarrow> ('k, 'v) hash_entry list list \<Rightarrow> ('k, 'v) hash_entry list list" where
  "move_chain newsize [] newtable = newtable"
| "move_chain newsize (e # es) newtable =
     (let index = indexFor newsize (ehash e)
      in move_chain newsize es (newtable[index := e # newtable ! index]))"

datatype allocation = Malloc_returns | Only_realloc_returns | No_memory

text \<open>
  When \<open>malloc\<close> fails but \<open>realloc\<close> returns, plan B dereferences the uninitialised entry
  \<open>newtable[tablelength]\<close> as the target of \<open>memset\<close>.
\<close>

definition hashtable_expand ::
  "(32 word \<Rightarrow> 32 word) \<Rightarrow> allocation \<Rightarrow> ('k, 'v) hashtable \<Rightarrow> int outcome \<times> ('k, 'v) hashtable" where
  "hashtable_expand loadlimit_of mem h =
     (if primeindex h = length primes - 1 then (Returns 0, h)
      else let newsize = primes ! (primeindex h + 1)
           in case mem of
                No_memory \<Rightarrow> (Returns 0, h)
              | Only_realloc_returns \<Rightarrow> (Undefined, h)
              | Malloc_returns \<Rightarrow>
                  (Returns (-1),
                   h\<lparr>primeindex := primeindex h + 1,
                     table := fold (move_chain newsize) (table h) (replicate (unat newsize) []),
                     tablelength := newsize, loadlimit := loadlimit_of newsize\<rparr>))"

definition hashtable_count :: "('k, 'v) hashtable \<Rightarrow> 32 word" where
  "hashtable_count h = entrycount h"

text \<open>\<open>mem\<close> is the memory for an expansion, \<open>cell\<close> says whether there is memory for the entry.\<close>

definition hashtable_insert ::
  "('k \<Rightarrow> 32 word) \<Rightarrow> (32 word \<Rightarrow> 32 word) \<Rightarrow> allocation \<Rightarrow> bool \<Rightarrow> 'k \<Rightarrow> 'v
   \<Rightarrow> ('k, 'v) hashtable \<Rightarrow> int outcome \<times> ('k, 'v) hashtable" where
  "hashtable_insert hashfn loadlimit_of mem cell k v h =
     (let h1 = if dynamic h then h\<lparr>entrycount := entrycount h + 1\<rparr> else h
      in bind_op
           (if dynamic h \<and> entrycount h1 > loadlimit h1
            then hashtable_expand loadlimit_of mem else Pair (Returns 0))
           (\<lambda>_ h2.
              if \<not> cell
              then (Returns 0, if dynamic h then h2\<lparr>entrycount := entrycount h2 - 1\<rparr> else h2)
              else let hv = hash hashfn k; index = indexFor (tablelength h2) hv;
                       e = \<lparr>ekey = k, evalue = v, ehash = hv\<rparr>
                   in (Returns (-1), h2\<lparr>table := (table h2)[index := e # table h2 ! index]\<rparr>))
           h1)"

text \<open>A key matches an entry when the stored hash agrees and the client says they are equal.\<close>

definition matches :: "('k \<Rightarrow> 32 word) \<Rightarrow> ('k \<Rightarrow> 'k \<Rightarrow> bool) \<Rightarrow> 'k \<Rightarrow> ('k, 'v) hash_entry \<Rightarrow> bool" where
  "matches hashfn eqfn k e \<longleftrightarrow> hash hashfn k = ehash e \<and> eqfn k (ekey e)"

definition hashtable_search ::
  "('k \<Rightarrow> 32 word) \<Rightarrow> ('k \<Rightarrow> 'k \<Rightarrow> bool) \<Rightarrow> ('k, 'v) hashtable \<Rightarrow> 'k \<Rightarrow> 'v option" where
  "hashtable_search hashfn eqfn h k =
     map_option evalue
       (find (matches hashfn eqfn k) (table h ! indexFor (tablelength h) (hash hashfn k)))"

definition hashtable_change :: "('k, 'v) hash_entry \<Rightarrow> 'v \<Rightarrow> ('k, 'v) hash_entry" where
  "hashtable_change e newv = e\<lparr>evalue := newv\<rparr>"

text \<open>Unlinking the first entry of a chain that matches.\<close>

fun unlink :: "(('k, 'v) hash_entry \<Rightarrow> bool) \<Rightarrow> ('k, 'v) hash_entry list
               \<Rightarrow> (('k, 'v) hash_entry \<times> ('k, 'v) hash_entry list) option" where
  "unlink P [] = None"
| "unlink P (e # es) =
     (if P e then Some (e, es)
      else case unlink P es of None \<Rightarrow> None | Some (f, fs) \<Rightarrow> Some (f, e # fs))"

definition hashtable_remove ::
  "('k \<Rightarrow> 32 word) \<Rightarrow> ('k \<Rightarrow> 'k \<Rightarrow> bool) \<Rightarrow> 'k \<Rightarrow> ('k, 'v) hashtable \<Rightarrow> 'v option \<times> ('k, 'v) hashtable" where
  "hashtable_remove hashfn eqfn k h =
     (let index = indexFor (tablelength h) (hash hashfn k)
      in case unlink (matches hashfn eqfn k) (table h ! index) of
           None \<Rightarrow> (None, h)
         | Some (e, es) \<Rightarrow>
             (Some (evalue e),
              (if dynamic h then h\<lparr>entrycount := entrycount h - 1\<rparr> else h)\<lparr>table := (table h)[index := es]\<rparr>))"

subsection \<open>The entries of a table\<close>

definition entries :: "('k, 'v) hashtable \<Rightarrow> ('k, 'v) hash_entry multiset" where
  "entries h = mset (concat (table h))"

text \<open>Every entry is in the chain of its hash value, and no two keys are equal.\<close>

definition chains_ok :: "('k \<Rightarrow> 32 word) \<Rightarrow> 32 word \<Rightarrow> ('k, 'v) hash_entry list list \<Rightarrow> bool" where
  "chains_ok hashfn len tab \<longleftrightarrow>
     0 < unat len \<and> length tab = unat len \<and>
     (\<forall>i < length tab. \<forall>e \<in> set (tab ! i). ehash e = hash hashfn (ekey e) \<and> indexFor len (ehash e) = i)"

definition keys_apart :: "('k \<Rightarrow> 'k \<Rightarrow> bool) \<Rightarrow> ('k, 'v) hash_entry multiset \<Rightarrow> bool" where
  "keys_apart eqfn M \<longleftrightarrow> (\<forall>e \<in># M. \<forall>f \<in># M - {#e#}. \<not> eqfn (ekey e) (ekey f))"

definition ht_wf ::
  "('k \<Rightarrow> 32 word) \<Rightarrow> ('k \<Rightarrow> 'k \<Rightarrow> bool) \<Rightarrow> ('k, 'v) hashtable \<Rightarrow> bool" where
  "ht_wf hashfn eqfn h \<longleftrightarrow>
     chains_ok hashfn (tablelength h) (table h) \<and> keys_apart eqfn (entries h) \<and>
     primeindex h < length primes \<and>
     (dynamic h \<longrightarrow> entrycount h = word_of_nat (size (entries h)))"

lemma indexFor_less: "0 < unat len \<Longrightarrow> indexFor len hv < unat len"
  by (simp add: indexFor_def unat_mod_distrib)

lemma mset_concat_update:
  "i < length tab \<Longrightarrow> mset (concat (tab[i := c])) + mset (tab ! i) = mset (concat tab) + mset c"
  by (induction tab arbitrary: i) (auto simp: nth_Cons ac_simps split: nat.splits)

lemma mset_concat_push:
  assumes "i < length tab"
  shows "mset (concat (tab[i := e # tab ! i])) = add_mset e (mset (concat tab))"
proof -
  have "mset (concat (tab[i := e # tab ! i])) + mset (tab ! i) =
        add_mset e (mset (concat tab)) + mset (tab ! i)"
    using mset_concat_update [OF assms, of "e # tab ! i"]
    by (simp only: mset.simps union_mset_add_mset_left union_mset_add_mset_right)
  then show ?thesis by (rule add_right_imp_eq)
qed

lemma chains_ok_length: "chains_ok hashfn len tab \<Longrightarrow> 0 < unat len \<and> length tab = unat len"
  unfolding chains_ok_def by blast

lemma chains_ok_index: "chains_ok hashfn len tab \<Longrightarrow> indexFor len hv < length tab"
  using chains_ok_length indexFor_less by metis

lemma chains_ok_push:
  assumes "chains_ok hashfn len tab" and "ehash e = hash hashfn (ekey e)"
  shows "chains_ok hashfn len (tab[indexFor len (ehash e) := e # tab ! indexFor len (ehash e)])"
proof -
  note i = chains_ok_index [OF assms(1), of "ehash e"]
  show ?thesis
    unfolding chains_ok_def
  proof (intro conjI allI impI ballI)
    fix j f
    assume "j < length (tab[indexFor len (ehash e) := e # tab ! indexFor len (ehash e)])"
      and f: "f \<in> set (tab[indexFor len (ehash e) := e # tab ! indexFor len (ehash e)] ! j)"
    then have j: "j < length tab" by simp
    from assms(1) have old: "ehash g = hash hashfn (ekey g) \<and> indexFor len (ehash g) = j"
      if "g \<in> set (tab ! j)" for g
      using that j unfolding chains_ok_def by blast
    show "ehash f = hash hashfn (ekey f)" "indexFor len (ehash f) = j"
      using f j i assms(2) old [of f]
      by (cases "j = indexFor len (ehash e)"; cases "f = e"; force)+
  qed (use chains_ok_length [OF assms(1)] in simp_all)
qed

lemma chains_ok_subset:
  assumes "chains_ok hashfn len tab" and "set c \<subseteq> set (tab ! i)"
  shows "chains_ok hashfn len (tab[i := c])"
  using assms unfolding chains_ok_def
  by (metis length_list_update nth_list_update_eq nth_list_update_neq subsetD)

lemma chains_ok_mem:
  assumes "chains_ok hashfn len tab" and "e \<in> set (concat tab)"
  shows "ehash e = hash hashfn (ekey e) \<and> e \<in> set (tab ! indexFor len (ehash e)) \<and>
         indexFor len (ehash e) < length tab"
proof -
  from assms(2) obtain c where "c \<in> set tab" "e \<in> set c" by auto
  then obtain i where "i < length tab" "e \<in> set (tab ! i)" by (metis in_set_conv_nth)
  moreover from this assms(1) have "ehash e = hash hashfn (ekey e) \<and> indexFor len (ehash e) = i"
    unfolding chains_ok_def by blast
  ultimately show ?thesis by metis
qed

lemma move_chain_ok:
  assumes "chains_ok hashfn n nt" and "\<forall>e \<in> set es. ehash e = hash hashfn (ekey e)"
  shows "chains_ok hashfn n (move_chain n es nt) \<and>
         mset (concat (move_chain n es nt)) = mset es + mset (concat nt)"
  using assms
proof (induction es arbitrary: nt)
  case Nil
  then show ?case by simp
next
  case (Cons e es)
  let ?i = "indexFor n (ehash e)"
  have i: "?i < length nt" using chains_ok_index [OF Cons.prems(1)] .
  have ok: "chains_ok hashfn n (nt[?i := e # nt ! ?i])"
    using Cons.prems by (intro chains_ok_push) auto
  have "chains_ok hashfn n (move_chain n es (nt[?i := e # nt ! ?i])) \<and>
      mset (concat (move_chain n es (nt[?i := e # nt ! ?i]))) =
        mset es + mset (concat (nt[?i := e # nt ! ?i]))"
    by (rule Cons.IH [OF ok]) (use Cons.prems(2) in simp)
  then show ?case
    by (simp only: move_chain.simps Let_def mset_concat_push [OF i] mset.simps
        union_mset_add_mset_left union_mset_add_mset_right simp_thms)
qed

lemma fold_move_ok:
  assumes "chains_ok hashfn n nt" and "\<forall>e \<in> set (concat tab). ehash e = hash hashfn (ekey e)"
  shows "chains_ok hashfn n (fold (move_chain n) tab nt) \<and>
         mset (concat (fold (move_chain n) tab nt)) = mset (concat tab) + mset (concat nt)"
  using assms
proof (induction tab arbitrary: nt)
  case Nil
  then show ?case by simp
next
  case (Cons c tab)
  from move_chain_ok [OF Cons.prems(1), of c] Cons.prems(2)
  have c: "chains_ok hashfn n (move_chain n c nt)"
    "mset (concat (move_chain n c nt)) = mset c + mset (concat nt)" by auto
  from Cons.IH [OF c(1)] Cons.prems(2) c(2) show ?case by (simp add: ac_simps)
qed

lemma concat_replicate_Nil: "concat (replicate n []) = []"
  by (induction n) auto

lemma primes_positive: "i < length primes \<Longrightarrow> 0 < unat (primes ! i)"
proof -
  have "\<forall>p \<in> set primes. 0 < unat p" by (simp add: primes_def)
  then show "i < length primes \<Longrightarrow> 0 < unat (primes ! i)" by simp
qed

text \<open>Growing the table changes no entry.\<close>

lemma expand_spec:
  assumes "ht_wf hashfn eqfn h" and "mem \<noteq> Only_realloc_returns"
    and "hashtable_expand loadlimit_of mem h = (r, h')"
  shows "(\<exists>i. r = Returns i) \<and> ht_wf hashfn eqfn h' \<and> entries h' = entries h \<and>
         entrycount h' = entrycount h \<and> dynamic h' = dynamic h"
proof (cases "primeindex h = length primes - 1 \<or> mem = No_memory")
  case True
  with assms show ?thesis
    by (auto simp: hashtable_expand_def Let_def split: allocation.splits if_splits)
next
  case False
  let ?n = "primes ! (primeindex h + 1)"
  let ?t = "fold (move_chain ?n) (table h) (replicate (unat ?n) [])"
  from assms(1) have ok: "chains_ok hashfn (tablelength h) (table h)" by (simp add: ht_wf_def)
  have pi: "primeindex h + 1 < length primes"
    using False assms(1) by (auto simp: ht_wf_def)
  then have "chains_ok hashfn ?n (replicate (unat ?n) [])"
    using primes_positive by (simp add: chains_ok_def)
  moreover have "\<forall>e \<in> set (concat (table h)). ehash e = hash hashfn (ekey e)"
    using chains_ok_mem [OF ok] by blast
  ultimately have t: "chains_ok hashfn ?n ?t" "mset (concat ?t) = mset (concat (table h))"
    using fold_move_ok [of hashfn ?n "replicate (unat ?n) []" "table h"]
    by (auto simp: concat_replicate_Nil)
  have m: "mem = Malloc_returns" using False assms(2) by (cases mem) auto
  with False assms(3) have h': "r = Returns (-1)" "h' = h\<lparr>primeindex := primeindex h + 1, table := ?t,
      tablelength := ?n, loadlimit := loadlimit_of ?n\<rparr>"
    by (auto simp: hashtable_expand_def Let_def)
  then show ?thesis
    using t pi assms(1) by (simp add: ht_wf_def entries_def)
qed

subsection \<open>The contract of the client's functions\<close>

locale hash_client =
  fixes hashfn :: "'k \<Rightarrow> 32 word" and eqfn :: "'k \<Rightarrow> 'k \<Rightarrow> bool"
  assumes eq_sym: "eqfn a b \<Longrightarrow> eqfn b a"
    and eq_trans: "eqfn a b \<Longrightarrow> eqfn b c \<Longrightarrow> eqfn a c"
    and eq_hash: "eqfn a b \<Longrightarrow> hashfn a = hashfn b"
begin

lemma hash_cong: "eqfn a b \<Longrightarrow> hash hashfn a = hash hashfn b"
  using eq_hash [of a b] by (simp add: hash_def)

lemma search_Some:
  assumes "ht_wf hashfn eqfn h" and "e \<in># entries h" and "eqfn k (ekey e)"
  shows "hashtable_search hashfn eqfn h k = Some (evalue e)"
proof -
  from assms(1) have ok: "chains_ok hashfn (tablelength h) (table h)"
    and apart: "keys_apart eqfn (entries h)" by (auto simp: ht_wf_def)
  let ?c = "table h ! indexFor (tablelength h) (hash hashfn k)"
  from chains_ok_mem [OF ok, of e] assms(2,3) hash_cong
  have e: "ehash e = hash hashfn k" "e \<in> set ?c" and i: "indexFor (tablelength h) (hash hashfn k) < length (table h)"
    by (auto simp: entries_def)
  have "find (matches hashfn eqfn k) ?c \<noteq> None"
    unfolding find_None_iff matches_def using e assms(3) by metis
  then obtain f where f: "find (matches hashfn eqfn k) ?c = Some f" by auto
  then have "f \<in> set ?c" "eqfn k (ekey f)" by (auto simp: find_Some_iff matches_def)
  then have "f \<in># entries h" "eqfn (ekey e) (ekey f)"
    using nth_mem [OF i] eq_trans [OF eq_sym [OF assms(3)]] by (auto simp: entries_def)
  have "f = e"
  proof (rule ccontr)
    assume "f \<noteq> e"
    then have "f \<in># entries h - {#e#}" using \<open>f \<in># entries h\<close> by (simp add: in_diff_count)
    with apart assms(2) \<open>eqfn (ekey e) (ekey f)\<close> show False by (auto simp: keys_apart_def)
  qed
  with f show ?thesis by (simp add: hashtable_search_def)
qed

lemma search_None:
  assumes "ht_wf hashfn eqfn h" and "\<And>e. e \<in># entries h \<Longrightarrow> \<not> eqfn k (ekey e)"
  shows "hashtable_search hashfn eqfn h k = None"
proof -
  from assms(1) have "chains_ok hashfn (tablelength h) (table h)" by (simp add: ht_wf_def)
  then have "indexFor (tablelength h) (hash hashfn k) < length (table h)"
    by (rule chains_ok_index)
  then have "set (table h ! indexFor (tablelength h) (hash hashfn k)) \<subseteq> set_mset (entries h)"
    by (auto simp: entries_def) (metis nth_mem)
  with assms(2) have "find (matches hashfn eqfn k) (table h ! indexFor (tablelength h) (hash hashfn k)) = None"
    unfolding find_None_iff matches_def by blast
  then show ?thesis by (simp add: hashtable_search_def)
qed

lemma search_iff:
  assumes "ht_wf hashfn eqfn h"
  shows "hashtable_search hashfn eqfn h k = Some v \<longleftrightarrow>
         (\<exists>e \<in># entries h. eqfn k (ekey e) \<and> evalue e = v)"
  using search_Some [OF assms] search_None [OF assms]
  by (metis option.distinct(1) option.inject)

lemma insert_spec:
  assumes "ht_wf hashfn eqfn h" and "\<And>e. e \<in># entries h \<Longrightarrow> \<not> eqfn k (ekey e)"
    and "mem \<noteq> Only_realloc_returns"
    and "hashtable_insert hashfn loadlimit_of mem True k v h = (r, h')"
  shows "r = Returns (-1) \<and> ht_wf hashfn eqfn h' \<and>
         entries h' = add_mset \<lparr>ekey = k, evalue = v, ehash = hash hashfn k\<rparr> (entries h)"
proof -
  let ?h1 = "if dynamic h then h\<lparr>entrycount := entrycount h + 1\<rparr> else h"
  let ?ex = "if dynamic h \<and> entrycount ?h1 > loadlimit ?h1
            then hashtable_expand loadlimit_of mem else Pair (Returns 0)"
  let ?e = "\<lparr>ekey = k, evalue = v, ehash = hash hashfn k\<rparr>"
  obtain r0 h0 where h0: "hashtable_expand loadlimit_of mem h = (r0, h0)" by fastforce
  from expand_spec [OF assms(1,3) h0] have x: "\<exists>i. r0 = Returns i" "ht_wf hashfn eqfn h0"
    "entries h0 = entries h" "entrycount h0 = entrycount h" "dynamic h0 = dynamic h" by auto
  obtain r2 h2 where h2: "?ex ?h1 = (r2, h2)" by fastforce
  have ex1: "hashtable_expand loadlimit_of mem (h\<lparr>entrycount := c\<rparr>) = (r0, h0\<lparr>entrycount := c\<rparr>)" for c
    using h0 by (auto simp: hashtable_expand_def Let_def split: allocation.splits if_splits)
  have two: "\<exists>i. r2 = Returns i" "chains_ok hashfn (tablelength h2) (table h2)"
    "primeindex h2 < length primes" "entries h2 = entries h" "dynamic h2 = dynamic h"
    "dynamic h \<longrightarrow> entrycount h2 = entrycount h + 1"
    using h2 ex1 x assms(1) by (auto simp: ht_wf_def entries_def split: if_splits)
  let ?i = "indexFor (tablelength h2) (hash hashfn k)"
  have h': "r = Returns (-1)" "h' = h2\<lparr>table := (table h2)[?i := ?e # table h2 ! ?i]\<rparr>"
    using assms(4) h2 two(1) by (auto simp: hashtable_insert_def bind_op_def Let_def)
  have ent: "entries h' = add_mset ?e (entries h)"
    using mset_concat_push [OF chains_ok_index [OF two(2)], of "hash hashfn k" ?e] two(4)
    by (simp add: h' entries_def)
  have apart: "keys_apart eqfn (entries h')"
    unfolding ent keys_apart_def
  proof (intro ballI)
    fix e f
    assume e: "e \<in># add_mset ?e (entries h)" and f: "f \<in># add_mset ?e (entries h) - {#e#}"
    show "\<not> eqfn (ekey e) (ekey f)"
    proof (cases "e = ?e")
      case True
      with f assms(2) [of f] show ?thesis by simp
    next
      case False
      then have e': "e \<in># entries h" using e by simp
      have "f = ?e \<or> f \<in># entries h - {#e#}" using f e' False by simp
      then show ?thesis
      proof
        assume "f = ?e"
        then show ?thesis using assms(2) [OF e'] eq_sym by auto
      next
        assume "f \<in># entries h - {#e#}"
        then show ?thesis using assms(1) e' unfolding ht_wf_def keys_apart_def by blast
      qed
    qed
  qed
  have ok: "chains_ok hashfn (tablelength h') (table h')"
    using chains_ok_push [OF two(2), of ?e] by (simp add: h')
  have "entrycount h = word_of_nat (size (entries h))" if "dynamic h"
    using assms(1) that by (simp add: ht_wf_def)
  then have "dynamic h \<longrightarrow> entrycount h2 = word_of_nat (size (entries h'))"
    using two(6) by (simp add: ent)
  moreover have "dynamic h' = dynamic h" "primeindex h' = primeindex h2" "entrycount h' = entrycount h2"
    using two(5) by (simp_all add: h'(2))
  ultimately have "ht_wf hashfn eqfn h'"
    using ok apart two(3) unfolding ht_wf_def by simp
  with h'(1) ent show ?thesis by simp
qed

lemma unlink_spec:
  "case unlink P c of
     None \<Rightarrow> \<forall>e \<in> set c. \<not> P e
   | Some (e, d) \<Rightarrow> P e \<and> mset c = add_mset e (mset d)"
  by (induction c) (auto split: option.split_asm option.split prod.splits)

lemma remove_spec:
  assumes "ht_wf hashfn eqfn h" and "hashtable_remove hashfn eqfn k h = (r, h')"
  shows "ht_wf hashfn eqfn h' \<and>
         ((r = None \<and> h' = h \<and> (\<forall>e \<in># entries h. \<not> eqfn k (ekey e))) \<or>
          (\<exists>e. r = Some (evalue e) \<and> eqfn k (ekey e) \<and> entries h = add_mset e (entries h')))"
proof -
  let ?i = "indexFor (tablelength h) (hash hashfn k)"
  from assms(1) have ok: "chains_ok hashfn (tablelength h) (table h)"
    and apart: "keys_apart eqfn (entries h)" by (auto simp: ht_wf_def)
  note i = chains_ok_index [OF ok, of "hash hashfn k"]
  show ?thesis
  proof (cases "unlink (matches hashfn eqfn k) (table h ! ?i)")
    case None
    have "\<not> eqfn k (ekey e)" if "e \<in># entries h" for e
    proof
      assume eq: "eqfn k (ekey e)"
      with chains_ok_mem [OF ok, of e] that hash_cong have "e \<in> set (table h ! ?i)"
        "ehash e = hash hashfn k" by (auto simp: entries_def)
      with None eq unlink_spec [of "table h ! ?i" "matches hashfn eqfn k"] show False
        by (auto simp: matches_def)
    qed
    with None assms show ?thesis by (auto simp: hashtable_remove_def Let_def)
  next
    case (Some p)
    then obtain e d where un: "unlink (matches hashfn eqfn k) (table h ! ?i) = Some (e, d)"
      by (cases p) auto
    with unlink_spec [of "table h ! ?i" "matches hashfn eqfn k"]
    have e: "matches hashfn eqfn k e" "mset (table h ! ?i) = add_mset e (mset d)" by auto
    let ?h1 = "if dynamic h then h\<lparr>entrycount := entrycount h - 1\<rparr> else h"
    have h': "r = Some (evalue e)" "h' = ?h1\<lparr>table := (table h)[?i := d]\<rparr>"
      using assms(2) un by (auto simp: hashtable_remove_def Let_def)
    have ent: "entries h = add_mset e (entries h')"
    proof -
      have "entries h' + add_mset e (mset d) = entries h + mset d"
        using mset_concat_update [OF i, of d] e(2) by (simp add: entries_def h'(2))
      then have "add_mset e (entries h') + mset d = entries h + mset d" by simp
      then show ?thesis by (metis add_right_imp_eq)
    qed
    have "set d \<subseteq> set (table h ! ?i)" using e(2) by (metis mset_subset_eq_add_mset_cancel set_mset_mono set_mset_mset set_mset_add_mset_insert subset_insertI)
    then have ok': "chains_ok hashfn (tablelength h') (table h')"
      using chains_ok_subset [OF ok] by (simp add: h'(2))
    have apart': "keys_apart eqfn (entries h')"
      unfolding keys_apart_def
    proof (intro ballI)
      fix a b
      assume a: "a \<in># entries h'" and b: "b \<in># entries h' - {#a#}"
      from a b have "a \<in># entries h" "b \<in># entries h - {#a#}" by (auto simp: ent)
      with apart show "\<not> eqfn (ekey a) (ekey b)" unfolding keys_apart_def by blast
    qed
    have fields: "dynamic h' = dynamic h" "primeindex h' = primeindex h"
      "dynamic h \<longrightarrow> entrycount h' = entrycount h - 1" by (simp_all add: h'(2))
    have "entrycount h = word_of_nat (size (entries h') + 1)" if "dynamic h"
      using assms(1) that by (simp add: ht_wf_def ent)
    then have "dynamic h \<longrightarrow> entrycount h' = word_of_nat (size (entries h'))"
      using fields(3) by simp
    with ok' apart' assms(1) fields(1,2) have "ht_wf hashfn eqfn h'"
      unfolding ht_wf_def by simp
    with h'(1) e(1) ent show ?thesis by (auto simp: matches_def)
  qed
qed

text \<open>The table as a finite map.\<close>

lemma insert_search:
  assumes "ht_wf hashfn eqfn h" and "hashtable_search hashfn eqfn h k = None"
    and "mem \<noteq> Only_realloc_returns"
    and "hashtable_insert hashfn loadlimit_of mem True k v h = (r, h')"
  shows "r = Returns (-1) \<and> ht_wf hashfn eqfn h' \<and>
         (\<forall>k'. hashtable_search hashfn eqfn h' k' =
                (if eqfn k' k then Some v else hashtable_search hashfn eqfn h k'))"
proof -
  have fresh: "\<And>e. e \<in># entries h \<Longrightarrow> \<not> eqfn k (ekey e)"
    using search_Some [OF assms(1)] assms(2) by (metis option.distinct(1))
  from insert_spec [OF assms(1) fresh assms(3,4)]
  have h': "r = Returns (-1)" "ht_wf hashfn eqfn h'"
    "entries h' = add_mset \<lparr>ekey = k, evalue = v, ehash = hash hashfn k\<rparr> (entries h)" by auto
  have "hashtable_search hashfn eqfn h' k' =
      (if eqfn k' k then Some v else hashtable_search hashfn eqfn h k')" for k'
  proof (cases "eqfn k' k")
    case True
    then show ?thesis using search_Some [OF h'(2), of "\<lparr>ekey = k, evalue = v, ehash = hash hashfn k\<rparr>" k']
      by (simp add: h'(3))
  next
    case False
    then have "hashtable_search hashfn eqfn h' k' = Some u \<longleftrightarrow> hashtable_search hashfn eqfn h k' = Some u" for u
      unfolding search_iff [OF assms(1)] search_iff [OF h'(2)] h'(3) by auto
    with False show ?thesis by (metis option.exhaust)
  qed
  with h' show ?thesis by simp
qed

lemma remove_search:
  assumes "ht_wf hashfn eqfn h" and "hashtable_remove hashfn eqfn k h = (r, h')"
  shows "r = hashtable_search hashfn eqfn h k \<and> ht_wf hashfn eqfn h' \<and>
         (\<forall>k'. hashtable_search hashfn eqfn h' k' =
                (if eqfn k' k then None else hashtable_search hashfn eqfn h k'))"
proof -
  from remove_spec [OF assms] have wf': "ht_wf hashfn eqfn h'" by simp
  from remove_spec [OF assms] consider
      (absent) "r = None" "h' = h" "\<forall>e \<in># entries h. \<not> eqfn k (ekey e)"
    | (present) e where "r = Some (evalue e)" "eqfn k (ekey e)" "entries h = add_mset e (entries h')"
    by auto
  then show ?thesis
  proof cases
    case absent
    then have none: "hashtable_search hashfn eqfn h k' = None" if "eqfn k' k" for k'
      using search_None [OF assms(1), of k'] that eq_trans eq_sym by blast
    have "hashtable_search hashfn eqfn h k = None"
      using search_None [OF assms(1), of k] absent(3) by blast
    with absent none wf' show ?thesis by auto
  next
    case present
    have r: "r = hashtable_search hashfn eqfn h k"
      using search_Some [OF assms(1), of e k] present by simp
    have gone: "\<not> eqfn k (ekey f)" if "f \<in># entries h'" for f
    proof
      assume "eqfn k (ekey f)"
      then have "eqfn (ekey e) (ekey f)" using present(2) eq_sym eq_trans by blast
      moreover have "f \<in># entries h - {#e#}" using that present(3) by simp
      ultimately show False
        using assms(1) present(3) unfolding ht_wf_def keys_apart_def by simp
    qed
    have "hashtable_search hashfn eqfn h' k' =
        (if eqfn k' k then None else hashtable_search hashfn eqfn h k')" for k'
    proof (cases "eqfn k' k")
      case True
      then show ?thesis using search_None [OF wf', of k'] gone eq_trans eq_sym by metis
    next
      case False
      then have "\<not> eqfn k' (ekey e)" using present(2) eq_trans eq_sym by blast
      then have "hashtable_search hashfn eqfn h' k' = Some u \<longleftrightarrow> hashtable_search hashfn eqfn h k' = Some u" for u
        unfolding search_iff [OF assms(1)] search_iff [OF wf'] present(3) by auto
      with False show ?thesis by (metis option.exhaust)
    qed
    with r wf' show ?thesis by simp
  qed
qed

lemma expand_search:
  assumes "ht_wf hashfn eqfn h" and "mem \<noteq> Only_realloc_returns"
    and "hashtable_expand loadlimit_of mem h = (r, h')"
  shows "hashtable_search hashfn eqfn h' k = hashtable_search hashfn eqfn h k"
proof -
  from expand_spec [OF assms] have wf': "ht_wf hashfn eqfn h'" and ent: "entries h' = entries h" by auto
  have "hashtable_search hashfn eqfn h' k = Some u \<longleftrightarrow> hashtable_search hashfn eqfn h k = Some u" for u
    unfolding search_iff [OF assms(1)] search_iff [OF wf'] ent ..
  then show ?thesis by (metis option.exhaust)
qed

end

subsection \<open>The functions of the encoder\<close>

text \<open>A SHA-1 sum is five unsigned integers; \<open>memcmp\<close> compares the twenty bytes.\<close>

type_synonym sha1 = "32 word list"

definition hash_from_key_fn :: "sha1 \<Rightarrow> 32 word" where
  "hash_from_key_fn k = k ! 0"

definition keys_equal_fn :: "sha1 \<Rightarrow> sha1 \<Rightarrow> bool" where
  "keys_equal_fn key1 key2 \<longleftrightarrow> take 5 key1 = take 5 key2"

interpretation sha1_table: hash_client hash_from_key_fn keys_equal_fn
proof
  fix a b :: sha1
  assume "keys_equal_fn a b"
  then have "take 5 a = take 5 b" by (simp add: keys_equal_fn_def)
  moreover have "c ! 0 = (take 5 c) ! 0" if "c \<noteq> []" for c :: sha1 using that by simp
  moreover have "c = [] \<longleftrightarrow> take 5 c = []" for c :: sha1 by simp
  ultimately show "hash_from_key_fn a = hash_from_key_fn b"
    unfolding hash_from_key_fn_def by (cases "a = []"; cases "b = []") metis+
qed (auto simp: keys_equal_fn_def)

lemma create_wf:
  assumes "hashtable_create dyn ll mem minsize = Some h"
  shows "ht_wf hashfn eqfn h \<and> entries h = {#} \<and> minsize < tablelength h"
proof -
  have pick: "fst (pick_prime ps i m) < i + length ps \<and> snd (pick_prime ps i m) \<in> set ps \<and>
      m < snd (pick_prime ps i m)" if "m < last ps" "ps \<noteq> []" for ps i m
    using that
  proof (induction ps arbitrary: i)
    case (Cons a ps)
    show ?case
    proof (cases "m < a")
      case False
      with Cons.prems have "ps \<noteq> []" "m < last ps" by (auto split: if_splits)
      with Cons.IH [of "Suc i"] False show ?thesis by simp
    qed simp
  qed simp
  have "minsize \<le> push_bit 30 1"
    using assms by (auto simp: hashtable_create_def not_less split: if_splits)
  also have "(push_bit 30 1 :: 32 word) < last primes" by (simp add: primes_def)
  finally have m: "minsize < last primes" .
  obtain i p where ip: "pick_prime primes 0 minsize = (i, p)" by fastforce
  with pick [OF m, of 0] have p: "i < length primes" "p \<in> set primes" "minsize < p"
    by (auto simp: primes_def)
  moreover have "0 < unat p" using p(2) by (auto simp: primes_def)
  ultimately show ?thesis
    using assms ip
    by (auto simp: hashtable_create_def ht_wf_def chains_ok_def keys_apart_def entries_def
        concat_replicate_Nil split: if_splits)
qed

subsection \<open>Properties\<close>

text \<open>C16. The table is a finite map from SHA-1 sums. Inserting a sum that is not present succeeds,
  whether or not the table grows on the way, and from then on exactly the equal sums find the new
  value; removing a sum returns what a search would have returned, and afterwards exactly the equal
  sums find nothing.\<close>

theorem dedup_hashtable_map:
  assumes "ht_wf hash_from_key_fn keys_equal_fn h"
    and "hashtable_search hash_from_key_fn keys_equal_fn h k = None" and "mem \<noteq> Only_realloc_returns"
    and "hashtable_insert hash_from_key_fn loadlimit_of mem True k v h = (r, h1)"
    and "hashtable_remove hash_from_key_fn keys_equal_fn k2 h1 = (r2, h2)"
  shows "r = Returns (-1) \<and>
         (\<forall>k'. hashtable_search hash_from_key_fn keys_equal_fn h1 k' =
                (if keys_equal_fn k' k then Some v
                 else hashtable_search hash_from_key_fn keys_equal_fn h k')) \<and>
         r2 = hashtable_search hash_from_key_fn keys_equal_fn h1 k2 \<and>
         (\<forall>k'. hashtable_search hash_from_key_fn keys_equal_fn h2 k' =
                (if keys_equal_fn k' k2 then None
                 else hashtable_search hash_from_key_fn keys_equal_fn h1 k')) \<and>
         ht_wf hash_from_key_fn keys_equal_fn h2"
  using sha1_table.insert_search [OF assms(1-4)] sha1_table.remove_search [OF _ assms(5)] by metis

definition table_sample :: "(sha1, nat) hashtable" where
  "table_sample = the (hashtable_create True (\<lambda>_. 0) True 10)"

lemma table_sample_create: "hashtable_create True (\<lambda>_. 0) True 10 = Some table_sample"
  by (simp add: table_sample_def hashtable_create_def primes_def word_less_nat_alt)

theorem dedup_hashtable_map_witness:
  "hashtable_search hash_from_key_fn keys_equal_fn
     (snd (hashtable_insert hash_from_key_fn (\<lambda>_. 0) Malloc_returns True [1, 2, 3, 4, 5] (7 :: nat) table_sample))
     [1, 2, 3, 4, 5] = Some 7"
proof -
  from create_wf [OF table_sample_create]
  have wf: "ht_wf hash_from_key_fn keys_equal_fn table_sample" "entries table_sample = {#}" by auto
  then have none: "hashtable_search hash_from_key_fn keys_equal_fn table_sample [1, 2, 3, 4, 5] = None"
    by (intro sha1_table.search_None) auto
  obtain r h1 where i: "hashtable_insert hash_from_key_fn (\<lambda>_. 0) Malloc_returns True [1, 2, 3, 4, 5]
      (7 :: nat) table_sample = (r, h1)" by fastforce
  obtain r2 h2 where "hashtable_remove hash_from_key_fn keys_equal_fn [] h1 = (r2, h2)" by fastforce
  from dedup_hashtable_map [OF wf(1) none _ i this] i show ?thesis
    by (simp add: keys_equal_fn_def)
qed

text \<open>Growing the table is invisible: with memory for the new array, or with none at all,
  \<open>hashtable_expand\<close> returns and no search changes its answer; when only \<open>realloc\<close> has memory, plan B
  writes through an uninitialised pointer.\<close>

theorem dedup_hashtable_expand:
  assumes "ht_wf hash_from_key_fn keys_equal_fn h"
    and "hashtable_expand loadlimit_of mem h = (r, h')"
  shows "if mem = Only_realloc_returns \<and> primeindex h + 1 < length primes then r = Undefined
         else (\<exists>i. r = Returns i) \<and> ht_wf hash_from_key_fn keys_equal_fn h' \<and>
              entries h' = entries h \<and>
              hashtable_search hash_from_key_fn keys_equal_fn h' k =
              hashtable_search hash_from_key_fn keys_equal_fn h k"
proof (cases "mem = Only_realloc_returns")
  case True
  show ?thesis
  proof (cases "primeindex h + 1 < length primes")
    case True
    then have "primeindex h \<noteq> length primes - 1" by linarith
    then have "r = Undefined"
      using assms(2) \<open>mem = Only_realloc_returns\<close> by (auto simp: hashtable_expand_def Let_def)
    with True \<open>mem = Only_realloc_returns\<close> show ?thesis by simp
  next
    case False
    moreover from this assms(1) have "primeindex h = length primes - 1" by (auto simp: ht_wf_def)
    ultimately show ?thesis using assms by (auto simp: hashtable_expand_def)
  qed
next
  case False
  from expand_spec [OF assms(1) False assms(2)] sha1_table.expand_search [OF assms(1) False assms(2)] False
  show ?thesis by simp
qed

theorem dedup_hashtable_expand_witness:
  "entries (snd (hashtable_expand (\<lambda>_. 0) Malloc_returns table_sample)) = {#} \<and>
   fst (hashtable_expand (\<lambda>_. 0) Only_realloc_returns table_sample) = Undefined"
proof -
  from create_wf [OF table_sample_create]
  have wf: "ht_wf hash_from_key_fn keys_equal_fn table_sample" "entries table_sample = {#}" by auto
  have "primeindex table_sample = 0"
    using table_sample_create
    by (simp add: hashtable_create_def primes_def word_less_nat_alt) (metis hashtable.select_convs(5))
  moreover have "1 < length primes" by (simp add: primes_def)
  ultimately have "primeindex table_sample + 1 < length primes" by simp
  with dedup_hashtable_expand [OF wf(1), of "\<lambda>_. 0" Malloc_returns]
    dedup_hashtable_expand [OF wf(1), of "\<lambda>_. 0" Only_realloc_returns] wf(2)
  show ?thesis by (metis allocation.distinct(1) prod.collapse)
qed

end
