(* ===== verification/Dedup_Rabin.thy ===== *)
theory Dedup_Rabin
  imports Gcl_Prelude
begin

text \<open>
  \<open>samples/dedup/rabin.c\<close>: Rabin fingerprints over GF(2) on 32 bit words, the tables that make a
  byte-wise step and the removal of the oldest byte of a window table lookups, and \<open>rabinseg\<close>, which
  finds the next content-defined cut of a buffer.

  The tables are lists of words, a buffer is a list of bytes.
\<close>

unbundle bit_operations_syntax

type_synonym u32int = "32 word"
type_synonym uchar = "8 word"

definition irrpoly :: u32int where
  "irrpoly = 0x45c2b6a1"

definition NWINDOW :: nat where
  "NWINDOW = 32"

definition RabinMask :: u32int where
  "RabinMask = 0xfff"

definition bswap32 :: "u32int \<Rightarrow> u32int" where
  "bswap32 x =
     (push_bit 24 x AND 0xff000000) OR (push_bit 8 x AND 0x00ff0000) OR
     (drop_bit 8 x AND 0x0000ff00) OR (drop_bit 24 x AND 0x000000ff)"

definition fpreduce_round :: "u32int \<Rightarrow> u32int \<Rightarrow> u32int" where
  "fpreduce_round irr x = (if drop_bit 31 x \<noteq> 0 then push_bit 1 x XOR irr else push_bit 1 x)"

definition fpreduce :: "u32int \<Rightarrow> u32int \<Rightarrow> u32int" where
  "fpreduce x irr = (fpreduce_round irr ^^ 32) x"

definition fpmkredtab :: "u32int \<Rightarrow> nat \<Rightarrow> u32int list \<Rightarrow> u32int list" where
  "fpmkredtab irr s tab =
     map (\<lambda>i. fpreduce (push_bit s (word_of_nat i)) irr) [0 ..< 256] @ drop 256 tab"

fun fpwin_loop :: "nat \<Rightarrow> u32int list \<Rightarrow> u32int \<Rightarrow> u32int" where
  "fpwin_loop 0 rabintab winval = winval"
| "fpwin_loop (Suc n) rabintab winval =
     fpwin_loop n rabintab (push_bit 8 winval XOR rabintab ! unat (drop_bit 24 winval))"

definition fpwinreduce :: "u32int \<Rightarrow> int \<Rightarrow> u32int \<Rightarrow> u32int list \<Rightarrow> u32int" where
  "fpwinreduce irr winlen x rabintab =
     (let winval = (push_bit 8 0 OR x) XOR rabintab ! unat (drop_bit 24 (0 :: u32int))
      in fpwin_loop (nat (winlen - 1)) rabintab winval)"

definition fpmkwinredtab :: "u32int \<Rightarrow> int \<Rightarrow> u32int list \<Rightarrow> u32int list \<Rightarrow> u32int list" where
  "fpmkwinredtab irr winlen rabintab rabinwintab =
     map (\<lambda>i. fpwinreduce irr winlen (word_of_nat i) rabintab) [0 ..< 256] @ drop 256 rabinwintab"

definition rabininit :: "int \<Rightarrow> u32int list \<Rightarrow> u32int list \<Rightarrow> u32int list \<times> u32int list" where
  "rabininit winlen rabintab rabinwintab =
     (let tab = fpmkredtab irrpoly 0 rabintab
      in (tab, fpmkwinredtab irrpoly winlen tab rabinwintab))"

text \<open>Shifting one byte into the fingerprint, and the two loops of \<open>rabinseg\<close>.\<close>

definition shift_in :: "u32int list \<Rightarrow> u32int \<Rightarrow> uchar \<Rightarrow> u32int" where
  "shift_in rabintab h c =
     (let x = drop_bit 24 h in (push_bit 8 h OR ucast c) XOR rabintab ! unat x)"

fun window_hash :: "u32int list \<Rightarrow> uchar list \<Rightarrow> nat \<Rightarrow> u32int" where
  "window_hash rabintab p 0 = 0"
| "window_hash rabintab p (Suc i) = shift_in rabintab (window_hash rabintab p i) (p ! i)"

function rabin_scan ::
  "uchar list \<Rightarrow> nat \<Rightarrow> u32int list \<Rightarrow> u32int list \<Rightarrow> nat \<Rightarrow> u32int \<Rightarrow> nat" where
  "rabin_scan p n rabintab rabinwintab i h =
     (if i < n
      then let h1 = h XOR rabinwintab ! unat (p ! (i - NWINDOW));
               h2 = shift_in rabintab h1 (p ! i)
           in if h2 AND RabinMask = 0 then i + 1
              else rabin_scan p n rabintab rabinwintab (i + 1) h2
      else n)"
  by auto
termination by (relation "measure (\<lambda>(p, n, t, w, i, h). n - i)") auto

declare rabin_scan.simps [simp del]

definition rabinseg :: "uchar list \<Rightarrow> int \<Rightarrow> int \<Rightarrow> u32int list \<Rightarrow> u32int list \<Rightarrow> int" where
  "rabinseg p n winlen rabintab rabinwintab =
     (if n < int NWINDOW then n
      else let h = window_hash rabintab p NWINDOW
           in if h AND RabinMask = 0 then int NWINDOW
              else int (rabin_scan p (nat n) rabintab rabinwintab NWINDOW h))"

subsection \<open>Linearity\<close>

lemma fpreduce_round_bit:
  "fpreduce_round irr x = push_bit 1 x XOR (if bit x 31 then irr else 0)"
proof -
  have "drop_bit 31 x \<noteq> 0 \<longleftrightarrow> bit x 31"
  proof
    assume "drop_bit 31 x \<noteq> 0"
    then obtain n where "bit (drop_bit 31 x) n" using bit_eq_iff [of "drop_bit 31 x" 0] by auto
    then have "bit x (31 + n)" by (simp add: bit_drop_bit_eq)
    moreover from this have "31 + n < 32" using bit_imp_le_length by force
    ultimately show "bit x 31" by simp
  next
    assume "bit x 31"
    then have "bit (drop_bit 31 x) 0" by (simp add: bit_drop_bit_eq)
    then show "drop_bit 31 x \<noteq> 0" by auto
  qed
  then show ?thesis by (simp add: fpreduce_round_def)
qed

lemma push_bit_xor_32: "push_bit n (x XOR y :: u32int) = push_bit n x XOR push_bit n y"
  by (simp add: push_bit_xor)

lemma fpreduce_round_xor:
  "fpreduce_round irr (x XOR y) = fpreduce_round irr x XOR fpreduce_round irr y"
  by (auto simp: fpreduce_round_bit push_bit_xor bit_xor_iff ac_simps xor.left_commute)

lemma fpreduce_xor: "fpreduce (x XOR y) irr = fpreduce x irr XOR fpreduce y irr"
proof -
  have "(fpreduce_round irr ^^ n) (x XOR y) = (fpreduce_round irr ^^ n) x XOR (fpreduce_round irr ^^ n) y" for n
    by (induction n) (simp_all add: fpreduce_round_xor)
  then show ?thesis by (simp add: fpreduce_def)
qed

text \<open>One byte-wise step on the polynomial, without a table.\<close>

definition fp_step :: "u32int \<Rightarrow> uchar \<Rightarrow> u32int" where
  "fp_step h c = (push_bit 8 h XOR ucast c) XOR fpreduce (drop_bit 24 h) irrpoly"

definition fingerprint :: "uchar list \<Rightarrow> u32int" where
  "fingerprint w = foldl fp_step 0 w"

lemma fp_step_0_0: "fp_step 0 0 = 0"
  by (simp add: fp_step_def fpreduce_def fpreduce_round_bit numeral_eq_Suc)

lemma fp_step_xor: "fp_step (h XOR g) c = fp_step h c XOR fp_step g 0"
proof -
  have "drop_bit 24 (h XOR g) = drop_bit 24 h XOR drop_bit 24 g" by (simp add: drop_bit_xor)
  then show ?thesis
    by (simp add: fp_step_def fpreduce_xor push_bit_xor ac_simps xor.left_commute)
qed

lemma foldl_fp_step_xor:
  "foldl fp_step (h XOR g) w = foldl fp_step h w XOR ((\<lambda>u. fp_step u 0) ^^ length w) g"
proof (induction w arbitrary: h g)
  case (Cons c w)
  have "foldl fp_step (h XOR g) (c # w) = foldl fp_step (fp_step h c XOR fp_step g 0) w"
    by (simp add: fp_step_xor)
  with Cons.IH [of "fp_step h c" "fp_step g 0"] show ?case
    using funpow_swap1 [of "\<lambda>u. fp_step u 0" "length w" g] by simp
qed simp

lemma or_byte_eq_xor: "push_bit 8 (h :: u32int) OR ucast (c :: uchar) = push_bit 8 h XOR ucast c"
proof (rule bit_word_eqI)
  fix n assume "n < LENGTH(32)"
  have "\<not> (bit (push_bit 8 h) n \<and> bit (ucast c :: u32int) n)"
    using bit_imp_le_length [of c n] by (auto simp: bit_push_bit_iff bit_ucast_iff)
  then show "bit (push_bit 8 h OR ucast c) n \<longleftrightarrow> bit (push_bit 8 h XOR ucast c) n"
    by (auto simp: bit_or_iff bit_xor_iff)
qed

lemma top_byte: "unat (drop_bit 24 (h :: u32int)) < 256"
proof -
  have "unat (drop_bit 24 h) = unat h div 2 ^ 24"
    by (simp add: drop_bit_eq_div unat_div_distrib)
  moreover have "unat h < 2 ^ 32" using unsigned_less [of h, where ?'a = nat] by simp
  ultimately show ?thesis by (simp add: less_mult_imp_div_less)
qed

lemma redtab_nth: "k < 256 \<Longrightarrow> fpmkredtab irrpoly 0 t ! k = fpreduce (word_of_nat k) irrpoly"
  by (simp add: fpmkredtab_def nth_append)

lemma table_lookup:
  "fpmkredtab irrpoly 0 t ! unat (drop_bit 24 h) = fpreduce (drop_bit 24 h) irrpoly"
  using redtab_nth [OF top_byte, of t h] by (simp add: unsigned_ucast_eq)

lemma shift_in_eq: "shift_in (fpmkredtab irrpoly 0 t) h c = fp_step h c"
  by (simp add: shift_in_def fp_step_def or_byte_eq_xor table_lookup Let_def)

lemma window_hash_eq:
  "i \<le> length p \<Longrightarrow> window_hash (fpmkredtab irrpoly 0 t) p i = fingerprint (take i p)"
  by (induction i) (simp_all add: shift_in_eq fingerprint_def take_Suc_conv_app_nth)

lemma fpwin_loop_eq:
  "fpwin_loop n (fpmkredtab irrpoly 0 t) v = ((\<lambda>u. fp_step u 0) ^^ n) v"
  by (induction n arbitrary: v) (simp_all add: table_lookup fp_step_def funpow_swap1 del: funpow.simps(2) add: funpow_Suc_right)

lemma fpwinreduce_eq:
  "fpwinreduce irrpoly winlen (ucast b) (fpmkredtab irrpoly 0 t) =
   ((\<lambda>u. fp_step u 0) ^^ nat (winlen - 1)) (fp_step 0 b)"
  using table_lookup [of t 0] by (simp add: fpwinreduce_def fpwin_loop_eq fp_step_def)

lemma wintab_nth:
  "fpmkwinredtab irrpoly winlen (fpmkredtab irrpoly 0 t) u ! unat (b :: uchar) =
   ((\<lambda>u. fp_step u 0) ^^ nat (winlen - 1)) (fp_step 0 b)"
proof -
  have "unat b < 256" using unsigned_less [of b, where ?'a = nat] by simp
  then show ?thesis
    using fpwinreduce_eq [of winlen b t]
    by (simp add: fpmkwinredtab_def nth_append unsigned_ucast_eq)
qed

text \<open>Removing the oldest byte of a window of \<open>winlen\<close> bytes.\<close>

lemma fingerprint_drop_first:
  assumes "length w = nat (winlen - 1)"
  shows "fingerprint (b # w) XOR
           fpmkwinredtab irrpoly winlen (fpmkredtab irrpoly 0 t) u ! unat b = fingerprint w"
proof -
  have "fingerprint (b # w) = foldl fp_step (0 XOR fp_step 0 b) w"
    by (simp add: fingerprint_def)
  also have "\<dots> = fingerprint w XOR ((\<lambda>u. fp_step u 0) ^^ length w) (fp_step 0 b)"
    by (simp only: foldl_fp_step_xor fingerprint_def)
  finally show ?thesis
    using assms by (simp add: wintab_nth ac_simps)
qed

subsection \<open>The scan\<close>

definition cut_at :: "uchar list \<Rightarrow> nat \<Rightarrow> bool" where
  "cut_at p i \<longleftrightarrow> fingerprint (take NWINDOW (drop (i - NWINDOW) p)) AND RabinMask = 0"

lemma window_slide:
  assumes "NWINDOW \<le> i" and "i < length p"
  shows "take NWINDOW (drop (i - NWINDOW) p) = p ! (i - NWINDOW) # take 31 (drop (i - 31) p)"
    and "take NWINDOW (drop (i + 1 - NWINDOW) p) = take 31 (drop (i - 31) p) @ [p ! i]"
proof -
  have "drop (i - 32) p = p ! (i - 32) # drop (i - 31) p"
  proof -
    have "Suc (i - 32) = i - 31" "i - 32 < length p" using assms by (auto simp: NWINDOW_def)
    with Cons_nth_drop_Suc [of "i - 32" p] show ?thesis by simp
  qed
  then show "take NWINDOW (drop (i - NWINDOW) p) = p ! (i - NWINDOW) # take 31 (drop (i - 31) p)"
    by (simp add: NWINDOW_def)
  have "take (Suc 31) (drop (i - 31) p) = take 31 (drop (i - 31) p) @ [drop (i - 31) p ! 31]"
    using assms by (intro take_Suc_conv_app_nth) (simp add: NWINDOW_def)
  then show "take NWINDOW (drop (i + 1 - NWINDOW) p) = take 31 (drop (i - 31) p) @ [p ! i]"
    using assms by (simp add: NWINDOW_def)
qed

lemma rabin_scan_spec:
  assumes "rabininit 32 t u = (T, W)" and "NWINDOW \<le> i" "i \<le> n" "n \<le> length p"
    and "h = fingerprint (take NWINDOW (drop (i - NWINDOW) p))"
  shows "rabin_scan p n T W i h =
           (case find (cut_at p) [i + 1 ..< n + 1] of Some j \<Rightarrow> j | None \<Rightarrow> n)"
  using assms(2-5)
proof (induction "n - i" arbitrary: i h)
  case 0
  then show ?case by (subst rabin_scan.simps) simp
next
  case (Suc d)
  from assms(1) have T: "T = fpmkredtab irrpoly 0 t" and W: "W = fpmkwinredtab irrpoly 32 T u"
    by (auto simp: rabininit_def Let_def)
  from Suc have i: "i < n" "i < length p" by auto
  note slide = window_slide [OF Suc.prems(1) i(2)]
  let ?w = "take 31 (drop (i - 31) p)"
  have len: "length ?w = nat (32 - 1)" using i Suc.prems(1) by (simp add: NWINDOW_def)
  have h1: "h XOR W ! unat (p ! (i - NWINDOW)) = fingerprint ?w"
    unfolding Suc.prems(4) slide(1) W T by (rule fingerprint_drop_first [OF len])
  have h2: "shift_in T (fingerprint ?w) (p ! i) = fingerprint (take NWINDOW (drop (i + 1 - NWINDOW) p))"
    unfolding slide(2) T shift_in_eq by (simp add: fingerprint_def)
  have IH: "rabin_scan p n T W (i + 1) (fingerprint (take NWINDOW (drop (i + 1 - NWINDOW) p))) =
        (case find (cut_at p) [i + 1 + 1 ..< n + 1] of Some j \<Rightarrow> j | None \<Rightarrow> n)"
    using Suc i by (intro Suc.hyps(1)) auto
  have upt: "[i + 1 ..< n + 1] = (i + 1) # [i + 1 + 1 ..< n + 1]"
    using i by (simp add: upt_conv_Cons)
  show ?case
    unfolding upt using i IH
    by (subst rabin_scan.simps) (simp add: Let_def h1 h2 cut_at_def del: upt_Suc)
qed

subsection \<open>Properties\<close>

text \<open>C26. Content-defined chunking: with tables made for a window of 32 bytes, \<open>rabinseg\<close> returns the
  first position, from 32 on, at which the low 12 bits of the Rabin fingerprint of the 32 bytes
  before it are zero, and the end of the buffer when there is none or the buffer is shorter than a
  window. The rolling update thus equals the fingerprint recomputed from scratch, and a cut depends
  on the last 32 bytes only.\<close>

theorem dedup_rabin_first_cut:
  assumes "rabininit 32 t u = (T, W)" and "n \<le> int (length p)"
  shows "rabinseg p n winlen T W =
           (if n < 32 then n
            else case find (cut_at p) [32 ..< nat n + 1] of Some j \<Rightarrow> int j | None \<Rightarrow> n)"
proof (cases "n < 32")
  case False
  from assms(1) have T: "T = fpmkredtab irrpoly 0 t" by (auto simp: rabininit_def Let_def)
  from False assms(2) have n: "32 \<le> nat n" "nat n \<le> length p" by auto
  have h: "window_hash T p NWINDOW = fingerprint (take NWINDOW (drop (NWINDOW - NWINDOW) p))"
    unfolding T using n by (subst window_hash_eq) (auto simp: NWINDOW_def)
  have scan: "rabin_scan p (nat n) T W NWINDOW (window_hash T p NWINDOW) =
        (case find (cut_at p) [NWINDOW + 1 ..< nat n + 1] of Some j \<Rightarrow> j | None \<Rightarrow> nat n)"
    using n by (intro rabin_scan_spec [OF assms(1)] h) (auto simp: NWINDOW_def)
  have "[32 ..< nat n + 1] = 32 # [33 ..< nat n + 1]" using n by (simp add: upt_conv_Cons)
  moreover have "cut_at p 32 \<longleftrightarrow> window_hash T p NWINDOW AND RabinMask = 0"
    using h by (simp add: cut_at_def NWINDOW_def)
  ultimately show ?thesis
    using False scan n by (auto simp: rabinseg_def NWINDOW_def Let_def split: option.split)
qed (simp add: rabinseg_def NWINDOW_def)

theorem dedup_rabin_first_cut_witness:
  "rabinseg (replicate 40 0) 40 32 (fst (rabininit 32 [] [])) (snd (rabininit 32 [] [])) = 32"
proof -
  have "fingerprint (replicate k 0) = 0" for k
    unfolding fingerprint_def by (induction k) (auto simp: fp_step_0_0)
  then have "cut_at (replicate 40 0) 32" by (simp add: cut_at_def NWINDOW_def)
  then have "find (cut_at (replicate 40 0)) [32 ..< nat 40 + 1] = Some 32"
    by (subst upt_conv_Cons) simp_all
  with dedup_rabin_first_cut [of "[]" "[]" "fst (rabininit 32 [] [])" "snd (rabininit 32 [] [])" 40 "replicate 40 0" 32]
  show ?thesis by simp
qed

subsection \<open>Evaluation on integers\<close>

definition round_int :: "int \<Rightarrow> int" where
  "round_int x = (if x \<ge> 2147483648 then (2 * x - 4294967296) XOR 0x45c2b6a1 else 2 * x)"

definition step_int :: "int \<Rightarrow> int" where
  "step_int h = (h * 256) mod 4294967296 XOR (round_int ^^ 32) (h div 16777216)"

lemma uint_push1:
  "uint (push_bit 1 (w :: u32int)) =
     (if uint w \<ge> 2147483648 then 2 * uint w - 4294967296 else 2 * uint w)"
proof -
  have push: "uint (push_bit 1 w) = (2 * uint w) mod 4294967296"
    by (simp add: push_bit_eq_mult uint_word_ariths mult.commute)
  have b: "0 \<le> uint w" "uint w < 4294967296" using uint_bounded [of w] by auto
  show ?thesis
  proof (cases "uint w \<ge> 2147483648")
    case True
    have "(2 * uint w) mod 4294967296 = (2 * uint w - 4294967296 + 4294967296) mod 4294967296"
      by simp
    also have "\<dots> = (2 * uint w - 4294967296) mod 4294967296" by (rule mod_add_self2)
    also have "\<dots> = 2 * uint w - 4294967296" using True b by (intro mod_pos_pos_trivial) auto
    finally show ?thesis using push True by simp
  next
    case False
    then show ?thesis using push b by simp
  qed
qed

lemma drop31: "drop_bit 31 (w :: u32int) \<noteq> 0 \<longleftrightarrow> 2147483648 \<le> uint w"
proof -
  have "uint (drop_bit 31 w) = uint w div 2147483648"
    by (simp add: drop_bit_eq_div uint_div_distrib)
  moreover have "drop_bit 31 w \<noteq> 0 \<longleftrightarrow> uint (drop_bit 31 w) \<noteq> 0"
    by (simp only: word_uint_eq_iff unsigned_0)
  moreover have "0 \<le> uint w" by simp
  ultimately show ?thesis by (simp add: zdiv_eq_0_iff not_less)
qed

lemma uint_round: "uint (fpreduce_round irrpoly w) = round_int (uint w)"
  using uint_push1 [of w] drop31 [of w]
  by (simp add: fpreduce_round_def round_int_def uint_xor irrpoly_def)

lemma uint_reduce: "uint (fpreduce w irrpoly) = (round_int ^^ 32) (uint w)"
proof -
  have "uint ((fpreduce_round irrpoly ^^ n) w) = (round_int ^^ n) (uint w)" for n
    by (induction n) (simp_all add: uint_round)
  then show ?thesis by (simp add: fpreduce_def)
qed

lemma uint_step: "uint (fp_step w 0) = step_int (uint w)"
  by (simp add: fp_step_def step_int_def uint_xor uint_reduce push_bit_eq_mult uint_word_ariths
      drop_bit_eq_div uint_div_distrib)

lemma uint_steps: "uint (((\<lambda>u. fp_step u 0) ^^ n) w) = (step_int ^^ n) (uint w)"
  by (induction n) (simp_all add: uint_step)

lemma funpow_31:
  "(f ^^ 31) x = f (f (f (f (f (f (f (f (f (f (f (f (f (f (f (f (f (f (f (f (f (f (f (f (f (f (f (f (f
     (f (f x))))))))))))))))))))))))))))))"
  by (simp add: eval_nat_numeral)

lemma funpow_32: "(f ^^ 32) x = f ((f ^^ 31) x)"
  by (simp add: eval_nat_numeral)

lemma round_eval:
  "round_int 0 = 0" "round_int 1 = 2"
  "round_int (numeral k) =
     (if (numeral k :: int) \<ge> 2147483648 then (2 * numeral k - 4294967296) XOR 0x45c2b6a1
      else 2 * numeral k)"
  by (simp_all add: round_int_def)

lemma step_eval:
  "step_int 0 = (round_int ^^ 32) 0" "step_int 1 = 256 XOR (round_int ^^ 32) 0"
  "step_int (numeral k) =
     (numeral k * 256) mod 4294967296 XOR (round_int ^^ 32) (numeral k div 16777216)"
  by (simp_all add: step_int_def)

lemma steps_31: "(step_int ^^ 31) 1 = 0x538188b7"
  by (simp add: funpow_31 funpow_32 round_eval step_eval)

lemma fp_step_0_byte: "fp_step 0 b = ucast b"
  using fp_step_0_0 by (simp add: fp_step_def)

subsection \<open>The tables of the encoder\<close>

text \<open>The encoder calls \<open>rabininit\<close> with a window length of 0. With those tables the byte that
  leaves the window is not removed from the hash: on the byte 1 followed by 33 zero bytes, the last
  32 bytes at position 33 have fingerprint 0, so there is a cut, but \<open>rabinseg\<close> runs past it to the
  end of the buffer.\<close>

theorem dedup_rabin_zero_window:
  assumes "rabininit 0 t u = (T, W)" and "p = 1 # replicate 33 0"
  shows "cut_at p 33 \<and> rabinseg p 34 0 T W = 34"
proof
  have zeros: "fingerprint (replicate k 0) = 0" for k
    unfolding fingerprint_def by (induction k) (auto simp: fp_step_0_0)
  have "take NWINDOW (drop (33 - NWINDOW) p) = replicate 32 0"
    using assms(2) by (simp add: NWINDOW_def)
  then show "cut_at p 33" by (simp add: cut_at_def zeros)
next
  from assms(1) have T: "T = fpmkredtab irrpoly 0 t" and W: "W = fpmkwinredtab irrpoly 0 T u"
    by (auto simp: rabininit_def Let_def)
  have "take 32 p = 1 # replicate 31 0" using assms(2) by (simp add: eval_nat_numeral)
  moreover have "foldl fp_step h (replicate k 0) = ((\<lambda>u. fp_step u 0) ^^ k) h" for h k
    by (induction k arbitrary: h) (simp_all add: funpow_swap1 [of "\<lambda>u. fp_step u 0"])
  ultimately have "window_hash T p NWINDOW = ((\<lambda>u. fp_step u 0) ^^ 31) 1"
    unfolding T using assms(2) by (subst window_hash_eq)
      (simp_all add: NWINDOW_def fingerprint_def fp_step_0_byte)
  moreover have "((\<lambda>u. fp_step u 0) ^^ 31) (1 :: u32int) = 0x538188b7"
    using uint_steps [of 31 1] by (simp add: steps_31 word_uint_eq_iff)
  ultimately have h: "window_hash T p NWINDOW = 0x538188b7" by simp
  have w1: "W ! unat (p ! 0) = 1"
    using wintab_nth [of 0 t u 1] assms(2) by (simp add: W T fp_step_0_byte)
  have "uint (fp_step 0x538188b6 0) = 0x7aa07302"
    by (simp add: uint_step step_eval funpow_32 funpow_31 round_eval)
  then have s: "fp_step 0x538188b6 0 = 0x7aa07302" by (simp add: word_uint_eq_iff)
  have "rabin_scan p 34 T W 32 0x538188b7 = rabin_scan p 34 T W 33 0x7aa07302"
    using w1 assms(2) s
    by (subst rabin_scan.simps) (simp add: NWINDOW_def Let_def T shift_in_eq RabinMask_def)
  also have "\<dots> = 34"
    by (subst rabin_scan.simps; subst rabin_scan.simps) (simp add: Let_def)
  finally show "rabinseg p 34 0 T W = 34"
    using h by (simp add: rabinseg_def NWINDOW_def Let_def RabinMask_def)
qed

theorem dedup_rabin_zero_window_witness:
  "rabinseg (1 # replicate 33 0) 34 0 (fst (rabininit 0 [] [])) (snd (rabininit 0 [] [])) = 34"
  using dedup_rabin_zero_window [of "[]" "[]" "fst (rabininit 0 [] [])" "snd (rabininit 0 [] [])"] by simp

end
