(* ===== verification/Dedup_Archive.thy ===== *)
theory Dedup_Archive
  imports Dedup_Hashtable Dedup_Rabin
begin

text \<open>
  The bytes of a dedup archive: \<open>samples/dedup/util.c\<close> (reading and writing until everything is
  transferred, the file header), \<open>write_file\<close> of \<open>encoder.c\<close> and \<open>read_chunk\<close> of \<open>decoder.c\<close>. Integers
  are in the byte order of the machine, little-endian.
\<close>

section \<open>Reading and writing everything\<close>

text \<open>What the calls of \<open>read(2)\<close> and \<open>write(2)\<close> answer: bytes (none at the end of the file), or an error.\<close>

datatype errno = EINTR | EAGAIN | EIO | Other_errno

datatype read_result = Got "uchar list" | Read_failed errno
datatype write_result = Wrote nat | Write_failed errno

text \<open>The buffer from \<open>buf\<close> on, as a function of the offset; \<open>p\<close> is the current offset.\<close>

definition put_bytes :: "int \<Rightarrow> uchar list \<Rightarrow> (int \<Rightarrow> uchar) \<Rightarrow> int \<Rightarrow> uchar" where
  "put_bytes p bs buf = (\<lambda>i. if p \<le> i \<and> i < p + int (length bs) then bs ! nat (i - p) else buf i)"

text \<open>\<open>rv\<close> is declared \<open>size_t\<close>: the result -1 of a failing \<open>read\<close> is the largest number, the tests
  \<open>0 > rv\<close> never hold, and \<open>nrecv += rv\<close>, \<open>p += rv\<close> step back by one.\<close>

definition read_rv :: "read_result \<Rightarrow> size_t" where
  "read_rv r = (case r of Got bs \<Rightarrow> word_of_nat (length bs) | Read_failed _ \<Rightarrow> -1)"

definition read_bytes :: "read_result \<Rightarrow> uchar list" where
  "read_bytes r = (case r of Got bs \<Rightarrow> bs | Read_failed _ \<Rightarrow> [])"

fun xread_loop :: "size_t \<Rightarrow> read_result list \<Rightarrow> size_t \<Rightarrow> int \<Rightarrow> (int \<Rightarrow> uchar)
    \<Rightarrow> (32 word \<times> (int \<Rightarrow> uchar)) option" where
  "xread_loop len [] nrecv p buf = (if nrecv < len then None else Some (ucast nrecv, buf))"
| "xread_loop len (r # rs) nrecv p buf =
     (if nrecv < len
      then let rv = read_rv r
           in if rv = 0 then Some (0, buf)
              else xread_loop len rs (nrecv + rv) (p + sint rv) (put_bytes p (read_bytes r) buf)
      else Some (ucast nrecv, buf))"

definition xread :: "read_result list \<Rightarrow> (int \<Rightarrow> uchar) \<Rightarrow> size_t \<Rightarrow> (32 word \<times> (int \<Rightarrow> uchar)) option" where
  "xread rs buf len = xread_loop len rs 0 0 buf"

text \<open>\<open>xwrite\<close> has a signed result; \<open>sent\<close> are the bytes that reached the file.\<close>

fun xwrite_loop :: "uchar list \<Rightarrow> size_t \<Rightarrow> write_result list \<Rightarrow> size_t \<Rightarrow> uchar list
    \<Rightarrow> (32 word \<times> uchar list) option" where
  "xwrite_loop buf len [] nsent sent = (if nsent < len then None else Some (ucast nsent, sent))"
| "xwrite_loop buf len (r # rs) nsent sent =
     (if nsent < len
      then (case r of
          Write_failed e \<Rightarrow>
            if e = EINTR \<or> e = EAGAIN then xwrite_loop buf len rs nsent sent else Some (-1, sent)
        | Wrote k \<Rightarrow> xwrite_loop buf len rs (nsent + word_of_nat k) (sent @ take k (drop (unat nsent) buf)))
      else Some (ucast nsent, sent))"

definition xwrite :: "write_result list \<Rightarrow> uchar list \<Rightarrow> size_t \<Rightarrow> (32 word \<times> uchar list) option" where
  "xwrite rs buf len = xwrite_loop buf len rs 0 []"

lemma xread_loop_whole:
  assumes "\<forall>bs\<in>set bss. bs \<noteq> []" and "unat nrecv + length (concat bss) = unat len" and "unat len < 2 ^ 63"
    and "p = int (unat nrecv)"
  shows "\<exists>buf'. xread_loop len (map Got bss @ rs) nrecv p buf = Some (ucast len, buf') \<and>
     (\<forall>i < length (concat bss). buf' (p + int i) = concat bss ! i) \<and> (\<forall>i < p. buf' i = buf i)"
  using assms
proof (induction bss arbitrary: nrecv p buf)
  case Nil
  then have "nrecv = len" by (simp add: word_unat_eq_iff)
  then show ?case by (cases rs) auto
next
  case (Cons bs bss)
  let ?rv = "word_of_nat (length bs) :: size_t"
  have n: "0 < length bs" "length bs < 2 ^ 63" using Cons.prems by auto
  then have rv: "unat ?rv = length bs" by (simp add: unsigned_of_nat take_bit_nat_eq_self)
  then have rv0: "?rv \<noteq> 0" using n by (metis unsigned_0 less_irrefl)
  have srv: "sint ?rv = int (length bs)"
    using n by (simp add: signed_of_nat signed_take_bit_int_eq_self)
  have sum: "unat (nrecv + ?rv) = unat nrecv + length bs"
    using Cons.prems(2,3) rv by (subst unat_word_ariths) (simp add: unat_word_ariths)
  have "unat nrecv < unat len" using Cons.prems(2) n(1) by (simp del: length_greater_0_conv)
  then have lt: "nrecv < len" by (simp add: word_less_nat_alt)
  obtain buf' where buf': "xread_loop len (map Got bss @ rs) (nrecv + ?rv) (p + sint ?rv) (put_bytes p bs buf) =
      Some (ucast len, buf')"
    "\<forall>i < length (concat bss). buf' (p + int (length bs) + int i) = concat bss ! i"
    "\<forall>i < p + int (length bs). buf' i = put_bytes p bs buf i"
    using Cons.IH [of "nrecv + ?rv" "p + sint ?rv" "put_bytes p bs buf"] Cons.prems sum srv by auto
  have "buf' (p + int i) = (bs @ concat bss) ! i" if "i < length (bs @ concat bss)" for i
  proof (cases "i < length bs")
    case True
    then show ?thesis using buf'(3) srv by (simp add: put_bytes_def nth_append)
  next
    case False
    then have j: "i - length bs < length (concat bss)" using that by simp
    have "p + int (length bs) + int (i - length bs) = p + int i" using False by simp
    then have "buf' (p + int i) = concat bss ! (i - length bs)"
      using buf'(2) j by metis
    then show ?thesis using False by (simp add: nth_append of_nat_diff)
  qed
  moreover have "buf' i = buf i" if "i < p" for i
    using buf'(3) that srv by (simp add: put_bytes_def)
  ultimately show ?case
    using lt rv0 buf'(1) by (auto simp: read_rv_def read_bytes_def Let_def)
qed

text \<open>\<open>xread\<close> delivers exactly the bytes of the file, however the system cuts them into pieces, as
  long as no call fails: it returns \<open>len\<close> and the buffer holds the next \<open>len\<close> bytes.\<close>

theorem dedup_xread_whole:
  assumes "\<And>bs. bs \<in> set bss \<Longrightarrow> bs \<noteq> []" and "length (concat bss) = unat len" and "unat len < 2 ^ 63"
  shows "case xread (map Got bss @ rs) buf len of
      None \<Rightarrow> False
    | Some (n, buf') \<Rightarrow> n = ucast len \<and> map (\<lambda>i. buf' (int i)) [0 ..< unat len] = concat bss"
proof -
  obtain buf' where buf': "xread (map Got bss @ rs) buf len = Some (ucast len, buf')"
      "\<forall>i < length (concat bss). buf' (int i) = concat bss ! i"
    using xread_loop_whole [of bss 0 len 0 rs buf] assms by (auto simp: xread_def)
  have "map (\<lambda>i. buf' (int i)) [0 ..< unat len] = concat bss"
  proof (rule nth_equalityI)
    fix i assume "i < length (map (\<lambda>i. buf' (int i)) [0 ..< unat len])"
    then show "map (\<lambda>i. buf' (int i)) [0 ..< unat len] ! i = concat bss ! i"
      using buf'(2) assms(2) by simp
  qed (simp add: assms(2))
  with buf'(1) show ?thesis by simp
qed

theorem dedup_xread_whole_witness:
  "case xread (map Got [[1, 2], [3], [4, 5]] @ []) (\<lambda>_. 0) 5 of
      None \<Rightarrow> False
    | Some (n, buf') \<Rightarrow> n = ucast (5 :: size_t) \<and> map (\<lambda>i. buf' (int i)) [0 ..< unat (5 :: size_t)] = concat [[1, 2], [3], [4, 5]]"
  by (rule dedup_xread_whole) auto

text \<open>A read that is interrupted after some bytes have arrived loses the last of them: the error counts
  as a step back by one, the next byte overwrites it, and \<open>xread\<close> reports that it has read everything.\<close>

theorem dedup_xread_error_loses_byte:
  "case xread [Got [a], Read_failed e, Got [b, c]] buf 2 of
      None \<Rightarrow> False
    | Some (n, buf') \<Rightarrow> n = 2 \<and> buf' 0 = b \<and> buf' 1 = c"
  by (simp add: xread_def read_rv_def read_bytes_def put_bytes_def)

section \<open>Integers and records\<close>

definition le_bytes :: "nat \<Rightarrow> nat \<Rightarrow> uchar list" where
  "le_bytes k n = map (\<lambda>i. word_of_nat (n div 256 ^ i mod 256)) [0 ..< k]"

fun le_nat :: "uchar list \<Rightarrow> nat" where
  "le_nat [] = 0"
| "le_nat (b # bs) = unat b + 256 * le_nat bs"

lemma length_le_bytes [simp]: "length (le_bytes k n) = k"
  by (simp add: le_bytes_def)

lemma le_bytes_Suc: "le_bytes (Suc k) n = word_of_nat (n mod 256) # le_bytes k (n div 256)"
  by (simp add: le_bytes_def upt_conv_Cons map_Suc_upt [symmetric] div_mult2_eq del: upt_Suc)

lemma le_nat_bytes [simp]: "n < 256 ^ k \<Longrightarrow> le_nat (le_bytes k n) = n"
proof (induction k arbitrary: n)
  case (Suc k)
  then have "n div 256 < 256 ^ k" by (simp add: less_mult_imp_div_less mult.commute)
  then show ?case using Suc.IH by (simp add: le_bytes_Suc unsigned_of_nat take_bit_eq_mod)
qed (simp add: le_bytes_def)

text \<open>A file is a list of bytes. \<open>take_exactly\<close> is \<open>xread\<close> on a file whose reads do not fail
  (\<open>dedup_xread_whole\<close>): it gives \<open>None\<close>, where \<open>xread\<close> gives 0, at the end of the file, after a partial
  transfer, too.\<close>

definition take_exactly :: "nat \<Rightarrow> uchar list \<Rightarrow> (uchar list \<times> uchar list) option" where
  "take_exactly n s = (if n \<le> length s then Some (take n s, drop n s) else None)"

lemma take_exactly_append [simp]: "length xs = n \<Longrightarrow> take_exactly n (xs @ ys) = Some (xs, ys)"
  by (simp add: take_exactly_def)

definition CHECKBIT :: nat where
  "CHECKBIT = 123456"

definition write_header :: "uchar \<Rightarrow> uchar list" where
  "write_header compress_type = le_bytes 4 CHECKBIT @ [compress_type]"

text \<open>\<open>xread\<close> returning 0 is no error for \<open>read_header\<close>: at the end of the file \<open>checkbit\<close> keeps the
  indeterminate value it had (\<open>Undefined\<close>), and so does the compression type (\<open>None\<close>).\<close>

definition read_header :: "uchar list \<Rightarrow> (32 word \<times> uchar option \<times> uchar list) outcome" where
  "read_header s = (case take_exactly 4 s of
      None \<Rightarrow> Undefined
    | Some (checkbit, s1) \<Rightarrow>
        if le_nat checkbit \<noteq> CHECKBIT then Returns (-1, None, s1)
        else (case take_exactly 1 s1 of
            None \<Rightarrow> Returns (0, None, [])
          | Some (ty, s2) \<Rightarrow> Returns (0, Some (hd ty), s2)))"

definition TYPE_FINGERPRINT :: uchar where
  "TYPE_FINGERPRINT = 0"

definition TYPE_COMPRESS :: uchar where
  "TYPE_COMPRESS = 1"

definition SHA1_LEN :: nat where
  "SHA1_LEN = 20"

definition write_file :: "uchar \<Rightarrow> nat \<Rightarrow> uchar list \<Rightarrow> uchar list" where
  "write_file ty len content = [ty] @ le_bytes 8 len @ take len content"

text \<open>The five words of a SHA-1 sum as the twenty bytes in the file.\<close>

definition sha1_bytes :: "sha1 \<Rightarrow> uchar list" where
  "sha1_bytes ws = concat (map (\<lambda>w. le_bytes 4 (unat w)) ws)"

definition sha1_words :: "uchar list \<Rightarrow> sha1" where
  "sha1_words bs = map (\<lambda>i. word_of_nat (le_nat (take 4 (drop (4 * i) bs)))) [0 ..< 5]"

lemma length_sha1_bytes: "length (sha1_bytes ws) = 4 * length ws"
  by (induction ws) (simp_all add: sha1_bytes_def)

lemma sha1_words_bytes:
  assumes "length ws = 5"
  shows "sha1_words (sha1_bytes ws) = ws"
proof -
  have le: "word_of_nat (le_nat (le_bytes 4 (unat w))) = w" for w :: "32 word"
  proof -
    have "unat w < 256 ^ 4" using unsigned_less [of w] by simp
    then show ?thesis by (simp only: le_nat_bytes) (simp add: unsigned_ucast_eq)
  qed
  obtain a b c d e where "ws = [a, b, c, d, e]"
    using assms by (auto simp: eval_nat_numeral length_Suc_conv)
  then show ?thesis using le by (simp add: sha1_words_def sha1_bytes_def upt_rec)
qed

text \<open>What \<open>read_chunk\<close> leaves in the chunk, and the error messages it exits with. It returns the
  length as an \<open>int\<close>.\<close>

datatype chunk_record = Duplicate_of sha1 | Compressed "uchar list"

definition read_chunk :: "uchar list \<Rightarrow> string + (int \<times> chunk_record option \<times> uchar list)" where
  "read_chunk s = (case take_exactly 1 s of
      None \<Rightarrow> Inr (0, None, [])
    | Some (ty, s1) \<Rightarrow> (case take_exactly 8 s1 of
        None \<Rightarrow> Inl ''incomplete chunk''
      | Some (lenb, s2) \<Rightarrow>
          let len = le_nat lenb; r = sint (word_of_nat len :: 32 word)
          in if hd ty = TYPE_FINGERPRINT then
               (if len \<noteq> SHA1_LEN then Inl ''incorrect size of SHA1 sum''
                else (case take_exactly SHA1_LEN s2 of
                    None \<Rightarrow> Inl ''incomplete chunk''
                  | Some (sh, s3) \<Rightarrow> Inr (r, Some (Duplicate_of (sha1_words sh)), s3)))
             else if hd ty = TYPE_COMPRESS then
               (if len = 0 then Inl ''illegal size of data chunk''
                else (case take_exactly len s2 of
                    None \<Rightarrow> Inl ''incomplete chunk''
                  | Some (d, s3) \<Rightarrow> Inr (r, Some (Compressed d), s3)))
             else Inl ''unknown chunk type''))"

definition write_record :: "chunk_record \<Rightarrow> uchar list" where
  "write_record c = (case c of
      Duplicate_of sh \<Rightarrow> write_file TYPE_FINGERPRINT SHA1_LEN (sha1_bytes sh)
    | Compressed d \<Rightarrow> write_file TYPE_COMPRESS (length d) d)"

fun record_ok :: "chunk_record \<Rightarrow> bool" where
  "record_ok (Duplicate_of sh) = (length sh = 5)"
| "record_ok (Compressed d) = (0 < length d \<and> length d < 2 ^ 31)"

lemma sint_word32: "n < 2 ^ 31 \<Longrightarrow> sint (word_of_nat n :: 32 word) = int n"
  by (simp add: signed_of_nat signed_take_bit_int_eq_self)

lemma read_write_record:
  assumes "record_ok c"
  shows "\<exists>r > 0. read_chunk (write_record c @ s) = Inr (r, Some c, s)"
proof (cases c)
  case (Duplicate_of sh)
  then have "length sh = 5" using assms by simp
  then show ?thesis using Duplicate_of
    by (simp add: write_record_def write_file_def read_chunk_def take_exactly_def SHA1_LEN_def
        length_sha1_bytes sha1_words_bytes sint_word32 TYPE_FINGERPRINT_def)
next
  case (Compressed d)
  then have d: "0 < length d" "length d < 2 ^ 31" using assms by simp_all
  then have "length d < 256 ^ 8" by simp
  then show ?thesis using Compressed d
    by (simp add: write_record_def write_file_def read_chunk_def take_exactly_def sint_word32
        TYPE_COMPRESS_def TYPE_FINGERPRINT_def)
qed

lemma header_roundtrip: "read_header (write_header ty @ s) = Returns (0, Some ty, s)"
proof -
  have "CHECKBIT < 256 ^ 4" by (simp add: CHECKBIT_def)
  then show ?thesis by (simp add: read_header_def write_header_def take_exactly_def)
qed

end
