(* ===== verification/Dedup_Serial.thy ===== *)
theory Dedup_Serial
  imports Dedup_Archive
begin

text \<open>
  The serial pipeline of \<open>samples/dedup/encoder.c\<close> (\<open>SerialIntegratedPipeline\<close> and its kernels
  \<open>sub_Deduplicate\<close>, \<open>sub_Compress\<close>, \<open>write_chunk_to_file\<close>) and the decoder of
  \<open>samples/dedup/decoder.c\<close>. A result is \<open>Inl\<close> of the message the program exits with, or \<open>Inr\<close>. The
  buffers of \<open>mbuffer.c\<close> (\<open>Dedup_Mbuffer\<close>) are here the bytes they hold.
\<close>

text \<open>What the program is built with and what it calls: the SHA-1 digest, zlib and bzip2, \<open>malloc\<close>, the
  memory and the load limit of the hash table.\<close>

record env =
  SHA1_Digest :: "uchar list \<Rightarrow> sha1"
  ENABLE_GZIP :: bool
  gz_compress :: "uchar list \<Rightarrow> uchar list option"
  gz_uncompress :: "nat \<Rightarrow> uchar list \<Rightarrow> uchar list option"
  ENABLE_BZIP2 :: bool
  bz_compress :: "uchar list \<Rightarrow> uchar list option"
  bz_uncompress :: "nat \<Rightarrow> uchar list \<Rightarrow> uchar list option"
  can_alloc :: "nat \<Rightarrow> bool"
  table_mem :: bool
  entry_mem :: bool
  load_limit :: "32 word \<Rightarrow> 32 word"

definition COMPRESS_GZIP :: int where "COMPRESS_GZIP = 0"
definition COMPRESS_BZIP2 :: int where "COMPRESS_BZIP2 = 1"
definition COMPRESS_NONE :: int where "COMPRESS_NONE = 2"
definition UNCOMPRESS_BOUND :: nat where "UNCOMPRESS_BOUND = 10000000"
definition MAXBUF :: nat where "MAXBUF = 128 * 1024 * 1024"
definition SSIZE_MAX :: nat where "SSIZE_MAX = 2 ^ 63 - 1"

text \<open>A size passed as an \<open>int\<close>.\<close>

definition c_int :: "nat \<Rightarrow> int" where
  "c_int n = sint (word_of_nat n :: 32 word)"

section \<open>Statistics\<close>

record stats_t =
  total_input :: size_t
  total_dedup :: size_t
  total_compressed :: size_t
  total_output :: size_t
  nChunks :: "32 word list"
  nDuplicates :: "32 word"

definition CHUNK_MAX_NUM :: nat where
  "CHUNK_MAX_NUM = 8 * 32"

definition CHUNK_SIZE_TO_SLOT :: "nat \<Rightarrow> nat" where
  "CHUNK_SIZE_TO_SLOT s = (if s div 2 ^ 7 \<ge> CHUNK_MAX_NUM then CHUNK_MAX_NUM - 1 else s div 2 ^ 7)"

definition init_stats :: stats_t where
  "init_stats = \<lparr>total_input = 0, total_dedup = 0, total_compressed = 0, total_output = 0,
     nChunks = replicate CHUNK_MAX_NUM 0, nDuplicates = 0\<rparr>"

definition merge_stats :: "stats_t \<Rightarrow> stats_t \<Rightarrow> stats_t" where
  "merge_stats s1 s2 = \<lparr>total_input = total_input s1 + total_input s2,
     total_dedup = total_dedup s1 + total_dedup s2,
     total_compressed = total_compressed s1 + total_compressed s2,
     total_output = total_output s1 + total_output s2,
     nChunks = map2 (+) (nChunks s1) (nChunks s2), nDuplicates = nDuplicates s1 + nDuplicates s2\<rparr>"

definition count_chunk :: "nat \<Rightarrow> stats_t \<Rightarrow> stats_t" where
  "count_chunk n s = s\<lparr>nChunks := (nChunks s)[CHUNK_SIZE_TO_SLOT n := nChunks s ! CHUNK_SIZE_TO_SLOT n + 1]\<rparr>"

definition count_dedup :: "bool \<Rightarrow> nat \<Rightarrow> stats_t \<Rightarrow> stats_t" where
  "count_dedup isDuplicate n s =
     (if isDuplicate then s\<lparr>nDuplicates := nDuplicates s + 1\<rparr>
      else s\<lparr>total_dedup := total_dedup s + word_of_nat n\<rparr>)"

section \<open>The kernels\<close>

definition sub_Compress :: "env \<Rightarrow> int \<Rightarrow> uchar list \<Rightarrow> string + uchar list" where
  "sub_Compress ev ty data =
     (let n = length data in
      if ty = COMPRESS_NONE then
        (if can_alloc ev n then Inr data else Inl ''Creation of compression buffer failed.'')
      else if ty = COMPRESS_GZIP \<and> ENABLE_GZIP ev then
        (if \<not> can_alloc ev (n + n div 2 ^ 9 + 12) then Inl ''Creation of compression buffer failed.''
         else case gz_compress ev data of None \<Rightarrow> Inl ''Compression failed'' | Some c \<Rightarrow> Inr c)
      else if ty = COMPRESS_BZIP2 \<and> ENABLE_BZIP2 ev then
        (if \<not> can_alloc ev (n + n div 2 ^ 6 + 600) then Inl ''Creation of compression buffer failed.''
         else case bz_compress ev data of None \<Rightarrow> Inl ''Compression failed'' | Some c \<Rightarrow> Inr c)
      else Inl ''Compression type not implemented.'')"

text \<open>The cache maps SHA-1 sums to chunks; a chunk is known by its number.\<close>

type_synonym 'c cache = "(sha1, 'c) hashtable"

definition cache_insert :: "env \<Rightarrow> sha1 \<Rightarrow> 'c \<Rightarrow> 'c cache \<Rightarrow> string + 'c cache" where
  "cache_insert ev k v c =
     (case hashtable_insert hash_from_key_fn (load_limit ev) No_memory (entry_mem ev) k v c of
        (Returns r, c') \<Rightarrow> if r = 0 then Inl ''hashtable_insert failed'' else Inr c'
      | (_, c') \<Rightarrow> Inl ''undefined'')"

definition sub_Deduplicate :: "env \<Rightarrow> nat \<Rightarrow> uchar list \<Rightarrow> nat cache \<Rightarrow> string + (bool \<times> sha1 \<times> nat cache)" where
  "sub_Deduplicate ev chunk data c =
     (let sh = SHA1_Digest ev data
      in case hashtable_search hash_from_key_fn keys_equal_fn c sh of
          None \<Rightarrow> (case cache_insert ev sh chunk c of Inl e \<Rightarrow> Inl e | Inr c' \<Rightarrow> Inr (False, sh, c'))
        | Some entry \<Rightarrow> Inr (True, sh, c))"

text \<open>\<open>write_chunk_to_file\<close> of the serial version: the data of a unique chunk, the sum of a duplicate.\<close>

definition write_chunk_to_file :: "bool \<Rightarrow> sha1 \<Rightarrow> uchar list \<Rightarrow> uchar list" where
  "write_chunk_to_file isDuplicate sh compressed =
     (if \<not> isDuplicate then write_file TYPE_COMPRESS (length compressed) compressed
      else write_file TYPE_FINGERPRINT SHA1_LEN (sha1_bytes sh))"

record enc_state =
  e_cache :: "nat cache"
  e_out :: "uchar list"
  e_stats :: stats_t
  e_next :: nat

definition process_chunk :: "env \<Rightarrow> int \<Rightarrow> uchar list \<Rightarrow> enc_state \<Rightarrow> string + enc_state" where
  "process_chunk ev ty data st =
     (let st1 = st\<lparr>e_stats := count_chunk (length data) (e_stats st), e_next := e_next st + 1\<rparr>
      in case sub_Deduplicate ev (e_next st) data (e_cache st1) of
          Inl e \<Rightarrow> Inl e
        | Inr (isDuplicate, sh, c) \<Rightarrow>
            let st2 = st1\<lparr>e_cache := c, e_stats := count_dedup isDuplicate (length data) (e_stats st1)\<rparr>
            in if isDuplicate then Inr (st2\<lparr>e_out := e_out st2 @ write_chunk_to_file True sh []\<rparr>)
               else (case sub_Compress ev ty data of
                   Inl e \<Rightarrow> Inl e
                 | Inr cdata \<Rightarrow>
                     Inr (st2\<lparr>e_stats := (e_stats st2)\<lparr>total_compressed :=
                                total_compressed (e_stats st2) + word_of_nat (length cdata)\<rparr>,
                              e_out := e_out st2 @ write_chunk_to_file False sh cdata\<rparr>)))"

section \<open>The serial pipeline\<close>

text \<open>The input: a preloaded buffer or a descriptor whose calls of \<open>read\<close> answer in turn; after the last
  answer the file has ended. A read is asked for at most the room that is left, so what would be more
  comes with the next call.\<close>

datatype source = Preloaded "uchar list" | Descriptor "read_result list"

fun read_fill :: "nat \<Rightarrow> read_result list \<Rightarrow> string + (uchar list \<times> read_result list)" where
  "read_fill room [] = Inr ([], [])"
| "read_fill room (r # rs) =
     (if room = 0 then Inr ([], r # rs)
      else case r of
          Read_failed e \<Rightarrow> Inl ''I/O error''
        | Got bs \<Rightarrow>
            if bs = [] then Inr ([], rs)
            else if length bs \<le> room
            then (case read_fill (room - length bs) rs of
                Inl e \<Rightarrow> Inl e | Inr (rest, rs') \<Rightarrow> Inr (bs @ rest, rs'))
            else Inr (take room bs, Got (drop room bs) # rs))"

fun read_block :: "nat \<Rightarrow> source \<Rightarrow> string + (uchar list \<times> source)" where
  "read_block maxbuf (Preloaded b) = Inr (take maxbuf b, Preloaded (drop maxbuf b))"
| "read_block maxbuf (Descriptor rs) =
     (case read_fill maxbuf rs of Inl e \<Rightarrow> Inl e | Inr (new, rs') \<Rightarrow> Inr (new, Descriptor rs'))"

text \<open>The loop that splits the block at every anchor; what is left is the beginning of the next block.\<close>

function split_loop :: "env \<Rightarrow> int \<Rightarrow> u32int list \<Rightarrow> u32int list \<Rightarrow> uchar list \<Rightarrow> enc_state
    \<Rightarrow> string + (uchar list \<times> enc_state)" where
  "split_loop ev ty T W data st =
     (let offs = rabinseg data (c_int (length data)) 0 T W
      in if offs = 0 then Inl ''assertion failed''
         else if 0 < offs \<and> nat offs < length data
         then (case process_chunk ev ty (take (nat offs) data) st of
             Inl e \<Rightarrow> Inl e
           | Inr st' \<Rightarrow> split_loop ev ty T W (drop (nat offs) data) st')
         else Inr (data, st))"
  by auto
termination by (relation "measure (\<lambda>(ev, ty, T, W, data, st). length data)") auto

fun source_size :: "source \<Rightarrow> nat" where
  "source_size (Preloaded b) = length b"
| "source_size (Descriptor rs) = (\<Sum>r\<leftarrow>rs. length (read_bytes r))"

lemma read_fill_size:
  "read_fill room rs = Inr (new, rs') \<Longrightarrow>
     (\<Sum>r\<leftarrow>rs. length (read_bytes r)) = length new + (\<Sum>r\<leftarrow>rs'. length (read_bytes r))"
proof (induction room rs arbitrary: new rs' rule: read_fill.induct)
  case (2 room r rs)
  then show ?case
    by (auto simp: read_bytes_def split: if_splits read_result.splits sum.splits prod.splits)
qed simp

lemma read_block_size:
  "read_block maxbuf src = Inr (new, src') \<Longrightarrow> source_size src = length new + source_size src'"
  by (cases src) (auto dest: read_fill_size split: sum.splits prod.splits)

function serial_loop :: "env \<Rightarrow> int \<Rightarrow> u32int list \<Rightarrow> u32int list \<Rightarrow> nat \<Rightarrow> uchar list \<Rightarrow> source \<Rightarrow> enc_state
    \<Rightarrow> string + enc_state" where
  "serial_loop ev ty T W maxbuf temp src st =
     (let bytes_left = length temp
      in if maxbuf + bytes_left > SSIZE_MAX then Inl ''Input buffer size exceeds system maximum.''
         else if \<not> can_alloc ev (maxbuf + bytes_left) then Inl ''Unable to initialize memory buffer.''
         else (case read_block maxbuf src of
             Inl e \<Rightarrow> Inl e
           | Inr (new, src') \<Rightarrow>
               if bytes_left + length new = 0 then Inr st
               else if length new = 0 then process_chunk ev ty temp st
               else (case split_loop ev ty T W (temp @ new) st of
                   Inl e \<Rightarrow> Inl e
                 | Inr (temp', st') \<Rightarrow> serial_loop ev ty T W maxbuf temp' src' st')))"
  by auto
termination
  by (relation "measure (\<lambda>(ev, ty, T, W, maxbuf, temp, src, st). source_size src)")
    (auto dest!: read_block_size)

definition SerialIntegratedPipeline :: "env \<Rightarrow> int \<Rightarrow> source \<Rightarrow> nat cache \<Rightarrow> string + enc_state" where
  "SerialIntegratedPipeline ev ty src c =
     (let (T, W) = rabininit 0 (replicate 256 0) (replicate 256 0)
      in serial_loop ev ty T W MAXBUF [] src
           \<lparr>e_cache = c, e_out = write_header (word_of_int ty), e_stats = init_stats, e_next = 0\<rparr>)"

definition Encode :: "env \<Rightarrow> int \<Rightarrow> source \<Rightarrow> string + uchar list" where
  "Encode ev ty src =
     (case hashtable_create False (load_limit ev) (table_mem ev) 65536 of
        None \<Rightarrow> Inl ''ERROR: Out of memory''
      | Some c \<Rightarrow> map_sum id e_out (SerialIntegratedPipeline ev ty src c))"

section \<open>The decoder\<close>

definition uncompress_chunk :: "env \<Rightarrow> int \<Rightarrow> uchar list \<Rightarrow> string + uchar list" where
  "uncompress_chunk ev ty cdata =
     (if ty = COMPRESS_NONE then
        (if can_alloc ev (length cdata) then Inr cdata else Inl ''Creation of decompression buffer failed.'')
      else if ty = COMPRESS_GZIP then
        (if \<not> ENABLE_GZIP ev then Inl ''Gzip compression used by input file not supported.''
         else if \<not> can_alloc ev UNCOMPRESS_BOUND then Inl ''Creation of decompression buffer failed.''
         else case gz_uncompress ev UNCOMPRESS_BOUND cdata of
             None \<Rightarrow> Inl ''error uncompressing chunk data'' | Some d \<Rightarrow> Inr d)
      else if ty = COMPRESS_BZIP2 then
        (if \<not> ENABLE_BZIP2 ev then Inl ''Bzip2 compression used by input file not supported.''
         else if \<not> can_alloc ev UNCOMPRESS_BOUND then Inl ''Creation of decompression buffer failed.''
         else case bz_uncompress ev UNCOMPRESS_BOUND cdata of
             None \<Rightarrow> Inl ''error uncompressing chunk data'' | Some d \<Rightarrow> Inr d)
      else Inl ''unknown compression type'')"

lemma read_chunk_shorter:
  "read_chunk s = Inr (r, Some c, s') \<Longrightarrow> length s' < length s"
  by (auto simp: read_chunk_def take_exactly_def Let_def split: option.splits if_splits prod.splits)

text \<open>The loop of \<open>Decode\<close>; the cache keeps the data of every unique chunk.\<close>

function decode_loop :: "env \<Rightarrow> int \<Rightarrow> uchar list cache \<Rightarrow> uchar list \<Rightarrow> uchar list \<Rightarrow> string + uchar list" where
  "decode_loop ev ty c s out =
     (case read_chunk s of
        Inl e \<Rightarrow> Inl e
      | Inr (r, rec, s') \<Rightarrow>
          if r < 0 then Inl ''error reading from input file''
          else if r = 0 then Inr out
          else (case rec of
              None \<Rightarrow> Inr out
            | Some (Compressed cdata) \<Rightarrow> (case uncompress_chunk ev ty cdata of
                Inl e \<Rightarrow> Inl e
              | Inr d \<Rightarrow>
                  if c_int (length d) \<le> 0 then Inl ''error uncompressing data''
                  else (case cache_insert ev (SHA1_Digest ev d) d c of
                      Inl e \<Rightarrow> Inl e
                    | Inr c' \<Rightarrow> decode_loop ev ty c' s' (out @ d)))
            | Some (Duplicate_of sh) \<Rightarrow> (case hashtable_search hash_from_key_fn keys_equal_fn c sh of
                None \<Rightarrow> Inl ''Encountered a duplicate chunk in input file but not its unique counterpart.''
              | Some d \<Rightarrow> decode_loop ev ty c s' (out @ d))))"
  by auto
termination by (relation "measure (\<lambda>(ev, ty, c, s, out). length s)") (auto dest: read_chunk_shorter)

text \<open>\<open>None\<close> when the header is cut short: the program goes on with indeterminate values.\<close>

definition Decode :: "env \<Rightarrow> uchar list \<Rightarrow> (string + uchar list) option" where
  "Decode ev s =
     (case hashtable_create False (load_limit ev) (table_mem ev) 65536 of
        None \<Rightarrow> Some (Inl ''ERROR: Out of memory'')
      | Some c \<Rightarrow> (case read_header s of
          Returns (r, ty, s') \<Rightarrow>
            if r \<noteq> 0 then Some (Inl ''Cannot read input file header.'')
            else map_option (\<lambda>ty. decode_loop ev (uint ty) c s' []) ty
        | _ \<Rightarrow> None))"

declare split_loop.simps [simp del] serial_loop.simps [simp del] decode_loop.simps [simp del]

end
