(* ===== verification/Dedup_Roundtrip.thy ===== *)
theory Dedup_Roundtrip
  imports Dedup_Serial "HOL-Library.Sublist"
begin

text \<open>
  What the serial encoder promises: an archive is the header and one record for every chunk, the compressed
  data for the first chunk with a SHA-1 sum and the sum for every later one. The encoder writes such an
  archive for a division of the input into chunks, and the decoder turns it back into the input.
\<close>

section \<open>The records of an archive\<close>

fun chunk_records :: "env \<Rightarrow> int \<Rightarrow> sha1 set \<Rightarrow> uchar list list \<Rightarrow> string + chunk_record list" where
  "chunk_records ev ty seen [] = Inr []"
| "chunk_records ev ty seen (d # ds) =
     (let sh = SHA1_Digest ev d
      in if sh \<in> seen then map_sum id (Cons (Duplicate_of sh)) (chunk_records ev ty seen ds)
         else (case sub_Compress ev ty d of
             Inl e \<Rightarrow> Inl e
           | Inr cdata \<Rightarrow> map_sum id (Cons (Compressed cdata)) (chunk_records ev ty (insert sh seen) ds)))"

definition archive_bytes :: "chunk_record list \<Rightarrow> uchar list" where
  "archive_bytes rs = concat (map write_record rs)"

lemma archive_bytes_simps [simp]:
  "archive_bytes [] = []" "archive_bytes (r # rs) = write_record r @ archive_bytes rs"
  by (simp_all add: archive_bytes_def)

section \<open>The cache as a map\<close>

definition holds_map :: "'c cache \<Rightarrow> (sha1 \<Rightarrow> 'c option) \<Rightarrow> bool" where
  "holds_map c f \<longleftrightarrow> ht_wf hash_from_key_fn keys_equal_fn c \<and>
     (\<forall>k. length k = 5 \<longrightarrow> hashtable_search hash_from_key_fn keys_equal_fn c k = f k)"

lemma holds_map_search:
  "holds_map c f \<Longrightarrow> length k = 5 \<Longrightarrow> hashtable_search hash_from_key_fn keys_equal_fn c k = f k"
  by (simp add: holds_map_def)

lemma holds_map_create:
  assumes "hashtable_create dyn ll mem n = Some c"
  shows "holds_map c (\<lambda>_. None)"
proof -
  from create_wf [OF assms, of hash_from_key_fn keys_equal_fn]
  have wf: "ht_wf hash_from_key_fn keys_equal_fn c" "entries c = {#}" by auto
  then have "hashtable_search hash_from_key_fn keys_equal_fn c k = None" for k
    by (intro sha1_table.search_None) auto
  with wf show ?thesis by (simp add: holds_map_def)
qed

lemma holds_map_insert:
  assumes "holds_map c f" and "length k = 5" and "f k = None" and "entry_mem ev"
  shows "\<exists>c'. cache_insert ev k v c = Inr c' \<and> holds_map c' (f(k \<mapsto> v))"
proof -
  obtain r c' where i: "hashtable_insert hash_from_key_fn (load_limit ev) No_memory True k v c = (r, c')"
    by fastforce
  have wf: "ht_wf hash_from_key_fn keys_equal_fn c" and none: "hashtable_search hash_from_key_fn keys_equal_fn c k = None"
    using assms(1-3) by (simp_all add: holds_map_def)
  note s = sha1_table.insert_search [OF wf none _ i]
  have "cache_insert ev k v c = Inr c'" using s i assms(4) by (simp add: cache_insert_def)
  moreover have "holds_map c' (f(k \<mapsto> v))"
    using s assms(1,2) by (simp add: holds_map_def keys_equal_fn_def)
  ultimately show ?thesis by blast
qed

lemma cache_insert_memory:
  assumes "cache_insert ev k v c = Inr c'"
  shows "entry_mem ev"
proof (rule ccontr)
  assume "\<not> entry_mem ev"
  then have "fst (hashtable_insert hash_from_key_fn (load_limit ev) No_memory (entry_mem ev) k v c) \<in>
      {Undefined, Returns 0}"
    by (auto simp: hashtable_insert_def bind_op_def hashtable_expand_def Let_def split: outcome.splits prod.splits)
  with assms show False
    by (auto simp: cache_insert_def split: outcome.splits prod.splits if_splits)
qed

section \<open>The encoder writes the records\<close>

fun process_all :: "env \<Rightarrow> int \<Rightarrow> uchar list list \<Rightarrow> enc_state \<Rightarrow> string + enc_state" where
  "process_all ev ty [] st = Inr st"
| "process_all ev ty (d # ds) st =
     (case process_chunk ev ty d st of Inl e \<Rightarrow> Inl e | Inr st' \<Rightarrow> process_all ev ty ds st')"

lemma process_chunk_records:
  assumes "process_chunk ev ty d st = Inr st'" and "holds_map (e_cache st) f" and "length (SHA1_Digest ev d) = 5"
  shows "\<exists>r f'. chunk_records ev ty (dom f) (d # ds) = map_sum id (Cons r) (chunk_records ev ty (dom f') ds) \<and>
     holds_map (e_cache st') f' \<and> e_out st' = e_out st @ write_record r \<and>
     (f (SHA1_Digest ev d) = None \<longrightarrow> entry_mem ev)"
proof (cases "f (SHA1_Digest ev d)")
  case (Some v)
  then have "e_cache st' = e_cache st \<and> e_out st' = e_out st @ write_record (Duplicate_of (SHA1_Digest ev d))"
    using assms by (auto simp: process_chunk_def sub_Deduplicate_def holds_map_search Let_def
        write_chunk_to_file_def write_record_def)
  with Some assms(2) show ?thesis by (auto simp: Let_def)
next
  case None
  from assms(1) have mem: "entry_mem ev"
    by (cases "entry_mem ev"; cases "cache_insert ev (SHA1_Digest ev d) (e_next st) (e_cache st)")
      (auto simp: process_chunk_def sub_Deduplicate_def holds_map_search [OF assms(2,3)] None Let_def
        dest: cache_insert_memory)
  obtain c' where c': "cache_insert ev (SHA1_Digest ev d) (e_next st) (e_cache st) = Inr c'"
      "holds_map c' (f(SHA1_Digest ev d \<mapsto> e_next st))"
    using holds_map_insert [OF assms(2,3) None mem] by blast
  then obtain cdata where "sub_Compress ev ty d = Inr cdata" "e_cache st' = c'"
      "e_out st' = e_out st @ write_record (Compressed cdata)"
    using assms(1) by (auto simp: process_chunk_def sub_Deduplicate_def holds_map_search [OF assms(2,3)] None Let_def
        write_chunk_to_file_def write_record_def split: sum.splits)
  then show ?thesis using None c'(2) mem
    by (intro exI [of _ "Compressed cdata"] exI [of _ "f(SHA1_Digest ev d \<mapsto> e_next st)"]) (auto simp: Let_def)
qed

lemma process_all_records:
  assumes "process_all ev ty ds st = Inr st'" and "holds_map (e_cache st) f"
    and "\<forall>d \<in> set ds. length (SHA1_Digest ev d) = 5"
  shows "\<exists>rs. chunk_records ev ty (dom f) ds = Inr rs \<and> e_out st' = e_out st @ archive_bytes rs"
  using assms
proof (induction ds arbitrary: st f)
  case (Cons d ds)
  then obtain st1 where st1: "process_chunk ev ty d st = Inr st1" "process_all ev ty ds st1 = Inr st'"
    by (auto split: sum.splits)
  from process_chunk_records [OF st1(1) Cons.prems(2), of ds] Cons.prems(3) obtain r f' where
    r: "chunk_records ev ty (dom f) (d # ds) = map_sum id (Cons r) (chunk_records ev ty (dom f') ds)"
      "holds_map (e_cache st1) f'" "e_out st1 = e_out st @ write_record r" by auto
  obtain rs where "chunk_records ev ty (dom f') ds = Inr rs" "e_out st' = e_out st1 @ archive_bytes rs"
    using Cons.IH [OF st1(2) r(2)] Cons.prems(3) by auto
  then show ?case using r by simp
qed simp

lemma process_all_append:
  "process_all ev ty (ds @ es) st =
     (case process_all ev ty ds st of Inl e \<Rightarrow> Inl e | Inr st' \<Rightarrow> process_all ev ty es st')"
  by (induction ds arbitrary: st) (simp_all split: sum.splits)

text \<open>The loops divide the input into chunks.\<close>

lemma split_loop_chunks:
  "split_loop ev ty T W data st = Inr (rest, st') \<Longrightarrow>
     \<exists>ds. concat ds @ rest = data \<and> [] \<notin> set ds \<and> process_all ev ty ds st = Inr st'"
proof (induction ev ty T W data st rule: split_loop.induct)
  case (1 ev ty T W data st)
  let ?o = "rabinseg data (c_int (length data)) 0 T W"
  show ?case
  proof (cases "0 < ?o \<and> nat ?o < length data")
    case True
    with "1.prems" obtain st1 where st1: "process_chunk ev ty (take (nat ?o) data) st = Inr st1"
        "split_loop ev ty T W (drop (nat ?o) data) st1 = Inr (rest, st')"
      by (subst (asm) split_loop.simps) (auto simp: Let_def split: sum.splits if_splits)
    from "1.IH" [OF refl _ True st1] True obtain ds where
      "concat ds @ rest = drop (nat ?o) data" "[] \<notin> set ds" "process_all ev ty ds st1 = Inr st'" by auto
    with True st1(1) show ?thesis
      by (intro exI [of _ "take (nat ?o) data # ds"]) auto
  next
    case False
    with "1.prems" have "rest = data \<and> st' = st"
      by (subst (asm) split_loop.simps) (auto simp: Let_def split: if_splits)
    then show ?thesis by (intro exI [of _ "[]"]) simp
  qed
qed

fun source_bytes :: "source \<Rightarrow> uchar list" where
  "source_bytes (Preloaded b) = b"
| "source_bytes (Descriptor rs) = concat (map read_bytes rs)"

text \<open>A descriptor that does not report the end of the file before the end.\<close>

fun source_ok :: "source \<Rightarrow> bool" where
  "source_ok (Preloaded b) = True"
| "source_ok (Descriptor rs) = (Got [] \<notin> set rs)"

lemma read_fill_bytes:
  "read_fill room rs = Inr (new, rs') \<Longrightarrow> Got [] \<notin> set rs \<Longrightarrow>
     concat (map read_bytes rs) = new @ concat (map read_bytes rs') \<and> Got [] \<notin> set rs' \<and>
     (new = [] \<longrightarrow> 0 < room \<longrightarrow> rs = [])"
proof (induction room rs arbitrary: new rs' rule: read_fill.induct)
  case (2 room r rs)
  show ?case
  proof (cases r)
    case (Got bs)
    with 2 show ?thesis
      by (auto simp: read_bytes_def split: if_splits sum.splits prod.splits)
  qed (use 2 in \<open>auto simp: read_bytes_def split: if_splits\<close>)
qed simp

lemma read_block_bytes:
  "read_block maxbuf src = Inr (new, src') \<Longrightarrow> source_ok src \<Longrightarrow> 0 < maxbuf \<Longrightarrow>
     source_bytes src = new @ source_bytes src' \<and> source_ok src' \<and> (new = [] \<longrightarrow> source_bytes src = [])"
  by (cases src) (auto dest: read_fill_bytes split: sum.splits prod.splits)

lemma serial_loop_chunks:
  "serial_loop ev ty T W maxbuf temp src st = Inr st' \<Longrightarrow> source_ok src \<Longrightarrow> 0 < maxbuf \<Longrightarrow>
     \<exists>ds. concat ds = temp @ source_bytes src \<and> [] \<notin> set ds \<and> process_all ev ty ds st = Inr st'"
proof (induction ev ty T W maxbuf temp src st rule: serial_loop.induct)
  case (1 ev ty T W maxbuf temp src st)
  from "1.prems"(1) have ok: "\<not> maxbuf + length temp > SSIZE_MAX" "can_alloc ev (maxbuf + length temp)"
    by (auto simp: serial_loop.simps Let_def split: if_splits)
  with "1.prems"(1) obtain new src' where b: "read_block maxbuf src = Inr (new, src')"
    by (cases "read_block maxbuf src") (auto simp: serial_loop.simps)
  note bytes = read_block_bytes [OF b "1.prems"(2,3)]
  consider (stop) "temp = []" "new = []" | (last) "temp \<noteq> []" "new = []" | (go) "new \<noteq> []" by auto
  then show ?case
  proof cases
    case stop
    then have "source_bytes src = []" using bytes by blast
    with stop "1.prems"(1) ok b show ?thesis
      by (intro exI [of _ "[]"]) (simp add: serial_loop.simps)
  next
    case last
    then have "source_bytes src = []" using bytes by blast
    with last "1.prems"(1) ok b show ?thesis
      by (intro exI [of _ "[temp]"]) (simp add: serial_loop.simps)
  next
    case go
    with "1.prems"(1) ok b obtain temp' st1 where st1: "split_loop ev ty T W (temp @ new) st = Inr (temp', st1)"
        "serial_loop ev ty T W maxbuf temp' src' st1 = Inr st'"
      by (subst (asm) serial_loop.simps) (auto split: sum.splits)
    from split_loop_chunks [OF st1(1)] obtain ds where ds: "concat ds @ temp' = temp @ new" "[] \<notin> set ds"
        "process_all ev ty ds st = Inr st1" by auto
    have "\<exists>es. concat es = temp' @ source_bytes src' \<and> [] \<notin> set es \<and> process_all ev ty es st1 = Inr st'"
      using "1.IH" [OF refl ok(1) _ b refl _ _ st1(1) refl st1(2)] ok go bytes "1.prems"(3) by simp
    then obtain es where "concat es = temp' @ source_bytes src'" "[] \<notin> set es" "process_all ev ty es st1 = Inr st'"
      by auto
    with ds bytes show ?thesis
      by (intro exI [of _ "ds @ es"]) (simp add: process_all_append append_assoc [symmetric] del: append_assoc)
  qed
qed

section \<open>The decoder reads the records\<close>

text \<open>What zlib and bzip2 document of their one-shot functions: a successful compression has written at
  least one byte and no more than the buffer it was given holds (\<open>sub_Compress\<close> gives it the sizes
  below), and decompressing that into a buffer with room for the original gives the original.\<close>

definition codec_ok :: "env \<Rightarrow> bool" where
  "codec_ok ev \<longleftrightarrow>
     (\<forall>x y. gz_compress ev x = Some y \<longrightarrow>
        0 < length y \<and> length y \<le> length x + length x div 2 ^ 9 + 12 \<and>
        (\<forall>m. length x \<le> m \<longrightarrow> gz_uncompress ev m y = Some x)) \<and>
     (\<forall>x y. bz_compress ev x = Some y \<longrightarrow>
        0 < length y \<and> length y \<le> length x + length x div 2 ^ 6 + 600 \<and>
        (\<forall>m. length x \<le> m \<longrightarrow> bz_uncompress ev m y = Some x))"

text \<open>The limit of the program's own decoder: a compressed chunk must fit, once decompressed, in a buffer
  of \<open>UNCOMPRESS_BOUND\<close> bytes, for which there must be memory. Uncompressed archives have no such limit.\<close>

definition decoder_fits :: "env \<Rightarrow> int \<Rightarrow> nat \<Rightarrow> bool" where
  "decoder_fits ev ty n \<longleftrightarrow>
     ty = COMPRESS_NONE \<or> can_alloc ev UNCOMPRESS_BOUND \<and> n \<le> UNCOMPRESS_BOUND"

text \<open>SHA-1 gives five words, and no two pieces of the input have the same sum.\<close>

definition sums_ok :: "env \<Rightarrow> uchar list \<Rightarrow> bool" where
  "sums_ok ev data \<longleftrightarrow> inj_on (SHA1_Digest ev) {d. sublist d data} \<and> (\<forall>d. length (SHA1_Digest ev d) = 5)"

lemma decoder_fits_mono: "decoder_fits ev ty n \<Longrightarrow> m \<le> n \<Longrightarrow> decoder_fits ev ty m"
  by (auto simp: decoder_fits_def)

lemma uncompress_undoes:
  assumes "codec_ok ev" and "decoder_fits ev ty (length d)" and "0 < length d" and "length d < 2 ^ 31"
    and c: "sub_Compress ev ty d = Inr y"
  shows "uncompress_chunk ev ty y = Inr d \<and> 0 < length y \<and> length y < 2 ^ 31"
proof -
  consider (none) "ty = COMPRESS_NONE" | (gz) "ty = COMPRESS_GZIP" "ENABLE_GZIP ev" "gz_compress ev d = Some y"
    | (bz) "ty = COMPRESS_BZIP2" "ENABLE_BZIP2 ev" "bz_compress ev d = Some y"
    using c by (auto simp: sub_Compress_def Let_def split: if_splits option.splits)
  then show ?thesis
  proof cases
    case none
    with c assms show ?thesis by (auto simp: sub_Compress_def uncompress_chunk_def split: if_splits)
  next
    case gz
    with assms(2) have fit: "can_alloc ev UNCOMPRESS_BOUND" "length d \<le> 10000000"
      by (simp_all add: decoder_fits_def UNCOMPRESS_BOUND_def COMPRESS_GZIP_def COMPRESS_NONE_def)
    from gz(3) assms(1) have y: "0 < length y" "length y \<le> length d + length d div 2 ^ 9 + 12"
      "\<And>m. length d \<le> m \<Longrightarrow> gz_uncompress ev m y = Some d" by (auto simp: codec_ok_def)
    from fit(2) y(2) have "length y < 2 ^ 31" by simp
    with gz fit y show ?thesis
      by (simp add: uncompress_chunk_def COMPRESS_GZIP_def COMPRESS_NONE_def UNCOMPRESS_BOUND_def)
  next
    case bz
    with assms(2) have fit: "can_alloc ev UNCOMPRESS_BOUND" "length d \<le> 10000000"
      by (simp_all add: decoder_fits_def UNCOMPRESS_BOUND_def COMPRESS_BZIP2_def COMPRESS_NONE_def)
    from bz(3) assms(1) have y: "0 < length y" "length y \<le> length d + length d div 2 ^ 6 + 600"
      "\<And>m. length d \<le> m \<Longrightarrow> bz_uncompress ev m y = Some d" by (auto simp: codec_ok_def)
    from fit(2) y(2) have "length y < 2 ^ 31" by simp
    with bz fit y show ?thesis
      by (simp add: uncompress_chunk_def COMPRESS_GZIP_def COMPRESS_BZIP2_def COMPRESS_NONE_def
          UNCOMPRESS_BOUND_def)
  qed
qed

lemma c_int_small: "n < 2 ^ 31 \<Longrightarrow> c_int n = int n"
  by (simp add: c_int_def sint_word32)

definition decodes :: "env \<Rightarrow> uchar list set \<Rightarrow> uchar list cache \<Rightarrow> (sha1 \<Rightarrow> uchar list option) \<Rightarrow> bool" where
  "decodes ev D c f \<longleftrightarrow> holds_map c f \<and> (\<forall>k d. f k = Some d \<longrightarrow> SHA1_Digest ev d = k \<and> d \<in> D)"

lemma decode_loop_records:
  assumes "chunk_records ev ty (dom f) ds = Inr rs" and "decodes ev D c f" and "set ds \<subseteq> D"
    and "inj_on (SHA1_Digest ev) D" and "\<forall>d. length (SHA1_Digest ev d) = 5" and "entry_mem ev"
    and "\<forall>d \<in> D. length d < 2 ^ 31 \<and> decoder_fits ev ty (length d)" and "[] \<notin> set ds" and "codec_ok ev"
  shows "decode_loop ev ty c (archive_bytes rs) out = Inr (out @ concat ds)"
  using assms(1-3,8)
proof (induction ds arbitrary: f c rs out)
  case Nil
  then show ?case by (subst decode_loop.simps) (simp add: read_chunk_def take_exactly_def)
next
  case (Cons d ds)
  let ?sh = "SHA1_Digest ev d"
  have d: "0 < length d" "d \<in> D" "length d < 2 ^ 31" "decoder_fits ev ty (length d)"
    using Cons.prems assms(7) by auto
  show ?case
  proof (cases "f ?sh")
    case (Some e)
    then have "e = d" using Cons.prems(2) d assms(4) by (auto simp: decodes_def inj_on_def)
    with Some have f: "f ?sh = Some d" by simp
    with Cons.prems(1) obtain rs' where rs: "rs = Duplicate_of ?sh # rs'" "chunk_records ev ty (dom f) ds = Inr rs'"
      by (cases "chunk_records ev ty (dom f) ds") (auto simp: Let_def dom_def)
    obtain r where r: "r > 0"
        "read_chunk (write_record (Duplicate_of ?sh) @ archive_bytes rs') = Inr (r, Some (Duplicate_of ?sh), archive_bytes rs')"
      using read_write_record [of "Duplicate_of ?sh" "archive_bytes rs'"] assms(5) by auto
    have "hashtable_search hash_from_key_fn keys_equal_fn c ?sh = Some d"
      using holds_map_search [of c f ?sh] Cons.prems(2) f assms(5) unfolding decodes_def by metis
    then have "decode_loop ev ty c (archive_bytes rs) out = decode_loop ev ty c (archive_bytes rs') (out @ d)"
      using r rs(1) by (subst decode_loop.simps) simp
    then show ?thesis using Cons.IH [OF rs(2) Cons.prems(2), of "out @ d"] Cons.prems(3,4) by simp
  next
    case None
    then have "?sh \<notin> dom f" by auto
    with Cons.prems(1) obtain cdata rs' where rs: "rs = Compressed cdata # rs'" "sub_Compress ev ty d = Inr cdata"
        "chunk_records ev ty (dom (f(?sh \<mapsto> d))) ds = Inr rs'"
      by (cases "chunk_records ev ty (insert ?sh (dom f)) ds") (auto simp: Let_def simp del: domIff split: sum.splits)
    have u: "uncompress_chunk ev ty cdata = Inr d" "0 < length cdata" "length cdata < 2 ^ 31"
      using uncompress_undoes [OF assms(9) d(4,1,3) rs(2)] by blast+
    obtain r where r: "r > 0"
        "read_chunk (write_record (Compressed cdata) @ archive_bytes rs') = Inr (r, Some (Compressed cdata), archive_bytes rs')"
      using read_write_record [of "Compressed cdata" "archive_bytes rs'"] u by auto
    obtain c' where c': "cache_insert ev ?sh d c = Inr c'" "holds_map c' (f(?sh \<mapsto> d))"
      using holds_map_insert [of c f ?sh ev d] Cons.prems(2) None assms(5,6) by (auto simp: decodes_def)
    then have dec: "decodes ev D c' (f(?sh \<mapsto> d))"
      using Cons.prems(2) d(2) by (auto simp: decodes_def)
    have "c_int (length d) > 0" using d by (simp add: c_int_small)
    then have "decode_loop ev ty c (archive_bytes rs) out = decode_loop ev ty c' (archive_bytes rs') (out @ d)"
      using r rs(1) u(1) c'(1) by (subst decode_loop.simps) simp
    then show ?thesis using Cons.IH [OF rs(3) dec, of "out @ d"] Cons.prems(3,4) by simp
  qed
qed

section \<open>Round trip\<close>

lemma concat_sublist: "d \<in> set ds \<Longrightarrow> sublist d (concat ds)"
  by (metis concat.simps(2) concat_append split_list sublist_appendI)

lemma decode_archive:
  assumes "chunk_records ev ty {} ds = Inr rs" and "[] \<notin> set ds" and "0 \<le> ty" and "ty < 256"
    and "length (concat ds) < 2 ^ 31" and "codec_ok ev" and "\<forall>d \<in> set ds. decoder_fits ev ty (length d)"
    and "sums_ok ev (concat ds)" and "table_mem ev" and "ds \<noteq> [] \<Longrightarrow> entry_mem ev"
  shows "Decode ev (write_header (word_of_int ty) @ archive_bytes rs) = Some (Inr (concat ds))"
proof -
  let ?mk = "hashtable_create False (load_limit ev) (table_mem ev) 65536"
  obtain c where c: "(?mk :: uchar list cache option) = Some c"
    using assms(9) by (cases "pick_prime primes 0 65536") (auto simp: hashtable_create_def)
  have pieces: "set ds \<subseteq> {d. sublist d (concat ds)}" using concat_sublist by blast
  have sums: "\<forall>d. length (SHA1_Digest ev d) = 5" "inj_on (SHA1_Digest ev) (set ds)"
    using assms(8) inj_on_subset [OF _ pieces] by (auto simp: sums_ok_def)
  have dec: "decode_loop ev ty c (archive_bytes rs) [] = Inr (concat ds)"
  proof (cases "ds = []")
    case True
    with assms(1) show ?thesis by (subst decode_loop.simps) (simp add: read_chunk_def take_exactly_def)
  next
    case False
    have "decodes ev (set ds) c (\<lambda>_. None)" using holds_map_create [OF c] by (simp add: decodes_def)
    moreover have "length d \<le> length (concat ds)" if "d \<in> set ds" for d
      using pieces that sublist_length_le by blast
    then have "\<forall>d \<in> set ds. length d < 2 ^ 31 \<and> decoder_fits ev ty (length d)" using assms(5,7) by fastforce
    ultimately show ?thesis
      using decode_loop_records [of ev ty "\<lambda>_. None" ds rs "set ds" c "[]"]
        assms(1,2,6) assms(10) [OF False] sums by simp
  qed
  have "uint (word_of_int ty :: uchar) = ty" using assms(3,4) by (simp add: take_bit_int_eq_self unsigned_of_int)
  then show ?thesis
    using c dec header_roundtrip by (simp add: Decode_def)
qed

text \<open>C8. Decoding undoes encoding: whatever the serial encoder has written for an input of less than 2 GB, the
  decoder turns back into exactly that input. Assumed: no \<open>read\<close> returns more than it was asked for, the
  compression type fits in the byte of the header, zlib and bzip2 keep what they document (\<open>codec_ok\<close>),
  SHA-1 does not collide on the pieces of the input, and, when compression is on, the input is no longer
  than the 10,000,000 bytes of the decoder's buffer, for which there is memory - a longer chunk would be
  written by the encoder and refused by the decoder (decoder.c:122).\<close>

theorem dedup_roundtrip:
  assumes "Encode ev ty src = Inr archive" and "source_ok src" and "0 \<le> ty" and "ty < 256"
    and "length (source_bytes src) < 2 ^ 31" and "codec_ok ev" and "decoder_fits ev ty (length (source_bytes src))"
    and "sums_ok ev (source_bytes src)"
  shows "Decode ev archive = Some (Inr (source_bytes src))"
proof -
  let ?mk = "hashtable_create False (load_limit ev) (table_mem ev) 65536"
  obtain c where c: "(?mk :: nat cache option) = Some c"
    using assms(1) by (cases "?mk :: nat cache option") (auto simp: Encode_def)
  then have mem: "table_mem ev" by (auto simp: hashtable_create_def split: if_splits prod.splits)
  obtain T W where tab: "rabininit 0 (replicate 256 0) (replicate 256 0) = (T, W)" by fastforce
  let ?st = "\<lparr>e_cache = c, e_out = write_header (word_of_int ty), e_stats = init_stats, e_next = 0\<rparr>"
  obtain st where st: "serial_loop ev ty T W MAXBUF [] src ?st = Inr st" "archive = e_out st"
    using assms(1) c tab by (cases "serial_loop ev ty T W MAXBUF [] src ?st")
      (auto simp: Encode_def SerialIntegratedPipeline_def)
  obtain ds where ds: "concat ds = source_bytes src" "[] \<notin> set ds" "process_all ev ty ds ?st = Inr st"
    using serial_loop_chunks [OF st(1) assms(2)] by (auto simp: MAXBUF_def)
  have len: "\<forall>d. length (SHA1_Digest ev d) = 5" using assms(8) by (auto simp: sums_ok_def)
  have empty: "holds_map (e_cache ?st) (\<lambda>_. None)" using holds_map_create [OF c] by simp
  obtain rs where rs: "chunk_records ev ty {} ds = Inr rs" "archive = write_header (word_of_int ty) @ archive_bytes rs"
    using process_all_records [OF ds(3) empty] len st(2) by auto
  have "entry_mem ev" if ne: "ds \<noteq> []"
  proof -
    obtain d ds' st1 where "ds = d # ds'" "process_chunk ev ty d ?st = Inr st1"
      using ds(3) ne by (cases ds) (auto split: sum.splits)
    from process_chunk_records [OF this(2) empty, of "[]"] len show ?thesis by (auto simp del: chunk_records.simps)
  qed
  moreover have "decoder_fits ev ty (length d)" if "d \<in> set ds" for d
    using decoder_fits_mono [OF assms(7)] sublist_length_le [OF concat_sublist [OF that]] ds(1) by simp
  ultimately show ?thesis
    using decode_archive [OF rs(1) ds(2) assms(3,4)] assms(5,6,8) mem ds(1) rs(2) by simp
qed

section \<open>The encoder returns\<close>

definition healthy :: "env \<Rightarrow> int \<Rightarrow> bool" where
  "healthy ev ty \<longleftrightarrow> (\<forall>n. can_alloc ev n) \<and> table_mem ev \<and> entry_mem ev \<and>
     (\<forall>x. length (SHA1_Digest ev x) = 5) \<and> (\<forall>x. isl (sub_Compress ev ty x) \<longrightarrow> x = [])"

fun reads_succeed :: "source \<Rightarrow> bool" where
  "reads_succeed (Preloaded b) = True"
| "reads_succeed (Descriptor rs) = (\<forall>r \<in> set rs. case r of Got _ \<Rightarrow> True | Read_failed _ \<Rightarrow> False)"

lemma rabin_scan_ge: "rabin_scan p n T W i h \<ge> min i n"
proof (induction p n T W i h rule: rabin_scan.induct)
  case (1 p n T W i h)
  show ?case
  proof (cases "i < n")
    case True
    with 1 show ?thesis by (subst rabin_scan.simps) (fastforce simp: Let_def)
  next
    case False
    then show ?thesis by (subst rabin_scan.simps) simp
  qed
qed

lemma rabinseg_positive: "0 < n \<Longrightarrow> 0 < rabinseg p n 0 T W"
proof -
  assume n: "0 < n"
  have "0 < rabin_scan p (nat n) T W NWINDOW h" if "int NWINDOW \<le> n" for h
    using rabin_scan_ge [of NWINDOW "nat n" p T W h] that by (simp add: NWINDOW_def)
  then show ?thesis using n by (auto simp: rabinseg_def Let_def NWINDOW_def)
qed

lemma process_chunk_returns:
  assumes "healthy ev ty" and "holds_map (e_cache st) f" and "d \<noteq> []"
  shows "\<exists>st' f'. process_chunk ev ty d st = Inr st' \<and> holds_map (e_cache st') f'"
proof (cases "f (SHA1_Digest ev d)")
  case (Some v)
  then show ?thesis using assms
    by (auto simp: process_chunk_def sub_Deduplicate_def holds_map_search healthy_def Let_def)
next
  case None
  obtain cdata where "sub_Compress ev ty d = Inr cdata"
    using assms(1,3) by (cases "sub_Compress ev ty d") (auto simp: healthy_def)
  moreover obtain c' where "cache_insert ev (SHA1_Digest ev d) (e_next st) (e_cache st) = Inr c'"
      "holds_map c' (f(SHA1_Digest ev d \<mapsto> e_next st))"
    using holds_map_insert [OF assms(2) _ None, of ev "e_next st"] assms(1) unfolding healthy_def by blast
  ultimately show ?thesis using assms None
    by (auto simp: process_chunk_def sub_Deduplicate_def holds_map_search healthy_def Let_def)
qed

lemma split_loop_returns:
  assumes "healthy ev ty" and "holds_map (e_cache st) f" and "data \<noteq> []" and "length data < 2 ^ 31"
  shows "\<exists>rest st' f'. split_loop ev ty T W data st = Inr (rest, st') \<and> holds_map (e_cache st') f'"
  using assms(2-)
proof (induction "length data" arbitrary: data st f rule: less_induct)
  case less
  let ?o = "rabinseg data (c_int (length data)) 0 T W"
  have "0 < c_int (length data)" using less.prems by (simp add: c_int_small)
  then have o: "0 < ?o" by (rule rabinseg_positive)
  show ?case
  proof (cases "nat ?o < length data")
    case True
    with o less.prems have "take (nat ?o) data \<noteq> []" by (cases data) auto
    from process_chunk_returns [OF assms(1) less.prems(1) this] obtain st1 f1 where
      st1: "process_chunk ev ty (take (nat ?o) data) st = Inr st1" "holds_map (e_cache st1) f1" by blast
    have "\<exists>rest st' f'. split_loop ev ty T W (drop (nat ?o) data) st1 = Inr (rest, st') \<and> holds_map (e_cache st') f'"
      using o True less.prems(3) st1(2) by (intro less.hyps) auto
    then show ?thesis using o True st1(1) by (subst split_loop.simps) (auto simp: Let_def)
  next
    case False
    then show ?thesis using o less.prems(1) by (subst split_loop.simps) (auto simp: Let_def)
  qed
qed

lemma read_fill_returns:
  "\<forall>r \<in> set rs. case r of Got _ \<Rightarrow> True | Read_failed _ \<Rightarrow> False \<Longrightarrow>
     \<exists>new rs'. read_fill room rs = Inr (new, rs') \<and>
       (\<forall>r \<in> set rs'. case r of Got _ \<Rightarrow> True | Read_failed _ \<Rightarrow> False)"
proof (induction room rs rule: read_fill.induct)
  case (2 room r rs)
  then obtain bs where "r = Got bs" by (auto split: read_result.splits)
  with 2 show ?case by fastforce
qed simp

lemma read_block_returns:
  "reads_succeed src \<Longrightarrow> \<exists>new src'. read_block maxbuf src = Inr (new, src') \<and> reads_succeed src'"
  using read_fill_returns [of _ maxbuf] by (cases src) (simp, fastforce simp del: split_paired_Ex)

lemma split_loop_rest: "split_loop ev ty T W data st = Inr (rest, st') \<Longrightarrow> length rest \<le> length data"
  by (drule split_loop_chunks) auto

lemma serial_loop_returns:
  assumes "healthy ev ty" and "holds_map (e_cache st) f" and "reads_succeed src"
    and "length temp + source_size src < 2 ^ 31" and "maxbuf < 2 ^ 32"
  shows "\<exists>st'. serial_loop ev ty T W maxbuf temp src st = Inr st'"
  using assms(2-4)
proof (induction "source_size src" arbitrary: temp src st f rule: less_induct)
  case less
  obtain new src' where b: "read_block maxbuf src = Inr (new, src')" "reads_succeed src'"
    using read_block_returns [OF less.prems(2)] by blast
  have size: "source_size src = length new + source_size src'" by (rule read_block_size [OF b(1)])
  have ok: "\<not> maxbuf + length temp > SSIZE_MAX" "can_alloc ev (maxbuf + length temp)"
    using less.prems(3) assms(1,5) by (simp_all add: SSIZE_MAX_def healthy_def)
  show ?case
  proof (cases "new = []")
    case True
    then show ?thesis
      using ok b process_chunk_returns [OF assms(1) less.prems(1), of temp]
      by (subst serial_loop.simps) auto
  next
    case False
    obtain rest st1 f1 where s: "split_loop ev ty T W (temp @ new) st = Inr (rest, st1)" "holds_map (e_cache st1) f1"
      using split_loop_returns [OF assms(1) less.prems(1), of "temp @ new" T W] False less.prems(3) size by auto
    from split_loop_rest [OF s(1)] have "length rest + source_size src' < 2 ^ 31"
      using less.prems(3) size by simp
    with less.hyps [OF _ s(2) b(2)] False size
    have "\<exists>st'. serial_loop ev ty T W maxbuf rest src' st1 = Inr st'" by simp
    with ok b(1) s(1) False show ?thesis by (subst serial_loop.simps) simp
  qed
qed

lemma source_size_bytes: "source_size src = length (source_bytes src)"
  by (cases src) (simp_all add: length_concat comp_def)

lemma encode_returns:
  assumes "healthy ev ty" and "reads_succeed src" and "length (source_bytes src) < 2 ^ 31"
  shows "\<exists>archive. Encode ev ty src = Inr archive"
proof -
  obtain c :: "nat cache" where c: "hashtable_create False (load_limit ev) (table_mem ev) 65536 = Some c"
    using assms(1) by (cases "pick_prime primes 0 65536") (auto simp: healthy_def hashtable_create_def)
  obtain T W where tab: "rabininit 0 (replicate 256 0) (replicate 256 0) = (T, W)" by fastforce
  let ?st = "\<lparr>e_cache = c, e_out = write_header (word_of_int ty), e_stats = init_stats, e_next = 0\<rparr>"
  have "\<exists>st'. serial_loop ev ty T W MAXBUF [] src ?st = Inr st'"
    using serial_loop_returns [OF assms(1) _ assms(2), of ?st "\<lambda>_. None"] holds_map_create [OF c] assms(3)
    by (simp add: source_size_bytes MAXBUF_def)
  then show ?thesis using c tab by (auto simp: Encode_def SerialIntegratedPipeline_def)
qed

text \<open>C29. Encoding ends with an archive: for every input below two gigabytes, with memory, reads that do
  not fail and a compression library that does not refuse, the serial encoder never reaches one of its
  exits and its loops end.\<close>

theorem dedup_encode_returns:
  assumes "healthy ev ty" and "reads_succeed src" and "length (source_bytes src) < 2 ^ 31"
  shows "\<exists>archive. Encode ev ty src = Inr archive"
  by (rule encode_returns [OF assms])

definition sample_env :: env where
  "sample_env = \<lparr>SHA1_Digest = \<lambda>d. take 5 (word_of_nat (length d) # map ucast d @ replicate 5 0),
     ENABLE_GZIP = False, gz_compress = \<lambda>_. None, gz_uncompress = \<lambda>_ _. None,
     ENABLE_BZIP2 = False, bz_compress = \<lambda>_. None, bz_uncompress = \<lambda>_ _. None,
     can_alloc = \<lambda>_. True, table_mem = True, entry_mem = True, load_limit = \<lambda>_. 0\<rparr>"

lemma sample_healthy: "healthy sample_env COMPRESS_NONE"
  by (auto simp: healthy_def sample_env_def sub_Compress_def min_def)

lemma sample_codec: "codec_ok sample_env"
  by (simp add: codec_ok_def sample_env_def)

theorem dedup_encode_returns_witness:
  "\<exists>archive. Encode sample_env COMPRESS_NONE (Descriptor [Got [7], Got [8, 9]]) = Inr archive"
  by (rule dedup_encode_returns [OF sample_healthy]) (simp_all add: read_bytes_def)

lemma sample_sums: "sums_ok sample_env [7, 8, 9]"
proof -
  have "{d :: uchar list. sublist d [7, 8, 9]} \<subseteq> {[], [7], [8], [9], [7, 8], [8, 9], [7, 8, 9]}"
    by (auto simp: sublist_Cons_right prefix_Cons)
  moreover have "inj_on (SHA1_Digest sample_env) {[], [7], [8], [9], [7, 8], [8, 9], [7, 8, 9]}"
    by (simp add: sample_env_def)
  ultimately have "inj_on (SHA1_Digest sample_env) {d. sublist d [7, 8, 9]}"
    by (rule inj_on_subset [rotated])
  then show ?thesis by (auto simp: sums_ok_def sample_env_def min_def)
qed

text \<open>A library that stores its input behind one byte keeps the law of compression libraries.\<close>

definition storing_env :: env where
  "storing_env = sample_env\<lparr>ENABLE_GZIP := True, gz_compress := \<lambda>x. Some (0 # x),
     gz_uncompress := \<lambda>m y. if length y \<le> m + 1 then Some (tl y) else None\<rparr>"

lemma storing_codec: "codec_ok storing_env"
  by (simp add: codec_ok_def storing_env_def sample_env_def)

lemma storing_healthy: "healthy storing_env COMPRESS_GZIP"
  by (auto simp: healthy_def storing_env_def sample_env_def sub_Compress_def min_def
      COMPRESS_GZIP_def COMPRESS_NONE_def)

lemma storing_sums: "sums_ok storing_env [7, 8, 9]"
  using sample_sums by (simp add: sums_ok_def storing_env_def)

theorem dedup_roundtrip_witness:
  "\<exists>archive. Encode storing_env COMPRESS_GZIP (Descriptor [Got [7], Got [8, 9]]) = Inr archive \<and>
     Decode storing_env archive = Some (Inr [7, 8, 9])"
proof -
  let ?src = "Descriptor [Got [7], Got [8, 9]]"
  have src: "source_bytes ?src = [7, 8, 9]" by (simp add: read_bytes_def)
  obtain archive where a: "Encode storing_env COMPRESS_GZIP ?src = Inr archive"
    using encode_returns [OF storing_healthy, of ?src] by (auto simp: read_bytes_def)
  have "decoder_fits storing_env COMPRESS_GZIP (length [7, 8, 9 :: uchar])"
    by (simp add: decoder_fits_def storing_env_def sample_env_def UNCOMPRESS_BOUND_def)
  then have "Decode storing_env archive = Some (Inr (source_bytes ?src))"
    using storing_sums storing_codec
    by (intro dedup_roundtrip [OF a]) (simp_all add: src COMPRESS_GZIP_def del: source_bytes.simps)
  with a src show ?thesis by auto
qed

end
