(* ===== verification/Dedup_Defs.thy ===== *)
theory Dedup_Defs
  imports Gcl_Prelude
begin

text \<open>
  \<open>samples/dedup/dedupdef.h\<close>: the two-level sequence numbers that restore the order of the chunks
  after the parallel stages, and the chunk itself.
\<close>

type_synonym sequence_number_t = "32 word"

datatype sequence_t = Sequence (l1num: sequence_number_t) (l2num: sequence_number_t)

definition sequence_eq :: "sequence_t \<Rightarrow> sequence_t \<Rightarrow> bool" where
  "sequence_eq s1 s2 \<longleftrightarrow> l1num s1 = l1num s2 \<and> l2num s1 = l2num s2"

definition sequence_lt :: "sequence_t \<Rightarrow> sequence_t \<Rightarrow> bool" where
  "sequence_lt s1 s2 \<longleftrightarrow>
     (if l1num s1 < l1num s2 then True else l1num s1 = l1num s2 \<and> l2num s1 < l2num s2)"

definition sequence_gt :: "sequence_t \<Rightarrow> sequence_t \<Rightarrow> bool" where
  "sequence_gt s1 s2 \<longleftrightarrow>
     (if l1num s1 > l1num s2 then True else l1num s1 = l1num s2 \<and> l2num s1 > l2num s2)"

definition sequence_inc :: "sequence_number_t \<Rightarrow> sequence_t \<Rightarrow> sequence_t" where
  "sequence_inc ubound s =
     (let n2 = l2num s + 1
      in if n2 \<ge> ubound then Sequence (l1num s + 1) 0 else Sequence (l1num s) n2)"

definition sequence_inc_l1 :: "sequence_t \<Rightarrow> sequence_t" where
  "sequence_inc_l1 s = Sequence (l1num s + 1) 0"

definition sequence_inc_l2 :: "sequence_t \<Rightarrow> sequence_t" where
  "sequence_inc_l2 s = Sequence (l1num s) (l2num s + 1)"

definition sequence_reset :: "sequence_t \<Rightarrow> sequence_t" where
  "sequence_reset s = Sequence 0 0"

text \<open>The comparison functions make sequence numbers a linear order, the lexicographic one.\<close>

instantiation sequence_t :: linorder
begin

definition less_sequence_t :: "sequence_t \<Rightarrow> sequence_t \<Rightarrow> bool" where
  "less_sequence_t s1 s2 \<longleftrightarrow> sequence_lt s1 s2"

definition less_eq_sequence_t :: "sequence_t \<Rightarrow> sequence_t \<Rightarrow> bool" where
  "less_eq_sequence_t s1 s2 \<longleftrightarrow> sequence_lt s1 s2 \<or> sequence_eq s1 s2"

instance
  by standard
    (auto simp: less_sequence_t_def less_eq_sequence_t_def sequence_lt_def sequence_eq_def
       sequence_t.expand split: if_splits)

end

lemma sequence_eq_iff: "sequence_eq s t \<longleftrightarrow> s = t"
  by (cases s; cases t) (auto simp: sequence_eq_def)

lemma sequence_gt_iff: "sequence_gt s t \<longleftrightarrow> t < s"
  by (auto simp: sequence_gt_def less_sequence_t_def sequence_lt_def)

text \<open>The number of a chunk, \<open>ubound\<close> second-level numbers to each first-level number.\<close>

definition seq_index :: "sequence_number_t \<Rightarrow> sequence_t \<Rightarrow> nat" where
  "seq_index ubound s = unat (l1num s) * unat ubound + unat (l2num s)"

lemma of_nat_unat_id: "word_of_nat (unat (w :: 32 word)) = w"
  by (simp add: unsigned_ucast_eq)

lemma euclid_unique: "(b::nat) < u \<Longrightarrow> a * u + b = n \<Longrightarrow> a = n div u \<and> b = n mod u"
  by auto

lemma seq_index_inc_inner:
  assumes "unat (l2num s) + 1 < unat ub"
  shows "seq_index ub (sequence_inc ub s) = seq_index ub s + 1 \<and>
         unat (l2num (sequence_inc ub s)) < unat ub"
proof -
  have "unat ub < 2 ^ 32" using unsigned_less [of ub] by simp
  with assms have "unat (l2num s + 1) = unat (l2num s) + 1"
    by (simp add: unat_word_ariths)
  with assms show ?thesis
    by (simp add: sequence_inc_def seq_index_def word_le_nat_alt)
qed

lemma seq_index_inc_wrap:
  assumes "unat (l2num s) + 1 = unat ub" and "unat (l1num s) + 1 < 2 ^ 32"
  shows "seq_index ub (sequence_inc ub s) = seq_index ub s + 1 \<and>
         unat (l2num (sequence_inc ub s)) < unat ub"
proof -
  have "unat ub < 2 ^ 32" using unsigned_less [of ub] by simp
  with assms have "unat (l2num s + 1) = unat ub" "unat (l1num s + 1) = unat (l1num s) + 1"
    by (simp_all add: unat_word_ariths)
  moreover have "unat ub = Suc (unat (l2num s))" using assms(1) by simp
  ultimately show ?thesis
    by (simp add: sequence_inc_def seq_index_def word_le_nat_alt)
qed

subsection \<open>Properties\<close>

text \<open>Counting chunks with \<open>sequence_inc\<close> from the reset sequence number enumerates, without a gap
  and without a repetition, the pairs in the order of \<open>sequence_lt\<close>: after \<open>n\<close> increments with
  \<open>ubound\<close> = u the number is (n div u, n mod u), as long as n div u does not exceed 32 bits.\<close>

theorem dedup_sequence_enumeration:
  assumes "0 < ub" and "n div unat ub < 2 ^ 32"
  shows "(sequence_inc ub ^^ n) (sequence_reset s) =
         Sequence (word_of_nat (n div unat ub)) (word_of_nat (n mod unat ub))"
proof -
  have ub: "0 < unat ub" using assms(1) by (simp add: word_less_nat_alt)
  have "seq_index ub ((sequence_inc ub ^^ n) (sequence_reset s)) = n \<and>
        unat (l2num ((sequence_inc ub ^^ n) (sequence_reset s))) < unat ub"
    using assms(2)
  proof (induction n)
    case 0
    then show ?case using ub by (simp add: sequence_reset_def seq_index_def)
  next
    case (Suc n)
    let ?t = "(sequence_inc ub ^^ n) (sequence_reset s)"
    have "n div unat ub < 2 ^ 32"
      by (rule le_less_trans [OF div_le_mono Suc.prems]) simp
    with Suc.IH have t: "seq_index ub ?t = n" "unat (l2num ?t) < unat ub" by auto
    show ?case
    proof (cases "unat (l2num ?t) + 1 = unat ub")
      case True
      with t(1) have "Suc n = (unat (l1num ?t) + 1) * unat ub"
        by (simp add: seq_index_def)
      then have "Suc n div unat ub = unat (l1num ?t) + 1" using ub by simp
      with Suc.prems have "unat (l1num ?t) + 1 < 2 ^ 32" by simp
      with seq_index_inc_wrap [OF True] t(1) show ?thesis by simp
    next
      case False
      with t(2) seq_index_inc_inner [of ?t ub] t(1) show ?thesis by simp
    qed
  qed
  then have "unat (l1num ((sequence_inc ub ^^ n) (sequence_reset s))) = n div unat ub"
    "unat (l2num ((sequence_inc ub ^^ n) (sequence_reset s))) = n mod unat ub"
    using euclid_unique [of "unat (l2num ((sequence_inc ub ^^ n) (sequence_reset s)))" "unat ub"
        "unat (l1num ((sequence_inc ub ^^ n) (sequence_reset s)))" n]
    by (auto simp: seq_index_def)
  then show ?thesis
    by (metis sequence_t.collapse of_nat_unat_id)
qed

theorem dedup_sequence_enumeration_witness:
  "(sequence_inc 3 ^^ 7) (sequence_reset (Sequence 9 9)) = Sequence 2 1"
  using dedup_sequence_enumeration [of 3 7 "Sequence 9 9"] by simp

end
