(* ===== verification/Dedup_Fragment.thy ===== *)
theory Dedup_Fragment
  imports Dedup_Roundtrip Dedup_Defs
begin

text \<open>
  The first two stages of the parallel encoder of \<open>samples/dedup/encoder.c\<close>: \<open>Fragment\<close> cuts the input
  into coarse chunks with a first-level number, \<open>FragmentRefine\<close> cuts each of them into fine chunks with a
  second-level number. The queues between the stages deliver what is put into them; they are in
  \<open>Dedup_Ring\<close>.
\<close>

definition ANCHOR_JUMP :: nat where
  "ANCHOR_JUMP = 2 * 1024 * 1024"

record coarse_chunk =
  coarse_l1num :: sequence_number_t
  coarse_data :: "uchar list"

record fine_chunk =
  fine_seq :: sequence_t
  isLastL2Chunk :: bool
  fine_data :: "uchar list"

section \<open>Coarse chunks\<close>

text \<open>The loop that splits the block; \<open>aj\<close> is \<open>ANCHOR_JUMP\<close>. A sum of 2^31 and more is no \<open>int\<close>. The
  result is the chunk that is left, the next number and the chunks put into the send buffer.\<close>

function anchor_loop :: "u32int list \<Rightarrow> u32int list \<Rightarrow> nat \<Rightarrow> coarse_chunk \<Rightarrow> sequence_number_t
    \<Rightarrow> string + (coarse_chunk \<times> sequence_number_t \<times> coarse_chunk list)" where
  "anchor_loop T W aj chunk anchorcount =
     (let data = coarse_data chunk; n = length data
      in if aj < n
         then (let offs = rabinseg (drop aj data) (c_int (n - aj)) 0 T W
               in if offs = 0 then Inl ''assertion failed''
                  else if offs + int aj \<ge> 2 ^ 31 then Inl ''undefined''
                  else if 0 < offs + int aj \<and> nat (offs + int aj) < n
                  then (case anchor_loop T W aj \<lparr>coarse_l1num = anchorcount, coarse_data = drop (nat (offs + int aj)) data\<rparr>
                          (anchorcount + 1) of
                      Inl e \<Rightarrow> Inl e
                    | Inr (rest, cnt, sent) \<Rightarrow>
                        Inr (rest, cnt, chunk\<lparr>coarse_data := take (nat (offs + int aj)) data\<rparr> # sent))
                  else Inr (chunk, anchorcount, []))
         else Inr (chunk, anchorcount, []))"
  by auto
termination by (relation "measure (\<lambda>(T, W, aj, chunk, cnt). length (coarse_data chunk))") auto

function fragment_loop :: "env \<Rightarrow> u32int list \<Rightarrow> u32int list \<Rightarrow> nat \<Rightarrow> nat \<Rightarrow> coarse_chunk option \<Rightarrow> source
    \<Rightarrow> sequence_number_t \<Rightarrow> string + coarse_chunk list" where
  "fragment_loop ev T W maxbuf aj temp src anchorcount =
     (let left = (case temp of None \<Rightarrow> [] | Some t \<Rightarrow> coarse_data t); bytes_left = length left
      in if maxbuf + bytes_left > SSIZE_MAX then Inl ''Input buffer size exceeds system maximum.''
         else if \<not> can_alloc ev (maxbuf + bytes_left) then Inl ''Unable to initialize memory buffer.''
         else let l1 = (if bytes_left > 0 then coarse_l1num (the temp) else anchorcount);
                  cnt = (if bytes_left > 0 then anchorcount else anchorcount + 1)
              in (case read_block maxbuf src of
                  Inl e \<Rightarrow> Inl e
                | Inr (new, src') \<Rightarrow>
                    if bytes_left + length new = 0 then Inr []
                    else let chunk = \<lparr>coarse_l1num = l1, coarse_data = left @ new\<rparr>
                         in if length new = 0 then Inr [chunk]
                            else (case anchor_loop T W aj chunk cnt of
                                Inl e \<Rightarrow> Inl e
                              | Inr (rest, cnt', sent) \<Rightarrow>
                                  map_sum id (\<lambda>more_sent. sent @ more_sent)
                                    (fragment_loop ev T W maxbuf aj (Some rest) src' cnt'))))"
  by auto
termination
  by (relation "measure (\<lambda>(ev, T, W, maxbuf, aj, temp, src, cnt). source_size src)")
    (auto dest!: read_block_size)

declare anchor_loop.simps [simp del] fragment_loop.simps [simp del]

definition Fragment :: "env \<Rightarrow> source \<Rightarrow> string + coarse_chunk list" where
  "Fragment ev src =
     (let (T, W) = rabininit 0 (replicate 256 0) (replicate 256 0)
      in fragment_loop ev T W MAXBUF ANCHOR_JUMP None src 0)"

section \<open>Fine chunks\<close>

text \<open>The inner loop of \<open>FragmentRefine\<close>; \<open>mbuffer_split\<close> asserts that the first part is not empty.\<close>

function refine_loop :: "u32int list \<Rightarrow> u32int list \<Rightarrow> sequence_number_t \<Rightarrow> sequence_number_t \<Rightarrow> uchar list
    \<Rightarrow> string + fine_chunk list" where
  "refine_loop T W l1 chcount data =
     (let offs = rabinseg data (c_int (length data)) 0 T W
      in if 0 \<le> offs \<and> nat offs < length data
         then (if offs = 0 then Inl ''assertion failed''
               else map_sum id (Cons \<lparr>fine_seq = Sequence l1 chcount, isLastL2Chunk = False, fine_data = take (nat offs) data\<rparr>)
                      (refine_loop T W l1 (chcount + 1) (drop (nat offs) data)))
         else Inr [\<lparr>fine_seq = Sequence l1 chcount, isLastL2Chunk = True, fine_data = data\<rparr>])"
  by auto
termination by (relation "measure (\<lambda>(T, W, l1, cnt, data). length data)") auto

declare refine_loop.simps [simp del]

fun refine_all :: "coarse_chunk list \<Rightarrow> string + fine_chunk list" where
  "refine_all [] = Inr []"
| "refine_all (c # cs) =
     (let (T, W) = rabininit 0 (replicate 256 0) (replicate 256 0)
      in case refine_loop T W (coarse_l1num c) 0 (coarse_data c) of
          Inl e \<Rightarrow> Inl e
        | Inr fs \<Rightarrow> map_sum id (\<lambda>gs. fs @ gs) (refine_all cs))"

section \<open>Numbering\<close>

text \<open>The number of the chunk after one, and lists of chunks that are numbered without a gap.\<close>

definition next_seq :: "fine_chunk \<Rightarrow> sequence_t" where
  "next_seq c = (if isLastL2Chunk c then sequence_inc_l1 (fine_seq c) else sequence_inc_l2 (fine_seq c))"

fun numbered :: "sequence_t \<Rightarrow> fine_chunk list \<Rightarrow> bool" where
  "numbered s [] = True"
| "numbered s (c # cs) = (fine_seq c = s \<and> numbered (next_seq c) cs)"

fun seq_end :: "sequence_t \<Rightarrow> fine_chunk list \<Rightarrow> sequence_t" where
  "seq_end s [] = s"
| "seq_end s (c # cs) = seq_end (next_seq c) cs"

lemma numbered_append: "numbered s (xs @ ys) \<longleftrightarrow> numbered s xs \<and> numbered (seq_end s xs) ys"
  by (induction xs arbitrary: s) auto

lemma seq_end_append: "seq_end s (xs @ ys) = seq_end (seq_end s xs) ys"
  by (induction xs arbitrary: s) auto

fun coarse_numbered :: "sequence_number_t \<Rightarrow> coarse_chunk list \<Rightarrow> bool" where
  "coarse_numbered k [] = True"
| "coarse_numbered k (c # cs) = (coarse_l1num c = k \<and> coarse_data c \<noteq> [] \<and> coarse_numbered (k + 1) cs)"

lemma coarse_numbered_append:
  "coarse_numbered k (xs @ ys) \<longleftrightarrow> coarse_numbered k xs \<and> coarse_numbered (k + word_of_nat (length xs)) ys"
  by (induction xs arbitrary: k) (auto simp: algebra_simps)

lemma refine_loop_numbered:
  "refine_loop T W l1 k data = Inr fs \<Longrightarrow> data \<noteq> [] \<Longrightarrow>
     numbered (Sequence l1 k) fs \<and> seq_end (Sequence l1 k) fs = Sequence (l1 + 1) 0 \<and>
     concat (map fine_data fs) = data \<and> [] \<notin> set (map fine_data fs)"
proof (induction "length data" arbitrary: k data fs rule: less_induct)
  case less
  let ?o = "rabinseg data (c_int (length data)) 0 T W"
  show ?case
  proof (cases "0 \<le> ?o \<and> nat ?o < length data")
    case True
    with less.prems(1) obtain gs where gs: "?o \<noteq> 0" "refine_loop T W l1 (k + 1) (drop (nat ?o) data) = Inr gs"
        "fs = \<lparr>fine_seq = Sequence l1 k, isLastL2Chunk = False, fine_data = take (nat ?o) data\<rparr> # gs"
      by (cases "refine_loop T W l1 (k + 1) (drop (nat ?o) data)")
        (auto simp: refine_loop.simps [of T W l1 k data] Let_def split: if_splits)
    have "take (nat ?o) data \<noteq> []" using True gs(1) less.prems(2) by auto
    moreover have "numbered (Sequence l1 (k + 1)) gs \<and> seq_end (Sequence l1 (k + 1)) gs = Sequence (l1 + 1) 0 \<and>
        concat (map fine_data gs) = drop (nat ?o) data \<and> [] \<notin> set (map fine_data gs)"
      by (rule less.hyps [OF _ gs(2)]) (use True gs(1) in auto)
    ultimately show ?thesis by (simp add: gs(3) next_seq_def sequence_inc_l2_def)
  next
    case False
    with less.prems have "fs = [\<lparr>fine_seq = Sequence l1 k, isLastL2Chunk = True, fine_data = data\<rparr>]"
      by (auto simp: refine_loop.simps [of T W l1 k data] Let_def)
    with less.prems(2) show ?thesis by (simp add: next_seq_def sequence_inc_l1_def)
  qed
qed

lemma refine_all_numbered:
  "refine_all cs = Inr fs \<Longrightarrow> coarse_numbered k cs \<Longrightarrow>
     numbered (Sequence k 0) fs \<and> concat (map fine_data fs) = concat (map coarse_data cs) \<and>
     [] \<notin> set (map fine_data fs)"
proof (induction cs arbitrary: k fs)
  case (Cons c cs)
  obtain T W where tab: "rabininit 0 (replicate 256 0) (replicate 256 0) = (T, W)" by fastforce
  from Cons.prems(1) tab obtain es gs where es: "refine_loop T W (coarse_l1num c) 0 (coarse_data c) = Inr es"
      "refine_all cs = Inr gs" "fs = es @ gs"
    by (cases "refine_all cs") (auto split: sum.splits)
  have c: "coarse_l1num c = k" "coarse_data c \<noteq> []" "coarse_numbered (k + 1) cs" using Cons.prems(2) by auto
  from refine_loop_numbered [OF es(1) c(2)] Cons.IH [OF es(2) c(3)] show ?case
    by (simp add: es(3) c(1) numbered_append)
qed simp

lemma anchor_loop_numbered:
  "anchor_loop T W aj chunk cnt = Inr (rest, cnt', sent) \<Longrightarrow> coarse_data chunk \<noteq> [] \<Longrightarrow>
     coarse_l1num chunk + 1 = cnt \<Longrightarrow>
     coarse_numbered (coarse_l1num chunk) (sent @ [rest]) \<and>
     cnt' = coarse_l1num chunk + word_of_nat (length sent) + 1 \<and>
     concat (map coarse_data (sent @ [rest])) = coarse_data chunk"
proof (induction "length (coarse_data chunk)" arbitrary: chunk cnt rest cnt' sent rule: less_induct)
  case less
  let ?data = "coarse_data chunk"
  let ?o = "rabinseg (drop aj ?data) (c_int (length ?data - aj)) 0 T W + int aj"
  show ?case
  proof (cases "aj < length ?data \<and> 0 < ?o \<and> nat ?o < length ?data")
    case True
    let ?c = "\<lparr>coarse_l1num = cnt, coarse_data = drop (nat ?o) ?data\<rparr>"
    from True less.prems(1) obtain sent1 where s: "anchor_loop T W aj ?c (cnt + 1) = Inr (rest, cnt', sent1)"
        "sent = chunk\<lparr>coarse_data := take (nat ?o) ?data\<rparr> # sent1"
      by (auto simp: anchor_loop.simps [of T W aj chunk cnt] Let_def split: if_splits sum.splits)
    have "take (nat ?o) ?data \<noteq> []" using True less.prems(2) by auto
    moreover have "coarse_numbered (coarse_l1num ?c) (sent1 @ [rest]) \<and>
        cnt' = coarse_l1num ?c + word_of_nat (length sent1) + 1 \<and>
        concat (map coarse_data (sent1 @ [rest])) = coarse_data ?c"
      by (rule less.hyps [OF _ s(1)]) (use True in auto)
    ultimately show ?thesis using less.prems(3) by (auto simp: s(2) algebra_simps)
  next
    case False
    with less.prems have "rest = chunk" "cnt' = cnt" "sent = []"
      by (auto simp: anchor_loop.simps [of T W aj chunk cnt] Let_def split: if_splits)
    with less.prems show ?thesis by simp
  qed
qed

text \<open>What is left over carries the last number given out.\<close>

definition left_numbered :: "coarse_chunk option \<Rightarrow> sequence_number_t \<Rightarrow> bool" where
  "left_numbered temp cnt \<longleftrightarrow> (\<forall>t. temp = Some t \<longrightarrow> coarse_data t \<noteq> [] \<and> coarse_l1num t + 1 = cnt)"

lemma fragment_loop_numbered:
  "fragment_loop ev T W maxbuf aj temp src cnt = Inr cs \<Longrightarrow> source_ok src \<Longrightarrow> 0 < maxbuf \<Longrightarrow>
     left_numbered temp cnt \<Longrightarrow>
     coarse_numbered (case temp of None \<Rightarrow> cnt | Some t \<Rightarrow> coarse_l1num t) cs \<and>
     concat (map coarse_data cs) = (case temp of None \<Rightarrow> [] | Some t \<Rightarrow> coarse_data t) @ source_bytes src"
proof (induction "source_size src" arbitrary: temp src cnt cs rule: less_induct)
  case less
  let ?left = "case temp of None \<Rightarrow> [] | Some t \<Rightarrow> coarse_data t"
  let ?l1 = "case temp of None \<Rightarrow> cnt | Some t \<Rightarrow> coarse_l1num t"
  from less.prems(1) have ok: "\<not> maxbuf + length ?left > SSIZE_MAX" "can_alloc ev (maxbuf + length ?left)"
    by (auto simp: fragment_loop.simps [of _ _ _ _ _ temp] Let_def split: if_splits)
  then obtain new src' where b: "read_block maxbuf src = Inr (new, src')"
    using less.prems(1) by (cases "read_block maxbuf src") (auto simp: fragment_loop.simps [of _ _ _ _ _ temp])
  note bytes = read_block_bytes [OF b less.prems(2,3)]
  have l1: "(if length ?left > 0 then coarse_l1num (the temp) else cnt) = ?l1"
      "(if length ?left > 0 then cnt else cnt + 1) = ?l1 + 1"
    using less.prems(4) by (auto simp: left_numbered_def split: option.splits)
  have eq: "fragment_loop ev T W maxbuf aj temp src cnt =
      (if length ?left + length new = 0 then Inr []
       else let chunk = \<lparr>coarse_l1num = ?l1, coarse_data = ?left @ new\<rparr>
            in if length new = 0 then Inr [chunk]
               else (case anchor_loop T W aj chunk (?l1 + 1) of
                   Inl e \<Rightarrow> Inl e
                 | Inr (rest, cnt', sent) \<Rightarrow>
                     map_sum id (\<lambda>more_sent. sent @ more_sent)
                       (fragment_loop ev T W maxbuf aj (Some rest) src' cnt')))"
    using ok b by (subst fragment_loop.simps) (simp only: Let_def l1 if_False if_True not_True_eq_False sum.case prod.case)
  show ?case
  proof (cases "new = []")
    case True
    then have "source_bytes src = []" using bytes by blast
    with True less.prems(1) show ?thesis
      unfolding eq by (cases "?left = []") (auto simp: Let_def)
  next
    case False
    let ?chunk = "\<lparr>coarse_l1num = ?l1, coarse_data = ?left @ new\<rparr>"
    from False less.prems(1) obtain rest cnt' sent where
      s1: "anchor_loop T W aj ?chunk (?l1 + 1) = Inr (rest, cnt', sent)"
      unfolding eq by (cases "anchor_loop T W aj ?chunk (?l1 + 1)") (auto simp: Let_def)
    with False less.prems(1) obtain ms where
      s: "anchor_loop T W aj ?chunk (?l1 + 1) = Inr (rest, cnt', sent)"
        "fragment_loop ev T W maxbuf aj (Some rest) src' cnt' = Inr ms" "cs = sent @ ms"
      unfolding eq by (cases "fragment_loop ev T W maxbuf aj (Some rest) src' cnt'") (auto simp: Let_def)
    note a = anchor_loop_numbered [OF s(1)]
    have a': "coarse_numbered ?l1 (sent @ [rest])" "cnt' = ?l1 + word_of_nat (length sent) + 1"
        "concat (map coarse_data (sent @ [rest])) = ?left @ new"
      using a False by auto
    then have rest: "coarse_l1num rest + 1 = cnt'" "coarse_data rest \<noteq> []"
      by (simp_all add: coarse_numbered_append)
    have "source_size src' < source_size src" using read_block_size [OF b] False by simp
    from less.hyps [OF this s(2)] bytes less.prems(3) rest
    have "coarse_numbered (coarse_l1num rest) ms \<and> concat (map coarse_data ms) = coarse_data rest @ source_bytes src'"
      by (simp add: left_numbered_def)
    with a' bytes show ?thesis
      by (simp add: s(3) coarse_numbered_append)
  qed
qed

lemma fragment_numbered:
  assumes "Fragment ev src = Inr cs" and "source_ok src" and "refine_all cs = Inr fs"
  shows "concat (map fine_data fs) = source_bytes src \<and> [] \<notin> set (map fine_data fs) \<and>
    numbered (Sequence 0 0) fs"
proof -
  obtain T W where "rabininit 0 (replicate 256 0) (replicate 256 0) = (T, W)" by fastforce
  with assms(1) have "fragment_loop ev T W MAXBUF ANCHOR_JUMP None src 0 = Inr cs" by (simp add: Fragment_def)
  from fragment_loop_numbered [OF this assms(2)]
  have "coarse_numbered 0 cs" "concat (map coarse_data cs) = source_bytes src"
    by (simp_all add: MAXBUF_def left_numbered_def)
  with refine_all_numbered [OF assms(3), of 0] show ?thesis by simp
qed

text \<open>C30. Fragmenting loses nothing and numbers without a gap: the fine chunks that leave the refinement
  stage concatenate to the input, none is empty, and their two-level sequence numbers start at (0, 0) and
  continue with the next second-level number, or with the next first-level number after the last chunk of
  a coarse chunk.\<close>

theorem dedup_fragment_numbered:
  assumes "Fragment ev src = Inr cs" and "source_ok src" and "refine_all cs = Inr fs"
  shows "concat (map fine_data fs) = source_bytes src \<and> [] \<notin> set (map fine_data fs) \<and>
    numbered (sequence_reset s) fs"
  using fragment_numbered [OF assms] by (simp add: sequence_reset_def)

lemma sample_fragment:
  "Fragment sample_env (Preloaded [1, 2, 3]) = Inr [\<lparr>coarse_l1num = 0, coarse_data = [1, 2, 3]\<rparr>]"
proof -
  obtain T W where tab: "rabininit 0 (replicate 256 0) (replicate 256 0) = (T, W)" by fastforce
  have "anchor_loop T W ANCHOR_JUMP \<lparr>coarse_l1num = 0, coarse_data = [1, 2, 3]\<rparr> 1 =
      Inr (\<lparr>coarse_l1num = 0, coarse_data = [1, 2, 3]\<rparr>, 1, [])"
    by (subst anchor_loop.simps) (simp add: ANCHOR_JUMP_def)
  moreover have "fragment_loop sample_env T W MAXBUF ANCHOR_JUMP
      (Some \<lparr>coarse_l1num = 0, coarse_data = [1, 2, 3]\<rparr>) (Preloaded []) 1 =
      Inr [\<lparr>coarse_l1num = 0, coarse_data = [1, 2, 3]\<rparr>]"
    by (subst fragment_loop.simps) (simp add: MAXBUF_def SSIZE_MAX_def sample_env_def)
  ultimately show ?thesis
    unfolding Fragment_def tab
    by (simp, subst fragment_loop.simps) (simp add: MAXBUF_def SSIZE_MAX_def sample_env_def)
qed

lemma sample_refine:
  "refine_all [\<lparr>coarse_l1num = 0, coarse_data = [1, 2, 3]\<rparr>] =
     Inr [\<lparr>fine_seq = Sequence 0 0, isLastL2Chunk = True, fine_data = [1, 2, 3]\<rparr>]"
proof -
  obtain T W where tab: "rabininit 0 (replicate 256 0) (replicate 256 0) = (T, W)" by fastforce
  have "refine_loop T W 0 0 [1, 2, 3] = Inr [\<lparr>fine_seq = Sequence 0 0, isLastL2Chunk = True, fine_data = [1, 2, 3]\<rparr>]"
    by (subst refine_loop.simps) (simp add: rabinseg_def NWINDOW_def c_int_small)
  then show ?thesis by (simp add: tab)
qed

theorem dedup_fragment_numbered_witness:
  "\<exists>fs. refine_all [\<lparr>coarse_l1num = 0, coarse_data = [1, 2, 3]\<rparr>] = Inr fs \<and>
     concat (map fine_data fs) = [1, 2, 3] \<and> numbered (Sequence 0 0) fs"
  using dedup_fragment_numbered [OF sample_fragment _ sample_refine, of "Sequence 9 9"] sample_refine
  by (simp add: sequence_reset_def)

end
