(* ===== verification/Dedup_Heap.thy ===== *)
theory Dedup_Heap
  imports Dedup_Defs Priority_Spec
begin

text \<open>
  \<open>samples/dedup/binheap.c\<close>: the binary heap of chunks, ordered by the second-level sequence number.

  Position 0 of \<open>Elements\<close> holds the null sentinel, so an entry is an option; \<open>Size\<close> and \<open>Capacity\<close>
  are C \<open>int\<close>s that are never negative and are modelled as naturals. \<open>exit(1)\<close> is \<open>None\<close>; memory that
  \<open>realloc\<close> adds is uninitialised and is a parameter.
\<close>

record 'c heap_chunk =
  seq :: sequence_t
  payload :: 'c

definition key :: "'c heap_chunk option \<Rightarrow> 32 word" where
  "key e = (case e of Some x \<Rightarrow> l2num (seq x) | None \<Rightarrow> 0)"

record 'c heap =
  Capacity :: nat
  Size :: nat
  Elements :: "'c heap_chunk option list"

definition Initialize :: "'c heap_chunk option list option \<Rightarrow> int \<Rightarrow> 'c heap option" where
  "Initialize mem InitCapacity =
     (if InitCapacity < 16 then None
      else case mem of
             None \<Rightarrow> None
           | Some els \<Rightarrow> Some \<lparr>Capacity = nat InitCapacity, Size = 0, Elements = els[0 := None]\<rparr>)"

definition MakeEmpty :: "'c heap \<Rightarrow> 'c heap" where
  "MakeEmpty H = H\<lparr>Size := 0\<rparr>"

definition IsEmpty :: "'c heap \<Rightarrow> bool" where
  "IsEmpty H \<longleftrightarrow> Size H = 0"

definition IsFull :: "'c heap \<Rightarrow> bool" where
  "IsFull H \<longleftrightarrow> Size H = Capacity H"

definition NumberElements :: "'c heap \<Rightarrow> nat" where
  "NumberElements H = Size H"

text \<open>
  The loop of \<open>Insert\<close>: it moves the parent down while it is larger. Position 0, the sentinel, has no
  parent and ends it.
\<close>

function percolate_up :: "'c heap_chunk option list \<Rightarrow> nat \<Rightarrow> 'c heap_chunk \<Rightarrow> 'c heap_chunk option list" where
  "percolate_up els i X =
     (if 0 < i \<and> els ! (i div 2) \<noteq> None \<and> key (els ! (i div 2)) > l2num (seq X)
      then percolate_up (els[i := els ! (i div 2)]) (i div 2) X
      else els[i := Some X])"
  by auto
termination by (relation "measure (\<lambda>(els, i, X). i)") auto

declare percolate_up.simps [simp del]

definition Insert :: "'c heap_chunk option list option \<Rightarrow> 'c heap_chunk \<Rightarrow> 'c heap \<Rightarrow> 'c heap option" where
  "Insert mem X H =
     (case (if IsFull H
            then (case mem of
                    None \<Rightarrow> None
                  | Some extra \<Rightarrow>
                      Some (H\<lparr>Capacity := 2 * Capacity H, Elements := Elements H @ extra\<rparr>))
            else Some H) of
        None \<Rightarrow> None
      | Some H1 \<Rightarrow>
          if Size H1 = 0 then Some (H1\<lparr>Elements := (Elements H1)[1 := Some X], Size := 1\<rparr>)
          else Some (H1\<lparr>Size := Size H1 + 1,
                        Elements := percolate_up (Elements H1) (Size H1 + 1) X\<rparr>))"

text \<open>The loop of \<open>DeleteMin\<close>: \<open>n\<close> is the new size, \<open>L\<close> the last element, which sinks from \<open>i\<close>.\<close>

definition smaller_child :: "'c heap_chunk option list \<Rightarrow> nat \<Rightarrow> nat \<Rightarrow> nat" where
  "smaller_child els n i =
     (if 2 * i \<noteq> n \<and> key (els ! (2 * i + 1)) < key (els ! (2 * i)) then 2 * i + 1 else 2 * i)"

function percolate_down ::
  "'c heap_chunk option list \<Rightarrow> nat \<Rightarrow> nat \<Rightarrow> 'c heap_chunk option \<Rightarrow> 'c heap_chunk option list" where
  "percolate_down els n i L =
     (if 0 < i \<and> 2 * i \<le> n \<and> key L > key (els ! smaller_child els n i)
      then percolate_down (els[i := els ! smaller_child els n i]) n (smaller_child els n i) L
      else els[i := L])"
  by auto
termination
  by (relation "measure (\<lambda>(els, n, i, L). Suc n - i)") (auto simp: smaller_child_def)

declare percolate_down.simps [simp del]

definition DeleteMin :: "'c heap \<Rightarrow> ('c heap_chunk option \<times> 'c heap) option" where
  "DeleteMin H =
     (if IsEmpty H then None
      else let MinElement = Elements H ! 1; LastElement = Elements H ! Size H; n = Size H - 1
           in Some (MinElement,
                H\<lparr>Size := n, Elements := percolate_down (Elements H) n 1 LastElement\<rparr>))"

definition FindMin :: "'c heap \<Rightarrow> 'c heap_chunk option" where
  "FindMin H = (if \<not> IsEmpty H then Elements H ! 1 else None)"

subsection \<open>The heap invariant\<close>

definition heap_on :: "'c heap_chunk option list \<Rightarrow> nat \<Rightarrow> bool" where
  "heap_on els n \<longleftrightarrow> (\<forall>j. 2 \<le> j \<and> j \<le> n \<longrightarrow> key (els ! (j div 2)) \<le> key (els ! j))"

definition heap_wf :: "'c heap \<Rightarrow> bool" where
  "heap_wf H \<longleftrightarrow>
     length (Elements H) = Capacity H + 1 \<and> 0 < Capacity H \<and> Size H \<le> Capacity H \<and>
     Elements H ! 0 = None \<and> (\<forall>i. 1 \<le> i \<and> i \<le> Size H \<longrightarrow> Elements H ! i \<noteq> None) \<and>
     heap_on (Elements H) (Size H)"

definition window :: "'c heap_chunk option list \<Rightarrow> nat \<Rightarrow> 'c heap_chunk option list" where
  "window els n = take n (drop 1 els)"

definition heap_chunks :: "'c heap \<Rightarrow> 'c heap_chunk multiset" where
  "heap_chunks H = mset (map the (window (Elements H) (Size H)))"

text \<open>
  Both loops keep a hole: the array with the moving element put into the hole is the array that is
  permuted. A step swaps the hole with its parent or child.
\<close>

lemma mset_fill_swap:
  assumes "i < length els" and "p < length els"
  shows "mset ((els[i := els ! p])[p := x]) = mset (els[i := x])"
proof (cases "i = p")
  case True
  then show ?thesis by simp
next
  case False
  let ?b = "els[i := x]"
  have "(els[i := els ! p])[p := x] = ?b[i := ?b ! p, p := ?b ! i]"
    using False assms by (simp add: list_update_swap)
  also have "mset \<dots> = mset ?b" using assms by (intro mset_swap) auto
  finally show ?thesis .
qed

lemma fill_nth:
  "i < length els \<Longrightarrow> p < length els \<Longrightarrow>
   (els[i := els ! p])[p := x] ! j =
     (if j = p then x else if j = i then els ! p else els ! j)"
  by (simp add: nth_list_update)

lemma percolate_up_spec:
  assumes "1 \<le> i" "i \<le> n" "n < length els" "els ! 0 = None"
    and "\<And>j. 1 \<le> j \<Longrightarrow> j \<le> n \<Longrightarrow> els[i := Some X] ! j \<noteq> None"
    and "\<And>j. 2 \<le> j \<Longrightarrow> j \<le> n \<Longrightarrow> j \<noteq> i \<Longrightarrow>
           key (els[i := Some X] ! (j div 2)) \<le> key (els[i := Some X] ! j)"
    and "\<And>j. 2 \<le> i \<Longrightarrow> j \<le> n \<Longrightarrow> j div 2 = i \<Longrightarrow> key (els ! (i div 2)) \<le> key (els ! j)"
  shows "heap_on (percolate_up els i X) n \<and> mset (percolate_up els i X) = mset (els[i := Some X]) \<and>
         percolate_up els i X ! 0 = None \<and> drop (Suc n) (percolate_up els i X) = drop (Suc n) els \<and>
         (\<forall>j. 1 \<le> j \<and> j \<le> n \<longrightarrow> percolate_up els i X ! j \<noteq> None)"
  using assms
proof (induction els i X rule: percolate_up.induct)
  case (1 els i X)
  let ?p = "i div 2"
  note prems = "1.prems"
  show ?case
  proof (cases "els ! ?p \<noteq> None \<and> key (els ! ?p) > l2num (seq X)")
    case False
    have up: "percolate_up els i X = els[i := Some X]"
      using False by (subst percolate_up.simps) auto
    have "key (els[i := Some X] ! ?p) \<le> key (els[i := Some X] ! i)" if "2 \<le> i"
    proof -
      have "?p \<noteq> i" "1 \<le> ?p" "?p \<le> n" using that prems(2) by auto
      with prems(5) [of ?p] False prems(2,3) show ?thesis by (auto simp: key_def)
    qed
    with prems(6) have "heap_on (els[i := Some X]) n"
      unfolding heap_on_def by (metis)
    with up prems(1-5) show ?thesis by (auto simp: nth_list_update)
  next
    case True
    have p0: "?p \<noteq> 0" using True prems(4) by metis
    then have p: "1 \<le> ?p" "?p < i" "?p < length els" "i < length els" "?p \<noteq> i"
      using prems(1-3) by auto
    let ?els = "els[i := els ! ?p]"
    have nth: "?els[?p := Some X] ! j = (if j = ?p then Some X else if j = i then els ! ?p else els ! j)"
      for j using p by (simp add: fill_nth)
    have up: "percolate_up els i X = percolate_up ?els ?p X"
      using True prems(1) by (subst percolate_up.simps) simp
    have some: "?els[?p := Some X] ! j \<noteq> None" if "1 \<le> j" "j \<le> n" for j
      using prems(5) [of j] that True p by (auto simp: nth nth_list_update split: if_splits)
    have up_le: "key (els ! ?p) \<le> key (els ! j)" if "j \<le> n" "j div 2 = i" for j
      using prems(7) [of j] that p by auto
    have old: "key (els ! (j div 2)) \<le> key (els ! j)"
      if "2 \<le> j" "j \<le> n" "j \<noteq> i" "j div 2 \<noteq> i" for j
      using prems(6) [OF that(1-3)] that by (simp add: nth_list_update)
    have kx: "key (Some X) \<le> key (els ! ?p)" using True by (simp add: key_def less_imp_le)
    have pairs: "key (?els[?p := Some X] ! (j div 2)) \<le> key (?els[?p := Some X] ! j)"
      if j: "2 \<le> j" "j \<le> n" "j \<noteq> ?p" for j
    proof (cases "j = i")
      case True
      with kx p show ?thesis by (simp add: nth)
    next
      case ji: False
      consider "j div 2 = i" | "j div 2 = ?p" "j div 2 \<noteq> i" | "j div 2 \<noteq> i" "j div 2 \<noteq> ?p" by blast
      then show ?thesis
      proof cases
        case 1
        with up_le [of j] j ji p show ?thesis by (simp add: nth)
      next
        case 2
        have "key (els ! ?p) \<le> key (els ! j)" using old [of j] j ji 2 by simp
        with kx have "key (Some X) \<le> key (els ! j)" by (rule order_trans)
        then show ?thesis using 2 j ji by (simp add: nth)
      next
        case 3
        with old [of j] j ji show ?thesis by (simp add: nth)
      qed
    qed
    have skip: "key (?els ! (?p div 2)) \<le> key (?els ! j)"
      if "2 \<le> ?p" "j \<le> n" "j div 2 = ?p" for j
    proof -
      have "?p div 2 \<noteq> i" "?p \<noteq> i" using p by auto
      have "key (els ! (?p div 2)) \<le> key (els ! ?p)"
        using old [of ?p] that p prems(2) by auto
      moreover have "j \<noteq> i \<longrightarrow> key (els ! ?p) \<le> key (els ! j)"
        using old [of j] that p by auto
      ultimately show ?thesis using \<open>?p div 2 \<noteq> i\<close> p by (auto simp: nth_list_update)
    qed
    have "heap_on (percolate_up ?els ?p X) n \<and>
        mset (percolate_up ?els ?p X) = mset (?els[?p := Some X]) \<and>
        percolate_up ?els ?p X ! 0 = None \<and> drop (Suc n) (percolate_up ?els ?p X) = drop (Suc n) ?els \<and>
        (\<forall>j. 1 \<le> j \<and> j \<le> n \<longrightarrow> percolate_up ?els ?p X ! j \<noteq> None)"
      by (rule "1.IH") (use True prems p some pairs skip in auto)
    then show ?thesis
      using up mset_fill_swap [of i els ?p "Some X"] p prems(2) by simp
  qed
qed

text \<open>For \<open>DeleteMin\<close> the hole starts at the root and follows the smaller child.\<close>

lemma smaller_child_props:
  assumes "0 < i" "2 * i \<le> n"
  shows "smaller_child els n i div 2 = i \<and> smaller_child els n i \<le> n \<and> i < smaller_child els n i \<and>
         (\<forall>j. j \<le> n \<longrightarrow> j div 2 = i \<longrightarrow> key (els ! smaller_child els n i) \<le> key (els ! j))"
proof -
  have "j = 2 * i \<or> j = 2 * i + 1" if "j div 2 = i" for j :: nat
    using that by auto
  then have "j \<le> n \<Longrightarrow> j div 2 = i \<Longrightarrow> key (els ! smaller_child els n i) \<le> key (els ! j)" for j
    using assms by (force simp: smaller_child_def not_less)
  with assms show ?thesis by (auto simp: smaller_child_def)
qed

lemma percolate_down_spec:
  assumes "1 \<le> i" "i \<le> n \<or> i = 1" "n < length els" "i < length els" "els ! 0 = None"
    and "\<And>j. 1 \<le> j \<Longrightarrow> j \<le> n \<Longrightarrow> els[i := L] ! j \<noteq> None"
    and "\<And>j. 2 \<le> j \<Longrightarrow> j \<le> n \<Longrightarrow> j div 2 \<noteq> i \<Longrightarrow>
           key (els[i := L] ! (j div 2)) \<le> key (els[i := L] ! j)"
    and "\<And>j. 2 \<le> i \<Longrightarrow> j \<le> n \<Longrightarrow> j div 2 = i \<Longrightarrow> key (els ! (i div 2)) \<le> key (els ! j)"
  shows "heap_on (percolate_down els n i L) n \<and>
         mset (percolate_down els n i L) = mset (els[i := L]) \<and>
         percolate_down els n i L ! 0 = None \<and>
         (\<forall>j > n. j \<noteq> i \<longrightarrow> percolate_down els n i L ! j = els ! j) \<and>
         (\<forall>j. 1 \<le> j \<and> j \<le> n \<longrightarrow> percolate_down els n i L ! j \<noteq> None)"
  using assms
proof (induction els n i L rule: percolate_down.induct)
  case (1 els n i L)
  let ?c = "smaller_child els n i"
  note prems = "1.prems"
  show ?case
  proof (cases "2 * i \<le> n \<and> key L > key (els ! ?c)")
    case False
    have down: "percolate_down els n i L = els[i := L]"
      using False by (subst percolate_down.simps) auto
    have "key (els[i := L] ! i) \<le> key (els[i := L] ! j)" if "2 \<le> j" "j \<le> n" "j div 2 = i" for j
    proof -
      have "2 * i \<le> n" "j \<noteq> i" using that by auto
      have "key L \<le> key (els ! ?c)" using False \<open>2 * i \<le> n\<close> by (simp add: not_less)
      also have "\<dots> \<le> key (els ! j)"
        using smaller_child_props [of i n els] prems(1) \<open>2 * i \<le> n\<close> that by auto
      finally have "key L \<le> key (els ! j)" .
      with \<open>j \<noteq> i\<close> prems(4) show ?thesis by simp
    qed
    with prems(7) have "heap_on (els[i := L]) n"
      unfolding heap_on_def by metis
    with down prems(1,5,6) show ?thesis by (auto simp: nth_list_update)
  next
    case True
    from smaller_child_props [of i n els] True prems(1)
    have c: "?c div 2 = i" "?c \<le> n" "i < ?c"
      and least: "\<And>j. j \<le> n \<Longrightarrow> j div 2 = i \<Longrightarrow> key (els ! ?c) \<le> key (els ! j)" by auto
    let ?els = "els[i := els ! ?c]"
    have nth: "?els[?c := L] ! j = (if j = ?c then L else if j = i then els ! ?c else els ! j)"
      for j using c prems(3,4) by (simp add: fill_nth)
    have down: "percolate_down els n i L = percolate_down ?els n ?c L"
      using True prems(1) by (subst percolate_down.simps) simp
    have "L \<noteq> None" using prems(6) [of i] prems(1,4) c by simp
    moreover have "els ! j \<noteq> None" if "1 \<le> j" "j \<le> n" "j \<noteq> i" for j
      using prems(6) [of j] that by simp
    ultimately have some: "?els[?c := L] ! j \<noteq> None" if "1 \<le> j" "j \<le> n" for j
      using that c prems(1) by (simp add: nth)
    have old: "key (els ! (j div 2)) \<le> key (els ! j)"
      if "2 \<le> j" "j \<le> n" "j \<noteq> i" "j div 2 \<noteq> i" for j
      using prems(7) [OF that(1,2,4)] that by (simp add: nth_list_update)
    have pairs: "key (?els[?c := L] ! (j div 2)) \<le> key (?els[?c := L] ! j)"
      if j: "2 \<le> j" "j \<le> n" "j div 2 \<noteq> ?c" for j
    proof -
      consider "j = ?c" | "j = i" | "j \<noteq> ?c" "j \<noteq> i" "j div 2 = i" | "j \<noteq> ?c" "j \<noteq> i" "j div 2 \<noteq> i"
        by blast
      then show ?thesis
      proof cases
        case 1
        with True c show ?thesis by (simp add: nth less_imp_le)
      next
        case 2
        with prems(8) [OF _ c(2,1)] j c show ?thesis by (simp add: nth)
      next
        case 3
        with least [of j] j c show ?thesis by (simp add: nth)
      next
        case 4
        with old [of j] j show ?thesis by (simp add: nth)
      qed
    qed
    have skip: "key (?els ! (?c div 2)) \<le> key (?els ! j)"
      if "j \<le> n" "j div 2 = ?c" for j
    proof -
      have "j \<noteq> i" "?c \<noteq> i" using that c by auto
      moreover have "key (els ! ?c) \<le> key (els ! j)"
        using old [of j] that c calculation by auto
      ultimately show ?thesis using c prems(4) by (simp add: nth_list_update)
    qed
    have "heap_on (percolate_down ?els n ?c L) n \<and>
        mset (percolate_down ?els n ?c L) = mset (?els[?c := L]) \<and>
        percolate_down ?els n ?c L ! 0 = None \<and>
        (\<forall>j > n. j \<noteq> ?c \<longrightarrow> percolate_down ?els n ?c L ! j = ?els ! j) \<and>
        (\<forall>j. 1 \<le> j \<and> j \<le> n \<longrightarrow> percolate_down ?els n ?c L ! j \<noteq> None)"
      by (rule "1.IH") (use True prems c some pairs skip in auto)
    then show ?thesis
      using down mset_fill_swap [of i els ?c L] c prems(3,4) by auto
  qed
qed

subsection \<open>The operations\<close>

lemma window_split:
  "n < length els \<Longrightarrow> mset els = add_mset (els ! 0) (mset (window els n) + mset (drop (Suc n) els))"
  by (cases els) (simp_all add: window_def flip: mset_append)

lemma window_mset:
  assumes "mset els = mset els'" "n < length els" "els ! 0 = els' ! 0"
    and "drop (Suc n) els = drop (Suc n) els'"
  shows "mset (window els n) = mset (window els' n)"
proof -
  have "n < length els'" using assms(1,2) by (metis mset_eq_length)
  have "mset els' = add_mset (els ! 0) (mset (window els n) + mset (drop (Suc n) els))"
    unfolding assms(1) [symmetric] by (rule window_split [OF assms(2)])
  moreover have "mset els' = add_mset (els ! 0) (mset (window els' n) + mset (drop (Suc n) els))"
    unfolding assms(3,4) by (rule window_split [OF \<open>n < length els'\<close>])
  ultimately show ?thesis by simp
qed

lemma window_Suc:
  "Suc n < length els \<Longrightarrow> window els (Suc n) = window els n @ [els ! Suc n]"
  by (simp add: window_def take_Suc_conv_app_nth)

lemma window_update: "n < i \<Longrightarrow> window (els[i := x]) n = window els n"
  by (cases i) (simp_all add: window_def drop_update_swap take_update_cancel)

lemma window_update1:
  "Suc n < length els \<Longrightarrow> window (els[1 := x]) (Suc n) = x # tl (window els (Suc n))"
  by (cases els; cases "tl els") (auto simp: window_def)

lemma heap_root_least:
  assumes "heap_on els n" and "1 \<le> j" "j \<le> n"
  shows "key (els ! 1) \<le> key (els ! j)"
  using assms(2,3)
proof (induction j rule: less_induct)
  case (less j)
  show ?case
  proof (cases "j = 1")
    case False
    with less.prems have "1 \<le> j div 2" "j div 2 \<le> n" "j div 2 < j" "2 \<le> j" by auto
    with less.IH [of "j div 2"] assms(1) less.prems show ?thesis
      unfolding heap_on_def by (meson order_trans)
  qed simp
qed

lemma Insert_spec:
  assumes "heap_wf H" and "IsFull H \<Longrightarrow> mem = Some extra \<and> length extra = Capacity H"
  shows "\<exists>H'. Insert mem X H = Some H' \<and> heap_wf H' \<and> heap_chunks H' = add_mset X (heap_chunks H) \<and>
           Capacity H' = (if IsFull H then 2 * Capacity H else Capacity H)"
proof -
  define H1 where "H1 = (if IsFull H
    then H\<lparr>Capacity := 2 * Capacity H, Elements := Elements H @ extra\<rparr> else H)"
  from assms(1) have wf: "length (Elements H) = Capacity H + 1" "0 < Capacity H" "Size H \<le> Capacity H"
    "Elements H ! 0 = None" "\<And>i. 1 \<le> i \<Longrightarrow> i \<le> Size H \<Longrightarrow> Elements H ! i \<noteq> None"
    "heap_on (Elements H) (Size H)" by (auto simp: heap_wf_def)
  let ?n = "Size H" and ?els = "Elements H1"
  have same: "?els ! j = Elements H ! j" if "j \<le> ?n" for j
    using that wf(1,3) by (simp add: H1_def nth_append)
  have "heap_on ?els ?n" using wf(6) same unfolding heap_on_def by auto
  have n: "Size H1 = ?n" "Capacity H1 = (if IsFull H then 2 * Capacity H else Capacity H)"
    "length ?els = Capacity H1 + 1" "?n < Capacity H1"
    using wf(1-3) assms(2) by (auto simp: H1_def IsFull_def)
  have win: "window ?els ?n = window (Elements H) ?n"
    using wf(1,3) by (simp add: H1_def window_def)
  let ?H' = "if ?n = 0 then H1\<lparr>Elements := ?els[1 := Some X], Size := 1\<rparr>
             else H1\<lparr>Size := ?n + 1, Elements := percolate_up ?els (?n + 1) X\<rparr>"
  have eq: "Insert mem X H = Some ?H'"
    using assms(2) n(1) by (auto simp: Insert_def H1_def)
  have "heap_wf ?H' \<and> heap_chunks ?H' = add_mset X (heap_chunks H)"
  proof (cases "?n = 0")
    case True
    with n same [of 0] wf(4) have "heap_wf ?H'"
      by (auto simp: heap_wf_def heap_on_def nth_list_update)
    moreover have "window (?els[1 := Some X]) (Suc 0) = [Some X]"
      using n by (simp add: window_def take_Suc_conv_app_nth)
    ultimately show ?thesis using True by (simp add: heap_chunks_def window_def)
  next
    case False
    have up: "heap_on (percolate_up ?els (?n + 1) X) (?n + 1) \<and>
         mset (percolate_up ?els (?n + 1) X) = mset (?els[?n + 1 := Some X]) \<and>
         percolate_up ?els (?n + 1) X ! 0 = None \<and>
         drop (Suc (?n + 1)) (percolate_up ?els (?n + 1) X) = drop (Suc (?n + 1)) ?els \<and>
         (\<forall>j. 1 \<le> j \<and> j \<le> ?n + 1 \<longrightarrow> percolate_up ?els (?n + 1) X ! j \<noteq> None)"
      using n wf(4,5) same \<open>heap_on ?els ?n\<close>
      by (intro percolate_up_spec) (auto simp: nth_list_update heap_on_def)
    then have len: "length (percolate_up ?els (?n + 1) X) = length ?els"
      by (metis length_list_update mset_eq_length)
    have "mset (window (percolate_up ?els (?n + 1) X) (?n + 1)) =
          mset (window (?els[?n + 1 := Some X]) (?n + 1))"
      using up len n same [of 0] wf(4) by (intro window_mset) auto
    also have "\<dots> = add_mset (Some X) (mset (window (Elements H) ?n))"
      using n win window_Suc [of ?n "?els[?n + 1 := Some X]"] by (simp add: window_update)
    finally show ?thesis
      using False up len n by (simp add: heap_wf_def heap_chunks_def)
  qed
  with eq n(2) show ?thesis by (auto simp del: One_nat_def)
qed

lemma DeleteMin_spec:
  assumes "heap_wf H" and "Size H \<noteq> 0"
  shows "\<exists>x H'. DeleteMin H = Some (Some x, H') \<and> heap_wf H' \<and>
           heap_chunks H = add_mset x (heap_chunks H') \<and>
           (\<forall>y \<in># heap_chunks H. l2num (seq x) \<le> l2num (seq y))"
proof -
  let ?els = "Elements H" and ?n = "Size H" and ?m = "Size H - 1"
  from assms have wf: "length ?els = Capacity H + 1" "?n \<le> Capacity H" "?els ! 0 = None"
    "\<And>i. 1 \<le> i \<Longrightarrow> i \<le> ?n \<Longrightarrow> ?els ! i \<noteq> None" "heap_on ?els ?n" "0 < Capacity H"
    by (auto simp: heap_wf_def)
  have n: "?n = Suc ?m" "?n < length ?els" using assms(2) wf by auto
  let ?L = "?els ! ?n" and ?e' = "percolate_down ?els ?m 1 (?els ! ?n)"
  from wf(4) [of 1] assms(2) obtain x where x: "?els ! 1 = Some x" by auto
  have down: "heap_on ?e' ?m \<and> mset ?e' = mset (?els[1 := ?L]) \<and> ?e' ! 0 = None \<and>
       (\<forall>j > ?m. j \<noteq> 1 \<longrightarrow> ?e' ! j = ?els ! j) \<and> (\<forall>j. 1 \<le> j \<and> j \<le> ?m \<longrightarrow> ?e' ! j \<noteq> None)"
    by (rule percolate_down_spec) (use n wf in \<open>auto simp: nth_list_update heap_on_def\<close>)
  then have len: "length ?e' = length ?els" by (metis length_list_update mset_eq_length)
  let ?H' = "H\<lparr>Size := ?m, Elements := ?e'\<rparr>"
  have "DeleteMin H = Some (Some x, ?H')"
    using assms(2) x by (simp add: DeleteMin_def IsEmpty_def Let_def)
  moreover have "heap_wf ?H'" using down len wf n by (auto simp: heap_wf_def)
  moreover have "mset (window ?els ?n) = add_mset (Some x) (mset (window ?e' ?m))"
  proof (cases ?m)
    case 0
    then have "?n = Suc 0" using n by simp
    then show ?thesis using n x by (simp add: window_def take_Suc_conv_app_nth)
  next
    case (Suc k)
    have "mset (window ?e' ?m) = mset (window (?els[1 := ?L]) ?m)"
    proof (rule window_mset)
      show "drop (Suc ?m) ?e' = drop (Suc ?m) (?els[1 := ?L])"
        using down len Suc n by (intro nth_equalityI) (auto simp: nth_list_update)
    qed (use down len n wf in auto)
    also have "\<dots> = add_mset ?L (mset (tl (window ?els ?m)))"
      using window_update1 [of k ?els ?L] Suc n by simp
    finally have m: "mset (window ?e' ?m) = add_mset ?L (mset (tl (window ?els ?m)))" .
    have "window ?els ?n = window ?els ?m @ [?L]" using window_Suc [of ?m ?els] n by simp
    moreover have "window ?els ?m = Some x # tl (window ?els ?m)"
      using x Suc n by (cases ?els; cases "tl ?els") (auto simp: window_def)
    ultimately have "mset (window ?els ?n) = mset ((Some x # tl (window ?els ?m)) @ [?L])" by metis
    with m show ?thesis by simp
  qed
  then have "heap_chunks H = add_mset x (heap_chunks ?H')"
    by (simp add: heap_chunks_def)
  moreover have "\<forall>y \<in># heap_chunks H. l2num (seq x) \<le> l2num (seq y)"
  proof
    fix y assume "y \<in># heap_chunks H"
    then obtain j where j: "j < ?n" "y = the (?els ! Suc j)"
      using n by (auto simp: heap_chunks_def window_def in_set_conv_nth)
    then have "key (?els ! 1) \<le> key (?els ! Suc j)"
      using heap_root_least [OF wf(5), of "Suc j"] by simp
    with j x wf(4) [of "Suc j"] show "l2num (seq x) \<le> l2num (seq y)" by (auto simp: key_def)
  qed
  ultimately show ?thesis by blast
qed

subsection \<open>The heap as a priority queue\<close>

definition heap_ins :: "'c heap_chunk \<Rightarrow> 'c heap \<Rightarrow> 'c heap" where
  "heap_ins X H = the (Insert (Some (replicate (Capacity H) None)) X H)"

definition heap_del :: "'c heap \<Rightarrow> 'c heap_chunk \<times> 'c heap" where
  "heap_del H = (the (fst (the (DeleteMin H))), snd (the (DeleteMin H)))"

definition l2_le :: "'c heap_chunk \<Rightarrow> 'c heap_chunk \<Rightarrow> bool" where
  "l2_le x y \<longleftrightarrow> l2num (seq x) \<le> l2num (seq y)"

lemma size_heap_chunks: "heap_wf H \<Longrightarrow> size (heap_chunks H) = Size H"
  by (simp add: heap_wf_def heap_chunks_def window_def)

interpretation binheap: priority_queue heap_wf heap_chunks l2_le heap_ins heap_del
proof
  fix x and H :: "'a heap"
  assume "heap_wf H"
  from Insert_spec [OF this, of "Some (replicate (Capacity H) None)" "replicate (Capacity H) None" x]
  show "heap_wf (heap_ins x H) \<and> heap_chunks (heap_ins x H) = add_mset x (heap_chunks H)"
    by (auto simp: heap_ins_def)
next
  fix H :: "'a heap"
  assume wf: "heap_wf H" and "heap_chunks H \<noteq> {#}"
  then have "Size H \<noteq> 0" by (auto simp: heap_chunks_def window_def)
  from DeleteMin_spec [OF wf this]
  show "heap_wf (snd (heap_del H)) \<and>
        heap_chunks H = add_mset (fst (heap_del H)) (heap_chunks (snd (heap_del H))) \<and>
        (\<forall>y \<in># heap_chunks H. l2_le (fst (heap_del H)) y)"
    by (auto simp: heap_del_def l2_le_def)
qed (auto simp: l2_le_def)

subsection \<open>Properties\<close>

text \<open>\<open>Insert\<close>: from a well-formed heap, given the memory it asks for when it is full, it returns a
  well-formed heap that holds one chunk more, doubling the capacity exactly when the heap was full;
  it exits only when \<open>realloc\<close> fails.\<close>

theorem dedup_heap_insert:
  assumes "heap_wf H" and "mem = Some extra" and "length extra = Capacity H"
  shows "\<exists>H'. Insert mem X H = Some H' \<and> heap_wf H' \<and> heap_chunks H' = add_mset X (heap_chunks H) \<and>
           NumberElements H' = NumberElements H + 1 \<and>
           Capacity H' = (if IsFull H then 2 * Capacity H else Capacity H)"
proof -
  from Insert_spec [OF assms(1), of mem extra X] assms(2,3) obtain H' where
    H': "Insert mem X H = Some H'" "heap_wf H'" "heap_chunks H' = add_mset X (heap_chunks H)"
      "Capacity H' = (if IsFull H then 2 * Capacity H else Capacity H)" by auto
  with size_heap_chunks [OF assms(1)] size_heap_chunks [OF H'(2)] show ?thesis
    by (auto simp: NumberElements_def)
qed

definition heap_sample :: "nat heap" where
  "heap_sample = \<lparr>Capacity = 1, Size = 1,
     Elements = [None, Some \<lparr>seq = Sequence 0 4, payload = 40\<rparr>]\<rparr>"

lemma heap_sample_wf: "heap_wf heap_sample"
  by (auto simp: heap_wf_def heap_sample_def heap_on_def numeral_2_eq_2 le_Suc_eq)

theorem dedup_heap_insert_witness:
  "\<exists>H'. Insert (Some [None]) \<lparr>seq = Sequence 0 2, payload = 20\<rparr> heap_sample = Some H' \<and>
        Capacity H' = 2 \<and> NumberElements H' = 2"
  using dedup_heap_insert [OF heap_sample_wf, of "Some [None]" "[None]" "\<lparr>seq = Sequence 0 2, payload = 20\<rparr>"]
  by (auto simp: heap_sample_def IsFull_def NumberElements_def)

text \<open>C24. Reordering: chunks inserted in any order into an empty heap and taken out again with
  \<open>DeleteMin\<close> come out complete and sorted by their second-level sequence number.\<close>

theorem dedup_heap_sorts:
  assumes "heap_wf H" and "Size H = 0"
  shows "mset (drain heap_del (length xs) (fold heap_ins xs H)) = mset xs \<and>
         sorted (map (\<lambda>x. l2num (seq x)) (drain heap_del (length xs) (fold heap_ins xs H)))"
proof -
  from assms(2) have "heap_chunks H = {#}" by (simp add: heap_chunks_def window_def)
  from binheap.insert_drain [OF assms(1) this, of xs] show ?thesis
    by (simp add: sorted_map l2_le_def [abs_def])
qed

theorem dedup_heap_sorts_witness:
  "size (mset (drain heap_del 2 (fold heap_ins
     [\<lparr>seq = Sequence 0 4, payload = 40\<rparr>, \<lparr>seq = Sequence 0 2, payload = 20\<rparr>] (MakeEmpty heap_sample)))) = 2"
proof -
  have "heap_wf (MakeEmpty heap_sample)" "Size (MakeEmpty heap_sample) = 0"
    by (simp_all add: MakeEmpty_def heap_wf_def heap_sample_def heap_on_def)
  from dedup_heap_sorts [OF this, of
      "[\<lparr>seq = Sequence 0 4, payload = 40\<rparr>, \<lparr>seq = Sequence 0 2, payload = 20\<rparr>]"]
  show ?thesis by (simp add: numeral_2_eq_2)
qed

end
