(* ===== verification/Dedup_Tree.thy ===== *)
theory Dedup_Tree
  imports Gcl_Prelude
begin

text \<open>
  \<open>samples/dedup/tree.c\<close>: the binary search tree that the reorder stage keeps its heaps in, ordered by
  the first-level sequence number.

  A pointer to a node is the tree it heads, \<open>Null\<close> is \<open>NULL\<close>. The global \<open>pmin\<close>, a cache of the
  position of the minimum, is an argument and a result of the operations that use it. Nothing in the
  program ever stores a node in it.
\<close>

record 'q tree_element =
  elem_l1num :: "32 word"
  elem_queue :: 'q

datatype 'q search_tree = Null | TreeNode "'q search_tree" "'q tree_element" "'q search_tree"

fun TreeMakeEmpty :: "'q search_tree \<Rightarrow> 'q search_tree \<Rightarrow> 'q search_tree \<times> 'q search_tree" where
  "TreeMakeEmpty pmin Null = (Null, pmin)"
| "TreeMakeEmpty pmin (TreeNode l x r) =
     (case TreeMakeEmpty pmin l of (_, p1) \<Rightarrow>
        (case TreeMakeEmpty p1 r of (_, p2) \<Rightarrow> (Null, Null)))"

text \<open>The \<open>int\<close> argument is converted to the unsigned type of \<open>l1num\<close> before it is compared.\<close>

fun TreeFind :: "int \<Rightarrow> 'q search_tree \<Rightarrow> 'q search_tree" where
  "TreeFind value Null = Null"
| "TreeFind value (TreeNode l x r) =
     (if word_of_int value < elem_l1num x then TreeFind value l
      else if word_of_int value > elem_l1num x then TreeFind value r
      else TreeNode l x r)"

fun TreeFindMin :: "'q search_tree \<Rightarrow> 'q search_tree \<Rightarrow> 'q search_tree" where
  "TreeFindMin pmin T =
     (if pmin \<noteq> Null then pmin
      else case T of
             Null \<Rightarrow> Null
           | TreeNode l x r \<Rightarrow> if l = Null then T else TreeFindMin pmin l)"

declare TreeFindMin.simps [simp del]

fun TreeFindMax :: "'q search_tree \<Rightarrow> 'q search_tree" where
  "TreeFindMax Null = Null"
| "TreeFindMax (TreeNode l x r) = (if r \<noteq> Null then TreeFindMax r else TreeNode l x r)"

fun cached_key :: "'q search_tree \<Rightarrow> 32 word option" where
  "cached_key Null = None"
| "cached_key (TreeNode l x r) = Some (elem_l1num x)"

text \<open>\<open>mem\<close> says whether \<open>malloc\<close> returns a node.\<close>

fun TreeInsert ::
  "bool \<Rightarrow> 'q tree_element \<Rightarrow> 'q search_tree \<Rightarrow> 'q search_tree \<Rightarrow> 'q search_tree \<times> 'q search_tree" where
  "TreeInsert mem X pmin Null =
     (if mem then TreeNode Null X Null else Null,
      if (\<exists>k. cached_key pmin = Some k \<and> elem_l1num X < k) then Null else pmin)"
| "TreeInsert mem X pmin (TreeNode l x r) =
     (let pmin1 = if (\<exists>k. cached_key pmin = Some k \<and> elem_l1num X < k) then Null else pmin
      in if elem_l1num X < elem_l1num x
         then (case TreeInsert mem X pmin1 l of (l', p) \<Rightarrow> (TreeNode l' x r, p))
         else if elem_l1num X > elem_l1num x
         then (case TreeInsert mem X pmin1 r of (r', p) \<Rightarrow> (TreeNode l x r', p))
         else (TreeNode l x r, pmin1))"

text \<open>\<open>TmpCell->Element\<close>; the pointer is not null where it is used.\<close>

fun Retrieve :: "'q search_tree \<Rightarrow> 'q tree_element option" where
  "Retrieve Null = None"
| "Retrieve (TreeNode l x r) = Some x"

fun TreeDelete ::
  "'q tree_element \<Rightarrow> 'q search_tree \<Rightarrow> 'q search_tree \<Rightarrow> 'q search_tree \<times> 'q search_tree" where
  "TreeDelete X pmin Null =
     (Null, if cached_key pmin = Some (elem_l1num X) then Null else pmin)"
| "TreeDelete X pmin (TreeNode l x r) =
     (let pmin1 = if cached_key pmin = Some (elem_l1num X) then Null else pmin
      in if elem_l1num X < elem_l1num x
         then (case TreeDelete X pmin1 l of (l', p) \<Rightarrow> (TreeNode l' x r, p))
         else if elem_l1num X > elem_l1num x
         then (case TreeDelete X pmin1 r of (r', p) \<Rightarrow> (TreeNode l x r', p))
         else if l \<noteq> Null \<and> r \<noteq> Null
         then (case Retrieve (TreeFindMin pmin1 r) of
                 Some e \<Rightarrow> (case TreeDelete e pmin1 r of (r', p) \<Rightarrow> (TreeNode l e r', p))
               | None \<Rightarrow> (TreeNode l x r, pmin1))
         else if l = Null then (r, pmin1) else (l, pmin1))"

subsection \<open>The tree as a finite map\<close>

primrec tree_map :: "'q search_tree \<Rightarrow> 32 word \<rightharpoonup> 'q" where
  "tree_map Null = Map.empty"
| "tree_map (TreeNode l x r) = (tree_map l ++ tree_map r)(elem_l1num x \<mapsto> elem_queue x)"

primrec bst :: "'q search_tree \<Rightarrow> bool" where
  "bst Null = True"
| "bst (TreeNode l x r) \<longleftrightarrow>
     bst l \<and> bst r \<and> (\<forall>k \<in> dom (tree_map l). k < elem_l1num x) \<and>
     (\<forall>k \<in> dom (tree_map r). elem_l1num x < k)"

text \<open>The cache is never filled.\<close>

lemma TreeInsert_pmin: "snd (TreeInsert mem X Null T) = Null"
  by (induction T) (auto simp: Let_def case_prod_beta)

lemma TreeDelete_pmin: "snd (TreeDelete X Null T) = Null"
  by (induction T arbitrary: X) (auto simp: Let_def case_prod_beta split: option.split)

lemma bst_map_less:
  assumes "bst (TreeNode l x r)" and "k < elem_l1num x"
  shows "tree_map (TreeNode l x r) k = tree_map l k"
proof -
  have "k \<notin> dom (tree_map r)" using assms by (auto simp del: domIff dest!: bspec)
  with assms(2) show ?thesis by (auto simp: map_add_def domIff)
qed

lemma bst_map_greater:
  assumes "bst (TreeNode l x r)" and "elem_l1num x < k"
  shows "tree_map (TreeNode l x r) k = tree_map r k"
proof -
  have "k \<notin> dom (tree_map l)" using assms by (auto simp del: domIff dest!: bspec)
  with assms(2) show ?thesis by (auto simp: map_add_def domIff split: option.split)
qed

lemma dom_tree_map:
  "dom (tree_map (TreeNode l x r)) = insert (elem_l1num x) (dom (tree_map l) \<union> dom (tree_map r))"
  by auto

lemma TreeFind_map:
  "bst T \<Longrightarrow>
   (case TreeFind v T of
      Null \<Rightarrow> tree_map T (word_of_int v) = None
    | TreeNode l x r \<Rightarrow> elem_l1num x = word_of_int v \<and> tree_map T (word_of_int v) = Some (elem_queue x))"
proof (induction T)
  case (TreeNode l x r)
  then show ?case
    using bst_map_less [OF TreeNode.prems, of "word_of_int v"]
      bst_map_greater [OF TreeNode.prems, of "word_of_int v"]
    by (auto simp del: tree_map.simps split: search_tree.splits) (simp add: not_less_iff_gr_or_eq)
qed simp

text \<open>The leftmost node carries the least key.\<close>

lemma TreeFindMin_least:
  "bst T \<Longrightarrow> T \<noteq> Null \<Longrightarrow>
   \<exists>e. Retrieve (TreeFindMin Null T) = Some e \<and> tree_map T (elem_l1num e) = Some (elem_queue e) \<and>
       (\<forall>k \<in> dom (tree_map T). elem_l1num e \<le> k)"
proof (induction T)
  case (TreeNode l x r)
  show ?case
  proof (cases "l = Null")
    case True
    with TreeNode.prems show ?thesis
      by (auto simp: TreeFindMin.simps intro: less_imp_le split: if_splits)
  next
    case False
    with TreeNode obtain e where e: "Retrieve (TreeFindMin Null l) = Some e"
      "tree_map l (elem_l1num e) = Some (elem_queue e)" "\<forall>k \<in> dom (tree_map l). elem_l1num e \<le> k"
      by auto
    from e(2) TreeNode.prems(1) have less: "elem_l1num e < elem_l1num x"
      by (auto dest: bspec simp: domI [of "tree_map l"])
    have "elem_l1num e \<le> k" if "k \<in> dom (tree_map r)" for k
    proof -
      have "elem_l1num x < k" using that TreeNode.prems(1) by simp
      with less show ?thesis by (meson less_imp_le less_trans)
    qed
    with less e(3) have "\<forall>k \<in> dom (tree_map (TreeNode l x r)). elem_l1num e \<le> k"
      unfolding dom_tree_map by (auto simp del: domIff)
    moreover have "tree_map (TreeNode l x r) (elem_l1num e) = Some (elem_queue e)"
      using bst_map_less [OF TreeNode.prems(1) less] e(2) by (rule trans)
    moreover have "TreeFindMin Null (TreeNode l x r) = TreeFindMin Null l"
      using False by (subst TreeFindMin.simps) simp
    ultimately show ?thesis using e(1) by (metis (no_types))
  qed
qed simp

text \<open>In a search tree the comparisons decide where a key is found.\<close>

lemma tree_map_bst:
  assumes "bst (TreeNode l x r)"
  shows "tree_map (TreeNode l x r) =
           (\<lambda>k. if k < elem_l1num x then tree_map l k
                else if elem_l1num x < k then tree_map r k else Some (elem_queue x))"
proof
  fix k
  consider "k < elem_l1num x" | "k = elem_l1num x" | "elem_l1num x < k" by (meson linorder_neqE)
  then show "tree_map (TreeNode l x r) k =
    (if k < elem_l1num x then tree_map l k
     else if elem_l1num x < k then tree_map r k else Some (elem_queue x))"
    by cases (use bst_map_less [OF assms] bst_map_greater [OF assms] in \<open>auto simp: less_asym\<close>)
qed

lemma bst_replace_left:
  "bst (TreeNode l x r) \<Longrightarrow> bst l' \<Longrightarrow> dom (tree_map l') \<subseteq> insert k (dom (tree_map l)) \<Longrightarrow>
   k < elem_l1num x \<Longrightarrow> bst (TreeNode l' x r)"
  by (simp del: domIff) blast

lemma bst_replace_right:
  "bst (TreeNode l x r) \<Longrightarrow> bst r' \<Longrightarrow> dom (tree_map r') \<subseteq> insert k (dom (tree_map r)) \<Longrightarrow>
   elem_l1num x < k \<Longrightarrow> bst (TreeNode l x r')"
  by (simp del: domIff) blast

lemma TreeInsert_spec:
  "bst T \<Longrightarrow>
   bst (fst (TreeInsert True X Null T)) \<and>
   tree_map (fst (TreeInsert True X Null T)) =
     (if elem_l1num X \<in> dom (tree_map T) then tree_map T
      else (tree_map T)(elem_l1num X \<mapsto> elem_queue X))"
proof (induction T)
  case (TreeNode l x r)
  let ?k = "elem_l1num X"
  have lr: "bst l" "bst r" using TreeNode.prems by auto
  consider (less) "?k < elem_l1num x" | (eq) "?k = elem_l1num x" | (greater) "elem_l1num x < ?k"
    by (meson linorder_neqE)
  then show ?case
  proof cases
    case less
    let ?l = "fst (TreeInsert True X Null l)"
    have ins: "fst (TreeInsert True X Null (TreeNode l x r)) = TreeNode ?l x r"
      using less by (simp add: case_prod_beta)
    have l: "bst ?l" "tree_map ?l = (if ?k \<in> dom (tree_map l) then tree_map l
        else (tree_map l)(?k \<mapsto> elem_queue X))" using TreeNode.IH(1) lr by auto
    then have "bst (TreeNode ?l x r)"
      by (intro bst_replace_left [OF TreeNode.prems l(1) _ less]) auto
    then show ?thesis
      unfolding ins using less l(2) TreeNode.prems
      by (simp only: tree_map_bst) (auto simp: fun_eq_iff domIff)
  next
    case eq
    then show ?thesis using TreeNode.prems by auto
  next
    case greater
    let ?r = "fst (TreeInsert True X Null r)"
    have ins: "fst (TreeInsert True X Null (TreeNode l x r)) = TreeNode l x ?r"
      using greater less_imp_not_less [OF greater] by (simp add: case_prod_beta)
    have r: "bst ?r" "tree_map ?r = (if ?k \<in> dom (tree_map r) then tree_map r
        else (tree_map r)(?k \<mapsto> elem_queue X))" using TreeNode.IH(2) lr by auto
    then have "bst (TreeNode l x ?r)"
      by (intro bst_replace_right [OF TreeNode.prems r(1) _ greater]) auto
    then show ?thesis
      unfolding ins using greater less_imp_not_less [OF greater] r(2) TreeNode.prems
      by (simp only: tree_map_bst) (auto simp: fun_eq_iff domIff)
  qed
qed auto

lemma TreeDelete_spec:
  "bst T \<Longrightarrow>
   bst (fst (TreeDelete X Null T)) \<and>
   tree_map (fst (TreeDelete X Null T)) = (tree_map T)(elem_l1num X := None)"
proof (induction T arbitrary: X)
  case (TreeNode l x r)
  let ?k = "elem_l1num X"
  have lr: "bst l" "bst r" using TreeNode.prems by auto
  consider (less) "?k < elem_l1num x" | (greater) "elem_l1num x < ?k"
    | (two) "?k = elem_l1num x" "l \<noteq> Null" "r \<noteq> Null" | (one) "?k = elem_l1num x" "l = Null \<or> r = Null"
    by (meson linorder_neqE)
  then show ?case
  proof cases
    case less
    let ?l = "fst (TreeDelete X Null l)"
    have del: "fst (TreeDelete X Null (TreeNode l x r)) = TreeNode ?l x r"
      using less by (simp add: case_prod_beta)
    have l: "bst ?l" "tree_map ?l = (tree_map l)(?k := None)" using TreeNode.IH(1) lr by auto
    then have "bst (TreeNode ?l x r)"
      by (intro bst_replace_left [OF TreeNode.prems l(1) _ less]) auto
    then show ?thesis
      unfolding del using less l(2) TreeNode.prems
      by (simp only: tree_map_bst) (auto simp: fun_eq_iff)
  next
    case greater
    let ?r = "fst (TreeDelete X Null r)"
    have del: "fst (TreeDelete X Null (TreeNode l x r)) = TreeNode l x ?r"
      using greater less_imp_not_less [OF greater] by (simp add: case_prod_beta)
    have r: "bst ?r" "tree_map ?r = (tree_map r)(?k := None)" using TreeNode.IH(2) lr by auto
    then have "bst (TreeNode l x ?r)"
      by (intro bst_replace_right [OF TreeNode.prems r(1) _ greater]) auto
    then show ?thesis
      unfolding del using greater less_imp_not_less [OF greater] r(2) TreeNode.prems
      by (simp only: tree_map_bst) (auto simp: fun_eq_iff)
  next
    case two
    from TreeFindMin_least [OF lr(2) two(3)] obtain e where
      e: "Retrieve (TreeFindMin Null r) = Some e" "tree_map r (elem_l1num e) = Some (elem_queue e)"
        "\<And>k. k \<in> dom (tree_map r) \<Longrightarrow> elem_l1num e \<le> k" by (auto simp del: domIff)
    let ?r = "fst (TreeDelete e Null r)"
    have del: "fst (TreeDelete X Null (TreeNode l x r)) = TreeNode l e ?r"
      using two e(1) by (simp add: case_prod_beta)
    have r: "bst ?r" "tree_map ?r = (tree_map r)(elem_l1num e := None)"
      using TreeNode.IH(2) lr by auto
    have xe: "elem_l1num x < elem_l1num e" using TreeNode.prems e(2) domI [of "tree_map r"] by simp
    have "k < elem_l1num e" if "k \<in> dom (tree_map l)" for k
    proof -
      have "k < elem_l1num x" using that TreeNode.prems by simp
      then show ?thesis using xe by (rule less_trans)
    qed
    moreover have "elem_l1num e < k" if "k \<in> dom (tree_map ?r)" for k
      using that r(2) e(3) [of k] by (auto simp: le_less split: if_splits)
    ultimately have new: "bst (TreeNode l e ?r)" using lr r(1) by simp
    have "tree_map (TreeNode l e ?r) k = ((tree_map (TreeNode l x r))(?k := None)) k" for k
    proof (cases "k \<in> dom (tree_map l) \<or> k \<in> dom (tree_map r)")
      case True
      then show ?thesis
        using r(2) e(2) TreeNode.prems two(1) xe
        by (auto simp: map_add_def split: option.split)
    next
      case False
      then show ?thesis
        using r(2) e(2) two(1) by (auto simp: map_add_def domIff split: option.split)
    qed
    then show ?thesis unfolding del using new by (simp only: fun_eq_iff) simp
  next
    case one
    then show ?thesis
      using TreeNode.prems lr by (auto simp: fun_eq_iff domIff)
  qed
qed auto

lemma TreeFindMax_greatest:
  "bst T \<Longrightarrow> T \<noteq> Null \<Longrightarrow>
   \<exists>e. Retrieve (TreeFindMax T) = Some e \<and> tree_map T (elem_l1num e) = Some (elem_queue e) \<and>
       (\<forall>k \<in> dom (tree_map T). k \<le> elem_l1num e)"
proof (induction T)
  case (TreeNode l x r)
  show ?case
  proof (cases "r = Null")
    case True
    with TreeNode.prems show ?thesis
      by (auto intro: less_imp_le split: if_splits)
  next
    case False
    with TreeNode obtain e where e: "Retrieve (TreeFindMax r) = Some e"
      "tree_map r (elem_l1num e) = Some (elem_queue e)" "\<forall>k \<in> dom (tree_map r). k \<le> elem_l1num e"
      by auto
    from e(2) TreeNode.prems(1) have less: "elem_l1num x < elem_l1num e"
      by (auto dest: bspec simp: domI [of "tree_map r"])
    have "k \<le> elem_l1num e" if "k \<in> dom (tree_map l)" for k
    proof -
      have "k < elem_l1num x" using that TreeNode.prems(1) by simp
      with less show ?thesis by (meson less_imp_le less_trans)
    qed
    with less e(3) have "\<forall>k \<in> dom (tree_map (TreeNode l x r)). k \<le> elem_l1num e"
      unfolding dom_tree_map by (auto simp del: domIff)
    moreover have "tree_map (TreeNode l x r) (elem_l1num e) = Some (elem_queue e)"
      using bst_map_greater [OF TreeNode.prems(1) less] e(2) by (rule trans)
    moreover have "TreeFindMax (TreeNode l x r) = TreeFindMax r" using False by simp
    ultimately show ?thesis using e(1) by (metis (no_types))
  qed
qed simp

subsection \<open>Properties\<close>

text \<open>C25. The search tree is a finite map from first-level numbers: on a search tree, \<open>TreeInsert\<close>
  adds the element unless its key is present and then changes nothing, \<open>TreeDelete\<close> removes exactly
  the given key, both keep the search order, and both leave the cache \<open>pmin\<close> empty.\<close>

theorem dedup_tree_updates:
  assumes "bst T"
  shows "TreeInsert True X Null T = (fst (TreeInsert True X Null T), Null) \<and>
         bst (fst (TreeInsert True X Null T)) \<and>
         tree_map (fst (TreeInsert True X Null T)) =
           (if elem_l1num X \<in> dom (tree_map T) then tree_map T
            else (tree_map T)(elem_l1num X \<mapsto> elem_queue X)) \<and>
         TreeDelete X Null T = (fst (TreeDelete X Null T), Null) \<and>
         bst (fst (TreeDelete X Null T)) \<and>
         tree_map (fst (TreeDelete X Null T)) = (tree_map T)(elem_l1num X := None)"
  using TreeInsert_spec [OF assms, of X] TreeDelete_spec [OF assms, of X]
    TreeInsert_pmin [of True X T] TreeDelete_pmin [of X T]
  by (simp add: prod_eq_iff)

definition tree_sample :: "nat search_tree" where
  "tree_sample = TreeNode (TreeNode Null \<lparr>elem_l1num = 1, elem_queue = 10\<rparr> Null)
     \<lparr>elem_l1num = 4, elem_queue = 40\<rparr> (TreeNode Null \<lparr>elem_l1num = 6, elem_queue = 60\<rparr> Null)"

lemma tree_sample_bst: "bst tree_sample"
  by (simp add: tree_sample_def)

theorem dedup_tree_updates_witness:
  "tree_map (fst (TreeDelete \<lparr>elem_l1num = 4, elem_queue = 0\<rparr> Null tree_sample)) 4 = None \<and>
   tree_map (fst (TreeInsert True \<lparr>elem_l1num = 5, elem_queue = 50\<rparr> Null tree_sample)) 5 = Some 50"
  using dedup_tree_updates [OF tree_sample_bst, of "\<lparr>elem_l1num = 4, elem_queue = 0\<rparr>"]
    dedup_tree_updates [OF tree_sample_bst, of "\<lparr>elem_l1num = 5, elem_queue = 50\<rparr>"]
  by (auto simp: tree_sample_def domIff split: if_splits)

text \<open>Lookup and extremes: on a search tree \<open>TreeFind\<close> returns a node with the key exactly when the
  key is present, and it is the node that holds its queue; \<open>TreeFindMin\<close> and \<open>TreeFindMax\<close> return the
  nodes with the least and the greatest key of a tree that is not empty.\<close>

theorem dedup_tree_lookup:
  assumes "bst T" and "T \<noteq> Null"
  shows "map_option elem_queue (Retrieve (TreeFind v T)) = tree_map T (word_of_int v) \<and>
         (\<exists>e. Retrieve (TreeFindMin Null T) = Some e \<and> tree_map T (elem_l1num e) = Some (elem_queue e) \<and>
              (\<forall>k \<in> dom (tree_map T). elem_l1num e \<le> k)) \<and>
         (\<exists>e. Retrieve (TreeFindMax T) = Some e \<and> tree_map T (elem_l1num e) = Some (elem_queue e) \<and>
              (\<forall>k \<in> dom (tree_map T). k \<le> elem_l1num e))"
proof (intro conjI TreeFindMin_least TreeFindMax_greatest assms)
  show "map_option elem_queue (Retrieve (TreeFind v T)) = tree_map T (word_of_int v)"
    using TreeFind_map [OF assms(1), of v] by (auto split: search_tree.splits)
qed

theorem dedup_tree_lookup_witness:
  "map_option elem_queue (Retrieve (TreeFind 6 tree_sample)) = Some 60 \<and>
   map_option elem_queue (Retrieve (TreeFind 5 tree_sample)) = None"
  using dedup_tree_lookup [OF tree_sample_bst, of 6] dedup_tree_lookup [OF tree_sample_bst, of 5]
  by (simp add: tree_sample_def)

end
