(* ===== verification/Dedup_Reorder.thy ===== *)
theory Dedup_Reorder
  imports Dedup_Heap Dedup_Tree
begin

text \<open>
  The last stage of the parallel encoder, \<open>Reorder\<close> of \<open>samples/dedup/encoder.c\<close>: chunks arrive in any
  order and leave in the order of their sequence numbers. A chunk that is not next waits in a search tree of
  binary heaps, one heap for each first-level number.

  The payload of a chunk says whether it is the last of its coarse chunk, and what it holds. \<open>pos\<close>, a
  pointer to the node with the least number, is the element of that node; a change of its heap changes the
  tree. \<open>mem\<close> says whether there is memory for heaps and nodes. A result \<open>Inl\<close> is an exit of the
  program, a failed assertion or an access out of bounds.
\<close>

type_synonym 'c rchunk = "(bool \<times> 'c) heap_chunk"
type_synonym 'c rheap = "(bool \<times> 'c) heap"

definition is_last :: "'c rchunk \<Rightarrow> bool" where
  "is_last c = fst (payload c)"

record 'c reorder =
  cached :: "'c rheap search_tree"
  next_number :: sequence_t
  chunks_per_anchor :: "32 word list"
  to_file :: "'c list"

definition INITIAL_SEARCH_TREE_SIZE :: nat where
  "INITIAL_SEARCH_TREE_SIZE = 4096"

text \<open>The array of coarse chunk sizes is doubled once when the number does not fit.\<close>

definition grow_anchors :: "32 word \<Rightarrow> 32 word list \<Rightarrow> 32 word list" where
  "grow_anchors l1 cpa = (if unat l1 \<ge> length cpa then cpa @ replicate (length cpa) 0 else cpa)"

definition note_last :: "'c rchunk \<Rightarrow> 32 word list \<Rightarrow> string + 32 word list" where
  "note_last c cpa =
     (let i = unat (l1num (seq c))
      in if \<not> is_last c then Inr cpa
         else if i \<ge> length cpa then Inl ''out of bounds''
         else if cpa ! i \<noteq> 0 then Inl ''assertion failed''
         else Inr (cpa[i := l2num (seq c) + 1]))"

text \<open>Changing the heap of the node with number \<open>k\<close>.\<close>

fun set_queue :: "32 word \<Rightarrow> 'q \<Rightarrow> 'q search_tree \<Rightarrow> 'q search_tree" where
  "set_queue k q Null = Null"
| "set_queue k q (TreeNode l x r) =
     (if k < elem_l1num x then TreeNode (set_queue k q l) x r
      else if elem_l1num x < k then TreeNode l x (set_queue k q r)
      else TreeNode l (x\<lparr>elem_queue := q\<rparr>) r)"

definition heap_insert :: "bool \<Rightarrow> 'c rchunk \<Rightarrow> 'c rheap \<Rightarrow> string + 'c rheap" where
  "heap_insert mem c H =
     (case Insert (if mem then Some (replicate (Capacity H) None) else None) c H of
        None \<Rightarrow> Inl ''Out of space!!!'' | Some H' \<Rightarrow> Inr H')"

definition cache_chunk :: "bool \<Rightarrow> 'c rchunk \<Rightarrow> 'c rheap search_tree \<Rightarrow> string + 'c rheap search_tree" where
  "cache_chunk mem c T =
     (case Retrieve (TreeFind (sint (l1num (seq c))) T) of
        None \<Rightarrow>
          (case Initialize (if mem then Some (replicate (INITIAL_SEARCH_TREE_SIZE + 1) None) else None)
                  (int INITIAL_SEARCH_TREE_SIZE) of
             None \<Rightarrow> Inl ''Out of space!!!''
           | Some H0 \<Rightarrow>
               map_sum id (\<lambda>H. fst (TreeInsert mem \<lparr>elem_l1num = l1num (seq c), elem_queue = H\<rparr> Null T))
                 (heap_insert mem c H0))
      | Some e \<Rightarrow> map_sum id (\<lambda>H. set_queue (elem_l1num e) H T) (heap_insert mem c (elem_queue e)))"

text \<open>The number after the one just written; the array says when the coarse chunk is complete.\<close>

definition advance :: "32 word list \<Rightarrow> sequence_t \<Rightarrow> string + sequence_t" where
  "advance cpa s =
     (let s1 = sequence_inc_l2 s; i = unat (l1num s1)
      in if i \<ge> length cpa then Inl ''out of bounds''
         else Inr (if cpa ! i \<noteq> 0 \<and> l2num s1 = cpa ! i then sequence_inc_l1 s1 else s1))"

text \<open>The chunk at \<open>pos\<close> if it has number \<open>s\<close>, taken out of the cache, with the new \<open>pos\<close> and tree.\<close>

definition take_cached :: "sequence_t \<Rightarrow> 'c rheap tree_element \<Rightarrow> 'c rheap search_tree
    \<Rightarrow> string + ('c rchunk \<times> 'c rheap tree_element option \<times> 'c rheap search_tree) option" where
  "take_cached s e T =
     (case FindMin (elem_queue e) of
        None \<Rightarrow> Inl ''null pointer''
      | Some c \<Rightarrow>
          if sequence_eq (seq c) s
          then (case DeleteMin (elem_queue e) of
              None \<Rightarrow> Inl ''Priority queue is empty''
            | Some (_, H) \<Rightarrow>
                if IsEmpty H
                then let T' = fst (TreeDelete e Null T) in Inr (Some (c, Retrieve (TreeFindMin Null T'), T'))
                else Inr (Some (c, Some (e\<lparr>elem_queue := H\<rparr>), set_queue (elem_l1num e) H T)))
          else Inr None)"

text \<open>The loop that writes as many chunks as possible. Each round takes one chunk out of the cache, so the
  number of chunks there, plus one, is enough fuel.\<close>

fun write_loop :: "nat \<Rightarrow> 'c rchunk \<Rightarrow> 'c rheap tree_element option \<Rightarrow> 'c reorder \<Rightarrow> string + 'c reorder" where
  "write_loop 0 c pos st = Inl ''fuel''"
| "write_loop (Suc k) c pos st =
     (case advance (chunks_per_anchor st) (next_number st) of
        Inl e \<Rightarrow> Inl e
      | Inr s \<Rightarrow>
          let st1 = st\<lparr>to_file := to_file st @ [snd (payload c)], next_number := s\<rparr>
          in (case pos of
              None \<Rightarrow> Inr st1
            | Some e \<Rightarrow>
                if elem_l1num e = l1num s
                then (case take_cached s e (cached st1) of
                    Inl e \<Rightarrow> Inl e
                  | Inr None \<Rightarrow> Inr st1
                  | Inr (Some (c', pos', T')) \<Rightarrow> write_loop k c' pos' (st1\<lparr>cached := T'\<rparr>))
                else Inr st1))"

primrec tree_chunks :: "'c rheap search_tree \<Rightarrow> nat" where
  "tree_chunks Null = 0"
| "tree_chunks (TreeNode l x r) = tree_chunks l + Size (elem_queue x) + tree_chunks r"

definition reorder_receive :: "bool \<Rightarrow> 'c rchunk \<Rightarrow> 'c reorder \<Rightarrow> string + 'c reorder" where
  "reorder_receive mem c st =
     (case note_last c (grow_anchors (l1num (seq c)) (chunks_per_anchor st)) of
        Inl e \<Rightarrow> Inl e
      | Inr cpa \<Rightarrow>
          let st1 = st\<lparr>chunks_per_anchor := cpa\<rparr>
          in if \<not> sequence_eq (seq c) (next_number st1)
             then map_sum id (\<lambda>T. st1\<lparr>cached := T\<rparr>) (cache_chunk mem c (cached st1))
             else write_loop (Suc (tree_chunks (cached st1))) c (Retrieve (TreeFindMin Null (cached st1))) st1)"

fun receive_all :: "bool \<Rightarrow> 'c rchunk list \<Rightarrow> 'c reorder \<Rightarrow> string + 'c reorder" where
  "receive_all mem [] st = Inr st"
| "receive_all mem (c # cs) st =
     (case reorder_receive mem c st of Inl e \<Rightarrow> Inl e | Inr st' \<Rightarrow> receive_all mem cs st')"

text \<open>What is left in the cache at the end must be next, chunk by chunk.\<close>

fun flush_loop :: "nat \<Rightarrow> 'c rheap tree_element option \<Rightarrow> 'c reorder \<Rightarrow> string + 'c reorder" where
  "flush_loop k None st = Inr st"
| "flush_loop 0 (Some e) st = Inl ''fuel''"
| "flush_loop (Suc k) (Some e) st =
     (if elem_l1num e = l1num (next_number st)
      then (case take_cached (next_number st) e (cached st) of
          Inl e \<Rightarrow> Inl e
        | Inr None \<Rightarrow> Inl ''L2 sequence number mismatch.''
        | Inr (Some (c, pos', T')) \<Rightarrow>
            (case advance (chunks_per_anchor st) (next_number st) of
                Inl e \<Rightarrow> Inl e
              | Inr s \<Rightarrow> flush_loop k pos'
                  (st\<lparr>cached := T', to_file := to_file st @ [snd (payload c)], next_number := s\<rparr>)))
      else Inl ''L1 sequence number mismatch.'')"

definition reorder_start :: "'c reorder" where
  "reorder_start = \<lparr>cached = Null, next_number = sequence_reset (Sequence 0 0),
     chunks_per_anchor = replicate 1024 0, to_file = []\<rparr>"

definition Reorder :: "bool \<Rightarrow> 'c rchunk list \<Rightarrow> string + 'c reorder" where
  "Reorder mem arrivals =
     (case receive_all mem arrivals reorder_start of
        Inl e \<Rightarrow> Inl e
      | Inr st \<Rightarrow> flush_loop (tree_chunks (cached st)) (Retrieve (TreeFindMin Null (cached st))) st)"

section \<open>The cache\<close>

definition slot_ok :: "'c rheap option \<Rightarrow> 'c rchunk multiset \<Rightarrow> bool" where
  "slot_ok s F \<longleftrightarrow> (case s of None \<Rightarrow> F = {#} | Some H \<Rightarrow> heap_wf H \<and> F \<noteq> {#} \<and> heap_chunks H = F)"

definition in_anchor :: "32 word \<Rightarrow> 'c rchunk multiset \<Rightarrow> 'c rchunk multiset" where
  "in_anchor k M = filter_mset (\<lambda>c. l1num (seq c) = k) M"

definition tree_ok :: "'c rheap search_tree \<Rightarrow> 'c rchunk multiset \<Rightarrow> bool" where
  "tree_ok T M \<longleftrightarrow> bst T \<and> (\<forall>k. slot_ok (tree_map T k) (in_anchor k M))"

lemma tree_okD: "tree_ok T M \<Longrightarrow> bst T" "tree_ok T M \<Longrightarrow> slot_ok (tree_map T k) (in_anchor k M)"
  by (auto simp: tree_ok_def)

lemma slot_ok_simps [simp]:
  "slot_ok None F \<longleftrightarrow> F = {#}" "slot_ok (Some H) F \<longleftrightarrow> heap_wf H \<and> F \<noteq> {#} \<and> heap_chunks H = F"
  by (auto simp: slot_ok_def)

lemma in_anchor_simps [simp]:
  "in_anchor k {#} = {#}"
  "in_anchor k (add_mset c M) = (if l1num (seq c) = k then add_mset c (in_anchor k M) else in_anchor k M)"
  by (auto simp: in_anchor_def)

lemma in_anchor_mem: "c \<in># in_anchor k M \<longleftrightarrow> c \<in># M \<and> l1num (seq c) = k"
  by (auto simp: in_anchor_def)

lemma in_anchor_remove:
  "c \<in># M \<Longrightarrow> in_anchor k (M - {#c#}) = (if l1num (seq c) = k then in_anchor k M - {#c#} else in_anchor k M)"
  by (auto simp: in_anchor_def)

lemma set_queue_dom: "dom (tree_map (set_queue k q T)) = dom (tree_map T)"
  by (induction T) (auto simp: dom_tree_map simp del: tree_map.simps domIff)

lemma set_queue_spec:
  "bst T \<Longrightarrow> tree_map T k \<noteq> None \<Longrightarrow>
     bst (set_queue k q T) \<and> tree_map (set_queue k q T) = (tree_map T)(k \<mapsto> q)"
proof (induction T)
  case (TreeNode l x r)
  have sub: "bst l" "bst r" using TreeNode.prems(1) by auto
  consider "k < elem_l1num x" | "elem_l1num x < k" | "k = elem_l1num x" by fastforce
  then show ?case
  proof cases
    case 1
    with TreeNode.prems bst_map_less have "tree_map l k \<noteq> None" by metis
    with TreeNode.IH(1) sub have l: "bst (set_queue k q l)" "tree_map (set_queue k q l) = (tree_map l)(k \<mapsto> q)" by auto
    have b: "bst (TreeNode (set_queue k q l) x r)"
      by (rule bst_replace_left [OF TreeNode.prems(1) l(1) _ 1]) (simp only: set_queue_dom subset_insertI)
    have "tree_map (TreeNode (set_queue k q l) x r) = (tree_map (TreeNode l x r))(k \<mapsto> q)"
      unfolding tree_map_bst [OF b] tree_map_bst [OF TreeNode.prems(1)] l(2) using 1 by (auto simp: fun_eq_iff)
    with b 1 show ?thesis by (simp del: tree_map.simps bst.simps)
  next
    case 2
    with TreeNode.prems bst_map_greater have "tree_map r k \<noteq> None" by metis
    with TreeNode.IH(2) sub have r: "bst (set_queue k q r)" "tree_map (set_queue k q r) = (tree_map r)(k \<mapsto> q)" by auto
    have b: "bst (TreeNode l x (set_queue k q r))"
      by (rule bst_replace_right [OF TreeNode.prems(1) r(1) _ 2]) (simp only: set_queue_dom subset_insertI)
    have "tree_map (TreeNode l x (set_queue k q r)) = (tree_map (TreeNode l x r))(k \<mapsto> q)"
      unfolding tree_map_bst [OF b] tree_map_bst [OF TreeNode.prems(1)] r(2) using 2 by (auto simp: fun_eq_iff)
    with b 2 show ?thesis by (auto simp del: tree_map.simps bst.simps)
  next
    case 3
    with TreeNode.prems(1) show ?thesis by auto
  qed
qed simp

lemma Retrieve_None [simp]: "Retrieve T = None \<longleftrightarrow> T = Null"
  by (cases T) auto

lemma TreeFindMin_Null: "TreeFindMin Null T = Null \<longleftrightarrow> T = Null"
proof (induction T)
  case (TreeNode l x r)
  then show ?case by (auto simp: TreeFindMin.simps [of Null "TreeNode l x r"])
qed (simp add: TreeFindMin.simps)

lemma TreeFind_Retrieve:
  assumes "bst T"
  shows "Retrieve (TreeFind (sint k) T) =
           map_option (\<lambda>q. \<lparr>elem_l1num = k, elem_queue = q\<rparr>) (tree_map T k)"
  using TreeFind_map [OF assms, of "sint k"] by (cases "TreeFind (sint k) T") auto

lemma TreeFindMin_Retrieve:
  assumes "bst T" and "tree_map T k = Some q" and "\<And>j. j \<in> dom (tree_map T) \<Longrightarrow> k \<le> j"
  shows "Retrieve (TreeFindMin Null T) = Some \<lparr>elem_l1num = k, elem_queue = q\<rparr>"
proof -
  have "T \<noteq> Null" using assms(2) by auto
  from TreeFindMin_least [OF assms(1) this] obtain e where
    e: "Retrieve (TreeFindMin Null T) = Some e" "tree_map T (elem_l1num e) = Some (elem_queue e)"
      "\<forall>k \<in> dom (tree_map T). elem_l1num e \<le> k" by auto
  have "elem_l1num e = k" using e assms(2,3) by (meson antisym domI)
  with e assms(2) show ?thesis by auto
qed

lemma heap_insert_ok:
  assumes "heap_wf H"
  shows "\<exists>H'. heap_insert True c H = Inr H' \<and> heap_wf H' \<and> heap_chunks H' = add_mset c (heap_chunks H)"
  using Insert_spec [OF assms, of "Some (replicate (Capacity H) None)" "replicate (Capacity H) None" c]
  by (auto simp: heap_insert_def)

definition empty_heap :: "'c rheap" where
  "empty_heap = \<lparr>Capacity = 4096, Size = 0, Elements = (replicate 4097 None)[0 := None]\<rparr>"

lemma empty_heap_wf: "heap_wf empty_heap" "heap_chunks empty_heap = {#}"
  by (simp_all add: empty_heap_def heap_wf_def heap_on_def heap_chunks_def window_def)

lemma Initialize_empty: "Initialize (Some (replicate 4097 None)) 4096 = Some empty_heap"
  by (simp add: Initialize_def empty_heap_def)

lemma cache_chunk_ok:
  assumes "tree_ok T M"
  shows "\<exists>T'. cache_chunk True c T = Inr T' \<and> tree_ok T' (add_mset c M)"
proof -
  let ?k = "l1num (seq c)"
  note bst = tree_okD(1) [OF assms]
  note slot = tree_okD(2) [OF assms]
  have others: "slot_ok (tree_map T k) (in_anchor k (add_mset c M))" if "k \<noteq> ?k" for k
    using that slot [of k] by simp
  show ?thesis
  proof (cases "tree_map T ?k")
    case None
    obtain H where H: "heap_insert True c empty_heap = Inr H" "heap_wf H" "heap_chunks H = {#c#}"
      using heap_insert_ok [OF empty_heap_wf(1), of c] empty_heap_wf(2) by metis
    let ?T = "fst (TreeInsert True \<lparr>elem_l1num = ?k, elem_queue = H\<rparr> Null T)"
    have T: "bst ?T" "tree_map ?T = (tree_map T)(?k \<mapsto> H)"
      using TreeInsert_spec [OF bst, of "\<lparr>elem_l1num = ?k, elem_queue = H\<rparr>"] None by (auto simp: domIff)
    have "in_anchor ?k M = {#}" using slot [of ?k] None by simp
    then have "slot_ok (tree_map ?T k) (in_anchor k (add_mset c M))" for k
      using others [of k] H T(2) by (cases "k = ?k") auto
    with T have "tree_ok ?T (add_mset c M)" by (simp add: tree_ok_def)
    moreover have "cache_chunk True c T = Inr ?T"
      using None H(1) by (simp add: cache_chunk_def TreeFind_Retrieve [OF bst] INITIAL_SEARCH_TREE_SIZE_def Initialize_empty)
    ultimately show ?thesis by blast
  next
    case (Some H0)
    with slot [of ?k] have H0: "heap_wf H0" "heap_chunks H0 = in_anchor ?k M" by auto
    obtain H where H: "heap_insert True c H0 = Inr H" "heap_wf H" "heap_chunks H = add_mset c (in_anchor ?k M)"
      using heap_insert_ok [OF H0(1), of c] H0(2) by auto
    have T: "bst (set_queue ?k H T)" "tree_map (set_queue ?k H T) = (tree_map T)(?k \<mapsto> H)"
      using set_queue_spec [OF bst, of ?k H] Some by auto
    have "slot_ok (tree_map (set_queue ?k H T) k) (in_anchor k (add_mset c M))" for k
      using others [of k] H T(2) by (cases "k = ?k") auto
    with T have "tree_ok (set_queue ?k H T) (add_mset c M)" by (simp add: tree_ok_def)
    moreover have "cache_chunk True c T = Inr (set_queue ?k H T)"
      using Some H(1) by (simp add: cache_chunk_def TreeFind_Retrieve [OF bst])
    ultimately show ?thesis by blast
  qed
qed

lemma tree_ok_dom: "tree_ok T M \<Longrightarrow> k \<in> dom (tree_map T) \<longleftrightarrow> (\<exists>c \<in># M. l1num (seq c) = k)"
proof -
  assume "tree_ok T M"
  from tree_okD(2) [OF this, of k] have "k \<in> dom (tree_map T) \<longleftrightarrow> in_anchor k M \<noteq> {#}"
    by (cases "tree_map T k") auto
  also have "\<dots> \<longleftrightarrow> (\<exists>c. c \<in># in_anchor k M)" by auto
  finally show ?thesis by (auto simp: in_anchor_mem)
qed

lemma tree_ok_empty: "tree_ok T M \<Longrightarrow> Retrieve (TreeFindMin Null T) = None \<longleftrightarrow> M = {#}"
proof -
  assume ok: "tree_ok T M"
  have "T = Null \<longleftrightarrow> dom (tree_map T) = {}" by (cases T) (simp, metis dom_tree_map insert_not_empty search_tree.distinct(1))
  also have "\<dots> \<longleftrightarrow> (\<forall>k. k \<notin> dom (tree_map T))" by blast
  also have "\<dots> \<longleftrightarrow> (\<forall>c. c \<notin># M)" unfolding tree_ok_dom [OF ok] by blast
  also have "\<dots> \<longleftrightarrow> M = {#}" by (cases M) auto
  finally show ?thesis by (simp add: TreeFindMin_Null)
qed

text \<open>At the position with the least number, the least chunk of all is found and taken out.\<close>

lemma take_cached_ok:
  assumes "tree_ok T M" and "Retrieve (TreeFindMin Null T) = Some e"
  shows "\<exists>c. c \<in># M \<and> l1num (seq c) = elem_l1num e \<and> (\<forall>y \<in># M. seq c \<le> seq y) \<and>
     (if seq c = s
      then \<exists>T'. take_cached s e T = Inr (Some (c, Retrieve (TreeFindMin Null T'), T')) \<and> tree_ok T' (M - {#c#})
      else take_cached s e T = Inr None)"
proof -
  note bst = tree_okD(1) [OF assms(1)]
  note slot = tree_okD(2) [OF assms(1)]
  have "T \<noteq> Null" using assms(2) by (auto simp: TreeFindMin.simps)
  from TreeFindMin_least [OF bst this] assms(2) have e: "tree_map T (elem_l1num e) = Some (elem_queue e)"
      "\<forall>k \<in> dom (tree_map T). elem_l1num e \<le> k" by auto
  let ?k = "elem_l1num e" and ?H = "elem_queue e"
  from slot [of ?k] e(1) have H: "heap_wf ?H" "heap_chunks ?H = in_anchor ?k M" "in_anchor ?k M \<noteq> {#}" by auto
  then have "Size ?H \<noteq> 0" using size_heap_chunks [OF H(1)] by (metis size_eq_0_iff_empty)
  from DeleteMin_spec [OF H(1) this] obtain c H' where
    c: "DeleteMin ?H = Some (Some c, H')" "heap_wf H'" "heap_chunks ?H = add_mset c (heap_chunks H')"
      "\<forall>y \<in># heap_chunks ?H. l2num (seq c) \<le> l2num (seq y)" by auto
  then have min: "FindMin ?H = Some c" using \<open>Size ?H \<noteq> 0\<close>
    by (auto simp: FindMin_def DeleteMin_def IsEmpty_def Let_def)
  have mem: "c \<in># M" "l1num (seq c) = ?k" using c(3) H(2) by (metis in_anchor_mem union_single_eq_member)+
  have least: "\<forall>y \<in># M. seq c \<le> seq y"
  proof
    fix y assume y: "y \<in># M"
    then have "?k \<le> l1num (seq y)" using e(2) tree_ok_dom [OF assms(1)] by blast
    moreover have "l2num (seq c) \<le> l2num (seq y)" if "l1num (seq y) = ?k"
      using c(4) H(2) y that by (simp add: in_anchor_mem)
    ultimately show "seq c \<le> seq y"
      using mem(2) by (cases "seq c"; cases "seq y") (auto simp: less_eq_sequence_t_def sequence_lt_def sequence_eq_def)
  qed
  have rest: "in_anchor ?k (M - {#c#}) = heap_chunks H'" using c(3) H(2) mem by (simp add: in_anchor_remove)
  have others: "slot_ok (tree_map T k) (in_anchor k (M - {#c#}))" if "k \<noteq> ?k" for k
    using that slot [of k] mem by (simp add: in_anchor_remove)
  have "\<exists>T'. take_cached (seq c) e T = Inr (Some (c, Retrieve (TreeFindMin Null T'), T')) \<and> tree_ok T' (M - {#c#})"
  proof (cases "IsEmpty H'")
    case True
    let ?T = "fst (TreeDelete e Null T)"
    have T: "bst ?T" "tree_map ?T = (tree_map T)(?k := None)" using TreeDelete_spec [OF bst, of e] by auto
    have "heap_chunks H' = {#}" using True c(2) by (simp add: IsEmpty_def heap_chunks_def window_def)
    then have "slot_ok (tree_map ?T k) (in_anchor k (M - {#c#}))" for k
      using others [of k] T(2) rest by (cases "k = ?k") auto
    with T have "tree_ok ?T (M - {#c#})" by (simp add: tree_ok_def)
    then show ?thesis using c(1) min True by (auto simp: take_cached_def sequence_eq_def Let_def)
  next
    case False
    let ?T = "set_queue ?k H' T"
    have T: "bst ?T" "tree_map ?T = (tree_map T)(?k \<mapsto> H')" using set_queue_spec [OF bst, of ?k H'] e(1) by auto
    have "heap_chunks H' \<noteq> {#}" using False size_heap_chunks [OF c(2)] by (metis IsEmpty_def size_empty)
    then have "slot_ok (tree_map ?T k) (in_anchor k (M - {#c#}))" for k
      using others [of k] T(2) rest c(2) by (cases "k = ?k") auto
    with T have "tree_ok ?T (M - {#c#})" by (simp add: tree_ok_def)
    moreover have "Retrieve (TreeFindMin Null ?T) = Some \<lparr>elem_l1num = ?k, elem_queue = H'\<rparr>"
      by (rule TreeFindMin_Retrieve) (use T e in auto)
    moreover have "\<lparr>elem_l1num = ?k, elem_queue = H'\<rparr> = e\<lparr>elem_queue := H'\<rparr>" by (cases e) simp
    ultimately show ?thesis using c(1) min False by (auto simp: take_cached_def sequence_eq_def)
  qed
  moreover have "take_cached s e T = Inr None" if "seq c \<noteq> s"
    using min that by (simp add: take_cached_def sequence_eq_iff)
  ultimately show ?thesis using mem least by (intro exI [of _ c]) auto
qed

lemma size_split_key:
  "size M = size {#c \<in># M. f c < (k :: 32 word)#} + size {#c \<in># M. f c = k#} + size {#c \<in># M. k < f c#}"
  by (induction M) auto

lemma tree_chunks_size: "tree_ok T M \<Longrightarrow> tree_chunks T = size M"
proof (induction T arbitrary: M)
  case Null
  then have "M = {#}" using tree_ok_empty [OF Null] by (simp add: TreeFindMin.simps)
  then show ?case by simp
next
  case (TreeNode l x r)
  let ?k = "elem_l1num x" and ?key = "\<lambda>c. l1num (seq c)"
  note bst = tree_okD(1) [OF TreeNode.prems]
  note slot = tree_okD(2) [OF TreeNode.prems, unfolded tree_map_bst [OF bst]]
  have out: "tree_map l j = None" if "\<not> j < ?k" for j using that bst by (auto simp: dom_def)
  have out2: "tree_map r j = None" if "\<not> ?k < j" for j using that bst by (auto simp: dom_def)
  have "slot_ok (tree_map l j) (in_anchor j {#c \<in># M. ?key c < ?k#})" for j
  proof (cases "j < ?k")
    case True
    then have "in_anchor j {#c \<in># M. ?key c < ?k#} = in_anchor j M" by (auto simp: in_anchor_def filter_filter_mset intro: filter_mset_cong)
    with slot [of j] True show ?thesis by simp
  next
    case False
    then have "in_anchor j {#c \<in># M. ?key c < ?k#} = {#}" by (auto simp: in_anchor_def filter_mset_eq_conv)
    with out [OF False] show ?thesis by simp
  qed
  then have l: "tree_chunks l = size {#c \<in># M. ?key c < ?k#}"
    using bst by (intro TreeNode.IH(1)) (simp add: tree_ok_def)
  have "slot_ok (tree_map r j) (in_anchor j {#c \<in># M. ?k < ?key c#})" for j
  proof (cases "?k < j")
    case True
    then have "in_anchor j {#c \<in># M. ?k < ?key c#} = in_anchor j M" by (auto simp: in_anchor_def filter_filter_mset intro: filter_mset_cong)
    moreover have "\<not> j < ?k" using True by simp
    ultimately show ?thesis using slot [of j] True by simp
  next
    case False
    then have "in_anchor j {#c \<in># M. ?k < ?key c#} = {#}" by (auto simp: in_anchor_def filter_mset_eq_conv)
    with out2 [OF False] show ?thesis by simp
  qed
  then have r: "tree_chunks r = size {#c \<in># M. ?k < ?key c#}"
    using bst by (intro TreeNode.IH(2)) (simp add: tree_ok_def)
  have "Size (elem_queue x) = size {#c \<in># M. ?key c = ?k#}"
    using slot [of ?k] size_heap_chunks [of "elem_queue x"] by (simp add: in_anchor_def)
  with l r show ?case by (simp add: size_split_key [of M ?key ?k])
qed

section \<open>The order of the chunks\<close>

definition follows :: "'c rchunk \<Rightarrow> sequence_t" where
  "follows c = (if is_last c then sequence_inc_l1 (seq c) else sequence_inc_l2 (seq c))"

fun gapless :: "sequence_t \<Rightarrow> 'c rchunk list \<Rightarrow> bool" where
  "gapless s [] = True"
| "gapless s (c # cs) = (seq c = s \<and> gapless (follows c) cs)"

fun number_at :: "sequence_t \<Rightarrow> 'c rchunk list \<Rightarrow> nat \<Rightarrow> sequence_t" where
  "number_at s [] n = s"
| "number_at s (c # cs) 0 = s"
| "number_at s (c # cs) (Suc n) = number_at (follows c) cs n"

definition in_range :: "'c rchunk \<Rightarrow> bool" where
  "in_range c \<longleftrightarrow> l1num (seq c) \<noteq> -1 \<and> l2num (seq c) \<noteq> -1"

definition before :: "'c rchunk \<Rightarrow> 'c rchunk \<Rightarrow> bool" where
  "before a b \<longleftrightarrow> seq a < seq b \<and> (is_last a \<longrightarrow> l1num (seq a) < l1num (seq b))"

lemma gapless_nth: "gapless s cs \<Longrightarrow> n < length cs \<Longrightarrow> seq (cs ! n) = number_at s cs n \<and> number_at s cs (Suc n) = follows (cs ! n)"
proof (induction cs arbitrary: s n)
  case (Cons c cs)
  have "number_at t xs 0 = t" for t and xs :: "'a rchunk list" by (cases xs) simp_all
  with Cons show ?case by (cases n) auto
qed simp

lemma word_succ_less:
  assumes "(w :: 32 word) \<noteq> -1"
  shows "w < w + 1"
proof -
  have "w + 1 \<noteq> 0" using assms eq_neg_iff_add_eq_0 [of w 1] by simp
  then have "unat (w + 1) \<noteq> 0" by (simp add: unsigned_eq_0_iff)
  then have "unat w \<noteq> 2 ^ 32 - 1" by (auto simp: unat_word_ariths)
  moreover have "unat w < 2 ^ 32" using unsigned_less [of w] by simp
  ultimately have "unat (w + 1) = unat w + 1" by (simp add: unat_word_ariths)
  then show ?thesis by (simp add: word_less_nat_alt)
qed

lemma word_succ_le: "(w :: 32 word) \<noteq> -1 \<Longrightarrow> w + 1 \<le> v \<Longrightarrow> w < v"
  using word_succ_less by (meson less_le_trans)

lemma gapless_ordered:
  "gapless s cs \<Longrightarrow> \<forall>c \<in> set cs. in_range c \<Longrightarrow> sorted_wrt before cs \<and> (\<forall>c \<in> set cs. s \<le> seq c)"
proof (induction cs arbitrary: s)
  case (Cons c cs)
  then have c: "seq c = s" "in_range c" and IH: "sorted_wrt before cs" "\<forall>d \<in> set cs. follows c \<le> seq d" by auto
  have step: "seq c < follows c"
    using c(2) word_succ_less
    by (auto simp: follows_def in_range_def sequence_inc_l1_def sequence_inc_l2_def less_sequence_t_def sequence_lt_def)
  have "before c d" if "d \<in> set cs" for d
  proof -
    have le: "follows c \<le> seq d" using IH(2) that by blast
    have "l1num (seq c) < l1num (seq d)" if "is_last c"
      using le that c(2) word_succ_le [of "l1num (seq c)"]  word_succ_less [of "l1num (seq c)"]
      by (auto simp: follows_def in_range_def sequence_inc_l1_def less_eq_sequence_t_def sequence_lt_def sequence_eq_def
          split: if_splits)
    with step le show ?thesis by (auto simp: before_def)
  qed
  with IH step c(1) show ?case by fastforce
qed simp

lemma ordered_total:
  assumes "sorted_wrt before cs" and "a \<in> set cs" and "b \<in> set cs" and "a \<noteq> b"
  shows "before a b \<or> before b a"
proof -
  obtain i j where ij: "i < length cs" "a = cs ! i" "j < length cs" "b = cs ! j"
    using assms(2,3) by (auto simp: in_set_conv_nth)
  then consider "i < j" | "j < i" using assms(4) by fastforce
  then show ?thesis using sorted_wrt_nth_less [OF assms(1)] ij by cases auto
qed

lemma ordered_inj:
  "sorted_wrt before cs \<Longrightarrow> a \<in> set cs \<Longrightarrow> b \<in> set cs \<Longrightarrow> seq a = seq b \<Longrightarrow> a = b"
  using ordered_total [of cs a b] by (auto simp: before_def)

lemma ordered_distinct: "sorted_wrt before cs \<Longrightarrow> distinct cs"
  by (induction cs) (auto simp: before_def)

section \<open>The invariant\<close>

definition cpa_ok :: "32 word list \<Rightarrow> 'c rchunk multiset \<Rightarrow> bool" where
  "cpa_ok cpa A \<longleftrightarrow>
     (\<forall>c \<in># A. unat (l1num (seq c)) < length cpa \<and>
        (is_last c \<longrightarrow> cpa ! unat (l1num (seq c)) = l2num (seq c) + 1)) \<and>
     (\<forall>k < length cpa. cpa ! k \<noteq> 0 \<longrightarrow> (\<exists>c \<in># A. is_last c \<and> unat (l1num (seq c)) = k))"

lemma advance_ok:
  assumes "cpa_ok cpa A" and "set_mset A \<subseteq> set cs" and "sorted_wrt before cs" and "\<forall>c \<in> set cs. in_range c"
    and "c \<in># A"
  shows "advance cpa (seq c) = Inr (follows c)"
proof -
  let ?i = "unat (l1num (seq c))"
  have i: "?i < length cpa" "is_last c \<longrightarrow> cpa ! ?i = l2num (seq c) + 1"
    using assms(1,5) by (auto simp: cpa_ok_def)
  have "l2num (seq c) \<noteq> -1" using assms(2,4,5) by (auto simp: in_range_def)
  then have ne: "l2num (seq c) + 1 \<noteq> 0" using eq_neg_iff_add_eq_0 [of "l2num (seq c)" 1] by blast
  have "cpa ! ?i \<noteq> 0 \<and> l2num (seq c) + 1 = cpa ! ?i \<longleftrightarrow> is_last c"
  proof
    assume cond: "cpa ! ?i \<noteq> 0 \<and> l2num (seq c) + 1 = cpa ! ?i"
    then obtain d where d: "d \<in># A" "is_last d" "unat (l1num (seq d)) = ?i"
      using assms(1) i(1) by (auto simp: cpa_ok_def)
    then have "cpa ! ?i = l2num (seq d) + 1" using assms(1) unfolding cpa_ok_def by metis
    with cond have "l2num (seq c) + 1 = l2num (seq d) + 1" by (simp only:)
    then have "l2num (seq c) = l2num (seq d)" by (rule add_right_imp_eq)
    moreover have "l1num (seq c) = l1num (seq d)" using d(3) by (simp add: word_unat_eq_iff)
    ultimately have "seq c = seq d" by (intro sequence_t.expand) simp
    then have "c = d" using ordered_inj [OF assms(3)] assms(2,5) d(1) by blast
    with d show "is_last c" by simp
  next
    assume "is_last c"
    with i(2) have "cpa ! ?i = l2num (seq c) + 1" by blast
    with ne show "cpa ! ?i \<noteq> 0 \<and> l2num (seq c) + 1 = cpa ! ?i" by (simp only: simp_thms)
  qed
  then show ?thesis using i(1)
    by (auto simp: advance_def follows_def sequence_inc_l2_def sequence_inc_l1_def Let_def)
qed

lemma grow_ok: "cpa_ok cpa A \<Longrightarrow> cpa_ok (grow_anchors l1 cpa) A"
  by (auto simp: cpa_ok_def grow_anchors_def nth_append)

lemma note_last_ok:
  assumes "cpa_ok cpa A" and "c \<notin># A" and "insert c (set_mset A) \<subseteq> set cs" and "sorted_wrt before cs"
    and "\<forall>c \<in> set cs. in_range c" and "unat (l1num (seq c)) < length cpa"
  shows "\<exists>cpa'. note_last c cpa = Inr cpa' \<and> length cpa' = length cpa \<and> cpa_ok cpa' (add_mset c A)"
proof (cases "is_last c")
  case False
  with assms(1,6) show ?thesis by (auto simp: note_last_def cpa_ok_def Let_def)
next
  case True
  let ?i = "unat (l1num (seq c))"
  have "l2num (seq c) \<noteq> -1" using assms(3,5) by (auto simp: in_range_def)
  have unique: "unat (l1num (seq d)) \<noteq> unat (l1num (seq c))" if "d \<in># A" "is_last d" for d
  proof -
    have "d \<in> set cs" "c \<in> set cs" "c \<noteq> d" using that(1) assms(2,3) by auto
    then show ?thesis using ordered_total [OF assms(4), of c d] that(2) True
      by (auto simp: before_def word_less_nat_alt)
  qed
  have zero: "cpa ! ?i = 0"
  proof (rule ccontr)
    assume "cpa ! ?i \<noteq> 0"
    then obtain d where "d \<in># A" "is_last d" "unat (l1num (seq d)) = ?i" using assms(1,6) by (auto simp: cpa_ok_def)
    with unique show False by blast
  qed
  have "cpa_ok (cpa[?i := l2num (seq c) + 1]) (add_mset c A)"
    using assms(1,6) unique True unique [THEN not_sym]
    by (auto simp: cpa_ok_def nth_list_update)
  with zero True assms(6) show ?thesis by (auto simp: note_last_def Let_def)
qed

definition well_numbered :: "'c rchunk list \<Rightarrow> bool" where
  "well_numbered cs \<longleftrightarrow> gapless (Sequence 0 0) cs \<and> (\<forall>c \<in> set cs. in_range c)"

definition written :: "'c rchunk list \<Rightarrow> nat \<Rightarrow> 'c reorder \<Rightarrow> bool" where
  "written cs n st \<longleftrightarrow> n \<le> length cs \<and> to_file st = map (\<lambda>c. snd (payload c)) (take n cs) \<and>
     next_number st = number_at (Sequence 0 0) cs n"

definition arrived :: "'c rchunk list \<Rightarrow> nat \<Rightarrow> 'c rchunk multiset \<Rightarrow> bool" where
  "arrived cs n A \<longleftrightarrow> mset (take n cs) \<subseteq># A \<and> A \<subseteq># mset cs"

lemma well_numberedD:
  assumes "well_numbered cs"
  shows "sorted_wrt before cs" "\<forall>c \<in> set cs. in_range c" "distinct cs"
    "\<And>n. n < length cs \<Longrightarrow> seq (cs ! n) = number_at (Sequence 0 0) cs n"
    "\<And>n. n < length cs \<Longrightarrow> number_at (Sequence 0 0) cs (Suc n) = follows (cs ! n)"
  using assms gapless_ordered [of "Sequence 0 0" cs] ordered_distinct gapless_nth [of "Sequence 0 0" cs]
  by (auto simp: well_numbered_def)

lemma pending_mem:
  assumes "arrived cs n A" and "distinct cs" and "d \<in># A - mset (take n cs)"
  shows "d \<in># A \<and> d \<in> set (drop n cs)"
proof -
  have "A - mset (take n cs) \<subseteq># mset cs - mset (take n cs)"
    using assms(1) by (simp add: arrived_def subseteq_mset_def diff_le_mono)
  also have "mset cs - mset (take n cs) = mset (drop n cs)"
    by (metis add_diff_cancel_left' append_take_drop_id mset_append)
  finally show ?thesis using assms(3) by (auto dest: mset_subset_eqD in_diffD)
qed

lemma arrived_Suc:
  assumes "arrived cs n A" and "n < length cs" and "cs ! n \<in># A - mset (take n cs)"
  shows "arrived cs (Suc n) A \<and> A - mset (take (Suc n) cs) = A - mset (take n cs) - {#cs ! n#}"
proof -
  have t: "mset (take (Suc n) cs) = add_mset (cs ! n) (mset (take n cs))"
    using assms(2) by (simp add: take_Suc_conv_app_nth)
  have "add_mset (cs ! n) (mset (take n cs)) \<subseteq># A"
    using assms(1,3) by (auto simp: subseteq_mset_def arrived_def in_diff_count Suc_le_eq)
  with assms(1) t show ?thesis by (simp add: arrived_def)
qed

text \<open>Writing goes on until the next chunk has not arrived.\<close>

lemma write_loop_ok:
  assumes "well_numbered cs" and "cpa_ok (chunks_per_anchor st) A"
    and "written cs n st" and "n < length cs" and "arrived cs (Suc n) A"
    and "tree_ok (cached st) (A - mset (take (Suc n) cs))" and "size (A - mset (take (Suc n) cs)) < fuel"
  shows "\<exists>st' m. write_loop fuel (cs ! n) (Retrieve (TreeFindMin Null (cached st))) st = Inr st' \<and>
     written cs m st' \<and> arrived cs m A \<and> tree_ok (cached st') (A - mset (take m cs)) \<and>
     (m < length cs \<longrightarrow> cs ! m \<notin># A) \<and> chunks_per_anchor st' = chunks_per_anchor st"
  using assms(2-)
proof (induction fuel arbitrary: n st)
  case (Suc fuel)
  note wn = well_numberedD [OF assms(1)]
  let ?c = "cs ! n" and ?M = "A - mset (take (Suc n) cs)" and ?s = "number_at (Sequence 0 0) cs (Suc n)"
  let ?st = "st\<lparr>to_file := to_file st @ [snd (payload ?c)], next_number := ?s\<rparr>"
  have mem: "set_mset A \<subseteq> set cs" using Suc.prems(4) by (auto simp: arrived_def dest: mset_subset_eqD)
  have "?c \<in># mset (take (Suc n) cs)" using Suc.prems(3) by (simp add: take_Suc_conv_app_nth)
  then have "?c \<in># A" using Suc.prems(4) unfolding arrived_def by (meson mset_subset_eqD)
  then have "advance (chunks_per_anchor st) (seq ?c) = Inr (follows ?c)"
    by (rule advance_ok [OF Suc.prems(1) mem wn(1,2)])
  moreover have "next_number st = seq ?c" using Suc.prems(2) wn(4) [OF Suc.prems(3)] by (simp add: written_def)
  ultimately have adv: "advance (chunks_per_anchor st) (next_number st) = Inr ?s"
    using wn(5) [OF Suc.prems(3)] by simp
  have w: "written cs (Suc n) ?st"
    using Suc.prems(2,3) by (simp add: written_def take_Suc_conv_app_nth)
  have stop: "\<exists>st' m. Inr ?st = Inr st' \<and> written cs m st' \<and> arrived cs m A \<and>
      tree_ok (cached st') (A - mset (take m cs)) \<and> (m < length cs \<longrightarrow> cs ! m \<notin># A) \<and>
      chunks_per_anchor st' = chunks_per_anchor st"
    if "Suc n < length cs \<Longrightarrow> cs ! Suc n \<notin># ?M"
  proof -
    have "cs ! Suc n \<notin># A" if n: "Suc n < length cs"
    proof
      assume "cs ! Suc n \<in># A"
      moreover have "cs ! Suc n \<notin> set (take (Suc n) cs)"
        using n wn(3) by (auto simp: in_set_conv_nth nth_eq_iff_index_eq)
      ultimately have "cs ! Suc n \<in># ?M" by (simp add: in_diff_count count_eq_zero_iff [THEN iffD2])
      with \<open>Suc n < length cs \<Longrightarrow> cs ! Suc n \<notin># ?M\<close> n show False by blast
    qed
    with w Suc.prems(4,5) show ?thesis by (intro exI [of _ ?st] exI [of _ "Suc n"]) simp
  qed
  show ?case
  proof (cases "Retrieve (TreeFindMin Null (cached st))")
    case None
    then have "?M = {#}" using tree_ok_empty [OF Suc.prems(5)] by blast
    with stop adv None show ?thesis by (simp add: Let_def)
  next
    case (Some e)
    from take_cached_ok [OF Suc.prems(5) Some, of ?s] obtain d where d: "d \<in># ?M" "l1num (seq d) = elem_l1num e"
        "\<forall>y \<in># ?M. seq d \<le> seq y"
        "if seq d = ?s
         then \<exists>T'. take_cached ?s e (cached st) = Inr (Some (d, Retrieve (TreeFindMin Null T'), T')) \<and> tree_ok T' (?M - {#d#})
         else take_cached ?s e (cached st) = Inr None" by blast
    from pending_mem [OF Suc.prems(4) wn(3) d(1)] have dd: "d \<in> set (drop (Suc n) cs)" "d \<in> set cs"
      using in_set_dropD by fastforce+
    then have n: "Suc n < length cs" by (cases "Suc n < length cs") auto
    have s: "?s = seq (cs ! Suc n)" using wn(4) [OF n] by simp
    show ?thesis
    proof (cases "seq d = ?s")
      case True
      then have d_eq: "d = cs ! Suc n" using ordered_inj [OF wn(1) dd(2)] n s by simp
      from True d(4) obtain T' where T': "take_cached ?s e (cached st) = Inr (Some (d, Retrieve (TreeFindMin Null T'), T'))"
          "tree_ok T' (?M - {#d#})" by auto
      have a: "arrived cs (Suc (Suc n)) A" "A - mset (take (Suc (Suc n)) cs) = ?M - {#d#}"
        using arrived_Suc [OF Suc.prems(4) n] d(1) d_eq by simp_all
      have "size (?M - {#d#}) = size ?M - 1" by (rule size_Diff_singleton [OF d(1)])
      moreover have "?M \<noteq> {#}" using d(1) by auto
      ultimately have "size (?M - {#d#}) < fuel" using Suc.prems(6) by (metis Suc_diff_1 Suc_less_SucD nonempty_has_size)
      with Suc.IH [of "?st\<lparr>cached := T'\<rparr>" "Suc n"] Suc.prems(1) w n a T'(2) d_eq
      have "\<exists>st' m. write_loop fuel d (Retrieve (TreeFindMin Null T')) (?st\<lparr>cached := T'\<rparr>) = Inr st' \<and>
          written cs m st' \<and> arrived cs m A \<and> tree_ok (cached st') (A - mset (take m cs)) \<and>
          (m < length cs \<longrightarrow> cs ! m \<notin># A) \<and> chunks_per_anchor st' = chunks_per_anchor st"
        by (simp add: written_def)
      moreover have "elem_l1num e = l1num ?s" using d(2) True by simp
      ultimately show ?thesis using adv Some T'(1) by (simp add: Let_def)
    next
      case False
      have "cs ! Suc n \<notin># ?M"
      proof
        assume "cs ! Suc n \<in># ?M"
        then have "seq d \<le> seq (cs ! Suc n)" using d(3) by blast
        moreover have "d \<noteq> cs ! Suc n" using False s by auto
        then have "before (cs ! Suc n) d"
        proof -
          obtain j where j: "j < length cs - Suc n" "d = cs ! (Suc n + j)"
            using dd(1) by (auto simp: in_set_conv_nth)
          with \<open>d \<noteq> cs ! Suc n\<close> have "Suc n < Suc n + j" by (cases j) auto
          with j sorted_wrt_nth_less [OF wn(1)] show ?thesis by simp
        qed
        ultimately show False by (auto simp: before_def)
      qed
      moreover from False d(4) have "take_cached ?s e (cached st) = Inr None" by simp
      ultimately show ?thesis using adv Some stop by (simp add: Let_def)
    qed
  qed
qed simp

definition reorder_inv :: "'c rchunk list \<Rightarrow> 'c rchunk multiset \<Rightarrow> 'c reorder \<Rightarrow> bool" where
  "reorder_inv cs A st \<longleftrightarrow> cpa_ok (chunks_per_anchor st) A \<and>
     (\<exists>n. written cs n st \<and> arrived cs n A \<and> tree_ok (cached st) (A - mset (take n cs)) \<and>
       (n < length cs \<longrightarrow> cs ! n \<notin># A))"

lemma receive_ok:
  assumes wn: "well_numbered cs" and inv: "reorder_inv cs A st" and sub: "add_mset c A \<subseteq># mset cs"
    and fits: "unat (l1num (seq c)) < 2 * length (chunks_per_anchor st)"
  shows "\<exists>st'. reorder_receive True c st = Inr st' \<and> reorder_inv cs (add_mset c A) st' \<and>
     length (chunks_per_anchor st') = length (grow_anchors (l1num (seq c)) (chunks_per_anchor st))"
proof -
  note w = well_numberedD [OF wn]
  obtain n where n: "written cs n st" "arrived cs n A" "tree_ok (cached st) (A - mset (take n cs))"
      "n < length cs \<longrightarrow> cs ! n \<notin># A" using inv by (auto simp: reorder_inv_def)
  have mem: "insert c (set_mset A) \<subseteq> set cs" using mset_subset_eqD [OF sub] by auto
  have "count (mset cs) c \<le> 1" using w(3) by (simp add: distinct_count_atmost_1)
  moreover have "count (add_mset c A) c \<le> count (mset cs) c" using sub unfolding subseteq_mset_def by (rule spec)
  ultimately have new: "c \<notin># A" by (simp add: count_eq_zero_iff [symmetric])
  have bound: "unat (l1num (seq c)) < length (grow_anchors (l1num (seq c)) (chunks_per_anchor st))"
    using fits by (simp add: grow_anchors_def)
  obtain cpa where cpa: "note_last c (grow_anchors (l1num (seq c)) (chunks_per_anchor st)) = Inr cpa"
      "length cpa = length (grow_anchors (l1num (seq c)) (chunks_per_anchor st))" "cpa_ok cpa (add_mset c A)"
    using note_last_ok [OF grow_ok new mem w(1,2) bound] inv by (auto simp: reorder_inv_def)
  let ?st = "st\<lparr>chunks_per_anchor := cpa\<rparr>"
  show ?thesis
  proof (cases "seq c = next_number st")
    case False
    obtain T where T: "cache_chunk True c (cached st) = Inr T" "tree_ok T (add_mset c (A - mset (take n cs)))"
      using cache_chunk_ok [OF n(3)] by blast
    have "mset (take n cs) \<subseteq># A" using n(2) by (simp add: arrived_def)
    then have "add_mset c (A - mset (take n cs)) = add_mset c A - mset (take n cs)"
      by (simp add: multiset_eq_iff subseteq_mset_def Suc_diff_le)
    moreover have "n < length cs \<longrightarrow> cs ! n \<notin># add_mset c A"
      using False n(1,4) w(4) by (auto simp: written_def)
    moreover have "arrived cs n (add_mset c A)"
      using n(2) sub by (auto simp: arrived_def intro: subset_mset.order_trans)
    ultimately have "reorder_inv cs (add_mset c A) (?st\<lparr>cached := T\<rparr>)"
      using cpa(3) n(1) T(2) unfolding reorder_inv_def by (intro conjI exI [of _ n]) (simp_all add: written_def)
    then show ?thesis using cpa(1,2) T(1) False
      by (simp add: reorder_receive_def sequence_eq_iff Let_def)
  next
    case True
    have "c \<notin> set (take n cs)"
    proof
      assume "c \<in> set (take n cs)"
      then have "c \<in># A" using n(2) by (auto simp: arrived_def dest: mset_subset_eqD)
      with new show False ..
    qed
    moreover have "c \<in> set cs" using mem by simp
    ultimately have "n < length cs" by (cases "n < length cs") auto
    with True n(1) w(4) ordered_inj [OF w(1) \<open>c \<in> set cs\<close>, of "cs ! n"] have c: "c = cs ! n"
      by (simp add: written_def)
    have take: "mset (take (Suc n) cs) = add_mset c (mset (take n cs))"
      using \<open>n < length cs\<close> c by (simp add: take_Suc_conv_app_nth)
    then have arr: "arrived cs (Suc n) (add_mset c A)" "add_mset c A - mset (take (Suc n) cs) = A - mset (take n cs)"
      using n(2) sub by (auto simp: arrived_def)
    have "size (A - mset (take n cs)) < Suc (tree_chunks (cached st))" using tree_chunks_size [OF n(3)] by simp
    with write_loop_ok [OF wn, of ?st "add_mset c A" n "Suc (tree_chunks (cached st))"] cpa(3) n(1,3) arr \<open>n < length cs\<close> c
    obtain st' m where "write_loop (Suc (tree_chunks (cached st))) c (Retrieve (TreeFindMin Null (cached st))) ?st = Inr st'"
      "written cs m st'" "arrived cs m (add_mset c A)" "tree_ok (cached st') (add_mset c A - mset (take m cs))"
      "m < length cs \<longrightarrow> cs ! m \<notin># add_mset c A" "chunks_per_anchor st' = cpa"
      by (auto simp: written_def)
    then show ?thesis using cpa True
      by (auto simp: reorder_receive_def reorder_inv_def sequence_eq_iff Let_def simp del: write_loop.simps)
  qed
qed

text \<open>No chunk comes more than one doubling ahead of the array.\<close>

fun fits_anchors :: "nat \<Rightarrow> 'c rchunk list \<Rightarrow> bool" where
  "fits_anchors m [] = True"
| "fits_anchors m (c # cs) = (unat (l1num (seq c)) < 2 * m \<and>
     fits_anchors (if unat (l1num (seq c)) \<ge> m then 2 * m else m) cs)"

lemma receive_all_ok:
  assumes "well_numbered cs"
  shows "reorder_inv cs A st \<Longrightarrow> A + mset xs \<subseteq># mset cs \<Longrightarrow> fits_anchors (length (chunks_per_anchor st)) xs \<Longrightarrow>
     \<exists>st'. receive_all True xs st = Inr st' \<and> reorder_inv cs (A + mset xs) st'"
proof (induction xs arbitrary: A st)
  case (Cons c xs)
  have sub: "add_mset c A \<subseteq># mset cs"
    by (rule subset_mset.order_trans [OF _ Cons.prems(2)]) simp
  obtain st1 where st1: "reorder_receive True c st = Inr st1" "reorder_inv cs (add_mset c A) st1"
      "length (chunks_per_anchor st1) = length (grow_anchors (l1num (seq c)) (chunks_per_anchor st))"
    using receive_ok [OF assms Cons.prems(1) sub] Cons.prems(3) by auto
  have "fits_anchors (length (chunks_per_anchor st1)) xs"
    using Cons.prems(3) st1(3) by (auto simp: grow_anchors_def mult_2)
  with Cons.IH [OF st1(2)] Cons.prems(2) st1(1) show ?case by simp
qed simp

lemma reorder_start_inv: "reorder_inv cs {#} reorder_start"
  unfolding reorder_inv_def
  by (intro conjI exI [of _ 0]; cases cs)
    (auto simp: cpa_ok_def written_def arrived_def tree_ok_def reorder_start_def sequence_reset_def)

lemma reorder_correct:
  assumes "well_numbered cs" and "mset arrivals = mset cs" and "fits_anchors 1024 arrivals"
  shows "\<exists>st. Reorder True arrivals = Inr st \<and> to_file st = map (\<lambda>c. snd (payload c)) cs"
proof -
  have "fits_anchors (length (chunks_per_anchor (reorder_start :: 'a reorder))) arrivals"
    using assms(3) by (simp add: reorder_start_def)
  then obtain st where st: "receive_all True arrivals reorder_start = Inr st" "reorder_inv cs (mset cs) st"
    using receive_all_ok [OF assms(1) reorder_start_inv, of arrivals] assms(2) by auto
  then obtain n where n: "written cs n st" "tree_ok (cached st) (mset cs - mset (take n cs))"
      "n < length cs \<longrightarrow> cs ! n \<notin># mset cs" by (auto simp: reorder_inv_def)
  then have "n = length cs" by (auto simp: written_def)
  with n have "to_file st = map (\<lambda>c. snd (payload c)) cs" "Retrieve (TreeFindMin Null (cached st)) = None"
    using tree_ok_empty [OF n(2)] by (auto simp: written_def)
  with st(1) show ?thesis by (cases "tree_chunks (cached st)") (simp_all add: Reorder_def)
qed

text \<open>C14. The reorder stage restores the order: from whatever order the chunks arrive in, it writes all of
  them exactly in the order of their sequence numbers, runs into no assertion and no mismatch, and its loops
  end. The chunks are numbered without a gap and no chunk arrives more than one doubling of the anchor array
  early.\<close>

theorem dedup_reorder_in_order:
  assumes "well_numbered cs" and "mset arrivals = mset cs" and "fits_anchors 1024 arrivals"
  shows "\<exists>st. Reorder True arrivals = Inr st \<and> to_file st = map (\<lambda>c. snd (payload c)) cs"
  by (rule reorder_correct [OF assms])

definition sample_chunks :: "nat rchunk list" where
  "sample_chunks = [\<lparr>seq = Sequence 0 0, payload = (False, 10)\<rparr>, \<lparr>seq = Sequence 0 1, payload = (True, 11)\<rparr>,
     \<lparr>seq = Sequence 1 0, payload = (True, 12)\<rparr>]"

theorem dedup_reorder_in_order_witness:
  "\<exists>st. Reorder True (rev sample_chunks) = Inr st \<and> to_file st = [10, 11, 12]"
proof -
  have "well_numbered sample_chunks"
    by (simp add: well_numbered_def sample_chunks_def follows_def is_last_def in_range_def
        sequence_inc_l1_def sequence_inc_l2_def)
  moreover have "fits_anchors 1024 (rev sample_chunks)" by (simp add: sample_chunks_def)
  ultimately show ?thesis
    using dedup_reorder_in_order [of sample_chunks "rev sample_chunks"] by (simp add: sample_chunks_def)
qed

text \<open>C31. The anchor array is doubled only once for a chunk: the last chunk of a coarse chunk whose number is
  twice the length of the array, or more, makes the stage write behind the array.\<close>

theorem dedup_reorder_anchor_overflow:
  assumes "unat (l1num (seq c)) \<ge> 2 * length (chunks_per_anchor st)" and "is_last c"
    and "chunks_per_anchor st \<noteq> []"
  shows "reorder_receive mem c st = Inl ''out of bounds''"
  using assms by (simp add: reorder_receive_def note_last_def grow_anchors_def)

theorem dedup_reorder_anchor_overflow_witness:
  "reorder_receive True \<lparr>seq = Sequence 2048 0, payload = (True, 5 :: nat)\<rparr> reorder_start = Inl ''out of bounds''"
  by (rule dedup_reorder_anchor_overflow) (simp_all add: reorder_start_def is_last_def)

end
