(* ===== verification/Dedup_Parallel.thy ===== *)
theory Dedup_Parallel
  imports Dedup_Fragment Dedup_Reorder
begin

text \<open>
  The stages of the parallel encoder of \<open>samples/dedup/encoder.c\<close> that share chunks: \<open>sub_Deduplicate\<close>,
  \<open>sub_Compress\<close> and \<open>write_chunk_to_file\<close>, run by any number of threads on any chunks in any order. A
  chunk is known by its number \<open>i\<close>. Each kernel runs under a lock (the bucket of the table, the chunk), so
  it is one step. A duplicate refers to the unique chunk with the same SHA-1 sum, which may come later in
  the input and may not be compressed yet.
\<close>

datatype chunk_state_t = CHUNK_STATE_UNCOMPRESSED | CHUNK_STATE_COMPRESSED | CHUNK_STATE_FLUSHED

record chunk_t =
  isDuplicate :: bool
  state :: chunk_state_t
  chunk_sha1 :: sha1
  uncompressed_data :: "uchar list"
  compressed_data :: "uchar list"
  compressed_data_ref :: nat

record par_memory =
  chunk :: "nat \<Rightarrow> chunk_t"
  par_cache :: "nat cache"
  par_out :: "uchar list"

text \<open>The lookup and the insertion are made under the lock of the bucket; a duplicate gives its data back.\<close>

definition par_Deduplicate :: "env \<Rightarrow> nat \<Rightarrow> par_memory \<Rightarrow> string + (bool \<times> par_memory)" where
  "par_Deduplicate ev i m =
     (let sh = SHA1_Digest ev (uncompressed_data (chunk m i));
          m1 = m\<lparr>chunk := (chunk m)(i := chunk m i\<lparr>chunk_sha1 := sh\<rparr>)\<rparr>
      in case hashtable_search hash_from_key_fn keys_equal_fn (par_cache m1) sh of
          None \<Rightarrow>
            (case cache_insert ev sh i (par_cache m1) of
                Inl e \<Rightarrow> Inl e
              | Inr c \<Rightarrow> Inr (False, m1\<lparr>par_cache := c, chunk := (chunk m1)(i := chunk m1 i\<lparr>isDuplicate := False\<rparr>)\<rparr>))
        | Some entry \<Rightarrow>
            Inr (True, m1\<lparr>chunk := (chunk m1)(i := chunk m1 i\<lparr>isDuplicate := True, compressed_data_ref := entry,
              uncompressed_data := []\<rparr>)\<rparr>))"

definition par_Compress :: "env \<Rightarrow> int \<Rightarrow> nat \<Rightarrow> par_memory \<Rightarrow> string + par_memory" where
  "par_Compress ev ty i m =
     (if state (chunk m i) \<noteq> CHUNK_STATE_UNCOMPRESSED then Inl ''assertion failed''
      else case sub_Compress ev ty (uncompressed_data (chunk m i)) of
          Inl e \<Rightarrow> Inl e
        | Inr cdata \<Rightarrow> Inr (m\<lparr>chunk := (chunk m)(i := chunk m i\<lparr>compressed_data := cdata, uncompressed_data := [],
            state := CHUNK_STATE_COMPRESSED\<rparr>)\<rparr>))"

text \<open>\<open>None\<close> while the thread waits for the data to be compressed.\<close>

definition par_write_chunk_to_file :: "nat \<Rightarrow> par_memory \<Rightarrow> par_memory option" where
  "par_write_chunk_to_file i m =
     (let j = (if isDuplicate (chunk m i) then compressed_data_ref (chunk m i) else i); c = chunk m j
      in case state c of
          CHUNK_STATE_UNCOMPRESSED \<Rightarrow> None
        | CHUNK_STATE_COMPRESSED \<Rightarrow> Some (m\<lparr>
            par_out := par_out m @ write_file TYPE_COMPRESS (length (compressed_data c)) (compressed_data c),
            chunk := (chunk m)(j := c\<lparr>compressed_data := [], state := CHUNK_STATE_FLUSHED\<rparr>)\<rparr>)
        | CHUNK_STATE_FLUSHED \<Rightarrow>
            Some (m\<lparr>par_out := par_out m @ write_file TYPE_FINGERPRINT SHA1_LEN (sha1_bytes (chunk_sha1 c))\<rparr>))"

section \<open>The threads\<close>

text \<open>Where a chunk is: in the deduplication stage, in the compression stage, on the way to the file, or
  written. \<open>todo\<close> is what \<open>Reorder\<close> still has to write, in order.\<close>

datatype place = In_deduplicate | In_compress | In_reorder | Gone

record par_sys =
  mem :: par_memory
  place :: "nat \<Rightarrow> place"
  todo :: "nat list"

inductive par_step :: "env \<Rightarrow> int \<Rightarrow> par_sys \<Rightarrow> par_sys \<Rightarrow> bool" for ev ty where
  dedup_one: "place s i = In_deduplicate \<Longrightarrow> par_Deduplicate ev i (mem s) = Inr (dup, m) \<Longrightarrow>
     par_step ev ty s (s\<lparr>mem := m, place := (place s)(i := if dup then In_reorder else In_compress)\<rparr>)"
| compress_one: "place s i = In_compress \<Longrightarrow> par_Compress ev ty i (mem s) = Inr m \<Longrightarrow>
     par_step ev ty s (s\<lparr>mem := m, place := (place s)(i := In_reorder)\<rparr>)"
| write_one: "todo s = i # rest \<Longrightarrow> place s i = In_reorder \<Longrightarrow> par_write_chunk_to_file i (mem s) = Some m \<Longrightarrow>
     par_step ev ty s (s\<lparr>mem := m, place := (place s)(i := Gone), todo := rest\<rparr>)"

text \<open>The chunks \<open>0, 1, \<dots>\<close> with the data \<open>ds\<close> have left the fragmentation stages.\<close>

definition par_start :: "env \<Rightarrow> int \<Rightarrow> uchar list list \<Rightarrow> par_sys \<Rightarrow> bool" where
  "par_start ev ty ds s \<longleftrightarrow>
     (\<exists>c. hashtable_create False (load_limit ev) (table_mem ev) 65536 = Some c \<and>
        par_cache (mem s) = c) \<and>
     par_out (mem s) = write_header (word_of_int ty) \<and>
     (\<forall>i < length ds. uncompressed_data (chunk (mem s) i) = ds ! i \<and>
        state (chunk (mem s) i) = CHUNK_STATE_UNCOMPRESSED) \<and>
     place s = (\<lambda>i. if i < length ds then In_deduplicate else Gone) \<and> todo s = [0 ..< length ds]"

definition par_reachable :: "env \<Rightarrow> int \<Rightarrow> uchar list list \<Rightarrow> par_sys \<Rightarrow> bool" where
  "par_reachable ev ty ds s \<longleftrightarrow> (\<exists>s0. par_start ev ty ds s0 \<and> (par_step ev ty)\<^sup>*\<^sup>* s0 s)"

section \<open>The invariant\<close>

text \<open>\<open>f\<close> is the cache as a map, \<open>n\<close> the number of chunks written.\<close>

definition chunk_inv :: "env \<Rightarrow> int \<Rightarrow> uchar list \<Rightarrow> (sha1 \<Rightarrow> nat option) \<Rightarrow> place \<Rightarrow> nat \<Rightarrow> chunk_t \<Rightarrow> bool" where
  "chunk_inv ev ty d f pl i c \<longleftrightarrow>
     (pl = In_deduplicate \<longrightarrow> uncompressed_data c = d \<and> state c = CHUNK_STATE_UNCOMPRESSED \<and>
        f (SHA1_Digest ev d) \<noteq> Some i) \<and>
     (pl \<noteq> In_deduplicate \<longrightarrow>
        f (SHA1_Digest ev d) = Some (if isDuplicate c then compressed_data_ref c else i) \<and>
        (isDuplicate c \<longrightarrow> compressed_data_ref c \<noteq> i)) \<and>
     (pl \<noteq> In_deduplicate \<and> \<not> isDuplicate c \<longrightarrow> chunk_sha1 c = SHA1_Digest ev d \<and>
        (state c = CHUNK_STATE_COMPRESSED \<longrightarrow> sub_Compress ev ty d = Inr (compressed_data c)) \<and>
        (state c = CHUNK_STATE_UNCOMPRESSED \<longleftrightarrow> pl = In_compress)) \<and>
     (pl = In_compress \<longrightarrow> uncompressed_data c = d \<and> \<not> isDuplicate c)"

definition flushed_ok :: "env \<Rightarrow> uchar list list \<Rightarrow> nat \<Rightarrow> (sha1 \<Rightarrow> nat option) \<Rightarrow> (nat \<Rightarrow> chunk_t) \<Rightarrow> bool" where
  "flushed_ok ev ds n f ch \<longleftrightarrow>
     (\<forall>sh i. f sh = Some i \<longrightarrow> i < length ds \<and> SHA1_Digest ev (ds ! i) = sh \<and> \<not> isDuplicate (ch i) \<and>
        (state (ch i) = CHUNK_STATE_FLUSHED \<longleftrightarrow> sh \<in> SHA1_Digest ev ` set (take n ds)))"

definition par_inv :: "env \<Rightarrow> int \<Rightarrow> uchar list list \<Rightarrow> (sha1 \<Rightarrow> nat option) \<Rightarrow> nat \<Rightarrow> par_sys \<Rightarrow> bool" where
  "par_inv ev ty ds f n s \<longleftrightarrow>
     holds_map (par_cache (mem s)) f \<and> n \<le> length ds \<and> todo s = [n ..< length ds] \<and>
     (\<exists>rs. chunk_records ev ty {} (take n ds) = Inr rs \<and>
        par_out (mem s) = write_header (word_of_int ty) @ archive_bytes rs) \<and>
     (\<forall>i < length ds. chunk_inv ev ty (ds ! i) f (place s i) i (chunk (mem s) i)) \<and>
     (\<forall>i. place s i \<noteq> Gone \<longleftrightarrow> n \<le> i \<and> i < length ds) \<and>
     flushed_ok ev ds n f (chunk (mem s))"

lemma chunk_records_append:
  "chunk_records ev ty S (xs @ ys) =
     (case chunk_records ev ty S xs of
        Inl e \<Rightarrow> Inl e
      | Inr rs \<Rightarrow> map_sum id (\<lambda>qs. rs @ qs) (chunk_records ev ty (S \<union> SHA1_Digest ev ` set xs) ys))"
proof (induction xs arbitrary: S)
  case Nil
  then show ?case by (cases "chunk_records ev ty S ys") simp_all
next
  case (Cons x xs)
  show ?case
  proof (cases "SHA1_Digest ev x \<in> S")
    case True
    then have eq: "S \<union> SHA1_Digest ev ` set (x # xs) = S \<union> SHA1_Digest ev ` set xs" by auto
    show ?thesis unfolding eq using True Cons [of S]
      by (cases "chunk_records ev ty S xs"; cases "chunk_records ev ty (S \<union> SHA1_Digest ev ` set xs) ys")
        (simp_all add: Let_def)
  next
    case False
    let ?S = "insert (SHA1_Digest ev x) S"
    have eq: "S \<union> SHA1_Digest ev ` set (x # xs) = ?S \<union> SHA1_Digest ev ` set xs" by auto
    show ?thesis unfolding eq using False Cons [of ?S]
      by (cases "sub_Compress ev ty x"; cases "chunk_records ev ty ?S xs";
          cases "chunk_records ev ty (?S \<union> SHA1_Digest ev ` set xs) ys")
        (simp_all add: Let_def)
  qed
qed

lemma archive_bytes_append: "archive_bytes (rs @ qs) = archive_bytes rs @ archive_bytes qs"
  by (simp add: archive_bytes_def)

lemma par_invD:
  assumes "par_inv ev ty ds f n s"
  shows "holds_map (par_cache (mem s)) f" "n \<le> length ds" "todo s = [n ..< length ds]"
    "\<And>i. i < length ds \<Longrightarrow> chunk_inv ev ty (ds ! i) f (place s i) i (chunk (mem s) i)"
    "\<And>i. place s i \<noteq> Gone \<longleftrightarrow> n \<le> i \<and> i < length ds"
    "flushed_ok ev ds n f (chunk (mem s))"
    "\<exists>rs. chunk_records ev ty {} (take n ds) = Inr rs \<and>
        par_out (mem s) = write_header (word_of_int ty) @ archive_bytes rs"
  using assms by (auto simp: par_inv_def)

lemma par_invI:
  assumes "holds_map (par_cache (mem s)) f" "n \<le> length ds" "todo s = [n ..< length ds]"
    "\<And>i. i < length ds \<Longrightarrow> chunk_inv ev ty (ds ! i) f (place s i) i (chunk (mem s) i)"
    "\<And>i. place s i \<noteq> Gone \<longleftrightarrow> n \<le> i \<and> i < length ds"
    "flushed_ok ev ds n f (chunk (mem s))"
    "\<exists>rs. chunk_records ev ty {} (take n ds) = Inr rs \<and>
        par_out (mem s) = write_header (word_of_int ty) @ archive_bytes rs"
  shows "par_inv ev ty ds f n s"
  using assms by (auto simp: par_inv_def)

lemma flushed_okD:
  assumes "flushed_ok ev ds n f ch" and "f sh = Some i"
  shows "i < length ds" "SHA1_Digest ev (ds ! i) = sh" "\<not> isDuplicate (ch i)"
    "state (ch i) = CHUNK_STATE_FLUSHED \<longleftrightarrow> sh \<in> SHA1_Digest ev ` set (take n ds)"
  using assms by (auto simp: flushed_ok_def)

lemma par_inv_deduplicate:
  assumes inv: "par_inv ev ty ds f n s" and pl: "place s i = In_deduplicate"
    and d: "par_Deduplicate ev i (mem s) = Inr (dup, m)" and len: "\<forall>d. length (SHA1_Digest ev d) = 5"
  shows "\<exists>f'. par_inv ev ty ds f' n (s\<lparr>mem := m, place := (place s)(i := if dup then In_reorder else In_compress)\<rparr>)"
proof -
  note I = par_invD [OF inv]
  have i: "i < length ds" "n \<le> i" using I(5) [of i] pl by auto
  let ?sh = "SHA1_Digest ev (ds ! i)"
  have ci: "uncompressed_data (chunk (mem s) i) = ds ! i" "state (chunk (mem s) i) = CHUNK_STATE_UNCOMPRESSED"
      "f ?sh \<noteq> Some i" using I(4) [OF i(1)] pl by (auto simp: chunk_inv_def)
  have s: "hashtable_search hash_from_key_fn keys_equal_fn (par_cache (mem s)) ?sh = f ?sh"
    using holds_map_search [OF I(1)] len by blast
  show ?thesis
  proof (cases "f ?sh")
    case (Some e)
    have other: "j \<noteq> i" if "f sh = Some j" for sh j
      using flushed_okD(2) [OF I(6) that] ci(3) that by auto
    from d s Some ci(1) have m: "dup" "m = mem s\<lparr>chunk := (chunk (mem s))(i := chunk (mem s) i\<lparr>chunk_sha1 := ?sh,
        isDuplicate := True, compressed_data_ref := e, uncompressed_data := []\<rparr>)\<rparr>"
      by (auto simp: par_Deduplicate_def Let_def)
    have "par_inv ev ty ds f n (s\<lparr>mem := m, place := (place s)(i := In_reorder)\<rparr>)"
    proof (rule par_invI)
      fix j assume "j < length ds"
      then show "chunk_inv ev ty (ds ! j) f (place (s\<lparr>mem := m, place := (place s)(i := In_reorder)\<rparr>) j) j
          (chunk (mem (s\<lparr>mem := m, place := (place s)(i := In_reorder)\<rparr>)) j)"
        using I(4) [of j] Some other [OF Some] by (auto simp: m(2) chunk_inv_def)
    next
      show "flushed_ok ev ds n f (chunk (mem (s\<lparr>mem := m, place := (place s)(i := In_reorder)\<rparr>)))"
        using I(6) other by (auto simp: m(2) flushed_ok_def)
    qed (use I i m(2) in auto)
    with m(1) show ?thesis by auto
  next
    case None
    obtain c where c: "cache_insert ev ?sh i (par_cache (mem s)) = Inr c" "holds_map c (f(?sh \<mapsto> i))"
    proof -
      have "entry_mem ev"
        using d s None ci(1) cache_insert_memory [of ev ?sh i "par_cache (mem s)"]
        by (auto simp: par_Deduplicate_def Let_def split: sum.splits)
      then show ?thesis using holds_map_insert [OF I(1) _ None] len that by blast
    qed
    with d s None ci(1) have m: "\<not> dup" "m = mem s\<lparr>par_cache := c, chunk := (chunk (mem s))(i :=
        chunk (mem s) i\<lparr>chunk_sha1 := ?sh, isDuplicate := False\<rparr>)\<rparr>"
      by (auto simp: par_Deduplicate_def Let_def)
    let ?s = "s\<lparr>mem := m, place := (place s)(i := In_compress)\<rparr>"
    have other: "j \<noteq> i" if "f sh = Some j" for sh j
      using flushed_okD(2) [OF I(6) that] ci(3) that by auto
    have fresh: "?sh \<notin> SHA1_Digest ev ` set (take n ds)"
    proof
      assume "?sh \<in> SHA1_Digest ev ` set (take n ds)"
      then obtain k where k: "k < n" "?sh = SHA1_Digest ev (ds ! k)" using I(2) by (auto simp: in_set_conv_nth)
      moreover have "place s k = Gone" using I(5) [of k] k(1) by auto
      moreover have "k < length ds" using k(1) I(2) by simp
      ultimately show False using I(4) [of k] None by (auto simp: chunk_inv_def)
    qed
    have "par_inv ev ty ds (f(?sh \<mapsto> i)) n ?s"
    proof (rule par_invI)
      fix j assume j: "j < length ds"
      show "chunk_inv ev ty (ds ! j) (f(?sh \<mapsto> i)) (place ?s j) j (chunk (mem ?s) j)"
        using I(4) [OF j] ci None by (cases "j = i") (auto simp: m(2) chunk_inv_def)
    next
      show "flushed_ok ev ds n (f(?sh \<mapsto> i)) (chunk (mem ?s))"
        using I(6) other ci(2) i(1) fresh by (auto simp: m(2) flushed_ok_def)
    qed (use I i m(2) c in auto)
    with m(1) show ?thesis by auto
  qed
qed

lemma par_inv_compress:
  assumes inv: "par_inv ev ty ds f n s" and pl: "place s i = In_compress"
    and c: "par_Compress ev ty i (mem s) = Inr m"
  shows "par_inv ev ty ds f n (s\<lparr>mem := m, place := (place s)(i := In_reorder)\<rparr>)" (is "par_inv ev ty ds f n ?s")
proof -
  note I = par_invD [OF inv]
  have i: "i < length ds" "n \<le> i" using I(5) [of i] pl by auto
  have ci: "uncompressed_data (chunk (mem s) i) = ds ! i" "\<not> isDuplicate (chunk (mem s) i)"
      "f (SHA1_Digest ev (ds ! i)) = Some i" "state (chunk (mem s) i) = CHUNK_STATE_UNCOMPRESSED"
      "chunk_sha1 (chunk (mem s) i) = SHA1_Digest ev (ds ! i)"
    using I(4) [OF i(1)] pl by (auto simp: chunk_inv_def)
  with c obtain cdata where m: "sub_Compress ev ty (ds ! i) = Inr cdata"
      "m = mem s\<lparr>chunk := (chunk (mem s))(i := chunk (mem s) i\<lparr>compressed_data := cdata, uncompressed_data := [],
            state := CHUNK_STATE_COMPRESSED\<rparr>)\<rparr>"
    by (auto simp: par_Compress_def split: sum.splits)
  show ?thesis
  proof (rule par_invI)
    fix j assume "j < length ds"
    then show "chunk_inv ev ty (ds ! j) f (place ?s j) j (chunk (mem ?s) j)"
      using I(4) [of j] ci m(1) by (auto simp: m(2) chunk_inv_def)
  next
    show "flushed_ok ev ds n f (chunk (mem ?s))"
      unfolding flushed_ok_def
    proof (intro allI impI)
      fix sh j assume f: "f sh = Some j"
      from flushed_okD [OF I(6) f] ci(4) show "j < length ds \<and> SHA1_Digest ev (ds ! j) = sh \<and>
          \<not> isDuplicate (chunk (mem ?s) j) \<and>
          (state (chunk (mem ?s) j) = CHUNK_STATE_FLUSHED \<longleftrightarrow> sh \<in> SHA1_Digest ev ` set (take n ds))"
        by (cases "j = i") (simp_all add: m(2))
    qed
  qed (use I i m(2) in auto)
qed

lemma take_Suc_records:
  assumes "n < length ds" and "chunk_records ev ty {} (take n ds) = Inr rs"
  shows "chunk_records ev ty {} (take (Suc n) ds) =
     (if SHA1_Digest ev (ds ! n) \<in> SHA1_Digest ev ` set (take n ds)
      then Inr (rs @ [Duplicate_of (SHA1_Digest ev (ds ! n))])
      else map_sum id (\<lambda>c. rs @ [Compressed c]) (sub_Compress ev ty (ds ! n)))"
  using assms by (simp add: take_Suc_conv_app_nth chunk_records_append Let_def split: sum.splits)

lemma chunk_inv_gone: "chunk_inv ev ty d f In_reorder k c \<Longrightarrow> chunk_inv ev ty d f Gone k c"
  by (simp add: chunk_inv_def)

lemma chunk_inv_flush:
  "chunk_inv ev ty d f pl k c \<Longrightarrow> pl \<noteq> In_deduplicate \<Longrightarrow> pl \<noteq> In_compress \<Longrightarrow> \<not> isDuplicate c \<Longrightarrow>
     chunk_inv ev ty d f pl k (c\<lparr>compressed_data := [], state := CHUNK_STATE_FLUSHED\<rparr>)"
  by (simp add: chunk_inv_def)

text \<open>Whether a chunk is written as data or as a sum depends only on what has been written before.\<close>

lemma par_inv_write:
  assumes inv: "par_inv ev ty ds f n s" and todo: "todo s = i # rest" and pl: "place s i = In_reorder"
    and w: "par_write_chunk_to_file i (mem s) = Some m" and inj: "inj_on (SHA1_Digest ev) (set ds)"
  shows "par_inv ev ty ds f (Suc n) (s\<lparr>mem := m, place := (place s)(i := Gone), todo := rest\<rparr>)"
    (is "par_inv ev ty ds f (Suc n) ?s")
proof -
  note I = par_invD [OF inv]
  have n: "i = n" "rest = [Suc n ..< length ds]" "n < length ds"
    using I(3) todo by (cases "n < length ds"; simp add: upt_conv_Cons)+
  let ?sh = "SHA1_Digest ev (ds ! n)" and ?c = "chunk (mem s) n"
  define j where "j = (if isDuplicate ?c then compressed_data_ref ?c else n)"
  have j: "f ?sh = Some j" using I(4) [OF n(3)] pl n(1) by (auto simp: chunk_inv_def j_def)
  note J = flushed_okD [OF I(6) j]
  have same: "ds ! j = ds ! n" using inj J(1,2) n(3) by (auto simp: inj_on_def)
  let ?cj = "chunk (mem s) j"
  have notwait: "state ?cj \<noteq> CHUNK_STATE_UNCOMPRESSED"
    using w n(1) by (auto simp: par_write_chunk_to_file_def j_def [symmetric] Let_def split: chunk_state_t.splits)
  have plj: "place s j \<noteq> In_deduplicate" using I(4) [OF J(1)] j J(2) by (auto simp: chunk_inv_def)
  with I(4) [OF J(1)] J(2,3) notwait have cj: "chunk_sha1 ?cj = ?sh" "place s j \<noteq> In_compress"
      "state ?cj = CHUNK_STATE_COMPRESSED \<Longrightarrow> sub_Compress ev ty (ds ! j) = Inr (compressed_data ?cj)"
    by (auto simp: chunk_inv_def)
  obtain rs where rs: "chunk_records ev ty {} (take n ds) = Inr rs"
      "par_out (mem s) = write_header (word_of_int ty) @ archive_bytes rs" using I(7) by blast
  have taken: "SHA1_Digest ev ` set (take (Suc n) ds) = insert ?sh (SHA1_Digest ev ` set (take n ds))"
    using n(3) by (auto simp: take_Suc_conv_app_nth)
  have place: "place ?s k \<noteq> Gone \<longleftrightarrow> Suc n \<le> k \<and> k < length ds" for k
    using I(5) [of k] n(1) by auto
  have cinv: "chunk_inv ev ty (ds ! k) f (place ?s k) k (chunk (mem ?s) k)"
    if k: "k < length ds" and ch: "chunk m k = chunk (mem s) k \<or>
      k = j \<and> chunk m k = ?cj\<lparr>compressed_data := [], state := CHUNK_STATE_FLUSHED\<rparr>" for k
  proof -
    have "chunk_inv ev ty (ds ! k) f (place s k) k (chunk m k)"
      using ch I(4) [OF k] chunk_inv_flush [OF I(4) [OF J(1)] plj cj(2) J(3)] by auto
    then show ?thesis using chunk_inv_gone pl n(1) by auto
  qed
  show ?thesis
  proof (cases "state ?cj")
    case CHUNK_STATE_UNCOMPRESSED
    with notwait show ?thesis by simp
  next
    case CHUNK_STATE_COMPRESSED
    with w n(1) have m: "m = mem s\<lparr>
        par_out := par_out (mem s) @ write_file TYPE_COMPRESS (length (compressed_data ?cj)) (compressed_data ?cj),
        chunk := (chunk (mem s))(j := ?cj\<lparr>compressed_data := [], state := CHUNK_STATE_FLUSHED\<rparr>)\<rparr>"
      by (auto simp: par_write_chunk_to_file_def j_def [symmetric] Let_def)
    have new: "?sh \<notin> SHA1_Digest ev ` set (take n ds)" using J(4) CHUNK_STATE_COMPRESSED by simp
    have "chunk_records ev ty {} (take (Suc n) ds) = Inr (rs @ [Compressed (compressed_data ?cj)])"
      using take_Suc_records [OF n(3) rs(1)] new cj(3) CHUNK_STATE_COMPRESSED same by simp
    moreover have "par_out m = write_header (word_of_int ty) @ archive_bytes (rs @ [Compressed (compressed_data ?cj)])"
      using rs(2) by (simp add: m archive_bytes_append write_record_def)
    moreover have "flushed_ok ev ds (Suc n) f (chunk m)"
      unfolding flushed_ok_def
    proof (intro allI impI)
      fix sh k assume f: "f sh = Some k"
      have "k = j \<longleftrightarrow> sh = ?sh" using f j J(2) flushed_okD(2) [OF I(6) f] by auto
      with flushed_okD [OF I(6) f] show "k < length ds \<and> SHA1_Digest ev (ds ! k) = sh \<and>
          \<not> isDuplicate (chunk m k) \<and>
          (state (chunk m k) = CHUNK_STATE_FLUSHED \<longleftrightarrow> sh \<in> SHA1_Digest ev ` set (take (Suc n) ds))"
        unfolding taken by (cases "k = j") (simp_all add: m)
    qed
    ultimately show ?thesis
      using I n place by (intro par_invI cinv) (auto simp: m)
  next
    case CHUNK_STATE_FLUSHED
    with w n(1) cj(1) have m: "m = mem s\<lparr>par_out := par_out (mem s) @ write_record (Duplicate_of ?sh)\<rparr>"
      by (auto simp: par_write_chunk_to_file_def j_def [symmetric] Let_def write_record_def)
    have old: "?sh \<in> SHA1_Digest ev ` set (take n ds)" using J(4) CHUNK_STATE_FLUSHED by simp
    have "chunk_records ev ty {} (take (Suc n) ds) = Inr (rs @ [Duplicate_of ?sh])"
      using take_Suc_records [OF n(3) rs(1)] old by simp
    moreover have "par_out m = write_header (word_of_int ty) @ archive_bytes (rs @ [Duplicate_of ?sh])"
      using rs(2) by (simp add: m archive_bytes_append)
    moreover have "flushed_ok ev ds (Suc n) f (chunk m)"
      using I(6) old unfolding flushed_ok_def taken by (simp add: m insert_absorb)
    ultimately show ?thesis
      using I n place by (intro par_invI cinv) (auto simp: m)
  qed
qed

lemma par_step_inv:
  assumes "par_step ev ty s s'" and "par_inv ev ty ds f n s" and "\<forall>d. length (SHA1_Digest ev d) = 5"
    and "inj_on (SHA1_Digest ev) (set ds)"
  shows "\<exists>f' n'. par_inv ev ty ds f' n' s'"
  using assms
proof (cases rule: par_step.cases)
  case (dedup_one i dup m)
  with par_inv_deduplicate [OF assms(2) dedup_one(2,3) assms(3)] show ?thesis by (simp only:) blast
next
  case (compress_one i m)
  with par_inv_compress [OF assms(2) compress_one(2,3)] show ?thesis by auto
next
  case (write_one i rest m)
  with par_inv_write [OF assms(2) write_one(2-4) assms(4)] show ?thesis by auto
qed

lemma par_start_inv: "par_start ev ty ds s \<Longrightarrow> par_inv ev ty ds (\<lambda>_. None) 0 s"
  using holds_map_create
  by (intro par_invI) (auto simp: par_start_def chunk_inv_def flushed_ok_def)

lemma par_reachable_inv:
  assumes "par_reachable ev ty ds s" and "\<forall>d. length (SHA1_Digest ev d) = 5" and "inj_on (SHA1_Digest ev) (set ds)"
  shows "\<exists>f n. par_inv ev ty ds f n s"
proof -
  obtain s0 where s0: "par_start ev ty ds s0" "(par_step ev ty)\<^sup>*\<^sup>* s0 s" using assms(1) by (auto simp: par_reachable_def)
  from s0(2) show ?thesis
  proof (induction rule: rtranclp_induct)
    case base
    from par_start_inv [OF s0(1)] show ?case by blast
  next
    case (step y z)
    with par_step_inv assms(2,3) show ?case by blast
  qed
qed

section \<open>What the stages write\<close>

lemma par_archive:
  assumes "par_reachable ev ty ds s" and "todo s = []" and "\<forall>d. length (SHA1_Digest ev d) = 5"
    and "inj_on (SHA1_Digest ev) (set ds)"
  shows "\<exists>rs. chunk_records ev ty {} ds = Inr rs \<and> par_out (mem s) = write_header (word_of_int ty) @ archive_bytes rs"
proof -
  obtain f n where inv: "par_inv ev ty ds f n s" using par_reachable_inv [OF assms(1,3,4)] by blast
  note I = par_invD [OF inv]
  have "[n ..< length ds] = []" using I(3) assms(2) by simp
  then have "n = length ds" using I(2) by (simp only: upt_eq_Nil_conv) linarith
  with I(7) show ?thesis by simp
qed

text \<open>C32. The parallel encoder writes what the serial one writes: whichever thread meets a chunk first, and
  in whatever order chunks are compressed, when everything has been written the archive is the one that the
  serial processing of the same chunks in their order gives.\<close>

theorem dedup_parallel_as_serial:
  assumes "par_reachable ev ty ds s" and "todo s = []" and "\<forall>d. length (SHA1_Digest ev d) = 5"
    and "inj_on (SHA1_Digest ev) (set ds)"
    and "process_all ev ty ds \<lparr>e_cache = c, e_out = write_header (word_of_int ty), e_stats = init_stats, e_next = 0\<rparr> = Inr st"
    and "hashtable_create False (load_limit ev) (table_mem ev) 65536 = Some c"
  shows "par_out (mem s) = e_out st"
proof -
  obtain rs where rs: "chunk_records ev ty {} ds = Inr rs" "par_out (mem s) = write_header (word_of_int ty) @ archive_bytes rs"
    using par_archive [OF assms(1-4)] by blast
  obtain rs' where "chunk_records ev ty {} ds = Inr rs'" "e_out st = write_header (word_of_int ty) @ archive_bytes rs'"
    using process_all_records [OF assms(5), of "\<lambda>_. None"] holds_map_create [OF assms(6)] assms(3) by auto
  with rs show ?thesis by simp
qed

section \<open>The stages never block each other for good\<close>

definition place_work :: "place \<Rightarrow> nat" where
  "place_work p = (case p of In_deduplicate \<Rightarrow> 3 | In_compress \<Rightarrow> 2 | In_reorder \<Rightarrow> 1 | Gone \<Rightarrow> 0)"

definition par_work :: "nat \<Rightarrow> par_sys \<Rightarrow> nat" where
  "par_work n s = (\<Sum>i < n. place_work (place s i))"

lemma par_work_update:
  assumes "i < n" and "place_work p < place_work (place s i)" and "place s' = (place s)(i := p)"
  shows "par_work n s' < par_work n s"
proof -
  have "(\<Sum>k < n. place_work (((place s)(i := p)) k)) < (\<Sum>k < n. place_work (place s k))"
    using assms(1,2) by (intro sum_strict_mono2 [where b = i] sum_strict_mono_ex1) auto
  then show ?thesis by (simp add: par_work_def assms(3))
qed

lemma par_step_work:
  assumes "par_step ev ty s s'" and "par_inv ev ty ds f n s"
  shows "par_work (length ds) s' < par_work (length ds) s"
  using assms(1)
proof (cases rule: par_step.cases)
  case (dedup_one i dup m)
  then have "i < length ds" using par_invD(5) [OF assms(2), of i] by auto
  then show ?thesis using dedup_one
    by (intro par_work_update [where i = i and p = "if dup then In_reorder else In_compress"]) (auto simp: place_work_def)
next
  case (compress_one i m)
  then have "i < length ds" using par_invD(5) [OF assms(2), of i] by auto
  then show ?thesis using compress_one
    by (intro par_work_update [where i = i and p = In_reorder]) (auto simp: place_work_def)
next
  case (write_one i rest m)
  then have "i < length ds" using par_invD(5) [OF assms(2), of i] by auto
  then show ?thesis using write_one
    by (intro par_work_update [where i = i and p = Gone]) (auto simp: place_work_def)
qed

lemma par_compress_enabled:
  assumes inv: "par_inv ev ty ds f n s" and pl: "place s i = In_compress" and "healthy ev ty" and "[] \<notin> set ds"
  shows "\<exists>s'. par_step ev ty s s'"
proof -
  note I = par_invD [OF inv]
  have i: "i < length ds" using I(5) [of i] pl by auto
  have ci: "uncompressed_data (chunk (mem s) i) = ds ! i" "\<not> isDuplicate (chunk (mem s) i)"
    using I(4) [OF i] pl by (auto simp: chunk_inv_def)
  moreover have "state (chunk (mem s) i) = CHUNK_STATE_UNCOMPRESSED"
    using I(4) [OF i] pl ci(2) by (auto simp: chunk_inv_def)
  moreover have "ds ! i \<noteq> []" using assms(4) i by (metis nth_mem)
  then obtain cdata where "sub_Compress ev ty (ds ! i) = Inr cdata"
    using assms(3) by (cases "sub_Compress ev ty (ds ! i)") (auto simp: healthy_def)
  ultimately obtain m where "par_Compress ev ty i (mem s) = Inr m" by (auto simp: par_Compress_def)
  from compress_one [OF pl this] show ?thesis by blast
qed

lemma par_progress:
  assumes inv: "par_inv ev ty ds f n s" and "healthy ev ty" and "[] \<notin> set ds"
  shows "todo s = [] \<or> (\<exists>s'. par_step ev ty s s')"
proof (cases "n < length ds")
  case False
  then show ?thesis using par_invD(3) [OF inv] by simp
next
  case True
  note I = par_invD [OF inv]
  have len: "\<forall>d. length (SHA1_Digest ev d) = 5" using assms(2) by (simp add: healthy_def)
  have todo: "todo s = n # [Suc n ..< length ds]" using I(3) True by (simp add: upt_conv_Cons)
  let ?c = "chunk (mem s) n" and ?sh = "SHA1_Digest ev (ds ! n)"
  show ?thesis
  proof (cases "place s n")
    case In_deduplicate
    then have d: "uncompressed_data ?c = ds ! n" using I(4) [OF True] by (auto simp: chunk_inv_def)
    have "hashtable_search hash_from_key_fn keys_equal_fn (par_cache (mem s)) ?sh = f ?sh"
      using holds_map_search [OF I(1)] len by blast
    moreover have "\<exists>c. cache_insert ev ?sh n (par_cache (mem s)) = Inr c" if "f ?sh = None"
      using holds_map_insert [OF I(1) _ that, of ev n] assms(2) by (auto simp: healthy_def)
    ultimately have "\<exists>dup m. par_Deduplicate ev n (mem s) = Inr (dup, m)"
      using d by (cases "f ?sh") (auto simp: par_Deduplicate_def Let_def)
    with dedup_one [OF In_deduplicate] show ?thesis by blast
  next
    case In_compress
    with par_compress_enabled [OF inv _ assms(2,3)] show ?thesis by blast
  next
    case In_reorder
    define j where "j = (if isDuplicate ?c then compressed_data_ref ?c else n)"
    have j: "f ?sh = Some j" using I(4) [OF True] In_reorder by (auto simp: chunk_inv_def j_def)
    note J = flushed_okD [OF I(6) j]
    show ?thesis
    proof (cases "state (chunk (mem s) j) = CHUNK_STATE_UNCOMPRESSED")
      case True
      have "place s j \<noteq> In_deduplicate" using I(4) [OF J(1)] j J(2) by (auto simp: chunk_inv_def)
      with I(4) [OF J(1)] J(3) True have "place s j = In_compress" by (auto simp: chunk_inv_def)
      with par_compress_enabled [OF inv _ assms(2,3)] show ?thesis by blast
    next
      case False
      then obtain m where "par_write_chunk_to_file n (mem s) = Some m"
        by (cases "state (chunk (mem s) j)") (auto simp: par_write_chunk_to_file_def j_def [symmetric] Let_def)
      from write_one [OF todo In_reorder this] show ?thesis by blast
    qed
  next
    case Gone
    then show ?thesis using I(5) [of n] True by simp
  qed
qed

text \<open>The stages never deadlock: as long as something is left to be written some thread can go on, also
  when the writer waits for the data of a chunk that comes later in the input, and every step brings a chunk
  nearer to the file, so the encoder finishes under every schedule. Memory and compression do not fail.\<close>

theorem dedup_parallel_no_deadlock:
  assumes "par_reachable ev ty ds s" and "healthy ev ty" and "[] \<notin> set ds" and "inj_on (SHA1_Digest ev) (set ds)"
  shows "(todo s = [] \<or> (\<exists>s'. par_step ev ty s s')) \<and>
    (\<forall>s'. par_step ev ty s s' \<longrightarrow> par_work (length ds) s' < par_work (length ds) s)"
proof -
  have "\<forall>d. length (SHA1_Digest ev d) = 5" using assms(2) by (simp add: healthy_def)
  then obtain f n where "par_inv ev ty ds f n s" using par_reachable_inv [OF assms(1) _ assms(4)] by blast
  with par_progress [OF _ assms(2,3)] par_step_work show ?thesis by blast
qed

lemma par_finishes:
  assumes "par_reachable ev ty ds s" and "healthy ev ty" and "[] \<notin> set ds" and "inj_on (SHA1_Digest ev) (set ds)"
  shows "\<exists>s'. par_reachable ev ty ds s' \<and> todo s' = []"
  using assms(1)
proof (induction "par_work (length ds) s" arbitrary: s rule: less_induct)
  case less
  have "\<forall>d. length (SHA1_Digest ev d) = 5" using assms(2) by (simp add: healthy_def)
  then obtain f n where inv: "par_inv ev ty ds f n s" using par_reachable_inv [OF less.prems _ assms(4)] by blast
  show ?case
  proof (cases "todo s = []")
    case True
    with less.prems show ?thesis by blast
  next
    case False
    with par_progress [OF inv assms(2,3)] obtain s' where s': "par_step ev ty s s'" by blast
    then have "par_reachable ev ty ds s'"
      using less.prems unfolding par_reachable_def by (meson rtranclp.rtrancl_into_rtrancl)
    with less.hyps [OF par_step_work [OF s' inv]] show ?thesis by blast
  qed
qed

section \<open>The whole pipeline\<close>

text \<open>A chunk on the way to \<open>Reorder\<close> carries its number, the place of its data among the fine chunks.\<close>

fun tag_chunks :: "nat \<Rightarrow> fine_chunk list \<Rightarrow> nat rchunk list" where
  "tag_chunks k [] = []"
| "tag_chunks k (f # fs) = \<lparr>seq = fine_seq f, payload = (isLastL2Chunk f, k)\<rparr> # tag_chunks (k + 1) fs"

lemma tag_chunks_gapless: "numbered s fs \<Longrightarrow> gapless s (tag_chunks k fs)"
proof (induction fs arbitrary: s k)
  case (Cons f fs)
  have "follows \<lparr>seq = fine_seq f, payload = (isLastL2Chunk f, k)\<rparr> = next_seq f"
    by (simp add: follows_def next_seq_def is_last_def)
  with Cons show ?case by simp
qed simp

lemma tag_chunks_payload: "map (\<lambda>c. snd (payload c)) (tag_chunks k fs) = [k ..< k + length fs]"
  by (induction fs arbitrary: k) (simp_all add: upt_conv_Cons del: upt_Suc)

lemma tag_chunks_in_range:
  "\<forall>f \<in> set fs. l1num (fine_seq f) \<noteq> -1 \<and> l2num (fine_seq f) \<noteq> -1 \<Longrightarrow> c \<in> set (tag_chunks k fs) \<Longrightarrow> in_range c"
  by (induction fs arbitrary: k) (auto simp: in_range_def)

text \<open>The parallel pipeline as a whole loses nothing: the fragments of the input, deduplicated and
  compressed under any schedule, arriving at the last stage in any order, are written in order, and the
  decoder turns the archive back into the input.\<close>

theorem dedup_parallel_roundtrip:
  assumes "Fragment ev src = Inr cs" and "refine_all cs = Inr fs" and "source_ok src" and "healthy ev ty"
    and "par_reachable ev ty (map fine_data fs) s" and "todo s = []"
    and "mset arrivals = mset (tag_chunks 0 fs)" and "fits_anchors 1024 arrivals"
    and "\<And>f. f \<in> set fs \<Longrightarrow> l1num (fine_seq f) \<noteq> -1 \<and> l2num (fine_seq f) \<noteq> -1"
    and "0 \<le> ty" and "ty < 256" and "length (source_bytes src) < 2 ^ 31"
    and "codec_ok ev" and "sums_ok ev (source_bytes src)"
    and "\<forall>f \<in> set fs. decoder_fits ev ty (length (fine_data f))"
  shows "(\<exists>st. Reorder True arrivals = Inr st \<and> to_file st = [0 ..< length fs]) \<and>
    Decode ev (par_out (mem s)) = Some (Inr (source_bytes src))"
proof
  have fs: "concat (map fine_data fs) = source_bytes src" "[] \<notin> set (map fine_data fs)" "numbered (Sequence 0 0) fs"
    using fragment_numbered [OF assms(1,3,2)] by auto
  have "well_numbered (tag_chunks 0 fs)"
    using tag_chunks_gapless [OF fs(3)] tag_chunks_in_range [of fs _ 0] assms(9) by (auto simp: well_numbered_def)
  from reorder_correct [OF this assms(7,8)] tag_chunks_payload [of 0 fs]
  show "\<exists>st. Reorder True arrivals = Inr st \<and> to_file st = [0 ..< length fs]" by simp
next
  let ?ds = "map fine_data fs"
  have fs: "concat ?ds = source_bytes src" "[] \<notin> set ?ds" using fragment_numbered [OF assms(1,3,2)] by auto
  have len: "\<forall>d. length (SHA1_Digest ev d) = 5" and "inj_on (SHA1_Digest ev) {d. sublist d (concat ?ds)}"
    using assms(14) fs(1) by (auto simp: sums_ok_def)
  moreover have "set ?ds \<subseteq> {d. sublist d (concat ?ds)}" using concat_sublist by blast
  ultimately have "inj_on (SHA1_Digest ev) (set ?ds)" using inj_on_subset by blast
  then obtain rs where "chunk_records ev ty {} ?ds = Inr rs"
      "par_out (mem s) = write_header (word_of_int ty) @ archive_bytes rs"
    using par_archive [OF assms(5,6) len] by blast
  with decode_archive [of ev ty ?ds rs] fs assms(4,10-15)
  show "Decode ev (par_out (mem s)) = Some (Inr (source_bytes src))" by (simp add: healthy_def)
qed

lemma sample_par_start: "\<exists>s. par_start sample_env COMPRESS_NONE ds s"
proof -
  obtain c :: "nat cache" where c: "hashtable_create False (load_limit sample_env) (table_mem sample_env) 65536 = Some c"
    by (cases "pick_prime primes 0 65536") (auto simp: sample_env_def hashtable_create_def)
  let ?chunk = "\<lambda>i. \<lparr>isDuplicate = False, state = CHUNK_STATE_UNCOMPRESSED, chunk_sha1 = [],
    uncompressed_data = ds ! i, compressed_data = [], compressed_data_ref = 0\<rparr>"
  have "par_start sample_env COMPRESS_NONE ds
     \<lparr>mem = \<lparr>chunk = ?chunk, par_cache = c, par_out = write_header (word_of_int COMPRESS_NONE)\<rparr>,
      place = \<lambda>i. if i < length ds then In_deduplicate else Gone, todo = [0 ..< length ds]\<rparr>"
    using c by (simp add: par_start_def)
  then show ?thesis by blast
qed

lemma sample_par_finished:
  assumes "[] \<notin> set ds" and "inj_on (SHA1_Digest sample_env) (set ds)"
  shows "\<exists>s. par_reachable sample_env COMPRESS_NONE ds s \<and> todo s = []"
proof -
  obtain s where "par_start sample_env COMPRESS_NONE ds s" using sample_par_start by blast
  then have "par_reachable sample_env COMPRESS_NONE ds s" unfolding par_reachable_def by blast
  from par_finishes [OF this sample_healthy assms] show ?thesis .
qed

definition sample_ds :: "uchar list list" where
  "sample_ds = [[7], [8, 9], [7]]"

lemma sample_ds_inj: "[] \<notin> set sample_ds" "inj_on (SHA1_Digest sample_env) (set sample_ds)"
proof -
  have "set sample_ds = {[7], [8, 9]}" by (auto simp: sample_ds_def)
  then show "[] \<notin> set sample_ds" "inj_on (SHA1_Digest sample_env) (set sample_ds)"
    by (simp_all add: sample_env_def)
qed

theorem dedup_parallel_no_deadlock_witness:
  "\<exists>s s'. todo s = [0 ..< length sample_ds] \<and> par_step sample_env COMPRESS_NONE s s' \<and>
     par_work (length sample_ds) s' < par_work (length sample_ds) s"
proof -
  obtain s where s: "par_start sample_env COMPRESS_NONE sample_ds s" using sample_par_start by blast
  then have "par_reachable sample_env COMPRESS_NONE sample_ds s" unfolding par_reachable_def by blast
  moreover have "todo s = [0 ..< length sample_ds]" using s by (simp add: par_start_def)
  moreover from this have "todo s \<noteq> []" by (simp add: sample_ds_def upt_rec)
  ultimately show ?thesis
    using dedup_parallel_no_deadlock [OF _ sample_healthy sample_ds_inj, of s] by blast
qed

theorem dedup_parallel_roundtrip_witness:
  "\<exists>s. par_reachable sample_env COMPRESS_NONE [[1, 2, 3]] s \<and> todo s = [] \<and>
     Decode sample_env (par_out (mem s)) = Some (Inr [1, 2, 3])"
proof -
  let ?fs = "[\<lparr>fine_seq = Sequence 0 0, isLastL2Chunk = True, fine_data = [1, 2, 3]\<rparr>]"
  obtain s where s: "par_reachable sample_env COMPRESS_NONE (map fine_data ?fs) s" "todo s = []"
    using sample_par_finished [of "map fine_data ?fs"] by auto
  have "sums_ok sample_env [1, 2, 3]"
  proof -
    have "{d :: uchar list. sublist d [1, 2, 3]} \<subseteq> {[], [1], [2], [3], [1, 2], [2, 3], [1, 2, 3]}"
      by (auto simp: sublist_Cons_right prefix_Cons)
    moreover have "inj_on (SHA1_Digest sample_env) {[], [1], [2], [3], [1, 2], [2, 3], [1, 2, 3]}"
      by (simp add: sample_env_def)
    ultimately have "inj_on (SHA1_Digest sample_env) {d. sublist d [1, 2, 3]}" by (rule inj_on_subset [rotated])
    then show ?thesis by (auto simp: sums_ok_def sample_env_def min_def)
  qed
  then have "Decode sample_env (par_out (mem s)) = Some (Inr (source_bytes (Preloaded [1, 2, 3])))"
    using dedup_parallel_roundtrip [OF sample_fragment sample_refine _ sample_healthy s refl] sample_codec
    by (simp add: COMPRESS_NONE_def decoder_fits_def)
  with s show ?thesis by auto
qed

theorem dedup_parallel_as_serial_witness:
  "\<exists>s c st. par_reachable sample_env COMPRESS_NONE sample_ds s \<and> todo s = [] \<and>
     process_all sample_env COMPRESS_NONE sample_ds
       \<lparr>e_cache = c, e_out = write_header (word_of_int COMPRESS_NONE), e_stats = init_stats, e_next = 0\<rparr> = Inr st \<and>
     par_out (mem s) = e_out st"
proof -
  obtain s where s: "par_reachable sample_env COMPRESS_NONE sample_ds s" "todo s = []"
    using sample_par_finished [OF sample_ds_inj] by blast
  obtain c :: "nat cache" where c: "hashtable_create False (load_limit sample_env) (table_mem sample_env) 65536 = Some c"
    by (cases "pick_prime primes 0 65536") (auto simp: sample_env_def hashtable_create_def)
  have returns: "\<exists>st'. process_all sample_env COMPRESS_NONE ds st = Inr st'"
    if "holds_map (e_cache st) f" "[] \<notin> set ds" for ds st f
    using that
  proof (induction ds arbitrary: st f)
    case (Cons d ds)
    then have "d \<noteq> []" by auto
    from process_chunk_returns [OF sample_healthy Cons.prems(1) this] obtain st1 f1 where
      "process_chunk sample_env COMPRESS_NONE d st = Inr st1" "holds_map (e_cache st1) f1" by blast
    with Cons.IH [OF this(2)] Cons.prems(2) show ?case by simp
  qed simp
  have "\<exists>st'. process_all sample_env COMPRESS_NONE sample_ds
      \<lparr>e_cache = c, e_out = write_header (word_of_int COMPRESS_NONE), e_stats = init_stats, e_next = 0\<rparr> = Inr st'"
    by (rule returns [where f = "\<lambda>_. None"]) (use holds_map_create [OF c] sample_ds_inj(1) in auto)
  then obtain st where st: "process_all sample_env COMPRESS_NONE sample_ds
      \<lparr>e_cache = c, e_out = write_header (word_of_int COMPRESS_NONE), e_stats = init_stats, e_next = 0\<rparr> = Inr st" ..
  have "\<forall>d. length (SHA1_Digest sample_env d) = 5" using sample_healthy by (simp add: healthy_def)
  from dedup_parallel_as_serial [OF s this sample_ds_inj(2) st c] s st show ?thesis by blast
qed

end
