(* ===== verification/Dedup_Ring.thy ===== *)
theory Dedup_Ring
  imports Queue_Base
begin

text \<open>
  \<open>samples/dedup/queue.h\<close> and \<open>queue.c\<close>: the ring buffer of pointers, and the synchronised queue
  that moves batches of them between the stages of the pipeline, as compiled with
  \<open>ENABLE_PTHREADS\<close>.

  A pointer is an \<open>'a option\<close>, \<open>None\<close> is \<open>NULL\<close>. \<open>head\<close> and \<open>tail\<close> are the C \<open>int\<close>s; comparisons with
  the \<open>size_t\<close> member \<open>size\<close> convert them to 64 bit words as C does. A queue operation is the state
  change of its critical section: \<open>Waits\<close> stands for the call of \<open>pthread_cond_wait\<close>, after which the
  loop is entered again from its condition, \<open>Aborts\<close> for a failed \<open>assert\<close>.
\<close>

subsection \<open>The ring buffer\<close>

record 'a ringbuffer =
  rhead :: int
  rtail :: int
  rdata :: "'a option list"
  rsize :: size_t

text \<open>\<open>mem\<close> is what \<open>malloc\<close> returned: its uninitialised contents, or \<open>None\<close>.\<close>

definition ringbuffer_init :: "'a option list option \<Rightarrow> size_t \<Rightarrow> 'a ringbuffer \<Rightarrow> bool \<times> 'a ringbuffer" where
  "ringbuffer_init mem sz buf =
     (mem = None,
      buf\<lparr>rdata := (case mem of None \<Rightarrow> [] | Some d \<Rightarrow> d), rsize := sz + 1, rhead := 0, rtail := 0\<rparr>)"

definition ringbuffer_isEmpty :: "'a ringbuffer \<Rightarrow> bool" where
  "ringbuffer_isEmpty buf \<longleftrightarrow> rtail buf = rhead buf"

definition ringbuffer_isFull :: "'a ringbuffer \<Rightarrow> bool" where
  "ringbuffer_isFull buf \<longleftrightarrow>
     word_of_int (rhead buf) = (word_of_int (rtail buf - 1) + rsize buf) mod rsize buf"

definition ringbuffer_remove :: "'a ringbuffer \<Rightarrow> 'a option \<times> 'a ringbuffer" where
  "ringbuffer_remove buf =
     (if ringbuffer_isEmpty buf then (None, buf)
      else let p = rdata buf ! nat (rtail buf); t = rtail buf + 1
           in (p, buf\<lparr>rtail := if word_of_int t \<ge> rsize buf then 0 else t\<rparr>))"

definition ringbuffer_insert :: "'a ringbuffer \<Rightarrow> 'a option \<Rightarrow> int \<times> 'a ringbuffer" where
  "ringbuffer_insert buf p =
     (if ringbuffer_isFull buf then (-1, buf)
      else let h = rhead buf + 1
           in (0, buf\<lparr>rdata := (rdata buf)[nat (rhead buf) := p],
                      rhead := if word_of_int h = rsize buf then 0 else h\<rparr>))"

text \<open>
  A well-formed ring buffer: the array has \<open>size\<close> slots, an \<open>int\<close> can index it, and what it holds are
  not null pointers.
\<close>

definition rb_list :: "'a ringbuffer \<Rightarrow> 'a option list" where
  "rb_list buf = ring_list (rdata buf) (nat (rtail buf)) (nat (rhead buf))"

definition rb_wf :: "'a ringbuffer \<Rightarrow> bool" where
  "rb_wf buf \<longleftrightarrow>
     0 \<le> rhead buf \<and> rhead buf < uint (rsize buf) \<and> 0 \<le> rtail buf \<and> rtail buf < uint (rsize buf) \<and>
     uint (rsize buf) < 2 ^ 31 \<and> length (rdata buf) = unat (rsize buf) \<and> None \<notin> set (rb_list buf)"

definition rb_room :: "'a ringbuffer \<Rightarrow> nat" where
  "rb_room buf = unat (rsize buf) - 1 - length (rb_list buf)"

lemma uint_small_int:
  "0 \<le> i \<Longrightarrow> i < 2 ^ 32 \<Longrightarrow> uint (word_of_int i :: 64 word) = i"
  by (simp add: uint_word_of_int)

lemma rb_wfD:
  assumes "rb_wf buf"
  shows "nat (rhead buf) < length (rdata buf)" and "nat (rtail buf) < length (rdata buf)"
    and "int (length (rdata buf)) = uint (rsize buf)" and "length (rdata buf) < 2 ^ 31"
    and "0 \<le> rhead buf" and "0 \<le> rtail buf" and "None \<notin> set (rb_list buf)"
proof -
  have *: "int (length (rdata buf)) = uint (rsize buf)"
    using assms by (simp add: rb_wf_def)
  then show "int (length (rdata buf)) = uint (rsize buf)" .
  from assms * show "nat (rhead buf) < length (rdata buf)" "nat (rtail buf) < length (rdata buf)"
    "0 \<le> rhead buf" "0 \<le> rtail buf" "None \<notin> set (rb_list buf)"
    by (auto simp: rb_wf_def nat_less_iff)
  from assms * have "int (length (rdata buf)) < int (2 ^ 31)"
    by (simp add: rb_wf_def)
  then show "length (rdata buf) < 2 ^ 31" by (simp only: of_nat_less_iff)
qed

lemma rb_empty_iff:
  assumes "rb_wf buf"
  shows "ringbuffer_isEmpty buf \<longleftrightarrow> rb_list buf = []"
proof -
  note wf = rb_wfD [OF assms]
  have "rb_list buf = [] \<longleftrightarrow> nat (rtail buf) = nat (rhead buf)"
    unfolding rb_list_def using wf by (intro ring_list_Nil_iff)
  with wf show ?thesis by (auto simp: ringbuffer_isEmpty_def)
qed

text \<open>The subtraction before the modulus wraps around for \<open>tail = 0\<close>; the addition of \<open>size\<close> wraps back.\<close>

lemma rb_full_index:
  assumes "rb_wf buf"
  shows "ringbuffer_isFull buf \<longleftrightarrow>
         ring_next (length (rdata buf)) (nat (rhead buf)) = nat (rtail buf)"
proof -
  note wf = rb_wfD [OF assms]
  let ?n = "int (length (rdata buf))" and ?h = "rhead buf" and ?t = "rtail buf"
  have "uint (word_of_int (?t - 1) + rsize buf) = (?t - 1 + ?n) mod 2 ^ 64"
    using wf(3) by (simp add: uint_word_ariths uint_word_of_int mod_simps)
  also have "\<dots> = ?t - 1 + ?n"
    using wf by (intro mod_pos_pos_trivial) auto
  finally have "uint ((word_of_int (?t - 1) + rsize buf) mod rsize buf) = (?t - 1 + ?n) mod ?n"
    using wf(3) by (simp add: uint_mod)
  moreover have "uint (word_of_int ?h :: 64 word) = ?h"
    using wf by (intro uint_small_int) auto
  ultimately have "ringbuffer_isFull buf \<longleftrightarrow> ?h = (?t - 1 + ?n) mod ?n"
    unfolding ringbuffer_isFull_def by (metis word_uint_eq_iff)
  also have "(?t - 1 + ?n) mod ?n = (if ?t = 0 then ?n - 1 else ?t - 1)"
  proof (cases "?t = 0")
    case True
    then have "?t - 1 + ?n = ?n - 1" by simp
    moreover have "(?n - 1) mod ?n = ?n - 1" using wf(1) by (intro mod_pos_pos_trivial) auto
    ultimately show ?thesis using True by (simp only: simp_thms if_True)
  next
    case False
    then have "(?t - 1) mod ?n = ?t - 1" using wf by (intro mod_pos_pos_trivial) auto
    then show ?thesis using False by (simp only: mod_add_self2 if_False)
  qed
  finally show ?thesis
    using wf by (auto simp: ring_next_eq split: if_splits)
qed

lemma rb_full_iff:
  assumes "rb_wf buf"
  shows "ringbuffer_isFull buf \<longleftrightarrow> rb_room buf = 0"
proof -
  note wf = rb_wfD [OF assms]
  have "length (rdata buf) = unat (rsize buf)" using assms by (simp add: rb_wf_def)
  moreover have "ring_len (length (rdata buf)) (nat (rtail buf)) (nat (rhead buf)) < length (rdata buf)"
    using wf by (intro ring_len_less)
  ultimately show ?thesis
    using rb_full_index [OF assms] wf
    by (simp add: rb_room_def rb_list_def ring_full_iff length_ring_list) linarith
qed

lemma rb_remove:
  assumes "rb_wf buf" and "rb_list buf \<noteq> []"
  shows "\<exists>buf'. ringbuffer_remove buf = (hd (rb_list buf), buf') \<and> hd (rb_list buf) \<noteq> None \<and>
           rb_wf buf' \<and> rb_list buf' = tl (rb_list buf) \<and> rb_room buf' = Suc (rb_room buf)"
proof -
  note wf = rb_wfD [OF assms(1)]
  let ?n = "length (rdata buf)" and ?t = "nat (rtail buf)"
  have ne: "nat (rtail buf) \<noteq> nat (rhead buf)"
    using assms rb_empty_iff [OF assms(1)] wf by (auto simp: ringbuffer_isEmpty_def)
  have split: "rb_list buf = rdata buf ! ?t # ring_list (rdata buf) (ring_next ?n ?t) (nat (rhead buf))"
    unfolding rb_list_def using wf ne by (intro ring_list_pop)
  let ?t' = "if (word_of_int (rtail buf + 1) :: 64 word) \<ge> rsize buf then 0 else rtail buf + 1"
  have "uint (word_of_int (rtail buf + 1) :: 64 word) = rtail buf + 1"
    using wf by (intro uint_small_int) auto
  then have t': "?t' = int (ring_next ?n ?t)"
    using wf by (auto simp: word_le_def ring_next_eq)
  have eq: "ringbuffer_remove buf = (rdata buf ! ?t, buf\<lparr>rtail := ?t'\<rparr>)"
    using assms rb_empty_iff [OF assms(1)] by (simp add: ringbuffer_remove_def Let_def)
  have "ring_next ?n ?t < ?n" using wf(1) by (intro ring_next_less) auto
  then have next_less: "int (ring_next ?n ?t) < uint (rsize buf)" using wf(3) by linarith
  have "rb_list (buf\<lparr>rtail := ?t'\<rparr>) = tl (rb_list buf)"
    unfolding split by (simp only: t') (simp add: rb_list_def)
  moreover have "rb_wf (buf\<lparr>rtail := ?t'\<rparr>)"
    using assms(1) next_less wf(7) split calculation
    unfolding rb_wf_def by (simp only: t') (auto simp: rb_list_def)
  moreover have "length (rb_list buf) < unat (rsize buf)"
    using wf ring_len_less [of ?t ?n "nat (rhead buf)"] assms(1)
    by (simp add: rb_list_def length_ring_list rb_wf_def)
  moreover have "rdata buf ! ?t \<noteq> None" using wf(7) split by (metis list.set_intros(1))
  ultimately show ?thesis
    using eq split by (auto simp: rb_room_def)
qed

lemma rb_insert:
  assumes "rb_wf buf" and "rb_room buf \<noteq> 0" and "p \<noteq> None"
  shows "\<exists>buf'. ringbuffer_insert buf p = (0, buf') \<and> rb_wf buf' \<and>
           rb_list buf' = rb_list buf @ [p] \<and> rb_room buf = Suc (rb_room buf')"
proof -
  note wf = rb_wfD [OF assms(1)]
  let ?n = "length (rdata buf)" and ?h = "nat (rhead buf)"
  let ?h' = "if (word_of_int (rhead buf + 1) :: 64 word) = rsize buf then 0 else rhead buf + 1"
  let ?buf' = "buf\<lparr>rdata := (rdata buf)[?h := p], rhead := ?h'\<rparr>"
  have "uint (word_of_int (rhead buf + 1) :: 64 word) = rhead buf + 1"
    using wf by (intro uint_small_int) auto
  then have h': "?h' = int (ring_next ?n ?h)"
    using wf by (auto simp: word_uint_eq_iff ring_next_eq)
  have nf: "ring_next ?n ?h \<noteq> nat (rtail buf)"
    using assms(2) rb_full_iff [OF assms(1)] rb_full_index [OF assms(1)] by simp
  have eq: "ringbuffer_insert buf p = (0, ?buf')"
    using assms(2) rb_full_iff [OF assms(1)] by (simp add: ringbuffer_insert_def Let_def)
  have "ring_next ?n ?h < ?n" using wf(1) by (intro ring_next_less) auto
  then have next_less: "int (ring_next ?n ?h) < uint (rsize buf)" using wf(3) by linarith
  have list: "rb_list ?buf' = rb_list buf @ [p]"
    unfolding rb_list_def by (simp only: h') (simp add: ring_list_push wf nf)
  moreover have "rb_wf ?buf'"
    using assms(1,3) next_less wf(7) list
    unfolding rb_wf_def by (simp only: h') (auto simp: rb_list_def)
  ultimately show ?thesis
    using eq assms(2) by (auto simp: rb_room_def)
qed

lemma rb_init:
  assumes "length mem = unat (sz + 1)" and "uint sz + 1 < 2 ^ 31"
  shows "\<exists>buf'. ringbuffer_init (Some mem) sz buf = (False, buf') \<and> rb_wf buf' \<and> rb_list buf' = [] \<and>
           rb_room buf' = unat sz"
proof -
  have "uint (sz + 1) = uint sz + 1"
    using assms(2) by (simp add: uint_word_ariths)
  moreover from this have "unat (sz + 1) = unat sz + 1"
    by (metis nat_int_add of_nat_1 uint_nat unat_eq_nat_uint)
  moreover have "0 \<le> uint sz" by simp
  ultimately show ?thesis
    using assms by (auto simp: ringbuffer_init_def rb_wf_def rb_list_def ring_list_def ring_len_def
        rb_room_def)
qed

subsection \<open>The queue\<close>

datatype 'r c_result = Done 'r | Waits | Aborts

datatype pthread_signal = Broadcast_notEmpty | Signal_notEmpty | Signal_notFull

record 'a queue_t =
  buf :: "'a ringbuffer"
  nProducers :: int
  nTerminated :: int
  raised :: "pthread_signal list"

definition queue_init ::
  "'a option list option \<Rightarrow> size_t \<Rightarrow> int \<Rightarrow> 'a queue_t \<Rightarrow> unit c_result \<times> 'a queue_t" where
  "queue_init mem sz n que =
     (let r = ringbuffer_init mem sz (buf que)
      in if fst r then (Aborts, que\<lparr>buf := snd r\<rparr>)
         else (Done (), que\<lparr>buf := snd r, nProducers := n, nTerminated := 0\<rparr>))"

text \<open>\<open>None\<close> is the failed assertion.\<close>

definition queue_isTerminated :: "'a queue_t \<Rightarrow> bool option" where
  "queue_isTerminated que =
     (if nTerminated que \<le> nProducers que then Some (nTerminated que = nProducers que) else None)"

definition queue_terminate :: "'a queue_t \<Rightarrow> unit c_result \<times> 'a queue_t" where
  "queue_terminate que =
     (let que1 = que\<lparr>nTerminated := nTerminated que + 1\<rparr>
      in case queue_isTerminated que1 of
           None \<Rightarrow> (Aborts, que1)
         | Some fin \<Rightarrow>
             (Done (), if fin then que1\<lparr>raised := raised que1 @ [Broadcast_notEmpty]\<rparr> else que1))"

text \<open>
  The copying loop, \<open>i\<close> counting up to \<open>limit\<close>: \<open>n\<close> is the number of rounds left. Both directions of
  the queue use it.
\<close>

fun transfer ::
  "nat \<Rightarrow> int \<Rightarrow> 'a ringbuffer \<Rightarrow> 'a ringbuffer \<Rightarrow> int c_result \<times> 'a ringbuffer \<times> 'a ringbuffer" where
  "transfer 0 i src dst = (Done i, src, dst)"
| "transfer (Suc n) i src dst =
     (if \<not> ringbuffer_isEmpty src \<and> \<not> ringbuffer_isFull dst
      then case ringbuffer_remove src of
             (None, src1) \<Rightarrow> (Aborts, src1, dst)
           | (Some p, src1) \<Rightarrow>
               (case ringbuffer_insert dst (Some p) of
                  (rv, dst1) \<Rightarrow>
                    if rv = 0 then transfer n (i + 1) src1 dst1 else (Aborts, src1, dst1))
      else (Done i, src, dst))"

definition raise_if :: "bool \<Rightarrow> pthread_signal \<Rightarrow> 'a queue_t \<Rightarrow> 'a queue_t" where
  "raise_if b sig que = (if b then que\<lparr>raised := raised que @ [sig]\<rparr> else que)"

definition queue_dequeue ::
  "'a queue_t \<Rightarrow> 'a ringbuffer \<Rightarrow> int \<Rightarrow> int c_result \<times> 'a queue_t \<times> 'a ringbuffer" where
  "queue_dequeue que dst limit =
     (case (if ringbuffer_isEmpty (buf que) then queue_isTerminated que else Some False) of
        None \<Rightarrow> (Aborts, que, dst)
      | Some fin \<Rightarrow>
          if ringbuffer_isEmpty (buf que) \<and> \<not> fin then (Waits, que, dst)
          else if ringbuffer_isEmpty (buf que) then (Done (-1), que, dst)
          else case transfer (nat limit) 0 (buf que) dst of
                 (Done i, b, dst1) \<Rightarrow>
                   (Done i, raise_if (i > 0) Signal_notFull (que\<lparr>buf := b\<rparr>), dst1)
               | (r, b, dst1) \<Rightarrow> (r, que\<lparr>buf := b\<rparr>, dst1))"

definition queue_enqueue ::
  "'a queue_t \<Rightarrow> 'a ringbuffer \<Rightarrow> int \<Rightarrow> int c_result \<times> 'a queue_t \<times> 'a ringbuffer" where
  "queue_enqueue que src limit =
     (case queue_isTerminated que of
        None \<Rightarrow> (Aborts, que, src)
      | Some True \<Rightarrow> (Aborts, que, src)
      | Some False \<Rightarrow>
          if ringbuffer_isFull (buf que) then (Waits, que, src)
          else case transfer (nat limit) 0 src (buf que) of
                 (Done i, src1, b) \<Rightarrow>
                   (Done i, raise_if (i > 0) Signal_notEmpty (que\<lparr>buf := b\<rparr>), src1)
               | (r, src1, b) \<Rightarrow> (r, que\<lparr>buf := b\<rparr>, src1))"

text \<open>The loop moves a prefix of the source, as long as there is one and there is room.\<close>

lemma transfer_spec:
  assumes "rb_wf src" and "rb_wf dst"
  shows "\<exists>src' dst'. transfer n i src dst =
             (Done (i + int (min n (min (length (rb_list src)) (rb_room dst)))), src', dst') \<and>
           rb_wf src' \<and> rb_wf dst' \<and>
           rb_list src' = drop (min n (min (length (rb_list src)) (rb_room dst))) (rb_list src) \<and>
           rb_list dst' = rb_list dst @
             take (min n (min (length (rb_list src)) (rb_room dst))) (rb_list src)"
  using assms
proof (induction n arbitrary: i src dst)
  case 0
  then show ?case by simp
next
  case (Suc n)
  show ?case
  proof (cases "rb_list src = [] \<or> rb_room dst = 0")
    case True
    with Suc.prems show ?thesis by (auto simp: rb_empty_iff rb_full_iff)
  next
    case False
    obtain src1 where r: "ringbuffer_remove src = (hd (rb_list src), src1)" "hd (rb_list src) \<noteq> None"
      "rb_wf src1" "rb_list src1 = tl (rb_list src)"
      using rb_remove [OF Suc.prems(1)] False by auto
    obtain dst1 where d: "ringbuffer_insert dst (hd (rb_list src)) = (0, dst1)" "rb_wf dst1"
      "rb_list dst1 = rb_list dst @ [hd (rb_list src)]" "rb_room dst = Suc (rb_room dst1)"
      using rb_insert [OF Suc.prems(2) _ r(2)] False by auto
    from r(2) obtain p where p: "hd (rb_list src) = Some p" by auto
    from False obtain xs where xs: "rb_list src = Some p # xs"
      using p by (cases "rb_list src") auto
    have "transfer (Suc n) i src dst = transfer n (i + 1) src1 dst1"
      using False Suc.prems r(1) d(1) p by (simp add: rb_empty_iff rb_full_iff)
    with Suc.IH [OF r(3) d(2), of "i + 1"] show ?thesis
      by (auto simp: xs r(4) d(3,4))
  qed
qed

subsection \<open>The ring buffer as a bounded queue\<close>

definition rb_contents :: "'a ringbuffer \<Rightarrow> 'a list" where
  "rb_contents b = map the (rb_list b)"

definition rb_offer :: "'a \<Rightarrow> 'a ringbuffer \<Rightarrow> queue_op_status \<times> 'a ringbuffer" where
  "rb_offer x b =
     (case ringbuffer_insert b (Some x) of (rv, b') \<Rightarrow> (if rv = 0 then Success else Full, b'))"

definition rb_fetch :: "'a ringbuffer \<Rightarrow> (queue_op_status \<times> 'a option) \<times> 'a ringbuffer" where
  "rb_fetch b =
     (case ringbuffer_remove b of (p, b') \<Rightarrow> ((if p = None then Empty else Success, p), b'))"

definition rb_capacity :: "'a ringbuffer \<Rightarrow> nat" where
  "rb_capacity b = unat (rsize b) - 1"

lemma rb_sizes [simp]:
  "rsize (snd (ringbuffer_remove b)) = rsize b" "rsize (snd (ringbuffer_insert b p)) = rsize b"
  by (simp_all add: ringbuffer_remove_def ringbuffer_insert_def Let_def)

lemma rb_bound: "rb_wf b \<Longrightarrow> length (rb_list b) \<le> rb_capacity b"
  using ring_len_less [of "nat (rtail b)" "length (rdata b)" "nat (rhead b)"] rb_wfD(1,2) [of b]
  by (simp add: rb_capacity_def rb_list_def length_ring_list rb_wf_def)

lemma rb_room_eq: "rb_wf b \<Longrightarrow> rb_room b = rb_capacity b - length (rb_list b)"
  by (simp add: rb_room_def rb_capacity_def)

lemma rb_offer_eq:
  assumes "rb_wf b"
  shows "rb_wf (snd (rb_offer x b)) \<and> rb_capacity (snd (rb_offer x b)) = rb_capacity b \<and>
         (fst (rb_offer x b), rb_contents (snd (rb_offer x b))) =
           spec_offer (rb_capacity b) False (rb_contents b) x"
proof (cases "rb_room b = 0")
  case True
  with assms show ?thesis
    by (simp add: rb_offer_def ringbuffer_insert_def rb_full_iff spec_offer_def rb_contents_def
        rb_room_eq)
next
  case False
  from rb_insert [OF assms False, of "Some x"] obtain b' where
    b': "ringbuffer_insert b (Some x) = (0, b')" "rb_wf b'" "rb_list b' = rb_list b @ [Some x]" by auto
  from rb_sizes(2) [of b "Some x"] b'(1) have "rsize b' = rsize b" by simp
  with b' False assms show ?thesis
    by (simp add: rb_offer_def spec_offer_def rb_contents_def rb_room_eq rb_capacity_def)
qed

lemma rb_fetch_eq:
  assumes "rb_wf b"
  shows "rb_wf (snd (rb_fetch b)) \<and> rb_capacity (snd (rb_fetch b)) = rb_capacity b \<and>
         (fst (rb_fetch b), rb_contents (snd (rb_fetch b))) = spec_take False (rb_contents b)"
proof (cases "rb_list b = []")
  case True
  with assms show ?thesis
    by (simp add: rb_fetch_def ringbuffer_remove_def rb_empty_iff spec_take_def rb_contents_def)
next
  case False
  from rb_remove [OF assms False] obtain b' where
    b': "ringbuffer_remove b = (hd (rb_list b), b')" "hd (rb_list b) \<noteq> None" "rb_wf b'"
      "rb_list b' = tl (rb_list b)" by auto
  from rb_sizes(1) [of b] b'(1) have "rsize b' = rsize b" by simp
  with b' False show ?thesis
    by (cases "rb_list b") (auto simp: rb_fetch_def spec_take_def rb_contents_def rb_capacity_def)
qed

lemma length_rb_contents: "length (rb_contents b) = length (rb_list b)"
  by (simp add: rb_contents_def)

interpretation ring: bounded_queue rb_wf rb_contents rb_capacity "\<lambda>_. False" rb_offer rb_fetch
  by unfold_locales (simp_all add: length_rb_contents rb_bound rb_offer_eq rb_fetch_eq)

subsection \<open>Properties\<close>

text \<open>C23. The ring buffer of \<open>queue.h\<close> is a bounded FIFO queue: whatever sequence of
  \<open>ringbuffer_insert\<close> and \<open>ringbuffer_remove\<close> runs on it, the pointers delivered followed by those
  still stored are the pointers stored at the start followed by those accepted, and the number stored
  never exceeds \<open>size - 1\<close>; the unsigned wrap-around in \<open>ringbuffer_isFull\<close> is harmless.\<close>

theorem dedup_ringbuffer_fifo:
  assumes "rb_wf b" and "run_ops rb_offer rb_fetch ops b = (ins, outs, b')"
  shows "rb_contents b @ ins = outs @ rb_contents b' \<and>
         length (rb_contents b') < unat (rsize b) \<and> rsize b' = rsize b"
proof -
  from ring.run_fifo [OF assms]
  have "rb_wf b'" "rb_contents b @ ins = outs @ rb_contents b'" and c: "rb_capacity b' = rb_capacity b"
    by auto
  moreover from rb_wfD(1) [OF assms(1)] rb_wfD(1) [OF \<open>rb_wf b'\<close>] assms(1) \<open>rb_wf b'\<close>
  have "0 < unat (rsize b)" "0 < unat (rsize b')"
    by (auto simp: rb_wf_def)
  moreover from this c have "unat (rsize b') = unat (rsize b)"
    by (simp add: rb_capacity_def)
  ultimately show ?thesis
    using rb_bound [of b'] by (auto simp: rb_contents_def rb_capacity_def word_unat_eq_iff)
qed

definition rb_sample :: "nat ringbuffer" where
  "rb_sample = \<lparr>rhead = 0, rtail = 0, rdata = [None, None, None], rsize = 3\<rparr>"

lemma rb_sample_wf: "rb_wf rb_sample" "rb_list rb_sample = []" "rb_room rb_sample = 2"
  by (simp_all add: rb_wf_def rb_sample_def rb_list_def ring_list_def ring_len_def rb_room_def)

theorem dedup_ringbuffer_fifo_witness:
  "fst (run_ops rb_offer rb_fetch [Offer 5, Offer 6, Offer 7, Take] rb_sample) = [5, 6]"
proof -
  let ?r = "run_ops rb_offer rb_fetch [Offer 5, Offer 6, Offer 7, Take] rb_sample"
  obtain ins outs b' where r: "?r = (ins, outs, b')" by (metis prod_cases3)
  have "rb_contents rb_sample @ ins = outs @ rb_contents b'"
    using dedup_ringbuffer_fifo [OF rb_sample_wf(1) r] by simp
  moreover from r have "outs = [5]" "rb_contents b' = [6]"
    by (auto simp: rb_offer_def rb_fetch_def ringbuffer_insert_def ringbuffer_remove_def
        ringbuffer_isFull_def ringbuffer_isEmpty_def rb_sample_def rb_contents_def rb_list_def
        ring_list_def ring_len_def upt_rec word_le_def)
  ultimately show ?thesis using r rb_sample_wf(2) by (simp add: rb_contents_def)
qed

text \<open>\<open>queue_dequeue\<close>: on an empty queue it waits while some producer may still deliver and returns
  -1 once all have terminated; otherwise it moves the oldest pointers, in order, into the caller's
  ring buffer, as many as \<open>limit\<close>, the queue and the free slots allow, returns their number, and
  signals \<open>notFull\<close> exactly when it moved one.\<close>

theorem dedup_queue_dequeue:
  assumes "rb_wf (buf que)" and "rb_wf dst" and "nTerminated que \<le> nProducers que"
    and "k = min (nat limit) (min (length (rb_list (buf que))) (rb_room dst))"
    and "queue_dequeue que dst limit = (r, que', dst')"
  shows "(if rb_list (buf que) = []
          then (que', dst') = (que, dst) \<and>
               r = (if nTerminated que < nProducers que then Waits else Done (-1))
          else r = Done (int k) \<and> rb_wf (buf que') \<and> rb_wf dst' \<and>
               rb_list dst' = rb_list dst @ take k (rb_list (buf que)) \<and>
               rb_list (buf que') = drop k (rb_list (buf que)) \<and>
               raised que' = raised que @ (if k > 0 then [Signal_notFull] else []))"
proof (cases "rb_list (buf que) = []")
  case True
  with assms(1,3,5) show ?thesis
    by (auto simp: queue_dequeue_def rb_empty_iff queue_isTerminated_def split: if_splits)
next
  case False
  from transfer_spec [OF assms(1,2), of "nat limit" 0] assms(4) obtain b d where
    t: "transfer (nat limit) 0 (buf que) dst = (Done (int k), b, d)" "rb_wf b" "rb_wf d"
      "rb_list b = drop k (rb_list (buf que))" "rb_list d = rb_list dst @ take k (rb_list (buf que))"
    by auto
  with False assms(1,5) show ?thesis
    by (auto simp: queue_dequeue_def rb_empty_iff raise_if_def)
qed

definition queue_sample :: "nat queue_t" where
  "queue_sample = \<lparr>buf = \<lparr>rhead = 2, rtail = 0, rdata = [Some 5, Some 6, None], rsize = 3\<rparr>,
     nProducers = 1, nTerminated = 0, raised = []\<rparr>"

lemma queue_sample_wf: "rb_wf (buf queue_sample)" "rb_list (buf queue_sample) = [Some 5, Some 6]"
  by (simp_all add: rb_wf_def queue_sample_def rb_list_def ring_list_def ring_len_def upt_rec)

theorem dedup_queue_dequeue_witness:
  "fst (queue_dequeue queue_sample rb_sample 5) = Done 2 \<and>
   rb_list (snd (snd (queue_dequeue queue_sample rb_sample 5))) = [Some 5, Some 6]"
proof -
  obtain r q d where e: "queue_dequeue queue_sample rb_sample 5 = (r, q, d)" by (metis prod_cases3)
  from dedup_queue_dequeue [OF queue_sample_wf(1) rb_sample_wf(1) _ refl e]
  show ?thesis
    by (simp add: e queue_sample_wf rb_sample_wf queue_sample_def [THEN arg_cong [of _ _ nTerminated]]
        queue_sample_def [THEN arg_cong [of _ _ nProducers]])
qed

text \<open>\<open>queue_enqueue\<close>: after all producers have terminated its assertion fails; on a full queue it
  waits; otherwise it appends the oldest pointers of the caller's ring buffer, in order, as many as
  \<open>limit\<close>, that buffer and the free slots allow, returns their number, and signals \<open>notEmpty\<close> exactly
  when it moved one.\<close>

theorem dedup_queue_enqueue:
  assumes "rb_wf (buf que)" and "rb_wf src" and "nTerminated que \<le> nProducers que"
    and "k = min (nat limit) (min (length (rb_list src)) (rb_room (buf que)))"
    and "queue_enqueue que src limit = (r, que', src')"
  shows "(if nTerminated que = nProducers que then (r, que', src') = (Aborts, que, src)
          else if rb_room (buf que) = 0 then (r, que', src') = (Waits, que, src)
          else r = Done (int k) \<and> rb_wf (buf que') \<and> rb_wf src' \<and>
               rb_list (buf que') = rb_list (buf que) @ take k (rb_list src) \<and>
               rb_list src' = drop k (rb_list src) \<and>
               raised que' = raised que @ (if k > 0 then [Signal_notEmpty] else []))"
proof (cases "nTerminated que = nProducers que \<or> rb_room (buf que) = 0")
  case True
  with assms(1,3,5) show ?thesis
    by (auto simp: queue_enqueue_def rb_full_iff queue_isTerminated_def split: if_splits)
next
  case False
  from transfer_spec [OF assms(2,1), of "nat limit" 0] assms(4) obtain s b where
    t: "transfer (nat limit) 0 src (buf que) = (Done (int k), s, b)" "rb_wf s" "rb_wf b"
      "rb_list s = drop k (rb_list src)" "rb_list b = rb_list (buf que) @ take k (rb_list src)"
    by auto
  with False assms(1,3,5) show ?thesis
    by (auto simp: queue_enqueue_def rb_full_iff raise_if_def queue_isTerminated_def)
qed

theorem dedup_queue_enqueue_witness:
  "fst (queue_enqueue queue_sample rb_sample 5) = Waits"
proof -
  obtain r q d where e: "queue_enqueue queue_sample rb_sample 5 = (r, q, d)" by (metis prod_cases3)
  have "rb_room (buf queue_sample) = 0"
    using queue_sample_wf(2) by (simp add: rb_room_def) (simp add: queue_sample_def)
  with dedup_queue_enqueue [OF queue_sample_wf(1) rb_sample_wf(1) _ refl e]
  show ?thesis
    by (simp add: e queue_sample_def [THEN arg_cong [of _ _ nTerminated]]
        queue_sample_def [THEN arg_cong [of _ _ nProducers]])
qed

end
