(* ===== verification/Dedup_Stages.thy ===== *)
theory Dedup_Stages
  imports Dedup_Parallel Dedup_Ring
begin

text \<open>
  The thread functions of \<open>samples/dedup/encoder.c\<close> (\<open>Fragment\<close>, \<open>FragmentRefine\<close>, \<open>Deduplicate\<close>,
  \<open>Compress\<close>, \<open>Reorder\<close>) and the part of \<open>Encode\<close> that starts them: any number of threads in groups of
  \<open>MAX_THREADS_PER_QUEUE\<close>, each group with a queue in front of every stage but the first. A step is one
  critical section of \<open>queue.c\<close>, one kernel of a stage, or local work of one thread. A thread that would
  wait on a condition variable has no step until its condition holds.

  The queues carry pointers to chunks: \<open>Coarse k c\<close> is a coarse chunk whose fine chunks will be the ones
  from number \<open>k\<close> on (where \<open>malloc\<close> puts them), \<open>Fine c\<close> a fine chunk. A failed assertion or an exit of
  the program is the state \<open>St_failed\<close> of the thread.
\<close>

section \<open>Queues and the constants of the program\<close>

datatype packet = Coarse nat coarse_chunk | Fine "nat rchunk"

datatype que_id = Refine_que nat | Deduplicate_que nat | Compress_que nat | Reorder_que nat

datatype stage_thread = Refiner nat | Deduplicator nat | Compressor nat

type_synonym ques = "que_id \<Rightarrow> packet queue_t"

definition MAX_THREADS_PER_QUEUE :: nat where
  "MAX_THREADS_PER_QUEUE = 4"

definition MAX_PER_FETCH :: nat where
  "MAX_PER_FETCH = 10000"

definition ITEM_PER_FETCH :: nat where
  "ITEM_PER_FETCH = 20"

definition ITEM_PER_INSERT :: nat where
  "ITEM_PER_INSERT = 20"

definition CHUNK_ANCHOR_PER_FETCH :: nat where
  "CHUNK_ANCHOR_PER_FETCH = 20"

definition CHUNK_ANCHOR_PER_INSERT :: nat where
  "CHUNK_ANCHOR_PER_INSERT = 20"

definition ANCHOR_DATA_PER_INSERT :: nat where
  "ANCHOR_DATA_PER_INSERT = 1"

text \<open>The queues a thread uses: where it fetches and how much, where it sends and how much at once, and the
  queue it terminates. \<open>Deduplicate\<close> sends unique chunks to the first of its queues, duplicates to the
  second, and terminates only the first.\<close>

record stage_io =
  in_que :: que_id
  fetch_limit :: nat
  out_ques :: "que_id list"
  insert_limit :: nat
  ends :: que_id

fun stage_of :: "stage_thread \<Rightarrow> stage_io" where
  "stage_of (Refiner tid) = (let qid = tid div MAX_THREADS_PER_QUEUE in
     \<lparr>in_que = Refine_que qid, fetch_limit = MAX_PER_FETCH, out_ques = [Deduplicate_que qid],
      insert_limit = CHUNK_ANCHOR_PER_INSERT, ends = Deduplicate_que qid\<rparr>)"
| "stage_of (Deduplicator tid) = (let qid = tid div MAX_THREADS_PER_QUEUE in
     \<lparr>in_que = Deduplicate_que qid, fetch_limit = CHUNK_ANCHOR_PER_FETCH, out_ques = [Compress_que qid, Reorder_que qid],
      insert_limit = ITEM_PER_INSERT, ends = Compress_que qid\<rparr>)"
| "stage_of (Compressor tid) = (let qid = tid div MAX_THREADS_PER_QUEUE in
     \<lparr>in_que = Compress_que qid, fetch_limit = ITEM_PER_FETCH, out_ques = [Reorder_que qid],
      insert_limit = ITEM_PER_INSERT, ends = Reorder_que qid\<rparr>)"

section \<open>The work on one item\<close>

definition refine_one :: "coarse_chunk \<Rightarrow> string + fine_chunk list" where
  "refine_one c =
     (let (T, W) = rabininit 0 (replicate 256 0) (replicate 256 0)
      in refine_loop T W (coarse_l1num c) 0 (coarse_data c))"

fun new_chunks :: "nat \<Rightarrow> fine_chunk list \<Rightarrow> par_memory \<Rightarrow> par_memory" where
  "new_chunks k [] m = m"
| "new_chunks k (f # fs) m = new_chunks (k + 1) fs (m\<lparr>chunk := (chunk m)(k :=
     chunk m k\<lparr>state := CHUNK_STATE_UNCOMPRESSED, uncompressed_data := fine_data f\<rparr>)\<rparr>)"

text \<open>What a stage does with an item: the items it sends, each with the number of the send buffer.
  \<open>FragmentRefine\<close> cuts a coarse chunk piece by piece and sends each piece before it cuts the next; no other
  thread sees a piece before it is sent, so the pieces are made at once here and then sent one by one.\<close>

fun kernel :: "env \<Rightarrow> int \<Rightarrow> stage_thread \<Rightarrow> packet \<Rightarrow> par_memory
    \<Rightarrow> string + ((nat \<times> packet) list \<times> par_memory)" where
  "kernel ev ty (Refiner tid) (Coarse k c) m =
     map_sum id (\<lambda>fs. (map (\<lambda>f. (0, Fine f)) (tag_chunks k fs), new_chunks k fs m)) (refine_one c)"
| "kernel ev ty (Deduplicator tid) (Fine c) m =
     map_sum id (\<lambda>(dup, m'). ([(if dup then 1 else 0, Fine c)], m')) (par_Deduplicate ev (snd (payload c)) m)"
| "kernel ev ty (Compressor tid) (Fine c) m =
     map_sum id (\<lambda>m'. ([(0, Fine c)], m')) (par_Compress ev ty (snd (payload c)) m)"
| "kernel ev ty u p m = Inl ''no chunk of this stage''"

section \<open>The threads of the three stages in the middle\<close>

text \<open>The places in the code: the test at the head of the loop, the removal of one item, the insertion of
  what the item gave into the send buffers, the transfer of full buffer \<open>i\<close>, the draining of the buffers, the
  call of \<open>queue_terminate\<close>.\<close>

datatype st_pc = St_loop | St_work | St_put "(nat \<times> packet) list" | St_send nat "(nat \<times> packet) list"
  | St_drain nat | St_shutdown | St_ended | St_failed string

record st_thread =
  recv_buf :: "packet ringbuffer"
  send_bufs :: "packet ringbuffer list"
  st_pc :: st_pc

definition send_buffer :: "stage_io \<Rightarrow> nat \<Rightarrow> st_pc \<Rightarrow> st_thread \<Rightarrow> ques \<Rightarrow> (st_thread \<times> ques) option" where
  "send_buffer st i pc w Q =
     (let q = out_ques st ! i
      in case queue_enqueue (Q q) (send_bufs w ! i) (int (insert_limit st)) of
          (Waits, _, _) \<Rightarrow> None
        | (Aborts, _, _) \<Rightarrow> Some (w\<lparr>st_pc := St_failed ''assertion failed''\<rparr>, Q)
        | (Done r, que, b) \<Rightarrow>
            Some (w\<lparr>send_bufs := (send_bufs w)[i := b],
                    st_pc := if r \<ge> 1 then pc else St_failed ''assertion failed''\<rparr>, Q(q := que)))"

definition fetch_items :: "stage_io \<Rightarrow> st_thread \<Rightarrow> ques \<Rightarrow> (st_thread \<times> ques) option" where
  "fetch_items st w Q =
     (case queue_dequeue (Q (in_que st)) (recv_buf w) (int (fetch_limit st)) of
        (Waits, _, _) \<Rightarrow> None
      | (Aborts, _, _) \<Rightarrow> Some (w\<lparr>st_pc := St_failed ''assertion failed''\<rparr>, Q)
      | (Done r, que, b) \<Rightarrow>
          Some (w\<lparr>recv_buf := b, st_pc := if r < 0 then St_drain 0 else St_work\<rparr>, Q(in_que st := que)))"

definition work_item :: "env \<Rightarrow> int \<Rightarrow> stage_thread \<Rightarrow> st_thread \<Rightarrow> par_memory \<Rightarrow> st_thread \<times> par_memory" where
  "work_item ev ty u w m =
     (case ringbuffer_remove (recv_buf w) of
        (None, _) \<Rightarrow> (w\<lparr>st_pc := St_failed ''assertion failed''\<rparr>, m)
      | (Some p, b) \<Rightarrow>
          (case kernel ev ty u p m of
              Inl e \<Rightarrow> (w\<lparr>st_pc := St_failed e\<rparr>, m)
            | Inr (outs, m') \<Rightarrow> (w\<lparr>recv_buf := b, st_pc := St_put outs\<rparr>, m')))"

definition put_item :: "nat \<Rightarrow> packet \<Rightarrow> (nat \<times> packet) list \<Rightarrow> st_thread \<Rightarrow> st_thread" where
  "put_item i p outs w =
     (case ringbuffer_insert (send_bufs w ! i) (Some p) of
        (rv, b) \<Rightarrow>
          if rv = 0
          then w\<lparr>send_bufs := (send_bufs w)[i := b], st_pc := if ringbuffer_isFull b then St_send i outs else St_put outs\<rparr>
          else w\<lparr>st_pc := St_failed ''assertion failed''\<rparr>)"

text \<open>\<open>None\<close>: the thread waits, or it has no further step.\<close>

definition stage_thread_step :: "env \<Rightarrow> int \<Rightarrow> stage_thread \<Rightarrow> st_thread \<Rightarrow> ques \<Rightarrow> par_memory
    \<Rightarrow> (st_thread \<times> ques \<times> par_memory) option" where
  "stage_thread_step ev ty u w Q m =
     (let st = stage_of u
      in case st_pc w of
          St_loop \<Rightarrow>
            if ringbuffer_isEmpty (recv_buf w) then map_option (\<lambda>(w', Q'). (w', Q', m)) (fetch_items st w Q)
            else Some (w\<lparr>st_pc := St_work\<rparr>, Q, m)
        | St_work \<Rightarrow> (case work_item ev ty u w m of (w', m') \<Rightarrow> Some (w', Q, m'))
        | St_put [] \<Rightarrow> Some (w\<lparr>st_pc := St_loop\<rparr>, Q, m)
        | St_put ((i, p) # outs) \<Rightarrow> Some (put_item i p outs w, Q, m)
        | St_send i outs \<Rightarrow> map_option (\<lambda>(w', Q'). (w', Q', m)) (send_buffer st i (St_put outs) w Q)
        | St_drain i \<Rightarrow>
            if i < length (out_ques st) then
              (if ringbuffer_isEmpty (send_bufs w ! i) then Some (w\<lparr>st_pc := St_drain (i + 1)\<rparr>, Q, m)
               else map_option (\<lambda>(w', Q'). (w', Q', m)) (send_buffer st i (St_drain i) w Q))
            else Some (w\<lparr>st_pc := St_shutdown\<rparr>, Q, m)
        | St_shutdown \<Rightarrow>
            (case queue_terminate (Q (ends st)) of
                (Done _, que) \<Rightarrow> Some (w\<lparr>st_pc := St_ended\<rparr>, Q(ends st := que), m)
              | (_, que) \<Rightarrow> Some (w\<lparr>st_pc := St_failed ''assertion failed''\<rparr>, Q, m))
        | St_ended \<Rightarrow> None
        | St_failed e \<Rightarrow> None)"

section \<open>The first stage\<close>

text \<open>The coarse chunks that the loop of \<open>Fragment\<close> makes are in \<open>fr_todo\<close>. The last one is put into the send
  buffer and left to the draining.\<close>

datatype fr_pc = Fr_emit | Fr_send | Fr_drain | Fr_shutdown nat | Fr_ended | Fr_failed

record fragmenter =
  fr_todo :: "packet list"
  fr_send :: "packet ringbuffer"
  fr_qid :: nat
  fr_pc :: fr_pc

definition fragment_send :: "nat \<Rightarrow> fr_pc \<Rightarrow> fragmenter \<Rightarrow> ques \<Rightarrow> (fragmenter \<times> ques) option" where
  "fragment_send nqueues pc f Q =
     (case queue_enqueue (Q (Refine_que (fr_qid f))) (fr_send f) (int ANCHOR_DATA_PER_INSERT) of
        (Waits, _, _) \<Rightarrow> None
      | (Aborts, _, _) \<Rightarrow> Some (f\<lparr>fr_pc := Fr_failed\<rparr>, Q)
      | (Done r, que, b) \<Rightarrow>
          Some (f\<lparr>fr_send := b, fr_qid := (fr_qid f + 1) mod nqueues, fr_pc := if r \<ge> 1 then pc else Fr_failed\<rparr>,
                Q(Refine_que (fr_qid f) := que)))"

definition fragment_step :: "nat \<Rightarrow> fragmenter \<Rightarrow> ques \<Rightarrow> (fragmenter \<times> ques) option" where
  "fragment_step nqueues f Q =
     (case fr_pc f of
        Fr_emit \<Rightarrow>
          (case fr_todo f of
              [] \<Rightarrow> Some (f\<lparr>fr_pc := Fr_drain\<rparr>, Q)
            | p # ps \<Rightarrow>
                (case ringbuffer_insert (fr_send f) (Some p) of
                    (rv, b) \<Rightarrow>
                      Some (f\<lparr>fr_todo := ps, fr_send := b,
                              fr_pc := if rv \<noteq> 0 then Fr_failed
                                       else if ps \<noteq> [] \<and> ringbuffer_isFull b then Fr_send else Fr_emit\<rparr>, Q)))
      | Fr_send \<Rightarrow> fragment_send nqueues Fr_emit f Q
      | Fr_drain \<Rightarrow>
          if ringbuffer_isEmpty (fr_send f) then Some (f\<lparr>fr_pc := Fr_shutdown 0\<rparr>, Q)
          else fragment_send nqueues Fr_drain f Q
      | Fr_shutdown i \<Rightarrow>
          if i < nqueues then
            (case queue_terminate (Q (Refine_que i)) of
                (Done _, que) \<Rightarrow> Some (f\<lparr>fr_pc := Fr_shutdown (i + 1)\<rparr>, Q(Refine_que i := que))
              | (_, que) \<Rightarrow> Some (f\<lparr>fr_pc := Fr_failed\<rparr>, Q))
          else Some (f\<lparr>fr_pc := Fr_ended\<rparr>, Q)
      | Fr_ended \<Rightarrow> None
      | Fr_failed \<Rightarrow> None)"

section \<open>The last stage\<close>

text \<open>The loop that polls the queues in turn has gone round \<open>i\<close> times, the last result was \<open>r\<close>. What the
  reorder component appends to its output is written chunk by chunk; a duplicate may have to wait for its
  original.\<close>

datatype re_pc = Re_loop | Re_poll nat int | Re_take | Re_write "nat list" | Re_flush | Re_finish "nat list"
  | Re_ended | Re_failed string

record reorderer =
  re_buf :: "packet ringbuffer"
  re_qid :: nat
  re_state :: "nat reorder"
  re_pc :: re_pc

definition poll_queue :: "nat \<Rightarrow> nat \<Rightarrow> reorderer \<Rightarrow> ques \<Rightarrow> (reorderer \<times> ques) option" where
  "poll_queue nqueues i re Q =
     (case queue_dequeue (Q (Reorder_que (re_qid re))) (re_buf re) (int ITEM_PER_FETCH) of
        (Waits, _, _) \<Rightarrow> None
      | (Aborts, _, _) \<Rightarrow> Some (re\<lparr>re_pc := Re_failed ''assertion failed''\<rparr>, Q)
      | (Done r, que, b) \<Rightarrow>
          Some (re\<lparr>re_buf := b, re_qid := (re_qid re + 1) mod nqueues, re_pc := Re_poll (i + 1) r\<rparr>,
                Q(Reorder_que (re_qid re) := que)))"

definition take_chunk :: "reorderer \<Rightarrow> reorderer" where
  "take_chunk re =
     (case ringbuffer_remove (re_buf re) of
        (Some (Fine c), b) \<Rightarrow>
          (case reorder_receive True c (re_state re) of
              Inl e \<Rightarrow> re\<lparr>re_pc := Re_failed e\<rparr>
            | Inr st \<Rightarrow> re\<lparr>re_buf := b, re_state := st,
                re_pc := Re_write (drop (length (to_file (re_state re))) (to_file st))\<rparr>)
      | (Some (Coarse k c), b) \<Rightarrow> re\<lparr>re_pc := Re_failed ''no chunk of this stage''\<rparr>
      | (None, b) \<Rightarrow> re\<lparr>re_pc := Re_flush\<rparr>)"

definition flush_cache :: "reorderer \<Rightarrow> reorderer" where
  "flush_cache re =
     (let st = re_state re
      in case flush_loop (tree_chunks (cached st)) (Retrieve (TreeFindMin Null (cached st))) st of
          Inl e \<Rightarrow> re\<lparr>re_pc := Re_failed e\<rparr>
        | Inr st' \<Rightarrow> re\<lparr>re_state := st', re_pc := Re_finish (drop (length (to_file st)) (to_file st'))\<rparr>)"

definition reorder_step :: "nat \<Rightarrow> reorderer \<Rightarrow> ques \<Rightarrow> par_memory \<Rightarrow> (reorderer \<times> ques \<times> par_memory) option" where
  "reorder_step nqueues re Q m =
     (case re_pc re of
        Re_loop \<Rightarrow> Some (re\<lparr>re_pc := if ringbuffer_isEmpty (re_buf re) then Re_poll 0 0 else Re_take\<rparr>, Q, m)
      | Re_poll i r \<Rightarrow>
          if r \<le> 0 \<and> i < nqueues then map_option (\<lambda>(re', Q'). (re', Q', m)) (poll_queue nqueues i re Q)
          else Some (re\<lparr>re_pc := if r < 0 then Re_flush else Re_take\<rparr>, Q, m)
      | Re_take \<Rightarrow> Some (take_chunk re, Q, m)
      | Re_write [] \<Rightarrow> Some (re\<lparr>re_pc := Re_loop\<rparr>, Q, m)
      | Re_write (i # is) \<Rightarrow> map_option (\<lambda>m'. (re\<lparr>re_pc := Re_write is\<rparr>, Q, m')) (par_write_chunk_to_file i m)
      | Re_flush \<Rightarrow> Some (flush_cache re, Q, m)
      | Re_finish [] \<Rightarrow> Some (re\<lparr>re_pc := Re_ended\<rparr>, Q, m)
      | Re_finish (i # is) \<Rightarrow> map_option (\<lambda>m'. (re\<lparr>re_pc := Re_finish is\<rparr>, Q, m')) (par_write_chunk_to_file i m)
      | Re_ended \<Rightarrow> None
      | Re_failed e \<Rightarrow> None)"

section \<open>The encoder\<close>

record encoder =
  en_que :: ques
  en_fragmenter :: fragmenter
  en_threads :: "stage_thread \<Rightarrow> st_thread"
  en_reorderer :: reorderer
  en_memory :: par_memory

definition nqueues :: "nat \<Rightarrow> nat" where
  "nqueues nthreads = nthreads div MAX_THREADS_PER_QUEUE + (if nthreads mod MAX_THREADS_PER_QUEUE \<noteq> 0 then 1 else 0)"

definition threads_per_queue :: "nat \<Rightarrow> nat \<Rightarrow> nat" where
  "threads_per_queue nthreads i =
     (if i < nqueues nthreads - 1 \<or> nthreads mod MAX_THREADS_PER_QUEUE = 0 then MAX_THREADS_PER_QUEUE
      else nthreads mod MAX_THREADS_PER_QUEUE)"

definition new_ringbuffer :: "nat \<Rightarrow> packet ringbuffer" where
  "new_ringbuffer sz =
     snd (ringbuffer_init (Some (replicate (sz + 1) None)) (of_nat sz) \<lparr>rhead = 0, rtail = 0, rdata = [], rsize = 0\<rparr>)"

definition new_queue :: "nat \<Rightarrow> nat \<Rightarrow> packet queue_t" where
  "new_queue sz producers =
     snd (queue_init (Some (replicate (sz + 1) None)) (of_nat sz) (int producers)
       \<lparr>buf = \<lparr>rhead = 0, rtail = 0, rdata = [], rsize = 0\<rparr>, nProducers = 0, nTerminated = 0, raised = []\<rparr>)"

text \<open>\<open>sz\<close> is \<open>QUEUE_SIZE\<close>.\<close>

fun encode_queues :: "nat \<Rightarrow> nat \<Rightarrow> ques" where
  "encode_queues nthreads sz (Refine_que i) = new_queue sz 1"
| "encode_queues nthreads sz (Deduplicate_que i) = new_queue sz (threads_per_queue nthreads i)"
| "encode_queues nthreads sz (Compress_que i) = new_queue sz (threads_per_queue nthreads i)"
| "encode_queues nthreads sz (Reorder_que i) = new_queue sz (threads_per_queue nthreads i)"

definition new_thread :: "stage_thread \<Rightarrow> st_thread" where
  "new_thread u = (let st = stage_of u in
     \<lparr>recv_buf = new_ringbuffer (fetch_limit st),
      send_bufs = map (\<lambda>_. new_ringbuffer (insert_limit st)) (out_ques st), st_pc = St_loop\<rparr>)"

text \<open>Where the fine chunks of a coarse chunk will be.\<close>

fun tag_coarse :: "nat \<Rightarrow> coarse_chunk list \<Rightarrow> packet list" where
  "tag_coarse k [] = []"
| "tag_coarse k (c # cs) = Coarse k c # tag_coarse (k + (case refine_one c of Inl e \<Rightarrow> 0 | Inr fs \<Rightarrow> length fs)) cs"

definition encode_threads :: "nat \<Rightarrow> nat \<Rightarrow> coarse_chunk list \<Rightarrow> par_memory \<Rightarrow> encoder" where
  "encode_threads nthreads sz cs m =
     \<lparr>en_que = encode_queues nthreads sz,
      en_fragmenter = \<lparr>fr_todo = tag_coarse 0 cs, fr_send = new_ringbuffer ANCHOR_DATA_PER_INSERT, fr_qid = 0, fr_pc = Fr_emit\<rparr>,
      en_threads = new_thread,
      en_reorderer = \<lparr>re_buf = new_ringbuffer ITEM_PER_FETCH, re_qid = 0, re_state = reorder_start, re_pc = Re_loop\<rparr>,
      en_memory = m\<rparr>"

definition stage_threads :: "nat \<Rightarrow> stage_thread set" where
  "stage_threads nthreads = Refiner ` {..<nthreads} \<union> Deduplicator ` {..<nthreads} \<union> Compressor ` {..<nthreads}"

inductive encoder_step :: "env \<Rightarrow> int \<Rightarrow> nat \<Rightarrow> encoder \<Rightarrow> encoder \<Rightarrow> bool" for ev ty nthreads where
  stage_moves: "u \<in> stage_threads nthreads \<Longrightarrow>
     stage_thread_step ev ty u (en_threads s u) (en_que s) (en_memory s) = Some (w, Q, m) \<Longrightarrow>
     encoder_step ev ty nthreads s (s\<lparr>en_threads := (en_threads s)(u := w), en_que := Q, en_memory := m\<rparr>)"
| fragment_moves: "fragment_step (nqueues nthreads) (en_fragmenter s) (en_que s) = Some (f, Q) \<Longrightarrow>
     encoder_step ev ty nthreads s (s\<lparr>en_fragmenter := f, en_que := Q\<rparr>)"
| reorder_moves: "reorder_step (nqueues nthreads) (en_reorderer s) (en_que s) (en_memory s) = Some (re, Q, m) \<Longrightarrow>
     encoder_step ev ty nthreads s (s\<lparr>en_reorderer := re, en_que := Q, en_memory := m\<rparr>)"

text \<open>The cache is empty and the header of the archive has been written.\<close>

definition fresh_memory :: "env \<Rightarrow> int \<Rightarrow> par_memory \<Rightarrow> bool" where
  "fresh_memory ev ty m \<longleftrightarrow>
     hashtable_create False (load_limit ev) (table_mem ev) 65536 = Some (par_cache m) \<and>
     par_out m = write_header (word_of_int ty)"

definition encoder_reaches :: "env \<Rightarrow> int \<Rightarrow> nat \<Rightarrow> nat \<Rightarrow> coarse_chunk list \<Rightarrow> encoder \<Rightarrow> bool" where
  "encoder_reaches ev ty nthreads sz cs s \<longleftrightarrow>
     (\<exists>m. fresh_memory ev ty m \<and> (encoder_step ev ty nthreads)\<^sup>*\<^sup>* (encode_threads nthreads sz cs m) s)"

end
