(* ===== verification/Dedup_Stages_Queues.thy ===== *)
theory Dedup_Stages_Queues
  imports Dedup_Stages
begin

text \<open>
  The ring buffers and queues of \<open>Dedup_Ring\<close> seen through the list of what they hold: one rule for each
  operation that the threads of \<open>Dedup_Stages\<close> call.
\<close>

named_theorems buffer_simps

definition buf_ok :: "nat \<Rightarrow> 'a ringbuffer \<Rightarrow> bool" where
  "buf_ok n b \<longleftrightarrow> rb_wf b \<and> rb_capacity b = n"

lemma buf_list:
  assumes "rb_wf b"
  shows "rb_list b = map Some (rb_contents b)"
proof -
  have "Some (the x) = x" if "x \<in> set (rb_list b)" for x using assms that by (cases x) (auto simp: rb_wf_def)
  then show ?thesis by (simp add: rb_contents_def comp_def map_idI)
qed

lemma buf_empty [buffer_simps]: "buf_ok n b \<Longrightarrow> ringbuffer_isEmpty b \<longleftrightarrow> rb_contents b = []"
  by (simp add: buf_ok_def rb_empty_iff rb_contents_def)

lemma buf_full [buffer_simps]: "buf_ok n b \<Longrightarrow> ringbuffer_isFull b \<longleftrightarrow> n \<le> length (rb_contents b)"
  by (simp add: buf_ok_def rb_full_iff rb_room_eq length_rb_contents)

lemma buf_bound: "buf_ok n b \<Longrightarrow> length (rb_contents b) \<le> n"
  using rb_bound [of b] by (simp add: buf_ok_def length_rb_contents)

lemma buf_remove_empty: "buf_ok n b \<Longrightarrow> rb_contents b = [] \<Longrightarrow> ringbuffer_remove b = (None, b)"
  by (simp add: ringbuffer_remove_def buf_empty)

lemma buf_remove:
  assumes "buf_ok n b" and "rb_contents b = x # xs"
  obtains b' where "ringbuffer_remove b = (Some x, b')" "buf_ok n b'" "rb_contents b' = xs"
proof -
  have l: "rb_list b = Some x # map Some xs" using assms buf_list [of b] by (simp add: buf_ok_def)
  then obtain b' where b': "ringbuffer_remove b = (Some x, b')" "rb_wf b'" "rb_list b' = map Some xs"
    using rb_remove [of b] assms(1) by (auto simp: buf_ok_def)
  have "rsize b' = rsize b" using rb_sizes(1) [of b] b'(1) by simp
  with b' assms(1) show ?thesis by (intro that [OF b'(1)]) (simp_all add: buf_ok_def rb_capacity_def rb_contents_def comp_def)
qed

lemma buf_insert:
  assumes "buf_ok n b" and "length (rb_contents b) < n"
  obtains b' where "ringbuffer_insert b (Some x) = (0, b')" "buf_ok n b'" "rb_contents b' = rb_contents b @ [x]"
proof -
  have "rb_room b \<noteq> 0" using assms by (simp add: buf_ok_def rb_room_eq length_rb_contents)
  then obtain b' where b': "ringbuffer_insert b (Some x) = (0, b')" "rb_wf b'" "rb_list b' = rb_list b @ [Some x]"
    using rb_insert [of b "Some x"] assms(1) by (auto simp: buf_ok_def)
  have "rsize b' = rsize b" using rb_sizes(2) [of b "Some x"] b'(1) by simp
  with b' assms(1) show ?thesis by (intro that [OF b'(1)]) (simp_all add: buf_ok_def rb_capacity_def rb_contents_def)
qed

lemma transfer_rsize:
  "transfer n i src dst = (r, src', dst') \<Longrightarrow> rsize src' = rsize src \<and> rsize dst' = rsize dst"
proof (induction n i src dst rule: transfer.induct)
  case (2 n i src dst)
  have "rsize s = rsize src" if "ringbuffer_remove src = (p, s)" for p s using rb_sizes(1) [of src] that by simp
  moreover have "rsize d = rsize dst" if "ringbuffer_insert dst p = (rv, d)" for p rv d
    using rb_sizes(2) [of dst p] that by simp
  ultimately show ?case using "2.prems" "2.IH"
    by (auto split: if_splits prod.splits option.splits)
qed simp

text \<open>Queues, by what they hold.\<close>

definition finished :: "'a queue_t \<Rightarrow> bool" where
  "finished que \<longleftrightarrow> nTerminated que = nProducers que \<and> rb_contents (buf que) = []"

definition que_ok :: "nat \<Rightarrow> 'a queue_t \<Rightarrow> bool" where
  "que_ok sz que \<longleftrightarrow> buf_ok sz (buf que) \<and> nTerminated que \<le> nProducers que"

lemma raise_if_fields [simp]:
  "nProducers (raise_if b sig que) = nProducers que" "nTerminated (raise_if b sig que) = nTerminated que"
  "buf (raise_if b sig que) = buf que"
  by (simp_all add: raise_if_def)

lemma enqueue_fields:
  assumes "queue_enqueue que src limit = (r, que', src')"
  shows "nProducers que' = nProducers que \<and> nTerminated que' = nTerminated que \<and>
     rsize (buf que') = rsize (buf que) \<and> rsize src' = rsize src"
proof -
  obtain c s b where t: "transfer (nat limit) 0 src (buf que) = (c, s, b)" by (metis prod_cases3)
  have "(que', src') = (que, src) \<or> (\<exists>g sig. que' = raise_if g sig (que\<lparr>buf := b\<rparr>) \<and> src' = s) \<or>
      que' = que\<lparr>buf := b\<rparr> \<and> src' = s"
    using assms by (auto simp: queue_enqueue_def t split: option.splits bool.splits if_splits c_result.splits)
  with transfer_rsize [OF t] show ?thesis by auto
qed

lemma dequeue_fields:
  assumes "queue_dequeue que dst limit = (r, que', dst')"
  shows "nProducers que' = nProducers que \<and> nTerminated que' = nTerminated que \<and>
     rsize (buf que') = rsize (buf que) \<and> rsize dst' = rsize dst"
proof -
  obtain c b d where t: "transfer (nat limit) 0 (buf que) dst = (c, b, d)" by (metis prod_cases3)
  have "(que', dst') = (que, dst) \<or> (\<exists>g sig. que' = raise_if g sig (que\<lparr>buf := b\<rparr>) \<and> dst' = d) \<or>
      que' = que\<lparr>buf := b\<rparr> \<and> dst' = d"
    using assms by (auto simp: queue_dequeue_def t split: option.splits if_splits c_result.splits)
  with transfer_rsize [OF t] show ?thesis by auto
qed

lemma enqueue_cases:
  assumes "que_ok sz que" and "nTerminated que < nProducers que" and "buf_ok n src" and "rb_contents src \<noteq> []"
    and "0 < limit" and "queue_enqueue que src (int limit) = (r, que', src')"
  obtains (waits) "r = Waits" "length (rb_contents (buf que)) = sz"
  | (sends) k where "r = Done (int k)" "1 \<le> k" "que_ok sz que'" "buf_ok n src'"
      "nProducers que' = nProducers que" "nTerminated que' = nTerminated que"
      "rb_contents (buf que') = rb_contents (buf que) @ take k (rb_contents src)"
      "rb_contents src' = drop k (rb_contents src)"
      "k = min limit (min (length (rb_contents src)) (sz - length (rb_contents (buf que))))"
proof -
  let ?k = "min limit (min (length (rb_contents src)) (sz - length (rb_contents (buf que))))"
  have room: "rb_room (buf que) = sz - length (rb_contents (buf que))"
    using assms(1) by (simp add: que_ok_def buf_ok_def rb_room_eq length_rb_contents)
  have wf: "rb_wf (buf que)" "rb_wf src" "nTerminated que \<le> nProducers que"
    using assms(1,3) by (simp_all add: que_ok_def buf_ok_def)
  note E = dedup_queue_enqueue [OF wf refl assms(6)]
  note fields = enqueue_fields [OF assms(6)]
  show ?thesis
  proof (cases "rb_room (buf que) = 0")
    case True
    with E assms(2) room buf_bound [of sz "buf que"] assms(1) show ?thesis by (intro waits) (auto simp: que_ok_def)
  next
    case False
    have k: "min (nat (int limit)) (min (length (rb_list src)) (rb_room (buf que))) = ?k"
      by (simp add: room length_rb_contents)
    have "1 \<le> ?k" using False room assms(4,5) by (auto simp: Suc_le_eq)
    have e: "r = Done (int ?k)" "rb_wf (buf que')" "rb_wf src'"
      "rb_list (buf que') = rb_list (buf que) @ take ?k (rb_list src)" "rb_list src' = drop ?k (rb_list src)"
      using E False assms(2) unfolding k by simp_all
    show ?thesis
    proof (rule sends [OF e(1) \<open>1 \<le> ?k\<close>])
      show "que_ok sz que'" "buf_ok n src'"
        using fields assms(1,3) e(2,3) by (simp_all add: que_ok_def buf_ok_def rb_capacity_def)
      show "rb_contents (buf que') = rb_contents (buf que) @ take ?k (rb_contents src)"
        "rb_contents src' = drop ?k (rb_contents src)" by (simp_all add: rb_contents_def e(4,5) take_map drop_map)
    qed (use fields in simp_all)
  qed
qed

lemma dequeue_cases:
  assumes "que_ok sz que" and "buf_ok n dst" and "rb_contents dst = []" and "0 < n" and "0 < limit"
    and "queue_dequeue que dst (int limit) = (r, que', dst')"
  obtains (waits) "r = Waits" "rb_contents (buf que) = []" "nTerminated que < nProducers que"
  | (closed) "r = Done (-1)" "finished que" "que' = que" "dst' = dst"
  | (gets) k where "r = Done (int k)" "1 \<le> k" "que_ok sz que'" "buf_ok n dst'"
      "nProducers que' = nProducers que" "nTerminated que' = nTerminated que"
      "rb_contents dst' = take k (rb_contents (buf que))"
      "rb_contents (buf que') = drop k (rb_contents (buf que))"
      "k = min limit (min (length (rb_contents (buf que))) n)"
proof -
  let ?k = "min limit (min (length (rb_contents (buf que))) n)"
  have room: "rb_room dst = n"
    using assms(2,3) length_rb_contents [of dst] by (simp add: buf_ok_def rb_room_eq)
  have wf: "rb_wf (buf que)" "rb_wf dst" "nTerminated que \<le> nProducers que"
    using assms(1,2) by (simp_all add: que_ok_def buf_ok_def)
  note D = dedup_queue_dequeue [OF wf refl assms(6)]
  note fields = dequeue_fields [OF assms(6)]
  show ?thesis
  proof (cases "rb_list (buf que) = []")
    case True
    then have nil: "rb_contents (buf que) = []" by (simp add: rb_contents_def)
    show ?thesis
    proof (cases "nTerminated que < nProducers que")
      case True
      with D \<open>rb_list (buf que) = []\<close> nil show ?thesis by (intro waits) auto
    next
      case False
      with D \<open>rb_list (buf que) = []\<close> nil wf(3) show ?thesis by (intro closed) (auto simp: finished_def)
    qed
  next
    case False
    have k: "min (nat (int limit)) (min (length (rb_list (buf que))) (rb_room dst)) = ?k"
      by (simp add: room length_rb_contents)
    have "1 \<le> ?k" using False assms(4,5) by (auto simp: Suc_le_eq rb_contents_def)
    have e: "r = Done (int ?k)" "rb_wf (buf que')" "rb_wf dst'"
      "rb_list dst' = rb_list dst @ take ?k (rb_list (buf que))" "rb_list (buf que') = drop ?k (rb_list (buf que))"
      using D False unfolding k by simp_all
    show ?thesis
    proof (rule gets [OF e(1) \<open>1 \<le> ?k\<close>])
      show "que_ok sz que'" "buf_ok n dst'"
        using fields assms(1,2) e(2,3) by (simp_all add: que_ok_def buf_ok_def rb_capacity_def)
      show "rb_contents dst' = take ?k (rb_contents (buf que))"
        "rb_contents (buf que') = drop ?k (rb_contents (buf que))"
        using assms(3) by (simp_all add: rb_contents_def e(4,5) take_map drop_map)
    qed (use fields in simp_all)
  qed
qed

lemma terminate_cases:
  assumes "que_ok sz que" and "nTerminated que < nProducers que"
  obtains que' where "queue_terminate que = (Done (), que')" "que_ok sz que'" "buf que' = buf que"
    "nProducers que' = nProducers que" "nTerminated que' = nTerminated que + 1"
  using assms by (auto simp: queue_terminate_def queue_isTerminated_def Let_def que_ok_def)

end
