(* ===== verification/Dedup_Stages_Inv.thy ===== *)
theory Dedup_Stages_Inv
  imports Dedup_Stages_Queues
begin

text \<open>
  What the threads of \<open>Dedup_Stages\<close> keep: well-formed buffers and queues, the balance of producers, and
  where every chunk is.
\<close>

section \<open>Where the chunks are\<close>

text \<open>A chunk that has not been cut off its coarse chunk yet is \<open>Unmade\<close>; its data are known.\<close>

datatype spot = Unmade "uchar list" | Made place

type_synonym spread = "(spot \<times> nat rchunk) multiset"

fun que_place :: "que_id \<Rightarrow> place" where
  "que_place (Refine_que g) = In_deduplicate"
| "que_place (Deduplicate_que g) = In_deduplicate"
| "que_place (Compress_que g) = In_compress"
| "que_place (Reorder_que g) = In_reorder"

fun packet_spread :: "place \<Rightarrow> packet \<Rightarrow> spread" where
  "packet_spread pl (Coarse k c) =
     (case refine_one c of Inl e \<Rightarrow> {#}
      | Inr fs \<Rightarrow> mset (zip (map (\<lambda>f. Unmade (fine_data f)) fs) (tag_chunks k fs)))"
| "packet_spread pl (Fine c) = {#(Made pl, c)#}"

definition list_spread :: "place \<Rightarrow> packet list \<Rightarrow> spread" where
  "list_spread pl ps = sum_list (map (packet_spread pl) ps)"

lemma list_spread_simps [simp]:
  "list_spread pl [] = {#}" "list_spread pl (p # ps) = packet_spread pl p + list_spread pl ps"
  "list_spread pl (ps @ qs) = list_spread pl ps + list_spread pl qs"
  by (simp_all add: list_spread_def)

lemma list_spread_split: "list_spread pl (take k ps) + list_spread pl (drop k ps) = list_spread pl ps"
  by (metis append_take_drop_id list_spread_simps(3))

definition que_spread :: "que_id \<Rightarrow> packet queue_t \<Rightarrow> spread" where
  "que_spread q x = list_spread (que_place q) (rb_contents (buf x))"

fun unsent :: "st_pc \<Rightarrow> (nat \<times> packet) list" where
  "unsent (St_put outs) = outs"
| "unsent (St_send i outs) = outs"
| "unsent pc = []"

definition outs_spread :: "stage_io \<Rightarrow> (nat \<times> packet) list \<Rightarrow> spread" where
  "outs_spread st outs = sum_list (map (\<lambda>(i, p). packet_spread (que_place (out_ques st ! i)) p) outs)"

lemma outs_spread_simps [simp]:
  "outs_spread st [] = {#}"
  "outs_spread st ((i, p) # outs) = packet_spread (que_place (out_ques st ! i)) p + outs_spread st outs"
  by (simp_all add: outs_spread_def)

definition bufs_spread :: "stage_io \<Rightarrow> packet ringbuffer list \<Rightarrow> spread" where
  "bufs_spread st bs = (\<Sum>i < length (out_ques st). list_spread (que_place (out_ques st ! i)) (rb_contents (bs ! i)))"

lemma bufs_spread_update:
  assumes "i < length (out_ques st)" and "length bs = length (out_ques st)"
  shows "bufs_spread st (bs[i := b]) + list_spread (que_place (out_ques st ! i)) (rb_contents (bs ! i)) =
     bufs_spread st bs + list_spread (que_place (out_ques st ! i)) (rb_contents b)"
proof -
  let ?f = "\<lambda>bs j. list_spread (que_place (out_ques st ! j)) (rb_contents (bs ! j))"
  have "(\<Sum>j \<in> {..<length (out_ques st)} - {i}. ?f (bs[i := b]) j) = (\<Sum>j \<in> {..<length (out_ques st)} - {i}. ?f bs j)"
    by (intro sum.cong) auto
  with assms show ?thesis
    by (simp add: bufs_spread_def sum.remove [of _ i] ac_simps)
qed

definition st_spread :: "stage_thread \<Rightarrow> st_thread \<Rightarrow> spread" where
  "st_spread u w = (let st = stage_of u in
     list_spread (que_place (in_que st)) (rb_contents (recv_buf w)) + bufs_spread st (send_bufs w) +
     outs_spread st (unsent (st_pc w)))"

section \<open>One step of a thread in the middle\<close>

fun sort_ok :: "que_id \<Rightarrow> packet \<Rightarrow> bool" where
  "sort_ok (Refine_que g) p = (\<exists>k c fs. p = Coarse k c \<and> refine_one c = Inr fs)"
| "sort_ok q p = (\<exists>c. p = Fine c)"

definition sorts_ok :: "que_id \<Rightarrow> packet list \<Rightarrow> bool" where
  "sorts_ok q ps \<longleftrightarrow> (\<forall>p \<in> set ps. sort_ok q p)"

lemma sorts_ok_simps [simp]:
  "sorts_ok q []" "sorts_ok q (p # ps) \<longleftrightarrow> sort_ok q p \<and> sorts_ok q ps"
  "sorts_ok q (ps @ qs) \<longleftrightarrow> sorts_ok q ps \<and> sorts_ok q qs"
  by (auto simp: sorts_ok_def)

lemma sorts_ok_parts: "sorts_ok q ps \<Longrightarrow> sorts_ok q (take k ps) \<and> sorts_ok q (drop k ps)"
  by (auto simp: sorts_ok_def dest: in_set_takeD in_set_dropD)

definition room :: "stage_io \<Rightarrow> st_thread \<Rightarrow> nat \<Rightarrow> bool" where
  "room st w i \<longleftrightarrow> length (rb_contents (send_bufs w ! i)) < insert_limit st"

definition drained :: "st_thread \<Rightarrow> nat \<Rightarrow> bool" where
  "drained w i \<longleftrightarrow> rb_contents (send_bufs w ! i) = []"

definition outs_ok :: "stage_io \<Rightarrow> (nat \<times> packet) list \<Rightarrow> bool" where
  "outs_ok st outs \<longleftrightarrow> (\<forall>(i, p) \<in> set outs. i < length (out_ques st) \<and> sort_ok (out_ques st ! i) p)"

lemma outs_ok_simps [simp]:
  "outs_ok st []"
  "outs_ok st ((i, p) # outs) \<longleftrightarrow> i < length (out_ques st) \<and> sort_ok (out_ques st ! i) p \<and> outs_ok st outs"
  by (auto simp: outs_ok_def)

fun place_ok :: "stage_io \<Rightarrow> ques \<Rightarrow> st_thread \<Rightarrow> st_pc \<Rightarrow> bool" where
  "place_ok st Q w St_loop = (\<forall>i < length (out_ques st). room st w i)"
| "place_ok st Q w St_work = (rb_contents (recv_buf w) \<noteq> [] \<and> (\<forall>i < length (out_ques st). room st w i))"
| "place_ok st Q w (St_put outs) = (outs_ok st outs \<and> (\<forall>i < length (out_ques st). room st w i))"
| "place_ok st Q w (St_send i outs) = (outs_ok st outs \<and> i < length (out_ques st) \<and> \<not> drained w i \<and>
     (\<forall>j < length (out_ques st). j \<noteq> i \<longrightarrow> room st w j))"
| "place_ok st Q w (St_drain i) = (rb_contents (recv_buf w) = [] \<and> finished (Q (in_que st)) \<and>
     i \<le> length (out_ques st) \<and> (\<forall>j < i. drained w j))"
| "place_ok st Q w St_shutdown = (rb_contents (recv_buf w) = [] \<and> finished (Q (in_que st)) \<and>
     (\<forall>j < length (out_ques st). drained w j))"
| "place_ok st Q w St_ended = (rb_contents (recv_buf w) = [] \<and> finished (Q (in_que st)) \<and>
     (\<forall>j < length (out_ques st). drained w j))"
| "place_ok st Q w (St_failed e) = False"

definition bufs_ok :: "stage_io \<Rightarrow> st_thread \<Rightarrow> bool" where
  "bufs_ok st w \<longleftrightarrow> buf_ok (fetch_limit st) (recv_buf w) \<and> sorts_ok (in_que st) (rb_contents (recv_buf w)) \<and>
     length (send_bufs w) = length (out_ques st) \<and>
     (\<forall>i < length (out_ques st). buf_ok (insert_limit st) (send_bufs w ! i) \<and>
        sorts_ok (out_ques st ! i) (rb_contents (send_bufs w ! i)))"

definition stage_ok :: "stage_thread \<Rightarrow> ques \<Rightarrow> st_thread \<Rightarrow> bool" where
  "stage_ok u Q w \<longleftrightarrow> bufs_ok (stage_of u) w \<and> place_ok (stage_of u) Q w (st_pc w)"

lemma bufs_ok_update:
  assumes "bufs_ok st w" and "i < length (out_ques st)" and "buf_ok (insert_limit st) d"
    and "sorts_ok (out_ques st ! i) (rb_contents d)"
  shows "bufs_ok st (w\<lparr>send_bufs := (send_bufs w)[i := d], st_pc := pc\<rparr>)"
  unfolding bufs_ok_def
proof (intro conjI allI impI)
  fix j assume "j < length (out_ques st)"
  with assms show "buf_ok (insert_limit st) (send_bufs (w\<lparr>send_bufs := (send_bufs w)[i := d], st_pc := pc\<rparr>) ! j)"
    "sorts_ok (out_ques st ! j) (rb_contents (send_bufs (w\<lparr>send_bufs := (send_bufs w)[i := d], st_pc := pc\<rparr>) ! j))"
    by (cases "j = i"; simp add: bufs_ok_def)+
qed (use assms(1) in \<open>simp_all add: bufs_ok_def\<close>)

lemma stage_limits: "0 < fetch_limit (stage_of u)" "0 < insert_limit (stage_of u)" "ends (stage_of u) \<in> set (out_ques (stage_of u))"
  by (cases u; simp add: Let_def MAX_PER_FETCH_def CHUNK_ANCHOR_PER_FETCH_def ITEM_PER_FETCH_def
      CHUNK_ANCHOR_PER_INSERT_def ITEM_PER_INSERT_def)+

text \<open>The queues change in one place; \<open>t\<close> is the queue that the step terminates, \<open>a\<close> and \<open>b\<close> say which chunks
  the thread holds before and after it.\<close>

definition queue_move :: "nat \<Rightarrow> ques \<Rightarrow> ques \<Rightarrow> que_id set \<Rightarrow> que_id option \<Rightarrow> spread \<Rightarrow> spread \<Rightarrow> bool" where
  "queue_move sz Q Q' S t a b \<longleftrightarrow>
     (\<exists>q x. q \<in> S \<and> Q' = Q(q := x) \<and> que_ok sz x \<and> sorts_ok q (rb_contents (buf x)) \<and>
        nProducers x = nProducers (Q q) \<and> (t \<noteq> None \<longrightarrow> t = Some q) \<and>
        nTerminated x = nTerminated (Q q) + (if t = Some q then 1 else 0) \<and>
        (finished (Q q) \<longrightarrow> finished x) \<and> que_spread q x + b = que_spread q (Q q) + a)"

definition ques_ok :: "nat \<Rightarrow> ques \<Rightarrow> que_id set \<Rightarrow> bool" where
  "ques_ok sz Q S \<longleftrightarrow> (\<forall>q \<in> S. que_ok sz (Q q) \<and> sorts_ok q (rb_contents (buf (Q q))))"

lemma queue_move_update:
  assumes "q \<in> S" "que_ok sz x" "sorts_ok q (rb_contents (buf x))" "nProducers x = nProducers (Q q)"
    "nTerminated x = nTerminated (Q q)" "finished (Q q) \<Longrightarrow> finished x" "que_spread q x + b = que_spread q (Q q) + a"
  shows "queue_move sz Q (Q(q := x)) S None a b"
  unfolding queue_move_def using assms by (intro exI [of _ q] exI [of _ x]) simp

lemma queue_move_none:
  assumes "ques_ok sz Q S" and "q \<in> S"
  shows "queue_move sz Q Q S None a a"
  using queue_move_update [of q S sz "Q q" Q a a] assms by (simp add: ques_ok_def)


definition stage_ques :: "stage_thread \<Rightarrow> que_id set" where
  "stage_ques u = insert (in_que (stage_of u)) (set (out_ques (stage_of u)))"

lemma fetch_ok:
  assumes ok: "stage_ok u Q w" and pc: "st_pc w = St_loop" and nil: "rb_contents (recv_buf w) = []"
    and q: "ques_ok sz Q (stage_ques u)" and step: "fetch_items (stage_of u) w Q = Some (w', Q')"
  shows "stage_ok u Q' w' \<and> queue_move sz Q Q' (stage_ques u) None (st_spread u w) (st_spread u w') \<and> st_pc w' \<noteq> St_ended"
proof -
  let ?st = "stage_of u" and ?q = "in_que (stage_of u)"
  have b: "bufs_ok ?st w" and rooms: "\<forall>i < length (out_ques ?st). room ?st w i"
    using ok pc by (simp_all add: stage_ok_def)
  have qin: "?q \<in> stage_ques u" "que_ok sz (Q ?q)" "sorts_ok ?q (rb_contents (buf (Q ?q)))"
    using q by (auto simp: ques_ok_def stage_ques_def)
  have r: "buf_ok (fetch_limit ?st) (recv_buf w)" using b by (simp add: bufs_ok_def)
  obtain res x d where e: "queue_dequeue (Q ?q) (recv_buf w) (int (fetch_limit ?st)) = (res, x, d)" by (metis prod_cases3)
  from qin(2) r nil stage_limits(1) stage_limits(1) e show ?thesis
  proof (cases rule: dequeue_cases)
    case waits
    with step e show ?thesis by (simp add: fetch_items_def)
  next
    case closed
    with step e nil have w': "w' = w\<lparr>st_pc := St_drain 0\<rparr>" "Q' = Q"
      by (auto simp: fetch_items_def)
    with b nil closed(2) queue_move_none [OF q qin(1)] pc show ?thesis
      by (simp add: stage_ok_def bufs_ok_def st_spread_def Let_def)
  next
    case (gets k)
    with step e have w': "w' = w\<lparr>recv_buf := d, st_pc := St_work\<rparr>" "Q' = Q(?q := x)"
      by (auto simp: fetch_items_def)
    have "rb_contents (buf (Q ?q)) \<noteq> []" using gets(2,9) by auto
    then have "rb_contents d \<noteq> []" using gets(2,7) by auto
    moreover have "finished x" if "finished (Q ?q)" using that \<open>rb_contents (buf (Q ?q)) \<noteq> []\<close> by (simp add: finished_def)
    moreover have "que_spread ?q x + st_spread u w' = que_spread ?q (Q ?q) + st_spread u w"
      using list_spread_split [of "que_place ?q" k "rb_contents (buf (Q ?q))"] nil pc
      by (simp add: st_spread_def que_spread_def gets(7,8) w' Let_def ac_simps)
    ultimately show ?thesis
      using b rooms gets sorts_ok_parts [OF qin(3)] qin(1) unfolding w'(2)
      by (auto simp: stage_ok_def bufs_ok_def room_def w'(1) intro!: queue_move_update)
  qed
qed

lemma work_ok:
  assumes ok: "stage_ok u Q w" and pc: "st_pc w = St_work" and p: "rb_contents (recv_buf w) = p # ps"
    and k: "kernel ev ty u p m = Inr (outs, m')" and outs: "outs_ok (stage_of u) outs"
  obtains w' where "work_item ev ty u w m = (w', m')" "stage_ok u Q w'" "st_pc w' = St_put outs"
    "st_spread u w' + packet_spread (que_place (in_que (stage_of u))) p = st_spread u w + outs_spread (stage_of u) outs"
proof -
  let ?st = "stage_of u"
  have b: "bufs_ok ?st w" and rooms: "\<forall>i < length (out_ques ?st). room ?st w i"
    using ok pc by (simp_all add: stage_ok_def)
  then have "buf_ok (fetch_limit ?st) (recv_buf w)" by (simp add: bufs_ok_def)
  from this p obtain d where d: "ringbuffer_remove (recv_buf w) = (Some p, d)" "buf_ok (fetch_limit ?st) d" "rb_contents d = ps"
    by (rule buf_remove)
  show ?thesis
  proof (rule that [of "w\<lparr>recv_buf := d, st_pc := St_put outs\<rparr>"])
    show "work_item ev ty u w m = (w\<lparr>recv_buf := d, st_pc := St_put outs\<rparr>, m')"
      using d(1) k by (simp add: work_item_def)
    show "stage_ok u Q (w\<lparr>recv_buf := d, st_pc := St_put outs\<rparr>)"
      using b rooms d p outs by (auto simp: stage_ok_def bufs_ok_def room_def)
    show "st_spread u (w\<lparr>recv_buf := d, st_pc := St_put outs\<rparr>) + packet_spread (que_place (in_que ?st)) p =
        st_spread u w + outs_spread ?st outs"
      using p d(3) pc by (simp add: st_spread_def Let_def ac_simps)
  qed simp
qed

lemma put_ok:
  assumes ok: "stage_ok u Q w" and pc: "st_pc w = St_put ((i, p) # outs)"
  shows "stage_ok u Q (put_item i p outs w) \<and> st_spread u (put_item i p outs w) = st_spread u w \<and>
    st_pc (put_item i p outs w) \<noteq> St_ended"
proof -
  let ?st = "stage_of u"
  have b: "bufs_ok ?st w" and i: "i < length (out_ques ?st)" and rooms: "\<forall>j < length (out_ques ?st). room ?st w j"
    and so: "sort_ok (out_ques ?st ! i) p" "outs_ok ?st outs"
    using ok pc by (simp_all add: stage_ok_def)
  have "buf_ok (insert_limit ?st) (send_bufs w ! i)" "length (rb_contents (send_bufs w ! i)) < insert_limit ?st"
    using b i rooms by (simp_all add: bufs_ok_def room_def)
  then obtain d where d: "ringbuffer_insert (send_bufs w ! i) (Some p) = (0, d)" "buf_ok (insert_limit ?st) d"
      "rb_contents d = rb_contents (send_bufs w ! i) @ [p]"
    by (rule buf_insert)
  let ?pc = "if ringbuffer_isFull d then St_send i outs else St_put outs"
  have w': "put_item i p outs w = w\<lparr>send_bufs := (send_bufs w)[i := d], st_pc := ?pc\<rparr>"
    using d(1) by (simp add: put_item_def)
  have len: "length (send_bufs w) = length (out_ques ?st)" using b by (simp add: bufs_ok_def)
  have "bufs_ok ?st (w\<lparr>send_bufs := (send_bufs w)[i := d], st_pc := ?pc\<rparr>)"
    using b i so(1) by (intro bufs_ok_update) (simp_all add: d(2,3) bufs_ok_def)
  moreover have "place_ok ?st Q (w\<lparr>send_bufs := (send_bufs w)[i := d], st_pc := ?pc\<rparr>) ?pc"
    using rooms so(2) i d(2,3) len by (auto simp: room_def drained_def nth_list_update buf_full not_le)
  moreover have "st_spread u (w\<lparr>send_bufs := (send_bufs w)[i := d], st_pc := ?pc\<rparr>) = st_spread u w"
    using bufs_spread_update [OF i len, of d] pc
    by (simp add: st_spread_def Let_def d(3) ac_simps)
  ultimately show ?thesis by (simp add: stage_ok_def w')
qed


lemma queue_move_finished: "queue_move sz Q Q' S t a b \<Longrightarrow> finished (Q q) \<Longrightarrow> finished (Q' q)"
  by (auto simp: queue_move_def)

lemma send_ok:
  assumes b: "bufs_ok (stage_of u) w" and i: "i < length (out_ques (stage_of u))" and ne: "\<not> drained w i"
    and q: "ques_ok sz Q (stage_ques u)"
    and opn: "nTerminated (Q (out_ques (stage_of u) ! i)) < nProducers (Q (out_ques (stage_of u) ! i))"
    and un: "unsent pc = unsent (st_pc w)" and step: "send_buffer (stage_of u) i pc w Q = Some (w', Q')"
  obtains d where "w' = w\<lparr>send_bufs := (send_bufs w)[i := d], st_pc := pc\<rparr>" "bufs_ok (stage_of u) w'"
    "room (stage_of u) w' i" "queue_move sz Q Q' (stage_ques u) None (st_spread u w) (st_spread u w')"
proof -
  let ?st = "stage_of u" and ?q = "out_ques (stage_of u) ! i"
  have qin: "?q \<in> stage_ques u" "que_ok sz (Q ?q)" "sorts_ok ?q (rb_contents (buf (Q ?q)))"
    using q i by (auto simp: ques_ok_def stage_ques_def)
  have sb: "buf_ok (insert_limit ?st) (send_bufs w ! i)" "sorts_ok ?q (rb_contents (send_bufs w ! i))"
      "length (send_bufs w) = length (out_ques ?st)"
    using b i by (auto simp: bufs_ok_def)
  obtain r x d where e: "queue_enqueue (Q ?q) (send_bufs w ! i) (int (insert_limit ?st)) = (r, x, d)" by (metis prod_cases3)
  from qin(2) opn sb(1) ne [unfolded drained_def] stage_limits(2) e show ?thesis
  proof (cases rule: enqueue_cases)
    case waits
    with step e show ?thesis by (simp add: send_buffer_def)
  next
    case (sends k)
    with step e have w': "w' = w\<lparr>send_bufs := (send_bufs w)[i := d], st_pc := pc\<rparr>" "Q' = Q(?q := x)"
      by (auto simp: send_buffer_def)
    note parts = sorts_ok_parts [OF sb(2), of k]
    show ?thesis
    proof (rule that [OF w'(1)])
      show "bufs_ok ?st w'"
        unfolding w'(1) using b i sends(4) parts by (intro bufs_ok_update) (simp_all add: sends(8))
      have "length (rb_contents (send_bufs w ! i)) - k < insert_limit ?st"
        using buf_bound [OF sb(1)] sends(2) stage_limits(2) [of u] by linarith
      then show "room ?st w' i" using sb(3) i sends(8) by (simp add: room_def w'(1))
      let ?ls = "list_spread (que_place ?q)" and ?c = "rb_contents (send_bufs w ! i)"
      have "bufs_spread ?st ((send_bufs w)[i := d]) + (?ls (take k ?c) + ?ls (drop k ?c)) =
          bufs_spread ?st (send_bufs w) + ?ls (drop k ?c)"
        unfolding list_spread_split using bufs_spread_update [OF i sb(3), of d] by (simp add: sends(8))
      then have "bufs_spread ?st ((send_bufs w)[i := d]) + ?ls (take k ?c) = bufs_spread ?st (send_bufs w)"
        by (simp only: add.assoc [symmetric] add_right_cancel)
      from this [symmetric] have "que_spread ?q x + st_spread u w' = que_spread ?q (Q ?q) + st_spread u w"
        by (simp add: st_spread_def que_spread_def Let_def sends(7) w'(1) un ac_simps)
      then show "queue_move sz Q Q' (stage_ques u) None (st_spread u w) (st_spread u w')"
        unfolding w'(2) using qin sends parts opn by (intro queue_move_update) (auto simp: finished_def)
    qed
  qed
qed

lemma shutdown_ok:
  assumes ok: "stage_ok u Q w" and pc: "st_pc w = St_shutdown" and q: "ques_ok sz Q (stage_ques u)"
    and opn: "nTerminated (Q (ends (stage_of u))) < nProducers (Q (ends (stage_of u)))"
  obtains x where "queue_terminate (Q (ends (stage_of u))) = (Done (), x)"
    "stage_ok u (Q(ends (stage_of u) := x)) (w\<lparr>st_pc := St_ended\<rparr>)"
    "queue_move sz Q (Q(ends (stage_of u) := x)) (stage_ques u) (Some (ends (stage_of u)))
       (st_spread u w) (st_spread u (w\<lparr>st_pc := St_ended\<rparr>))"
proof -
  let ?st = "stage_of u" and ?q = "ends (stage_of u)"
  have qin: "?q \<in> stage_ques u" "que_ok sz (Q ?q)" "sorts_ok ?q (rb_contents (buf (Q ?q)))"
    using q stage_limits(3) [of u] by (auto simp: ques_ok_def stage_ques_def)
  obtain x where x: "queue_terminate (Q ?q) = (Done (), x)" "que_ok sz x" "buf x = buf (Q ?q)"
    "nProducers x = nProducers (Q ?q)" "nTerminated x = nTerminated (Q ?q) + 1"
    using terminate_cases [OF qin(2) opn] by blast
  have "st_spread u (w\<lparr>st_pc := St_ended\<rparr>) = st_spread u w"
    using pc by (simp add: st_spread_def Let_def)
  then have "queue_move sz Q (Q(?q := x)) (stage_ques u) (Some ?q) (st_spread u w) (st_spread u (w\<lparr>st_pc := St_ended\<rparr>))"
    unfolding queue_move_def using qin x opn
    by (intro exI [of _ ?q] exI [of _ x]) (simp add: finished_def que_spread_def)
  moreover from queue_move_finished [OF this] have "stage_ok u (Q(?q := x)) (w\<lparr>st_pc := St_ended\<rparr>)"
    using ok pc by (simp add: stage_ok_def bufs_ok_def drained_def)
  ultimately show ?thesis using x(1) by (intro that)
qed

definition ended_que :: "stage_thread \<Rightarrow> st_thread \<Rightarrow> que_id option" where
  "ended_que u w = (if st_pc w = St_ended then Some (ends (stage_of u)) else None)"

text \<open>A step that is not the work on an item moves chunks and changes no memory.\<close>

lemma stage_move_ok:
  assumes ok: "stage_ok u Q w" and q: "ques_ok sz Q (stage_ques u)" and pc: "st_pc w \<noteq> St_work"
    and opn: "\<And>q. q \<in> set (out_ques (stage_of u)) \<Longrightarrow> st_pc w \<noteq> St_ended \<Longrightarrow> nTerminated (Q q) < nProducers (Q q)"
    and step: "stage_thread_step ev ty u w Q m = Some (w', Q', m')"
  shows "m' = m \<and> stage_ok u Q' w' \<and> queue_move sz Q Q' (stage_ques u) (ended_que u w') (st_spread u w) (st_spread u w')"
proof -
  let ?st = "stage_of u"
  have none: "queue_move sz Q Q (stage_ques u) None a a" for a
    using queue_move_none [OF q, of "in_que ?st"] by (simp add: stage_ques_def)
  have b: "bufs_ok ?st w" using ok by (simp add: stage_ok_def)
  show ?thesis
  proof (cases "st_pc w")
    case St_loop
    have r: "ringbuffer_isEmpty (recv_buf w) \<longleftrightarrow> rb_contents (recv_buf w) = []"
      using b buf_empty by (auto simp: bufs_ok_def)
    show ?thesis
    proof (cases "rb_contents (recv_buf w) = []")
      case True
      with step St_loop r have "m' = m" "fetch_items ?st w Q = Some (w', Q')" by (auto simp: stage_thread_step_def Let_def)
      with fetch_ok [OF ok St_loop True q] show ?thesis by (auto simp: ended_que_def)
    next
      case False
      with step St_loop r have "w' = w\<lparr>st_pc := St_work\<rparr>" "Q' = Q" "m' = m" by (auto simp: stage_thread_step_def Let_def)
      with ok False St_loop none show ?thesis
        by (simp add: stage_ok_def bufs_ok_def room_def st_spread_def Let_def ended_que_def)
    qed
  next
    case (St_put outs)
    show ?thesis
    proof (cases outs)
      case Nil
      with step St_put have "w' = w\<lparr>st_pc := St_loop\<rparr>" "Q' = Q" "m' = m" by (auto simp: stage_thread_step_def Let_def)
      with ok Nil St_put none show ?thesis
        by (simp add: stage_ok_def bufs_ok_def room_def st_spread_def Let_def ended_que_def)
    next
      case (Cons ip outs')
      obtain i p where ip: "ip = (i, p)" by (cases ip)
      with step St_put Cons have w': "w' = put_item i p outs' w" "Q' = Q" "m' = m" by (auto simp: stage_thread_step_def Let_def)
      have "st_pc w = St_put ((i, p) # outs')" using St_put Cons ip by simp
      from put_ok [OF ok this] w' none show ?thesis by (simp add: ended_que_def)
    qed
  next
    case (St_send i outs)
    with ok have i: "i < length (out_ques ?st)" "\<not> drained w i" "outs_ok ?st outs"
        "\<forall>j < length (out_ques ?st). j \<noteq> i \<longrightarrow> room ?st w j" by (simp_all add: stage_ok_def)
    from step St_send have m: "m' = m" and e: "send_buffer ?st i (St_put outs) w Q = Some (w', Q')"
      by (auto simp: stage_thread_step_def Let_def)
    have op: "nTerminated (Q (out_ques ?st ! i)) < nProducers (Q (out_ques ?st ! i))" using opn i St_send by simp
    have un: "unsent (St_put outs) = unsent (st_pc w)" by (simp add: St_send)
    from send_ok [OF b i(1,2) q op un e] obtain d where
      d: "w' = w\<lparr>send_bufs := (send_bufs w)[i := d], st_pc := St_put outs\<rparr>" "bufs_ok ?st w'" "room ?st w' i"
        "queue_move sz Q Q' (stage_ques u) None (st_spread u w) (st_spread u w')" by blast
    have "room ?st w' j" if "j < length (out_ques ?st)" for j
      using i(4) d(3) that by (cases "j = i") (simp_all add: d(1) room_def)
    with d(2,4) m i(3) show ?thesis by (simp add: stage_ok_def ended_que_def d(1))
  next
    case (St_drain i)
    with ok have pl: "rb_contents (recv_buf w) = []" "finished (Q (in_que ?st))" "i \<le> length (out_ques ?st)"
        "\<forall>j < i. drained w j" by (simp_all add: stage_ok_def)
    show ?thesis
    proof (cases "i < length (out_ques ?st)")
      case True
      then have r: "ringbuffer_isEmpty (send_bufs w ! i) \<longleftrightarrow> drained w i"
        using b buf_empty by (auto simp: bufs_ok_def drained_def)
      show ?thesis
      proof (cases "drained w i")
        case True
        with step St_drain r \<open>i < length (out_ques ?st)\<close>
        have "w' = w\<lparr>st_pc := St_drain (i + 1)\<rparr>" "Q' = Q" "m' = m" by (auto simp: stage_thread_step_def Let_def)
        with b pl True \<open>i < length (out_ques ?st)\<close> St_drain none show ?thesis
          by (auto simp: stage_ok_def bufs_ok_def drained_def st_spread_def Let_def ended_que_def less_Suc_eq)
      next
        case False
        with step St_drain r \<open>i < length (out_ques ?st)\<close>
        have m: "m' = m" and e: "send_buffer ?st i (St_drain i) w Q = Some (w', Q')"
          by (auto simp: stage_thread_step_def Let_def)
        have op: "nTerminated (Q (out_ques ?st ! i)) < nProducers (Q (out_ques ?st ! i))"
          using opn \<open>i < length (out_ques ?st)\<close> St_drain by simp
        have un: "unsent (St_drain i) = unsent (st_pc w)" by (simp add: St_drain)
        from send_ok [OF b \<open>i < length (out_ques ?st)\<close> False q op un e] obtain d where
          d: "w' = w\<lparr>send_bufs := (send_bufs w)[i := d], st_pc := St_drain i\<rparr>" "bufs_ok ?st w'"
            "queue_move sz Q Q' (stage_ques u) None (st_spread u w) (st_spread u w')" by blast
        have "\<forall>j < i. drained w' j" using pl(4) by (simp add: d(1) drained_def)
        with d(2,3) pl queue_move_finished [OF d(3)] m show ?thesis
          by (simp add: stage_ok_def ended_que_def d(1))
      qed
    next
      case False
      with step St_drain have "w' = w\<lparr>st_pc := St_shutdown\<rparr>" "Q' = Q" "m' = m" by (auto simp: stage_thread_step_def Let_def)
      with b pl False St_drain none show ?thesis
        by (auto simp: stage_ok_def bufs_ok_def drained_def st_spread_def Let_def ended_que_def)
    qed
  next
    case St_shutdown
    have op: "nTerminated (Q (ends ?st)) < nProducers (Q (ends ?st))" using opn stage_limits(3) St_shutdown by simp
    from shutdown_ok [OF ok St_shutdown q op] obtain x where
      x: "queue_terminate (Q (ends ?st)) = (Done (), x)" "stage_ok u (Q(ends ?st := x)) (w\<lparr>st_pc := St_ended\<rparr>)"
        "queue_move sz Q (Q(ends ?st := x)) (stage_ques u) (Some (ends ?st)) (st_spread u w) (st_spread u (w\<lparr>st_pc := St_ended\<rparr>))"
      by blast
    from step St_shutdown x(1) have "w' = w\<lparr>st_pc := St_ended\<rparr>" "Q' = Q(ends ?st := x)" "m' = m"
      by (auto simp: stage_thread_step_def Let_def)
    with x show ?thesis by (simp add: ended_que_def)
  qed (use pc step ok in \<open>simp_all add: stage_thread_step_def Let_def stage_ok_def\<close>)
qed

end
