(* ===== verification/Dedup_Stages_Ends.thy ===== *)
theory Dedup_Stages_Ends
  imports Dedup_Stages_Inv
begin

text \<open>
  What the first and the last thread of \<open>Dedup_Stages\<close> keep.
\<close>

section \<open>The first thread\<close>

definition fr_spread :: "fragmenter \<Rightarrow> spread" where
  "fr_spread f = list_spread In_deduplicate (fr_todo f) + list_spread In_deduplicate (rb_contents (fr_send f))"

fun fr_place_ok :: "nat \<Rightarrow> fragmenter \<Rightarrow> fr_pc \<Rightarrow> bool" where
  "fr_place_ok nq f Fr_emit = (fr_todo f = [] \<or> rb_contents (fr_send f) = [])"
| "fr_place_ok nq f Fr_send = (rb_contents (fr_send f) \<noteq> [])"
| "fr_place_ok nq f Fr_drain = (fr_todo f = [])"
| "fr_place_ok nq f (Fr_shutdown i) = (fr_todo f = [] \<and> rb_contents (fr_send f) = [] \<and> i \<le> nq)"
| "fr_place_ok nq f Fr_ended = (fr_todo f = [] \<and> rb_contents (fr_send f) = [])"
| "fr_place_ok nq f Fr_failed = False"

definition fragmenter_ok :: "nat \<Rightarrow> fragmenter \<Rightarrow> bool" where
  "fragmenter_ok nq f \<longleftrightarrow> buf_ok 1 (fr_send f) \<and> sorts_ok (Refine_que 0) (fr_todo f) \<and>
     sorts_ok (Refine_que 0) (rb_contents (fr_send f)) \<and> fr_qid f < nq \<and> fr_place_ok nq f (fr_pc f)"

text \<open>The queues it has not terminated.\<close>

fun fr_holds :: "fr_pc \<Rightarrow> nat \<Rightarrow> bool" where
  "fr_holds (Fr_shutdown i) g = (i \<le> g)"
| "fr_holds Fr_ended g = False"
| "fr_holds pc g = True"

fun fr_ends :: "nat \<Rightarrow> fr_pc \<Rightarrow> que_id option" where
  "fr_ends nq (Fr_shutdown i) = (if i < nq then Some (Refine_que i) else None)"
| "fr_ends nq pc = None"

lemma sorts_ok_refine: "sorts_ok (Refine_que g) ps = sorts_ok (Refine_que 0) ps"
  by (simp add: sorts_ok_def)

lemma fragment_send_ok:
  assumes ok: "fragmenter_ok nq f" and ne: "rb_contents (fr_send f) \<noteq> []"
    and q: "ques_ok sz Q (Refine_que ` {..<nq})"
    and opn: "nTerminated (Q (Refine_que (fr_qid f))) < nProducers (Q (Refine_que (fr_qid f)))"
    and pc: "pc = Fr_emit \<or> pc = Fr_drain \<and> fr_todo f = []"
    and step: "fragment_send nq pc f Q = Some (f', Q')"
  shows "fragmenter_ok nq f' \<and> queue_move sz Q Q' (Refine_que ` {..<nq}) None (fr_spread f) (fr_spread f') \<and> fr_pc f' = pc"
proof -
  let ?q = "Refine_que (fr_qid f)"
  have qid: "fr_qid f < nq" and sb: "buf_ok 1 (fr_send f)" "sorts_ok (Refine_que 0) (rb_contents (fr_send f))"
    using ok by (simp_all add: fragmenter_ok_def)
  have qin: "?q \<in> Refine_que ` {..<nq}" "que_ok sz (Q ?q)" "sorts_ok (Refine_que 0) (rb_contents (buf (Q ?q)))"
    using q qid sorts_ok_refine by (auto simp: ques_ok_def)
  obtain r x d where e: "queue_enqueue (Q ?q) (fr_send f) (int ANCHOR_DATA_PER_INSERT) = (r, x, d)" by (metis prod_cases3)
  have "0 < ANCHOR_DATA_PER_INSERT" by (simp add: ANCHOR_DATA_PER_INSERT_def)
  from qin(2) opn sb(1) ne this e show ?thesis
  proof (cases rule: enqueue_cases)
    case waits
    with step e show ?thesis by (simp add: fragment_send_def)
  next
    case (sends k)
    with step e have f': "f' = f\<lparr>fr_send := d, fr_qid := (fr_qid f + 1) mod nq, fr_pc := pc\<rparr>" "Q' = Q(?q := x)"
      by (auto simp: fragment_send_def)
    have "rb_contents d = []" using sends(2,8) buf_bound [OF sb(1)] by simp
    then have "fragmenter_ok nq f'"
      using ok qid sends(4) pc by (auto simp: fragmenter_ok_def f'(1))
    moreover have "que_spread ?q x + fr_spread f' = que_spread ?q (Q ?q) + fr_spread f"
      using list_spread_split [of In_deduplicate k "rb_contents (fr_send f)"] sends(7,8)
      by (simp add: que_spread_def fr_spread_def f'(1) ac_simps)
    ultimately show ?thesis
      unfolding f'(2) using qin sends opn sorts_ok_parts [OF sb(2)] sorts_ok_refine [of "fr_qid f"]
      by (auto simp: f'(1) finished_def intro!: queue_move_update)
  qed
qed

lemma fragment_step_ok:
  assumes ok: "fragmenter_ok nq f" and q: "ques_ok sz Q (Refine_que ` {..<nq})"
    and opn: "\<And>g. g < nq \<Longrightarrow> fr_holds (fr_pc f) g \<Longrightarrow> nTerminated (Q (Refine_que g)) < nProducers (Q (Refine_que g))"
    and step: "fragment_step nq f Q = Some (f', Q')"
  shows "fragmenter_ok nq f' \<and>
     queue_move sz Q Q' (Refine_que ` {..<nq}) (fr_ends nq (fr_pc f)) (fr_spread f) (fr_spread f') \<and>
     (\<forall>g < nq. fr_holds (fr_pc f') g \<longleftrightarrow> fr_holds (fr_pc f) g \<and> fr_ends nq (fr_pc f) \<noteq> Some (Refine_que g))"
proof -
  have qid: "fr_qid f < nq" and sb: "buf_ok 1 (fr_send f)" using ok by (simp_all add: fragmenter_ok_def)
  have none: "queue_move sz Q Q (Refine_que ` {..<nq}) None a a" for a
    using queue_move_none [OF q, of "Refine_que (fr_qid f)"] qid by simp
  show ?thesis
  proof (cases "fr_pc f")
    case Fr_emit
    show ?thesis
    proof (cases "fr_todo f")
      case Nil
      with step Fr_emit have "f' = f\<lparr>fr_pc := Fr_drain\<rparr>" "Q' = Q" by (auto simp: fragment_step_def)
      with ok Fr_emit Nil none show ?thesis by (simp add: fragmenter_ok_def fr_spread_def)
    next
      case (Cons p ps)
      with ok Fr_emit have nil: "rb_contents (fr_send f) = []" by (simp add: fragmenter_ok_def)
      then have "length (rb_contents (fr_send f)) < 1" by simp
      with sb obtain d where d: "ringbuffer_insert (fr_send f) (Some p) = (0, d)" "buf_ok 1 d"
          "rb_contents d = rb_contents (fr_send f) @ [p]" by (rule buf_insert)
      with step Fr_emit Cons nil have f': "f' = f\<lparr>fr_todo := ps, fr_send := d, fr_pc := if ps \<noteq> [] then Fr_send else Fr_emit\<rparr>" "Q' = Q"
        by (auto simp: fragment_step_def buf_full)
      have "fr_spread f' = fr_spread f" by (simp add: f'(1) fr_spread_def Cons d(3) nil ac_simps)
      with ok Fr_emit Cons none d nil show ?thesis by (simp add: fragmenter_ok_def f')
    qed
  next
    case Fr_send
    with ok have "rb_contents (fr_send f) \<noteq> []" by (simp add: fragmenter_ok_def)
    from fragment_send_ok [OF ok this q, of Fr_emit f' Q'] opn qid Fr_send step show ?thesis
      by (simp add: fragment_step_def)
  next
    case Fr_drain
    with ok have todo: "fr_todo f = []" by (simp add: fragmenter_ok_def)
    show ?thesis
    proof (cases "rb_contents (fr_send f) = []")
      case True
      with step Fr_drain sb have "f' = f\<lparr>fr_pc := Fr_shutdown 0\<rparr>" "Q' = Q" by (auto simp: fragment_step_def buf_empty)
      with ok Fr_drain todo True none show ?thesis by (simp add: fragmenter_ok_def fr_spread_def)
    next
      case False
      from fragment_send_ok [OF ok this q, of Fr_drain f' Q'] opn qid Fr_drain step todo sb False show ?thesis
        by (simp add: fragment_step_def buf_empty)
    qed
  next
    case (Fr_shutdown i)
    show ?thesis
    proof (cases "i < nq")
      case True
      let ?q = "Refine_que i"
      have qin: "?q \<in> Refine_que ` {..<nq}" "que_ok sz (Q ?q)" "sorts_ok ?q (rb_contents (buf (Q ?q)))"
        using q True by (auto simp: ques_ok_def)
      have op: "nTerminated (Q ?q) < nProducers (Q ?q)" using opn True Fr_shutdown by simp
      from terminate_cases [OF qin(2) op] obtain x where
        x: "queue_terminate (Q ?q) = (Done (), x)" "que_ok sz x" "buf x = buf (Q ?q)"
          "nProducers x = nProducers (Q ?q)" "nTerminated x = nTerminated (Q ?q) + 1" by blast
      from step Fr_shutdown True x(1) have f': "f' = f\<lparr>fr_pc := Fr_shutdown (i + 1)\<rparr>" "Q' = Q(?q := x)"
        by (auto simp: fragment_step_def)
      have "queue_move sz Q Q' (Refine_que ` {..<nq}) (Some ?q) (fr_spread f) (fr_spread f')"
        unfolding queue_move_def f' using qin x op
        by (intro exI [of _ ?q] exI [of _ x]) (simp add: finished_def que_spread_def fr_spread_def)
      with ok Fr_shutdown True show ?thesis by (auto simp: fragmenter_ok_def f'(1))
    next
      case False
      with step Fr_shutdown have "f' = f\<lparr>fr_pc := Fr_ended\<rparr>" "Q' = Q" by (auto simp: fragment_step_def)
      with ok Fr_shutdown False none show ?thesis by (simp add: fragmenter_ok_def fr_spread_def)
    qed
  qed (use step ok in \<open>simp_all add: fragment_step_def fragmenter_ok_def\<close>)
qed

section \<open>The last thread\<close>

definition re_spread :: "reorderer \<Rightarrow> spread" where
  "re_spread re = list_spread In_reorder (rb_contents (re_buf re))"

definition polled :: "nat \<Rightarrow> ques \<Rightarrow> nat \<Rightarrow> nat \<Rightarrow> bool" where
  "polled nq Q qid i \<longleftrightarrow>
     (\<exists>q0 < nq. qid = (q0 + i) mod nq \<and> (\<forall>j < i. finished (Q (Reorder_que ((q0 + j) mod nq)))))"

lemma polled_all:
  assumes "polled nq Q qid nq" and "g < nq"
  shows "finished (Q (Reorder_que g))"
proof -
  obtain q0 where q0: "q0 < nq" "\<forall>j < nq. finished (Q (Reorder_que ((q0 + j) mod nq)))"
    using assms(1) by (auto simp: polled_def)
  let ?j = "(g + nq - q0) mod nq"
  have "(q0 + ?j) mod nq = (q0 + (g + nq - q0)) mod nq" by (simp add: mod_simps)
  also have "\<dots> = g" using q0(1) assms(2) by simp
  finally show ?thesis using q0(2) assms(2) by (metis mod_less_divisor q0(1) gr_implies_not0 gr0I)
qed

lemma polled_Suc:
  assumes "polled nq Q qid i" and "finished (Q (Reorder_que qid))"
  shows "polled nq Q ((qid + 1) mod nq) (i + 1)"
proof -
  obtain q0 where q0: "q0 < nq" "qid = (q0 + i) mod nq" "\<forall>j < i. finished (Q (Reorder_que ((q0 + j) mod nq)))"
    using assms(1) by (auto simp: polled_def)
  have "(qid + 1) mod nq = (q0 + (i + 1)) mod nq" by (simp add: q0(2) mod_simps)
  with q0 assms(2) show ?thesis unfolding polled_def by (intro exI [of _ q0]) (auto simp: less_Suc_eq)
qed

definition all_finished :: "nat \<Rightarrow> ques \<Rightarrow> bool" where
  "all_finished nq Q \<longleftrightarrow> (\<forall>g < nq. finished (Q (Reorder_que g)))"

fun re_place_ok :: "nat \<Rightarrow> ques \<Rightarrow> reorderer \<Rightarrow> re_pc \<Rightarrow> bool" where
  "re_place_ok nq Q re Re_loop = True"
| "re_place_ok nq Q re (Re_poll i r) =
     (if r > 0 then rb_contents (re_buf re) \<noteq> []
      else rb_contents (re_buf re) = [] \<and> polled nq Q (re_qid re) i \<and> i \<le> nq \<and> (r < 0 \<longleftrightarrow> 0 < i))"
| "re_place_ok nq Q re Re_take = (rb_contents (re_buf re) \<noteq> [])"
| "re_place_ok nq Q re (Re_write is) = True"
| "re_place_ok nq Q re (Re_failed e) = False"
| "re_place_ok nq Q re pc = (rb_contents (re_buf re) = [] \<and> all_finished nq Q)"

definition reorderer_ok :: "nat \<Rightarrow> ques \<Rightarrow> reorderer \<Rightarrow> bool" where
  "reorderer_ok nq Q re \<longleftrightarrow> buf_ok ITEM_PER_FETCH (re_buf re) \<and>
     sorts_ok (Reorder_que 0) (rb_contents (re_buf re)) \<and> re_qid re < nq \<and> re_place_ok nq Q re (re_pc re)"

lemma sorts_ok_reorder: "sorts_ok (Reorder_que g) ps = sorts_ok (Reorder_que 0) ps"
  by (simp add: sorts_ok_def)

lemma reorderer_ok_mono:
  assumes "reorderer_ok nq Q re" and "\<And>q. finished (Q q) \<Longrightarrow> finished (Q' q)"
  shows "reorderer_ok nq Q' re"
proof -
  have "polled nq Q qid i \<Longrightarrow> polled nq Q' qid i" for qid i using assms(2) by (auto simp: polled_def)
  moreover have "all_finished nq Q \<Longrightarrow> all_finished nq Q'" using assms(2) by (auto simp: all_finished_def)
  ultimately show ?thesis using assms(1) by (cases "re_pc re") (auto simp: reorderer_ok_def split: if_splits)
qed

lemma stage_ok_mono:
  assumes "stage_ok u Q w" and "\<And>q. finished (Q q) \<Longrightarrow> finished (Q' q)"
  shows "stage_ok u Q' w"
  using assms by (cases "st_pc w") (auto simp: stage_ok_def)

lemma poll_ok:
  assumes ok: "reorderer_ok nq Q re" and pc: "re_pc re = Re_poll i r" "r \<le> 0" "i < nq"
    and q: "ques_ok sz Q (Reorder_que ` {..<nq})" and step: "poll_queue nq i re Q = Some (re', Q')"
  shows "reorderer_ok nq Q' re' \<and> re_state re' = re_state re \<and>
    queue_move sz Q Q' (Reorder_que ` {..<nq}) None (re_spread re) (re_spread re') \<and> (\<exists>i r. re_pc re' = Re_poll i r)"
proof -
  let ?q = "Reorder_que (re_qid re)"
  have qid: "re_qid re < nq" and b: "buf_ok ITEM_PER_FETCH (re_buf re)" and nil: "rb_contents (re_buf re) = []"
    and pol: "polled nq Q (re_qid re) i"
    using ok pc by (simp_all add: reorderer_ok_def split: if_splits)
  have qin: "?q \<in> Reorder_que ` {..<nq}" "que_ok sz (Q ?q)" "sorts_ok (Reorder_que 0) (rb_contents (buf (Q ?q)))"
    using q qid sorts_ok_reorder by (auto simp: ques_ok_def)
  have pos: "0 < ITEM_PER_FETCH" by (simp add: ITEM_PER_FETCH_def)
  obtain res x d where e: "queue_dequeue (Q ?q) (re_buf re) (int ITEM_PER_FETCH) = (res, x, d)" by (metis prod_cases3)
  from qin(2) b nil pos pos e show ?thesis
  proof (cases rule: dequeue_cases)
    case waits
    with step e show ?thesis by (simp add: poll_queue_def)
  next
    case closed
    with step e have re': "re' = re\<lparr>re_qid := (re_qid re + 1) mod nq, re_pc := Re_poll (i + 1) (-1)\<rparr>" "Q' = Q"
      by (auto simp: poll_queue_def)
    have "reorderer_ok nq Q' re'"
      using ok pc nil polled_Suc [OF pol closed(2)] by (simp add: reorderer_ok_def re')
    with queue_move_none [OF q qin(1)] show ?thesis by (simp add: re' re_spread_def)
  next
    case (gets k)
    with step e have re': "re' = re\<lparr>re_buf := d, re_qid := (re_qid re + 1) mod nq, re_pc := Re_poll (i + 1) (int k)\<rparr>" "Q' = Q(?q := x)"
      by (auto simp: poll_queue_def)
    have ne: "rb_contents (buf (Q ?q)) \<noteq> []" using gets(2,9) by auto
    then have "rb_contents d \<noteq> []" using gets(2,7) by auto
    then have "reorderer_ok nq Q' re'"
      using ok gets(2,4,7) sorts_ok_parts [OF qin(3)] qid by (simp add: reorderer_ok_def re')
    moreover have "que_spread ?q x + re_spread re' = que_spread ?q (Q ?q) + re_spread re"
      using list_spread_split [of In_reorder k "rb_contents (buf (Q ?q))"] nil
      by (simp add: que_spread_def re_spread_def gets(7,8) re' ac_simps)
    ultimately show ?thesis
      unfolding re'(2) using qin ne gets sorts_ok_parts [OF qin(3)] sorts_ok_reorder [of "re_qid re"]
      by (auto simp: re'(1) finished_def intro!: queue_move_update)
  qed
qed

fun re_plain :: "re_pc \<Rightarrow> bool" where
  "re_plain Re_take = False"
| "re_plain Re_flush = False"
| "re_plain (Re_write (i # is)) = False"
| "re_plain (Re_finish (i # is)) = False"
| "re_plain pc = True"

lemma reorder_move_ok:
  assumes ok: "reorderer_ok nq Q re" and q: "ques_ok sz Q (Reorder_que ` {..<nq})" and pl: "re_plain (re_pc re)"
    and step: "reorder_step nq re Q m = Some (re', Q', m')"
  shows "m' = m \<and> re_state re' = re_state re \<and> reorderer_ok nq Q' re' \<and>
    queue_move sz Q Q' (Reorder_que ` {..<nq}) None (re_spread re) (re_spread re') \<and>
    (\<forall>is. re_pc re' \<noteq> Re_write is \<and> re_pc re' \<noteq> Re_finish is)"
proof -
  have qid: "re_qid re < nq" and b: "buf_ok ITEM_PER_FETCH (re_buf re)" using ok by (simp_all add: reorderer_ok_def)
  have none: "queue_move sz Q Q (Reorder_que ` {..<nq}) None a a" for a
    using queue_move_none [OF q, of "Reorder_que (re_qid re)"] qid by simp
  show ?thesis
  proof (cases "re_pc re")
    case Re_loop
    with step have e: "re' = re\<lparr>re_pc := if ringbuffer_isEmpty (re_buf re) then Re_poll 0 0 else Re_take\<rparr>" "Q' = Q" "m' = m"
      by (auto simp: reorder_step_def)
    have "polled nq Q (re_qid re) 0" using qid unfolding polled_def by (intro exI [of _ "re_qid re"]) simp
    with e ok none b show ?thesis by (simp add: reorderer_ok_def re_spread_def buf_empty)
  next
    case (Re_poll i r)
    show ?thesis
    proof (cases "r \<le> 0 \<and> i < nq")
      case True
      with step Re_poll have m: "m' = m" and e: "poll_queue nq i re Q = Some (re', Q')" by (auto simp: reorder_step_def)
      from True have "r \<le> 0" "i < nq" by simp_all
      from poll_ok [OF ok Re_poll this q e] m show ?thesis by auto
    next
      case False
      with step Re_poll have e: "re' = re\<lparr>re_pc := if r < 0 then Re_flush else Re_take\<rparr>" "Q' = Q" "m' = m"
        by (auto simp: reorder_step_def)
      have "all_finished nq Q \<and> rb_contents (re_buf re) = []" if "r < 0"
        using ok Re_poll False that polled_all by (auto simp: reorderer_ok_def all_finished_def)
      moreover have "rb_contents (re_buf re) \<noteq> []" if "\<not> r < 0"
        using ok Re_poll False that qid by (auto simp: reorderer_ok_def split: if_splits)
      ultimately show ?thesis using e ok none by (simp add: reorderer_ok_def re_spread_def)
    qed
  next
    case (Re_write ks)
    with pl have "ks = []" by (cases ks) simp_all
    with step Re_write have "re' = re\<lparr>re_pc := Re_loop\<rparr>" "Q' = Q" "m' = m" by (auto simp: reorder_step_def)
    with ok none show ?thesis by (simp add: reorderer_ok_def re_spread_def)
  next
    case (Re_finish ks)
    with pl have "ks = []" by (cases ks) simp_all
    with step Re_finish have "re' = re\<lparr>re_pc := Re_ended\<rparr>" "Q' = Q" "m' = m" by (auto simp: reorder_step_def)
    with ok none Re_finish show ?thesis by (simp add: reorderer_ok_def re_spread_def)
  qed (use pl step ok in \<open>simp_all add: reorder_step_def reorderer_ok_def\<close>)
qed

end
