(* ===== verification/Dedup_Stages_Link.thy ===== *)
theory Dedup_Stages_Link
  imports Dedup_Stages
begin

text \<open>
  The kernels of the stages as steps of \<open>Dedup_Parallel\<close>, where all chunks exist from the start: the memory of
  that model is the memory of the threads with the chunks filled in that have not been made.
\<close>

abbreviation num :: "nat rchunk \<Rightarrow> nat" where
  "num c \<equiv> snd (payload c)"

section \<open>Chunks that have not been made\<close>

definition fill :: "uchar list list \<Rightarrow> nat set \<Rightarrow> par_memory \<Rightarrow> par_memory" where
  "fill ds U m = m\<lparr>chunk := (\<lambda>i. if i \<in> U
     then chunk m i\<lparr>state := CHUNK_STATE_UNCOMPRESSED, uncompressed_data := ds ! i\<rparr> else chunk m i)\<rparr>"

lemma fill_simps [simp]:
  "par_cache (fill ds U m) = par_cache m" "par_out (fill ds U m) = par_out m"
  "i \<notin> U \<Longrightarrow> chunk (fill ds U m) i = chunk m i"
  by (simp_all add: fill_def)

lemma fill_update:
  "i \<notin> U \<Longrightarrow> (fill ds U m)\<lparr>chunk := (chunk (fill ds U m))(i := c)\<rparr> = fill ds U (m\<lparr>chunk := (chunk m)(i := c)\<rparr>)"
  by (rule par_memory.equality) (auto simp: fill_def)

lemma fill_cache: "(fill ds U m)\<lparr>par_cache := c\<rparr> = fill ds U (m\<lparr>par_cache := c\<rparr>)"
  "(fill ds U m)\<lparr>par_out := b\<rparr> = fill ds U (m\<lparr>par_out := b\<rparr>)"
  by (rule par_memory.equality; auto simp: fill_def)+

lemma fill_deduplicate:
  assumes "i \<notin> U"
  shows "par_Deduplicate ev i (fill ds U m) = map_sum id (map_prod id (fill ds U)) (par_Deduplicate ev i m)"
proof (cases "hashtable_search hash_from_key_fn keys_equal_fn (par_cache m) (SHA1_Digest ev (uncompressed_data (chunk m i)))")
  case None
  have eq: "(fill ds U m)\<lparr>par_cache := x, chunk := (chunk (fill ds U m))(i := c)\<rparr> =
      fill ds U (m\<lparr>par_cache := x, chunk := (chunk m)(i := c)\<rparr>)" for x c
    using assms by (intro par_memory.equality) (auto simp: fill_def)
  from None assms show ?thesis
    by (cases "cache_insert ev (SHA1_Digest ev (uncompressed_data (chunk m i))) i (par_cache m)")
      (simp_all add: par_Deduplicate_def Let_def eq [simplified])
next
  case (Some e)
  with assms show ?thesis
    by (simp add: par_Deduplicate_def Let_def) (rule par_memory.equality; auto simp: fill_def)
qed

lemma fill_compress:
  "i \<notin> U \<Longrightarrow> par_Compress ev ty i (fill ds U m) = map_sum id (fill ds U) (par_Compress ev ty i m)"
  using fill_update [of i U ds m] by (auto simp: par_Compress_def split: sum.splits)

lemma fill_write:
  assumes "i \<notin> U" and "isDuplicate (chunk m i) \<Longrightarrow> compressed_data_ref (chunk m i) \<notin> U"
  shows "par_write_chunk_to_file i (fill ds U m) = map_option (fill ds U) (par_write_chunk_to_file i m)"
proof -
  have eq: "(fill ds U m)\<lparr>par_out := x, chunk := (chunk (fill ds U m))(j := c)\<rparr> =
      fill ds U (m\<lparr>par_out := x, chunk := (chunk m)(j := c)\<rparr>)" if "j \<notin> U" for x c j
    using that by (intro par_memory.equality) (auto simp: fill_def)
  show ?thesis
    using assms eq
    by (auto simp: par_write_chunk_to_file_def Let_def fill_cache split: chunk_state_t.splits)
qed

lemma new_chunks_fields [simp]:
  "par_cache (new_chunks k fs m) = par_cache m" "par_out (new_chunks k fs m) = par_out m"
  by (induction k fs m rule: new_chunks.induct) simp_all

lemma new_chunks_chunk:
  "chunk (new_chunks k fs m) i = (if k \<le> i \<and> i < k + length fs
     then chunk m i\<lparr>state := CHUNK_STATE_UNCOMPRESSED, uncompressed_data := fine_data (fs ! (i - k))\<rparr> else chunk m i)"
proof (induction k fs m rule: new_chunks.induct)
  case (2 k f fs m)
  consider "i = k" | "i < k" | "k < i" by linarith
  then show ?case
  proof cases
    case 3
    then have "i - k = Suc (i - (k + 1))" by simp
    then have "(f # fs) ! (i - k) = fs ! (i - (k + 1))" by (simp only: nth_Cons_Suc)
    with 3 show ?thesis using "2.IH" by simp
  qed (use "2.IH" in simp_all)
qed auto

lemma fill_new_chunks:
  assumes "\<And>i. i < length fs \<Longrightarrow> ds ! (k + i) = fine_data (fs ! i)"
    and "U = U' \<union> {k ..< k + length fs}" and "U' \<inter> {k ..< k + length fs} = {}"
  shows "fill ds U m = fill ds U' (new_chunks k fs m)"
proof -
  have "chunk (fill ds U m) i = chunk (fill ds U' (new_chunks k fs m)) i" for i
  proof (cases "k \<le> i \<and> i < k + length fs")
    case True
    then have "i \<in> U" "i \<notin> U'" using assms(2,3) by auto
    moreover have "i - k < length fs" using True by linarith
    then have "ds ! i = fine_data (fs ! (i - k))" using assms(1) [of "i - k"] True by simp
    ultimately show ?thesis using True by (simp add: fill_def new_chunks_chunk)
  next
    case False
    then have "i \<in> U \<longleftrightarrow> i \<in> U'" using assms(2) by auto
    with False show ?thesis by (auto simp: fill_def new_chunks_chunk)
  qed
  then show ?thesis by (intro par_memory.equality) auto
qed

section \<open>When the kernels succeed\<close>

lemma deduplicate_ready:
  assumes inv: "par_inv ev ty ds f n s" and pl: "place s i = In_deduplicate" and "healthy ev ty"
  shows "\<exists>dup m. par_Deduplicate ev i (mem s) = Inr (dup, m)"
proof -
  note I = par_invD [OF inv]
  have i: "i < length ds" using I(5) [of i] pl by auto
  let ?sh = "SHA1_Digest ev (ds ! i)"
  have len: "\<forall>d. length (SHA1_Digest ev d) = 5" using assms(3) by (simp add: healthy_def)
  have d: "uncompressed_data (chunk (mem s) i) = ds ! i" using I(4) [OF i] pl by (auto simp: chunk_inv_def)
  have "hashtable_search hash_from_key_fn keys_equal_fn (par_cache (mem s)) ?sh = f ?sh"
    using holds_map_search [OF I(1)] len by blast
  moreover have "\<exists>c. cache_insert ev ?sh i (par_cache (mem s)) = Inr c" if "f ?sh = None"
    using holds_map_insert [OF I(1) _ that, of ev i] assms(3) by (auto simp: healthy_def)
  ultimately show ?thesis
    using d by (cases "f ?sh") (auto simp: par_Deduplicate_def Let_def)
qed

lemma compress_ready:
  assumes inv: "par_inv ev ty ds f n s" and pl: "place s i = In_compress" and "healthy ev ty" and "[] \<notin> set ds"
  shows "\<exists>m. par_Compress ev ty i (mem s) = Inr m"
proof -
  note I = par_invD [OF inv]
  have i: "i < length ds" using I(5) [of i] pl by auto
  have ci: "uncompressed_data (chunk (mem s) i) = ds ! i" "\<not> isDuplicate (chunk (mem s) i)"
    using I(4) [OF i] pl by (auto simp: chunk_inv_def)
  moreover have "state (chunk (mem s) i) = CHUNK_STATE_UNCOMPRESSED"
    using I(4) [OF i] pl ci(2) by (auto simp: chunk_inv_def)
  moreover have "ds ! i \<noteq> []" using assms(4) i by (metis nth_mem)
  then obtain cdata where "sub_Compress ev ty (ds ! i) = Inr cdata"
    using assms(3) by (cases "sub_Compress ev ty (ds ! i)") (auto simp: healthy_def)
  ultimately show ?thesis by (auto simp: par_Compress_def)
qed

text \<open>The original of a chunk that is to be written: past the deduplication, and unless it is in the compression
  stage its data are there.\<close>

lemma original_placed:
  assumes inv: "par_inv ev ty ds f n s" and pl: "place s i = In_reorder"
  defines "j \<equiv> (if isDuplicate (chunk (mem s) i) then compressed_data_ref (chunk (mem s) i) else i)"
  shows "place s j \<noteq> In_deduplicate" and "place s j \<noteq> In_compress \<Longrightarrow> \<exists>m. par_write_chunk_to_file i (mem s) = Some m"
proof -
  note I = par_invD [OF inv]
  have i: "i < length ds" using I(5) [of i] pl by auto
  have j: "f (SHA1_Digest ev (ds ! i)) = Some j" using I(4) [OF i] pl by (auto simp: chunk_inv_def j_def)
  note J = flushed_okD [OF I(6) j]
  show pj: "place s j \<noteq> In_deduplicate" using I(4) [OF J(1)] j J(2) by (auto simp: chunk_inv_def)
  assume "place s j \<noteq> In_compress"
  with pj I(4) [OF J(1)] J(3) have "state (chunk (mem s) j) \<noteq> CHUNK_STATE_UNCOMPRESSED" by (auto simp: chunk_inv_def)
  then show "\<exists>m. par_write_chunk_to_file i (mem s) = Some m"
    by (cases "state (chunk (mem s) j)") (auto simp: par_write_chunk_to_file_def j_def [symmetric] Let_def)
qed

section \<open>The numbers of the chunks\<close>

lemma refine_all_Cons:
  "refine_all (c # cs) = (case refine_one c of Inl e \<Rightarrow> Inl e | Inr fs \<Rightarrow> map_sum id (\<lambda>gs. fs @ gs) (refine_all cs))"
  by (simp add: refine_one_def split: prod.split)

lemma tag_chunks_append: "tag_chunks k (fs @ gs) = tag_chunks k fs @ tag_chunks (k + length fs) gs"
  by (induction fs arbitrary: k) simp_all

lemma length_tag_chunks [simp]: "length (tag_chunks k fs) = length fs"
  by (induction fs arbitrary: k) simp_all

lemma tag_chunks_nth: "i < length fs \<Longrightarrow> num (tag_chunks k fs ! i) = k + i"
  using tag_chunks_payload [of k fs] by (metis length_tag_chunks nth_map nth_upt add_less_cancel_left)

end
