(* ===== verification/Dedup_Stages_Run.thy ===== *)
theory Dedup_Stages_Run
  imports Dedup_Stages_Ends Dedup_Stages_Link
begin

text \<open>
  The invariant of the whole encoder: no queue is used after its last producer has terminated it, every chunk
  is in exactly one place, and the memory of the chunks is that of a run of \<open>Dedup_Parallel\<close>.
\<close>

section \<open>The structure of the encoder\<close>

definition encoder_ques :: "nat \<Rightarrow> que_id set" where
  "encoder_ques n = (let G = {..<nqueues n} in Refine_que ` G \<union> Deduplicate_que ` G \<union> Compress_que ` G \<union> Reorder_que ` G)"

definition holding :: "nat \<Rightarrow> (stage_thread \<Rightarrow> st_thread) \<Rightarrow> que_id \<Rightarrow> stage_thread set" where
  "holding n ws q = {u \<in> stage_threads n. ends (stage_of u) = q \<and> st_pc (ws u) \<noteq> St_ended}"

fun holders :: "nat \<Rightarrow> encoder \<Rightarrow> que_id \<Rightarrow> nat" where
  "holders n s (Refine_que g) = (if fr_holds (fr_pc (en_fragmenter s)) g then 1 else 0)"
| "holders n s q = card (holding n (en_threads s) q)"

definition balanced :: "nat \<Rightarrow> encoder \<Rightarrow> bool" where
  "balanced n s \<longleftrightarrow> (\<forall>q \<in> encoder_ques n. nProducers (en_que s q) = nTerminated (en_que s q) + int (holders n s q))"

definition struct_ok :: "nat \<Rightarrow> nat \<Rightarrow> encoder \<Rightarrow> bool" where
  "struct_ok n sz s \<longleftrightarrow> ques_ok sz (en_que s) (encoder_ques n) \<and> balanced n s \<and>
     (\<forall>u \<in> stage_threads n. stage_ok u (en_que s) (en_threads s u)) \<and>
     fragmenter_ok (nqueues n) (en_fragmenter s) \<and> reorderer_ok (nqueues n) (en_que s) (en_reorderer s)"

definition encoder_spread :: "nat \<Rightarrow> encoder \<Rightarrow> spread" where
  "encoder_spread n s = (\<Sum>q \<in> encoder_ques n. que_spread q (en_que s q)) +
     (\<Sum>u \<in> stage_threads n. st_spread u (en_threads s u)) + fr_spread (en_fragmenter s) + re_spread (en_reorderer s)"

lemma group_less: "tid < n \<Longrightarrow> tid div MAX_THREADS_PER_QUEUE < nqueues n"
  using div_le_mono [of tid n MAX_THREADS_PER_QUEUE]
  by (auto simp: nqueues_def MAX_THREADS_PER_QUEUE_def)

lemma stage_ques_subset: "u \<in> stage_threads n \<Longrightarrow> stage_ques u \<subseteq> encoder_ques n"
  using group_less by (auto simp: stage_threads_def stage_ques_def encoder_ques_def Let_def)

lemma finite_encoder [simp]: "finite (encoder_ques n)" "finite (stage_threads n)"
  by (simp_all add: encoder_ques_def stage_threads_def Let_def)

lemma ques_ok_subset: "ques_ok sz Q E \<Longrightarrow> S \<subseteq> E \<Longrightarrow> ques_ok sz Q S"
  by (auto simp: ques_ok_def)

lemma sum_update_one:
  fixes f :: "'a \<Rightarrow> 'b :: comm_monoid_add"
  assumes "finite A" and "x \<in> A" and "\<And>y. y \<in> A \<Longrightarrow> y \<noteq> x \<Longrightarrow> g y = f y" and "g x + b = f x + a"
  shows "sum g A + b = sum f A + a"
proof -
  have "sum g (A - {x}) = sum f (A - {x})" using assms(3) by (intro sum.cong) auto
  then have "sum g A + b = (g x + b) + sum f (A - {x})"
    using assms(1,2) by (simp add: sum.remove [of A x] ac_simps)
  also have "\<dots> = sum f A + a" using assms(1,2) unfolding assms(4) by (simp add: sum.remove [of A x] ac_simps)
  finally show ?thesis .
qed

lemma queue_move_ques:
  assumes "queue_move sz Q Q' S t a b" and "S \<subseteq> E" and "finite E" and "ques_ok sz Q E"
  shows "ques_ok sz Q' E" "(\<Sum>q \<in> E. que_spread q (Q' q)) + b = (\<Sum>q \<in> E. que_spread q (Q q)) + a"
    "nProducers (Q' q) = nProducers (Q q)" "nTerminated (Q' q) = nTerminated (Q q) + (if t = Some q then 1 else 0)"
proof -
  obtain p x where p: "p \<in> S" "Q' = Q(p := x)" "que_ok sz x" "sorts_ok p (rb_contents (buf x))"
    "nProducers x = nProducers (Q p)" "t \<noteq> None \<longrightarrow> t = Some p"
    "nTerminated x = nTerminated (Q p) + (if t = Some p then 1 else 0)" "que_spread p x + b = que_spread p (Q p) + a"
    using assms(1) by (auto simp: queue_move_def)
  show "ques_ok sz Q' E" using assms(4) p(3,4) by (simp add: ques_ok_def p(2))
  show "nProducers (Q' q) = nProducers (Q q)" using p(5) by (simp add: p(2))
  show "nTerminated (Q' q) = nTerminated (Q q) + (if t = Some q then 1 else 0)"
    using p(6,7) by (cases t) (auto simp: p(2))
  show "(\<Sum>q \<in> E. que_spread q (Q' q)) + b = (\<Sum>q \<in> E. que_spread q (Q q)) + a"
    using assms(2,3) p(1,8) by (intro sum_update_one [of E p]) (auto simp: p(2))
qed

section \<open>A queue that a thread may send to has a producer left\<close>

lemma holding_open:
  assumes "balanced n s" and "u \<in> stage_threads n" and "st_pc (en_threads s u) \<noteq> St_ended"
  shows "nTerminated (en_que s (ends (stage_of u))) < nProducers (en_que s (ends (stage_of u)))"
proof -
  let ?q = "ends (stage_of u)"
  have "?q \<in> encoder_ques n" using stage_ques_subset [OF assms(2)] stage_limits(3) by (auto simp: stage_ques_def)
  moreover have "u \<in> holding n (en_threads s) ?q" using assms(2,3) by (simp add: holding_def)
  then have "0 < card (holding n (en_threads s) ?q)" by (auto simp: card_gt_0_iff holding_def)
  then have "0 < holders n s ?q" by (cases u) (simp_all add: Let_def)
  ultimately show ?thesis using assms(1) by (auto simp: balanced_def)
qed

lemma stage_open:
  assumes "struct_ok n sz s" and "u \<in> stage_threads n" and "st_pc (en_threads s u) \<noteq> St_ended"
    and "q \<in> set (out_ques (stage_of u))"
  shows "nTerminated (en_que s q) < nProducers (en_que s q)"
proof (cases "q = ends (stage_of u)")
  case True
  with holding_open [OF _ assms(2,3)] assms(1) show ?thesis by (simp add: struct_ok_def)
next
  case False
  then obtain t where u: "u = Deduplicator t" "t < n" "q = ends (stage_of (Compressor t))"
    using assms(2,4) by (cases u) (auto simp: stage_threads_def Let_def)
  have v: "Compressor t \<in> stage_threads n" using u(2) by (simp add: stage_threads_def)
  have "ends (stage_of u) = in_que (stage_of (Compressor t))" by (simp add: u(1) Let_def)
  then have "\<not> finished (en_que s (in_que (stage_of (Compressor t))))"
    using holding_open [OF _ assms(2,3)] assms(1) by (simp add: struct_ok_def finished_def)
  moreover have "stage_ok (Compressor t) (en_que s) (en_threads s (Compressor t))"
    using assms(1) v by (simp add: struct_ok_def)
  ultimately have "st_pc (en_threads s (Compressor t)) \<noteq> St_ended" by (auto simp: stage_ok_def)
  with holding_open [OF _ v] assms(1) u(3) show ?thesis by (simp add: struct_ok_def)
qed

section \<open>Steps that only move chunks\<close>

lemma holding_update:
  assumes "u \<in> stage_threads n" and "st_pc (ws u) \<noteq> St_ended" and "q = ends (stage_of u)" and "st_pc w = St_ended"
  shows "card (holding n ws q) = Suc (card (holding n (ws(u := w)) q))"
proof -
  have "holding n ws q = insert u (holding n (ws(u := w)) q)" "u \<notin> holding n (ws(u := w)) q"
    using assms by (auto simp: holding_def)
  then show ?thesis by (simp add: holding_def)
qed

lemma holding_same:
  assumes "q = ends (stage_of u) \<Longrightarrow> (st_pc w = St_ended \<longleftrightarrow> st_pc (ws u) = St_ended)"
  shows "holding n (ws(u := w)) q = holding n ws q"
  using assms by (auto simp: holding_def)

lemma swap_cancel:
  fixes x :: "'a multiset"
  assumes "x' + b = x + a" and "y' + a = y + b"
  shows "x' + y' = x + y"
proof -
  have "x' + b + (y' + a) = x + a + (y + b)" by (simp only: assms)
  then show ?thesis by (simp add: ac_simps)
qed

lemma stage_move_struct:
  fixes m :: par_memory
  assumes ok: "struct_ok n sz s" and u: "u \<in> stage_threads n" and ne: "st_pc (en_threads s u) \<noteq> St_ended"
    and w: "stage_ok u Q w" and mv: "queue_move sz (en_que s) Q (stage_ques u) (ended_que u w) a b"
  defines "s' \<equiv> s\<lparr>en_threads := (en_threads s)(u := w), en_que := Q, en_memory := m\<rparr>"
  shows "struct_ok n sz s'"
    and "encoder_spread n s' + (b + st_spread u (en_threads s u)) = encoder_spread n s + (a + st_spread u w)"
proof -
  have q: "ques_ok sz (en_que s) (encoder_ques n)" and bal: "balanced n s" using ok by (simp_all add: struct_ok_def)
  note M = queue_move_ques [OF mv stage_ques_subset [OF u] finite_encoder(1) q]
  note fin = queue_move_finished [OF mv]
  have count: "holders n s q = holders n s' q + (if ended_que u w = Some q then 1 else 0)" for q
  proof (cases "ended_que u w = Some q")
    case True
    then have e: "q = ends (stage_of u)" "st_pc w = St_ended" by (auto simp: ended_que_def split: if_splits)
    with holding_update [of u n "en_threads s" q w] u ne True show ?thesis by (cases u) (simp_all add: Let_def s'_def)
  next
    case False
    then have "holding n ((en_threads s)(u := w)) q = holding n (en_threads s) q"
      using ne by (intro holding_same) (auto simp: ended_que_def)
    with False show ?thesis by (cases q) (simp_all add: s'_def)
  qed
  have "balanced n s'" using bal M(3,4) count by (auto simp: balanced_def s'_def)
  moreover have "stage_ok v Q (((en_threads s)(u := w)) v)" if "v \<in> stage_threads n" for v
    using ok w that stage_ok_mono fin by (auto simp: struct_ok_def)
  moreover have "reorderer_ok (nqueues n) Q (en_reorderer s)"
    using ok reorderer_ok_mono fin by (auto simp: struct_ok_def)
  ultimately show "struct_ok n sz s'" using M(1) ok by (simp add: struct_ok_def s'_def)
  have "(\<Sum>v \<in> stage_threads n. st_spread v (((en_threads s)(u := w)) v)) + st_spread u (en_threads s u) =
      (\<Sum>v \<in> stage_threads n. st_spread v (en_threads s v)) + st_spread u w"
    using u by (intro sum_update_one [of _ u]) (simp_all add: add.commute)
  from arg_cong2 [of _ _ _ _ "(+)", OF M(2) this]
  show "encoder_spread n s' + (b + st_spread u (en_threads s u)) = encoder_spread n s + (a + st_spread u w)"
    by (simp add: encoder_spread_def s'_def ac_simps)
qed

lemma fragment_move_struct:
  assumes ok: "struct_ok n sz s" and step: "fragment_step (nqueues n) (en_fragmenter s) (en_que s) = Some (f, Q)"
  defines "s' \<equiv> s\<lparr>en_fragmenter := f, en_que := Q\<rparr>"
  shows "struct_ok n sz s'" and "encoder_spread n s' = encoder_spread n s"
proof -
  let ?f = "en_fragmenter s" and ?t = "fr_ends (nqueues n) (fr_pc (en_fragmenter s))"
  have q: "ques_ok sz (en_que s) (encoder_ques n)" and bal: "balanced n s" and fok: "fragmenter_ok (nqueues n) ?f"
    using ok by (simp_all add: struct_ok_def)
  have sub: "Refine_que ` {..<nqueues n} \<subseteq> encoder_ques n" by (auto simp: encoder_ques_def Let_def)
  have opn: "nTerminated (en_que s (Refine_que g)) < nProducers (en_que s (Refine_que g))"
    if "g < nqueues n" "fr_holds (fr_pc ?f) g" for g
    using bal that sub by (force simp: balanced_def)
  from fragment_step_ok [OF fok ques_ok_subset [OF q sub] opn step]
  have F: "fragmenter_ok (nqueues n) f"
    "queue_move sz (en_que s) Q (Refine_que ` {..<nqueues n}) ?t (fr_spread ?f) (fr_spread f)"
    "\<forall>g < nqueues n. fr_holds (fr_pc f) g \<longleftrightarrow> fr_holds (fr_pc ?f) g \<and> ?t \<noteq> Some (Refine_que g)"
    by blast+
  note M = queue_move_ques [OF F(2) sub finite_encoder(1) q]
  note fin = queue_move_finished [OF F(2)]
  have "fr_holds (fr_pc ?f) g" if "?t = Some (Refine_que g)" for g
    using that by (cases "fr_pc ?f") (auto split: if_splits)
  then have count: "holders n s q = holders n s' q + (if ?t = Some q then 1 else 0)" if "q \<in> encoder_ques n" for q
  proof (cases q)
    case (Refine_que g)
    with that have "g < nqueues n" by (auto simp: encoder_ques_def Let_def)
    with F(3) Refine_que \<open>\<And>g. ?t = Some (Refine_que g) \<Longrightarrow> fr_holds (fr_pc ?f) g\<close> show ?thesis
      by (auto simp: s'_def)
  qed (cases "fr_pc ?f"; simp add: s'_def split: if_splits)+
  have "balanced n s'" using bal M(3,4) count by (auto simp: balanced_def s'_def)
  moreover have "\<forall>v \<in> stage_threads n. stage_ok v Q (en_threads s v)"
    using ok stage_ok_mono fin by (auto simp: struct_ok_def)
  moreover have "reorderer_ok (nqueues n) Q (en_reorderer s)"
    using ok reorderer_ok_mono fin by (auto simp: struct_ok_def)
  ultimately show "struct_ok n sz s'" using M(1) ok F(1) by (simp add: struct_ok_def s'_def)
  from M(2) show "encoder_spread n s' = encoder_spread n s"
    by (simp add: encoder_spread_def s'_def ac_simps)
qed

lemma reorder_move_struct:
  fixes m :: par_memory
  assumes ok: "struct_ok n sz s" and re: "reorderer_ok (nqueues n) Q re"
    and mv: "queue_move sz (en_que s) Q (Reorder_que ` {..<nqueues n}) None a b"
  defines "s' \<equiv> s\<lparr>en_reorderer := re, en_que := Q, en_memory := m\<rparr>"
  shows "struct_ok n sz s'"
    and "encoder_spread n s' + (b + re_spread (en_reorderer s)) = encoder_spread n s + (a + re_spread re)"
proof -
  have q: "ques_ok sz (en_que s) (encoder_ques n)" and bal: "balanced n s" using ok by (simp_all add: struct_ok_def)
  have sub: "Reorder_que ` {..<nqueues n} \<subseteq> encoder_ques n" by (auto simp: encoder_ques_def Let_def)
  note M = queue_move_ques [OF mv sub finite_encoder(1) q]
  note fin = queue_move_finished [OF mv]
  have "holders n s' q = holders n s q" for q by (cases q) (simp_all add: s'_def)
  then have "balanced n s'" using bal M(3,4) by (simp add: balanced_def s'_def)
  moreover have "\<forall>v \<in> stage_threads n. stage_ok v Q (en_threads s v)"
    using ok stage_ok_mono fin by (auto simp: struct_ok_def)
  ultimately show "struct_ok n sz s'" using M(1) ok re by (simp add: struct_ok_def s'_def)
  from M(2) show "encoder_spread n s' + (b + re_spread (en_reorderer s)) = encoder_spread n s + (a + re_spread re)"
    by (simp add: encoder_spread_def s'_def ac_simps)
qed

section \<open>When the last queues are finished nothing is on the way\<close>

lemma group_member:
  assumes "g < nqueues n"
  obtains t where "t < n" "t div MAX_THREADS_PER_QUEUE = g"
proof (rule that [of "4 * g"])
  show "4 * g < n" using assms by (auto simp: nqueues_def MAX_THREADS_PER_QUEUE_def split: if_splits) presburger
qed (simp add: MAX_THREADS_PER_QUEUE_def)

lemma ended_threads:
  assumes "struct_ok n sz s" and "u \<in> stage_threads n" and "finished (en_que s (ends (stage_of u)))"
  shows "st_pc (en_threads s u) = St_ended \<and> finished (en_que s (in_que (stage_of u))) \<and> st_spread u (en_threads s u) = {#}"
proof -
  have e: "st_pc (en_threads s u) = St_ended"
    using holding_open [of n s u] assms by (auto simp: struct_ok_def finished_def)
  moreover have "stage_ok u (en_que s) (en_threads s u)" using assms(1,2) by (simp add: struct_ok_def)
  ultimately have pl: "rb_contents (recv_buf (en_threads s u)) = []" "finished (en_que s (in_que (stage_of u)))"
    "\<forall>j < length (out_ques (stage_of u)). drained (en_threads s u) j" by (simp_all add: stage_ok_def)
  then have "st_spread u (en_threads s u) = {#}"
    using e by (simp add: st_spread_def Let_def bufs_spread_def drained_def)
  with e pl show ?thesis by simp
qed

lemma finished_upstream:
  assumes ok: "struct_ok n sz s" and mk: "\<And>t. t < n \<Longrightarrow> mk t \<in> stage_threads n"
    and fin: "\<And>t. t < n \<Longrightarrow> finished (en_que s (ends (stage_of (mk t))))"
    and up: "\<And>t. in_que (stage_of (mk t)) = q (t div MAX_THREADS_PER_QUEUE)" and "g < nqueues n"
  shows "finished (en_que s (q g))"
proof -
  obtain t where "t < n" "t div MAX_THREADS_PER_QUEUE = g" using group_member assms(5) by blast
  with ended_threads [OF ok mk fin] up show ?thesis by metis
qed

lemma nothing_left:
  assumes ok: "struct_ok n sz s" and fin: "all_finished (nqueues n) (en_que s)"
    and nil: "rb_contents (re_buf (en_reorderer s)) = []"
  shows "encoder_spread n s = {#} \<and> (\<forall>u \<in> stage_threads n. st_pc (en_threads s u) = St_ended)"
proof -
  have mk: "Refiner t \<in> stage_threads n" "Deduplicator t \<in> stage_threads n" "Compressor t \<in> stage_threads n" if "t < n" for t
    using that by (auto simp: stage_threads_def)
  have f4: "finished (en_que s (Reorder_que g))" if "g < nqueues n" for g using fin that by (simp add: all_finished_def)
  have e3: "finished (en_que s (ends (stage_of (Compressor t))))" if "t < n" for t
    using f4 [OF group_less [OF that]] by (simp add: Let_def)
  have f3: "finished (en_que s (Compress_que g))" if "g < nqueues n" for g
    by (rule finished_upstream [of n sz s Compressor, OF ok _ e3]) (simp_all add: mk that Let_def)
  have e2: "finished (en_que s (ends (stage_of (Deduplicator t))))" if "t < n" for t
    using f3 [OF group_less [OF that]] by (simp add: Let_def)
  have f2: "finished (en_que s (Deduplicate_que g))" if "g < nqueues n" for g
    by (rule finished_upstream [of n sz s Deduplicator, OF ok _ e2]) (simp_all add: mk that Let_def)
  have e1: "finished (en_que s (ends (stage_of (Refiner t))))" if "t < n" for t
    using f2 [OF group_less [OF that]] by (simp add: Let_def)
  have f1: "finished (en_que s (Refine_que g))" if "g < nqueues n" for g
    by (rule finished_upstream [of n sz s Refiner, OF ok _ e1]) (simp_all add: mk that Let_def)
  have threads: "st_pc (en_threads s u) = St_ended \<and> st_spread u (en_threads s u) = {#}" if "u \<in> stage_threads n" for u
    using ended_threads [OF ok that] that e1 e2 e3 by (auto simp: stage_threads_def simp del: stage_of.simps)
  have "que_spread q (en_que s q) = {#}" if "q \<in> encoder_ques n" for q
    using that f1 f2 f3 f4 by (auto simp: encoder_ques_def Let_def que_spread_def finished_def)
  moreover have "fr_spread (en_fragmenter s) = {#}"
  proof -
    have ne: "fr_qid (en_fragmenter s) < nqueues n" and fp: "fragmenter_ok (nqueues n) (en_fragmenter s)"
      using ok by (simp_all add: struct_ok_def fragmenter_ok_def)
    have "Refine_que (fr_qid (en_fragmenter s)) \<in> encoder_ques n" using ne by (auto simp: encoder_ques_def Let_def)
    then have "\<not> fr_holds (fr_pc (en_fragmenter s)) (fr_qid (en_fragmenter s))"
      using ok f1 [OF ne] by (force simp: struct_ok_def balanced_def finished_def)
    with fp show ?thesis by (cases "fr_pc (en_fragmenter s)") (simp_all add: fragmenter_ok_def fr_spread_def)
  qed
  ultimately show ?thesis using threads nil by (simp add: encoder_spread_def re_spread_def)
qed

end
