(* ===== verification/Dedup_Stages_Correct.thy ===== *)
theory Dedup_Stages_Correct
  imports Dedup_Stages_Run
begin

text \<open>
  The threads of the parallel encoder together: no assertion fails, and when the last thread has ended, the
  archive decodes to the input.
\<close>

section \<open>What is known of the chunks\<close>

text \<open>\<open>ds\<close> are the data of the fine chunks of the input, \<open>tags\<close> their sequence numbers.\<close>

definition job_ok :: "env \<Rightarrow> int \<Rightarrow> uchar list list \<Rightarrow> nat rchunk list \<Rightarrow> bool" where
  "job_ok ev ty ds tags \<longleftrightarrow> healthy ev ty \<and> [] \<notin> set ds \<and> inj_on (SHA1_Digest ev) (set ds) \<and>
     well_numbered tags \<and> map num tags = [0 ..< length ds] \<and> (\<forall>c \<in> set tags. unat (l1num (seq c)) < 2048)"

fun spot_place :: "spot \<Rightarrow> place" where
  "spot_place (Unmade d) = In_deduplicate"
| "spot_place (Made pl) = pl"

definition unmade :: "spread \<Rightarrow> nat set" where
  "unmade X = {num c | d c. (Unmade d, c) \<in># X}"

text \<open>\<open>X\<close> are the chunks on their way, \<open>A\<close> those that have arrived at the last thread.\<close>

definition located :: "uchar list list \<Rightarrow> spread \<Rightarrow> nat rchunk multiset \<Rightarrow> par_sys \<Rightarrow> par_memory \<Rightarrow> bool" where
  "located ds X A ps m \<longleftrightarrow> mem ps = fill ds (unmade X) m \<and>
     (\<forall>(sp, c) \<in># X. place ps (num c) = spot_place sp) \<and> (\<forall>(sp, c) \<in># X. \<forall>d. sp = Unmade d \<longrightarrow> ds ! num c = d) \<and>
     (\<forall>c \<in># A. place ps (num c) \<in> {In_reorder, Gone})"

fun writing :: "re_pc \<Rightarrow> nat list" where
  "writing (Re_write is) = is"
| "writing (Re_finish is) = is"
| "writing pc = []"

definition writes_ok :: "nat rchunk list \<Rightarrow> nat rchunk multiset \<Rightarrow> reorderer \<Rightarrow> nat \<Rightarrow> bool" where
  "writes_ok tags A re n \<longleftrightarrow> reorder_inv tags A (re_state re) \<and> 1024 \<le> length (chunks_per_anchor (re_state re)) \<and>
     n \<le> length (to_file (re_state re)) \<and> writing (re_pc re) = [n ..< length (to_file (re_state re))]"

definition encoder_inv :: "env \<Rightarrow> int \<Rightarrow> nat \<Rightarrow> nat \<Rightarrow> uchar list list \<Rightarrow> nat rchunk list \<Rightarrow> encoder \<Rightarrow> bool" where
  "encoder_inv ev ty n sz ds tags s \<longleftrightarrow> struct_ok n sz s \<and>
     (\<exists>A ps k. image_mset snd (encoder_spread n s) + A = mset tags \<and> par_reachable ev ty ds ps \<and>
        located ds (encoder_spread n s) A ps (en_memory s) \<and> todo ps = [k ..< length ds] \<and>
        writes_ok tags A (en_reorderer s) k)"

lemma numbers_unique:
  assumes "map num tags = [0 ..< N]" and "image_mset snd (add_mset (sp, c) X) + A = mset tags"
  shows "(sp', c') \<in># X \<Longrightarrow> num c' \<noteq> num c" and "c' \<in># A \<Longrightarrow> num c' \<noteq> num c" and "num c < N"
proof -
  have "mset [0 ..< N] = image_mset num (mset tags)" using assms(1) by (metis mset_map)
  also have "\<dots> = add_mset (num c) (image_mset num (image_mset snd X) + image_mset num A)"
    by (simp add: assms(2) [symmetric])
  finally have eq: "mset [0 ..< N] = add_mset (num c) (image_mset num (image_mset snd X) + image_mset num A)" .
  have "count (mset [0 ..< N]) (num c) \<le> 1" 
    by (metis distinct_count_atmost_1 distinct_upt le_refl zero_le)
  then have "count (image_mset num (image_mset snd X) + image_mset num A) (num c) = 0" unfolding eq by simp
  then have "num c \<notin># image_mset num (image_mset snd X) + image_mset num A" by (simp only: not_in_iff)
  then have new: "num c \<notin> num ` snd ` set_mset X" "num c \<notin> num ` set_mset A" by simp_all
  show "num c' \<noteq> num c" if "(sp', c') \<in># X"
  proof -
    have "num (snd (sp', c')) \<in> num ` snd ` set_mset X" using that by blast
    with new(1) show ?thesis by (metis snd_conv)
  qed
  show "num c' \<noteq> num c" if "c' \<in># A" using that new(2) by (metis imageI)
  have "num c \<in># mset [0 ..< N]" unfolding eq by simp
  then have "num c \<in> set [0 ..< N]" by (simp only: set_mset_mset)
  then show "num c < N" by simp
qed

lemma unmade_add [simp]: "unmade (X + Y) = unmade X \<union> unmade Y" "unmade {#(Made pl, c)#} = {}"
  by (auto simp: unmade_def)

lemma unmade_new:
  assumes "\<And>sp c. (sp, c) \<in># X \<Longrightarrow> num c \<noteq> i"
  shows "i \<notin> unmade X"
proof
  assume "i \<in> unmade X"
  then obtain d c where "(Unmade d, c) \<in># X" "num c = i" by (auto simp: unmade_def)
  with assms show False by blast
qed

section \<open>The work of the stages\<close>

lemma locatedD:
  assumes "located ds X A ps m"
  shows "mem ps = fill ds (unmade X) m" "(sp, c) \<in># X \<Longrightarrow> place ps (num c) = spot_place sp"
    "(Unmade d, c) \<in># X \<Longrightarrow> ds ! num c = d" "c \<in># A \<Longrightarrow> place ps (num c) \<in> {In_reorder, Gone}"
  using assms by (auto simp: located_def)

lemma locatedI:
  assumes "mem ps = fill ds (unmade X) m" "\<And>sp c. (sp, c) \<in># X \<Longrightarrow> place ps (num c) = spot_place sp"
    "\<And>d c. (Unmade d, c) \<in># X \<Longrightarrow> ds ! num c = d" "\<And>c. c \<in># A \<Longrightarrow> place ps (num c) \<in> {In_reorder, Gone}"
  shows "located ds X A ps m"
  using assms by (auto simp: located_def)

lemma located_step:
  assumes loc: "located ds (add_mset (Made pl, c) X) A ps m" and M: "M = fill ds (unmade X) m'"
    and uniq: "\<And>sp' c'. (sp', c') \<in># X \<Longrightarrow> num c' \<noteq> num c" "\<And>c'. c' \<in># A \<Longrightarrow> num c' \<noteq> num c"
  shows "located ds (add_mset (Made pl', c) X) A (ps\<lparr>mem := M, place := (place ps)(num c := pl')\<rparr>) m'"
proof -
  have U: "unmade (add_mset (Made q, c) X) = unmade X" for q by (auto simp: unmade_def)
  show ?thesis
  proof (rule locatedI)
    show "place (ps\<lparr>mem := M, place := (place ps)(num c := pl')\<rparr>) (num c') = spot_place sp"
      if "(sp, c') \<in># add_mset (Made pl', c) X" for sp c'
    proof (cases "(sp, c') \<in># X")
      case True
      with locatedD(2) [OF loc, of sp c'] uniq(1) [OF True] show ?thesis by simp
    next
      case False
      with that show ?thesis by simp
    qed
    show "place (ps\<lparr>mem := M, place := (place ps)(num c := pl')\<rparr>) (num c') \<in> {In_reorder, Gone}" if "c' \<in># A" for c'
      using locatedD(4) [OF loc that] uniq(2) [OF that] by simp
    show "ds ! num c' = d" if "(Unmade d, c') \<in># add_mset (Made pl', c) X" for d c'
      using locatedD(3) [OF loc, of d c'] that by simp
  qed (simp add: M U)
qed

lemma located_refine:
  assumes loc: "located ds (X + mset (zip (map (\<lambda>f. Unmade (fine_data f)) fs) (tag_chunks k fs))) A ps m"
    and uniq: "\<And>i sp c. i < length fs \<Longrightarrow> (sp, c) \<in># X \<Longrightarrow> num c \<noteq> k + i"
  shows "located ds (X + image_mset (Pair (Made In_deduplicate)) (mset (tag_chunks k fs))) A ps (new_chunks k fs m)"
proof -
  let ?P = "mset (zip (map (\<lambda>f. Unmade (fine_data f)) fs) (tag_chunks k fs))"
  let ?O = "image_mset (Pair (Made In_deduplicate)) (mset (tag_chunks k fs))"
  have in_P: "(Unmade (fine_data (fs ! i)), tag_chunks k fs ! i) \<in># ?P" if "i < length fs" for i
    using that by (force simp: in_set_zip)
  have P_in: "\<exists>i < length fs. sp = Unmade (fine_data (fs ! i)) \<and> c = tag_chunks k fs ! i" if "(sp, c) \<in># ?P" for sp c
    using that by (auto simp: in_set_zip)
  have U: "unmade ?P = {k ..< k + length fs}"
  proof (intro equalityI subsetI)
    fix i assume "i \<in> unmade ?P"
    then obtain d c where "(Unmade d, c) \<in># ?P" "i = num c" by (auto simp: unmade_def)
    with P_in obtain j where "j < length fs" "i = num (tag_chunks k fs ! j)" by blast
    then show "i \<in> {k ..< k + length fs}" by (simp add: tag_chunks_nth)
  next
    fix i assume "i \<in> {k ..< k + length fs}"
    then obtain j where "j < length fs" "i = k + j" by (metis atLeastLessThan_iff le_Suc_ex nat_add_left_cancel_less)
    with in_P [of j] tag_chunks_nth [of j fs k] have "(Unmade (fine_data (fs ! j)), tag_chunks k fs ! j) \<in># ?P"
      "i = num (tag_chunks k fs ! j)" by simp_all
    then show "i \<in> unmade ?P" unfolding unmade_def by blast
  qed
  have uO: "unmade ?O = {}" by (auto simp: unmade_def)
  have D: "ds ! (k + i) = fine_data (fs ! i)" if "i < length fs" for i
    using locatedD(3) [OF loc, of "fine_data (fs ! i)" "tag_chunks k fs ! i"] in_P [OF that] tag_chunks_nth [OF that, of k]
    by simp
  have E: "unmade X \<inter> {k ..< k + length fs} = {}"
  proof (intro equals0I)
    fix i assume i: "i \<in> unmade X \<inter> {k ..< k + length fs}"
    then obtain sp c where "(sp, c) \<in># X" "num c = i" by (auto simp: unmade_def)
    moreover obtain j where "j < length fs" "i = k + j" using i by (metis IntD2 atLeastLessThan_iff le_Suc_ex nat_add_left_cancel_less)
    ultimately show False using uniq by blast
  qed
  have F: "fill ds (unmade X \<union> {k ..< k + length fs}) m = fill ds (unmade X) (new_chunks k fs m)"
    by (rule fill_new_chunks [OF D refl E])
  have pl: "place ps (num c) = In_deduplicate" if "c \<in> set (tag_chunks k fs)" for c
  proof -
    from that obtain i where i: "i < length fs" "c = tag_chunks k fs ! i" by (auto simp: in_set_conv_nth)
    have "(Unmade (fine_data (fs ! i)), c) \<in># X + ?P" using in_P [OF i(1)] i(2) by (metis union_iff)
    from locatedD(2) [OF loc this] show ?thesis by simp
  qed
  show ?thesis
  proof (rule locatedI)
    show "mem ps = fill ds (unmade (X + ?O)) (new_chunks k fs m)"
      using locatedD(1) [OF loc] F by (simp only: unmade_add(1) U uO Un_empty_right)
    show "place ps (num c) = spot_place sp" if "(sp, c) \<in># X + ?O" for sp c
    proof (cases "(sp, c) \<in># X")
      case True
      then show ?thesis using locatedD(2) [OF loc, of sp c] by simp
    next
      case False
      with that have "c \<in> set (tag_chunks k fs)" "sp = Made In_deduplicate" by auto
      with pl show ?thesis by simp
    qed
    show "ds ! num c = d" if "(Unmade d, c) \<in># X + ?O" for d c
      using that locatedD(3) [OF loc, of d c] by auto
    show "place ps (num c) \<in> {In_reorder, Gone}" if "c \<in># A" for c by (rule locatedD(4) [OF loc that])
  qed
qed


lemma head_spread:
  assumes "u \<in> stage_threads n" and "rb_contents (recv_buf (en_threads s u)) = p # ps"
  obtains B where "encoder_spread n s = B + packet_spread (que_place (in_que (stage_of u))) p"
proof -
  let ?P = "packet_spread (que_place (in_que (stage_of u))) p"
  obtain R where R: "st_spread u (en_threads s u) = R + ?P"
    by (simp add: st_spread_def Let_def assms(2) ac_simps)
  obtain R' where "encoder_spread n s = R' + st_spread u (en_threads s u)"
    using assms(1) by (simp add: encoder_spread_def sum.remove [of _ u] ac_simps)
  with R that show ?thesis by (metis add.assoc)
qed

lemma stage_work_struct:
  assumes ok: "struct_ok n sz s" and u: "u \<in> stage_threads n" and pc: "st_pc (en_threads s u) = St_work"
    and p: "rb_contents (recv_buf (en_threads s u)) = p # ps"
    and k: "kernel ev ty u p (en_memory s) = Inr (outs, m)" and outs: "outs_ok (stage_of u) outs"
  obtains w B where "work_item ev ty u (en_threads s u) (en_memory s) = (w, m)"
    "struct_ok n sz (s\<lparr>en_threads := (en_threads s)(u := w), en_que := en_que s, en_memory := m\<rparr>)"
    "encoder_spread n s = B + packet_spread (que_place (in_que (stage_of u))) p"
    "encoder_spread n (s\<lparr>en_threads := (en_threads s)(u := w), en_que := en_que s, en_memory := m\<rparr>) =
       B + outs_spread (stage_of u) outs"
proof -
  let ?st = "stage_of u" and ?w = "en_threads s u"
  let ?P = "packet_spread (que_place (in_que ?st)) p" and ?O = "outs_spread ?st outs"
  have wok: "stage_ok u (en_que s) ?w" and q: "ques_ok sz (en_que s) (stage_ques u)"
    using ok u ques_ok_subset [OF _ stage_ques_subset [OF u]] by (simp_all add: struct_ok_def)
  obtain w where w: "work_item ev ty u ?w (en_memory s) = (w, m)" "stage_ok u (en_que s) w" "st_pc w = St_put outs"
    "st_spread u w + ?P = st_spread u ?w + ?O"
    using work_ok [OF wok pc p k outs] by blast
  have "in_que ?st \<in> stage_ques u" by (simp add: stage_ques_def)
  from queue_move_none [OF q this]
  have mv: "queue_move sz (en_que s) (en_que s) (stage_ques u) (ended_que u w) {#} {#}" by (simp add: ended_que_def w(3))
  have ne: "st_pc ?w \<noteq> St_ended" by (simp add: pc)
  note S = stage_move_struct [OF ok u ne w(2) mv, of m]
  let ?s = "s\<lparr>en_threads := (en_threads s)(u := w), en_que := en_que s, en_memory := m\<rparr>"
  have eq: "encoder_spread n ?s + st_spread u ?w = encoder_spread n s + st_spread u w" using S(2) by simp
  obtain B where B: "encoder_spread n s = B + ?P" by (rule head_spread [OF u p])
  have "encoder_spread n ?s + st_spread u ?w + (st_spread u w + ?P) = encoder_spread n s + st_spread u w + (st_spread u ?w + ?O)"
    by (simp only: eq w(4))
  then have "encoder_spread n ?s = B + ?O" by (simp add: B ac_simps)
  with w(1) S(1) B show ?thesis by (intro that)
qed


lemma outs_spread_fine:
  "outs_spread st (map (\<lambda>c. (0, Fine c)) cs) = image_mset (Pair (Made (que_place (out_ques st ! 0)))) (mset cs)"
  by (induction cs) simp_all

lemma outs_ok_fine:
  "out_ques st \<noteq> [] \<Longrightarrow> sort_ok (out_ques st ! 0) = (\<lambda>p. \<exists>c. p = Fine c) \<Longrightarrow> outs_ok st (map (\<lambda>c. (0, Fine c)) cs)"
  by (induction cs) simp_all

lemma encoder_invI:
  assumes "struct_ok n sz s" and "image_mset snd (encoder_spread n s) + A = mset tags" and "par_reachable ev ty ds ps"
    and "located ds (encoder_spread n s) A ps (en_memory s)" and "todo ps = [k ..< length ds]"
    and "writes_ok tags A (en_reorderer s) k"
  shows "encoder_inv ev ty n sz ds tags s"
  using assms unfolding encoder_inv_def by blast

lemma par_reachable_step: "par_reachable ev ty ds s \<Longrightarrow> par_step ev ty s s' \<Longrightarrow> par_reachable ev ty ds s'"
  unfolding par_reachable_def by (meson rtranclp.rtrancl_into_rtrancl)

lemma job_par_inv:
  assumes "job_ok ev ty ds tags" and "par_reachable ev ty ds ps"
  obtains f k where "par_inv ev ty ds f k ps"
  using assms par_reachable_inv [of ev ty ds ps] by (auto simp: job_ok_def healthy_def)

lemma zip_snd: "length xs = length ys \<Longrightarrow> image_mset snd (mset (zip xs ys)) = mset ys"
  by (metis map_snd_zip mset_map)

lemma stage_work_inv:
  assumes inv: "encoder_inv ev ty n sz ds tags s" and job: "job_ok ev ty ds tags" and u: "u \<in> stage_threads n"
    and pc: "st_pc (en_threads s u) = St_work"
    and step: "stage_thread_step ev ty u (en_threads s u) (en_que s) (en_memory s) = Some (w, Q, m)"
  shows "encoder_inv ev ty n sz ds tags (s\<lparr>en_threads := (en_threads s)(u := w), en_que := Q, en_memory := m\<rparr>)"
proof -
  obtain A ps k where ok: "struct_ok n sz s" and tot: "image_mset snd (encoder_spread n s) + A = mset tags"
    and ps: "par_reachable ev ty ds ps" and loc: "located ds (encoder_spread n s) A ps (en_memory s)"
    and todo: "todo ps = [k ..< length ds]" and wr: "writes_ok tags A (en_reorderer s) k"
    using inv by (auto simp: encoder_inv_def)
  have healthy: "healthy ev ty" "[] \<notin> set ds" and nums: "map num tags = [0 ..< length ds]"
    using job by (simp_all add: job_ok_def)
  obtain f k' where pinv: "par_inv ev ty ds f k' ps" using job_par_inv [OF job ps] .
  have wok: "stage_ok u (en_que s) (en_threads s u)" using ok u by (simp add: struct_ok_def)
  then obtain p rest where p: "rb_contents (recv_buf (en_threads s u)) = p # rest"
    using pc by (cases "rb_contents (recv_buf (en_threads s u))") (simp_all add: stage_ok_def)
  then have sort: "sort_ok (in_que (stage_of u)) p" using wok by (simp add: stage_ok_def bufs_ok_def)
  from step pc have st: "work_item ev ty u (en_threads s u) (en_memory s) = (w, m)" "Q = en_que s"
    by (auto simp: stage_thread_step_def Let_def split: prod.splits)
  note go = stage_work_struct [OF ok u pc p]
  let ?s = "\<lambda>w m. s\<lparr>en_threads := (en_threads s)(u := w), en_que := en_que s, en_memory := m\<rparr>"
  show ?thesis
  proof (cases u)
    case (Refiner t)
    with sort obtain b c fs where c: "p = Coarse b c" "refine_one c = Inr fs" by (auto simp: Let_def)
    let ?outs = "map (\<lambda>f. (0, Fine f)) (tag_chunks b fs)"
    have kern: "kernel ev ty u p (en_memory s) = Inr (?outs, new_chunks b fs (en_memory s))"
      using c by (simp add: Refiner)
    have "outs_ok (stage_of u) ?outs" by (intro outs_ok_fine) (simp_all add: Refiner Let_def fun_eq_iff)
    from go [OF kern this] obtain w' B where w': "work_item ev ty u (en_threads s u) (en_memory s) = (w', new_chunks b fs (en_memory s))"
      "struct_ok n sz (?s w' (new_chunks b fs (en_memory s)))"
      "encoder_spread n s = B + packet_spread (que_place (in_que (stage_of u))) p"
      "encoder_spread n (?s w' (new_chunks b fs (en_memory s))) = B + outs_spread (stage_of u) ?outs" .
    let ?P = "mset (zip (map (\<lambda>f. Unmade (fine_data f)) fs) (tag_chunks b fs))"
    have P: "encoder_spread n s = B + ?P" using w'(3) by (simp add: c)
    have O: "encoder_spread n (?s w' (new_chunks b fs (en_memory s))) =
        B + image_mset (Pair (Made In_deduplicate)) (mset (tag_chunks b fs))"
      using w'(4) by (simp add: outs_spread_fine Refiner Let_def)
    have e: "w = w'" "m = new_chunks b fs (en_memory s)" using st(1) w'(1) by simp_all
    have uniq: "num c' \<noteq> b + i" if "i < length fs" "(sp, c') \<in># B" for i sp c'
    proof -
      let ?x = "(Unmade (fine_data (fs ! i)), tag_chunks b fs ! i)"
      have "?x \<in># ?P" using that(1) by (force simp: in_set_zip)
      then have X: "encoder_spread n s = add_mset ?x (B + (?P - {#?x#}))" by (simp add: P)
      from numbers_unique(1) [OF nums, of "fst ?x" "snd ?x" "B + (?P - {#?x#})" A sp c'] tot X that
      show ?thesis by (simp add: tag_chunks_nth)
    qed
    have L: "located ds (B + image_mset (Pair (Made In_deduplicate)) (mset (tag_chunks b fs))) A ps m"
      unfolding e(2)
    proof (rule located_refine)
      show "located ds (B + ?P) A ps (en_memory s)" using loc by (simp only: P)
    qed (rule uniq)
    have "image_mset snd (B + image_mset (Pair (Made In_deduplicate)) (mset (tag_chunks b fs))) + A = mset tags"
      using tot by (simp add: P zip_snd multiset.map_comp comp_def)
    with L O w'(2) ps todo wr st(2) e show ?thesis by (intro encoder_invI [of _ _ _ A _ _ _ _ ps k]) simp_all
  next
    case (Deduplicator t)
    with sort obtain c where c: "p = Fine c" by (auto simp: Let_def)
    obtain B where B: "encoder_spread n s = add_mset (Made In_deduplicate, c) B"
      using head_spread [OF u p] by (auto simp: c Deduplicator Let_def)
    note uniq = numbers_unique [OF nums, of "Made In_deduplicate" c B A, folded B, OF tot]
    have U: "unmade (add_mset (Made q, c) B) = unmade B" for q by (auto simp: unmade_def)
    have new: "num c \<notin> unmade B" by (rule unmade_new [OF uniq(1)])
    have pl: "place ps (num c) = In_deduplicate"
      using locatedD(2) [OF loc, of "Made In_deduplicate" c] by (simp add: B)
    obtain dup M where M: "par_Deduplicate ev (num c) (mem ps) = Inr (dup, M)"
      using deduplicate_ready [OF pinv pl healthy(1)] by blast
    then obtain m' where m': "par_Deduplicate ev (num c) (en_memory s) = Inr (dup, m')" "M = fill ds (unmade B) m'"
      using fill_deduplicate [OF new, of ev ds "en_memory s"] locatedD(1) [OF loc]
      by (cases "par_Deduplicate ev (num c) (en_memory s)") (auto simp: B U)
    let ?q = "if dup then In_reorder else In_compress"
    let ?outs = "[(if dup then 1 else 0, Fine c)]"
    have kern: "kernel ev ty u p (en_memory s) = Inr (?outs, m')" by (simp add: c Deduplicator m'(1))
    have "outs_ok (stage_of u) ?outs" by (simp add: Deduplicator Let_def)
    from go [OF kern this] obtain w' B' where w': "work_item ev ty u (en_threads s u) (en_memory s) = (w', m')"
      "struct_ok n sz (?s w' m')"
      "encoder_spread n s = B' + packet_spread (que_place (in_que (stage_of u))) p"
      "encoder_spread n (?s w' m') = B' + outs_spread (stage_of u) ?outs" .
    have "B' = B" using w'(3) B by (simp add: c Deduplicator Let_def)
    then have O: "encoder_spread n (?s w' m') = add_mset (Made ?q, c) B" using w'(4) by (simp add: Deduplicator Let_def)
    have e: "w = w'" "m = m'" using st(1) w'(1) by simp_all
    let ?ps = "ps\<lparr>mem := M, place := (place ps)(num c := ?q)\<rparr>"
    have "located ds (add_mset (Made ?q, c) B) A ?ps m"
      using located_step [of ds In_deduplicate c B A ps "en_memory s" M m ?q] loc m'(2) uniq unfolding B e(2) by blast
    moreover have "par_reachable ev ty ds ?ps" by (rule par_reachable_step [OF ps dedup_one [OF pl M]])
    ultimately show ?thesis
      using tot O w'(2) todo wr st(2) e by (intro encoder_invI [of _ _ _ A _ _ _ _ ?ps k]) (simp_all add: B)
  next
    case (Compressor t)
    with sort obtain c where c: "p = Fine c" by (auto simp: Let_def)
    obtain B where B: "encoder_spread n s = add_mset (Made In_compress, c) B"
      using head_spread [OF u p] by (auto simp: c Compressor Let_def)
    note uniq = numbers_unique [OF nums, of "Made In_compress" c B A, folded B, OF tot]
    have U: "unmade (add_mset (Made q, c) B) = unmade B" for q by (auto simp: unmade_def)
    have new: "num c \<notin> unmade B" by (rule unmade_new [OF uniq(1)])
    have pl: "place ps (num c) = In_compress"
      using locatedD(2) [OF loc, of "Made In_compress" c] by (simp add: B)
    obtain M where M: "par_Compress ev ty (num c) (mem ps) = Inr M"
      using compress_ready [OF pinv pl healthy] by blast
    then obtain m' where m': "par_Compress ev ty (num c) (en_memory s) = Inr m'" "M = fill ds (unmade B) m'"
      using fill_compress [OF new, of ev ty ds "en_memory s"] locatedD(1) [OF loc]
      by (cases "par_Compress ev ty (num c) (en_memory s)") (auto simp: B U)
    let ?outs = "[(0, Fine c)]"
    have kern: "kernel ev ty u p (en_memory s) = Inr (?outs, m')" by (simp add: c Compressor m'(1))
    have "outs_ok (stage_of u) ?outs" by (simp add: Compressor Let_def)
    from go [OF kern this] obtain w' B' where w': "work_item ev ty u (en_threads s u) (en_memory s) = (w', m')"
      "struct_ok n sz (?s w' m')"
      "encoder_spread n s = B' + packet_spread (que_place (in_que (stage_of u))) p"
      "encoder_spread n (?s w' m') = B' + outs_spread (stage_of u) ?outs" .
    have "B' = B" using w'(3) B by (simp add: c Compressor Let_def)
    then have O: "encoder_spread n (?s w' m') = add_mset (Made In_reorder, c) B" using w'(4) by (simp add: Compressor Let_def)
    have e: "w = w'" "m = m'" using st(1) w'(1) by simp_all
    let ?ps = "ps\<lparr>mem := M, place := (place ps)(num c := In_reorder)\<rparr>"
    have "located ds (add_mset (Made In_reorder, c) B) A ?ps m"
      using located_step [of ds In_compress c B A ps "en_memory s" M m In_reorder] loc m'(2) uniq unfolding B e(2) by blast
    moreover have "par_reachable ev ty ds ?ps" by (rule par_reachable_step [OF ps compress_one [OF pl M]])
    ultimately show ?thesis
      using tot O w'(2) todo wr st(2) e by (intro encoder_invI [of _ _ _ A _ _ _ _ ?ps k]) (simp_all add: B)
  qed
qed


section \<open>Every step keeps the invariant\<close>

lemma encoder_inv_same:
  assumes inv: "encoder_inv ev ty n sz ds tags s" and "struct_ok n sz s'" and "encoder_spread n s' = encoder_spread n s"
    and "en_memory s' = en_memory s" and "re_state (en_reorderer s') = re_state (en_reorderer s)"
    and "writing (re_pc (en_reorderer s')) = writing (re_pc (en_reorderer s))"
  shows "encoder_inv ev ty n sz ds tags s'"
  using assms unfolding encoder_inv_def writes_ok_def by metis

lemma stage_step_inv:
  assumes inv: "encoder_inv ev ty n sz ds tags s" and job: "job_ok ev ty ds tags" and u: "u \<in> stage_threads n"
    and step: "stage_thread_step ev ty u (en_threads s u) (en_que s) (en_memory s) = Some (w, Q, m)"
  shows "encoder_inv ev ty n sz ds tags (s\<lparr>en_threads := (en_threads s)(u := w), en_que := Q, en_memory := m\<rparr>)"
proof (cases "st_pc (en_threads s u) = St_work")
  case True
  with stage_work_inv [OF inv job u _ step] show ?thesis by blast
next
  case False
  have ok: "struct_ok n sz s" using inv by (simp add: encoder_inv_def)
  have wok: "stage_ok u (en_que s) (en_threads s u)" and q: "ques_ok sz (en_que s) (stage_ques u)"
    using ok u ques_ok_subset [OF _ stage_ques_subset [OF u]] by (simp_all add: struct_ok_def)
  have ne: "st_pc (en_threads s u) \<noteq> St_ended" using step by (auto simp: stage_thread_step_def Let_def)
  from stage_move_ok [OF wok q False stage_open [OF ok u] step]
  have M: "m = en_memory s" "stage_ok u Q w"
    "queue_move sz (en_que s) Q (stage_ques u) (ended_que u w) (st_spread u (en_threads s u)) (st_spread u w)" by simp_all
  note S = stage_move_struct [OF ok u ne M(2,3), of m]
  show ?thesis using S M(1) by (intro encoder_inv_same [OF inv]) (simp_all add: add.commute)
qed

lemma fragment_step_inv:
  assumes inv: "encoder_inv ev ty n sz ds tags s"
    and step: "fragment_step (nqueues n) (en_fragmenter s) (en_que s) = Some (f, Q)"
  shows "encoder_inv ev ty n sz ds tags (s\<lparr>en_fragmenter := f, en_que := Q\<rparr>)"
proof -
  have ok: "struct_ok n sz s" using inv by (simp add: encoder_inv_def)
  from fragment_move_struct [OF ok step] show ?thesis by (intro encoder_inv_same [OF inv]) simp_all
qed

lemma reorder_plain_inv:
  assumes inv: "encoder_inv ev ty n sz ds tags s" and pl: "re_plain (re_pc (en_reorderer s))"
    and step: "reorder_step (nqueues n) (en_reorderer s) (en_que s) (en_memory s) = Some (re, Q, m)"
  shows "encoder_inv ev ty n sz ds tags (s\<lparr>en_reorderer := re, en_que := Q, en_memory := m\<rparr>)"
proof -
  have ok: "struct_ok n sz s" using inv by (simp add: encoder_inv_def)
  have "Reorder_que ` {..<nqueues n} \<subseteq> encoder_ques n" by (auto simp: encoder_ques_def Let_def)
  then have re: "reorderer_ok (nqueues n) (en_que s) (en_reorderer s)" "ques_ok sz (en_que s) (Reorder_que ` {..<nqueues n})"
    using ok ques_ok_subset by (auto simp: struct_ok_def)
  from reorder_move_ok [OF re pl step] have M: "m = en_memory s" "re_state re = re_state (en_reorderer s)"
    "reorderer_ok (nqueues n) Q re"
    "queue_move sz (en_que s) Q (Reorder_que ` {..<nqueues n}) None (re_spread (en_reorderer s)) (re_spread re)"
    "\<forall>is. re_pc re \<noteq> Re_write is \<and> re_pc re \<noteq> Re_finish is" by simp_all
  note S = reorder_move_struct [OF ok M(3,4), of m]
  have "writing (re_pc re) = []" using M(5) by (cases "re_pc re") simp_all
  moreover have "writing (re_pc (en_reorderer s)) = []" using pl by (cases "re_pc (en_reorderer s)" rule: re_plain.cases) simp_all
  ultimately show ?thesis using S M(1,2) by (intro encoder_inv_same [OF inv]) (simp_all add: add.commute)
qed

text \<open>A chunk arrives.\<close>

lemma reorder_inv_file:
  assumes "reorder_inv tags A st" and "map num tags = [0 ..< N]"
  obtains k where "k \<le> N" "to_file st = [0 ..< k]" "mset (take k tags) \<subseteq># A" "k < N \<Longrightarrow> tags ! k \<notin># A"
proof -
  have len: "length tags = N" using assms(2) by (metis length_map length_upt minus_nat.diff_0)
  obtain k where k: "written tags k st" "arrived tags k A" "k < length tags \<longrightarrow> tags ! k \<notin># A"
    using assms(1) by (auto simp: reorder_inv_def)
  have "to_file st = take k [0 ..< N]" using k(1) assms(2) by (simp add: written_def take_map [symmetric])
  with k len show ?thesis by (intro that [of k]) (auto simp: written_def arrived_def)
qed

lemma reorder_take_inv:
  assumes inv: "encoder_inv ev ty n sz ds tags s" and job: "job_ok ev ty ds tags" and pc: "re_pc (en_reorderer s) = Re_take"
    and step: "reorder_step (nqueues n) (en_reorderer s) (en_que s) (en_memory s) = Some (re, Q, m)"
  shows "encoder_inv ev ty n sz ds tags (s\<lparr>en_reorderer := re, en_que := Q, en_memory := m\<rparr>)"
proof -
  obtain A ps k where ok: "struct_ok n sz s" and tot: "image_mset snd (encoder_spread n s) + A = mset tags"
    and ps: "par_reachable ev ty ds ps" and loc: "located ds (encoder_spread n s) A ps (en_memory s)"
    and todo: "todo ps = [k ..< length ds]" and wr: "writes_ok tags A (en_reorderer s) k"
    using inv by (auto simp: encoder_inv_def)
  have wn: "well_numbered tags" and nums: "map num tags = [0 ..< length ds]" and few: "\<forall>c \<in> set tags. unat (l1num (seq c)) < 2048"
    using job by (simp_all add: job_ok_def)
  let ?re = "en_reorderer s" and ?st = "re_state (en_reorderer s)"
  have re: "reorderer_ok (nqueues n) (en_que s) ?re" using ok by (simp add: struct_ok_def)
  then obtain c rest where c: "rb_contents (re_buf ?re) = Fine c # rest"
    using pc by (cases "rb_contents (re_buf ?re)") (auto simp: reorderer_ok_def)
  have "buf_ok ITEM_PER_FETCH (re_buf ?re)" using re by (simp add: reorderer_ok_def)
  from this c obtain b where b: "ringbuffer_remove (re_buf ?re) = (Some (Fine c), b)" "buf_ok ITEM_PER_FETCH b"
      "rb_contents b = rest" by (rule buf_remove)
  obtain B where B: "encoder_spread n s = add_mset (Made In_reorder, c) B"
    by (simp add: encoder_spread_def re_spread_def c)
  have tot': "image_mset snd B + add_mset c A = mset tags" using tot by (simp add: B)
  have rinv: "reorder_inv tags A ?st" and len: "1024 \<le> length (chunks_per_anchor ?st)" using wr by (simp_all add: writes_ok_def)
  have sub: "add_mset c A \<subseteq># mset tags" unfolding tot' [symmetric] by simp
  then have "c \<in> set tags" using mset_subset_eqD [OF sub, of c] by simp
  then have "unat (l1num (seq c)) < 2 * length (chunks_per_anchor ?st)" using few len by fastforce
  from receive_ok [OF wn rinv sub this] obtain st where st: "reorder_receive True c ?st = Inr st"
    "reorder_inv tags (add_mset c A) st" "length (chunks_per_anchor st) = length (grow_anchors (l1num (seq c)) (chunks_per_anchor ?st))"
    by blast
  let ?w = "drop (length (to_file ?st)) (to_file st)"
  have e: "re = ?re\<lparr>re_buf := b, re_state := st, re_pc := Re_write ?w\<rparr>" "Q = en_que s" "m = en_memory s"
    using step pc b(1) st(1) by (auto simp: reorder_step_def take_chunk_def)
  obtain i where i: "i \<le> length ds" "to_file ?st = [0 ..< i]" "mset (take i tags) \<subseteq># A"
    using reorder_inv_file [OF rinv nums] by metis
  obtain j where j: "j \<le> length ds" "to_file st = [0 ..< j]" "j < length ds \<Longrightarrow> tags ! j \<notin># add_mset c A"
    using reorder_inv_file [OF st(2) nums] by metis
  have "length tags = length ds" using nums by (metis length_map length_upt minus_nat.diff_0)
  have "i \<le> j"
  proof (rule ccontr)
    assume "\<not> i \<le> j"
    then have "j < length (take i tags)" "j < length ds" using i(1) \<open>length tags = length ds\<close> by auto
    then have "take i tags ! j \<in> set (take i tags)" by (intro nth_mem)
    then have "tags ! j \<in># A" using mset_subset_eqD [OF i(3)] \<open>\<not> i \<le> j\<close> by simp
    with j(3) \<open>j < length ds\<close> show False by simp
  qed
  have "k \<le> i" "[k ..< i] = []" using wr pc i(2) by (simp_all add: writes_ok_def)
  then have k: "k = i" by (auto simp only: upt_eq_Nil_conv)
  have "writes_ok tags (add_mset c A) re k"
    using st(2,3) len i(2) j(2) \<open>i \<le> j\<close> k by (simp add: writes_ok_def e(1) grow_anchors_def drop_upt)
  moreover have "located ds B (add_mset c A) ps m"
  proof (rule locatedI)
    have "unmade (encoder_spread n s) = unmade B" by (auto simp: B unmade_def)
    then show "mem ps = fill ds (unmade B) m" using locatedD(1) [OF loc] e(3) by simp
    show "place ps (num d) \<in> {In_reorder, Gone}" if "d \<in># add_mset c A" for d
      using that locatedD(4) [OF loc, of d] locatedD(2) [OF loc, of "Made In_reorder" c] by (auto simp: B)
  qed (use locatedD(2,3) [OF loc] in \<open>simp_all add: B\<close>)
  moreover have "queue_move sz (en_que s) (en_que s) (Reorder_que ` {..<nqueues n}) None {#} {#}"
  proof -
    have "Reorder_que (re_qid ?re) \<in> Reorder_que ` {..<nqueues n}" using re by (simp add: reorderer_ok_def)
    moreover have "ques_ok sz (en_que s) (Reorder_que ` {..<nqueues n})"
      using ok by (auto simp: struct_ok_def ques_ok_def encoder_ques_def Let_def)
    ultimately show ?thesis by (intro queue_move_none)
  qed
  moreover have "reorderer_ok (nqueues n) (en_que s) re"
    using re b c by (simp add: reorderer_ok_def e(1))
  ultimately show ?thesis
    using reorder_move_struct [OF ok, of "en_que s" re "{#}" "{#}" m] tot' ps todo
    by (intro encoder_invI [of _ _ _ "add_mset c A" _ _ _ _ ps k]) (simp_all add: e B re_spread_def c b)
qed


text \<open>A chunk is written.\<close>

lemma write_head:
  assumes inv: "encoder_inv ev ty n sz ds tags s" and job: "job_ok ev ty ds tags"
    and wr: "writing (re_pc (en_reorderer s)) = i # ks"
  obtains A ps f where "image_mset snd (encoder_spread n s) + A = mset tags" "par_reachable ev ty ds ps"
    "located ds (encoder_spread n s) A ps (en_memory s)" "todo ps = [i ..< length ds]" "writes_ok tags A (en_reorderer s) i"
    "i < length ds" "par_inv ev ty ds f i ps" "place ps i = In_reorder"
    "\<forall>sp c. (sp, c) \<in># encoder_spread n s \<longrightarrow> num c \<noteq> i"
    "par_write_chunk_to_file i (mem ps) =
       map_option (fill ds (unmade (encoder_spread n s))) (par_write_chunk_to_file i (en_memory s))"
proof -
  obtain A ps k where ok: "struct_ok n sz s" and tot: "image_mset snd (encoder_spread n s) + A = mset tags"
    and ps: "par_reachable ev ty ds ps" and loc: "located ds (encoder_spread n s) A ps (en_memory s)"
    and todo: "todo ps = [k ..< length ds]" and wok: "writes_ok tags A (en_reorderer s) k"
    using inv by (auto simp: encoder_inv_def)
  have nums: "map num tags = [0 ..< length ds]" using job by (simp add: job_ok_def)
  then have len: "length tags = length ds" by (metis length_map length_upt minus_nat.diff_0)
  let ?st = "re_state (en_reorderer s)" and ?X = "encoder_spread n s"
  obtain L where L: "L \<le> length ds" "to_file ?st = [0 ..< L]" "mset (take L tags) \<subseteq># A"
    using reorder_inv_file [of tags A ?st "length ds"] wok nums by (metis writes_ok_def)
  have "i # ks = [k ..< L]" using wok wr L(2) by (simp add: writes_ok_def)
  then have k: "k = i" "i < L" by (cases "k < L"; simp add: upt_conv_Cons)+
  then have kN: "i < length ds" using L(1) by simp
  have "tags ! i \<in> set (take L tags)" using k(2) L(1) len by (metis in_set_conv_nth length_take min.absorb2 nth_take)
  then have A: "tags ! i \<in># A" using mset_subset_eqD [OF L(3)] by simp
  have num: "num (tags ! i) = i" using nums kN len by (metis add_0 nth_map nth_upt)
  have other: "num c \<noteq> i" if X: "(sp, c) \<in># ?X" for sp c
  proof -
    obtain Y where Y: "?X = add_mset (sp, c) Y" using multi_member_split [OF X] by blast
    from numbers_unique(2) [OF nums tot [unfolded Y] A] num show ?thesis by simp
  qed
  obtain f k' where pinv: "par_inv ev ty ds f k' ps" using job_par_inv [OF job ps] .
  have "k' \<le> length ds" "[k' ..< length ds] = [i ..< length ds]" using par_invD(2,3) [OF pinv] todo k by simp_all
  then have "k' = i" using kN by (metis upt_eq_Cons_conv upt_rec)
  with pinv have pinv: "par_inv ev ty ds f i ps" by simp
  then have "place ps i \<noteq> Gone" using par_invD(5) [OF pinv, of i] kN by simp
  then have pl: "place ps i = In_reorder" using locatedD(4) [OF loc A] num by simp
  have new: "i \<notin> unmade ?X" by (rule unmade_new [OF other])
  have chunk: "chunk (mem ps) i = chunk (en_memory s) i" using locatedD(1) [OF loc] new by simp
  have "compressed_data_ref (chunk (en_memory s) i) \<notin> unmade ?X" if "isDuplicate (chunk (en_memory s) i)"
  proof
    assume "compressed_data_ref (chunk (en_memory s) i) \<in> unmade ?X"
    then obtain d c where c: "(Unmade d, c) \<in># ?X" "num c = compressed_data_ref (chunk (en_memory s) i)"
      by (auto simp: unmade_def)
    from original_placed(1) [OF pinv pl] that locatedD(2) [OF loc c(1)] c(2) show False by (simp add: chunk)
  qed
  from fill_write [OF new this, of ds] locatedD(1) [OF loc] have
    "par_write_chunk_to_file i (mem ps) = map_option (fill ds (unmade ?X)) (par_write_chunk_to_file i (en_memory s))" by simp
  from that [OF tot ps loc _ _ kN pinv pl _ this] todo wok k(1) other show ?thesis by blast
qed

lemma reorder_write_inv:
  assumes inv: "encoder_inv ev ty n sz ds tags s" and job: "job_ok ev ty ds tags"
    and wr: "writing (re_pc (en_reorderer s)) = i # ks" and m: "par_write_chunk_to_file i (en_memory s) = Some m"
    and re: "reorderer_ok (nqueues n) (en_que s) ((en_reorderer s)\<lparr>re_pc := pc\<rparr>)" and pc: "writing pc = ks"
  shows "encoder_inv ev ty n sz ds tags
    (s\<lparr>en_reorderer := (en_reorderer s)\<lparr>re_pc := pc\<rparr>, en_que := en_que s, en_memory := m\<rparr>)" (is "encoder_inv ev ty n sz ds tags ?s")
proof -
  let ?st = "re_state (en_reorderer s)" and ?X = "encoder_spread n s"
  obtain A ps f where tot: "image_mset snd ?X + A = mset tags" and ps: "par_reachable ev ty ds ps"
    and loc: "located ds ?X A ps (en_memory s)" and todo: "todo ps = [i ..< length ds]"
    and wok: "writes_ok tags A (en_reorderer s) i" and iN: "i < length ds" and pinv: "par_inv ev ty ds f i ps"
    and pl: "place ps i = In_reorder" and other: "\<forall>sp c. (sp, c) \<in># ?X \<longrightarrow> num c \<noteq> i"
    and w: "par_write_chunk_to_file i (mem ps) = map_option (fill ds (unmade ?X)) (par_write_chunk_to_file i (en_memory s))"
    using write_head [OF inv job wr] .
  have ok: "struct_ok n sz s" using inv by (simp add: encoder_inv_def)
  have w: "par_write_chunk_to_file i (mem ps) = Some (fill ds (unmade ?X) m)" using w m by simp
  have "i # ks = [i ..< length (to_file ?st)]" using wok wr by (simp add: writes_ok_def)
  then have ks: "i < length (to_file ?st)" "ks = [Suc i ..< length (to_file ?st)]"
    by (cases "i < length (to_file ?st)"; simp add: upt_conv_Cons)+
  let ?ps = "ps\<lparr>mem := fill ds (unmade ?X) m, place := (place ps)(i := Gone), todo := [Suc i ..< length ds]\<rparr>"
  have "par_step ev ty ps ?ps" using todo iN pl w by (intro write_one) (simp_all add: upt_conv_Cons)
  then have reach: "par_reachable ev ty ds ?ps" by (rule par_reachable_step [OF ps])
  have "Reorder_que (re_qid (en_reorderer s)) \<in> Reorder_que ` {..<nqueues n}" using re by (simp add: reorderer_ok_def)
  moreover have "ques_ok sz (en_que s) (Reorder_que ` {..<nqueues n})"
    using ok by (auto simp: struct_ok_def ques_ok_def encoder_ques_def Let_def)
  ultimately have mv: "queue_move sz (en_que s) (en_que s) (Reorder_que ` {..<nqueues n}) None {#} {#}"
    by (intro queue_move_none)
  note S = reorder_move_struct [OF ok re mv, of m]
  have X: "encoder_spread n ?s = ?X" using S(2) by (simp add: re_spread_def)
  have "located ds ?X A ?ps m"
  proof (rule locatedI)
    show "place ?ps (num c) = spot_place sp" if "(sp, c) \<in># ?X" for sp c
      using locatedD(2) [OF loc that] other that by auto
    show "place ?ps (num c) \<in> {In_reorder, Gone}" if "c \<in># A" for c using locatedD(4) [OF loc that] by simp
    show "ds ! num c = d" if "(Unmade d, c) \<in># ?X" for d c by (rule locatedD(3) [OF loc that])
  qed simp
  with S(1) X tot reach wok ks pc show ?thesis
    by (intro encoder_invI [of _ _ _ A _ _ _ _ ?ps "Suc i"]) (simp_all add: writes_ok_def)
qed

text \<open>All chunks have arrived: nothing is left in the cache.\<close>

lemma flush_nothing:
  assumes "encoder_inv ev ty n sz ds tags s" and "job_ok ev ty ds tags" and "encoder_spread n s = {#}"
  defines "st \<equiv> re_state (en_reorderer s)"
  shows "flush_loop (tree_chunks (cached st)) (Retrieve (TreeFindMin Null (cached st))) st = Inr st"
    and "to_file st = [0 ..< length ds]"
proof -
  obtain A where "A = mset tags" "reorder_inv tags A st"
    using assms by (auto simp: encoder_inv_def writes_ok_def)
  then obtain k where k: "written tags k st" "tree_ok (cached st) (mset tags - mset (take k tags))"
    "k < length tags \<longrightarrow> tags ! k \<notin># mset tags" by (auto simp: reorder_inv_def)
  then have "k = length tags" by (auto simp: written_def)
  with k tree_ok_empty [OF k(2)] have r: "Retrieve (TreeFindMin Null (cached st)) = None" by simp
  then show "flush_loop (tree_chunks (cached st)) (Retrieve (TreeFindMin Null (cached st))) st = Inr st" by simp
  have "map num tags = [0 ..< length ds]" using assms(2) by (simp add: job_ok_def)
  with k(1) \<open>k = length tags\<close> show "to_file st = [0 ..< length ds]" by (simp add: written_def)
qed

lemma encoder_step_inv:
  assumes step: "encoder_step ev ty n s s'" and inv: "encoder_inv ev ty n sz ds tags s" and job: "job_ok ev ty ds tags"
  shows "encoder_inv ev ty n sz ds tags s'"
  using step
proof (cases rule: encoder_step.cases)
  case (stage_moves u w Q m)
  with stage_step_inv [OF inv job] show ?thesis by simp
next
  case (fragment_moves f Q)
  with fragment_step_inv [OF inv] show ?thesis by simp
next
  case (reorder_moves re Q m)
  let ?re = "en_reorderer s"
  have ok: "struct_ok n sz s" using inv by (simp add: encoder_inv_def)
  then have rok: "reorderer_ok (nqueues n) (en_que s) ?re" by (simp add: struct_ok_def)
  show ?thesis
  proof (cases "re_pc ?re" rule: re_plain.cases)
    case 1
    with reorder_take_inv [OF inv job _ reorder_moves(2)] reorder_moves(1) show ?thesis by simp
  next
    case 2
    have "encoder_spread n s = {#}"
      using nothing_left [OF ok] rok 2 by (simp add: reorderer_ok_def)
    from flush_nothing [OF inv job this] reorder_moves(2) 2
    have e: "re = ?re\<lparr>re_state := re_state ?re, re_pc := Re_finish []\<rparr>" "Q = en_que s" "m = en_memory s"
      by (auto simp: reorder_step_def flush_cache_def Let_def)
    have re: "reorderer_ok (nqueues n) (en_que s) re" using rok 2 by (simp add: reorderer_ok_def e(1))
    have "Reorder_que (re_qid ?re) \<in> Reorder_que ` {..<nqueues n}" using rok by (simp add: reorderer_ok_def)
    moreover have "ques_ok sz (en_que s) (Reorder_que ` {..<nqueues n})"
      using ok by (auto simp: struct_ok_def ques_ok_def encoder_ques_def Let_def)
    ultimately have "queue_move sz (en_que s) (en_que s) (Reorder_que ` {..<nqueues n}) None {#} {#}"
      by (intro queue_move_none)
    from reorder_move_struct [OF ok re this, of m] show ?thesis
      using 2 reorder_moves(1) by (intro encoder_inv_same [OF inv]) (simp_all add: e re_spread_def)
  next
    case (3 i ks)
    with reorder_moves(2) obtain m' where m: "par_write_chunk_to_file i (en_memory s) = Some m'"
      "re = ?re\<lparr>re_pc := Re_write ks\<rparr>" "Q = en_que s" "m = m'" by (auto simp: reorder_step_def)
    have "reorderer_ok (nqueues n) (en_que s) (?re\<lparr>re_pc := Re_write ks\<rparr>)" using rok by (simp add: reorderer_ok_def 3)
    from reorder_write_inv [OF inv job _ m(1) this] 3 m reorder_moves(1) show ?thesis by simp
  next
    case (4 i ks)
    with reorder_moves(2) obtain m' where m: "par_write_chunk_to_file i (en_memory s) = Some m'"
      "re = ?re\<lparr>re_pc := Re_finish ks\<rparr>" "Q = en_que s" "m = m'" by (auto simp: reorder_step_def)
    have "reorderer_ok (nqueues n) (en_que s) (?re\<lparr>re_pc := Re_finish ks\<rparr>)" using rok by (simp add: reorderer_ok_def 4)
    from reorder_write_inv [OF inv job _ m(1) this] 4 m reorder_moves(1) show ?thesis by simp
  qed (use reorder_plain_inv [OF inv _ reorder_moves(2)] reorder_moves(1) in simp_all)
qed

end
