(* ===== verification/Dedup_Fragment_Bounds.thy ===== *)
theory Dedup_Fragment_Bounds
  imports Dedup_Fragment
begin

text \<open>
  The fragmentation stages on inputs below two gigabytes: they return, every coarse chunk but the last has at
  least \<open>ANCHOR_JUMP\<close> bytes, and the sequence numbers stay small.
\<close>

lemma rabin_scan_le: "rabin_scan p n T W i h \<le> n"
proof (induction p n T W i h rule: rabin_scan.induct)
  case (1 p n T W i h)
  show ?case
  proof (cases "i < n")
    case True
    with 1 show ?thesis by (subst rabin_scan.simps) (auto simp: Let_def)
  next
    case False
    then show ?thesis by (subst rabin_scan.simps) simp
  qed
qed

lemma rabinseg_le: "rabinseg p (int n) 0 T W \<le> int n"
  using rabin_scan_le by (auto simp: rabinseg_def Let_def)

section \<open>The loops return\<close>

lemma anchor_loop_returns:
  "length (coarse_data chunk) < 2 ^ 31 \<Longrightarrow>
     \<exists>rest cnt' sent. anchor_loop T W aj chunk cnt = Inr (rest, cnt', sent) \<and>
       length (coarse_data rest) \<le> length (coarse_data chunk) \<and> (\<forall>c \<in> set sent. aj \<le> length (coarse_data c))"
proof (induction "length (coarse_data chunk)" arbitrary: chunk cnt rule: less_induct)
  case less
  let ?data = "coarse_data chunk"
  let ?o = "rabinseg (drop aj ?data) (c_int (length ?data - aj)) 0 T W"
  show ?case
  proof (cases "aj < length ?data")
    case True
    then have "0 < length ?data - aj" "length ?data - aj < 2 ^ 31" using less.prems by auto
    then have o: "0 < ?o" "?o \<le> int (length ?data - aj)"
      using rabinseg_positive rabinseg_le c_int_small by (metis of_nat_0_less_iff, metis)
    show ?thesis
    proof (cases "nat (?o + int aj) < length ?data")
      case split: True
      let ?c = "\<lparr>coarse_l1num = cnt, coarse_data = drop (nat (?o + int aj)) ?data\<rparr>"
      have "length (coarse_data ?c) < length ?data" using o True by simp
      from less.hyps [OF this] less.prems obtain rest cnt' sent where
        r: "anchor_loop T W aj ?c (cnt + 1) = Inr (rest, cnt', sent)" "length (coarse_data rest) \<le> length (coarse_data ?c)"
          "\<forall>c \<in> set sent. aj \<le> length (coarse_data c)" by fastforce
      have "anchor_loop T W aj chunk cnt =
          Inr (rest, cnt', chunk\<lparr>coarse_data := take (nat (?o + int aj)) ?data\<rparr> # sent)"
        using True split o r(1) less.prems by (simp add: anchor_loop.simps [of T W aj chunk] Let_def)
      moreover have "aj \<le> length (take (nat (?o + int aj)) ?data)" using o True by simp
      moreover have "length (coarse_data rest) \<le> length ?data" using r(2) by simp
      ultimately show ?thesis using r(3) by auto
    next
      case False
      with True o less.prems show ?thesis by (simp add: anchor_loop.simps [of T W aj chunk] Let_def)
    qed
  next
    case False
    then show ?thesis by (simp add: anchor_loop.simps [of T W aj chunk] Let_def)
  qed
qed

definition left_bytes :: "coarse_chunk option \<Rightarrow> nat" where
  "left_bytes temp = (case temp of None \<Rightarrow> 0 | Some t \<Rightarrow> length (coarse_data t))"

lemma fragment_loop_returns:
  assumes "healthy ev ty" and "maxbuf < 2 ^ 32"
  shows "reads_succeed src \<Longrightarrow> left_bytes temp + source_size src < 2 ^ 31 \<Longrightarrow>
     \<exists>cs. fragment_loop ev T W maxbuf aj temp src cnt = Inr cs \<and> (\<forall>c \<in> set (butlast cs). aj \<le> length (coarse_data c))"
proof (induction "source_size src" arbitrary: temp src cnt rule: less_induct)
  case less
  let ?left = "case temp of None \<Rightarrow> [] | Some t \<Rightarrow> coarse_data t"
  have left: "length ?left = left_bytes temp" by (simp add: left_bytes_def split: option.split)
  obtain new src' where b: "read_block maxbuf src = Inr (new, src')" "reads_succeed src'"
    using read_block_returns [OF less.prems(1)] by blast
  have size: "source_size src = length new + source_size src'" by (rule read_block_size [OF b(1)])
  have ok: "\<not> maxbuf + length ?left > SSIZE_MAX" "can_alloc ev (maxbuf + length ?left)"
    using less.prems(2) assms by (simp_all add: left SSIZE_MAX_def healthy_def)
  let ?l1 = "if length ?left > 0 then coarse_l1num (the temp) else cnt"
  let ?cnt = "if length ?left > 0 then cnt else cnt + 1"
  let ?chunk = "\<lparr>coarse_l1num = ?l1, coarse_data = ?left @ new\<rparr>"
  have eq: "fragment_loop ev T W maxbuf aj temp src cnt =
      (if length ?left + length new = 0 then Inr []
       else if length new = 0 then Inr [?chunk]
       else (case anchor_loop T W aj ?chunk ?cnt of
           Inl e \<Rightarrow> Inl e
         | Inr (rest, cnt', sent) \<Rightarrow>
             map_sum id (\<lambda>more_sent. sent @ more_sent) (fragment_loop ev T W maxbuf aj (Some rest) src' cnt')))"
    using ok b(1) by (subst fragment_loop.simps) (simp only: Let_def if_False if_True not_True_eq_False sum.case prod.case)
  show ?case
  proof (cases "new = []")
    case True
    then show ?thesis unfolding eq by simp
  next
    case False
    have "length (coarse_data ?chunk) < 2 ^ 31" using less.prems(2) size left by simp
    from anchor_loop_returns [OF this] obtain rest cnt' sent where
      a: "anchor_loop T W aj ?chunk ?cnt = Inr (rest, cnt', sent)" "length (coarse_data rest) \<le> length (coarse_data ?chunk)"
        "\<forall>c \<in> set sent. aj \<le> length (coarse_data c)" by blast
    have "source_size src' < source_size src" using size False by simp
    moreover have "left_bytes (Some rest) + source_size src' < 2 ^ 31"
      using a(2) less.prems(2) size left by (simp add: left_bytes_def)
    ultimately obtain ms where ms: "fragment_loop ev T W maxbuf aj (Some rest) src' cnt' = Inr ms"
      "\<forall>c \<in> set (butlast ms). aj \<le> length (coarse_data c)" using less.hyps b(2) by blast
    have "\<forall>c \<in> set (butlast (sent @ ms)). aj \<le> length (coarse_data c)"
      using a(3) ms(2) by (auto simp: butlast_append dest: in_set_butlastD)
    with a(1) ms(1) False show ?thesis unfolding eq by simp
  qed
qed

lemma refine_loop_returns:
  "length data < 2 ^ 31 \<Longrightarrow> \<exists>fs. refine_loop T W l1 k data = Inr fs \<and> (\<forall>f \<in> set fs. l1num (fine_seq f) = l1)"
proof (induction "length data" arbitrary: k data rule: less_induct)
  case less
  let ?o = "rabinseg data (c_int (length data)) 0 T W"
  show ?case
  proof (cases "0 \<le> ?o \<and> nat ?o < length data")
    case True
    then have "0 < ?o" using less.prems by (intro rabinseg_positive) (auto simp: c_int_small)
    with True have "length (drop (nat ?o) data) < length data" by simp
    from less.hyps [OF this] less.prems obtain gs where
      "refine_loop T W l1 (k + 1) (drop (nat ?o) data) = Inr gs" "\<forall>f \<in> set gs. l1num (fine_seq f) = l1"
      by fastforce
    with True \<open>0 < ?o\<close> show ?thesis by (auto simp: refine_loop.simps [of T W l1 k data] Let_def)
  next
    case False
    then show ?thesis by (auto simp: refine_loop.simps [of T W l1 k data] Let_def)
  qed
qed

lemma refine_all_returns:
  assumes "length (concat (map coarse_data cs)) < 2 ^ 31" and "coarse_numbered k cs"
  shows "\<exists>fs. refine_all cs = Inr fs \<and> (\<forall>f \<in> set fs. \<exists>i < length cs. l1num (fine_seq f) = k + of_nat i)"
  using assms
proof (induction cs arbitrary: k)
  case (Cons c cs)
  obtain T W where tab: "rabininit 0 (replicate 256 0) (replicate 256 0) = (T, W)" by fastforce
  obtain es where es: "refine_loop T W (coarse_l1num c) 0 (coarse_data c) = Inr es"
      "\<forall>f \<in> set es. l1num (fine_seq f) = coarse_l1num c"
    using refine_loop_returns [of "coarse_data c"] Cons.prems(1) by fastforce
  obtain gs where gs: "refine_all cs = Inr gs" "\<forall>f \<in> set gs. \<exists>i < length cs. l1num (fine_seq f) = k + 1 + of_nat i"
    using Cons.IH [of "k + 1"] Cons.prems by auto
  have "\<exists>i < length (c # cs). l1num (fine_seq f) = k + of_nat i" if "f \<in> set (es @ gs)" for f
  proof (cases "f \<in> set es")
    case True
    with es(2) Cons.prems(2) show ?thesis by (intro exI [of _ 0]) simp
  next
    case False
    with gs(2) that obtain i where "i < length cs" "l1num (fine_seq f) = k + 1 + of_nat i" by auto
    then show ?thesis by (intro exI [of _ "Suc i"]) (simp add: algebra_simps)
  qed
  with es(1) gs(1) tab show ?case by auto
qed simp

section \<open>The numbers are small\<close>

lemma unat_Suc_le: "unat (w + 1) \<le> unat w + 1" for w :: "'a :: len word"
  by (simp add: unat_word_ariths(1))

lemma numbered_l2: "numbered s fs \<Longrightarrow> f \<in> set fs \<Longrightarrow> unat (l2num (fine_seq f)) < unat (l2num s) + length fs"
proof (induction fs arbitrary: s)
  case (Cons g fs)
  have "unat (l2num (next_seq g)) \<le> unat (l2num s) + 1"
    using Cons.prems(1) unat_Suc_le [of "l2num s"] by (simp add: next_seq_def sequence_inc_l1_def sequence_inc_l2_def)
  with Cons show ?case by fastforce
qed simp

lemma length_nonempty: "[] \<notin> set xss \<Longrightarrow> length xss \<le> length (concat xss)"
proof (induction xss)
  case (Cons xs xss)
  then show ?case by (cases xs) simp_all
qed simp

lemma big_chunks:
  assumes "\<forall>c \<in> set cs. aj \<le> length (coarse_data c)"
  shows "length cs * aj \<le> length (concat (map coarse_data cs))"
  using assms by (induction cs) auto

lemma fragment_small:
  assumes "healthy ev ty" and "reads_succeed src" and "source_ok src" and "length (source_bytes src) < 2 ^ 31"
  obtains cs fs where "Fragment ev src = Inr cs" "refine_all cs = Inr fs" "length cs \<le> 1024"
    "length fs < 2 ^ 31" "\<And>f. f \<in> set fs \<Longrightarrow> unat (l1num (fine_seq f)) < 1024"
    "\<And>f. f \<in> set fs \<Longrightarrow> unat (l2num (fine_seq f)) < 2 ^ 31"
proof -
  obtain T W where tab: "rabininit 0 (replicate 256 0) (replicate 256 0) = (T, W)" by fastforce
  have "left_bytes None + source_size src < 2 ^ 31" using assms(4) by (simp add: left_bytes_def source_size_bytes)
  from fragment_loop_returns [OF assms(1) _ assms(2) this, of MAXBUF T W ANCHOR_JUMP 0] obtain cs where
    f: "fragment_loop ev T W MAXBUF ANCHOR_JUMP None src 0 = Inr cs" "\<forall>c \<in> set (butlast cs). ANCHOR_JUMP \<le> length (coarse_data c)"
    by (auto simp: MAXBUF_def)
  from fragment_loop_numbered [OF f(1) assms(3)]
  have n: "coarse_numbered 0 cs" "concat (map coarse_data cs) = source_bytes src"
    by (simp_all add: MAXBUF_def left_numbered_def)
  then obtain fs where fs: "refine_all cs = Inr fs" "\<forall>f \<in> set fs. \<exists>i < length cs. l1num (fine_seq f) = of_nat i"
    using refine_all_returns [of cs 0] assms(4) by auto
  have "length (butlast cs) * ANCHOR_JUMP \<le> length (concat (map coarse_data (butlast cs)))" by (rule big_chunks [OF f(2)])
  also have "\<dots> \<le> length (concat (map coarse_data cs))"
    by (cases cs rule: rev_cases) simp_all
  finally have "length (butlast cs) * ANCHOR_JUMP < 2 ^ 31" using n(2) assms(4) by simp
  then have len: "length cs \<le> 1024" by (simp add: ANCHOR_JUMP_def)
  from refine_all_numbered [OF fs(1) n(1)]
  have num: "numbered (Sequence 0 0) fs" "concat (map fine_data fs) = source_bytes src" "[] \<notin> set (map fine_data fs)"
    using n(2) by simp_all
  have lenf: "length fs < 2 ^ 31" using length_nonempty [OF num(3)] num(2) assms(4) by simp
  have "unat (l1num (fine_seq f)) < 1024" if mem: "f \<in> set fs" for f
  proof -
    obtain i where "i < length cs" "l1num (fine_seq f) = of_nat i" using fs(2) mem by blast
    moreover have "i mod 2 ^ 32 \<le> i" by (rule mod_less_eq_dividend)
    ultimately show ?thesis using len by (simp add: unat_of_nat)
  qed
  moreover have "unat (l2num (fine_seq f)) < 2 ^ 31" if "f \<in> set fs" for f
    using numbered_l2 [OF num(1) that] lenf by simp
  moreover have "Fragment ev src = Inr cs" using f(1) tab by (simp add: Fragment_def)
  ultimately show ?thesis using that fs(1) len lenf by blast
qed

end
