(* ===== verification/Dedup_Stages_Result.thy ===== *)
theory Dedup_Stages_Result
  imports Dedup_Stages_Correct Dedup_Fragment_Bounds
begin

text \<open>
  The parallel encoder from its start: what \<open>Encode\<close> sets up satisfies the invariant, so no thread ever fails
  an assertion, and when the last thread has ended the archive decodes to the input.
\<close>

section \<open>The start\<close>

lemma new_ringbuffer_ok:
  assumes "sz + 1 < 2 ^ 31"
  shows "buf_ok sz (new_ringbuffer sz)" and "rb_contents (new_ringbuffer sz) = []"
proof -
  have sz: "unat (of_nat sz :: size_t) = sz" using assms by (simp add: unat_of_nat)
  then have u: "uint (of_nat sz :: size_t) = int sz" by (simp add: uint_nat)
  have "(of_nat sz :: size_t) + 1 = of_nat (sz + 1)" by simp
  then have "unat ((of_nat sz :: size_t) + 1) = (sz + 1) mod 2 ^ 64" by (simp only: unat_of_nat) simp
  also have "\<dots> = sz + 1" using assms by simp
  finally have "unat ((of_nat sz :: size_t) + 1) = sz + 1" .
  then have "length (replicate (sz + 1) (None :: packet option)) = unat ((of_nat sz :: size_t) + 1)" by simp
  moreover have "uint (of_nat sz :: size_t) + 1 < 2 ^ 31" using assms by (simp add: u)
  ultimately obtain b where b: "ringbuffer_init (Some (replicate (sz + 1) (None :: packet option))) (of_nat sz)
      \<lparr>rhead = 0, rtail = 0, rdata = [], rsize = 0\<rparr> = (False, b)" "rb_wf b" "rb_list b = []" "rb_room b = sz"
    using rb_init [of "replicate (sz + 1) (None :: packet option)" "of_nat sz"] unfolding sz by blast
  then have "new_ringbuffer sz = b" by (simp add: new_ringbuffer_def)
  with b have "rb_wf (new_ringbuffer sz)" "rb_list (new_ringbuffer sz) = []" "rb_room (new_ringbuffer sz) = sz" by simp_all
  then show "buf_ok sz (new_ringbuffer sz)" "rb_contents (new_ringbuffer sz) = []"
    by (simp_all add: buf_ok_def rb_contents_def rb_room_eq)
qed

lemma new_queue_ok:
  assumes "sz + 1 < 2 ^ 31"
  shows "que_ok sz (new_queue sz p)" and "rb_contents (buf (new_queue sz p)) = []"
    and "nProducers (new_queue sz p) = int p" and "nTerminated (new_queue sz p) = 0"
proof -
  have "new_queue sz p = \<lparr>buf = new_ringbuffer sz, nProducers = int p, nTerminated = 0, raised = []\<rparr>"
    by (simp add: new_queue_def new_ringbuffer_def queue_init_def ringbuffer_init_def)
  with new_ringbuffer_ok [OF assms] show "que_ok sz (new_queue sz p)" "rb_contents (buf (new_queue sz p)) = []"
    "nProducers (new_queue sz p) = int p" "nTerminated (new_queue sz p) = 0"
    by (simp_all add: que_ok_def)
qed

text \<open>A group has as many threads as its queues expect producers.\<close>

lemma group_size:
  assumes "g < nqueues n"
  shows "card {t \<in> {..<n}. t div MAX_THREADS_PER_QUEUE = g} = threads_per_queue n g"
proof -
  have "{t \<in> {..<n}. t div MAX_THREADS_PER_QUEUE = g} = {4 * g ..< min n (4 * g + 4)}"
    by (auto simp: MAX_THREADS_PER_QUEUE_def)
  moreover have "min n (4 * g + 4) - 4 * g = threads_per_queue n g"
  proof -
    obtain d r where n: "n = 4 * d + r" "r < 4" by (metis mod_less_divisor mult.commute mult_div_mod_eq zero_less_numeral)
    then have "n div 4 = d" "n mod 4 = r" by simp_all
    with assms n show ?thesis
      by (cases "g < d") (auto simp: nqueues_def threads_per_queue_def MAX_THREADS_PER_QUEUE_def min_def split: if_splits)
  qed
  ultimately show ?thesis by simp
qed

lemma group_threads:
  "holding n new_thread (Deduplicate_que g) = Refiner ` {t \<in> {..<n}. t div MAX_THREADS_PER_QUEUE = g}"
  "holding n new_thread (Compress_que g) = Deduplicator ` {t \<in> {..<n}. t div MAX_THREADS_PER_QUEUE = g}"
  "holding n new_thread (Reorder_que g) = Compressor ` {t \<in> {..<n}. t div MAX_THREADS_PER_QUEUE = g}"
  by (auto simp: holding_def stage_threads_def new_thread_def Let_def)

lemma start_holders:
  assumes "q \<in> encoder_ques n" and "sz + 1 < 2 ^ 31"
  shows "nProducers (encode_queues n sz q) = int (holders n (encode_threads n sz cs m) q)"
proof -
  have c: "card (C ` {t \<in> {..<n}. t div MAX_THREADS_PER_QUEUE = g}) = threads_per_queue n g"
    if "g < nqueues n" "inj C" for C :: "nat \<Rightarrow> stage_thread" and g
    using group_size [OF that(1)] card_image [of C] that(2) by (metis inj_on_subset subset_UNIV)
  have "inj Refiner" "inj Deduplicator" "inj Compressor" by (simp_all add: inj_def)
  with assms c show ?thesis
    by (cases q) (auto simp: encoder_ques_def Let_def new_queue_ok encode_threads_def group_threads)
qed

lemma start_sorts: "refine_all cs = Inr fs \<Longrightarrow> sorts_ok (Refine_que 0) (tag_coarse k cs)"
proof (induction cs arbitrary: k fs)
  case (Cons c cs)
  then show ?case
    by (cases "refine_one c"; cases "refine_all cs") (auto simp: refine_all_Cons simp del: refine_all.simps)
qed simp

lemma start_threads: "stage_ok u Q (new_thread u)"
proof -
  have "sz \<in> {fetch_limit (stage_of u), insert_limit (stage_of u)} \<Longrightarrow> sz + 1 < 2 ^ 31" for sz
    by (cases u) (auto simp: Let_def MAX_PER_FETCH_def CHUNK_ANCHOR_PER_FETCH_def ITEM_PER_FETCH_def
        CHUNK_ANCHOR_PER_INSERT_def ITEM_PER_INSERT_def)
  then show ?thesis
    using new_ringbuffer_ok stage_limits(2) [of u]
    by (auto simp: stage_ok_def bufs_ok_def room_def new_thread_def Let_def)
qed

lemma start_struct:
  assumes "0 < n" and "sz + 1 < 2 ^ 31" and "refine_all cs = Inr fs"
  shows "struct_ok n sz (encode_threads n sz cs m)"
proof -
  let ?s = "encode_threads n sz cs m"
  have Q: "que_ok sz (encode_queues n sz q)" "rb_contents (buf (encode_queues n sz q)) = []"
    "nTerminated (encode_queues n sz q) = 0" for q
    using new_queue_ok [OF assms(2)] by (cases q; simp)+
  then have "ques_ok sz (en_que ?s) (encoder_ques n)" by (simp add: ques_ok_def encode_threads_def)
  moreover have "balanced n ?s"
    using start_holders [OF _ assms(2)] Q(3) by (simp add: balanced_def encode_threads_def)
  moreover have nq: "0 < nqueues n" using assms(1) by (auto simp: nqueues_def MAX_THREADS_PER_QUEUE_def)
  moreover have "fragmenter_ok (nqueues n) (en_fragmenter ?s)"
    using start_sorts [OF assms(3)] new_ringbuffer_ok [of 1] nq
    by (simp add: fragmenter_ok_def encode_threads_def ANCHOR_DATA_PER_INSERT_def)
  moreover have "reorderer_ok (nqueues n) (en_que ?s) (en_reorderer ?s)"
    using new_ringbuffer_ok [of ITEM_PER_FETCH] nq by (simp add: reorderer_ok_def encode_threads_def ITEM_PER_FETCH_def)
  ultimately show ?thesis using start_threads by (simp add: struct_ok_def encode_threads_def)
qed

lemma tag_coarse_spread:
  "refine_all cs = Inr fs \<Longrightarrow>
     list_spread pl (tag_coarse k cs) = mset (zip (map (\<lambda>f. Unmade (fine_data f)) fs) (tag_chunks k fs))"
proof (induction cs arbitrary: k fs)
  case (Cons c cs)
  then obtain es gs where "refine_one c = Inr es" "refine_all cs = Inr gs" "fs = es @ gs"
    by (cases "refine_one c"; cases "refine_all cs") (auto simp: refine_all_Cons simp del: refine_all.simps)
  with Cons.IH [of gs "k + length es"] show ?case by (simp add: tag_chunks_append zip_append)
qed simp


text \<open>The input of a job: what the theorems assume of the environment and the file.\<close>

definition job_input :: "env \<Rightarrow> int \<Rightarrow> source \<Rightarrow> bool" where
  "job_input ev ty src \<longleftrightarrow> healthy ev ty \<and> reads_succeed src \<and> source_ok src \<and>
     length (source_bytes src) < 2 ^ 31 \<and> sums_ok ev (source_bytes src)"

lemma job_of_input:
  assumes "job_input ev ty src" and "Fragment ev src = Inr cs"
  obtains fs where "refine_all cs = Inr fs" "job_ok ev ty (map fine_data fs) (tag_chunks 0 fs)"
    "concat (map fine_data fs) = source_bytes src" "length cs \<le> 1024"
proof -
  have env: "healthy ev ty" "reads_succeed src" "source_ok src" "length (source_bytes src) < 2 ^ 31"
    "sums_ok ev (source_bytes src)" using assms(1) by (simp_all add: job_input_def)
  obtain fs where fs: "refine_all cs = Inr fs" "length cs \<le> 1024" "length fs < 2 ^ 31"
    "\<And>f. f \<in> set fs \<Longrightarrow> unat (l1num (fine_seq f)) < 1024" "\<And>f. f \<in> set fs \<Longrightarrow> unat (l2num (fine_seq f)) < 2 ^ 31"
    using fragment_small [OF env(1-4)] assms(2) by (metis sum.inject(2))
  have num: "concat (map fine_data fs) = source_bytes src" "[] \<notin> set (map fine_data fs)" "numbered (Sequence 0 0) fs"
    using fragment_numbered [OF assms(2) env(3) fs(1)] by simp_all
  have small: "l1num (fine_seq f) \<noteq> -1 \<and> l2num (fine_seq f) \<noteq> -1" if "f \<in> set fs" for f
  proof -
    have "unat (-1 :: 32 word) = 2 ^ 32 - 1" by (simp add: unsigned_minus_1_eq_mask mask_eq_exp_minus_1)
    with fs(4,5) [OF that] show ?thesis by auto
  qed
  have tag: "\<exists>f \<in> set fs. seq c = fine_seq f" if "c \<in> set (tag_chunks k fs)" for c k
    using that by (induction fs arbitrary: k) auto
  have "well_numbered (tag_chunks 0 fs)"
    using tag_chunks_gapless [OF num(3)] tag_chunks_in_range [of fs _ 0] small by (auto simp: well_numbered_def)
  moreover have "inj_on (SHA1_Digest ev) (set (map fine_data fs))"
  proof -
    have "set (map fine_data fs) \<subseteq> {d. sublist d (source_bytes src)}"
      unfolding num(1) [symmetric] using concat_sublist by blast
    then show ?thesis using env(5) inj_on_subset by (auto simp: sums_ok_def)
  qed
  moreover have "unat (l1num (seq c)) < 2048" if c: "c \<in> set (tag_chunks 0 fs)" for c
    using tag [OF c] fs(4) by fastforce
  ultimately have "job_ok ev ty (map fine_data fs) (tag_chunks 0 fs)"
    using env(1) num(2) tag_chunks_payload [of 0 fs] by (simp add: job_ok_def)
  with that fs(1,2) num(1) show ?thesis by blast
qed

lemma encoder_start_inv:
  assumes "job_ok ev ty (map fine_data fs) (tag_chunks 0 fs)" and "refine_all cs = Inr fs"
    and "0 < n" and "sz + 1 < 2 ^ 31" and "fresh_memory ev ty m"
  shows "encoder_inv ev ty n sz (map fine_data fs) (tag_chunks 0 fs) (encode_threads n sz cs m)"
proof -
  let ?s = "encode_threads n sz cs m" and ?N = "length fs" and ?ds = "map fine_data fs"
  let ?X = "mset (zip (map (\<lambda>f. Unmade (fine_data f)) fs) (tag_chunks 0 fs))"
  let ?ps = "\<lparr>mem = fill ?ds {..<?N} m, place = (\<lambda>i. if i < ?N then In_deduplicate else Gone), todo = [0 ..< ?N]\<rparr>"
  have "st_spread u (new_thread u) = {#}" for u
  proof -
    have "sz \<in> {fetch_limit (stage_of u), insert_limit (stage_of u)} \<Longrightarrow> sz + 1 < 2 ^ 31" for sz
      by (cases u) (auto simp: Let_def MAX_PER_FETCH_def CHUNK_ANCHOR_PER_FETCH_def ITEM_PER_FETCH_def
          CHUNK_ANCHOR_PER_INSERT_def ITEM_PER_INSERT_def)
    then show ?thesis using new_ringbuffer_ok(2) by (auto simp: st_spread_def new_thread_def Let_def bufs_spread_def)
  qed
  moreover have "que_spread q (encode_queues n sz q) = {#}" for q
    using new_queue_ok(2) [OF assms(4)] by (cases q) (simp_all add: que_spread_def)
  ultimately have X: "encoder_spread n ?s = ?X"
    using tag_coarse_spread [OF assms(2)] new_ringbuffer_ok(2) [of 1] new_ringbuffer_ok(2) [of ITEM_PER_FETCH]
    by (simp add: encoder_spread_def encode_threads_def fr_spread_def re_spread_def ANCHOR_DATA_PER_INSERT_def ITEM_PER_FETCH_def)
  have mem: "\<exists>i < ?N. sp = Unmade (fine_data (fs ! i)) \<and> c = tag_chunks 0 fs ! i \<and> num c = i" if "(sp, c) \<in># ?X" for sp c
    using that tag_chunks_nth [of _ fs 0] by (force simp: in_set_zip)
  have "i \<in> unmade ?X" if "i < ?N" for i
  proof -
    have "(Unmade (fine_data (fs ! i)), tag_chunks 0 fs ! i) \<in># ?X" using that by (force simp: in_set_zip)
    with tag_chunks_nth [OF that, of 0] show ?thesis unfolding unmade_def by force
  qed
  moreover have "unmade ?X \<subseteq> {..<?N}" using mem by (fastforce simp: unmade_def)
  ultimately have U: "unmade ?X = {..<?N}" by auto
  have "par_start ev ty ?ds ?ps"
    using assms(5) by (auto simp: par_start_def fresh_memory_def fill_def)
  then have "par_reachable ev ty ?ds ?ps" unfolding par_reachable_def by blast
  moreover have "located ?ds ?X {#} ?ps m"
  proof (rule locatedI)
    show "mem ?ps = fill ?ds (unmade ?X) m" by (simp add: U)
    show "place ?ps (num c) = spot_place sp" if "(sp, c) \<in># ?X" for sp c
      using mem [OF that] by auto
    show "?ds ! num c = d" if "(Unmade d, c) \<in># ?X" for d c
      using mem [OF that] by auto
  qed simp
  moreover have "writes_ok (tag_chunks 0 fs) {#} (en_reorderer ?s) 0"
    using reorder_start_inv by (simp add: writes_ok_def encode_threads_def) (simp add: reorder_start_def)
  ultimately show ?thesis
    using start_struct [OF assms(3,4,2), of m] X
    by (intro encoder_invI [of _ _ _ "{#}" _ _ _ _ ?ps 0]) (simp_all add: zip_snd encode_threads_def)
qed

lemma reaches_inv:
  assumes "job_input ev ty src" and "Fragment ev src = Inr cs" and "0 < n" and "sz + 1 < 2 ^ 31"
    and "encoder_reaches ev ty n sz cs s"
  obtains fs where "refine_all cs = Inr fs" "job_ok ev ty (map fine_data fs) (tag_chunks 0 fs)"
    "concat (map fine_data fs) = source_bytes src" "encoder_inv ev ty n sz (map fine_data fs) (tag_chunks 0 fs) s"
proof -
  obtain fs where fs: "refine_all cs = Inr fs" "job_ok ev ty (map fine_data fs) (tag_chunks 0 fs)"
    "concat (map fine_data fs) = source_bytes src" using job_of_input [OF assms(1,2)] by metis
  obtain m where m: "fresh_memory ev ty m" "(encoder_step ev ty n)\<^sup>*\<^sup>* (encode_threads n sz cs m) s"
    using assms(5) by (auto simp: encoder_reaches_def)
  from m(2) have "encoder_inv ev ty n sz (map fine_data fs) (tag_chunks 0 fs) s"
  proof (induction rule: rtranclp_induct)
    case base
    show ?case by (rule encoder_start_inv [OF fs(2,1) assms(3,4) m(1)])
  next
    case (step s s')
    with encoder_step_inv [OF _ _ fs(2)] show ?case by blast
  qed
  with that fs show ?thesis by blast
qed

section \<open>Properties\<close>

definition failed_thread :: "nat \<Rightarrow> encoder \<Rightarrow> bool" where
  "failed_thread n s \<longleftrightarrow> (\<exists>u \<in> stage_threads n. \<exists>e. st_pc (en_threads s u) = St_failed e) \<or>
     fr_pc (en_fragmenter s) = Fr_failed \<or> (\<exists>e. re_pc (en_reorderer s) = Re_failed e)"

text \<open>C6. Given what \<open>job_input\<close> assumes - memory for every allocation, reads and compressions that
  succeed, an input of less than 2 GB whose pieces have different SHA-1 sums - and writes that succeed, queues of fewer than
  2^31 slots and at least one thread per stage (and at most the \<open>MAX_THREADS\<close> = 1024 for which encoder.c has
  handles, arrays that are not modelled), no thread of the parallel encoder ever fails an assertion or
  leaves the program, under any schedule: in particular no chunk is sent to a
  queue that all its producers have terminated, although \<open>Deduplicate\<close> sends to \<open>reorder_que\<close> and only
  \<open>Compress\<close> terminates it, and the anchors never outgrow their array (encoder.c:1238), which needs the
  bound on the input.\<close>

theorem dedup_stages_no_failure:
  assumes "job_input ev ty src" and "Fragment ev src = Inr cs" and "0 < nthreads" and "sz + 1 < 2 ^ 31"
    and "encoder_reaches ev ty nthreads sz cs s"
  shows "\<not> failed_thread nthreads s"
proof -
  obtain fs where "encoder_inv ev ty nthreads sz (map fine_data fs) (tag_chunks 0 fs) s"
    using reaches_inv [OF assms] by metis
  then have ok: "struct_ok nthreads sz s" by (simp add: encoder_inv_def)
  have "st_pc (en_threads s u) \<noteq> St_failed e" if "u \<in> stage_threads nthreads" for u e
    using ok that by (auto simp: struct_ok_def stage_ok_def)
  moreover have "fr_pc (en_fragmenter s) \<noteq> Fr_failed" using ok by (auto simp: struct_ok_def fragmenter_ok_def)
  moreover have "re_pc (en_reorderer s) \<noteq> Re_failed e" for e using ok by (auto simp: struct_ok_def reorderer_ok_def)
  ultimately show ?thesis by (auto simp: failed_thread_def)
qed

text \<open>C1. The parallel encoder as it runs, with its threads, groups and queues, is correct: whatever the
  schedule and the number of threads, when \<open>Reorder\<close> has returned, every other thread has passed the end of its
  input, and the decoder turns what has been written back into the input. Assumed (\<open>job_input\<close>): at least
  one thread per stage (and at most \<open>MAX_THREADS\<close>, whose arrays of handles are not modelled), queues of fewer than
  2^31 slots, an input of less than 2 GB, memory for every
  allocation, reads, writes and compressions that succeed, no two pieces of the input with the same SHA-1 sum;
  zlib and bzip2 keep what they document (\<open>codec_ok\<close>), the type fits in the byte of the header, and, when
  compression is on, no chunk is longer than the 10,000,000 bytes of the decoder's buffer (decoder.c:122).\<close>

theorem dedup_stages_roundtrip:
  assumes "job_input ev ty src" and "Fragment ev src = Inr cs" and "0 < nthreads" and "sz + 1 < 2 ^ 31"
    and "encoder_reaches ev ty nthreads sz cs s" and "re_pc (en_reorderer s) = Re_ended"
    and "0 \<le> ty" and "ty < 256" and "codec_ok ev"
    and "\<And>fs f. refine_all cs = Inr fs \<Longrightarrow> f \<in> set fs \<Longrightarrow> decoder_fits ev ty (length (fine_data f))"
  shows "Decode ev (par_out (en_memory s)) = Some (Inr (source_bytes src)) \<and>
    (\<forall>u \<in> stage_threads nthreads. st_pc (en_threads s u) = St_ended)"
proof -
  obtain fs where fs: "refine_all cs = Inr fs" "job_ok ev ty (map fine_data fs) (tag_chunks 0 fs)"
    "concat (map fine_data fs) = source_bytes src" "encoder_inv ev ty nthreads sz (map fine_data fs) (tag_chunks 0 fs) s"
    using reaches_inv [OF assms(1-5)] .
  let ?ds = "map fine_data fs"
  have ok: "struct_ok nthreads sz s" using fs(4) by (simp add: encoder_inv_def)
  have re: "rb_contents (re_buf (en_reorderer s)) = []" "all_finished (nqueues nthreads) (en_que s)"
    using ok assms(6) by (simp_all add: struct_ok_def reorderer_ok_def)
  from nothing_left [OF ok re(2,1)] have X: "encoder_spread nthreads s = {#}"
    and ended: "\<forall>u \<in> stage_threads nthreads. st_pc (en_threads s u) = St_ended" by simp_all
  obtain A ps k where ps: "par_reachable ev ty ?ds ps" "located ?ds {#} A ps (en_memory s)" "todo ps = [k ..< length ?ds]"
    "writes_ok (tag_chunks 0 fs) A (en_reorderer s) k" using fs(4) by (auto simp: encoder_inv_def X)
  have "[] = [k ..< length ?ds]"
    using ps(4) flush_nothing(2) [OF fs(4,2) X] assms(6) by (simp add: writes_ok_def)
  then have "todo ps = []" using ps(3) by simp
  have out: "par_out (en_memory s) = par_out (mem ps)" using locatedD(1) [OF ps(2)] by simp
  have h: "healthy ev ty" "[] \<notin> set ?ds" "inj_on (SHA1_Digest ev) (set ?ds)" using fs(2) by (simp_all add: job_ok_def)
  then obtain rs where "chunk_records ev ty {} ?ds = Inr rs"
      "par_out (mem ps) = write_header (word_of_int ty) @ archive_bytes rs"
    using par_archive [OF ps(1) \<open>todo ps = []\<close>] by (auto simp: healthy_def)
  moreover have "\<forall>d \<in> set ?ds. decoder_fits ev ty (length d)" using assms(10) [OF fs(1)] by auto
  ultimately
  have "Decode ev (par_out (en_memory s)) = Some (Inr (source_bytes src))"
    using decode_archive [of ev ty ?ds rs] fs(3) assms(1,7-9) h unfolding out by (simp add: healthy_def job_input_def)
  with ended show ?thesis by blast
qed

end
