(* ===== verification/Dedup_Stages_Progress.thy ===== *)
theory Dedup_Stages_Progress
  imports Dedup_Stages_Result
begin

text \<open>
  When a thread of \<open>Dedup_Stages\<close> has no step: what it waits for, and that not all of them wait as long as
  the queues hold what the input gives.
\<close>

section \<open>What a thread waits for\<close>

lemma send_waits:
  assumes b: "bufs_ok (stage_of u) w" and i: "i < length (out_ques (stage_of u))" and ne: "\<not> drained w i"
    and q: "ques_ok sz Q (stage_ques u)"
    and opn: "nTerminated (Q (out_ques (stage_of u) ! i)) < nProducers (Q (out_ques (stage_of u) ! i))"
    and step: "send_buffer (stage_of u) i pc w Q = None"
  shows "length (rb_contents (buf (Q (out_ques (stage_of u) ! i)))) = sz"
proof -
  let ?st = "stage_of u" and ?q = "out_ques (stage_of u) ! i"
  have qin: "que_ok sz (Q ?q)" using q i by (auto simp: ques_ok_def stage_ques_def)
  have sb: "buf_ok (insert_limit ?st) (send_bufs w ! i)" using b i by (auto simp: bufs_ok_def)
  obtain r x d where e: "queue_enqueue (Q ?q) (send_bufs w ! i) (int (insert_limit ?st)) = (r, x, d)" by (metis prod_cases3)
  from qin opn sb ne [unfolded drained_def] stage_limits(2) e show ?thesis
  proof (cases rule: enqueue_cases)
    case (sends k)
    with step e show ?thesis by (simp add: send_buffer_def)
  qed simp
qed

lemma fetch_waits:
  assumes b: "bufs_ok (stage_of u) w" and nil: "rb_contents (recv_buf w) = []"
    and q: "ques_ok sz Q (stage_ques u)" and step: "fetch_items (stage_of u) w Q = None"
  shows "rb_contents (buf (Q (in_que (stage_of u)))) = []"
    and "nTerminated (Q (in_que (stage_of u))) < nProducers (Q (in_que (stage_of u)))"
proof -
  let ?st = "stage_of u" and ?q = "in_que (stage_of u)"
  have qin: "que_ok sz (Q ?q)" using q by (auto simp: ques_ok_def stage_ques_def)
  have r: "buf_ok (fetch_limit ?st) (recv_buf w)" using b by (simp add: bufs_ok_def)
  obtain res x d where e: "queue_dequeue (Q ?q) (recv_buf w) (int (fetch_limit ?st)) = (res, x, d)" by (metis prod_cases3)
  from qin r nil stage_limits(1) stage_limits(1) e
  have "rb_contents (buf (Q ?q)) = [] \<and> nTerminated (Q ?q) < nProducers (Q ?q)"
    by (cases rule: dequeue_cases) (use step e in \<open>simp_all add: fetch_items_def\<close>)
  then show "rb_contents (buf (Q ?q)) = []" "nTerminated (Q ?q) < nProducers (Q ?q)" by simp_all
qed

definition starved :: "ques \<Rightarrow> que_id \<Rightarrow> bool" where
  "starved Q q \<longleftrightarrow> rb_contents (buf (Q q)) = [] \<and> nTerminated (Q q) < nProducers (Q q)"

lemma stage_waits:
  assumes ok: "stage_ok u Q w" and q: "ques_ok sz Q (stage_ques u)"
    and opn: "\<And>q. q \<in> set (out_ques (stage_of u)) \<Longrightarrow> st_pc w \<noteq> St_ended \<Longrightarrow> nTerminated (Q q) < nProducers (Q q)"
    and step: "stage_thread_step ev ty u w Q m = None"
  obtains (ended) "st_pc w = St_ended" | (starves) "starved Q (in_que (stage_of u))"
  | (full) i where "i < length (out_ques (stage_of u))" "rb_contents (send_bufs w ! i) \<noteq> []"
      "length (rb_contents (buf (Q (out_ques (stage_of u) ! i)))) = sz"
proof (cases "st_pc w")
  case St_loop
  have b: "bufs_ok (stage_of u) w" using ok by (simp add: stage_ok_def)
  then have "ringbuffer_isEmpty (recv_buf w) \<longleftrightarrow> rb_contents (recv_buf w) = []" using buf_empty by (auto simp: bufs_ok_def)
  with step St_loop have "rb_contents (recv_buf w) = []" "fetch_items (stage_of u) w Q = None"
    by (auto simp: stage_thread_step_def Let_def split: if_splits)
  from fetch_waits [OF b this(1) q this(2)] starves show ?thesis by (simp add: starved_def)
next
  case (St_put outs)
  with step show ?thesis by (cases outs) (auto simp: stage_thread_step_def Let_def)
next
  case (St_send i outs)
  with step have s: "send_buffer (stage_of u) i (St_put outs) w Q = None" by (auto simp: stage_thread_step_def Let_def)
  have b: "bufs_ok (stage_of u) w" "i < length (out_ques (stage_of u))" "\<not> drained w i"
    using ok St_send by (simp_all add: stage_ok_def)
  from send_waits [OF b q _ s] opn b(2) St_send full [of i] b(3) show ?thesis by (simp add: drained_def)
next
  case (St_drain i)
  have b: "bufs_ok (stage_of u) w" using ok by (simp add: stage_ok_def)
  have i: "i < length (out_ques (stage_of u))" using step St_drain by (auto simp: stage_thread_step_def Let_def split: if_splits)
  then have "ringbuffer_isEmpty (send_bufs w ! i) \<longleftrightarrow> drained w i"
    using b buf_empty by (auto simp: bufs_ok_def drained_def)
  with step St_drain i have s: "\<not> drained w i" "send_buffer (stage_of u) i (St_drain i) w Q = None"
    by (auto simp: stage_thread_step_def Let_def split: if_splits)
  from send_waits [OF b i s(1) q _ s(2)] opn i St_drain full [of i] s(1) show ?thesis by (simp add: drained_def)
next
  case St_shutdown
  with step show ?thesis by (auto simp: stage_thread_step_def Let_def split: prod.splits c_result.splits)
next
  case St_work
  with step show ?thesis by (auto simp: stage_thread_step_def Let_def split: prod.splits)
next
  case (St_failed e)
  with ok show ?thesis by (simp add: stage_ok_def)
qed (rule ended)

lemma fragment_waits:
  assumes ok: "fragmenter_ok nq f" and q: "ques_ok sz Q (Refine_que ` {..<nq})"
    and opn: "\<And>g. g < nq \<Longrightarrow> fr_holds (fr_pc f) g \<Longrightarrow> nTerminated (Q (Refine_que g)) < nProducers (Q (Refine_que g))"
    and step: "fragment_step nq f Q = None"
  shows "fr_pc f = Fr_ended \<or> length (rb_contents (buf (Q (Refine_que (fr_qid f))))) = sz"
proof (cases "fr_pc f = Fr_ended \<or> (fr_pc f = Fr_send \<or> fr_pc f = Fr_drain) \<and> rb_contents (fr_send f) \<noteq> []")
  case True
  moreover have "length (rb_contents (buf (Q (Refine_que (fr_qid f))))) = sz"
    if pc: "fr_pc f = Fr_send \<or> fr_pc f = Fr_drain" and ne: "rb_contents (fr_send f) \<noteq> []"
  proof -
    let ?q = "Refine_que (fr_qid f)"
    have qid: "fr_qid f < nq" and sb: "buf_ok 1 (fr_send f)" using ok by (simp_all add: fragmenter_ok_def)
    have s: "que_ok sz (Q ?q)" "nTerminated (Q ?q) < nProducers (Q ?q)"
      using q qid opn pc by (auto simp: ques_ok_def)
    obtain r x d where e: "queue_enqueue (Q ?q) (fr_send f) (int ANCHOR_DATA_PER_INSERT) = (r, x, d)" by (metis prod_cases3)
    have "\<exists>pc'. fragment_send nq pc' f Q = None"
      using step pc ne sb by (auto simp: fragment_step_def buf_empty)
    then have None: "r = Waits" using e by (cases r) (auto simp: fragment_send_def)
    have "0 < ANCHOR_DATA_PER_INSERT" by (simp add: ANCHOR_DATA_PER_INSERT_def)
    from s sb ne this e show ?thesis
    proof (cases rule: enqueue_cases)
      case (sends k)
      with None show ?thesis by simp
    qed simp
  qed
  ultimately show ?thesis by blast
next
  case False
  have "buf_ok 1 (fr_send f)" using ok by (simp add: fragmenter_ok_def)
  with False ok step show ?thesis
    by (cases "fr_pc f")
      (auto simp: fragment_step_def fragmenter_ok_def buf_empty split: list.splits prod.splits if_splits c_result.splits)
qed

lemma reorder_waits:
  assumes ok: "reorderer_ok nq Q re" and q: "ques_ok sz Q (Reorder_que ` {..<nq})" and step: "reorder_step nq re Q m = None"
  obtains (ended) "re_pc re = Re_ended" | (starves) g where "g < nq" "starved Q (Reorder_que g)"
  | (blocked) i ks where "writing (re_pc re) = i # ks" "par_write_chunk_to_file i m = None"
proof (cases "re_pc re")
  case (Re_poll i r)
  then have c: "r \<le> 0" "i < nq" and p: "poll_queue nq i re Q = None" using step by (auto simp: reorder_step_def split: if_splits)
  let ?q = "Reorder_que (re_qid re)"
  have qid: "re_qid re < nq" and b: "buf_ok ITEM_PER_FETCH (re_buf re)" and nil: "rb_contents (re_buf re) = []"
    using ok c Re_poll by (simp_all add: reorderer_ok_def split: if_splits)
  have qin: "que_ok sz (Q ?q)" using q qid by (auto simp: ques_ok_def)
  have pos: "0 < ITEM_PER_FETCH" by (simp add: ITEM_PER_FETCH_def)
  obtain res x d where e: "queue_dequeue (Q ?q) (re_buf re) (int ITEM_PER_FETCH) = (res, x, d)" by (metis prod_cases3)
  from qin b nil pos pos e have "starved Q ?q"
    by (cases rule: dequeue_cases) (use p e in \<open>simp_all add: poll_queue_def starved_def\<close>)
  with starves qid show ?thesis .
next
  case (Re_write ks)
  with step blocked show ?thesis by (cases ks) (auto simp: reorder_step_def)
next
  case (Re_finish ks)
  with step blocked show ?thesis by (cases ks) (auto simp: reorder_step_def)
next
  case (Re_failed e)
  with ok show ?thesis by (simp add: reorderer_ok_def)
qed (use step ended in \<open>simp_all add: reorder_step_def\<close>)

section \<open>The queues are long enough\<close>

lemma spread_size:
  assumes inv: "encoder_inv ev ty n sz ds tags s" and job: "job_ok ev ty ds tags"
  shows "size (encoder_spread n s) \<le> length ds"
proof -
  obtain A where "image_mset snd (encoder_spread n s) + A = mset tags" using inv by (auto simp: encoder_inv_def)
  then have "size (encoder_spread n s) + size A = length tags" by (metis size_image_mset size_mset size_union)
  moreover have "length tags = length ds" using job by (metis job_ok_def length_map length_upt minus_nat.diff_0)
  ultimately show ?thesis by simp
qed

lemma fine_spread: "\<forall>p \<in> set ps. \<exists>c. p = Fine c \<Longrightarrow> size (list_spread pl ps) = length ps"
  by (induction ps) auto

lemma reorder_spread: "sorts_ok (Reorder_que g) ps \<Longrightarrow> (sp, c) \<in># list_spread In_reorder ps \<Longrightarrow> sp = Made In_reorder"
  by (induction ps) auto

lemma out_sorts: "q \<in> set (out_ques (stage_of u)) \<Longrightarrow> sort_ok q p \<Longrightarrow> \<exists>c. p = Fine c"
  by (cases u) (auto simp: Let_def)

lemma never_full:
  assumes inv: "encoder_inv ev ty n sz ds tags s" and job: "job_ok ev ty ds tags" and room: "length ds \<le> sz"
    and u: "u \<in> stage_threads n" and i: "i < length (out_ques (stage_of u))"
    and ne: "rb_contents (send_bufs (en_threads s u) ! i) \<noteq> []"
  shows "length (rb_contents (buf (en_que s (out_ques (stage_of u) ! i)))) < sz"
proof -
  let ?q = "out_ques (stage_of u) ! i" and ?w = "en_threads s u"
  have ok: "struct_ok n sz s" using inv by (simp add: encoder_inv_def)
  have q: "?q \<in> set (out_ques (stage_of u))" using i by simp
  then have E: "?q \<in> encoder_ques n" using stage_ques_subset [OF u] by (auto simp: stage_ques_def)
  have sorts: "sorts_ok ?q (rb_contents (buf (en_que s ?q)))" "sorts_ok ?q (rb_contents (send_bufs ?w ! i))"
    using ok E u i by (auto simp: struct_ok_def ques_ok_def stage_ok_def bufs_ok_def)
  have "size (que_spread ?q (en_que s ?q)) = length (rb_contents (buf (en_que s ?q)))"
    using sorts(1) out_sorts [OF q] by (simp add: que_spread_def fine_spread sorts_ok_def)
  moreover have "0 < size (list_spread (que_place ?q) (rb_contents (send_bufs ?w ! i)))"
    using sorts(2) out_sorts [OF q] ne fine_spread [of "rb_contents (send_bufs ?w ! i)" "que_place ?q"]
    by (simp add: sorts_ok_def)
  then have "0 < size (st_spread u ?w)"
    using i by (auto simp: st_spread_def Let_def bufs_spread_def sum.remove [of _ i])
  moreover have "que_spread ?q (en_que s ?q) + st_spread u ?w \<subseteq># encoder_spread n s"
    using u E by (simp add: encoder_spread_def sum.remove [of _ u] sum.remove [of _ ?q] ac_simps)
  then have "size (que_spread ?q (en_que s ?q)) + size (st_spread u ?w) \<le> size (encoder_spread n s)"
    by (metis size_mset_mono size_union)
  ultimately show ?thesis using spread_size [OF inv job] room by linarith
qed

section \<open>Some thread has a step until all have ended\<close>

text \<open>What is still on its way when the threads in the middle have ended has been compressed.\<close>

lemma spread_ended:
  assumes ok: "struct_ok n sz s" and ended: "\<And>u. u \<in> stage_threads n \<Longrightarrow> st_pc (en_threads s u) = St_ended"
    and fr: "fr_pc (en_fragmenter s) = Fr_ended" and X: "(sp, c) \<in># encoder_spread n s"
  shows "sp = Made In_reorder"
proof -
  have mk: "Refiner t \<in> stage_threads n" "Deduplicator t \<in> stage_threads n" "Compressor t \<in> stage_threads n" if "t < n" for t
    using that by (auto simp: stage_threads_def)
  have th: "st_spread u (en_threads s u) = {#}" "finished (en_que s (in_que (stage_of u)))" if "u \<in> stage_threads n" for u
    using ok that ended [OF that]
    by (auto simp: struct_ok_def stage_ok_def st_spread_def Let_def bufs_spread_def drained_def)
  have fin: "finished (en_que s (Refine_que g)) \<and> finished (en_que s (Deduplicate_que g)) \<and> finished (en_que s (Compress_que g))"
    if g: "g < nqueues n" for g
  proof -
    obtain t where t: "t < n" "t div MAX_THREADS_PER_QUEUE = g" using group_member [OF g] by blast
    from th(2) [OF mk(1) [OF t(1)]] th(2) [OF mk(2) [OF t(1)]] th(2) [OF mk(3) [OF t(1)]] t(2)
    show ?thesis by (simp add: Let_def)
  qed
  have "fr_spread (en_fragmenter s) = {#}" using ok fr by (simp add: struct_ok_def fragmenter_ok_def fr_spread_def)
  with X th(1) have "(sp, c) \<in># (\<Sum>q \<in> encoder_ques n. que_spread q (en_que s q)) + re_spread (en_reorderer s)"
    by (simp add: encoder_spread_def)
  then consider q where "q \<in> encoder_ques n" "(sp, c) \<in># que_spread q (en_que s q)" | "(sp, c) \<in># re_spread (en_reorderer s)"
    by (auto simp: set_mset_sum)
  then show ?thesis
  proof cases
    case (1 q)
    with fin obtain g where g: "q = Reorder_que g"
      by (auto simp: encoder_ques_def Let_def que_spread_def finished_def)
    then have "sorts_ok q (rb_contents (buf (en_que s q)))" using ok 1(1) by (simp add: struct_ok_def ques_ok_def)
    with 1(2) g reorder_spread show ?thesis by (simp add: que_spread_def)
  next
    case 2
    moreover have "sorts_ok (Reorder_que 0) (rb_contents (re_buf (en_reorderer s)))" using ok by (simp add: struct_ok_def reorderer_ok_def)
    ultimately show ?thesis using reorder_spread by (simp add: re_spread_def)
  qed
qed

lemma write_ready:
  assumes inv: "encoder_inv ev ty n sz ds tags s" and job: "job_ok ev ty ds tags"
    and wr: "writing (re_pc (en_reorderer s)) = i # ks"
    and ended: "\<And>u. u \<in> stage_threads n \<Longrightarrow> st_pc (en_threads s u) = St_ended" and fr: "fr_pc (en_fragmenter s) = Fr_ended"
  shows "par_write_chunk_to_file i (en_memory s) \<noteq> None"
proof -
  let ?X = "encoder_spread n s"
  obtain A ps f where tot: "image_mset snd ?X + A = mset tags" and "par_reachable ev ty ds ps"
    and loc: "located ds ?X A ps (en_memory s)" and "todo ps = [i ..< length ds]"
    and "writes_ok tags A (en_reorderer s) i" and "i < length ds" and pinv: "par_inv ev ty ds f i ps"
    and pl: "place ps i = In_reorder" and "\<forall>sp c. (sp, c) \<in># ?X \<longrightarrow> num c \<noteq> i"
    and w: "par_write_chunk_to_file i (mem ps) = map_option (fill ds (unmade ?X)) (par_write_chunk_to_file i (en_memory s))"
    using write_head [OF inv job wr] .
  have ok: "struct_ok n sz s" using inv by (simp add: encoder_inv_def)
  have nums: "map num tags = [0 ..< length ds]" using job by (simp add: job_ok_def)
  have "place ps j \<noteq> In_compress" for j
  proof
    assume j: "place ps j = In_compress"
    then have "j < length ds" using par_invD(5) [OF pinv, of j] by simp
    then have "j \<in> set (map num tags)" unfolding nums by simp
    then obtain c where c: "c \<in> set tags" "num c = j" by auto
    then have "c \<in># image_mset snd ?X + A" by (simp add: tot)
    then consider sp where "(sp, c) \<in># ?X" | "c \<in># A" by force
    then show False
    proof cases
      case (1 sp)
      with spread_ended [OF ok ended fr] locatedD(2) [OF loc] j c(2) show ?thesis by fastforce
    next
      case 2
      with locatedD(4) [OF loc] j c(2) show ?thesis by fastforce
    qed
  qed
  with original_placed(2) [OF pinv pl] w show ?thesis by auto
qed

lemma stage_idle:
  assumes inv: "encoder_inv ev ty n sz ds tags s" and job: "job_ok ev ty ds tags" and room: "length ds \<le> sz"
    and u: "u \<in> stage_threads n" and none: "stage_thread_step ev ty u (en_threads s u) (en_que s) (en_memory s) = None"
  shows "st_pc (en_threads s u) = St_ended \<or> starved (en_que s) (in_que (stage_of u))"
proof -
  have ok: "struct_ok n sz s" using inv by (simp add: encoder_inv_def)
  have wok: "stage_ok u (en_que s) (en_threads s u)" and q: "ques_ok sz (en_que s) (stage_ques u)"
    using ok u ques_ok_subset [OF _ stage_ques_subset [OF u]] by (simp_all add: struct_ok_def)
  from wok q stage_open [OF ok u] none have "\<not> (\<exists>i < length (out_ques (stage_of u)).
      rb_contents (send_bufs (en_threads s u) ! i) \<noteq> [] \<and> length (rb_contents (buf (en_que s (out_ques (stage_of u) ! i)))) = sz)
    \<Longrightarrow> ?thesis" by (rule stage_waits) blast+
  with never_full [OF inv job room u] show ?thesis by force
qed

lemma closed_que:
  assumes "struct_ok n sz s" and "q \<in> encoder_ques n" and "holders n s q = 0"
  shows "\<not> starved (en_que s) q"
  using assms by (auto simp: struct_ok_def balanced_def starved_def)

lemma stage_over:
  assumes ok: "struct_ok n sz s" and idle: "\<And>u. u \<in> stage_threads n \<Longrightarrow>
      st_pc (en_threads s u) = St_ended \<or> starved (en_que s) (in_que (stage_of u))"
    and mk: "\<And>t. t < n \<Longrightarrow> mk t \<in> stage_threads n" and sends: "\<And>g. g < nqueues n \<Longrightarrow> \<not> starved (en_que s) (q g)"
    and up: "\<And>t. in_que (stage_of (mk t)) = q (t div MAX_THREADS_PER_QUEUE)" and t: "t < n"
  shows "st_pc (en_threads s (mk t)) = St_ended"
  using idle [OF mk [OF t]] sends [OF group_less [OF t]] up by auto

lemma encoder_idle:
  assumes inv: "encoder_inv ev ty n sz ds tags s" and job: "job_ok ev ty ds tags" and room: "length ds \<le> sz" "0 < sz"
    and stuck: "\<And>s'. \<not> encoder_step ev ty n s s'"
  shows "fr_pc (en_fragmenter s) = Fr_ended" and "u \<in> stage_threads n \<Longrightarrow> st_pc (en_threads s u) = St_ended"
    and "re_pc (en_reorderer s) = Re_ended"
proof -
  have ok: "struct_ok n sz s" using inv by (simp add: encoder_inv_def)
  have mk: "Refiner t \<in> stage_threads n" "Deduplicator t \<in> stage_threads n" "Compressor t \<in> stage_threads n" if "t < n" for t
    using that by (auto simp: stage_threads_def)
  have E: "Refine_que g \<in> encoder_ques n" "Deduplicate_que g \<in> encoder_ques n" "Compress_que g \<in> encoder_ques n"
    "Reorder_que g \<in> encoder_ques n" if "g < nqueues n" for g using that by (auto simp: encoder_ques_def Let_def)
  have idle: "st_pc (en_threads s u) = St_ended \<or> starved (en_que s) (in_que (stage_of u))" if "u \<in> stage_threads n" for u
  proof (rule stage_idle [OF inv job room(1) that])
    show "stage_thread_step ev ty u (en_threads s u) (en_que s) (en_memory s) = None"
      using stuck encoder_step.stage_moves [OF that] by (metis option.exhaust prod_cases3)
  qed
  show fr: "fr_pc (en_fragmenter s) = Fr_ended"
  proof (rule ccontr)
    let ?f = "en_fragmenter s" and ?q = "Refine_que (fr_qid (en_fragmenter s))"
    assume "fr_pc ?f \<noteq> Fr_ended"
    have fok: "fragmenter_ok (nqueues n) ?f" and q: "ques_ok sz (en_que s) (Refine_que ` {..<nqueues n})"
      using ok E by (auto simp: struct_ok_def ques_ok_def)
    have opn: "nTerminated (en_que s (Refine_que g)) < nProducers (en_que s (Refine_que g))"
      if "g < nqueues n" "fr_holds (fr_pc ?f) g" for g
      using ok that E by (force simp: struct_ok_def balanced_def)
    have "fragment_step (nqueues n) ?f (en_que s) = None"
      using stuck encoder_step.fragment_moves by (metis option.exhaust surj_pair)
    from fragment_waits [OF fok q opn this] \<open>fr_pc ?f \<noteq> Fr_ended\<close> room(2)
    have ne: "rb_contents (buf (en_que s ?q)) \<noteq> []" by auto
    have "fr_qid ?f < nqueues n" using fok by (simp add: fragmenter_ok_def)
    then obtain t where t: "t < n" "t div MAX_THREADS_PER_QUEUE = fr_qid ?f" using group_member by blast
    have "stage_ok (Refiner t) (en_que s) (en_threads s (Refiner t))" using ok mk t by (simp add: struct_ok_def)
    with idle [OF mk(1) [OF t(1)]] ne t(2) show False by (auto simp: stage_ok_def starved_def finished_def Let_def)
  qed
  have c1: "\<not> starved (en_que s) (Refine_que g)" if "g < nqueues n" for g
    using closed_que [OF ok E(1) [OF that]] fr by simp
  have none: "holders n s q = 0"
    if "\<And>u. u \<in> stage_threads n \<Longrightarrow> ends (stage_of u) = q \<Longrightarrow> st_pc (en_threads s u) = St_ended" "\<And>g. q \<noteq> Refine_que g" for q
    using that by (cases q) (auto simp: holding_def)
  have e1: "st_pc (en_threads s (Refiner t)) = St_ended" if "t < n" for t
    by (rule stage_over [of n sz s Refiner, OF ok idle _ c1 _ that]) (simp_all add: mk Let_def)
  have c2: "\<not> starved (en_que s) (Deduplicate_que g)" if "g < nqueues n" for g
    by (intro closed_que [OF ok E(2) [OF that]] none) (auto simp: stage_threads_def Let_def e1)
  have e2: "st_pc (en_threads s (Deduplicator t)) = St_ended" if "t < n" for t
    by (rule stage_over [of n sz s Deduplicator, OF ok idle _ c2 _ that]) (simp_all add: mk Let_def)
  have c3: "\<not> starved (en_que s) (Compress_que g)" if "g < nqueues n" for g
    by (intro closed_que [OF ok E(3) [OF that]] none) (auto simp: stage_threads_def Let_def e2)
  have e3: "st_pc (en_threads s (Compressor t)) = St_ended" if "t < n" for t
    by (rule stage_over [of n sz s Compressor, OF ok idle _ c3 _ that]) (simp_all add: mk Let_def)
  have c4: "\<not> starved (en_que s) (Reorder_que g)" if "g < nqueues n" for g
    by (intro closed_que [OF ok E(4) [OF that]] none) (auto simp: stage_threads_def Let_def e3)
  show threads: "st_pc (en_threads s u) = St_ended" if "u \<in> stage_threads n" for u
    using that e1 e2 e3 by (auto simp: stage_threads_def)
  have re: "reorderer_ok (nqueues n) (en_que s) (en_reorderer s)" "ques_ok sz (en_que s) (Reorder_que ` {..<nqueues n})"
    using ok E by (auto simp: struct_ok_def ques_ok_def)
  have "reorder_step (nqueues n) (en_reorderer s) (en_que s) (en_memory s) = None"
    using stuck encoder_step.reorder_moves by (metis option.exhaust prod_cases3)
  with re show "re_pc (en_reorderer s) = Re_ended"
  proof (cases rule: reorder_waits)
    case (starves g)
    with c4 show ?thesis by simp
  next
    case (blocked i ks)
    with write_ready [OF inv job blocked(1) threads fr] show ?thesis by simp
  qed
qed

end
