(* ===== verification/Dedup_Stages_Runs.thy ===== *)
theory Dedup_Stages_Runs
  imports Dedup_Stages_Progress
begin

text \<open>
  Every run of the threads of \<open>Dedup_Stages\<close> ends. Each step either moves items on, which lowers the sum of
  the weights of the places where they are, or moves no item and brings a thread closer to the next place
  where it does.
\<close>

section \<open>The weight of what is on its way\<close>

fun que_rank :: "que_id \<Rightarrow> nat" where
  "que_rank (Refine_que g) = 18"
| "que_rank (Deduplicate_que g) = 14"
| "que_rank (Compress_que g) = 10"
| "que_rank (Reorder_que g) = 6"

fun packet_size :: "packet \<Rightarrow> nat" where
  "packet_size (Coarse k c) = (case refine_one c of Inl e \<Rightarrow> 1 | Inr fs \<Rightarrow> 1 + length fs)"
| "packet_size (Fine c) = 1"

definition packets_load :: "packet list \<Rightarrow> nat" where
  "packets_load ps = sum_list (map packet_size ps)"

lemma load_simps [simp]: "packets_load [] = 0" "packets_load (p # ps) = packet_size p + packets_load ps" "packets_load (ps @ qs) = packets_load ps + packets_load qs"
  by (simp_all add: packets_load_def)

lemma packet_size_pos: "0 < packet_size p"
  by (cases p) (auto split: sum.splits)

lemma load_split: "packets_load (take k ps) + packets_load (drop k ps) = packets_load ps"
  by (metis append_take_drop_id load_simps(3))

lemma load_take: "0 < k \<Longrightarrow> ps \<noteq> [] \<Longrightarrow> 0 < packets_load (take k ps)"
  using packet_size_pos by (cases k; cases ps) auto

text \<open>Items that move to a place of lower weight.\<close>

lemma move_lowers:
  assumes "b < (a :: nat)" and "0 < k" and "ps \<noteq> []"
  shows "b * packets_load (take k ps) + a * packets_load (drop k ps) < a * packets_load ps"
proof -
  have "b * packets_load (take k ps) < a * packets_load (take k ps)" using assms load_take by simp
  then show ?thesis by (simp flip: load_split [of k ps] add: distrib_left)
qed

definition que_load :: "que_id \<Rightarrow> packet queue_t \<Rightarrow> nat" where
  "que_load q x = que_rank q * packets_load (rb_contents (buf x))"

definition bufs_load :: "packet ringbuffer list \<Rightarrow> nat" where
  "bufs_load bs = (\<Sum>b \<leftarrow> bs. packets_load (rb_contents b))"

lemma bufs_load_update:
  assumes "i < length bs"
  shows "bufs_load (bs[i := b]) + packets_load (rb_contents (bs ! i)) = bufs_load bs + packets_load (rb_contents b)"
proof -
  have "packets_load (rb_contents (bs ! i)) \<le> bufs_load bs"
    using assms by (auto simp: bufs_load_def intro!: member_le_sum_list)
  with assms show ?thesis by (simp add: bufs_load_def map_update sum_list_update)
qed

definition st_load :: "stage_thread \<Rightarrow> st_thread \<Rightarrow> nat" where
  "st_load u w = (let r = que_rank (in_que (stage_of u)) in
     (r - 1) * packets_load (rb_contents (recv_buf w)) + (r - 2) * packets_load (map snd (unsent (st_pc w))) + (r - 3) * bufs_load (send_bufs w))"

lemma stage_ranks:
  "3 < que_rank (in_que (stage_of u))" "q \<in> set (out_ques (stage_of u)) \<Longrightarrow> que_rank q < que_rank (in_que (stage_of u)) - 3"
  "length (out_ques (stage_of u)) \<le> 2"
  by (cases u; auto simp: Let_def)+

fun st_rank :: "st_pc \<Rightarrow> nat" where
  "st_rank St_ended = 0"
| "st_rank (St_failed e) = 0"
| "st_rank St_shutdown = 1"
| "st_rank (St_drain i) = 4 - i"
| "st_rank St_work = 5"
| "st_rank St_loop = 6"
| "st_rank (St_put outs) = 7"
| "st_rank (St_send i outs) = 7"

definition drops :: "nat \<times> nat \<Rightarrow> nat \<times> nat \<Rightarrow> bool" where
  "drops a b \<longleftrightarrow> fst a < fst b \<or> fst a = fst b \<and> snd a < snd b"

lemma wf_drops: "wf {(a, b). drops a b}"
proof -
  have "{(a, b). drops a b} = less_than <*lex*> less_than" by (auto simp: drops_def)
  then show ?thesis by (metis wf_less_than wf_lex_prod)
qed

text \<open>A thread and the queue that its step changes.\<close>

definition local_drop :: "ques \<Rightarrow> ques \<Rightarrow> que_id set \<Rightarrow> nat \<times> nat \<Rightarrow> nat \<times> nat \<Rightarrow> bool" where
  "local_drop Q Q' S a b \<longleftrightarrow>
     (\<exists>q x. q \<in> S \<and> Q' = Q(q := x) \<and> drops (que_load q x + fst a, snd a) (que_load q (Q q) + fst b, snd b))"

lemma local_dropI:
  "q \<in> S \<Longrightarrow> que_load q x + a < que_load q (Q q) + b \<Longrightarrow> local_drop Q (Q(q := x)) S (a, r) (b, r')"
  unfolding local_drop_def by (intro exI [of _ q] exI [of _ x]) (simp add: drops_def)

lemma local_drop_same:
  assumes "S \<noteq> {}" and "drops (a, r) (b, r')"
  shows "local_drop Q Q S (a, r) (b, r')"
proof -
  obtain q where "q \<in> S" using assms(1) by blast
  with assms(2) show ?thesis
    unfolding local_drop_def by (intro exI [of _ q] exI [of _ "Q q"]) (simp add: drops_def)
qed

section \<open>Steps of the threads\<close>

lemma send_drops:
  assumes b: "bufs_ok (stage_of u) w" and i: "i < length (out_ques (stage_of u))" and ne: "\<not> drained w i"
    and q: "ques_ok sz Q (stage_ques u)"
    and opn: "nTerminated (Q (out_ques (stage_of u) ! i)) < nProducers (Q (out_ques (stage_of u) ! i))"
    and un: "unsent pc = unsent (st_pc w)" and step: "send_buffer (stage_of u) i pc w Q = Some (w', Q')"
  shows "local_drop Q Q' (stage_ques u) (st_load u w', r) (st_load u w, r')"
proof -
  let ?st = "stage_of u" and ?q = "out_ques (stage_of u) ! i" and ?c = "rb_contents (send_bufs w ! i)"
  have qin: "?q \<in> set (out_ques ?st)" "que_ok sz (Q ?q)" using q i by (auto simp: ques_ok_def stage_ques_def)
  have sb: "buf_ok (insert_limit ?st) (send_bufs w ! i)" "length (send_bufs w) = length (out_ques ?st)"
    using b i by (auto simp: bufs_ok_def)
  obtain res x d where e: "queue_enqueue (Q ?q) (send_bufs w ! i) (int (insert_limit ?st)) = (res, x, d)" by (metis prod_cases3)
  from qin(2) opn sb(1) ne [unfolded drained_def] stage_limits(2) e show ?thesis
  proof (cases rule: enqueue_cases)
    case waits
    with step e show ?thesis by (simp add: send_buffer_def)
  next
    case (sends k)
    with step e have w': "w' = w\<lparr>send_bufs := (send_bufs w)[i := d], st_pc := pc\<rparr>" "Q' = Q(?q := x)"
      by (auto simp: send_buffer_def)
    let ?r = "que_rank (in_que ?st)"
    have "bufs_load ((send_bufs w)[i := d]) + packets_load ?c = bufs_load (send_bufs w) + packets_load (drop k ?c)"
      using bufs_load_update [of i "send_bufs w" d] i sb(2) sends(8) by simp
    then have "(?r - 3) * bufs_load ((send_bufs w)[i := d]) + (?r - 3) * packets_load ?c =
        (?r - 3) * bufs_load (send_bufs w) + (?r - 3) * packets_load (drop k ?c)" by (metis distrib_left)
    moreover have "que_rank ?q * packets_load (take k ?c) + (?r - 3) * packets_load (drop k ?c) < (?r - 3) * packets_load ?c"
      using move_lowers [OF stage_ranks(2) [OF qin(1)]] sends(2) ne by (simp add: drained_def)
    ultimately have "que_load ?q x + st_load u w' < que_load ?q (Q ?q) + st_load u w"
      by (simp add: st_load_def que_load_def Let_def sends(7) w'(1) un distrib_left)
    with qin(1) show ?thesis unfolding w'(2) by (intro local_dropI) (simp_all add: stage_ques_def)
  qed
qed

lemma fetch_drops:
  assumes b: "bufs_ok (stage_of u) w" and pc: "st_pc w = St_loop" and nil: "rb_contents (recv_buf w) = []"
    and q: "ques_ok sz Q (stage_ques u)" and step: "fetch_items (stage_of u) w Q = Some (w', Q')"
  shows "local_drop Q Q' (stage_ques u) (st_load u w', st_rank (st_pc w')) (st_load u w, st_rank (st_pc w))"
proof -
  let ?st = "stage_of u" and ?q = "in_que (stage_of u)"
  have qin: "?q \<in> stage_ques u" "que_ok sz (Q ?q)" using q by (auto simp: ques_ok_def stage_ques_def)
  have r: "buf_ok (fetch_limit ?st) (recv_buf w)" using b by (simp add: bufs_ok_def)
  obtain res x d where e: "queue_dequeue (Q ?q) (recv_buf w) (int (fetch_limit ?st)) = (res, x, d)" by (metis prod_cases3)
  from qin(2) r nil stage_limits(1) stage_limits(1) e show ?thesis
  proof (cases rule: dequeue_cases)
    case waits
    with step e show ?thesis by (simp add: fetch_items_def)
  next
    case closed
    with step e nil have w': "w' = w\<lparr>st_pc := St_drain 0\<rparr>" "Q' = Q" by (auto simp: fetch_items_def)
    with pc qin(1) show ?thesis by (auto simp: st_load_def Let_def drops_def intro: local_drop_same)
  next
    case (gets k)
    with step e have w': "w' = w\<lparr>recv_buf := d, st_pc := St_work\<rparr>" "Q' = Q(?q := x)" by (auto simp: fetch_items_def)
    have "rb_contents (buf (Q ?q)) \<noteq> []" using gets(2,9) by auto
    then have "(que_rank ?q - 1) * packets_load (take k (rb_contents (buf (Q ?q)))) + que_rank ?q * packets_load (drop k (rb_contents (buf (Q ?q)))) <
        que_rank ?q * packets_load (rb_contents (buf (Q ?q)))"
      using move_lowers [of "que_rank ?q - 1" "que_rank ?q" k] gets(2) stage_ranks(1) [of u] by simp
    then have "que_load ?q x + st_load u w' < que_load ?q (Q ?q) + st_load u w"
      by (simp add: st_load_def que_load_def Let_def gets(7,8) w'(1) pc nil)
    then show ?thesis unfolding w'(2) by (intro local_dropI [OF qin(1)])
  qed
qed

lemma kernel_load:
  assumes "kernel ev ty u p m = Inr (outs, m')"
  shows "packets_load (map snd outs) \<le> packet_size p"
proof -
  have "packets_load (map Fine (tag_chunks k fs)) = length fs" for k fs by (induction fs arbitrary: k) simp_all
  with assms show ?thesis
    by (cases "(ev, ty, u, p, m)" rule: kernel.cases) (auto simp: map_sum_def comp_def split: sum.splits)
qed

lemma work_drops:
  assumes b: "bufs_ok (stage_of u) w" and pc: "st_pc w = St_work" and ne: "rb_contents (recv_buf w) \<noteq> []"
    and w': "work_item ev ty u w m = (w', m')" "\<forall>e. st_pc w' \<noteq> St_failed e"
  shows "st_load u w' < st_load u w"
proof -
  obtain p ps where p: "rb_contents (recv_buf w) = p # ps" using ne by (cases "rb_contents (recv_buf w)") simp_all
  have "buf_ok (fetch_limit (stage_of u)) (recv_buf w)" using b by (simp add: bufs_ok_def)
  from this p obtain d where d: "ringbuffer_remove (recv_buf w) = (Some p, d)" "rb_contents d = ps" by (rule buf_remove)
  then obtain outs where outs: "kernel ev ty u p m = Inr (outs, m')" "w' = w\<lparr>recv_buf := d, st_pc := St_put outs\<rparr>"
    using w' by (cases "kernel ev ty u p m") (auto simp: work_item_def)
  let ?r = "que_rank (in_que (stage_of u))"
  have "(?r - 2) * packets_load (map snd outs) \<le> (?r - 2) * packet_size p" using kernel_load [OF outs(1)] by simp
  also have "\<dots> < (?r - 1) * packet_size p" using packet_size_pos stage_ranks(1) [of u] by simp
  finally show ?thesis by (simp add: st_load_def Let_def outs(2) d(2) p pc distrib_left)
qed

lemma put_drops:
  assumes b: "bufs_ok (stage_of u) w" and pc: "st_pc w = St_put ((i, p) # outs)" and i: "i < length (out_ques (stage_of u))"
    and room: "room (stage_of u) w i"
  shows "st_load u (put_item i p outs w) < st_load u w"
proof -
  have "buf_ok (insert_limit (stage_of u)) (send_bufs w ! i)" "length (rb_contents (send_bufs w ! i)) < insert_limit (stage_of u)"
    using b i room by (simp_all add: bufs_ok_def room_def)
  then obtain d where d: "ringbuffer_insert (send_bufs w ! i) (Some p) = (0, d)"
      "rb_contents d = rb_contents (send_bufs w ! i) @ [p]" by (rule buf_insert)
  have "bufs_load ((send_bufs w)[i := d]) = bufs_load (send_bufs w) + packet_size p"
    using bufs_load_update [of i "send_bufs w" d] b i d(2) by (simp add: bufs_ok_def)
  moreover have "(que_rank (in_que (stage_of u)) - 3) * packet_size p < (que_rank (in_que (stage_of u)) - 2) * packet_size p"
    using packet_size_pos stage_ranks(1) [of u] by simp
  ultimately show ?thesis using d(1) pc by (simp add: st_load_def Let_def put_item_def distrib_left)
qed

lemma stage_drops:
  assumes ok: "stage_ok u Q w" and q: "ques_ok sz Q (stage_ques u)"
    and opn: "\<And>q. q \<in> set (out_ques (stage_of u)) \<Longrightarrow> st_pc w \<noteq> St_ended \<Longrightarrow> nTerminated (Q q) < nProducers (Q q)"
    and step: "stage_thread_step ev ty u w Q m = Some (w', Q', m')" and good: "\<forall>e. st_pc w' \<noteq> St_failed e"
  shows "local_drop Q Q' (stage_ques u) (st_load u w', st_rank (st_pc w')) (st_load u w, st_rank (st_pc w))"
proof -
  let ?st = "stage_of u"
  have b: "bufs_ok ?st w" using ok by (simp add: stage_ok_def)
  have S: "stage_ques u \<noteq> {}" by (simp add: stage_ques_def)
  have r: "ringbuffer_isEmpty (recv_buf w) \<longleftrightarrow> rb_contents (recv_buf w) = []"
    using b buf_empty by (auto simp: bufs_ok_def)
  show ?thesis
  proof (cases "st_pc w")
    case St_loop
    show ?thesis
    proof (cases "rb_contents (recv_buf w) = []")
      case True
      with step St_loop r have "fetch_items ?st w Q = Some (w', Q')" by (auto simp: stage_thread_step_def Let_def)
      from fetch_drops [OF b St_loop True q this] show ?thesis .
    next
      case False
      with step St_loop r have "w' = w\<lparr>st_pc := St_work\<rparr>" "Q' = Q" by (auto simp: stage_thread_step_def Let_def)
      with St_loop S show ?thesis by (auto simp: st_load_def Let_def drops_def intro: local_drop_same)
    qed
  next
    case St_work
    then have ne: "rb_contents (recv_buf w) \<noteq> []" using ok by (simp add: stage_ok_def)
    from step St_work have w: "work_item ev ty u w m = (w', m')" "Q' = Q"
      by (auto simp: stage_thread_step_def Let_def split: prod.splits)
    from work_drops [OF b St_work ne w(1) good] S w(2) show ?thesis by (auto simp: drops_def intro: local_drop_same)
  next
    case (St_put outs)
    show ?thesis
    proof (cases outs)
      case Nil
      with step St_put have "w' = w\<lparr>st_pc := St_loop\<rparr>" "Q' = Q" by (auto simp: stage_thread_step_def Let_def)
      with St_put Nil S show ?thesis by (auto simp: st_load_def Let_def drops_def intro: local_drop_same)
    next
      case (Cons ip outs')
      obtain i p where ip: "ip = (i, p)" by (cases ip)
      then have "st_pc w = St_put ((i, p) # outs')" using St_put Cons by simp
      moreover from this have "i < length (out_ques ?st)" "room ?st w i" using ok by (simp_all add: stage_ok_def)
      moreover have "w' = put_item i p outs' w" "Q' = Q" using step St_put Cons ip by (auto simp: stage_thread_step_def Let_def)
      ultimately show ?thesis using put_drops [OF b] S by (auto simp: drops_def intro: local_drop_same)
    qed
  next
    case (St_send i outs)
    with ok have i: "i < length (out_ques ?st)" "\<not> drained w i" by (simp_all add: stage_ok_def)
    have e: "send_buffer ?st i (St_put outs) w Q = Some (w', Q')" using step St_send by (auto simp: stage_thread_step_def Let_def)
    have op: "nTerminated (Q (out_ques ?st ! i)) < nProducers (Q (out_ques ?st ! i))" using opn i St_send by simp
    have "unsent (St_put outs) = unsent (st_pc w)" by (simp add: St_send)
    from send_drops [OF b i q op this e] show ?thesis .
  next
    case (St_drain i)
    with ok have pl: "i \<le> length (out_ques ?st)" by (simp add: stage_ok_def)
    with stage_ranks(3) [of u] have i2: "i \<le> 2" by linarith
    show ?thesis
    proof (cases "i < length (out_ques ?st) \<and> \<not> drained w i")
      case True
      then have i: "i < length (out_ques ?st)" "\<not> drained w i" by simp_all
      then have "\<not> ringbuffer_isEmpty (send_bufs w ! i)" using b buf_empty by (auto simp: bufs_ok_def drained_def)
      then have e: "send_buffer ?st i (St_drain i) w Q = Some (w', Q')"
        using step St_drain i by (auto simp: stage_thread_step_def Let_def)
      have op: "nTerminated (Q (out_ques ?st ! i)) < nProducers (Q (out_ques ?st ! i))" using opn i St_drain by simp
      have "unsent (St_drain i) = unsent (st_pc w)" by (simp add: St_drain)
      from send_drops [OF b i q op this e] show ?thesis .
    next
      case False
      then have "i < length (out_ques ?st) \<Longrightarrow> ringbuffer_isEmpty (send_bufs w ! i)"
        using b buf_empty by (auto simp: bufs_ok_def drained_def)
      then have "Q' = Q \<and> (w' = w\<lparr>st_pc := St_drain (i + 1)\<rparr> \<or> w' = w\<lparr>st_pc := St_shutdown\<rparr>)"
        using step St_drain by (auto simp: stage_thread_step_def Let_def split: if_splits)
      with St_drain S i2 show ?thesis by (auto simp: st_load_def Let_def drops_def intro: local_drop_same)
    qed
  next
    case St_shutdown
    then have op: "nTerminated (Q (ends ?st)) < nProducers (Q (ends ?st))" using opn stage_limits(3) by simp
    have E: "ends ?st \<in> stage_ques u" using stage_limits(3) [of u] by (auto simp: stage_ques_def)
    then have "que_ok sz (Q (ends ?st))" using q by (auto simp: ques_ok_def)
    from terminate_cases [OF this op] obtain x where x: "queue_terminate (Q (ends ?st)) = (Done (), x)"
      "buf x = buf (Q (ends ?st))" by metis
    from step St_shutdown x(1) have "w' = w\<lparr>st_pc := St_ended\<rparr>" "Q' = Q(ends ?st := x)" by (auto simp: stage_thread_step_def Let_def)
    with St_shutdown E x(2) show ?thesis
      unfolding local_drop_def by (intro exI [of _ "ends ?st"] exI [of _ x]) (simp add: st_load_def Let_def drops_def que_load_def)
  qed (use step in \<open>simp_all add: stage_thread_step_def Let_def\<close>)
qed

section \<open>Steps of the first and the last thread\<close>

definition fr_load :: "fragmenter \<Rightarrow> nat" where
  "fr_load f = 20 * packets_load (fr_todo f) + 19 * packets_load (rb_contents (fr_send f))"

fun fr_rank :: "nat \<Rightarrow> fr_pc \<Rightarrow> nat" where
  "fr_rank nq (Fr_shutdown i) = nq + 1 - i"
| "fr_rank nq Fr_drain = nq + 2"
| "fr_rank nq Fr_ended = 0"
| "fr_rank nq Fr_failed = 0"
| "fr_rank nq pc = nq + 3"

lemma fragment_send_drops:
  assumes ok: "fragmenter_ok nq f" and ne: "rb_contents (fr_send f) \<noteq> []"
    and q: "ques_ok sz Q (Refine_que ` {..<nq})"
    and opn: "nTerminated (Q (Refine_que (fr_qid f))) < nProducers (Q (Refine_que (fr_qid f)))"
    and step: "fragment_send nq pc f Q = Some (f', Q')"
  shows "local_drop Q Q' (Refine_que ` {..<nq}) (fr_load f', r) (fr_load f, r')"
proof -
  let ?q = "Refine_que (fr_qid f)" and ?c = "rb_contents (fr_send f)"
  have sb: "buf_ok 1 (fr_send f)" using ok by (simp add: fragmenter_ok_def)
  have qin: "?q \<in> Refine_que ` {..<nq}" using ok by (simp add: fragmenter_ok_def)
  then have qok: "que_ok sz (Q ?q)" using q by (auto simp: ques_ok_def)
  obtain res x d where e: "queue_enqueue (Q ?q) (fr_send f) (int ANCHOR_DATA_PER_INSERT) = (res, x, d)" by (metis prod_cases3)
  have "0 < ANCHOR_DATA_PER_INSERT" by (simp add: ANCHOR_DATA_PER_INSERT_def)
  from qok opn sb ne this e show ?thesis
  proof (cases rule: enqueue_cases)
    case waits
    with step e show ?thesis by (simp add: fragment_send_def)
  next
    case (sends k)
    with step e have f': "f' = f\<lparr>fr_send := d, fr_qid := (fr_qid f + 1) mod nq, fr_pc := pc\<rparr>" "Q' = Q(?q := x)"
      by (auto simp: fragment_send_def)
    have "que_rank ?q * packets_load (take k ?c) + 19 * packets_load (drop k ?c) < 19 * packets_load ?c"
      using sends(2) ne by (intro move_lowers) simp_all
    then have "que_load ?q x + fr_load f' < que_load ?q (Q ?q) + fr_load f"
      by (simp add: fr_load_def que_load_def sends(7,8) f'(1) distrib_left)
    then show ?thesis unfolding f'(2) by (intro local_dropI [OF qin])
  qed
qed

lemma fragment_drops:
  assumes ok: "fragmenter_ok nq f" and q: "ques_ok sz Q (Refine_que ` {..<nq})"
    and opn: "\<And>g. g < nq \<Longrightarrow> fr_holds (fr_pc f) g \<Longrightarrow> nTerminated (Q (Refine_que g)) < nProducers (Q (Refine_que g))"
    and step: "fragment_step nq f Q = Some (f', Q')"
  shows "local_drop Q Q' (Refine_que ` {..<nq}) (fr_load f', fr_rank nq (fr_pc f')) (fr_load f, fr_rank nq (fr_pc f))"
proof -
  have qid: "fr_qid f < nq" and sb: "buf_ok 1 (fr_send f)" using ok by (simp_all add: fragmenter_ok_def)
  then have S: "Refine_que ` {..<nq} \<noteq> {}" by auto
  show ?thesis
  proof (cases "fr_pc f")
    case Fr_emit
    show ?thesis
    proof (cases "fr_todo f")
      case Nil
      with step Fr_emit have "f' = f\<lparr>fr_pc := Fr_drain\<rparr>" "Q' = Q" by (auto simp: fragment_step_def)
      with Fr_emit S show ?thesis by (auto simp: fr_load_def drops_def intro: local_drop_same)
    next
      case (Cons p ps)
      with ok Fr_emit have nil: "rb_contents (fr_send f) = []" by (simp add: fragmenter_ok_def)
      then have "length (rb_contents (fr_send f)) < 1" by simp
      with sb obtain d where d: "ringbuffer_insert (fr_send f) (Some p) = (0, d)" "buf_ok 1 d"
          "rb_contents d = rb_contents (fr_send f) @ [p]" by (rule buf_insert)
      with step Fr_emit Cons obtain pc where "f' = f\<lparr>fr_todo := ps, fr_send := d, fr_pc := pc\<rparr>" "Q' = Q"
        by (auto simp: fragment_step_def)
      with S Cons d(3) nil packet_size_pos [of p] show ?thesis
        by (auto simp: fr_load_def drops_def intro: local_drop_same)
    qed
  next
    case Fr_send
    with ok have "rb_contents (fr_send f) \<noteq> []" by (simp add: fragmenter_ok_def)
    from fragment_send_drops [OF ok this q] opn qid Fr_send step show ?thesis by (simp add: fragment_step_def)
  next
    case Fr_drain
    show ?thesis
    proof (cases "rb_contents (fr_send f) = []")
      case True
      with step Fr_drain sb have "f' = f\<lparr>fr_pc := Fr_shutdown 0\<rparr>" "Q' = Q" by (auto simp: fragment_step_def buf_empty)
      with Fr_drain S show ?thesis by (auto simp: fr_load_def drops_def intro: local_drop_same)
    next
      case False
      from fragment_send_drops [OF ok this q] opn qid Fr_drain step sb False show ?thesis
        by (simp add: fragment_step_def buf_empty)
    qed
  next
    case (Fr_shutdown i)
    then have i: "i \<le> nq" using ok by (simp add: fragmenter_ok_def)
    show ?thesis
    proof (cases "i < nq")
      case True
      let ?q = "Refine_que i"
      have qin: "?q \<in> Refine_que ` {..<nq}" "que_ok sz (Q ?q)" using q True by (auto simp: ques_ok_def)
      have op: "nTerminated (Q ?q) < nProducers (Q ?q)" using opn True Fr_shutdown by simp
      from terminate_cases [OF qin(2) op] obtain x where x: "queue_terminate (Q ?q) = (Done (), x)" "buf x = buf (Q ?q)" by metis
      from step Fr_shutdown True x(1) have "f' = f\<lparr>fr_pc := Fr_shutdown (i + 1)\<rparr>" "Q' = Q(?q := x)"
        by (auto simp: fragment_step_def)
      with Fr_shutdown True qin(1) x(2) show ?thesis
        unfolding local_drop_def by (intro exI [of _ ?q] exI [of _ x]) (simp add: fr_load_def drops_def que_load_def)
    next
      case False
      with step Fr_shutdown have "f' = f\<lparr>fr_pc := Fr_ended\<rparr>" "Q' = Q" by (auto simp: fragment_step_def)
      with Fr_shutdown S i show ?thesis by (auto simp: fr_load_def drops_def intro: local_drop_same)
    qed
  qed (use step in \<open>simp_all add: fragment_step_def\<close>)
qed

definition re_load :: "reorderer \<Rightarrow> nat" where
  "re_load re = 5 * packets_load (rb_contents (re_buf re))"

fun re_rank :: "nat \<Rightarrow> re_pc \<Rightarrow> nat" where
  "re_rank nq (Re_write ks) = nq + 11 + length ks"
| "re_rank nq Re_loop = nq + 10"
| "re_rank nq (Re_poll i r) = nq - i + 5"
| "re_rank nq Re_take = 4"
| "re_rank nq Re_flush = 3"
| "re_rank nq (Re_finish ks) = 1 + length ks"
| "re_rank nq Re_ended = 0"
| "re_rank nq (Re_failed e) = 0"

lemma poll_drops:
  assumes ok: "reorderer_ok nq Q re" and pc: "re_pc re = Re_poll i r" "r \<le> 0" "i < nq"
    and q: "ques_ok sz Q (Reorder_que ` {..<nq})" and step: "poll_queue nq i re Q = Some (re', Q')"
  shows "local_drop Q Q' (Reorder_que ` {..<nq}) (re_load re', re_rank nq (re_pc re')) (re_load re, re_rank nq (re_pc re))"
proof -
  let ?q = "Reorder_que (re_qid re)"
  have b: "buf_ok ITEM_PER_FETCH (re_buf re)" and nil: "rb_contents (re_buf re) = []"
    using ok pc by (simp_all add: reorderer_ok_def split: if_splits)
  have qin: "?q \<in> Reorder_que ` {..<nq}" using ok by (simp add: reorderer_ok_def)
  then have qok: "que_ok sz (Q ?q)" using q by (auto simp: ques_ok_def)
  have pos: "0 < ITEM_PER_FETCH" by (simp add: ITEM_PER_FETCH_def)
  obtain res x d where e: "queue_dequeue (Q ?q) (re_buf re) (int ITEM_PER_FETCH) = (res, x, d)" by (metis prod_cases3)
  from qok b nil pos pos e show ?thesis
  proof (cases rule: dequeue_cases)
    case waits
    with step e show ?thesis by (simp add: poll_queue_def)
  next
    case closed
    with step e have "re' = re\<lparr>re_qid := (re_qid re + 1) mod nq, re_pc := Re_poll (i + 1) (-1)\<rparr>" "Q' = Q"
      by (auto simp: poll_queue_def)
    with pc qin show ?thesis by (auto simp: re_load_def drops_def intro: local_drop_same)
  next
    case (gets k)
    with step e have re': "re' = re\<lparr>re_buf := d, re_qid := (re_qid re + 1) mod nq, re_pc := Re_poll (i + 1) (int k)\<rparr>" "Q' = Q(?q := x)"
      by (auto simp: poll_queue_def)
    have "rb_contents (buf (Q ?q)) \<noteq> []" using gets(2,9) by auto
    then have "5 * packets_load (take k (rb_contents (buf (Q ?q)))) + que_rank ?q * packets_load (drop k (rb_contents (buf (Q ?q)))) <
        que_rank ?q * packets_load (rb_contents (buf (Q ?q)))"
      using gets(2) by (intro move_lowers) simp_all
    then have "que_load ?q x + re_load re' < que_load ?q (Q ?q) + re_load re"
      by (simp add: re_load_def que_load_def gets(7,8) re'(1) nil)
    then show ?thesis unfolding re'(2) by (intro local_dropI [OF qin])
  qed
qed

lemma reorder_drops:
  assumes ok: "reorderer_ok nq Q re" and q: "ques_ok sz Q (Reorder_que ` {..<nq})" and pc: "re_pc re \<noteq> Re_flush"
    and step: "reorder_step nq re Q m = Some (re', Q', m')" and good: "\<forall>e. re_pc re' \<noteq> Re_failed e"
  shows "local_drop Q Q' (Reorder_que ` {..<nq}) (re_load re', re_rank nq (re_pc re')) (re_load re, re_rank nq (re_pc re))"
proof -
  have qid: "re_qid re < nq" and b: "buf_ok ITEM_PER_FETCH (re_buf re)" using ok by (simp_all add: reorderer_ok_def)
  then have S: "Reorder_que ` {..<nq} \<noteq> {}" by auto
  note same = local_drop_same [OF S] and simps = re_load_def drops_def reorder_step_def
  show ?thesis
  proof (cases "re_pc re")
    case Re_loop
    with step have "re' = re\<lparr>re_pc := if ringbuffer_isEmpty (re_buf re) then Re_poll 0 0 else Re_take\<rparr>" "Q' = Q"
      by (auto simp: reorder_step_def)
    with Re_loop show ?thesis by (auto simp: simps intro: same)
  next
    case (Re_poll i r)
    show ?thesis
    proof (cases "r \<le> 0 \<and> i < nq")
      case True
      with step Re_poll have e: "poll_queue nq i re Q = Some (re', Q')" by (auto simp: reorder_step_def)
      from True have "r \<le> 0" "i < nq" by simp_all
      from poll_drops [OF ok Re_poll this q e] show ?thesis .
    next
      case False
      with step Re_poll have "re' = re\<lparr>re_pc := if r < 0 then Re_flush else Re_take\<rparr>" "Q' = Q"
        by (auto simp: reorder_step_def)
      with Re_poll show ?thesis by (auto simp: simps intro: same)
    qed
  next
    case Re_take
    then obtain c rest where c: "rb_contents (re_buf re) = Fine c # rest"
      using ok by (cases "rb_contents (re_buf re)") (auto simp: reorderer_ok_def)
    from b c obtain d where d: "ringbuffer_remove (re_buf re) = (Some (Fine c), d)" "rb_contents d = rest" by (rule buf_remove)
    with step Re_take good obtain st pc' where "re' = re\<lparr>re_buf := d, re_state := st, re_pc := pc'\<rparr>" "Q' = Q"
      by (cases "reorder_receive True c (re_state re)") (auto simp: reorder_step_def take_chunk_def)
    with c d(2) show ?thesis by (auto simp: simps intro: same)
  next
    case (Re_write ks)
    with step have "Q' = Q \<and> (re' = re\<lparr>re_pc := Re_loop\<rparr> \<or> ks \<noteq> [] \<and> re' = re\<lparr>re_pc := Re_write (tl ks)\<rparr>)"
      by (cases ks) (auto simp: reorder_step_def)
    with Re_write show ?thesis by (auto simp: simps intro: same)
  next
    case (Re_finish ks)
    with step have "Q' = Q \<and> (re' = re\<lparr>re_pc := Re_ended\<rparr> \<or> ks \<noteq> [] \<and> re' = re\<lparr>re_pc := Re_finish (tl ks)\<rparr>)"
      by (cases ks) (auto simp: reorder_step_def)
    with Re_finish show ?thesis by (auto simp: simps intro: same)
  qed (use step pc in \<open>simp_all add: reorder_step_def\<close>)
qed

section \<open>Steps of the encoder\<close>

definition encoder_load :: "nat \<Rightarrow> encoder \<Rightarrow> nat" where
  "encoder_load n s = (\<Sum>q \<in> encoder_ques n. que_load q (en_que s q)) + (\<Sum>u \<in> stage_threads n. st_load u (en_threads s u)) +
     fr_load (en_fragmenter s) + re_load (en_reorderer s)"

definition encoder_rank :: "nat \<Rightarrow> encoder \<Rightarrow> nat" where
  "encoder_rank n s = (\<Sum>u \<in> stage_threads n. st_rank (st_pc (en_threads s u))) +
     fr_rank (nqueues n) (fr_pc (en_fragmenter s)) + re_rank (nqueues n) (re_pc (en_reorderer s))"

definition encoder_measure :: "nat \<Rightarrow> encoder \<Rightarrow> nat \<times> nat" where
  "encoder_measure n s = (encoder_load n s, encoder_rank n s)"

lemma ques_load:
  assumes "local_drop Q Q' S a b" and "S \<subseteq> E" and "finite E"
  shows "drops ((\<Sum>q \<in> E. que_load q (Q' q)) + fst a + c, snd a + d) ((\<Sum>q \<in> E. que_load q (Q q)) + fst b + c, snd b + d)"
proof -
  obtain p x where p: "p \<in> S" "Q' = Q(p := x)" "drops (que_load p x + fst a, snd a) (que_load p (Q p) + fst b, snd b)"
    using assms(1) by (auto simp: local_drop_def)
  have "(\<Sum>q \<in> E. que_load q (Q' q)) + que_load p (Q p) = (\<Sum>q \<in> E. que_load q (Q q)) + que_load p x"
    using assms(2,3) p(1) by (intro sum_update_one [of E p]) (auto simp: p(2))
  with p(3) show ?thesis by (auto simp: drops_def)
qed

lemma encoder_step_drops:
  assumes step: "encoder_step ev ty n s s'" and inv: "encoder_inv ev ty n sz ds tags s" and job: "job_ok ev ty ds tags"
  shows "drops (encoder_measure n s') (encoder_measure n s)"
proof -
  have ok: "struct_ok n sz s" using inv by (simp add: encoder_inv_def)
  have ok': "struct_ok n sz s'" using encoder_step_inv [OF step inv job] by (simp add: encoder_inv_def)
  have sub: "Refine_que ` {..<nqueues n} \<subseteq> encoder_ques n" "Reorder_que ` {..<nqueues n} \<subseteq> encoder_ques n"
    by (auto simp: encoder_ques_def Let_def)
  have q: "ques_ok sz (en_que s) (encoder_ques n)" using ok by (simp add: struct_ok_def)
  from step show ?thesis
  proof (cases rule: encoder_step.cases)
    case (stage_moves u w Q m)
    let ?w = "en_threads s u" and ?ws = "(en_threads s)(u := w)"
    have wok: "stage_ok u (en_que s) ?w" "stage_ok u Q w"
      using ok ok' stage_moves(1,2) by (auto simp: struct_ok_def)
    then have good: "\<forall>e. st_pc w \<noteq> St_failed e" by (auto simp: stage_ok_def)
    note D = stage_drops [OF wok(1) ques_ok_subset [OF q stage_ques_subset [OF stage_moves(2)]]
        stage_open [OF ok stage_moves(2)] stage_moves(3) good]
    have loads: "(\<Sum>v \<in> stage_threads n. st_load v (?ws v)) + st_load u ?w = (\<Sum>v \<in> stage_threads n. st_load v (en_threads s v)) + st_load u w"
      using stage_moves(2) by (intro sum_update_one [of _ u]) simp_all
    have ranks: "(\<Sum>v \<in> stage_threads n. st_rank (st_pc (?ws v))) + st_rank (st_pc ?w) =
        (\<Sum>v \<in> stage_threads n. st_rank (st_pc (en_threads s v))) + st_rank (st_pc w)"
      using stage_moves(2) by (intro sum_update_one [of _ u]) simp_all
    from ques_load [OF D stage_ques_subset [OF stage_moves(2)] finite_encoder(1), of 0 0] loads ranks show ?thesis
      unfolding stage_moves(1) by (auto simp: encoder_measure_def encoder_load_def encoder_rank_def drops_def)
  next
    case (fragment_moves f Q)
    have opn: "nTerminated (en_que s (Refine_que g)) < nProducers (en_que s (Refine_que g))"
      if "g < nqueues n" "fr_holds (fr_pc (en_fragmenter s)) g" for g
      using ok that sub by (force simp: struct_ok_def balanced_def)
    have "fragmenter_ok (nqueues n) (en_fragmenter s)" using ok by (simp add: struct_ok_def)
    from fragment_drops [OF this ques_ok_subset [OF q sub(1)] opn fragment_moves(2)]
    have D: "local_drop (en_que s) Q (Refine_que ` {..<nqueues n}) (fr_load f, fr_rank (nqueues n) (fr_pc f))
        (fr_load (en_fragmenter s), fr_rank (nqueues n) (fr_pc (en_fragmenter s)))" by blast
    from ques_load [OF D sub(1) finite_encoder(1), of 0 0] show ?thesis
      unfolding fragment_moves(1) by (auto simp: encoder_measure_def encoder_load_def encoder_rank_def drops_def)
  next
    case (reorder_moves re Q m)
    have re: "reorderer_ok (nqueues n) (en_que s) (en_reorderer s)" "\<forall>e. re_pc re \<noteq> Re_failed e"
      using ok ok' reorder_moves(1) by (auto simp: struct_ok_def reorderer_ok_def)
    have D: "local_drop (en_que s) Q (Reorder_que ` {..<nqueues n}) (re_load re, re_rank (nqueues n) (re_pc re))
        (re_load (en_reorderer s), re_rank (nqueues n) (re_pc (en_reorderer s)))"
    proof (cases "re_pc (en_reorderer s) = Re_flush")
      case True
      have "encoder_spread n s = {#}" using nothing_left [OF ok] re(1) True by (simp add: reorderer_ok_def)
      from flush_nothing [OF inv job this] reorder_moves(2) True
      have "re = (en_reorderer s)\<lparr>re_state := re_state (en_reorderer s), re_pc := Re_finish []\<rparr>" "Q = en_que s"
        by (auto simp: reorder_step_def flush_cache_def Let_def)
      moreover have "Reorder_que ` {..<nqueues n} \<noteq> {}" using re(1) by (auto simp: reorderer_ok_def)
      ultimately show ?thesis using True by (auto simp: re_load_def drops_def intro: local_drop_same)
    next
      case False
      from reorder_drops [OF re(1) ques_ok_subset [OF q sub(2)] False reorder_moves(2) re(2)] show ?thesis .
    qed
    from ques_load [OF D sub(2) finite_encoder(1), of 0 0] show ?thesis
      unfolding reorder_moves(1) by (auto simp: encoder_measure_def encoder_load_def encoder_rank_def drops_def)
  qed
qed

text \<open>From every state of a run the threads reach the end, if the queues are long enough.\<close>

lemma no_endless_run:
  assumes job: "job_ok ev ty ds tags" and inv: "encoder_inv ev ty n sz ds tags (f 0)"
    and run: "\<And>i. encoder_step ev ty n (f i) (f (Suc i))"
  shows False
proof -
  have "encoder_inv ev ty n sz ds tags (f i)" for i
    by (induction i) (use inv encoder_step_inv [OF run _ job] in blast)+
  then have "\<forall>i. (encoder_measure n (f (Suc i)), encoder_measure n (f i)) \<in> {(a, b). drops a b}"
    using encoder_step_drops [OF run _ job] by blast
  then show False using wf_drops unfolding wf_iff_no_infinite_down_chain
    by (elim notE) (rule exI [of _ "\<lambda>i. encoder_measure n (f i)"])
qed

lemma run_to_end:
  assumes "encoder_inv ev ty n sz ds tags s" and job: "job_ok ev ty ds tags" and "length ds \<le> sz" "0 < sz"
  shows "\<exists>s'. (encoder_step ev ty n)\<^sup>*\<^sup>* s s' \<and> encoder_inv ev ty n sz ds tags s' \<and> re_pc (en_reorderer s') = Re_ended"
proof -
  have "\<forall>s. encoder_measure n s = x \<longrightarrow> encoder_inv ev ty n sz ds tags s \<longrightarrow>
      (\<exists>s'. (encoder_step ev ty n)\<^sup>*\<^sup>* s s' \<and> encoder_inv ev ty n sz ds tags s' \<and> re_pc (en_reorderer s') = Re_ended)" for x
  proof (induction x rule: wf_induct_rule [OF wf_drops])
    case (1 x)
    show ?case
    proof (intro allI impI)
      fix s assume s: "encoder_measure n s = x" "encoder_inv ev ty n sz ds tags s"
      show "\<exists>s'. (encoder_step ev ty n)\<^sup>*\<^sup>* s s' \<and> encoder_inv ev ty n sz ds tags s' \<and> re_pc (en_reorderer s') = Re_ended"
      proof (cases "\<exists>t. encoder_step ev ty n s t")
        case True
        then obtain t where t: "encoder_step ev ty n s t" by blast
        have "(encoder_measure n t, x) \<in> {(a, b). drops a b}" using encoder_step_drops [OF t s(2) job] s(1) by simp
        from 1 [OF this] encoder_step_inv [OF t s(2) job] obtain s' where
          "(encoder_step ev ty n)\<^sup>*\<^sup>* t s'" "encoder_inv ev ty n sz ds tags s'" "re_pc (en_reorderer s') = Re_ended" by blast
        with t show ?thesis by (metis converse_rtranclp_into_rtranclp)
      next
        case False
        with encoder_idle(3) [OF s(2) job assms(3,4)] s(2) show ?thesis by blast
      qed
    qed
  qed
  with assms(1) show ?thesis by blast
qed

section \<open>Properties\<close>

text \<open>C7. Every run of the parallel encoder ends, whatever the schedule, the number of threads and the length of
  the queues: there is no infinite sequence of steps from its start. Assumed (\<open>job_input\<close>): an input of less
  than 2 GB, memory for every allocation, reads and compressions that succeed, no two pieces of the input with
  the same SHA-1 sum; at least one thread per stage, queues of fewer than 2^31 slots.\<close>

theorem dedup_stages_terminates:
  assumes "job_input ev ty src" and "Fragment ev src = Inr cs" and "0 < nthreads" and "sz + 1 < 2 ^ 31"
    and "fresh_memory ev ty m"
  shows "\<not> (\<exists>f. f 0 = encode_threads nthreads sz cs m \<and> (\<forall>i. encoder_step ev ty nthreads (f i) (f (Suc i))))"
proof
  assume "\<exists>f. f 0 = encode_threads nthreads sz cs m \<and> (\<forall>i. encoder_step ev ty nthreads (f i) (f (Suc i)))"
  then obtain f where f: "f 0 = encode_threads nthreads sz cs m" "\<And>i. encoder_step ev ty nthreads (f i) (f (Suc i))" by blast
  have "encoder_reaches ev ty nthreads sz cs (f 0)" using assms(5) f(1) unfolding encoder_reaches_def by auto
  with reaches_inv [OF assms(1-4)] obtain fs where
    fs: "job_ok ev ty (map fine_data fs) (tag_chunks 0 fs)"
    "encoder_inv ev ty nthreads sz (map fine_data fs) (tag_chunks 0 fs) (f 0)" by metis
  from no_endless_run [OF fs f(2)] show False .
qed

end
