(* ===== verification/Dedup_Stages_Sleep.thy ===== *)
theory Dedup_Stages_Sleep
  imports Dedup_Stages_Runs
begin

text \<open>
  The condition variables of the parallel encoder. In \<open>Dedup_Stages\<close> a thread that has to wait has no step
  until what it waits for holds. Here it goes to sleep in \<open>pthread_cond_wait\<close> and runs its loop again only
  after it has been woken: by a signal or broadcast that another thread has raised in \<open>queue.c\<close> or in
  \<open>sub_Compress\<close>, or for no reason. \<open>pthread_cond_signal\<close> wakes any one of the threads asleep on the
  variable, if there is one, \<open>pthread_cond_broadcast\<close> wakes all of them; a signal nobody waits for is lost.
\<close>

section \<open>The threads and what they sleep on\<close>

datatype encoder_thread = Fragment_thread | Stage_thread stage_thread | Reorder_thread

datatype cond_var = Not_empty que_id | Not_full que_id | Chunk_update nat

type_synonym sleepers = "encoder_thread \<Rightarrow> cond_var option"

definition encoder_threads :: "nat \<Rightarrow> encoder_thread set" where
  "encoder_threads nthreads = {Fragment_thread, Reorder_thread} \<union> Stage_thread ` stage_threads nthreads"

fun thread_moves :: "env \<Rightarrow> int \<Rightarrow> nat \<Rightarrow> encoder_thread \<Rightarrow> encoder \<Rightarrow> encoder option" where
  "thread_moves ev ty nthreads Fragment_thread s =
     map_option (\<lambda>(f, Q). s\<lparr>en_fragmenter := f, en_que := Q\<rparr>)
       (fragment_step (nqueues nthreads) (en_fragmenter s) (en_que s))"
| "thread_moves ev ty nthreads (Stage_thread u) s =
     map_option (\<lambda>(w, Q, m). s\<lparr>en_threads := (en_threads s)(u := w), en_que := Q, en_memory := m\<rparr>)
       (stage_thread_step ev ty u (en_threads s u) (en_que s) (en_memory s))"
| "thread_moves ev ty nthreads Reorder_thread s =
     map_option (\<lambda>(re, Q, m). s\<lparr>en_reorderer := re, en_que := Q, en_memory := m\<rparr>)
       (reorder_step (nqueues nthreads) (en_reorderer s) (en_que s) (en_memory s))"

text \<open>The chunk whose state \<open>write_chunk_to_file\<close> tests: the original of a duplicate.\<close>

definition written_chunk :: "par_memory \<Rightarrow> nat \<Rightarrow> nat" where
  "written_chunk m i = (if isDuplicate (chunk m i) then compressed_data_ref (chunk m i) else i)"

text \<open>The condition variable of the call of \<open>pthread_cond_wait\<close> that a thread may be about to make.\<close>

fun waits_on :: "encoder_thread \<Rightarrow> encoder \<Rightarrow> cond_var option" where
  "waits_on Fragment_thread s =
     (if fr_pc (en_fragmenter s) \<in> {Fr_send, Fr_drain} then Some (Not_full (Refine_que (fr_qid (en_fragmenter s))))
      else None)"
| "waits_on (Stage_thread u) s =
     (case st_pc (en_threads s u) of
        St_loop \<Rightarrow> Some (Not_empty (in_que (stage_of u)))
      | St_send i outs \<Rightarrow> Some (Not_full (out_ques (stage_of u) ! i))
      | St_drain i \<Rightarrow> Some (Not_full (out_ques (stage_of u) ! i))
      | _ \<Rightarrow> None)"
| "waits_on Reorder_thread s =
     (case re_pc (en_reorderer s) of
        Re_poll i r \<Rightarrow> Some (Not_empty (Reorder_que (re_qid (en_reorderer s))))
      | Re_write (i # is) \<Rightarrow> Some (Chunk_update (written_chunk (en_memory s) i))
      | Re_finish (i # is) \<Rightarrow> Some (Chunk_update (written_chunk (en_memory s) i))
      | _ \<Rightarrow> None)"

section \<open>Waking\<close>

definition cond_wake_all :: "cond_var \<Rightarrow> sleepers \<Rightarrow> sleepers" where
  "cond_wake_all c A = (\<lambda>t. if A t = Some c then None else A t)"

text \<open>What the signals raised on the queue \<open>q\<close> make of the sleepers, in order.\<close>

inductive delivers :: "que_id \<Rightarrow> pthread_signal list \<Rightarrow> sleepers \<Rightarrow> sleepers \<Rightarrow> bool" for q where
  no_signal: "delivers q [] A A"
| broadcast: "delivers q sgs (cond_wake_all (Not_empty q) A) A' \<Longrightarrow> delivers q (Broadcast_notEmpty # sgs) A A'"
| signal_empty: "A t = Some (Not_empty q) \<Longrightarrow> delivers q sgs (A(t := None)) A' \<Longrightarrow>
     delivers q (Signal_notEmpty # sgs) A A'"
| nobody_empty: "\<forall>t. A t \<noteq> Some (Not_empty q) \<Longrightarrow> delivers q sgs A A' \<Longrightarrow> delivers q (Signal_notEmpty # sgs) A A'"
| signal_full: "A t = Some (Not_full q) \<Longrightarrow> delivers q sgs (A(t := None)) A' \<Longrightarrow>
     delivers q (Signal_notFull # sgs) A A'"
| nobody_full: "\<forall>t. A t \<noteq> Some (Not_full q) \<Longrightarrow> delivers q sgs A A' \<Longrightarrow> delivers q (Signal_notFull # sgs) A A'"

inductive_simps delivers_simps [simp]:
  "delivers q [] A A'" "delivers q (Broadcast_notEmpty # sgs) A A'"
  "delivers q (Signal_notEmpty # sgs) A A'" "delivers q (Signal_notFull # sgs) A A'"

definition new_signals :: "que_id \<Rightarrow> ques \<Rightarrow> ques \<Rightarrow> pthread_signal list" where
  "new_signals q Q Q' = drop (length (raised (Q q))) (raised (Q' q))"

text \<open>\<open>sub_Compress\<close> broadcasts on the variable of the chunk it has compressed, which is the first of the
  receive buffer.\<close>

fun compressed_chunk :: "encoder_thread \<Rightarrow> encoder \<Rightarrow> nat option" where
  "compressed_chunk (Stage_thread (Compressor tid)) s =
     (let w = en_threads s (Compressor tid)
      in if st_pc w = St_work
         then (case fst (ringbuffer_remove (recv_buf w)) of Some (Fine c) \<Rightarrow> Some (snd (payload c)) | _ \<Rightarrow> None)
         else None)"
| "compressed_chunk t s = None"

definition update_broadcast :: "nat option \<Rightarrow> sleepers \<Rightarrow> sleepers" where
  "update_broadcast ch A = (case ch of None \<Rightarrow> A | Some i \<Rightarrow> cond_wake_all (Chunk_update i) A)"

section \<open>The steps\<close>

text \<open>A thread that is awake makes its step, and whoever it wakes is awake; or it goes to sleep.\<close>

inductive cv_step :: "env \<Rightarrow> int \<Rightarrow> nat \<Rightarrow> encoder \<times> sleepers \<Rightarrow> encoder \<times> sleepers \<Rightarrow> bool"
  for ev ty nthreads where
  moves: "t \<in> encoder_threads nthreads \<Longrightarrow> A t = None \<Longrightarrow> thread_moves ev ty nthreads t s = Some s' \<Longrightarrow>
     (\<And>p. p \<noteq> q \<Longrightarrow> en_que s' p = en_que s p) \<Longrightarrow>
     delivers q (new_signals q (en_que s) (en_que s')) (update_broadcast (compressed_chunk t s) A) A' \<Longrightarrow>
     cv_step ev ty nthreads (s, A) (s', A')"
| sleeps: "t \<in> encoder_threads nthreads \<Longrightarrow> A t = None \<Longrightarrow> thread_moves ev ty nthreads t s = None \<Longrightarrow>
     waits_on t s = Some c \<Longrightarrow> cv_step ev ty nthreads (s, A) (s, A(t \<mapsto> c))"

inductive spurious :: "encoder \<times> sleepers \<Rightarrow> encoder \<times> sleepers \<Rightarrow> bool" where
  wakes: "A t = Some c \<Longrightarrow> spurious (s, A) (s, A(t := None))"

definition cv_run :: "env \<Rightarrow> int \<Rightarrow> nat \<Rightarrow> encoder \<times> sleepers \<Rightarrow> encoder \<times> sleepers \<Rightarrow> bool" where
  "cv_run ev ty nthreads = (\<lambda>x y. cv_step ev ty nthreads x y \<or> spurious x y)\<^sup>*\<^sup>*"

definition cv_reaches :: "env \<Rightarrow> int \<Rightarrow> nat \<Rightarrow> nat \<Rightarrow> coarse_chunk list \<Rightarrow> encoder \<Rightarrow> sleepers \<Rightarrow> bool" where
  "cv_reaches ev ty nthreads sz cs s A \<longleftrightarrow>
     (\<exists>m. fresh_memory ev ty m \<and> cv_run ev ty nthreads (encode_threads nthreads sz cs m, \<lambda>_. None) (s, A))"

text \<open>Every step is one of \<open>Dedup_Stages\<close> or leaves the encoder as it is.\<close>

lemma encoder_step_thread:
  "encoder_step ev ty n s s' \<longleftrightarrow> (\<exists>t \<in> encoder_threads n. thread_moves ev ty n t s = Some s')"
proof
  assume "encoder_step ev ty n s s'"
  then show "\<exists>t \<in> encoder_threads n. thread_moves ev ty n t s = Some s'"
  proof cases
    case (stage_moves u w Q m)
    then show ?thesis by (intro bexI [of _ "Stage_thread u"]) (simp_all add: encoder_threads_def)
  next
    case (fragment_moves f Q)
    then show ?thesis by (intro bexI [of _ Fragment_thread]) (simp_all add: encoder_threads_def)
  next
    case (reorder_moves re Q m)
    then show ?thesis by (intro bexI [of _ Reorder_thread]) (simp_all add: encoder_threads_def)
  qed
next
  assume "\<exists>t \<in> encoder_threads n. thread_moves ev ty n t s = Some s'"
  then obtain t where t: "t \<in> encoder_threads n" "thread_moves ev ty n t s = Some s'" by blast
  then show "encoder_step ev ty n s s'"
    by (cases t) (auto simp: encoder_threads_def intro: encoder_step.intros)
qed

lemma cv_step_encoder: "cv_step ev ty n x y \<Longrightarrow> encoder_step ev ty n (fst x) (fst y) \<or> fst y = fst x"
  by (cases rule: cv_step.cases) (auto simp: encoder_step_thread)

lemma cv_run_encoder: "cv_run ev ty n x y \<Longrightarrow> (encoder_step ev ty n)\<^sup>*\<^sup>* (fst x) (fst y)"
  unfolding cv_run_def
proof (induction rule: rtranclp_induct)
  case (step y z)
  then have "encoder_step ev ty n (fst y) (fst z) \<or> fst z = fst y"
    using cv_step_encoder [of ev ty n y z] by (auto elim: spurious.cases)
  with step.IH show ?case by (metis rtranclp.rtrancl_into_rtrancl)
qed simp

lemma cv_reaches_encoder: "cv_reaches ev ty n sz cs s A \<Longrightarrow> encoder_reaches ev ty n sz cs s"
  unfolding cv_reaches_def encoder_reaches_def using cv_run_encoder by fastforce

lemma delivers_total: "\<exists>A'. delivers q sgs A A'"
proof (induction sgs arbitrary: A)
  case Nil
  show ?case by simp
next
  case (Cons sg sgs)
  show ?case
  proof (cases sg)
    case Broadcast_notEmpty
    with Cons show ?thesis by simp
  next
    case Signal_notEmpty
    show ?thesis
    proof (cases "\<exists>t. A t = Some (Not_empty q)")
      case True
      then obtain t where t: "A t = Some (Not_empty q)" by blast
      from Cons [of "A(t := None)"] obtain A' where "delivers q sgs (A(t := None)) A'" by blast
      with t Signal_notEmpty show ?thesis by (meson delivers.signal_empty)
    qed (use Cons Signal_notEmpty in simp)
  next
    case Signal_notFull
    show ?thesis
    proof (cases "\<exists>t. A t = Some (Not_full q)")
      case True
      then obtain t where t: "A t = Some (Not_full q)" by blast
      from Cons [of "A(t := None)"] obtain A' where "delivers q sgs (A(t := None)) A'" by blast
      with t Signal_notFull show ?thesis by (meson delivers.signal_full)
    qed (use Cons Signal_notFull in simp)
  qed
qed

lemma delivers_wakes: "delivers q sgs A A' \<Longrightarrow> A' t = A t \<or> A' t = None"
  by (induction rule: delivers.induct) (auto simp: cond_wake_all_def split: if_splits)

end
