(* ===== verification/Dedup_Stages_Turns.thy ===== *)
theory Dedup_Stages_Turns
  imports Dedup_Stages_Sleep
begin

text \<open>
  What one step of a thread does to the queues and which signal it raises there.
\<close>

definition sent :: "packet queue_t \<Rightarrow> packet queue_t \<Rightarrow> bool" where
  "sent que x \<longleftrightarrow> nProducers x = nProducers que \<and> nTerminated x = nTerminated que \<and>
     raised x = raised que @ [Signal_notEmpty]"

definition got :: "packet queue_t \<Rightarrow> packet queue_t \<Rightarrow> bool" where
  "got que x \<longleftrightarrow> nProducers x = nProducers que \<and> nTerminated x = nTerminated que \<and>
     rb_contents (buf que) \<noteq> [] \<and> raised x = raised que @ [Signal_notFull]"

definition closed_once :: "packet queue_t \<Rightarrow> packet queue_t \<Rightarrow> bool" where
  "closed_once que x \<longleftrightarrow> nProducers x = nProducers que \<and> nTerminated x = nTerminated que + 1 \<and> buf x = buf que \<and>
     raised x = raised que @ (if nTerminated x = nProducers x then [Broadcast_notEmpty] else [])"

lemma enqueue_raises:
  "queue_enqueue que src limit = (Done r, x, d) \<Longrightarrow>
     raised x = raised que @ (if 0 < r then [Signal_notEmpty] else [])"
  by (auto simp: queue_enqueue_def raise_if_def split: option.splits bool.splits if_splits prod.splits c_result.splits)

lemma dequeue_raises:
  "queue_dequeue que dst limit = (Done r, x, d) \<Longrightarrow>
     raised x = raised que @ (if 0 < r then [Signal_notFull] else [])"
  by (auto simp: queue_dequeue_def raise_if_def split: option.splits if_splits prod.splits c_result.splits)

lemma terminate_raises: "queue_terminate que = (Done (), x) \<Longrightarrow> closed_once que x"
  by (auto simp: queue_terminate_def queue_isTerminated_def closed_once_def Let_def split: if_splits)

section \<open>The threads in the middle\<close>

lemma send_turn:
  assumes step: "send_buffer st i pc w Q = Some (w', Q')" and good: "\<forall>e. st_pc w' \<noteq> St_failed e"
  obtains x where "Q' = Q(out_ques st ! i := x)" "sent (Q (out_ques st ! i)) x"
proof -
  let ?q = "out_ques st ! i"
  obtain res x d where e: "queue_enqueue (Q ?q) (send_bufs w ! i) (int (insert_limit st)) = (res, x, d)" by (metis prod_cases3)
  with step good obtain r where r: "res = Done r" "1 \<le> r" "Q' = Q(?q := x)"
    by (cases res) (auto simp: send_buffer_def split: if_splits)
  with enqueue_raises [of "Q ?q" "send_bufs w ! i" "int (insert_limit st)" r x d] enqueue_fields [OF e] e
  have "sent (Q ?q) x" by (simp add: sent_def)
  with r(3) that show ?thesis by blast
qed

lemma fetch_turn:
  assumes b: "bufs_ok (stage_of u) w" and nil: "rb_contents (recv_buf w) = []"
    and q: "ques_ok sz Q (stage_ques u)" and step: "fetch_items (stage_of u) w Q = Some (w', Q')"
  shows "Q' = Q \<or> (\<exists>x. Q' = Q(in_que (stage_of u) := x) \<and> got (Q (in_que (stage_of u))) x)"
proof -
  let ?st = "stage_of u" and ?q = "in_que (stage_of u)"
  have qin: "que_ok sz (Q ?q)" using q by (auto simp: ques_ok_def stage_ques_def)
  have r: "buf_ok (fetch_limit ?st) (recv_buf w)" using b by (simp add: bufs_ok_def)
  obtain res x d where e: "queue_dequeue (Q ?q) (recv_buf w) (int (fetch_limit ?st)) = (res, x, d)" by (metis prod_cases3)
  from qin r nil stage_limits(1) stage_limits(1) e show ?thesis
  proof (cases rule: dequeue_cases)
    case (gets k)
    then have "got (Q ?q) x" using dequeue_raises [OF e [unfolded gets(1)]] by (auto simp: got_def)
    with gets(1) step e show ?thesis by (auto simp: fetch_items_def)
  qed (use step e in \<open>auto simp: fetch_items_def\<close>)
qed

lemma stage_turn:
  assumes ok: "stage_ok u Q w" and q: "ques_ok sz Q (stage_ques u)"
    and step: "stage_thread_step ev ty u w Q m = Some (w', Q', m')" and good: "\<forall>e. st_pc w' \<noteq> St_failed e"
  obtains (same) "Q' = Q"
  | (sends) p x where "p \<in> set (out_ques (stage_of u))" "Q' = Q(p := x)" "sent (Q p) x"
  | (gets) x where "Q' = Q(in_que (stage_of u) := x)" "got (Q (in_que (stage_of u))) x"
  | (closes) x where "Q' = Q(ends (stage_of u) := x)" "closed_once (Q (ends (stage_of u))) x"
proof (cases "st_pc w")
  case St_loop
  have b: "bufs_ok (stage_of u) w" using ok by (simp add: stage_ok_def)
  then have "ringbuffer_isEmpty (recv_buf w) \<longleftrightarrow> rb_contents (recv_buf w) = []" using buf_empty by (auto simp: bufs_ok_def)
  then have "Q' = Q \<or> rb_contents (recv_buf w) = [] \<and> fetch_items (stage_of u) w Q = Some (w', Q')"
    using step St_loop by (auto simp: stage_thread_step_def Let_def split: if_splits)
  with fetch_turn [OF b _ q] same gets show ?thesis by metis
next
  case (St_put outs)
  with step same show ?thesis by (cases outs) (auto simp: stage_thread_step_def Let_def)
next
  case (St_send i outs)
  with ok have i: "i < length (out_ques (stage_of u))" by (simp add: stage_ok_def)
  from step St_send have "send_buffer (stage_of u) i (St_put outs) w Q = Some (w', Q')"
    by (auto simp: stage_thread_step_def Let_def)
  from send_turn [OF this good] sends i show ?thesis by (metis nth_mem)
next
  case (St_drain i)
  then consider "Q' = Q" | "i < length (out_ques (stage_of u))" "send_buffer (stage_of u) i (St_drain i) w Q = Some (w', Q')"
    using step by (auto simp: stage_thread_step_def Let_def split: if_splits)
  then show ?thesis
  proof cases
    case 2
    from send_turn [OF this(2) good] sends this(1) show ?thesis by (metis nth_mem)
  qed (rule same)
next
  case St_shutdown
  with step good obtain x where "queue_terminate (Q (ends (stage_of u))) = (Done (), x)" "Q' = Q(ends (stage_of u) := x)"
    by (auto simp: stage_thread_step_def Let_def split: prod.splits c_result.splits)
  with terminate_raises closes show ?thesis by blast
qed (use step same in \<open>auto simp: stage_thread_step_def Let_def split: prod.splits\<close>)

section \<open>The first and the last thread\<close>

lemma fragment_turn:
  assumes step: "fragment_step nq f Q = Some (f', Q')" and good: "fr_pc f' \<noteq> Fr_failed"
  obtains (same) "Q' = Q"
  | (sends) g x where "Q' = Q(Refine_que g := x)" "sent (Q (Refine_que g)) x"
  | (closes) g x where "Q' = Q(Refine_que g := x)" "closed_once (Q (Refine_que g)) x"
proof -
  have send: ?thesis if s: "fragment_send nq pc f Q = Some (f', Q')" for pc
  proof -
    let ?q = "Refine_que (fr_qid f)"
    obtain res x d where e: "queue_enqueue (Q ?q) (fr_send f) (int ANCHOR_DATA_PER_INSERT) = (res, x, d)" by (metis prod_cases3)
    with s good obtain r where r: "res = Done r" "1 \<le> r" "Q' = Q(?q := x)"
      by (cases res) (auto simp: fragment_send_def split: if_splits)
    with enqueue_raises [OF e [unfolded r(1)]] enqueue_fields [OF e] have "sent (Q ?q) x" by (simp add: sent_def)
    with r(3) sends show ?thesis by blast
  qed
  show ?thesis
  proof (cases "fr_pc f")
    case Fr_emit
    with step same show ?thesis by (auto simp: fragment_step_def split: list.splits prod.splits)
  next
    case Fr_drain
    with step same send show ?thesis by (auto simp: fragment_step_def split: if_splits)
  next
    case (Fr_shutdown i)
    show ?thesis
    proof (cases "i < nq")
      case True
      obtain res x where t: "queue_terminate (Q (Refine_que i)) = (res, x)" by fastforce
      with step good Fr_shutdown True have r: "res = Done () \<and> Q' = Q(Refine_que i := x)"
        by (cases res) (auto simp: fragment_step_def)
      with t have "queue_terminate (Q (Refine_que i)) = (Done (), x)" by simp
      from closes [OF conjunct2 [OF r] terminate_raises [OF this]] show ?thesis .
    next
      case False
      with step Fr_shutdown same show ?thesis by (simp add: fragment_step_def)
    qed
  qed (use step send in \<open>simp_all add: fragment_step_def\<close>)
qed

lemma reorder_turn:
  assumes ok: "reorderer_ok nq Q re" and q: "ques_ok sz Q (Reorder_que ` {..<nq})"
    and step: "reorder_step nq re Q m = Some (re', Q', m')"
  obtains (same) "Q' = Q" | (gets) g x where "Q' = Q(Reorder_que g := x)" "got (Q (Reorder_que g)) x"
proof (cases "\<exists>i r. re_pc re = Re_poll i r \<and> r \<le> 0 \<and> i < nq")
  case True
  then obtain i r where pc: "re_pc re = Re_poll i r" "r \<le> 0" "i < nq" by blast
  with step have p: "poll_queue nq i re Q = Some (re', Q')" by (auto simp: reorder_step_def)
  let ?q = "Reorder_que (re_qid re)"
  have b: "buf_ok ITEM_PER_FETCH (re_buf re)" and nil: "rb_contents (re_buf re) = []"
    and qin: "que_ok sz (Q ?q)" using ok q pc by (auto simp: reorderer_ok_def ques_ok_def split: if_splits)
  have pos: "0 < ITEM_PER_FETCH" by (simp add: ITEM_PER_FETCH_def)
  obtain res x d where e: "queue_dequeue (Q ?q) (re_buf re) (int ITEM_PER_FETCH) = (res, x, d)" by (metis prod_cases3)
  from qin b nil pos pos e show ?thesis
  proof (cases rule: dequeue_cases)
    case (gets k)
    then have "got (Q ?q) x" using dequeue_raises [OF e [unfolded gets(1)]] by (auto simp: got_def)
    with gets(1) p e that(2) show ?thesis by (auto simp: poll_queue_def)
  qed (use p e same in \<open>auto simp: poll_queue_def\<close>)
next
  case False
  with step same show ?thesis
    by (cases "re_pc re") (auto simp: reorder_step_def split: list.splits if_splits)
qed

end
