(* ===== verification/Dedup_Stages_Wakeups.thy ===== *)
theory Dedup_Stages_Wakeups
  imports Dedup_Stages_Turns
begin

text \<open>
  No wake-up of the parallel encoder is lost: what a sleeping thread waits for does not hold, or another
  consumer of the same queue is awake. With \<open>encoder_idle\<close> some thread that is awake has a step until all have
  ended.
\<close>

section \<open>The invariant of the sleepers\<close>

fun sleeps_at :: "nat \<Rightarrow> encoder \<Rightarrow> encoder_thread \<Rightarrow> cond_var \<Rightarrow> bool" where
  "sleeps_at n s Fragment_thread c \<longleftrightarrow>
     (let f = en_fragmenter s in c = Not_full (Refine_que (fr_qid f)) \<and> fr_pc f \<in> {Fr_send, Fr_drain} \<and>
        rb_contents (fr_send f) \<noteq> [])"
| "sleeps_at n s (Stage_thread u) c \<longleftrightarrow>
     u \<in> stage_threads n \<and> c = Not_empty (in_que (stage_of u)) \<and> st_pc (en_threads s u) = St_loop \<and>
     rb_contents (recv_buf (en_threads s u)) = []"
| "sleeps_at n s Reorder_thread c \<longleftrightarrow>
     (let re = en_reorderer s; m = en_memory s in
        (\<exists>i r. re_pc re = Re_poll i r \<and> r \<le> 0 \<and> i < nqueues n \<and> c = Not_empty (Reorder_que (re_qid re))) \<or>
        (\<exists>i is. writing (re_pc re) = i # is \<and> c = Chunk_update (written_chunk m i) \<and>
           state (chunk m (written_chunk m i)) = CHUNK_STATE_UNCOMPRESSED))"

fun que_cond :: "nat \<Rightarrow> ques \<Rightarrow> encoder_thread \<Rightarrow> cond_var \<Rightarrow> bool" where
  "que_cond sz Q t (Not_empty q) \<longleftrightarrow>
     nTerminated (Q q) < nProducers (Q q) \<and> (t = Reorder_thread \<longrightarrow> rb_contents (buf (Q q)) = [])"
| "que_cond sz Q t (Not_full q) \<longleftrightarrow> length (rb_contents (buf (Q q))) = sz"
| "que_cond sz Q t (Chunk_update i) \<longleftrightarrow> True"

text \<open>A queue that holds something has a consumer that is not asleep.\<close>

definition served :: "nat \<Rightarrow> ques \<Rightarrow> sleepers \<Rightarrow> bool" where
  "served n Q A \<longleftrightarrow>
     (\<forall>u. A (Stage_thread u) \<noteq> None \<longrightarrow> rb_contents (buf (Q (in_que (stage_of u)))) \<noteq> [] \<longrightarrow>
        (\<exists>v \<in> stage_threads n. in_que (stage_of v) = in_que (stage_of u) \<and> A (Stage_thread v) = None))"

definition sleepers_ok :: "nat \<Rightarrow> nat \<Rightarrow> encoder \<Rightarrow> sleepers \<Rightarrow> bool" where
  "sleepers_ok n sz s A \<longleftrightarrow>
     (\<forall>t c. A t = Some c \<longrightarrow> sleeps_at n s t c \<and> que_cond sz (en_que s) t c) \<and> served n (en_que s) A"

lemma sleepers_okD: "sleepers_ok n sz s A \<Longrightarrow> A t = Some c \<Longrightarrow> sleeps_at n s t c \<and> que_cond sz (en_que s) t c"
  by (simp add: sleepers_ok_def)

lemma in_que_sort: "in_que (stage_of u) \<noteq> Reorder_que g"
  by (cases u) (simp_all add: Let_def)

lemma out_que_sort: "p \<in> set (out_ques (stage_of u)) \<Longrightarrow> p \<noteq> Refine_que g"
  by (cases u) (auto simp: Let_def)

lemma sleeps_not_full: "sleeps_at n s t (Not_full q) \<Longrightarrow> t = Fragment_thread"
  by (cases t) (auto simp: Let_def)

lemma sleeps_not_empty:
  "sleeps_at n s t (Not_empty q) \<Longrightarrow>
     t = Reorder_thread \<and> (\<exists>g. q = Reorder_que g) \<or> (\<exists>u \<in> stage_threads n. t = Stage_thread u \<and> q = in_que (stage_of u))"
  by (cases t) (auto simp: Let_def)

lemma reorder_sleeps: "sleeps_at n s Reorder_thread (Not_empty q) \<Longrightarrow> \<exists>g. q = Reorder_que g"
  by (auto simp: Let_def)

lemma sleeps_reorder: "sleeps_at n s t (Not_empty (Reorder_que g)) \<Longrightarrow> t = Reorder_thread"
  using sleeps_not_empty [of n s t "Reorder_que g"] in_que_sort by metis

lemma fragment_sleeps: "sleeps_at n s Fragment_thread c \<Longrightarrow> \<exists>g. c = Not_full (Refine_que g)"
  by (auto simp: Let_def)

section \<open>What a step does to the sleepers\<close>

text \<open>Only the first thread sends to the queues it sleeps on, and who takes from a queue is awake.\<close>

definition turn :: "nat \<Rightarrow> sleepers \<Rightarrow> que_id \<Rightarrow> packet queue_t \<Rightarrow> packet queue_t \<Rightarrow> bool" where
  "turn n A q que x \<longleftrightarrow>
     (sent que x \<or> closed_once que x) \<and> (A Fragment_thread = None \<or> (\<forall>g. q \<noteq> Refine_que g)) \<or>
     got que x \<and> ((\<exists>g. q = Reorder_que g) \<and> A Reorder_thread = None \<or>
       (\<exists>u \<in> stage_threads n. q = in_que (stage_of u) \<and> A (Stage_thread u) = None))"

lemma update_wakes: "update_broadcast ch A t = A t \<or> update_broadcast ch A t = None"
  by (auto simp: update_broadcast_def cond_wake_all_def split: option.splits)

lemma update_keeps: "A t = Some c \<Longrightarrow> (\<And>i. c \<noteq> Chunk_update i) \<Longrightarrow> update_broadcast ch A t = Some c"
  by (auto simp: update_broadcast_def cond_wake_all_def split: option.splits)

lemma still_asleep:
  assumes "delivers q sgs (update_broadcast ch A) A'" and "A' t = Some c"
  shows "A t = Some c"
  using delivers_wakes [OF assms(1), of t] update_wakes [of ch A t] assms(2) by auto

lemma still_awake:
  assumes "delivers q sgs (update_broadcast ch A) A'" and "A t = None"
  shows "A' t = None"
  using still_asleep [OF assms(1), of t] assms(2) by (cases "A' t") auto

text \<open>The signal of a queue finds a sleeper if there is one.\<close>

lemma empty_signal_wakes:
  assumes "delivers q [Signal_notEmpty] (update_broadcast ch A) A'" and "A' t = Some (Not_empty q)"
  obtains t' where "A t' = Some (Not_empty q)" "A' t' = None"
proof -
  have t: "update_broadcast ch A t = Some (Not_empty q)"
    by (rule update_keeps) (simp_all add: still_asleep [OF assms])
  with assms(1) obtain t' where "update_broadcast ch A t' = Some (Not_empty q)" "A' = (update_broadcast ch A)(t' := None)"
    by auto
  with that update_wakes [of ch A t'] show ?thesis by auto
qed

lemma full_signal_wakes:
  assumes "delivers q [Signal_notFull] (update_broadcast ch A) A'" and "A' t = Some (Not_full q)"
  obtains t' where "A t' = Some (Not_full q)" "A' t' = None"
proof -
  have t: "update_broadcast ch A t = Some (Not_full q)"
    by (rule update_keeps) (simp_all add: still_asleep [OF assms])
  with assms(1) obtain t' where "update_broadcast ch A t' = Some (Not_full q)" "A' = (update_broadcast ch A)(t' := None)"
    by auto
  with that update_wakes [of ch A t'] show ?thesis by auto
qed

lemma new_signals_update [simp]: "raised x = raised (Q q) @ sgs \<Longrightarrow> new_signals q Q (Q(q := x)) = sgs"
  by (simp add: new_signals_def)

lemma turn_keeps_cond:
  assumes inv: "\<And>t c. A t = Some c \<Longrightarrow> sleeps_at n s t c \<and> que_cond sz Q t c" and tn: "turn n A q (Q q) x"
    and d: "delivers q (new_signals q Q (Q(q := x))) (update_broadcast ch A) A'" and a: "A' t = Some c"
  shows "que_cond sz (Q(q := x)) t c"
proof -
  have A: "A t = Some c" by (rule still_asleep [OF d a])
  with inv have c: "sleeps_at n s t c" "que_cond sz Q t c" by blast+
  show ?thesis
  proof (cases "c = Not_empty q \<or> c = Not_full q")
    case False
    with c(2) show ?thesis by (cases c) auto
  next
    case True
    from tn consider (sent) "sent (Q q) x" "A Fragment_thread = None \<or> (\<forall>g. q \<noteq> Refine_que g)"
      | (closed) "closed_once (Q q) x" "A Fragment_thread = None \<or> (\<forall>g. q \<noteq> Refine_que g)"
      | (got) "got (Q q) x" "(\<exists>g. q = Reorder_que g) \<and> A Reorder_thread = None \<or> (\<exists>u. q = in_que (stage_of u))"
      unfolding turn_def by blast
    then show ?thesis
    proof cases
      case sent
      have "c \<noteq> Not_full q"
        using sleeps_not_full [of n s t q] fragment_sleeps [of n s c] c(1) sent(2) A by auto
      moreover have "t \<noteq> Reorder_thread" if ce: "c = Not_empty q"
      proof
        assume t: "t = Reorder_thread"
        have "delivers q [Signal_notEmpty] (update_broadcast ch A) A'" using d sent(1) by (simp add: sent_def)
        from empty_signal_wakes [OF this, of t] a ce obtain t' where
          t': "A t' = Some (Not_empty q)" "A' t' = None" by blast
        from c(1) ce t reorder_sleeps obtain g where "q = Reorder_que g" by blast
        with inv [OF t'(1)] sleeps_reorder t have "t' = t" by metis
        with a t'(2) show False by simp
      qed
      ultimately show ?thesis using True c(2) sent(1) by (auto simp: sent_def)
    next
      case closed
      have "c \<noteq> Not_full q"
        using sleeps_not_full [of n s t q] fragment_sleeps [of n s c] c(1) closed(2) A by auto
      then have ce: "c = Not_empty q" using True by simp
      have "nTerminated x \<noteq> nProducers x"
      proof
        assume "nTerminated x = nProducers x"
        then have "raised x = raised (Q q) @ [Broadcast_notEmpty]" using closed(1) by (simp add: closed_once_def)
        with d have "A' = cond_wake_all (Not_empty q) (update_broadcast ch A)" by simp
        with a ce show False by (simp add: cond_wake_all_def split: if_splits)
      qed
      with ce c(2) closed(1) show ?thesis by (auto simp: closed_once_def)
    next
      case got
      have nf: "c \<noteq> Not_full q"
      proof
        assume cf: "c = Not_full q"
        have "delivers q [Signal_notFull] (update_broadcast ch A) A'" using d got(1) by (simp add: got_def)
        from full_signal_wakes [OF this, of t] a cf obtain t' where
          t': "A t' = Some (Not_full q)" "A' t' = None" by blast
        from sleeps_not_full inv [OF t'(1)] c(1) cf have "t' = t" by metis
        with t'(2) a show False by simp
      qed
      moreover have "t \<noteq> Reorder_thread" if ce: "c = Not_empty q"
      proof
        assume t: "t = Reorder_thread"
        with c(1) ce reorder_sleeps obtain g where "q = Reorder_que g" by blast
        with got(2) A t in_que_sort show False by (metis option.distinct(1))
      qed
      ultimately show ?thesis using True c(2) got(1) by (auto simp: got_def)
    qed
  qed
qed

lemma turn_keeps_served:
  assumes inv: "\<And>t c. A t = Some c \<Longrightarrow> sleeps_at n s t c \<and> que_cond sz Q t c" and sv: "served n Q A"
    and tn: "turn n A q (Q q) x" and d: "delivers q (new_signals q Q (Q(q := x))) (update_broadcast ch A) A'"
  shows "served n (Q(q := x)) A'"
  unfolding served_def
proof (intro allI impI)
  fix u
  let ?p = "in_que (stage_of u)"
  assume a: "A' (Stage_thread u) \<noteq> None" and ne: "rb_contents (buf ((Q(q := x)) ?p)) \<noteq> []"
  then obtain c where c: "A' (Stage_thread u) = Some c" by blast
  have A: "A (Stage_thread u) = Some c" by (rule still_asleep [OF d c])
  with inv have ce: "c = Not_empty ?p" by fastforce
  have old: "\<exists>v \<in> stage_threads n. in_que (stage_of v) = ?p \<and> A' (Stage_thread v) = None"
    if held: "rb_contents (buf (Q ?p)) \<noteq> []"
  proof -
    have "A (Stage_thread u) \<noteq> None" using A by simp
    then obtain v where "v \<in> stage_threads n" "in_que (stage_of v) = ?p" "A (Stage_thread v) = None"
      using sv [unfolded served_def, rule_format, OF _ held] by blast
    then show ?thesis using still_awake [OF d] by blast
  qed
  show "\<exists>v \<in> stage_threads n. in_que (stage_of v) = ?p \<and> A' (Stage_thread v) = None"
  proof (cases "?p = q")
    case False
    with ne old show ?thesis by simp
  next
    case True
    from tn consider (sent) "sent (Q q) x" | (closed) "closed_once (Q q) x" | (got) "got (Q q) x"
      unfolding turn_def by blast
    then show ?thesis
    proof cases
      case sent
      then have "delivers q [Signal_notEmpty] (update_broadcast ch A) A'" using d by (simp add: sent_def)
      from empty_signal_wakes [OF this, of "Stage_thread u"] c ce True obtain t' where
        t': "A t' = Some (Not_empty q)" "A' t' = None" by metis
      have "\<nexists>g. q = Reorder_que g" using True in_que_sort by metis
      with sleeps_not_empty [OF conjunct1 [OF inv [OF t'(1)]]] obtain v where
        "v \<in> stage_threads n" "t' = Stage_thread v" "q = in_que (stage_of v)" by blast
      with t'(2) True show ?thesis by auto
    next
      case closed
      with ne True old show ?thesis by (simp add: closed_once_def)
    next
      case got
      with True old show ?thesis by (simp add: got_def)
    qed
  qed
qed

section \<open>Memory\<close>

lemma new_chunks_keep:
  "isDuplicate (chunk (new_chunks k fs m) i) = isDuplicate (chunk m i) \<and>
   compressed_data_ref (chunk (new_chunks k fs m) i) = compressed_data_ref (chunk m i) \<and>
   (state (chunk m i) = CHUNK_STATE_UNCOMPRESSED \<longrightarrow> state (chunk (new_chunks k fs m) i) = CHUNK_STATE_UNCOMPRESSED)"
  by (induction k fs m rule: new_chunks.induct) auto

lemma kernel_keeps:
  assumes k: "kernel ev ty u p m = Inr (outs, m')" and st: "state (chunk m j) = CHUNK_STATE_UNCOMPRESSED"
    and i: "\<And>c. p = Fine c \<Longrightarrow> snd (payload c) \<noteq> i"
    and j: "\<And>tid c. u = Compressor tid \<Longrightarrow> p = Fine c \<Longrightarrow> snd (payload c) \<noteq> j"
  shows "written_chunk m' i = written_chunk m i \<and> state (chunk m' j) = CHUNK_STATE_UNCOMPRESSED"
proof (cases u)
  case (Refiner tid)
  with k obtain b c fs where "p = Coarse b c" "m' = new_chunks b fs m"
    by (cases p) (auto simp: map_sum_def split: sum.splits)
  with st new_chunks_keep [of b fs m] show ?thesis by (simp add: written_chunk_def)
next
  case (Deduplicator tid)
  with k obtain c dup where "p = Fine c" "par_Deduplicate ev (snd (payload c)) m = Inr (dup, m')"
    by (cases p) (auto simp: map_sum_def split: sum.splits)
  with st i show ?thesis
    by (auto simp: par_Deduplicate_def written_chunk_def Let_def split: option.splits sum.splits)
next
  case (Compressor tid)
  with k obtain c where "p = Fine c" "par_Compress ev ty (snd (payload c)) m = Inr m'"
    by (cases p) (auto simp: map_sum_def split: sum.splits)
  moreover from this(1) have "snd (payload c) \<noteq> i" "snd (payload c) \<noteq> j" using i j Compressor by blast+
  ultimately show ?thesis using st
    by (auto simp: par_Compress_def written_chunk_def split: if_splits sum.splits)
qed

text \<open>What the last thread waits for is not changed by the others but by the compression that wakes it.\<close>

lemma stage_keeps_memory:
  assumes inv: "encoder_inv ev ty n sz ds tags s" and job: "job_ok ev ty ds tags" and u: "u \<in> stage_threads n"
    and wr: "writing (re_pc (en_reorderer s)) = i # ks"
    and st: "state (chunk (en_memory s) (written_chunk (en_memory s) i)) = CHUNK_STATE_UNCOMPRESSED"
    and step: "stage_thread_step ev ty u (en_threads s u) (en_que s) (en_memory s) = Some (w, Q, m)"
    and good: "\<forall>e. st_pc w \<noteq> St_failed e"
    and quiet: "compressed_chunk (Stage_thread u) s \<noteq> Some (written_chunk (en_memory s) i)"
  shows "written_chunk m i = written_chunk (en_memory s) i \<and>
    state (chunk m (written_chunk (en_memory s) i)) = CHUNK_STATE_UNCOMPRESSED"
proof (cases "st_pc (en_threads s u) = St_work")
  case False
  have ok: "struct_ok n sz s" using inv by (simp add: encoder_inv_def)
  have wok: "stage_ok u (en_que s) (en_threads s u)" and q: "ques_ok sz (en_que s) (stage_ques u)"
    using ok u ques_ok_subset [OF _ stage_ques_subset [OF u]] by (simp_all add: struct_ok_def)
  from stage_move_ok [OF wok q False _ step] stage_open [OF ok u] have "m = en_memory s" by blast
  with st show ?thesis by simp
next
  case True
  let ?w = "en_threads s u" and ?m = "en_memory s"
  have wok: "stage_ok u (en_que s) ?w" using inv u by (simp add: encoder_inv_def struct_ok_def)
  then have b: "buf_ok (fetch_limit (stage_of u)) (recv_buf ?w)" and "rb_contents (recv_buf ?w) \<noteq> []"
    using True by (simp_all add: stage_ok_def bufs_ok_def)
  then obtain p ps where p: "rb_contents (recv_buf ?w) = p # ps" by (cases "rb_contents (recv_buf ?w)") simp_all
  from b p obtain d where d: "ringbuffer_remove (recv_buf ?w) = (Some p, d)" by (rule buf_remove)
  from step True have "work_item ev ty u ?w ?m = (w, m)"
    by (auto simp: stage_thread_step_def Let_def split: prod.splits)
  with d good obtain outs where k: "kernel ev ty u p ?m = Inr (outs, m)"
    by (cases "kernel ev ty u p ?m") (auto simp: work_item_def)
  have ni: "snd (payload c) \<noteq> i" if c: "p = Fine c" for c
  proof -
    have "\<forall>sp c. (sp, c) \<in># encoder_spread n s \<longrightarrow> snd (payload c) \<noteq> i"
      using write_head [OF inv job wr] by metis
    moreover have "(Made (que_place (in_que (stage_of u))), c) \<in># st_spread u ?w" using p c by (simp add: st_spread_def Let_def)
    then have "(Made (que_place (in_que (stage_of u))), c) \<in># encoder_spread n s"
      using u by (simp add: encoder_spread_def sum.remove [of _ u])
    ultimately show ?thesis by blast
  qed
  have "snd (payload c) \<noteq> written_chunk ?m i" if "u = Compressor tid" "p = Fine c" for tid c
    using quiet d True that by (simp add: Let_def)
  from kernel_keeps [OF k st ni this] show ?thesis .
qed

section \<open>The invariant is kept\<close>

lemma move_turn:
  assumes inv: "encoder_inv ev ty n sz ds tags s" and job: "job_ok ev ty ds tags" and t: "t \<in> encoder_threads n"
    and a: "A t = None" and step: "thread_moves ev ty n t s = Some s'"
  shows "en_que s' = en_que s \<or> (\<exists>p x. en_que s' = (en_que s)(p := x) \<and> turn n A p (en_que s p) x)"
proof -
  have ok: "struct_ok n sz s" using inv by (simp add: encoder_inv_def)
  have "encoder_step ev ty n s s'" using t step by (auto simp: encoder_step_thread)
  from encoder_step_inv [OF this inv job] have ok': "struct_ok n sz s'" by (simp add: encoder_inv_def)
  have q: "ques_ok sz (en_que s) (encoder_ques n)" using ok by (simp add: struct_ok_def)
  show ?thesis
  proof (cases t)
    case Fragment_thread
    with step obtain f Q where f: "fragment_step (nqueues n) (en_fragmenter s) (en_que s) = Some (f, Q)"
        "s' = s\<lparr>en_fragmenter := f, en_que := Q\<rparr>" by auto
    have "fr_pc f \<noteq> Fr_failed" using ok' f(2) by (auto simp: struct_ok_def fragmenter_ok_def)
    with f(1) show ?thesis
      by (cases rule: fragment_turn) (use f(2) a Fragment_thread in \<open>auto simp: turn_def\<close>)
  next
    case (Stage_thread u)
    with step obtain w Q m where w: "stage_thread_step ev ty u (en_threads s u) (en_que s) (en_memory s) = Some (w, Q, m)"
        "s' = s\<lparr>en_threads := (en_threads s)(u := w), en_que := Q, en_memory := m\<rparr>" by auto
    have u: "u \<in> stage_threads n" using t Stage_thread by (auto simp: encoder_threads_def)
    then have wok: "stage_ok u (en_que s) (en_threads s u)" "stage_ok u Q w" using ok ok' w(2) by (auto simp: struct_ok_def)
    then have good: "\<forall>e. st_pc w \<noteq> St_failed e" by (auto simp: stage_ok_def)
    from wok(1) ques_ok_subset [OF q stage_ques_subset [OF u]] w(1) good show ?thesis
    proof (cases rule: stage_turn)
      case (sends p x)
      from sends(1) out_que_sort have "\<forall>g. p \<noteq> Refine_que g" by blast
      with sends(3) have "turn n A p (en_que s p) x" by (simp add: turn_def)
      with sends(2) w(2) show ?thesis by auto
    next
      case (gets x)
      with u a Stage_thread have "turn n A (in_que (stage_of u)) (en_que s (in_que (stage_of u))) x"
        by (auto simp: turn_def)
      with gets(1) w(2) show ?thesis by auto
    next
      case (closes x)
      from out_que_sort [OF stage_limits(3)] have "\<forall>g. ends (stage_of u) \<noteq> Refine_que g" by blast
      with closes(2) have "turn n A (ends (stage_of u)) (en_que s (ends (stage_of u))) x" by (simp add: turn_def)
      with closes(1) w(2) show ?thesis by auto
    qed (simp add: w(2))
  next
    case Reorder_thread
    with step obtain re Q m where re: "reorder_step (nqueues n) (en_reorderer s) (en_que s) (en_memory s) = Some (re, Q, m)"
        "s' = s\<lparr>en_reorderer := re, en_que := Q, en_memory := m\<rparr>" by auto
    have "Reorder_que ` {..<nqueues n} \<subseteq> encoder_ques n" by (auto simp: encoder_ques_def Let_def)
    then have rq: "ques_ok sz (en_que s) (Reorder_que ` {..<nqueues n})" using q ques_ok_subset by blast
    have "reorderer_ok (nqueues n) (en_que s) (en_reorderer s)" using ok by (simp add: struct_ok_def)
    from this rq re(1) show ?thesis
      by (cases rule: reorder_turn) (use re(2) a Reorder_thread in \<open>auto simp: turn_def\<close>)
  qed
qed

lemma sleeps_at_kept:
  assumes inv: "encoder_inv ev ty n sz ds tags s" and job: "job_ok ev ty ds tags" and t: "t \<in> encoder_threads n"
    and step: "thread_moves ev ty n t s = Some s'" and ne: "t' \<noteq> t" and at: "sleeps_at n s t' c"
    and quiet: "\<And>i. compressed_chunk t s = Some i \<Longrightarrow> c \<noteq> Chunk_update i"
  shows "sleeps_at n s' t' c"
proof (cases t)
  case Fragment_thread
  with step ne at show ?thesis by (cases t') (auto simp: Let_def)
next
  case Reorder_thread
  with step ne at show ?thesis by (cases t') (auto simp: Let_def)
next
  case (Stage_thread u)
  with step obtain w Q m where w: "stage_thread_step ev ty u (en_threads s u) (en_que s) (en_memory s) = Some (w, Q, m)"
      "s' = s\<lparr>en_threads := (en_threads s)(u := w), en_que := Q, en_memory := m\<rparr>" by auto
  have u: "u \<in> stage_threads n" using t Stage_thread by (auto simp: encoder_threads_def)
  have "encoder_step ev ty n s s'" using t step by (auto simp: encoder_step_thread)
  from encoder_step_inv [OF this inv job] have "stage_ok u Q w" using u w(2) by (auto simp: encoder_inv_def struct_ok_def)
  then have good: "\<forall>e. st_pc w \<noteq> St_failed e" by (auto simp: stage_ok_def)
  show ?thesis
  proof (cases t')
    case Reorder_thread
    let ?m = "en_memory s"
    from at Reorder_thread consider
      (polls) "\<exists>i r. re_pc (en_reorderer s) = Re_poll i r \<and> r \<le> 0 \<and> i < nqueues n \<and> c = Not_empty (Reorder_que (re_qid (en_reorderer s)))"
      | (writes) i ks where "writing (re_pc (en_reorderer s)) = i # ks" "c = Chunk_update (written_chunk ?m i)"
        "state (chunk ?m (written_chunk ?m i)) = CHUNK_STATE_UNCOMPRESSED" by (auto simp: Let_def)
    then show ?thesis
    proof cases
      case polls
      with Reorder_thread w(2) show ?thesis by (auto simp: Let_def)
    next
      case (writes i ks)
      have "compressed_chunk (Stage_thread u) s \<noteq> Some (written_chunk ?m i)" using quiet writes(2) Stage_thread by blast
      from stage_keeps_memory [OF inv job u writes(1,3) w(1) good this] writes(1,2) Reorder_thread w(2)
      show ?thesis by (auto simp: Let_def)
    qed
  qed (use at ne Stage_thread w(2) in \<open>auto simp: Let_def\<close>)
qed

lemma moves_ok:
  assumes inv: "encoder_inv ev ty n sz ds tags s" and job: "job_ok ev ty ds tags" and t: "t \<in> encoder_threads n"
    and a: "A t = None" and step: "thread_moves ev ty n t s = Some s'"
    and only: "\<And>p. p \<noteq> q \<Longrightarrow> en_que s' p = en_que s p"
    and d: "delivers q (new_signals q (en_que s) (en_que s')) (update_broadcast (compressed_chunk t s) A) A'"
    and sl: "sleepers_ok n sz s A"
  shows "sleepers_ok n sz s' A'"
proof -
  let ?Q = "en_que s"
  have old: "sleeps_at n s t c \<and> que_cond sz ?Q t c" if "A t = Some c" for t c using sleepers_okD [OF sl that] .
  have sv: "served n ?Q A" using sl by (simp add: sleepers_ok_def)
  have at: "sleeps_at n s' t' c" if c: "A' t' = Some c" for t' c
  proof (rule sleeps_at_kept [OF inv job t step])
    have A: "A t' = Some c" by (rule still_asleep [OF d c])
    with a show "t' \<noteq> t" by auto
    show "sleeps_at n s t' c" using old [OF A] by blast
    show "c \<noteq> Chunk_update i" if i: "compressed_chunk t s = Some i" for i
    proof
      assume "c = Chunk_update i"
      with A i have "update_broadcast (compressed_chunk t s) A t' = None" by (simp add: update_broadcast_def cond_wake_all_def)
      with delivers_wakes [OF d, of t'] c show False by simp
    qed
  qed
  have "(\<forall>t' c. A' t' = Some c \<longrightarrow> que_cond sz (en_que s') t' c) \<and> served n (en_que s') A'"
  proof -
    from move_turn [of ev ty n sz ds tags s t A, OF inv job t a step] consider (same) "en_que s' = ?Q"
      | (turn) p x where "en_que s' = ?Q(p := x)" "turn n A p (?Q p) x" by blast
    then show ?thesis
    proof cases
      case same
      have "served n ?Q A'" unfolding served_def
      proof (intro allI impI)
        fix u assume asl: "A' (Stage_thread u) \<noteq> None" and ne: "rb_contents (buf (?Q (in_que (stage_of u)))) \<noteq> []"
        then have "A (Stage_thread u) \<noteq> None" using still_awake [OF d, of "Stage_thread u"] by (intro notI) simp
        then obtain v where "v \<in> stage_threads n" "in_que (stage_of v) = in_que (stage_of u)" "A (Stage_thread v) = None"
          using sv [unfolded served_def, rule_format, OF _ ne] by blast
        then show "\<exists>v \<in> stage_threads n. in_que (stage_of v) = in_que (stage_of u) \<and> A' (Stage_thread v) = None"
          using still_awake [OF d] by blast
      qed
      moreover have "que_cond sz ?Q t' c" if "A' t' = Some c" for t' c using old [OF still_asleep [OF d that]] by blast
      ultimately show ?thesis by (simp add: same)
    next
      case (turn p x)
      have "x \<noteq> ?Q p" using turn(2) by (auto simp: turn_def sent_def got_def closed_once_def)
      then have pq: "p = q" using only [of p] turn(1) by auto
      note T = turn(2) [unfolded pq] and D = d [unfolded turn(1) [unfolded pq]]
      from turn_keeps_cond [of A n s sz, OF old T D] turn_keeps_served [of A n s sz, OF old sv T D] show ?thesis
        unfolding turn(1) pq by blast
    qed
  qed
  with at show ?thesis by (simp add: sleepers_ok_def)
qed

section \<open>Who goes to sleep has a reason\<close>

lemma stage_asleep:
  assumes inv: "encoder_inv ev ty n sz ds tags s" and job: "job_ok ev ty ds tags" and room: "length ds \<le> sz"
    and u: "u \<in> stage_threads n" and c: "waits_on (Stage_thread u) s = Some c"
    and none: "stage_thread_step ev ty u (en_threads s u) (en_que s) (en_memory s) = None"
  shows "sleeps_at n s (Stage_thread u) c" and "starved (en_que s) (in_que (stage_of u))"
proof -
  let ?w = "en_threads s u" and ?Q = "en_que s" and ?st = "stage_of u"
  have ok: "struct_ok n sz s" using inv by (simp add: encoder_inv_def)
  have wok: "stage_ok u ?Q ?w" and q: "ques_ok sz ?Q (stage_ques u)"
    using ok u ques_ok_subset [OF _ stage_ques_subset [OF u]] by (simp_all add: struct_ok_def)
  have b: "bufs_ok ?st ?w" using wok by (simp add: stage_ok_def)
  have full: False if "st_pc ?w \<noteq> St_ended" "i < length (out_ques ?st)" "\<not> drained ?w i" "send_buffer ?st i pc ?w ?Q = None" for i pc
  proof -
    have "nTerminated (?Q (out_ques ?st ! i)) < nProducers (?Q (out_ques ?st ! i))"
      using stage_open [OF ok u that(1)] that(2) by simp
    from send_waits [OF b that(2,3) q this that(4)] never_full [OF inv job room u that(2)] that(3)
    show False by (simp add: drained_def)
  qed
  have loop: "st_pc ?w = St_loop"
  proof (cases "st_pc ?w")
    case (St_send i outs)
    then have "i < length (out_ques ?st)" "\<not> drained ?w i" using wok by (simp_all add: stage_ok_def)
    moreover have "send_buffer ?st i (St_put outs) ?w ?Q = None" using none St_send by (simp add: stage_thread_step_def Let_def)
    ultimately show ?thesis using full [of i] St_send by simp
  next
    case (St_drain i)
    have i: "i < length (out_ques ?st)" using none St_drain by (auto simp: stage_thread_step_def Let_def split: if_splits)
    then have "ringbuffer_isEmpty (send_bufs ?w ! i) \<longleftrightarrow> drained ?w i"
      using b buf_empty by (auto simp: bufs_ok_def drained_def)
    with none St_drain i have "\<not> drained ?w i" "send_buffer ?st i (St_drain i) ?w ?Q = None"
      by (auto simp: stage_thread_step_def Let_def split: if_splits)
    with full [of i] St_drain i show ?thesis by simp
  qed (use c in simp_all)
  have "ringbuffer_isEmpty (recv_buf ?w) \<longleftrightarrow> rb_contents (recv_buf ?w) = []" using b buf_empty by (auto simp: bufs_ok_def)
  with none loop have nil: "rb_contents (recv_buf ?w) = []" and f: "fetch_items ?st ?w ?Q = None"
    by (auto simp: stage_thread_step_def Let_def split: if_splits)
  show "sleeps_at n s (Stage_thread u) c" using c loop nil u by simp
  from fetch_waits [OF b nil q f] show "starved ?Q (in_que ?st)" by (simp add: starved_def)
qed

lemma fragment_asleep:
  assumes ok: "struct_ok n sz s" and c: "waits_on Fragment_thread s = Some c"
    and none: "fragment_step (nqueues n) (en_fragmenter s) (en_que s) = None"
  shows "sleeps_at n s Fragment_thread c" and "que_cond sz (en_que s) Fragment_thread c"
proof -
  let ?f = "en_fragmenter s"
  have fok: "fragmenter_ok (nqueues n) ?f" using ok by (simp add: struct_ok_def)
  have q: "ques_ok sz (en_que s) (Refine_que ` {..<nqueues n})"
    using ok by (auto simp: struct_ok_def ques_ok_def encoder_ques_def Let_def)
  have opn: "nTerminated (en_que s (Refine_que g)) < nProducers (en_que s (Refine_que g))"
    if "g < nqueues n" "fr_holds (fr_pc ?f) g" for g
    using ok that by (force simp: struct_ok_def balanced_def encoder_ques_def Let_def)
  have pc: "fr_pc ?f \<in> {Fr_send, Fr_drain}" "c = Not_full (Refine_que (fr_qid ?f))" using c by (auto split: if_splits)
  moreover have "rb_contents (fr_send ?f) \<noteq> []"
    using pc(1) fok none by (auto simp: fragmenter_ok_def fragment_step_def buf_empty)
  ultimately show "sleeps_at n s Fragment_thread c" by (simp add: Let_def)
  from fragment_waits [OF fok q opn none] pc show "que_cond sz (en_que s) Fragment_thread c" by auto
qed

lemma reorder_asleep:
  assumes ok: "struct_ok n sz s" and c: "waits_on Reorder_thread s = Some c"
    and none: "reorder_step (nqueues n) (en_reorderer s) (en_que s) (en_memory s) = None"
  shows "sleeps_at n s Reorder_thread c \<and> que_cond sz (en_que s) Reorder_thread c"
proof -
  let ?re = "en_reorderer s" and ?m = "en_memory s" and ?nq = "nqueues n"
  have unc: "state (chunk ?m (written_chunk ?m i)) = CHUNK_STATE_UNCOMPRESSED" if "par_write_chunk_to_file i ?m = None" for i
    using that by (auto simp: par_write_chunk_to_file_def written_chunk_def Let_def split: chunk_state_t.splits if_splits)
  show ?thesis
  proof (cases "re_pc ?re")
    case (Re_poll i r)
    with none have p: "r \<le> 0" "i < ?nq" "poll_queue ?nq i ?re (en_que s) = None" by (auto simp: reorder_step_def split: if_splits)
    let ?q = "Reorder_que (re_qid ?re)"
    have b: "buf_ok ITEM_PER_FETCH (re_buf ?re)" and nil: "rb_contents (re_buf ?re) = []" and qin: "que_ok sz (en_que s ?q)"
      using ok p Re_poll by (auto simp: struct_ok_def reorderer_ok_def ques_ok_def encoder_ques_def Let_def split: if_splits)
    have pos: "0 < ITEM_PER_FETCH" by (simp add: ITEM_PER_FETCH_def)
    obtain res x d where e: "queue_dequeue (en_que s ?q) (re_buf ?re) (int ITEM_PER_FETCH) = (res, x, d)" by (metis prod_cases3)
    from qin b nil pos pos e have "starved (en_que s) ?q"
      by (cases rule: dequeue_cases) (use p(3) e in \<open>simp_all add: poll_queue_def starved_def\<close>)
    with c Re_poll p(1,2) show ?thesis by (auto simp: starved_def Let_def)
  next
    case (Re_write ks)
    with c none unc show ?thesis by (cases ks) (auto simp: reorder_step_def Let_def)
  next
    case (Re_finish ks)
    with c none unc show ?thesis by (cases ks) (auto simp: reorder_step_def Let_def)
  qed (use c in simp_all)
qed

lemma sleeps_ok:
  assumes inv: "encoder_inv ev ty n sz ds tags s" and job: "job_ok ev ty ds tags" and room: "length ds \<le> sz"
    and t: "t \<in> encoder_threads n" and none: "thread_moves ev ty n t s = None" and c: "waits_on t s = Some c"
    and sl: "sleepers_ok n sz s A"
  shows "sleepers_ok n sz s (A(t \<mapsto> c))"
proof -
  have ok: "struct_ok n sz s" using inv by (simp add: encoder_inv_def)
  have st: "sleeps_at n s t c \<and> starved (en_que s) (in_que (stage_of u))" if "t = Stage_thread u" for u
    using stage_asleep [OF inv job room, of u c] none c t that by (auto simp: encoder_threads_def)
  have "sleeps_at n s t c \<and> que_cond sz (en_que s) t c"
    using fragment_asleep [OF ok] reorder_asleep [OF ok] st none c by (cases t) (auto simp: starved_def)
  moreover have "served n (en_que s) (A(t \<mapsto> c))" unfolding served_def
  proof (intro allI impI)
    fix u
    let ?p = "in_que (stage_of u)"
    assume asl: "(A(t \<mapsto> c)) (Stage_thread u) \<noteq> None" and ne: "rb_contents (buf (en_que s ?p)) \<noteq> []"
    have other: "t \<noteq> Stage_thread v" if "in_que (stage_of v) = ?p" for v
      using st [of v] ne that by (auto simp: starved_def)
    with asl have "A (Stage_thread u) \<noteq> None" by (auto split: if_splits)
    then obtain v where "v \<in> stage_threads n" "in_que (stage_of v) = ?p" "A (Stage_thread v) = None"
      using sl [unfolded sleepers_ok_def served_def] ne by blast
    with other [of v] show "\<exists>v \<in> stage_threads n. in_que (stage_of v) = ?p \<and> (A(t \<mapsto> c)) (Stage_thread v) = None"
      by (intro bexI [of _ v]) auto
  qed
  ultimately show ?thesis using sl by (auto simp: sleepers_ok_def)
qed

lemma spurious_ok: "sleepers_ok n sz s A \<Longrightarrow> sleepers_ok n sz s (A(t := None))"
  by (auto simp: sleepers_ok_def served_def split: if_splits)

section \<open>Nobody sleeps for ever\<close>

lemma fetch_none:
  assumes "buf_ok k b" and "que_ok sz que" and "rb_contents (buf que) = []" and "nTerminated que < nProducers que"
  shows "queue_dequeue que b limit = (Waits, que, b)"
proof -
  have "ringbuffer_isEmpty (buf que)" using assms(2,3) buf_empty by (auto simp: que_ok_def)
  with assms(4) show ?thesis by (simp add: queue_dequeue_def queue_isTerminated_def)
qed

lemma asleep_idle:
  assumes ok: "struct_ok n sz s" and at: "sleeps_at n s t c" and cond: "que_cond sz (en_que s) t c"
    and st: "\<And>u. t = Stage_thread u \<Longrightarrow> rb_contents (buf (en_que s (in_que (stage_of u)))) = []"
  shows "thread_moves ev ty n t s = None"
proof (cases t)
  case Fragment_thread
  let ?f = "en_fragmenter s" and ?q = "Refine_que (fr_qid (en_fragmenter s))"
  from at Fragment_thread have f: "c = Not_full ?q" "fr_pc ?f \<in> {Fr_send, Fr_drain}" "rb_contents (fr_send ?f) \<noteq> []"
    by (auto simp: Let_def)
  have fok: "fragmenter_ok (nqueues n) ?f" using ok by (simp add: struct_ok_def)
  then have E: "?q \<in> encoder_ques n" and sb: "buf_ok 1 (fr_send ?f)" by (auto simp: fragmenter_ok_def encoder_ques_def Let_def)
  have "que_ok sz (en_que s ?q)" using ok E by (auto simp: struct_ok_def ques_ok_def)
  then have "ringbuffer_isFull (buf (en_que s ?q))"
    using cond f(1) Fragment_thread by (auto simp: que_ok_def buf_full)
  moreover have "fr_holds (fr_pc ?f) (fr_qid ?f)" using f(2) by auto
  then have "nTerminated (en_que s ?q) < nProducers (en_que s ?q)"
    using ok E by (auto simp: struct_ok_def balanced_def)
  ultimately have "queue_enqueue (en_que s ?q) (fr_send ?f) (int ANCHOR_DATA_PER_INSERT) = (Waits, en_que s ?q, fr_send ?f)"
    by (simp add: queue_enqueue_def queue_isTerminated_def)
  with f(2,3) sb Fragment_thread show ?thesis by (auto simp: fragment_step_def fragment_send_def buf_empty)
next
  case (Stage_thread u)
  let ?w = "en_threads s u" and ?q = "in_que (stage_of u)"
  from at Stage_thread have w: "u \<in> stage_threads n" "c = Not_empty ?q" "st_pc ?w = St_loop" "rb_contents (recv_buf ?w) = []"
    by auto
  then have b: "buf_ok (fetch_limit (stage_of u)) (recv_buf ?w)" using ok by (auto simp: struct_ok_def stage_ok_def bufs_ok_def)
  have "que_ok sz (en_que s ?q)"
    using ok stage_ques_subset [OF w(1)] by (auto simp: struct_ok_def ques_ok_def stage_ques_def)
  from fetch_none [OF b this st [OF Stage_thread]] cond w(2) Stage_thread
  have "queue_dequeue (en_que s ?q) (recv_buf ?w) limit = (Waits, en_que s ?q, recv_buf ?w)" for limit by simp
  with w(3,4) b Stage_thread show ?thesis by (simp add: stage_thread_step_def fetch_items_def buf_empty Let_def)
next
  case Reorder_thread
  let ?re = "en_reorderer s" and ?q = "Reorder_que (re_qid (en_reorderer s))"
  from at Reorder_thread consider
    (polls) i r where "re_pc ?re = Re_poll i r" "r \<le> 0" "i < nqueues n" "c = Not_empty ?q"
    | (writes) i ks where "writing (re_pc ?re) = i # ks"
      "state (chunk (en_memory s) (written_chunk (en_memory s) i)) = CHUNK_STATE_UNCOMPRESSED" by (auto simp: Let_def)
  then show ?thesis
  proof cases
    case polls
    have b: "buf_ok ITEM_PER_FETCH (re_buf ?re)" and "que_ok sz (en_que s ?q)"
      using ok by (auto simp: struct_ok_def reorderer_ok_def ques_ok_def encoder_ques_def Let_def)
    from fetch_none [OF this] cond polls(4) Reorder_thread
    have "queue_dequeue (en_que s ?q) (re_buf ?re) limit = (Waits, en_que s ?q, re_buf ?re)" for limit by simp
    with polls Reorder_thread show ?thesis by (simp add: reorder_step_def poll_queue_def)
  next
    case (writes i ks)
    then have "par_write_chunk_to_file i (en_memory s) = None"
      by (auto simp: par_write_chunk_to_file_def written_chunk_def Let_def)
    with writes(1) Reorder_thread show ?thesis by (cases "re_pc ?re") (auto simp: reorder_step_def)
  qed
qed

definition all_ended :: "nat \<Rightarrow> encoder \<Rightarrow> bool" where
  "all_ended n s \<longleftrightarrow> fr_pc (en_fragmenter s) = Fr_ended \<and>
     (\<forall>u \<in> stage_threads n. st_pc (en_threads s u) = St_ended) \<and> re_pc (en_reorderer s) = Re_ended"

lemma stage_no_wait:
  "stage_thread_step ev ty u (en_threads s u) (en_que s) m = None \<Longrightarrow> waits_on (Stage_thread u) s = None \<Longrightarrow>
     st_pc (en_threads s u) = St_ended \<or> (\<exists>e. st_pc (en_threads s u) = St_failed e)"
  by (cases "st_pc (en_threads s u)")
    (auto simp: stage_thread_step_def Let_def split: list.splits prod.splits c_result.splits)

lemma cv_progress:
  assumes inv: "encoder_inv ev ty n sz ds tags s" and job: "job_ok ev ty ds tags" and room: "length ds \<le> sz" "0 < sz"
    and sl: "sleepers_ok n sz s A" and stuck: "\<And>y. \<not> cv_step ev ty n (s, A) y"
  shows "all_ended n s"
proof -
  have ok: "struct_ok n sz s" using inv by (simp add: encoder_inv_def)
  have awake: "thread_moves ev ty n t s = None \<and> waits_on t s = None" if t: "t \<in> encoder_threads n" and a: "A t = None" for t
  proof -
    have none: "thread_moves ev ty n t s = None"
    proof (rule ccontr)
      assume "thread_moves ev ty n t s \<noteq> None"
      then obtain s' where s': "thread_moves ev ty n t s = Some s'" by blast
      from move_turn [of ev ty n sz ds tags s t A, OF inv job t a s'] obtain q where
        "\<And>p. p \<noteq> q \<Longrightarrow> en_que s' p = en_que s p" by (metis fun_upd_other)
      moreover obtain A' where "delivers q (new_signals q (en_que s) (en_que s')) (update_broadcast (compressed_chunk t s) A) A'"
        using delivers_total by blast
      ultimately show False using cv_step.moves [where A = A, OF t a s'] stuck by blast
    qed
    with cv_step.sleeps [where A = A, OF t a none] stuck show ?thesis by (cases "waits_on t s") blast+
  qed
  have "thread_moves ev ty n t s = None" if t: "t \<in> encoder_threads n" for t
  proof (cases "A t")
    case None
    with awake t show ?thesis by blast
  next
    case (Some c)
    from sleepers_okD [OF sl Some] have c: "sleeps_at n s t c" "que_cond sz (en_que s) t c" by blast+
    show ?thesis
    proof (rule asleep_idle [OF ok c])
      fix u assume u: "t = Stage_thread u"
      show "rb_contents (buf (en_que s (in_que (stage_of u)))) = []"
      proof (rule ccontr)
        assume ne: "rb_contents (buf (en_que s (in_que (stage_of u)))) \<noteq> []"
        have "A (Stage_thread u) \<noteq> None" using Some u by simp
        then obtain v where v: "v \<in> stage_threads n" "in_que (stage_of v) = in_que (stage_of u)" "A (Stage_thread v) = None"
          using sl [unfolded sleepers_ok_def served_def] ne by blast
        have "Stage_thread v \<in> encoder_threads n" using v(1) by (simp add: encoder_threads_def)
        from awake [OF this v(3)] have "stage_thread_step ev ty v (en_threads s v) (en_que s) (en_memory s) = None"
          "waits_on (Stage_thread v) s = None" by simp_all
        from stage_no_wait [OF this] have "finished (en_que s (in_que (stage_of v)))"
          using ok v(1) by (auto simp: struct_ok_def stage_ok_def)
        with v(2) ne show False by (simp add: finished_def)
      qed
    qed
  qed
  then have "\<not> encoder_step ev ty n s s'" for s' by (simp add: encoder_step_thread)
  from encoder_idle [OF inv job room this] show ?thesis by (simp add: all_ended_def)
qed

lemma cv_step_ok:
  assumes "cv_step ev ty n x y" and inv: "encoder_inv ev ty n sz ds tags (fst x)" and job: "job_ok ev ty ds tags"
    and room: "length ds \<le> sz" and sl: "sleepers_ok n sz (fst x) (snd x)"
  shows "encoder_inv ev ty n sz ds tags (fst y) \<and> sleepers_ok n sz (fst y) (snd y)"
  using assms(1)
proof (cases rule: cv_step.cases)
  case (moves t A s s' q A')
  have "encoder_step ev ty n s s'" using moves(3,5) by (auto simp: encoder_step_thread)
  from encoder_step_inv [OF this] moves_ok [OF _ job moves(3-7)] inv sl job show ?thesis unfolding moves(1,2) by auto
next
  case (sleeps t A s c)
  with sleeps_ok [OF _ job room sleeps(3,5,6)] inv sl show ?thesis by auto
qed

lemma cv_run_ok:
  assumes "cv_run ev ty n x y" and inv: "encoder_inv ev ty n sz ds tags (fst x)" and job: "job_ok ev ty ds tags"
    and room: "length ds \<le> sz" and sl: "sleepers_ok n sz (fst x) (snd x)"
  shows "encoder_inv ev ty n sz ds tags (fst y) \<and> sleepers_ok n sz (fst y) (snd y)"
  using assms(1) unfolding cv_run_def
proof (induction rule: rtranclp_induct)
  case base
  show ?case using inv sl by blast
next
  case (step y z)
  from step(2) show ?case
  proof
    assume "cv_step ev ty n y z"
    with step.IH cv_step_ok [OF _ _ job room] show ?thesis by blast
  next
    assume "spurious y z"
    then obtain s A t where "y = (s, A)" "z = (s, A(t := None))" by (cases rule: spurious.cases) blast
    with step.IH spurious_ok [of n sz s A t] show ?thesis by (simp del: fun_upd_apply)
  qed
qed

lemma cv_reaches_ok:
  assumes "job_input ev ty src" and "Fragment ev src = Inr cs" and "refine_all cs = Inr fs" and "0 < nthreads"
    and "length fs \<le> sz" and "sz + 1 < 2 ^ 31" and "cv_reaches ev ty nthreads sz cs s A"
  obtains "job_ok ev ty (map fine_data fs) (tag_chunks 0 fs)"
    "encoder_inv ev ty nthreads sz (map fine_data fs) (tag_chunks 0 fs) s" "sleepers_ok nthreads sz s A"
proof -
  obtain m where m: "fresh_memory ev ty m" and r: "cv_run ev ty nthreads (encode_threads nthreads sz cs m, \<lambda>_. None) (s, A)"
    using assms(7) by (auto simp: cv_reaches_def)
  have "encoder_reaches ev ty nthreads sz cs (encode_threads nthreads sz cs m)"
    using m unfolding encoder_reaches_def by blast
  from reaches_inv [OF assms(1,2,4,6) this] obtain fs' where fs': "refine_all cs = Inr fs'"
    "job_ok ev ty (map fine_data fs') (tag_chunks 0 fs')"
    "encoder_inv ev ty nthreads sz (map fine_data fs') (tag_chunks 0 fs') (encode_threads nthreads sz cs m)" by metis
  have "fs' = fs" using fs'(1) assms(3) by simp
  note fs = fs'(2,3) [unfolded this]
  have "length (map fine_data fs) \<le> sz" using assms(5) by simp
  from cv_run_ok [OF r _ fs(1) this] fs(2) that fs(1) show ?thesis by (simp add: sleepers_ok_def served_def)
qed

section \<open>Runs end\<close>





section \<open>Properties\<close>

text \<open>C2. The threads of the parallel encoder do not block each other and no wake-up is lost, as long as a
  queue has room for the fine chunks of the input: in every reachable state of the threads and of the condition
  variables of the queues and of the chunks, either some thread that is awake has a step - so the program goes
  on without any wake-up for no reason - or all threads have ended. A thread in \<open>pthread_cond_wait\<close> goes on only
  after a signal or broadcast of \<open>queue_enqueue\<close>, \<open>queue_dequeue\<close>, \<open>queue_terminate\<close> or \<open>sub_Compress\<close> has woken
  it. Assumed (\<open>job_input\<close>): at least one thread per stage (and at most \<open>MAX_THREADS\<close>), fewer than 2^31 slots, an
  input of less than 2 GB, memory for every allocation, reads, writes and compressions that succeed, no two pieces of the input with the same
  SHA-1 sum.\<close>

theorem dedup_stages_no_deadlock:
  assumes "job_input ev ty src" and "Fragment ev src = Inr cs" and "refine_all cs = Inr fs" and "0 < nthreads"
    and "length fs \<le> sz" and "0 < sz" and "sz + 1 < 2 ^ 31" and "cv_reaches ev ty nthreads sz cs s A"
  shows "(\<exists>s' A'. cv_step ev ty nthreads (s, A) (s', A')) \<or> all_ended nthreads s"
proof -
  from cv_reaches_ok [OF assms(1-5,7,8)] have inv: "job_ok ev ty (map fine_data fs) (tag_chunks 0 fs)"
    "encoder_inv ev ty nthreads sz (map fine_data fs) (tag_chunks 0 fs) s" "sleepers_ok nthreads sz s A" by blast+
  have "length (map fine_data fs) \<le> sz" using assms(5) by simp
  from cv_progress [OF inv(2,1) this assms(6) inv(3)] show ?thesis by (metis surj_pair)
qed


end
