(* ===== verification/Dedup_Stages_Examples.thy ===== *)
theory Dedup_Stages_Examples
  imports Dedup_Stages_Wakeups
begin

text \<open>
  The theorems of \<open>Dedup_Stages_Result\<close>, \<open>Dedup_Stages_Runs\<close> and \<open>Dedup_Stages_Wakeups\<close> on a run of the encoder with five threads per
  stage (two groups) and queues for 1024 items, on an input of three bytes.
\<close>

lemma sample_input: "job_input sample_env COMPRESS_NONE (Preloaded [1, 2, 3])"
proof -
  have "{d :: uchar list. sublist d [1, 2, 3]} \<subseteq> {[], [1], [2], [3], [1, 2], [2, 3], [1, 2, 3]}"
    by (auto simp: sublist_Cons_right prefix_Cons)
  moreover have "inj_on (SHA1_Digest sample_env) {[], [1], [2], [3], [1, 2], [2, 3], [1, 2, 3]}"
    by (simp add: sample_env_def)
  ultimately have "inj_on (SHA1_Digest sample_env) {d. sublist d [1, 2, 3]}" by (rule inj_on_subset [rotated])
  then have "sums_ok sample_env [1, 2, 3]" by (auto simp: sums_ok_def sample_env_def min_def)
  with sample_healthy show ?thesis by (simp add: job_input_def)
qed

lemma sample_memory: "\<exists>m. fresh_memory sample_env COMPRESS_NONE m"
proof -
  obtain c :: "nat cache" where c: "hashtable_create False (load_limit sample_env) (table_mem sample_env) 65536 = Some c"
    by (cases "pick_prime primes 0 65536") (auto simp: sample_env_def hashtable_create_def)
  have "fresh_memory sample_env COMPRESS_NONE
      \<lparr>chunk = undefined, par_cache = c, par_out = write_header (word_of_int COMPRESS_NONE)\<rparr>"
    using c by (simp add: fresh_memory_def)
  then show ?thesis by blast
qed

abbreviation sample_coarse :: "coarse_chunk list" where
  "sample_coarse \<equiv> [\<lparr>coarse_l1num = 0, coarse_data = [1, 2, 3]\<rparr>]"

lemma sample_start:
  obtains m where "fresh_memory sample_env COMPRESS_NONE m"
    "encoder_reaches sample_env COMPRESS_NONE 5 1024 sample_coarse (encode_threads 5 1024 sample_coarse m)"
proof -
  obtain m where "fresh_memory sample_env COMPRESS_NONE m" using sample_memory by blast
  with that show ?thesis unfolding encoder_reaches_def by blast
qed

lemma sample_end:
  "\<exists>s. encoder_reaches sample_env COMPRESS_NONE 5 1024 sample_coarse s \<and> re_pc (en_reorderer s) = Re_ended"
proof -
  obtain m where m: "fresh_memory sample_env COMPRESS_NONE m"
    "encoder_reaches sample_env COMPRESS_NONE 5 1024 sample_coarse (encode_threads 5 1024 sample_coarse m)"
    by (rule sample_start)
  have "(0 :: nat) < 5" "(1024 :: nat) + 1 < 2 ^ 31" by simp_all
  from reaches_inv [OF sample_input sample_fragment this m(2)] obtain fs where
    fs: "refine_all sample_coarse = Inr fs" "job_ok sample_env COMPRESS_NONE (map fine_data fs) (tag_chunks 0 fs)"
      "encoder_inv sample_env COMPRESS_NONE 5 1024 (map fine_data fs) (tag_chunks 0 fs) (encode_threads 5 1024 sample_coarse m)"
    by metis
  then have "length (map fine_data fs) \<le> 1024" using sample_refine by simp
  from run_to_end [OF fs(3,2) this] m(1) show ?thesis unfolding encoder_reaches_def by auto
qed

theorem dedup_stages_no_failure_witness:
  "\<exists>s. encoder_reaches sample_env COMPRESS_NONE 5 1024 sample_coarse s \<and> re_pc (en_reorderer s) = Re_ended \<and>
     \<not> failed_thread 5 s"
proof -
  obtain s where s: "encoder_reaches sample_env COMPRESS_NONE 5 1024 sample_coarse s" "re_pc (en_reorderer s) = Re_ended"
    using sample_end by blast
  have "\<not> failed_thread 5 s" by (rule dedup_stages_no_failure [OF sample_input sample_fragment _ _ s(1)]) simp_all
  with s show ?thesis by blast
qed

theorem dedup_stages_roundtrip_witness:
  "\<exists>s. encoder_reaches sample_env COMPRESS_NONE 5 1024 sample_coarse s \<and> re_pc (en_reorderer s) = Re_ended \<and>
     Decode sample_env (par_out (en_memory s)) = Some (Inr [1, 2, 3])"
proof -
  obtain s where s: "encoder_reaches sample_env COMPRESS_NONE 5 1024 sample_coarse s" "re_pc (en_reorderer s) = Re_ended"
    using sample_end by blast
  have "Decode sample_env (par_out (en_memory s)) = Some (Inr (source_bytes (Preloaded [1, 2, 3]))) \<and>
      (\<forall>u \<in> stage_threads 5. st_pc (en_threads s u) = St_ended)"
    by (rule dedup_stages_roundtrip [OF sample_input sample_fragment _ _ s])
      (use sample_codec in \<open>simp_all add: COMPRESS_NONE_def decoder_fits_def\<close>)
  with s show ?thesis by auto
qed

lemma cv_run_two: "cv_step ev ty n x y \<Longrightarrow> cv_step ev ty n y z \<Longrightarrow> cv_run ev ty n x z"
  unfolding cv_run_def by (rule rtranclp.rtrancl_into_rtrancl [OF r_into_rtranclp, of _ x y z]) blast+

text \<open>The last thread is the first to run: it finds its queue empty and goes to sleep.\<close>

lemma sample_asleep:
  "\<exists>s. cv_reaches sample_env COMPRESS_NONE 5 1024 sample_coarse s [Reorder_thread \<mapsto> Not_empty (Reorder_que 0)]"
proof -
  obtain m where m: "fresh_memory sample_env COMPRESS_NONE m" using sample_memory by blast
  let ?step = "cv_step sample_env COMPRESS_NONE 5"
  let ?s0 = "encode_threads 5 1024 sample_coarse m"
  let ?s1 = "?s0\<lparr>en_reorderer := (en_reorderer ?s0)\<lparr>re_pc := Re_poll 0 0\<rparr>\<rparr>"
  let ?q = "en_que ?s0 (Reorder_que 0)" and ?b = "re_buf (en_reorderer ?s0)"
  have small: "(1024 :: nat) + 1 < 2 ^ 31" "ITEM_PER_FETCH + 1 < 2 ^ 31" by (simp_all add: ITEM_PER_FETCH_def)
  have b: "buf_ok ITEM_PER_FETCH ?b" "rb_contents ?b = []"
    using new_ringbuffer_ok [OF small(2)] by (simp_all add: encode_threads_def)
  have q: "que_ok 1024 ?q" "rb_contents (buf ?q) = []" "nTerminated ?q < nProducers ?q"
    using new_queue_ok [OF small(1)]
    by (simp_all add: encode_threads_def threads_per_queue_def nqueues_def MAX_THREADS_PER_QUEUE_def)
  have t: "Reorder_thread \<in> encoder_threads 5" by (simp add: encoder_threads_def)
  have m1: "thread_moves sample_env COMPRESS_NONE 5 Reorder_thread ?s0 = Some ?s1"
    using b by (simp add: buf_empty reorder_step_def) (simp add: encode_threads_def)
  have "?step (?s0, \<lambda>_. None) (?s1, \<lambda>_. None)"
    by (rule cv_step.moves [OF t _ m1, of _ "Reorder_que 0"]) (simp_all add: new_signals_def update_broadcast_def)
  moreover have "?step (?s1, \<lambda>_. None) (?s1, [Reorder_thread \<mapsto> Not_empty (Reorder_que 0)])"
  proof (rule cv_step.sleeps [OF t])
    show "thread_moves sample_env COMPRESS_NONE 5 Reorder_thread ?s1 = None"
      using fetch_none [OF b(1) q] by (simp add: reorder_step_def poll_queue_def encode_threads_def nqueues_def MAX_THREADS_PER_QUEUE_def)
    show "waits_on Reorder_thread ?s1 = Some (Not_empty (Reorder_que 0))" by (simp add: encode_threads_def)
  qed simp
  ultimately have "cv_run sample_env COMPRESS_NONE 5 (?s0, \<lambda>_. None) (?s1, [Reorder_thread \<mapsto> Not_empty (Reorder_que 0)])"
    by (rule cv_run_two)
  with m show ?thesis unfolding cv_reaches_def by blast
qed

theorem dedup_stages_no_deadlock_witness:
  "\<exists>s A. cv_reaches sample_env COMPRESS_NONE 5 1024 sample_coarse s A \<and>
     A Reorder_thread = Some (Not_empty (Reorder_que 0)) \<and>
     ((\<exists>s' A'. cv_step sample_env COMPRESS_NONE 5 (s, A) (s', A')) \<or> all_ended 5 s)"
proof -
  obtain s where s: "cv_reaches sample_env COMPRESS_NONE 5 1024 sample_coarse s [Reorder_thread \<mapsto> Not_empty (Reorder_que 0)]"
    using sample_asleep by blast
  have "(\<exists>s' A'. cv_step sample_env COMPRESS_NONE 5 (s, [Reorder_thread \<mapsto> Not_empty (Reorder_que 0)]) (s', A')) \<or> all_ended 5 s"
    by (rule dedup_stages_no_deadlock [OF sample_input sample_fragment sample_refine _ _ _ _ s]) simp_all
  with s show ?thesis by (metis fun_upd_same)
qed


theorem dedup_stages_terminates_witness:
  "\<exists>m. fresh_memory sample_env COMPRESS_NONE m \<and>
     \<not> (\<exists>f. f 0 = encode_threads 5 1024 sample_coarse m \<and> (\<forall>i. encoder_step sample_env COMPRESS_NONE 5 (f i) (f (Suc i))))"
proof -
  obtain m where m: "fresh_memory sample_env COMPRESS_NONE m" using sample_memory by blast
  have "\<not> (\<exists>f. f 0 = encode_threads 5 1024 sample_coarse m \<and> (\<forall>i. encoder_step sample_env COMPRESS_NONE 5 (f i) (f (Suc i))))"
    by (rule dedup_stages_terminates [OF sample_input sample_fragment _ _ m]) simp_all
  with m show ?thesis by blast
qed

end
