(* ===== verification/Spec2Isabelle.thy ===== *)
theory Spec2Isabelle
  imports Buffer_Queue_Threads Lock_Free_Queue_Threads Shared_Ends Concurrent_Priority_Queue
    Latch Barrier Counter_Load Stream_Mutex Serial_Executor Mutable_Thread Thread_Pool
    Pipeline_Examples Pipeline_Instance Map_Reduce_Examples Dedup_Mbuffer Dedup_Stages_Examples
begin

text \<open>
  A model of the Google Concurrency Library (\<open>include/*.h\<close>, \<open>src/*.cc\<close>) and of its larger sample, the
  PARSEC program \<open>samples/dedup\<close>, with the theorems that make their parts correct.

  \<^bold>\<open>The program.\<close> The library has bounded queues (\<open>buffer_queue\<close>, \<open>lock_free_buffer_queue\<close>) behind the
  interface of \<open>queue_base.h\<close>, counters that many threads update, one-shot and cyclic barriers, threads that take
  functions (\<open>mutable_thread\<close>, \<open>serial_executor\<close>, \<open>simple_thread_pool\<close>), and two frameworks on top of them:
  \<open>pipeline.h\<close> runs functions connected by queues on a thread pool, \<open>map_reduce.h\<close> runs mappers and reducers on
  one. The sample dedup cuts a file into chunks at Rabin fingerprints, replaces repeated chunks by their SHA-1
  sums and compresses the others, serially or in five stages of threads connected by queues.

  \<^bold>\<open>Conventions.\<close> A method is a function from the object's state to an outcome and the new state; an
  outcome is a value, an exception, a thread that sleeps on a condition variable, or undefined
  behaviour (\<open>Gcl_Prelude\<close>). In the C program a result is \<open>Inl\<close> of the message it exits with, or \<open>Inr\<close>.
  \<open>size_t\<close> and the other fixed-width counters are words where their wrap-around matters. Element types are
  arbitrary; the user's operations on them that may throw are a boolean argument that says whether they do.
  Threads are step relations: a step is a critical section, or one shared access where the code has no lock.

  \<^bold>\<open>Queues.\<close>

  \<^item> \<open>Gcl_Prelude\<close>: outcomes, \<open>size_t\<close>, ring arithmetic.
  \<^item> \<open>Queue_Base\<close> (\<open>queue_base.h\<close>): the virtual interface, the ends, wrappers and iterators that
    forward to it, and the locale \<open>bounded_queue\<close>, the FIFO contract of the bounded queues.
  \<^item> \<open>Buffer_Queue\<close> (\<open>buffer_queue.h\<close>): every operation as the state change of its critical section;
    interpretation of \<open>bounded_queue\<close>, which gives that the queue is a FIFO list with a capacity.
  \<^item> \<open>Buffer_Queue_Threads\<close>: any number of threads on one queue, with the condition variables; no wake-up is lost
    and the elements come out in the order in which they went in. The bodies of the \<open>try\<close> blocks
    (\<open>wait_pop_body\<close> and the like) are one critical section, the \<open>close()\<close> of their handlers another.
  \<^item> \<open>Lock_Free_Queue\<close> (\<open>lock_free_buffer_queue.h\<close>): the operations one thread runs alone, on 64 bit
    counters that wrap; interpretation of \<open>bounded_queue\<close>.
  \<^item> \<open>Lock_Free_Queue_Threads\<close>: the operations taken apart into their atomic accesses; concurrent FIFO, and what
    goes wrong with a weak compare-and-swap that fails spuriously or an element copy that throws.
  \<^item> \<open>Shared_Ends\<close> (\<open>queue_base.h\<close>): the reference-counted ends; the queue lives as long as an end does.
  \<^item> \<open>Priority_Spec\<close>, \<open>Concurrent_Priority_Queue\<close> (\<open>concurrent_priority_queue.h\<close>): the contract of a priority queue
    as the locale \<open>priority_queue\<close>, and the class on the heap algorithms of the standard library.

  \<^bold>\<open>Counting and synchronisation.\<close>

  \<^item> \<open>Latch\<close> (\<open>latch.cc\<close>, \<open>countdown_latch.cc\<close>): the locale \<open>one_shot_latch\<close> with both classes as instances, and
    a latch with any number of threads.
  \<^item> \<open>Barrier\<close> (\<open>flex_barrier.cc\<close>, \<open>barrier.cc\<close>): threads leave only when all have arrived, round by round; the
    run of \<open>barrier\<close> that sleeps for ever, and the flexible barrier after a completion function that throws.
  \<^item> \<open>Counter_Code\<close>, \<open>Counters\<close> (\<open>counter.h\<close>): the methods as trees of accesses to shared memory;
    \<open>Counter_Logic\<close>: a weakest precondition for one thread that holds whatever the others do;
    \<open>Counter_Programs\<close>: no count is lost and every program ends; \<open>Counter_Load\<close>: bounds for what a load returns.
  \<^item> \<open>Stream_Mutex\<close> (\<open>stream_mutex.h\<close>, \<open>stream_mutex.cc\<close>): what a thread does on a stream in one expression is not
    broken up by other threads.

  \<^bold>\<open>Threads, pipelines, map and reduce.\<close>

  \<^item> \<open>Serial_Executor\<close>, \<open>Mutable_Thread\<close>, \<open>Thread_Pool\<close>: the classes of the same names; functions run in
    order, at most once, and a thread is lent to one client at a time.
  \<^item> \<open>Pipeline_Segments\<close> (\<open>pipeline.h\<close>: segments, merging, cloning), \<open>Pipeline_Threads\<close> (the \<open>run_*\<close> functions as
    step machines over the queues of \<open>Buffer_Queue\<close>), \<open>Pipeline_Safety\<close> (what the types promise), \<open>Pipeline_Build\<close>
    (which plan an expression builds), \<open>Pipeline_Progress\<close> (no plan gets stuck), \<open>Pipeline_Results\<close> (weights
    of elements), \<open>Pipeline_Users\<close> (a plan with the user at the ends of its queues: the properties), \<open>Pipeline_Instance\<close> (the start on a thread pool), \<open>Pipeline_Examples\<close>.
  \<^item> \<open>Map_Reduce_Loops\<close> (\<open>map_reduce_impl.h\<close>: the loops of mappers and reducers on a shared queue), \<open>Map_Reduce\<close>
    (\<open>map_reduce.h\<close>: \<open>run\<close>, the shuffle, the shards; what is reduced, that \<open>run\<close> returns when
    the threads run what they accept, and that it does not otherwise), \<open>Map_Reduce_Examples\<close>.

  \<^bold>\<open>The data structures of dedup.\<close>

  \<^item> \<open>Dedup_Ring\<close> (\<open>queue.h\<close>, \<open>queue.c\<close>): the ring buffer as an instance of \<open>bounded_queue\<close>, the batch queue.
  \<^item> \<open>Dedup_Defs\<close> (\<open>dedupdef.h\<close>): sequence numbers, an instance of \<open>linorder\<close>.
  \<^item> \<open>Dedup_Heap\<close> (\<open>binheap.c\<close>, an instance of \<open>priority_queue\<close>), \<open>Dedup_Tree\<close> (\<open>tree.c\<close>), \<open>Dedup_Hashtable\<close>
    (\<open>hashtable.c\<close>, a map; locale \<open>hash_client\<close> for the key functions), \<open>Dedup_Rabin\<close> (\<open>rabin.c\<close>: the rolling
    fingerprint is the polynomial remainder of the window), \<open>Dedup_Mbuffer\<close> (\<open>mbuffer.c\<close>: areas are freed with
    their last buffer, the \<open>mbuffer_t\<close> of clones and copies never), \<open>Dedup_Archive\<close> (\<open>util.c\<close> and the record format, with its round trip).

  \<^bold>\<open>The dedup program\<close> (\<open>encoder.c\<close>, \<open>decoder.c\<close>).

  \<^item> \<open>Dedup_Serial\<close>, \<open>Dedup_Roundtrip\<close>: the serial encoder and the decoder; decoding gives the input back.
  \<^item> \<open>Dedup_Fragment\<close>, \<open>Dedup_Fragment_Bounds\<close>: coarse and fine chunks, their numbers, and the bounds of these.
  \<^item> \<open>Dedup_Reorder\<close>: the last stage puts the chunks in order and ends with an empty cache.
  \<^item> \<open>Dedup_Parallel\<close>: the kernels on shared chunks as atomic steps; the abstract parallel encoder, which writes
    what the serial one writes.
  \<^item> \<open>Dedup_Stages\<close>: the five thread functions with their buffers, groups and queues, as \<open>Encode\<close> starts them.
    \<open>Dedup_Stages_Queues\<close> gives one rule for each queue operation; \<open>Dedup_Stages_Inv\<close> and \<open>Dedup_Stages_Ends\<close>
    what each thread keeps; \<open>Dedup_Stages_Link\<close> relates the memory to that of \<open>Dedup_Parallel\<close>;
    \<open>Dedup_Stages_Run\<close> and \<open>Dedup_Stages_Correct\<close> prove that each run of the threads refines a run of
    \<open>Dedup_Parallel\<close> (\<open>encoder_inv\<close>, \<open>encoder_step_inv\<close>); \<open>Dedup_Stages_Result\<close> that no assertion fails and
    the archive decodes to the input; \<open>Dedup_Stages_Progress\<close> and \<open>Dedup_Stages_Runs\<close> that some thread can go on
    until all have ended, and that all runs end. In these a thread that waits has no step until its condition holds.
    \<open>Dedup_Stages_Sleep\<close> adds the condition variables: threads go to sleep, and signals and broadcasts wake them;
    \<open>Dedup_Stages_Turns\<close> and \<open>Dedup_Stages_Wakeups\<close> prove that no wake-up is lost, so that the threads still do not block
    each other and come to their end; \<open>Dedup_Stages_Examples\<close> has a run.

  \<^bold>\<open>Bounds and fuel.\<close> \<open>write_loop\<close> of \<open>Dedup_Reorder\<close> gets one more round than there are chunks in the cache, and
  \<open>flush_loop\<close> as many as there are: each round takes a chunk out, so they never run out. The busy loops of
  \<open>lock_free_buffer_queue\<close> are \<open>partial_function (option)\<close>, where \<open>None\<close> is a loop that does not end. The
  theorems on dedup are for inputs below 2 GB, since the code keeps sizes as \<open>int\<close>; there are then at most 1024
  coarse chunks. The size of the queues between the stages is a parameter (\<open>QUEUE_SIZE\<close> is \<open>2 ^ 20\<close>):
  that no assertion fails, that the archive is right and that the runs end hold for every size; that the threads
  do not block each other holds for inputs of at most as many fine chunks as a queue has room for. Beyond that
  \<open>Reorder\<close>, which waits for one queue while others fill up, can block them.

  \<^bold>\<open>Not modelled.\<close> The memory orders of the atomics: every access is sequentially consistent. The condition
  variables of the queues of pipelines: a thread that would wait has no step until its condition holds;
  \<open>Buffer_Queue_Threads\<close> shows for \<open>buffer_queue\<close> that the wake-ups do arrive. Functions of a pipeline that throw or close
  the queue they write. Overflow of the \<open>int\<close> sizes of \<open>binheap.c\<close> and of the array of anchors when they are doubled; a
  negative argument of \<open>latch::count_down\<close>; writes of dedup that fail; calls of \<open>serial_executor::execute\<close> while the object is
  destroyed; ends of a queue that are released at the same time, apart from the run that deletes it twice. SHA-1, zlib,
  bzip2 and \<open>malloc\<close> are parameters with what the program relies on as hypotheses: a sum has five words and does
  not collide on the pieces of the input (\<open>sums_ok\<close>), and the libraries decompress what they have compressed when the
  buffer has room (\<open>codec_ok\<close>). That the decoder's own buffer of 10,000,000 bytes has room is a condition on the
  input (\<open>decoder_fits\<close>), not on the libraries. The arrays of
  duplex counters in \<open>counter.h\<close> declare their operations and never define them. \<open>source.h\<close> and
  \<open>iterator_queue.h\<close> do not fit each other or the queues and cannot be used. \<open>dynarray.h\<close> and \<open>scoped_guard.h\<close>
  hold no shared state. Printing, statistics counters of the threads, the command line, \<open>samples/blackscholes\<close>,
  the old version under \<open>archive\<close>, and the tests are left out.
\<close>

end
